(* ===== verification/Prelude.thy ===== *)
theory Prelude
  imports Main "HOL-Library.Word" "HOL-Library.Monad_Syntax"
begin

text \<open>
  Shared vocabulary of the development.

  A Rust function that may panic (failed \<open>assert!\<close>, \<open>expect\<close>, \<open>unwrap\<close>, slice index out of
  bounds, checked arithmetic) is a function into \<open>'a option\<close>, with \<open>None\<close> for the panic; the
  type synonym \<open>'a panics\<close> marks such results.  A Rust \<open>Option\<close> or \<open>Result\<close> that is a
  value of the program is an \<open>option\<close> or a sum inside.  Sequencing is the library's
  \<open>do\<close>-notation on \<open>option\<close>.  Typed indices (\<open>newtype_index!\<close>) and \<open>usize\<close> values are
  natural numbers with the bound checks of the code written out; the integers whose bits or
  wrap-around matter are words of their width.
\<close>

unbundle bit_operations_syntax

type_synonym 'a panics = "'a option"

type_synonym u8 = "8 word"
type_synonym u16 = "16 word"
type_synonym u32 = "32 word"
type_synonym u64 = "64 word"
type_synonym u256 = "256 word"
type_synonym u512 = "512 word"

named_theorems panic_simps \<open>when a partial operation succeeds, and with what value\<close>
named_theorems abs_simps \<open>effect of an operation under its abstraction function\<close>
named_theorems inv_intros \<open>preservation of representation invariants\<close>

section \<open>Operations that may panic\<close>

definition ensure :: "bool \<Rightarrow> unit panics" where
  "ensure b = (if b then Some () else None)"

lemma ensure_simps [simp]: "ensure True = Some ()" "ensure False = None"
  by (simp_all add: ensure_def)

lemma ensure_Some [panic_simps, simp]: "ensure b = Some u \<longleftrightarrow> b"
  by (simp add: ensure_def)

lemma ensure_None [simp]: "ensure b = None \<longleftrightarrow> \<not> b"
  by (simp add: ensure_def)

definition get_at :: "'a list \<Rightarrow> nat \<Rightarrow> 'a option" where
  "get_at xs i = (if i < length xs then Some (xs ! i) else None)"

definition set_at :: "'a list \<Rightarrow> nat \<Rightarrow> 'a \<Rightarrow> 'a list panics" where
  "set_at xs i v = (if i < length xs then Some (xs[i := v]) else None)"

lemma get_at_Some [panic_simps]: "get_at xs i = Some v \<longleftrightarrow> i < length xs \<and> xs ! i = v"
  by (auto simp: get_at_def)

lemma get_at_None [panic_simps]: "get_at xs i = None \<longleftrightarrow> length xs \<le> i"
  by (auto simp: get_at_def)

lemma get_at_in [simp]: "i < length xs \<Longrightarrow> get_at xs i = Some (xs ! i)"
  by (simp add: get_at_def)

lemma get_at_out [simp]: "length xs \<le> i \<Longrightarrow> get_at xs i = None"
  by (simp add: get_at_def)

lemma set_at_Some [panic_simps]: "set_at xs i v = Some ys \<longleftrightarrow> i < length xs \<and> ys = xs[i := v]"
  by (auto simp: set_at_def)

lemma set_at_in [simp]: "i < length xs \<Longrightarrow> set_at xs i v = Some (xs[i := v])"
  by (simp add: set_at_def)

text \<open>Subtraction of unsigned integers, panicking on underflow.\<close>

definition sub_checked :: "nat \<Rightarrow> nat \<Rightarrow> nat panics" where
  "sub_checked a b = (if b \<le> a then Some (a - b) else None)"

lemma sub_checked_Some [panic_simps]: "sub_checked a b = Some c \<longleftrightarrow> b \<le> a \<and> c = a - b"
  by (auto simp: sub_checked_def)

text \<open>The values of \<open>u32\<close> offsets and counters, with additions that panic on overflow.\<close>

definition u32_max :: nat where
  "u32_max = 4294967295"

definition add_u32 :: "nat \<Rightarrow> nat \<Rightarrow> nat panics" where
  "add_u32 a b = (if a + b \<le> u32_max then Some (a + b) else None)"

lemma add_u32_Some [panic_simps]: "add_u32 a b = Some c \<longleftrightarrow> a + b \<le> u32_max \<and> c = a + b"
  by (auto simp: add_u32_def)

text \<open>Slices \<open>xs[a..b]\<close> and \<open>xs[a..]\<close>.\<close>

definition slice_of :: "'a list \<Rightarrow> nat \<Rightarrow> nat \<Rightarrow> 'a list panics" where
  "slice_of xs a b = (if a \<le> b \<and> b \<le> length xs then Some (take (b - a) (drop a xs)) else None)"

lemma slice_of_Some [panic_simps]:
  "slice_of xs a b = Some ys \<longleftrightarrow> a \<le> b \<and> b \<le> length xs \<and> ys = take (b - a) (drop a xs)"
  by (auto simp: slice_of_def)

definition slice_from :: "'a list \<Rightarrow> nat \<Rightarrow> 'a list panics" where
  "slice_from xs a = slice_of xs a (length xs)"

lemma slice_from_Some [panic_simps]:
  "slice_from xs a = Some ys \<longleftrightarrow> a \<le> length xs \<and> ys = drop a xs"
  by (auto simp: slice_from_def slice_of_def)

lemmas bind_Some = bind_eq_Some_conv bind_eq_None_conv

text \<open>Propagating the error of a \<open>Result\<close>, as the \<open>?\<close> operator does.\<close>

lemma case_sum_Inr [panic_simps]:
  "(case r of Inl e \<Rightarrow> Some (Inl e) | Inr x \<Rightarrow> f x) = Some (Inr y) \<longleftrightarrow> (\<exists>x. r = Inr x \<and> f x = Some (Inr y))"
  by (cases r) auto

lemma case_sum_Inl [panic_simps]:
  "(case r of Inl e \<Rightarrow> Some (Inl e) | Inr x \<Rightarrow> f x) = Some (Inl e) \<longleftrightarrow>
   r = Inl e \<or> (\<exists>x. r = Inr x \<and> f x = Some (Inl e))"
  by (cases r) auto

section \<open>Monadic loops\<close>

text \<open>A \<open>for\<close> loop over a list whose body may panic.\<close>

fun fold_panics :: "('a \<Rightarrow> 's \<Rightarrow> 's panics) \<Rightarrow> 'a list \<Rightarrow> 's \<Rightarrow> 's panics" where
  "fold_panics f [] s = Some s"
| "fold_panics f (x # xs) s = do { s' \<leftarrow> f x s; fold_panics f xs s' }"

lemma fold_panics_append [simp]:
  "fold_panics f (xs @ ys) s = do { s' \<leftarrow> fold_panics f xs s; fold_panics f ys s' }"
  by (induction xs arbitrary: s) (auto split: bind_splits)

lemma fold_panics_cong [fundef_cong]:
  assumes "xs = ys" and "s = t" and "\<And>x u. x \<in> set ys \<Longrightarrow> f x u = g x u"
  shows "fold_panics f xs s = fold_panics g ys t"
  using assms(3) unfolding assms(1,2)
proof (induction ys arbitrary: t)
  case (Cons y ys)
  then show ?case
    by (cases "g y t") auto
qed simp

lemma fold_panics_invariant:
  assumes "fold_panics f xs s = Some t" and "P s"
    and "\<And>x u v. x \<in> set xs \<Longrightarrow> P u \<Longrightarrow> f x u = Some v \<Longrightarrow> P v"
  shows "P t"
  using assms by (induction xs arbitrary: s) (auto simp: bind_Some)

lemma fold_panics_total:
  assumes "P s" and "\<And>x u. x \<in> set xs \<Longrightarrow> P u \<Longrightarrow> \<exists>v. f x u = Some v \<and> P v"
  shows "\<exists>t. fold_panics f xs s = Some t \<and> P t"
  using assms
proof (induction xs arbitrary: s)
  case (Cons x xs)
  then obtain v where "f x s = Some v" "P v"
    by (meson list.set_intros(1))
  with Cons show ?case
    by simp
qed simp

lemma fold_panics_pure: "fold_panics (\<lambda>x s. Some (f x s)) xs s = Some (fold f xs s)"
  by (induction xs arbitrary: s) auto

text \<open>Collecting the results of a fallible function, as \<open>map\<close> over panicking code does.\<close>

fun map_panics :: "('a \<Rightarrow> 'b panics) \<Rightarrow> 'a list \<Rightarrow> 'b list panics" where
  "map_panics f [] = Some []"
| "map_panics f (x # xs) = do { y \<leftarrow> f x; ys \<leftarrow> map_panics f xs; Some (y # ys) }"

lemma map_panics_Some:
  "map_panics f xs = Some ys \<longleftrightarrow> list_all2 (\<lambda>x y. f x = Some y) xs ys"
  by (induction xs arbitrary: ys) (auto simp: bind_Some list_all2_Cons1)

section \<open>Lists\<close>

text \<open>\<open>Vec::resize\<close>: truncate or pad with a value.\<close>

definition resize :: "nat \<Rightarrow> 'a \<Rightarrow> 'a list \<Rightarrow> 'a list" where
  "resize n v xs = take n xs @ replicate (n - length xs) v"

lemma length_resize [simp]: "length (resize n v xs) = n"
  by (simp add: resize_def)

lemma nth_resize: "i < n \<Longrightarrow> resize n v xs ! i = (if i < length xs then xs ! i else v)"
  by (auto simp: resize_def nth_append)

lemma resize_same [simp]: "resize (length xs) v xs = xs"
  by (simp add: resize_def)

text \<open>\<open>Iterator::position\<close>.\<close>

fun position :: "('a \<Rightarrow> bool) \<Rightarrow> 'a list \<Rightarrow> nat option" where
  "position p [] = None"
| "position p (x # xs) = (if p x then Some 0 else map_option Suc (position p xs))"

lemma position_Some:
  "position p xs = Some i \<longleftrightarrow> i < length xs \<and> p (xs ! i) \<and> (\<forall>j<i. \<not> p (xs ! j))"
proof (induction xs arbitrary: i)
  case (Cons x xs)
  show ?case
    by (cases i) (auto simp: Cons less_Suc_eq_0_disj)
qed simp

lemma position_None: "position p xs = None \<longleftrightarrow> (\<forall>x\<in>set xs. \<not> p x)"
  by (induction xs) auto

text \<open>\<open>Iterator::find_map\<close>.\<close>

fun find_map :: "('a \<Rightarrow> 'b option) \<Rightarrow> 'a list \<Rightarrow> 'b option" where
  "find_map f [] = None"
| "find_map f (x # xs) = (case f x of Some y \<Rightarrow> Some y | None \<Rightarrow> find_map f xs)"

lemma find_map_SomeD: "find_map f xs = Some y \<Longrightarrow> \<exists>x\<in>set xs. f x = Some y"
  by (induction xs) (auto split: option.splits)

lemma find_map_None: "find_map f xs = None \<longleftrightarrow> (\<forall>x\<in>set xs. f x = None)"
  by (induction xs) (auto split: option.splits)

section \<open>Words\<close>

lemma unat_drop_bit: "unat (drop_bit n (w :: 'a::len word)) = unat w div 2 ^ n"
proof -
  have "take_bit LENGTH('a) (unat w) = unat w"
    using unsigned_less [of w] by (simp add: take_bit_nat_eq_self)
  then have "unat (drop_bit n w) = drop_bit n (unat w)"
    by (simp only: unsigned_drop_bit_eq)
  then show ?thesis
    by (simp only: drop_bit_eq_div [of n "unat w"])
qed

lemma mod_carry: "(a :: nat) < 2 * m \<Longrightarrow> a mod m + m * (if m \<le> a then 1 else 0) = a"
  by (cases "m \<le> a") (simp_all add: le_mod_geq)

lemma sum_list_take_mono: "i \<le> j \<Longrightarrow> sum_list (take i xs) \<le> sum_list (take j (xs :: nat list))"
  by (metis le_add1 le_add_diff_inverse sum_list_append take_add)

end
