(* ===== verification/Bitset.thy ===== *)
theory Bitset
  imports Prelude
begin

text \<open>
  Bit vectors stored as a list of machine words, the representation shared by
  \<open>DenseIndexSet\<close> (\<open>usize\<close> words) and by the operation sets of the scheduler (\<open>u8\<close> words).
  \<open>bits_of\<close> is the set such a list stands for; the lemmas say what one word operation does to it.
  The locale \<open>index_set\<close> is the interface both implement.
\<close>

section \<open>Single words\<close>

definition count_ones :: "'a::len word \<Rightarrow> nat" where
  "count_ones w = length (filter (bit w) [0..<LENGTH('a)])"

definition trailing_zeros :: "'a::len word \<Rightarrow> nat" where
  "trailing_zeros w = length (takeWhile (\<lambda>n. \<not> bit w n) [0..<LENGTH('a)])"

definition test_bit :: "'a::len word \<Rightarrow> nat \<Rightarrow> bool" where
  "test_bit w b = (w AND push_bit b 1 \<noteq> 0)"

lemma test_bit_iff [simp]: "test_bit (w :: 'a::len word) b \<longleftrightarrow> bit w b"
proof -
  have "w AND push_bit b 1 = (if bit w b then push_bit b 1 else 0)"
    by (rule bit_word_eqI) (auto simp: bit_simps)
  moreover have "bit w b \<Longrightarrow> push_bit b 1 \<noteq> (0 :: 'a word)"
    by (metis bit_imp_le_length bit_push_bit_iff bit_1_0 diff_self_eq_0 le_refl bit_0_eq
        bot_apply bot_bool_def push_bit_of_1 possible_bit_word possible_bit_def exp_eq_0_imp_not_bit)
  ultimately show ?thesis
    by (simp add: test_bit_def)
qed

lemma count_ones_eq_card: "count_ones (w :: 'a::len word) = card {n. bit w n}"
proof -
  have "{n. bit w n} = set (filter (bit w) [0..<LENGTH('a)])"
    by (auto dest: bit_imp_le_length)
  moreover have "distinct (filter (bit w) [0..<LENGTH('a)])"
    by simp
  ultimately show ?thesis
    unfolding count_ones_def by (metis distinct_card)
qed

lemma trailing_zeros_spec:
  assumes "w \<noteq> (0 :: 'a::len word)"
  shows "bit w (trailing_zeros w)" and "\<And>n. n < trailing_zeros w \<Longrightarrow> \<not> bit w n"
proof -
  let ?xs = "[0..<LENGTH('a)]" and ?P = "\<lambda>n. \<not> bit w n"
  obtain n where n: "bit w n" "n < LENGTH('a)"
    using assms bit_word_eqI [of w 0] by (auto simp: bit_imp_le_length)
  have len: "length (takeWhile ?P ?xs) < length ?xs"
  proof (rule ccontr)
    assume "\<not> ?thesis"
    then have "takeWhile ?P ?xs = ?xs"
      by (metis linorder_neqE_nat not_less_iff_gr_or_eq length_takeWhile_le takeWhile_eq_take
          take_all_iff not_less)
    with n show False
      by (metis atLeast0LessThan lessThan_iff set_takeWhileD set_upt)
  qed
  from nth_length_takeWhile [OF len] len show "bit w (trailing_zeros w)"
    by (simp add: trailing_zeros_def)
  show "\<not> bit w m" if "m < trailing_zeros w" for m
  proof -
    have "takeWhile ?P ?xs ! m \<in> set (takeWhile ?P ?xs)"
      using that by (intro nth_mem) (simp add: trailing_zeros_def)
    moreover have "takeWhile ?P ?xs ! m = m"
      using that len by (simp add: trailing_zeros_def takeWhile_nth)
    ultimately show ?thesis
      by (metis set_takeWhileD)
  qed
qed

lemma trailing_zeros_less: "w \<noteq> (0 :: 'a::len word) \<Longrightarrow> trailing_zeros w < LENGTH('a)"
  using trailing_zeros_spec(1) bit_imp_le_length by blast

text \<open>\<open>w & (w - 1)\<close> drops the lowest set bit.\<close>

lemma bit_drop_lowest:
  assumes "w \<noteq> (0 :: 'a::len word)"
  shows "bit (w AND (w - 1)) n \<longleftrightarrow> bit w n \<and> n \<noteq> trailing_zeros w"
proof -
  let ?k = "trailing_zeros w"
  define u where "u = unset_bit ?k w"
  have k: "bit w ?k" "\<And>m. m < ?k \<Longrightarrow> \<not> bit w m" "?k < LENGTH('a)"
    using trailing_zeros_spec [OF assms] trailing_zeros_less [OF assms] by auto
  have "u AND push_bit ?k 1 = 0"
    by (rule bit_word_eqI) (auto simp: u_def bit_simps)
  then have "u + push_bit ?k 1 = u OR push_bit ?k 1"
    by (rule disjunctive_add_eq_or)
  also have "\<dots> = w"
    by (rule bit_word_eqI) (use k in \<open>auto simp: u_def bit_simps\<close>)
  finally have "w - 1 = u + mask ?k"
    by (simp add: mask_eq_exp_minus_1 push_bit_of_1 algebra_simps)
  also have "u AND mask ?k = 0"
    by (rule bit_word_eqI) (use k in \<open>auto simp: u_def bit_simps\<close>)
  then have "u + mask ?k = u OR mask ?k"
    by (rule disjunctive_add_eq_or)
  finally have "w - 1 = u OR mask ?k" .
  then show ?thesis
    using k by (auto simp: u_def bit_simps dest: bit_imp_le_length)
qed

section \<open>Lists of words\<close>

definition bits_of :: "'a::len word list \<Rightarrow> nat set" where
  "bits_of ws = {i. i div LENGTH('a) < length ws \<and> bit (ws ! (i div LENGTH('a))) (i mod LENGTH('a))}"

lemma mem_bits_of:
  "i \<in> bits_of (ws :: 'a::len word list) \<longleftrightarrow>
     i div LENGTH('a) < length ws \<and> bit (ws ! (i div LENGTH('a))) (i mod LENGTH('a))"
  by (simp add: bits_of_def)

lemma bits_of_bound: "i \<in> bits_of (ws :: 'a::len word list) \<Longrightarrow> i < length ws * LENGTH('a)"
  by (auto simp: mem_bits_of less_mult_imp_div_less div_less_iff_less_mult)

lemma bits_of_bound_subset: "bits_of (ws :: 'a::len word list) \<subseteq> {..<length ws * LENGTH('a)}"
  by (auto dest: bits_of_bound)

lemma finite_bits_of [simp]: "finite (bits_of ws)"
  by (rule finite_subset [OF bits_of_bound_subset]) simp

lemma div_mod_eq_iff:
  "0 < (l :: nat) \<Longrightarrow> (i div l = j div l \<and> i mod l = j mod l) \<longleftrightarrow> i = j"
  by (metis div_mult_mod_eq)

lemma bits_of_update:
  fixes ws :: "'a::len word list"
  assumes "i div LENGTH('a) < length ws"
    and "\<And>b. b < LENGTH('a) \<Longrightarrow> bit v b = (if b = i mod LENGTH('a) then p else bit (ws ! (i div LENGTH('a))) b)"
  shows "bits_of (ws[i div LENGTH('a) := v]) = (if p then insert i (bits_of ws) else bits_of ws - {i})"
proof (rule set_eqI)
  fix j
  have eq: "j div LENGTH('a) = i div LENGTH('a) \<and> j mod LENGTH('a) = i mod LENGTH('a) \<longleftrightarrow> j = i"
    by (rule div_mod_eq_iff) simp
  show "j \<in> bits_of (ws[i div LENGTH('a) := v]) \<longleftrightarrow>
      j \<in> (if p then insert i (bits_of ws) else bits_of ws - {i})"
    using assms eq by (auto simp: mem_bits_of nth_list_update split: if_splits)
qed

lemma bits_of_set [abs_simps]:
  fixes ws :: "'a::len word list"
  assumes "i div LENGTH('a) < length ws"
  shows "bits_of (ws[i div LENGTH('a) := ws ! (i div LENGTH('a)) OR push_bit (i mod LENGTH('a)) 1]) =
    insert i (bits_of ws)"
  using bits_of_update [OF assms, where p = True] by (simp add: bit_simps)

lemma bits_of_clear [abs_simps]:
  fixes ws :: "'a::len word list"
  assumes "i div LENGTH('a) < length ws"
  shows "bits_of (ws[i div LENGTH('a) := ws ! (i div LENGTH('a)) AND NOT (push_bit (i mod LENGTH('a)) 1)]) =
    bits_of ws - {i}"
  using bits_of_update [OF assms, where p = False] by (simp add: bit_simps)

lemma bits_of_pad [simp]: "bits_of (ws @ replicate n 0) = bits_of (ws :: 'a::len word list)"
  by (auto simp: mem_bits_of nth_append split: if_splits)

lemma bits_of_zeros [simp]: "bits_of (replicate n 0) = {}"
  by (auto simp: mem_bits_of)

lemma bits_of_Nil [simp]: "bits_of [] = {}"
  by (auto simp: mem_bits_of)

lemma bits_of_resize: "length ws \<le> n \<Longrightarrow> bits_of (resize n 0 ws) = bits_of (ws :: 'a::len word list)"
  by (simp add: resize_def)

lemma bits_of_empty_iff: "bits_of (ws :: 'a::len word list) = {} \<longleftrightarrow> (\<forall>w\<in>set ws. w = 0)"
proof
  assume empty: "bits_of ws = {}"
  show "\<forall>w\<in>set ws. w = 0"
  proof
    fix w assume "w \<in> set ws"
    then obtain k where k: "k < length ws" "w = ws ! k"
      by (metis in_set_conv_nth)
    have "\<not> bit w b" if "b < LENGTH('a)" for b
      using empty k that mem_bits_of [of "k * LENGTH('a) + b" ws] by auto
    then show "w = 0"
      by (intro bit_word_eqI) auto
  qed
next
  assume "\<forall>w\<in>set ws. w = 0"
  then have "ws ! k = 0" if "k < length ws" for k
    using that by simp
  then show "bits_of ws = {}"
    by (auto simp: mem_bits_of)
qed

lemma bits_of_Cons:
  "bits_of (w # ws) = {n. bit w n} \<union> (\<lambda>i. i + LENGTH('a)) ` bits_of (ws :: 'a::len word list)"
proof (rule set_eqI)
  fix i
  show "i \<in> bits_of (w # ws) \<longleftrightarrow> i \<in> {n. bit w n} \<union> (\<lambda>i. i + LENGTH('a)) ` bits_of ws"
  proof (cases "i < LENGTH('a)")
    case True
    then show ?thesis
      by (auto simp: mem_bits_of)
  next
    case False
    then have "i div LENGTH('a) = Suc ((i - LENGTH('a)) div LENGTH('a))"
      and "i mod LENGTH('a) = (i - LENGTH('a)) mod LENGTH('a)"
      by (simp_all add: le_div_geq le_mod_geq)
    then have "i \<in> bits_of (w # ws) \<longleftrightarrow> i - LENGTH('a) \<in> bits_of ws"
      by (simp add: mem_bits_of)
    moreover have "i \<in> (\<lambda>i. i + LENGTH('a)) ` bits_of ws \<longleftrightarrow> i - LENGTH('a) \<in> bits_of ws"
      using False by (force simp: image_iff)
    ultimately show ?thesis
      using False by (auto dest: bit_imp_le_length)
  qed
qed

lemma card_bits_of: "sum_list (map count_ones ws) = card (bits_of (ws :: 'a::len word list))"
proof (induction ws)
  case (Cons w ws)
  have fin: "finite {n. bit w n}"
    by (rule finite_subset [of _ "{..<LENGTH('a)}"]) (auto dest: bit_imp_le_length)
  have "{n. bit w n} \<inter> (\<lambda>i. i + LENGTH('a)) ` bits_of ws = {}"
    by (auto dest: bit_imp_le_length)
  moreover have "card ((\<lambda>i. i + LENGTH('a)) ` bits_of ws) = card (bits_of ws)"
    by (rule card_image) (simp add: inj_on_def)
  ultimately show ?case
    using Cons fin by (simp add: bits_of_Cons card_Un_disjoint count_ones_eq_card)
qed simp

lemma bits_of_map2_or:
  assumes "length vs = length (ws :: 'a::len word list)"
  shows "bits_of (map2 (OR) vs ws) = bits_of vs \<union> bits_of ws"
  using assms by (auto simp: mem_bits_of bit_simps)

lemma bits_of_map2_and:
  "bits_of (map2 (AND) vs (ws :: 'a::len word list)) = bits_of vs \<inter> bits_of ws"
  by (auto simp: mem_bits_of bit_simps)

lemma bits_of_inject:
  assumes "length vs = length ws" and "bits_of vs = bits_of (ws :: 'a::len word list)"
  shows "vs = ws"
proof (rule nth_equalityI [OF assms(1)])
  fix k assume k: "k < length vs"
  show "vs ! k = ws ! k"
  proof (rule bit_word_eqI)
    fix b assume "b < LENGTH('a)"
    then show "bit (vs ! k) b \<longleftrightarrow> bit (ws ! k) b"
      using k assms mem_bits_of [of "k * LENGTH('a) + b" vs] mem_bits_of [of "k * LENGTH('a) + b" ws]
      by auto
  qed
qed

lemma super_iff_subset:
  assumes "length vs = length (ws :: 'a::len word list)"
  shows "list_all2 (\<lambda>x y. x AND y = y) vs ws \<longleftrightarrow> bits_of ws \<subseteq> bits_of vs"
proof -
  have "list_all2 (\<lambda>x y. x AND y = y) vs ws \<longleftrightarrow> map2 (AND) vs ws = ws"
    using assms by (induction vs ws rule: list_induct2) auto
  also have "\<dots> \<longleftrightarrow> bits_of (map2 (AND) vs ws) = bits_of ws"
    using assms bits_of_inject [of "map2 (AND) vs ws" ws] by auto
  also have "\<dots> \<longleftrightarrow> bits_of ws \<subseteq> bits_of vs"
    by (auto simp: bits_of_map2_and)
  finally show ?thesis .
qed

section \<open>The interface of a set of indices\<close>

locale index_set =
  fixes abs :: "'s \<Rightarrow> nat set"
    and fits :: "'s \<Rightarrow> nat \<Rightarrow> bool"
    and contains :: "'s \<Rightarrow> nat \<Rightarrow> bool"
    and add :: "'s \<Rightarrow> nat \<Rightarrow> 's"
  assumes contains_abs: "fits s i \<Longrightarrow> contains s i \<longleftrightarrow> i \<in> abs s"
    and add_abs: "fits s i \<Longrightarrow> abs (add s i) = insert i (abs s)"
    and add_fits: "fits s i \<Longrightarrow> fits s j \<Longrightarrow> fits (add s i) j"
begin

lemma add_all_abs:
  assumes "\<And>i. i \<in> set is \<Longrightarrow> fits s i"
  shows "abs (fold (\<lambda>i s. add s i) is s) = abs s \<union> set is"
  using assms
proof (induction "is" arbitrary: s)
  case (Cons i "is")
  then have "fits (add s i) j" if "j \<in> set is" for j
    using that add_fits by simp
  with Cons show ?case
    by (auto simp: add_abs)
qed simp

lemma add_all_fits:
  assumes "\<And>i. i \<in> set is \<Longrightarrow> fits s i" and "fits s j"
  shows "fits (fold (\<lambda>i s. add s i) is s) j"
  using assms
proof (induction "is" arbitrary: s)
  case (Cons i "is")
  then have "fits (add s i) k" if "k \<in> insert j (set is)" for k
    using that add_fits by auto
  with Cons show ?case
    by simp
qed simp

lemma contains_after_adds:
  assumes "\<And>i. i \<in> set is \<Longrightarrow> fits s i" and "fits s j"
  shows "contains (fold (\<lambda>i s. add s i) is s) j \<longleftrightarrow> j \<in> abs s \<or> j \<in> set is"
  using contains_abs [OF add_all_fits [OF assms]] add_all_abs [OF assms(1)] by auto

end

end
