(* ===== verification/Evm_Arith.thy ===== *)
theory Evm_Arith
  imports Prelude "HOL-Library.Signed_Division"
begin

text \<open>
  The compile-time evaluation of EVM operations (\<open>crates/plank-evm/src/lib.rs\<close>), shared by
  constant propagation and the frontend's evaluator.  \<open>U256\<close> and \<open>U512\<close> are words of 256
  and 512 bits and \<open>I256\<close> is the two's complement reading \<open>sint\<close> of a 256-bit word: the
  fixed-width types of the \<open>alloy\<close> crate with their documented wrapping, checked and widening
  arithmetic.  \<open>usize\<close> has 64 bits.  Each operation is stated against its arithmetic
  meaning over the integers at the end of the theory.
\<close>

section \<open>The operations\<close>

definition evm_add :: "u256 \<Rightarrow> u256 \<Rightarrow> u256" where
  "evm_add a b = a + b"

definition evm_mul :: "u256 \<Rightarrow> u256 \<Rightarrow> u256" where
  "evm_mul a b = a * b"

definition evm_sub :: "u256 \<Rightarrow> u256 \<Rightarrow> u256" where
  "evm_sub a b = a - b"

definition u256_checked_div :: "u256 \<Rightarrow> u256 \<Rightarrow> u256 option" where
  "u256_checked_div a b = (if b = 0 then None else Some (a div b))"

definition u256_checked_rem :: "u256 \<Rightarrow> u256 \<Rightarrow> u256 option" where
  "u256_checked_rem a b = (if b = 0 then None else Some (a mod b))"

definition unwrap_or :: "'a option \<Rightarrow> 'a \<Rightarrow> 'a" where
  "unwrap_or x d = (case x of None \<Rightarrow> d | Some v \<Rightarrow> v)"

definition evm_div :: "u256 \<Rightarrow> u256 \<Rightarrow> u256" where
  "evm_div a b = unwrap_or (u256_checked_div a b) 0"

definition i256_wrapping_div :: "u256 \<Rightarrow> u256 \<Rightarrow> u256" where
  "i256_wrapping_div a b = word_of_int (sint a sdiv sint b)"

definition evm_sdiv :: "u256 \<Rightarrow> u256 \<Rightarrow> u256" where
  "evm_sdiv a b = (if sint b = 0 then 0 else i256_wrapping_div a b)"

definition evm_mod :: "u256 \<Rightarrow> u256 \<Rightarrow> u256" where
  "evm_mod a b = unwrap_or (u256_checked_rem a b) 0"

definition i256_min :: int where
  "i256_min = - (2 ^ 255)"

definition i256_checked_rem :: "u256 \<Rightarrow> u256 \<Rightarrow> u256 option" where
  "i256_checked_rem a b =
     (if sint b = 0 \<or> (sint a = i256_min \<and> sint b = -1) then None
      else Some (word_of_int (sint a smod sint b)))"

definition evm_smod :: "u256 \<Rightarrow> u256 \<Rightarrow> u256" where
  "evm_smod a b = unwrap_or (i256_checked_rem a b) 0"

definition u256_from_u512 :: "u512 \<Rightarrow> u256 panics" where
  "u256_from_u512 x = (if uint x < 2 ^ 256 then Some (ucast x) else None)"

definition evm_addmod :: "u256 \<Rightarrow> u256 \<Rightarrow> u256 \<Rightarrow> u256 panics" where
  "evm_addmod a b n =
     (if n = 0 then Some 0
      else u256_from_u512 ((ucast a + ucast b) mod ucast n))"

definition evm_mulmod :: "u256 \<Rightarrow> u256 \<Rightarrow> u256 \<Rightarrow> u256 panics" where
  "evm_mulmod a b n =
     (if n = 0 then Some 0
      else u256_from_u512 ((ucast a * ucast b) mod ucast n))"

definition evm_exp :: "u256 \<Rightarrow> u256 \<Rightarrow> u256" where
  "evm_exp base exponent = base ^ unat exponent"

definition usize_try_from :: "u256 \<Rightarrow> nat option" where
  "usize_try_from b = (if unat b < 2 ^ 64 then Some (unat b) else None)"

definition evm_signextend :: "u256 \<Rightarrow> u256 \<Rightarrow> u256" where
  "evm_signextend b x =
     (case usize_try_from b of
        None \<Rightarrow> x
      | Some b \<Rightarrow>
          if b < 32 then
            let sign_bit_pos = (b + 1) * 8 - 1 in
            if bit x sign_bit_pos then x OR push_bit (sign_bit_pos + 1) (- 1)
            else x AND (push_bit (sign_bit_pos + 1) 1 - 1)
          else x)"

definition evm_lt :: "u256 \<Rightarrow> u256 \<Rightarrow> bool" where
  "evm_lt a b = (a < b)"

definition evm_gt :: "u256 \<Rightarrow> u256 \<Rightarrow> bool" where
  "evm_gt a b = (a > b)"

definition evm_slt :: "u256 \<Rightarrow> u256 \<Rightarrow> bool" where
  "evm_slt a b = (sint a < sint b)"

definition evm_sgt :: "u256 \<Rightarrow> u256 \<Rightarrow> bool" where
  "evm_sgt a b = (sint a > sint b)"

definition evm_eq :: "u256 \<Rightarrow> u256 \<Rightarrow> bool" where
  "evm_eq a b = (a = b)"

definition evm_iszero :: "u256 \<Rightarrow> bool" where
  "evm_iszero a = (a = 0)"

definition evm_and :: "u256 \<Rightarrow> u256 \<Rightarrow> u256" where
  "evm_and a b = a AND b"

definition evm_or :: "u256 \<Rightarrow> u256 \<Rightarrow> u256" where
  "evm_or a b = a OR b"

definition evm_xor :: "u256 \<Rightarrow> u256 \<Rightarrow> u256" where
  "evm_xor a b = a XOR b"

definition evm_not :: "u256 \<Rightarrow> u256" where
  "evm_not a = NOT a"

definition u256_to_be_bytes :: "u256 \<Rightarrow> u8 list" where
  "u256_to_be_bytes x = map (\<lambda>i. ucast (drop_bit (8 * (31 - i)) x)) [0..<32]"

definition evm_byte :: "u256 \<Rightarrow> u256 \<Rightarrow> u256" where
  "evm_byte i x =
     (case usize_try_from i of
        None \<Rightarrow> 0
      | Some i \<Rightarrow> ucast (unwrap_or (get_at (u256_to_be_bytes x) i) 0))"

definition evm_shl :: "u256 \<Rightarrow> u256 \<Rightarrow> u256" where
  "evm_shl shift value = (if unat shift < 256 then push_bit (unat shift) value else 0)"

definition evm_shr :: "u256 \<Rightarrow> u256 \<Rightarrow> u256" where
  "evm_shr shift value = (if unat shift < 256 then drop_bit (unat shift) value else 0)"

definition i256_asr :: "u256 \<Rightarrow> nat \<Rightarrow> u256" where
  "i256_asr v n = (if n < 256 then signed_drop_bit n v else if sint v < 0 then - 1 else 0)"

definition evm_sar :: "u256 \<Rightarrow> u256 \<Rightarrow> u256" where
  "evm_sar shift value =
     (case usize_try_from shift of
        Some n \<Rightarrow> i256_asr value n
      | None \<Rightarrow> if sint value < 0 then - 1 else 0)"

section \<open>Their arithmetic meaning\<close>

lemma uint_u256_less: "uint (a :: u256) < 2 ^ 256"
  using unsigned_less [of a] by simp

lemma uint_ucast_u512 [simp]: "uint (ucast (a :: u256) :: u512) = uint a"
  by (rule uint_up_ucast) (simp add: is_up)

lemma uint_add_u512: "uint (ucast a + ucast b :: u512) = uint (a :: u256) + uint (b :: u256)"
proof -
  have "uint a + uint b < 2 ^ 256 + 2 ^ 256"
    using uint_u256_less [of a] uint_u256_less [of b] by linarith
  also have "\<dots> \<le> (2 :: int) ^ 512"
    by simp
  finally show ?thesis
    by (simp add: uint_word_ariths mod_pos_pos_trivial)
qed

lemma uint_mult_u512: "uint (ucast a * ucast b :: u512) = uint (a :: u256) * uint (b :: u256)"
proof -
  have bound: "uint a * uint b < 2 ^ (256 + 256)"
    unfolding power_add
    by (rule mult_strict_mono [OF uint_u256_less uint_u256_less]) simp_all
  have "uint (ucast a * ucast b :: u512) = uint a * uint b mod 2 ^ LENGTH(512)"
    by (simp only: uint_word_ariths uint_ucast_u512)
  also have "LENGTH(512) = 256 + 256"
    by simp
  also have "uint a * uint b mod 2 ^ (256 + 256) = uint a * uint b"
    by (rule mod_pos_pos_trivial [OF mult_nonneg_nonneg bound]) (rule unsigned_greater_eq)+
  finally show ?thesis .
qed

lemma u256_from_u512_mod:
  assumes "n \<noteq> 0" and "uint (x :: u512) = k"
  shows "u256_from_u512 (x mod ucast n) = Some (word_of_int (k mod uint (n :: u256)))"
proof -
  have pos: "0 < uint n"
    using assms(1) by (simp add: word_neq_0_conv [symmetric] uint_0_iff less_le)
  have "uint (x mod ucast n) = k mod uint n"
    by (simp add: uint_mod assms(2))
  moreover have "k mod uint n < 2 ^ 256"
    using pos_mod_bound [OF pos, of k] uint_u256_less [of n] by linarith
  ultimately show ?thesis
    unfolding u256_from_u512_def ucast_eq by (simp only: if_True)
qed

lemma sint_u256_range: "- (2 ^ 255) \<le> sint (a :: u256)" "sint (a :: u256) < 2 ^ 255"
  using sint_range_size [of a] by (auto simp: word_size)

lemma sint_u256_0_iff: "sint (a :: u256) = 0 \<longleftrightarrow> a = 0"
  using signed_eq_0_iff [of a] .

lemma sint_word_of_int_u256:
  "- (2 ^ 255) \<le> k \<Longrightarrow> k < 2 ^ 255 \<Longrightarrow> sint (word_of_int k :: u256) = k"
  by (simp add: sint_sbintrunc' signed_take_bit_int_eq_self)

lemma evm_div_eq: "uint (evm_div a b) = (if b = 0 then 0 else uint a div uint b)"
  by (simp add: evm_div_def u256_checked_div_def unwrap_or_def uint_div)

lemma evm_mod_eq: "uint (evm_mod a b) = (if b = 0 then 0 else uint a mod uint b)"
  by (simp add: evm_mod_def u256_checked_rem_def unwrap_or_def uint_mod)

lemma evm_addmod_eq:
  "evm_addmod a b n = Some (if n = 0 then 0 else word_of_int ((uint a + uint b) mod uint n))"
  by (simp add: evm_addmod_def u256_from_u512_mod uint_add_u512)

lemma evm_mulmod_eq:
  "evm_mulmod a b n = Some (if n = 0 then 0 else word_of_int ((uint a * uint b) mod uint n))"
  by (simp add: evm_mulmod_def u256_from_u512_mod uint_mult_u512)

lemma sint_evm_sdiv:
  "sint (evm_sdiv a b) =
     (if b = 0 then 0
      else if sint a = i256_min \<and> sint b = -1 then i256_min
      else sint a sdiv sint b)"
proof (cases "b = 0 \<or> (sint a = i256_min \<and> sint b = -1)")
  case True
  then show ?thesis
    by (auto simp: evm_sdiv_def i256_wrapping_div_def i256_min_def signed_divide_int_def)
next
  case False
  have range: "\<bar>sint a sdiv sint b\<bar> \<le> \<bar>sint a\<bar>"
    using sdiv_int_range [of "sint a" "sint b"] by auto
  have "sint a sdiv sint b \<noteq> 2 ^ 255"
  proof
    assume eq: "sint a sdiv sint b = 2 ^ 255"
    then have "sint a = i256_min"
      using range sint_u256_range [of a] by (auto simp: i256_min_def)
    with eq have "sint b = -1"
      using int_sdiv_negated_is_minus1 [of "sint a" "sint b"] by (simp add: i256_min_def)
    with \<open>sint a = i256_min\<close> False show False
      by simp
  qed
  then have "- (2 ^ 255) \<le> sint a sdiv sint b \<and> sint a sdiv sint b < 2 ^ 255"
    using range sint_u256_range [of a] by auto
  then show ?thesis
    using False by (auto simp: evm_sdiv_def i256_wrapping_div_def sint_word_of_int_u256 sint_u256_0_iff)
qed

lemma sint_evm_smod: "sint (evm_smod a b) = (if b = 0 then 0 else sint a smod sint b)"
proof (cases "b = 0 \<or> (sint a = i256_min \<and> sint b = -1)")
  case True
  then show ?thesis
    by (auto simp: evm_smod_def i256_checked_rem_def unwrap_or_def signed_modulo_int_def
        signed_divide_int_def)
next
  case False
  then have "sint b \<noteq> 0"
    by (auto simp: sint_u256_0_iff)
  then have "\<bar>sint a smod sint b\<bar> < \<bar>sint b\<bar>"
    using smod_int_range [of "sint b" "sint a"] by auto
  moreover have "\<bar>sint b\<bar> \<le> 2 ^ 255"
    using sint_u256_range [of b] by auto
  ultimately have "- (2 ^ 255) \<le> sint a smod sint b \<and> sint a smod sint b < 2 ^ 255"
    by linarith
  then show ?thesis
    using False
    by (auto simp: evm_smod_def i256_checked_rem_def unwrap_or_def sint_word_of_int_u256
        sint_u256_0_iff)
qed

lemma evm_signextend_eq:
  "evm_signextend b x = (if unat b < 32 then signed_take_bit (8 * unat b + 7) x else x)"
proof (cases "unat b < 32")
  case True
  then have usize: "usize_try_from b = Some (unat b)"
    by (simp add: usize_try_from_def)
  define k where "k = 8 * unat b + 7"
  have pos: "(unat b + 1) * 8 - 1 = k"
    by (simp add: k_def)
  have "k < 256"
    using True by (simp add: k_def)
  have mask: "push_bit (k + 1) 1 - 1 = (mask (Suc k) :: u256)"
    by (simp add: mask_eq_exp_minus_1 push_bit_of_1)
  have "evm_signextend b x =
      (if bit x k then x OR push_bit (Suc k) (- 1) else x AND mask (Suc k))"
    unfolding evm_signextend_def usize option.case pos Let_def mask using True by simp
  also have "\<dots> = signed_take_bit k x"
    by (rule bit_word_eqI) (auto simp: bit_simps min_def not_le less_Suc_eq dest: le_antisym)
  finally show ?thesis
    using True by (simp add: k_def)
next
  case False
  then show ?thesis
    by (simp add: evm_signextend_def usize_try_from_def)
qed

lemma uint_drop_bit_u256: "uint (drop_bit n (x :: u256)) = uint x div 2 ^ n"
proof -
  have "take_bit LENGTH(256) (uint x) = uint x"
    using uint_u256_less [of x] by (simp add: take_bit_int_eq_self_iff)
  then have "uint (drop_bit n x) = drop_bit n (uint x)"
    by (simp only: unsigned_drop_bit_eq)
  then show ?thesis
    by (simp only: drop_bit_eq_div [of n "uint x"])
qed

lemma uint_ucast_u8: "uint (ucast (drop_bit n (x :: u256)) :: u8) = uint x div 2 ^ n mod 256"
  by (simp only: unsigned_ucast_eq uint_drop_bit_u256) (simp add: take_bit_eq_mod)

lemma uint_ucast_u8_u256 [simp]: "uint (ucast (b :: u8) :: u256) = uint b"
  by (rule uint_up_ucast) (simp add: is_up)

lemma evm_byte_eq:
  "uint (evm_byte i x) = (if unat i < 32 then uint x div 256 ^ (31 - unat i) mod 256 else 0)"
proof (cases "unat i < 32")
  case True
  have "(2 :: int) ^ (8 * (31 - unat i)) = 256 ^ (31 - unat i)"
    by (simp add: power_mult)
  then show ?thesis
    using True
    by (simp add: evm_byte_def usize_try_from_def unwrap_or_def u256_to_be_bytes_def
        uint_ucast_u8 del: unsigned_ucast_eq)
next
  case False
  then show ?thesis
    by (simp add: evm_byte_def usize_try_from_def unwrap_or_def u256_to_be_bytes_def)
qed

lemma evm_shl_eq: "uint (evm_shl s v) = (uint v * 2 ^ unat s) mod 2 ^ 256"
proof (cases "unat s < 256")
  case True
  then show ?thesis
    by (simp add: evm_shl_def unsigned_push_bit_eq take_bit_eq_mod push_bit_eq_mult [of _ "uint v"]
        del: push_bit_eq_mult)
next
  case False
  then have "(2 :: int) ^ 256 dvd 2 ^ unat s"
    by (intro le_imp_power_dvd) simp
  then have "(uint v * 2 ^ unat s) mod 2 ^ 256 = 0"
    by (metis dvd_imp_mod_0 dvd_mult)
  then show ?thesis
    using False by (simp add: evm_shl_def)
qed

lemma evm_shr_eq: "uint (evm_shr s v) = uint v div 2 ^ unat s"
proof (cases "unat s < 256")
  case True
  then show ?thesis
    by (simp only: evm_shr_def uint_drop_bit_u256 if_True)
next
  case False
  then have "(2 :: int) ^ 256 \<le> 2 ^ unat s"
    by (intro power_increasing) auto
  then have "uint v div 2 ^ unat s = 0"
    using uint_u256_less [of v] by (intro div_pos_pos_trivial) simp_all
  then show ?thesis
    using False by (simp add: evm_shr_def)
qed

lemma int_div_large_power:
  assumes "- (2 ^ 255) \<le> k" and "k < 2 ^ 255" and "256 \<le> n"
  shows "k div 2 ^ n = (if k < 0 then -1 else (0 :: int))"
proof -
  have "(2 :: int) ^ 255 \<le> 2 ^ n"
    using assms(3) by (intro power_increasing) auto
  then have bounds: "- (2 ^ n) \<le> k" "k < 2 ^ n"
    using assms(1,2) by linarith+
  show ?thesis
  proof (cases "k < 0")
    case True
    then have "(k + 2 ^ n) div 2 ^ n = 0"
      using bounds by (intro div_pos_pos_trivial) auto
    then have "k div 2 ^ n + 1 = 0"
      using div_add_self2 [of "2 ^ n :: int" k] by simp
    with True show ?thesis
      by simp
  next
    case False
    with bounds show ?thesis
      by (simp add: div_pos_pos_trivial)
  qed
qed

lemma sint_evm_sar: "sint (evm_sar s v) = sint v div 2 ^ unat s"
proof (cases "unat s < 256")
  case True
  then show ?thesis
    by (simp add: evm_sar_def usize_try_from_def i256_asr_def sint_signed_drop_bit_eq
        drop_bit_eq_div)
next
  case False
  then have "evm_sar s v = (if sint v < 0 then - 1 else 0)"
    by (simp add: evm_sar_def usize_try_from_def i256_asr_def)
  then show ?thesis
    using False int_div_large_power [OF sint_u256_range, of "unat s" v] by simp
qed

section \<open>Properties\<close>


text \<open>
  C38. Modular arithmetic.  \<open>addmod\<close> and \<open>mulmod\<close> never panic: the sum and the product are taken
  without wrapping, in 512 bits, and the result always fits 256 bits again; a zero modulus gives 0.
\<close>

theorem evm_modular_arithmetic:
  "map_option uint (evm_addmod a b n) = Some (if n = 0 then 0 else (uint a + uint b) mod uint n)
   \<and> map_option uint (evm_mulmod a b n) = Some (if n = 0 then 0 else (uint a * uint b) mod uint n)"
proof -
  have "uint (word_of_int (k mod uint n) :: u256) = k mod uint n" if "n \<noteq> 0" for k
  proof -
    have "0 < uint n"
      using that by (simp add: word_neq_0_conv [symmetric] uint_0_iff less_le)
    then have "0 \<le> k mod uint n" "k mod uint n < 2 ^ 256"
      using pos_mod_bound [of "uint n" k] uint_u256_less [of n] by (simp, linarith)
    then show ?thesis
      by (simp add: uint_word_of_int mod_pos_pos_trivial)
  qed
  then show ?thesis
    by (simp add: evm_addmod_eq evm_mulmod_eq)
qed

text \<open>
  C40. Shifts and bytes.  Over the integers \<open>shl\<close> multiplies by a power of two modulo \<open>2 ^ 256\<close>,
  \<open>shr\<close> and \<open>sar\<close> divide by it rounding down, unsigned and signed, for every shift however large;
  \<open>byte\<close> counts bytes from the most significant one and \<open>signextend\<close> reads the low bytes of its
  operand as a two's complement number.
\<close>

theorem evm_shifts_and_bytes:
  "uint (evm_shl s v) = uint v * 2 ^ unat s mod 2 ^ 256
   \<and> uint (evm_shr s v) = uint v div 2 ^ unat s
   \<and> sint (evm_sar s v) = sint v div 2 ^ unat s
   \<and> uint (evm_byte s v) = (if unat s < 32 then uint v div 256 ^ (31 - unat s) mod 256 else 0)
   \<and> evm_signextend s v = (if unat s < 32 then signed_take_bit (8 * unat s + 7) v else v)"
  by (intro conjI evm_shl_eq evm_shr_eq sint_evm_sar evm_byte_eq evm_signextend_eq)

end
