(* ===== verification/Idx_Span.thy ===== *)
theory Idx_Span
  imports Prelude
begin

text \<open>
  Typed indices and spans (\<open>plank-core/src/index.rs\<close>, \<open>span.rs\<close>) and the loop limiter of
  \<open>plank-core/src/lib.rs\<close>.  An index declared by \<open>newtype_index!\<close> stores its value plus one in
  a \<open>NonZero<u32>\<close>; here it is the natural number \<open>get()\<close> returns, and the operations panic
  exactly when the stored value would leave the non-zero \<open>u32\<close> range.
\<close>

section \<open>Indices\<close>

definition idx_new :: "nat \<Rightarrow> nat panics" where
  "idx_new x = (if (x + 1) mod (u32_max + 1) = 0 then None else Some x)"

definition idx_try_new :: "nat \<Rightarrow> nat option" where
  "idx_try_new x = (if (x + 1) mod (u32_max + 1) = 0 then None else Some x)"

definition idx_try_from_usize :: "nat \<Rightarrow> nat option" where
  "idx_try_from_usize v = (if v > u32_max - 1 then None else Some v)"

definition idx_raw :: "nat \<Rightarrow> nat" where
  "idx_raw i = i + 1"

definition idx_from_raw :: "nat \<Rightarrow> nat" where
  "idx_from_raw r = r - 1"

definition idx_checked_add :: "nat \<Rightarrow> nat \<Rightarrow> nat option" where
  "idx_checked_add i b =
     (if idx_raw i + b \<le> u32_max then Some (idx_from_raw (idx_raw i + b)) else None)"

definition idx_add :: "nat \<Rightarrow> nat \<Rightarrow> nat panics" where
  "idx_add i rhs = do { x \<leftarrow> add_u32 i rhs; idx_new x }"

definition idx_sub_idx :: "nat \<Rightarrow> nat \<Rightarrow> nat panics" where
  "idx_sub_idx i j = sub_checked i j"

definition idx_sub :: "nat \<Rightarrow> nat \<Rightarrow> nat panics" where
  "idx_sub i rhs = do { x \<leftarrow> sub_checked i rhs; idx_new x }"

text \<open>The values an index can take.\<close>

definition is_idx :: "nat \<Rightarrow> bool" where
  "is_idx i \<longleftrightarrow> i < u32_max"

lemma idx_new_Some [panic_simps]: "x \<le> u32_max \<Longrightarrow> idx_new x = Some y \<longleftrightarrow> is_idx x \<and> y = x"
  by (cases "x = u32_max") (auto simp: idx_new_def is_idx_def u32_max_def)

lemma idx_add_Some [panic_simps]:
  "idx_add i n = Some j \<longleftrightarrow> is_idx (i + n) \<and> j = i + n"
  by (auto simp: idx_add_def bind_Some add_u32_Some idx_new_Some is_idx_def)

lemma idx_sub_Some [panic_simps]:
  "is_idx i \<Longrightarrow> idx_sub i n = Some j \<longleftrightarrow> n \<le> i \<and> j = i - n"
  by (auto simp: idx_sub_def bind_Some sub_checked_Some idx_new_Some is_idx_def)

lemma idx_try_from_usize_Some: "idx_try_from_usize v = Some i \<longleftrightarrow> is_idx v \<and> i = v"
  by (auto simp: idx_try_from_usize_def is_idx_def u32_max_def)

lemma idx_checked_add_Some: "idx_checked_add i b = Some j \<longleftrightarrow> is_idx (i + b) \<and> j = i + b"
  by (auto simp: idx_checked_add_def is_idx_def idx_raw_def idx_from_raw_def)

text \<open>\<open>get_and_inc\<close> and \<open>dec_and_get\<close> return the yielded index and the updated one.\<close>

definition get_and_inc :: "nat \<Rightarrow> (nat \<times> nat) panics" where
  "get_and_inc i = do { j \<leftarrow> idx_add i 1; Some (i, j) }"

definition dec_and_get :: "nat \<Rightarrow> (nat \<times> nat) panics" where
  "dec_and_get i = do { j \<leftarrow> idx_sub i 1; Some (j, j) }"

section \<open>Spans\<close>

record span =
  sp_start :: nat
  sp_end :: nat

definition span_new :: "nat \<Rightarrow> nat \<Rightarrow> span" where
  "span_new s e = \<lparr>sp_start = s, sp_end = e\<rparr>"

definition span_is_empty :: "span \<Rightarrow> bool" where
  "span_is_empty s \<longleftrightarrow> sp_start s = sp_end s"

definition span_EMPTY :: span where
  "span_EMPTY = span_new 0 0"

definition span_len :: "span \<Rightarrow> nat panics" where
  "span_len s = idx_sub_idx (sp_end s) (sp_start s)"

text \<open>
  The double ended iterator: \<open>None\<close> inside is the end of the iteration, the outer option the
  panic of the index arithmetic.
\<close>

definition span_next :: "span \<Rightarrow> (nat \<times> span) option panics" where
  "span_next it =
     (if sp_start it \<ge> sp_end it then Some None
      else do { (x, s) \<leftarrow> get_and_inc (sp_start it); Some (Some (x, it\<lparr>sp_start := s\<rparr>)) })"

definition span_next_back :: "span \<Rightarrow> (nat \<times> span) option panics" where
  "span_next_back it =
     (if sp_start it \<ge> sp_end it then Some None
      else do { (x, e) \<leftarrow> dec_and_get (sp_end it); Some (Some (x, it\<lparr>sp_end := e\<rparr>)) })"

text \<open>Draining an iterator from either side; the fuel bounds the number of items.\<close>

fun span_collect :: "nat \<Rightarrow> (span \<Rightarrow> (nat \<times> span) option panics) \<Rightarrow> span \<Rightarrow> nat list panics" where
  "span_collect 0 nxt it = None"
| "span_collect (Suc fuel) nxt it =
     do { r \<leftarrow> nxt it;
          case r of
            None \<Rightarrow> Some []
          | Some (x, it') \<Rightarrow> do { xs \<leftarrow> span_collect fuel nxt it'; Some (x # xs) } }"

definition span_iter :: "span \<Rightarrow> nat list panics" where
  "span_iter s = span_collect (Suc (sp_end s - sp_start s)) span_next s"

definition span_iter_rev :: "span \<Rightarrow> nat list panics" where
  "span_iter_rev s = span_collect (Suc (sp_end s - sp_start s)) span_next_back s"

lemma span_next_simps:
  assumes "is_idx (sp_end s)"
  shows "span_next s =
     (if sp_start s \<ge> sp_end s then Some None
      else Some (Some (sp_start s, s\<lparr>sp_start := Suc (sp_start s)\<rparr>)))"
proof (cases "sp_start s \<ge> sp_end s")
  case False
  then have "idx_add (sp_start s) 1 = Some (Suc (sp_start s))"
    using assms by (simp add: idx_add_Some is_idx_def)
  with False show ?thesis
    by (simp add: span_next_def get_and_inc_def)
qed (simp add: span_next_def)

lemma span_next_back_simps:
  assumes "is_idx (sp_end s)"
  shows "span_next_back s =
     (if sp_start s \<ge> sp_end s then Some None
      else Some (Some (sp_end s - 1, s\<lparr>sp_end := sp_end s - 1\<rparr>)))"
proof (cases "sp_start s \<ge> sp_end s")
  case False
  then have "idx_sub (sp_end s) 1 = Some (sp_end s - 1)"
    using assms by (simp add: idx_sub_Some)
  with False show ?thesis
    by (simp add: span_next_back_def dec_and_get_def)
qed (simp add: span_next_back_def)

lemma span_collect_next:
  "is_idx (sp_end s) \<Longrightarrow> sp_end s - sp_start s < fuel \<Longrightarrow>
   span_collect fuel span_next s = Some [sp_start s..<sp_end s]"
  by (induction fuel arbitrary: s) (auto simp: span_next_simps upt_conv_Cons)

lemma span_collect_next_back:
  "is_idx (sp_end s) \<Longrightarrow> sp_end s - sp_start s < fuel \<Longrightarrow>
   span_collect fuel span_next_back s = Some (rev [sp_start s..<sp_end s])"
proof (induction fuel arbitrary: s)
  case (Suc fuel)
  show ?case
  proof (cases "sp_start s \<ge> sp_end s")
    case False
    then have "[sp_start s..<sp_end s] = [sp_start s..<sp_end s - 1] @ [sp_end s - 1]"
      by (metis One_nat_def Suc_pred' linorder_not_le upt_Suc_append less_Suc_eq_le zero_less_iff_neq_zero le_less_trans zero_le not_less0)
    moreover have "is_idx (sp_end s - 1)"
      using Suc.prems by (simp add: is_idx_def)
    ultimately show ?thesis
      using False Suc by (simp add: span_next_back_simps)
  qed (use Suc.prems in \<open>simp add: span_next_back_simps\<close>)
qed simp

lemma span_iter_eq [panic_simps]:
  "is_idx (sp_end s) \<Longrightarrow> span_iter s = Some [sp_start s..<sp_end s]"
  "is_idx (sp_end s) \<Longrightarrow> span_iter_rev s = Some (rev [sp_start s..<sp_end s])"
  by (simp_all add: span_iter_def span_iter_rev_def span_collect_next span_collect_next_back
      del: span_collect.simps)

text \<open>
  A span over valid indices iterates, without panicking, over exactly the indices from its
  start up to its end (excluded) in increasing order, and backwards over the same indices in
  reverse.
\<close>

theorem span_iter_both_ways:
  assumes "is_idx (sp_end s)"
  shows "span_iter s = Some [sp_start s..<sp_end s]
    \<and> span_iter_rev s = Some (rev [sp_start s..<sp_end s])"
  using assms by (simp add: span_iter_eq)

lemma span_iter_both_ways_witness:
  "span_iter (span_new 2 5) = Some [2, 3, 4] \<and> span_iter_rev (span_new 2 5) = Some [4, 3, 2]"
  using span_iter_both_ways [of "span_new 2 5"]
  by (simp add: span_new_def is_idx_def u32_max_def upt_rec)

section \<open>The loop limiter\<close>

record loop_limit =
  ll_count :: nat
  ll_max :: nat

definition loop_limit_new :: loop_limit where
  "loop_limit_new = \<lparr>ll_count = 0, ll_max = 100000000\<rparr>"

definition loop_limit_max :: "nat \<Rightarrow> loop_limit" where
  "loop_limit_max m = \<lparr>ll_count = 0, ll_max = m\<rparr>"

definition loop_limit_tick :: "loop_limit \<Rightarrow> loop_limit panics" where
  "loop_limit_tick l =
     do { c \<leftarrow> add_u32 (ll_count l) 1;
          ensure (c \<le> ll_max l);
          Some (l\<lparr>ll_count := c\<rparr>) }"

end
