(* ===== verification/Dense_Index_Set.thy ===== *)
theory Dense_Index_Set
  imports Idx_Span Bitset
begin

text \<open>
  \<open>DenseIndexSet\<close> (\<open>plank-core/src/dense_index_set.rs\<close>): a set of indices as a growing vector
  of 64-bit words.  The vector's capacity, which \<open>add\<close> fills with zero words when it grows, is
  decided by the allocator.  \<open>Vec::reserve(additional)\<close> guarantees room for \<open>additional\<close> more
  words and may leave more: the parameter \<open>slack\<close> is the number of words it leaves beyond the
  request, and every statement holds for every \<open>slack\<close>.
\<close>

record dense_index_set =
  dis_inner :: "u64 list"

definition dis_new :: dense_index_set where
  "dis_new = \<lparr>dis_inner = []\<rparr>"

definition dis_clear :: "dense_index_set \<Rightarrow> dense_index_set" where
  "dis_clear s = s\<lparr>dis_inner := map (\<lambda>_. 0) (dis_inner s)\<rparr>"

definition dis_len :: "dense_index_set \<Rightarrow> nat" where
  "dis_len s = sum_list (map count_ones (dis_inner s))"

definition dis_is_empty :: "dense_index_set \<Rightarrow> bool" where
  "dis_is_empty s \<longleftrightarrow> list_all (\<lambda>word. word = 0) (dis_inner s)"

definition dis_contains :: "dense_index_set \<Rightarrow> nat \<Rightarrow> bool" where
  "dis_contains s idx =
     (case get_at (dis_inner s) (idx div 64) of
        None \<Rightarrow> False
      | Some word \<Rightarrow> test_bit word (idx mod 64))"

definition dis_add :: "(u64 list \<Rightarrow> nat \<Rightarrow> nat) \<Rightarrow> dense_index_set \<Rightarrow> nat \<Rightarrow> bool \<times> dense_index_set" where
  "dis_add slack s idx =
     (let bit = idx mod 64; word = idx div 64;
          inner =
            (if word \<ge> length (dis_inner s) then
               let length_to_fit_word = word + 1;
                   additional = length_to_fit_word - length (dis_inner s)
               in resize (length (dis_inner s) + additional + slack (dis_inner s) additional) 0 (dis_inner s)
             else dis_inner s);
          added = (\<not> test_bit (inner ! word) bit)
      in (added, s\<lparr>dis_inner := inner[word := inner ! word OR push_bit bit 1]\<rparr>))"

definition dis_union_with :: "dense_index_set \<Rightarrow> dense_index_set \<Rightarrow> bool \<times> dense_index_set" where
  "dis_union_with s other =
     (let inner =
            (if length (dis_inner other) > length (dis_inner s)
             then resize (length (dis_inner other)) 0 (dis_inner s) else dis_inner s);
          step = (\<lambda>i (changed, ws).
                    let old = ws ! i; new = old OR dis_inner other ! i
                    in (changed \<or> new \<noteq> old, ws[i := new]));
          (changed, inner') = fold step [0..<length (dis_inner other)] (False, inner)
      in (changed, s\<lparr>dis_inner := inner'\<rparr>))"

definition dis_remove :: "dense_index_set \<Rightarrow> nat \<Rightarrow> bool \<times> dense_index_set" where
  "dis_remove s idx =
     (let bit = idx mod 64; word = idx div 64
      in if word \<ge> length (dis_inner s) then (False, s)
         else (test_bit (dis_inner s ! word) bit,
               s\<lparr>dis_inner := (dis_inner s)[word := dis_inner s ! word AND NOT (push_bit bit 1)]\<rparr>))"

section \<open>The iterator\<close>

record dis_iter =
  it_word_idx :: nat
  it_current_word :: u64

definition dis_iter_start :: "dense_index_set \<Rightarrow> dis_iter" where
  "dis_iter_start s =
     \<lparr>it_word_idx = 0,
      it_current_word = (case get_at (dis_inner s) 0 of None \<Rightarrow> 0 | Some w \<Rightarrow> w)\<rparr>"

function dis_iter_next :: "dense_index_set \<Rightarrow> dis_iter \<Rightarrow> (nat \<times> dis_iter) option" where
  "dis_iter_next s it =
     (if it_current_word it \<noteq> 0 then
        let bit = trailing_zeros (it_current_word it);
            it' = it\<lparr>it_current_word := it_current_word it AND (it_current_word it - 1)\<rparr>;
            index = it_word_idx it * 64 + bit
        in Some (index, it')
      else
        case get_at (dis_inner s) (it_word_idx it + 1) of
          None \<Rightarrow> None
        | Some w \<Rightarrow>
            dis_iter_next s (it\<lparr>it_word_idx := it_word_idx it + 1, it_current_word := w\<rparr>))"
  by pat_completeness auto
termination
  by (relation "measure (\<lambda>(s, it). length (dis_inner s) - it_word_idx it)")
    (auto simp: get_at_Some)

declare dis_iter_next.simps [simp del]

text \<open>
  The indices an iterator has still to yield, and the loop of a client that runs it to the end;
  the fuel counts the calls of \<open>next\<close>.
\<close>

fun dis_collect :: "nat \<Rightarrow> dense_index_set \<Rightarrow> dis_iter \<Rightarrow> nat list option" where
  "dis_collect 0 s it = None"
| "dis_collect (Suc fuel) s it =
     (case dis_iter_next s it of
        None \<Rightarrow> Some []
      | Some (i, it') \<Rightarrow> map_option (\<lambda>is. i # is) (dis_collect fuel s it'))"

definition dis_to_list :: "dense_index_set \<Rightarrow> nat list option" where
  "dis_to_list s = dis_collect (Suc (dis_len s)) s (dis_iter_start s)"

section \<open>Abstraction to a set of naturals\<close>

definition dis_abs :: "dense_index_set \<Rightarrow> nat set" where
  "dis_abs s = bits_of (dis_inner s)"

lemma dis_contains_abs: "dis_contains s i \<longleftrightarrow> i \<in> dis_abs s"
  by (auto simp: dis_contains_def dis_abs_def mem_bits_of get_at_def)

lemma dis_new_abs [simp]: "dis_abs dis_new = {}"
  by (simp add: dis_abs_def dis_new_def)

lemma dis_clear_abs [simp]: "dis_abs (dis_clear s) = {}"
  by (simp add: dis_abs_def dis_clear_def map_replicate_const)

lemma dis_len_abs: "dis_len s = card (dis_abs s)"
  by (simp add: dis_len_def dis_abs_def card_bits_of)

lemma dis_is_empty_abs: "dis_is_empty s \<longleftrightarrow> dis_abs s = {}"
  by (simp add: dis_is_empty_def dis_abs_def bits_of_empty_iff list_all_iff)

lemma dis_add_abs:
  shows "fst (dis_add slack s i) \<longleftrightarrow> i \<notin> dis_abs s"
    and "dis_abs (snd (dis_add slack s i)) = insert i (dis_abs s)"
proof -
  define inner where "inner = (if i div 64 \<ge> length (dis_inner s)
    then let additional = i div 64 + 1 - length (dis_inner s)
         in resize (length (dis_inner s) + additional + slack (dis_inner s) additional) 0 (dis_inner s)
    else dis_inner s)"
  have len: "i div 64 < length inner"
    by (auto simp: inner_def Let_def)
  have abs: "bits_of inner = dis_abs s"
    by (simp add: inner_def dis_abs_def bits_of_resize Let_def)
  have add: "dis_add slack s i = (\<not> test_bit (inner ! (i div 64)) (i mod 64),
      s\<lparr>dis_inner := inner[i div 64 := inner ! (i div 64) OR push_bit (i mod 64) 1]\<rparr>)"
    by (simp add: dis_add_def inner_def Let_def)
  show "fst (dis_add slack s i) \<longleftrightarrow> i \<notin> dis_abs s"
    using len by (simp add: add abs [symmetric] mem_bits_of)
  show "dis_abs (snd (dis_add slack s i)) = insert i (dis_abs s)"
    using bits_of_set [of i inner] len by (simp add: add dis_abs_def abs)
qed

lemma dis_remove_abs:
  shows "fst (dis_remove s i) \<longleftrightarrow> i \<in> dis_abs s"
    and "dis_abs (snd (dis_remove s i)) = dis_abs s - {i}"
  using bits_of_clear [of i "dis_inner s"]
  by (auto simp: dis_remove_def Let_def dis_abs_def mem_bits_of)

lemma fold_or_step:
  fixes ws vs :: "u64 list"
  assumes "n \<le> length vs" and "length vs \<le> length ws"
  shows "fold (\<lambda>i (changed, ws). let old = ws ! i; new = old OR vs ! i
            in (changed \<or> new \<noteq> old, ws[i := new])) [0..<n] (False, ws)
    = (\<exists>i<n. ws ! i OR vs ! i \<noteq> ws ! i, map2 (OR) (take n ws) (take n vs) @ drop n ws)"
  using assms(1)
proof (induction n)
  case (Suc n)
  then have n: "n < length vs" "n < length ws"
    using assms(2) by auto
  let ?out = "map2 (OR) (take n ws) (take n vs) @ drop n ws"
  have nth: "?out ! n = ws ! n"
    using n by (simp add: nth_append)
  have "?out[n := v] = map2 (OR) (take n ws) (take n vs) @ v # drop (Suc n) ws" for v
    using n by (simp add: list_update_append Cons_nth_drop_Suc [symmetric])
  then show ?case
    using Suc n nth
    by (auto simp: Let_def less_Suc_eq take_Suc_conv_app_nth Cons_nth_drop_Suc [symmetric])
qed simp

lemma dis_union_with_abs:
  shows "dis_abs (snd (dis_union_with s t)) = dis_abs s \<union> dis_abs t"
    and "fst (dis_union_with s t) \<longleftrightarrow> \<not> dis_abs t \<subseteq> dis_abs s"
proof -
  define ws where "ws = (if length (dis_inner t) > length (dis_inner s)
    then resize (length (dis_inner t)) 0 (dis_inner s) else dis_inner s)"
  let ?vs = "dis_inner t"
  let ?n = "length ?vs"
  have len: "?n \<le> length ws" and abs: "bits_of ws = dis_abs s"
    by (auto simp: ws_def dis_abs_def bits_of_resize)
  have eq: "dis_union_with s t = (\<exists>i<?n. ws ! i OR ?vs ! i \<noteq> ws ! i,
      s\<lparr>dis_inner := map2 (OR) (take ?n ws) (take ?n ?vs) @ drop ?n ws\<rparr>)"
    using fold_or_step [OF order_refl len]
    by (simp add: dis_union_with_def Let_def ws_def)
  let ?pad = "?vs @ replicate (length ws - ?n) 0"
  have out: "map2 (OR) (take ?n ws) (take ?n ?vs) @ drop ?n ws = map2 (OR) ws ?pad"
  proof -
    have "map2 (OR) ws ?pad = map2 (OR) (take ?n ws @ drop ?n ws) ?pad"
      by simp
    also have "\<dots> = map2 (OR) (take ?n ws) ?vs @ map2 (OR) (drop ?n ws) (replicate (length ws - ?n) 0)"
      using len by (subst zip_append) (simp_all add: min_def)
    also have "map2 (OR) (drop ?n ws) (replicate (length ws - ?n) 0) = drop ?n ws"
      by (rule nth_equalityI) auto
    finally show ?thesis
      by simp
  qed
  have "length ws = length ?pad"
    using len by simp
  then have union: "bits_of (map2 (OR) ws ?pad) = dis_abs s \<union> dis_abs t"
    by (simp add: bits_of_map2_or abs) (simp add: dis_abs_def)
  have "dis_inner (snd (dis_union_with s t)) = map2 (OR) ws ?pad"
    unfolding out [symmetric] by (simp add: eq)
  with union show "dis_abs (snd (dis_union_with s t)) = dis_abs s \<union> dis_abs t"
    by (simp add: dis_abs_def)
  have "(\<exists>i<?n. ws ! i OR ?vs ! i \<noteq> ws ! i) \<longleftrightarrow> map2 (OR) ws ?pad \<noteq> ws"
  proof
    assume "\<exists>i<?n. ws ! i OR ?vs ! i \<noteq> ws ! i"
    then obtain i where "i < ?n" "ws ! i OR ?vs ! i \<noteq> ws ! i"
      by blast
    then show "map2 (OR) ws ?pad \<noteq> ws"
      using len by (auto simp: list_eq_iff_nth_eq nth_append intro!: exI [of _ i])
  next
    assume "map2 (OR) ws ?pad \<noteq> ws"
    then obtain i where i: "i < length ws" "ws ! i OR ?pad ! i \<noteq> ws ! i"
      using len by (auto simp: list_eq_iff_nth_eq)
    then have "i < ?n"
      by (cases "i < ?n") (auto simp: nth_append)
    with i show "\<exists>i<?n. ws ! i OR ?vs ! i \<noteq> ws ! i"
      by (auto simp: nth_append)
  qed
  also have "\<dots> \<longleftrightarrow> bits_of (map2 (OR) ws ?pad) \<noteq> bits_of ws"
    using bits_of_inject [of "map2 (OR) ws ?pad" ws] len by auto
  also have "\<dots> \<longleftrightarrow> \<not> dis_abs t \<subseteq> dis_abs s"
    by (auto simp: union abs)
  finally show "fst (dis_union_with s t) \<longleftrightarrow> \<not> dis_abs t \<subseteq> dis_abs s"
    by (simp add: eq)
qed

interpretation dis: index_set dis_abs "\<lambda>_ _. True" dis_contains "\<lambda>s i. snd (dis_add slack s i)"
  for slack
  by unfold_locales (auto simp: dis_contains_abs dis_add_abs(2))

section \<open>Iteration\<close>

definition dis_remaining :: "dense_index_set \<Rightarrow> dis_iter \<Rightarrow> nat set" where
  "dis_remaining s it =
     {i. i div 64 = it_word_idx it \<and> bit (it_current_word it) (i mod 64)} \<union>
     {i \<in> dis_abs s. it_word_idx it < i div 64}"

lemma finite_dis_remaining [simp]: "finite (dis_remaining s it)"
proof -
  have "{i. i div 64 = it_word_idx it \<and> bit (it_current_word it) (i mod 64)}
      \<subseteq> {..<64 * it_word_idx it + 64}"
    by auto
  then have "finite {i. i div 64 = it_word_idx it \<and> bit (it_current_word it) (i mod 64)}"
    by (rule finite_subset) simp
  then show ?thesis
    by (simp add: dis_remaining_def dis_abs_def)
qed

lemma dis_remaining_start: "dis_remaining s (dis_iter_start s) = dis_abs s"
proof (cases "dis_inner s")
  case Nil
  then show ?thesis
    by (auto simp: dis_remaining_def dis_iter_start_def dis_abs_def)
next
  case (Cons w ws)
  show ?thesis
  proof (rule set_eqI)
    fix i
    show "i \<in> dis_remaining s (dis_iter_start s) \<longleftrightarrow> i \<in> dis_abs s"
      by (cases "i div 64") (auto simp: dis_remaining_def dis_iter_start_def dis_abs_def mem_bits_of Cons)
  qed
qed

lemma dis_remaining_skip:
  assumes "it_current_word it = 0"
  shows "dis_remaining s it =
    (if it_word_idx it + 1 < length (dis_inner s)
     then dis_remaining s (it\<lparr>it_word_idx := it_word_idx it + 1,
       it_current_word := dis_inner s ! (it_word_idx it + 1)\<rparr>)
     else {})"
proof (rule set_eqI)
  fix i
  show "i \<in> dis_remaining s it \<longleftrightarrow> i \<in> (if it_word_idx it + 1 < length (dis_inner s)
     then dis_remaining s (it\<lparr>it_word_idx := it_word_idx it + 1,
       it_current_word := dis_inner s ! (it_word_idx it + 1)\<rparr>)
     else {})"
    using assms
    by (cases "i div 64 = it_word_idx it + 1") (auto simp: dis_remaining_def dis_abs_def mem_bits_of)
qed

lemma dis_remaining_yield:
  assumes "it_current_word it \<noteq> 0"
  defines "i \<equiv> it_word_idx it * 64 + trailing_zeros (it_current_word it)"
  shows "i \<in> dis_remaining s it" and "\<And>j. j \<in> dis_remaining s it \<Longrightarrow> i \<le> j"
    and "dis_remaining s (it\<lparr>it_current_word := it_current_word it AND (it_current_word it - 1)\<rparr>)
      = dis_remaining s it - {i}"
proof -
  let ?w = "it_current_word it"
  have tz: "trailing_zeros ?w < 64" "bit ?w (trailing_zeros ?w)"
    using trailing_zeros_less [OF assms(1)] trailing_zeros_spec(1) [OF assms(1)] by auto
  then have i: "i div 64 = it_word_idx it" "i mod 64 = trailing_zeros ?w"
    by (auto simp: i_def)
  show "i \<in> dis_remaining s it"
    using tz by (simp add: dis_remaining_def i)
  show "i \<le> j" if "j \<in> dis_remaining s it" for j
  proof (cases "j div 64 = it_word_idx it")
    case True
    with that have "bit ?w (j mod 64)"
      by (auto simp: dis_remaining_def)
    then have "trailing_zeros ?w \<le> j mod 64"
      using trailing_zeros_spec(2) [OF assms(1)] linorder_not_le by blast
    then show ?thesis
      using True div_mult_mod_eq [of j 64] by (simp add: i_def)
  next
    case False
    with that have "it_word_idx it < j div 64"
      by (auto simp: dis_remaining_def)
    then show ?thesis
      using i by (metis div_le_mono linorder_not_le nat_le_linear order_less_imp_not_less)
  qed
  show "dis_remaining s (it\<lparr>it_current_word := ?w AND (?w - 1)\<rparr>) = dis_remaining s it - {i}"
  proof (rule set_eqI)
    fix j
    have "j div 64 = it_word_idx it \<Longrightarrow> j mod 64 = trailing_zeros ?w \<longleftrightarrow> j = i"
      using i by (metis div_mult_mod_eq)
    then show "j \<in> dis_remaining s (it\<lparr>it_current_word := ?w AND (?w - 1)\<rparr>)
        \<longleftrightarrow> j \<in> dis_remaining s it - {i}"
      using i by (auto simp: dis_remaining_def bit_drop_lowest [OF assms(1)])
  qed
qed

lemma dis_iter_next_spec:
  "(case dis_iter_next s it of
      None \<Rightarrow> dis_remaining s it = {}
    | Some (i, it') \<Rightarrow> i \<in> dis_remaining s it \<and> (\<forall>j\<in>dis_remaining s it. i \<le> j)
        \<and> dis_remaining s it' = dis_remaining s it - {i})"
proof (induction s it rule: dis_iter_next.induct)
  case (1 s it)
  show ?case
  proof (cases "it_current_word it = 0")
    case False
    then have "dis_iter_next s it = Some (it_word_idx it * 64 + trailing_zeros (it_current_word it),
        it\<lparr>it_current_word := it_current_word it AND (it_current_word it - 1)\<rparr>)"
      by (subst dis_iter_next.simps) (simp add: Let_def)
    then show ?thesis
      using dis_remaining_yield [OF False] by simp
  next
    case True
    show ?thesis
    proof (cases "it_word_idx it + 1 < length (dis_inner s)")
      case inside: True
      let ?it = "it\<lparr>it_word_idx := it_word_idx it + 1,
        it_current_word := dis_inner s ! (it_word_idx it + 1)\<rparr>"
      have "dis_iter_next s it = dis_iter_next s ?it"
        using True inside by (subst dis_iter_next.simps) simp
      moreover have "dis_remaining s it = dis_remaining s ?it"
        using dis_remaining_skip [OF True, of s] inside by simp
      ultimately show ?thesis
        using "1.IH" [of "dis_inner s ! (it_word_idx it + 1)"] True inside
        by (auto split: option.splits)
    next
      case outside: False
      then have "dis_iter_next s it = None"
        using True by (subst dis_iter_next.simps) simp
      then show ?thesis
        using dis_remaining_skip [OF True, of s] outside by simp
    qed
  qed
qed

lemma dis_collect_eq:
  "card (dis_remaining s it) < fuel \<Longrightarrow>
   dis_collect fuel s it = Some (sorted_list_of_set (dis_remaining s it))"
proof (induction fuel arbitrary: it)
  case (Suc fuel)
  show ?case
  proof (cases "dis_iter_next s it")
    case None
    then show ?thesis
      using dis_iter_next_spec [of s it] by simp
  next
    case (Some r)
    then obtain i it' where next_eq: "dis_iter_next s it = Some (i, it')"
      by (cases r) auto
    then have i: "i \<in> dis_remaining s it" "\<forall>j\<in>dis_remaining s it. i \<le> j"
      and rest: "dis_remaining s it' = dis_remaining s it - {i}"
      using dis_iter_next_spec [of s it] by auto
    have min: "Min (dis_remaining s it) = i"
      using i by (intro Min_eqI) auto
    have "0 < card (dis_remaining s it)"
      using i by (auto simp: card_gt_0_iff)
    then have "card (dis_remaining s it') < fuel"
      using Suc.prems i by (simp add: rest card_Diff_singleton)
    moreover have "sorted_list_of_set (dis_remaining s it) =
        i # sorted_list_of_set (dis_remaining s it - {i})"
      using sorted_list_of_set_nonempty [of "dis_remaining s it"] i(1) by (auto simp: min)
    ultimately show ?thesis
      using Suc.IH next_eq by (simp add: rest)
  qed
qed simp

text \<open>
  C37. A \<open>DenseIndexSet\<close> is a set: \<open>add\<close> and \<open>remove\<close> insert and delete exactly the given index and
  report whether the set changed, whatever spare capacity the allocator leaves; \<open>union_with\<close> is
  set union and reports whether it grew; \<open>len\<close> is the number of members.
\<close>

theorem dense_index_set_refines_set:
  "dis_abs (snd (dis_add slack s i)) = insert i (dis_abs s)
   \<and> (fst (dis_add slack s i) \<longleftrightarrow> i \<notin> dis_abs s)
   \<and> dis_abs (snd (dis_remove s i)) = dis_abs s - {i}
   \<and> (fst (dis_remove s i) \<longleftrightarrow> i \<in> dis_abs s)
   \<and> dis_abs (snd (dis_union_with s t)) = dis_abs s \<union> dis_abs t
   \<and> (fst (dis_union_with s t) \<longleftrightarrow> \<not> dis_abs t \<subseteq> dis_abs s)
   \<and> (dis_contains s i \<longleftrightarrow> i \<in> dis_abs s)
   \<and> dis_len s = card (dis_abs s)
   \<and> (dis_is_empty s \<longleftrightarrow> dis_abs s = {})"
  by (simp add: dis_add_abs dis_remove_abs dis_union_with_abs dis_contains_abs dis_len_abs
      dis_is_empty_abs)

text \<open>
  Iterating over a \<open>DenseIndexSet\<close> ends after \<open>len\<close> items and yields every member exactly
  once, in increasing order.
\<close>

theorem dense_index_set_iterates_sorted:
  "dis_to_list s = Some (sorted_list_of_set (dis_abs s))"
  using dis_collect_eq [of s "dis_iter_start s" "Suc (dis_len s)"]
  by (simp add: dis_to_list_def dis_remaining_start dis_len_abs del: dis_collect.simps)

end
