(* ===== verification/Index_Vec.thy ===== *)
theory Index_Vec
  imports Idx_Span
begin

text \<open>
  \<open>IndexVec\<close> and the relative slices of \<open>plank-core/src/index_vec/mod.rs\<close>.  An \<open>IndexVec\<close> is the
  list of its elements; the operations panic where an index leaves the index type or the vector.
  A \<open>RelSlice\<close> is a window of an \<open>IndexVec\<close> that is still indexed by the absolute indices.
  \<open>RelSliceMut\<close> has the same read operations and a write through \<open>index_mut\<close>.
\<close>

definition iv_next_idx :: "'a list \<Rightarrow> nat panics" where
  "iv_next_idx v = idx_try_from_usize (length v)"

definition iv_push :: "'a list \<Rightarrow> 'a \<Rightarrow> (nat \<times> 'a list) panics" where
  "iv_push v e = do { i \<leftarrow> idx_try_from_usize (length v); Some (i, v @ [e]) }"

definition iv_iter_idx :: "'a list \<Rightarrow> nat list panics" where
  "iv_iter_idx v = do { e \<leftarrow> iv_next_idx v; span_iter (span_new 0 e) }"

text \<open>The running index is advanced after each element, the last one included.\<close>

fun enumerate_from :: "nat \<Rightarrow> 'a list \<Rightarrow> (nat \<times> 'a) list panics" where
  "enumerate_from idx [] = Some []"
| "enumerate_from idx (x # xs) =
     do { j \<leftarrow> idx_add idx 1; rest \<leftarrow> enumerate_from j xs; Some ((idx, x) # rest) }"

definition iv_enumerate_idx :: "'a list \<Rightarrow> (nat \<times> 'a) list panics" where
  "iv_enumerate_idx v = enumerate_from 0 v"

definition iv_index :: "'a list \<Rightarrow> nat \<Rightarrow> 'a panics" where
  "iv_index v i = get_at v i"

definition iv_set :: "'a list \<Rightarrow> nat \<Rightarrow> 'a \<Rightarrow> 'a list panics" where
  "iv_set v i e = set_at v i e"

definition iv_index_span :: "'a list \<Rightarrow> span \<Rightarrow> 'a list panics" where
  "iv_index_span v s = slice_of v (sp_start s) (sp_end s)"

definition iv_index_from :: "'a list \<Rightarrow> nat \<Rightarrow> 'a list panics" where
  "iv_index_from v i = slice_from v i"

section \<open>Relative slices\<close>

record 'a rel_slice =
  rs_offset :: nat
  rs_data :: "'a list"

definition iv_rel_slice :: "'a list \<Rightarrow> span \<Rightarrow> 'a rel_slice panics" where
  "iv_rel_slice v s =
     do { d \<leftarrow> slice_of v (sp_start s) (sp_end s); Some \<lparr>rs_offset = sp_start s, rs_data = d\<rparr> }"

definition iv_as_rel_slice :: "'a list \<Rightarrow> 'a rel_slice" where
  "iv_as_rel_slice v = \<lparr>rs_offset = 0, rs_data = v\<rparr>"

definition rs_get :: "'a rel_slice \<Rightarrow> nat \<Rightarrow> 'a option" where
  "rs_get r i = (if rs_offset r \<le> i then get_at (rs_data r) (i - rs_offset r) else None)"

definition rs_index :: "'a rel_slice \<Rightarrow> nat \<Rightarrow> 'a panics" where
  "rs_index r i = do { k \<leftarrow> idx_sub_idx i (rs_offset r); get_at (rs_data r) k }"

definition rs_index_span :: "'a rel_slice \<Rightarrow> span \<Rightarrow> 'a rel_slice panics" where
  "rs_index_span r s =
     do { a \<leftarrow> idx_sub_idx (sp_start s) (rs_offset r);
          b \<leftarrow> idx_sub_idx (sp_end s) (rs_offset r);
          d \<leftarrow> slice_of (rs_data r) a b;
          Some \<lparr>rs_offset = sp_start s, rs_data = d\<rparr> }"

definition rs_enumerate_idx :: "'a rel_slice \<Rightarrow> (nat \<times> 'a) list panics" where
  "rs_enumerate_idx r = enumerate_from (rs_offset r) (rs_data r)"

definition rsm_set :: "'a rel_slice \<Rightarrow> nat \<Rightarrow> 'a \<Rightarrow> 'a rel_slice panics" where
  "rsm_set r i e =
     do { k \<leftarrow> idx_sub_idx i (rs_offset r);
          d \<leftarrow> set_at (rs_data r) k e;
          Some (r\<lparr>rs_data := d\<rparr>) }"

section \<open>Lemmas\<close>

lemma iv_push_Some [panic_simps]:
  "iv_push v e = Some (i, w) \<longleftrightarrow> is_idx (length v) \<and> i = length v \<and> w = v @ [e]"
  by (auto simp: iv_push_def bind_Some idx_try_from_usize_Some)

lemma iv_next_idx_Some [panic_simps]:
  "iv_next_idx v = Some i \<longleftrightarrow> is_idx (length v) \<and> i = length v"
  by (simp add: iv_next_idx_def idx_try_from_usize_Some)

lemma iv_push_in: "is_idx (length v) \<Longrightarrow> iv_push v e = Some (length v, v @ [e])"
  by (simp add: iv_push_Some)

lemma iv_next_idx_in: "is_idx (length v) \<Longrightarrow> iv_next_idx v = Some (length v)"
  by (simp add: iv_next_idx_Some)

lemma iv_iter_idx_Some: "is_idx (length v) \<Longrightarrow> iv_iter_idx v = Some [0..<length v]"
  by (simp add: iv_iter_idx_def iv_next_idx_def idx_try_from_usize_def is_idx_def span_iter_def
      span_collect_next span_new_def u32_max_def del: span_collect.simps)

lemma enumerate_from_Some:
  "is_idx (i + length xs) \<Longrightarrow> enumerate_from i xs = Some (zip [i..<i + length xs] xs)"
proof (induction xs arbitrary: i)
  case (Cons x xs)
  then have "idx_add i 1 = Some (Suc i)"
    by (simp add: idx_add_Some is_idx_def)
  moreover have "[i..<i + length (x # xs)] = i # [Suc i..<Suc i + length xs]"
    by (simp add: upt_conv_Cons del: upt_Suc)
  ultimately show ?case
    using Cons by (simp del: upt_Suc)
qed simp

lemma iv_rel_slice_Some [panic_simps]:
  "iv_rel_slice v s = Some r \<longleftrightarrow> sp_start s \<le> sp_end s \<and> sp_end s \<le> length v
     \<and> r = \<lparr>rs_offset = sp_start s, rs_data = take (sp_end s - sp_start s) (drop (sp_start s) v)\<rparr>"
  by (auto simp: iv_rel_slice_def bind_Some slice_of_Some)

text \<open>
  A relative slice reads exactly the elements of the vector at the absolute indices of its
  span and nothing outside it; narrowing it to a sub-span gives the slice of the vector at that
  sub-span.
\<close>

theorem rel_slice_absolute:
  assumes "iv_rel_slice v s = Some r"
  shows "rs_get r i = (if sp_start s \<le> i \<and> i < sp_end s then Some (v ! i) else None)
    \<and> (sp_start s \<le> sp_start t \<and> sp_start t \<le> sp_end t \<and> sp_end t \<le> sp_end s \<longrightarrow>
        rs_index_span r t = iv_rel_slice v t)"
proof (intro conjI impI)
  have r: "sp_start s \<le> sp_end s" "sp_end s \<le> length v" "rs_offset r = sp_start s"
    "rs_data r = take (sp_end s - sp_start s) (drop (sp_start s) v)"
    using assms by (auto simp: iv_rel_slice_Some)
  show "rs_get r i = (if sp_start s \<le> i \<and> i < sp_end s then Some (v ! i) else None)"
    using r by (auto simp: rs_get_def get_at_def)
  assume t: "sp_start s \<le> sp_start t \<and> sp_start t \<le> sp_end t \<and> sp_end t \<le> sp_end s"
  have "take (sp_end t - sp_start t)
      (drop (sp_start t - sp_start s) (take (sp_end s - sp_start s) (drop (sp_start s) v)))
    = take (sp_end t - sp_start t) (drop (sp_start t) v)"
    using t diff_le_mono [of "sp_end t" "sp_end s" "sp_start t"] by (simp add: drop_take min_def)
  then show "rs_index_span r t = iv_rel_slice v t"
    using r t diff_le_mono [of "sp_start t" "sp_end t" "sp_start s"]
      diff_le_mono [of "sp_end t" "sp_end s" "sp_start s"]
    by (simp add: rs_index_span_def iv_rel_slice_def slice_of_def idx_sub_idx_def sub_checked_def)
qed

theorem rel_slice_absolute_witness:
  "\<exists>r. iv_rel_slice [10, 11, 12, 13 :: nat] (span_new 1 3) = Some r
    \<and> rs_get r 2 = Some 12 \<and> rs_get r 3 = None
    \<and> rs_index_span r (span_new 2 3) = iv_rel_slice [10, 11, 12, 13] (span_new 2 3)"
  using rel_slice_absolute [of "[10, 11, 12, 13 :: nat]" "span_new 1 3"
      "\<lparr>rs_offset = 1, rs_data = [11, 12]\<rparr>" 2 "span_new 2 3"]
    rel_slice_absolute [of "[10, 11, 12, 13 :: nat]" "span_new 1 3"
      "\<lparr>rs_offset = 1, rs_data = [11, 12]\<rparr>" 3 "span_new 2 3"]
  by (simp add: iv_rel_slice_Some span_new_def numeral_eq_Suc)

end
