(* ===== verification/List_Of_Lists.thy ===== *)
theory List_Of_Lists
  imports Index_Vec
begin

text \<open>
  \<open>ListOfLists\<close> (\<open>plank-core/src/list_of_lists.rs\<close>): a list of lists stored as one vector of
  values and the start offset of every list.  \<open>lol_rep l xss\<close> says that \<open>l\<close> stores \<open>xss\<close>; every
  operation is shown to be the corresponding operation on \<open>xss\<close>.  The closure given to
  \<open>push_with\<close> sees the values it has pushed so far (\<open>ListOfListsPusher::current\<close>) and appends to
  them or rewrites them: it is a function from that suffix, initially empty, to its result and the
  final suffix.  \<open>list_store\<close> is the interface the interners rely on.
\<close>

record 'a list_of_lists =
  lol_starts :: "nat list"
  lol_values :: "'a list"

definition lol_values_end :: "'a list_of_lists \<Rightarrow> nat \<Rightarrow> nat" where
  "lol_values_end l index =
     (case (case idx_checked_add index 1 of None \<Rightarrow> None | Some ni \<Rightarrow> get_at (lol_starts l) ni) of
        Some e \<Rightarrow> e
      | None \<Rightarrow> length (lol_values l))"

definition lol_new :: "'a list_of_lists" where
  "lol_new = \<lparr>lol_starts = [], lol_values = []\<rparr>"

definition lol_is_empty :: "'a list_of_lists \<Rightarrow> bool" where
  "lol_is_empty l \<longleftrightarrow> length (lol_starts l) = 0"

definition lol_push_with_res ::
    "('a list \<Rightarrow> ('r \<times> 'a list) panics) \<Rightarrow> 'a list_of_lists \<Rightarrow> ((nat \<times> 'r) \<times> 'a list_of_lists) panics" where
  "lol_push_with_res f l =
     do { ensure (length (lol_values l) \<le> u32_max);
          let start = length (lol_values l);
          (res, pushed) \<leftarrow> f [];
          (idx, starts) \<leftarrow> iv_push (lol_starts l) start;
          ensure (length (lol_values l @ pushed) \<le> u32_max);
          Some ((idx, res), \<lparr>lol_starts = starts, lol_values = lol_values l @ pushed\<rparr>) }"

definition lol_push_with ::
    "('a list \<Rightarrow> 'a list panics) \<Rightarrow> 'a list_of_lists \<Rightarrow> (nat \<times> 'a list_of_lists) panics" where
  "lol_push_with f l =
     do { ((idx, u), l') \<leftarrow> lol_push_with_res (\<lambda>cur. map_option (\<lambda>xs. ((), xs)) (f cur)) l;
          Some (idx, l') }"

definition lol_push_iter :: "'a list \<Rightarrow> 'a list_of_lists \<Rightarrow> (nat \<times> 'a list_of_lists) panics" where
  "lol_push_iter xs l = lol_push_with (\<lambda>cur. Some (fold (\<lambda>x acc. acc @ [x]) xs cur)) l"

definition lol_push_copy_slice :: "'a list \<Rightarrow> 'a list_of_lists \<Rightarrow> (nat \<times> 'a list_of_lists) panics" where
  "lol_push_copy_slice xs l = lol_push_iter xs l"

definition lol_iter :: "'a list_of_lists \<Rightarrow> 'a list list panics" where
  "lol_iter l =
     (let starts = lol_starts l; ends = drop 1 starts @ [length (lol_values l)]
      in map_panics (\<lambda>(s, e). slice_of (lol_values l) s e) (zip starts ends))"

definition lol_len :: "'a list_of_lists \<Rightarrow> nat" where
  "lol_len l = length (lol_starts l)"

definition lol_total_values :: "'a list_of_lists \<Rightarrow> nat" where
  "lol_total_values l = length (lol_values l)"

definition lol_get :: "'a list_of_lists \<Rightarrow> nat \<Rightarrow> 'a list option panics" where
  "lol_get l index =
     (case get_at (lol_starts l) index of
        None \<Rightarrow> Some None
      | Some start \<Rightarrow>
          do { xs \<leftarrow> slice_of (lol_values l) start (lol_values_end l index); Some (Some xs) })"

definition lol_index :: "'a list_of_lists \<Rightarrow> nat \<Rightarrow> 'a list panics" where
  "lol_index l index =
     do { start \<leftarrow> iv_index (lol_starts l) index;
          slice_of (lol_values l) start (lol_values_end l index) }"

definition lol_clear :: "'a list_of_lists \<Rightarrow> 'a list_of_lists" where
  "lol_clear l = \<lparr>lol_starts = [], lol_values = []\<rparr>"

text \<open>\<open>pop\<close> returns the drained values of the last list, if there is one.\<close>

definition lol_pop :: "'a list_of_lists \<Rightarrow> ('a list option \<times> 'a list_of_lists) panics" where
  "lol_pop l =
     (if lol_starts l = [] then Some (None, l)
      else do { let start = last (lol_starts l);
                drained \<leftarrow> slice_from (lol_values l) start;
                Some (Some drained,
                  \<lparr>lol_starts = butlast (lol_starts l), lol_values = take start (lol_values l)\<rparr>) })"

section \<open>Representation\<close>

fun offsets_from :: "nat \<Rightarrow> 'a list list \<Rightarrow> nat list" where
  "offsets_from n [] = []"
| "offsets_from n (xs # xss) = n # offsets_from (n + length xs) xss"

definition lol_rep :: "'a list_of_lists \<Rightarrow> 'a list list \<Rightarrow> bool" where
  "lol_rep l xss \<longleftrightarrow> lol_starts l = offsets_from 0 xss \<and> lol_values l = concat xss
     \<and> length (concat xss) \<le> u32_max \<and> length xss \<le> u32_max"

lemma length_offsets_from [simp]: "length (offsets_from n xss) = length xss"
  by (induction xss arbitrary: n) auto

lemma offsets_from_append [simp]:
  "offsets_from n (xss @ yss) = offsets_from n xss @ offsets_from (n + length (concat xss)) yss"
  by (induction xss arbitrary: n) (auto simp: add.assoc)

lemma nth_offsets_from:
  "i < length xss \<Longrightarrow> offsets_from n xss ! i = n + length (concat (take i xss))"
  by (induction xss arbitrary: n i) (auto simp: nth_Cons split: nat.splits)

lemma concat_take_nth_drop:
  "i < length xss \<Longrightarrow> concat xss = concat (take i xss) @ xss ! i @ concat (drop (Suc i) xss)"
  by (metis concat_append concat.simps(2) id_take_nth_drop)

lemma lol_values_end_rep:
  assumes "lol_rep l xss" and "i < length xss"
  shows "lol_values_end l i = length (concat (take (Suc i) xss))"
proof (cases "Suc i < length xss")
  case True
  then have "idx_checked_add i 1 = Some (Suc i)"
    using assms by (simp add: idx_checked_add_Some is_idx_def lol_rep_def)
  then show ?thesis
    using True assms by (simp add: lol_values_end_def lol_rep_def nth_offsets_from)
next
  case False
  then have "length xss = Suc i"
    using assms(2) by simp
  then show ?thesis
    using assms(1)
    by (auto simp: lol_values_end_def lol_rep_def idx_checked_add_Some split: option.splits)
qed

lemma lol_slice_rep:
  assumes "lol_rep l xss" and "i < length xss"
  shows "slice_of (lol_values l) (lol_starts l ! i) (lol_values_end l i) = Some (xss ! i)"
proof -
  let ?a = "length (concat (take i xss))"
  have vals: "lol_values l = concat (take i xss) @ xss ! i @ concat (drop (Suc i) xss)"
    using assms concat_take_nth_drop [OF assms(2)] by (simp add: lol_rep_def)
  have "lol_values_end l i = ?a + length (xss ! i)"
    using lol_values_end_rep [OF assms] assms(2) by (simp add: take_Suc_conv_app_nth)
  moreover have "lol_starts l ! i = ?a"
    using assms by (simp add: lol_rep_def nth_offsets_from)
  ultimately show ?thesis
    unfolding vals by (simp add: slice_of_def)
qed

lemma lol_get_rep:
  assumes "lol_rep l xss"
  shows "lol_get l i = Some (get_at xss i)"
proof (cases "i < length xss")
  case True
  then show ?thesis
    using assms lol_slice_rep [OF assms True] by (simp add: lol_get_def lol_rep_def)
next
  case False
  then show ?thesis
    using assms by (simp add: lol_get_def lol_rep_def)
qed

lemma lol_index_rep:
  assumes "lol_rep l xss"
  shows "lol_index l i = get_at xss i"
proof -
  have "length (lol_starts l) = length xss"
    using assms by (simp add: lol_rep_def)
  then show ?thesis
    by (cases "i < length xss") (simp_all add: lol_index_def iv_index_def lol_slice_rep [OF assms])
qed

lemma lol_new_rep: "lol_rep lol_new []"
  by (simp add: lol_rep_def lol_new_def)

lemma lol_clear_rep: "lol_rep (lol_clear l) []"
  by (simp add: lol_rep_def lol_clear_def)

lemma lol_push_with_res_rep:
  assumes "lol_rep l xss" and "f [] = Some (r, xs)"
    and "length xss < u32_max" and "length (concat xss) + length xs \<le> u32_max"
  obtains l' where "lol_push_with_res f l = Some ((length xss, r), l')" and "lol_rep l' (xss @ [xs])"
proof
  let ?l = "\<lparr>lol_starts = lol_starts l @ [length (lol_values l)], lol_values = lol_values l @ xs\<rparr>"
  show "lol_push_with_res f l = Some ((length xss, r), ?l)"
    using assms
    by (simp add: lol_push_with_res_def lol_rep_def iv_push_def idx_try_from_usize_def u32_max_def)
  show "lol_rep ?l (xss @ [xs])"
    using assms by (simp add: lol_rep_def)
qed

lemma fold_snoc: "fold (\<lambda>x acc. acc @ [x]) xs ys = ys @ xs"
  by (induction xs arbitrary: ys) auto

lemma lol_push_with_rep:
  assumes "lol_rep l xss" and "f [] = Some xs"
    and "length xss < u32_max" and "length (concat xss) + length xs \<le> u32_max"
  obtains l' where "lol_push_with f l = Some (length xss, l')" and "lol_rep l' (xss @ [xs])"
proof -
  obtain l' where "lol_push_with_res (\<lambda>cur. map_option (\<lambda>xs. ((), xs)) (f cur)) l
      = Some ((length xss, ()), l')" "lol_rep l' (xss @ [xs])"
    using lol_push_with_res_rep [OF assms(1) _ assms(3,4), of "\<lambda>cur. map_option (\<lambda>xs. ((), xs)) (f cur)" "()"]
      assms(2) by auto
  then show ?thesis
    by (intro that) (auto simp: lol_push_with_def)
qed

lemma lol_push_iter_rep:
  assumes "lol_rep l xss" and "length xss < u32_max" and "length (concat xss) + length xs \<le> u32_max"
  obtains l' where "lol_push_iter xs l = Some (length xss, l')" and "lol_rep l' (xss @ [xs])"
  using lol_push_with_rep [OF assms(1) _ assms(2,3), of "\<lambda>cur. Some (fold (\<lambda>x acc. acc @ [x]) xs cur)"]
  by (auto simp: lol_push_iter_def fold_snoc)

lemma lol_pop_rep:
  assumes "lol_rep l (xss @ [xs])"
  obtains l' where "lol_pop l = Some (Some xs, l')" and "lol_rep l' xss"
proof
  let ?l = "\<lparr>lol_starts = offsets_from 0 xss, lol_values = concat xss\<rparr>"
  show "lol_pop l = Some (Some xs, ?l)"
    using assms by (simp add: lol_pop_def lol_rep_def slice_from_def slice_of_def)
  show "lol_rep ?l xss"
    using assms by (simp add: lol_rep_def)
qed

lemma lol_iter_rep:
  assumes "lol_rep l xss"
  shows "lol_iter l = Some xss"
proof -
  have len: "length (lol_starts l) = length xss"
    using assms by (simp add: lol_rep_def)
  have ends: "(drop 1 (lol_starts l) @ [length (lol_values l)]) ! i = lol_values_end l i"
    if i: "i < length xss" for i
  proof (cases "Suc i < length xss")
    case True
    then have "i < length (drop 1 (lol_starts l))"
      using len by simp
    then show ?thesis
      using lol_values_end_rep [OF assms i] assms len True
      by (simp add: nth_append lol_rep_def nth_offsets_from)
  next
    case False
    then have "length xss = Suc i"
      using i by simp
    then show ?thesis
      using lol_values_end_rep [OF assms i] assms len by (simp add: nth_append lol_rep_def)
  qed
  show ?thesis
    unfolding lol_iter_def Let_def map_panics_Some list_all2_conv_all_nth
    using len ends lol_slice_rep [OF assms] by auto
qed

text \<open>
  \<open>ListOfLists\<close> behaves as a list of lists: as long as fewer than \<open>u32::MAX\<close> lists and at
  most \<open>u32::MAX\<close> values are stored, pushing never panics, returns the next index and appends
  exactly the pushed elements as a new last list.
\<close>

theorem list_of_lists_push:
  assumes "lol_rep l xss" and "length xss < u32_max" and "length (concat xss) + length xs \<le> u32_max"
  shows "\<exists>l'. lol_push_iter xs l = Some (length xss, l') \<and> lol_rep l' (xss @ [xs])
    \<and> lol_iter l' = Some (xss @ [xs]) \<and> lol_pop l' = Some (Some xs, l)"
proof -
  obtain l' where l': "lol_push_iter xs l = Some (length xss, l')" "lol_rep l' (xss @ [xs])"
    using lol_push_iter_rep [OF assms] .
  obtain l'' where "lol_pop l' = Some (Some xs, l'')" "lol_rep l'' xss"
    using lol_pop_rep [OF l'(2)] .
  moreover have "l'' = l"
    using \<open>lol_rep l'' xss\<close> assms(1) by (cases l; cases l'') (simp add: lol_rep_def)
  ultimately show ?thesis
    using l' lol_iter_rep [OF l'(2)] by auto
qed

theorem list_of_lists_push_witness:
  "\<exists>l'. lol_push_iter [7, 8] (\<lparr>lol_starts = [0], lol_values = [5 :: nat]\<rparr>) = Some (1, l')
    \<and> lol_rep l' [[5], [7, 8]]"
  using list_of_lists_push [of "\<lparr>lol_starts = [0], lol_values = [5 :: nat]\<rparr>" "[[5]]" "[7, 8]"]
  by (auto simp: lol_rep_def u32_max_def)

section \<open>The interface of an append-only store of lists\<close>

locale list_store =
  fixes rep :: "'s \<Rightarrow> 'a list list \<Rightarrow> bool"
    and push :: "'a list \<Rightarrow> 's \<Rightarrow> (nat \<times> 's) panics"
    and index :: "'s \<Rightarrow> nat \<Rightarrow> 'a list panics"
    and room :: "'a list list \<Rightarrow> 'a list \<Rightarrow> bool"
  assumes index_rep: "rep s xss \<Longrightarrow> index s i = get_at xss i"
    and push_rep: "rep s xss \<Longrightarrow> room xss xs \<Longrightarrow>
      \<exists>s'. push xs s = Some (length xss, s') \<and> rep s' (xss @ [xs])"
begin

lemma index_after_push:
  assumes "rep s xss" and "room xss xs" and "push xs s = Some (i, s')"
  shows "index s' i = Some xs" and "j < i \<Longrightarrow> index s' j = index s j"
    and "i = length xss" and "rep s' (xss @ [xs])"
proof -
  obtain t where t: "push xs s = Some (length xss, t)" "rep t (xss @ [xs])"
    using push_rep [OF assms(1,2)] by blast
  then have eqs: "i = length xss" "s' = t"
    using assms(3) by auto
  show "i = length xss" "rep s' (xss @ [xs])"
    using eqs t by auto
  show "index s' i = Some xs"
    using eqs t by (simp add: index_rep)
  show "j < i \<Longrightarrow> index s' j = index s j"
    using eqs t assms(1) by (simp add: index_rep nth_append)
qed

end

definition lol_room :: "'a list list \<Rightarrow> 'a list \<Rightarrow> bool" where
  "lol_room xss xs \<longleftrightarrow> length xss < u32_max \<and> length (concat xss) + length xs \<le> u32_max"

interpretation lol: list_store lol_rep lol_push_iter lol_index lol_room
proof
  show "lol_rep s xss \<Longrightarrow> lol_index s i = get_at xss i" for s :: "'a list_of_lists" and xss i
    by (rule lol_index_rep)
  show "lol_rep s xss \<Longrightarrow> lol_room xss xs \<Longrightarrow>
      \<exists>s'. lol_push_iter xs s = Some (length xss, s') \<and> lol_rep s' (xss @ [xs])"
    for s :: "'a list_of_lists" and xss xs
    by (auto simp: lol_room_def elim: lol_push_iter_rep)
qed

end
