(* ===== verification/Dense_Index_Map.thy ===== *)
theory Dense_Index_Map
  imports Idx_Span
begin

text \<open>
  \<open>DenseIndexMap\<close> (\<open>plank-core/src/dense_index_map.rs\<close>): a map from indices as a vector of
  optional values that grows on insertion.  Growing cannot overflow \<open>usize\<close>, since the key of an
  index is below \<open>u32::MAX\<close>.  \<open>dim_get\<close> is the partial function the map stands for.  A mutable
  borrow that is written through (\<open>get_mut\<close>, \<open>iter_mut\<close>, the entries) is the function applied to
  the borrowed value.
\<close>

record 'v dense_index_map =
  dim_inner :: "'v option list"

definition dim_new :: "'v dense_index_map" where
  "dim_new = \<lparr>dim_inner = []\<rparr>"

definition dim_clear :: "'v dense_index_map \<Rightarrow> 'v dense_index_map" where
  "dim_clear m = m\<lparr>dim_inner := []\<rparr>"

definition dim_get :: "'v dense_index_map \<Rightarrow> nat \<Rightarrow> 'v option" where
  "dim_get m key = (case get_at (dim_inner m) key of None \<Rightarrow> None | Some slot \<Rightarrow> slot)"

definition dim_contains :: "'v dense_index_map \<Rightarrow> nat \<Rightarrow> bool" where
  "dim_contains m key \<longleftrightarrow> dim_get m key \<noteq> None"

definition dim_get_mut :: "'v dense_index_map \<Rightarrow> nat \<Rightarrow> ('v \<Rightarrow> 'v) \<Rightarrow> 'v dense_index_map" where
  "dim_get_mut m key f =
     (case dim_get m key of
        None \<Rightarrow> m
      | Some v \<Rightarrow> m\<lparr>dim_inner := (dim_inner m)[key := Some (f v)]\<rparr>)"

definition dim_ensure_size :: "'v dense_index_map \<Rightarrow> nat \<Rightarrow> 'v dense_index_map" where
  "dim_ensure_size m key =
     (if key \<ge> length (dim_inner m) then m\<lparr>dim_inner := resize (key + 1) None (dim_inner m)\<rparr> else m)"

definition dim_insert :: "'v dense_index_map \<Rightarrow> nat \<Rightarrow> 'v \<Rightarrow> 'v option \<times> 'v dense_index_map" where
  "dim_insert m key value =
     (let m' = dim_ensure_size m key
      in (dim_inner m' ! key, m'\<lparr>dim_inner := (dim_inner m')[key := Some value]\<rparr>))"

definition dim_insert_no_prev :: "'v dense_index_map \<Rightarrow> nat \<Rightarrow> 'v \<Rightarrow> 'v dense_index_map panics" where
  "dim_insert_no_prev m key value =
     (let (prev, m') = dim_insert m key value in do { ensure (prev = None); Some m' })"

text \<open>
  \<open>entry(key).or_insert_with(default)\<close> followed by a write \<open>f\<close> through the reference it returns;
  \<open>or_insert\<close>, \<open>or_insert_default\<close> and \<open>get_or_insert_with\<close> are this operation with a constant.
\<close>

definition dim_entry_or_insert ::
    "'v dense_index_map \<Rightarrow> nat \<Rightarrow> 'v \<Rightarrow> ('v \<Rightarrow> 'v) \<Rightarrow> 'v \<times> 'v dense_index_map" where
  "dim_entry_or_insert m key dflt f =
     (let m' = dim_ensure_size m key;
          v = (case dim_inner m' ! key of Some value \<Rightarrow> value | None \<Rightarrow> dflt)
      in (v, m'\<lparr>dim_inner := (dim_inner m')[key := Some (f v)]\<rparr>))"

definition dim_iter :: "'v dense_index_map \<Rightarrow> (nat \<times> 'v) list" where
  "dim_iter m =
     List.map_filter (\<lambda>(i, slot). map_option (\<lambda>v. (i, v)) slot)
       (zip [0..<length (dim_inner m)] (dim_inner m))"

definition dim_iter_mut :: "(nat \<Rightarrow> 'v \<Rightarrow> 'v) \<Rightarrow> 'v dense_index_map \<Rightarrow> 'v dense_index_map" where
  "dim_iter_mut f m =
     m\<lparr>dim_inner :=
         map (\<lambda>(slot, i). map_option (f i) slot) (zip (dim_inner m) [0..<length (dim_inner m)])\<rparr>"

definition dim_remove :: "'v dense_index_map \<Rightarrow> nat \<Rightarrow> 'v option \<times> 'v dense_index_map" where
  "dim_remove m key =
     (if key \<ge> length (dim_inner m) then (None, m)
      else (dim_inner m ! key, m\<lparr>dim_inner := (dim_inner m)[key := None]\<rparr>))"

definition dim_index :: "'v dense_index_map \<Rightarrow> nat \<Rightarrow> 'v panics" where
  "dim_index m key = dim_get m key"

section \<open>The interface of an index map\<close>

locale index_map =
  fixes lookup :: "'m \<Rightarrow> nat \<Rightarrow> 'v option"
    and update :: "'m \<Rightarrow> nat \<Rightarrow> 'v \<Rightarrow> 'm"
    and delete :: "'m \<Rightarrow> nat \<Rightarrow> 'm"
    and empty :: "'m"
  assumes lookup_empty: "lookup empty = Map.empty"
    and lookup_update: "lookup (update m k v) = (lookup m)(k \<mapsto> v)"
    and lookup_delete: "lookup (delete m k) = (lookup m)(k := None)"
begin

text \<open>Inserting a list of bindings gives the map of the list, later bindings winning.\<close>

lemma lookup_updates:
  "lookup (fold (\<lambda>(k, v) m. update m k v) kvs m) = lookup m ++ map_of (rev kvs)"
  by (induction kvs arbitrary: m) (auto simp: lookup_update)

lemma lookup_updates_distinct:
  assumes "distinct (map fst kvs)"
  shows "lookup (fold (\<lambda>(k, v) m. update m k v) kvs empty) = map_of kvs"
proof -
  have "map_of (rev kvs) = map_of kvs"
    using assms by (intro map_of_inject_set [THEN iffD2]) (simp_all add: rev_map [symmetric])
  then show ?thesis
    by (simp add: lookup_updates lookup_empty)
qed

end

lemma dim_get_ensure_size [simp]: "dim_get (dim_ensure_size m k) = dim_get m"
  by (auto simp: fun_eq_iff dim_get_def dim_ensure_size_def get_at_def nth_resize)

lemma dim_ensure_size_length [simp]: "k < length (dim_inner (dim_ensure_size m k))"
  by (simp add: dim_ensure_size_def)

lemma dim_slot: "k < length (dim_inner m) \<Longrightarrow> dim_inner m ! k = dim_get m k"
  by (simp add: dim_get_def)

lemma dim_get_write:
  "k < length (dim_inner m) \<Longrightarrow> dim_get (m\<lparr>dim_inner := (dim_inner m)[k := w]\<rparr>) = (dim_get m)(k := w)"
  by (auto simp: fun_eq_iff dim_get_def get_at_def nth_list_update)

lemma dim_insert_abs:
  "dim_get (snd (dim_insert m k v)) = (dim_get m)(k \<mapsto> v)" "fst (dim_insert m k v) = dim_get m k"
  by (simp_all add: dim_insert_def Let_def dim_get_write dim_slot)

lemma dim_remove_abs:
  "dim_get (snd (dim_remove m k)) = (dim_get m)(k := None)" "fst (dim_remove m k) = dim_get m k"
  by (auto simp: dim_remove_def dim_get_write dim_slot) (auto simp: fun_eq_iff dim_get_def)

lemma dim_new_abs: "dim_get dim_new = Map.empty" "dim_get (dim_clear m) = Map.empty"
  by (auto simp: fun_eq_iff dim_get_def dim_new_def dim_clear_def)

lemma dim_entry_abs:
  "dim_get (snd (dim_entry_or_insert m k d f)) =
     (dim_get m)(k \<mapsto> f (case dim_get m k of Some v \<Rightarrow> v | None \<Rightarrow> d))"
  by (simp add: dim_entry_or_insert_def Let_def dim_get_write dim_slot)

lemma dim_get_mut_abs: "dim_get (dim_get_mut m k f) = (dim_get m)(k := map_option f (dim_get m k))"
  by (auto simp: dim_get_mut_def fun_eq_iff dim_get_def get_at_def nth_list_update split: option.splits)

lemma dim_iter_mut_abs: "dim_get (dim_iter_mut f m) k = map_option (f k) (dim_get m k)"
  by (simp add: dim_iter_mut_def dim_get_def get_at_def)

interpretation dim: index_map dim_get "\<lambda>m k v. snd (dim_insert m k v)"
    "\<lambda>m k. snd (dim_remove m k)" dim_new
  by unfold_locales (simp_all add: dim_insert_abs dim_remove_abs dim_new_abs)

lemma map_filter_zip_keys:
  "sorted_wrt (<) (map fst (List.map_filter (\<lambda>(i, slot). map_option (\<lambda>v. (i, v)) slot)
     (zip [a..<a + length xs] xs)))"
proof (induction xs arbitrary: a)
  case (Cons x xs)
  have zip: "zip [a..<a + length (x # xs)] (x # xs) = (a, x) # zip [Suc a..<Suc a + length xs] xs"
    by (simp add: upt_conv_Cons del: upt_Suc)
  have "\<forall>k\<in>fst ` set (List.map_filter (\<lambda>(i, slot). map_option (\<lambda>v. (i, v)) slot)
      (zip [Suc a..<Suc a + length xs] xs)). a < k"
    by (auto simp: List.map_filter_def simp del: upt_Suc dest!: set_zip_leftD)
  then show ?case
    unfolding zip using Cons.IH [of "Suc a"]
    by (cases x) (simp_all add: List.map_filter_simps)
qed (simp add: List.map_filter_simps)

lemma set_dim_iter: "(k, v) \<in> set (dim_iter m) \<longleftrightarrow> dim_get m k = Some v"
  by (auto simp: dim_iter_def List.map_filter_def in_set_zip dim_get_def get_at_def
      image_iff split: if_splits) force

text \<open>
  A \<open>DenseIndexMap\<close> is a partial function from indices: \<open>insert\<close>, \<open>remove\<close>, the entry
  operations and \<open>get_mut\<close> change exactly the given key, \<open>insert\<close> and \<open>remove\<close> return the previous
  binding, \<open>insert_no_prev\<close> panics exactly when the key was bound, and iteration yields every
  binding once, by increasing key.
\<close>

theorem dense_index_map_refines_map:
  "dim_get (snd (dim_insert m k v)) = (dim_get m)(k \<mapsto> v)
   \<and> fst (dim_insert m k v) = dim_get m k
   \<and> dim_get (snd (dim_remove m k)) = (dim_get m)(k := None)
   \<and> fst (dim_remove m k) = dim_get m k
   \<and> (dim_insert_no_prev m k v = None \<longleftrightarrow> dim_contains m k)
   \<and> dim_get (snd (dim_entry_or_insert m k d f)) =
       (dim_get m)(k \<mapsto> f (case dim_get m k of Some w \<Rightarrow> w | None \<Rightarrow> d))
   \<and> dim_get (dim_get_mut m k f) = (dim_get m)(k := map_option f (dim_get m k))
   \<and> sorted_wrt (<) (map fst (dim_iter m)) \<and> map_of (dim_iter m) = dim_get m"
proof -
  have sorted: "sorted_wrt (<) (map fst (dim_iter m))"
    using map_filter_zip_keys [of 0 "dim_inner m"] by (simp add: dim_iter_def)
  then have distinct: "distinct (map fst (dim_iter m))"
    by (rule strict_sorted_iff [THEN iffD1, THEN conjunct2])
  have "map_of (dim_iter m) = dim_get m"
  proof
    fix k
    show "map_of (dim_iter m) k = dim_get m k"
      using distinct set_dim_iter [of k _ m]
      by (metis map_of_eq_Some_iff option.exhaust option.distinct(1))
  qed
  moreover have "dim_insert_no_prev m k v = None \<longleftrightarrow> dim_contains m k"
    by (cases "dim_get m k")
      (simp_all add: dim_insert_no_prev_def dim_contains_def dim_insert_abs split_beta)
  ultimately show ?thesis
    using sorted by (simp add: dim_insert_abs dim_remove_abs dim_entry_abs dim_get_mut_abs)
qed

end
