(* ===== verification/Interner.thy ===== *)
theory Interner
  imports List_Of_Lists
begin

text \<open>
  The byte and string interners (\<open>plank-core/src/intern.rs\<close>).  The hash table is \<open>hashbrown\<close>'s
  \<open>HashTable\<close> and the hash function \<open>DefaultHashBuilder\<close>'s: both are parameters.  What the code
  relies on is \<open>hash_table_contract\<close>: \<open>entry\<close> finds a stored element with the given hash that
  satisfies the equality closure if there is one, and otherwise inserts under the given hash.  The
  interned bytes live in a \<open>ListOfLists\<close>, of which only the \<open>list_store\<close> laws are used.
\<close>

record 't bytes_interner =
  bi_bytes :: "u8 list_of_lists"
  bi_table :: 't

type_synonym 't table_find = "'t \<Rightarrow> u64 \<Rightarrow> (nat \<Rightarrow> bool) \<Rightarrow> nat option"
type_synonym 't table_insert = "'t \<Rightarrow> u64 \<Rightarrow> nat \<Rightarrow> 't"

definition bi_new :: "'t \<Rightarrow> 't bytes_interner" where
  "bi_new empty_table = \<lparr>bi_bytes = lol_new, bi_table = empty_table\<rparr>"

definition bi_intern ::
    "'t table_find \<Rightarrow> 't table_insert \<Rightarrow> (u8 list \<Rightarrow> u64) \<Rightarrow> u8 list \<Rightarrow> 't bytes_interner
     \<Rightarrow> (nat \<times> 't bytes_interner) panics" where
  "bi_intern tfind tinsert hash_one bytes s =
     (case tfind (bi_table s) (hash_one bytes) (\<lambda>i. lol_index (bi_bytes s) i = Some bytes) of
        Some i \<Rightarrow> Some (i, s)
      | None \<Rightarrow>
          do { (new_index, bytes') \<leftarrow> lol_push_copy_slice bytes (bi_bytes s);
               Some (new_index,
                 \<lparr>bi_bytes = bytes', bi_table = tinsert (bi_table s) (hash_one bytes) new_index\<rparr>) })"

definition bi_index :: "'t bytes_interner \<Rightarrow> nat \<Rightarrow> u8 list panics" where
  "bi_index s i = lol_index (bi_bytes s) i"

text \<open>A string interner is the byte interner on the UTF-8 bytes of its strings.\<close>

type_synonym 't string_interner = "'t bytes_interner"

definition si_intern ::
    "'t table_find \<Rightarrow> 't table_insert \<Rightarrow> (u8 list \<Rightarrow> u64) \<Rightarrow> u8 list \<Rightarrow> 't string_interner
     \<Rightarrow> (nat \<times> 't string_interner) panics" where
  "si_intern tfind tinsert hash_one utf8 s = bi_intern tfind tinsert hash_one utf8 s"

section \<open>The contract of the hash table and the invariant\<close>

definition hash_table_contract ::
    "'t table_find \<Rightarrow> 't table_insert \<Rightarrow> ('t \<Rightarrow> (u64 \<times> nat) set) \<Rightarrow> bool" where
  "hash_table_contract tfind tinsert entries \<longleftrightarrow>
     (\<forall>t h eq i. tfind t h eq = Some i \<longrightarrow> (h, i) \<in> entries t \<and> eq i) \<and>
     (\<forall>t h eq i. tfind t h eq = None \<longrightarrow> (h, i) \<in> entries t \<longrightarrow> \<not> eq i) \<and>
     (\<forall>t h i. entries (tinsert t h i) = Set.insert (h, i) (entries t))"

definition bi_rep ::
    "('t \<Rightarrow> (u64 \<times> nat) set) \<Rightarrow> (u8 list \<Rightarrow> u64) \<Rightarrow> 't bytes_interner \<Rightarrow> u8 list list \<Rightarrow> bool" where
  "bi_rep entries hash_one s xss \<longleftrightarrow>
     lol_rep (bi_bytes s) xss \<and> distinct xss \<and>
     entries (bi_table s) = {(hash_one (xss ! i), i) |i. i < length xss}"

lemma bi_new_rep: "entries t = {} \<Longrightarrow> bi_rep entries h (bi_new t) []"
  by (simp add: bi_rep_def bi_new_def lol_new_rep)

lemma table_find_hit:
  assumes "hash_table_contract tfind tinsert entries" and "tfind t h eq = Some i"
  shows "(h, i) \<in> entries t \<and> eq i"
proof -
  have "\<forall>t h eq i. tfind t h eq = Some i \<longrightarrow> (h, i) \<in> entries t \<and> eq i"
    using assms(1) unfolding hash_table_contract_def by (rule conjunct1)
  from this [rule_format, OF assms(2)] show ?thesis .
qed

lemma table_find_miss:
  assumes "hash_table_contract tfind tinsert entries" and "tfind t h eq = None"
    and "(h, i) \<in> entries t"
  shows "\<not> eq i"
proof -
  have "\<forall>t h eq i. tfind t h eq = None \<longrightarrow> (h, i) \<in> entries t \<longrightarrow> \<not> eq i"
    using assms(1) unfolding hash_table_contract_def by (elim conjE)
  from this [rule_format, OF assms(2,3)] show ?thesis .
qed

lemma table_entries_insert:
  assumes "hash_table_contract tfind tinsert entries"
  shows "entries (tinsert t h i) = Set.insert (h, i) (entries t)"
proof -
  have "\<forall>t h i. entries (tinsert t h i) = Set.insert (h, i) (entries t)"
    using assms unfolding hash_table_contract_def by (elim conjE)
  then show ?thesis by simp
qed

lemma bi_rep_index: "bi_rep entries h s xss \<Longrightarrow> lol_index (bi_bytes s) i = get_at xss i"
  by (simp add: bi_rep_def lol_index_rep)

lemma bi_find_hit:
  assumes "hash_table_contract tfind tinsert entries" and "bi_rep entries h s xss"
    and "tfind (bi_table s) (h b) (\<lambda>i. lol_index (bi_bytes s) i = Some b) = Some i"
  shows "i < length xss \<and> xss ! i = b"
  using table_find_hit [OF assms(1,3)] bi_rep_index [OF assms(2), of i] by (simp add: get_at_Some)

lemma bi_find_miss:
  assumes "hash_table_contract tfind tinsert entries" and "bi_rep entries h s xss"
    and "tfind (bi_table s) (h b) (\<lambda>i. lol_index (bi_bytes s) i = Some b) = None"
  shows "b \<notin> set xss"
proof
  assume "b \<in> set xss"
  then obtain i where i: "i < length xss" "xss ! i = b"
    by (metis in_set_conv_nth)
  then have "(h b, i) \<in> entries (bi_table s)"
    using assms(2) by (auto simp: bi_rep_def)
  from table_find_miss [OF assms(1,3) this] show False
    using bi_rep_index [OF assms(2), of i] i by simp
qed

lemma bi_intern_known:
  assumes "hash_table_contract tfind tinsert entries" and "bi_rep entries h s xss" and "b \<in> set xss"
  obtains i where "bi_intern tfind tinsert h b s = Some (i, s)" and "i < length xss" and "xss ! i = b"
proof (cases "tfind (bi_table s) (h b) (\<lambda>i. lol_index (bi_bytes s) i = Some b)")
  case None
  then show ?thesis
    using bi_find_miss [OF assms(1,2) None] assms(3) by simp
next
  case (Some i)
  then show ?thesis
    using bi_find_hit [OF assms(1,2) Some] that by (simp add: bi_intern_def)
qed

lemma bi_intern_fresh:
  assumes "hash_table_contract tfind tinsert entries" and "bi_rep entries h s xss"
    and "b \<notin> set xss" and "lol_room xss b"
  obtains s' where "bi_intern tfind tinsert h b s = Some (length xss, s')"
    and "bi_rep entries h s' (xss @ [b])"
proof -
  have rep: "lol_rep (bi_bytes s) xss"
    using assms(2) by (simp add: bi_rep_def)
  obtain l where l: "lol_push_iter b (bi_bytes s) = Some (length xss, l)" "lol_rep l (xss @ [b])"
    using lol.push_rep [OF rep assms(4)] by auto
  have miss: "tfind (bi_table s) (h b) (\<lambda>i. lol_index (bi_bytes s) i = Some b) = None"
    using bi_find_hit [OF assms(1,2), of b] assms(3)
    by (cases "tfind (bi_table s) (h b) (\<lambda>i. lol_index (bi_bytes s) i = Some b)") auto
  let ?s = "\<lparr>bi_bytes = l, bi_table = tinsert (bi_table s) (h b) (length xss)\<rparr>"
  have "bi_intern tfind tinsert h b s = Some (length xss, ?s)"
    using miss l by (simp add: bi_intern_def lol_push_copy_slice_def)
  moreover have "entries (bi_table ?s) = {(h ((xss @ [b]) ! i), i) |i. i < length (xss @ [b])}"
    using assms(2) table_entries_insert [OF assms(1)]
    by (auto simp: bi_rep_def nth_append less_Suc_eq)
  then have "bi_rep entries h ?s (xss @ [b])"
    using l assms(2,3) by (simp add: bi_rep_def)
  ultimately show ?thesis
    by (rule that)
qed


text \<open>
  A concrete table meets the contract: an association list searched from its front, with the sum
  of the bytes as the hash.
\<close>

definition assoc_find :: "(u64 \<times> nat) list table_find" where
  "assoc_find t h eq = map_option snd (List.find (\<lambda>(g, i). g = h \<and> eq i) t)"

definition assoc_insert :: "(u64 \<times> nat) list table_insert" where
  "assoc_insert t h i = (h, i) # t"

definition sum_hash :: "u8 list \<Rightarrow> u64" where
  "sum_hash bs = sum_list (map ucast bs)"

lemma assoc_table_contract: "hash_table_contract assoc_find assoc_insert set"
  by (auto simp: hash_table_contract_def assoc_find_def assoc_insert_def find_Some_iff find_None_iff
      in_set_conv_nth)


end
