(* ===== verification/Bigint.thy ===== *)
theory Bigint
  imports List_Of_Lists
begin

text \<open>
  Number literals (\<open>plank-core/src/bigint.rs\<close>): the digits of a literal are parsed into
  little-endian \<open>u32\<close> limbs, which \<open>limbs_to_u256\<close> turns into a 256-bit word.  A string is the list
  of its bytes; an unexpected byte is the panic of the source.  \<open>limbs_value\<close> is the number a list
  of limbs stands for and \<open>digits_value\<close> the number a literal denotes, separators skipped.
\<close>

section \<open>The parsers\<close>

definition strip_leading :: "u8 list \<Rightarrow> u8 list" where
  "strip_leading bytes =
     (let start = (case position (\<lambda>c. c \<noteq> 0x30 \<and> c \<noteq> 0x5F) bytes of
                     Some i \<Rightarrow> i | None \<Rightarrow> length bytes)
      in drop start bytes)"

text \<open>A digit, a separator to skip (\<open>Some None\<close>) or the panic on an unexpected byte.\<close>

definition hex_nibble :: "u8 \<Rightarrow> u32 option panics" where
  "hex_nibble c =
     (if 0x30 \<le> c \<and> c \<le> 0x39 then Some (Some (ucast (c - 0x30)))
      else if 0x61 \<le> c \<and> c \<le> 0x66 then Some (Some (ucast (c - 0x61 + 10)))
      else if 0x41 \<le> c \<and> c \<le> 0x46 then Some (Some (ucast (c - 0x41 + 10)))
      else if c = 0x5F then Some None
      else None)"

definition bin_digit :: "u8 \<Rightarrow> u32 option panics" where
  "bin_digit c =
     (if c = 0x30 then Some (Some 0)
      else if c = 0x31 then Some (Some 1)
      else if c = 0x5F then Some None
      else None)"

definition dec_digit :: "u8 \<Rightarrow> u32 option panics" where
  "dec_digit c =
     (if 0x30 \<le> c \<and> c \<le> 0x39 then Some (Some (ucast (c - 0x30)))
      else if c = 0x5F then Some None
      else None)"

text \<open>
  One iteration of the loops of \<open>from_radix16_in\<close> and \<open>from_radix2_in\<close>, which differ in the digits
  and in the width of a digit: the state is the digit position within the limb, the limb under
  construction and the limbs pushed so far.
\<close>

definition pow2_step ::
    "nat \<Rightarrow> nat \<Rightarrow> (u8 \<Rightarrow> u32 option panics) \<Rightarrow> u8 \<Rightarrow> nat \<times> u32 \<times> u32 list \<Rightarrow> (nat \<times> u32 \<times> u32 list) panics"
  where
  "pow2_step bits per_limb digit c = (\<lambda>(i, limb, pushed).
     do { d \<leftarrow> digit c;
          case d of
            None \<Rightarrow> Some (i, limb, pushed)
          | Some d \<Rightarrow>
              let limb = limb OR push_bit (i * bits) d;
                  i = (i + 1) mod per_limb
              in Some (if i = 0 then (i, 0, pushed @ [limb]) else (i, limb, pushed)) })"

definition pow2_limbs ::
    "nat \<Rightarrow> nat \<Rightarrow> (u8 \<Rightarrow> u32 option panics) \<Rightarrow> u8 list \<Rightarrow> u32 list \<Rightarrow> u32 list panics" where
  "pow2_limbs bits per_limb digit s cur =
     do { (i, limb, pushed) \<leftarrow>
            fold_panics (pow2_step bits per_limb digit) (rev (strip_leading s)) (0, 0, cur);
          Some (if i > 0 \<and> limb \<noteq> 0 then pushed @ [limb] else pushed) }"

definition from_radix16_in :: "u8 list \<Rightarrow> u32 list_of_lists \<Rightarrow> (nat \<times> u32 list_of_lists) panics" where
  "from_radix16_in s storage = lol_push_with (pow2_limbs 4 8 hex_nibble s) storage"

definition from_radix2_in :: "u8 list \<Rightarrow> u32 list_of_lists \<Rightarrow> (nat \<times> u32 list_of_lists) panics" where
  "from_radix2_in s storage = lol_push_with (pow2_limbs 1 32 bin_digit s) storage"

fun mul_add_over_limbs :: "u32 list \<Rightarrow> u32 \<Rightarrow> u32 \<Rightarrow> u32 list \<times> u32" where
  "mul_add_over_limbs [] mul carry = ([], carry)"
| "mul_add_over_limbs (limb # limbs) mul carry =
     (let res = (ucast limb :: u64) * ucast mul;
          low = ucast res :: u32;
          new_limb = low + carry;
          carry_add = (unat low + unat carry \<ge> 2 ^ 32);
          carry' = ucast (drop_bit 32 res) + (if carry_add then 1 else 0);
          (rest, out) = mul_add_over_limbs limbs mul carry'
      in (new_limb # rest, out))"

definition radix10_step :: "u8 \<Rightarrow> u32 list \<Rightarrow> u32 list panics" where
  "radix10_step c cur =
     do { d \<leftarrow> dec_digit c;
          case d of
            None \<Rightarrow> Some cur
          | Some dig \<Rightarrow>
              let (limbs, carry) = mul_add_over_limbs cur 10 dig
              in Some (if carry > 0 then limbs @ [carry] else limbs) }"

definition radix10_limbs :: "u8 list \<Rightarrow> u32 list \<Rightarrow> u32 list panics" where
  "radix10_limbs s cur = fold_panics radix10_step (strip_leading s) cur"

definition from_radix10_in :: "u8 list \<Rightarrow> u32 list_of_lists \<Rightarrow> (nat \<times> u32 list_of_lists) panics" where
  "from_radix10_in s storage = lol_push_with (radix10_limbs s) storage"

text \<open>
  \<open>U256::from_limbs\<close> of four little-endian \<open>u64\<close> limbs, and the pairing of \<open>u32\<close> limbs by
  \<open>as_chunks::<2>\<close> with a single last limb padded by zero.
\<close>

definition u256_from_limbs :: "u64 list \<Rightarrow> u256" where
  "u256_from_limbs ls = foldr (\<lambda>l acc. ucast l OR push_bit 64 acc) ls 0"

fun limb_pairs :: "u32 list \<Rightarrow> u64 list" where
  "limb_pairs (lo # hi # rest) = (push_bit 32 (ucast hi) OR ucast lo) # limb_pairs rest"
| "limb_pairs [lo] = [push_bit 32 (ucast (0 :: u32)) OR ucast lo]"
| "limb_pairs [] = []"

definition limbs_to_u256 :: "u32 list \<Rightarrow> u256 option" where
  "limbs_to_u256 limbs =
     (if 8 \<le> length limbs \<and> list_ex (\<lambda>limb. limb \<noteq> 0) (drop 8 limbs) then None
      else Some (u256_from_limbs (resize 4 0 (limb_pairs limbs))))"

section \<open>Values\<close>

fun limbs_value :: "u32 list \<Rightarrow> nat" where
  "limbs_value [] = 0"
| "limbs_value (l # ls) = unat l + 2 ^ 32 * limbs_value ls"

text \<open>The value of a literal, most significant digit first; \<open>None\<close> on an unexpected byte.\<close>

fun digits_value :: "nat \<Rightarrow> (u8 \<Rightarrow> u32 option panics) \<Rightarrow> u8 list \<Rightarrow> nat \<Rightarrow> nat panics" where
  "digits_value base digit [] acc = Some acc"
| "digits_value base digit (c # cs) acc =
     (case digit c of
        None \<Rightarrow> None
      | Some None \<Rightarrow> digits_value base digit cs acc
      | Some (Some d) \<Rightarrow> digits_value base digit cs (acc * base + unat d))"

definition canonical :: "u32 list \<Rightarrow> bool" where
  "canonical ls \<longleftrightarrow> ls = [] \<or> last ls \<noteq> 0"

lemma limbs_value_append:
  "limbs_value (xs @ ys) = limbs_value xs + 2 ^ (32 * length xs) * limbs_value ys"
  by (induction xs) (simp_all add: algebra_simps power_add)

lemma limbs_value_less: "limbs_value ls < 2 ^ (32 * length ls)"
proof (induction ls)
  case (Cons l ls)
  have "unat l < 2 ^ 32"
    using unsigned_less [of l] by simp
  then have "unat l + 2 ^ 32 * limbs_value ls < 2 ^ 32 * (limbs_value ls + 1)"
    by simp
  also have "\<dots> \<le> 2 ^ 32 * 2 ^ (32 * length ls)"
    using Cons by (intro mult_le_mono2) simp
  finally show ?case
    by (simp add: power_add)
qed simp

section \<open>Decimal literals\<close>

lemma unat_u32_less: "unat (x :: u32) < 2 ^ 32"
  using unsigned_less [of x] by simp

lemma unat_ucast_u64 [simp]: "unat (ucast (x :: u32) :: u64) = unat x"
  using unat_u32_less [of x] by (simp add: unsigned_ucast_eq take_bit_nat_eq_self)

lemma unat_mult_u64: "unat ((ucast x :: u64) * ucast y) = unat (x :: u32) * unat (y :: u32)"
proof -
  have "unat x * unat y < 2 ^ 32 * 2 ^ 32"
    by (rule mult_strict_mono [OF unat_u32_less unat_u32_less]) simp_all
  then show ?thesis
    by (simp add: unat_word_ariths)
qed

lemma unat_low_u32: "unat (ucast (x :: u64) :: u32) = unat x mod 2 ^ 32"
  by (simp add: unsigned_ucast_eq take_bit_eq_mod)

lemma unat_high_u32: "unat (ucast (drop_bit 32 (x :: u64)) :: u32) = unat x div 2 ^ 32"
proof -
  have "unat x < 2 ^ 64"
    using unsigned_less [of x] by simp
  then have "unat x div 2 ^ 32 < 2 ^ 32"
    by (simp add: div_less_iff_less_mult)
  then show ?thesis
    by (simp only: unat_low_u32 unat_drop_bit mod_less)
qed

lemma mul_add_limb:
  fixes limb mul carry :: u32
  defines "res \<equiv> (ucast limb :: u64) * ucast mul"
  defines "low \<equiv> ucast res :: u32"
  defines "out \<equiv> ucast (drop_bit 32 res) + (if unat low + unat carry \<ge> 2 ^ 32 then 1 else 0 :: u32)"
  shows "unat (low + carry) + 2 ^ 32 * unat out = unat limb * unat mul + unat carry"
proof -
  let ?p = "unat limb * unat mul"
  have res: "unat res = ?p"
    by (simp add: res_def unat_mult_u64)
  have low: "unat low = ?p mod 2 ^ 32"
    by (simp add: low_def unat_low_u32 res)
  have high: "unat (ucast (drop_bit 32 res) :: u32) = ?p div 2 ^ 32"
    by (simp only: unat_high_u32 res)
  have "?p \<le> (2 ^ 32 - 1) * (2 ^ 32 - 1)"
    using unat_u32_less [of limb] unat_u32_less [of mul] by (intro mult_le_mono) simp_all
  then have "?p div 2 ^ 32 \<le> 2 ^ 32 - 2"
    by simp
  then have out: "unat out = ?p div 2 ^ 32 + (if unat low + unat carry \<ge> 2 ^ 32 then 1 else 0)"
    unfolding out_def by (simp add: unat_word_ariths high)
  have "unat (low + carry) = (unat low + unat carry) mod 2 ^ 32"
    by (simp add: unat_word_ariths)
  moreover have "unat low + unat carry < 2 * 2 ^ 32"
    using unat_u32_less [of low] unat_u32_less [of carry] by simp
  ultimately have "unat (low + carry) + 2 ^ 32 * (if unat low + unat carry \<ge> 2 ^ 32 then 1 else 0)
      = unat low + unat carry"
    by (simp only: mod_carry)
  then have "unat (low + carry) + 2 ^ 32 * unat out = unat low + 2 ^ 32 * (?p div 2 ^ 32) + unat carry"
    by (simp only: out add_mult_distrib2)
  also have "\<dots> = ?p + unat carry"
    by (simp add: low)
  finally show ?thesis .
qed

lemma mul_add_over_limbs_value:
  "mul_add_over_limbs ls mul carry = (ls', out) \<Longrightarrow>
   limbs_value ls' + 2 ^ (32 * length ls) * unat out = limbs_value ls * unat mul + unat carry
   \<and> length ls' = length ls"
proof (induction ls arbitrary: carry ls' out)
  case (Cons l ls)
  let ?res = "(ucast l :: u64) * ucast mul"
  let ?low = "ucast ?res :: u32"
  let ?c = "ucast (drop_bit 32 ?res) + (if unat ?low + unat carry \<ge> 2 ^ 32 then 1 else 0 :: u32)"
  define c where "c = ?c"
  define low where "low = ?low + carry"
  obtain rest where rest: "mul_add_over_limbs ls mul c = (rest, out)" "ls' = low # rest"
    using Cons.prems by (auto simp: Let_def c_def low_def split: prod.splits)
  have head: "unat low + 2 ^ 32 * unat c = unat l * unat mul + unat carry"
    unfolding c_def low_def by (rule mul_add_limb)
  have tail: "limbs_value rest + 2 ^ (32 * length ls) * unat out = limbs_value ls * unat mul + unat c"
    and len: "length rest = length ls"
    using Cons.IH [OF rest(1)] by auto
  have "limbs_value ls' + 2 ^ (32 * length (l # ls)) * unat out
      = unat low + 2 ^ 32 * (limbs_value rest + 2 ^ (32 * length ls) * unat out)"
    unfolding rest(2) by (simp add: power_add algebra_simps)
  also have "\<dots> = (unat low + 2 ^ 32 * unat c) + 2 ^ 32 * (limbs_value ls * unat mul)"
    unfolding tail by (simp add: algebra_simps)
  also have "\<dots> = limbs_value (l # ls) * unat mul + unat carry"
    unfolding head by (simp add: algebra_simps)
  finally show ?case
    using len rest(2) by simp
qed simp


text \<open>Canonical limbs are the ones whose value needs all of them.\<close>

lemma canonical_iff: "ls \<noteq> [] \<Longrightarrow> canonical ls \<longleftrightarrow> 2 ^ (32 * (length ls - 1)) \<le> limbs_value ls"
proof (induction ls rule: rev_induct)
  case (snoc l ls)
  have less: "limbs_value ls < 2 ^ (32 * length ls)"
    by (rule limbs_value_less)
  show ?case
  proof (cases "l = 0")
    case True
    then show ?thesis
      using less by (simp add: canonical_def limbs_value_append)
  next
    case False
    then have "1 \<le> unat l"
      by (simp add: unat_gt_0 Suc_le_eq)
    then have "2 ^ (32 * length ls) * 1 \<le> 2 ^ (32 * length ls) * unat l"
      by (intro mult_le_mono2)
    then have "2 ^ (32 * length ls) \<le> limbs_value ls + 2 ^ (32 * length ls) * unat l"
      by (simp only: mult_1_right trans_le_add2)
    then show ?thesis
      using False by (simp add: canonical_def limbs_value_append)
  qed
qed simp

lemma radix10_step_value:
  "map_option limbs_value (radix10_step c cur) =
   map_option (\<lambda>d. case d of None \<Rightarrow> limbs_value cur | Some d \<Rightarrow> limbs_value cur * 10 + unat d) (dec_digit c)"
proof (cases "dec_digit c")
  case (Some od)
  then show ?thesis
  proof (cases od)
    case (Some d)
    obtain ls out where ls: "mul_add_over_limbs cur 10 d = (ls, out)"
      by fastforce
    have "limbs_value ls + 2 ^ (32 * length cur) * unat out = limbs_value cur * 10 + unat d" "length ls = length cur"
      using mul_add_over_limbs_value [OF ls] by simp_all
    then show ?thesis
      using \<open>dec_digit c = Some od\<close> Some ls
      by (auto simp: radix10_step_def limbs_value_append word_gt_0)
  qed (simp add: radix10_step_def)
qed (simp add: radix10_step_def)

lemma digits_value_10:
  "digits_value 10 dec_digit cs (limbs_value cur) = map_option limbs_value (fold_panics radix10_step cs cur)"
proof (induction cs arbitrary: cur)
  case (Cons c cs)
  note step = radix10_step_value [of c cur]
  show ?case
  proof (cases "radix10_step c cur")
    case None
    then show ?thesis
      using step by simp
  next
    case (Some cur')
    then show ?thesis
      using step Cons [of cur'] by (auto split: option.splits)
  qed
qed simp

lemma radix10_step_canonical:
  assumes "radix10_step c cur = Some cur'" and "canonical cur"
  shows "canonical cur'"
proof (cases "dec_digit c")
  case (Some od)
  then show ?thesis
  proof (cases od)
    case (Some d)
    obtain ls out where ls: "mul_add_over_limbs cur 10 d = (ls, out)"
      by fastforce
    have val: "limbs_value ls + 2 ^ (32 * length cur) * unat out = limbs_value cur * 10 + unat d"
      and len: "length ls = length cur"
      using mul_add_over_limbs_value [OF ls] by simp_all
    have cur': "cur' = (if out > 0 then ls @ [out] else ls)"
      using assms(1) \<open>dec_digit c = Some od\<close> Some ls by (simp add: radix10_step_def)
    show ?thesis
    proof (cases "out > 0 \<or> cur = []")
      case True
      then show ?thesis
        using len by (auto simp: cur' canonical_def)
    next
      case False
      then have "2 ^ (32 * (length cur - 1)) \<le> limbs_value ls"
        using val assms(2) canonical_iff [of cur] by (simp add: word_gt_0)
      then show ?thesis
        using False len canonical_iff [of ls] by (cases "ls = []") (auto simp: cur')
    qed
  qed (use assms in \<open>simp add: radix10_step_def\<close>)
qed (use assms in \<open>simp add: radix10_step_def\<close>)

text \<open>Leading zeros and separators do not count.\<close>

lemma strip_leading_Cons:
  "strip_leading (c # cs) = (if c = 0x30 \<or> c = 0x5F then strip_leading cs else c # cs)"
  by (auto simp: strip_leading_def Let_def split: option.splits)

lemma strip_leading_Nil [simp]: "strip_leading [] = []"
  by (simp add: strip_leading_def)

lemma strip_leading_cases:
  "strip_leading s = [] \<or> (\<exists>c cs. strip_leading s = c # cs \<and> c \<noteq> 0x30 \<and> c \<noteq> 0x5F)"
  by (induction s) (auto simp: strip_leading_Cons)

lemma digits_value_strip:
  assumes "digit 0x30 = Some (Some 0)" and "digit 0x5F = Some None"
  shows "digits_value base digit (strip_leading s) 0 = digits_value base digit s 0"
  by (induction s) (auto simp: strip_leading_Cons assms split: option.splits)

text \<open>
  What a parser promises: it panics exactly on an unexpected byte that is not part of the stripped
  prefix, and otherwise delivers the value of the literal in canonical limbs.
\<close>

definition parses :: "nat \<Rightarrow> (u8 \<Rightarrow> u32 option panics) \<Rightarrow> u8 list \<Rightarrow> u32 list panics \<Rightarrow> bool" where
  "parses base digit s res \<longleftrightarrow>
     digits_value base digit s 0 = map_option limbs_value res
     \<and> (\<forall>ls. res = Some ls \<longrightarrow> canonical ls)"

lemma radix10_limbs_parses: "parses 10 dec_digit s (radix10_limbs s [])"
proof -
  have "digits_value 10 dec_digit s 0 = map_option limbs_value (radix10_limbs s [])"
    unfolding radix10_limbs_def
    using digits_value_10 [of "strip_leading s" "[]"] digits_value_strip [of dec_digit 10 s]
    by (simp add: dec_digit_def)
  moreover have "canonical ls" if "radix10_limbs s [] = Some ls" for ls
    using that unfolding radix10_limbs_def
    by (rule fold_panics_invariant [where P = canonical])
      (auto simp: canonical_def [of "[]"] intro: radix10_step_canonical)
  ultimately show ?thesis
    by (simp add: parses_def)
qed


section \<open>Hexadecimal and binary literals\<close>

lemma nat_or_push_bit:
  assumes "(x :: nat) < 2 ^ k"
  shows "x OR push_bit k y = x + 2 ^ k * y"
proof -
  have "x AND push_bit k y = 0"
  proof (rule bit_eqI)
    fix n
    have "\<not> bit x n" if "k \<le> n"
    proof -
      have "x < 2 ^ n"
        by (rule less_le_trans [OF assms power_increasing [OF that]]) simp
      then have "take_bit n x = x"
        by (rule take_bit_nat_eq_self)
      then have "bit x n \<longleftrightarrow> bit (take_bit n x) n"
        by (simp only:)
      then show ?thesis
        by (simp add: bit_take_bit_iff)
    qed
    then show "bit (x AND push_bit k y) n \<longleftrightarrow> bit (0 :: nat) n"
      by (auto simp: bit_and_iff bit_push_bit_iff)
  qed
  then have "x OR push_bit k y = x + push_bit k y"
    by (metis disjunctive_add_eq_or)
  then show ?thesis
    by (simp add: push_bit_eq_mult)
qed

lemma unat_push_bit:
  assumes "push_bit k (unat d) < 2 ^ LENGTH('a)"
  shows "unat (push_bit k (d :: 'a::len word)) = push_bit k (unat d)"
proof -
  have "unat (push_bit k d) = take_bit LENGTH('a) (push_bit k (unat d))"
    by (rule unsigned_push_bit_eq)
  also have "\<dots> = push_bit k (unat d)"
    by (rule take_bit_nat_eq_self) (rule assms)
  finally show ?thesis .
qed

lemma unat_or_push_bit:
  assumes "unat limb < 2 ^ k" and "unat d < 2 ^ b" and "k + b \<le> LENGTH('a)"
  shows "unat ((limb :: 'a::len word) OR push_bit k d) = unat limb + 2 ^ k * unat d"
proof -
  have "2 ^ k * unat d < 2 ^ k * 2 ^ b"
    using assms(2) by simp
  also have "\<dots> \<le> (2 :: nat) ^ LENGTH('a)"
    unfolding power_add [symmetric] by (rule power_increasing [OF assms(3)]) simp
  also have "2 ^ k * unat d = push_bit k (unat d)"
    by (simp add: push_bit_eq_mult)
  finally have "unat (push_bit k d) = push_bit k (unat d)"
    by (rule unat_push_bit)
  then show ?thesis
    by (simp only: unsigned_or_eq nat_or_push_bit [OF assms(1)])
qed

text \<open>
  The state of a loop over the digits of \<open>cs\<close>, least significant first, against the value of \<open>cs\<close>.
\<close>

definition pow2_inv ::
    "nat \<Rightarrow> nat \<Rightarrow> (u8 \<Rightarrow> u32 option panics) \<Rightarrow> u8 list \<Rightarrow> nat \<times> u32 \<times> u32 list \<Rightarrow> bool" where
  "pow2_inv bits per_limb digit cs = (\<lambda>(i, limb, pushed).
     i < per_limb \<and> unat limb < 2 ^ (i * bits)
     \<and> (\<forall>acc. digits_value (2 ^ bits) digit cs acc
          = Some (acc * 2 ^ (32 * length pushed + i * bits)
                  + limbs_value pushed + 2 ^ (32 * length pushed) * unat limb)))"

lemma pow2_inv_digit:
  assumes inv: "pow2_inv bits per_limb digit cs (i, limb, pushed)"
    and c: "digit c = Some (Some d)" and d: "unat d < 2 ^ bits" and bits: "bits * per_limb = 32"
  shows "\<exists>s'. pow2_step bits per_limb digit c (i, limb, pushed) = Some s'
    \<and> pow2_inv bits per_limb digit (c # cs) s'"
proof -
  define limb' where "limb' = limb OR push_bit (i * bits) d"
  have i: "i < per_limb" and less: "unat limb < 2 ^ (i * bits)"
    using inv by (simp_all add: pow2_inv_def)
  have width: "i * bits + bits \<le> 32"
    using mult_le_mono1 [of "Suc i" per_limb bits] i bits by (simp add: mult.commute)
  have limb': "unat limb' = unat limb + 2 ^ (i * bits) * unat d"
    unfolding limb'_def by (rule unat_or_push_bit [OF less d]) (use width in simp)
  have val: "digits_value (2 ^ bits) digit (c # cs) acc
      = Some (acc * 2 ^ (32 * length pushed + Suc i * bits)
              + limbs_value pushed + 2 ^ (32 * length pushed) * unat limb')" for acc
    using inv by (simp add: pow2_inv_def c limb' power_add algebra_simps)
  show ?thesis
  proof (cases "Suc i = per_limb")
    case True
    then have "Suc i * bits = 32"
      using bits by (simp add: mult.commute)
    with val show ?thesis
      using True i
      by (simp add: pow2_step_def c pow2_inv_def limb'_def limbs_value_append del: digits_value.simps mult_Suc)
  next
    case False
    have "unat limb' < 2 ^ (i * bits) * (1 + unat d)"
      using less by (simp add: limb')
    also have "\<dots> \<le> 2 ^ (i * bits) * 2 ^ bits"
      using d by (intro mult_le_mono2) simp
    finally have "unat limb' < 2 ^ (Suc i * bits)"
      by (simp add: power_add mult.commute)
    with val show ?thesis
      using False i
      by (simp add: pow2_step_def c pow2_inv_def limb'_def del: digits_value.simps mult_Suc)
  qed
qed

lemma pow2_step_skip:
  "digit c = None \<Longrightarrow> pow2_step bits per_limb digit c s = None"
  "digit c = Some None \<Longrightarrow> pow2_step bits per_limb digit c s = Some s"
  by (cases s; simp add: pow2_step_def)+

lemma pow2_loop:
  assumes digit: "\<And>c d. digit c = Some (Some d) \<Longrightarrow> unat d < 2 ^ bits" and bits: "bits * per_limb = 32"
  shows "case fold_panics (pow2_step bits per_limb digit) (rev cs) (0, 0, []) of
      None \<Rightarrow> \<forall>acc. digits_value (2 ^ bits) digit cs acc = None
    | Some s \<Rightarrow> pow2_inv bits per_limb digit cs s"
proof (induction cs)
  case Nil
  have "0 < per_limb"
    using bits by (cases per_limb) simp_all
  then show ?case
    by (simp add: pow2_inv_def)
next
  case (Cons c cs)
  show ?case
  proof (cases "fold_panics (pow2_step bits per_limb digit) (rev cs) (0, 0, [])")
    case None
    then show ?thesis
      using Cons by (auto split: option.splits)
  next
    case (Some s)
    obtain i limb pushed where s: "s = (i, limb, pushed)"
      by (cases s)
    have inv: "pow2_inv bits per_limb digit cs (i, limb, pushed)"
      using Cons Some s by simp
    consider "digit c = None" | "digit c = Some None" | d where "digit c = Some (Some d)"
      by fastforce
    then show ?thesis
    proof cases
      case (3 d)
      then show ?thesis
        using pow2_inv_digit [OF inv 3 digit [OF 3] bits] Some s by auto
    next
      case 1
      have "fold_panics (pow2_step bits per_limb digit) (rev (c # cs)) (0, 0, []) = None"
        using 1 Some s by (simp add: pow2_step_skip)
      then show ?thesis
        by (simp add: 1)
    next
      case 2
      have "fold_panics (pow2_step bits per_limb digit) (rev (c # cs)) (0, 0, []) = Some s"
        using 2 Some s by (simp add: pow2_step_skip)
      then show ?thesis
        using inv by (simp add: 2 s pow2_inv_def)
    qed
  qed
qed


definition pow2_finish :: "nat \<times> u32 \<times> u32 list \<Rightarrow> u32 list" where
  "pow2_finish = (\<lambda>(i, limb, pushed). if i > 0 \<and> limb \<noteq> 0 then pushed @ [limb] else pushed)"

lemma pow2_limbs_finish:
  "pow2_limbs bits per_limb digit s cur =
   map_option pow2_finish (fold_panics (pow2_step bits per_limb digit) (rev (strip_leading s)) (0, 0, cur))"
  by (auto simp: pow2_limbs_def pow2_finish_def map_option_case split: option.splits Option.bind_splits)

lemma pow2_finish_value:
  "pow2_inv bits per_limb digit cs s \<Longrightarrow> digits_value (2 ^ bits) digit cs 0 = Some (limbs_value (pow2_finish s))"
  by (cases s) (auto simp: pow2_inv_def pow2_finish_def limbs_value_append)

lemma pow2_canonical:
  assumes digit: "\<And>c d. digit c = Some (Some d) \<Longrightarrow> unat d < 2 ^ bits" and bits: "bits * per_limb = 32"
    and c: "digit c = Some (Some d)" "d \<noteq> 0"
    and loop: "fold_panics (pow2_step bits per_limb digit) (rev (c # cs)) (0, 0, []) = Some s'"
  shows "canonical (pow2_finish s')"
proof -
  obtain i limb pushed where
    s: "fold_panics (pow2_step bits per_limb digit) (rev cs) (0, 0, []) = Some (i, limb, pushed)"
    and step: "pow2_step bits per_limb digit c (i, limb, pushed) = Some s'"
    using loop by (auto simp: bind_Some)
  have inv: "pow2_inv bits per_limb digit cs (i, limb, pushed)"
    using pow2_loop [OF digit bits, where digit = digit and cs = cs] s by simp
  obtain s'' where s'': "pow2_step bits per_limb digit c (i, limb, pushed) = Some s''"
    and inv': "pow2_inv bits per_limb digit (c # cs) s''"
    using pow2_inv_digit [OF inv c(1) digit [OF c(1)] bits] by blast
  have "s' = s''"
    using step s'' by simp
  have "limbs_value (pow2_finish s') = unat d * 2 ^ (32 * length pushed + i * bits)
      + limbs_value pushed + 2 ^ (32 * length pushed) * unat limb"
    using pow2_finish_value [OF inv'] inv \<open>s' = s''\<close> by (simp add: c(1) pow2_inv_def)
  moreover have "1 * 2 ^ (32 * length pushed + 0) \<le> unat d * 2 ^ (32 * length pushed + i * bits)"
    using c(2) by (intro mult_le_mono power_increasing) (simp_all add: unat_gt_0 Suc_le_eq)
  ultimately have low: "2 ^ (32 * length pushed) \<le> limbs_value (pow2_finish s')"
    by simp
  define limb' where "limb' = limb OR push_bit (i * bits) d"
  have "pow2_finish s' \<in> {pushed @ [limb'], pushed}"
    using step by (auto simp: pow2_step_def c(1) pow2_finish_def Let_def limb'_def split: if_splits)
  moreover have "pow2_finish s' \<noteq> pushed"
    using low limbs_value_less [of pushed] by (auto simp: not_le)
  ultimately have "pow2_finish s' = pushed @ [limb']"
    by simp
  then show ?thesis
    using low canonical_iff [of "pow2_finish s'"] by simp
qed

lemma pow2_limbs_parses:
  assumes digit: "\<And>c d. digit c = Some (Some d) \<Longrightarrow> unat d < 2 ^ bits" and bits: "bits * per_limb = 32"
    and zero: "\<And>c d. digit c = Some (Some d) \<Longrightarrow> d = 0 \<longleftrightarrow> c = 0x30" "digit 0x30 = Some (Some 0)"
    and skip: "\<And>c. digit c = Some None \<longleftrightarrow> c = 0x5F"
  shows "parses (2 ^ bits) digit s (pow2_limbs bits per_limb digit s [])"
proof -
  let ?fold = "\<lambda>cs. fold_panics (pow2_step bits per_limb digit) (rev cs) (0, 0, [])"
  have loop: "case ?fold (strip_leading s) of
      None \<Rightarrow> \<forall>acc. digits_value (2 ^ bits) digit (strip_leading s) acc = None
    | Some st \<Rightarrow> pow2_inv bits per_limb digit (strip_leading s) st"
    by (rule pow2_loop [OF digit bits])
  have "digits_value (2 ^ bits) digit s 0 = digits_value (2 ^ bits) digit (strip_leading s) 0"
    using zero(2) skip by (simp add: digits_value_strip)
  also have "\<dots> = map_option (limbs_value \<circ> pow2_finish) (?fold (strip_leading s))"
    using loop by (cases "?fold (strip_leading s)") (auto simp: pow2_finish_value)
  finally have "digits_value (2 ^ bits) digit s 0 = map_option limbs_value (pow2_limbs bits per_limb digit s [])"
    by (simp add: pow2_limbs_finish option.map_comp)
  moreover have "canonical (pow2_finish st)" if st: "?fold (strip_leading s) = Some st" for st
  proof (cases "strip_leading s")
    case Nil
    then show ?thesis
      using st by (auto simp: pow2_finish_def canonical_def)
  next
    case (Cons c cs)
    then have ne: "c \<noteq> 0x30" "c \<noteq> 0x5F"
      using strip_leading_cases [of s] by auto
    have "digit c \<noteq> None"
    proof
      assume "digit c = None"
      then show False
        using st Cons by (cases "?fold cs") (simp_all add: pow2_step_skip)
    qed
    then obtain d where d: "digit c = Some (Some d)"
      using ne(2) skip [of c] by fastforce
    have "d \<noteq> 0"
      using zero(1) [OF d] ne(1) by simp
    then show ?thesis
      using pow2_canonical [of digit bits per_limb c d cs st] digit bits d st Cons by simp
  qed
  ultimately show ?thesis
    by (auto simp: parses_def pow2_limbs_finish)
qed

lemma unat_ucast_u8 [simp]: "unat (ucast (x :: u8) :: u32) = unat x"
proof -
  have "unat x < 2 ^ 8"
    using unsigned_less [of x] by simp
  then show ?thesis
    by (simp add: unsigned_ucast_eq take_bit_nat_eq_self)
qed

lemma hex_nibble_digit:
  assumes "hex_nibble c = Some (Some d)"
  shows "unat d < 2 ^ 4" and "d = 0 \<longleftrightarrow> c = 0x30"
proof -
  have sub: "unat (c - k) = unat c - unat k" if "k \<le> c" for k
    using that by (rule unat_sub)
  have "unat d = unat c - 0x30 \<and> 0x30 \<le> unat c \<and> unat c \<le> 0x39
      \<or> unat d = unat c - 0x61 + 10 \<and> 0x61 \<le> unat c \<and> unat c \<le> 0x66
      \<or> unat d = unat c - 0x41 + 10 \<and> 0x41 \<le> unat c \<and> unat c \<le> 0x46"
    using assms
    by (auto simp: hex_nibble_def unat_word_ariths word_le_nat_alt sub split: if_splits)
  moreover have "d = 0 \<longleftrightarrow> unat d = 0" and "c = 0x30 \<longleftrightarrow> unat c = 0x30"
    by (simp_all add: word_unat_eq_iff)
  ultimately show "unat d < 2 ^ 4" and "d = 0 \<longleftrightarrow> c = 0x30"
    by auto
qed

lemma hex_limbs_parses: "parses 16 hex_nibble s (pow2_limbs 4 8 hex_nibble s [])"
proof -
  have "parses (2 ^ 4) hex_nibble s (pow2_limbs 4 8 hex_nibble s [])"
    by (rule pow2_limbs_parses [OF hex_nibble_digit(1) _ hex_nibble_digit(2)])
      (auto simp: hex_nibble_def split: if_splits)
  then show ?thesis
    by simp
qed

lemma bin_limbs_parses: "parses 2 bin_digit s (pow2_limbs 1 32 bin_digit s [])"
proof -
  have "parses (2 ^ 1) bin_digit s (pow2_limbs 1 32 bin_digit s [])"
    by (rule pow2_limbs_parses) (auto simp: bin_digit_def split: if_splits)
  then show ?thesis
    by simp
qed


section \<open>From limbs to a 256-bit word\<close>

fun limbs64_value :: "u64 list \<Rightarrow> nat" where
  "limbs64_value [] = 0"
| "limbs64_value (l # ls) = unat l + 2 ^ 64 * limbs64_value ls"

lemma limbs64_value_append:
  "limbs64_value (xs @ ys) = limbs64_value xs + 2 ^ (64 * length xs) * limbs64_value ys"
  by (induction xs) (simp_all add: algebra_simps power_add)

lemma limbs64_value_zeros [simp]: "limbs64_value (replicate n 0) = 0"
  by (induction n) simp_all

lemma limbs64_value_less: "limbs64_value ls < 2 ^ (64 * length ls)"
proof (induction ls)
  case (Cons l ls)
  have "unat l < 2 ^ 64"
    using unsigned_less [of l] by simp
  then have "unat l + 2 ^ 64 * limbs64_value ls < 2 ^ 64 * (limbs64_value ls + 1)"
    by simp
  also have "\<dots> \<le> 2 ^ 64 * 2 ^ (64 * length ls)"
    using Cons by (intro mult_le_mono2) simp
  finally show ?case
    by (simp add: power_add)
qed simp

lemma unat_u64_to_u256: "unat (ucast (l :: u64) :: u256) = unat l" and unat_u64_less: "unat l < 2 ^ 64"
proof -
  show less: "unat l < 2 ^ 64"
    using unsigned_less [of l] by simp
  have "unat l < 2 ^ 256"
    by (rule less_le_trans [OF less power_increasing]) simp_all
  then show "unat (ucast l :: u256) = unat l"
    by (simp add: unsigned_ucast_eq take_bit_nat_eq_self)
qed

lemma u256_from_limbs_value: "length ls \<le> 4 \<Longrightarrow> unat (u256_from_limbs ls) = limbs64_value ls"
proof (induction ls)
  case (Cons l ls)
  let ?acc = "u256_from_limbs ls"
  have acc: "unat ?acc = limbs64_value ls"
    using Cons by simp
  have "unat ((ucast l :: u256) OR push_bit 64 ?acc) = unat (ucast l :: u256) + 2 ^ 64 * unat ?acc"
  proof (rule unat_or_push_bit [where b = "64 * length ls"])
    show "unat (ucast l :: u256) < 2 ^ 64"
      by (simp only: unat_u64_to_u256 unat_u64_less)
    show "unat ?acc < 2 ^ (64 * length ls)"
      by (simp only: acc limbs64_value_less)
    show "64 + 64 * length ls \<le> LENGTH(256)"
      using Cons.prems by simp
  qed
  then have "unat (ucast l OR push_bit 64 ?acc) = limbs64_value (l # ls)"
    by (simp only: acc unat_u64_to_u256 limbs64_value.simps)
  then show ?case
    by (simp only: u256_from_limbs_def foldr_Cons o_apply)
qed (simp add: u256_from_limbs_def)

lemma unat_limb_pair: "unat ((push_bit 32 (ucast hi) OR ucast lo) :: u64) = unat (lo :: u32) + 2 ^ 32 * unat (hi :: u32)"
proof -
  have "unat ((ucast lo :: u64) OR push_bit 32 (ucast hi)) = unat (ucast lo :: u64) + 2 ^ 32 * unat (ucast hi :: u64)"
    by (rule unat_or_push_bit [where b = 32]) (use unat_u32_less in simp_all)
  then show ?thesis
    by (simp add: or.commute)
qed

lemma limb_pairs_value: "limbs64_value (limb_pairs ls) = limbs_value ls"
proof (induction ls rule: limb_pairs.induct)
  case (1 lo hi rest)
  then show ?case
    by (simp only: limb_pairs.simps limbs64_value.simps limbs_value.simps unat_limb_pair) simp
next
  case (2 lo)
  show ?case
    by (simp only: limb_pairs.simps limbs64_value.simps limbs_value.simps unat_limb_pair) simp
qed simp

lemma length_limb_pairs: "length (limb_pairs ls) = (length ls + 1) div 2"
  by (induction ls rule: limb_pairs.induct) simp_all

lemma limb_pairs_take: "limb_pairs (take (2 * n) ls) = take n (limb_pairs ls)"
  by (induction ls arbitrary: n rule: limb_pairs.induct) (case_tac n; simp)+

lemma limbs_value_zero_iff: "limbs_value ls = 0 \<longleftrightarrow> (\<forall>l\<in>set ls. l = 0)"
  by (induction ls) (auto simp: unat_eq_0)

lemma limbs_to_u256_eq:
  "limbs_to_u256 limbs = (if limbs_value limbs < 2 ^ 256 then Some (of_nat (limbs_value limbs)) else None)"
proof -
  let ?low = "take 8 limbs" and ?high = "drop 8 limbs"
  have val: "limbs_value limbs = limbs_value ?low + 2 ^ 256 * limbs_value ?high"
  proof (cases "8 \<le> length limbs")
    case True
    then show ?thesis
      using limbs_value_append [of ?low ?high] by simp
  qed simp
  have low: "limbs_value ?low < 2 ^ 256"
    by (rule less_le_trans [OF limbs_value_less power_increasing]) simp_all
  have "unat (u256_from_limbs (resize 4 0 (limb_pairs limbs))) = limbs64_value (resize 4 0 (limb_pairs limbs))"
    by (rule u256_from_limbs_value) simp
  also have "\<dots> = limbs64_value (take 4 (limb_pairs limbs))"
    by (simp only: resize_def limbs64_value_append limbs64_value_zeros mult_0_right add_0_right)
  also have "\<dots> = limbs_value ?low"
    using limb_pairs_value [of ?low] limb_pairs_take [of 4 limbs] by simp
  finally have nat: "unat (u256_from_limbs (resize 4 0 (limb_pairs limbs))) = limbs_value ?low" .
  have u: "u256_from_limbs (resize 4 0 (limb_pairs limbs)) = of_nat (limbs_value ?low)"
    unfolding nat [symmetric] by simp
  show ?thesis
  proof (cases "limbs_value ?high = 0")
    case True
    then have "\<not> (8 \<le> length limbs \<and> list_ex (\<lambda>limb. limb \<noteq> 0) ?high)"
      by (auto simp: limbs_value_zero_iff list_ex_iff)
    then show ?thesis
      using True val low by (simp only: limbs_to_u256_def u if_False mult_0_right add_0_right if_True)
  next
    case False
    then have "list_ex (\<lambda>limb. limb \<noteq> 0) ?high" "8 \<le> length limbs"
      by (cases "8 \<le> length limbs"; auto simp: limbs_value_zero_iff list_ex_iff)+
    moreover have "2 ^ 256 * 1 \<le> 2 ^ 256 * limbs_value ?high"
      using False by (intro mult_le_mono2) simp
    then have "\<not> limbs_value limbs < 2 ^ 256"
      by (simp only: val not_less mult_1_right trans_le_add2)
    ultimately show ?thesis
      by (simp only: limbs_to_u256_def simp_thms if_True if_False)
  qed
qed


section \<open>Properties\<close>

lemma digits_value_less:
  assumes "\<And>c d. digit c = Some (Some d) \<Longrightarrow> unat d < base" and "0 < base"
  shows "digits_value base digit cs acc = Some v \<Longrightarrow> v < (acc + 1) * base ^ length cs"
proof (induction cs arbitrary: acc)
  case (Cons c cs)
  show ?case
  proof (cases "digit c")
    case (Some od)
    then show ?thesis
    proof (cases od)
      case None
      then have "v < (acc + 1) * base ^ length cs"
        using Cons Some by simp
      also have "\<dots> \<le> (acc + 1) * base ^ length (c # cs)"
        using assms(2) by (intro mult_le_mono2 power_increasing) simp_all
      finally show ?thesis .
    next
      case (Some d)
      then have "v < (acc * base + unat d + 1) * base ^ length cs"
        using Cons \<open>digit c = Some od\<close> by simp
      also have "\<dots> \<le> ((acc + 1) * base) * base ^ length cs"
        using assms(1) [of c d] \<open>digit c = Some od\<close> Some by (intro mult_le_mono1) simp
      finally show ?thesis
        by (simp only: mult.assoc power_Suc length_Cons)
    qed
  qed (use Cons.prems in simp)
qed simp

lemma parses_length:
  assumes "parses base digit s (Some ls)"
    and "\<And>c d. digit c = Some (Some d) \<Longrightarrow> unat d < base" and "0 < base" and "base \<le> 2 ^ 4"
  shows "length ls \<le> length s"
proof (cases "ls = []")
  case False
  have "2 ^ (32 * (length ls - 1)) \<le> limbs_value ls"
    using assms(1) canonical_iff [OF False] by (simp add: parses_def)
  also have "\<dots> < base ^ length s"
    using digits_value_less [of digit base s 0] assms by (simp add: parses_def)
  also have "\<dots> \<le> (2 ^ 4) ^ length s"
    using assms(4) by (rule power_mono) simp
  finally have "(2 :: nat) ^ (32 * (length ls - 1)) < 2 ^ (4 * length s)"
    by (simp only: power_mult [symmetric])
  then have "32 * (length ls - 1) < 4 * length s"
    by (simp only: power_strict_increasing_iff)
  then show ?thesis
    by simp
qed simp

lemma canonical_tl: "canonical (x # xs) \<Longrightarrow> canonical xs"
  by (cases xs) (simp_all add: canonical_def)

lemma canonical_unique:
  "canonical xs \<Longrightarrow> canonical ys \<Longrightarrow> limbs_value xs = limbs_value ys \<Longrightarrow> xs = ys"
proof (induction xs arbitrary: ys)
  case Nil
  then show ?case
    using canonical_iff [of ys] by (cases "ys = []") (auto simp: not_le [symmetric])
next
  case (Cons x xs)
  then have "ys \<noteq> []"
    using canonical_iff [of "x # xs"] by auto
  then obtain y ys' where ys: "ys = y # ys'"
    by (cases ys) auto
  have "unat x = limbs_value (x # xs) mod 2 ^ 32" "unat y = limbs_value ys mod 2 ^ 32"
    using unat_u32_less [of x] unat_u32_less [of y] by (simp_all add: ys)
  then have "unat x = unat y"
    by (simp only: Cons.prems(3))
  then have "x = y"
    by (simp only: word_unat_eq_iff)
  have "unat y + 2 ^ 32 * limbs_value xs = unat y + 2 ^ 32 * limbs_value ys'"
    using Cons.prems(3) unfolding \<open>x = y\<close> ys limbs_value.simps .
  then have "limbs_value xs = limbs_value ys'"
    by (simp only: add_left_cancel mult_left_cancel [where c = "2 ^ 32 :: nat", OF power_not_zero [OF zero_neq_numeral [symmetric]]])
  then have "xs = ys'"
    by (rule Cons.IH [OF canonical_tl [OF Cons.prems(1)] canonical_tl [OF Cons.prems(2) [unfolded ys]]])
  then show ?case
    using ys \<open>x = y\<close> by simp
qed

definition literal_parsers ::
    "(nat \<times> (u8 \<Rightarrow> u32 option panics) \<times> (u8 list \<Rightarrow> u32 list panics)
      \<times> (u8 list \<Rightarrow> u32 list_of_lists \<Rightarrow> (nat \<times> u32 list_of_lists) panics)) set" where
  "literal_parsers =
     {(16, hex_nibble, \<lambda>s. pow2_limbs 4 8 hex_nibble s [], from_radix16_in),
      (2, bin_digit, \<lambda>s. pow2_limbs 1 32 bin_digit s [], from_radix2_in),
      (10, dec_digit, \<lambda>s. radix10_limbs s [], from_radix10_in)}"

lemma dec_digit_less: "dec_digit c = Some (Some d) \<Longrightarrow> unat d < 10"
  by (auto simp: dec_digit_def word_le_nat_alt unat_sub split: if_splits)

lemma literal_parsers_parse:
  assumes "(base, digit, limbs, parser) \<in> literal_parsers"
  shows "parses base digit s (limbs s)" and "limbs s = Some ls \<Longrightarrow> length ls \<le> length s"
proof -
  show *: "parses base digit s (limbs s)"
    using assms hex_limbs_parses bin_limbs_parses radix10_limbs_parses by (auto simp: literal_parsers_def)
  have digit: "unat d < base" if "digit c = Some (Some d)" for c d
    using assms that hex_nibble_digit(1) [of c d] dec_digit_less [of c d]
    by (auto simp: literal_parsers_def bin_digit_def split: if_splits)
  show "length ls \<le> length s" if "limbs s = Some ls"
    using assms by (intro parses_length [of base digit] digit)
      (use * that assms in \<open>auto simp: literal_parsers_def\<close>)
qed

lemma lol_push_with_None: "f [] = None \<Longrightarrow> lol_push_with f l = None"
  by (simp add: lol_push_with_def lol_push_with_res_def)

lemma literal_parsing_run:
  assumes "(base, digit, limbs_of, parser) \<in> literal_parsers"
    and "lol_rep storage xss" and "length xss < u32_max"
    and "length (concat xss) + length s \<le> u32_max"
  shows "case digits_value base digit s 0 of
      None \<Rightarrow> parser s storage = None
    | Some n \<Rightarrow> \<exists>limbs storage'. parser s storage = Some (length xss, storage')
        \<and> lol_rep storage' (xss @ [limbs])
        \<and> limbs_value limbs = n \<and> canonical limbs
        \<and> limbs_to_u256 limbs = (if n < 2 ^ 256 then Some (of_nat n) else None)"
proof -
  obtain f where parser: "parser s storage = lol_push_with f storage" and f: "f [] = limbs_of s"
    using assms(1)
    by (auto simp: literal_parsers_def from_radix16_in_def from_radix2_in_def from_radix10_in_def)
  have parses: "parses base digit s (limbs_of s)"
    by (rule literal_parsers_parse [OF assms(1)])
  show ?thesis
  proof (cases "limbs_of s")
    case None
    then show ?thesis
      using parses f by (simp add: parser lol_push_with_None parses_def)
  next
    case (Some ls)
    have "length (concat xss) + length ls \<le> u32_max"
      using literal_parsers_parse(2) [OF assms(1) Some] assms(4) by simp
    from lol_push_with_rep [OF assms(2) _ assms(3) this] f Some
    obtain storage' where "lol_push_with f storage = Some (length xss, storage')" "lol_rep storage' (xss @ [ls])"
      by metis
    then show ?thesis
      using parses Some by (auto simp: parser parses_def limbs_to_u256_eq)
  qed
qed



end
