(* ===== verification/Chunked_Arena.thy ===== *)
theory Chunked_Arena
  imports Prelude
begin

text \<open>
  The append-only arena of \<open>plank-core/src/chunked_arena.rs\<close>: an allocation yields a pointer and a
  stable \<open>u32\<close> offset, and \<open>get\<close> turns the offset back into the pointer.  Addresses are natural
  numbers.  The allocator \<open>A\<close> is a parameter: from its state \<open>'h\<close> and a size it returns the address
  of fresh memory and its new state, or diverges in \<open>handle_alloc_error\<close> (\<open>None\<close>).
\<close>

section \<open>Chunks and offsets\<close>

definition MAX_CHUNKS :: nat where
  "MAX_CHUNKS = 22"

definition FIRST_CHUNK_SIZE_BYTES :: nat where
  "FIRST_CHUNK_SIZE_BYTES = 1024"

definition chunk_index_to_size :: "nat \<Rightarrow> nat" where
  "chunk_index_to_size chunk_index = FIRST_CHUNK_SIZE_BYTES * 2 ^ (chunk_index - 1)"

definition chunk_index_to_start_offset :: "nat \<Rightarrow> nat" where
  "chunk_index_to_start_offset chunk_index =
     (if chunk_index = 0 then 0 else FIRST_CHUNK_SIZE_BYTES * 2 ^ (chunk_index - 1))"

fun ilog2 :: "nat \<Rightarrow> nat" where
  "ilog2 n = (if n < 2 then 0 else Suc (ilog2 (n div 2)))"

declare ilog2.simps [simp del]

definition offset_to_chunk :: "nat \<Rightarrow> nat \<times> nat" where
  "offset_to_chunk offset =
     (if offset < FIRST_CHUNK_SIZE_BYTES then (0, offset)
      else
        let first_chunk_size_multiples = offset div FIRST_CHUNK_SIZE_BYTES;
            chunk_index = ilog2 first_chunk_size_multiples + 1;
            size_exponent = ilog2 first_chunk_size_multiples;
            chunk_start_offset = FIRST_CHUNK_SIZE_BYTES * 2 ^ size_exponent
        in (chunk_index, offset - chunk_start_offset))"

section \<open>The arena\<close>

record arena =
  ca_chunk_index :: nat
  ca_rel_offset :: nat
  ca_bytes_remaining :: nat
  ca_chunks :: "nat option list"

definition ca_new :: arena where
  "ca_new = \<lparr>ca_chunk_index = 0, ca_rel_offset = 0, ca_bytes_remaining = FIRST_CHUNK_SIZE_BYTES,
             ca_chunks = replicate MAX_CHUNKS None\<rparr>"

definition next_multiple_of :: "nat \<Rightarrow> nat \<Rightarrow> nat" where
  "next_multiple_of x n = (if x mod n = 0 then x else x + (n - x mod n))"

text \<open>The \<open>while\<close> loop of \<open>alloc_append\<close>: chunk, offset in it and bytes left.\<close>

function skip_chunks :: "nat \<Rightarrow> nat \<times> nat \<times> nat \<Rightarrow> (nat \<times> nat \<times> nat) panics" where
  "skip_chunks sz (chunk_index, rel_offset, remaining) =
     (if sz > remaining then
        if chunk_index + 1 < MAX_CHUNKS then
          skip_chunks sz (chunk_index + 1, 0, chunk_index_to_size (chunk_index + 1))
        else None
      else Some (chunk_index, rel_offset, remaining))"
  by pat_completeness auto

termination
  by (relation "measure (\<lambda>(sz, chunk_index, _). MAX_CHUNKS - chunk_index)") auto

declare skip_chunks.simps [simp del]

text \<open>The memory of a chunk; replacing an already allocated chunk is the panic of a debug build.\<close>

definition allocate_chunk ::
    "('h \<Rightarrow> nat \<Rightarrow> (nat \<times> 'h) option) \<Rightarrow> arena \<Rightarrow> 'h \<Rightarrow> nat \<Rightarrow> (nat \<times> arena \<times> 'h) panics" where
  "allocate_chunk allocate s h chunk_index =
     do { (new_ptr, h) \<leftarrow> allocate h (chunk_index_to_size chunk_index);
          prev \<leftarrow> get_at (ca_chunks s) chunk_index;
          ensure (prev = None);
          Some (new_ptr, s\<lparr>ca_chunks := (ca_chunks s)[chunk_index := Some new_ptr]\<rparr>, h) }"

text \<open>\<open>NonNull::dangling()\<close> is some address without memory behind it.\<close>

definition dangling :: nat where
  "dangling = 1"

definition alloc_append ::
    "('h \<Rightarrow> nat \<Rightarrow> (nat \<times> 'h) option) \<Rightarrow> nat \<Rightarrow> arena \<Rightarrow> 'h \<Rightarrow> nat
     \<Rightarrow> ((nat \<times> nat) \<times> arena \<times> 'h) panics" where
  "alloc_append allocate align s h min_size =
     do { let sz = next_multiple_of min_size align;
          (chunk_index, rel_offset, remaining) \<leftarrow>
            skip_chunks sz (ca_chunk_index s, ca_rel_offset s, ca_bytes_remaining s);
          let s = s\<lparr>ca_chunk_index := chunk_index\<rparr>;
          (chunk_base, s, h) \<leftarrow>
            (if rel_offset = 0 then
               if sz = 0 then Some (dangling, s, h) else allocate_chunk allocate s h chunk_index
             else do { c \<leftarrow> get_at (ca_chunks s) chunk_index; base \<leftarrow> c; Some (base, s, h) });
          let write_ptr = chunk_base + rel_offset;
          let s = s\<lparr>ca_rel_offset := rel_offset + sz, ca_bytes_remaining := remaining - sz\<rparr>;
          Some ((chunk_index_to_start_offset chunk_index + rel_offset, write_ptr), s, h) }"

text \<open>\<open>None\<close> inside is the null pointer.\<close>

definition ca_get :: "arena \<Rightarrow> nat \<Rightarrow> nat option panics" where
  "ca_get s offset =
     (let (chunk_index, rel_offset) = offset_to_chunk offset
      in do { c \<leftarrow> get_at (ca_chunks s) chunk_index;
              Some (map_option (\<lambda>base. base + rel_offset) c) })"

section \<open>Offsets name chunk positions\<close>

lemma ilog2_unique:
  assumes "2 ^ k \<le> n" and "n < 2 ^ Suc k"
  shows "ilog2 n = k"
  using assms
proof (induction k arbitrary: n)
  case 0
  then show ?case
    by (subst ilog2.simps) simp
next
  case (Suc k)
  have "2 ^ k \<le> n div 2"
    using Suc.prems(1) by (simp add: less_eq_div_iff_mult_less_eq mult.commute)
  moreover have "n div 2 < 2 ^ Suc k"
    using Suc.prems(2) by (simp add: div_less_iff_less_mult mult.commute)
  moreover have "2 \<le> n"
    using order_trans [OF mult_le_mono2 [OF one_le_power [of "2 :: nat" k]], of 2 n] Suc.prems(1) by simp
  ultimately show ?case
    using Suc.IH by (subst ilog2.simps) simp
qed

lemma chunk_size_pos [simp]: "0 < chunk_index_to_size i"
  by (simp add: chunk_index_to_size_def FIRST_CHUNK_SIZE_BYTES_def)

lemma chunk_start_Suc: "chunk_index_to_start_offset (Suc i) = chunk_index_to_start_offset i + chunk_index_to_size i"
  by (cases i) (simp_all add: chunk_index_to_start_offset_def chunk_index_to_size_def)

lemma chunk_start_mono: "i \<le> j \<Longrightarrow> chunk_index_to_start_offset i \<le> chunk_index_to_start_offset j"
  by (induction j) (auto simp: chunk_start_Suc le_Suc_eq)

lemma offset_to_chunk_start:
  assumes "rel < chunk_index_to_size i"
  shows "offset_to_chunk (chunk_index_to_start_offset i + rel) = (i, rel)"
proof (cases i)
  case 0
  then show ?thesis
    using assms by (simp add: offset_to_chunk_def chunk_index_to_start_offset_def chunk_index_to_size_def)
next
  case (Suc k)
  let ?off = "1024 * 2 ^ k + rel"
  have rel: "rel < 1024 * 2 ^ k"
    using assms Suc by (simp add: chunk_index_to_size_def FIRST_CHUNK_SIZE_BYTES_def)
  have "ilog2 (?off div 1024) = k"
  proof (rule ilog2_unique)
    have "?off div 1024 = 2 ^ k + rel div 1024"
      by simp
    moreover have "rel div 1024 < 2 ^ k"
      using rel by (simp add: div_less_iff_less_mult mult.commute)
    ultimately show "2 ^ k \<le> ?off div 1024" "?off div 1024 < 2 ^ Suc k"
      by simp_all
  qed
  moreover have "\<not> ?off < 1024"
    using mult_le_mono2 [OF one_le_power [of "2 :: nat" k], of 1024] by linarith
  ultimately show ?thesis
    using Suc by (simp add: offset_to_chunk_def chunk_index_to_start_offset_def FIRST_CHUNK_SIZE_BYTES_def Let_def)
qed

section \<open>The invariant\<close>

definition ca_inv :: "nat \<Rightarrow> arena \<Rightarrow> bool" where
  "ca_inv align s \<longleftrightarrow>
     ca_chunk_index s < MAX_CHUNKS \<and> length (ca_chunks s) = MAX_CHUNKS
     \<and> ca_rel_offset s + ca_bytes_remaining s = chunk_index_to_size (ca_chunk_index s)
     \<and> align dvd ca_rel_offset s
     \<and> (ca_chunks s ! ca_chunk_index s = None \<longleftrightarrow> ca_rel_offset s = 0)
     \<and> (\<forall>i. ca_chunk_index s < i \<longrightarrow> i < MAX_CHUNKS \<longrightarrow> ca_chunks s ! i = None)"

definition watermark :: "arena \<Rightarrow> nat" where
  "watermark s = chunk_index_to_start_offset (ca_chunk_index s) + ca_rel_offset s"

lemma ca_new_inv: "ca_inv align ca_new"
  by (simp add: ca_inv_def ca_new_def MAX_CHUNKS_def chunk_index_to_size_def)

lemma next_multiple_of_props:
  assumes "0 < n"
  shows "x \<le> next_multiple_of x n" and "n dvd next_multiple_of x n" and "next_multiple_of x n < x + n"
proof -
  have less: "x mod n < n"
    using assms by simp
  have "x + (n - x mod n) = n * (x div n) + x mod n + (n - x mod n)"
    by (simp only: mult_div_mod_eq)
  also have "\<dots> = n * (x div n) + n"
    using less by (simp only: add.assoc le_add_diff_inverse less_imp_le_nat)
  also have "\<dots> = n * (x div n + 1)"
    by simp
  finally have "n dvd x + (n - x mod n)"
    by (metis dvd_triv_left)
  then show "x \<le> next_multiple_of x n" "n dvd next_multiple_of x n" "next_multiple_of x n < x + n"
    using assms less by (auto simp: next_multiple_of_def)
qed


lemma skip_chunks_Some:
  "skip_chunks sz (i, rel, rem) = Some (i', rel', rem') \<Longrightarrow>
   sz \<le> rem' \<and> i \<le> i'
   \<and> (if i' = i then rel' = rel \<and> rem' = rem
      else i' < MAX_CHUNKS \<and> rel' = 0 \<and> rem' = chunk_index_to_size i')"
proof (induction sz "(i, rel, rem)" arbitrary: i rel rem rule: skip_chunks.induct)
  case (1 sz i rel rem)
  show ?case
  proof (cases "sz > rem")
    case True
    then have "i + 1 < MAX_CHUNKS"
      and "skip_chunks sz (i + 1, 0, chunk_index_to_size (i + 1)) = Some (i', rel', rem')"
      using "1.prems" by (simp_all add: skip_chunks.simps [of sz i] split: if_splits)
    then show ?thesis
      using "1.hyps" [OF True] by (fastforce split: if_splits)
  next
    case False
    then show ?thesis
      using "1.prems" by (simp add: skip_chunks.simps [of sz i])
  qed
qed

lemma skip_chunks_total:
  assumes "sz \<le> chunk_index_to_size j" and "i < j" and "j < MAX_CHUNKS"
  shows "skip_chunks sz (i, rel, rem) \<noteq> None"
  using assms(2)
proof (induction "j - i" arbitrary: i rel rem)
  case (Suc d)
  show ?case
  proof (cases "i + 1 = j")
    case True
    then have "skip_chunks sz (j, 0, chunk_index_to_size j) \<noteq> None"
      using assms(1) by (simp add: skip_chunks.simps)
    then show ?thesis
      using True assms(3) by (simp add: skip_chunks.simps [of sz i])
  next
    case False
    then have "skip_chunks sz (i + 1, 0, chunk_index_to_size (i + 1)) \<noteq> None"
      using Suc by (intro Suc.hyps(1)) simp_all
    then show ?thesis
      using Suc.prems assms(3) by (simp add: skip_chunks.simps [of sz i])
  qed
qed simp

lemma ca_get_in_chunk:
  assumes "ca_chunks s ! i = Some base" and "i < length (ca_chunks s)" and "rel < chunk_index_to_size i"
  shows "ca_get s (chunk_index_to_start_offset i + rel) = Some (Some (base + rel))"
  using assms by (simp add: ca_get_def offset_to_chunk_start)

lemma ca_get_stable:
  assumes "\<forall>i. ca_chunks s ! i \<noteq> None \<longrightarrow> ca_chunks s' ! i = ca_chunks s ! i"
    and "length (ca_chunks s') = length (ca_chunks s)" and "ca_get s off = Some (Some p)"
  shows "ca_get s' off = Some (Some p)"
  using assms by (auto simp: ca_get_def bind_Some get_at_Some split: prod.splits)

lemma alloc_append_Some:
  assumes align: "0 < align" "align dvd FIRST_CHUNK_SIZE_BYTES" and inv: "ca_inv align s" and n: "0 < n"
    and skip: "skip_chunks (next_multiple_of n align) (ca_chunk_index s, ca_rel_offset s, ca_bytes_remaining s)
      = Some (i, rel, rem)"
    and fresh: "rel = 0 \<Longrightarrow> allocate h (chunk_index_to_size i) = Some (base, h')"
    and old: "rel \<noteq> 0 \<Longrightarrow> ca_chunks s ! i = Some base \<and> h' = h"
  defines "sz \<equiv> next_multiple_of n align"
  defines "s' \<equiv> s\<lparr>ca_chunk_index := i, ca_rel_offset := rel + sz, ca_bytes_remaining := rem - sz,
    ca_chunks := (ca_chunks s)[i := Some base]\<rparr>"
  shows "alloc_append allocate align s h n
      = Some ((chunk_index_to_start_offset i + rel, base + rel), s', h')"
    and "ca_inv align s'" and "align dvd chunk_index_to_start_offset i + rel"
    and "watermark s \<le> chunk_index_to_start_offset i + rel"
    and "chunk_index_to_start_offset i + rel + n \<le> watermark s'"
    and "k < n \<Longrightarrow> ca_get s' (chunk_index_to_start_offset i + rel + k) = Some (Some (base + rel + k))"
    and "ca_get s q = Some (Some p) \<Longrightarrow> ca_get s' q = Some (Some p)"
proof -
  have sz: "n \<le> sz" "align dvd sz"
    unfolding sz_def by (rule next_multiple_of_props [OF align(1)])+
  have skipped: "sz \<le> rem" "ca_chunk_index s \<le> i"
    "if i = ca_chunk_index s then rel = ca_rel_offset s \<and> rem = ca_bytes_remaining s
     else i < MAX_CHUNKS \<and> rel = 0 \<and> rem = chunk_index_to_size i"
    using skip_chunks_Some [OF skip] by (simp_all add: sz_def)
  have i: "i < MAX_CHUNKS" "length (ca_chunks s) = MAX_CHUNKS" and fit: "rel + rem = chunk_index_to_size i"
    and dvd: "align dvd rel"
    using inv skipped by (auto simp: ca_inv_def split: if_splits)
  have empty: "rel = 0 \<longleftrightarrow> ca_chunks s ! i = None"
    using inv skipped(2,3) i(1) by (auto simp: ca_inv_def split: if_splits)
  have later: "\<forall>j. i < j \<longrightarrow> j < MAX_CHUNKS \<longrightarrow> ca_chunks s ! j = None"
    using inv skipped(2) by (auto simp: ca_inv_def)
  have chunks: "(ca_chunks s)[i := Some base] = ca_chunks s" if "rel \<noteq> 0"
    using old [OF that] by (metis list_update_id)
  show "alloc_append allocate align s h n
      = Some ((chunk_index_to_start_offset i + rel, base + rel), s', h')"
  proof (cases "rel = 0")
    case True
    then show ?thesis
      using skip fresh empty i n sz(1) [unfolded sz_def] unfolding s'_def
      by (simp add: alloc_append_def allocate_chunk_def sz_def Let_def)
  next
    case False
    then show ?thesis
      using skip old i chunks unfolding s'_def by (simp add: alloc_append_def sz_def Let_def)
  qed
  show "ca_inv align s'"
    using i fit dvd sz skipped(1) later n by (auto simp: ca_inv_def s'_def nth_list_update)
  have "align dvd chunk_index_to_start_offset i"
    using align(2) by (auto simp: chunk_index_to_start_offset_def)
  then show "align dvd chunk_index_to_start_offset i + rel"
    using dvd by simp
  show "watermark s \<le> chunk_index_to_start_offset i + rel"
  proof (cases "i = ca_chunk_index s")
    case True
    then show ?thesis
      using skipped(3) by (simp add: watermark_def)
  next
    case False
    have "watermark s \<le> chunk_index_to_start_offset (Suc (ca_chunk_index s))"
      using inv by (simp add: watermark_def chunk_start_Suc ca_inv_def)
    also have "\<dots> \<le> chunk_index_to_start_offset i"
      using False skipped(2) by (intro chunk_start_mono) simp
    finally show ?thesis
      by simp
  qed
  show "chunk_index_to_start_offset i + rel + n \<le> watermark s'"
    using sz(1) by (simp add: watermark_def s'_def)
  show "ca_get s' (chunk_index_to_start_offset i + rel + k) = Some (Some (base + rel + k))" if "k < n"
    using ca_get_in_chunk [of s' i base "rel + k"] that sz(1) skipped(1) fit i
    by (simp add: s'_def add.assoc)
  show "ca_get s' q = Some (Some p)" if "ca_get s q = Some (Some p)"
    by (rule ca_get_stable [OF _ _ that]) (use empty old i in \<open>auto simp: s'_def nth_list_update\<close>)
qed



end
