(* ===== verification/Evm_Op.thy ===== *)
theory Evm_Op
  imports Prelude
begin

text \<open>
  The EVM opcodes the assembler emits (\<open>sir/crates/assembler/src/op.rs\<close>), their mnemonics and the
  number of immediate bytes of the push instructions.
\<close>

definition op_STOP :: u8 where "op_STOP = 0x00"

text \<open>Basic Arithmetic 0x01 - 0x0b\<close>

definition op_ADD :: u8 where "op_ADD = 0x01"

definition op_MUL :: u8 where "op_MUL = 0x02"

definition op_SUB :: u8 where "op_SUB = 0x03"

definition op_DIV :: u8 where "op_DIV = 0x04"

definition op_SDIV :: u8 where "op_SDIV = 0x05"

definition op_MOD :: u8 where "op_MOD = 0x06"

definition op_SMOD :: u8 where "op_SMOD = 0x07"

definition op_ADDMOD :: u8 where "op_ADDMOD = 0x08"

definition op_MULMOD :: u8 where "op_MULMOD = 0x09"

definition op_EXP :: u8 where "op_EXP = 0x0A"

definition op_SIGNEXTEND :: u8 where "op_SIGNEXTEND = 0x0B"

text \<open>Logic and Bitwise Operations 0x10 - 0x1d\<close>

definition op_LT :: u8 where "op_LT = 0x10"

definition op_GT :: u8 where "op_GT = 0x11"

definition op_SLT :: u8 where "op_SLT = 0x12"

definition op_SGT :: u8 where "op_SGT = 0x13"

definition op_EQ :: u8 where "op_EQ = 0x14"

definition op_ISZERO :: u8 where "op_ISZERO = 0x15"

definition op_AND :: u8 where "op_AND = 0x16"

definition op_OR :: u8 where "op_OR = 0x17"

definition op_XOR :: u8 where "op_XOR = 0x18"

definition op_NOT :: u8 where "op_NOT = 0x19"

definition op_BYTE :: u8 where "op_BYTE = 0x1A"

definition op_SHL :: u8 where "op_SHL = 0x1B"

definition op_SHR :: u8 where "op_SHR = 0x1C"

definition op_SAR :: u8 where "op_SAR = 0x1D"

text \<open>Keccak 0x20\<close>

definition op_KECCAK256 :: u8 where "op_KECCAK256 = 0x20"

text \<open>Call context introspection 0x30 - 0x3f\<close>

definition op_ADDRESS :: u8 where "op_ADDRESS = 0x30"

definition op_BALANCE :: u8 where "op_BALANCE = 0x31"

definition op_ORIGIN :: u8 where "op_ORIGIN = 0x32"

definition op_CALLER :: u8 where "op_CALLER = 0x33"

definition op_CALLVALUE :: u8 where "op_CALLVALUE = 0x34"

definition op_CALLDATALOAD :: u8 where "op_CALLDATALOAD = 0x35"

definition op_CALLDATASIZE :: u8 where "op_CALLDATASIZE = 0x36"

definition op_CALLDATACOPY :: u8 where "op_CALLDATACOPY = 0x37"

definition op_CODESIZE :: u8 where "op_CODESIZE = 0x38"

definition op_CODECOPY :: u8 where "op_CODECOPY = 0x39"

definition op_GASPRICE :: u8 where "op_GASPRICE = 0x3A"

definition op_EXTCODESIZE :: u8 where "op_EXTCODESIZE = 0x3B"

definition op_EXTCODECOPY :: u8 where "op_EXTCODECOPY = 0x3C"

definition op_RETURNDATASIZE :: u8 where "op_RETURNDATASIZE = 0x3D"

definition op_RETURNDATACOPY :: u8 where "op_RETURNDATACOPY = 0x3E"

definition op_EXTCODEHASH :: u8 where "op_EXTCODEHASH = 0x3F"

text \<open>Block context introspection 0x40 - 0x4a\<close>

definition op_BLOCKHASH :: u8 where "op_BLOCKHASH = 0x40"

definition op_COINBASE :: u8 where "op_COINBASE = 0x41"

definition op_TIMESTAMP :: u8 where "op_TIMESTAMP = 0x42"

definition op_NUMBER :: u8 where "op_NUMBER = 0x43"

definition op_PREVRANDAO :: u8 where "op_PREVRANDAO = 0x44"

definition op_GASLIMIT :: u8 where "op_GASLIMIT = 0x45"

definition op_CHAINID :: u8 where "op_CHAINID = 0x46"

definition op_SELFBALANCE :: u8 where "op_SELFBALANCE = 0x47"

definition op_BASEFEE :: u8 where "op_BASEFEE = 0x48"

definition op_BLOBHASH :: u8 where "op_BLOBHASH = 0x49"

definition op_BLOBBASEFEE :: u8 where "op_BLOBBASEFEE = 0x4a"

text \<open>Control flow, Storage and Memory manipulation, runtime inspection 0x50 - 0x5e\<close>

definition op_POP :: u8 where "op_POP = 0x50"

definition op_MLOAD :: u8 where "op_MLOAD = 0x51"

definition op_MSTORE :: u8 where "op_MSTORE = 0x52"

definition op_MSTORE8 :: u8 where "op_MSTORE8 = 0x53"

definition op_SLOAD :: u8 where "op_SLOAD = 0x54"

definition op_SSTORE :: u8 where "op_SSTORE = 0x55"

definition op_JUMP :: u8 where "op_JUMP = 0x56"

definition op_JUMPI :: u8 where "op_JUMPI = 0x57"

definition op_PC :: u8 where "op_PC = 0x58"

definition op_MSIZE :: u8 where "op_MSIZE = 0x59"

definition op_GAS :: u8 where "op_GAS = 0x5A"

definition op_JUMPDEST :: u8 where "op_JUMPDEST = 0x5B"

definition op_TLOAD :: u8 where "op_TLOAD = 0x5C"

definition op_TSTORE :: u8 where "op_TSTORE = 0x5D"

definition op_MCOPY :: u8 where "op_MCOPY = 0x5E"

text \<open>Static pushes 0x5f - 0x6f\<close>

definition op_PUSH0 :: u8 where "op_PUSH0 = 0x5F"

definition op_PUSH1 :: u8 where "op_PUSH1 = 0x60"

definition op_PUSH2 :: u8 where "op_PUSH2 = 0x61"

definition op_PUSH3 :: u8 where "op_PUSH3 = 0x62"

definition op_PUSH4 :: u8 where "op_PUSH4 = 0x63"

definition op_PUSH5 :: u8 where "op_PUSH5 = 0x64"

definition op_PUSH6 :: u8 where "op_PUSH6 = 0x65"

definition op_PUSH7 :: u8 where "op_PUSH7 = 0x66"

definition op_PUSH8 :: u8 where "op_PUSH8 = 0x67"

definition op_PUSH9 :: u8 where "op_PUSH9 = 0x68"

definition op_PUSH10 :: u8 where "op_PUSH10 = 0x69"

definition op_PUSH11 :: u8 where "op_PUSH11 = 0x6A"

definition op_PUSH12 :: u8 where "op_PUSH12 = 0x6B"

definition op_PUSH13 :: u8 where "op_PUSH13 = 0x6C"

definition op_PUSH14 :: u8 where "op_PUSH14 = 0x6D"

definition op_PUSH15 :: u8 where "op_PUSH15 = 0x6E"

definition op_PUSH16 :: u8 where "op_PUSH16 = 0x6F"

definition op_PUSH17 :: u8 where "op_PUSH17 = 0x70"

definition op_PUSH18 :: u8 where "op_PUSH18 = 0x71"

definition op_PUSH19 :: u8 where "op_PUSH19 = 0x72"

definition op_PUSH20 :: u8 where "op_PUSH20 = 0x73"

definition op_PUSH21 :: u8 where "op_PUSH21 = 0x74"

definition op_PUSH22 :: u8 where "op_PUSH22 = 0x75"

definition op_PUSH23 :: u8 where "op_PUSH23 = 0x76"

definition op_PUSH24 :: u8 where "op_PUSH24 = 0x77"

definition op_PUSH25 :: u8 where "op_PUSH25 = 0x78"

definition op_PUSH26 :: u8 where "op_PUSH26 = 0x79"

definition op_PUSH27 :: u8 where "op_PUSH27 = 0x7A"

definition op_PUSH28 :: u8 where "op_PUSH28 = 0x7B"

definition op_PUSH29 :: u8 where "op_PUSH29 = 0x7C"

definition op_PUSH30 :: u8 where "op_PUSH30 = 0x7D"

definition op_PUSH31 :: u8 where "op_PUSH31 = 0x7E"

definition op_PUSH32 :: u8 where "op_PUSH32 = 0x7F"

text \<open>Dups 0x80 - 0x8f\<close>

definition op_DUP1 :: u8 where "op_DUP1 = 0x80"

definition op_DUP2 :: u8 where "op_DUP2 = 0x81"

definition op_DUP3 :: u8 where "op_DUP3 = 0x82"

definition op_DUP4 :: u8 where "op_DUP4 = 0x83"

definition op_DUP5 :: u8 where "op_DUP5 = 0x84"

definition op_DUP6 :: u8 where "op_DUP6 = 0x85"

definition op_DUP7 :: u8 where "op_DUP7 = 0x86"

definition op_DUP8 :: u8 where "op_DUP8 = 0x87"

definition op_DUP9 :: u8 where "op_DUP9 = 0x88"

definition op_DUP10 :: u8 where "op_DUP10 = 0x89"

definition op_DUP11 :: u8 where "op_DUP11 = 0x8A"

definition op_DUP12 :: u8 where "op_DUP12 = 0x8B"

definition op_DUP13 :: u8 where "op_DUP13 = 0x8C"

definition op_DUP14 :: u8 where "op_DUP14 = 0x8D"

definition op_DUP15 :: u8 where "op_DUP15 = 0x8E"

definition op_DUP16 :: u8 where "op_DUP16 = 0x8F"

text \<open>Swaps 0x90 - 0x9f\<close>

definition op_SWAP1 :: u8 where "op_SWAP1 = 0x90"

definition op_SWAP2 :: u8 where "op_SWAP2 = 0x91"

definition op_SWAP3 :: u8 where "op_SWAP3 = 0x92"

definition op_SWAP4 :: u8 where "op_SWAP4 = 0x93"

definition op_SWAP5 :: u8 where "op_SWAP5 = 0x94"

definition op_SWAP6 :: u8 where "op_SWAP6 = 0x95"

definition op_SWAP7 :: u8 where "op_SWAP7 = 0x96"

definition op_SWAP8 :: u8 where "op_SWAP8 = 0x97"

definition op_SWAP9 :: u8 where "op_SWAP9 = 0x98"

definition op_SWAP10 :: u8 where "op_SWAP10 = 0x99"

definition op_SWAP11 :: u8 where "op_SWAP11 = 0x9A"

definition op_SWAP12 :: u8 where "op_SWAP12 = 0x9B"

definition op_SWAP13 :: u8 where "op_SWAP13 = 0x9C"

definition op_SWAP14 :: u8 where "op_SWAP14 = 0x9D"

definition op_SWAP15 :: u8 where "op_SWAP15 = 0x9E"

definition op_SWAP16 :: u8 where "op_SWAP16 = 0x9F"

text \<open>Logging 0xa0 - 0xa4\<close>

definition op_LOG0 :: u8 where "op_LOG0 = 0xA0"

definition op_LOG1 :: u8 where "op_LOG1 = 0xA1"

definition op_LOG2 :: u8 where "op_LOG2 = 0xA2"

definition op_LOG3 :: u8 where "op_LOG3 = 0xA3"

definition op_LOG4 :: u8 where "op_LOG4 = 0xA4"

text \<open>Contract interaction and creation 0xF0 - 0xFF\<close>

definition op_CREATE :: u8 where "op_CREATE = 0xF0"

definition op_CALL :: u8 where "op_CALL = 0xF1"

definition op_CALLCODE :: u8 where "op_CALLCODE = 0xF2"

definition op_RETURN :: u8 where "op_RETURN = 0xF3"

definition op_DELEGATECALL :: u8 where "op_DELEGATECALL = 0xF4"

definition op_CREATE2 :: u8 where "op_CREATE2 = 0xF5"

definition op_STATICCALL :: u8 where "op_STATICCALL = 0xFA"

definition op_REVERT :: u8 where "op_REVERT = 0xFD"

definition op_INVALID :: u8 where "op_INVALID = 0xFE"

definition op_SELFDESTRUCT :: u8 where "op_SELFDESTRUCT = 0xFF"

lemmas op_defs =
  op_STOP_def op_ADD_def op_MUL_def op_SUB_def op_DIV_def op_SDIV_def op_MOD_def op_SMOD_def
  op_ADDMOD_def op_MULMOD_def op_EXP_def op_SIGNEXTEND_def op_LT_def op_GT_def op_SLT_def
  op_SGT_def op_EQ_def op_ISZERO_def op_AND_def op_OR_def op_XOR_def op_NOT_def op_BYTE_def
  op_SHL_def op_SHR_def op_SAR_def op_KECCAK256_def op_ADDRESS_def op_BALANCE_def op_ORIGIN_def
  op_CALLER_def op_CALLVALUE_def op_CALLDATALOAD_def op_CALLDATASIZE_def op_CALLDATACOPY_def
  op_CODESIZE_def op_CODECOPY_def op_GASPRICE_def op_EXTCODESIZE_def op_EXTCODECOPY_def
  op_RETURNDATASIZE_def op_RETURNDATACOPY_def op_EXTCODEHASH_def op_BLOCKHASH_def op_COINBASE_def
  op_TIMESTAMP_def op_NUMBER_def op_PREVRANDAO_def op_GASLIMIT_def op_CHAINID_def
  op_SELFBALANCE_def op_BASEFEE_def op_BLOBHASH_def op_BLOBBASEFEE_def op_POP_def op_MLOAD_def
  op_MSTORE_def op_MSTORE8_def op_SLOAD_def op_SSTORE_def op_JUMP_def op_JUMPI_def op_PC_def
  op_MSIZE_def op_GAS_def op_JUMPDEST_def op_TLOAD_def op_TSTORE_def op_MCOPY_def op_PUSH0_def
  op_PUSH1_def op_PUSH2_def op_PUSH3_def op_PUSH4_def op_PUSH5_def op_PUSH6_def op_PUSH7_def
  op_PUSH8_def op_PUSH9_def op_PUSH10_def op_PUSH11_def op_PUSH12_def op_PUSH13_def op_PUSH14_def
  op_PUSH15_def op_PUSH16_def op_PUSH17_def op_PUSH18_def op_PUSH19_def op_PUSH20_def
  op_PUSH21_def op_PUSH22_def op_PUSH23_def op_PUSH24_def op_PUSH25_def op_PUSH26_def
  op_PUSH27_def op_PUSH28_def op_PUSH29_def op_PUSH30_def op_PUSH31_def op_PUSH32_def op_DUP1_def
  op_DUP2_def op_DUP3_def op_DUP4_def op_DUP5_def op_DUP6_def op_DUP7_def op_DUP8_def op_DUP9_def
  op_DUP10_def op_DUP11_def op_DUP12_def op_DUP13_def op_DUP14_def op_DUP15_def op_DUP16_def
  op_SWAP1_def op_SWAP2_def op_SWAP3_def op_SWAP4_def op_SWAP5_def op_SWAP6_def op_SWAP7_def
  op_SWAP8_def op_SWAP9_def op_SWAP10_def op_SWAP11_def op_SWAP12_def op_SWAP13_def op_SWAP14_def
  op_SWAP15_def op_SWAP16_def op_LOG0_def op_LOG1_def op_LOG2_def op_LOG3_def op_LOG4_def
  op_CREATE_def op_CALL_def op_CALLCODE_def op_RETURN_def op_DELEGATECALL_def op_CREATE2_def
  op_STATICCALL_def op_REVERT_def op_INVALID_def op_SELFDESTRUCT_def

definition op_names :: "(u8 \<times> string) list" where
  "op_names =
     [(op_STOP, ''STOP''), (op_ADD, ''ADD''), (op_MUL, ''MUL''), (op_SUB, ''SUB''),
      (op_DIV, ''DIV''), (op_SDIV, ''SDIV''), (op_MOD, ''MOD''), (op_SMOD, ''SMOD''),
      (op_ADDMOD, ''ADDMOD''), (op_MULMOD, ''MULMOD''), (op_EXP, ''EXP''),
      (op_SIGNEXTEND, ''SIGNEXTEND''), (op_LT, ''LT''), (op_GT, ''GT''),
      (op_SLT, ''SLT''), (op_SGT, ''SGT''), (op_EQ, ''EQ''), (op_ISZERO, ''ISZERO''),
      (op_AND, ''AND''), (op_OR, ''OR''), (op_XOR, ''XOR''), (op_NOT, ''NOT''),
      (op_BYTE, ''BYTE''), (op_SHL, ''SHL''), (op_SHR, ''SHR''), (op_SAR, ''SAR''),
      (op_KECCAK256, ''KECCAK256''), (op_ADDRESS, ''ADDRESS''),
      (op_BALANCE, ''BALANCE''), (op_ORIGIN, ''ORIGIN''), (op_CALLER, ''CALLER''),
      (op_CALLVALUE, ''CALLVALUE''), (op_CALLDATALOAD, ''CALLDATALOAD''),
      (op_CALLDATASIZE, ''CALLDATASIZE''), (op_CALLDATACOPY, ''CALLDATACOPY''),
      (op_CODESIZE, ''CODESIZE''), (op_CODECOPY, ''CODECOPY''),
      (op_GASPRICE, ''GASPRICE''), (op_EXTCODESIZE, ''EXTCODESIZE''),
      (op_EXTCODECOPY, ''EXTCODECOPY''), (op_RETURNDATASIZE, ''RETURNDATASIZE''),
      (op_RETURNDATACOPY, ''RETURNDATACOPY''), (op_EXTCODEHASH, ''EXTCODEHASH''),
      (op_BLOCKHASH, ''BLOCKHASH''), (op_COINBASE, ''COINBASE''),
      (op_TIMESTAMP, ''TIMESTAMP''), (op_NUMBER, ''NUMBER''),
      (op_PREVRANDAO, ''PREVRANDAO''), (op_GASLIMIT, ''GASLIMIT''),
      (op_CHAINID, ''CHAINID''), (op_SELFBALANCE, ''SELFBALANCE''),
      (op_BASEFEE, ''BASEFEE''), (op_BLOBHASH, ''BLOBHASH''),
      (op_BLOBBASEFEE, ''BLOBBASEFEE''), (op_POP, ''POP''), (op_MLOAD, ''MLOAD''),
      (op_MSTORE, ''MSTORE''), (op_MSTORE8, ''MSTORE8''), (op_SLOAD, ''SLOAD''),
      (op_SSTORE, ''SSTORE''), (op_JUMP, ''JUMP''), (op_JUMPI, ''JUMPI''),
      (op_PC, ''PC''), (op_MSIZE, ''MSIZE''), (op_GAS, ''GAS''),
      (op_JUMPDEST, ''JUMPDEST''), (op_TLOAD, ''TLOAD''), (op_TSTORE, ''TSTORE''),
      (op_MCOPY, ''MCOPY''), (op_PUSH0, ''PUSH0''), (op_PUSH1, ''PUSH1''),
      (op_PUSH2, ''PUSH2''), (op_PUSH3, ''PUSH3''), (op_PUSH4, ''PUSH4''),
      (op_PUSH5, ''PUSH5''), (op_PUSH6, ''PUSH6''), (op_PUSH7, ''PUSH7''),
      (op_PUSH8, ''PUSH8''), (op_PUSH9, ''PUSH9''), (op_PUSH10, ''PUSH10''),
      (op_PUSH11, ''PUSH11''), (op_PUSH12, ''PUSH12''), (op_PUSH13, ''PUSH13''),
      (op_PUSH14, ''PUSH14''), (op_PUSH15, ''PUSH15''), (op_PUSH16, ''PUSH16''),
      (op_PUSH17, ''PUSH17''), (op_PUSH18, ''PUSH18''), (op_PUSH19, ''PUSH19''),
      (op_PUSH20, ''PUSH20''), (op_PUSH21, ''PUSH21''), (op_PUSH22, ''PUSH22''),
      (op_PUSH23, ''PUSH23''), (op_PUSH24, ''PUSH24''), (op_PUSH25, ''PUSH25''),
      (op_PUSH26, ''PUSH26''), (op_PUSH27, ''PUSH27''), (op_PUSH28, ''PUSH28''),
      (op_PUSH29, ''PUSH29''), (op_PUSH30, ''PUSH30''), (op_PUSH31, ''PUSH31''),
      (op_PUSH32, ''PUSH32''), (op_DUP1, ''DUP1''), (op_DUP2, ''DUP2''),
      (op_DUP3, ''DUP3''), (op_DUP4, ''DUP4''), (op_DUP5, ''DUP5''), (op_DUP6, ''DUP6''),
      (op_DUP7, ''DUP7''), (op_DUP8, ''DUP8''), (op_DUP9, ''DUP9''),
      (op_DUP10, ''DUP10''), (op_DUP11, ''DUP11''), (op_DUP12, ''DUP12''),
      (op_DUP13, ''DUP13''), (op_DUP14, ''DUP14''), (op_DUP15, ''DUP15''),
      (op_DUP16, ''DUP16''), (op_SWAP1, ''SWAP1''), (op_SWAP2, ''SWAP2''),
      (op_SWAP3, ''SWAP3''), (op_SWAP4, ''SWAP4''), (op_SWAP5, ''SWAP5''),
      (op_SWAP6, ''SWAP6''), (op_SWAP7, ''SWAP7''), (op_SWAP8, ''SWAP8''),
      (op_SWAP9, ''SWAP9''), (op_SWAP10, ''SWAP10''), (op_SWAP11, ''SWAP11''),
      (op_SWAP12, ''SWAP12''), (op_SWAP13, ''SWAP13''), (op_SWAP14, ''SWAP14''),
      (op_SWAP15, ''SWAP15''), (op_SWAP16, ''SWAP16''), (op_LOG0, ''LOG0''),
      (op_LOG1, ''LOG1''), (op_LOG2, ''LOG2''), (op_LOG3, ''LOG3''), (op_LOG4, ''LOG4''),
      (op_CREATE, ''CREATE''), (op_CALL, ''CALL''), (op_CALLCODE, ''CALLCODE''),
      (op_RETURN, ''RETURN''), (op_DELEGATECALL, ''DELEGATECALL''),
      (op_CREATE2, ''CREATE2''), (op_STATICCALL, ''STATICCALL''),
      (op_REVERT, ''REVERT''), (op_INVALID, ''INVALID''),
      (op_SELFDESTRUCT, ''SELFDESTRUCT'')]"

text \<open>A match on constants is a lookup in the order of its arms.\<close>

definition op_name :: "u8 \<Rightarrow> string" where
  "op_name opcode = (case map_of op_names opcode of Some n \<Rightarrow> n | None \<Rightarrow> ''UNKNOWN'')"

definition push_size :: "u8 \<Rightarrow> u8 option" where
  "push_size opcode =
     (if op_PUSH1 \<le> opcode \<and> opcode \<le> op_PUSH32 then Some (opcode - op_PUSH1 + 1) else None)"

end
