(* ===== verification/Assembler.thy ===== *)
theory Assembler
  imports Evm_Op Index_Vec
begin

text \<open>
  The assembler (\<open>sir/crates/assembler/src/lib.rs\<close>): a program under assembly is a buffer of bytes
  and a list of sections that are marks (jump and data labels), spans of instruction or data bytes,
  and references to marks or to the distance of two marks.  \<open>assemble\<close> finds offsets of all marks
  that fit the variable-size references and emits the code.  Offsets are \<open>u32\<close> values whose
  additions panic on overflow, as in a build with overflow checks.
\<close>

section \<open>Sections and references\<close>

datatype ref_size = S1 | S2 | S3 | S4

fun ref_size_num :: "ref_size \<Rightarrow> nat" where
  "ref_size_num S1 = 1"
| "ref_size_num S2 = 2"
| "ref_size_num S3 = 3"
| "ref_size_num S4 = 4"

lemma ref_size_num_inject: "ref_size_num a = ref_size_num b \<longleftrightarrow> a = b"
  by (cases a; cases b) simp_all

text \<open>The derived order of the enum.\<close>

instantiation ref_size :: linorder
begin

definition less_eq_ref_size :: "ref_size \<Rightarrow> ref_size \<Rightarrow> bool" where
  "less_eq_ref_size a b \<longleftrightarrow> ref_size_num a \<le> ref_size_num b"

definition less_ref_size :: "ref_size \<Rightarrow> ref_size \<Rightarrow> bool" where
  "less_ref_size a b \<longleftrightarrow> ref_size_num a < ref_size_num b"

instance
  by standard (auto simp: less_eq_ref_size_def less_ref_size_def ref_size_num_inject)

end

definition bytes_to_hold :: "nat \<Rightarrow> ref_size" where
  "bytes_to_hold offset =
     (if offset \<le> 0xff then S1
      else if offset \<le> 0xffff then S2
      else if offset \<le> 0xffffff then S3
      else S4)"

datatype mark_reference =
    Direct nat
  | Delta span

record asm_reference =
  mark_ref :: mark_reference
  set_size :: "ref_size option"
  pushed :: bool

record direct_mark_ref =
  dr_id :: nat
  dr_set_size :: "ref_size option"
  dr_pushed :: bool

datatype stored_asm_section =
    SMark nat
  | SOps span
  | SData span
  | SDirectMarkRef direct_mark_ref
  | UnsizedPushedDeltaRef span
  | Size1PushedDeltaRef span
  | Size2PushedDeltaRef span
  | Size3PushedDeltaRef span
  | Size4PushedDeltaRef span
  | UnsizedRawDeltaRef span
  | Size1RawDeltaRef span
  | Size2RawDeltaRef span
  | Size3RawDeltaRef span
  | Size4RawDeltaRef span

datatype asm_section =
    Mark nat
  | Ops span
  | Data span
  | MarkRef asm_reference

definition delta_ref :: "span \<Rightarrow> bool \<Rightarrow> ref_size option \<Rightarrow> asm_section" where
  "delta_ref delta_span p sz =
     MarkRef \<lparr>mark_ref = Delta delta_span, set_size = sz, pushed = p\<rparr>"

fun section_of_stored :: "stored_asm_section \<Rightarrow> asm_section" where
  "section_of_stored (SMark mid) = Mark mid"
| "section_of_stored (SOps span) = Ops span"
| "section_of_stored (SData span) = Data span"
| "section_of_stored (SDirectMarkRef r) =
     MarkRef \<lparr>mark_ref = Direct (dr_id r), set_size = dr_set_size r, pushed = dr_pushed r\<rparr>"
| "section_of_stored (UnsizedPushedDeltaRef d) = delta_ref d True None"
| "section_of_stored (Size1PushedDeltaRef d) = delta_ref d True (Some S1)"
| "section_of_stored (Size2PushedDeltaRef d) = delta_ref d True (Some S2)"
| "section_of_stored (Size3PushedDeltaRef d) = delta_ref d True (Some S3)"
| "section_of_stored (Size4PushedDeltaRef d) = delta_ref d True (Some S4)"
| "section_of_stored (UnsizedRawDeltaRef d) = delta_ref d False None"
| "section_of_stored (Size1RawDeltaRef d) = delta_ref d False (Some S1)"
| "section_of_stored (Size2RawDeltaRef d) = delta_ref d False (Some S2)"
| "section_of_stored (Size3RawDeltaRef d) = delta_ref d False (Some S3)"
| "section_of_stored (Size4RawDeltaRef d) = delta_ref d False (Some S4)"

fun min_compiled_size :: "asm_section \<Rightarrow> nat panics" where
  "min_compiled_size (Mark mid) = Some 0"
| "min_compiled_size (Ops s) = idx_sub_idx (sp_end s) (sp_start s)"
| "min_compiled_size (Data s) = idx_sub_idx (sp_end s) (sp_start s)"
| "min_compiled_size (MarkRef r) =
     (case (set_size r, pushed r) of
        (Some n, True) \<Rightarrow> Some (ref_size_num n + 1)
      | (Some n, False) \<Rightarrow> Some (ref_size_num n)
      | (None, _) \<Rightarrow> Some 1)"

text \<open>The value of a reference while offsets are still being settled.\<close>

fun ref_value :: "nat list \<Rightarrow> mark_reference \<Rightarrow> nat panics" where
  "ref_value marks (Direct mid) = iv_index marks mid"
| "ref_value marks (Delta s) =
     do { e \<leftarrow> iv_index marks (sp_end s); b \<leftarrow> iv_index marks (sp_start s); Some (e - b) }"

definition ref_compiled_size :: "ref_size option \<Rightarrow> bool \<Rightarrow> nat \<Rightarrow> nat option" where
  "ref_compiled_size sz p v =
     (let need = bytes_to_hold v in
      case sz of
        Some n \<Rightarrow> if n < need then None else if p then Some (ref_size_num n + 1) else Some (ref_size_num n)
      | None \<Rightarrow>
          if p \<and> v = 0 then Some 1
          else if p then Some (1 + ref_size_num need)
          else Some (ref_size_num need))"

text \<open>The inner option is the result of the code, the outer one its panics.\<close>

fun compiled_size :: "asm_section \<Rightarrow> nat list \<Rightarrow> nat option panics" where
  "compiled_size (Mark mid) marks = Some (Some 0)"
| "compiled_size (Ops s) marks = map_option Some (idx_sub_idx (sp_end s) (sp_start s))"
| "compiled_size (Data s) marks = map_option Some (idx_sub_idx (sp_end s) (sp_start s))"
| "compiled_size (MarkRef r) marks =
     do { v \<leftarrow> ref_value marks (mark_ref r); Some (ref_compiled_size (set_size r) (pushed r) v) }"

definition new_direct :: "nat \<Rightarrow> asm_reference" where
  "new_direct mid = \<lparr>mark_ref = Direct mid, set_size = None, pushed = True\<rparr>"

definition new_delta :: "nat \<Rightarrow> nat \<Rightarrow> asm_reference" where
  "new_delta s e = \<lparr>mark_ref = Delta \<lparr>sp_start = s, sp_end = e\<rparr>, set_size = None, pushed = True\<rparr>"

definition pushed_ref :: "mark_reference \<Rightarrow> asm_reference" where
  "pushed_ref r = \<lparr>mark_ref = r, set_size = None, pushed = True\<rparr>"

section \<open>Building\<close>

record assembler =
  asm_bytes :: "u8 list"
  asm_sections :: "stored_asm_section list"

definition asm_new :: assembler where
  "asm_new = \<lparr>asm_bytes = [], asm_sections = []\<rparr>"

definition asm_clear :: "assembler \<Rightarrow> assembler" where
  "asm_clear a = a\<lparr>asm_bytes := [], asm_sections := []\<rparr>"

definition iter_sections :: "assembler \<Rightarrow> asm_section list" where
  "iter_sections a = map section_of_stored (asm_sections a)"

definition push_section :: "assembler \<Rightarrow> stored_asm_section \<Rightarrow> assembler" where
  "push_section a s = a\<lparr>asm_sections := asm_sections a @ [s]\<rparr>"

definition push_mark :: "assembler \<Rightarrow> nat \<Rightarrow> assembler" where
  "push_mark a mark = push_section a (SMark mark)"

text \<open>
  Appending bytes to the span of the last section when it has the right kind, \<open>mk\<close>, and opening a
  section otherwise.  \<open>add\<close> is the append to the byte buffer.
\<close>

definition push_op_byte :: "assembler \<Rightarrow> u8 \<Rightarrow> assembler panics" where
  "push_op_byte a byte =
     (case rev (asm_sections a) of
        SOps s # before \<Rightarrow>
          do { n \<leftarrow> iv_next_idx (asm_bytes a);
               ensure (sp_end s = n);
               (_, bytes) \<leftarrow> iv_push (asm_bytes a) byte;
               e \<leftarrow> iv_next_idx bytes;
               Some \<lparr>asm_bytes = bytes, asm_sections = rev (SOps (s\<lparr>sp_end := e\<rparr>) # before)\<rparr> }
      | _ \<Rightarrow>
          do { s \<leftarrow> iv_next_idx (asm_bytes a);
               (_, bytes) \<leftarrow> iv_push (asm_bytes a) byte;
               e \<leftarrow> iv_next_idx bytes;
               Some (push_section (a\<lparr>asm_bytes := bytes\<rparr>) (SOps \<lparr>sp_start = s, sp_end = e\<rparr>)) })"

definition push_data :: "assembler \<Rightarrow> u8 list \<Rightarrow> assembler panics" where
  "push_data a data =
     (case rev (asm_sections a) of
        SData s # before \<Rightarrow>
          do { n \<leftarrow> iv_next_idx (asm_bytes a);
               ensure (sp_end s = n);
               e \<leftarrow> iv_next_idx (asm_bytes a @ data);
               Some \<lparr>asm_bytes = asm_bytes a @ data,
                     asm_sections = rev (SData (s\<lparr>sp_end := e\<rparr>) # before)\<rparr> }
      | _ \<Rightarrow>
          do { s \<leftarrow> iv_next_idx (asm_bytes a);
               e \<leftarrow> iv_next_idx (asm_bytes a @ data);
               Some (push_section (a\<lparr>asm_bytes := asm_bytes a @ data\<rparr>)
                       (SData \<lparr>sp_start = s, sp_end = e\<rparr>)) })"


text \<open>The matches of \<open>push_swap\<close> and \<open>push_dup\<close> on a constant depth, their last arm the panic.\<close>

definition swap_ops :: "(nat \<times> u8) list" where
  "swap_ops =
     [(1, op_SWAP1), (2, op_SWAP2), (3, op_SWAP3), (4, op_SWAP4), (5, op_SWAP5),
      (6, op_SWAP6), (7, op_SWAP7), (8, op_SWAP8), (9, op_SWAP9), (10, op_SWAP10),
      (11, op_SWAP11), (12, op_SWAP12), (13, op_SWAP13), (14, op_SWAP14),
      (15, op_SWAP15), (16, op_SWAP16)]"

definition push_swap :: "assembler \<Rightarrow> nat \<Rightarrow> assembler panics" where
  "push_swap a depth = do { op \<leftarrow> map_of swap_ops depth; push_op_byte a op }"

definition dup_ops :: "(nat \<times> u8) list" where
  "dup_ops =
     [(0, op_DUP1), (1, op_DUP2), (2, op_DUP3), (3, op_DUP4), (4, op_DUP5),
      (5, op_DUP6), (6, op_DUP7), (7, op_DUP8), (8, op_DUP9), (9, op_DUP10),
      (10, op_DUP11), (11, op_DUP12), (12, op_DUP13), (13, op_DUP14), (14, op_DUP15),
      (15, op_DUP16)]"

definition push_dup :: "assembler \<Rightarrow> nat \<Rightarrow> assembler panics" where
  "push_dup a depth = do { op \<leftarrow> map_of dup_ops depth; push_op_byte a op }"

definition push_exchange :: "assembler \<Rightarrow> nat \<Rightarrow> nat \<Rightarrow> assembler panics" where
  "push_exchange a n m =
     do { ensure (n \<noteq> m);
          if n = 0 then push_swap a m
          else if m = 0 then push_swap a n
          else do { a \<leftarrow> push_swap a n; a \<leftarrow> push_swap a m; push_swap a n } }"

text \<open>\<open>U256::leading_zeros\<close> and \<open>to_le_bytes\<close>.\<close>

definition leading_zeros :: "u256 \<Rightarrow> nat" where
  "leading_zeros v = length (takeWhile (\<lambda>i. \<not> bit v i) (rev [0..<256]))"

definition u256_to_le_bytes :: "u256 \<Rightarrow> u8 list" where
  "u256_to_le_bytes v = map (\<lambda>i. ucast (drop_bit (8 * i) v)) [0..<32]"

definition push_minimal_u256 :: "assembler \<Rightarrow> u256 \<Rightarrow> assembler panics" where
  "push_minimal_u256 a v =
     (if v = 0 then push_op_byte a op_PUSH0
      else
        do { let n = 32 - leading_zeros v div 8;
             ensure (n \<le> 255);
             let push_op = op_PUSH1 + of_nat n - 1;
             ensure (op_PUSH1 \<le> push_op \<and> push_op \<le> op_PUSH32);
             a \<leftarrow> push_op_byte a push_op;
             bytes \<leftarrow> slice_of (u256_to_le_bytes v) 0 n;
             fold_panics (\<lambda>b a. push_op_byte a b) (rev bytes) a })"

definition push_minimal_u64 :: "assembler \<Rightarrow> u64 \<Rightarrow> assembler panics" where
  "push_minimal_u64 a v = push_minimal_u256 a (ucast v)"

definition push_minimal_u32 :: "assembler \<Rightarrow> u32 \<Rightarrow> assembler panics" where
  "push_minimal_u32 a v = push_minimal_u256 a (ucast v)"

definition push_reference :: "assembler \<Rightarrow> asm_reference \<Rightarrow> assembler" where
  "push_reference a r =
     (case mark_ref r of
        Direct mid \<Rightarrow>
          push_section a (SDirectMarkRef \<lparr>dr_id = mid, dr_set_size = set_size r, dr_pushed = pushed r\<rparr>)
      | Delta d \<Rightarrow>
          push_section a
            (if pushed r then
               (case set_size r of
                  None \<Rightarrow> UnsizedPushedDeltaRef d
                | Some S1 \<Rightarrow> Size1PushedDeltaRef d
                | Some S2 \<Rightarrow> Size2PushedDeltaRef d
                | Some S3 \<Rightarrow> Size3PushedDeltaRef d
                | Some S4 \<Rightarrow> Size4PushedDeltaRef d)
             else
               (case set_size r of
                  None \<Rightarrow> UnsizedRawDeltaRef d
                | Some S1 \<Rightarrow> Size1RawDeltaRef d
                | Some S2 \<Rightarrow> Size2RawDeltaRef d
                | Some S3 \<Rightarrow> Size3RawDeltaRef d
                | Some S4 \<Rightarrow> Size4RawDeltaRef d)))"

section \<open>Assembling\<close>

datatype assemble_error = RefHasTooSmallSetSize nat

text \<open>
  The first loop of \<open>converge_mark_offsets\<close> gives every mark its offset under the smallest sizes.
  \<open>cap len additional\<close> stands for the capacity of a vector of length \<open>len\<close> after
  \<open>reserve(additional)\<close>, which the standard library only bounds from below.
\<close>

fun init_offsets ::
    "(nat \<Rightarrow> nat \<Rightarrow> nat) \<Rightarrow> asm_section list \<Rightarrow> nat list \<Rightarrow> nat \<Rightarrow> nat list panics" where
  "init_offsets cap [] marks min_size = Some marks"
| "init_offsets cap (s # ss) marks min_size =
     do { marks \<leftarrow>
            (case s of
               Mark mid \<Rightarrow>
                 do { let additional = (mid + 1) - length marks;
                      let marks = resize (cap (length marks) additional) 0 marks;
                      iv_set marks mid min_size }
             | _ \<Rightarrow> Some marks);
          n \<leftarrow> min_compiled_size s;
          min_size \<leftarrow> add_u32 min_size n;
          init_offsets cap ss marks min_size }"

text \<open>
  One iteration of the second loop over the sections from index \<open>i\<close> on, with the offset reached and
  the flag whether no mark has moved.
\<close>

fun converge_pass ::
    "nat \<Rightarrow> asm_section list \<Rightarrow> nat list \<Rightarrow> nat \<Rightarrow> bool \<Rightarrow> (assemble_error + nat list \<times> bool) panics" where
  "converge_pass i [] marks off converged = Some (Inr (marks, converged))"
| "converge_pass i (s # ss) marks off converged =
     do { (marks, converged) \<leftarrow>
            (case s of
               Mark mid \<Rightarrow>
                 do { prev \<leftarrow> iv_index marks mid;
                      if prev \<noteq> off then do { marks \<leftarrow> iv_set marks mid off; Some (marks, False) }
                      else Some (marks, converged) }
             | _ \<Rightarrow> Some (marks, converged));
          n \<leftarrow> compiled_size s marks;
          case n of
            None \<Rightarrow> Some (Inl (RefHasTooSmallSetSize i))
          | Some n \<Rightarrow> do { off \<leftarrow> add_u32 off n; converge_pass (i + 1) ss marks off converged } }"

fun converge_loop ::
    "nat \<Rightarrow> asm_section list \<Rightarrow> nat list \<Rightarrow> (assemble_error + nat list) panics" where
  "converge_loop 0 ss marks = None"
| "converge_loop (Suc iters) ss marks =
     do { r \<leftarrow> converge_pass 0 ss marks 0 True;
          case r of
            Inl e \<Rightarrow> Some (Inl e)
          | Inr (marks, converged) \<Rightarrow>
              if converged then Some (Inr marks) else converge_loop iters ss marks }"

definition MAX_ASSEMBLER_CONVERGENCE_ITERS :: nat where
  "MAX_ASSEMBLER_CONVERGENCE_ITERS = 1024"

definition converge_mark_offsets ::
    "(nat \<Rightarrow> nat \<Rightarrow> nat) \<Rightarrow> asm_section list \<Rightarrow> nat list \<Rightarrow> (assemble_error + nat list) panics" where
  "converge_mark_offsets cap ss marks =
     do { marks \<leftarrow> init_offsets cap ss marks 0;
          converge_loop MAX_ASSEMBLER_CONVERGENCE_ITERS ss marks }"

definition u32_to_le_bytes :: "nat \<Rightarrow> u8 list" where
  "u32_to_le_bytes v = map (\<lambda>i. of_nat (v div 256 ^ i)) [0..<4]"

fun emit_value :: "nat list \<Rightarrow> mark_reference \<Rightarrow> nat panics" where
  "emit_value marks (Direct mid) = iv_index marks mid"
| "emit_value marks (Delta s) =
     do { e \<leftarrow> iv_index marks (sp_end s); b \<leftarrow> iv_index marks (sp_start s); sub_checked e b }"

fun emit_section :: "u8 list \<Rightarrow> nat list \<Rightarrow> asm_section \<Rightarrow> u8 list panics" where
  "emit_section bytes marks (Mark mid) = Some []"
| "emit_section bytes marks (Ops s) = iv_index_span bytes s"
| "emit_section bytes marks (Data s) = iv_index_span bytes s"
| "emit_section bytes marks (MarkRef r) =
     do { v \<leftarrow> emit_value marks (mark_ref r);
          if v = 0 \<and> set_size r = None \<and> pushed r then Some [op_PUSH0]
          else
            do { let need = bytes_to_hold v;
                 ensure (case set_size r of None \<Rightarrow> True | Some n \<Rightarrow> need \<le> n);
                 let n = (case set_size r of None \<Rightarrow> need | Some n \<Rightarrow> n);
                 let opcode = (if pushed r then [op_PUSH1 + of_nat (ref_size_num n) - 1] else []);
                 imm \<leftarrow> map_panics (get_at (u32_to_le_bytes v)) (rev [0..<ref_size_num n]);
                 Some (opcode @ imm) } }"

definition ASSUMED_MARK_COUNT_WITHOUT_HINT :: nat where
  "ASSUMED_MARK_COUNT_WITHOUT_HINT = 128"

text \<open>The code is appended to \<open>result\<close>; the returned map gives the offsets of the marks.\<close>

definition assemble ::
    "(nat \<Rightarrow> nat \<Rightarrow> nat) \<Rightarrow> assembler \<Rightarrow> u8 list \<Rightarrow> nat option
     \<Rightarrow> (assemble_error + nat list \<times> u8 list) panics" where
  "assemble cap a result hint =
     do { let marks = replicate (case hint of Some n \<Rightarrow> n | None \<Rightarrow> ASSUMED_MARK_COUNT_WITHOUT_HINT) 0;
          r \<leftarrow> converge_mark_offsets cap (iter_sections a) marks;
          case r of
            Inl e \<Rightarrow> Some (Inl e)
          | Inr marks \<Rightarrow>
              do { result \<leftarrow> fold_panics
                     (\<lambda>s result. do { piece \<leftarrow> emit_section (asm_bytes a) marks s; Some (result @ piece) })
                     (iter_sections a) result;
                   Some (Inr (marks, result)) } }"


section \<open>The program an assembler holds\<close>

text \<open>
  The abstraction of an assembler is its stream of items.  \<open>tiles\<close> is the representation
  invariant: the spans of the sections cover the byte buffer from left to right.
\<close>

datatype asm_item =
    MarkItem nat
  | OpByte u8
  | DataByte u8
  | RefItem asm_reference

definition span_bytes :: "u8 list \<Rightarrow> span \<Rightarrow> u8 list" where
  "span_bytes bytes s = take (sp_end s - sp_start s) (drop (sp_start s) bytes)"

fun section_items :: "u8 list \<Rightarrow> asm_section \<Rightarrow> asm_item list" where
  "section_items bytes (Mark m) = [MarkItem m]"
| "section_items bytes (Ops s) = map OpByte (span_bytes bytes s)"
| "section_items bytes (Data s) = map DataByte (span_bytes bytes s)"
| "section_items bytes (MarkRef r) = [RefItem r]"

definition asm_items :: "assembler \<Rightarrow> asm_item list" where
  "asm_items a = concat (map (section_items (asm_bytes a)) (iter_sections a))"

fun tiles :: "nat \<Rightarrow> asm_section list \<Rightarrow> nat \<Rightarrow> bool" where
  "tiles pos [] n \<longleftrightarrow> pos = n"
| "tiles pos (Ops s # ss) n \<longleftrightarrow> sp_start s = pos \<and> pos \<le> sp_end s \<and> tiles (sp_end s) ss n"
| "tiles pos (Data s # ss) n \<longleftrightarrow> sp_start s = pos \<and> pos \<le> sp_end s \<and> tiles (sp_end s) ss n"
| "tiles pos (_ # ss) n \<longleftrightarrow> tiles pos ss n"

definition asm_wf :: "assembler \<Rightarrow> bool" where
  "asm_wf a \<longleftrightarrow> tiles 0 (iter_sections a) (length (asm_bytes a)) \<and> is_idx (length (asm_bytes a))"

lemma tiles_append: "tiles pos (xs @ ys) n \<longleftrightarrow> (\<exists>m. tiles pos xs m \<and> tiles m ys n)"
  by (induction pos xs n rule: tiles.induct) auto

lemma tiles_le: "tiles pos ss n \<Longrightarrow> pos \<le> n"
  by (induction pos ss n rule: tiles.induct) auto

lemma span_bytes_append: "sp_end s \<le> length bytes \<Longrightarrow> span_bytes (bytes @ ext) s = span_bytes bytes s"
  by (cases "sp_start s \<le> length bytes") (simp_all add: span_bytes_def)

lemma section_items_append:
  "tiles pos ss n \<Longrightarrow> n \<le> length bytes \<Longrightarrow>
   concat (map (section_items (bytes @ ext)) ss) = concat (map (section_items bytes) ss)"
proof (induction pos ss n rule: tiles.induct)
  case (2 pos s ss n)
  then show ?case
    using tiles_le [of "sp_end s" ss n] by (simp add: span_bytes_append)
next
  case (3 pos s ss n)
  then show ?case
    using tiles_le [of "sp_end s" ss n] by (simp add: span_bytes_append)
qed simp_all

lemma iter_sections_push [simp]: "iter_sections (push_section a s) = iter_sections a @ [section_of_stored s]"
  by (simp add: iter_sections_def push_section_def)

lemma asm_bytes_push [simp]: "asm_bytes (push_section a s) = asm_bytes a"
  by (simp add: push_section_def)

lemma is_idx_mono: "is_idx n \<Longrightarrow> m \<le> n \<Longrightarrow> is_idx m"
  by (simp add: is_idx_def)

lemma SOps_SData [simp]: "SOps \<noteq> SData" and SData_SOps [simp]: "SData \<noteq> SOps"
proof -
  show "SOps \<noteq> SData"
  proof
    assume "SOps = SData"
    then have "SOps s = SData s" for s
      by (rule fun_cong)
    then show False
      by simp
  qed
  then show "SData \<noteq> SOps"
    by simp
qed

text \<open>Extending the last span and opening a new one have the same effect on the stream.\<close>

lemma extend_last_span:
  assumes "asm_wf a" and "asm_sections a = before @ [sec s]" and "is_idx (length (asm_bytes a @ ext))"
    and "sec \<in> {SOps, SData}"
  defines "a' \<equiv> \<lparr>asm_bytes = asm_bytes a @ ext,
                  asm_sections = before @ [sec (s\<lparr>sp_end := length (asm_bytes a @ ext)\<rparr>)]\<rparr>"
  shows "sp_end s = length (asm_bytes a)" and "asm_wf a'"
    and "asm_items a' = asm_items a @ map (if sec = SOps then OpByte else DataByte) ext"
proof -
  let ?ss = "map section_of_stored before"
  have t: "tiles 0 ?ss (sp_start s)" "sp_start s \<le> sp_end s" and e: "sp_end s = length (asm_bytes a)"
    using assms(1,2,4) by (auto simp: asm_wf_def iter_sections_def tiles_append)
  show "sp_end s = length (asm_bytes a)"
    by (rule e)
  show "asm_wf a'"
    using assms(3,4) t e by (auto simp: a'_def asm_wf_def iter_sections_def tiles_append)
  have "concat (map (section_items (asm_bytes a @ ext)) ?ss) = concat (map (section_items (asm_bytes a)) ?ss)"
    using t e by (intro section_items_append) auto
  moreover have "span_bytes (asm_bytes a @ ext) (s\<lparr>sp_end := length (asm_bytes a @ ext)\<rparr>)
      = span_bytes (asm_bytes a) s @ ext"
    using t(2) e by (simp add: span_bytes_def)
  ultimately show "asm_items a' = asm_items a @ map (if sec = SOps then OpByte else DataByte) ext"
    using assms(2,4) by (auto simp: asm_items_def a'_def iter_sections_def)
qed

lemma open_span:
  assumes "asm_wf a" and "is_idx (length (asm_bytes a @ ext))" and "sec \<in> {SOps, SData}"
  defines "a' \<equiv> push_section (a\<lparr>asm_bytes := asm_bytes a @ ext\<rparr>)
                  (sec \<lparr>sp_start = length (asm_bytes a), sp_end = length (asm_bytes a @ ext)\<rparr>)"
  shows "asm_wf a'" and "asm_items a' = asm_items a @ map (if sec = SOps then OpByte else DataByte) ext"
proof -
  have t: "tiles 0 (iter_sections a) (length (asm_bytes a))"
    using assms(1) by (simp add: asm_wf_def)
  have sections: "iter_sections (a\<lparr>asm_bytes := bytes\<rparr>) = iter_sections a" for bytes
    by (simp add: iter_sections_def)
  show "asm_wf a'"
    using assms(2,3) t by (auto simp: a'_def asm_wf_def sections tiles_append)
  show "asm_items a' = asm_items a @ map (if sec = SOps then OpByte else DataByte) ext"
    using assms(3) t section_items_append [OF t, of "asm_bytes a" ext]
    by (auto simp: asm_items_def a'_def sections span_bytes_def)
qed

lemma push_section_items:
  assumes "asm_wf a" and "section_of_stored s = Mark m \<or> section_of_stored s = MarkRef r"
  shows "asm_wf (push_section a s)"
    and "asm_items (push_section a s) = asm_items a @ section_items [] (section_of_stored s)"
  using assms by (auto simp: asm_wf_def asm_items_def tiles_append)


lemma push_op_byte_items:
  assumes "asm_wf a" and "is_idx (length (asm_bytes a) + 1)"
  shows "\<exists>a'. push_op_byte a b = Some a' \<and> asm_wf a' \<and> asm_items a' = asm_items a @ [OpByte b]
    \<and> length (asm_bytes a') = length (asm_bytes a) + 1"
proof (cases "\<exists>s before. asm_sections a = before @ [SOps s]")
  case True
  then obtain s before where s: "asm_sections a = before @ [SOps s]"
    by blast
  note ext = extend_last_span [of a before SOps s "[b]", OF assms(1) s]
  show ?thesis
    using ext assms by (auto simp: push_op_byte_def s bind_Some iv_next_idx_Some iv_push_Some is_idx_def)
next
  case False
  then have "push_op_byte a b =
      do { s \<leftarrow> iv_next_idx (asm_bytes a);
           (_, bytes) \<leftarrow> iv_push (asm_bytes a) b;
           e \<leftarrow> iv_next_idx bytes;
           Some (push_section (a\<lparr>asm_bytes := bytes\<rparr>) (SOps \<lparr>sp_start = s, sp_end = e\<rparr>)) }"
    by (auto simp: push_op_byte_def split: list.splits stored_asm_section.splits)
  then show ?thesis
    using open_span [OF assms(1), of "[b]" SOps] assms
    by (auto simp: bind_Some iv_next_idx_Some iv_push_Some is_idx_def)
qed

lemma push_data_items:
  assumes "asm_wf a" and "is_idx (length (asm_bytes a) + length data)"
  shows "\<exists>a'. push_data a data = Some a' \<and> asm_wf a' \<and> asm_items a' = asm_items a @ map DataByte data
    \<and> length (asm_bytes a') = length (asm_bytes a) + length data"
proof (cases "\<exists>s before. asm_sections a = before @ [SData s]")
  case True
  then obtain s before where s: "asm_sections a = before @ [SData s]"
    by blast
  note ext = extend_last_span [of a before SData s data, OF assms(1) s]
  show ?thesis
    using ext assms by (auto simp: push_data_def s bind_Some iv_next_idx_Some is_idx_def)
next
  case False
  then have "push_data a data =
      do { s \<leftarrow> iv_next_idx (asm_bytes a);
           e \<leftarrow> iv_next_idx (asm_bytes a @ data);
           Some (push_section (a\<lparr>asm_bytes := asm_bytes a @ data\<rparr>) (SData \<lparr>sp_start = s, sp_end = e\<rparr>)) }"
    by (auto simp: push_data_def split: list.splits stored_asm_section.splits)
  then show ?thesis
    using open_span [OF assms(1), of data SData] assms
    by (auto simp: bind_Some iv_next_idx_Some is_idx_def)
qed

lemma push_op_bytes_items:
  assumes "asm_wf a" and "is_idx (length (asm_bytes a) + length bs)"
  shows "\<exists>a'. fold_panics (\<lambda>b a. push_op_byte a b) bs a = Some a' \<and> asm_wf a'
    \<and> asm_items a' = asm_items a @ map OpByte bs \<and> length (asm_bytes a') = length (asm_bytes a) + length bs"
  using assms
proof (induction bs arbitrary: a)
  case (Cons b bs)
  obtain a' where a': "push_op_byte a b = Some a'" "asm_wf a'" "asm_items a' = asm_items a @ [OpByte b]"
    "length (asm_bytes a') = length (asm_bytes a) + 1"
    using push_op_byte_items [of a b] Cons.prems by (auto simp: is_idx_def)
  then show ?case
    using Cons.IH [of a'] Cons.prems(2) by auto
qed simp

lemma push_reference_items:
  assumes "asm_wf a"
  shows "asm_wf (push_reference a r)" and "asm_items (push_reference a r) = asm_items a @ [RefItem r]"
    and "asm_bytes (push_reference a r) = asm_bytes a"
proof -
  obtain s where s: "push_reference a r = push_section a s" "section_of_stored s = MarkRef r"
  proof (rule that)
    show "push_reference a r = push_section a (last (asm_sections (push_reference a r)))"
      by (auto simp: push_reference_def push_section_def split: mark_reference.splits option.splits ref_size.splits)
    show "section_of_stored (last (asm_sections (push_reference a r))) = MarkRef r"
      by (cases r) (auto simp: push_reference_def push_section_def delta_ref_def
          split: mark_reference.splits option.splits ref_size.splits)
  qed
  show "asm_wf (push_reference a r)" "asm_items (push_reference a r) = asm_items a @ [RefItem r]"
    "asm_bytes (push_reference a r) = asm_bytes a"
    using push_section_items [OF assms, of s] s by auto
qed


section \<open>Bytes of numbers\<close>

definition be_value :: "u8 list \<Rightarrow> nat" where
  "be_value bs = foldl (\<lambda>acc b. acc * 256 + unat b) 0 bs"

definition nat_le_bytes :: "nat \<Rightarrow> nat \<Rightarrow> u8 list" where
  "nat_le_bytes n x = map (\<lambda>i. of_nat (x div 256 ^ i)) [0..<n]"

lemma nat_le_bytes_Suc: "nat_le_bytes (Suc n) x = nat_le_bytes n x @ [of_nat (x div 256 ^ n)]"
  by (simp add: nat_le_bytes_def)

lemma length_nat_le_bytes [simp]: "length (nat_le_bytes n x) = n"
  by (simp add: nat_le_bytes_def)

lemma take_nat_le_bytes: "m \<le> n \<Longrightarrow> take m (nat_le_bytes n x) = nat_le_bytes m x"
  by (simp add: nat_le_bytes_def take_map)

lemma be_value_foldl: "foldl (\<lambda>acc b. acc * 256 + unat b) a bs = a * 256 ^ length bs + be_value bs"
proof (induction bs arbitrary: a)
  case (Cons b bs)
  show ?case
    using Cons [of "a * 256 + unat b"] Cons [of "unat b"] by (simp add: be_value_def algebra_simps)
qed (simp add: be_value_def)

lemma be_value_Cons: "be_value (b # bs) = unat b * 256 ^ length bs + be_value bs"
  using be_value_foldl [of "unat b" bs] by (simp add: be_value_def)

lemma be_value_nat: "x < 256 ^ n \<Longrightarrow> be_value (rev (nat_le_bytes n x)) = x"
proof -
  have "be_value (rev (nat_le_bytes n x)) = x mod 256 ^ n"
  proof (induction n)
    case (Suc n)
    have "unat (of_nat (x div 256 ^ n) :: u8) = x div 256 ^ n mod 256"
      by (simp add: unat_of_nat)
    then have "be_value (rev (nat_le_bytes (Suc n) x)) = (x div 256 ^ n mod 256) * 256 ^ n + x mod 256 ^ n"
      using Suc by (simp add: nat_le_bytes_Suc be_value_Cons)
    also have "\<dots> = x mod (256 ^ n * 256)"
      using mod_mult2_eq [of x "256 ^ n" 256] by (simp only: mult.commute [of "x div 256 ^ n mod 256"])
    finally show ?case
      by (simp only: power_Suc2)
  qed (simp add: nat_le_bytes_def be_value_def)
  then show "x < 256 ^ n \<Longrightarrow> ?thesis"
    by simp
qed

lemma u32_to_le_bytes_eq: "u32_to_le_bytes v = nat_le_bytes 4 v"
  by (simp add: u32_to_le_bytes_def nat_le_bytes_def)

lemma u256_to_le_bytes_eq: "u256_to_le_bytes v = nat_le_bytes 32 (unat v)"
proof -
  have "ucast (drop_bit (8 * i) v) = (of_nat (unat v div 256 ^ i) :: u8)" for i
  proof (rule word_unat_eq_iff [THEN iffD2])
    have "unat (ucast (drop_bit (8 * i) v) :: u8) = unat (drop_bit (8 * i) v) mod 256"
      by (simp add: unsigned_ucast_eq take_bit_eq_mod)
    also have "\<dots> = unat v div 256 ^ i mod 256"
      by (simp only: unat_drop_bit power_mult) simp
    finally show "unat (ucast (drop_bit (8 * i) v) :: u8) = unat (of_nat (unat v div 256 ^ i) :: u8)"
      by (simp add: unat_of_nat)
  qed
  then show ?thesis
    by (simp add: u256_to_le_bytes_def nat_le_bytes_def del: upt_conv_Cons upt_rec_numeral)
qed

lemma leading_zeros_bounds:
  assumes "v \<noteq> 0"
  shows "leading_zeros v < 256" and "2 ^ (255 - leading_zeros v) \<le> unat v"
    and "unat v < 2 ^ (256 - leading_zeros v)"
proof -
  let ?k = "leading_zeros v" and ?is = "rev [0..<256]"
  have nth: "?is ! j = 255 - j" if "j < 256" for j
    using that by (simp add: rev_nth del: upt_conv_Cons upt_rec_numeral)
  have zero: "\<not> bit v (255 - j)" if "j < ?k" "j < 256" for j
    using nth [OF that(2)] nth_length_takeWhile takeWhile_nth [of j "\<lambda>i. \<not> bit v i" ?is]
      set_takeWhileD [OF nth_mem [of j "takeWhile (\<lambda>i. \<not> bit v i) ?is"]] that(1)
    by (simp add: leading_zeros_def del: upt_conv_Cons upt_rec_numeral)
  have le: "?k \<le> 256"
    using length_takeWhile_le [of "\<lambda>i. \<not> bit v i" ?is] by (simp add: leading_zeros_def)
  have high: "\<not> bit v i" if "256 - ?k \<le> i" for i
  proof (cases "i < 256")
    case True
    then show ?thesis
      using zero [of "255 - i"] that le by auto
  next
    case False
    then show ?thesis
      using bit_imp_le_length [of v i] by auto
  qed
  show less: "?k < 256"
  proof (rule ccontr)
    assume "\<not> ?k < 256"
    then have "v = 0"
      using high by (intro bit_word_eqI) simp
    with assms show False ..
  qed
  have "bit v (?is ! ?k)"
    using nth_length_takeWhile [of "\<lambda>i. \<not> bit v i" ?is] less
    by (simp add: leading_zeros_def del: upt_conv_Cons upt_rec_numeral)
  then have "bit v (255 - ?k)"
    using nth [OF less] by simp
  then have "bit (unat v) (255 - ?k)"
    by (simp add: bit_unsigned_iff)
  then have "odd (unat v div 2 ^ (255 - ?k))"
    by (rule bit_iff_odd [THEN iffD1])
  then have "unat v div 2 ^ (255 - ?k) \<noteq> 0"
    by (metis even_zero)
  then show "2 ^ (255 - ?k) \<le> unat v"
    by (simp add: div_eq_0_iff)
  have "drop_bit (256 - ?k) v = 0"
    using high by (intro bit_word_eqI) (simp add: bit_drop_bit_eq)
  then have "unat v div 2 ^ (256 - ?k) = 0"
    by (metis unat_drop_bit unsigned_0)
  then show "unat v < 2 ^ (256 - ?k)"
    by (simp add: div_eq_0_iff)
qed


text \<open>Exchanging two positions of a stack, the top being position 0, and what \<open>SWAPn\<close> does.\<close>

definition list_swap :: "nat \<Rightarrow> nat \<Rightarrow> 'a list \<Rightarrow> 'a list" where
  "list_swap i j xs = xs[i := xs ! j, j := xs ! i]"

definition exec_swap :: "u8 \<Rightarrow> 'a list \<Rightarrow> 'a list option" where
  "exec_swap op st =
     (let n = unat op - unat op_SWAP1 + 1
      in if op_SWAP1 \<le> op \<and> op \<le> op_SWAP16 \<and> n < length st then Some (list_swap 0 n st) else None)"

lemma swap_ops_eq: "map_of swap_ops d = (if 1 \<le> d \<and> d \<le> 16 then Some (of_nat (0x8F + d)) else None)"
  by (simp add: swap_ops_def op_defs) presburger

lemma dup_ops_eq: "map_of dup_ops d = (if d < 16 then Some (of_nat (0x80 + d)) else None)"
  by (simp add: dup_ops_def op_defs) presburger

lemma exec_swap_nth:
  assumes "1 \<le> d" and "d \<le> 16" and "d < length st"
  shows "exec_swap (of_nat (0x8F + d)) st = Some (list_swap 0 d st)"
proof -
  have u: "unat (of_nat (143 + d) :: u8) = 143 + d"
    using assms(2) by (simp only: unat_of_nat) simp
  have "unat op_SWAP1 = 144" "unat op_SWAP16 = 159"
    by (simp_all add: op_defs)
  then show ?thesis
    using assms u by (simp add: exec_swap_def word_le_nat_alt Let_def)
qed

lemma push_swap_items:
  assumes "asm_wf a" and "is_idx (length (asm_bytes a) + 1)" and "1 \<le> d" and "d \<le> 16"
  shows "\<exists>a'. push_swap a d = Some a' \<and> asm_wf a' \<and> asm_items a' = asm_items a @ [OpByte (of_nat (0x8F + d))]
    \<and> length (asm_bytes a') = length (asm_bytes a) + 1"
  using push_op_byte_items [OF assms(1,2), of "of_nat (0x8F + d)"] assms(3,4)
  by (auto simp: push_swap_def swap_ops_eq)

fun exec_swaps :: "asm_item list \<Rightarrow> 'a list \<Rightarrow> 'a list option" where
  "exec_swaps [] st = Some st"
| "exec_swaps (OpByte op # its) st = do { st \<leftarrow> exec_swap op st; exec_swaps its st }"
| "exec_swaps (_ # its) st = None"

text \<open>
  C12. \<open>push_exchange n m\<close> appends only swap instructions, and running them on any stack deep enough
  exchanges exactly the values at depths \<open>n\<close> and \<open>m\<close>; with equal depths, or one beyond the reach
  of \<open>SWAP16\<close>, it panics instead of emitting code.
\<close>

theorem push_exchange_exchanges:
  assumes "asm_wf a" and "is_idx (length (asm_bytes a) + 3)"
  shows "if n \<noteq> m \<and> n \<le> 16 \<and> m \<le> 16
    then \<exists>a' code. push_exchange a n m = Some a' \<and> asm_wf a' \<and> asm_items a' = asm_items a @ code
      \<and> (\<forall>st :: 'v list. n < length st \<longrightarrow> m < length st \<longrightarrow>
           exec_swaps code st = Some (list_swap n m st))
    else push_exchange a n m = None"
proof (cases "n \<noteq> m \<and> n \<le> 16 \<and> m \<le> 16")
  case True
  consider "n = 0" | "m = 0" "n \<noteq> 0" | "n \<noteq> 0" "m \<noteq> 0"
    by blast
  then show ?thesis
  proof cases
    case 1
    obtain a' where a': "push_swap a m = Some a'" "asm_wf a'"
      "asm_items a' = asm_items a @ [OpByte (of_nat (0x8F + m))]"
      using push_swap_items [OF assms(1), of m] assms(2) True 1 by (auto simp: is_idx_def)
    then show ?thesis
      using True 1
      by (auto simp: push_exchange_def exec_swap_nth [simplified] Suc_le_eq
          intro!: exI [of _ "[OpByte (of_nat (0x8F + m))]"])
  next
    case 2
    obtain a' where a': "push_swap a n = Some a'" "asm_wf a'"
      "asm_items a' = asm_items a @ [OpByte (of_nat (0x8F + n))]"
      using push_swap_items [OF assms(1), of n] assms(2) True 2 by (auto simp: is_idx_def)
    then show ?thesis
      using True 2
      by (auto simp: push_exchange_def exec_swap_nth [simplified] Suc_le_eq list_swap_def list_update_swap
          intro!: exI [of _ "[OpByte (of_nat (0x8F + n))]"])
  next
    case 3
    obtain a1 where a1: "push_swap a n = Some a1" "asm_wf a1"
      "asm_items a1 = asm_items a @ [OpByte (of_nat (0x8F + n))]" "length (asm_bytes a1) = length (asm_bytes a) + 1"
      using push_swap_items [OF assms(1), of n] assms(2) True 3 by (auto simp: is_idx_def)
    obtain a2 where a2: "push_swap a1 m = Some a2" "asm_wf a2"
      "asm_items a2 = asm_items a1 @ [OpByte (of_nat (0x8F + m))]" "length (asm_bytes a2) = length (asm_bytes a1) + 1"
      using push_swap_items [OF a1(2), of m] assms(2) a1(4) True 3 by (auto simp: is_idx_def)
    obtain a3 where a3: "push_swap a2 n = Some a3" "asm_wf a3"
      "asm_items a3 = asm_items a2 @ [OpByte (of_nat (0x8F + n))]"
      using push_swap_items [OF a2(2), of n] assms(2) a1(4) a2(4) True 3 by (auto simp: is_idx_def)
    have "list_swap 0 n (list_swap 0 m (list_swap 0 n st)) = list_swap n m st"
      if "n < length st" "m < length st" for st :: "'v list"
      using True 3 that gr_implies_not0 [OF that(1)] by (intro nth_equalityI) (auto simp: list_swap_def nth_list_update)
    then show ?thesis
      using True 3 a1 a2 a3
      by (auto simp: push_exchange_def exec_swap_nth [simplified] Suc_le_eq list_swap_def [of 0]
          intro!: exI [of _ "map (\<lambda>d. OpByte (of_nat (0x8F + d))) [n, m, n]"])
  qed
next
  case False
  then show ?thesis
    by (auto simp: push_exchange_def push_swap_def swap_ops_eq bind_Some split: if_splits)
qed


text \<open>The number of immediate bytes of a push instruction.\<close>

definition push_imm :: "u8 \<Rightarrow> nat option" where
  "push_imm op = (if op = op_PUSH0 then Some 0 else map_option unat (push_size op))"

lemma push_imm_PUSH0 [simp]: "push_imm op_PUSH0 = Some 0"
  by (simp add: push_imm_def)

lemma push_imm_PUSHn:
  assumes "1 \<le> n" and "n \<le> 32"
  shows "push_imm (op_PUSH1 + of_nat n - 1) = Some n"
    and "op_PUSH1 \<le> op_PUSH1 + of_nat n - 1" and "op_PUSH1 + of_nat n - 1 \<le> op_PUSH32"
proof -
  have op: "op_PUSH1 + of_nat n - 1 = (of_nat (0x5F + n) :: u8)"
    by (simp add: op_defs algebra_simps)
  have u: "unat (of_nat (0x5F + n) :: u8) = 0x5F + n" and n: "unat (of_nat n :: u8) = n"
    using assms(2) by (simp_all only: unat_of_nat) simp_all
  have bounds: "unat op_PUSH1 = 0x60" "unat op_PUSH32 = 0x7F" "unat op_PUSH0 = 0x5F"
    by (simp_all add: op_defs)
  show low: "op_PUSH1 \<le> op_PUSH1 + of_nat n - 1" and high: "op_PUSH1 + of_nat n - 1 \<le> op_PUSH32"
    unfolding op word_le_nat_alt u bounds using assms by simp_all
  have "op_PUSH1 + of_nat n - 1 - op_PUSH1 + 1 = (of_nat n :: u8)"
    by simp
  moreover have "op_PUSH1 + of_nat n - 1 \<noteq> op_PUSH0"
    unfolding op word_unat_eq_iff u bounds using assms(1) by simp
  ultimately show "push_imm (op_PUSH1 + of_nat n - 1) = Some n"
    using low high n by (simp add: push_imm_def push_size_def)
qed

lemma be_value_less: "be_value bs < 256 ^ length bs"
proof (induction bs)
  case (Cons b bs)
  have "unat b < 256"
    using unsigned_less [of b] by simp
  then have "be_value (b # bs) < (unat b + 1) * 256 ^ length bs"
    using Cons by (simp add: be_value_Cons)
  also have "\<dots> \<le> 256 * 256 ^ length bs"
    using \<open>unat b < 256\<close> by (intro mult_le_mono1) simp
  finally show ?case
    by simp
qed (simp add: be_value_def)

lemma be_value_hd:
  assumes "256 ^ (length bs - 1) \<le> be_value bs" and "bs \<noteq> []"
  shows "hd bs \<noteq> 0"
proof (cases bs)
  case (Cons b cs)
  then show ?thesis
    using assms be_value_less [of cs] by (auto simp: be_value_Cons)
qed (use assms in simp)

lemma minimal_width:
  assumes "v \<noteq> 0"
  defines "n \<equiv> 32 - leading_zeros v div 8"
  shows "1 \<le> n" and "n \<le> 32" and "256 ^ (n - 1) \<le> unat v" and "unat v < 256 ^ n"
proof -
  note lz = leading_zeros_bounds [OF assms(1)]
  show "1 \<le> n" "n \<le> 32"
    using lz(1) by (simp_all add: n_def)
  have "8 * (n - 1) \<le> 255 - leading_zeros v" "256 - leading_zeros v \<le> 8 * n"
    using lz(1) unfolding n_def by presburger+
  then have "(2 :: nat) ^ (8 * (n - 1)) \<le> 2 ^ (255 - leading_zeros v)"
    and le: "(2 :: nat) ^ (256 - leading_zeros v) \<le> 2 ^ (8 * n)"
    by simp_all
  then show "256 ^ (n - 1) \<le> unat v"
    using lz(2) by (simp add: power_mult)
  show "unat v < 256 ^ n"
    using less_le_trans [OF lz(3) le] by (simp add: power_mult)
qed

text \<open>
  C13. \<open>push_minimal_u256\<close> appends exactly one push instruction, whose immediate has the length its
  opcode asks for, denotes the value in big-endian order and has no leading zero byte; zero
  becomes \<open>PUSH0\<close>.
\<close>

theorem push_minimal_u256_minimal:
  assumes "asm_wf a" and "is_idx (length (asm_bytes a) + 33)"
  shows "\<exists>a' op imm. push_minimal_u256 a v = Some a' \<and> asm_wf a'
    \<and> asm_items a' = asm_items a @ map OpByte (op # imm)
    \<and> push_imm op = Some (length imm) \<and> be_value imm = unat v \<and> (imm \<noteq> [] \<longrightarrow> hd imm \<noteq> 0)"
proof (cases "v = 0")
  case True
  obtain a' where "push_op_byte a op_PUSH0 = Some a'" "asm_wf a'" "asm_items a' = asm_items a @ [OpByte op_PUSH0]"
    using push_op_byte_items [OF assms(1), of op_PUSH0] assms(2) by (auto simp: is_idx_def)
  then show ?thesis
    using True by (auto simp: push_minimal_u256_def be_value_def intro!: exI [of _ "[]"])
next
  case False
  define n where "n = 32 - leading_zeros v div 8"
  let ?n = n
  let ?op = "op_PUSH1 + of_nat ?n - 1 :: u8" and ?imm = "rev (nat_le_bytes ?n (unat v))"
  note width = minimal_width [OF False, folded n_def]
  obtain a1 where a1: "push_op_byte a ?op = Some a1" "asm_wf a1" "asm_items a1 = asm_items a @ [OpByte ?op]"
    "length (asm_bytes a1) = length (asm_bytes a) + 1"
    using push_op_byte_items [OF assms(1), of ?op] assms(2) by (auto simp: is_idx_def)
  have "is_idx (length (asm_bytes a1) + length ?imm)"
    using width(2) assms(2) a1(4) by (simp add: is_idx_def)
  then obtain a' where a': "fold_panics (\<lambda>b a. push_op_byte a b) ?imm a1 = Some a'" "asm_wf a'"
    "asm_items a' = asm_items a1 @ map OpByte ?imm"
    using push_op_bytes_items [OF a1(2), of ?imm] by blast
  have "slice_of (u256_to_le_bytes v) 0 ?n = Some (nat_le_bytes ?n (unat v))"
    using width(2) by (simp add: slice_of_Some u256_to_le_bytes_eq take_nat_le_bytes)
  then have push: "push_minimal_u256 a v = Some a'"
    using False a1(1) a'(1) push_imm_PUSHn(2,3) [OF width(1,2)] width(2)
    by (simp add: push_minimal_u256_def Let_def n_def [symmetric])
  have "be_value ?imm = unat v"
    by (rule be_value_nat [OF width(4)])
  moreover have "hd ?imm \<noteq> 0" if "?imm \<noteq> []"
    using be_value_hd [of ?imm] width(3) calculation that by simp
  ultimately show ?thesis
    using push a' a1(3) push_imm_PUSHn(1) [OF width(1,2)]
    by (intro exI [of _ a'] exI [of _ ?op] exI [of _ ?imm]) simp
qed

text \<open>
  C11. The assembler as a stream: every building operation keeps the spans of the sections tiled
  over the byte buffer and appends exactly its own items to the stream, whatever mixture of
  extended and newly opened sections it uses for them; \<open>clear\<close> empties the stream.
\<close>

theorem assembler_builds_stream:
  assumes "asm_wf a"
  shows "asm_wf asm_new \<and> asm_items asm_new = []
    \<and> asm_wf (asm_clear a) \<and> asm_items (asm_clear a) = []
    \<and> asm_wf (push_mark a m) \<and> asm_items (push_mark a m) = asm_items a @ [MarkItem m]
    \<and> asm_wf (push_reference a r) \<and> asm_items (push_reference a r) = asm_items a @ [RefItem r]
    \<and> (is_idx (length (asm_bytes a) + 1) \<longrightarrow>
         (\<exists>a'. push_op_byte a b = Some a' \<and> asm_wf a' \<and> asm_items a' = asm_items a @ [OpByte b]))
    \<and> (is_idx (length (asm_bytes a) + 1) \<longrightarrow> d < 16 \<longrightarrow>
         (\<exists>a'. push_dup a d = Some a' \<and> asm_wf a'
           \<and> asm_items a' = asm_items a @ [OpByte (of_nat (0x80 + d))]))
    \<and> (is_idx (length (asm_bytes a) + length data) \<longrightarrow>
         (\<exists>a'. push_data a data = Some a' \<and> asm_wf a' \<and> asm_items a' = asm_items a @ map DataByte data))"
proof -
  have "asm_wf (push_mark a m) \<and> asm_items (push_mark a m) = asm_items a @ [MarkItem m]"
    using push_section_items [OF assms, of "SMark m"] by (auto simp: push_mark_def)
  moreover have "\<exists>a'. push_dup a d = Some a' \<and> asm_wf a' \<and> asm_items a' = asm_items a @ [OpByte (of_nat (0x80 + d))]"
    if "is_idx (length (asm_bytes a) + 1)" "d < 16"
    using push_op_byte_items [OF assms that(1), of "of_nat (0x80 + d)"] that(2)
    by (auto simp: push_dup_def dup_ops_eq)
  ultimately show ?thesis
    using push_op_byte_items [OF assms, of b] push_data_items [OF assms, of data]
      push_reference_items [OF assms, of r]
    by (auto simp: asm_wf_def asm_items_def iter_sections_def asm_new_def asm_clear_def is_idx_def u32_max_def)
qed


section \<open>The code of a stream\<close>

text \<open>
  \<open>ref_denotes marks r piece\<close>: the bytes of a reference under the mark offsets \<open>marks\<close>.  A pushed
  reference is one push instruction, the others are the bare bytes; the immediate denotes the
  target in big-endian order, in the requested size or else the smallest one.
\<close>

fun ref_target :: "nat list \<Rightarrow> mark_reference \<Rightarrow> int" where
  "ref_target marks (Direct m) = int (marks ! m)"
| "ref_target marks (Delta s) = int (marks ! sp_end s) - int (marks ! sp_start s)"

fun ref_marks :: "mark_reference \<Rightarrow> nat list" where
  "ref_marks (Direct m) = [m]"
| "ref_marks (Delta s) = [sp_end s, sp_start s]"

definition ref_denotes :: "nat list \<Rightarrow> asm_reference \<Rightarrow> u8 list \<Rightarrow> bool" where
  "ref_denotes marks r piece \<longleftrightarrow>
     (\<exists>imm. (\<forall>m \<in> set (ref_marks (mark_ref r)). m < length marks)
        \<and> int (be_value imm) = ref_target marks (mark_ref r)
        \<and> (if pushed r then \<exists>op. piece = op # imm \<and> push_imm op = Some (length imm) else piece = imm)
        \<and> (case set_size r of
             Some n \<Rightarrow> length imm = ref_size_num n
           | None \<Rightarrow> length imm = (if pushed r then 0 else 1) \<or> (imm \<noteq> [] \<and> hd imm \<noteq> 0)))"

text \<open>
  \<open>laid_out marks off items code\<close>: \<open>code\<close>, placed at offset \<open>off\<close>, is the code of the items and every
  mark among them has its true offset in \<open>marks\<close>.
\<close>

inductive laid_out :: "nat list \<Rightarrow> nat \<Rightarrow> asm_item list \<Rightarrow> u8 list \<Rightarrow> bool" for marks where
  laid_out_Nil: "laid_out marks off [] []"
| laid_out_Mark: "m < length marks \<Longrightarrow> marks ! m = off \<Longrightarrow> laid_out marks off its code \<Longrightarrow>
    laid_out marks off (MarkItem m # its) code"
| laid_out_Op: "laid_out marks (off + 1) its code \<Longrightarrow> laid_out marks off (OpByte b # its) (b # code)"
| laid_out_Data: "laid_out marks (off + 1) its code \<Longrightarrow> laid_out marks off (DataByte b # its) (b # code)"
| laid_out_Ref: "ref_denotes marks r piece \<Longrightarrow> laid_out marks (off + length piece) its code \<Longrightarrow>
    laid_out marks off (RefItem r # its) (piece @ code)"

inductive_simps laid_out_Nil_iff [simp]: "laid_out marks off [] code"
inductive_cases laid_out_MarkE: "laid_out marks off (MarkItem m # its) code"

lemma laid_out_append:
  "laid_out marks off xs c1 \<Longrightarrow> laid_out marks (off + length c1) ys c2 \<Longrightarrow>
   laid_out marks off (xs @ ys) (c1 @ c2)"
  by (induction rule: laid_out.induct) (auto intro: laid_out.intros simp: add.assoc)

lemma laid_out_Ops: "laid_out marks off (map OpByte bs) bs"
  and laid_out_Datas: "laid_out marks off (map DataByte bs) bs"
  by (induction bs arbitrary: off) (auto intro: laid_out.intros)

text \<open>What a converged pass over the sections establishes.\<close>

fun settled :: "nat list \<Rightarrow> nat \<Rightarrow> asm_section list \<Rightarrow> bool" where
  "settled marks off [] \<longleftrightarrow> True"
| "settled marks off (s # ss) \<longleftrightarrow>
     (\<forall>m. s = Mark m \<longrightarrow> m < length marks \<and> marks ! m = off)
     \<and> (\<exists>n. compiled_size s marks = Some (Some n) \<and> settled marks (off + n) ss)"

lemma converge_pass_settled:
  "converge_pass i ss marks off c = Some (Inr (marks', True)) \<Longrightarrow> c \<and> marks' = marks \<and> settled marks off ss"
proof (induction i ss marks off c rule: converge_pass.induct)
  case (2 i s ss marks off c)
  have no_False: "converge_pass i ss marks off False \<noteq> Some (Inr (marks', True))" for i ss marks off
  proof (induction ss arbitrary: i marks off)
    case (Cons s ss)
    then show ?case
      by (auto simp: bind_Some split: asm_section.splits option.splits if_splits)
  qed simp
  obtain marks1 c1 n off' where
    step: "(case s of Mark m \<Rightarrow>
        do { prev \<leftarrow> iv_index marks m;
             if prev \<noteq> off then do { marks \<leftarrow> iv_set marks m off; Some (marks, False) } else Some (marks, c) }
      | _ \<Rightarrow> Some (marks, c)) = Some (marks1, c1)"
    and n: "compiled_size s marks1 = Some (Some n)" "add_u32 off n = Some off'"
    and rest: "converge_pass (i + 1) ss marks1 off' c1 = Some (Inr (marks', True))"
    using "2.prems" by (auto simp: bind_Some split: option.splits)
  have "c1"
    using rest no_False by (cases c1) auto
  then have s: "marks1 = marks" "c1 = c" "\<forall>m. s = Mark m \<longrightarrow> m < length marks \<and> marks ! m = off"
    using step by (auto simp: bind_Some iv_index_def get_at_Some split: asm_section.splits if_splits)
  show ?case
    using "2.IH" [OF step _ n(1) _ n(2)] rest s n \<open>c1\<close>
    by (auto simp: add_u32_Some)
qed simp


lemma bytes_to_hold_fits: "v \<le> u32_max \<Longrightarrow> v < 256 ^ ref_size_num (bytes_to_hold v)"
  by (simp add: bytes_to_hold_def u32_max_def)

lemma bytes_to_hold_minimal:
  "ref_size_num (bytes_to_hold v) = 1 \<or> 256 ^ (ref_size_num (bytes_to_hold v) - 1) \<le> v"
  by (simp add: bytes_to_hold_def)

lemma ref_size_num_bounds: "1 \<le> ref_size_num n" "ref_size_num n \<le> 4"
  by (cases n; simp)+

lemma be_bytes_of_le:
  assumes "k \<le> 4"
  shows "map_panics (get_at (u32_to_le_bytes v)) (rev [0..<k]) = Some (rev (nat_le_bytes k v))"
proof -
  have "take k (nat_le_bytes 4 v) = nat_le_bytes k v"
    by (rule take_nat_le_bytes [OF assms])
  moreover have "get_at (u32_to_le_bytes v) (rev [0..<k] ! i) = Some (rev (take k (nat_le_bytes 4 v)) ! i)" if "i < k" for i
    using that assms by (simp add: u32_to_le_bytes_eq rev_nth)
  ultimately show ?thesis
    using assms by (simp add: map_panics_Some list_all2_conv_all_nth)
qed

lemma emit_value_ref:
  assumes "emit_value marks r = Some v" and "ref_value marks r = Some v'"
  shows "v = v' \<and> int v = ref_target marks r \<and> (\<forall>m \<in> set (ref_marks r). m < length marks) \<and> (\<exists>x \<in> set marks. v \<le> x)"
proof (cases r)
  case (Direct m)
  then show ?thesis
    using assms by (auto simp: iv_index_def get_at_Some)
next
  case (Delta s)
  then have "v = v'" "int v = ref_target marks r" "\<forall>m \<in> set (ref_marks r). m < length marks"
    and "v \<le> marks ! sp_end s" "marks ! sp_end s \<in> set marks"
    using assms by (auto simp: bind_Some iv_index_def get_at_Some sub_checked_Some of_nat_diff)
  then show ?thesis
    by blast
qed

text \<open>The emitted reference, by the size \<open>k\<close> chosen for its immediate.\<close>

lemma emit_ref:
  assumes emit: "emit_section bytes marks (MarkRef r) = Some piece"
    and size: "compiled_size (MarkRef r) marks = Some (Some n)"
    and marks: "\<forall>x \<in> set marks. x \<le> u32_max"
  shows "length piece = n \<and> ref_denotes marks r piece"
proof -
  obtain v v' where v: "emit_value marks (mark_ref r) = Some v" and v': "ref_value marks (mark_ref r) = Some v'"
    using emit size by (auto simp: bind_Some)
  have "v = v'" and target: "int v = ref_target marks (mark_ref r)"
    and range: "\<forall>m \<in> set (ref_marks (mark_ref r)). m < length marks" and "\<exists>x \<in> set marks. v \<le> x"
    using emit_value_ref [OF v v'] by auto
  then have "v \<le> u32_max"
    using marks by fastforce
  note hold = bytes_to_hold_fits [OF this]
  have rsize: "ref_compiled_size (set_size r) (pushed r) v = Some n"
    using size v' \<open>v = v'\<close> by simp
  show ?thesis
  proof (cases "v = 0 \<and> set_size r = None \<and> pushed r")
    case True
    have zero: "emit_value marks (mark_ref r) = Some 0"
      using v True by simp
    have "piece = [op_PUSH0]" "n = 1"
      using emit True rsize zero by (simp_all add: ref_compiled_size_def)
    then show ?thesis
      using True range target by (auto simp: ref_denotes_def be_value_def intro!: exI [of _ "[]"])
  next
    case False
    define k where "k = (case set_size r of None \<Rightarrow> ref_size_num (bytes_to_hold v) | Some s \<Rightarrow> ref_size_num s)"
    have k: "1 \<le> k" "k \<le> 4"
      using ref_size_num_bounds by (simp_all add: k_def split: option.split)
    let ?imm = "rev (nat_le_bytes k v)"
    have fits: "\<forall>s. set_size r = Some s \<longrightarrow> bytes_to_hold v \<le> s"
      using rsize by (auto simp: ref_compiled_size_def split: if_splits)
    have num: "ref_size_num (case set_size r of None \<Rightarrow> bytes_to_hold v | Some s \<Rightarrow> s) = k"
      by (auto simp: k_def split: option.splits)
    have piece: "piece = (if pushed r then [op_PUSH1 + of_nat k - 1] else []) @ ?imm"
      using emit v False fits num be_bytes_of_le [OF k(2), of v]
      by (auto simp: Let_def bind_Some split: option.splits)
    have "n = length piece"
      using rsize False fits unfolding piece
      by (auto simp: ref_compiled_size_def k_def Let_def not_less [symmetric] split: option.splits if_splits)
    moreover have "ref_size_num (bytes_to_hold v) \<le> k"
      using fits by (auto simp: k_def less_eq_ref_size_def split: option.splits)
    then have "v < 256 ^ k"
      by (intro less_le_trans [OF hold power_increasing]) simp_all
    then have "be_value ?imm = v"
      by (rule be_value_nat)
    moreover have "?imm \<noteq> []"
      using k(1) length_nat_le_bytes [of k v] by fastforce
    moreover have "length ?imm = 1 \<or> hd ?imm \<noteq> 0" if "set_size r = None"
      using bytes_to_hold_minimal [of v] be_value_hd [OF _ calculation(3)] that calculation(2)
      by (auto simp: k_def)
    moreover have "hd ?imm \<noteq> 0" if "set_size r = None" "pushed r"
      using calculation(4) that False be_value_hd [OF _ calculation(3)] calculation(2) k(1)
      by (cases "k = 1") auto
    ultimately show ?thesis
      using range target k push_imm_PUSHn(1) [of k]
      by (cases "set_size r")
        (auto simp: ref_denotes_def piece k_def intro!: exI [of _ ?imm])
  qed
qed


lemma emit_section_laid_out:
  assumes emit: "emit_section bytes marks s = Some piece"
    and size: "compiled_size s marks = Some (Some n)"
    and mark: "\<forall>m. s = Mark m \<longrightarrow> m < length marks \<and> marks ! m = off"
    and marks: "\<forall>x \<in> set marks. x \<le> u32_max"
  shows "length piece = n \<and> laid_out marks off (section_items bytes s) piece"
proof (cases s)
  case (MarkRef r)
  then show ?thesis
    using emit_ref [of bytes marks r piece n] emit size marks laid_out_Ref [OF _ laid_out_Nil, of marks r piece off]
    by simp
qed (use assms in \<open>auto simp: iv_index_span_def slice_of_Some span_bytes_def idx_sub_idx_def sub_checked_Some
      intro: laid_out_Ops laid_out_Datas laid_out_Mark laid_out_Nil\<close>)

lemma emit_laid_out:
  assumes "settled marks off ss" and "\<forall>x \<in> set marks. x \<le> u32_max"
    and "fold_panics (\<lambda>s result. do { piece \<leftarrow> emit_section bytes marks s; Some (result @ piece) }) ss result = Some out"
  shows "\<exists>code. out = result @ code \<and> laid_out marks off (concat (map (section_items bytes) ss)) code"
  using assms(1,3)
proof (induction ss arbitrary: off result)
  case (Cons s ss)
  obtain n where n: "compiled_size s marks = Some (Some n)" and rest: "settled marks (off + n) ss"
    and mark: "\<forall>m. s = Mark m \<longrightarrow> m < length marks \<and> marks ! m = off"
    using Cons.prems(1) by auto
  obtain piece where piece: "emit_section bytes marks s = Some piece"
    and out: "fold_panics (\<lambda>s result. do { piece \<leftarrow> emit_section bytes marks s; Some (result @ piece) }) ss (result @ piece)
      = Some out"
    using Cons.prems(2) by (auto simp: bind_Some)
  have "length piece = n" "laid_out marks off (section_items bytes s) piece"
    using emit_section_laid_out [OF piece n mark assms(2)] by auto
  moreover obtain code where "out = (result @ piece) @ code"
    "laid_out marks (off + n) (concat (map (section_items bytes) ss)) code"
    using Cons.IH [OF rest out] by blast
  ultimately show ?case
    using laid_out_append [of marks off "section_items bytes s" piece] by auto
qed (auto intro: laid_out_Nil)

text \<open>Offsets stay \<open>u32\<close> values.\<close>

lemma set_resize: "set (resize n v xs) \<subseteq> insert v (set xs)"
  by (auto simp: resize_def dest: in_set_takeD)

lemma init_offsets_bounded:
  "init_offsets cap ss marks off = Some marks' \<Longrightarrow> \<forall>x \<in> set marks. x \<le> u32_max \<Longrightarrow> off \<le> u32_max \<Longrightarrow>
   \<forall>x \<in> set marks'. x \<le> u32_max"
proof (induction cap ss marks off rule: init_offsets.induct)
  case (2 cap s ss marks off)
  obtain marks1 n off' where
    step: "(case s of
        Mark m \<Rightarrow>
          do { let additional = (m + 1) - length marks;
               let marks = resize (cap (length marks) additional) 0 marks;
               iv_set marks m off }
      | _ \<Rightarrow> Some marks) = Some marks1"
    and n: "min_compiled_size s = Some n" "add_u32 off n = Some off'"
    and rest: "init_offsets cap ss marks1 off' = Some marks'"
    using "2.prems"(1) by (auto simp: bind_Some)
  have "\<forall>x \<in> set marks1. x \<le> u32_max"
    using step "2.prems"(2,3) set_resize [of _ 0 marks] set_update_subset_insert
    by (fastforce simp: Let_def iv_set_def set_at_Some split: asm_section.splits)
  then show ?case
    using "2.IH" [OF step n] rest n by (simp add: add_u32_Some)
qed simp

lemma converge_pass_bounded:
  "converge_pass i ss marks off c = Some (Inr (marks', c')) \<Longrightarrow> \<forall>x \<in> set marks. x \<le> u32_max \<Longrightarrow>
   off \<le> u32_max \<Longrightarrow> \<forall>x \<in> set marks'. x \<le> u32_max"
proof (induction i ss marks off c rule: converge_pass.induct)
  case (2 i s ss marks off c)
  obtain marks1 c1 n off' where
    step: "(case s of Mark m \<Rightarrow>
        do { prev \<leftarrow> iv_index marks m;
             if prev \<noteq> off then do { marks \<leftarrow> iv_set marks m off; Some (marks, False) } else Some (marks, c) }
      | _ \<Rightarrow> Some (marks, c)) = Some (marks1, c1)"
    and n: "compiled_size s marks1 = Some (Some n)" "add_u32 off n = Some off'"
    and rest: "converge_pass (i + 1) ss marks1 off' c1 = Some (Inr (marks', c'))"
    using "2.prems"(1) by (auto simp: bind_Some split: option.splits)
  have "\<forall>x \<in> set marks1. x \<le> u32_max"
    using step "2.prems"(2,3) set_update_subset_insert
    by (fastforce simp: bind_Some iv_set_def set_at_Some split: asm_section.splits if_splits)
  then show ?case
    using "2.IH" [OF step _ n(1) _ n(2)] rest n by (simp add: add_u32_Some)
qed simp

lemma converge_loop_settled:
  "converge_loop iters ss marks = Some (Inr marks') \<Longrightarrow> \<forall>x \<in> set marks. x \<le> u32_max \<Longrightarrow>
   settled marks' 0 ss \<and> (\<forall>x \<in> set marks'. x \<le> u32_max)"
proof (induction iters arbitrary: marks)
  case (Suc iters)
  then obtain marks1 c where pass: "converge_pass 0 ss marks 0 True = Some (Inr (marks1, c))"
    and rest: "if c then marks' = marks1 else converge_loop iters ss marks1 = Some (Inr marks')"
    by (auto simp: bind_Some case_sum_Inr split: if_splits)
  have "\<forall>x \<in> set marks1. x \<le> u32_max"
    using converge_pass_bounded [OF pass] Suc.prems(2) by simp
  then show ?case
    using rest Suc.IH pass converge_pass_settled [of 0 ss marks 0 True marks1] by (cases c) auto
qed simp

text \<open>
  C2. Assembled code is correct: when \<open>assemble\<close> succeeds it appends to the output exactly the code
  of the assembler's stream under the returned mark offsets.  Every mark's offset is the number of
  code bytes before it, operation and data bytes are copied in order, and every reference is
  encoded with the final value of its mark, or the exact difference of its two marks, in a push or
  raw immediate of the requested or else the minimal size.
\<close>

theorem assemble_code:
  assumes "assemble cap a result hint = Some (Inr (marks, out))"
  shows "\<exists>code. out = result @ code \<and> laid_out marks 0 (asm_items a) code"
proof -
  define init :: "nat list" where
    "init = replicate (case hint of Some n \<Rightarrow> n | None \<Rightarrow> ASSUMED_MARK_COUNT_WITHOUT_HINT) 0"
  obtain marks1 where init: "init_offsets cap (iter_sections a) init 0 = Some marks1"
    and loop: "converge_loop MAX_ASSEMBLER_CONVERGENCE_ITERS (iter_sections a) marks1 = Some (Inr marks)"
    and emit: "fold_panics
        (\<lambda>s result. do { piece \<leftarrow> emit_section (asm_bytes a) marks s; Some (result @ piece) })
        (iter_sections a) result = Some out"
    using assms by (auto simp: assemble_def converge_mark_offsets_def bind_Some case_sum_Inr init_def)
  have "\<forall>x \<in> set marks1. x \<le> u32_max"
    using init_offsets_bounded [OF init] by (simp add: init_def)
  then show ?thesis
    using converge_loop_settled [OF loop] emit_laid_out [OF _ _ emit] by (simp add: asm_items_def)
qed

end
