(* ===== verification/Assembler_Converge.thy ===== *)
theory Assembler_Converge
  imports Assembler
begin

text \<open>
  Termination of the assembler's offset search.  For sections whose references are direct, sizes
  grow monotonically with the offsets, so that each pass either settles or enlarges some reference;
  the iteration limit of the source is then never reached, whatever the references' values.
\<close>

section \<open>The passes as pure functions\<close>

fun section_size :: "asm_section \<Rightarrow> nat list \<Rightarrow> nat" where
  "section_size (Mark m) marks = 0"
| "section_size (Ops s) marks = sp_end s - sp_start s"
| "section_size (Data s) marks = sp_end s - sp_start s"
| "section_size (MarkRef r) marks =
     (case (set_size r, mark_ref r) of
        (Some n, _) \<Rightarrow> if pushed r then ref_size_num n + 1 else ref_size_num n
      | (None, Direct m) \<Rightarrow> the (ref_compiled_size None (pushed r) (marks ! m))
      | (None, Delta _) \<Rightarrow> 0)"

fun set_mark :: "asm_section \<Rightarrow> nat \<Rightarrow> nat list \<Rightarrow> nat list" where
  "set_mark (Mark m) off marks = marks[m := off]"
| "set_mark _ off marks = marks"

fun pass_sizes :: "asm_section list \<Rightarrow> nat list \<Rightarrow> nat \<Rightarrow> nat list" where
  "pass_sizes [] marks off = []"
| "pass_sizes (s # ss) marks off =
     (let marks = set_mark s off marks; n = section_size s marks in n # pass_sizes ss marks (off + n))"

fun place :: "asm_section list \<Rightarrow> nat list \<Rightarrow> nat list \<Rightarrow> nat \<Rightarrow> nat list" where
  "place (s # ss) (n # ns) marks off = place ss ns (set_mark s off marks) (off + n)"
| "place _ _ marks off = marks"

definition pass_marks :: "asm_section list \<Rightarrow> nat list \<Rightarrow> nat \<Rightarrow> nat list" where
  "pass_marks ss marks off = place ss (pass_sizes ss marks off) marks off"

fun marks_of :: "asm_section list \<Rightarrow> nat list" where
  "marks_of [] = []"
| "marks_of (Mark m # ss) = m # marks_of ss"
| "marks_of (_ # ss) = marks_of ss"

text \<open>The sections treated here: direct references to marks below \<open>k\<close> and well-formed spans.\<close>

fun direct_section :: "nat \<Rightarrow> asm_section \<Rightarrow> bool" where
  "direct_section k (Mark m) \<longleftrightarrow> m < k"
| "direct_section k (Ops s) \<longleftrightarrow> sp_start s \<le> sp_end s"
| "direct_section k (Data s) \<longleftrightarrow> sp_start s \<le> sp_end s"
| "direct_section k (MarkRef r) \<longleftrightarrow> (case mark_ref r of Direct m \<Rightarrow> m < k | Delta _ \<Rightarrow> False)"

definition min_size :: "asm_section \<Rightarrow> nat" where
  "min_size s = (case min_compiled_size s of Some n \<Rightarrow> n | None \<Rightarrow> 0)"

fun slack :: "asm_section \<Rightarrow> nat" where
  "slack (MarkRef r) = (if set_size r = None then 4 else 0)"
| "slack _ = 0"

lemma length_pass_sizes [simp]: "length (pass_sizes ss marks off) = length ss"
  by (induction ss marks off rule: pass_sizes.induct) (simp_all add: Let_def)

lemma length_set_mark [simp]: "length (set_mark s off marks) = length marks"
  by (cases s) simp_all

lemma length_place [simp]: "length (place ss ns marks off) = length marks"
  by (induction ss ns marks off rule: place.induct) simp_all

lemma length_pass_marks [simp]: "length (pass_marks ss marks off) = length marks"
  by (simp add: pass_marks_def)

lemma pass_marks_Cons:
  "pass_marks (s # ss) marks off =
   pass_marks ss (set_mark s off marks) (off + section_size s (set_mark s off marks))"
  by (simp add: pass_marks_def Let_def)

lemma ref_compiled_size_unsized:
  "ref_compiled_size None p v = Some (the (ref_compiled_size None p v))"
  "1 \<le> the (ref_compiled_size None p v)" "the (ref_compiled_size None p v) \<le> 5"
  using ref_size_num_bounds [of "bytes_to_hold v"] by (auto simp: ref_compiled_size_def Let_def)

lemma ref_compiled_size_None: "ref_compiled_size sz p v = None \<Longrightarrow> sz \<noteq> None"
  using ref_compiled_size_unsized(1) [of p v] by (cases sz) auto

lemma bytes_to_hold_mono: "v \<le> w \<Longrightarrow> ref_size_num (bytes_to_hold v) \<le> ref_size_num (bytes_to_hold w)"
  by (simp add: bytes_to_hold_def)

lemma ref_compiled_size_mono:
  "v \<le> w \<Longrightarrow> the (ref_compiled_size None p v) \<le> the (ref_compiled_size None p w)"
  using bytes_to_hold_mono [of v w] ref_size_num_bounds(1) [of "bytes_to_hold w"]
  by (auto simp: ref_compiled_size_def Let_def)

lemma section_size_range:
  assumes "direct_section k s"
  shows "min_compiled_size s = Some (min_size s)"
    and "min_size s \<le> section_size s marks" and "section_size s marks \<le> min_size s + slack s"
  using assms ref_compiled_size_unsized(2,3)
  by (cases s; auto simp: min_size_def idx_sub_idx_def sub_checked_def split: option.splits bool.splits mark_reference.splits)+


section \<open>Monotonicity\<close>

abbreviation le_marks :: "nat list \<Rightarrow> nat list \<Rightarrow> bool" where
  "le_marks \<equiv> list_all2 (\<le>)"

lemma set_mark_mono:
  "le_marks ma mb \<Longrightarrow> off \<le> off' \<Longrightarrow> le_marks (set_mark s off ma) (set_mark s off' mb)"
  by (cases s) (simp_all add: list_all2_update_cong)

lemma section_size_mono:
  assumes "le_marks ma mb" and "direct_section (length ma) s"
  shows "section_size s ma \<le> section_size s mb"
  using assms ref_compiled_size_mono
  by (cases s) (auto simp: list_all2_conv_all_nth split: option.splits mark_reference.splits)

lemma pass_sizes_mono:
  assumes "list_all (direct_section (length ma)) ss" and "le_marks ma mb" and "off \<le> off'"
  shows "list_all2 (\<le>) (pass_sizes ss ma off) (pass_sizes ss mb off')"
  using assms
proof (induction ss arbitrary: ma mb off off')
  case (Cons s ss)
  have marks: "le_marks (set_mark s off ma) (set_mark s off' mb)"
    using Cons.prems by (intro set_mark_mono)
  have "section_size s (set_mark s off ma) \<le> section_size s (set_mark s off' mb)"
    using Cons.prems by (intro section_size_mono marks) simp
  then show ?case
    using Cons.IH [OF _ marks] Cons.prems by (simp add: Let_def)
qed simp

lemma place_mono:
  assumes "list_all2 (\<le>) ns ns'" and "le_marks ma mb" and "off \<le> off'"
  shows "le_marks (place ss ns ma off) (place ss ns' mb off')"
  using assms
proof (induction ss arbitrary: ns ns' ma mb off off')
  case (Cons s ss)
  then show ?case
  proof (cases ns)
    case (Cons n ns1)
    then obtain n' ns1' where ns': "ns' = n' # ns1'" "n \<le> n'" "list_all2 (\<le>) ns1 ns1'"
      using Cons.prems(1) by (cases ns') auto
    show ?thesis
      using Cons.IH [OF ns'(3) set_mark_mono [OF Cons.prems(2,3)], of "off + n" "off' + n'" s]
        Cons.prems(3) ns'(2) unfolding Cons ns' by simp
  qed simp
qed simp

lemma pass_marks_mono:
  assumes "list_all (direct_section (length ma)) ss" and "le_marks ma mb"
  shows "le_marks (pass_marks ss ma off) (pass_marks ss mb off)"
  unfolding pass_marks_def using assms by (intro place_mono pass_sizes_mono) simp_all

section \<open>Settled offsets\<close>

lemma place_other: "m \<notin> set (marks_of ss) \<Longrightarrow> place ss ns marks off ! m = marks ! m"
proof (induction ss ns marks off rule: place.induct)
  case (1 s ss n ns marks off)
  then show ?case
    by (cases s) auto
qed auto

lemma place_idem:
  assumes "distinct (marks_of ss)"
  shows "place ss ns (place ss ns marks off) off = place ss ns marks off"
  using assms
proof (induction ss ns marks off rule: place.induct)
  case (1 s ss n ns marks off)
  let ?placed = "place ss ns (set_mark s off marks) (off + n)"
  have "set_mark s off ?placed = ?placed"
  proof (cases s)
    case (Mark m)
    show ?thesis
    proof (cases "m < length marks")
      case True
      have "?placed ! m = off"
        using 1(2) Mark True by (simp add: place_other)
      then have "?placed[m := ?placed ! m] = ?placed[m := off]"
        by simp
      then show ?thesis
        by (simp add: Mark)
    next
      case False
      then show ?thesis
        by (simp add: Mark list_update_beyond)
    qed
  qed simp_all
  moreover have "distinct (marks_of ss)"
    using 1(2) by (cases s) simp_all
  ultimately show ?case
    using 1(1) by simp
qed auto

lemma pass_marks_fixed:
  assumes "distinct (marks_of ss)" and "pass_sizes ss (pass_marks ss marks off) off = pass_sizes ss marks off"
  shows "pass_marks ss (pass_marks ss marks off) off = pass_marks ss marks off"
  using place_idem [OF assms(1), of "pass_sizes ss marks off" marks off] assms(2) by (simp add: pass_marks_def)

lemma place_fixed_head:
  assumes "distinct (marks_of (s # ss))" and "place (s # ss) (n # ns) marks off = marks"
  shows "set_mark s off marks = marks" and "place ss ns marks (off + n) = marks"
proof -
  show head: "set_mark s off marks = marks"
  proof (cases s)
    case (Mark m)
    show ?thesis
    proof (cases "m < length marks")
      case True
      have "place ss ns (marks[m := off]) (off + n) ! m = off"
        using assms(1) Mark True by (simp add: place_other)
      then have "marks ! m = off"
        using assms(2) Mark by simp
      then show ?thesis
        using Mark by (metis list_update_id set_mark.simps(1))
    next
      case False
      then show ?thesis
        by (simp add: Mark list_update_beyond)
    qed
  qed simp_all
  show "place ss ns marks (off + n) = marks"
    using assms(2) head by simp
qed

section \<open>The passes of the code\<close>

text \<open>The largest code the sections can take.\<close>

definition max_total :: "asm_section list \<Rightarrow> nat" where
  "max_total ss = sum_list (map (\<lambda>s. min_size s + slack s) ss)"

lemma compiled_size_direct:
  assumes "direct_section (length marks) s"
  shows "compiled_size s marks = Some None \<or> compiled_size s marks = Some (Some (section_size s marks))"
  using assms ref_compiled_size_unsized(1)
  by (cases s)
    (auto simp: idx_sub_idx_def sub_checked_def iv_index_def ref_compiled_size_def Let_def
      split: option.splits mark_reference.splits)

lemma converge_pass_direct:
  assumes "list_all (direct_section (length marks)) ss" and "off + max_total ss \<le> u32_max"
  shows "(\<exists>e. converge_pass i ss marks off c = Some (Inl e))
    \<or> (\<exists>c'. converge_pass i ss marks off c = Some (Inr (pass_marks ss marks off, c')))"
  using assms
proof (induction ss arbitrary: i marks off c)
  case Nil
  show ?case
    by (simp add: pass_marks_def)
next
  case (Cons s ss)
  let ?marks = "set_mark s off marks"
  obtain c1 where step: "(case s of Mark m \<Rightarrow>
        do { prev \<leftarrow> iv_index marks m;
             if prev \<noteq> off then do { marks \<leftarrow> iv_set marks m off; Some (marks, False) } else Some (marks, c) }
      | _ \<Rightarrow> Some (marks, c)) = Some (?marks, c1)"
  proof (cases s)
    case (Mark m)
    then show ?thesis
      using that Cons.prems(1)
      by (cases "marks ! m = off") (auto simp: iv_index_def iv_set_def list_update_same_conv)
  qed (use that in auto)
  have direct: "direct_section (length ?marks) s"
    using Cons.prems(1) by simp
  show ?case
  proof (cases "compiled_size s ?marks = Some None")
    case True
    then show ?thesis
      by (simp only: converge_pass.simps step Option.bind.simps prod.case option.case) simp
  next
    case False
    then have n: "compiled_size s ?marks = Some (Some (section_size s ?marks))"
      using compiled_size_direct [OF direct] by blast
    have "section_size s ?marks + max_total ss \<le> max_total (s # ss)"
      using section_size_range(3) [OF direct, of ?marks] by (simp add: max_total_def)
    then have fits: "off + section_size s ?marks + max_total ss \<le> u32_max"
      using Cons.prems(2) by simp
    then have "converge_pass i (s # ss) marks off c
        = converge_pass (i + 1) ss ?marks (off + section_size s ?marks) c1"
      by (simp only: converge_pass.simps step n Option.bind.simps prod.case option.case) (simp add: add_u32_def)
    then show ?thesis
      using Cons.IH [of ?marks "off + section_size s ?marks"] Cons.prems(1) fits
      by (simp add: pass_marks_Cons)
  qed
qed

lemma converge_pass_fixed:
  assumes "list_all (direct_section (length marks)) ss" and "off + max_total ss \<le> u32_max"
    and "distinct (marks_of ss)" and "pass_marks ss marks off = marks"
  shows "(\<exists>e. converge_pass i ss marks off c = Some (Inl e))
    \<or> converge_pass i ss marks off c = Some (Inr (marks, c))"
  using assms
proof (induction ss arbitrary: i off)
  case (Cons s ss)
  let ?n = "section_size s marks"
  have head: "set_mark s off marks = marks"
    using place_fixed_head(1) [OF Cons.prems(3), of _ _ marks off] Cons.prems(4)
    by (simp add: pass_marks_def Let_def)
  then have rest: "pass_marks ss marks (off + ?n) = marks"
    using Cons.prems(4) by (simp add: pass_marks_Cons)
  have step: "(case s of Mark m \<Rightarrow>
        do { prev \<leftarrow> iv_index marks m;
             if prev \<noteq> off then do { marks \<leftarrow> iv_set marks m off; Some (marks, False) } else Some (marks, c) }
      | _ \<Rightarrow> Some (marks, c)) = Some (marks, c)"
    using Cons.prems(1) head
    by (cases s) (auto simp: iv_index_def bind_Some list_update_same_conv)
  have direct: "direct_section (length marks) s"
    using Cons.prems(1) by simp
  show ?case
  proof (cases "compiled_size s marks = Some None")
    case True
    then show ?thesis
      by (simp only: converge_pass.simps step Option.bind.simps prod.case option.case) simp
  next
    case False
    then have n: "compiled_size s marks = Some (Some ?n)"
      using compiled_size_direct [OF direct] by blast
    have "?n + max_total ss \<le> max_total (s # ss)"
      using section_size_range(3) [OF direct, of marks] by (simp add: max_total_def)
    then have fits: "off + ?n + max_total ss \<le> u32_max"
      using Cons.prems(2) by simp
    then have "converge_pass i (s # ss) marks off c = converge_pass (i + 1) ss marks (off + ?n) c"
      by (simp only: converge_pass.simps step n Option.bind.simps prod.case option.case) (simp add: add_u32_def)
    moreover have "distinct (marks_of ss)"
      using Cons.prems(3) by (cases s) simp_all
    ultimately show ?thesis
      using Cons.IH [of "off + ?n"] Cons.prems(1) fits rest by simp
  qed
qed simp


section \<open>The loop\<close>

lemma sum_list_le_eq:
  "list_all2 (\<le>) xs ys \<Longrightarrow> sum_list xs \<le> sum_list (ys :: nat list)"
  "list_all2 (\<le>) xs ys \<Longrightarrow> sum_list xs = sum_list ys \<Longrightarrow> xs = ys"
proof -
  show le: "sum_list xs \<le> sum_list ys" if "list_all2 (\<le>) xs ys" for xs ys :: "nat list"
    using that by (induction rule: list_all2_induct) simp_all
  show "list_all2 (\<le>) xs ys \<Longrightarrow> sum_list xs = sum_list ys \<Longrightarrow> xs = ys"
  proof (induction rule: list_all2_induct)
    case (Cons x xs y ys)
    then show ?case
      using le [of xs ys] by simp
  qed simp
qed

lemma sum_pass_sizes_le:
  "list_all (direct_section (length marks)) ss \<Longrightarrow> sum_list (pass_sizes ss marks off) \<le> max_total ss"
proof (induction ss arbitrary: marks off)
  case (Cons s ss)
  let ?marks = "set_mark s off marks"
  have "section_size s ?marks \<le> min_size s + slack s"
    using Cons.prems by (intro section_size_range(3) [of "length marks"]) simp
  moreover have "sum_list (pass_sizes ss ?marks (off + section_size s ?marks)) \<le> max_total ss"
    using Cons by simp
  ultimately show ?case
    by (simp add: max_total_def Let_def)
qed (simp add: max_total_def)

text \<open>
  The measure of the loop is the room left for references to grow: a pass that moves a mark and
  leaves all sizes alone is followed by one that moves nothing.
\<close>

lemma converge_loop_direct:
  assumes direct: "list_all (direct_section (length marks)) ss" and distinct: "distinct (marks_of ss)"
    and total: "max_total ss \<le> u32_max" and start: "le_marks marks (pass_marks ss marks 0)"
    and fuel: "max_total ss - sum_list (pass_sizes ss marks 0) + 2 \<le> iters"
  shows "converge_loop iters ss marks \<noteq> None"
  using direct start fuel
proof (induction iters arbitrary: marks)
  case (Suc iters)
  let ?next = "pass_marks ss marks 0"
  consider e where "converge_pass 0 ss marks 0 True = Some (Inl e)"
    | c where "converge_pass 0 ss marks 0 True = Some (Inr (?next, c))"
    using converge_pass_direct [OF Suc.prems(1), of 0 0 True] total by auto
  then show ?case
  proof cases
    case (2 c)
    show ?thesis
    proof (cases c)
      case False
      have next_direct: "list_all (direct_section (length ?next)) ss"
        using Suc.prems(1) by simp
      have sizes: "list_all2 (\<le>) (pass_sizes ss marks 0) (pass_sizes ss ?next 0)"
        using Suc.prems(1,2) by (intro pass_sizes_mono) simp_all
      have next_start: "le_marks ?next (pass_marks ss ?next 0)"
        using Suc.prems(1,2) by (intro pass_marks_mono) simp_all
      have "converge_loop iters ss ?next \<noteq> None"
      proof (cases "sum_list (pass_sizes ss marks 0) = sum_list (pass_sizes ss ?next 0)")
        case True
        then have "pass_sizes ss ?next 0 = pass_sizes ss marks 0"
          using sum_list_le_eq(2) [OF sizes] by simp
        then have "pass_marks ss ?next 0 = ?next"
          by (rule pass_marks_fixed [OF distinct])
        then have fixed: "(\<exists>e. converge_pass 0 ss ?next 0 True = Some (Inl e))
            \<or> converge_pass 0 ss ?next 0 True = Some (Inr (?next, True))"
          using next_direct total distinct by (intro converge_pass_fixed) simp_all
        obtain k where "iters = Suc k"
          using Suc.prems(3) by (cases iters) simp_all
        then show ?thesis
          using fixed by auto
      next
        case False
        then have "sum_list (pass_sizes ss marks 0) < sum_list (pass_sizes ss ?next 0)"
          using sum_list_le_eq(1) [OF sizes] by simp
        moreover have "sum_list (pass_sizes ss ?next 0) \<le> max_total ss"
          by (rule sum_pass_sizes_le [OF next_direct])
        ultimately show ?thesis
          using Suc.prems(3) by (intro Suc.IH next_direct next_start) simp
      qed
      then show ?thesis
        using 2 False by simp
    qed (use 2 in simp)
  qed simp
qed simp

section \<open>The initial offsets\<close>

text \<open>What \<open>Vec::reserve\<close> guarantees about the capacity.\<close>

definition reserve_contract :: "(nat \<Rightarrow> nat \<Rightarrow> nat) \<Rightarrow> bool" where
  "reserve_contract cap \<longleftrightarrow> (\<forall>len additional. len + additional \<le> cap len additional)"

lemma init_offsets_place:
  assumes "reserve_contract cap" and "list_all (direct_section k) ss" and "distinct (marks_of ss)"
    and "off + max_total ss \<le> u32_max"
  shows "\<exists>marks'. init_offsets cap ss marks off = Some marks'
    \<and> length marks \<le> length marks'
    \<and> (\<forall>m < length marks. m \<notin> set (marks_of ss) \<longrightarrow> marks' ! m = marks ! m)
    \<and> (\<forall>m \<in> set (marks_of ss). m < length marks')
    \<and> place ss (map min_size ss) marks' off = marks'"
  using assms(2-)
proof (induction ss arbitrary: marks off)
  case (Cons s ss)
  let ?n = "min_size s"
  define marks1 where "marks1 =
    (case s of Mark m \<Rightarrow> (resize (cap (length marks) ((m + 1) - length marks)) 0 marks)[m := off] | _ \<Rightarrow> marks)"
  have room: "length marks + ((m + 1) - length marks) \<le> cap (length marks) ((m + 1) - length marks)" for m
    using assms(1) by (simp add: reserve_contract_def)
  have in_cap: "m < cap (length marks) x" if "m < length marks" for m x
    using assms(1) that unfolding reserve_contract_def by (meson add_leD1 less_le_trans)
  have longer: "length marks \<le> length marks1"
    using room by (auto simp: marks1_def split: asm_section.splits) (meson add_leD1)
  have own: "m < length marks1 \<and> marks1 ! m = off" if "s = Mark m" for m
    using room [of m] that by (simp add: marks1_def)
  have step: "(case s of
        Mark m \<Rightarrow>
          do { let additional = (m + 1) - length marks;
               let marks = resize (cap (length marks) additional) 0 marks;
               iv_set marks m off }
      | _ \<Rightarrow> Some marks) = Some marks1"
    using own by (cases s) (auto simp: marks1_def iv_set_def Let_def)
  have direct: "direct_section k s"
    using Cons.prems(1) by simp
  have n: "min_compiled_size s = Some ?n"
    by (rule section_size_range(1) [OF direct])
  have fits: "off + ?n + max_total ss \<le> u32_max"
    using Cons.prems(3) by (simp add: max_total_def)
  have "distinct (marks_of ss)" and fresh: "\<forall>m. s = Mark m \<longrightarrow> m \<notin> set (marks_of ss)"
    using Cons.prems(2) by (cases s; simp)+
  then obtain marks' where marks': "init_offsets cap ss marks1 (off + ?n) = Some marks'"
      "length marks1 \<le> length marks'" "\<forall>m < length marks1. m \<notin> set (marks_of ss) \<longrightarrow> marks' ! m = marks1 ! m"
      "\<forall>m \<in> set (marks_of ss). m < length marks'" "place ss (map min_size ss) marks' (off + ?n) = marks'"
    using Cons.IH [of "off + ?n" marks1] Cons.prems(1) fits by auto
  have "init_offsets cap (s # ss) marks off = Some marks'"
    using marks'(1) fits by (simp only: init_offsets.simps step n Option.bind.simps) (simp add: add_u32_def)
  moreover have "marks1 ! m = marks ! m" if "m < length marks" "m \<notin> set (marks_of (s # ss))" for m
    using that in_cap by (cases s) (auto simp: marks1_def nth_resize)
  moreover have "set_mark s off marks' = marks'"
    using own fresh marks'(2,3) by (cases s) (auto simp: list_update_same_conv)
  moreover have "\<forall>m \<in> set (marks_of (s # ss)). m < length marks'"
    using own marks'(2,4) by (cases s) auto
  moreover have "m \<notin> set (marks_of ss)" if "m \<notin> set (marks_of (s # ss))" for m
    using that by (cases s) auto
  ultimately show ?case
    using marks' longer by auto
qed simp


section \<open>Assembling returns\<close>

lemma converge_pass_error:
  "converge_pass i ss marks off c = Some (Inl (RefHasTooSmallSetSize j)) \<Longrightarrow>
   \<exists>k r. j = i + k \<and> k < length ss \<and> ss ! k = MarkRef r \<and> set_size r \<noteq> None"
proof (induction i ss marks off c rule: converge_pass.induct)
  case (2 i s ss marks off c)
  obtain marks1 c1 n where
    step: "(case s of Mark m \<Rightarrow>
        do { prev \<leftarrow> iv_index marks m;
             if prev \<noteq> off then do { marks \<leftarrow> iv_set marks m off; Some (marks, False) } else Some (marks, c) }
      | _ \<Rightarrow> Some (marks, c)) = Some (marks1, c1)"
    and n: "compiled_size s marks1 = Some n"
    using "2.prems" by (auto simp: bind_Some)
  show ?case
  proof (cases n)
    case None
    then obtain r where "s = MarkRef r" "set_size r \<noteq> None"
      using n
      by (cases s) (auto simp: idx_sub_idx_def sub_checked_def bind_Some dest: ref_compiled_size_None split: if_splits)
    moreover have "j = i"
      using "2.prems" n None by (simp only: converge_pass.simps step Option.bind.simps prod.case option.case) simp
    ultimately show ?thesis
      by (intro exI [of _ 0]) simp
  next
    case (Some sz)
    then obtain off' where off': "add_u32 off sz = Some off'"
      and rest: "converge_pass (i + 1) ss marks1 off' c1 = Some (Inl (RefHasTooSmallSetSize j))"
      using "2.prems" n
      by (simp only: converge_pass.simps step Option.bind.simps prod.case option.case) (auto simp: bind_Some)
    obtain k r where "j = i + 1 + k" "k < length ss" "ss ! k = MarkRef r" "set_size r \<noteq> None"
      using "2.IH" [OF step _ n Some off' rest] by auto
    then show ?thesis
      by (intro exI [of _ "Suc k"]) auto
  qed
qed simp

lemma converge_loop_error:
  "converge_loop iters ss marks = Some (Inl (RefHasTooSmallSetSize j)) \<Longrightarrow>
   \<exists>r. j < length ss \<and> ss ! j = MarkRef r \<and> set_size r \<noteq> None"
proof (induction iters arbitrary: marks)
  case (Suc iters)
  then show ?case
    by (auto simp: bind_Some case_sum_Inl split: if_splits dest: converge_pass_error)
qed simp

lemma tiles_spans:
  "tiles pos ss n \<Longrightarrow> (\<forall>s \<in> set ss. \<forall>sp. s = Ops sp \<or> s = Data sp \<longrightarrow> sp_start sp \<le> sp_end sp \<and> sp_end sp \<le> n)
   \<and> pos + max_total ss \<le> n + 5 * length ss"
proof (induction pos ss n rule: tiles.induct [case_names Nil Ops Data Mark MarkRef])
  case (Ops pos s ss n)
  then show ?case
    using tiles_le [of "sp_end s" ss n]
    by (auto simp: max_total_def min_size_def idx_sub_idx_def sub_checked_def)
next
  case (Data pos s ss n)
  then show ?case
    using tiles_le [of "sp_end s" ss n]
    by (auto simp: max_total_def min_size_def idx_sub_idx_def sub_checked_def)
next
  case (MarkRef pos r ss n)
  have "min_size (MarkRef r) + slack (MarkRef r) \<le> 5"
    using ref_size_num_bounds(2) [of "the (set_size r)"]
    by (auto simp: min_size_def split: option.splits bool.splits)
  then show ?case
    using MarkRef by (auto simp: max_total_def)
qed (auto simp: max_total_def min_size_def)

definition unsized_ref :: "asm_section \<Rightarrow> bool" where
  "unsized_ref s = (case s of MarkRef r \<Rightarrow> set_size r = None | _ \<Rightarrow> False)"

lemma max_total_slack:
  "max_total ss = sum_list (map min_size ss) + 4 * length (filter unsized_ref ss)"
proof (induction ss)
  case (Cons s ss)
  then show ?case
    by (cases s) (auto simp: max_total_def unsized_ref_def)
qed (simp add: max_total_def)

lemma min_le_pass_sizes:
  "list_all (direct_section (length marks)) ss \<Longrightarrow> list_all2 (\<le>) (map min_size ss) (pass_sizes ss marks off)"
proof (induction ss arbitrary: marks off)
  case (Cons s ss)
  have "direct_section (length marks) s"
    using Cons.prems by simp
  then show ?case
    using Cons section_size_range(2) by (simp add: Let_def)
qed simp

lemma marks_of_set: "m \<in> set (marks_of ss) \<longleftrightarrow> Mark m \<in> set ss"
  by (induction ss rule: marks_of.induct) auto

lemma settled_marks: "settled marks off ss \<Longrightarrow> Mark m \<in> set ss \<Longrightarrow> m < length marks"
  by (induction ss arbitrary: off) auto

lemma emit_section_total:
  assumes "direct_section (length marks) s" and "compiled_size s marks = Some (Some n)"
    and "\<forall>sp. s = Ops sp \<or> s = Data sp \<longrightarrow> sp_start sp \<le> sp_end sp \<and> sp_end sp \<le> length bytes"
  shows "\<exists>piece. emit_section bytes marks s = Some piece"
proof (cases s)
  case (MarkRef r)
  then obtain m where m: "mark_ref r = Direct m" "m < length marks"
    using assms(1) by (auto split: mark_reference.splits)
  then have size: "ref_compiled_size (set_size r) (pushed r) (marks ! m) = Some n"
    using assms(2) MarkRef by (simp add: iv_index_def)
  then show ?thesis
    using m MarkRef be_bytes_of_le [OF ref_size_num_bounds(2)]
    by (cases "set_size r") (auto simp: iv_index_def ref_compiled_size_def Let_def not_less split: if_splits)
qed (use assms(3) in \<open>auto simp: iv_index_span_def slice_of_Some\<close>)

lemma emit_total:
  assumes "settled marks off ss" and "list_all (direct_section (length marks)) ss"
    and "\<forall>s \<in> set ss. \<forall>sp. s = Ops sp \<or> s = Data sp \<longrightarrow> sp_start sp \<le> sp_end sp \<and> sp_end sp \<le> length bytes"
  shows "\<exists>out. fold_panics (\<lambda>s result. do { piece \<leftarrow> emit_section bytes marks s; Some (result @ piece) }) ss result = Some out"
  using assms
proof (induction ss arbitrary: off result)
  case (Cons s ss)
  then obtain n where n: "compiled_size s marks = Some (Some n)" "settled marks (off + n) ss"
    by auto
  obtain piece where "emit_section bytes marks s = Some piece"
    using emit_section_total [OF _ n(1)] Cons.prems(2,3) by fastforce
  then show ?case
    using Cons.IH [OF n(2)] Cons.prems(2,3) by simp
qed simp



text \<open>The sections of a jump over a byte: \<open>PUSH .mark0; 0x5b; .mark0: 0x5b\<close>.\<close>

definition jump_asm :: assembler where
  "jump_asm = \<lparr>asm_bytes = [0x5b, 0x5b],
     asm_sections = [SDirectMarkRef \<lparr>dr_id = 0, dr_set_size = None, dr_pushed = True\<rparr>,
                     SOps \<lparr>sp_start = 0, sp_end = 1\<rparr>, SMark 0, SOps \<lparr>sp_start = 1, sp_end = 2\<rparr>]\<rparr>"

lemma jump_asm_wf: "asm_wf jump_asm"
  by (simp add: jump_asm_def asm_wf_def iter_sections_def is_idx_def u32_max_def)

lemma reserve_contract_exact: "reserve_contract (+)"
  by (simp add: reserve_contract_def)


lemma jump_asm_code: "assemble (+) jump_asm [] (Some 1) = Some (Inr ([3], [0x60, 3, 0x5b, 0x5b]))"
proof -
  obtain k where iters: "MAX_ASSEMBLER_CONVERGENCE_ITERS = Suc (Suc k)"
    by (metis MAX_ASSEMBLER_CONVERGENCE_ITERS_def numeral_eq_Suc pred_numeral_simps(2) pred_numeral_simps(3))
  have sections: "iter_sections jump_asm =
      [MarkRef \<lparr>mark_ref = Direct 0, set_size = None, pushed = True\<rparr>,
       Ops \<lparr>sp_start = 0, sp_end = 1\<rparr>, Mark 0, Ops \<lparr>sp_start = 1, sp_end = 2\<rparr>]"
    by (simp add: jump_asm_def iter_sections_def)
  show ?thesis
    unfolding assemble_def converge_mark_offsets_def iters sections
    by (simp add: idx_sub_idx_def sub_checked_def add_u32_def iv_index_def iv_set_def u32_max_def resize_def
        ref_compiled_size_def bytes_to_hold_def jump_asm_def iv_index_span_def slice_of_def
        u32_to_le_bytes_def op_defs)
qed

lemma assemble_code_witness:
  "\<exists>code. [0x60, 3, 0x5b, 0x5b] = [] @ code \<and> laid_out [3] 0 (asm_items jump_asm) code"
  by (rule assemble_code [OF jump_asm_code])

lemma push_exchange_exchanges_witness:
  "\<exists>a' code. push_exchange jump_asm 1 2 = Some a' \<and> asm_wf a' \<and> asm_items a' = asm_items jump_asm @ code
     \<and> exec_swaps code [10, 11, 12 :: nat] = Some [10, 12, 11]"
  using push_exchange_exchanges [OF jump_asm_wf, of 1 2, where 'v = nat]
  by (fastforce simp: is_idx_def u32_max_def jump_asm_def list_swap_def)

lemma push_minimal_u256_minimal_witness:
  "\<exists>a' op imm. push_minimal_u256 jump_asm 0x1234 = Some a' \<and> asm_wf a'
     \<and> asm_items a' = asm_items jump_asm @ map OpByte (op # imm)
     \<and> push_imm op = Some (length imm) \<and> be_value imm = 0x1234 \<and> (imm \<noteq> [] \<longrightarrow> hd imm \<noteq> 0)"
  using push_minimal_u256_minimal [OF jump_asm_wf, of "0x1234"]
  by (simp add: is_idx_def u32_max_def jump_asm_def)

lemma assembler_builds_stream_witness:
  "\<exists>a'. push_data jump_asm [1, 2] = Some a' \<and> asm_wf a' \<and> asm_items a' = asm_items jump_asm @ map DataByte [1, 2]"
proof -
  have "is_idx (length (asm_bytes jump_asm) + length [1 :: u8, 2])"
    by (simp add: is_idx_def u32_max_def jump_asm_def)
  then show ?thesis
    using assembler_builds_stream [OF jump_asm_wf, where data = "[1, 2]"] by blast
qed

end
