(* ===== verification/Sir_Operation.thy ===== *)
theory Sir_Operation
  imports Evm_Op Idx_Span
begin

text \<open>
  The operations of the Sensei IR (\<open>sir/crates/data/src/operation/mod.rs\<close>, \<open>op_data.rs\<close>).  The
  table of the macro \<open>define_operations!\<close> is \<open>operation_table\<close>: each kind with the type of its data
  and its mnemonic.  An operation is a kind together with its data; \<open>well_typed\<close> says that the data
  has the type the table gives, which the Rust type of \<open>Operation\<close> guarantees.
\<close>

section \<open>Kinds\<close>

datatype (plugins only:) operation_kind =
    KAdd | KMul | KSub | KDiv | KSDiv | KMod | KSMod | KAddMod | KMulMod | KExp | KSignExtend
    | KLt | KGt | KSLt | KSGt | KEq | KIsZero | KAnd | KOr | KXor | KNot | KByte | KShl | KShr
    | KSar
    | KKeccak256
    | KAddress | KBalance | KOrigin | KCaller | KCallValue | KCallDataLoad | KCallDataSize
    | KCallDataCopy | KCodeSize | KCodeCopy | KGasPrice | KExtCodeSize | KExtCodeCopy
    | KReturnDataSize | KReturnDataCopy | KExtCodeHash | KGas
    | KBlockHash | KCoinbase | KTimestamp | KNumber | KDifficulty | KGasLimit | KChainId
    | KSelfBalance | KBaseFee | KBlobHash | KBlobBaseFee
    | KSLoad | KSStore | KTLoad | KTStore
    | KLog0 | KLog1 | KLog2 | KLog3 | KLog4
    | KCreate | KCreate2 | KCall | KCallCode | KDelegateCall | KStaticCall | KReturn | KStop
    | KRevert | KInvalid | KSelfDestruct
    | KDynamicAllocZeroed | KDynamicAllocAnyBytes | KAcquireFreePointer | KStaticAllocZeroed
    | KStaticAllocAnyBytes
    | KMemoryCopy | KMemoryLoad | KMemoryStore
    | KSetCopy | KSetSmallConst | KSetLargeConst | KSetDataOffset | KNoop
    | KInternalCall
    | KRuntimeStartOffset | KInitEndOffset | KRuntimeLength

text \<open>The types of operation data, with the sizes of their operand arrays.\<close>

datatype op_shape =
    InlineShape nat nat
  | AllocatedShape nat nat
  | StaticAllocShape
  | MemoryLoadShape
  | MemoryStoreShape
  | SetSmallConstShape
  | SetLargeConstShape
  | SetDataOffsetShape
  | InternalCallShape
  | VoidShape

definition operation_table :: "(operation_kind \<times> op_shape \<times> string) list" where
  "operation_table =
     [(KAdd, InlineShape 2 1, ''add''),
      (KMul, InlineShape 2 1, ''mul''),
      (KSub, InlineShape 2 1, ''sub''),
      (KDiv, InlineShape 2 1, ''div''),
      (KSDiv, InlineShape 2 1, ''sdiv''),
      (KMod, InlineShape 2 1, ''mod''),
      (KSMod, InlineShape 2 1, ''smod''),
      (KAddMod, AllocatedShape 3 1, ''addmod''),
      (KMulMod, AllocatedShape 3 1, ''mulmod''),
      (KExp, InlineShape 2 1, ''exp''),
      (KSignExtend, InlineShape 2 1, ''signextend''),
      (KLt, InlineShape 2 1, ''lt''),
      (KGt, InlineShape 2 1, ''gt''),
      (KSLt, InlineShape 2 1, ''slt''),
      (KSGt, InlineShape 2 1, ''sgt''),
      (KEq, InlineShape 2 1, ''eq''),
      (KIsZero, InlineShape 1 1, ''iszero''),
      (KAnd, InlineShape 2 1, ''and''),
      (KOr, InlineShape 2 1, ''or''),
      (KXor, InlineShape 2 1, ''xor''),
      (KNot, InlineShape 1 1, ''not''),
      (KByte, InlineShape 2 1, ''byte''),
      (KShl, InlineShape 2 1, ''shl''),
      (KShr, InlineShape 2 1, ''shr''),
      (KSar, InlineShape 2 1, ''sar''),
      (KKeccak256, InlineShape 2 1, ''keccak256''),
      (KAddress, InlineShape 0 1, ''address''),
      (KBalance, InlineShape 1 1, ''balance''),
      (KOrigin, InlineShape 0 1, ''origin''),
      (KCaller, InlineShape 0 1, ''caller''),
      (KCallValue, InlineShape 0 1, ''callvalue''),
      (KCallDataLoad, InlineShape 1 1, ''calldataload''),
      (KCallDataSize, InlineShape 0 1, ''calldatasize''),
      (KCallDataCopy, InlineShape 3 0, ''calldatacopy''),
      (KCodeSize, InlineShape 0 1, ''codesize''),
      (KCodeCopy, InlineShape 3 0, ''codecopy''),
      (KGasPrice, InlineShape 0 1, ''gasprice''),
      (KExtCodeSize, InlineShape 1 1, ''extcodesize''),
      (KExtCodeCopy, AllocatedShape 4 0, ''extcodecopy''),
      (KReturnDataSize, InlineShape 0 1, ''returndatasize''),
      (KReturnDataCopy, InlineShape 3 0, ''returndatacopy''),
      (KExtCodeHash, InlineShape 1 1, ''extcodehash''),
      (KGas, InlineShape 0 1, ''gas''),
      (KBlockHash, InlineShape 1 1, ''blockhash''),
      (KCoinbase, InlineShape 0 1, ''coinbase''),
      (KTimestamp, InlineShape 0 1, ''timestamp''),
      (KNumber, InlineShape 0 1, ''number''),
      (KDifficulty, InlineShape 0 1, ''difficulty''),
      (KGasLimit, InlineShape 0 1, ''gaslimit''),
      (KChainId, InlineShape 0 1, ''chainid''),
      (KSelfBalance, InlineShape 0 1, ''selfbalance''),
      (KBaseFee, InlineShape 0 1, ''basefee''),
      (KBlobHash, InlineShape 1 1, ''blobhash''),
      (KBlobBaseFee, InlineShape 0 1, ''blobbasefee''),
      (KSLoad, InlineShape 1 1, ''sload''),
      (KSStore, InlineShape 2 0, ''sstore''),
      (KTLoad, InlineShape 1 1, ''tload''),
      (KTStore, InlineShape 2 0, ''tstore''),
      (KLog0, InlineShape 2 0, ''log0''),
      (KLog1, InlineShape 3 0, ''log1''),
      (KLog2, AllocatedShape 4 0, ''log2''),
      (KLog3, AllocatedShape 5 0, ''log3''),
      (KLog4, AllocatedShape 6 0, ''log4''),
      (KCreate, AllocatedShape 3 1, ''create''),
      (KCreate2, AllocatedShape 4 1, ''create2''),
      (KCall, AllocatedShape 7 1, ''call''),
      (KCallCode, AllocatedShape 7 1, ''callcode''),
      (KDelegateCall, AllocatedShape 6 1, ''delegatecall''),
      (KStaticCall, AllocatedShape 6 1, ''staticcall''),
      (KReturn, InlineShape 2 0, ''return''),
      (KStop, VoidShape, ''stop''),
      (KRevert, InlineShape 2 0, ''revert''),
      (KInvalid, VoidShape, ''invalid''),
      (KSelfDestruct, InlineShape 1 0, ''selfdestruct''),
      (KDynamicAllocZeroed, InlineShape 1 1, ''malloc''),
      (KDynamicAllocAnyBytes, InlineShape 1 1, ''mallocany''),
      (KAcquireFreePointer, InlineShape 0 1, ''freeptr''),
      (KStaticAllocZeroed, StaticAllocShape, ''salloc''),
      (KStaticAllocAnyBytes, StaticAllocShape, ''sallocany''),
      (KMemoryCopy, InlineShape 3 0, ''mcopy''),
      (KMemoryLoad, MemoryLoadShape, ''mload''),
      (KMemoryStore, MemoryStoreShape, ''mstore''),
      (KSetCopy, InlineShape 1 1, ''copy''),
      (KSetSmallConst, SetSmallConstShape, ''const''),
      (KSetLargeConst, SetLargeConstShape, ''large_const''),
      (KSetDataOffset, SetDataOffsetShape, ''data_offset''),
      (KNoop, VoidShape, ''noop''),
      (KInternalCall, InternalCallShape, ''icall''),
      (KRuntimeStartOffset, InlineShape 0 1, ''runtime_start_offset''),
      (KInitEndOffset, InlineShape 0 1, ''init_end_offset''),
      (KRuntimeLength, InlineShape 0 1, ''runtime_length'')]"

definition operation_shape :: "operation_kind \<Rightarrow> op_shape" where
  "operation_shape k = fst (the (map_of operation_table k))"

definition mnemonic :: "operation_kind \<Rightarrow> string" where
  "mnemonic k = snd (the (map_of operation_table k))"

text \<open>\<open>FromStr\<close>: the arms of the match are the mnemonics in the order of the table.\<close>

definition kind_from_str :: "string \<Rightarrow> operation_kind option" where
  "kind_from_str s = map_of (map (\<lambda>(k, _, m). (m, k)) operation_table) s"

definition is_terminating :: "operation_kind \<Rightarrow> bool" where
  "is_terminating k \<longleftrightarrow> k \<in> {KReturn, KStop, KRevert, KInvalid, KSelfDestruct}"

definition is_removable_when_unused :: "operation_kind \<Rightarrow> bool" where
  "is_removable_when_unused k \<longleftrightarrow> k \<in>
     {KAdd, KMul, KSub, KDiv, KSDiv, KMod, KSMod, KAddMod, KMulMod, KExp, KSignExtend, KLt, KGt,
      KSLt, KSGt, KEq, KIsZero, KAnd, KOr, KXor, KNot, KByte, KShl, KShr, KSar, KKeccak256,
      KAddress, KBalance, KOrigin, KCaller, KCallValue, KCallDataLoad, KCallDataSize, KCodeSize,
      KGasPrice, KExtCodeSize, KReturnDataSize, KExtCodeHash, KBlockHash, KCoinbase, KTimestamp,
      KNumber, KDifficulty, KGasLimit, KChainId, KSelfBalance, KBaseFee, KBlobHash,
      KBlobBaseFee, KSLoad, KTLoad, KDynamicAllocZeroed, KDynamicAllocAnyBytes,
      KAcquireFreePointer, KStaticAllocZeroed, KStaticAllocAnyBytes, KMemoryLoad, KSetCopy,
      KSetSmallConst, KSetLargeConst, KSetDataOffset, KNoop, KRuntimeStartOffset,
      KInitEndOffset, KRuntimeLength}"

definition literal_evm_ops :: "(operation_kind \<times> u8) list" where
  "literal_evm_ops =
     [(KAdd, op_ADD), (KMul, op_MUL), (KSub, op_SUB), (KDiv, op_DIV), (KSDiv, op_SDIV),
      (KMod, op_MOD), (KSMod, op_SMOD), (KAddMod, op_ADDMOD), (KMulMod, op_MULMOD),
      (KExp, op_EXP), (KSignExtend, op_SIGNEXTEND), (KLt, op_LT), (KGt, op_GT), (KSLt, op_SLT),
      (KSGt, op_SGT), (KEq, op_EQ), (KIsZero, op_ISZERO), (KAnd, op_AND), (KOr, op_OR),
      (KXor, op_XOR), (KNot, op_NOT), (KByte, op_BYTE), (KShl, op_SHL), (KShr, op_SHR),
      (KSar, op_SAR), (KKeccak256, op_KECCAK256), (KAddress, op_ADDRESS),
      (KBalance, op_BALANCE), (KOrigin, op_ORIGIN), (KCaller, op_CALLER),
      (KCallValue, op_CALLVALUE), (KCallDataLoad, op_CALLDATALOAD),
      (KCallDataSize, op_CALLDATASIZE), (KCallDataCopy, op_CALLDATACOPY),
      (KCodeSize, op_CODESIZE), (KCodeCopy, op_CODECOPY), (KGasPrice, op_GASPRICE),
      (KExtCodeSize, op_EXTCODESIZE), (KExtCodeCopy, op_EXTCODECOPY),
      (KReturnDataSize, op_RETURNDATASIZE), (KReturnDataCopy, op_RETURNDATACOPY),
      (KExtCodeHash, op_EXTCODEHASH), (KGas, op_GAS), (KBlockHash, op_BLOCKHASH),
      (KCoinbase, op_COINBASE), (KTimestamp, op_TIMESTAMP), (KNumber, op_NUMBER),
      (KDifficulty, op_PREVRANDAO), (KGasLimit, op_GASLIMIT), (KChainId, op_CHAINID),
      (KSelfBalance, op_SELFBALANCE), (KBaseFee, op_BASEFEE), (KBlobHash, op_BLOBHASH),
      (KBlobBaseFee, op_BLOBBASEFEE), (KSLoad, op_SLOAD), (KSStore, op_SSTORE),
      (KTLoad, op_TLOAD), (KTStore, op_TSTORE), (KMemoryCopy, op_MCOPY), (KLog0, op_LOG0),
      (KLog1, op_LOG1), (KLog2, op_LOG2), (KLog3, op_LOG3), (KLog4, op_LOG4),
      (KCreate, op_CREATE), (KCreate2, op_CREATE2), (KCall, op_CALL), (KCallCode, op_CALLCODE),
      (KDelegateCall, op_DELEGATECALL), (KStaticCall, op_STATICCALL), (KReturn, op_RETURN),
      (KStop, op_STOP), (KRevert, op_REVERT), (KInvalid, op_INVALID),
      (KSelfDestruct, op_SELFDESTRUCT)]"

text \<open>The kinds without an entry are the ones the source maps to \<open>None\<close>.\<close>

definition as_literal_evm_op :: "operation_kind \<Rightarrow> u8 option" where
  "as_literal_evm_op k = map_of literal_evm_ops k"

text \<open>\<open>stack-scheduling/src/op_model.rs\<close>: the binary operations the scheduler may flip.\<close>

definition is_flippable :: "operation_kind \<Rightarrow> bool" where
  "is_flippable k \<longleftrightarrow> k \<in>
     {KAdd, KMul, KAddMod, KMulMod, KLt, KGt, KSLt, KSGt, KEq, KAnd, KOr, KXor}"

section \<open>The table\<close>

lemma table_kinds_distinct: "distinct (map fst operation_table)"
  by (simp add: operation_table_def)

lemma table_mnemonics_distinct: "distinct (map (\<lambda>(_, _, m). m) operation_table)"
  by (simp add: operation_table_def)

lemma table_kinds_complete: "k \<in> set (map fst operation_table)"
  by (cases k) (simp_all add: operation_table_def)

lemma table_row: "(k, operation_shape k, mnemonic k) \<in> set operation_table"
proof -
  obtain row where "map_of operation_table k = Some row"
    using table_kinds_complete [of k] by (metis (no_types) map_of_eq_None_iff not_None_eq set_map)
  then show ?thesis
    by (auto simp: operation_shape_def mnemonic_def dest: map_of_SomeD)
qed

lemma table_rowD: "(k, sh, m) \<in> set operation_table \<Longrightarrow> sh = operation_shape k \<and> m = mnemonic k"
  using table_kinds_distinct by (auto simp: operation_shape_def mnemonic_def)

text \<open>
  Mnemonics and kinds are in bijection: the mnemonic of every operation kind parses back to the
  kind, and a string that parses is exactly the mnemonic of the result.
\<close>

theorem mnemonic_roundtrip: "kind_from_str s = Some k \<longleftrightarrow> s = mnemonic k"
proof
  assume "kind_from_str s = Some k"
  then show "s = mnemonic k"
    by (auto simp: kind_from_str_def dest!: map_of_SomeD table_rowD)
next
  let ?rows = "map (\<lambda>(k, _, m). (m, k)) operation_table"
  assume "s = mnemonic k"
  then have "(s, k) \<in> set ?rows"
    using table_row [of k] by force
  moreover have "distinct (map fst ?rows)"
    using table_mnemonics_distinct by (simp add: o_def case_prod_unfold)
  ultimately show "kind_from_str s = Some k"
    by (simp add: kind_from_str_def)
qed

end
