(* ===== verification/Sir_Ir.thy ===== *)
theory Sir_Ir
  imports Sir_Operation List_Of_Lists
begin

text \<open>
  The Sensei IR program (\<open>sir/crates/data/src/lib.rs\<close>, \<open>view.rs\<close>, \<open>operation/op_data.rs\<close>,
  \<open>operation/op_visitor.rs\<close>): operations with their data, the visitors that read their operands, basic
  blocks, control flow, functions and the program that stores all of them in flat arrays.  Reads
  through an index or a span panic where the source's slice index does.
\<close>

section \<open>Operation data\<close>

text \<open>
  The memory access sizes \<open>B1\<close> to \<open>B32\<close> are their discriminants.  \<open>AllocatedIns\<close> carries the
  constant \<open>INS\<close> of its type.
\<close>

datatype op_data =
    InlineOperands "nat list" "nat list"
  | AllocatedIns nat nat "nat list"
  | StaticAllocData nat nat nat
  | MemoryLoadData nat nat nat
  | MemoryStoreData "nat list" nat
  | SetSmallConstData nat u32
  | SetLargeConstData nat nat
  | SetDataOffsetData nat nat
  | InternalCallData nat nat nat
  | VoidData

record operation =
  op_kind :: operation_kind
  op_payload :: op_data

definition io_size_try_from_u8 :: "u8 \<Rightarrow> nat option" where
  "io_size_try_from_u8 x = (if 1 \<le> unat x \<and> unat x \<le> 32 then Some (unat x) else None)"

definition io_size_bits :: "nat \<Rightarrow> nat" where
  "io_size_bits s = s * 8"

definition payload_has_shape :: "op_shape \<Rightarrow> op_data \<Rightarrow> bool" where
  "payload_has_shape sh d \<longleftrightarrow>
     (case d of
        InlineOperands ins outs \<Rightarrow> sh = InlineShape (length ins) (length outs)
      | AllocatedIns n ins_start outs \<Rightarrow> sh = AllocatedShape n (length outs)
      | StaticAllocData sz ptr_out alloc_id \<Rightarrow> sh = StaticAllocShape \<and> sz \<le> u32_max
      | MemoryLoadData out ptr sz \<Rightarrow> sh = MemoryLoadShape \<and> 1 \<le> sz \<and> sz \<le> 32
      | MemoryStoreData ins sz \<Rightarrow> sh = MemoryStoreShape \<and> length ins = 2 \<and> 1 \<le> sz \<and> sz \<le> 32
      | SetSmallConstData sets val \<Rightarrow> sh = SetSmallConstShape
      | SetLargeConstData sets val \<Rightarrow> sh = SetLargeConstShape
      | SetDataOffsetData sets segment \<Rightarrow> sh = SetDataOffsetShape
      | InternalCallData f ins_start outs_start \<Rightarrow> sh = InternalCallShape
      | VoidData \<Rightarrow> sh = VoidShape)"

definition well_typed :: "operation \<Rightarrow> bool" where
  "well_typed op \<longleftrightarrow> payload_has_shape (operation_shape (op_kind op)) (op_payload op)"

section \<open>Programs\<close>

record branch =
  br_condition :: nat
  br_non_zero_target :: nat
  br_zero_target :: nat

record switch =
  sw_condition :: nat
  sw_fallback :: "nat option"
  sw_cases :: nat

datatype control =
    LastOpTerminates
  | InternalReturn
  | ContinuesTo nat
  | Branches branch
  | Switch switch

record cases_rec =
  cs_values_start_id :: nat
  cs_targets_start_id :: nat
  cs_count :: nat

record basic_block =
  bb_inputs :: span
  bb_outputs :: span
  bb_operations :: span
  bb_control :: control

record ir_function =
  fn_entry :: nat
  fn_outputs :: nat
  fn_source :: "nat option"

record eth_ir_program =
  ir_init_entry :: nat
  ir_main_entry :: "nat option"
  ir_functions :: "ir_function list"
  ir_basic_blocks :: "basic_block list"
  ir_operations :: "operation list"
  ir_data_segments :: "u8 list_of_lists"
  ir_locals :: "nat list"
  ir_large_consts :: "u256 list"
  ir_cases :: "cases_rec list"
  ir_cases_bb_ids :: "nat list"
  ir_next_free_local_id :: nat
  ir_next_static_alloc_id :: nat

definition ir_default :: eth_ir_program where
  "ir_default = \<lparr>ir_init_entry = 0, ir_main_entry = None, ir_functions = [], ir_basic_blocks = [],
     ir_operations = [], ir_data_segments = lol_new, ir_locals = [], ir_large_consts = [],
     ir_cases = [], ir_cases_bb_ids = [], ir_next_free_local_id = 0, ir_next_static_alloc_id = 0\<rparr>"

definition ir_clear :: "eth_ir_program \<Rightarrow> eth_ir_program" where
  "ir_clear p = p\<lparr>ir_init_entry := 0, ir_main_entry := None, ir_functions := [], ir_basic_blocks := [],
     ir_operations := [], ir_data_segments := lol_clear (ir_data_segments p), ir_locals := [],
     ir_large_consts := [], ir_cases := [], ir_cases_bb_ids := [], ir_next_free_local_id := 0,
     ir_next_static_alloc_id := 0\<rparr>"

definition fn_get_inputs :: "ir_function \<Rightarrow> basic_block list \<Rightarrow> nat panics" where
  "fn_get_inputs f blocks =
     do { bb \<leftarrow> iv_index blocks (fn_entry f);
          idx_sub_idx (sp_end (bb_inputs bb)) (sp_start (bb_inputs bb)) }"

definition implied_fn_out :: "basic_block \<Rightarrow> nat option panics" where
  "implied_fn_out bb =
     (case bb_control bb of
        InternalReturn \<Rightarrow> map_option Some (idx_sub_idx (sp_end (bb_outputs bb)) (sp_start (bb_outputs bb)))
      | _ \<Rightarrow> Some None)"

section \<open>Visitors\<close>

text \<open>A visitor of \<open>op_visitor.rs\<close> has one method per type of data; \<open>visit_data\<close> dispatches.\<close>

record 'o op_visitor =
  visit_inline_operands :: "nat list \<Rightarrow> nat list \<Rightarrow> 'o"
  visit_allocated_ins :: "nat \<Rightarrow> nat \<Rightarrow> nat list \<Rightarrow> 'o"
  visit_static_alloc :: "nat \<Rightarrow> nat \<Rightarrow> nat \<Rightarrow> 'o"
  visit_memory_load :: "nat \<Rightarrow> nat \<Rightarrow> nat \<Rightarrow> 'o"
  visit_memory_store :: "nat list \<Rightarrow> nat \<Rightarrow> 'o"
  visit_set_small_const :: "nat \<Rightarrow> u32 \<Rightarrow> 'o"
  visit_set_large_const :: "nat \<Rightarrow> nat \<Rightarrow> 'o"
  visit_set_data_offset :: "nat \<Rightarrow> nat \<Rightarrow> 'o"
  visit_icall :: "nat \<Rightarrow> nat \<Rightarrow> nat \<Rightarrow> 'o"
  visit_void :: 'o

fun visit_data :: "'o op_visitor \<Rightarrow> op_data \<Rightarrow> 'o" where
  "visit_data v (InlineOperands ins outs) = visit_inline_operands v ins outs"
| "visit_data v (AllocatedIns n start outs) = visit_allocated_ins v n start outs"
| "visit_data v (StaticAllocData sz ptr_out alloc_id) = visit_static_alloc v sz ptr_out alloc_id"
| "visit_data v (MemoryLoadData out ptr sz) = visit_memory_load v out ptr sz"
| "visit_data v (MemoryStoreData ins sz) = visit_memory_store v ins sz"
| "visit_data v (SetSmallConstData sets val) = visit_set_small_const v sets val"
| "visit_data v (SetLargeConstData sets val) = visit_set_large_const v sets val"
| "visit_data v (SetDataOffsetData sets segment) = visit_set_data_offset v sets segment"
| "visit_data v (InternalCallData f ins_start outs_start) = visit_icall v f ins_start outs_start"
| "visit_data v VoidData = visit_void v"

definition allocated_get_inputs :: "eth_ir_program \<Rightarrow> nat \<Rightarrow> nat \<Rightarrow> nat list panics" where
  "allocated_get_inputs ir n ins_start = slice_of (ir_locals ir) ins_start (ins_start + n)"

definition icall_get_inputs :: "eth_ir_program \<Rightarrow> nat \<Rightarrow> nat \<Rightarrow> nat list panics" where
  "icall_get_inputs ir ins_start outs_start = slice_of (ir_locals ir) ins_start outs_start"

definition icall_get_outputs :: "eth_ir_program \<Rightarrow> nat \<Rightarrow> nat \<Rightarrow> nat list panics" where
  "icall_get_outputs ir f outs_start =
     do { fn \<leftarrow> iv_index (ir_functions ir) f;
          e \<leftarrow> idx_add outs_start (fn_outputs fn);
          slice_of (ir_locals ir) outs_start e }"

definition inputs_getter :: "eth_ir_program \<Rightarrow> nat list panics op_visitor" where
  "inputs_getter ir =
     \<lparr>visit_inline_operands = \<lambda>ins outs. Some ins,
      visit_allocated_ins = \<lambda>n start outs. allocated_get_inputs ir n start,
      visit_static_alloc = \<lambda>sz ptr_out alloc_id. Some [],
      visit_memory_load = \<lambda>out ptr sz. Some [ptr],
      visit_memory_store = \<lambda>ins sz. Some ins,
      visit_set_small_const = \<lambda>sets val. Some [],
      visit_set_large_const = \<lambda>sets val. Some [],
      visit_set_data_offset = \<lambda>sets segment. Some [],
      visit_icall = \<lambda>f ins_start outs_start. icall_get_inputs ir ins_start outs_start,
      visit_void = Some []\<rparr>"

definition outputs_getter :: "eth_ir_program \<Rightarrow> nat list panics op_visitor" where
  "outputs_getter ir =
     \<lparr>visit_inline_operands = \<lambda>ins outs. Some outs,
      visit_allocated_ins = \<lambda>n start outs. Some outs,
      visit_static_alloc = \<lambda>sz ptr_out alloc_id. Some [ptr_out],
      visit_memory_load = \<lambda>out ptr sz. Some [out],
      visit_memory_store = \<lambda>ins sz. Some [],
      visit_set_small_const = \<lambda>sets val. Some [sets],
      visit_set_large_const = \<lambda>sets val. Some [sets],
      visit_set_data_offset = \<lambda>sets segment. Some [sets],
      visit_icall = \<lambda>f ins_start outs_start. icall_get_outputs ir f outs_start,
      visit_void = Some []\<rparr>"

record allocated_spans =
  as_input :: "span option"
  as_output :: "span option"

definition allocated_spans_NONE :: allocated_spans where
  "allocated_spans_NONE = \<lparr>as_input = None, as_output = None\<rparr>"

definition allocated_spans_getter :: "eth_ir_program \<Rightarrow> allocated_spans panics op_visitor" where
  "allocated_spans_getter ir =
     \<lparr>visit_inline_operands = \<lambda>ins outs. Some allocated_spans_NONE,
      visit_allocated_ins = \<lambda>n start outs.
        do { e \<leftarrow> idx_add start n;
             Some \<lparr>as_input = Some (span_new start e), as_output = None\<rparr> },
      visit_static_alloc = \<lambda>sz ptr_out alloc_id. Some allocated_spans_NONE,
      visit_memory_load = \<lambda>out ptr sz. Some allocated_spans_NONE,
      visit_memory_store = \<lambda>ins sz. Some allocated_spans_NONE,
      visit_set_small_const = \<lambda>sets val. Some allocated_spans_NONE,
      visit_set_large_const = \<lambda>sets val. Some allocated_spans_NONE,
      visit_set_data_offset = \<lambda>sets segment. Some allocated_spans_NONE,
      visit_icall = \<lambda>f ins_start outs_start.
        do { fn \<leftarrow> iv_index (ir_functions ir) f;
             e \<leftarrow> idx_add outs_start (fn_outputs fn);
             Some \<lparr>as_input = Some (span_new ins_start outs_start),
                   as_output = Some (span_new outs_start e)\<rparr> },
      visit_void = Some allocated_spans_NONE\<rparr>"

definition op_inputs :: "eth_ir_program \<Rightarrow> operation \<Rightarrow> nat list panics" where
  "op_inputs ir op = visit_data (inputs_getter ir) (op_payload op)"

definition op_outputs :: "eth_ir_program \<Rightarrow> operation \<Rightarrow> nat list panics" where
  "op_outputs ir op = visit_data (outputs_getter ir) (op_payload op)"

definition op_allocated_spans :: "eth_ir_program \<Rightarrow> operation \<Rightarrow> allocated_spans panics" where
  "op_allocated_spans ir op = visit_data (allocated_spans_getter ir) (op_payload op)"


text \<open>
  The mutable getters return a slice to write through.  \<open>put_inputs\<close> and \<open>put_outputs\<close> give the data
  and the locals of the program after the slice has been overwritten by \<open>new\<close>, whose length is the
  length of the slice; \<open>put_slice\<close> writes a slice of the locals.
\<close>

definition put_slice :: "'a list \<Rightarrow> nat \<Rightarrow> nat \<Rightarrow> 'a list \<Rightarrow> 'a list panics" where
  "put_slice xs s e new =
     do { old \<leftarrow> slice_of xs s e; ensure (length new = length old); Some (take s xs @ new @ drop e xs) }"

definition put_array :: "nat list \<Rightarrow> nat list \<Rightarrow> nat list panics" where
  "put_array old new = do { ensure (length new = length old); Some new }"

definition put_none :: "nat list \<Rightarrow> unit panics" where
  "put_none new = ensure (new = [])"

fun put_inputs :: "nat list \<Rightarrow> op_data \<Rightarrow> nat list \<Rightarrow> (op_data \<times> nat list) panics" where
  "put_inputs locals (InlineOperands ins outs) new =
     do { ins \<leftarrow> put_array ins new; Some (InlineOperands ins outs, locals) }"
| "put_inputs locals (AllocatedIns n start outs) new =
     do { locals \<leftarrow> put_slice locals start (start + n) new; Some (AllocatedIns n start outs, locals) }"
| "put_inputs locals (MemoryLoadData out ptr sz) new =
     do { ptrs \<leftarrow> put_array [ptr] new; Some (MemoryLoadData out (hd ptrs) sz, locals) }"
| "put_inputs locals (MemoryStoreData ins sz) new =
     do { ins \<leftarrow> put_array ins new; Some (MemoryStoreData ins sz, locals) }"
| "put_inputs locals (InternalCallData f ins_start outs_start) new =
     do { locals \<leftarrow> put_slice locals ins_start outs_start new;
          Some (InternalCallData f ins_start outs_start, locals) }"
| "put_inputs locals d new = do { put_none new; Some (d, locals) }"

fun put_outputs ::
    "ir_function list \<Rightarrow> nat list \<Rightarrow> op_data \<Rightarrow> nat list \<Rightarrow> (op_data \<times> nat list) panics" where
  "put_outputs functions locals (InlineOperands ins outs) new =
     do { outs \<leftarrow> put_array outs new; Some (InlineOperands ins outs, locals) }"
| "put_outputs functions locals (AllocatedIns n start outs) new =
     do { outs \<leftarrow> put_array outs new; Some (AllocatedIns n start outs, locals) }"
| "put_outputs functions locals (StaticAllocData sz ptr_out alloc_id) new =
     do { outs \<leftarrow> put_array [ptr_out] new; Some (StaticAllocData sz (hd outs) alloc_id, locals) }"
| "put_outputs functions locals (MemoryLoadData out ptr sz) new =
     do { outs \<leftarrow> put_array [out] new; Some (MemoryLoadData (hd outs) ptr sz, locals) }"
| "put_outputs functions locals (SetSmallConstData sets val) new =
     do { outs \<leftarrow> put_array [sets] new; Some (SetSmallConstData (hd outs) val, locals) }"
| "put_outputs functions locals (SetLargeConstData sets val) new =
     do { outs \<leftarrow> put_array [sets] new; Some (SetLargeConstData (hd outs) val, locals) }"
| "put_outputs functions locals (SetDataOffsetData sets segment) new =
     do { outs \<leftarrow> put_array [sets] new; Some (SetDataOffsetData (hd outs) segment, locals) }"
| "put_outputs functions locals (InternalCallData f ins_start outs_start) new =
     do { fn \<leftarrow> iv_index functions f;
          locals \<leftarrow> put_slice locals outs_start (outs_start + fn_outputs fn) new;
          Some (InternalCallData f ins_start outs_start, locals) }"
| "put_outputs functions locals d new = do { put_none new; Some (d, locals) }"

section \<open>Views\<close>

definition cases_get_values :: "eth_ir_program \<Rightarrow> cases_rec \<Rightarrow> u256 list panics" where
  "cases_get_values ir c =
     do { e \<leftarrow> idx_add (cs_values_start_id c) (cs_count c);
          r \<leftarrow> iv_rel_slice (ir_large_consts ir) (span_new (cs_values_start_id c) e);
          Some (rs_data r) }"

definition cases_target_indices :: "cases_rec \<Rightarrow> span panics" where
  "cases_target_indices c =
     do { e \<leftarrow> idx_add (cs_targets_start_id c) (cs_count c); Some (span_new (cs_targets_start_id c) e) }"

definition cases_get_bb_ids :: "eth_ir_program \<Rightarrow> cases_rec \<Rightarrow> nat list panics" where
  "cases_get_bb_ids ir c =
     do { s \<leftarrow> cases_target_indices c; r \<leftarrow> iv_rel_slice (ir_cases_bb_ids ir) s; Some (rs_data r) }"

text \<open>\<open>CasesIter\<close> pairs the remaining values and targets until one of them ends.\<close>

fun cases_iter_next :: "u256 list \<times> nat list \<Rightarrow> ((u256 \<times> nat) \<times> u256 list \<times> nat list) option" where
  "cases_iter_next (v # vs, t # ts) = Some ((v, t), vs, ts)"
| "cases_iter_next _ = None"

fun cases_drain :: "u256 list \<Rightarrow> nat list \<Rightarrow> (u256 \<times> nat) list" where
  "cases_drain (v # vs) (t # ts) = (v, t) # cases_drain vs ts"
| "cases_drain _ _ = []"

definition cases_iter :: "eth_ir_program \<Rightarrow> cases_rec \<Rightarrow> (u256 \<times> nat) list panics" where
  "cases_iter ir c =
     do { vs \<leftarrow> cases_get_values ir c; ts \<leftarrow> cases_get_bb_ids ir c; Some (cases_drain vs ts) }"

text \<open>
  The successors in the order \<open>OutgoingConnectionsIter\<close> yields them: the list of connections, then
  the extra one.
\<close>

record outgoing_iter =
  oi_extra_connection :: "nat option"
  oi_connections_list :: "nat list"

definition outgoing_next :: "outgoing_iter \<Rightarrow> nat option \<times> outgoing_iter" where
  "outgoing_next it =
     (case oi_connections_list it of
        bb # rest \<Rightarrow> (Some bb, it\<lparr>oi_connections_list := rest\<rparr>)
      | [] \<Rightarrow> (oi_extra_connection it, it\<lparr>oi_extra_connection := None\<rparr>))"

definition iter_outgoing :: "eth_ir_program \<Rightarrow> control \<Rightarrow> outgoing_iter panics" where
  "iter_outgoing ir c =
     (case c of
        InternalReturn \<Rightarrow> Some \<lparr>oi_extra_connection = None, oi_connections_list = []\<rparr>
      | LastOpTerminates \<Rightarrow> Some \<lparr>oi_extra_connection = None, oi_connections_list = []\<rparr>
      | ContinuesTo bb \<Rightarrow> Some \<lparr>oi_extra_connection = None, oi_connections_list = [bb]\<rparr>
      | Branches b \<Rightarrow>
          Some \<lparr>oi_extra_connection = Some (br_non_zero_target b), oi_connections_list = [br_zero_target b]\<rparr>
      | Switch s \<Rightarrow>
          do { c \<leftarrow> iv_index (ir_cases ir) (sw_cases s);
               ts \<leftarrow> cases_get_bb_ids ir c;
               Some \<lparr>oi_extra_connection = sw_fallback s, oi_connections_list = ts\<rparr> })"

definition outgoing_list :: "outgoing_iter \<Rightarrow> nat list" where
  "outgoing_list it = oi_connections_list it @ (case oi_extra_connection it of None \<Rightarrow> [] | Some bb \<Rightarrow> [bb])"

lemma outgoing_list_next:
  "outgoing_list it = (case outgoing_next it of (None, _) \<Rightarrow> [] | (Some bb, it') \<Rightarrow> bb # outgoing_list it')"
  by (cases it) (auto simp: outgoing_list_def outgoing_next_def split: list.splits option.splits)

definition block_inputs :: "eth_ir_program \<Rightarrow> nat \<Rightarrow> nat list panics" where
  "block_inputs ir b = do { bb \<leftarrow> iv_index (ir_basic_blocks ir) b; iv_index_span (ir_locals ir) (bb_inputs bb) }"

definition block_outputs :: "eth_ir_program \<Rightarrow> nat \<Rightarrow> nat list panics" where
  "block_outputs ir b = do { bb \<leftarrow> iv_index (ir_basic_blocks ir) b; iv_index_span (ir_locals ir) (bb_outputs bb) }"

text \<open>The indices of the operations of a block; an operation view is an index into the program.\<close>

definition block_operations :: "eth_ir_program \<Rightarrow> nat \<Rightarrow> nat list panics" where
  "block_operations ir b = do { bb \<leftarrow> iv_index (ir_basic_blocks ir) b; span_iter (bb_operations bb) }"

definition block_control :: "eth_ir_program \<Rightarrow> nat \<Rightarrow> control panics" where
  "block_control ir b = do { bb \<leftarrow> iv_index (ir_basic_blocks ir) b; Some (bb_control bb) }"

definition block_successors :: "eth_ir_program \<Rightarrow> nat \<Rightarrow> nat list panics" where
  "block_successors ir b =
     do { c \<leftarrow> block_control ir b; it \<leftarrow> iter_outgoing ir c; Some (outgoing_list it) }"

definition opview_op :: "eth_ir_program \<Rightarrow> nat \<Rightarrow> operation panics" where
  "opview_op ir i = iv_index (ir_operations ir) i"

definition opview_inputs :: "eth_ir_program \<Rightarrow> nat \<Rightarrow> nat list panics" where
  "opview_inputs ir i = do { op \<leftarrow> opview_op ir i; op_inputs ir op }"

definition opview_outputs :: "eth_ir_program \<Rightarrow> nat \<Rightarrow> nat list panics" where
  "opview_outputs ir i = do { op \<leftarrow> opview_op ir i; op_outputs ir op }"

definition switch_cases :: "eth_ir_program \<Rightarrow> switch \<Rightarrow> (u256 \<times> nat) list panics" where
  "switch_cases ir s = do { c \<leftarrow> iv_index (ir_cases ir) (sw_cases s); cases_iter ir c }"

definition switch_value_ids :: "eth_ir_program \<Rightarrow> switch \<Rightarrow> nat list panics" where
  "switch_value_ids ir s =
     do { c \<leftarrow> iv_index (ir_cases ir) (sw_cases s);
          map_panics (\<lambda>i. idx_add (cs_values_start_id c) i) [0..<cs_count c] }"

definition function_entry :: "eth_ir_program \<Rightarrow> nat \<Rightarrow> nat panics" where
  "function_entry ir f = do { fn \<leftarrow> iv_index (ir_functions ir) f; Some (fn_entry fn) }"

definition function_num_inputs :: "eth_ir_program \<Rightarrow> nat \<Rightarrow> nat panics" where
  "function_num_inputs ir f =
     do { fn \<leftarrow> iv_index (ir_functions ir) f; fn_get_inputs fn (ir_basic_blocks ir) }"

definition function_num_outputs :: "eth_ir_program \<Rightarrow> nat \<Rightarrow> nat panics" where
  "function_num_outputs ir f = do { fn \<leftarrow> iv_index (ir_functions ir) f; Some (fn_outputs fn) }"

section \<open>Properties\<close>

lemma put_slice_Some:
  "put_slice xs s e new = Some ys \<longleftrightarrow>
   s \<le> e \<and> e \<le> length xs \<and> length new = e - s \<and> ys = take s xs @ new @ drop e xs"
  by (auto simp: put_slice_def bind_Some slice_of_Some)

lemma slice_put_slice: "put_slice xs s e new = Some ys \<Longrightarrow> slice_of ys s e = Some new"
  by (auto simp: put_slice_Some slice_of_Some)

lemma put_array_Some: "put_array old new = Some xs \<longleftrightarrow> length new = length old \<and> xs = new"
  by (auto simp: put_array_def bind_Some)

lemma put_none_Some: "put_none new = Some u \<longleftrightarrow> new = []"
  by (simp add: put_none_def)

lemmas put_simps = put_array_Some put_none_Some bind_Some

lemma put_slice_total:
  "slice_of xs s e = Some old \<Longrightarrow> length new = length old \<Longrightarrow>
   \<exists>ys. put_slice xs s e new = Some ys \<and> length ys = length xs \<and> slice_of ys s e = Some new
      \<and> (\<forall>i < length ys. ys ! i \<noteq> xs ! i \<longrightarrow> s \<le> i \<and> i < e)"
  by (auto simp: put_slice_Some slice_of_Some nth_append)

text \<open>
  Operand access is a lens.  Writing through the mutable input slice of an operation succeeds
  for every list of the length the getter returns; reading back yields the written list, the type
  of the data is unchanged, and so are all locals of the program outside the operation's own slice
  of them.
\<close>

theorem put_inputs_lens:
  assumes "visit_data (inputs_getter ir) d = Some old" and "length new = length old"
  shows "\<exists>d' locals'. put_inputs (ir_locals ir) d new = Some (d', locals')
    \<and> visit_data (inputs_getter (ir\<lparr>ir_locals := locals'\<rparr>)) d' = Some new
    \<and> (payload_has_shape sh d \<longrightarrow> payload_has_shape sh d')
    \<and> length locals' = length (ir_locals ir)
    \<and> (\<forall>i < length locals'. locals' ! i \<noteq> ir_locals ir ! i \<longrightarrow>
         (case d of AllocatedIns n s outs \<Rightarrow> s \<le> i \<and> i < s + n
          | InternalCallData f s e \<Rightarrow> s \<le> i \<and> i < e | _ \<Rightarrow> False))"
proof (cases d)
  case (AllocatedIns n s outs)
  then show ?thesis
    using put_slice_total [of "ir_locals ir" s "s + n" old new] assms
    by (auto simp: inputs_getter_def allocated_get_inputs_def payload_has_shape_def)
next
  case (InternalCallData f s e)
  then show ?thesis
    using put_slice_total [of "ir_locals ir" s e old new] assms
    by (auto simp: inputs_getter_def icall_get_inputs_def payload_has_shape_def)
next
  case (MemoryLoadData out ptr sz)
  then show ?thesis
    using assms by (cases new) (auto simp: inputs_getter_def put_array_def payload_has_shape_def)
qed (use assms in \<open>auto simp: inputs_getter_def put_array_def put_none_def payload_has_shape_def\<close>)

text \<open>An \<open>addmod\<close> whose operands are locals 3, 4, 5 of the array.\<close>

lemma put_inputs_lens_witness:
  "\<exists>d' locals'. put_inputs [9, 3, 4, 5, 9] (AllocatedIns 3 1 [7]) [6, 7, 8] = Some (d', locals')
     \<and> length locals' = 5"
proof -
  let ?ir = "ir_default\<lparr>ir_locals := [9, 3, 4, 5, 9]\<rparr>"
  have "visit_data (inputs_getter ?ir) (AllocatedIns 3 1 [7]) = Some [3, 4, 5]"
    by (simp add: inputs_getter_def allocated_get_inputs_def slice_of_def)
  then show ?thesis
    using put_inputs_lens [of ?ir "AllocatedIns 3 1 [7]" "[3, 4, 5]" "[6, 7, 8]"] by fastforce
qed

lemma put_outputs_lens:
  assumes "visit_data (outputs_getter ir) d = Some old" and "length new = length old"
  shows "\<exists>d' locals'. put_outputs (ir_functions ir) (ir_locals ir) d new = Some (d', locals')
    \<and> visit_data (outputs_getter (ir\<lparr>ir_locals := locals'\<rparr>)) d' = Some new
    \<and> (payload_has_shape sh d \<longrightarrow> payload_has_shape sh d')
    \<and> length locals' = length (ir_locals ir)"
proof (cases d)
  case (InternalCallData f s e)
  then obtain fn where fn: "iv_index (ir_functions ir) f = Some fn" "is_idx (e + fn_outputs fn)"
    and old: "slice_of (ir_locals ir) e (e + fn_outputs fn) = Some old"
    using assms(1) by (auto simp: outputs_getter_def icall_get_outputs_def bind_Some idx_add_Some)
  then show ?thesis
    using put_slice_total [OF old assms(2)] InternalCallData
    by (auto simp: outputs_getter_def icall_get_outputs_def payload_has_shape_def idx_add_Some bind_Some)
qed (use assms in \<open>cases new; auto simp: outputs_getter_def put_array_def put_none_def payload_has_shape_def\<close>)+

end
