(* ===== verification/Sir_Exec.thy ===== *)
theory Sir_Exec
  imports Sir_Ir
begin

text \<open>
  What a run of a program does next: the block that the control of a block leads to, given the
  values of the locals, and how it depends on the parts of the program that passes change.
\<close>

text \<open>The target of a switch on a known value.\<close>

definition switch_target :: "eth_ir_program \<Rightarrow> switch \<Rightarrow> u256 \<Rightarrow> nat panics" where
  "switch_target ir sw val =
     do { cases \<leftarrow> switch_cases ir sw;
          case map_option snd (find (\<lambda>(case_val, _). val = case_val) cases) of
            Some t \<Rightarrow> Some t
          | None \<Rightarrow> sw_fallback sw }"

text \<open>The block a run goes to next within its function, given the values of the locals.\<close>

definition control_next :: "eth_ir_program \<Rightarrow> (nat \<Rightarrow> u256) \<Rightarrow> control \<Rightarrow> nat option" where
  "control_next ir env c =
     (case c of
        ContinuesTo t \<Rightarrow> Some t
      | Branches br \<Rightarrow> Some (if env (br_condition br) = 0 then br_zero_target br else br_non_zero_target br)
      | Switch sw \<Rightarrow> switch_target ir sw (env (sw_condition sw))
      | _ \<Rightarrow> None)"

definition control_condition :: "control \<Rightarrow> nat set" where
  "control_condition c =
     (case c of Branches br \<Rightarrow> {br_condition br} | Switch sw \<Rightarrow> {sw_condition sw} | _ \<Rightarrow> {})"

text \<open>The cases of a switch, when they can be read.\<close>

lemma cases_drain_length:
  "cases_drain vs ts = cs \<Longrightarrow> length vs = n \<Longrightarrow> length ts = n \<Longrightarrow> length cs = n \<and> map fst cs = vs \<and> map snd cs = ts"
  by (induction vs ts arbitrary: cs n rule: cases_drain.induct) auto

lemma cases_iter_Some:
  assumes "cases_iter ir c = Some cs"
  shows "length cs = cs_count c" and "cases_get_bb_ids ir c = Some (map snd cs)"
    and "cases_get_values ir c = Some (map fst cs)"
proof -
  obtain vs ts where v: "cases_get_values ir c = Some vs" and t: "cases_get_bb_ids ir c = Some ts"
    and cs: "cs = cases_drain vs ts"
    using assms by (auto simp: cases_iter_def bind_Some)
  have "length vs = cs_count c" "length ts = cs_count c"
    using v t by (auto simp: cases_get_values_def cases_get_bb_ids_def cases_target_indices_def iv_rel_slice_def
        bind_Some idx_add_Some slice_of_Some span_new_def)
  then show "length cs = cs_count c" "cases_get_bb_ids ir c = Some (map snd cs)" "cases_get_values ir c = Some (map fst cs)"
    using cases_drain_length [OF cs [symmetric]] v t by auto
qed

lemma switch_cases_Some:
  "switch_cases ir sw = Some cs \<longleftrightarrow> (\<exists>c. iv_index (ir_cases ir) (sw_cases sw) = Some c \<and> cases_iter ir c = Some cs)"
  by (simp add: switch_cases_def bind_Some)

section \<open>Changing the control of a block\<close>

definition set_control :: "nat \<Rightarrow> control \<Rightarrow> eth_ir_program \<Rightarrow> eth_ir_program panics" where
  "set_control b c ir =
     do { bb \<leftarrow> iv_index (ir_basic_blocks ir) b;
          blocks \<leftarrow> iv_set (ir_basic_blocks ir) b (bb\<lparr>bb_control := c\<rparr>);
          Some (ir\<lparr>ir_basic_blocks := blocks\<rparr>) }"

lemma set_control_Some:
  assumes "set_control b c ir = Some ir'"
  shows "b < length (ir_basic_blocks ir)"
    and "ir' = ir\<lparr>ir_basic_blocks := (ir_basic_blocks ir)[b := (ir_basic_blocks ir ! b)\<lparr>bb_control := c\<rparr>]\<rparr>"
  using assms by (auto simp: set_control_def bind_Some iv_index_def iv_set_def get_at_Some set_at_Some)

lemma switch_target_set_control:
  "switch_target (ir\<lparr>ir_basic_blocks := bs\<rparr>) sw v = switch_target ir sw v"
  by (simp add: switch_target_def switch_cases_def cases_iter_def [abs_def] cases_get_values_def [abs_def]
      cases_target_indices_def [abs_def] cases_get_bb_ids_def [abs_def])

lemma set_control_views:
  assumes "set_control b c ir = Some ir'"
  shows "block_control ir' b1 = (if b1 = b then Some c else block_control ir b1)"
    and "block_inputs ir' b1 = block_inputs ir b1" and "block_outputs ir' b1 = block_outputs ir b1"
    and "block_operations ir' b1 = block_operations ir b1" and "ir_operations ir' = ir_operations ir"
proof -
  note ir' = set_control_Some [OF assms]
  have index: "iv_index (ir_basic_blocks ir') b1 = (if b1 = b then
      Some ((ir_basic_blocks ir ! b)\<lparr>bb_control := c\<rparr>) else iv_index (ir_basic_blocks ir) b1)"
    using ir' by (simp add: iv_index_def get_at_def)
  have old: "iv_index (ir_basic_blocks ir) b = Some (ir_basic_blocks ir ! b)"
    using ir'(1) by (simp add: iv_index_def)
  have locals: "ir_locals ir' = ir_locals ir" and ops: "ir_operations ir' = ir_operations ir"
    by (simp_all add: ir'(2))
  show "block_control ir' b1 = (if b1 = b then Some c else block_control ir b1)"
    by (simp add: block_control_def index)
  show "block_inputs ir' b1 = block_inputs ir b1" "block_outputs ir' b1 = block_outputs ir b1"
      "block_operations ir' b1 = block_operations ir b1"
    using old by (simp_all add: block_inputs_def block_outputs_def block_operations_def index locals)
  show "ir_operations ir' = ir_operations ir"
    by (rule ops)
qed

end
