(* ===== verification/Sir_Builder.thy ===== *)
theory Sir_Builder
  imports Sir_Ir
begin

text \<open>
  The construction of programs (\<open>sir/crates/data/src/builder.rs\<close>, and \<open>try_build_op\<close> of
  \<open>operation/op_data.rs\<close>).  The three nested builders borrow the program builder mutably: each is a
  record of its own that is passed along with the state of the program builder.  An operation that
  fails may already have changed that state, so it is returned with the error.
\<close>

section \<open>The program builder\<close>

record eth_ir_builder =
  eb_next_local_id :: nat
  eb_next_alloc_id :: nat
  eb_functions :: "ir_function list"
  eb_basic_blocks :: "basic_block list"
  eb_operations :: "operation list"
  eb_data_segments :: "u8 list_of_lists"
  eb_locals :: "nat list"
  eb_large_consts :: "u256 list"
  eb_cases :: "cases_rec list"
  eb_cases_bb_ids :: "nat list"
  eb_placeholder_control_blocks :: "nat list"

definition eb_new :: eth_ir_builder where
  "eb_new = \<lparr>eb_next_local_id = 0, eb_next_alloc_id = 0, eb_functions = [], eb_basic_blocks = [],
     eb_operations = [], eb_data_segments = lol_new, eb_locals = [], eb_large_consts = [],
     eb_cases = [], eb_cases_bb_ids = [], eb_placeholder_control_blocks = []\<rparr>"

definition eb_build :: "eth_ir_builder \<Rightarrow> nat \<Rightarrow> nat option \<Rightarrow> eth_ir_program" where
  "eb_build b init_entry main_entry =
     \<lparr>ir_init_entry = init_entry, ir_main_entry = main_entry, ir_functions = eb_functions b,
      ir_basic_blocks = eb_basic_blocks b, ir_operations = eb_operations b,
      ir_data_segments = eb_data_segments b, ir_locals = eb_locals b,
      ir_large_consts = eb_large_consts b, ir_cases = eb_cases b, ir_cases_bb_ids = eb_cases_bb_ids b,
      ir_next_free_local_id = eb_next_local_id b, ir_next_static_alloc_id = eb_next_alloc_id b\<rparr>"

definition new_local :: "eth_ir_builder \<Rightarrow> (nat \<times> eth_ir_builder) panics" where
  "new_local b = do { (l, next) \<leftarrow> get_and_inc (eb_next_local_id b); Some (l, b\<lparr>eb_next_local_id := next\<rparr>) }"

definition new_static_alloc :: "eth_ir_builder \<Rightarrow> (nat \<times> eth_ir_builder) panics" where
  "new_static_alloc b = do { (a, next) \<leftarrow> get_and_inc (eb_next_alloc_id b); Some (a, b\<lparr>eb_next_alloc_id := next\<rparr>) }"

definition alloc_locals :: "nat list \<Rightarrow> eth_ir_builder \<Rightarrow> (span \<times> eth_ir_builder) panics" where
  "alloc_locals ls b =
     do { start \<leftarrow> iv_next_idx (eb_locals b);
          let b = b\<lparr>eb_locals := eb_locals b @ ls\<rparr>;
          e \<leftarrow> iv_next_idx (eb_locals b);
          Some (span_new start e, b) }"

definition get_func :: "eth_ir_builder \<Rightarrow> nat \<Rightarrow> ir_function option" where
  "get_func b f = get_at (eb_functions b) f"

definition next_basic_block_id :: "eth_ir_builder \<Rightarrow> nat panics" where
  "next_basic_block_id b = iv_next_idx (eb_basic_blocks b)"

definition alloc_u256 :: "u256 \<Rightarrow> eth_ir_builder \<Rightarrow> (nat \<times> eth_ir_builder) panics" where
  "alloc_u256 v b = do { (i, cs) \<leftarrow> iv_push (eb_large_consts b) v; Some (i, b\<lparr>eb_large_consts := cs\<rparr>) }"

definition push_data_bytes :: "u8 list \<Rightarrow> eth_ir_builder \<Rightarrow> (nat \<times> eth_ir_builder) panics" where
  "push_data_bytes bytes b =
     do { (i, ds) \<leftarrow> lol_push_copy_slice bytes (eb_data_segments b); Some (i, b\<lparr>eb_data_segments := ds\<rparr>) }"

section \<open>Building the data of an operation\<close>

datatype op_extra_data =
    ExDataId nat
  | ExFuncId nat
  | ExNum u256
  | ExEmpty

datatype op_build_error =
    WrongInputCount nat nat
  | WrongOutputCount nat nat
  | UnexpectedExtraData op_extra_data string
  | UndefinedFunction nat
  | NumTooLarge u256 nat nat

definition check_ins_count :: "nat list \<Rightarrow> nat \<Rightarrow> op_build_error + unit" where
  "check_ins_count ins expected =
     (if length ins \<noteq> expected then Inl (WrongInputCount expected (length ins)) else Inr ())"

definition check_outs_count :: "nat list \<Rightarrow> nat \<Rightarrow> op_build_error + unit" where
  "check_outs_count outs expected =
     (if length outs \<noteq> expected then Inl (WrongOutputCount expected (length outs)) else Inr ())"

text \<open>\<open>check_ins_count(..)?; check_outs_count(..)?;\<close>\<close>

definition check_counts :: "nat list \<Rightarrow> nat \<Rightarrow> nat list \<Rightarrow> nat \<Rightarrow> op_build_error + unit" where
  "check_counts ins n outs m =
     (case check_ins_count ins n of Inl e \<Rightarrow> Inl e | Inr _ \<Rightarrow> check_outs_count outs m)"

definition build_void :: "nat list \<Rightarrow> nat list \<Rightarrow> op_extra_data \<Rightarrow> op_build_error + op_data" where
  "build_void ins outs extra =
     (if extra \<noteq> ExEmpty then Inl (UnexpectedExtraData extra ''Empty'')
      else case check_counts ins 0 outs 0 of Inl e \<Rightarrow> Inl e | Inr _ \<Rightarrow> Inr VoidData)"

definition build_inline :: "nat \<Rightarrow> nat \<Rightarrow> nat list \<Rightarrow> nat list \<Rightarrow> op_extra_data \<Rightarrow> op_build_error + op_data" where
  "build_inline n m ins outs extra =
     (if length outs \<noteq> m then Inl (WrongOutputCount m (length outs))
      else if length ins \<noteq> n then Inl (WrongInputCount n (length ins))
      else if extra \<noteq> ExEmpty then Inl (UnexpectedExtraData extra ''Empty'')
      else Inr (InlineOperands ins outs))"

type_synonym op_built = "((op_build_error + op_data) \<times> eth_ir_builder) panics"

definition build_allocated ::
    "nat \<Rightarrow> nat \<Rightarrow> nat list \<Rightarrow> nat list \<Rightarrow> op_extra_data \<Rightarrow> eth_ir_builder \<Rightarrow> op_built" where
  "build_allocated n m ins outs extra b =
     (if length outs \<noteq> m then Some (Inl (WrongOutputCount m (length outs)), b)
      else case check_ins_count ins n of
        Inl e \<Rightarrow> Some (Inl e, b)
      | Inr _ \<Rightarrow>
          do { (ins_span, b) \<leftarrow> alloc_locals ins b;
               len \<leftarrow> idx_sub_idx (sp_end ins_span) (sp_start ins_span);
               ensure (len = n);
               Some (if extra \<noteq> ExEmpty then Inl (UnexpectedExtraData extra ''Empty'')
                     else Inr (AllocatedIns n (sp_start ins_span) outs), b) })"

definition build_icall :: "nat list \<Rightarrow> nat list \<Rightarrow> op_extra_data \<Rightarrow> eth_ir_builder \<Rightarrow> op_built" where
  "build_icall ins outs extra b =
     (case extra of
        ExFuncId func_id \<Rightarrow>
          (case get_func b func_id of
             None \<Rightarrow> Some (Inl (UndefinedFunction func_id), b)
           | Some func \<Rightarrow>
               do { inputs \<leftarrow> fn_get_inputs func (eb_basic_blocks b);
                    case check_counts ins inputs outs (fn_outputs func) of
                      Inl e \<Rightarrow> Some (Inl e, b)
                    | Inr _ \<Rightarrow>
                        do { (ins_span, b) \<leftarrow> alloc_locals ins b;
                             (outs_span, b) \<leftarrow> alloc_locals outs b;
                             ensure (sp_end ins_span = sp_start outs_span);
                             Some (Inr (InternalCallData func_id (sp_start ins_span) (sp_start outs_span)), b) } })
      | _ \<Rightarrow> Some (Inl (UnexpectedExtraData extra ''FunctionId''), b))"

definition build_large_const :: "nat list \<Rightarrow> nat list \<Rightarrow> op_extra_data \<Rightarrow> eth_ir_builder \<Rightarrow> op_built" where
  "build_large_const ins outs extra b =
     (case extra of
        ExNum num \<Rightarrow>
          (case check_counts ins 0 outs 1 of
             Inl e \<Rightarrow> Some (Inl e, b)
           | Inr _ \<Rightarrow>
               do { (cid, b) \<leftarrow> alloc_u256 num b;
                    out \<leftarrow> get_at outs 0;
                    Some (Inr (SetLargeConstData out cid), b) })
      | _ \<Rightarrow> Some (Inl (UnexpectedExtraData extra ''Num(u256)''), b))"

definition uint256_to_u32 :: "u256 \<Rightarrow> op_build_error + u32" where
  "uint256_to_u32 x = (if unat x \<le> u32_max then Inr (ucast x) else Inl (NumTooLarge x 0 u32_max))"

definition build_small_const :: "nat list \<Rightarrow> nat list \<Rightarrow> op_extra_data \<Rightarrow> eth_ir_builder \<Rightarrow> op_built" where
  "build_small_const ins outs extra b =
     (case extra of
        ExNum val \<Rightarrow>
          (case uint256_to_u32 val of
             Inl e \<Rightarrow> Some (Inl e, b)
           | Inr val \<Rightarrow>
               (case check_counts ins 0 outs 1 of
                  Inl e \<Rightarrow> Some (Inl e, b)
                | Inr _ \<Rightarrow> do { out \<leftarrow> get_at outs 0; Some (Inr (SetSmallConstData out val), b) }))
      | _ \<Rightarrow> Some (Inl (UnexpectedExtraData extra ''Num(u32)''), b))"

definition build_static_alloc :: "nat list \<Rightarrow> nat list \<Rightarrow> op_extra_data \<Rightarrow> eth_ir_builder \<Rightarrow> op_built" where
  "build_static_alloc ins outs extra b =
     (case extra of
        ExNum sz \<Rightarrow>
          (case uint256_to_u32 sz of
             Inl e \<Rightarrow> Some (Inl e, b)
           | Inr sz \<Rightarrow>
               (case check_counts ins 0 outs 1 of
                  Inl e \<Rightarrow> Some (Inl e, b)
                | Inr _ \<Rightarrow>
                    do { (alloc_id, b) \<leftarrow> new_static_alloc b;
                         out \<leftarrow> get_at outs 0;
                         Some (Inr (StaticAllocData (unat sz) out alloc_id), b) }))
      | _ \<Rightarrow> Some (Inl (UnexpectedExtraData extra ''Num(u32)''), b))"

text \<open>\<open>size.try_into().ok().and_then(IRMemoryIOByteSize::try_from_u8)\<close>\<close>

definition io_size_of_u256 :: "u256 \<Rightarrow> nat option" where
  "io_size_of_u256 x = (if unat x < 256 then io_size_try_from_u8 (ucast x) else None)"

definition build_memory_load :: "nat list \<Rightarrow> nat list \<Rightarrow> op_extra_data \<Rightarrow> eth_ir_builder \<Rightarrow> op_built" where
  "build_memory_load ins outs extra b =
     (case extra of
        ExNum sz \<Rightarrow>
          (case io_size_of_u256 sz of
             None \<Rightarrow> Some (Inl (NumTooLarge sz 1 32), b)
           | Some io \<Rightarrow>
               (case check_counts ins 1 outs 1 of
                  Inl e \<Rightarrow> Some (Inl e, b)
                | Inr _ \<Rightarrow>
                    do { out \<leftarrow> get_at outs 0; ptr \<leftarrow> get_at ins 0; Some (Inr (MemoryLoadData out ptr io), b) }))
      | _ \<Rightarrow> Some (Inl (UnexpectedExtraData extra ''Num(u32)''), b))"

definition build_memory_store :: "nat list \<Rightarrow> nat list \<Rightarrow> op_extra_data \<Rightarrow> eth_ir_builder \<Rightarrow> op_built" where
  "build_memory_store ins outs extra b =
     (case extra of
        ExNum sz \<Rightarrow>
          (case io_size_of_u256 sz of
             None \<Rightarrow> Some (Inl (NumTooLarge sz 1 32), b)
           | Some io \<Rightarrow>
               (case check_counts ins 2 outs 0 of
                  Inl e \<Rightarrow> Some (Inl e, b)
                | Inr _ \<Rightarrow>
                    do { p \<leftarrow> get_at ins 0; v \<leftarrow> get_at ins 1; Some (Inr (MemoryStoreData [p, v] io), b) }))
      | _ \<Rightarrow> Some (Inl (UnexpectedExtraData extra ''Num(1..=32)''), b))"

definition build_data_offset :: "nat list \<Rightarrow> nat list \<Rightarrow> op_extra_data \<Rightarrow> eth_ir_builder \<Rightarrow> op_built" where
  "build_data_offset ins outs extra b =
     (case extra of
        ExDataId segment \<Rightarrow>
          (case check_counts ins 0 outs 1 of
             Inl e \<Rightarrow> Some (Inl e, b)
           | Inr _ \<Rightarrow> do { out \<leftarrow> get_at outs 0; Some (Inr (SetDataOffsetData out segment), b) })
      | _ \<Rightarrow> Some (Inl (UnexpectedExtraData extra ''DataId''), b))"

text \<open>The implementation of \<open>FromOpData\<close> for the data type of a kind.\<close>

definition try_build_op ::
    "op_shape \<Rightarrow> nat list \<Rightarrow> nat list \<Rightarrow> op_extra_data \<Rightarrow> eth_ir_builder \<Rightarrow> op_built" where
  "try_build_op sh ins outs extra b =
     (case sh of
        InlineShape n m \<Rightarrow> Some (build_inline n m ins outs extra, b)
      | AllocatedShape n m \<Rightarrow> build_allocated n m ins outs extra b
      | StaticAllocShape \<Rightarrow> build_static_alloc ins outs extra b
      | MemoryLoadShape \<Rightarrow> build_memory_load ins outs extra b
      | MemoryStoreShape \<Rightarrow> build_memory_store ins outs extra b
      | SetSmallConstShape \<Rightarrow> build_small_const ins outs extra b
      | SetLargeConstShape \<Rightarrow> build_large_const ins outs extra b
      | SetDataOffsetShape \<Rightarrow> build_data_offset ins outs extra b
      | InternalCallShape \<Rightarrow> build_icall ins outs extra b
      | VoidShape \<Rightarrow> Some (build_void ins outs extra, b))"

definition try_build ::
    "operation_kind \<Rightarrow> nat list \<Rightarrow> nat list \<Rightarrow> op_extra_data \<Rightarrow> eth_ir_builder
     \<Rightarrow> ((op_build_error + operation) \<times> eth_ir_builder) panics" where
  "try_build kind ins outs extra b =
     do { (r, b) \<leftarrow> try_build_op (operation_shape kind) ins outs extra b;
          Some (case r of Inl e \<Rightarrow> Inl e | Inr d \<Rightarrow> Inr \<lparr>op_kind = kind, op_payload = d\<rparr>, b) }"

section \<open>What building an operation promises\<close>

text \<open>The requests that name a well-typed operation, by the numbers of operands and the extra data.\<close>

definition request_ok :: "op_shape \<Rightarrow> nat \<Rightarrow> nat \<Rightarrow> op_extra_data \<Rightarrow> eth_ir_builder \<Rightarrow> bool" where
  "request_ok sh n m extra b \<longleftrightarrow>
     (case sh of
        InlineShape i j \<Rightarrow> n = i \<and> m = j \<and> extra = ExEmpty
      | AllocatedShape i j \<Rightarrow> n = i \<and> m = j \<and> extra = ExEmpty
      | VoidShape \<Rightarrow> n = 0 \<and> m = 0 \<and> extra = ExEmpty
      | StaticAllocShape \<Rightarrow> n = 0 \<and> m = 1 \<and> (case extra of ExNum v \<Rightarrow> unat v \<le> u32_max | _ \<Rightarrow> False)
      | SetSmallConstShape \<Rightarrow> n = 0 \<and> m = 1 \<and> (case extra of ExNum v \<Rightarrow> unat v \<le> u32_max | _ \<Rightarrow> False)
      | SetLargeConstShape \<Rightarrow> n = 0 \<and> m = 1 \<and> (case extra of ExNum v \<Rightarrow> True | _ \<Rightarrow> False)
      | SetDataOffsetShape \<Rightarrow> n = 0 \<and> m = 1 \<and> (case extra of ExDataId d \<Rightarrow> True | _ \<Rightarrow> False)
      | MemoryLoadShape \<Rightarrow> n = 1 \<and> m = 1 \<and> (case extra of ExNum v \<Rightarrow> 1 \<le> unat v \<and> unat v \<le> 32 | _ \<Rightarrow> False)
      | MemoryStoreShape \<Rightarrow> n = 2 \<and> m = 0 \<and> (case extra of ExNum v \<Rightarrow> 1 \<le> unat v \<and> unat v \<le> 32 | _ \<Rightarrow> False)
      | InternalCallShape \<Rightarrow>
          (case extra of
             ExFuncId f \<Rightarrow>
               (case get_func b f of
                  Some func \<Rightarrow> fn_get_inputs func (eb_basic_blocks b) = Some n \<and> fn_outputs func = m
                | None \<Rightarrow> False)
           | _ \<Rightarrow> False))"

text \<open>Capacity for one more operation, and functions whose entry blocks exist.\<close>

definition builder_room :: "nat list \<Rightarrow> nat list \<Rightarrow> eth_ir_builder \<Rightarrow> bool" where
  "builder_room ins outs b \<longleftrightarrow>
     is_idx (length (eb_locals b) + length ins + length outs) \<and> is_idx (length (eb_large_consts b))
     \<and> is_idx (Suc (eb_next_alloc_id b))
     \<and> (\<forall>func \<in> set (eb_functions b). fn_get_inputs func (eb_basic_blocks b) \<noteq> None)"

definition builder_extends :: "eth_ir_builder \<Rightarrow> eth_ir_builder \<Rightarrow> bool" where
  "builder_extends b b' \<longleftrightarrow>
     (\<exists>ls cs n. b' = b\<lparr>eb_locals := eb_locals b @ ls, eb_large_consts := eb_large_consts b @ cs,
                     eb_next_alloc_id := eb_next_alloc_id b + n\<rparr>)"

lemma builder_extends_refl [simp]: "builder_extends b b"
  unfolding builder_extends_def by (intro exI [of _ "[]"] exI [of _ 0]) simp

lemma builder_extends_trans:
  "builder_extends a b \<Longrightarrow> builder_extends b c \<Longrightarrow> builder_extends a c"
  unfolding builder_extends_def
proof (elim exE)
  fix ls cs n ls' cs' n'
  assume "b = a\<lparr>eb_locals := eb_locals a @ ls, eb_large_consts := eb_large_consts a @ cs,
      eb_next_alloc_id := eb_next_alloc_id a + n\<rparr>"
    and "c = b\<lparr>eb_locals := eb_locals b @ ls', eb_large_consts := eb_large_consts b @ cs',
      eb_next_alloc_id := eb_next_alloc_id b + n'\<rparr>"
  then show "\<exists>ls cs n. c = a\<lparr>eb_locals := eb_locals a @ ls, eb_large_consts := eb_large_consts a @ cs,
      eb_next_alloc_id := eb_next_alloc_id a + n\<rparr>"
    by (intro exI [of _ "ls @ ls'"] exI [of _ "cs @ cs'"] exI [of _ "n + n'"]) simp
qed

lemma builder_extends_locals:
  "builder_extends b (b\<lparr>eb_locals := eb_locals b @ ls\<rparr>)"
  unfolding builder_extends_def by (intro exI [of _ ls] exI [of _ "[]"] exI [of _ 0]) simp

lemma builder_extends_const:
  "builder_extends b (b\<lparr>eb_large_consts := eb_large_consts b @ cs\<rparr>)"
  unfolding builder_extends_def by (intro exI [of _ "[]"] exI [of _ cs] exI [of _ 0]) simp

lemma builder_extends_alloc: "builder_extends b (b\<lparr>eb_next_alloc_id := Suc (eb_next_alloc_id b)\<rparr>)"
  unfolding builder_extends_def by (intro exI [of _ "[]"] exI [of _ "Suc 0"]) simp

lemma slice_of_append: "slice_of xs s e = Some ys \<Longrightarrow> slice_of (xs @ zs) s e = Some ys"
  by (auto simp: slice_of_Some)

lemma slice_of_tail: "slice_of (xs @ ys) (length xs) (length xs + length ys) = Some ys"
  by (simp add: slice_of_def)

text \<open>Operations built before keep their operands.\<close>

lemma builder_extends_operands:
  assumes "builder_extends b b'"
  shows "op_inputs (eb_build b i m) op = Some xs \<Longrightarrow> op_inputs (eb_build b' i m) op = Some xs"
    and "op_outputs (eb_build b i m) op = Some xs \<Longrightarrow> op_outputs (eb_build b' i m) op = Some xs"
  using assms
  by (cases "op_payload op";
      auto simp: builder_extends_def op_inputs_def op_outputs_def inputs_getter_def outputs_getter_def
        allocated_get_inputs_def icall_get_inputs_def icall_get_outputs_def eb_build_def bind_Some
        intro: slice_of_append)+

lemma alloc_locals_total:
  "is_idx (length (eb_locals b) + length ls) \<Longrightarrow>
   alloc_locals ls b = Some (span_new (length (eb_locals b)) (length (eb_locals b) + length ls),
     b\<lparr>eb_locals := eb_locals b @ ls\<rparr>)"
  by (simp add: alloc_locals_def iv_next_idx_def idx_try_from_usize_def is_idx_def u32_max_def)

lemma alloc_u256_total:
  "is_idx (length (eb_large_consts b)) \<Longrightarrow>
   alloc_u256 v b = Some (length (eb_large_consts b), b\<lparr>eb_large_consts := eb_large_consts b @ [v]\<rparr>)"
  by (simp add: alloc_u256_def iv_push_def idx_try_from_usize_def is_idx_def u32_max_def)

lemma new_static_alloc_total:
  "is_idx (Suc (eb_next_alloc_id b)) \<Longrightarrow>
   new_static_alloc b = Some (eb_next_alloc_id b, b\<lparr>eb_next_alloc_id := Suc (eb_next_alloc_id b)\<rparr>)"
  by (simp add: new_static_alloc_def get_and_inc_def idx_add_def add_u32_def idx_new_def is_idx_def)

lemmas builder_totals = alloc_locals_total alloc_u256_total new_static_alloc_total

definition built_ok ::
    "op_shape \<Rightarrow> nat list \<Rightarrow> nat list \<Rightarrow> op_extra_data \<Rightarrow> eth_ir_builder \<Rightarrow> (op_build_error + op_data) \<Rightarrow>
     eth_ir_builder \<Rightarrow> bool" where
  "built_ok sh ins outs extra b r b' \<longleftrightarrow>
     builder_extends b b'
     \<and> (case r of
          Inl e \<Rightarrow> \<not> request_ok sh (length ins) (length outs) extra b
        | Inr d \<Rightarrow> request_ok sh (length ins) (length outs) extra b \<and> payload_has_shape sh d
            \<and> (\<forall>i m. visit_data (inputs_getter (eb_build b' i m)) d = Some ins
                 \<and> visit_data (outputs_getter (eb_build b' i m)) d = Some outs))"

lemma build_inline_ok: "built_ok (InlineShape n m) ins outs extra b (build_inline n m ins outs extra) b"
  by (auto simp: built_ok_def build_inline_def request_ok_def payload_has_shape_def inputs_getter_def
      outputs_getter_def)

lemma build_void_ok: "built_ok VoidShape ins outs extra b (build_void ins outs extra) b"
  by (auto simp: built_ok_def build_void_def check_counts_def check_ins_count_def check_outs_count_def
      request_ok_def payload_has_shape_def inputs_getter_def outputs_getter_def)

lemma build_allocated_ok:
  assumes "builder_room ins outs b"
  shows "\<exists>r b'. build_allocated n m ins outs extra b = Some (r, b') \<and> built_ok (AllocatedShape n m) ins outs extra b r b'"
proof -
  have "is_idx (length (eb_locals b) + length ins)"
    using assms by (auto simp: builder_room_def is_idx_def)
  then show ?thesis
    using slice_of_tail [of "eb_locals b" ins]
    by (auto simp: built_ok_def build_allocated_def check_ins_count_def request_ok_def payload_has_shape_def
        inputs_getter_def outputs_getter_def alloc_locals_total idx_sub_idx_def sub_checked_def span_new_def
        allocated_get_inputs_def eb_build_def builder_extends_locals)
qed

lemma one_output: "length outs = Suc 0 \<Longrightarrow> [outs ! 0] = outs"
  by (cases outs) simp_all

lemma two_inputs: "length ins = 2 \<Longrightarrow> [ins ! 0, ins ! Suc 0] = ins"
  by (cases ins; cases "tl ins") simp_all

lemmas build_defs = built_ok_def check_counts_def check_ins_count_def check_outs_count_def request_ok_def
  payload_has_shape_def inputs_getter_def outputs_getter_def

lemma unat_u32_le: "unat (x :: u32) \<le> u32_max"
proof -
  have "unat x < 2 ^ 32"
    using unsigned_less [of x] by simp
  then show ?thesis
    by (simp add: u32_max_def)
qed

lemma build_static_alloc_ok:
  assumes "builder_room ins outs b"
  shows "\<exists>r b'. build_static_alloc ins outs extra b = Some (r, b') \<and> built_ok StaticAllocShape ins outs extra b r b'"
proof (cases extra)
  case (ExNum v)
  note unat_u32_le [of "ucast v"]
  then show ?thesis
    using ExNum assms one_output [of outs]
    by (auto simp: build_defs build_static_alloc_def uint256_to_u32_def new_static_alloc_total builder_room_def
        builder_extends_alloc)
qed (simp_all add: build_defs build_static_alloc_def)

lemma io_size_of_u256_Some: "io_size_of_u256 v = Some io \<longleftrightarrow> 1 \<le> unat v \<and> unat v \<le> 32 \<and> io = unat v"
proof -
  have "unat (ucast v :: u8) = unat v" if "unat v < 256"
    using that by (simp add: unsigned_ucast_eq take_bit_nat_eq_self)
  then show ?thesis
    by (auto simp: io_size_of_u256_def io_size_try_from_u8_def)
qed

lemma io_size_of_u256_None: "io_size_of_u256 v = None \<longleftrightarrow> \<not> (1 \<le> unat v \<and> unat v \<le> 32)"
  using io_size_of_u256_Some [of v "unat v"] io_size_of_u256_Some [of v]
  by (cases "io_size_of_u256 v") auto

lemma build_memory_ok:
  shows "\<exists>r b'. build_memory_load ins outs extra b = Some (r, b') \<and> built_ok MemoryLoadShape ins outs extra b r b'"
    and "\<exists>r b'. build_memory_store ins outs extra b = Some (r, b') \<and> built_ok MemoryStoreShape ins outs extra b r b'"
proof -
  show "\<exists>r b'. build_memory_load ins outs extra b = Some (r, b') \<and> built_ok MemoryLoadShape ins outs extra b r b'"
  proof (cases extra)
    case (ExNum v)
    then show ?thesis
      using one_output [of outs] one_output [of ins] io_size_of_u256_Some [of v "unat v"] io_size_of_u256_None [of v]
      by (cases "io_size_of_u256 v") (auto simp: build_defs build_memory_load_def)
  qed (simp_all add: build_defs build_memory_load_def)
  show "\<exists>r b'. build_memory_store ins outs extra b = Some (r, b') \<and> built_ok MemoryStoreShape ins outs extra b r b'"
  proof (cases extra)
    case (ExNum v)
    then show ?thesis
      using two_inputs [of ins] io_size_of_u256_Some [of v "unat v"] io_size_of_u256_None [of v]
      by (cases "io_size_of_u256 v") (auto simp: build_defs build_memory_store_def)
  qed (simp_all add: build_defs build_memory_store_def)
qed

lemma build_const_ok:
  assumes "builder_room ins outs b"
  shows "\<exists>r b'. build_small_const ins outs extra b = Some (r, b') \<and> built_ok SetSmallConstShape ins outs extra b r b'"
    and "\<exists>r b'. build_large_const ins outs extra b = Some (r, b') \<and> built_ok SetLargeConstShape ins outs extra b r b'"
    and "\<exists>r b'. build_data_offset ins outs extra b = Some (r, b') \<and> built_ok SetDataOffsetShape ins outs extra b r b'"
proof -
  show "\<exists>r b'. build_small_const ins outs extra b = Some (r, b') \<and> built_ok SetSmallConstShape ins outs extra b r b'"
    using one_output [of outs] by (cases extra) (auto simp: build_defs build_small_const_def uint256_to_u32_def)
  show "\<exists>r b'. build_large_const ins outs extra b = Some (r, b') \<and> built_ok SetLargeConstShape ins outs extra b r b'"
    using one_output [of outs] assms
    by (cases extra)
      (auto simp: build_defs build_large_const_def alloc_u256_total builder_room_def builder_extends_const)
  show "\<exists>r b'. build_data_offset ins outs extra b = Some (r, b') \<and> built_ok SetDataOffsetShape ins outs extra b r b'"
    using one_output [of outs] by (cases extra) (auto simp: build_defs build_data_offset_def)
qed

lemma build_icall_ok:
  assumes "builder_room ins outs b"
  shows "\<exists>r b'. build_icall ins outs extra b = Some (r, b') \<and> built_ok InternalCallShape ins outs extra b r b'"
proof (cases extra)
  case (ExFuncId f)
  show ?thesis
  proof (cases "get_func b f")
    case None
    then show ?thesis
      using ExFuncId by (simp add: build_icall_def built_ok_def request_ok_def)
  next
    case (Some func)
    then have func: "func \<in> set (eb_functions b)" and f: "f < length (eb_functions b)" "eb_functions b ! f = func"
      by (auto simp: get_func_def get_at_Some)
    then obtain n where n: "fn_get_inputs func (eb_basic_blocks b) = Some n"
      using assms by (auto simp: builder_room_def)
    show ?thesis
    proof (cases "length ins = n \<and> length outs = fn_outputs func")
      case False
      then show ?thesis
        using ExFuncId Some n
        by (auto simp: build_icall_def built_ok_def request_ok_def check_counts_def check_ins_count_def
            check_outs_count_def)
    next
      case True
      have room: "is_idx (length (eb_locals b) + length ins)" "is_idx (length (eb_locals b) + (length ins + length outs))"
        using assms by (auto simp: builder_room_def is_idx_def)
      let ?b = "b\<lparr>eb_locals := eb_locals b @ ins @ outs\<rparr>"
      have "build_icall ins outs extra b = Some (Inr (InternalCallData f (length (eb_locals b))
          (length (eb_locals b) + length ins)), ?b)"
        using ExFuncId Some n True room
        by (simp add: build_icall_def check_counts_def check_ins_count_def check_outs_count_def
            alloc_locals_total span_new_def add.assoc)
      moreover have "built_ok InternalCallShape ins outs extra b (Inr (InternalCallData f (length (eb_locals b))
          (length (eb_locals b) + length ins))) ?b"
        using ExFuncId Some n True f room slice_of_tail [of "eb_locals b" ins]
          slice_of_append [OF slice_of_tail, of "eb_locals b" ins outs] slice_of_tail [of "eb_locals b @ ins" outs]
        by (auto simp: build_defs builder_extends_locals eb_build_def icall_get_inputs_def icall_get_outputs_def
            iv_index_def idx_add_Some bind_Some add.assoc)
      ultimately show ?thesis
        by blast
    qed
  qed
qed (simp_all add: build_icall_def built_ok_def request_ok_def)

lemma try_build_op_ok:
  assumes "builder_room ins outs b"
  shows "\<exists>r b'. try_build_op sh ins outs extra b = Some (r, b') \<and> built_ok sh ins outs extra b r b'"
  using assms build_inline_ok build_void_ok build_allocated_ok build_static_alloc_ok build_memory_ok build_const_ok
    build_icall_ok
  by (cases sh) (simp_all add: try_build_op_def)

text \<open>
  C27. Building an operation.  With room in the index types, \<open>try_build\<close> never panics.  It succeeds
  exactly when the numbers of operands and the extra data are those of the kind; then the operation
  has the kind, is well typed, and reading its inputs and outputs back from the program gives the
  operands it was built from.  Whether it succeeds or fails, the builder only grows: operations
  built before read the same operands.
\<close>

theorem try_build_correct:
  assumes "builder_room ins outs b"
  shows "\<exists>r b'. try_build k ins outs extra b = Some (r, b')
    \<and> ((\<exists>e. r = Inl e) \<longleftrightarrow> \<not> request_ok (operation_shape k) (length ins) (length outs) extra b)
    \<and> (\<forall>op. r = Inr op \<longrightarrow> op_kind op = k \<and> well_typed op
         \<and> op_inputs (eb_build b' i m) op = Some ins \<and> op_outputs (eb_build b' i m) op = Some outs)
    \<and> (\<forall>op xs. op_inputs (eb_build b i m) op = Some xs \<longrightarrow> op_inputs (eb_build b' i m) op = Some xs)
    \<and> (\<forall>op xs. op_outputs (eb_build b i m) op = Some xs \<longrightarrow> op_outputs (eb_build b' i m) op = Some xs)"
proof -
  obtain r b' where r: "try_build_op (operation_shape k) ins outs extra b = Some (r, b')"
    and ok: "built_ok (operation_shape k) ins outs extra b r b'"
    using try_build_op_ok [OF assms] by blast
  have ext: "builder_extends b b'"
    using ok by (simp add: built_ok_def)
  show ?thesis
    using r ok builder_extends_operands [OF ext, of i m]
    by (cases r) (auto simp: try_build_def built_ok_def well_typed_def op_inputs_def op_outputs_def)
qed

text \<open>A store of one byte; and a load with no output.\<close>

lemma try_build_correct_witness:
  "(\<exists>op b'. try_build KMemoryStore [3, 4] [] (ExNum 1) eb_new = Some (Inr op, b') \<and> well_typed op
      \<and> op_inputs (eb_build b' 0 None) op = Some [3, 4])
   \<and> (\<exists>e b'. try_build KMemoryStore [3] [] (ExNum 1) eb_new = Some (Inl e, b'))"
proof -
  have room: "builder_room [3, 4] [] eb_new" "builder_room [3] [] eb_new"
    by (simp_all add: builder_room_def eb_new_def is_idx_def u32_max_def)
  have shape: "operation_shape KMemoryStore = MemoryStoreShape"
    by (simp add: operation_shape_def operation_table_def)
  obtain r b' where "try_build KMemoryStore [3, 4] [] (ExNum 1) eb_new = Some (r, b')"
    "\<nexists>e. r = Inl e" "\<forall>op. r = Inr op \<longrightarrow> well_typed op \<and> op_inputs (eb_build b' 0 None) op = Some [3, 4]"
    using try_build_correct [OF room(1), of KMemoryStore "ExNum 1" 0 None]
    by (fastforce simp: shape request_ok_def)
  moreover from this(2) obtain op where "r = Inr op"
    by (cases r) auto
  moreover obtain e b'' where "try_build KMemoryStore [3] [] (ExNum 1) eb_new = Some (Inl e, b'')"
    using try_build_correct [OF room(2), of KMemoryStore "ExNum 1" 0 None]
    by (auto simp: shape request_ok_def)
  ultimately show ?thesis
    by auto
qed

end
