(* ===== verification/Sir_Blocks.thy ===== *)
theory Sir_Blocks
  imports Sir_Builder
begin

text \<open>
  The builders of functions, blocks and switches (\<open>FunctionBuilder\<close>, \<open>BasicBlockBuilder\<close>,
  \<open>SwitchBuilder\<close> of \<open>sir/crates/data/src/builder.rs\<close>).
\<close>

datatype build_error =
    ConflictingFunctionOutputs nat nat
  | TerminatingBlockWithoutOp
  | SettingControlForNonPlaceholder

record function_builder =
  fb_first_bb :: nat
  fb_last_bb :: nat
  fb_outputs :: "nat option"

record block_builder =
  kb_operations :: span
  kb_inputs :: span
  kb_outputs :: span

record switch_builder =
  sb_values_start :: nat
  sb_targets_start :: nat
  sb_cases_count :: nat

section \<open>Functions\<close>

definition begin_function :: "eth_ir_builder \<Rightarrow> function_builder panics" where
  "begin_function b =
     do { next_bb \<leftarrow> iv_next_idx (eb_basic_blocks b);
          Some \<lparr>fb_first_bb = next_bb, fb_last_bb = next_bb, fb_outputs = None\<rparr> }"

definition begin_basic_block :: "eth_ir_builder \<Rightarrow> block_builder panics" where
  "begin_basic_block b =
     do { next_op \<leftarrow> iv_next_idx (eb_operations b);
          next_l \<leftarrow> iv_next_idx (eb_locals b);
          Some \<lparr>kb_operations = span_new next_op next_op, kb_inputs = span_new next_l next_l,
                kb_outputs = span_new next_l next_l\<rparr> }"

definition track_bb_internal_return ::
    "basic_block \<Rightarrow> function_builder \<Rightarrow> ((build_error + unit) \<times> function_builder) panics" where
  "track_bb_internal_return bb fb =
     do { implied \<leftarrow> implied_fn_out bb;
          Some (case implied of
              None \<Rightarrow> (Inr (), fb)
            | Some implied_out \<Rightarrow>
                (case fb_outputs fb of
                   Some set_outputs \<Rightarrow>
                     if set_outputs \<noteq> implied_out then (Inl (ConflictingFunctionOutputs set_outputs implied_out), fb)
                     else (Inr (), fb\<lparr>fb_outputs := Some implied_out\<rparr>)
                 | None \<Rightarrow> (Inr (), fb\<lparr>fb_outputs := Some implied_out\<rparr>))) }"

definition validate_terminating :: "basic_block \<Rightarrow> eth_ir_builder \<Rightarrow> (build_error + unit) panics" where
  "validate_terminating bb b =
     (if bb_control bb \<noteq> LastOpTerminates then Some (Inr ())
      else do { ops \<leftarrow> iv_index_span (eb_operations b) (bb_operations bb);
                Some (if ops = [] \<or> \<not> is_terminating (op_kind (last ops)) then Inl TerminatingBlockWithoutOp
                      else Inr ()) })"

text \<open>\<open>Vec::swap_remove\<close>\<close>

definition swap_remove :: "'a list \<Rightarrow> nat \<Rightarrow> 'a list" where
  "swap_remove xs i = (if i = length xs - 1 then butlast xs else butlast (xs[i := last xs]))"

type_synonym 'a fn_built = "((build_error + 'a) \<times> function_builder \<times> eth_ir_builder) panics"

definition set_fn_control :: "nat \<Rightarrow> control \<Rightarrow> function_builder \<Rightarrow> eth_ir_builder \<Rightarrow> unit fn_built" where
  "set_fn_control bb_id c fb b =
     (case position (\<lambda>i. i = bb_id) (eb_placeholder_control_blocks b) of
        None \<Rightarrow> Some (Inl SettingControlForNonPlaceholder, fb, b)
      | Some p \<Rightarrow>
          do { let b = b\<lparr>eb_placeholder_control_blocks := swap_remove (eb_placeholder_control_blocks b) p\<rparr>;
               bb \<leftarrow> iv_index (eb_basic_blocks b) bb_id;
               let bb = bb\<lparr>bb_control := c\<rparr>;
               blocks \<leftarrow> iv_set (eb_basic_blocks b) bb_id bb;
               let b = b\<lparr>eb_basic_blocks := blocks\<rparr>;
               r \<leftarrow> validate_terminating bb b;
               case r of
                 Inl e \<Rightarrow> Some (Inl e, fb, b)
               | Inr _ \<Rightarrow>
                   do { (r, fb) \<leftarrow> track_bb_internal_return bb fb; Some (r, fb, b) } })"

definition push_block ::
    "basic_block \<Rightarrow> function_builder \<Rightarrow> eth_ir_builder \<Rightarrow> (nat \<times> function_builder \<times> eth_ir_builder) panics" where
  "push_block bb fb b =
     do { (bb_id, blocks) \<leftarrow> iv_push (eb_basic_blocks b) bb;
          ensure (bb_id = fb_last_bb fb);
          last_bb \<leftarrow> iv_next_idx blocks;
          Some (bb_id, fb\<lparr>fb_last_bb := last_bb\<rparr>, b\<lparr>eb_basic_blocks := blocks\<rparr>) }"

definition finish_function ::
    "nat \<Rightarrow> nat option \<Rightarrow> function_builder \<Rightarrow> eth_ir_builder \<Rightarrow> (nat \<times> eth_ir_builder) panics" where
  "finish_function entry source fb b =
     do { end_bb \<leftarrow> iv_next_idx (eb_basic_blocks b);
          ensure (fb_first_bb fb \<le> entry \<and> entry < end_bb);
          ensure (eb_placeholder_control_blocks b = []);
          (f, fns) \<leftarrow> iv_push (eb_functions b)
            \<lparr>fn_entry = entry, fn_outputs = (case fb_outputs fb of Some n \<Rightarrow> n | None \<Rightarrow> 0), fn_source = source\<rparr>;
          Some (f, b\<lparr>eb_functions := fns\<rparr>) }"

section \<open>Blocks\<close>

definition add_operation ::
    "operation \<Rightarrow> block_builder \<Rightarrow> eth_ir_builder \<Rightarrow> (nat \<times> block_builder \<times> eth_ir_builder) panics" where
  "add_operation op kb b =
     do { (idx, ops) \<leftarrow> iv_push (eb_operations b) op;
          ensure (idx = sp_end (kb_operations kb));
          e \<leftarrow> iv_next_idx ops;
          Some (idx, kb\<lparr>kb_operations := (kb_operations kb)\<lparr>sp_end := e\<rparr>\<rparr>, b\<lparr>eb_operations := ops\<rparr>) }"

definition try_add_op ::
    "operation_kind \<Rightarrow> nat list \<Rightarrow> nat list \<Rightarrow> op_extra_data \<Rightarrow> block_builder \<Rightarrow> eth_ir_builder
     \<Rightarrow> ((op_build_error + unit) \<times> block_builder \<times> eth_ir_builder) panics" where
  "try_add_op kind ins outs extra kb b =
     do { (r, b) \<leftarrow> try_build kind ins outs extra b;
          case r of
            Inl e \<Rightarrow> Some (Inl e, kb, b)
          | Inr op \<Rightarrow> do { (idx, kb, b) \<leftarrow> add_operation op kb b; Some (Inr (), kb, b) } }"

definition add_set_const_op ::
    "nat \<Rightarrow> u256 \<Rightarrow> block_builder \<Rightarrow> eth_ir_builder \<Rightarrow> (nat \<times> block_builder \<times> eth_ir_builder) panics" where
  "add_set_const_op sets v kb b =
     (if unat v \<le> u32_max then
        add_operation \<lparr>op_kind = KSetSmallConst, op_payload = SetSmallConstData sets (ucast v)\<rparr> kb b
      else
        do { (cid, b) \<leftarrow> alloc_u256 v b;
             add_operation \<lparr>op_kind = KSetLargeConst, op_payload = SetLargeConstData sets cid\<rparr> kb b })"

definition overwrite_span_via_copy :: "span \<Rightarrow> 'a list \<Rightarrow> 'a list \<Rightarrow> (span \<times> 'a list) panics" where
  "overwrite_span_via_copy s backing new_values =
     do { len \<leftarrow> sub_checked (sp_end s) (sp_start s);
          if length new_values \<le> len then
            do { old \<leftarrow> slice_of backing (sp_start s) (sp_end s);
                 xs \<leftarrow> put_slice backing (sp_start s) (sp_start s + length new_values) new_values;
                 e \<leftarrow> idx_add (sp_start s) (length new_values);
                 Some (s\<lparr>sp_end := e\<rparr>, xs) }
          else
            do { n \<leftarrow> iv_next_idx backing;
                 if sp_end s = n then
                   do { xs \<leftarrow> put_slice backing (sp_start s) (sp_end s) (take len new_values);
                        let xs = xs @ drop len new_values;
                        e \<leftarrow> iv_next_idx xs;
                        Some (s\<lparr>sp_end := e\<rparr>, xs) }
                 else
                   do { let xs = backing @ new_values;
                        e \<leftarrow> iv_next_idx xs;
                        Some (span_new n e, xs) } } }"

definition set_inputs :: "nat list \<Rightarrow> block_builder \<Rightarrow> eth_ir_builder \<Rightarrow> (block_builder \<times> eth_ir_builder) panics" where
  "set_inputs new kb b =
     do { (s, ls) \<leftarrow> overwrite_span_via_copy (kb_inputs kb) (eb_locals b) new;
          Some (kb\<lparr>kb_inputs := s\<rparr>, b\<lparr>eb_locals := ls\<rparr>) }"

definition set_outputs :: "nat list \<Rightarrow> block_builder \<Rightarrow> eth_ir_builder \<Rightarrow> (block_builder \<times> eth_ir_builder) panics" where
  "set_outputs new kb b =
     do { (s, ls) \<leftarrow> overwrite_span_via_copy (kb_outputs kb) (eb_locals b) new;
          Some (kb\<lparr>kb_outputs := s\<rparr>, b\<lparr>eb_locals := ls\<rparr>) }"

definition finish_block ::
    "control \<Rightarrow> block_builder \<Rightarrow> function_builder \<Rightarrow> eth_ir_builder
     \<Rightarrow> (nat \<times> basic_block \<times> function_builder \<times> eth_ir_builder) panics" where
  "finish_block c kb fb b =
     do { let bb = \<lparr>bb_inputs = kb_inputs kb, bb_outputs = kb_outputs kb, bb_operations = kb_operations kb,
                    bb_control = c\<rparr>;
          (bb_id, fb, b) \<leftarrow> push_block bb fb b;
          Some (bb_id, bb, fb, b) }"

definition finish_with_internal_return ::
    "block_builder \<Rightarrow> function_builder \<Rightarrow> eth_ir_builder \<Rightarrow> nat fn_built" where
  "finish_with_internal_return kb fb b =
     do { (bb_id, bb, fb, b) \<leftarrow> finish_block InternalReturn kb fb b;
          (r, fb) \<leftarrow> track_bb_internal_return bb fb;
          Some (case r of Inl e \<Rightarrow> Inl e | Inr _ \<Rightarrow> Inr bb_id, fb, b) }"

definition finish_terminating :: "block_builder \<Rightarrow> function_builder \<Rightarrow> eth_ir_builder \<Rightarrow> nat fn_built" where
  "finish_terminating kb fb b =
     do { (bb_id, bb, fb, b) \<leftarrow> finish_block LastOpTerminates kb fb b;
          r \<leftarrow> validate_terminating bb b;
          Some (case r of Inl e \<Rightarrow> Inl e | Inr _ \<Rightarrow> Inr bb_id, fb, b) }"

text \<open>\<open>finish_with_continues_to\<close>, \<open>finish_with_branch\<close> and \<open>finish_with_switch\<close>.\<close>

definition finish_with ::
    "control \<Rightarrow> block_builder \<Rightarrow> function_builder \<Rightarrow> eth_ir_builder
     \<Rightarrow> (nat \<times> function_builder \<times> eth_ir_builder) panics" where
  "finish_with c kb fb b = do { (bb_id, bb, fb, b) \<leftarrow> finish_block c kb fb b; Some (bb_id, fb, b) }"

definition finish_with_placeholder_control ::
    "block_builder \<Rightarrow> function_builder \<Rightarrow> eth_ir_builder \<Rightarrow> (nat \<times> function_builder \<times> eth_ir_builder) panics" where
  "finish_with_placeholder_control kb fb b =
     do { (bb_id, bb, fb, b) \<leftarrow> finish_block LastOpTerminates kb fb b;
          Some (bb_id, fb, b\<lparr>eb_placeholder_control_blocks := eb_placeholder_control_blocks b @ [bb_id]\<rparr>) }"

section \<open>Switches\<close>

definition begin_switch :: "eth_ir_builder \<Rightarrow> switch_builder panics" where
  "begin_switch b =
     do { vs \<leftarrow> iv_next_idx (eb_large_consts b);
          ts \<leftarrow> iv_next_idx (eb_cases_bb_ids b);
          Some \<lparr>sb_values_start = vs, sb_targets_start = ts, sb_cases_count = 0\<rparr> }"

definition push_case ::
    "u256 \<times> nat \<Rightarrow> switch_builder \<times> eth_ir_builder \<Rightarrow> (switch_builder \<times> eth_ir_builder) panics" where
  "push_case = (\<lambda>(v, target) (sb, b).
     do { (value_idx, b) \<leftarrow> alloc_u256 v b;
          expected \<leftarrow> idx_add (sb_values_start sb) (sb_cases_count sb);
          ensure (value_idx = expected);
          (target_idx, ts) \<leftarrow> iv_push (eb_cases_bb_ids b) target;
          expected \<leftarrow> idx_add (sb_targets_start sb) (sb_cases_count sb);
          ensure (target_idx = expected);
          n \<leftarrow> add_u32 (sb_cases_count sb) 1;
          Some (sb\<lparr>sb_cases_count := n\<rparr>, b\<lparr>eb_cases_bb_ids := ts\<rparr>) })"

definition finish_switch ::
    "nat \<Rightarrow> nat option \<Rightarrow> switch_builder \<times> eth_ir_builder \<Rightarrow> (switch \<times> eth_ir_builder) panics" where
  "finish_switch condition fallback = (\<lambda>(sb, b).
     do { (cases_id, cs) \<leftarrow> iv_push (eb_cases b)
            \<lparr>cs_values_start_id = sb_values_start sb, cs_targets_start_id = sb_targets_start sb,
             cs_count = sb_cases_count sb\<rparr>;
          Some (\<lparr>sw_condition = condition, sw_fallback = fallback, sw_cases = cases_id\<rparr>, b\<lparr>eb_cases := cs\<rparr>) })"

section \<open>Overwriting a span\<close>

lemma put_slice_nth:
  "put_slice xs s e new = Some ys \<Longrightarrow> i < length xs \<Longrightarrow>
   ys ! i = (if s \<le> i \<and> i < e then new ! (i - s) else xs ! i)"
  by (auto simp: put_slice_Some nth_append)

lemma put_slice_length: "put_slice xs s e new = Some ys \<Longrightarrow> length ys = length xs"
  by (auto simp: put_slice_Some)

text \<open>
  The new span reads the new values, it takes only positions of the old span or behind the old end,
  and nothing else changes.
\<close>

definition overwritten :: "span \<Rightarrow> 'a list \<Rightarrow> 'a list \<Rightarrow> span \<Rightarrow> 'a list \<Rightarrow> bool" where
  "overwritten s xs new s' ys \<longleftrightarrow>
     sp_start s' \<le> sp_end s' \<and> sp_end s' \<le> length ys \<and> slice_of ys (sp_start s') (sp_end s') = Some new
     \<and> length xs \<le> length ys \<and> length ys \<le> length xs + length new
     \<and> (\<forall>i < length xs. \<not> (sp_start s \<le> i \<and> i < sp_end s) \<longrightarrow> ys ! i = xs ! i)
     \<and> (\<forall>i. sp_start s' \<le> i \<and> i < sp_end s' \<longrightarrow> (sp_start s \<le> i \<and> i < sp_end s) \<or> length xs \<le> i)"

lemma overwritten_shorter:
  assumes "sp_start s + length new \<le> sp_end s" and "sp_end s \<le> length xs"
    and "put_slice xs (sp_start s) (sp_start s + length new) new = Some ys"
  shows "overwritten s xs new (s\<lparr>sp_end := sp_start s + length new\<rparr>) ys"
  using assms put_slice_length [OF assms(3)] put_slice_nth [OF assms(3)] slice_put_slice [OF assms(3)]
  by (auto simp: overwritten_def)

lemma overwritten_last:
  assumes "sp_start s \<le> sp_end s" and "sp_end s = length xs" and "sp_end s - sp_start s \<le> length new"
    and "put_slice xs (sp_start s) (sp_end s) (take (sp_end s - sp_start s) new) = Some ys"
  shows "overwritten s xs new (s\<lparr>sp_end := length ys + (length new - (sp_end s - sp_start s))\<rparr>)
    (ys @ drop (sp_end s - sp_start s) new)"
proof -
  have len: "length ys = length xs"
    using put_slice_length [OF assms(4)] .
  have "ys = take (sp_start s) xs @ take (sp_end s - sp_start s) new"
    using assms by (auto simp: put_slice_Some)
  then have "ys @ drop (sp_end s - sp_start s) new = take (sp_start s) xs @ new"
    by simp
  then have "slice_of (ys @ drop (sp_end s - sp_start s) new) (sp_start s)
      (length ys + (length new - (sp_end s - sp_start s))) = Some new"
    using assms(1-3) len by (simp add: slice_of_def)
  then show ?thesis
    using assms(1-3) len put_slice_nth [OF assms(4)] by (auto simp: overwritten_def nth_append)
qed

lemma overwritten_append:
  "sp_end s \<le> length xs \<Longrightarrow> overwritten s xs new (span_new (length xs) (length xs + length new)) (xs @ new)"
  using slice_of_tail [of xs new] by (simp add: overwritten_def span_new_def nth_append)

lemma overwrite_span_total:
  assumes "sp_start s \<le> sp_end s" and "sp_end s \<le> length xs" and "is_idx (length xs + length new)"
  shows "\<exists>s' ys. overwrite_span_via_copy s xs new = Some (s', ys) \<and> overwritten s xs new s' ys"
proof -
  let ?len = "sp_end s - sp_start s"
  have idx: "is_idx (length xs)" "is_idx (sp_start s + length new)"
    using assms by (auto simp: is_idx_def)
  have len: "sub_checked (sp_end s) (sp_start s) = Some ?len"
    using assms(1) by (simp add: sub_checked_def)
  consider "length new \<le> ?len" | "?len < length new" "sp_end s = length xs" | "?len < length new" "sp_end s \<noteq> length xs"
    by linarith
  then show ?thesis
  proof cases
    case 1
    then have fits: "sp_start s + length new \<le> sp_end s"
      using assms(1) by linarith
    then obtain ys where ys: "put_slice xs (sp_start s) (sp_start s + length new) new = Some ys"
      using assms(2) by (simp add: put_slice_Some)
    then show ?thesis
      using 1 len idx(2) overwritten_shorter [OF fits assms(2) ys]
      using assms(1,2) by (simp add: overwrite_span_via_copy_def slice_of_def idx_add_Some bind_Some)
  next
    case 2
    obtain ys where ys: "put_slice xs (sp_start s) (sp_end s) (take ?len new) = Some ys"
      using 2 assms by (simp add: put_slice_Some)
    have next_idx: "iv_next_idx (ys @ drop ?len new) = Some (length ys + (length new - ?len))"
      using assms 2 by (simp add: iv_next_idx_Some put_slice_length [OF ys] is_idx_def)
    have "iv_next_idx xs = Some (sp_end s)"
      using idx(1) 2(2) by (simp add: iv_next_idx_Some)
    then have "overwrite_span_via_copy s xs new =
        Some (s\<lparr>sp_end := length ys + (length new - ?len)\<rparr>, ys @ drop ?len new)"
      using 2(1) len ys next_idx unfolding overwrite_span_via_copy_def by (simp add: Let_def)
    then show ?thesis
      using overwritten_last [OF assms(1) 2(2) less_imp_le [OF 2(1)] ys] by blast
  next
    case 3
    then show ?thesis
      using len idx(1) assms(2,3) overwritten_append [OF assms(2), of new]
      by (simp add: overwrite_span_via_copy_def iv_next_idx_Some bind_Some Let_def)
  qed
qed

section \<open>A block under construction\<close>

definition span_ok :: "span \<Rightarrow> 'a list \<Rightarrow> 'a list \<Rightarrow> bool" where
  "span_ok s xs ys \<longleftrightarrow> sp_start s \<le> sp_end s \<and> sp_end s \<le> length xs \<and> slice_of xs (sp_start s) (sp_end s) = Some ys"

definition spans_apart :: "span \<Rightarrow> span \<Rightarrow> bool" where
  "spans_apart s t \<longleftrightarrow> (\<forall>i. \<not> (sp_start s \<le> i \<and> i < sp_end s \<and> sp_start t \<le> i \<and> i < sp_end t))"

definition block_rep :: "block_builder \<Rightarrow> eth_ir_builder \<Rightarrow> nat list \<Rightarrow> nat list \<Rightarrow> nat \<Rightarrow> bool" where
  "block_rep kb b ins outs n \<longleftrightarrow>
     span_ok (kb_inputs kb) (eb_locals b) ins \<and> span_ok (kb_outputs kb) (eb_locals b) outs
     \<and> spans_apart (kb_inputs kb) (kb_outputs kb)
     \<and> sp_start (kb_operations kb) = n \<and> n \<le> length (eb_operations b)
     \<and> sp_end (kb_operations kb) = length (eb_operations b)"

lemma span_ok_other:
  assumes "span_ok t xs zs" and "overwritten s xs new s' ys" and "spans_apart s t"
  shows "span_ok t ys zs"
proof -
  have bounds: "sp_end t \<le> length xs" "length xs \<le> length ys"
    using assms(1,2) by (simp_all add: span_ok_def overwritten_def)
  have "ys ! (sp_start t + i) = xs ! (sp_start t + i)" if "i < sp_end t - sp_start t" for i
  proof -
    have "sp_start t \<le> sp_start t + i \<and> sp_start t + i < sp_end t"
      using that by simp
    then show ?thesis
      using assms(2,3) bounds(1) unfolding overwritten_def spans_apart_def by (meson less_le_trans)
  qed
  then have "take (sp_end t - sp_start t) (drop (sp_start t) ys) = take (sp_end t - sp_start t) (drop (sp_start t) xs)"
    using bounds by (intro nth_equalityI) auto
  then show ?thesis
    using assms(1,2) by (auto simp: span_ok_def overwritten_def slice_of_def)
qed

lemma spans_apart_overwritten:
  "spans_apart s t \<Longrightarrow> overwritten s xs new s' ys \<Longrightarrow> span_ok t xs zs \<Longrightarrow> spans_apart s' t"
  unfolding spans_apart_def overwritten_def span_ok_def by (meson leD less_le_trans)

lemma spans_apart_sym: "spans_apart s t \<Longrightarrow> spans_apart t s"
  by (auto simp: spans_apart_def)

lemma begin_basic_block_rep:
  assumes "is_idx (length (eb_operations b))" and "is_idx (length (eb_locals b))"
  shows "\<exists>kb. begin_basic_block b = Some kb \<and> block_rep kb b [] [] (length (eb_operations b))"
  using assms
  by (auto simp: begin_basic_block_def iv_next_idx_Some bind_Some block_rep_def span_ok_def spans_apart_def
      span_new_def slice_of_def)

lemma set_inputs_rep:
  assumes "block_rep kb b ins outs n" and "is_idx (length (eb_locals b) + length new)"
  shows "\<exists>kb' b'. set_inputs new kb b = Some (kb', b') \<and> block_rep kb' b' new outs n"
proof -
  have spans: "span_ok (kb_inputs kb) (eb_locals b) ins" "span_ok (kb_outputs kb) (eb_locals b) outs"
    "spans_apart (kb_inputs kb) (kb_outputs kb)"
    using assms(1) by (simp_all add: block_rep_def)
  then obtain s ys where run: "overwrite_span_via_copy (kb_inputs kb) (eb_locals b) new = Some (s, ys)"
    and ow: "overwritten (kb_inputs kb) (eb_locals b) new s ys"
    using overwrite_span_total [of "kb_inputs kb" "eb_locals b" new] assms(2) by (auto simp: span_ok_def)
  then show ?thesis
    using assms(1) spans_apart_overwritten [OF spans(3) ow spans(2)] span_ok_other [OF spans(2) ow spans(3)]
    by (simp add: set_inputs_def block_rep_def span_ok_def overwritten_def)
qed

lemma set_outputs_rep:
  assumes "block_rep kb b ins outs n" and "is_idx (length (eb_locals b) + length new)"
  shows "\<exists>kb' b'. set_outputs new kb b = Some (kb', b') \<and> block_rep kb' b' ins new n"
proof -
  have spans: "span_ok (kb_inputs kb) (eb_locals b) ins" "span_ok (kb_outputs kb) (eb_locals b) outs"
    "spans_apart (kb_outputs kb) (kb_inputs kb)"
    using assms(1) by (simp_all add: block_rep_def spans_apart_sym)
  then obtain s ys where run: "overwrite_span_via_copy (kb_outputs kb) (eb_locals b) new = Some (s, ys)"
    and ow: "overwritten (kb_outputs kb) (eb_locals b) new s ys"
    using overwrite_span_total [of "kb_outputs kb" "eb_locals b" new] assms(2) by (auto simp: span_ok_def)
  then show ?thesis
    using assms(1) spans_apart_sym [OF spans_apart_overwritten [OF spans(3) ow spans(1)]]
      span_ok_other [OF spans(1) ow spans(3)]
    by (simp add: set_outputs_def block_rep_def span_ok_def overwritten_def)
qed

lemma add_operation_rep:
  assumes "block_rep kb b ins outs n" and "is_idx (Suc (length (eb_operations b)))"
  shows "\<exists>kb' b'. add_operation op kb b = Some (length (eb_operations b), kb', b') \<and> block_rep kb' b' ins outs n
    \<and> eb_operations b' = eb_operations b @ [op]"
proof -
  have "is_idx (length (eb_operations b))"
    using assms(2) by (simp add: is_idx_def)
  then show ?thesis
    using assms by (simp add: add_operation_def iv_push_Some iv_next_idx_Some bind_Some block_rep_def)
qed

lemma finish_block_rep:
  assumes "block_rep kb b ins outs n" and "fb_last_bb fb = length (eb_basic_blocks b)"
    and "is_idx (Suc (length (eb_basic_blocks b)))" and "is_idx (length (eb_operations b))"
  shows "\<exists>bb fb' b'. finish_block c kb fb b = Some (length (eb_basic_blocks b), bb, fb', b')
    \<and> fb_last_bb fb' = length (eb_basic_blocks b') \<and> eb_basic_blocks b' = eb_basic_blocks b @ [bb]
    \<and> block_inputs (eb_build b' i m) (length (eb_basic_blocks b)) = Some ins
    \<and> block_outputs (eb_build b' i m) (length (eb_basic_blocks b)) = Some outs
    \<and> block_operations (eb_build b' i m) (length (eb_basic_blocks b)) = Some [n..<length (eb_operations b)]
    \<and> block_control (eb_build b' i m) (length (eb_basic_blocks b)) = Some c"
proof -
  have "is_idx (length (eb_basic_blocks b))"
    using assms(3) by (simp add: is_idx_def)
  then show ?thesis
    using assms
    by (simp add: finish_block_def push_block_def Let_def iv_push_Some iv_next_idx_Some bind_Some block_rep_def
        span_ok_def eb_build_def block_inputs_def block_outputs_def block_operations_def block_control_def
        iv_index_def iv_index_span_def span_iter_eq)
qed

text \<open>
  C28. Building a block.  Whatever is set in whatever order, a block under construction holds exactly
  the inputs and outputs set last, in slices of the locals that do not overlap, and the contiguous
  operations added since it was begun; \<open>finish\<close> appends one block with the next id that reads back
  as these inputs, outputs, operations and the given control.
\<close>

theorem block_builder_correct:
  assumes "block_rep kb b ins outs n" and "is_idx (length (eb_locals b) + length new)"
    and "is_idx (Suc (length (eb_operations b)))" and "is_idx (Suc (length (eb_basic_blocks b)))"
    and "fb_last_bb fb = length (eb_basic_blocks b)"
  shows "(\<exists>kb' b'. set_inputs new kb b = Some (kb', b') \<and> block_rep kb' b' new outs n)
    \<and> (\<exists>kb' b'. set_outputs new kb b = Some (kb', b') \<and> block_rep kb' b' ins new n)
    \<and> (\<exists>kb' b'. add_operation op kb b = Some (length (eb_operations b), kb', b') \<and> block_rep kb' b' ins outs n
        \<and> eb_operations b' = eb_operations b @ [op])
    \<and> (\<exists>bb fb' b'. finish_block c kb fb b = Some (length (eb_basic_blocks b), bb, fb', b')
        \<and> fb_last_bb fb' = length (eb_basic_blocks b') \<and> eb_basic_blocks b' = eb_basic_blocks b @ [bb]
        \<and> block_inputs (eb_build b' i m) (length (eb_basic_blocks b)) = Some ins
        \<and> block_outputs (eb_build b' i m) (length (eb_basic_blocks b)) = Some outs
        \<and> block_operations (eb_build b' i m) (length (eb_basic_blocks b)) = Some [n..<length (eb_operations b)]
        \<and> block_control (eb_build b' i m) (length (eb_basic_blocks b)) = Some c)"
proof -
  have "is_idx (length (eb_operations b))"
    using assms(3) by (simp add: is_idx_def)
  then show ?thesis
    using set_inputs_rep [OF assms(1,2)] set_outputs_rep [OF assms(1,2)] add_operation_rep [OF assms(1,3)]
      finish_block_rep [OF assms(1,5,4), where c = c and i = i and m = m] by simp
qed

lemma block_builder_correct_witness:
  "\<exists>kb b'. set_inputs [5, 6] \<lparr>kb_operations = span_new 0 0, kb_inputs = span_new 0 0, kb_outputs = span_new 0 0\<rparr>
     eb_new = Some (kb, b') \<and> block_rep kb b' [5, 6] [] 0"
proof -
  obtain kb where kb: "begin_basic_block eb_new = Some kb" "block_rep kb eb_new [] [] 0"
    using begin_basic_block_rep [of eb_new] by (auto simp: eb_new_def is_idx_def u32_max_def)
  then have "kb = \<lparr>kb_operations = span_new 0 0, kb_inputs = span_new 0 0, kb_outputs = span_new 0 0\<rparr>"
    by (auto simp: begin_basic_block_def bind_Some iv_next_idx_Some eb_new_def)
  then show ?thesis
    using block_builder_correct [OF kb(2), of "[5, 6]" "\<lparr>fb_first_bb = 0, fb_last_bb = 0, fb_outputs = None\<rparr>"]
    by (simp add: eb_new_def is_idx_def u32_max_def)
qed

section \<open>A switch under construction\<close>

definition switch_rep :: "switch_builder \<Rightarrow> eth_ir_builder \<Rightarrow> (u256 \<times> nat) list \<Rightarrow> bool" where
  "switch_rep sb b cs \<longleftrightarrow>
     (\<exists>vs ts. eb_large_consts b = vs @ map fst cs \<and> eb_cases_bb_ids b = ts @ map snd cs
       \<and> sb_values_start sb = length vs \<and> sb_targets_start sb = length ts \<and> sb_cases_count sb = length cs)"

definition switch_room :: "eth_ir_builder \<Rightarrow> nat \<Rightarrow> bool" where
  "switch_room b k \<longleftrightarrow>
     is_idx (length (eb_large_consts b) + k) \<and> is_idx (length (eb_cases_bb_ids b) + k) \<and> is_idx (length (eb_cases b))"

lemma push_case_rep:
  assumes "switch_rep sb b cs" and "switch_room b (Suc k)"
  shows "\<exists>sb' b'. push_case c (sb, b) = Some (sb', b') \<and> switch_rep sb' b' (cs @ [c]) \<and> switch_room b' k
    \<and> eb_cases b' = eb_cases b"
proof -
  obtain vs ts where vs: "eb_large_consts b = vs @ map fst cs" "eb_cases_bb_ids b = ts @ map snd cs"
    "sb_values_start sb = length vs" "sb_targets_start sb = length ts" "sb_cases_count sb = length cs"
    using assms(1) by (auto simp: switch_rep_def)
  obtain v t where c: "c = (v, t)"
    by fastforce
  have "is_idx (length vs + length cs)" "is_idx (length ts + length cs)" "length cs + 1 \<le> u32_max"
    using assms(2) vs by (auto simp: switch_room_def is_idx_def)
  then show ?thesis
    using vs assms(2) c
    by (simp add: push_case_def alloc_u256_def iv_push_Some idx_add_Some add_u32_Some bind_Some switch_rep_def
        switch_room_def)
qed

lemma push_cases_rep:
  "switch_rep sb b cs \<Longrightarrow> switch_room b (length ds) \<Longrightarrow>
   \<exists>sb' b'. fold_panics push_case ds (sb, b) = Some (sb', b') \<and> switch_rep sb' b' (cs @ ds) \<and> switch_room b' 0
     \<and> eb_cases b' = eb_cases b"
proof (induction ds arbitrary: sb b cs)
  case (Cons d ds)
  obtain sb1 b1 where step: "push_case d (sb, b) = Some (sb1, b1)" "switch_rep sb1 b1 (cs @ [d])"
    "switch_room b1 (length ds)" "eb_cases b1 = eb_cases b"
    using push_case_rep [OF Cons.prems(1)] Cons.prems(2) by fastforce
  then show ?case
    using Cons.IH [OF step(2,3)] by simp
qed simp

text \<open>
  Building a switch.  The switch that is finished after any sequence of cases has these cases, in
  order, as the values and targets it iterates over, its condition and its fallback, and its cases
  get the next id.
\<close>

theorem switch_builder_correct:
  assumes "switch_room b (length cs)"
  shows "\<exists>sw b'.
    do { sb \<leftarrow> begin_switch b; s \<leftarrow> fold_panics push_case cs (sb, b); finish_switch condition fallback s } = Some (sw, b')
    \<and> switch_cases (eb_build b' i m) sw = Some cs
    \<and> sw_condition sw = condition \<and> sw_fallback sw = fallback \<and> sw_cases sw = length (eb_cases b)"
proof -
  have room: "is_idx (length (eb_large_consts b))" "is_idx (length (eb_cases_bb_ids b))"
    using assms by (auto simp: switch_room_def is_idx_def)
  define sb where "sb = \<lparr>sb_values_start = length (eb_large_consts b),
    sb_targets_start = length (eb_cases_bb_ids b), sb_cases_count = 0\<rparr>"
  have sb: "begin_switch b = Some sb" "switch_rep sb b []"
    using room by (auto simp: begin_switch_def iv_next_idx_Some bind_Some switch_rep_def sb_def)
  obtain sb' b' where run: "fold_panics push_case cs (sb, b) = Some (sb', b')"
    "switch_rep sb' b' cs" "switch_room b' 0" "eb_cases b' = eb_cases b"
    using push_cases_rep [OF sb(2) assms] by auto
  obtain vs ts where vs: "eb_large_consts b' = vs @ map fst cs" "eb_cases_bb_ids b' = ts @ map snd cs"
    "sb_values_start sb' = length vs" "sb_targets_start sb' = length ts" "sb_cases_count sb' = length cs"
    using run(2) by (auto simp: switch_rep_def)
  have drain: "cases_drain (map fst cs) (map snd cs) = cs"
    by (induction cs) auto
  have "is_idx (length vs + length cs)" "is_idx (length ts + length cs)" "is_idx (length (eb_cases b))"
    using run(3,4) vs by (auto simp: switch_room_def)
  then show ?thesis
    using sb(1) run(1,4) vs drain
    by (simp add: finish_switch_def iv_push_Some bind_Some switch_cases_def iv_index_def eb_build_def cases_iter_def
        cases_get_values_def cases_get_bb_ids_def cases_target_indices_def idx_add_Some iv_rel_slice_def span_new_def
        slice_of_def)
qed

lemma switch_builder_correct_witness:
  "\<exists>sw b'.
    do { sb \<leftarrow> begin_switch eb_new; s \<leftarrow> fold_panics push_case [(7, 1), (9, 2)] (sb, eb_new); finish_switch 4 None s }
      = Some (sw, b')
    \<and> switch_cases (eb_build b' 0 None) sw = Some [(7, 1), (9, 2)]"
  using switch_builder_correct [of eb_new "[(7, 1), (9, 2)]" 4 None 0 None]
  by (auto simp: switch_room_def eb_new_def is_idx_def u32_max_def)

end
