(* ===== verification/Cfg_Walk.thy ===== *)
theory Cfg_Walk
  imports Sir_Ir
begin

text \<open>
  The traversals of the graph of basic blocks: \<open>reachability.rs\<close>, \<open>reverse_post_order.rs\<close>,
  \<open>basic_block_ownership.rs\<close> and \<open>predecessors.rs\<close> of \<open>passes/src/analyses\<close>.  The recursive walks take
  fuel for their depth, which never exceeds the number of blocks.  A \<open>DenseIndexSet\<close> is its
  abstract set.
\<close>

section \<open>The analyses\<close>

fun mark_reachable :: "nat \<Rightarrow> eth_ir_program \<Rightarrow> nat \<Rightarrow> nat set \<Rightarrow> nat set panics" where
  "mark_reachable 0 ir b reach = None"
| "mark_reachable (Suc fuel) ir b reach =
     (if b \<in> reach then Some reach
      else do { succs \<leftarrow> block_successors ir b;
                fold_panics (mark_reachable fuel ir) succs (insert b reach) })"

definition compute_reachability :: "nat \<Rightarrow> eth_ir_program \<Rightarrow> nat set panics" where
  "compute_reachability fuel ir =
     fold_panics (\<lambda>f reach. do { entry \<leftarrow> function_entry ir f; mark_reachable fuel ir entry reach })
       [0..<length (ir_functions ir)] {}"

fun dfs_postorder :: "nat \<Rightarrow> eth_ir_program \<Rightarrow> nat \<Rightarrow> nat set \<times> nat list \<Rightarrow> (nat set \<times> nat list) panics" where
  "dfs_postorder 0 ir entry s = None"
| "dfs_postorder (Suc fuel) ir entry (visited, postorder) =
     (if entry \<in> visited then Some (visited, postorder)
      else do { succs \<leftarrow> block_successors ir entry;
                (visited, postorder) \<leftarrow>
                  fold_panics (dfs_postorder fuel ir) succs (insert entry visited, postorder);
                Some (visited, postorder @ [entry]) })"

record reverse_post_order =
  rp_visited :: "nat set"
  rp_global :: "nat list"
  rp_starts :: "nat list"

text \<open>The length is cast to \<open>u32\<close>, so that it wraps.\<close>

definition rpo_function :: "nat \<Rightarrow> eth_ir_program \<Rightarrow> nat \<Rightarrow> reverse_post_order \<Rightarrow> reverse_post_order panics" where
  "rpo_function fuel ir f r =
     do { let start = length (rp_global r) mod 2 ^ 32;
          (i, starts) \<leftarrow> iv_push (rp_starts r) start;
          ensure (i = f);
          entry \<leftarrow> function_entry ir f;
          (visited, post) \<leftarrow> dfs_postorder fuel ir entry (rp_visited r, rp_global r);
          Some \<lparr>rp_visited = visited, rp_global = post, rp_starts = starts\<rparr> }"

definition compute_rpo :: "nat \<Rightarrow> eth_ir_program \<Rightarrow> reverse_post_order panics" where
  "compute_rpo fuel ir =
     do { r \<leftarrow> fold_panics (rpo_function fuel ir) [0..<length (ir_functions ir)]
            \<lparr>rp_visited = {}, rp_global = [], rp_starts = []\<rparr>;
          Some (r\<lparr>rp_global := rev (rp_global r)\<rparr>) }"

definition function_rpo :: "reverse_post_order \<Rightarrow> nat \<Rightarrow> nat list panics" where
  "function_rpo r f =
     do { next_f \<leftarrow> idx_add f 1;
          s \<leftarrow> (case get_at (rp_starts r) next_f of
                  None \<Rightarrow> Some 0
                | Some start \<Rightarrow> sub_checked (length (rp_global r)) start);
          start \<leftarrow> iv_index (rp_starts r) f;
          e \<leftarrow> sub_checked (length (rp_global r)) start;
          slice_of (rp_global r) s e }"

definition global_post_order :: "reverse_post_order \<Rightarrow> nat list" where
  "global_post_order r = rev (rp_global r)"

fun mark_reachable_blocks :: "nat \<Rightarrow> eth_ir_program \<Rightarrow> nat \<Rightarrow> nat \<Rightarrow> nat option list \<Rightarrow> nat option list panics" where
  "mark_reachable_blocks 0 ir owner current ownership = None"
| "mark_reachable_blocks (Suc fuel) ir owner current ownership =
     do { o_current \<leftarrow> iv_index ownership current;
          if o_current \<noteq> None then Some ownership
          else do { ownership \<leftarrow> iv_set ownership current (Some owner);
                    succs \<leftarrow> block_successors ir current;
                    fold_panics (mark_reachable_blocks fuel ir owner) succs ownership } }"

definition compute_ownership :: "nat \<Rightarrow> eth_ir_program \<Rightarrow> nat option list panics" where
  "compute_ownership fuel ir =
     fold_panics (\<lambda>f ownership.
         do { entry \<leftarrow> function_entry ir f; mark_reachable_blocks fuel ir f entry ownership })
       [0..<length (ir_functions ir)] (replicate (length (ir_basic_blocks ir)) None)"

definition get_owner :: "nat option list \<Rightarrow> nat \<Rightarrow> (unit + nat) panics" where
  "get_owner ownership b =
     do { ow \<leftarrow> iv_index ownership b; Some (case ow of None \<Rightarrow> Inl () | Some f \<Rightarrow> Inr f) }"

definition owner_is_reachable :: "nat option list \<Rightarrow> nat \<Rightarrow> bool panics" where
  "owner_is_reachable ownership b = do { ow \<leftarrow> iv_index ownership b; Some (ow \<noteq> None) }"

definition blocks_owned_by :: "nat option list \<Rightarrow> nat \<Rightarrow> nat list panics" where
  "blocks_owned_by ownership f =
     do { xs \<leftarrow> iv_enumerate_idx ownership;
          Some (List.map_filter (\<lambda>(b, ow). if ow = Some f then Some b else None) xs) }"

definition unreachable_blocks :: "nat option list \<Rightarrow> nat list panics" where
  "unreachable_blocks ownership =
     do { xs \<leftarrow> iv_enumerate_idx ownership;
          Some (List.map_filter (\<lambda>(b, ow). if ow = None then Some b else None) xs) }"

text \<open>The lists of a previous computation are cleared and resized to the number of blocks.\<close>

definition compute_predecessors :: "eth_ir_program \<Rightarrow> nat set \<Rightarrow> nat list list \<Rightarrow> nat list list panics" where
  "compute_predecessors ir reach inner =
     fold_panics (\<lambda>b inner.
         if b \<notin> reach then Some inner
         else do { succs \<leftarrow> block_successors ir b;
                   fold_panics (\<lambda>s inner. do { ps \<leftarrow> iv_index inner s; iv_set inner s (ps @ [b]) }) succs inner })
       [0..<length (ir_basic_blocks ir)] (resize (length (ir_basic_blocks ir)) [] (map (\<lambda>_. []) inner))"

section \<open>The graph\<close>

definition edge :: "eth_ir_program \<Rightarrow> nat \<Rightarrow> nat \<Rightarrow> bool" where
  "edge ir x y \<longleftrightarrow> (case block_successors ir x of None \<Rightarrow> False | Some ss \<Rightarrow> y \<in> set ss)"

definition reaches :: "eth_ir_program \<Rightarrow> nat \<Rightarrow> nat \<Rightarrow> bool" where
  "reaches ir = (edge ir)\<^sup>*\<^sup>*"

definition entry_of :: "eth_ir_program \<Rightarrow> nat \<Rightarrow> nat" where
  "entry_of ir f = fn_entry (ir_functions ir ! f)"

definition reachable_blocks :: "eth_ir_program \<Rightarrow> nat set" where
  "reachable_blocks ir = {b. \<exists>f < length (ir_functions ir). reaches ir (entry_of ir f) b}"

definition cfg_closed :: "eth_ir_program \<Rightarrow> bool" where
  "cfg_closed ir \<longleftrightarrow>
     (\<forall>b < length (ir_basic_blocks ir).
        case block_successors ir b of None \<Rightarrow> False | Some ss \<Rightarrow> \<forall>t \<in> set ss. t < length (ir_basic_blocks ir))
     \<and> (\<forall>f \<in> set (ir_functions ir). fn_entry f < length (ir_basic_blocks ir))
     \<and> is_idx (length (ir_basic_blocks ir)) \<and> is_idx (length (ir_functions ir))"

lemma cfg_closedE:
  assumes "cfg_closed ir" and "b < length (ir_basic_blocks ir)"
  obtains ss where "block_successors ir b = Some ss" "\<And>t. edge ir b t \<longleftrightarrow> t \<in> set ss"
    "set ss \<subseteq> {..<length (ir_basic_blocks ir)}"
proof -
  have "case block_successors ir b of None \<Rightarrow> False | Some ss \<Rightarrow> \<forall>t \<in> set ss. t < length (ir_basic_blocks ir)"
    using assms unfolding cfg_closed_def by blast
  then show ?thesis
    using that by (fastforce simp: edge_def split: option.splits)
qed

lemma edge_closed: "cfg_closed ir \<Longrightarrow> b < length (ir_basic_blocks ir) \<Longrightarrow> edge ir b t \<Longrightarrow> t < length (ir_basic_blocks ir)"
  by (erule (1) cfg_closedE) auto

lemma entry_closed:
  "cfg_closed ir \<Longrightarrow> f < length (ir_functions ir) \<Longrightarrow>
   function_entry ir f = Some (entry_of ir f) \<and> entry_of ir f < length (ir_basic_blocks ir)"
  by (simp add: cfg_closed_def function_entry_def iv_index_def entry_of_def)

lemma reaches_closed:
  assumes "cfg_closed ir" and "reaches ir b t" and "b < length (ir_basic_blocks ir)"
  shows "t < length (ir_basic_blocks ir)"
  using assms(2,3) unfolding reaches_def by (induction) (auto intro: edge_closed [OF assms(1)])

lemma reaches_refl [simp]: "reaches ir b b"
  by (simp add: reaches_def)

lemma reaches_step: "edge ir x y \<Longrightarrow> reaches ir y z \<Longrightarrow> reaches ir x z"
  unfolding reaches_def by (rule converse_rtranclp_into_rtranclp)

lemma reaches_edge: "reaches ir x y \<Longrightarrow> edge ir y z \<Longrightarrow> reaches ir x z"
  unfolding reaches_def by (rule rtranclp.rtrancl_into_rtrancl)

lemma reaches_trans: "reaches ir x y \<Longrightarrow> reaches ir y z \<Longrightarrow> reaches ir x z"
  unfolding reaches_def by (rule rtranclp_trans)

text \<open>
  What one walk appends to a post order: blocks not seen before; each is a root of the walk or has
  a predecessor that finishes later; and an edge leads to a block seen before, to one finished
  before, or back to one it is reachable from.
\<close>

definition dfs_forest :: "eth_ir_program \<Rightarrow> nat set \<Rightarrow> nat set \<Rightarrow> nat list \<Rightarrow> bool" where
  "dfs_forest ir roots V Q \<longleftrightarrow>
     distinct Q \<and> set Q \<inter> V = {} \<and> roots \<subseteq> V \<union> set Q \<and> set Q \<subseteq> {..<length (ir_basic_blocks ir)}
     \<and> (\<forall>i < length Q. Q ! i \<in> roots \<or> (\<exists>j. i < j \<and> j < length Q \<and> edge ir (Q ! j) (Q ! i)))
     \<and> (\<forall>i < length Q. \<forall>y. edge ir (Q ! i) y \<longrightarrow>
          y \<in> V \<union> set (take i Q) \<or> (y \<in> set (drop i Q) \<and> reaches ir y (Q ! i)))"

lemma dfs_forest_parent:
  "dfs_forest ir R V Q \<Longrightarrow> i < length Q \<Longrightarrow> Q ! i \<in> R \<or> (\<exists>j. i < j \<and> j < length Q \<and> edge ir (Q ! j) (Q ! i))"
  by (simp add: dfs_forest_def)

lemma dfs_forest_edge:
  "dfs_forest ir R V Q \<Longrightarrow> i < length Q \<Longrightarrow> edge ir (Q ! i) y \<Longrightarrow>
   y \<in> V \<union> set (take i Q) \<or> (y \<in> set (drop i Q) \<and> reaches ir y (Q ! i))"
  by (simp add: dfs_forest_def)

lemma dfs_forest_root: "b \<in> V \<Longrightarrow> dfs_forest ir {b} V []"
  by (simp add: dfs_forest_def)

lemma dfs_forest_append:
  assumes A: "dfs_forest ir R1 V Q1" and B: "dfs_forest ir R2 (V \<union> set Q1) Q2"
  shows "dfs_forest ir (R1 \<union> R2) V (Q1 @ Q2)"
proof -
  have tree: "(Q1 @ Q2) ! i \<in> R1 \<union> R2 \<or> (\<exists>j. i < j \<and> j < length (Q1 @ Q2) \<and> edge ir ((Q1 @ Q2) ! j) ((Q1 @ Q2) ! i))"
    if "i < length (Q1 @ Q2)" for i
  proof (cases "i < length Q1")
    case True
    then consider "Q1 ! i \<in> R1" | j where "i < j" "j < length Q1" "edge ir (Q1 ! j) (Q1 ! i)"
      using A unfolding dfs_forest_def by blast
    then show ?thesis
    proof cases
      case 2
      then show ?thesis
        using True by (intro disjI2 exI [of _ j]) (auto simp: nth_append)
    qed (use True in \<open>simp add: nth_append\<close>)
  next
    case False
    define k where "k = i - length Q1"
    have k: "k < length Q2" "i = length Q1 + k"
      using that False by (auto simp: k_def)
    then consider "Q2 ! k \<in> R2" | j where "k < j" "j < length Q2" "edge ir (Q2 ! j) (Q2 ! k)"
      using B unfolding dfs_forest_def by blast
    then show ?thesis
    proof cases
      case 2
      then show ?thesis
        using k by (intro disjI2 exI [of _ "length Q1 + j"]) auto
    qed (use k in simp)
  qed
  have order: "y \<in> V \<union> set (take i (Q1 @ Q2)) \<or> (y \<in> set (drop i (Q1 @ Q2)) \<and> reaches ir y ((Q1 @ Q2) ! i))"
    if "i < length (Q1 @ Q2)" "edge ir ((Q1 @ Q2) ! i) y" for i y
  proof (cases "i < length Q1")
    case True
    then show ?thesis
      using A that(2) unfolding dfs_forest_def by (auto simp: nth_append)
  next
    case False
    then have "i - length Q1 < length Q2" "(Q1 @ Q2) ! i = Q2 ! (i - length Q1)"
      using that(1) by (auto simp: nth_append)
    then show ?thesis
      using B that(2) False unfolding dfs_forest_def by auto
  qed
  show ?thesis
    using A B tree order unfolding dfs_forest_def by (auto simp: disjoint_iff)
qed

lemma dfs_forest_finish:
  assumes b: "b \<notin> V" "b < length (ir_basic_blocks ir)"
    and F: "dfs_forest ir {t. edge ir b t} (insert b V) Q"
  shows "dfs_forest ir {b} V (Q @ [b])"
proof -
  have root: "reaches ir b (Q ! i)" if "i < length Q" for i
    using that
  proof (induction "length Q - i" arbitrary: i rule: less_induct)
    case less
    then consider "edge ir b (Q ! i)" | j where "i < j" "j < length Q" "edge ir (Q ! j) (Q ! i)"
      using F unfolding dfs_forest_def by blast
    then show ?case
    proof cases
      case 1
      then show ?thesis
        by (rule reaches_edge [OF reaches_refl])
    next
      case 2
      then show ?thesis
        using less.hyps [of j] less.prems by (meson diff_less_mono2 reaches_edge)
    qed
  qed
  have tree: "(Q @ [b]) ! i \<in> {b} \<or> (\<exists>j. i < j \<and> j < length (Q @ [b]) \<and> edge ir ((Q @ [b]) ! j) ((Q @ [b]) ! i))"
    if "i < length (Q @ [b])" for i
  proof (cases "i < length Q")
    case True
    then consider "edge ir b (Q ! i)" | j where "i < j" "j < length Q" "edge ir (Q ! j) (Q ! i)"
      using F unfolding dfs_forest_def by blast
    then show ?thesis
    proof cases
      case 1
      then show ?thesis
        using True by (intro disjI2 exI [of _ "length Q"]) (auto simp: nth_append)
    next
      case 2
      then show ?thesis
        using True by (intro disjI2 exI [of _ j]) (auto simp: nth_append)
    qed
  qed (use that in \<open>auto simp: nth_append\<close>)
  have order: "y \<in> V \<union> set (take i (Q @ [b])) \<or> (y \<in> set (drop i (Q @ [b])) \<and> reaches ir y ((Q @ [b]) ! i))"
    if "i < length (Q @ [b])" "edge ir ((Q @ [b]) ! i) y" for i y
  proof (cases "i < length Q")
    case True
    then have "y \<in> insert b V \<union> set (take i Q) \<or> (y \<in> set (drop i Q) \<and> reaches ir y (Q ! i))"
      using F that(2) unfolding dfs_forest_def by (simp add: nth_append)
    then show ?thesis
      using True root [OF True] by (auto simp: nth_append)
  next
    case False
    then have "i = length Q" "edge ir b y"
      using that by (auto simp: nth_append)
    then show ?thesis
      using F unfolding dfs_forest_def by auto
  qed
  show ?thesis
    using b F tree order unfolding dfs_forest_def by (auto simp: disjoint_iff)
qed

section \<open>The walks return\<close>

lemma fold_panics_sim:
  assumes "I s" and "\<And>x u. x \<in> set xs \<Longrightarrow> I u \<Longrightarrow> f x (h u) = map_option h (g x u)"
    and "\<And>x u v. x \<in> set xs \<Longrightarrow> I u \<Longrightarrow> g x u = Some v \<Longrightarrow> I v"
  shows "fold_panics f xs (h s) = map_option h (fold_panics g xs s)"
  using assms
proof (induction xs arbitrary: s)
  case (Cons x xs)
  have step: "f x (h s) = map_option h (g x s)"
    using Cons.prems(1,2) by simp
  show ?case
  proof (cases "g x s")
    case (Some v)
    then have "I v"
      using Cons.prems(1) Cons.prems(3) [of x s v] by simp
    moreover have "fold_panics f xs (h v) = map_option h (fold_panics g xs v)"
    proof (rule Cons.IH [OF \<open>I v\<close>])
      show "f y (h u) = map_option h (g y u)" if "y \<in> set xs" "I u" for y u
        using Cons.prems(2) [of y u] that by simp
      show "I w" if "y \<in> set xs" "I u" "g y u = Some w" for y u w
        using Cons.prems(3) [of y u w] that by simp
    qed
    ultimately show ?thesis
      using step Some by simp
  qed (use step in simp)
qed simp

text \<open>The unseen blocks bound the depth of a walk.\<close>

definition unseen :: "eth_ir_program \<Rightarrow> nat set \<Rightarrow> nat" where
  "unseen ir V = card ({..<length (ir_basic_blocks ir)} - V)"

lemma unseen_insert:
  "b < length (ir_basic_blocks ir) \<Longrightarrow> b \<notin> V \<Longrightarrow> unseen ir (insert b V) < unseen ir V"
  unfolding unseen_def by (intro psubset_card_mono) auto

lemma unseen_mono: "V \<subseteq> W \<Longrightarrow> unseen ir W \<le> unseen ir V"
  unfolding unseen_def by (intro card_mono) auto

lemma unseen_le: "unseen ir V \<le> length (ir_basic_blocks ir)"
  unfolding unseen_def using card_mono [of "{..<length (ir_basic_blocks ir)}"] by fastforce

definition walked :: "eth_ir_program \<Rightarrow> nat set \<Rightarrow> nat set \<Rightarrow> nat list \<Rightarrow> (nat set \<times> nat list) panics \<Rightarrow> nat list \<Rightarrow> bool" where
  "walked ir roots V P r Q \<longleftrightarrow> r = Some (V \<union> set Q, P @ Q) \<and> dfs_forest ir roots V Q"

lemma dfs_fold:
  assumes "\<And>b V P. b \<in> set ss \<Longrightarrow> unseen ir V < fuel \<Longrightarrow> \<exists>Q. walked ir {b} V P (dfs_postorder fuel ir b (V, P)) Q"
    and "unseen ir V < fuel"
  shows "\<exists>Q. walked ir (set ss) V P (fold_panics (dfs_postorder fuel ir) ss (V, P)) Q"
  using assms
proof (induction ss arbitrary: V P)
  case Nil
  then show ?case
    by (auto simp: walked_def dfs_forest_def intro: exI [of _ "[]"])
next
  case (Cons b ss)
  obtain Q1 where Q1: "walked ir {b} V P (dfs_postorder fuel ir b (V, P)) Q1"
    using Cons.prems by fastforce
  have "unseen ir (V \<union> set Q1) < fuel"
    using Cons.prems(2) unseen_mono [of V "V \<union> set Q1" ir] by simp
  then obtain Q2 where Q2: "walked ir (set ss) (V \<union> set Q1) (P @ Q1)
      (fold_panics (dfs_postorder fuel ir) ss (V \<union> set Q1, P @ Q1)) Q2"
    using Cons.IH Cons.prems(1) by fastforce
  show ?case
    using Q1 Q2 dfs_forest_append [of ir "{b}" V Q1 "set ss" Q2]
    by (intro exI [of _ "Q1 @ Q2"]) (simp add: walked_def Un_assoc)
qed

lemma dfs_walked:
  assumes "cfg_closed ir" and "b < length (ir_basic_blocks ir)" and "unseen ir V < fuel"
  shows "\<exists>Q. walked ir {b} V P (dfs_postorder fuel ir b (V, P)) Q \<and> (if b \<in> V then Q = [] else Q \<noteq> [] \<and> last Q = b)"
  using assms(2,3)
proof (induction fuel arbitrary: b V P)
  case (Suc fuel)
  show ?case
  proof (cases "b \<in> V")
    case True
    then show ?thesis
      by (intro exI [of _ "[]"]) (simp add: walked_def dfs_forest_root)
  next
    case False
    obtain ss where ss: "block_successors ir b = Some ss" "{t. edge ir b t} = set ss"
      "set ss \<subseteq> {..<length (ir_basic_blocks ir)}"
      using cfg_closedE [OF assms(1) Suc.prems(1)] by (metis Collect_mem_eq Collect_cong)
    have "\<exists>Q. walked ir (set ss) (insert b V) P (fold_panics (dfs_postorder fuel ir) ss (insert b V, P)) Q"
    proof (rule dfs_fold)
      show "unseen ir (insert b V) < fuel"
        using unseen_insert [OF Suc.prems(1) False] Suc.prems(2) by simp
    qed (use Suc.IH ss(3) in blast)
    then obtain Q where Q: "fold_panics (dfs_postorder fuel ir) ss (insert b V, P) = Some (insert b V \<union> set Q, P @ Q)"
      "dfs_forest ir (set ss) (insert b V) Q"
      by (auto simp: walked_def)
    show ?thesis
      using False ss(1) Q dfs_forest_finish [OF False Suc.prems(1), of Q] ss(2)
      by (intro exI [of _ "Q @ [b]"]) (simp add: walked_def)
  qed
qed simp

text \<open>The other two recursive walks visit the same blocks.\<close>

lemma mark_reachable_dfs: "mark_reachable fuel ir b (fst s) = map_option fst (dfs_postorder fuel ir b s)"
proof (induction fuel arbitrary: b s)
  case (Suc fuel)
  obtain V P where s: "s = (V, P)"
    by fastforce
  have "fold_panics (mark_reachable fuel ir) ss (fst u) = map_option fst (fold_panics (dfs_postorder fuel ir) ss u)" for ss u
    by (rule fold_panics_sim [where I = "\<lambda>_. True"]) (use Suc.IH in simp_all)
  from this [of _ "(insert b V, P)"] show ?case
    by (auto simp: s map_option_case split: bind_splits option.splits)
qed simp

definition own :: "nat \<Rightarrow> nat option list \<Rightarrow> nat set \<times> nat list \<Rightarrow> nat option list" where
  "own f os s = map (\<lambda>b. if os ! b = None \<and> b \<in> fst s then Some f else os ! b) [0..<length os]"

lemma dfs_mono:
  "dfs_postorder fuel ir b s = Some s' \<Longrightarrow> fst s \<subseteq> fst s' \<and> fst s' - fst s \<subseteq> {..<length (ir_basic_blocks ir)}"
proof (induction fuel arbitrary: b s s')
  case (Suc fuel)
  have fold: "fst u \<subseteq> fst u' \<and> fst u' - fst u \<subseteq> {..<length (ir_basic_blocks ir)}"
    if "fold_panics (dfs_postorder fuel ir) ss u = Some u'" for ss u u'
    using fold_panics_invariant [OF that, where P = "\<lambda>v. fst u \<subseteq> fst v \<and> fst v - fst u \<subseteq> {..<length (ir_basic_blocks ir)}"]
      Suc.IH by blast
  obtain V P where s: "s = (V, P)"
    by fastforce
  show ?case
  proof (cases "b \<in> V")
    case False
    then obtain ss u where u: "block_successors ir b = Some ss"
      "fold_panics (dfs_postorder fuel ir) ss (insert b V, P) = Some u" "fst s' = fst u"
      using Suc.prems by (auto simp: s bind_Some)
    have "b < length (ir_basic_blocks ir)"
      using u(1) by (auto simp: block_successors_def block_control_def iv_index_def get_at_def bind_Some split: if_splits)
    then show ?thesis
      using fold [OF u(2)] u(3) by (auto simp: s)
  qed (use Suc.prems s in simp)
qed simp

lemma length_own [simp]: "length (own f os s) = length os"
  by (simp add: own_def)

lemma own_post_eq: "own f os (V, P) = own f os (V, P')"
  by (simp add: own_def)

lemma own_dfs:
  assumes "length os = length (ir_basic_blocks ir)"
    and "{b. b < length os \<and> os ! b \<noteq> None} \<subseteq> fst s" and "fst s \<subseteq> {..<length os}"
  shows "mark_reachable_blocks fuel ir f b (own f os s) = map_option (own f os) (dfs_postorder fuel ir b s)"
  using assms(2,3)
proof (induction fuel arbitrary: b s)
  case (Suc fuel)
  let ?I = "\<lambda>s. {b. b < length os \<and> os ! b \<noteq> None} \<subseteq> fst s \<and> fst s \<subseteq> {..<length os}"
  obtain V P where s: "s = (V, P)"
    by fastforce
  have fold: "fold_panics (mark_reachable_blocks fuel ir f) ss (own f os u) =
      map_option (own f os) (fold_panics (dfs_postorder fuel ir) ss u)" if "?I u" for ss u
    using that
  proof (rule fold_panics_sim)
    show "?I v" if "?I u" "dfs_postorder fuel ir x u = Some v" for x u v
    proof -
      have "fst u \<subseteq> fst v" "fst v - fst u \<subseteq> {..<length os}"
        using dfs_mono [OF that(2)] assms(1) by simp_all
      then show ?thesis
        using that(1) by blast
    qed
  qed (use Suc.IH in simp)
  show ?case
  proof (cases "b < length os")
    case False
    then have "block_successors ir b = None" "b \<notin> V"
      using assms(1) Suc.prems s
      by (auto simp: block_successors_def block_control_def iv_index_def)
    then show ?thesis
      using False by (simp add: s own_def iv_index_def)
  next
    case True
    have seen: "own f os s ! b \<noteq> None \<longleftrightarrow> b \<in> V"
      using True Suc.prems s by (auto simp: own_def)
    have mark: "(own f os (V, P))[b := Some f] = own f os (insert b V, P)" if "b \<notin> V"
      using that True Suc.prems s by (intro nth_equalityI) (auto simp: own_def nth_list_update)
    have "?I (insert b V, P)"
      using Suc.prems True s by auto
    then have "fold_panics (mark_reachable_blocks fuel ir f) ss (own f os (insert b V, P)) =
        map_option (own f os) (fold_panics (dfs_postorder fuel ir) ss (insert b V, P))" for ss
      by (rule fold)
    then show ?thesis
      using True seen mark
      by (cases "b \<in> V") (auto simp: s iv_index_def iv_set_def map_option_case
          intro!: own_post_eq split: bind_splits option.splits)
  qed
qed simp

section \<open>All functions\<close>

text \<open>The post order of each function, behind the post orders of the functions before it.\<close>

definition before :: "nat list list \<Rightarrow> nat \<Rightarrow> nat list" where
  "before Qs k = concat (take k Qs)"

definition rpo_slices :: "eth_ir_program \<Rightarrow> nat list list \<Rightarrow> bool" where
  "rpo_slices ir Qs \<longleftrightarrow>
     (\<forall>k < length Qs. dfs_forest ir {entry_of ir k} (set (before Qs k)) (Qs ! k)
        \<and> (if entry_of ir k \<in> set (before Qs k) then Qs ! k = [] else Qs ! k \<noteq> [] \<and> last (Qs ! k) = entry_of ir k))"

lemma before_append [simp]: "k \<le> length Qs \<Longrightarrow> before (Qs @ Rs) k = before Qs k"
  by (simp add: before_def)

lemma before_Suc: "k < length Qs \<Longrightarrow> before Qs (Suc k) = before Qs k @ Qs ! k"
  by (simp add: before_def take_Suc_conv_app_nth)

lemma before_all [simp]: "before Qs (length Qs) = concat Qs"
  by (simp add: before_def)

lemma rpo_slices_snoc:
  "rpo_slices ir Qs \<Longrightarrow> dfs_forest ir {entry_of ir (length Qs)} (set (concat Qs)) Q \<Longrightarrow>
   (if entry_of ir (length Qs) \<in> set (concat Qs) then Q = [] else Q \<noteq> [] \<and> last Q = entry_of ir (length Qs)) \<Longrightarrow>
   rpo_slices ir (Qs @ [Q])"
proof (unfold rpo_slices_def, intro allI impI, goal_cases)
  case (1 k)
  then show ?case
    by (cases "k = length Qs") (simp_all add: nth_append before_def)
qed

lemma rpo_slices_butlast:
  assumes "rpo_slices ir (Qs @ [Q])"
  shows "rpo_slices ir Qs"
proof (unfold rpo_slices_def, intro allI impI)
  fix k assume "k < length Qs"
  then show "dfs_forest ir {entry_of ir k} (set (before Qs k)) (Qs ! k)
      \<and> (if entry_of ir k \<in> set (before Qs k) then Qs ! k = [] else Qs ! k \<noteq> [] \<and> last (Qs ! k) = entry_of ir k)"
    using assms [unfolded rpo_slices_def, rule_format, of k] by (simp add: nth_append split: if_splits)
qed

lemma rpo_slices_forest: "rpo_slices ir Qs \<Longrightarrow> dfs_forest ir (entry_of ir ` {..<length Qs}) {} (concat Qs)"
proof (induction Qs rule: rev_induct)
  case Nil
  then show ?case
    by (simp add: dfs_forest_def)
next
  case (snoc Q Qs)
  have "dfs_forest ir {entry_of ir (length Qs)} (set (concat Qs)) Q"
    using snoc.prems unfolding rpo_slices_def by (auto dest!: spec [of _ "length Qs"] simp: before_def)
  moreover have "entry_of ir ` {..<length (Qs @ [Q])} = entry_of ir ` {..<length Qs} \<union> {entry_of ir (length Qs)}"
    by (auto simp: less_Suc_eq)
  ultimately show ?case
    using dfs_forest_append [OF snoc.IH [OF rpo_slices_butlast [OF snoc.prems]], of "{entry_of ir (length Qs)}" Q] by simp
qed

lemma dfs_forest_reaches:
  assumes "dfs_forest ir R V Q" and "i < length Q"
  shows "\<exists>r \<in> R. reaches ir r (Q ! i)"
  using assms(2)
proof (induction "length Q - i" arbitrary: i rule: less_induct)
  case less
  then consider "Q ! i \<in> R" | j where "i < j" "j < length Q" "edge ir (Q ! j) (Q ! i)"
    using assms(1) unfolding dfs_forest_def by blast
  then show ?case
  proof cases
    case 1
    then show ?thesis
      by (intro bexI [of _ "Q ! i"]) auto
  next
    case 2
    then show ?thesis
      using less.hyps [of j] less.prems by (meson diff_less_mono2 reaches_edge)
  qed
qed

lemma dfs_forest_closed:
  assumes "dfs_forest ir R {} Q"
  shows "set Q = {b. \<exists>r \<in> R. reaches ir r b}"
proof (intro equalityI subsetI)
  fix b assume "b \<in> set Q"
  then show "b \<in> {b. \<exists>r \<in> R. reaches ir r b}"
    using dfs_forest_reaches [OF assms] by (auto simp: in_set_conv_nth)
next
  fix b assume "b \<in> {b. \<exists>r \<in> R. reaches ir r b}"
  then obtain r where r: "r \<in> set Q" "reaches ir r b"
    using assms by (auto simp: dfs_forest_def)
  have closed: "y \<in> set Q" if xy: "x \<in> set Q" "edge ir x y" for x y
  proof -
    obtain i where i: "i < length Q" "Q ! i = x"
      using xy(1) by (auto simp: in_set_conv_nth)
    then consider "y \<in> set (take i Q)" | "y \<in> set (drop i Q)"
      using dfs_forest_edge [OF assms i(1), of y] xy(2) by auto
    then show ?thesis
      by cases (auto dest: in_set_dropD in_set_takeD)
  qed
  from r(2,1) show "b \<in> set Q"
    unfolding reaches_def by (induction) (auto intro: closed)
qed

text \<open>The three loops over the functions, together.\<close>

definition reach_function :: "nat \<Rightarrow> eth_ir_program \<Rightarrow> nat \<Rightarrow> nat set \<Rightarrow> nat set panics" where
  "reach_function fuel ir f reach = do { entry \<leftarrow> function_entry ir f; mark_reachable fuel ir entry reach }"

definition own_function :: "nat \<Rightarrow> eth_ir_program \<Rightarrow> nat \<Rightarrow> nat option list \<Rightarrow> nat option list panics" where
  "own_function fuel ir f os = do { entry \<leftarrow> function_entry ir f; mark_reachable_blocks fuel ir f entry os }"

definition rpo_start :: reverse_post_order where
  "rpo_start = \<lparr>rp_visited = {}, rp_global = [], rp_starts = []\<rparr>"

definition owners :: "eth_ir_program \<Rightarrow> nat list list \<Rightarrow> nat option list" where
  "owners ir Qs = map (\<lambda>b. find (\<lambda>k. b \<in> set (Qs ! k)) [0..<length Qs]) [0..<length (ir_basic_blocks ir)]"

lemma owners_None: "b < length (ir_basic_blocks ir) \<Longrightarrow> owners ir Qs ! b = None \<longleftrightarrow> b \<notin> set (concat Qs)"
  by (auto simp: owners_def find_None_iff set_conv_nth [of Qs])

lemma own_same:
  assumes "V = {b. b < length os \<and> os ! b \<noteq> None}"
  shows "own f os (V, P) = os"
  using assms by (intro nth_equalityI) (auto simp: own_def)

lemma find_append: "find P (xs @ ys) = (case find P xs of None \<Rightarrow> find P ys | Some x \<Rightarrow> Some x)"
  by (induction xs) auto

lemma length_owners [simp]: "length (owners ir Qs) = length (ir_basic_blocks ir)"
  by (simp add: owners_def)

lemma owners_snoc:
  assumes "set Q \<inter> set (concat Qs) = {}"
  shows "own (length Qs) (owners ir Qs) (set (concat Qs) \<union> set Q, P) = owners ir (Qs @ [Q])"
proof (rule nth_equalityI)
  fix b assume "b < length (own (length Qs) (owners ir Qs) (set (concat Qs) \<union> set Q, P))"
  then have b: "b < length (ir_basic_blocks ir)"
    by (simp add: owners_def)
  have "find (\<lambda>k. b \<in> set ((Qs @ [Q]) ! k)) [0..<length Qs] = find (\<lambda>k. b \<in> set (Qs ! k)) [0..<length Qs]"
    by (intro find_cong) (auto simp: nth_append)
  then have new: "owners ir (Qs @ [Q]) ! b =
      (if owners ir Qs ! b = None \<and> b \<in> set Q then Some (length Qs) else owners ir Qs ! b)"
    using b by (auto simp: owners_def find_append split: option.splits)
  show "own (length Qs) (owners ir Qs) (set (concat Qs) \<union> set Q, P) ! b = owners ir (Qs @ [Q]) ! b"
    unfolding new using b owners_None [OF b, of Qs] by (auto simp: own_def owners_def)
qed (simp add: owners_def)

lemma walk_functions:
  assumes "cfg_closed ir" and "length (ir_basic_blocks ir) < fuel" and "n \<le> length (ir_functions ir)"
  shows "\<exists>Qs. length Qs = n \<and> rpo_slices ir Qs
    \<and> fold_panics (rpo_function fuel ir) [0..<n] rpo_start
      = Some \<lparr>rp_visited = set (concat Qs), rp_global = concat Qs,
              rp_starts = map (\<lambda>k. length (before Qs k)) [0..<n]\<rparr>
    \<and> fold_panics (reach_function fuel ir) [0..<n] {} = Some (set (concat Qs))
    \<and> fold_panics (own_function fuel ir) [0..<n] (replicate (length (ir_basic_blocks ir)) None) = Some (owners ir Qs)"
  using assms(3)
proof (induction n)
  case 0
  have "owners ir [] = replicate (length (ir_basic_blocks ir)) None"
    by (intro nth_equalityI) (simp_all add: owners_def)
  then show ?case
    by (simp add: rpo_slices_def rpo_start_def)
next
  case (Suc n)
  let ?r = "\<lambda>Qs. \<lparr>rp_visited = set (concat Qs), rp_global = concat Qs,
      rp_starts = map (\<lambda>k. length (before Qs k)) [0..<length Qs]\<rparr>"
  obtain Qs where Qs: "length Qs = n" "rpo_slices ir Qs"
    and run: "fold_panics (rpo_function fuel ir) [0..<n] rpo_start = Some (?r Qs)"
      "fold_panics (reach_function fuel ir) [0..<n] {} = Some (set (concat Qs))"
      "fold_panics (own_function fuel ir) [0..<n] (replicate (length (ir_basic_blocks ir)) None) = Some (owners ir Qs)"
    using Suc by auto
  have entry: "function_entry ir n = Some (entry_of ir n)" "entry_of ir n < length (ir_basic_blocks ir)"
    using entry_closed [OF assms(1)] Suc.prems by simp_all
  obtain Q where Q: "walked ir {entry_of ir n} (set (concat Qs)) (concat Qs)
      (dfs_postorder fuel ir (entry_of ir n) (set (concat Qs), concat Qs)) Q"
    "if entry_of ir n \<in> set (concat Qs) then Q = [] else Q \<noteq> [] \<and> last Q = entry_of ir n"
    using dfs_walked [OF assms(1) entry(2), of "set (concat Qs)" fuel "concat Qs"] assms(2) unseen_le [of ir]
    by (meson le_less_trans)
  have Qs_ok: "distinct (concat Qs)" "set (concat Qs) \<subseteq> {..<length (ir_basic_blocks ir)}"
    using rpo_slices_forest [OF Qs(2)] by (simp_all add: dfs_forest_def)
  then have "length (concat Qs) \<le> length (ir_basic_blocks ir)"
    using card_mono [of "{..<length (ir_basic_blocks ir)}" "set (concat Qs)"]
    by (simp only: distinct_card finite_lessThan card_lessThan)
  moreover have "length (ir_basic_blocks ir) < 2 ^ 32" "is_idx n"
    using assms(1) Suc.prems by (auto simp: cfg_closed_def is_idx_def u32_max_def)
  ultimately have "rpo_function fuel ir n (?r Qs) = Some \<lparr>rp_visited = set (concat Qs) \<union> set Q,
      rp_global = concat Qs @ Q, rp_starts = map (\<lambda>k. length (before Qs k)) [0..<n] @ [length (concat Qs)]\<rparr>"
    using entry(1) Q(1) Qs(1) unfolding walked_def rpo_function_def
    by (simp add: iv_push_Some bind_Some Let_def del: set_concat)
  moreover have "map (\<lambda>k. length (before (Qs @ [Q]) k)) [0..<n] = map (\<lambda>k. length (before Qs k)) [0..<n]"
    using Qs(1) by simp
  ultimately have rpo: "rpo_function fuel ir n (?r Qs) = Some (?r (Qs @ [Q]))"
    using Qs(1) by (simp add: before_def)
  have reach: "reach_function fuel ir n (set (concat Qs)) = Some (set (concat (Qs @ [Q])))"
    using entry(1) Q(1) mark_reachable_dfs [of fuel ir "entry_of ir n" "(set (concat Qs), concat Qs)"]
    by (simp add: reach_function_def walked_def)
  have covered: "{b. b < length (owners ir Qs) \<and> owners ir Qs ! b \<noteq> None} = set (concat Qs)"
  proof (rule set_eqI)
    fix b
    show "b \<in> {b. b < length (owners ir Qs) \<and> owners ir Qs ! b \<noteq> None} \<longleftrightarrow> b \<in> set (concat Qs)"
      using owners_None [of b ir Qs] Qs_ok(2) by (cases "b < length (ir_basic_blocks ir)") auto
  qed
  have "own n (owners ir Qs) (set (concat Qs), concat Qs) = owners ir Qs"
    using own_same covered by blast
  then have "mark_reachable_blocks fuel ir n (entry_of ir n) (owners ir Qs) =
      map_option (own n (owners ir Qs)) (dfs_postorder fuel ir (entry_of ir n) (set (concat Qs), concat Qs))"
    using own_dfs [of "owners ir Qs" ir "(set (concat Qs), concat Qs)" fuel n "entry_of ir n"] covered Qs_ok(2)
    by (simp add: owners_def del: set_concat)
  moreover have "set Q \<inter> set (concat Qs) = {}"
    using Q(1) by (simp add: walked_def dfs_forest_def del: set_concat)
  ultimately have own: "own_function fuel ir n (owners ir Qs) = Some (owners ir (Qs @ [Q]))"
    using entry(1) Q(1) owners_snoc [of Q Qs ir] Qs(1) by (simp add: own_function_def walked_def del: set_concat)
  have "rpo_slices ir (Qs @ [Q])"
    using rpo_slices_snoc [OF Qs(2), of Q] Q Qs(1) by (simp only: walked_def simp_thms)
  then show ?case
    using run rpo reach own Qs(1) by (intro exI [of _ "Qs @ [Q]"]) (simp del: set_concat)
qed

section \<open>The analyses are right\<close>

lemma bound_fuel: "length (ir_basic_blocks ir) < fuel \<Longrightarrow> unseen ir V < fuel"
  using unseen_le [of ir V] by simp

lemma rpo_run:
  assumes "cfg_closed ir" and "length (ir_basic_blocks ir) < fuel"
  obtains Qs where "length Qs = length (ir_functions ir)" "rpo_slices ir Qs"
    "compute_rpo fuel ir = Some \<lparr>rp_visited = set (concat Qs), rp_global = rev (concat Qs),
       rp_starts = map (\<lambda>k. length (before Qs k)) [0..<length (ir_functions ir)]\<rparr>"
  using walk_functions [OF assms order_refl] by (auto simp: compute_rpo_def rpo_start_def)

lemma concat_slices:
  assumes "rpo_slices ir Qs" and "length Qs = length (ir_functions ir)"
  shows "distinct (concat Qs)" and "set (concat Qs) = reachable_blocks ir"
    and "set (concat Qs) \<subseteq> {..<length (ir_basic_blocks ir)}"
proof -
  note F = rpo_slices_forest [OF assms(1)]
  show "distinct (concat Qs)" "set (concat Qs) \<subseteq> {..<length (ir_basic_blocks ir)}"
    using F by (simp_all add: dfs_forest_def)
  show "set (concat Qs) = reachable_blocks ir"
    unfolding dfs_forest_closed [OF F] using assms(2) by (auto simp: reachable_blocks_def)
qed

lemma slice_rpo:
  assumes "length Qs = length (ir_functions ir)" and "k < length Qs" and "is_idx (length Qs)"
  shows "function_rpo \<lparr>rp_visited = V, rp_global = rev (concat Qs),
       rp_starts = map (\<lambda>k. length (before Qs k)) [0..<length (ir_functions ir)]\<rparr> k = Some (rev (Qs ! k))"
proof -
  have split: "concat Qs = before Qs k @ Qs ! k @ concat (drop (Suc k) Qs)"
    using assms(2) by (metis before_def concat.simps(2) concat_append id_take_nth_drop)
  let ?E = "length (concat (drop (Suc k) Qs))"
  have len: "length (concat Qs) = length (before Qs k) + length (Qs ! k) + ?E"
    using arg_cong [OF split, of length] by simp
  have next_start: "(case get_at (map (\<lambda>k. length (before Qs k)) [0..<length (ir_functions ir)]) (Suc k) of
      None \<Rightarrow> Some 0 | Some start \<Rightarrow> sub_checked (length (rev (concat Qs))) start) = Some ?E"
    using assms(1,2) len before_Suc [OF assms(2)] by (auto simp: get_at_def sub_checked_def)
  have this_end: "sub_checked (length (rev (concat Qs))) (length (before Qs k)) = Some (?E + length (Qs ! k))"
    using len by (simp add: sub_checked_def)
  have slice: "slice_of (rev (concat Qs)) ?E (?E + length (Qs ! k)) = Some (rev (Qs ! k))"
    unfolding split by (simp add: slice_of_def)
  have "is_idx (Suc k)"
    using assms(2,3) by (simp add: is_idx_def)
  then have "idx_add k 1 = Some (Suc k)"
    by (simp add: idx_add_Some)
  moreover have "iv_index (map (\<lambda>k. length (before Qs k)) [0..<length (ir_functions ir)]) k = Some (length (before Qs k))"
    using assms(1,2) by (simp add: iv_index_def)
  ultimately show ?thesis
    using next_start this_end slice unfolding function_rpo_def by (simp del: length_rev cong: option.case_cong)
qed

lemma rpo_back_edge:
  assumes F: "dfs_forest ir R {} Q" and "i \<le> j" and "j < length Q" and e: "edge ir (rev Q ! j) (rev Q ! i)"
  shows "reaches ir (rev Q ! i) (rev Q ! j)"
proof -
  let ?j = "length Q - Suc j" and ?i = "length Q - Suc i"
  have at: "rev Q ! j = Q ! ?j" "rev Q ! i = Q ! ?i" "?j < length Q" "?i < length Q" "?j \<le> ?i"
    using assms(2,3) by (auto simp: rev_nth)
  have "Q ! ?i \<notin> set (take ?j Q)"
    using F at(4,5) by (auto simp: dfs_forest_def in_set_conv_nth nth_eq_iff_index_eq)
  then show ?thesis
    using dfs_forest_edge [OF F at(3), of "Q ! ?i"] e at(1,2) by auto
qed

lemma slice_ok:
  assumes S: "rpo_slices ir Qs" and k: "k < length Qs"
  shows "set (rev (Qs ! k)) = {b. reaches ir (entry_of ir k) b \<and> (\<forall>g < k. \<not> reaches ir (entry_of ir g) b)}
    \<and> (rev (Qs ! k) \<noteq> [] \<longrightarrow> hd (rev (Qs ! k)) = entry_of ir k)
    \<and> (\<forall>i. 0 < i \<and> i < length (rev (Qs ! k)) \<longrightarrow> (\<exists>j < i. edge ir (rev (Qs ! k) ! j) (rev (Qs ! k) ! i)))"
proof -
  let ?Q = "Qs ! k"
  have F: "dfs_forest ir {entry_of ir k} (set (before Qs k)) ?Q"
    and last: "if entry_of ir k \<in> set (before Qs k) then ?Q = [] else ?Q \<noteq> [] \<and> last ?Q = entry_of ir k"
    using S k by (simp_all add: rpo_slices_def)
  have take_ok: "rpo_slices ir (take m Qs)" if "m \<le> length Qs" for m
    using S that unfolding rpo_slices_def before_def by (simp add: min_def)
  have upto: "set (before Qs m) = {b. \<exists>g < m. reaches ir (entry_of ir g) b}" if "m \<le> length Qs" for m
    using dfs_forest_closed [OF rpo_slices_forest [OF take_ok [OF that]]] that
    unfolding before_def by (auto simp: min_def)
  have "set ?Q = set (before Qs (Suc k)) - set (before Qs k)"
    using F before_Suc [OF k] unfolding dfs_forest_def by auto
  then have "set ?Q = {b. reaches ir (entry_of ir k) b \<and> (\<forall>g < k. \<not> reaches ir (entry_of ir g) b)}"
    using upto [of k] upto [of "Suc k"] k by (auto simp: less_Suc_eq)
  moreover have "hd (rev ?Q) = entry_of ir k" if "?Q \<noteq> []"
    using last that by (auto simp: hd_rev split: if_splits)
  moreover have "\<exists>j < i. edge ir (rev ?Q ! j) (rev ?Q ! i)" if i: "0 < i" "i < length ?Q" for i
  proof -
    let ?m = "length ?Q - Suc i"
    have m: "?m < length ?Q" "?m < length ?Q - 1" "rev ?Q ! i = ?Q ! ?m"
      using i by (auto simp: rev_nth)
    have "last ?Q = entry_of ir k" "distinct ?Q" "?Q \<noteq> []"
      using last F i by (auto simp: dfs_forest_def split: if_splits)
    then have "?Q ! ?m \<noteq> entry_of ir k"
      using m nth_eq_iff_index_eq [of ?Q ?m "length ?Q - 1"] by (simp add: last_conv_nth)
    then obtain j where j: "?m < j" "j < length ?Q" "edge ir (?Q ! j) (?Q ! ?m)"
      using dfs_forest_parent [OF F m(1)] by auto
    then show ?thesis
      using m(3) by (intro exI [of _ "length ?Q - Suc j"]) (auto simp: rev_nth)
  qed
  ultimately show ?thesis
    by simp
qed

text \<open>
  C31. Reverse post order.  With fuel for one more than the number of blocks the traversal returns; the
  global order lists each reachable block once; an edge leads forward in it unless its source is
  reachable from its target.  The slice of a function starts with its entry, holds the blocks
  reachable from it and from no earlier function, each block behind some predecessor in the slice,
  and the slices in reverse function order are the global order.
\<close>

theorem reverse_post_order_correct:
  assumes "cfg_closed ir" and "length (ir_basic_blocks ir) < fuel"
  shows "\<exists>r slices. compute_rpo fuel ir = Some r
    \<and> distinct (rp_global r) \<and> set (rp_global r) = reachable_blocks ir
    \<and> (\<forall>i j. i \<le> j \<and> j < length (rp_global r) \<and> edge ir (rp_global r ! j) (rp_global r ! i)
          \<longrightarrow> reaches ir (rp_global r ! i) (rp_global r ! j))
    \<and> rp_global r = concat (rev slices) \<and> length slices = length (ir_functions ir)
    \<and> (\<forall>f < length slices. function_rpo r f = Some (slices ! f)
          \<and> set (slices ! f) = {b. reaches ir (entry_of ir f) b \<and> (\<forall>g < f. \<not> reaches ir (entry_of ir g) b)}
          \<and> (slices ! f \<noteq> [] \<longrightarrow> hd (slices ! f) = entry_of ir f)
          \<and> (\<forall>i. 0 < i \<and> i < length (slices ! f) \<longrightarrow> (\<exists>j < i. edge ir (slices ! f ! j) (slices ! f ! i))))"
proof -
  obtain Qs where Qs: "length Qs = length (ir_functions ir)" "rpo_slices ir Qs"
    and run: "compute_rpo fuel ir = Some \<lparr>rp_visited = set (concat Qs), rp_global = rev (concat Qs),
       rp_starts = map (\<lambda>k. length (before Qs k)) [0..<length (ir_functions ir)]\<rparr>"
    using rpo_run [OF assms] .
  have idx: "is_idx (length Qs)"
    using assms(1) Qs(1) by (simp add: cfg_closed_def)
  define r where "r = \<lparr>rp_visited = set (concat Qs), rp_global = rev (concat Qs),
       rp_starts = map (\<lambda>k. length (before Qs k)) [0..<length (ir_functions ir)]\<rparr>"
  have rp: "rp_global r = rev (concat Qs)"
    by (simp add: r_def)
  have global: "rp_global r = concat (rev (map rev Qs))"
    by (simp add: rp rev_concat rev_map)
  have lists: "distinct (rp_global r)" "set (rp_global r) = reachable_blocks ir"
    using concat_slices [OF Qs(2,1)] by (simp_all only: rp distinct_rev set_rev)
  have back_edge: "reaches ir (rp_global r ! i) (rp_global r ! j)"
    if "i \<le> j" "j < length (rp_global r)" "edge ir (rp_global r ! j) (rp_global r ! i)" for i j
    unfolding rp by (rule rpo_back_edge [OF rpo_slices_forest [OF Qs(2)]]) (use that in \<open>simp_all add: rp\<close>)
  have slices: "function_rpo r f = Some (map rev Qs ! f)
      \<and> set (map rev Qs ! f) = {b. reaches ir (entry_of ir f) b \<and> (\<forall>g < f. \<not> reaches ir (entry_of ir g) b)}
      \<and> (map rev Qs ! f \<noteq> [] \<longrightarrow> hd (map rev Qs ! f) = entry_of ir f)
      \<and> (\<forall>i. 0 < i \<and> i < length (map rev Qs ! f) \<longrightarrow> (\<exists>j < i. edge ir (map rev Qs ! f ! j) (map rev Qs ! f ! i)))"
    if "f < length Qs" for f
    using slice_rpo [OF Qs(1) that idx] slice_ok [OF Qs(2) that] that by (simp add: r_def)
  show ?thesis
    using run [folded r_def] global lists slices back_edge Qs(1) by (intro exI [of _ r] exI [of _ "map rev Qs"]) simp
qed

lemma map_filter_enumerate:
  "List.map_filter (\<lambda>(b, ow). if P ow then Some b else None) (enumerate n xs) =
   filter (\<lambda>b. P (xs ! (b - n))) [n..<n + length xs]"
proof (induction xs arbitrary: n)
  case (Cons x xs)
  have "[n..<n + length (x # xs)] = n # [Suc n..<Suc n + length xs]"
    by (simp add: upt_conv_Cons del: upt_Suc)
  moreover have "filter (\<lambda>b. P ((x # xs) ! (b - n))) [Suc n..<Suc n + length xs] =
      filter (\<lambda>b. P (xs ! (b - Suc n))) [Suc n..<Suc n + length xs]"
    by (intro filter_cong) (auto simp: nth_Cons')
  ultimately show ?case
    using Cons [of "Suc n"] by (simp del: upt_Suc)
qed simp

lemma get_owner_iff: "b < length os \<Longrightarrow> get_owner os b = Some (Inr f) \<longleftrightarrow> os ! b = Some f"
  by (simp add: get_owner_def iv_index_def split: option.splits)

lemma reachability_run:
  assumes "cfg_closed ir" and "length (ir_basic_blocks ir) < fuel"
  shows "compute_reachability fuel ir = Some (reachable_blocks ir)"
proof -
  obtain Qs where Qs: "length Qs = length (ir_functions ir)" "rpo_slices ir Qs"
    and reach: "fold_panics (reach_function fuel ir) [0..<length (ir_functions ir)] {} = Some (set (concat Qs))"
    using walk_functions [OF assms order_refl] by blast
  then show ?thesis
    using concat_slices(2) [OF Qs(2,1)]
    by (simp add: compute_reachability_def reach_function_def [abs_def] del: set_concat)
qed

lemma owners_iff:
  assumes "length Qs = length (ir_functions ir)" and "rpo_slices ir Qs" and "b < length (ir_basic_blocks ir)"
  shows "owners ir Qs ! b = Some f \<longleftrightarrow>
      f < length (ir_functions ir) \<and> reaches ir (entry_of ir f) b \<and> (\<forall>g < f. \<not> reaches ir (entry_of ir g) b)"
proof -
  have "b \<in> set (Qs ! k) \<longleftrightarrow> reaches ir (entry_of ir k) b \<and> (\<forall>g < k. \<not> reaches ir (entry_of ir g) b)"
    if "k < length Qs" for k
    using slice_ok [OF assms(2) that] by auto
  then show ?thesis
    using assms(1,3) by (auto simp: owners_def find_Some_iff)
qed

lemma ownership_run:
  assumes "cfg_closed ir" and "length (ir_basic_blocks ir) < fuel"
  shows "\<exists>os. compute_ownership fuel ir = Some os \<and> length os = length (ir_basic_blocks ir)
    \<and> (\<forall>b < length os. \<forall>f. os ! b = Some f \<longleftrightarrow> f < length (ir_functions ir) \<and> reaches ir (entry_of ir f) b \<and> (\<forall>g < f. \<not> reaches ir (entry_of ir g) b))"
proof -
  obtain Qs where Qs: "length Qs = length (ir_functions ir)" "rpo_slices ir Qs"
    and own: "fold_panics (own_function fuel ir) [0..<length (ir_functions ir)]
        (replicate (length (ir_basic_blocks ir)) None) = Some (owners ir Qs)"
    using walk_functions [OF assms order_refl] by blast
  then show ?thesis
    using owners_iff [OF Qs] by (simp add: compute_ownership_def own_function_def [abs_def])
qed

text \<open>
  C32. Reachability and ownership.  With fuel for one more than the number of blocks the walks return:
  the reachable blocks are those that a function entry reaches; the owner of a block is the first
  function whose entry reaches it, and a block without an owner is unreachable; the lists of
  blocks by owner are in increasing order.
\<close>

theorem reachability_and_ownership:
  assumes "cfg_closed ir" and "length (ir_basic_blocks ir) < fuel"
  shows "compute_reachability fuel ir = Some (reachable_blocks ir)
    \<and> (\<exists>os. compute_ownership fuel ir = Some os \<and> length os = length (ir_basic_blocks ir)
        \<and> (\<forall>b < length os. \<forall>f. get_owner os b = Some (Inr f) \<longleftrightarrow>
              f < length (ir_functions ir) \<and> reaches ir (entry_of ir f) b \<and> (\<forall>g < f. \<not> reaches ir (entry_of ir g) b))
        \<and> (\<forall>b < length os. owner_is_reachable os b = Some (b \<in> reachable_blocks ir))
        \<and> unreachable_blocks os = Some (filter (\<lambda>b. b \<notin> reachable_blocks ir) [0..<length os])
        \<and> (\<forall>f. blocks_owned_by os f = Some (filter (\<lambda>b. get_owner os b = Some (Inr f)) [0..<length os])))"
proof -
  obtain Qs where Qs: "length Qs = length (ir_functions ir)" "rpo_slices ir Qs"
    and reach: "fold_panics (reach_function fuel ir) [0..<length (ir_functions ir)] {} = Some (set (concat Qs))"
    and own: "fold_panics (own_function fuel ir) [0..<length (ir_functions ir)]
        (replicate (length (ir_basic_blocks ir)) None) = Some (owners ir Qs)"
    using walk_functions [OF assms order_refl] by blast
  note blocks = concat_slices [OF Qs(2,1)]
  note owner = owners_iff [OF Qs]
  have reachable: "owners ir Qs ! b \<noteq> None \<longleftrightarrow> b \<in> reachable_blocks ir" if "b < length (ir_basic_blocks ir)" for b
    using owners_None [OF that] blocks(2) by (simp del: set_concat)
  have enum: "iv_enumerate_idx (owners ir Qs) = Some (enumerate 0 (owners ir Qs))"
    using assms(1) by (simp add: iv_enumerate_idx_def enumerate_from_Some enumerate_eq_zip cfg_closed_def)
  let ?os = "owners ir Qs"
  have "filter (\<lambda>b. ?os ! b = None) [0..<length ?os] = filter (\<lambda>b. b \<notin> reachable_blocks ir) [0..<length ?os]"
    using reachable by (intro filter_cong refl) (metis atLeastLessThan_iff length_owners set_upt)
  then have unreachable: "unreachable_blocks ?os = Some (filter (\<lambda>b. b \<notin> reachable_blocks ir) [0..<length ?os])"
    using enum map_filter_enumerate [of "\<lambda>ow. ow = None" 0 ?os] by (simp add: unreachable_blocks_def)
  have "filter (\<lambda>b. ?os ! b = Some f) [0..<length ?os] = filter (\<lambda>b. get_owner ?os b = Some (Inr f)) [0..<length ?os]" for f
    by (intro filter_cong) (simp_all add: get_owner_iff)
  then have owned: "blocks_owned_by ?os f = Some (filter (\<lambda>b. get_owner ?os b = Some (Inr f)) [0..<length ?os])" for f
    using enum map_filter_enumerate [of "\<lambda>ow. ow = Some f" 0 ?os] by (simp add: blocks_owned_by_def)
  have "compute_reachability fuel ir = Some (reachable_blocks ir)" "compute_ownership fuel ir = Some ?os"
    using reach own blocks(2)
    by (simp_all add: compute_reachability_def compute_ownership_def reach_function_def [abs_def]
        own_function_def [abs_def] del: set_concat)
  moreover have "owner_is_reachable ?os b = Some (b \<in> reachable_blocks ir)" if "b < length ?os" for b
    using that reachable [of b] by (simp add: owner_is_reachable_def iv_index_def del: not_None_eq)
  ultimately show ?thesis
    using owner unreachable owned by (intro conjI exI [of _ ?os]) (simp_all add: get_owner_iff)
qed

lemma push_preds:
  "set ss \<subseteq> {..<length ps} \<Longrightarrow>
   fold_panics (\<lambda>s inner. do { ps \<leftarrow> iv_index inner s; iv_set inner s (ps @ [b]) }) ss ps =
   Some (map (\<lambda>x. ps ! x @ replicate (count_list ss x) b) [0..<length ps])"
proof (induction ss arbitrary: ps)
  case Nil
  then show ?case
    by (simp add: map_nth)
next
  case (Cons s ss)
  have "map (\<lambda>x. ps[s := ps ! s @ [b]] ! x @ replicate (count_list ss x) b) [0..<length ps] =
      map (\<lambda>x. ps ! x @ replicate (count_list (s # ss) x) b) [0..<length ps]"
    using Cons.prems by (intro map_cong) (auto simp: nth_list_update)
  then show ?case
    using Cons.prems Cons.IH [of "ps[s := ps ! s @ [b]]"] by (simp add: iv_index_def iv_set_def)
qed

text \<open>The entry of a block in the list of \<open>x\<close>, once per edge.\<close>

definition edge_copies :: "eth_ir_program \<Rightarrow> nat set \<Rightarrow> nat \<Rightarrow> nat \<Rightarrow> nat list" where
  "edge_copies ir R x b =
     (case block_successors ir b of
        Some ss \<Rightarrow> if b \<in> R then replicate (count_list ss x) b else []
      | None \<Rightarrow> [])"

lemma edge_copies_simps:
  "b \<notin> R \<Longrightarrow> edge_copies ir R x b = []" "block_successors ir b = None \<Longrightarrow> edge_copies ir R x b = []"
  "b \<in> R \<Longrightarrow> block_successors ir b = Some ss \<Longrightarrow> edge_copies ir R x b = replicate (count_list ss x) b"
  by (simp_all add: edge_copies_def split: option.splits)

lemma set_edge_copies: "y \<in> set (edge_copies ir R x b) \<longleftrightarrow> y = b \<and> b \<in> R \<and> edge ir b x"
  by (cases "b \<in> R"; cases "block_successors ir b") (auto simp: edge_copies_simps edge_def count_list_0_iff)

definition pred_list :: "eth_ir_program \<Rightarrow> nat set \<Rightarrow> nat list \<Rightarrow> nat \<Rightarrow> nat list" where
  "pred_list ir R bs x = concat (map (edge_copies ir R x) bs)"

lemma pred_list_snoc: "pred_list ir R (bs @ [b]) x = pred_list ir R bs x @ edge_copies ir R x b"
  by (simp add: pred_list_def)

lemma set_pred_list: "y \<in> set (pred_list ir R bs x) \<longleftrightarrow> y \<in> set bs \<and> y \<in> R \<and> edge ir y x"
  by (induction bs rule: rev_induct) (auto simp: pred_list_snoc set_edge_copies pred_list_def [of ir R "[]"])

lemma edge_source: "edge ir b x \<Longrightarrow> b < length (ir_basic_blocks ir)"
  by (auto simp: edge_def block_successors_def block_control_def iv_index_def get_at_def bind_Some
      split: option.splits if_splits)

lemma predecessors_run:
  assumes "cfg_closed ir"
  shows "compute_predecessors ir R inner =
    Some (map (pred_list ir R [0..<length (ir_basic_blocks ir)]) [0..<length (ir_basic_blocks ir)])"
proof -
  let ?n = "length (ir_basic_blocks ir)"
  have run: "fold_panics (\<lambda>b inner.
         if b \<notin> R then Some inner
         else do { succs \<leftarrow> block_successors ir b;
                   fold_panics (\<lambda>s inner. do { ps \<leftarrow> iv_index inner s; iv_set inner s (ps @ [b]) }) succs inner })
       [0..<k] (replicate ?n []) = Some (map (pred_list ir R [0..<k]) [0..<?n])" if "k \<le> ?n" for k
    using that
  proof (induction k)
    case 0
    then show ?case
      by (simp add: pred_list_def map_replicate_const)
  next
    case (Suc k)
    obtain ss where "block_successors ir k = Some ss" "set ss \<subseteq> {..<?n}"
      using cfg_closedE [OF assms, of k] Suc.prems by (metis Suc_le_lessD)
    then show ?case
      using Suc push_preds [of ss "map (pred_list ir R [0..<k]) [0..<?n]" k]
      by (cases "k \<in> R") (simp_all add: pred_list_snoc edge_copies_simps)
  qed
  have "resize ?n [] (map (\<lambda>_. []) inner) = (replicate ?n [] :: nat list list)"
    by (intro nth_equalityI) (simp_all add: nth_resize)
  then show ?thesis
    using run [of ?n] by (simp add: compute_predecessors_def)
qed

lemma set_predecessors: "set (pred_list ir R [0..<length (ir_basic_blocks ir)] x) = {b. b \<in> R \<and> edge ir b x}"
  using edge_source [of ir _ x] by (auto simp: set_pred_list)

lemma sorted_pred_list: "sorted (pred_list ir R [0..<k] x)"
proof (induction k)
  case (Suc k)
  have "sorted (edge_copies ir R x k)"
    by (cases "k \<in> R"; cases "block_successors ir k") (simp_all add: edge_copies_simps)
  with Suc show ?case
    by (auto simp: pred_list_snoc sorted_append set_pred_list set_edge_copies)
qed (simp add: pred_list_def)

text \<open>
  Predecessors.  Whatever the lists held before, the predecessors of a block are the reachable
  blocks with an edge to it, in increasing order, each as often as it names the block among its
  successors.
\<close>

theorem predecessors_correct:
  assumes "cfg_closed ir"
  shows "\<exists>ps. compute_predecessors ir R inner = Some ps \<and> length ps = length (ir_basic_blocks ir)
    \<and> (\<forall>x < length ps. ps ! x = pred_list ir R [0..<length (ir_basic_blocks ir)] x
         \<and> sorted (ps ! x) \<and> set (ps ! x) = {b. b \<in> R \<and> edge ir b x})"
  using predecessors_run [OF assms, of R inner] set_predecessors [of ir R] sorted_pred_list [of ir R]
  by (intro exI [of _ "map (pred_list ir R [0..<length (ir_basic_blocks ir)]) [0..<length (ir_basic_blocks ir)]"]) simp

section \<open>Examples\<close>

text \<open>\<open>bb0 ? bb1 : bb2\<close>, \<open>bb1\<close> and \<open>bb2\<close> continue to \<open>bb3\<close>, which jumps back to \<open>bb1\<close>; \<open>bb4\<close> is unreachable.\<close>

definition plain_block :: "control \<Rightarrow> basic_block" where
  "plain_block c = \<lparr>bb_inputs = span_new 0 0, bb_outputs = span_new 0 0, bb_operations = span_new 0 0, bb_control = c\<rparr>"

definition loop_cfg :: eth_ir_program where
  "loop_cfg = ir_default\<lparr>
     ir_functions := [\<lparr>fn_entry = 0, fn_outputs = 0, fn_source = None\<rparr>],
     ir_basic_blocks := map plain_block
       [Branches \<lparr>br_condition = 0, br_non_zero_target = 1, br_zero_target = 2\<rparr>,
        ContinuesTo 3, ContinuesTo 3, ContinuesTo 1, LastOpTerminates]\<rparr>"

lemma loop_cfg_successors:
  "block_successors loop_cfg 0 = Some [2, 1]" "block_successors loop_cfg (Suc 0) = Some [3]"
  "block_successors loop_cfg 2 = Some [3]" "block_successors loop_cfg 3 = Some [1]"
  "block_successors loop_cfg 4 = Some []"
  by (simp_all add: block_successors_def block_control_def iter_outgoing_def outgoing_list_def loop_cfg_def
      plain_block_def iv_index_def)

lemma loop_cfg_size: "length (ir_basic_blocks loop_cfg) = 5" "length (ir_functions loop_cfg) = 1"
  by (simp_all add: loop_cfg_def)

lemma loop_cfg_closed: "cfg_closed loop_cfg"
proof -
  have "case block_successors loop_cfg b of None \<Rightarrow> False | Some ss \<Rightarrow> \<forall>t \<in> set ss. t < 5" if "b < 5" for b
  proof -
    have "b = 0 \<or> b = Suc 0 \<or> b = 2 \<or> b = 3 \<or> b = 4"
      using that by arith
    then show ?thesis
      using loop_cfg_successors by fastforce
  qed
  moreover have "fn_entry f < 5" if "f \<in> set (ir_functions loop_cfg)" for f
    using that by (simp add: loop_cfg_def)
  ultimately show ?thesis
    unfolding cfg_closed_def loop_cfg_size by (simp add: is_idx_def u32_max_def)
qed

lemma reverse_post_order_correct_witness:
  "\<exists>r. compute_rpo 6 loop_cfg = Some r \<and> distinct (rp_global r) \<and> set (rp_global r) = reachable_blocks loop_cfg"
  using reverse_post_order_correct [OF loop_cfg_closed, of 6] by (auto simp: loop_cfg_size)

lemma reachability_and_ownership_witness:
  "compute_reachability 6 loop_cfg = Some (reachable_blocks loop_cfg)"
  using reachability_and_ownership [OF loop_cfg_closed, of 6] by (simp add: loop_cfg_size)

lemma predecessors_correct_witness:
  "\<exists>ps. compute_predecessors loop_cfg {0, 1, 2, 3} [] = Some ps \<and> set (ps ! 1) = {b. b \<in> {0, 1, 2, 3} \<and> edge loop_cfg b 1}"
proof -
  obtain ps where ps: "compute_predecessors loop_cfg {0, 1, 2, 3} [] = Some ps" "length ps = 5"
    "\<forall>x < length ps. set (ps ! x) = {b. b \<in> {0, 1, 2, 3} \<and> edge loop_cfg b x}"
    using predecessors_correct [OF loop_cfg_closed, of "{0, 1, 2, 3}" "[]"] unfolding loop_cfg_size by blast
  have "set (ps ! 1) = {b. b \<in> {0, 1, 2, 3} \<and> edge loop_cfg b 1}"
    using ps(2) ps(3) [rule_format, of 1] by simp
  then show ?thesis
    using ps(1) by blast
qed

end
