(* ===== verification/Dominators.thy ===== *)
theory Dominators
  imports Cfg_Walk
begin

text \<open>
  Dominators and dominance frontiers (\<open>passes/src/analyses/dominators.rs\<close>): the iteration of Cooper,
  Harvey and Kennedy over the reverse post order of each function.  The \<open>DenseIndexMap\<close> of immediate
  dominators is the partial map it refines.  The loops are guarded by the \<open>LoopLimit\<close> of the source,
  which is also their termination measure.
\<close>

section \<open>The algorithm\<close>

lemma tick_progress:
  "loop_limit_tick l = Some l' \<Longrightarrow> ll_max l' = ll_max l \<and> ll_max l' - ll_count l' < ll_max l - ll_count l"
  by (auto simp: loop_limit_tick_def bind_Some add_u32_Some)

text \<open>The inner loops of \<open>intersect\<close>: a finger climbs until it is not behind the other.\<close>

function climb :: "(nat \<rightharpoonup> nat) \<Rightarrow> nat list \<Rightarrow> nat \<Rightarrow> nat \<Rightarrow> loop_limit \<Rightarrow> (nat \<times> loop_limit) panics" where
  "climb doms pos finger other limit =
     do { p \<leftarrow> iv_index pos finger;
          q \<leftarrow> iv_index pos other;
          if p > q then
            do { limit \<leftarrow> loop_limit_tick limit;
                 finger \<leftarrow> doms finger;
                 climb doms pos finger other limit }
          else Some (finger, limit) }"
  by pat_completeness auto
termination
  by (relation "measure (\<lambda>(doms, pos, finger, other, limit). ll_max limit - ll_count limit)")
    (auto dest: tick_progress)

declare climb.simps [simp del]

lemma climb_progress:
  "climb doms pos finger other limit = Some (f, limit') \<Longrightarrow>
   ll_max limit' = ll_max limit \<and> ll_max limit' - ll_count limit' \<le> ll_max limit - ll_count limit"
proof (induction doms pos finger other limit rule: climb.induct)
  case (1 doms pos finger other limit)
  show ?case
  proof (cases "iv_index pos finger = None \<or> iv_index pos other = None")
    case True
    then show ?thesis
      using "1.prems" by (auto simp: climb.simps [of doms pos finger] bind_Some)
  next
    case False
    then obtain p q where pq: "iv_index pos finger = Some p" "iv_index pos other = Some q"
      by auto
    show ?thesis
    proof (cases "p > q")
      case True
      then obtain l g where l: "loop_limit_tick limit = Some l" "doms finger = Some g"
        "climb doms pos g other l = Some (f, limit')"
        using "1.prems" pq by (auto simp: climb.simps [of doms pos finger] bind_Some)
      then show ?thesis
        using "1.IH" [OF pq True l(1,2,3)] tick_progress [OF l(1)] by linarith
    qed (use "1.prems" pq in \<open>auto simp: climb.simps [of doms pos finger]\<close>)
  qed
qed

function intersect_from :: "(nat \<rightharpoonup> nat) \<Rightarrow> nat list \<Rightarrow> nat \<Rightarrow> nat \<Rightarrow> loop_limit \<Rightarrow> nat panics" where
  "intersect_from doms pos finger1 finger2 limit =
     (if finger1 \<noteq> finger2 then
        do { limit \<leftarrow> loop_limit_tick limit;
             (finger1, limit) \<leftarrow> climb doms pos finger1 finger2 limit;
             (finger2, limit) \<leftarrow> climb doms pos finger2 finger1 limit;
             intersect_from doms pos finger1 finger2 limit }
      else Some finger1)"
  by pat_completeness auto
termination
  by (relation "measure (\<lambda>(doms, pos, finger1, finger2, limit). ll_max limit - ll_count limit)")
    (fastforce dest: tick_progress climb_progress)+

declare intersect_from.simps [simp del]

definition intersect :: "nat \<Rightarrow> nat \<Rightarrow> (nat \<rightharpoonup> nat) \<Rightarrow> nat list \<Rightarrow> nat panics" where
  "intersect bb1 bb2 doms pos = intersect_from doms pos bb1 bb2 loop_limit_new"

definition dom_block ::
    "nat list list \<Rightarrow> nat list \<Rightarrow> nat \<Rightarrow> (nat \<rightharpoonup> nat) \<times> bool \<Rightarrow> ((nat \<rightharpoonup> nat) \<times> bool) panics" where
  "dom_block predecessors pos bb = (\<lambda>(doms, changed).
     do { all_preds \<leftarrow> iv_index predecessors bb;
          case filter (\<lambda>pred. doms pred \<noteq> None) all_preds of
            [] \<Rightarrow> None
          | first # preds \<Rightarrow>
              do { new_idom \<leftarrow> fold_panics (\<lambda>pred new_idom.
                       if doms pred \<noteq> None then intersect pred new_idom doms pos else Some new_idom) preds first;
                   Some (doms(bb \<mapsto> new_idom),
                     changed \<or> (case doms bb of None \<Rightarrow> True | Some prev_idom \<Rightarrow> prev_idom \<noteq> new_idom)) } })"

definition dom_pass ::
    "nat list list \<Rightarrow> nat list \<Rightarrow> nat list \<Rightarrow> (nat \<rightharpoonup> nat) \<Rightarrow> ((nat \<rightharpoonup> nat) \<times> bool) panics" where
  "dom_pass predecessors pos rest doms = fold_panics (dom_block predecessors pos) rest (doms, False)"

function dom_loop ::
    "nat list list \<Rightarrow> nat list \<Rightarrow> nat list \<Rightarrow> (nat \<rightharpoonup> nat) \<Rightarrow> bool \<Rightarrow> loop_limit \<Rightarrow> (nat \<rightharpoonup> nat) panics" where
  "dom_loop predecessors pos rest doms changed limit =
     (if changed then
        do { limit \<leftarrow> loop_limit_tick limit;
             (doms, changed) \<leftarrow> dom_pass predecessors pos rest doms;
             dom_loop predecessors pos rest doms changed limit }
      else Some doms)"
  by pat_completeness auto
termination
  by (relation "measure (\<lambda>(preds, pos, rest, doms, changed, limit). ll_max limit - ll_count limit)")
    (auto dest: tick_progress)

declare dom_loop.simps [simp del]

text \<open>Positions are cast to \<open>u32\<close>.\<close>

definition rpo_positions :: "nat \<Rightarrow> nat list \<Rightarrow> nat list panics" where
  "rpo_positions n rpo =
     fold_panics (\<lambda>(i, b) pos. iv_set pos b (i mod 2 ^ 32)) (enumerate 0 rpo) (replicate n 0)"

definition compute_function_dominators ::
    "eth_ir_program \<Rightarrow> nat list list \<Rightarrow> nat list \<Rightarrow> nat \<Rightarrow> (nat \<rightharpoonup> nat) \<Rightarrow> (nat \<rightharpoonup> nat) panics" where
  "compute_function_dominators ir predecessors rpo f doms =
     do { entry \<leftarrow> function_entry ir f;
          ensure (doms entry = None);
          let doms = doms(entry \<mapsto> entry);
          pos \<leftarrow> rpo_positions (length (ir_basic_blocks ir)) rpo;
          rest \<leftarrow> slice_from rpo 1;
          dom_loop predecessors pos rest doms True loop_limit_new }"

definition compute_dominators ::
    "eth_ir_program \<Rightarrow> nat list list \<Rightarrow> reverse_post_order \<Rightarrow> (nat \<rightharpoonup> nat) panics" where
  "compute_dominators ir predecessors r =
     fold_panics (\<lambda>f doms. do { rpo \<leftarrow> function_rpo r f; compute_function_dominators ir predecessors rpo f doms })
       [0..<length (ir_functions ir)] Map.empty"

function run_up ::
    "(nat \<rightharpoonup> nat) \<Rightarrow> nat \<Rightarrow> nat \<Rightarrow> nat \<Rightarrow> loop_limit \<Rightarrow> nat set list \<Rightarrow> nat set list panics" where
  "run_up doms idom b runner limit df =
     (if runner \<noteq> idom then
        do { limit \<leftarrow> loop_limit_tick limit;
             s \<leftarrow> iv_index df runner;
             df \<leftarrow> iv_set df runner (insert b s);
             runner \<leftarrow> doms runner;
             run_up doms idom b runner limit df }
      else Some df)"
  by pat_completeness auto
termination
  by (relation "measure (\<lambda>(doms, idom, b, runner, limit, df). ll_max limit - ll_count limit)")
    (auto dest: tick_progress)

declare run_up.simps [simp del]

definition frontier_block ::
    "(nat \<rightharpoonup> nat) \<Rightarrow> nat \<times> nat list \<Rightarrow> nat set list \<Rightarrow> nat set list panics" where
  "frontier_block doms = (\<lambda>(b, preds) df.
     if length preds < 2 then Some df
     else case doms b of
         None \<Rightarrow> Some df
       | Some idom \<Rightarrow>
           fold_panics (\<lambda>p df. if doms p = None then Some df else run_up doms idom b p loop_limit_new df) preds df)"

definition compute_frontiers ::
    "eth_ir_program \<Rightarrow> nat list list \<Rightarrow> (nat \<rightharpoonup> nat) \<Rightarrow> nat set list panics" where
  "compute_frontiers ir predecessors doms =
     do { ps \<leftarrow> iv_enumerate_idx predecessors;
          fold_panics (frontier_block doms) ps (replicate (length (ir_basic_blocks ir)) {}) }"

section \<open>A region of the graph\<close>

text \<open>
  The blocks of one function in reverse post order with their positions, the predecessor lists, and
  the dominators that earlier functions left in the map.
\<close>

record region =
  rg_edge :: "nat \<Rightarrow> nat \<Rightarrow> bool"
  rg_rpo :: "nat list"
  rg_pos :: "nat list"
  rg_preds :: "nat list list"
  rg_old :: "nat \<rightharpoonup> nat"

abbreviation rg_entry :: "region \<Rightarrow> nat" where
  "rg_entry G \<equiv> hd (rg_rpo G)"

abbreviation at :: "region \<Rightarrow> nat \<Rightarrow> nat" where
  "at G x \<equiv> rg_pos G ! x"

definition region_ok :: "region \<Rightarrow> bool" where
  "region_ok G \<longleftrightarrow>
     rg_rpo G \<noteq> [] \<and> distinct (rg_rpo G) \<and> 4 * length (rg_rpo G) \<le> 100000000
     \<and> (\<forall>i < length (rg_rpo G). rg_rpo G ! i < length (rg_pos G) \<and> at G (rg_rpo G ! i) = i)
     \<and> (\<forall>i. 0 < i \<and> i < length (rg_rpo G) \<longrightarrow> (\<exists>j < i. rg_edge G (rg_rpo G ! j) (rg_rpo G ! i)))
     \<and> (\<forall>x \<in> set (rg_rpo G). x < length (rg_preds G)
          \<and> (\<forall>p \<in> set (rg_rpo G). p \<in> set (rg_preds G ! x) \<longleftrightarrow> rg_edge G p x)
          \<and> (\<forall>p \<in> set (rg_preds G ! x). rg_old G p = None))
     \<and> (\<forall>x \<in> set (rg_rpo G). rg_old G x = None)"

lemma region_pos:
  assumes "region_ok G" and "x \<in> set (rg_rpo G)"
  shows "x < length (rg_pos G)" "at G x < length (rg_rpo G)" "rg_rpo G ! at G x = x"
  using assms by (auto simp: region_ok_def in_set_conv_nth)

lemma region_pos_inj:
  "region_ok G \<Longrightarrow> x \<in> set (rg_rpo G) \<Longrightarrow> y \<in> set (rg_rpo G) \<Longrightarrow> at G x = at G y \<Longrightarrow> x = y"
  by (metis region_pos(3))

lemma region_entry:
  assumes "region_ok G"
  shows "rg_entry G \<in> set (rg_rpo G)" "at G (rg_entry G) = 0"
  using assms by (auto simp: region_ok_def hd_conv_nth)

lemma region_parent:
  assumes "region_ok G" and "x \<in> set (rg_rpo G)" and "x \<noteq> rg_entry G"
  obtains p where "p \<in> set (rg_rpo G)" "rg_edge G p x" "at G p < at G x"
proof -
  have "at G x \<noteq> 0"
    using region_pos_inj [OF assms(1,2) region_entry(1) [OF assms(1)]] region_entry(2) [OF assms(1)] assms(3) by metis
  then obtain j where j: "j < at G x" "rg_edge G (rg_rpo G ! j) x"
    using assms(1) region_pos [OF assms(1,2)] unfolding region_ok_def by (metis bot_nat_0.not_eq_extremum)
  then have "j < length (rg_rpo G)"
    using region_pos(2) [OF assms(1,2)] by simp
  then have "at G (rg_rpo G ! j) = j"
    using assms(1) by (simp add: region_ok_def)
  then show ?thesis
    using that j \<open>j < length (rg_rpo G)\<close> by (metis nth_mem)
qed

text \<open>
  A block that the entry reaches inside the region without passing \<open>y\<close>, over at most \<open>k\<close> edges that
  do not lead forward in the order.
\<close>

inductive avoids :: "region \<Rightarrow> nat \<Rightarrow> nat \<Rightarrow> nat \<Rightarrow> bool" for G y where
  avoids_entry: "rg_entry G \<noteq> y \<Longrightarrow> avoids G y k (rg_entry G)"
| avoids_forward: "avoids G y k p \<Longrightarrow> rg_edge G p x \<Longrightarrow> x \<in> set (rg_rpo G) \<Longrightarrow> x \<noteq> y \<Longrightarrow> at G p < at G x \<Longrightarrow> avoids G y k x"
| avoids_any: "avoids G y k p \<Longrightarrow> rg_edge G p x \<Longrightarrow> x \<in> set (rg_rpo G) \<Longrightarrow> x \<noteq> y \<Longrightarrow> avoids G y (Suc k) x"

definition dom_by :: "region \<Rightarrow> nat \<Rightarrow> nat \<Rightarrow> bool" where
  "dom_by G x y \<longleftrightarrow> (\<forall>k. \<not> avoids G y k x)"

lemma avoids_in:
  assumes "region_ok G" and "avoids G y k x"
  shows "x \<in> set (rg_rpo G)" "x \<noteq> y"
  using assms(2) region_entry(1) [OF assms(1)] by (induction) auto

lemma avoids_Suc: "avoids G y k x \<Longrightarrow> avoids G y (Suc k) x"
  by (induction rule: avoids.induct) (auto intro: avoids.intros)

lemma avoids_mono: "avoids G y k x \<Longrightarrow> k \<le> m \<Longrightarrow> avoids G y m x"
  by (induction m) (auto simp: le_Suc_eq intro: avoids_Suc)

text \<open>A walk to \<open>x\<close> that passes \<open>z\<close> has a walk to \<open>z\<close> as a prefix.\<close>

lemma avoids_prefix: "avoids G y k x \<Longrightarrow> \<not> avoids G z k x \<Longrightarrow> avoids G y k z"
proof (induction rule: avoids.induct)
  case (avoids_entry k)
  then have "z = rg_entry G"
    using avoids.avoids_entry by metis
  then show ?case
    using avoids_entry by (simp add: avoids.avoids_entry)
next
  case (avoids_forward k p x)
  show ?case
  proof (cases "avoids G z k p")
    case True
    then have "z = x"
      using avoids_forward avoids.avoids_forward by blast
    then show ?thesis
      using avoids_forward avoids.avoids_forward by blast
  qed (use avoids_forward.IH in blast)
next
  case (avoids_any k p x)
  show ?case
  proof (cases "avoids G z k p")
    case True
    then have "z = x"
      using avoids_any avoids.avoids_any by blast
    then show ?thesis
      using avoids_any avoids.avoids_any by blast
  qed (use avoids_any.IH avoids_Suc in blast)
qed

lemma avoids_later:
  assumes "region_ok G" and "x \<in> set (rg_rpo G)" and "y \<noteq> x" and "y \<in> set (rg_rpo G) \<Longrightarrow> at G x < at G y"
  shows "avoids G y 0 x"
  using assms(2-4)
proof (induction "at G x" arbitrary: x rule: less_induct)
  case less
  show ?case
  proof (cases "x = rg_entry G")
    case True
    then show ?thesis
      using less.prems avoids_entry by metis
  next
    case False
    obtain p where p: "p \<in> set (rg_rpo G)" "rg_edge G p x" "at G p < at G x"
      using region_parent [OF assms(1) less.prems(1) False] .
    then have "avoids G y 0 p"
      using less.hyps [OF p(3)] less.prems(3) by force
    then show ?thesis
      using avoids_forward p less.prems by blast
  qed
qed

lemma dom_by_pos: "region_ok G \<Longrightarrow> x \<in> set (rg_rpo G) \<Longrightarrow> dom_by G x y \<Longrightarrow> y \<in> set (rg_rpo G) \<and> at G y \<le> at G x"
  unfolding dom_by_def using avoids_later [of G x y] by fastforce

lemma dom_by_refl: "region_ok G \<Longrightarrow> dom_by G x x"
  unfolding dom_by_def using avoids_in(2) by blast

lemma dom_by_pred:
  "dom_by G x y \<Longrightarrow> y \<noteq> x \<Longrightarrow> rg_edge G p x \<Longrightarrow> x \<in> set (rg_rpo G) \<Longrightarrow> dom_by G p y"
  unfolding dom_by_def by (metis avoids_any)

text \<open>As many such edges as there are blocks are enough.\<close>

lemma avoids_stable:
  assumes "avoids G y m x" and "\<And>x. avoids G y (Suc k) x \<Longrightarrow> avoids G y k x"
  shows "avoids G y k x"
  using assms(1)
proof (induction rule: avoids.induct)
  case (avoids_entry j)
  then show ?case
    by (rule avoids.avoids_entry)
next
  case (avoids_forward j p x)
  then show ?case
    by (metis avoids.avoids_forward)
next
  case (avoids_any j p x)
  then have "avoids G y (Suc k) x"
    by (metis avoids.avoids_any)
  then show ?case
    by (rule assms(2))
qed

lemma avoids_bound:
  assumes "region_ok G" and "avoids G y m x"
  shows "avoids G y (length (rg_rpo G)) x"
proof -
  let ?S = "\<lambda>k. {x. avoids G y k x}" and ?n = "length (rg_rpo G)"
  have sub: "?S k \<subseteq> set (rg_rpo G)" for k
    using avoids_in(1) [OF assms(1)] by blast
  have "\<exists>k \<le> ?n. ?S (Suc k) = ?S k"
  proof (rule ccontr)
    assume "\<not> ?thesis"
    then have grow: "?S k \<subset> ?S (Suc k)" if "k \<le> ?n" for k
      using that avoids_Suc by blast
    have "k \<le> card (?S k)" if "k \<le> Suc ?n" for k
      using that
    proof (induction k)
      case (Suc k)
      have "card (?S k) < card (?S (Suc k))"
        using grow [of k] Suc.prems finite_subset [OF sub] by (intro psubset_card_mono) auto
      then show ?case
        using Suc by simp
    qed simp
    from this [of "Suc ?n"] have "Suc ?n \<le> card (set (rg_rpo G))"
      using card_mono [OF _ sub, of "Suc ?n"] by simp
    then show False
      using card_length [of "rg_rpo G"] by simp
  qed
  then obtain k where k: "k \<le> ?n" "?S (Suc k) = ?S k"
    by blast
  then have "avoids G y k x"
    using avoids_stable [OF assms(2), of k] by blast
  then show ?thesis
    using avoids_mono k(1) by blast
qed

section \<open>The tree of candidates\<close>

text \<open>
  The map restricted to the region is a tree that climbs in the order, and no strict dominator of a
  block is lost when climbing from it.
\<close>

definition tree_ok :: "region \<Rightarrow> (nat \<rightharpoonup> nat) \<Rightarrow> bool" where
  "tree_ok G D \<longleftrightarrow>
     D (rg_entry G) = Some (rg_entry G)
     \<and> (\<forall>x. x \<notin> set (rg_rpo G) \<longrightarrow> D x = rg_old G x)
     \<and> (\<forall>x d. x \<in> set (rg_rpo G) \<longrightarrow> x \<noteq> rg_entry G \<longrightarrow> D x = Some d \<longrightarrow>
          d \<in> set (rg_rpo G) \<and> at G d < at G x \<and> D d \<noteq> None
          \<and> (\<forall>y. y \<noteq> x \<and> dom_by G x y \<longrightarrow> dom_by G d y))"

abbreviation anc :: "(nat \<rightharpoonup> nat) \<Rightarrow> nat \<Rightarrow> nat \<Rightarrow> bool" where
  "anc D \<equiv> (\<lambda>a b. D a = Some b)\<^sup>*\<^sup>*"

definition in_tree :: "region \<Rightarrow> (nat \<rightharpoonup> nat) \<Rightarrow> nat \<Rightarrow> bool" where
  "in_tree G D x \<longleftrightarrow> x \<in> set (rg_rpo G) \<and> D x \<noteq> None"

lemma tree_step:
  assumes "tree_ok G D" and "in_tree G D x" and "D x = Some d"
  shows "in_tree G D d" "at G d \<le> at G x" "x \<noteq> rg_entry G \<Longrightarrow> at G d < at G x"
    "x \<noteq> rg_entry G \<Longrightarrow> y \<noteq> x \<Longrightarrow> dom_by G x y \<Longrightarrow> dom_by G d y" "x = rg_entry G \<Longrightarrow> d = x"
proof -
  have "in_tree G D d \<and> at G d \<le> at G x \<and> (x = rg_entry G \<longrightarrow> d = x)
      \<and> (x \<noteq> rg_entry G \<longrightarrow> at G d < at G x \<and> (\<forall>y. y \<noteq> x \<and> dom_by G x y \<longrightarrow> dom_by G d y))"
  proof (cases "x = rg_entry G")
    case True
    then have "d = x"
      using assms(1,3) by (simp add: tree_ok_def)
    then show ?thesis
      using assms(2) True by simp
  next
    case False
    have "d \<in> set (rg_rpo G) \<and> at G d < at G x \<and> D d \<noteq> None \<and> (\<forall>y. y \<noteq> x \<and> dom_by G x y \<longrightarrow> dom_by G d y)"
      using assms(1) assms(2,3) False unfolding tree_ok_def in_tree_def by blast
    then show ?thesis
      using False by (simp add: in_tree_def)
  qed
  then show "in_tree G D d" "at G d \<le> at G x" "x \<noteq> rg_entry G \<Longrightarrow> at G d < at G x"
    "x \<noteq> rg_entry G \<Longrightarrow> y \<noteq> x \<Longrightarrow> dom_by G x y \<Longrightarrow> dom_by G d y" "x = rg_entry G \<Longrightarrow> d = x"
    by blast+
qed

lemma anc_in_tree:
  assumes "tree_ok G D" and "in_tree G D x" and "anc D x y"
  shows "in_tree G D y" "at G y \<le> at G x" "y \<noteq> x \<Longrightarrow> at G y < at G x"
proof -
  from assms(3) have "in_tree G D y \<and> at G y \<le> at G x \<and> (y \<noteq> x \<longrightarrow> at G y < at G x)"
  proof (induction rule: rtranclp_induct)
    case (step y z)
    then have y: "in_tree G D y" "at G y \<le> at G x"
      by simp_all
    then show ?case
      using tree_step [OF assms(1) y(1) step.hyps(2)] step.IH by (cases "y = rg_entry G") auto
  qed (use assms(2) in simp)
  then show "in_tree G D y" "at G y \<le> at G x" "y \<noteq> x \<Longrightarrow> at G y < at G x"
    by simp_all
qed

text \<open>
  Relations that climb with a finger: ancestors in the tree and dominators.
\<close>

definition climbs :: "region \<Rightarrow> (nat \<rightharpoonup> nat) \<Rightarrow> (nat \<Rightarrow> nat \<Rightarrow> bool) \<Rightarrow> bool" where
  "climbs G D Q \<longleftrightarrow>
     (\<forall>x y. in_tree G D x \<longrightarrow> Q x y \<longrightarrow> at G y \<le> at G x)
     \<and> (\<forall>x y d. in_tree G D x \<longrightarrow> D x = Some d \<longrightarrow> y \<noteq> x \<longrightarrow> Q x y \<longrightarrow> Q d y)"

text \<open>What two blocks have in common under such a relation, a third keeps.\<close>

definition meet_ok :: "region \<Rightarrow> (nat \<rightharpoonup> nat) \<Rightarrow> nat \<Rightarrow> nat \<Rightarrow> nat \<Rightarrow> bool" where
  "meet_ok G D a b c \<longleftrightarrow> (\<forall>Q y. climbs G D Q \<and> Q a y \<and> Q b y \<longrightarrow> Q c y)"

lemma climbs_anc: "tree_ok G D \<Longrightarrow> climbs G D (anc D)"
  unfolding climbs_def
proof (intro conjI allI impI)
  show "at G y \<le> at G x" if "tree_ok G D" "in_tree G D x" "anc D x y" for x y
    using anc_in_tree(2) [OF that] .
  show "anc D d y" if "D x = Some d" "y \<noteq> x" "anc D x y" for x y d
    using that(3,1,2) by (cases rule: converse_rtranclpE) auto
qed

lemma climbs_dom_by: "region_ok G \<Longrightarrow> tree_ok G D \<Longrightarrow> climbs G D (dom_by G)"
  unfolding climbs_def
proof (intro conjI allI impI)
  assume R: "region_ok G" and T: "tree_ok G D"
  show "at G y \<le> at G x" if "in_tree G D x" "dom_by G x y" for x y
    using dom_by_pos [OF R _ that(2)] that(1) by (simp add: in_tree_def)
  show "dom_by G d y" if "in_tree G D x" "D x = Some d" "y \<noteq> x" "dom_by G x y" for x y d
    using tree_step(4,5) [OF T that(1,2)] that(3,4) by (cases "x = rg_entry G") simp_all
qed

definition room :: "loop_limit \<Rightarrow> nat \<Rightarrow> bool" where
  "room l k \<longleftrightarrow> ll_count l + k \<le> ll_max l \<and> ll_max l \<le> u32_max"

lemma room_tick: "room l (Suc k) \<Longrightarrow> \<exists>l'. loop_limit_tick l = Some l' \<and> room l' k"
  by (simp add: room_def loop_limit_tick_def add_u32_def)

lemma room_le: "room l k \<Longrightarrow> j \<le> k \<Longrightarrow> room l j"
  by (simp add: room_def)

lemma room_new: "k \<le> 100000000 \<Longrightarrow> room loop_limit_new k"
  by (simp add: room_def loop_limit_new_def u32_max_def)

lemma climb_spec:
  assumes "region_ok G" and "tree_ok G D" and "in_tree G D b"
  shows "in_tree G D a \<Longrightarrow> room l (at G a + k) \<Longrightarrow>
    \<exists>c l'. climb D (rg_pos G) a b l = Some (c, l') \<and> room l' (at G c + k) \<and> in_tree G D c \<and> anc D a c
      \<and> at G c \<le> at G b \<and> at G c \<le> at G a \<and> (at G b < at G a \<longrightarrow> at G c < at G a)
      \<and> meet_ok G D a b c"
proof (induction "at G a" arbitrary: a l rule: less_induct)
  case less
  have pos: "iv_index (rg_pos G) a = Some (at G a)" "iv_index (rg_pos G) b = Some (at G b)"
    using region_pos(1) [OF assms(1)] less.prems(1) assms(3) by (simp_all add: iv_index_def in_tree_def)
  show ?case
  proof (cases "at G b < at G a")
    case False
    then show ?thesis
      using pos less.prems by (intro exI [of _ a] exI [of _ l]) (simp add: climb.simps meet_ok_def)
  next
    case True
    obtain d where d: "D a = Some d"
      using less.prems(1) by (auto simp: in_tree_def)
    have not_entry: "a \<noteq> rg_entry G"
      using True region_entry(2) [OF assms(1)] by auto
    note step = tree_step [OF assms(2) less.prems(1) d]
    have dec: "at G d < at G a"
      using step(3) [OF not_entry] .
    obtain l1 where l1: "loop_limit_tick l = Some l1" "room l1 (at G a + k - 1)"
      using room_tick [of l "at G a + k - 1"] less.prems(2) True by auto
    have "room l1 (at G d + k)"
      using room_le [OF l1(2)] dec by simp
    then obtain c l' where c: "climb D (rg_pos G) d b l1 = Some (c, l')" "room l' (at G c + k)" "in_tree G D c" "anc D d c"
      "at G c \<le> at G b" "at G c \<le> at G d" "meet_ok G D d b c"
      using less.hyps [OF dec step(1)] by blast
    have both: "meet_ok G D a b c"
      unfolding meet_ok_def
    proof (intro allI impI)
      fix Q y assume Q: "climbs G D Q \<and> Q a y \<and> Q b y"
      then have "at G y \<le> at G b"
        using assms(3) by (simp add: climbs_def)
      then have "y \<noteq> a"
        using True by auto
      then have "Q d y"
        using Q d less.prems(1) by (simp add: climbs_def)
      then show "Q c y"
        using c(7) Q unfolding meet_ok_def by blast
    qed
    have up: "anc D a c"
      using d c(4) by (simp add: converse_rtranclp_into_rtranclp)
    moreover have "climb D (rg_pos G) a b l = Some (c, l')"
      using pos True l1(1) d c(1) by (simp add: climb.simps)
    ultimately show ?thesis
      using c(2,3,5,6) dec both by (intro exI [of _ c] exI [of _ l']) simp
  qed
qed

lemma intersect_spec:
  assumes "region_ok G" and "tree_ok G D"
  shows "in_tree G D a \<Longrightarrow> in_tree G D b \<Longrightarrow> room l (2 * (at G a + at G b)) \<Longrightarrow>
    \<exists>c. intersect_from D (rg_pos G) a b l = Some c \<and> in_tree G D c \<and> anc D a c \<and> anc D b c
      \<and> meet_ok G D a b c"
proof (induction "at G a + at G b" arbitrary: a b l rule: less_induct)
  case less
  show ?case
  proof (cases "a = b")
    case True
    then show ?thesis
      using less.prems by (intro exI [of _ a]) (simp add: intersect_from.simps meet_ok_def)
  next
    case False
    let ?s = "at G a + at G b"
    have apart: "at G a \<noteq> at G b"
      using False region_pos_inj [OF assms(1)] less.prems(1,2) by (auto simp: in_tree_def)
    have "0 < ?s"
      using apart by auto
    then have "Suc (2 * ?s - 1) = 2 * ?s"
      by simp
    then obtain l1 where l1: "loop_limit_tick l = Some l1" "room l1 (2 * ?s - 1)"
      using room_tick [of l "2 * ?s - 1"] less.prems(3) by metis
    then have "room l1 (at G a + (2 * ?s - 1 - at G a))"
      using apart by (simp add: room_def)
    then obtain c l2 where c: "climb D (rg_pos G) a b l1 = Some (c, l2)" "room l2 (at G c + (2 * ?s - 1 - at G a))"
      "in_tree G D c" "anc D a c" "at G c \<le> at G b" "at G c \<le> at G a" "at G b < at G a \<longrightarrow> at G c < at G a"
      "meet_ok G D a b c"
      using climb_spec [OF assms less.prems(2,1), of l1] by blast
    let ?k = "at G c + (2 * ?s - 1 - at G a) - at G b"
    have "at G b + ?k = at G c + (2 * ?s - 1 - at G a)"
      using apart by auto
    then have "room l2 (at G b + ?k)"
      using c(2) by simp
    then obtain d l3 where d: "climb D (rg_pos G) b c l2 = Some (d, l3)" "room l3 (at G d + ?k)"
      "in_tree G D d" "anc D b d" "at G d \<le> at G c" "at G d \<le> at G b" "at G c < at G b \<longrightarrow> at G d < at G b"
      "meet_ok G D b c d"
      using climb_spec [OF assms c(3) less.prems(2), of l2] by blast
    have dec: "at G c + at G d < ?s"
      using apart c(5-7) d(5-7) by linarith
    have k: "?k = at G c + ?s - 1"
      using apart by auto
    have "2 * (at G c + at G d) \<le> at G d + (at G c + ?s - 1)"
      using dec by arith
    then have "2 * (at G c + at G d) \<le> at G d + ?k"
      unfolding k .
    then have "room l3 (2 * (at G c + at G d))"
      using room_le [OF d(2)] by blast
    then obtain e where e: "intersect_from D (rg_pos G) c d l3 = Some e" "in_tree G D e" "anc D c e" "anc D d e"
      "meet_ok G D c d e"
      using less.hyps [OF dec c(3) d(3)] by blast
    have "intersect_from D (rg_pos G) a b l = Some e"
      using False l1(1) c(1) d(1) e(1) by (simp add: intersect_from.simps [of D "rg_pos G" a])
    moreover have "anc D a e" "anc D b e"
      using c(4) d(4) e(3,4) by (auto intro: rtranclp_trans)
    moreover have "meet_ok G D a b e"
      using c(8) d(8) e(5) unfolding meet_ok_def by blast
    ultimately show ?thesis
      using e(2) by blast
  qed
qed

section \<open>One pass\<close>

text \<open>\<open>settled m\<close>: every ancestor of the block lies on all walks with fewer than \<open>m\<close> edges that do not lead forward.\<close>

definition settled :: "region \<Rightarrow> (nat \<rightharpoonup> nat) \<Rightarrow> nat \<Rightarrow> nat \<Rightarrow> bool" where
  "settled G D m x \<longleftrightarrow> (\<forall>y. anc D x y \<longrightarrow> (case m of 0 \<Rightarrow> True | Suc k \<Rightarrow> \<not> avoids G y k x))"

definition pass_inv :: "region \<Rightarrow> nat \<Rightarrow> nat \<Rightarrow> (nat \<rightharpoonup> nat) \<Rightarrow> bool" where
  "pass_inv G m i D \<longleftrightarrow> tree_ok G D
     \<and> (\<forall>x. x \<in> set (rg_rpo G) \<and> (at G x < i \<or> 0 < m) \<longrightarrow> D x \<noteq> None)
     \<and> (\<forall>x. in_tree G D x \<longrightarrow> settled G D m x)
     \<and> (\<forall>x. x \<in> set (rg_rpo G) \<and> at G x < i \<longrightarrow> settled G D (Suc m) x)"

text \<open>A new ancestor for one block.\<close>

lemma anc_update_before:
  assumes "tree_ok G D" and "in_tree G D x" and "at G x < at G b"
  shows "anc (D(b \<mapsto> n)) x y \<longleftrightarrow> anc D x y"
proof
  show "anc (D(b \<mapsto> n)) x y" if "anc D x y"
    using that
  proof (induction rule: rtranclp_induct)
    case (step y z)
    have "at G y \<le> at G x"
      using anc_in_tree(2) [OF assms(1,2) step.hyps(1)] .
    then have "(D(b \<mapsto> n)) y = Some z"
      using assms(3) step.hyps(2) by auto
    with step.IH show ?case
      by (rule rtranclp.rtrancl_into_rtrancl)
  qed simp
  show "anc D x y" if "anc (D(b \<mapsto> n)) x y"
    using that
  proof (induction rule: rtranclp_induct)
    case (step y z)
    have "at G y \<le> at G x"
      using anc_in_tree(2) [OF assms(1,2) step.IH] .
    then have "D y = Some z"
      using assms(3) step.hyps(2) by (auto split: if_splits)
    with step.IH show ?case
      by (rule rtranclp.rtrancl_into_rtrancl)
  qed simp
qed

lemma anc_update_cases:
  assumes "anc (D(b \<mapsto> n)) x y"
  shows "anc D x y \<or> (anc D x b \<and> anc (D(b \<mapsto> n)) b y)"
  using assms
proof (induction rule: converse_rtranclp_induct)
  case (step x z)
  show ?case
  proof (cases "x = b")
    case True
    then show ?thesis
      using step.hyps by (blast intro: converse_rtranclp_into_rtranclp)
  next
    case False
    then have "D x = Some z"
      using step.hyps(1) by simp
    then show ?thesis
      using step.IH by (blast intro: converse_rtranclp_into_rtranclp)
  qed
qed simp

definition new_ancestor :: "region \<Rightarrow> (nat \<rightharpoonup> nat) \<Rightarrow> nat \<Rightarrow> nat \<Rightarrow> bool" where
  "new_ancestor G D b n \<longleftrightarrow> in_tree G D n \<and> (\<forall>p. in_tree G D p \<and> rg_edge G p b \<longrightarrow> anc D p n)
     \<and> (\<forall>y. y \<noteq> b \<and> dom_by G b y \<longrightarrow> dom_by G n y)"

lemma update_tree:
  assumes "region_ok G" and "tree_ok G D" and b: "b \<in> set (rg_rpo G)" "b \<noteq> rg_entry G"
    and n: "new_ancestor G D b n" "at G n < at G b"
  shows "tree_ok G (D(b \<mapsto> n))"
  using assms unfolding tree_ok_def new_ancestor_def in_tree_def by (auto split: if_splits)

lemma update_inv:
  assumes R: "region_ok G" and P: "pass_inv G m (at G b) D" and b: "b \<in> set (rg_rpo G)" "b \<noteq> rg_entry G"
    and n: "new_ancestor G D b n" "at G n < at G b"
  shows "pass_inv G m (Suc (at G b)) (D(b \<mapsto> n))"
proof -
  let ?D = "D(b \<mapsto> n)"
  have T: "tree_ok G D" and all: "\<And>x. x \<in> set (rg_rpo G) \<Longrightarrow> at G x < at G b \<or> 0 < m \<Longrightarrow> D x \<noteq> None"
    and S: "\<And>x. in_tree G D x \<Longrightarrow> settled G D m x"
    and S1: "\<And>x. x \<in> set (rg_rpo G) \<Longrightarrow> at G x < at G b \<Longrightarrow> settled G D (Suc m) x"
    using P by (simp_all add: pass_inv_def)
  have T': "tree_ok G ?D"
    using update_tree [OF R T b n] .
  have new: "\<not> avoids G y m b" if "anc ?D b y" for y
  proof
    assume av: "avoids G y m b"
    have "y \<noteq> b"
      using avoids_in(2) [OF R av] by blast
    have "anc ?D n y"
      using that \<open>y \<noteq> b\<close> by (cases rule: converse_rtranclpE) auto
    then have up: "anc D n y"
      using anc_update_before [OF T _ n(2)] n(1) by (simp add: new_ancestor_def)
    have pred: "anc D p y" if "in_tree G D p" "rg_edge G p b" for p
      using that n(1) up unfolding new_ancestor_def by (meson rtranclp_trans)
    from av show False
    proof cases
      case (avoids_forward p)
      then have "in_tree G D p" "settled G D (Suc m) p"
        using avoids_in(1) [OF R] all S1 by (auto simp: in_tree_def)
      then show ?thesis
        using pred avoids_forward by (auto simp: settled_def)
    next
      case (avoids_any k p)
      then have "in_tree G D p"
        using avoids_in(1) [OF R] all by (auto simp: in_tree_def)
      then show ?thesis
        using pred S [of p] avoids_any by (auto simp: settled_def)
    qed (use b in simp)
  qed
  have old: "settled G ?D m x" if "in_tree G ?D x" "x \<noteq> b" for x
    unfolding settled_def
  proof (intro allI impI)
    fix y assume "anc ?D x y"
    then consider "anc D x y" | "anc D x b" "anc ?D b y"
      using anc_update_cases by blast
    then show "case m of 0 \<Rightarrow> True | Suc k \<Rightarrow> \<not> avoids G y k x"
    proof cases
      case 1
      then show ?thesis
        using S [of x] that by (simp add: settled_def in_tree_def)
    next
      case 2
      have "\<not> avoids G y k x" if "m = Suc k" for k
      proof
        assume "avoids G y k x"
        moreover have "\<not> avoids G b k x"
          using S [of x] 2(1) that \<open>in_tree G ?D x\<close> \<open>x \<noteq> b\<close> by (simp add: settled_def in_tree_def)
        ultimately have "avoids G y k b"
          by (rule avoids_prefix)
        then show False
          using new [OF 2(2)] avoids_Suc that by blast
      qed
      then show ?thesis
        by (auto split: nat.splits)
    qed
  qed
  have this_block: "settled G ?D (Suc m) b"
    using new by (simp add: settled_def)
  then have "settled G ?D m b"
    unfolding settled_def by (auto split: nat.splits dest: avoids_Suc)
  moreover have "settled G ?D (Suc m) x" if "x \<in> set (rg_rpo G)" "at G x < at G b" for x
    using S1 [OF that] anc_update_before [OF T _ that(2)] all [OF that(1)] that
    by (simp add: settled_def in_tree_def)
  moreover have "x = b" if "x \<in> set (rg_rpo G)" "at G x = at G b" for x
    using region_pos_inj [OF R that(1) b(1) that(2)] .
  ultimately show ?thesis
    using T' all old this_block unfolding pass_inv_def by (metis fun_upd_apply less_Suc_eq option.distinct(1))
qed

lemma new_idom_spec:
  assumes R: "region_ok G" and T: "tree_ok G D"
  shows "in_tree G D first \<Longrightarrow> (\<And>p. p \<in> set ps \<Longrightarrow> in_tree G D p) \<Longrightarrow>
    \<exists>n. fold_panics (\<lambda>pred new_idom.
        if D pred \<noteq> None then intersect pred new_idom D (rg_pos G) else Some new_idom) ps first = Some n
      \<and> in_tree G D n \<and> anc D first n \<and> (\<forall>p \<in> set ps. anc D p n)
      \<and> (\<forall>y. dom_by G first y \<and> (\<forall>p \<in> set ps. dom_by G p y) \<longrightarrow> dom_by G n y)"
proof (induction ps arbitrary: first)
  case (Cons p ps)
  have p: "in_tree G D p" "D p \<noteq> None"
    using Cons.prems(2) [of p] by (simp_all add: in_tree_def)
  have "at G p < length (rg_rpo G)" "at G first < length (rg_rpo G)" "4 * length (rg_rpo G) \<le> 100000000"
    using region_pos(2) [OF R] p Cons.prems(1) R by (simp_all add: in_tree_def region_ok_def)
  then have "room loop_limit_new (2 * (at G p + at G first))"
    by (intro room_new) simp
  then obtain c where c: "intersect p first D (rg_pos G) = Some c" "in_tree G D c" "anc D p c" "anc D first c"
    "meet_ok G D p first c"
    using intersect_spec [OF R T p(1) Cons.prems(1)] unfolding intersect_def by blast
  have "in_tree G D q" if "q \<in> set ps" for q
    using Cons.prems(2) that by simp
  then obtain n where n: "fold_panics (\<lambda>pred new_idom.
        if D pred \<noteq> None then intersect pred new_idom D (rg_pos G) else Some new_idom) ps c = Some n"
    "in_tree G D n" "anc D c n" "\<forall>q \<in> set ps. anc D q n"
    "\<forall>y. dom_by G c y \<and> (\<forall>q \<in> set ps. dom_by G q y) \<longrightarrow> dom_by G n y"
    using Cons.IH [OF c(2)] by blast
  have "dom_by G c y" if "dom_by G first y" "dom_by G p y" for y
    using c(5) climbs_dom_by [OF R T] that unfolding meet_ok_def by blast
  then show ?case
    using n c p(2) by (intro exI [of _ n]) (auto intro: rtranclp_trans)
qed simp

lemma dom_block_spec:
  assumes R: "region_ok G" and P: "pass_inv G m (at G b) D" and b: "b \<in> set (rg_rpo G)" "b \<noteq> rg_entry G"
  shows "\<exists>n. dom_block (rg_preds G) (rg_pos G) b (D, ch) = Some (D(b \<mapsto> n), ch \<or> D b \<noteq> Some n)
    \<and> new_ancestor G D b n \<and> at G n < at G b"
proof -
  have T: "tree_ok G D"
    using P by (simp add: pass_inv_def)
  let ?ps = "filter (\<lambda>pred. D pred \<noteq> None) (rg_preds G ! b)"
  have preds: "p \<in> set ?ps \<longleftrightarrow> in_tree G D p \<and> rg_edge G p b" for p
  proof (cases "p \<in> set (rg_rpo G)")
    case True
    then show ?thesis
      using R b(1) by (auto simp: region_ok_def in_tree_def)
  next
    case False
    then have "D p = rg_old G p"
      using T by (simp add: tree_ok_def)
    then show ?thesis
      using R b(1) False by (auto simp: region_ok_def in_tree_def)
  qed
  obtain q where q: "q \<in> set (rg_rpo G)" "rg_edge G q b" "at G q < at G b"
    using region_parent [OF R b] .
  then have q_pred: "q \<in> set ?ps"
    using P unfolding preds pass_inv_def in_tree_def by blast
  then obtain first ps where ps: "?ps = first # ps"
    by (meson list.set_cases)
  have "in_tree G D first" "\<And>p. p \<in> set ps \<Longrightarrow> in_tree G D p"
    using preds ps by (metis list.set_intros)+
  then obtain n where n: "fold_panics (\<lambda>pred new_idom.
        if D pred \<noteq> None then intersect pred new_idom D (rg_pos G) else Some new_idom) ps first = Some n"
    "in_tree G D n" "anc D first n" "\<forall>p \<in> set ps. anc D p n"
    "\<forall>y. dom_by G first y \<and> (\<forall>p \<in> set ps. dom_by G p y) \<longrightarrow> dom_by G n y"
    using new_idom_spec [OF R T] by blast
  have all: "anc D p n" if "in_tree G D p" "rg_edge G p b" for p
  proof -
    have "p \<in> set (first # ps)"
      using preds [of p] that unfolding ps by blast
    then show ?thesis
      using n(3,4) by auto
  qed
  have "dom_by G n y" if "y \<noteq> b" "dom_by G b y" for y
  proof -
    have "dom_by G p y" if "p \<in> set ?ps" for p
      using dom_by_pred [OF \<open>dom_by G b y\<close> \<open>y \<noteq> b\<close> _ b(1)] preds that by blast
    then show ?thesis
      using n(5) ps by (metis list.set_intros)
  qed
  then have "new_ancestor G D b n"
    using n(2) all by (simp add: new_ancestor_def)
  moreover have "at G n \<le> at G q"
    using anc_in_tree(2) [OF T, of q n] all preds q_pred q by blast
  moreover have "iv_index (rg_preds G) b = Some (rg_preds G ! b)"
    using R b(1) by (simp add: region_ok_def iv_index_def)
  ultimately show ?thesis
    using n(1) ps q(3) by (intro exI [of _ n]) (auto simp: dom_block_def split: option.splits)
qed

text \<open>A map that names the immediate dominator of every block.\<close>

definition idom_map :: "region \<Rightarrow> (nat \<rightharpoonup> nat) \<Rightarrow> bool" where
  "idom_map G D \<longleftrightarrow> (\<forall>x \<in> set (rg_rpo G). x \<noteq> rg_entry G \<longrightarrow>
     (\<exists>d. D x = Some d \<and> d \<noteq> x \<and> dom_by G x d \<and> (\<forall>y. y \<noteq> x \<and> dom_by G x y \<longrightarrow> dom_by G d y)))"

lemma settled_idom:
  assumes R: "region_ok G" and P: "pass_inv G (Suc k) i D" and k: "length (rg_rpo G) \<le> k"
  shows "idom_map G D"
  unfolding idom_map_def
proof (intro ballI impI)
  fix x assume x: "x \<in> set (rg_rpo G)" "x \<noteq> rg_entry G"
  have T: "tree_ok G D"
    using P by (simp add: pass_inv_def)
  obtain d where d: "D x = Some d"
    using P x unfolding pass_inv_def by blast
  then have t: "in_tree G D x"
    using x by (simp add: in_tree_def)
  then have "settled G D (Suc k) x"
    using P by (simp add: pass_inv_def)
  moreover have "anc D x d"
    using d by (intro r_into_rtranclp)
  ultimately have "\<not> avoids G d k x"
    by (simp add: settled_def)
  then have "dom_by G x d"
    unfolding dom_by_def using avoids_bound [OF R] avoids_mono k by blast
  then show "\<exists>d. D x = Some d \<and> d \<noteq> x \<and> dom_by G x d \<and> (\<forall>y. y \<noteq> x \<and> dom_by G x y \<longrightarrow> dom_by G d y)"
    using tree_step(3,4) [OF T t d x(2)] d by (intro exI [of _ d]) auto
qed

lemma idom_unique:
  assumes R: "region_ok G" and "x \<in> set (rg_rpo G)"
    and "d \<noteq> x" "dom_by G x d" "\<forall>y. y \<noteq> x \<and> dom_by G x y \<longrightarrow> dom_by G d y"
    and "e \<noteq> x" "dom_by G x e" "\<forall>y. y \<noteq> x \<and> dom_by G x y \<longrightarrow> dom_by G e y"
  shows "d = e"
proof -
  have "d \<in> set (rg_rpo G)" "e \<in> set (rg_rpo G)"
    using dom_by_pos [OF R assms(2)] assms(4,7) by blast+
  moreover have "dom_by G d e" "dom_by G e d"
    using assms by blast+
  ultimately have "at G d = at G e"
    using dom_by_pos [OF R] by (meson dual_order.antisym)
  then show ?thesis
    using region_pos_inj [OF R] \<open>d \<in> set (rg_rpo G)\<close> \<open>e \<in> set (rg_rpo G)\<close> by blast
qed

section \<open>The iteration\<close>

lemma idom_map_update:
  assumes R: "region_ok G" and D: "idom_map G D" "idom_map G (D(b \<mapsto> n))" and b: "b \<in> set (rg_rpo G)" "b \<noteq> rg_entry G"
  shows "D b = Some n"
proof -
  obtain d where "D b = Some d" "d \<noteq> b" "dom_by G b d" "\<forall>y. y \<noteq> b \<and> dom_by G b y \<longrightarrow> dom_by G d y"
    using D(1) b unfolding idom_map_def by blast
  moreover have "n \<noteq> b" "dom_by G b n" "\<forall>y. y \<noteq> b \<and> dom_by G b y \<longrightarrow> dom_by G n y"
    using D(2) [unfolded idom_map_def, rule_format, OF b] by auto
  ultimately show ?thesis
    using idom_unique [OF R b(1)] by blast
qed

lemma dom_blocks_spec:
  assumes R: "region_ok G"
  shows "pass_inv G m i D \<Longrightarrow> 0 < i \<Longrightarrow> i \<le> length (rg_rpo G) \<Longrightarrow>
    \<exists>D' ch'. fold_panics (dom_block (rg_preds G) (rg_pos G)) (drop i (rg_rpo G)) (D, ch) = Some (D', ch')
      \<and> pass_inv G m (length (rg_rpo G)) D'
      \<and> (\<not> ch' \<longrightarrow> D' = D \<and> \<not> ch) \<and> (length (rg_rpo G) < m \<longrightarrow> D' = D \<and> ch' = ch)"
proof (induction "length (rg_rpo G) - i" arbitrary: i D ch)
  case 0
  then show ?case
    by (intro exI [of _ D] exI [of _ ch]) simp
next
  case (Suc j)
  let ?b = "rg_rpo G ! i"
  have i: "i < length (rg_rpo G)" "at G ?b = i"
    using Suc.hyps(2) R by (auto simp: region_ok_def)
  have b: "?b \<in> set (rg_rpo G)" "?b \<noteq> rg_entry G"
    using i Suc.prems(2) region_entry(2) [OF R] by auto
  have P: "pass_inv G m (at G ?b) D"
    using Suc.prems(1) i(2) by simp
  obtain n where n: "dom_block (rg_preds G) (rg_pos G) ?b (D, ch) = Some (D(?b \<mapsto> n), ch \<or> D ?b \<noteq> Some n)"
    "new_ancestor G D ?b n" "at G n < at G ?b"
    using dom_block_spec [OF R P b] by blast
  have P': "pass_inv G m (Suc i) (D(?b \<mapsto> n))"
    using update_inv [OF R P b n(2,3)] i(2) by simp
  have j: "j = length (rg_rpo G) - Suc i" "Suc i \<le> length (rg_rpo G)"
    using Suc.hyps(2) i(1) by simp_all
  obtain D' ch' where D': "fold_panics (dom_block (rg_preds G) (rg_pos G)) (drop (Suc i) (rg_rpo G))
      (D(?b \<mapsto> n), ch \<or> D ?b \<noteq> Some n) = Some (D', ch')"
    "pass_inv G m (length (rg_rpo G)) D'" "\<not> ch' \<longrightarrow> D' = D(?b \<mapsto> n) \<and> \<not> (ch \<or> D ?b \<noteq> Some n)"
    "length (rg_rpo G) < m \<longrightarrow> D' = D(?b \<mapsto> n) \<and> ch' = (ch \<or> D ?b \<noteq> Some n)"
    using Suc.hyps(1) [OF j(1) P' zero_less_Suc j(2), of "ch \<or> D ?b \<noteq> Some n"] by blast
  have "D ?b = Some n" if m: "length (rg_rpo G) < m"
  proof -
    obtain k where k: "m = Suc k" "length (rg_rpo G) \<le> k"
      using m by (cases m) auto
    show ?thesis
      using idom_map_update [OF R settled_idom [OF R P [unfolded k(1)] k(2)] settled_idom [OF R P' [unfolded k(1)] k(2)] b] .
  qed
  moreover have "D(?b \<mapsto> n) = D" if "D ?b = Some n"
    using that by auto
  ultimately show ?case
    using D' n(1) Cons_nth_drop_Suc [OF i(1), symmetric] by (intro exI [of _ D'] exI [of _ ch']) auto
qed

lemma dom_pass_spec:
  assumes R: "region_ok G" and P: "pass_inv G m 1 D"
  shows "\<exists>D' ch. dom_pass (rg_preds G) (rg_pos G) (drop 1 (rg_rpo G)) D = Some (D', ch)
    \<and> pass_inv G (Suc m) 1 D' \<and> (\<not> ch \<longrightarrow> D' = D) \<and> (length (rg_rpo G) < m \<longrightarrow> \<not> ch)"
proof -
  have "1 \<le> length (rg_rpo G)"
    using R by (simp add: region_ok_def Suc_leI)
  then obtain D' ch where D': "dom_pass (rg_preds G) (rg_pos G) (drop 1 (rg_rpo G)) D = Some (D', ch)"
    "pass_inv G m (length (rg_rpo G)) D'" "\<not> ch \<longrightarrow> D' = D" "length (rg_rpo G) < m \<longrightarrow> \<not> ch"
    using dom_blocks_spec [OF R P, of False] unfolding dom_pass_def by auto
  have T: "tree_ok G D'"
    using D'(2) by (simp add: pass_inv_def)
  have first: "x = rg_entry G" if "x \<in> set (rg_rpo G)" "at G x < 1" for x
    using region_pos_inj [OF R that(1) region_entry(1) [OF R]] region_entry(2) [OF R] that(2) by simp
  have "y = rg_entry G" if "anc D' (rg_entry G) y" for y
    using that T by (induction rule: rtranclp_induct) (auto simp: tree_ok_def)
  then have "settled G D' m' (rg_entry G)" for m'
    using avoids_in(2) [OF R] by (fastforce simp: settled_def split: nat.splits)
  then have "pass_inv G (Suc m) 1 D'"
    using D'(2) region_pos(2) [OF R] first unfolding pass_inv_def in_tree_def by metis
  then show ?thesis
    using D' by blast
qed

lemma unchanged_settled:
  assumes R: "region_ok G" and P: "pass_inv G m 1 D"
    and same: "dom_pass (rg_preds G) (rg_pos G) (drop 1 (rg_rpo G)) D = Some (D, False)"
  shows "pass_inv G (m + j) 1 D"
proof (induction j)
  case (Suc j)
  then show ?case
    using dom_pass_spec [OF R Suc.IH] same by auto
qed (use P in simp)

definition dominators_ok :: "region \<Rightarrow> (nat \<rightharpoonup> nat) \<Rightarrow> bool" where
  "dominators_ok G D \<longleftrightarrow> tree_ok G D \<and> idom_map G D \<and> (\<forall>x \<in> set (rg_rpo G). D x \<noteq> None)"

lemma dom_loop_spec:
  assumes R: "region_ok G"
  shows "pass_inv G m 1 D \<Longrightarrow> m \<le> length (rg_rpo G) + 1 \<Longrightarrow> room limit (length (rg_rpo G) + 2 - m) \<Longrightarrow>
    \<exists>D'. dom_loop (rg_preds G) (rg_pos G) (drop 1 (rg_rpo G)) D True limit = Some D' \<and> dominators_ok G D'"
proof (induction "length (rg_rpo G) + 2 - m" arbitrary: m D limit rule: less_induct)
  case less
  obtain l where l: "loop_limit_tick limit = Some l" "room l (length (rg_rpo G) + 1 - m)"
    using room_tick [of limit "length (rg_rpo G) + 1 - m"] less.prems(2,3) by (auto simp: Suc_diff_le)
  obtain D' ch where D': "dom_pass (rg_preds G) (rg_pos G) (drop 1 (rg_rpo G)) D = Some (D', ch)"
    "pass_inv G (Suc m) 1 D'" "\<not> ch \<longrightarrow> D' = D" "length (rg_rpo G) < m \<longrightarrow> \<not> ch"
    using dom_pass_spec [OF R less.prems(1)] by blast
  show ?case
  proof (cases ch)
    case True
    then have "m \<le> length (rg_rpo G)"
      using D'(4) by auto
    then show ?thesis
      using less.hyps [OF _ D'(2), of l] l D'(1) True
      by (simp add: dom_loop.simps [of "rg_preds G" "rg_pos G" "drop (Suc 0) (rg_rpo G)" D])
  next
    case False
    then have "pass_inv G (Suc m + length (rg_rpo G)) 1 D"
      using unchanged_settled [OF R, of "Suc m" D "length (rg_rpo G)"] D' by simp
    then have settled: "pass_inv G (Suc (m + length (rg_rpo G))) 1 D"
      by simp
    have "dominators_ok G D"
      using settled settled_idom [OF R settled] by (simp add: dominators_ok_def pass_inv_def)
    then show ?thesis
      using l(1) D'(1,3) False
      by (simp add: dom_loop.simps [of "rg_preds G" "rg_pos G" "drop (Suc 0) (rg_rpo G)" D] dom_loop.simps [of _ _ _ _ False])
  qed
qed

section \<open>All functions\<close>

lemma rpo_positions_from:
  "i + length rpo \<le> 2 ^ 32 \<Longrightarrow> distinct rpo \<Longrightarrow> set rpo \<subseteq> {..<length pos} \<Longrightarrow>
   \<exists>pos'. fold_panics (\<lambda>(i, b) pos. iv_set pos b (i mod 2 ^ 32)) (enumerate i rpo) pos = Some pos'
     \<and> length pos' = length pos \<and> (\<forall>x. x \<notin> set rpo \<longrightarrow> pos' ! x = pos ! x)
     \<and> (\<forall>j < length rpo. pos' ! (rpo ! j) = i + j)"
proof (induction rpo arbitrary: i pos)
  case (Cons b rpo)
  obtain pos' where pos': "fold_panics (\<lambda>(i, b) pos. iv_set pos b (i mod 2 ^ 32)) (enumerate (Suc i) rpo) (pos[b := i]) = Some pos'"
    "length pos' = length pos" "\<forall>x. x \<notin> set rpo \<longrightarrow> pos' ! x = pos[b := i] ! x"
    "\<forall>j < length rpo. pos' ! (rpo ! j) = Suc i + j"
    using Cons.IH [of "Suc i" "pos[b := i]"] Cons.prems by auto
  have step: "iv_set pos b (i mod 2 ^ 32) = Some (pos[b := i])"
    using Cons.prems by (simp add: iv_set_def)
  have "pos' ! ((b # rpo) ! j) = i + j" if "j < length (b # rpo)" for j
    using that pos'(3,4) Cons.prems by (cases j) auto
  moreover have "pos' ! x = pos ! x" if "x \<notin> set (b # rpo)" for x
    using that pos'(3) by simp
  ultimately show ?case
    using pos'(1,2) step by (intro exI [of _ pos']) simp
qed simp

lemma rpo_positions_spec:
  assumes "length rpo \<le> 2 ^ 32" and "distinct rpo" and "set rpo \<subseteq> {..<n}"
  shows "\<exists>pos. rpo_positions n rpo = Some pos \<and> length pos = n \<and> (\<forall>j < length rpo. pos ! (rpo ! j) = j)"
  using rpo_positions_from [of 0 rpo "replicate n 0"] assms by (auto simp: rpo_positions_def)

text \<open>\<open>y\<close> lies on every walk from \<open>e\<close> to \<open>x\<close>.\<close>

definition dominates :: "eth_ir_program \<Rightarrow> nat \<Rightarrow> nat \<Rightarrow> nat \<Rightarrow> bool" where
  "dominates ir e y x \<longleftrightarrow> y = e \<or> \<not> (\<lambda>a b. edge ir a b \<and> b \<noteq> y)\<^sup>*\<^sup>* e x"

definition owned :: "eth_ir_program \<Rightarrow> nat \<Rightarrow> nat \<Rightarrow> bool" where
  "owned ir f b \<longleftrightarrow> reaches ir (entry_of ir f) b \<and> (\<forall>g < f. \<not> reaches ir (entry_of ir g) b)"

lemma owned_back: "owned ir f b \<Longrightarrow> edge ir a b \<Longrightarrow> g < f \<Longrightarrow> \<not> reaches ir (entry_of ir g) a"
  unfolding owned_def using reaches_edge by blast

lemma walk_reaches: "(\<lambda>a b. edge ir a b \<and> b \<noteq> y)\<^sup>*\<^sup>* e x \<Longrightarrow> reaches ir e x"
  unfolding reaches_def by (rule rtranclp_mono [THEN predicate2D, rotated]) auto

lemma dom_by_dominates:
  assumes R: "region_ok G" and E: "rg_edge G = edge ir" and e: "rg_entry G = entry_of ir f"
    and own: "set (rg_rpo G) = {b. owned ir f b}" and x: "owned ir f x"
  shows "dom_by G x y \<longleftrightarrow> dominates ir (entry_of ir f) y x"
proof -
  have to: "rg_entry G \<noteq> y \<and> (\<lambda>a b. edge ir a b \<and> b \<noteq> y)\<^sup>*\<^sup>* (rg_entry G) x" if "avoids G y k x" for k x
    using that
  proof (induction rule: avoids.induct)
    case (avoids_forward k p x)
    then show ?case
      using E by (auto intro: rtranclp.rtrancl_into_rtrancl)
  next
    case (avoids_any k p x)
    then show ?case
      using E by (auto intro: rtranclp.rtrancl_into_rtrancl)
  qed simp
  have from': "owned ir f x \<Longrightarrow> \<exists>k. avoids G y k x" if "(\<lambda>a b. edge ir a b \<and> b \<noteq> y)\<^sup>*\<^sup>* (rg_entry G) x" "rg_entry G \<noteq> y" for x
    using that(1)
  proof (induction rule: rtranclp_induct)
    case base
    show ?case
      using avoids_entry that(2) by blast
  next
    case (step a b)
    have "owned ir f a"
      using owned_back [OF step.prems] step.hyps walk_reaches e by (auto simp: owned_def)
    then obtain k where "avoids G y k a"
      using step.IH by blast
    then have "avoids G y (Suc k) b"
      by (rule avoids_any) (use step.hyps step.prems E own in auto)
    then show ?case
      by blast
  qed
  show ?thesis
    using to from' x unfolding dom_by_def dominates_def e by blast
qed

lemma start_inv:
  assumes R: "region_ok G"
  shows "pass_inv G 0 1 ((rg_old G)(rg_entry G \<mapsto> rg_entry G))"
proof -
  let ?D = "(rg_old G)(rg_entry G \<mapsto> rg_entry G)"
  have out: "rg_old G x = None" if "x \<in> set (rg_rpo G)" for x
    using R that by (simp add: region_ok_def)
  then have T: "tree_ok G ?D"
    using region_entry(1) [OF R] by (auto simp: tree_ok_def)
  have first: "x = rg_entry G" if "x \<in> set (rg_rpo G)" "at G x < 1" for x
    using region_pos_inj [OF R that(1) region_entry(1) [OF R]] region_entry(2) [OF R] that(2) by simp
  have "y = rg_entry G" if "anc ?D (rg_entry G) y" for y
    using that by (induction rule: rtranclp_induct) auto
  then have "settled G ?D (Suc 0) (rg_entry G)"
    using avoids_in(2) [OF R] by (fastforce simp: settled_def)
  then show ?thesis
    using T first by (auto simp: pass_inv_def settled_def)
qed

text \<open>What the map says about the blocks of one function.\<close>

definition idoms_right :: "eth_ir_program \<Rightarrow> (nat \<rightharpoonup> nat) \<Rightarrow> nat \<Rightarrow> nat \<Rightarrow> bool" where
  "idoms_right ir D f b \<longleftrightarrow>
     (if b = entry_of ir f then D b = Some b
      else (\<exists>d. D b = Some d \<and> d \<noteq> b \<and> dominates ir (entry_of ir f) d b
              \<and> (\<forall>y. y \<noteq> b \<and> dominates ir (entry_of ir f) y b \<longrightarrow> dominates ir (entry_of ir f) y d)))"

text \<open>The map is a tree on the blocks of the function, of a height below the number of blocks.\<close>

definition idom_tree :: "eth_ir_program \<Rightarrow> (nat \<rightharpoonup> nat) \<Rightarrow> nat \<Rightarrow> (nat \<Rightarrow> nat) \<Rightarrow> bool" where
  "idom_tree ir D f rank \<longleftrightarrow> (\<forall>b. owned ir f b \<longrightarrow>
     rank b < length (ir_basic_blocks ir) \<and> idoms_right ir D f b
     \<and> (\<forall>d. D b = Some d \<longrightarrow> owned ir f d \<and> (b \<noteq> entry_of ir f \<longrightarrow> rank d < rank b)))"

lemma function_dominators:
  assumes C: "cfg_closed ir" and size: "4 * length (ir_basic_blocks ir) \<le> 100000000" and f: "f < length (ir_functions ir)"
    and entry: "owned ir f (entry_of ir f)"
    and slice: "set rpo = {b. owned ir f b}" "distinct rpo" "rpo \<noteq> []" "hd rpo = entry_of ir f"
      "\<forall>i. 0 < i \<and> i < length rpo \<longrightarrow> (\<exists>j < i. edge ir (rpo ! j) (rpo ! i))"
    and ps: "length ps = length (ir_basic_blocks ir)"
      "\<And>x. x < length ps \<Longrightarrow> set (ps ! x) = {b. b \<in> reachable_blocks ir \<and> edge ir b x}"
    and old: "\<And>b. old b \<noteq> None \<longleftrightarrow> (\<exists>g < f. reaches ir (entry_of ir g) b)"
  shows "\<exists>D. compute_function_dominators ir ps rpo f old = Some D
    \<and> (\<forall>b. \<not> owned ir f b \<longrightarrow> D b = old b) \<and> (\<forall>b. owned ir f b \<longrightarrow> D b \<noteq> None) \<and> (\<exists>rank. idom_tree ir D f rank)"
proof -
  have blocks: "set rpo \<subseteq> {..<length (ir_basic_blocks ir)}"
    using slice(1) reaches_closed [OF C] entry_closed [OF C f] by (auto simp: owned_def)
  then have len: "length rpo \<le> length (ir_basic_blocks ir)"
    using card_mono [of "{..<length (ir_basic_blocks ir)}" "set rpo"] slice(2) by (simp add: distinct_card)
  then obtain pos where pos: "rpo_positions (length (ir_basic_blocks ir)) rpo = Some pos"
    "length pos = length (ir_basic_blocks ir)" "\<forall>j < length rpo. pos ! (rpo ! j) = j"
    using rpo_positions_spec [OF _ slice(2) blocks] size by auto
  define G where "G = \<lparr>rg_edge = edge ir, rg_rpo = rpo, rg_pos = pos, rg_preds = ps, rg_old = old\<rparr>"
  have old_out: "old b = None" if "owned ir f b" for b
    using old [of b] that unfolding owned_def by blast
  have own: "set (rg_rpo G) = {b. owned ir f b}" "rg_entry G = entry_of ir f" "rg_edge G = edge ir"
    using slice by (simp_all add: G_def)
  have preds_ok: "x < length ps \<and> (\<forall>p \<in> set rpo. p \<in> set (ps ! x) \<longleftrightarrow> edge ir p x) \<and> (\<forall>p \<in> set (ps ! x). old p = None)"
    if x: "x \<in> set rpo" for x
  proof -
    have "x < length ps"
      using blocks x ps(1) by auto
    moreover have "p \<in> reachable_blocks ir" if "p \<in> set rpo" for p
      using that slice(1) f by (auto simp: owned_def reachable_blocks_def)
    moreover have "old p = None" if "edge ir p x" for p
      using owned_back [OF _ that] x slice(1) old [of p] by blast
    ultimately show ?thesis
      using ps(2) by auto
  qed
  have R: "region_ok G"
    using slice(2-5) size len pos blocks preds_ok old_out slice(1)
    unfolding region_ok_def G_def by (auto simp: subset_iff)
  define D0 where "D0 = old(entry_of ir f \<mapsto> entry_of ir f)"
  have "pass_inv G 0 1 D0"
    using start_inv [OF R] own(2) by (simp add: D0_def G_def)
  moreover have "room loop_limit_new (length (rg_rpo G) + 2 - 0)"
    using len size by (intro room_new) (simp add: G_def)
  ultimately obtain D where D: "dom_loop ps pos (drop 1 rpo) D0 True loop_limit_new = Some D" "dominators_ok G D"
    using dom_loop_spec [OF R, of 0 D0 loop_limit_new] by (auto simp: G_def)
  have "slice_from rpo 1 = Some (drop 1 rpo)"
    using slice(3) by (simp add: slice_from_Some Suc_leI)
  then have run: "compute_function_dominators ir ps rpo f old = Some D"
    using entry_closed [OF C f] old_out [OF entry] pos(1) D(1)
    by (simp add: compute_function_dominators_def D0_def)
  have tree: "tree_ok G D"
    using D(2) by (simp add: dominators_ok_def)
  have "D b = old b" if "\<not> owned ir f b" for b
    using tree that own(1) by (simp add: tree_ok_def) (simp add: G_def)
  moreover have right: "D b \<noteq> None \<and> idoms_right ir D f b" if b: "owned ir f b" for b
  proof -
    have in_rpo: "b \<in> set (rg_rpo G)"
      using b own(1) by simp
    have dominates: "dom_by G x y \<longleftrightarrow> dominates ir (entry_of ir f) y x" if "owned ir f x" for x y
      using dom_by_dominates [OF R own(3,2,1) that] .
    show ?thesis
    proof (cases "b = entry_of ir f")
      case True
      then show ?thesis
        using tree own(2) by (simp add: tree_ok_def idoms_right_def)
    next
      case False
      then obtain d where d: "D b = Some d" "d \<noteq> b" "dom_by G b d" "\<forall>y. y \<noteq> b \<and> dom_by G b y \<longrightarrow> dom_by G d y"
        using D(2) in_rpo own(2) unfolding dominators_ok_def idom_map_def by metis
      have "owned ir f d"
        using dom_by_pos [OF R in_rpo d(3)] own(1) by simp
      then show ?thesis
        using False d dominates [OF b] dominates by (simp add: idoms_right_def)
    qed
  qed
  moreover have "idom_tree ir D f ((!) pos)"
    unfolding idom_tree_def
  proof (intro allI impI)
    fix b assume b: "owned ir f b"
    then have in_rpo: "in_tree G D b"
      using own(1) right by (simp add: in_tree_def)
    have "at G b < length (ir_basic_blocks ir)"
      using region_pos(2) [OF R] own(1) b len by (fastforce simp: G_def)
    moreover have "owned ir f d \<and> (b \<noteq> entry_of ir f \<longrightarrow> at G d < at G b)" if "D b = Some d" for d
      using tree_step(1,3) [OF tree in_rpo that] own(1,2) by (auto simp: in_tree_def)
    ultimately show "pos ! b < length (ir_basic_blocks ir) \<and> idoms_right ir D f b
        \<and> (\<forall>d. D b = Some d \<longrightarrow> owned ir f d \<and> (b \<noteq> entry_of ir f \<longrightarrow> pos ! d < pos ! b))"
      using right [OF b] by (simp add: G_def)
  qed
  ultimately show ?thesis
    using run by blast
qed

lemma dominators_run:
  assumes C: "cfg_closed ir" and size: "4 * length (ir_basic_blocks ir) \<le> 100000000"
    and fuel: "length (ir_basic_blocks ir) < fuel"
    and entries: "\<And>f g. f < length (ir_functions ir) \<Longrightarrow> g < f \<Longrightarrow> \<not> reaches ir (entry_of ir g) (entry_of ir f)"
  shows "\<exists>r ps D. compute_rpo fuel ir = Some r \<and> compute_predecessors ir (reachable_blocks ir) inner = Some ps
    \<and> compute_dominators ir ps r = Some D \<and> {b. D b \<noteq> None} = reachable_blocks ir
    \<and> (\<forall>f < length (ir_functions ir). \<exists>rank. idom_tree ir D f rank)"
proof -
  obtain Qs where Qs: "length Qs = length (ir_functions ir)" "rpo_slices ir Qs"
    and run: "compute_rpo fuel ir = Some \<lparr>rp_visited = set (concat Qs), rp_global = rev (concat Qs),
       rp_starts = map (\<lambda>k. length (before Qs k)) [0..<length (ir_functions ir)]\<rparr>"
    using rpo_run [OF C fuel] .
  define r where "r = \<lparr>rp_visited = set (concat Qs), rp_global = rev (concat Qs),
       rp_starts = map (\<lambda>k. length (before Qs k)) [0..<length (ir_functions ir)]\<rparr>"
  define ps where "ps = map (pred_list ir (reachable_blocks ir) [0..<length (ir_basic_blocks ir)]) [0..<length (ir_basic_blocks ir)]"
  have ps: "compute_predecessors ir (reachable_blocks ir) inner = Some ps" "length ps = length (ir_basic_blocks ir)"
    "\<And>x. x < length ps \<Longrightarrow> set (ps ! x) = {b. b \<in> reachable_blocks ir \<and> edge ir b x}"
    using predecessors_run [OF C] set_predecessors by (simp_all add: ps_def)
  have "\<exists>D. fold_panics (\<lambda>f doms. do { rpo \<leftarrow> function_rpo r f; compute_function_dominators ir ps rpo f doms }) [0..<n] Map.empty = Some D
      \<and> (\<forall>b. D b \<noteq> None \<longleftrightarrow> (\<exists>g < n. reaches ir (entry_of ir g) b))
      \<and> (\<forall>f < n. \<exists>rank. idom_tree ir D f rank)" if "n \<le> length (ir_functions ir)" for n
    using that
  proof (induction n)
    case (Suc n)
    then obtain D where D: "fold_panics (\<lambda>f doms. do { rpo \<leftarrow> function_rpo r f; compute_function_dominators ir ps rpo f doms }) [0..<n] Map.empty = Some D"
      "\<And>b. D b \<noteq> None \<longleftrightarrow> (\<exists>g < n. reaches ir (entry_of ir g) b)"
      "\<forall>f < n. \<exists>rank. idom_tree ir D f rank"
      by auto
    have n: "n < length (ir_functions ir)" "n < length Qs" "is_idx (length Qs)"
      using Suc.prems Qs(1) C by (simp_all add: cfg_closed_def)
    let ?s = "rev (Qs ! n)"
    have slice: "function_rpo r n = Some ?s" "set ?s = {b. owned ir n b}" "?s \<noteq> [] \<longrightarrow> hd ?s = entry_of ir n"
      "\<forall>i. 0 < i \<and> i < length ?s \<longrightarrow> (\<exists>j < i. edge ir (?s ! j) (?s ! i))"
      using slice_rpo [OF Qs(1) n(2,3)] slice_ok [OF Qs(2) n(2)] unfolding owned_def r_def by blast+
    have entry: "owned ir n (entry_of ir n)"
      using entries [OF n(1)] by (auto simp: owned_def)
    have "?s \<noteq> []"
      using entry slice(2) by auto
    moreover have "distinct ?s"
      using concat_slices(1) [OF Qs(2,1)] n(2) by (simp add: distinct_concat_iff)
    ultimately obtain D' where D': "compute_function_dominators ir ps ?s n D = Some D'"
      "\<forall>b. \<not> owned ir n b \<longrightarrow> D' b = D b" "\<forall>b. owned ir n b \<longrightarrow> D' b \<noteq> None" "\<exists>rank. idom_tree ir D' n rank"
      using function_dominators [OF C size n(1) entry slice(2) _ _ _ slice(4) ps(2,3) D(2)] slice(3) by blast
    have keep: "\<exists>rank. idom_tree ir D' f rank" if "f < n" for f
    proof -
      have "D' b = D b" if "owned ir f b" for b
        using D'(2) that \<open>f < n\<close> by (auto simp: owned_def)
      then have "idom_tree ir D' f rank \<longleftrightarrow> idom_tree ir D f rank" for rank
        unfolding idom_tree_def idoms_right_def by simp
      then show ?thesis
        using D(3) that by simp
    qed
    have "D' b \<noteq> None \<longleftrightarrow> (\<exists>g < Suc n. reaches ir (entry_of ir g) b)" for b
      using D'(2,3) D(2) [of b] by (cases "owned ir n b") (auto simp: owned_def less_Suc_eq)
    then show ?case
      using D(1) D'(1,4) slice(1) keep by (intro exI [of _ D']) (auto simp: less_Suc_eq)
  qed simp
  from this [OF order_refl] show ?thesis
    using run [folded r_def] ps(1) unfolding compute_dominators_def reachable_blocks_def by blast
qed

text \<open>
  C29. Dominators.  On a program whose function entries are not reachable from earlier functions, and
  with at most 25 million blocks, the traversals and the iteration return without a panic and
  within the loop limits.  Every reachable block gets a dominator: an entry itself, and any other block its immediate dominator, a strict
  dominator that every other strict dominator dominates.
\<close>

theorem dominators_correct:
  assumes C: "cfg_closed ir" and size: "4 * length (ir_basic_blocks ir) \<le> 100000000"
    and fuel: "length (ir_basic_blocks ir) < fuel"
    and entries: "\<And>f g. f < length (ir_functions ir) \<Longrightarrow> g < f \<Longrightarrow> \<not> reaches ir (entry_of ir g) (entry_of ir f)"
  shows "\<exists>r ps D. compute_rpo fuel ir = Some r \<and> compute_predecessors ir (reachable_blocks ir) inner = Some ps
    \<and> compute_dominators ir ps r = Some D \<and> {b. D b \<noteq> None} = reachable_blocks ir
    \<and> (\<forall>f < length (ir_functions ir). \<forall>b. owned ir f b \<longrightarrow> idoms_right ir D f b)"
  using dominators_run [OF assms, of inner] unfolding idom_tree_def by blast

section \<open>Frontiers\<close>

lemma dominates_refl [simp]: "reaches ir e x \<Longrightarrow> dominates ir e x x"
  unfolding dominates_def by (metis (mono_tags, lifting) rtranclp.cases)

lemma walk_through:
  assumes "(\<lambda>a b. edge ir a b \<and> b \<noteq> y)\<^sup>*\<^sup>* e x" and "\<not> (\<lambda>a b. edge ir a b \<and> b \<noteq> d)\<^sup>*\<^sup>* e x"
  shows "(\<lambda>a b. edge ir a b \<and> b \<noteq> y)\<^sup>*\<^sup>* e d"
  using assms
proof (induction rule: rtranclp_induct)
  case (step a b)
  show ?case
  proof (cases "(\<lambda>a b. edge ir a b \<and> b \<noteq> d)\<^sup>*\<^sup>* e a")
    case True
    then have "b = d"
      using step.hyps(2) step.prems by (metis (mono_tags, lifting) rtranclp.rtrancl_into_rtrancl)
    then show ?thesis
      using step.hyps by (metis (mono_tags, lifting) rtranclp.rtrancl_into_rtrancl)
  qed (use step.IH in simp)
qed simp

lemma dominates_trans:
  assumes "dominates ir e y d" and "dominates ir e d x"
  shows "dominates ir e y x"
proof (cases "y = e \<or> d = e")
  case True
  then have "y = e"
    using assms(1) by (auto simp: dominates_def)
  then show ?thesis
    by (simp add: dominates_def)
next
  case False
  then have "\<not> (\<lambda>a b. edge ir a b \<and> b \<noteq> y)\<^sup>*\<^sup>* e d" "\<not> (\<lambda>a b. edge ir a b \<and> b \<noteq> d)\<^sup>*\<^sup>* e x"
    using assms by (simp_all add: dominates_def)
  then show ?thesis
    unfolding dominates_def using walk_through [of ir y e x d] by blast
qed

lemma dominates_pred: "dominates ir e y x \<Longrightarrow> y \<noteq> x \<Longrightarrow> edge ir p x \<Longrightarrow> dominates ir e y p"
  unfolding dominates_def by (metis (mono_tags, lifting) rtranclp.rtrancl_into_rtrancl)

lemma owned_entry: "owned ir f b \<Longrightarrow> owned ir f (entry_of ir f)"
  by (auto simp: owned_def intro: reaches_trans)

lemma chain_dominates:
  assumes T: "idom_tree ir D f rank"
  shows "owned ir f p \<Longrightarrow> anc D p y \<longleftrightarrow> dominates ir (entry_of ir f) y p \<and> owned ir f y"
proof (induction "rank p" arbitrary: p rule: less_induct)
  case less
  let ?e = "entry_of ir f"
  have right: "idoms_right ir D f p"
    using T less.prems by (simp add: idom_tree_def)
  have self: "dominates ir ?e p p"
    using less.prems by (simp add: owned_def)
  show ?case
  proof (cases "p = ?e")
    case True
    then have step: "D p = Some p"
      using right by (simp add: idoms_right_def)
    have "anc D p y \<longleftrightarrow> y = p"
    proof
      show "y = p" if "anc D p y"
        using that step by (induction rule: rtranclp_induct) auto
    qed simp
    moreover have "dominates ir ?e y ?e \<longleftrightarrow> y = ?e"
      by (auto simp: dominates_def)
    ultimately show ?thesis
      using True less.prems by auto
  next
    case False
    then obtain d where d: "D p = Some d" "d \<noteq> p" "dominates ir ?e d p"
      "\<forall>y. y \<noteq> p \<and> dominates ir ?e y p \<longrightarrow> dominates ir ?e y d"
      using right by (auto simp: idoms_right_def)
    have "owned ir f d" "rank d < rank p"
      using T less.prems d(1) False by (auto simp: idom_tree_def)
    then have IH: "anc D d y \<longleftrightarrow> dominates ir ?e y d \<and> owned ir f y"
      using less.hyps by blast
    have "anc D p y \<longleftrightarrow> y = p \<or> anc D d y"
      using d(1) by (metis (mono_tags, lifting) converse_rtranclpE converse_rtranclp_into_rtranclp option.inject
          rtranclp.rtrancl_refl)
    then show ?thesis
      using IH d(3,4) self less.prems dominates_trans by metis
  qed
qed

lemma anc_rank:
  assumes T: "idom_tree ir D f rank" and "anc D z y" and "owned ir f z"
  shows "owned ir f y \<and> (y = z \<or> rank y < rank z)"
  using assms(2,3)
proof (induction rule: rtranclp_induct)
  case (step y y')
  then have y: "owned ir f y"
    by simp
  then have "owned ir f y' \<and> (y' = y \<or> rank y' < rank y)"
    using T step.hyps(2) unfolding idom_tree_def idoms_right_def by (metis option.inject)
  then show ?case
    using step by auto
qed simp

lemma run_up_spec:
  assumes T: "idom_tree ir D f rank" and len: "length df = length (ir_basic_blocks ir)"
    and C: "cfg_closed ir" and f: "f < length (ir_functions ir)"
  shows "owned ir f p \<Longrightarrow> anc D p t \<Longrightarrow> room limit (rank p) \<Longrightarrow> length df = length (ir_basic_blocks ir) \<Longrightarrow>
    run_up D t x p limit df = Some (map (\<lambda>b. if anc D p b \<and> \<not> anc D t b then insert x (df ! b) else df ! b) [0..<length df])"
  using len
proof (induction "rank p" arbitrary: p limit df rule: less_induct)
  case less
  show ?case
  proof (cases "p = t")
    case True
    then show ?thesis
      by (simp add: run_up.simps map_nth)
  next
    case False
    obtain d where d: "D p = Some d" "anc D d t"
      using less.prems(2) False by (cases rule: converse_rtranclpE) auto
    have p: "p < length df"
      using reaches_closed [OF C, of "entry_of ir f" p] entry_closed [OF C f] less.prems(1,4) by (simp add: owned_def)
    have "p \<noteq> entry_of ir f"
    proof
      assume entry: "p = entry_of ir f"
      then have "t = entry_of ir f"
        using chain_dominates [OF T less.prems(1), of t] less.prems(2) by (auto simp: dominates_def)
      then show False
        using False entry by simp
    qed
    then have o: "owned ir f d" "rank d < rank p"
      using T less.prems(1) d(1) by (auto simp: idom_tree_def)
    obtain l where l: "loop_limit_tick limit = Some l" "room l (rank p - 1)"
      using room_tick [of limit "rank p - 1"] less.prems(3) o(2) by auto
    then have "room l (rank d)"
      using o(2) by (auto intro: room_le)
    have t: "owned ir f t" "rank t < rank p"
      using anc_rank [OF T d(2) o(1)] o(2) by auto
    have not_back: "\<not> anc D t p" "\<not> anc D d p"
      using anc_rank [OF T _ t(1), of p] anc_rank [OF T _ o(1), of p] t(2) o(2) by auto
    have chain: "anc D p b \<longleftrightarrow> b = p \<or> anc D d b" for b
      using d(1) by (metis (mono_tags, lifting) converse_rtranclpE converse_rtranclp_into_rtranclp option.inject
          rtranclp.rtrancl_refl)
    have "map (\<lambda>b. if anc D d b \<and> \<not> anc D t b then insert x (df[p := insert x (df ! p)] ! b) else df[p := insert x (df ! p)] ! b)
          [0..<length df] =
        map (\<lambda>b. if anc D p b \<and> \<not> anc D t b then insert x (df ! b) else df ! b) [0..<length df]"
      using not_back p chain by (intro map_cong) (auto simp: nth_list_update)
    then show ?thesis
      using less.hyps [OF o(2,1) d(2) \<open>room l (rank d)\<close>, of "df[p := insert x (df ! p)]"] less.prems(4) False l(1) d(1) p
      by (simp add: run_up.simps [of D t x p] iv_index_def iv_set_def)
  qed
qed

definition frontier_of :: "(nat \<rightharpoonup> nat) \<Rightarrow> nat list \<Rightarrow> nat \<Rightarrow> nat \<Rightarrow> bool" where
  "frontier_of D preds x b \<longleftrightarrow> 2 \<le> length preds
     \<and> (\<exists>t. D x = Some t \<and> (\<exists>p \<in> set preds. D p \<noteq> None \<and> anc D p b \<and> \<not> anc D t b))"

lemma run_up_preds:
  assumes T: "idom_tree ir D f rank" and C: "cfg_closed ir" and f: "f < length (ir_functions ir)"
    and size: "length (ir_basic_blocks ir) \<le> 100000000"
  shows "length df = length (ir_basic_blocks ir) \<Longrightarrow>
    (\<And>p. p \<in> set preds \<Longrightarrow> D p \<noteq> None \<Longrightarrow> owned ir f p \<and> anc D p t) \<Longrightarrow>
    fold_panics (\<lambda>p df. if D p = None then Some df else run_up D t x p loop_limit_new df) preds df
    = Some (map (\<lambda>b. if \<exists>p \<in> set preds. D p \<noteq> None \<and> anc D p b \<and> \<not> anc D t b then insert x (df ! b) else df ! b)
        [0..<length df])"
proof (induction preds arbitrary: df)
  case Nil
  then show ?case
    using map_nth [of df] by simp
next
  case (Cons p preds)
  have later: "owned ir f q \<and> anc D q t" if "q \<in> set preds" "D q \<noteq> None" for q
    using Cons.prems(2) that by simp
  show ?case
  proof (cases "D p = None")
    case True
    then show ?thesis
      using Cons.IH [OF Cons.prems(1) later] by simp
  next
    case False
    then have p: "owned ir f p" "anc D p t"
      using Cons.prems(2) [of p] by simp_all
    then have "room loop_limit_new (rank p)"
      using T size by (intro room_new) (fastforce simp: idom_tree_def)
    then have "run_up D t x p loop_limit_new df =
        Some (map (\<lambda>b. if anc D p b \<and> \<not> anc D t b then insert x (df ! b) else df ! b) [0..<length df])"
      using run_up_spec [OF T Cons.prems(1) C f p] Cons.prems(1) by blast
    then show ?thesis
      using False Cons.prems(1)
        Cons.IH [of "map (\<lambda>b. if anc D p b \<and> \<not> anc D t b then insert x (df ! b) else df ! b) [0..<length df]", OF _ later]
      by (auto simp: Let_def cong: map_cong)
  qed
qed

lemma frontier_blocks:
  assumes C: "cfg_closed ir" and size: "length (ir_basic_blocks ir) \<le> 100000000"
    and xs: "\<And>x preds. (x, preds) \<in> set xs \<Longrightarrow> D x \<noteq> None \<Longrightarrow>
        \<exists>f rank. f < length (ir_functions ir) \<and> idom_tree ir D f rank
          \<and> (\<forall>p \<in> set preds. D p \<noteq> None \<longrightarrow> owned ir f p \<and> anc D p (the (D x)))"
  shows "length df = length (ir_basic_blocks ir) \<Longrightarrow>
    \<exists>df'. fold_panics (frontier_block D) xs df = Some df' \<and> length df' = length df
      \<and> (\<forall>b < length df. df' ! b = df ! b \<union> {x. \<exists>preds. (x, preds) \<in> set xs \<and> frontier_of D preds x b})"
  using xs
proof (induction xs arbitrary: df)
  case (Cons y xs)
  obtain x preds where y: "y = (x, preds)"
    by fastforce
  have "\<exists>df1. frontier_block D y df = Some df1 \<and> length df1 = length df
      \<and> (\<forall>b < length df. df1 ! b = df ! b \<union> {z. z = x \<and> frontier_of D preds x b})"
  proof (cases "length preds < 2 \<or> D x = None")
    case True
    then show ?thesis
      by (auto simp: y frontier_block_def frontier_of_def split: option.splits)
  next
    case False
    then obtain t where t: "D x = Some t"
      by auto
    then obtain f rank where "f < length (ir_functions ir)" "idom_tree ir D f rank"
      "\<forall>p \<in> set preds. D p \<noteq> None \<longrightarrow> owned ir f p \<and> anc D p t"
      using Cons.prems(2) [of x preds] y by auto
    then have run: "fold_panics (\<lambda>p df. if D p = None then Some df else run_up D t x p loop_limit_new df) preds df
      = Some (map (\<lambda>b. if \<exists>p \<in> set preds. D p \<noteq> None \<and> anc D p b \<and> \<not> anc D t b then insert x (df ! b) else df ! b)
        [0..<length df])"
      using run_up_preds [OF _ C _ size Cons.prems(1)] by blast
    have "frontier_block D y df = Some (map (\<lambda>b. if \<exists>p \<in> set preds. D p \<noteq> None \<and> anc D p b \<and> \<not> anc D t b then insert x (df ! b) else df ! b)
        [0..<length df])"
      using run t False by (simp add: y frontier_block_def)
    then show ?thesis
      using t False by (auto simp: frontier_of_def)
  qed
  then obtain df1 where df1: "frontier_block D y df = Some df1" "length df1 = length df"
    "\<forall>b < length df. df1 ! b = df ! b \<union> {z. z = x \<and> frontier_of D preds x b}"
    by blast
  have later: "\<exists>f rank. f < length (ir_functions ir) \<and> idom_tree ir D f rank
      \<and> (\<forall>p \<in> set preds. D p \<noteq> None \<longrightarrow> owned ir f p \<and> anc D p (the (D x)))"
    if "(x, preds) \<in> set xs" "D x \<noteq> None" for x preds
    by (rule Cons.prems(2)) (use that in simp_all)
  obtain df2 where "fold_panics (frontier_block D) xs df1 = Some df2" "length df2 = length df1"
    "\<forall>b < length df1. df2 ! b = df1 ! b \<union> {x. \<exists>preds. (x, preds) \<in> set xs \<and> frontier_of D preds x b}"
    using Cons.IH [OF _ later, of df1] Cons.prems(1) df1(2) by auto
  then show ?case
    using df1 y by (intro exI [of _ df2]) auto
qed simp

lemma dominates_antisym:
  assumes T: "idom_tree ir D f rank" and "owned ir f x" "owned ir f y"
    and "dominates ir (entry_of ir f) x y" "dominates ir (entry_of ir f) y x"
  shows "x = y"
proof (rule ccontr)
  assume "x \<noteq> y"
  have "anc D y x" "anc D x y"
    using chain_dominates [OF T] assms(2-5) by blast+
  then have "rank x < rank y" "rank y < rank x"
    using anc_rank [OF T] assms(2,3) \<open>x \<noteq> y\<close> by metis+
  then show False
    by simp
qed

lemma frontier_dominance:
  assumes T: "idom_tree ir D f rank" and b: "owned ir f b" and x: "owned ir f x" "D x = Some t"
    and preds: "\<And>p. p \<in> set preds \<longleftrightarrow> owned ir f p \<and> edge ir p x" "\<And>p. owned ir f p \<Longrightarrow> D p \<noteq> None"
  shows "frontier_of D preds x b \<longleftrightarrow> 2 \<le> length preds \<and> b \<noteq> entry_of ir f
    \<and> (\<exists>p. owned ir f p \<and> edge ir p x \<and> dominates ir (entry_of ir f) b p)
    \<and> \<not> (b \<noteq> x \<and> dominates ir (entry_of ir f) b x)"
proof -
  let ?e = "entry_of ir f"
  have t: "owned ir f t"
    using T x by (simp add: idom_tree_def)
  have to_t: "anc D t b \<longleftrightarrow> b = ?e \<or> (b \<noteq> x \<and> dominates ir ?e b x)"
  proof (cases "x = ?e")
    case True
    then have "t = ?e"
      using T x by (auto simp: idom_tree_def idoms_right_def)
    then show ?thesis
      using chain_dominates [OF T t, of b] b True by (auto simp: dominates_def)
  next
    case False
    then have right: "t \<noteq> x" "dominates ir ?e t x" "\<And>y. y \<noteq> x \<Longrightarrow> dominates ir ?e y x \<Longrightarrow> dominates ir ?e y t"
      using T x by (auto simp: idom_tree_def idoms_right_def)
    have "\<not> anc D t x"
    proof
      assume "anc D t x"
      then have "dominates ir ?e x t"
        using chain_dominates [OF T t] by simp
      then show False
        using right(1,2) T x False dominates_antisym t by (metis owned_def)
    qed
    then have "b \<noteq> x" if "dominates ir ?e b t"
      using that b chain_dominates [OF T t] by auto
    then show ?thesis
      using chain_dominates [OF T t, of b] b right dominates_trans [of ir ?e b t x] False
      by (auto simp: dominates_def)
  qed
  have "(\<exists>p \<in> set preds. D p \<noteq> None \<and> anc D p b) \<longleftrightarrow> (\<exists>p. owned ir f p \<and> edge ir p x \<and> dominates ir ?e b p)"
    using preds chain_dominates [OF T, of _ b] b by blast
  then show ?thesis
    using to_t x(2) unfolding frontier_of_def by auto
qed

lemma idom_of_pred:
  assumes T: "idom_tree ir D f rank" and "owned ir f x" and "owned ir f p" and "edge ir p x" and "D x \<noteq> None"
  shows "anc D p (the (D x))"
proof -
  obtain t where t: "D x = Some t" "owned ir f t"
    using T assms(2,5) by (auto simp: idom_tree_def)
  have "dominates ir (entry_of ir f) t p"
  proof (cases "x = entry_of ir f")
    case True
    then have "t = entry_of ir f"
      using T assms(2) t(1) by (auto simp: idom_tree_def idoms_right_def)
    then show ?thesis
      by (simp add: dominates_def)
  next
    case False
    then have "t \<noteq> x" "dominates ir (entry_of ir f) t x"
      using T assms(2) t(1) by (auto simp: idom_tree_def idoms_right_def)
    then show ?thesis
      using dominates_pred assms(4) by blast
  qed
  then show ?thesis
    using chain_dominates [OF T assms(3)] t by simp
qed


lemma dominators_correct_witness:
  "\<exists>r ps D. compute_rpo 6 loop_cfg = Some r \<and> compute_predecessors loop_cfg (reachable_blocks loop_cfg) [] = Some ps
     \<and> compute_dominators loop_cfg ps r = Some D \<and> {b. D b \<noteq> None} = reachable_blocks loop_cfg"
  using dominators_correct [OF loop_cfg_closed, of 6 "[]"] unfolding loop_cfg_size by auto


end
