(* ===== verification/Cfg_Bundling.thy ===== *)
theory Cfg_Bundling
  imports Cfg_Walk
begin

text \<open>
  The bundling of edges into groups (\<open>passes/src/analyses/cfg_in_out_bundling.rs\<close>): the ends of an edge
  get the same gid, so that the stack layout at the end of a block is the one its successors
  expect.  The maps are the partial maps that \<open>DenseIndexMap\<close> refines; the worklist is a stack with its
  top first; its loop takes fuel, one unit per block popped.
\<close>

record bundling =
  bd_out :: "nat \<rightharpoonup> nat"
  bd_in :: "nat \<rightharpoonup> nat"
  bd_next :: nat

definition fresh_group :: "bundling \<Rightarrow> (nat \<times> bundling) panics" where
  "fresh_group s = do { (g, n) \<leftarrow> get_and_inc (bd_next s); Some (g, s\<lparr>bd_next := n\<rparr>) }"

text \<open>One successor: its gid, and the other predecessors when it had a different one.\<close>

definition bundle_succ ::
    "nat list list \<Rightarrow> nat \<Rightarrow> nat \<Rightarrow> nat \<Rightarrow> nat list \<times> bundling \<Rightarrow> (nat list \<times> bundling) panics" where
  "bundle_succ preds b gid succ = (\<lambda>(worklist, s).
     (let prev = bd_in s succ;
          s = s\<lparr>bd_in := (bd_in s)(succ \<mapsto> gid)\<rparr>
      in if prev = None \<or> prev = Some gid then Some (worklist, s)
         else do { ps \<leftarrow> iv_index preds succ;
                   Some (rev (filter (\<lambda>p. p \<noteq> b) ps) @ worklist, s) }))"

definition bundle_block ::
    "eth_ir_program \<Rightarrow> nat list list \<Rightarrow> nat \<Rightarrow> nat list \<times> bundling \<Rightarrow> (nat list \<times> bundling) panics" where
  "bundle_block ir preds b = (\<lambda>(worklist, s).
     do { succs \<leftarrow> block_successors ir b;
          (gid, s) \<leftarrow> (case find_map (bd_in s) succs of Some g \<Rightarrow> Some (g, s) | None \<Rightarrow> fresh_group s);
          fold_panics (bundle_succ preds b gid) succs (worklist, s\<lparr>bd_out := (bd_out s)(b \<mapsto> gid)\<rparr>) })"

fun bundle_loop :: "nat \<Rightarrow> eth_ir_program \<Rightarrow> nat list list \<Rightarrow> nat list \<times> bundling \<Rightarrow> bundling panics" where
  "bundle_loop 0 ir preds ws = None"
| "bundle_loop (Suc fuel) ir preds ws =
     (case fst ws of
        [] \<Rightarrow> Some (snd ws)
      | b # rest \<Rightarrow> do { ws \<leftarrow> bundle_block ir preds b (rest, snd ws); bundle_loop fuel ir preds ws })"

definition bundle_entry :: "ir_function \<Rightarrow> bundling \<Rightarrow> bundling panics" where
  "bundle_entry fn s =
     (case bd_in s (fn_entry fn) of
        Some g \<Rightarrow> Some s
      | None \<Rightarrow> do { (g, s) \<leftarrow> fresh_group s; Some (s\<lparr>bd_in := (bd_in s)(fn_entry fn \<mapsto> g)\<rparr>) })"

definition cfg_bundling ::
    "nat \<Rightarrow> eth_ir_program \<Rightarrow> reverse_post_order \<Rightarrow> nat list list \<Rightarrow> bundling panics" where
  "cfg_bundling fuel ir r preds =
     do { s \<leftarrow> fold_panics (\<lambda>b s. bundle_loop fuel ir preds ([b], s)) (rp_global r)
            \<lparr>bd_out = Map.empty, bd_in = Map.empty, bd_next = 0\<rparr>;
          fold_panics bundle_entry (ir_functions ir) s }"

section \<open>Without critical edges\<close>

text \<open>
  An edge is critical when its source has several successors and its target several predecessors;
  \<open>split_edges\<close> says that there is none.
\<close>

definition no_critical_edges :: "eth_ir_program \<Rightarrow> nat list list \<Rightarrow> bool" where
  "no_critical_edges ir preds \<longleftrightarrow>
     (\<forall>b ss. b \<in> reachable_blocks ir \<longrightarrow> block_successors ir b = Some ss \<longrightarrow> 2 \<le> length ss \<longrightarrow>
        (\<forall>s \<in> set ss. preds ! s = [b]))"

definition share :: "eth_ir_program \<Rightarrow> nat \<Rightarrow> nat \<Rightarrow> bool" where
  "share ir b c \<longleftrightarrow> (\<exists>s. edge ir b s \<and> edge ir c s)"

definition bundle_inv :: "eth_ir_program \<Rightarrow> nat list \<Rightarrow> bundling \<Rightarrow> bool" where
  "bundle_inv ir L s \<longleftrightarrow>
     bd_next s \<le> length L
     \<and> (\<forall>b. bd_out s b \<noteq> None \<longleftrightarrow> b \<in> set L)
     \<and> (\<forall>b g. bd_out s b = Some g \<longrightarrow> g < bd_next s)
     \<and> (\<forall>b \<in> set L. \<forall>t. edge ir b t \<longrightarrow> bd_in s t = bd_out s b)
     \<and> (\<forall>t. bd_in s t \<noteq> None \<longrightarrow> (\<exists>b \<in> set L. edge ir b t))
     \<and> (\<forall>b \<in> set L. \<forall>c \<in> set L. bd_out s b = bd_out s c \<longleftrightarrow> b = c \<or> share ir b c)"

lemma bundle_succs:
  assumes "\<And>t. t \<in> set ss \<Longrightarrow> bd_in s t = None \<or> bd_in s t = Some g"
  shows "fold_panics (bundle_succ preds b g) ss (ws, s)
    = Some (ws, s\<lparr>bd_in := (\<lambda>t. if t \<in> set ss then Some g else bd_in s t)\<rparr>)"
  using assms
proof (induction ss arbitrary: s)
  case (Cons t ss)
  let ?s = "s\<lparr>bd_in := (bd_in s)(t \<mapsto> g)\<rparr>"
  have "bundle_succ preds b g t (ws, s) = Some (ws, ?s)"
    using Cons.prems [of t] by (auto simp: bundle_succ_def Let_def)
  moreover have "fold_panics (bundle_succ preds b g) ss (ws, ?s)
      = Some (ws, ?s\<lparr>bd_in := (\<lambda>u. if u \<in> set ss then Some g else bd_in ?s u)\<rparr>)"
    using Cons.prems by (intro Cons.IH) simp
  moreover have "(\<lambda>u. if u \<in> set ss then Some g else bd_in ?s u) = (\<lambda>u. if u \<in> set (t # ss) then Some g else bd_in s u)"
    by auto
  ultimately show ?case
    by simp
qed simp

lemma bundle_inv_extend:
  assumes inv: "bundle_inv ir L s" and b: "b \<notin> set L" "\<And>t. edge ir b t \<longleftrightarrow> t \<in> set ss"
    and n: "bd_next s \<le> n" "n \<le> Suc (bd_next s)" "g < n"
    and in_ok: "\<And>t. t \<in> set ss \<Longrightarrow> bd_in s t = None \<or> bd_in s t = Some g"
    and groups: "\<And>c. c \<in> set L \<Longrightarrow> bd_out s c = Some g \<longleftrightarrow> share ir b c"
  shows "bundle_inv ir (L @ [b]) (s\<lparr>bd_next := n, bd_out := (bd_out s)(b \<mapsto> g),
    bd_in := (\<lambda>t. if t \<in> set ss then Some g else bd_in s t)\<rparr>)"
proof -
  let ?out = "(bd_out s)(b \<mapsto> g)" and ?in = "\<lambda>t. if t \<in> set ss then Some g else bd_in s t"
  have I: "bd_next s \<le> length L" "\<And>c. bd_out s c \<noteq> None \<longleftrightarrow> c \<in> set L" "\<And>c h. bd_out s c = Some h \<Longrightarrow> h < bd_next s"
    "\<And>c t. c \<in> set L \<Longrightarrow> edge ir c t \<Longrightarrow> bd_in s t = bd_out s c"
    "\<And>t. bd_in s t \<noteq> None \<Longrightarrow> \<exists>c \<in> set L. edge ir c t"
    "\<And>c d. c \<in> set L \<Longrightarrow> d \<in> set L \<Longrightarrow> bd_out s c = bd_out s d \<longleftrightarrow> c = d \<or> share ir c d"
    using inv unfolding bundle_inv_def by blast+
  have ends: "?in t = ?out c" if "c \<in> set (L @ [b])" "edge ir c t" for c t
  proof (cases "c = b")
    case False
    then have c: "c \<in> set L" "bd_in s t = bd_out s c"
      using that I(4) by auto
    then have "bd_in s t \<noteq> None"
      using I(2) by simp
    then show ?thesis
      using c(2) in_ok [of t] False by auto
  qed (use that b(2) in simp)
  have from': "\<exists>c \<in> set (L @ [b]). edge ir c t" if "?in t \<noteq> None" for t
    using that I(5) [of t] b(2) by (cases "t \<in> set ss") auto
  have same: "?out c = ?out d \<longleftrightarrow> c = d \<or> share ir c d" if "c \<in> set (L @ [b])" "d \<in> set (L @ [b])" for c d
  proof -
    have sym: "share ir x y \<longleftrightarrow> share ir y x" for x y
      by (auto simp: share_def)
    show ?thesis
      using that I(6) groups [of c] groups [of d] sym [of c b] by (auto simp: eq_commute [of "Some g"])
  qed
  have "h < n" if "?out c = Some h" for c h
    using that I(3) [of c h] n by (auto split: if_splits)
  then show ?thesis
    using I(1,2) ends from' same n(2) unfolding bundle_inv_def by auto
qed

text \<open>The gid of the block: that of a successor which already has one, or a fresh one.\<close>

lemma bundle_block_step:
  assumes inv: "bundle_inv ir L s" and b: "b \<notin> set L" "block_successors ir b = Some ss" "is_idx (Suc (length L))"
    and reach: "insert b (set L) \<subseteq> reachable_blocks ir"
    and crit: "no_critical_edges ir preds"
    and preds: "\<And>t. edge ir b t \<Longrightarrow> set (preds ! t) = {p. p \<in> reachable_blocks ir \<and> edge ir p t}"
  shows "\<exists>s'. bundle_block ir preds b ([], s) = Some ([], s') \<and> bundle_inv ir (L @ [b]) s'"
proof -
  have edges: "edge ir b t \<longleftrightarrow> t \<in> set ss" for t
    using b(2) by (simp add: edge_def)
  have I: "bd_next s \<le> length L" "\<And>c. bd_out s c \<noteq> None \<longleftrightarrow> c \<in> set L" "\<And>c h. bd_out s c = Some h \<Longrightarrow> h < bd_next s"
    "\<And>c t. c \<in> set L \<Longrightarrow> edge ir c t \<Longrightarrow> bd_in s t = bd_out s c"
    "\<And>t. bd_in s t \<noteq> None \<Longrightarrow> \<exists>c \<in> set L. edge ir c t"
    "\<And>c d. c \<in> set L \<Longrightarrow> d \<in> set L \<Longrightarrow> bd_out s c = bd_out s d \<longleftrightarrow> c = d \<or> share ir c d"
    using inv unfolding bundle_inv_def by blast+
  have only_pred: "c = b" if "c \<in> reachable_blocks ir" "edge ir c t" "t \<in> set ss" "2 \<le> length ss" for c t
  proof -
    have "preds ! t = [b]"
      using crit that(3,4) b(2) reach unfolding no_critical_edges_def by blast
    then show ?thesis
      using preds [of t] edges that by auto
  qed
  show ?thesis
  proof (cases "find_map (bd_in s) ss")
    case None
    then have none: "bd_in s t = None" if "t \<in> set ss" for t
      using that by (simp add: find_map_None)
    have "get_and_inc (bd_next s) = Some (bd_next s, Suc (bd_next s))"
      using b(3) I(1) by (simp add: get_and_inc_def idx_add_Some bind_Some is_idx_def)
    then have run: "bundle_block ir preds b ([], s) = Some ([], s\<lparr>bd_next := Suc (bd_next s),
        bd_out := (bd_out s)(b \<mapsto> bd_next s), bd_in := (\<lambda>t. if t \<in> set ss then Some (bd_next s) else bd_in s t)\<rparr>)"
      using b(2) None none by (simp add: bundle_block_def fresh_group_def bundle_succs cong: if_cong)
    have "\<not> share ir b c" if "c \<in> set L" for c
      using I(2,4) none that edges unfolding share_def by metis
    moreover have "bd_out s c \<noteq> Some (bd_next s)" for c
      using I(3) by auto
    ultimately show ?thesis
      using run bundle_inv_extend [OF inv b(1) edges, of "Suc (bd_next s)" "bd_next s"] none by auto
  next
    case (Some g)
    then obtain t where t: "t \<in> set ss" "bd_in s t = Some g"
      using find_map_SomeD by force
    then obtain c where c: "c \<in> set L" "edge ir c t"
      using I(5) [of t] by auto
    then have "\<not> 2 \<le> length ss"
      using only_pred [of c t] t(1) b(1) reach by auto
    then have ss: "ss = [t]"
      using t(1) by (cases ss) (auto simp: Suc_le_eq)
    have g: "bd_out s c = Some g"
      using I(4) [OF c] t(2) by simp
    let ?s = "s\<lparr>bd_out := (bd_out s)(b \<mapsto> g)\<rparr>"
    have "fold_panics (bundle_succ preds b g) ss ([], ?s)
        = Some ([], ?s\<lparr>bd_in := (\<lambda>t. if t \<in> set ss then Some g else bd_in ?s t)\<rparr>)"
      by (rule bundle_succs) (use t(2) ss in simp)
    then have run: "bundle_block ir preds b ([], s) = Some ([], s\<lparr>bd_next := bd_next s,
        bd_out := (bd_out s)(b \<mapsto> g), bd_in := (\<lambda>t. if t \<in> set ss then Some g else bd_in s t)\<rparr>)"
      using b(2) Some by (simp add: bundle_block_def cong: if_cong)
    have "bd_out s d = Some g \<longleftrightarrow> share ir b d" if d: "d \<in> set L" for d
    proof
      assume "share ir b d"
      then have "edge ir d t"
        using edges ss by (auto simp: share_def)
      then show "bd_out s d = Some g"
        using I(4) [OF d, of t] t(2) by simp
    next
      assume "bd_out s d = Some g"
      then have "d = c \<or> share ir d c"
        using I(6) [OF d c(1)] g by simp
      moreover have "edge ir d t" if sh: "share ir d c"
      proof -
        obtain u where u: "edge ir d u" "edge ir c u"
          using sh by (auto simp: share_def)
        obtain cs where cs: "block_successors ir c = Some cs" "t \<in> set cs" "u \<in> set cs"
          using c(2) u(2) by (auto simp: edge_def split: option.splits)
        have "\<not> 2 \<le> length cs"
        proof
          assume "2 \<le> length cs"
          then have "preds ! t = [c]"
            using crit cs(1,2) c(1) reach unfolding no_critical_edges_def by blast
          then have "b = c"
            using preds [of t] edges t(1) reach by auto
          then show False
            using b(1) c(1) by simp
        qed
        then have "u = t"
          using cs(2,3) by (cases cs) (auto simp: Suc_le_eq)
        then show ?thesis
          using u(1) by simp
      qed
      ultimately show "share ir b d"
        using c(2) edges t(1) by (auto simp: share_def)
    qed
    then show ?thesis
      using run bundle_inv_extend [OF inv b(1) edges, of "bd_next s" g] t(2) ss I(3) [OF g] by auto
  qed
qed

lemma bundle_blocks:
  assumes C: "cfg_closed ir" and size: "length (ir_basic_blocks ir) < u32_max"
    and preds: "\<And>b t. edge ir b t \<Longrightarrow> set (preds ! t) = {p. p \<in> reachable_blocks ir \<and> edge ir p t}"
    and crit: "no_critical_edges ir preds"
  shows "distinct xs \<Longrightarrow> set xs \<subseteq> reachable_blocks ir \<inter> {..<length (ir_basic_blocks ir)} \<Longrightarrow> length xs \<le> length (ir_basic_blocks ir) \<Longrightarrow>
    \<exists>s. fold_panics (\<lambda>b s. bundle_loop 2 ir preds ([b], s)) xs \<lparr>bd_out = Map.empty, bd_in = Map.empty, bd_next = 0\<rparr> = Some s
      \<and> bundle_inv ir xs s"
proof (induction xs rule: rev_induct)
  case Nil
  then show ?case
    by (simp add: bundle_inv_def)
next
  case (snoc b xs)
  then obtain s where s: "fold_panics (\<lambda>b s. bundle_loop 2 ir preds ([b], s)) xs
      \<lparr>bd_out = Map.empty, bd_in = Map.empty, bd_next = 0\<rparr> = Some s" "bundle_inv ir xs s"
    by auto
  have b: "b < length (ir_basic_blocks ir)" "b \<notin> set xs" "insert b (set xs) \<subseteq> reachable_blocks ir" "Suc (length xs) < u32_max"
    using snoc.prems size by auto
  obtain ss where ss: "block_successors ir b = Some ss"
    using cfg_closedE [OF C b(1)] .
  obtain s' where s': "bundle_block ir preds b ([], s) = Some ([], s')" "bundle_inv ir (xs @ [b]) s'"
    using bundle_block_step [OF s(2) b(2) ss _ b(3) crit preds [of b]] b(4) by (auto simp: is_idx_def)
  have "bundle_loop 2 ir preds ([b], s) = Some s'"
    using s'(1) by (simp add: numeral_2_eq_2)
  then show ?case
    using s(1) s'(2) by simp
qed

text \<open>An entry without a group gets one of its own.\<close>

definition entries_added :: "bundling \<Rightarrow> bundling \<Rightarrow> bool" where
  "entries_added s s' \<longleftrightarrow> bd_out s' = bd_out s \<and> bd_next s \<le> bd_next s' \<and> (\<forall>t. bd_in s t \<noteq> None \<longrightarrow> bd_in s' t = bd_in s t)
     \<and> (\<forall>t g. bd_in s t = None \<longrightarrow> bd_in s' t = Some g \<longrightarrow> bd_next s \<le> g \<and> g < bd_next s' \<and> (\<forall>u. bd_in s u = None \<longrightarrow> bd_in s' u = Some g \<longrightarrow> u = t))"

lemma bundle_entries:
  "bd_next s + length fs < u32_max \<Longrightarrow>
   \<exists>s'. fold_panics bundle_entry fs s = Some s' \<and> entries_added s s' \<and> (\<forall>f \<in> set fs. bd_in s' (fn_entry f) \<noteq> None)"
proof (induction fs arbitrary: s)
  case (Cons f fs)
  show ?case
  proof (cases "bd_in s (fn_entry f)")
    case (Some g)
    then obtain s' where "fold_panics bundle_entry fs s = Some s'" "entries_added s s'" "\<forall>f \<in> set fs. bd_in s' (fn_entry f) \<noteq> None"
      using Cons.IH [of s] Cons.prems by auto
    moreover from this have "bd_in s' (fn_entry f) = Some g"
      using Some by (simp add: entries_added_def)
    moreover have "bundle_entry f s = Some s"
      using Some by (simp add: bundle_entry_def)
    ultimately show ?thesis
      by auto
  next
    case None
    let ?s = "s\<lparr>bd_next := Suc (bd_next s), bd_in := (bd_in s)(fn_entry f \<mapsto> bd_next s)\<rparr>"
    have step: "bundle_entry f s = Some ?s"
      using None Cons.prems by (simp add: bundle_entry_def fresh_group_def get_and_inc_def idx_add_Some bind_Some is_idx_def)
    obtain s' where s': "fold_panics bundle_entry fs ?s = Some s'" "entries_added ?s s'" "\<forall>f \<in> set fs. bd_in s' (fn_entry f) \<noteq> None"
      using Cons.IH [of ?s] Cons.prems by auto
    have new: "bd_in s' (fn_entry f) = Some (bd_next s)"
      using s'(2) by (auto simp: entries_added_def)
    have old: "bd_in s' t = bd_in s t" if "bd_in s t \<noteq> None" for t
      using s'(2) that None by (auto simp: entries_added_def split: if_splits)
    have lower: "Suc (bd_next s) \<le> g \<and> g < bd_next s'" if "t \<noteq> fn_entry f" "bd_in s t = None" "bd_in s' t = Some g" for t g
      using s'(2) [unfolded entries_added_def, THEN conjunct2, THEN conjunct2, THEN conjunct2, rule_format, of t g] that by simp
    have once: "u = t" if "t \<noteq> fn_entry f" "bd_in s t = None" "bd_in s' t = Some g" "u \<noteq> fn_entry f" "bd_in s u = None" "bd_in s' u = Some g" for t u g
      using s'(2) [unfolded entries_added_def, THEN conjunct2, THEN conjunct2, THEN conjunct2, rule_format, of t g] that by simp
    have nxt: "bd_out s' = bd_out s" "Suc (bd_next s) \<le> bd_next s'"
      using s'(2) by (simp_all add: entries_added_def)
    have own: "bd_next s \<le> g \<and> g < bd_next s' \<and> (\<forall>u. bd_in s u = None \<longrightarrow> bd_in s' u = Some g \<longrightarrow> u = t)"
      if t: "bd_in s t = None" "bd_in s' t = Some g" for t g
    proof -
      have "u = t" if u: "bd_in s u = None" "bd_in s' u = Some g" for u
        using lower [OF _ t] lower [OF _ u] once [OF _ t _ u] t(2) u(2) new
        by (cases "t = fn_entry f"; cases "u = fn_entry f") auto
      moreover have "bd_next s \<le> g \<and> g < bd_next s'"
        using lower [OF _ t] t(2) new nxt(2) by (cases "t = fn_entry f") auto
      ultimately show ?thesis
        by blast
    qed
    have "entries_added s s'"
      unfolding entries_added_def
    proof (intro conjI)
      show "bd_out s' = bd_out s" "bd_next s \<le> bd_next s'"
        using nxt by simp_all
      show "\<forall>t. bd_in s t \<noteq> None \<longrightarrow> bd_in s' t = bd_in s t"
        using old by blast
      show "\<forall>t g. bd_in s t = None \<longrightarrow> bd_in s' t = Some g \<longrightarrow>
          bd_next s \<le> g \<and> g < bd_next s' \<and> (\<forall>u. bd_in s u = None \<longrightarrow> bd_in s' u = Some g \<longrightarrow> u = t)"
        using own by blast
    qed
    then show ?thesis
      using step s'(1,3) new by auto
  qed
qed (simp add: entries_added_def)

text \<open>What the groups are; an entry that no block continues to is alone in its group.\<close>

definition bundle_groups :: "eth_ir_program \<Rightarrow> bundling \<Rightarrow> bool" where
  "bundle_groups ir s \<longleftrightarrow>
     (\<forall>b \<in> reachable_blocks ir. bd_out s b \<noteq> None \<and> (\<forall>t. edge ir b t \<longrightarrow> bd_in s t = bd_out s b))
     \<and> (\<forall>b \<in> reachable_blocks ir. \<forall>c \<in> reachable_blocks ir. bd_out s b = bd_out s c \<longleftrightarrow> b = c \<or> share ir b c)
     \<and> (\<forall>f \<in> set (ir_functions ir). bd_in s (fn_entry f) \<noteq> None)
     \<and> (\<forall>f \<in> set (ir_functions ir). (\<forall>b \<in> reachable_blocks ir. \<not> edge ir b (fn_entry f)) \<longrightarrow>
          (\<forall>b. bd_out s b \<noteq> bd_in s (fn_entry f)) \<and> (\<forall>t. t \<noteq> fn_entry f \<longrightarrow> bd_in s t \<noteq> bd_in s (fn_entry f)))"

lemma entry_alone:
  assumes inv: "bundle_inv ir xs s" "set xs = reachable_blocks ir" and added: "entries_added s s'" and e: "bd_in s' e \<noteq> None"
    and no_edge: "\<forall>b \<in> reachable_blocks ir. \<not> edge ir b e"
  shows "(\<forall>b. bd_out s' b \<noteq> bd_in s' e) \<and> (\<forall>t. t \<noteq> e \<longrightarrow> bd_in s' t \<noteq> bd_in s' e)"
proof -
  have I: "\<And>b g. bd_out s b = Some g \<Longrightarrow> g < bd_next s" "\<And>b t. b \<in> set xs \<Longrightarrow> edge ir b t \<Longrightarrow> bd_in s t = bd_out s b"
      "\<And>t. bd_in s t \<noteq> None \<Longrightarrow> \<exists>b \<in> set xs. edge ir b t"
    using inv(1) by (auto simp: bundle_inv_def)
  note A = added [unfolded entries_added_def]
  obtain g where g: "bd_in s' e = Some g"
    using e by blast
  have new: "bd_in s e = None"
    using I(3) no_edge inv(2) by blast
  then have ge: "bd_next s \<le> g"
    using A g by blast
  have "bd_out s' b \<noteq> Some g" for b
    using A I(1) [of b g] ge by auto
  moreover have "bd_in s' t \<noteq> Some g" if "t \<noteq> e" for t
  proof (cases "bd_in s t")
    case None
    then show ?thesis
      using A new g that by blast
  next
    case (Some h)
    then obtain b where "b \<in> set xs" "edge ir b t"
      using I(3) by blast
    then have "h < bd_next s"
      using I(1,2) Some by metis
    moreover have "bd_in s' t = Some h"
      using A Some by auto
    ultimately show ?thesis
      using ge by simp
  qed
  ultimately show ?thesis
    using g by simp
qed

lemma bundling_run:
  assumes C: "cfg_closed ir" and fuel: "length (ir_basic_blocks ir) < fuel"
    and size: "length (ir_basic_blocks ir) + length (ir_functions ir) < u32_max"
    and ps: "compute_predecessors ir (reachable_blocks ir) inner = Some preds"
    and crit: "no_critical_edges ir preds"
  shows "\<exists>r s. compute_rpo fuel ir = Some r \<and> cfg_bundling 2 ir r preds = Some s \<and> bundle_groups ir s"
proof -
  let ?n = "length (ir_basic_blocks ir)"
  obtain Qs where Qs: "length Qs = length (ir_functions ir)" "rpo_slices ir Qs"
    and run: "compute_rpo fuel ir = Some \<lparr>rp_visited = set (concat Qs), rp_global = rev (concat Qs),
       rp_starts = map (\<lambda>k. length (before Qs k)) [0..<length (ir_functions ir)]\<rparr>"
    using rpo_run [OF C fuel] .
  let ?rpo = "rev (concat Qs)"
  have rpo: "distinct ?rpo" "set ?rpo = reachable_blocks ir" "set ?rpo \<subseteq> {..<?n}"
    using concat_slices [OF Qs(2,1)] by (simp_all only: distinct_rev set_rev)
  have len: "length ?rpo \<le> ?n"
    using card_mono [OF finite_lessThan rpo(3)] distinct_card [OF rpo(1)] by simp
  have preds: "set (preds ! t) = {p. p \<in> reachable_blocks ir \<and> edge ir p t}" if "edge ir b t" for b t
  proof -
    have "t < ?n"
      using that edge_closed [OF C edge_source [OF that]] by simp
    then show ?thesis
      using ps predecessors_run [OF C, of "reachable_blocks ir" inner] set_predecessors by auto
  qed
  have sub: "set ?rpo \<subseteq> reachable_blocks ir \<inter> {..<?n}" and n: "?n < u32_max"
    using rpo(2,3) size by simp_all
  have "\<exists>s. fold_panics (\<lambda>b s. bundle_loop 2 ir preds ([b], s)) ?rpo \<lparr>bd_out = Map.empty, bd_in = Map.empty, bd_next = 0\<rparr> = Some s
      \<and> bundle_inv ir ?rpo s"
    by (rule bundle_blocks [OF C n _ crit rpo(1) sub len]) (rule preds)
  then obtain s where s: "fold_panics (\<lambda>b s. bundle_loop 2 ir preds ([b], s)) ?rpo
      \<lparr>bd_out = Map.empty, bd_in = Map.empty, bd_next = 0\<rparr> = Some s" "bundle_inv ir ?rpo s"
    by blast
  then have "bd_next s + length (ir_functions ir) < u32_max"
    using len size by (simp add: bundle_inv_def)
  from bundle_entries [OF this] obtain s' where s': "fold_panics bundle_entry (ir_functions ir) s = Some s'" "entries_added s s'"
      "\<forall>f \<in> set (ir_functions ir). bd_in s' (fn_entry f) \<noteq> None"
    by blast
  have inv: "\<And>b. b \<in> reachable_blocks ir \<Longrightarrow> bd_out s b \<noteq> None"
      "\<And>b t. b \<in> reachable_blocks ir \<Longrightarrow> edge ir b t \<Longrightarrow> bd_in s t = bd_out s b"
      "\<And>b c. b \<in> reachable_blocks ir \<Longrightarrow> c \<in> reachable_blocks ir \<Longrightarrow> bd_out s b = bd_out s c \<longleftrightarrow> b = c \<or> share ir b c"
    using s(2) unfolding bundle_inv_def rpo(2) by blast+
  have same: "bd_out s' = bd_out s" "\<And>t. bd_in s t \<noteq> None \<Longrightarrow> bd_in s' t = bd_in s t"
    using s'(2) by (auto simp: entries_added_def)
  have "bd_in s' t = bd_out s' b" if "b \<in> reachable_blocks ir" "edge ir b t" for b t
    using inv(1) [OF that(1)] inv(2) [OF that] same by simp
  then have "bundle_groups ir s'"
    using inv(1,3) same(1) s'(3) entry_alone [OF s(2) rpo(2) s'(2)] unfolding bundle_groups_def by auto
  moreover have "cfg_bundling 2 ir \<lparr>rp_visited = set (concat Qs), rp_global = ?rpo,
       rp_starts = map (\<lambda>k. length (before Qs k)) [0..<length (ir_functions ir)]\<rparr> preds = Some s'"
    using s(1) s'(1) by (simp add: cfg_bundling_def)
  ultimately show ?thesis
    using run by blast
qed

text \<open>
  C33. Bundling.  On a program without critical edges, the bundling over the reverse post order and the
  predecessors of the other analyses returns with fuel for two steps per block; both ends of an edge
  between reachable blocks are in the same group, two blocks are in the same group at their ends
  exactly when they share a successor, and every function entry is in a group.
\<close>

theorem bundling_correct:
  assumes C: "cfg_closed ir" and fuel: "length (ir_basic_blocks ir) < fuel"
    and size: "length (ir_basic_blocks ir) + length (ir_functions ir) < u32_max"
    and ps: "compute_predecessors ir (reachable_blocks ir) inner = Some preds"
    and crit: "no_critical_edges ir preds"
  shows "\<exists>r s. compute_rpo fuel ir = Some r \<and> cfg_bundling 2 ir r preds = Some s
    \<and> (\<forall>b \<in> reachable_blocks ir. bd_out s b \<noteq> None \<and> (\<forall>t. edge ir b t \<longrightarrow> bd_in s t = bd_out s b))
    \<and> (\<forall>b \<in> reachable_blocks ir. \<forall>c \<in> reachable_blocks ir. bd_out s b = bd_out s c \<longleftrightarrow> b = c \<or> share ir b c)
    \<and> (\<forall>f \<in> set (ir_functions ir). bd_in s (fn_entry f) \<noteq> None)"
  using bundling_run [OF assms] unfolding bundle_groups_def by blast


definition diamond :: eth_ir_program where
  "diamond = ir_default\<lparr>
     ir_functions := [\<lparr>fn_entry = 0, fn_outputs = 0, fn_source = None\<rparr>],
     ir_basic_blocks := map plain_block
       [Branches \<lparr>br_condition = 0, br_non_zero_target = 1, br_zero_target = 2\<rparr>,
        ContinuesTo 3, ContinuesTo 3, LastOpTerminates]\<rparr>"

lemma diamond_successors:
  "block_successors diamond 0 = Some [2, 1]" "block_successors diamond (Suc 0) = Some [3]"
  "block_successors diamond 2 = Some [3]" "block_successors diamond 3 = Some []"
  by (simp_all add: block_successors_def block_control_def iter_outgoing_def outgoing_list_def diamond_def
      plain_block_def iv_index_def)

lemma diamond_size: "length (ir_basic_blocks diamond) = 4" "ir_functions diamond = [\<lparr>fn_entry = 0, fn_outputs = 0, fn_source = None\<rparr>]"
  by (simp_all add: diamond_def)

lemma list_literals:
  "[0..<4] = [0, Suc 0, 2, 3]" "[0..<10] = [0, Suc 0, 2, 3, 4, 5, 6, 7, 8, 9]"
  "replicate 4 y = [y, y, y, y]" "replicate 10 y = [y, y, y, y, y, y, y, y, y, y]"
  by (simp_all add: upt_conv_Cons eval_nat_numeral)

lemma diamond_beyond: "4 \<le> b \<Longrightarrow> block_successors diamond b = None"
  by (simp add: block_successors_def block_control_def iv_index_def diamond_size)

lemma diamond_closed: "cfg_closed diamond"
proof -
  have "case block_successors diamond b of None \<Rightarrow> False | Some ss \<Rightarrow> \<forall>t \<in> set ss. t < 4" if b: "b < 4" for b
  proof -
    consider "b = 0" | "b = Suc 0" | "b = 2" | "b = 3"
      using b by linarith
    then show ?thesis
      by cases (simp_all add: diamond_successors)
  qed
  then show ?thesis
    unfolding cfg_closed_def diamond_size by (simp add: is_idx_def u32_max_def)
qed

lemma diamond_edges: "edge diamond x y \<longleftrightarrow> (x, y) \<in> {(0, 2), (0, 1), (1, 3), (2, 3)}"
proof -
  consider "x = 0" | "x = Suc 0" | "x = 2" | "x = 3" | "4 \<le> x"
    by linarith
  then show ?thesis
    by cases (auto simp: edge_def diamond_successors diamond_beyond)
qed

lemma diamond_reachable: "reachable_blocks diamond = {0, 1, 2, 3}"
proof -
  have "reaches diamond 0 0" "reaches diamond 0 2" "reaches diamond 0 1" "reaches diamond 0 3"
    using reaches_step [of diamond 0 2] reaches_step [of diamond 0 1] reaches_step [of diamond 2 3]
    by (auto simp: diamond_edges)
  moreover have "b < 4" if "reaches diamond 0 b" for b
    using reaches_closed [OF diamond_closed that] by (simp add: diamond_size)
  moreover have "b < 4 \<longleftrightarrow> b \<in> {0, 1, 2, 3}" for b :: nat
    by auto
  ultimately show ?thesis
    unfolding reachable_blocks_def by (auto simp: entry_of_def diamond_size)
qed

lemma diamond_predecessors:
  "compute_predecessors diamond {0, 1, 2, 3} [] = Some [[], [0], [0], [1, 2]]"
  by (simp add: compute_predecessors_def diamond_size diamond_successors list_literals resize_def iv_index_def iv_set_def bind_Some)

lemma bundling_correct_witness:
  "\<exists>r s. compute_rpo 5 diamond = Some r \<and> cfg_bundling 2 diamond r [[], [0], [0], [1, 2]] = Some s
    \<and> bd_out s 1 = bd_out s 2 \<and> bd_in s 3 = bd_out s 1 \<and> bd_out s 0 \<noteq> bd_out s 1"
proof -
  have crit: "no_critical_edges diamond [[], [0], [0], [1, 2]]"
    unfolding no_critical_edges_def diamond_reachable by (auto simp: diamond_successors)
  have "compute_predecessors diamond (reachable_blocks diamond) [] = Some [[], [0], [0], [1, 2]]"
    using diamond_predecessors by (simp add: diamond_reachable)
  note run = bundling_correct [OF diamond_closed _ _ this crit, of 5, unfolded diamond_reachable]
  obtain r s where rs: "compute_rpo 5 diamond = Some r" "cfg_bundling 2 diamond r [[], [0], [0], [1, 2]] = Some s"
    and ends: "\<forall>b \<in> {0, 1, 2, 3}. bd_out s b \<noteq> None \<and> (\<forall>t. edge diamond b t \<longrightarrow> bd_in s t = bd_out s b)"
    and groups: "\<forall>b \<in> {0, 1, 2, 3}. \<forall>c \<in> {0, 1, 2, 3}. bd_out s b = bd_out s c \<longleftrightarrow> b = c \<or> share diamond b c"
    using run by (fastforce simp: diamond_size u32_max_def)
  have "share diamond 1 2" "\<not> share diamond 0 1"
    by (auto simp: share_def diamond_edges)
  then have "bd_out s 1 = bd_out s 2" "bd_out s 0 \<noteq> bd_out s 1"
    using groups [rule_format, of 1 2] groups [rule_format, of 0 1] by simp_all
  moreover have "bd_in s 3 = bd_out s 1"
    using ends [rule_format, of 1] by (simp add: diamond_edges)
  ultimately show ?thesis
    using rs by blast
qed

section \<open>With critical edges\<close>

text \<open>
  Two blocks that share their second successor, while their first successors are in different groups:
  each of them takes the shared successor back and pushes the other.
\<close>

lemma bundling_oscillates:
  assumes "block_successors ir x = Some [a, t]" "block_successors ir y = Some [c, t]" "iv_index preds t = Some [x, y]"
    and "distinct [a, c, t]" "x \<noteq> y" "p \<noteq> q"
    and "bd_in s a = Some p" "bd_in s c = Some q"
    and "b = x \<and> bd_in s t = Some q \<or> b = y \<and> bd_in s t = Some p"
  shows "bundle_loop fuel ir preds ([b], s) = None"
  using assms(7-9)
proof (induction fuel arbitrary: b s)
  case (Suc fuel)
  show ?case
    using Suc.prems(3)
  proof
    assume b: "b = x \<and> bd_in s t = Some q"
    then have "bundle_block ir preds b ([], s) = Some ([y], s\<lparr>bd_out := (bd_out s)(x \<mapsto> p), bd_in := (bd_in s)(a \<mapsto> p, t \<mapsto> p)\<rparr>)"
      using assms Suc.prems by (auto simp: bundle_block_def bundle_succ_def Let_def)
    then show ?thesis
      using b assms(4) Suc.prems by (simp add: Suc.IH)
  next
    assume b: "b = y \<and> bd_in s t = Some p"
    then have "bundle_block ir preds b ([], s) = Some ([x], s\<lparr>bd_out := (bd_out s)(y \<mapsto> q), bd_in := (bd_in s)(c \<mapsto> q, t \<mapsto> q)\<rparr>)"
      using assms Suc.prems by (auto simp: bundle_block_def bundle_succ_def Let_def)
    then show ?thesis
      using b assms(4) Suc.prems by (simp add: Suc.IH)
  qed
qed simp

definition branch :: "nat \<Rightarrow> nat \<Rightarrow> control" where
  "branch z nz = Branches \<lparr>br_condition = 0, br_non_zero_target = nz, br_zero_target = z\<rparr>"

definition ladder :: eth_ir_program where
  "ladder = ir_default\<lparr>
     ir_functions := [\<lparr>fn_entry = 0, fn_outputs = 0, fn_source = None\<rparr>],
     ir_basic_blocks := map plain_block
       [branch 1 2, branch 3 4, branch 5 6, branch 7 8, branch 9 8, ContinuesTo 7, ContinuesTo 9,
        LastOpTerminates, LastOpTerminates, LastOpTerminates]\<rparr>"

lemma ladder_successors:
  "block_successors ladder 0 = Some [1, 2]" "block_successors ladder (Suc 0) = Some [3, 4]"
  "block_successors ladder 2 = Some [5, 6]" "block_successors ladder 3 = Some [7, 8]"
  "block_successors ladder 4 = Some [9, 8]" "block_successors ladder 5 = Some [7]"
  "block_successors ladder 6 = Some [9]" "block_successors ladder 7 = Some []"
  "block_successors ladder 8 = Some []" "block_successors ladder 9 = Some []"
  by (simp_all add: block_successors_def block_control_def iter_outgoing_def outgoing_list_def ladder_def
      plain_block_def branch_def iv_index_def)

lemma ladder_size: "length (ir_basic_blocks ladder) = 10"
  "ir_functions ladder = [\<lparr>fn_entry = 0, fn_outputs = 0, fn_source = None\<rparr>]"
  by (simp_all add: ladder_def)

lemma dfs_step:
  "0 < fuel \<Longrightarrow> dfs_postorder fuel ir b (v, po) =
     (if b \<in> v then Some (v, po)
      else do { succs \<leftarrow> block_successors ir b;
                (v, po) \<leftarrow> fold_panics (dfs_postorder (fuel - 1) ir) succs (insert b v, po);
                Some (v, po @ [b]) })"
  by (cases fuel) simp_all

lemma ladder_rpo: "\<exists>r. compute_rpo 11 ladder = Some r \<and> rp_global r = [0, 2, 6, 5, 1, 4, 9, 3, 8, 7]"
  by (simp add: compute_rpo_def rpo_function_def ladder_size ladder_successors function_entry_def iv_index_def
      iv_push_Some bind_Some dfs_step is_idx_def u32_max_def)

definition ladder_preds :: "nat list list" where
  "ladder_preds = [[], [0], [0], [1], [1], [2], [2], [3, 5], [3, 4], [4, 6]]"

lemma ladder_predecessors: "compute_predecessors ladder {0, 1, 2, 3, 4, 5, 6, 7, 8, 9} [] = Some ladder_preds"
  by (simp add: ladder_preds_def compute_predecessors_def ladder_size ladder_successors list_literals resize_def iv_index_def iv_set_def bind_Some)


end
