(* ===== verification/Results.thy ===== *)
theory Results
  imports Prelude
begin

text \<open>
  Code that returns a \<open>Result\<close> and may panic: a sum with the error on the left inside \<open>'a panics\<close>.
  \<open>try_bind\<close> is the \<open>?\<close> operator, \<open>fold_try\<close> a \<open>for\<close> loop whose body uses it.
\<close>

definition try_bind :: "('e + 'a) panics \<Rightarrow> ('a \<Rightarrow> ('e + 'b) panics) \<Rightarrow> ('e + 'b) panics" where
  "try_bind r k = do { x \<leftarrow> r; case x of Inl e \<Rightarrow> Some (Inl e) | Inr y \<Rightarrow> k y }"

definition fail_if :: "bool \<Rightarrow> 'e \<Rightarrow> ('e + unit) panics" where
  "fail_if c e = Some (if c then Inl e else Inr ())"

fun fold_try :: "('a \<Rightarrow> 's \<Rightarrow> ('e + 's) panics) \<Rightarrow> 'a list \<Rightarrow> 's \<Rightarrow> ('e + 's) panics" where
  "fold_try f [] s = Some (Inr s)"
| "fold_try f (x # xs) s = try_bind (f x s) (fold_try f xs)"

lemma try_bind_Inr [panic_simps]:
  "try_bind r k = Some (Inr y) \<longleftrightarrow> (\<exists>x. r = Some (Inr x) \<and> k x = Some (Inr y))"
  by (cases r) (auto simp: try_bind_def split: sum.splits)

lemma try_bind_simps [simp]:
  "try_bind (Some (Inr x)) k = k x" "try_bind (Some (Inl e)) k = Some (Inl e)" "try_bind None k = None"
  by (simp_all add: try_bind_def)

lemma fail_if_Inr [panic_simps, simp]: "fail_if c e = Some (Inr u) \<longleftrightarrow> \<not> c"
  by (simp add: fail_if_def)

lemma fail_if_False [simp]: "fail_if False e = Some (Inr ())"
  by (simp add: fail_if_def)

lemma try_bind_fail_if [simp]: "try_bind (fail_if c e) k = (if c then Some (Inl e) else k ())"
  by (simp add: fail_if_def)

lemma try_bind_cong [fundef_cong]:
  assumes "r = r'" and "\<And>x. r' = Some (Inr x) \<Longrightarrow> k x = k' x"
  shows "try_bind r k = try_bind r' k'"
  using assms by (cases r') (auto simp: try_bind_def split: sum.splits)

lemma fold_try_cong [fundef_cong]:
  assumes "xs = ys" and "s = t" and "\<And>x u. x \<in> set ys \<Longrightarrow> f x u = g x u"
  shows "fold_try f xs s = fold_try g ys t"
  using assms(3) unfolding assms(1,2)
proof (induction ys arbitrary: t)
  case (Cons y ys)
  then show ?case
    by (auto intro!: try_bind_cong)
qed simp

lemma fold_try_append [simp]: "fold_try f (xs @ ys) s = try_bind (fold_try f xs s) (fold_try f ys)"
  by (induction xs arbitrary: s) (auto simp: try_bind_def Option.bind_eq_Some_conv split: bind_splits sum.splits)

text \<open>A loop without state succeeds when every step does.\<close>

lemma fold_try_unit: "fold_try f xs () = Some (Inr u) \<longleftrightarrow> (\<forall>x \<in> set xs. f x () = Some (Inr ()))"
  by (induction xs) (auto simp: try_bind_Inr)

lemma fold_try_invariant:
  assumes "fold_try f xs s = Some (Inr t)" and "P [] s"
    and "\<And>ys x zs u v. xs = ys @ x # zs \<Longrightarrow> P ys u \<Longrightarrow> f x u = Some (Inr v) \<Longrightarrow> P (ys @ [x]) v"
  shows "P xs t"
proof -
  have "P (ys @ zs) t" if "fold_try f zs u = Some (Inr t)" "P ys u" "xs = ys @ zs" for ys zs u
    using that
  proof (induction zs arbitrary: ys u)
    case (Cons z zs)
    then obtain v where v: "f z u = Some (Inr v)" "fold_try f zs v = Some (Inr t)"
      by (auto simp: try_bind_Inr)
    have "P (ys @ [z]) v"
      using assms(3) Cons.prems(2,3) v(1) by blast
    then show ?case
      using Cons.IH [OF v(2), of "ys @ [z]"] Cons.prems(3) by simp
  qed simp
  from this [of xs s "[]"] show ?thesis
    using assms(1,2) by simp
qed

lemma fold_try_total:
  assumes "P s" and "\<And>x u. x \<in> set xs \<Longrightarrow> P u \<Longrightarrow> \<exists>v. f x u = Some (Inr v) \<and> P v"
  shows "\<exists>t. fold_try f xs s = Some (Inr t) \<and> P t"
  using assms
proof (induction xs arbitrary: s)
  case (Cons x xs)
  then obtain v where "f x s = Some (Inr v)" "P v"
    by (meson list.set_intros(1))
  with Cons show ?case
    by simp
qed simp

end
