(* ===== verification/Def_Use.thy ===== *)
theory Def_Use
  imports Sir_Ir
begin

text \<open>
  The def-use chains (\<open>passes/src/analyses/def_use.rs\<close>): for every local the places that read it, in
  the order of the blocks.
\<close>

datatype use_kind =
    UseOperation nat
  | UseControl
  | UseBlockOutput nat

record use_location =
  ul_block_id :: nat
  ul_kind :: use_kind

type_synonym def_use = "use_location list list"

definition push_use :: "nat \<Rightarrow> use_kind \<Rightarrow> nat \<Rightarrow> def_use \<Rightarrow> def_use panics" where
  "push_use b kind l uses =
     do { us \<leftarrow> iv_index uses l; iv_set uses l (us @ [\<lparr>ul_block_id = b, ul_kind = kind\<rparr>]) }"

definition block_uses :: "eth_ir_program \<Rightarrow> nat \<Rightarrow> def_use \<Rightarrow> def_use panics" where
  "block_uses ir b uses =
     do { ops \<leftarrow> block_operations ir b;
          uses \<leftarrow> fold_panics (\<lambda>i uses.
              do { ins \<leftarrow> opview_inputs ir i; fold_panics (push_use b (UseOperation i)) ins uses }) ops uses;
          c \<leftarrow> block_control ir b;
          uses \<leftarrow> (case c of
              Branches br \<Rightarrow> push_use b UseControl (br_condition br) uses
            | Switch sw \<Rightarrow> push_use b UseControl (sw_condition sw) uses
            | _ \<Rightarrow> Some uses);
          outs \<leftarrow> block_outputs ir b;
          fold_panics (\<lambda>(idx, l). push_use b (UseBlockOutput idx) l) (enumerate 0 outs) uses }"

definition compute_def_use :: "eth_ir_program \<Rightarrow> def_use panics" where
  "compute_def_use ir =
     fold_panics (block_uses ir) [0..<length (ir_basic_blocks ir)] (replicate (ir_next_free_local_id ir) [])"

definition retain_uses :: "nat \<Rightarrow> (use_location \<Rightarrow> bool) \<Rightarrow> def_use \<Rightarrow> def_use panics" where
  "retain_uses l keep uses = do { us \<leftarrow> iv_index uses l; iv_set uses l (filter keep us) }"

end
