(* ===== verification/Legalizer.thy ===== *)
theory Legalizer
  imports Results Def_Use Dominators "HOL-Library.Product_Lexorder"
begin

text \<open>
  The legalizer (\<open>passes/src/analyses/legalizer.rs\<close>), which accepts a program or returns the first
  violation it finds.  It indexes the arrays of the program before it has checked some of the indices, so
  it may also panic.  The sets of blocks and locals are the sets that \<open>DenseIndexSet\<close> refines; the
  recursive functions take fuel for their depth.
\<close>

datatype span_source =
    SrcInputs nat
  | SrcOutputs nat
  | SrcOperations nat
  | SrcOpInputs nat nat
  | SrcOpOutputs nat nat

datatype legalizer_error =
    InitHasInputs nat
  | RuntimeHasInputs nat
  | TerminatorNotLast nat nat
  | TerminatorControlMismatch nat nat
  | MissingTerminator nat
  | InvalidLargeConstId nat
  | InvalidSegmentId nat
  | InvalidStaticAllocId nat
  | OverlappingSpans span_source span_source
  | SpanOutOfBounds span_source
  | SharedBasicBlock nat nat nat
  | IncompatibleEdge nat nat
  | WrongOutputCount nat nat nat
  | WrongCallInputCount nat nat nat
  | RecursiveCall nat nat
  | InvalidLocalId nat
  | DoubleDefinition nat
  | InvalidFunctionId nat
  | InvalidBasicBlockId nat
  | LocalNotInScope nat nat use_kind

type_synonym 'a legal_panics = "(legalizer_error + 'a) panics"

record tracked_span =
  ts_start :: nat
  ts_end :: nat
  ts_source :: span_source

record legalizer =
  lz_locals_spans :: "tracked_span list"
  lz_operations_spans :: "tracked_span list"
  lz_block_owner :: "nat option list"
  lz_call_edges :: "(nat \<times> nat) list"

section \<open>Entry points\<close>

definition validate_entry :: "eth_ir_program \<Rightarrow> (nat \<Rightarrow> legalizer_error) \<Rightarrow> nat \<Rightarrow> unit legal_panics" where
  "validate_entry ir has_inputs f =
     try_bind (fail_if (get_at (ir_functions ir) f = None) (InvalidFunctionId f)) (\<lambda>_.
       do { fn \<leftarrow> iv_index (ir_functions ir) f;
            bb \<leftarrow> iv_index (ir_basic_blocks ir) (fn_entry fn);
            if \<not> span_is_empty (bb_inputs bb)
            then do { n \<leftarrow> span_len (bb_inputs bb); Some (Inl (has_inputs n)) }
            else Some (Inr ()) })"

definition validate_entry_points :: "eth_ir_program \<Rightarrow> unit legal_panics" where
  "validate_entry_points ir =
     try_bind (validate_entry ir InitHasInputs (ir_init_entry ir)) (\<lambda>_.
       case ir_main_entry ir of
         None \<Rightarrow> Some (Inr ())
       | Some main_entry \<Rightarrow> validate_entry ir RuntimeHasInputs main_entry)"

section \<open>Blocks and spans\<close>

definition validate_terminator :: "eth_ir_program \<Rightarrow> nat \<Rightarrow> basic_block \<Rightarrow> nat \<Rightarrow> unit \<Rightarrow> unit legal_panics" where
  "validate_terminator ir b bb i u =
     do { op \<leftarrow> iv_index (ir_operations ir) i;
          if is_terminating (op_kind op) then
            do { final \<leftarrow> idx_sub (sp_end (bb_operations bb)) 1;
                 if i \<noteq> final then Some (Inl (TerminatorNotLast b i))
                 else if bb_control bb \<noteq> LastOpTerminates then Some (Inl (TerminatorControlMismatch b i))
                 else Some (Inr ()) }
          else Some (Inr ()) }"

definition validate_block_terminators :: "eth_ir_program \<Rightarrow> nat \<Rightarrow> basic_block \<Rightarrow> unit legal_panics" where
  "validate_block_terminators ir b bb =
     do { missing \<leftarrow> (if bb_control bb = LastOpTerminates then
              do { ops \<leftarrow> iv_index_span (ir_operations ir) (bb_operations bb);
                   Some (ops = [] \<or> \<not> is_terminating (op_kind (last ops))) }
            else Some False);
          try_bind (fail_if missing (MissingTerminator b)) (\<lambda>_.
            do { ids \<leftarrow> span_iter (bb_operations bb); fold_try (validate_terminator ir b bb) ids () }) }"

definition validate_basic_block_id :: "eth_ir_program \<Rightarrow> nat \<Rightarrow> unit \<Rightarrow> unit legal_panics" where
  "validate_basic_block_id ir b u = fail_if (get_at (ir_basic_blocks ir) b = None) (InvalidBasicBlockId b)"

definition validate_control :: "eth_ir_program \<Rightarrow> control \<Rightarrow> unit legal_panics" where
  "validate_control ir c =
     (case c of
        Branches br \<Rightarrow>
          try_bind (fail_if (br_condition br \<ge> ir_next_free_local_id ir) (InvalidLocalId (br_condition br))) (\<lambda>_.
            try_bind (validate_basic_block_id ir (br_non_zero_target br) ()) (validate_basic_block_id ir (br_zero_target br)))
      | Switch sw \<Rightarrow>
          try_bind (fail_if (sw_condition sw \<ge> ir_next_free_local_id ir) (InvalidLocalId (sw_condition sw))) (\<lambda>_.
            try_bind (case sw_fallback sw of None \<Rightarrow> Some (Inr ()) | Some t \<Rightarrow> validate_basic_block_id ir t ()) (\<lambda>_.
              do { cases \<leftarrow> iv_index (ir_cases ir) (sw_cases sw);
                   ts \<leftarrow> cases_get_bb_ids ir cases;
                   fold_try (validate_basic_block_id ir) ts () }))
      | ContinuesTo t \<Rightarrow> validate_basic_block_id ir t ()
      | _ \<Rightarrow> Some (Inr ()))"

definition validate_op_refs :: "eth_ir_program \<Rightarrow> operation \<Rightarrow> unit legal_panics" where
  "validate_op_refs ir op =
     (case op_payload op of
        SetLargeConstData sets val \<Rightarrow> fail_if (get_at (ir_large_consts ir) val = None) (InvalidLargeConstId val)
      | SetDataOffsetData sets segment \<Rightarrow>
          do { d \<leftarrow> lol_get (ir_data_segments ir) segment; fail_if (d = None) (InvalidSegmentId segment) }
      | StaticAllocData sz ptr_out alloc_id \<Rightarrow>
          fail_if (alloc_id \<ge> ir_next_static_alloc_id ir) (InvalidStaticAllocId alloc_id)
      | InternalCallData f ins_start outs_start \<Rightarrow>
          fail_if (get_at (ir_functions ir) f = None) (InvalidFunctionId f)
      | _ \<Rightarrow> Some (Inr ()))"

text \<open>The spans of an operation that lie in the locals.\<close>

definition validate_op :: "eth_ir_program \<Rightarrow> nat \<Rightarrow> nat \<Rightarrow> tracked_span list \<Rightarrow> tracked_span list legal_panics" where
  "validate_op ir b i spans =
     do { op \<leftarrow> iv_index (ir_operations ir) i;
          try_bind (validate_op_refs ir op) (\<lambda>_.
            do { ins \<leftarrow> op_inputs ir op;
                 outs \<leftarrow> op_outputs ir op;
                 try_bind (fold_try (\<lambda>l u. fail_if (l \<ge> ir_next_free_local_id ir) (InvalidLocalId l)) (ins @ outs) ()) (\<lambda>_.
                   do { s \<leftarrow> op_allocated_spans ir op;
                        let spans = (case as_input s of None \<Rightarrow> spans | Some sp \<Rightarrow>
                          spans @ [\<lparr>ts_start = sp_start sp, ts_end = sp_end sp, ts_source = SrcOpInputs b i\<rparr>]);
                        let spans = (case as_output s of None \<Rightarrow> spans | Some sp \<Rightarrow>
                          spans @ [\<lparr>ts_start = sp_start sp, ts_end = sp_end sp, ts_source = SrcOpOutputs b i\<rparr>]);
                        Some (Inr spans) }) }) }"

definition track :: "span \<Rightarrow> span_source \<Rightarrow> tracked_span list \<Rightarrow> tracked_span list" where
  "track s src spans =
     (if span_is_empty s then spans
      else spans @ [\<lparr>ts_start = sp_start s, ts_end = sp_end s, ts_source = src\<rparr>])"

definition validate_block_indices ::
    "eth_ir_program \<Rightarrow> nat \<Rightarrow> basic_block \<Rightarrow> legalizer \<Rightarrow> legalizer legal_panics" where
  "validate_block_indices ir b bb lz =
     (let locals = track (bb_outputs bb) (SrcOutputs b) (track (bb_inputs bb) (SrcInputs b) (lz_locals_spans lz));
          lz = lz\<lparr>lz_operations_spans := track (bb_operations bb) (SrcOperations b) (lz_operations_spans lz)\<rparr>
      in try_bind (validate_control ir (bb_control bb)) (\<lambda>_.
           do { ids \<leftarrow> span_iter (bb_operations bb);
                try_bind (fold_try (validate_op ir b) ids locals) (\<lambda>locals.
                  Some (Inr (lz\<lparr>lz_locals_spans := locals\<rparr>))) }))"

definition validate_spans :: "tracked_span list \<Rightarrow> nat \<Rightarrow> tracked_span list legal_panics" where
  "validate_spans spans max_bound =
     (let spans = sort_key (\<lambda>s. (ts_start s, ts_end s)) spans
      in try_bind (fold_try (\<lambda>(lhs, rhs) u.
             fail_if (ts_end lhs > ts_start rhs) (OverlappingSpans (ts_source lhs) (ts_source rhs))) (zip spans (tl spans)) ()) (\<lambda>_.
           try_bind (fail_if (spans \<noteq> [] \<and> ts_end (last spans) > max_bound) (SpanOutOfBounds (ts_source (last spans)))) (\<lambda>_.
             Some (Inr spans))))"

definition validate_block :: "eth_ir_program \<Rightarrow> nat \<times> basic_block \<Rightarrow> legalizer \<Rightarrow> legalizer legal_panics" where
  "validate_block ir = (\<lambda>(b, bb) lz.
     try_bind (validate_block_terminators ir b bb) (\<lambda>_. validate_block_indices ir b bb lz))"

definition validate_blocks :: "eth_ir_program \<Rightarrow> legalizer \<Rightarrow> legalizer legal_panics" where
  "validate_blocks ir lz =
     do { blocks \<leftarrow> iv_enumerate_idx (ir_basic_blocks ir);
          try_bind (fold_try (validate_block ir) blocks lz) (\<lambda>lz.
            try_bind (validate_spans (lz_locals_spans lz) (length (ir_locals ir))) (\<lambda>locals.
              try_bind (validate_spans (lz_operations_spans lz) (length (ir_operations ir))) (\<lambda>ops.
                Some (Inr (lz\<lparr>lz_locals_spans := locals, lz_operations_spans := ops\<rparr>))))) }"

section \<open>Control flow and calls\<close>

definition validate_call :: "eth_ir_program \<Rightarrow> nat \<Rightarrow> nat \<Rightarrow> legalizer \<Rightarrow> legalizer legal_panics" where
  "validate_call ir f i lz =
     do { op \<leftarrow> iv_index (ir_operations ir) i;
          case op_payload op of
            InternalCallData callee ins_start outs_start \<Rightarrow>
              do { fn \<leftarrow> iv_index (ir_functions ir) callee;
                   expected_ins \<leftarrow> fn_get_inputs fn (ir_basic_blocks ir);
                   actual_ins \<leftarrow> idx_sub_idx outs_start ins_start;
                   try_bind (fail_if (actual_ins \<noteq> expected_ins) (WrongCallInputCount i expected_ins actual_ins)) (\<lambda>_.
                     Some (Inr (lz\<lparr>lz_call_edges := lz_call_edges lz @ [(f, callee)]\<rparr>))) }
          | _ \<Rightarrow> Some (Inr lz) }"

text \<open>The part of a visit before the successors.\<close>

definition enter_block :: "eth_ir_program \<Rightarrow> nat \<Rightarrow> nat \<Rightarrow> legalizer \<Rightarrow> legalizer legal_panics" where
  "enter_block ir f b lz =
     do { bb \<leftarrow> iv_index (ir_basic_blocks ir) b;
          wrong \<leftarrow> (if bb_control bb = InternalReturn then
              do { actual \<leftarrow> span_len (bb_outputs bb); expected \<leftarrow> function_num_outputs ir f;
                   Some (if actual \<noteq> expected then Some (expected, actual) else None) }
            else Some None);
          try_bind (case wrong of Some (expected, actual) \<Rightarrow> Some (Inl (WrongOutputCount b expected actual))
                    | None \<Rightarrow> Some (Inr ())) (\<lambda>_.
            do { own \<leftarrow> iv_index (lz_block_owner lz) b;
                 try_bind (case own of Some g \<Rightarrow> Some (Inl (SharedBasicBlock b g f)) | None \<Rightarrow> Some (Inr ())) (\<lambda>_.
                   do { owners \<leftarrow> iv_set (lz_block_owner lz) b (Some f);
                        ids \<leftarrow> span_iter (bb_operations bb);
                        fold_try (validate_call ir f) ids (lz\<lparr>lz_block_owner := owners\<rparr>) }) }) }"

definition validate_edge :: "eth_ir_program \<Rightarrow> nat \<Rightarrow> nat \<Rightarrow> unit legal_panics" where
  "validate_edge ir b succ =
     do { bb \<leftarrow> iv_index (ir_basic_blocks ir) b;
          outs \<leftarrow> span_len (bb_outputs bb);
          sb \<leftarrow> iv_index (ir_basic_blocks ir) succ;
          ins \<leftarrow> span_len (bb_inputs sb);
          fail_if (outs \<noteq> ins) (IncompatibleEdge b succ) }"

fun visit_block :: "nat \<Rightarrow> eth_ir_program \<Rightarrow> nat \<Rightarrow> nat \<Rightarrow> nat set \<times> legalizer \<Rightarrow> (nat set \<times> legalizer) legal_panics" where
  "visit_block 0 ir f b s = None"
| "visit_block (Suc fuel) ir f b (visited, lz) =
     (if b \<in> visited then Some (Inr (visited, lz))
      else try_bind (enter_block ir f b lz) (\<lambda>lz.
        do { succs \<leftarrow> block_successors ir b;
             fold_try (\<lambda>succ s. try_bind (validate_edge ir b succ) (\<lambda>_. visit_block fuel ir f succ s))
               succs (insert b visited, lz) }))"

datatype visit_state = Unvisited | InProgress | Done

fun detect_cycle :: "nat \<Rightarrow> nat list list \<Rightarrow> nat \<Rightarrow> visit_state list \<Rightarrow> visit_state list legal_panics" where
  "detect_cycle 0 callees f state = None"
| "detect_cycle (Suc fuel) callees f state =
     do { state \<leftarrow> iv_set state f InProgress;
          cs \<leftarrow> iv_index callees f;
          try_bind (fold_try (\<lambda>callee state.
              do { st \<leftarrow> iv_index state callee;
                   case st of
                     InProgress \<Rightarrow> Some (Inl (RecursiveCall f callee))
                   | Unvisited \<Rightarrow> detect_cycle fuel callees callee state
                   | Done \<Rightarrow> Some (Inr state) }) cs state) (\<lambda>state.
            do { state \<leftarrow> iv_set state f Done; Some (Inr state) }) }"

definition collect_callees :: "nat \<Rightarrow> (nat \<times> nat) list \<Rightarrow> nat list list panics" where
  "collect_callees n call_edges =
     fold_panics (\<lambda>(caller, callee) callees.
         do { cs \<leftarrow> iv_index callees caller; iv_set callees caller (cs @ [callee]) })
       call_edges (replicate n [])"

definition validate_call_graph :: "nat \<Rightarrow> eth_ir_program \<Rightarrow> (nat \<times> nat) list \<Rightarrow> unit legal_panics" where
  "validate_call_graph fuel ir call_edges =
     do { callees \<leftarrow> collect_callees (length (ir_functions ir)) call_edges;
          fs \<leftarrow> iv_iter_idx (ir_functions ir);
          try_bind (fold_try (\<lambda>f state.
              do { st \<leftarrow> iv_index state f;
                   if st = Unvisited then detect_cycle fuel callees f state else Some (Inr state) })
            fs (replicate (length (ir_functions ir)) Unvisited)) (\<lambda>_. Some (Inr ())) }"

definition validate_cfg :: "nat \<Rightarrow> eth_ir_program \<Rightarrow> legalizer \<Rightarrow> legalizer legal_panics" where
  "validate_cfg fuel ir lz =
     do { fns \<leftarrow> iv_enumerate_idx (ir_functions ir);
          try_bind (fold_try (\<lambda>(f, fn) lz.
              try_bind (visit_block fuel ir f (fn_entry fn) ({}, lz)) (\<lambda>s. Some (Inr (snd s)))) fns lz) (\<lambda>lz.
            try_bind (validate_call_graph fuel ir (lz_call_edges lz)) (\<lambda>_. Some (Inr lz))) }"

section \<open>Definitions and scopes of locals\<close>

definition add_def :: "nat \<Rightarrow> nat set \<Rightarrow> nat set legal_panics" where
  "add_def l defs = (if l \<in> defs then Some (Inl (DoubleDefinition l)) else Some (Inr (insert l defs)))"

definition define_block :: "eth_ir_program \<Rightarrow> basic_block \<Rightarrow> nat set \<Rightarrow> nat set legal_panics" where
  "define_block ir bb defs =
     do { ins \<leftarrow> iv_index_span (ir_locals ir) (bb_inputs bb);
          try_bind (fold_try add_def ins defs) (\<lambda>defs.
            do { ids \<leftarrow> span_iter (bb_operations bb);
                 fold_try (\<lambda>i defs.
                   do { op \<leftarrow> iv_index (ir_operations ir) i; outs \<leftarrow> op_outputs ir op; fold_try add_def outs defs })
                 ids defs }) }"

definition validate_single_assignment :: "eth_ir_program \<Rightarrow> nat set legal_panics" where
  "validate_single_assignment ir = fold_try (define_block ir) (ir_basic_blocks ir) {}"

definition require_scope :: "nat \<Rightarrow> nat set \<Rightarrow> use_kind \<Rightarrow> nat \<Rightarrow> unit legal_panics" where
  "require_scope b in_scope kind l = fail_if (l \<notin> in_scope) (LocalNotInScope b l kind)"

definition scope_op :: "eth_ir_program \<Rightarrow> nat \<Rightarrow> nat \<Rightarrow> nat set \<times> nat list \<Rightarrow> (nat set \<times> nat list) legal_panics" where
  "scope_op ir b i = (\<lambda>(in_scope, added).
     do { op \<leftarrow> iv_index (ir_operations ir) i;
          ins \<leftarrow> op_inputs ir op;
          try_bind (fold_try (\<lambda>l u. require_scope b in_scope (UseOperation i) l) ins ()) (\<lambda>_.
            do { outs \<leftarrow> op_outputs ir op;
                 Some (Inr (in_scope \<union> set outs, added @ outs)) }) })"

text \<open>The part of a visit before the blocks this one dominates; \<open>BlockOutput\<close> holds a \<open>u32\<close>.\<close>

definition scope_block :: "eth_ir_program \<Rightarrow> nat \<Rightarrow> nat set \<times> nat list \<Rightarrow> (nat set \<times> nat list) legal_panics" where
  "scope_block ir b = (\<lambda>(in_scope, added).
     do { bb \<leftarrow> iv_index (ir_basic_blocks ir) b;
          ins \<leftarrow> iv_index_span (ir_locals ir) (bb_inputs bb);
          ids \<leftarrow> span_iter (bb_operations bb);
          try_bind (fold_try (scope_op ir b) ids (in_scope \<union> set ins, added @ ins)) (\<lambda>(in_scope, added).
            do { outs \<leftarrow> iv_index_span (ir_locals ir) (bb_outputs bb);
                 try_bind (fold_try (\<lambda>(idx, l) u. require_scope b in_scope (UseBlockOutput (idx mod 2 ^ 32)) l) (enumerate 0 outs) ()) (\<lambda>_.
                   try_bind (case bb_control bb of
                       Branches br \<Rightarrow> require_scope b in_scope UseControl (br_condition br)
                     | Switch sw \<Rightarrow> require_scope b in_scope UseControl (sw_condition sw)
                     | _ \<Rightarrow> Some (Inr ())) (\<lambda>_.
                     Some (Inr (in_scope, added)))) }) })"

fun validate_block_scope ::
    "nat \<Rightarrow> eth_ir_program \<Rightarrow> nat list list \<Rightarrow> nat \<Rightarrow> nat set \<times> nat list \<Rightarrow> (nat set \<times> nat list) legal_panics" where
  "validate_block_scope 0 ir dom_children b s = None"
| "validate_block_scope (Suc fuel) ir dom_children b (in_scope, added) =
     (let prev_len = length added in
      try_bind (scope_block ir b (in_scope, added)) (\<lambda>s.
        do { children \<leftarrow> iv_index dom_children b;
             try_bind (fold_try (validate_block_scope fuel ir dom_children) children s) (\<lambda>(in_scope, added).
               do { new \<leftarrow> slice_from added prev_len;
                    Some (Inr (in_scope - set new, take prev_len added)) }) }))"

definition collect_dom_children :: "eth_ir_program \<Rightarrow> (nat \<rightharpoonup> nat) \<Rightarrow> nat list list panics" where
  "collect_dom_children ir doms =
     fold_panics (\<lambda>b children.
         case doms b of
           None \<Rightarrow> Some children
         | Some parent \<Rightarrow>
             if parent \<noteq> b then do { cs \<leftarrow> iv_index children parent; iv_set children parent (cs @ [b]) }
             else Some children)
       [0..<length (ir_basic_blocks ir)] (replicate (length (ir_basic_blocks ir)) [])"

definition validate_scope :: "nat \<Rightarrow> eth_ir_program \<Rightarrow> (nat \<rightharpoonup> nat) panics \<Rightarrow> unit legal_panics" where
  "validate_scope fuel ir store_dominators =
     do { doms \<leftarrow> store_dominators;
          dom_children \<leftarrow> collect_dom_children ir doms;
          try_bind (fold_try (\<lambda>fn added.
              try_bind (validate_block_scope fuel ir dom_children (fn_entry fn) ({}, added)) (\<lambda>s. Some (Inr (snd s))))
            (ir_functions ir) []) (\<lambda>_. Some (Inr ())) }"

definition validate_local_ids :: "nat \<Rightarrow> eth_ir_program \<Rightarrow> (nat \<rightharpoonup> nat) panics \<Rightarrow> unit legal_panics" where
  "validate_local_ids fuel ir store_dominators =
     try_bind (validate_single_assignment ir) (\<lambda>_. validate_scope fuel ir store_dominators)"

text \<open>
  The whole run.  \<open>store_dominators\<close> is what the store of analyses returns for the dominators; it is
  asked only at the end.
\<close>

definition legalizer_run :: "nat \<Rightarrow> eth_ir_program \<Rightarrow> (nat \<rightharpoonup> nat) panics \<Rightarrow> unit legal_panics" where
  "legalizer_run fuel ir store_dominators =
     (let lz = \<lparr>lz_locals_spans = [], lz_operations_spans = [],
          lz_block_owner = replicate (length (ir_basic_blocks ir)) None, lz_call_edges = []\<rparr>
      in try_bind (validate_entry_points ir) (\<lambda>_.
           try_bind (validate_blocks ir lz) (\<lambda>lz.
             try_bind (validate_cfg fuel ir lz) (\<lambda>lz.
               validate_local_ids fuel ir store_dominators))))"

text \<open>The dominators as a fresh store computes them.\<close>

definition fresh_dominators :: "nat \<Rightarrow> eth_ir_program \<Rightarrow> (nat \<rightharpoonup> nat) panics" where
  "fresh_dominators fuel ir =
     do { reach \<leftarrow> compute_reachability fuel ir;
          preds \<leftarrow> compute_predecessors ir reach [];
          rpo \<leftarrow> compute_rpo fuel ir;
          compute_dominators ir preds rpo }"

end
