(* ===== verification/Legal.thy ===== *)
theory Legal
  imports Legalizer Sir_Exec
begin

text \<open>
  What the legalizer guarantees.  \<open>legal\<close> states the well-formedness of programs without the traversals
  of the code: every index refers to something, terminators are where control expects them, the spans
  of locals are disjoint, no block belongs to two functions, edges and calls pass the right number of
  values, calls are not recursive, every local has one definition, and definitions dominate uses.
\<close>

lemma span_iter_SomeD: "span_iter s = Some ids \<Longrightarrow> ids = [sp_start s..<sp_end s]"
proof -
  have "span_collect fuel span_next s = Some ids \<Longrightarrow> ids = [sp_start s..<sp_end s]" for fuel
  proof (induction fuel arbitrary: s ids)
    case (Suc fuel)
    show ?case
    proof (cases "sp_start s \<ge> sp_end s")
      case False
      then obtain j where "span_next s = Some (Some (sp_start s, s\<lparr>sp_start := j\<rparr>))" "j = Suc (sp_start s)"
        using Suc.prems by (auto simp: span_next_def get_and_inc_def bind_Some idx_add_Some)
      then obtain xs where "span_collect fuel span_next (s\<lparr>sp_start := Suc (sp_start s)\<rparr>) = Some xs" "ids = sp_start s # xs"
        using Suc.prems by (auto simp: bind_Some)
      then show ?thesis
        using Suc.IH [of "s\<lparr>sp_start := Suc (sp_start s)\<rparr>" xs] False by (simp add: upt_conv_Cons)
    qed (use Suc.prems in \<open>auto simp: span_next_def\<close>)
  qed simp
  then show "span_iter s = Some ids \<Longrightarrow> ids = [sp_start s..<sp_end s]"
    unfolding span_iter_def by blast
qed

section \<open>Blocks\<close>

definition refs_exist :: "eth_ir_program \<Rightarrow> operation \<Rightarrow> bool" where
  "refs_exist ir op \<longleftrightarrow>
     (case op_payload op of
        SetLargeConstData sets val \<Rightarrow> val < length (ir_large_consts ir)
      | SetDataOffsetData sets segment \<Rightarrow> (\<exists>d. lol_get (ir_data_segments ir) segment = Some (Some d))
      | StaticAllocData sz ptr_out alloc_id \<Rightarrow> alloc_id < ir_next_static_alloc_id ir
      | InternalCallData f ins_start outs_start \<Rightarrow> f < length (ir_functions ir)
      | _ \<Rightarrow> True)"

definition legal_op :: "eth_ir_program \<Rightarrow> nat \<Rightarrow> bool" where
  "legal_op ir i \<longleftrightarrow> i < length (ir_operations ir) \<and> refs_exist ir (ir_operations ir ! i)
     \<and> (\<exists>ins outs. opview_inputs ir i = Some ins \<and> opview_outputs ir i = Some outs
          \<and> (\<forall>l \<in> set ins \<union> set outs. l < ir_next_free_local_id ir))"

definition terminates_at :: "eth_ir_program \<Rightarrow> nat \<Rightarrow> bool" where
  "terminates_at ir i \<longleftrightarrow> is_terminating (op_kind (ir_operations ir ! i))"

definition legal_block :: "eth_ir_program \<Rightarrow> nat \<Rightarrow> bool" where
  "legal_block ir b \<longleftrightarrow>
     (\<exists>c ids succs. block_control ir b = Some c \<and> block_operations ir b = Some ids \<and> block_successors ir b = Some succs
        \<and> (\<forall>t \<in> set succs. t < length (ir_basic_blocks ir))
        \<and> (\<forall>l \<in> control_condition c. l < ir_next_free_local_id ir)
        \<and> (\<forall>i \<in> set ids. legal_op ir i \<and> (terminates_at ir i \<longrightarrow> i = last ids \<and> c = LastOpTerminates))
        \<and> (c = LastOpTerminates \<longrightarrow> ids \<noteq> [] \<and> terminates_at ir (last ids)))"

lemma validate_terminators_sound:
  assumes "validate_block_terminators ir b bb = Some (Inr u)"
  shows "\<exists>ids. span_iter (bb_operations bb) = Some ids
    \<and> (\<forall>i \<in> set ids. i < length (ir_operations ir) \<and> (terminates_at ir i \<longrightarrow> i = last ids \<and> bb_control bb = LastOpTerminates))
    \<and> (bb_control bb = LastOpTerminates \<longrightarrow> ids \<noteq> [] \<and> terminates_at ir (last ids))"
proof -
  obtain ids where ids: "span_iter (bb_operations bb) = Some ids"
    and each: "\<forall>i \<in> set ids. validate_terminator ir b bb i () = Some (Inr ())"
    and missing: "bb_control bb = LastOpTerminates \<Longrightarrow> \<exists>ops. iv_index_span (ir_operations ir) (bb_operations bb) = Some ops
      \<and> ops \<noteq> [] \<and> is_terminating (op_kind (last ops))"
    using assms by (auto simp: validate_block_terminators_def bind_Some fold_try_unit split: if_splits)
  have upt: "ids = [sp_start (bb_operations bb)..<sp_end (bb_operations bb)]"
    by (rule span_iter_SomeD [OF ids])
  have "i < length (ir_operations ir) \<and> (terminates_at ir i \<longrightarrow> i = last ids \<and> bb_control bb = LastOpTerminates)"
    if "i \<in> set ids" for i
    using each [rule_format, OF that] that upt
    by (auto simp: validate_terminator_def bind_Some iv_index_def get_at_Some terminates_at_def
        idx_sub_def sub_checked_Some idx_new_def split: if_splits)
  moreover have "ids \<noteq> [] \<and> terminates_at ir (last ids)" if ends: "bb_control bb = LastOpTerminates"
  proof -
    let ?s = "sp_start (bb_operations bb)" and ?e = "sp_end (bb_operations bb)"
    obtain ops where ops: "?s \<le> ?e" "?e \<le> length (ir_operations ir)" "ops = take (?e - ?s) (drop ?s (ir_operations ir))"
      "ops \<noteq> []" "is_terminating (op_kind (last ops))"
      using missing [OF ends] by (auto simp: iv_index_span_def slice_of_Some)
    then have "?s < ?e"
      by (cases "?s = ?e") auto
    moreover from this have "last ops = ir_operations ir ! (?e - 1)"
      using ops by (simp add: last_conv_nth)
    ultimately show ?thesis
      using ops(5) upt by (simp add: terminates_at_def)
  qed
  ultimately show ?thesis
    using ids by blast
qed

lemma validate_control_sound:
  assumes "validate_control ir c = Some (Inr u)"
  shows "(\<exists>it. iter_outgoing ir c = Some it \<and> (\<forall>t \<in> set (outgoing_list it). t < length (ir_basic_blocks ir)))
    \<and> (\<forall>l \<in> control_condition c. l < ir_next_free_local_id ir)"
proof -
  have target: "validate_basic_block_id ir t v = Some (Inr w) \<longleftrightarrow> t < length (ir_basic_blocks ir)" for t v w
    by (auto simp: validate_basic_block_id_def get_at_def)
  show ?thesis
    using assms
    by (cases c)
      (auto simp: validate_control_def iter_outgoing_def outgoing_list_def control_condition_def try_bind_Inr bind_Some
        target fold_try_unit not_le split: option.splits if_splits)
qed

lemma validate_op_sound:
  assumes "validate_op ir b i spans = Some (Inr spans')"
  shows "legal_op ir i"
    and "\<exists>s. op_allocated_spans ir (ir_operations ir ! i) = Some s \<and> set spans \<subseteq> set spans'
      \<and> (\<forall>sp. as_input s = Some sp \<longrightarrow> \<lparr>ts_start = sp_start sp, ts_end = sp_end sp, ts_source = SrcOpInputs b i\<rparr> \<in> set spans')
      \<and> (\<forall>sp. as_output s = Some sp \<longrightarrow> \<lparr>ts_start = sp_start sp, ts_end = sp_end sp, ts_source = SrcOpOutputs b i\<rparr> \<in> set spans')"
proof -
  obtain ins outs s where i: "i < length (ir_operations ir)" and refs: "validate_op_refs ir (ir_operations ir ! i) = Some (Inr ())"
    and ins: "op_inputs ir (ir_operations ir ! i) = Some ins" and outs: "op_outputs ir (ir_operations ir ! i) = Some outs"
    and bound: "\<forall>l \<in> set ins \<union> set outs. l < ir_next_free_local_id ir"
    and s: "op_allocated_spans ir (ir_operations ir ! i) = Some s"
    and spans': "spans' = (let spans = (case as_input s of None \<Rightarrow> spans | Some sp \<Rightarrow>
          spans @ [\<lparr>ts_start = sp_start sp, ts_end = sp_end sp, ts_source = SrcOpInputs b i\<rparr>])
        in case as_output s of None \<Rightarrow> spans | Some sp \<Rightarrow>
          spans @ [\<lparr>ts_start = sp_start sp, ts_end = sp_end sp, ts_source = SrcOpOutputs b i\<rparr>])"
    using assms
    by (clarsimp simp: validate_op_def bind_Some try_bind_Inr iv_index_def get_at_Some fold_try_unit Let_def not_le) blast
  have "refs_exist ir (ir_operations ir ! i)"
    using refs by (auto simp: validate_op_refs_def refs_exist_def bind_Some get_at_def not_le split: op_data.splits if_splits)
  then show "legal_op ir i"
    using i ins outs bound by (auto simp: legal_op_def opview_inputs_def opview_outputs_def opview_op_def iv_index_def)
  show "\<exists>s. op_allocated_spans ir (ir_operations ir ! i) = Some s \<and> set spans \<subseteq> set spans'
      \<and> (\<forall>sp. as_input s = Some sp \<longrightarrow> \<lparr>ts_start = sp_start sp, ts_end = sp_end sp, ts_source = SrcOpInputs b i\<rparr> \<in> set spans')
      \<and> (\<forall>sp. as_output s = Some sp \<longrightarrow> \<lparr>ts_start = sp_start sp, ts_end = sp_end sp, ts_source = SrcOpOutputs b i\<rparr> \<in> set spans')"
    using s spans' by (auto simp: Let_def split: option.splits)
qed


section \<open>Spans\<close>

text \<open>The places that own a span of the locals or of the operations.\<close>

definition locals_span :: "eth_ir_program \<Rightarrow> span_source \<Rightarrow> span \<Rightarrow> bool" where
  "locals_span ir src sp \<longleftrightarrow>
     (case src of
        SrcInputs b \<Rightarrow> b < length (ir_basic_blocks ir) \<and> sp = bb_inputs (ir_basic_blocks ir ! b) \<and> \<not> span_is_empty sp
      | SrcOutputs b \<Rightarrow> b < length (ir_basic_blocks ir) \<and> sp = bb_outputs (ir_basic_blocks ir ! b) \<and> \<not> span_is_empty sp
      | SrcOpInputs b i \<Rightarrow> b < length (ir_basic_blocks ir) \<and> (\<exists>ids s. block_operations ir b = Some ids \<and> i \<in> set ids
          \<and> op_allocated_spans ir (ir_operations ir ! i) = Some s \<and> as_input s = Some sp)
      | SrcOpOutputs b i \<Rightarrow> b < length (ir_basic_blocks ir) \<and> (\<exists>ids s. block_operations ir b = Some ids \<and> i \<in> set ids
          \<and> op_allocated_spans ir (ir_operations ir ! i) = Some s \<and> as_output s = Some sp)
      | SrcOperations b \<Rightarrow> False)"

definition operations_span :: "eth_ir_program \<Rightarrow> span_source \<Rightarrow> span \<Rightarrow> bool" where
  "operations_span ir src sp \<longleftrightarrow>
     (\<exists>b < length (ir_basic_blocks ir). src = SrcOperations b \<and> sp = bb_operations (ir_basic_blocks ir ! b)
        \<and> \<not> span_is_empty sp)"

definition disjoint_spans :: "(span_source \<Rightarrow> span \<Rightarrow> bool) \<Rightarrow> bool" where
  "disjoint_spans P \<longleftrightarrow>
     (\<forall>a sp b sq. P a sp \<longrightarrow> P b sq \<longrightarrow> a \<noteq> b \<longrightarrow> sp_end sp \<le> sp_start sq \<or> sp_end sq \<le> sp_start sp)"

definition tracked :: "span \<Rightarrow> span_source \<Rightarrow> tracked_span" where
  "tracked sp src = \<lparr>ts_start = sp_start sp, ts_end = sp_end sp, ts_source = src\<rparr>"

lemma adjacent_sorted:
  assumes "sorted (map ts_start xs)" and "\<forall>(l, r) \<in> set (zip xs (tl xs)). ts_end l \<le> ts_start r"
  shows "sorted_wrt (\<lambda>l r. ts_end l \<le> ts_start r) xs"
  using assms
proof (induction xs)
  case (Cons x xs)
  show ?case
  proof (cases xs)
    case (Cons y ys)
    have "ts_end x \<le> ts_start y"
      using Cons.prems(2) Cons by simp
    moreover have "\<forall>z \<in> set xs. ts_start y \<le> ts_start z"
      using Cons.prems(1) Cons by auto
    moreover have "sorted_wrt (\<lambda>l r. ts_end l \<le> ts_start r) xs"
      using Cons.prems Cons by (intro Cons.IH) auto
    ultimately show ?thesis
      by (meson dual_order.trans sorted_wrt.simps(2))
  qed simp
qed simp

lemma validate_spans_sound:
  assumes "validate_spans spans m = Some (Inr spans')"
    and "tracked sp a \<in> set spans" "tracked sq b \<in> set spans" "a \<noteq> b"
  shows "sp_end sp \<le> sp_start sq \<or> sp_end sq \<le> sp_start sp"
proof -
  let ?xs = "sort_key (\<lambda>s. (ts_start s, ts_end s)) spans"
  have "sorted (map (\<lambda>s. (ts_start s, ts_end s)) ?xs)"
    by simp
  then have "sorted_wrt (\<lambda>x y. (ts_start x, ts_end x) \<le> (ts_start y, ts_end y)) ?xs"
    by (simp only: sorted_map)
  then have sorted: "sorted (map ts_start ?xs)"
    unfolding sorted_map by (rule sorted_wrt_mono_rel [rotated]) (auto simp: less_eq_prod_def)
  have "\<forall>(l, r) \<in> set (zip ?xs (tl ?xs)). ts_end l \<le> ts_start r"
    using assms(1) by (auto simp: validate_spans_def try_bind_Inr fold_try_unit Let_def not_less)
  from adjacent_sorted [OF sorted this]
  have wrt: "sorted_wrt (\<lambda>l r. ts_end l \<le> ts_start r) ?xs" .
  have "tracked sp a \<in> set ?xs" "tracked sq b \<in> set ?xs"
    using assms(2,3) by simp_all
  then obtain i j where ij: "i < length ?xs" "?xs ! i = tracked sp a" "j < length ?xs" "?xs ! j = tracked sq b"
    unfolding in_set_conv_nth by blast
  then have "i \<noteq> j"
    using assms(4) by (auto simp: tracked_def)
  then consider "i < j" | "j < i"
    by linarith
  then show ?thesis
    using sorted_wrt_nth_less [OF wrt] ij by cases (fastforce simp: tracked_def)+
qed

section \<open>All blocks\<close>

lemma track_set: "set (track sp src spans) = (if span_is_empty sp then {} else {tracked sp src}) \<union> set spans"
  by (auto simp: track_def tracked_def)

lemma validate_ops_sound:
  assumes "fold_try (validate_op ir b) ids spans = Some (Inr spans')"
  shows "set spans \<subseteq> set spans' \<and> (\<forall>i \<in> set ids. legal_op ir i
      \<and> (\<exists>s. op_allocated_spans ir (ir_operations ir ! i) = Some s
      \<and> (\<forall>sp. as_input s = Some sp \<longrightarrow> tracked sp (SrcOpInputs b i) \<in> set spans')
      \<and> (\<forall>sp. as_output s = Some sp \<longrightarrow> tracked sp (SrcOpOutputs b i) \<in> set spans')))"
  using assms
proof (induction ids arbitrary: spans)
  case (Cons i ids)
  then obtain u where u: "validate_op ir b i spans = Some (Inr u)" "fold_try (validate_op ir b) ids u = Some (Inr spans')"
    by (auto simp: try_bind_Inr)
  show ?case
    using Cons.IH [OF u(2)] validate_op_sound [OF u(1)] unfolding tracked_def by fastforce
qed simp

text \<open>What the block contributes to the lists of spans.\<close>

definition block_tracked :: "eth_ir_program \<Rightarrow> nat \<Rightarrow> legalizer \<Rightarrow> bool" where
  "block_tracked ir b lz \<longleftrightarrow>
     (\<forall>src sp. locals_span ir src sp \<longrightarrow> src \<in> {SrcInputs b, SrcOutputs b} \<union> range (SrcOpInputs b) \<union> range (SrcOpOutputs b)
        \<longrightarrow> tracked sp src \<in> set (lz_locals_spans lz))
     \<and> (\<forall>sp. operations_span ir (SrcOperations b) sp \<longrightarrow> tracked sp (SrcOperations b) \<in> set (lz_operations_spans lz))"

lemma validate_block_sound:
  assumes b: "b < length (ir_basic_blocks ir)" and ok: "validate_block ir (b, ir_basic_blocks ir ! b) lz = Some (Inr lz')"
  shows "legal_block ir b" and "block_tracked ir b lz'"
    and "set (lz_locals_spans lz) \<subseteq> set (lz_locals_spans lz')" "set (lz_operations_spans lz) \<subseteq> set (lz_operations_spans lz')"
    and "lz_block_owner lz' = lz_block_owner lz" "lz_call_edges lz' = lz_call_edges lz"
proof -
  let ?bb = "ir_basic_blocks ir ! b"
  let ?locals = "track (bb_outputs ?bb) (SrcOutputs b) (track (bb_inputs ?bb) (SrcInputs b) (lz_locals_spans lz))"
  have ends: "validate_block_terminators ir b ?bb = Some (Inr ())"
    and indices: "validate_block_indices ir b ?bb lz = Some (Inr lz')"
    using ok by (auto simp: validate_block_def try_bind_Inr)
  obtain ids where ids: "span_iter (bb_operations ?bb) = Some ids"
    and each: "\<forall>i \<in> set ids. i < length (ir_operations ir) \<and> (terminates_at ir i \<longrightarrow> i = last ids \<and> bb_control ?bb = LastOpTerminates)"
    and final: "bb_control ?bb = LastOpTerminates \<longrightarrow> ids \<noteq> [] \<and> terminates_at ir (last ids)"
    using validate_terminators_sound [OF ends] by blast
  obtain locals where control: "validate_control ir (bb_control ?bb) = Some (Inr ())"
    and ops: "fold_try (validate_op ir b) ids ?locals = Some (Inr locals)"
    and lz': "lz' = lz\<lparr>lz_locals_spans := locals, lz_operations_spans := track (bb_operations ?bb) (SrcOperations b) (lz_operations_spans lz)\<rparr>"
    using indices ids by (auto simp: validate_block_indices_def Let_def try_bind_Inr)
  obtain it where it: "iter_outgoing ir (bb_control ?bb) = Some it" "\<forall>t \<in> set (outgoing_list it). t < length (ir_basic_blocks ir)"
    "\<forall>l \<in> control_condition (bb_control ?bb). l < ir_next_free_local_id ir"
    using validate_control_sound [OF control] by blast
  have views: "block_control ir b = Some (bb_control ?bb)" "block_operations ir b = Some ids"
      "block_successors ir b = Some (outgoing_list it)"
    using b ids it(1) by (simp_all add: block_control_def block_operations_def block_successors_def iv_index_def)
  note O = validate_ops_sound [OF ops]
  show "legal_block ir b"
    using views it(2,3) each final O by (auto simp: legal_block_def)
  have in_locals: "tracked sp src \<in> set locals" if src: "locals_span ir src sp"
      "src \<in> {SrcInputs b, SrcOutputs b} \<union> range (SrcOpInputs b) \<union> range (SrcOpOutputs b)" for src sp
  proof -
    consider "src = SrcInputs b" | "src = SrcOutputs b" | i where "src = SrcOpInputs b i" | i where "src = SrcOpOutputs b i"
      using src(2) by blast
    then show ?thesis
      using src(1) O views(2) by cases (auto simp: locals_span_def track_set)
  qed
  then show "block_tracked ir b lz'"
    unfolding block_tracked_def lz' by (auto simp: operations_span_def track_set)
  show "set (lz_locals_spans lz) \<subseteq> set (lz_locals_spans lz')" "set (lz_operations_spans lz) \<subseteq> set (lz_operations_spans lz')"
      "lz_block_owner lz' = lz_block_owner lz" "lz_call_edges lz' = lz_call_edges lz"
    using O by (auto simp: lz' track_set)
qed

lemma enumerate_idx_SomeD:
  assumes "iv_enumerate_idx xs = Some ys"
  shows "ys = zip [0..<length xs] xs \<and> is_idx (length xs)"
proof -
  have "enumerate_from k xs = Some ys \<Longrightarrow> ys = zip [k..<k + length xs] xs \<and> (xs \<noteq> [] \<longrightarrow> is_idx (k + length xs))" for k
  proof (induction xs arbitrary: k ys)
    case (Cons x xs)
    then obtain rest where rest: "idx_add k 1 = Some (Suc k)" "enumerate_from (Suc k) xs = Some rest" "ys = (k, x) # rest"
      by (auto simp: bind_Some idx_add_Some)
    then show ?case
      using Cons.IH [OF rest(2)] by (cases xs) (auto simp: upt_conv_Cons idx_add_Some simp del: upt_Suc)
  qed simp
  from this [of 0] show ?thesis
    using assms by (cases xs) (auto simp: iv_enumerate_idx_def is_idx_def u32_max_def)
qed

lemma set_enumerate_idx:
  "iv_enumerate_idx xs = Some ys \<Longrightarrow> (i, x) \<in> set ys \<longleftrightarrow> i < length xs \<and> x = xs ! i"
  by (drule enumerate_idx_SomeD) (auto simp: set_zip intro!: exI [of _ i])

lemma validate_blocks_sound:
  assumes "validate_blocks ir lz = Some (Inr lz')"
  shows "is_idx (length (ir_basic_blocks ir))" "\<forall>b < length (ir_basic_blocks ir). legal_block ir b"
    and "disjoint_spans (locals_span ir)" "disjoint_spans (operations_span ir)"
    and "lz_block_owner lz' = lz_block_owner lz" "lz_call_edges lz' = lz_call_edges lz"
proof -
  let ?n = "length (ir_basic_blocks ir)"
  obtain mid blocks locals ops where blocks: "iv_enumerate_idx (ir_basic_blocks ir) = Some blocks"
    and run: "fold_try (validate_block ir) blocks lz = Some (Inr mid)"
    and spans: "validate_spans (lz_locals_spans mid) (length (ir_locals ir)) = Some (Inr locals)"
      "validate_spans (lz_operations_spans mid) (length (ir_operations ir)) = Some (Inr ops)"
    and lz': "lz' = mid\<lparr>lz_locals_spans := locals, lz_operations_spans := ops\<rparr>"
    using assms by (auto simp: validate_blocks_def bind_Some try_bind_Inr)
  note E = enumerate_idx_SomeD [OF blocks]
  let ?ok = "\<lambda>ys u. (\<forall>(b, bb) \<in> set ys. legal_block ir b \<and> block_tracked ir b u)
      \<and> lz_block_owner u = lz_block_owner lz \<and> lz_call_edges u = lz_call_edges lz"
  have "?ok blocks mid"
  proof (rule fold_try_invariant [OF run])
    fix ys x zs u v
    assume split: "blocks = ys @ x # zs" and u: "?ok ys u" and v: "validate_block ir x u = Some (Inr v)"
    obtain b bb where x: "x = (b, bb)" by force
    then have b: "b < ?n" "bb = ir_basic_blocks ir ! b"
      using set_enumerate_idx [OF blocks, of b bb] split by simp_all
    note V = validate_block_sound [OF b(1) v [unfolded x b(2)]]
    have "block_tracked ir c v" if "(c, cc) \<in> set ys" for c cc
      using u that V(3,4) unfolding block_tracked_def by blast
    then show "?ok (ys @ [x]) v"
      using u V(1,2,5,6) x by fastforce
  qed simp
  then have each: "\<And>b. b < ?n \<Longrightarrow> legal_block ir b \<and> block_tracked ir b mid"
      and keep: "lz_block_owner mid = lz_block_owner lz" "lz_call_edges mid = lz_call_edges lz"
    using set_enumerate_idx [OF blocks] by fastforce+
  show "is_idx ?n" "\<forall>b < ?n. legal_block ir b"
      "lz_block_owner lz' = lz_block_owner lz" "lz_call_edges lz' = lz_call_edges lz"
    using E each keep lz' by simp_all
  have "tracked sp src \<in> set (lz_locals_spans mid)" if "locals_span ir src sp" for src sp
  proof (cases src)
    case (SrcInputs b)
    then have "b < ?n"
      using that by (simp add: locals_span_def)
    then show ?thesis
      using that each [of b] SrcInputs unfolding block_tracked_def by blast
  next
    case (SrcOutputs b)
    then have "b < ?n"
      using that by (simp add: locals_span_def)
    then show ?thesis
      using that each [of b] SrcOutputs unfolding block_tracked_def by blast
  next
    case (SrcOpInputs b i)
    then have "b < ?n"
      using that by (simp add: locals_span_def)
    then show ?thesis
      using that each [of b] SrcOpInputs unfolding block_tracked_def by blast
  next
    case (SrcOpOutputs b i)
    then have "b < ?n"
      using that by (simp add: locals_span_def)
    then show ?thesis
      using that each [of b] SrcOpOutputs unfolding block_tracked_def by blast
  qed (use that in \<open>simp add: locals_span_def\<close>)
  then show "disjoint_spans (locals_span ir)"
    unfolding disjoint_spans_def using validate_spans_sound [OF spans(1)] by blast
  have "tracked sp src \<in> set (lz_operations_spans mid)" if "operations_span ir src sp" for src sp
    using that each unfolding block_tracked_def operations_span_def by blast
  then show "disjoint_spans (operations_span ir)"
    unfolding disjoint_spans_def using validate_spans_sound [OF spans(2)] by blast
qed


section \<open>Control flow\<close>

text \<open>What a visit establishes for the block of a function.\<close>

definition block_calls :: "eth_ir_program \<Rightarrow> nat \<Rightarrow> nat \<Rightarrow> bool" where
  "block_calls ir b g \<longleftrightarrow>
     (\<exists>ids. block_operations ir b = Some ids
        \<and> (\<exists>i \<in> set ids. \<exists>s e. op_payload (ir_operations ir ! i) = InternalCallData g s e))"

definition call_fits :: "eth_ir_program \<Rightarrow> nat \<Rightarrow> bool" where
  "call_fits ir i \<longleftrightarrow>
     (\<forall>g s e. op_payload (ir_operations ir ! i) = InternalCallData g s e
        \<longrightarrow> (\<exists>n. function_num_inputs ir g = Some n \<and> idx_sub_idx e s = Some n))"

definition call_recorded :: "eth_ir_program \<Rightarrow> nat \<Rightarrow> nat \<Rightarrow> legalizer \<Rightarrow> bool" where
  "call_recorded ir f i lz \<longleftrightarrow>
     (\<forall>g s e. op_payload (ir_operations ir ! i) = InternalCallData g s e \<longrightarrow> (f, g) \<in> set (lz_call_edges lz))"

definition calls_fit :: "eth_ir_program \<Rightarrow> nat \<Rightarrow> bool" where
  "calls_fit ir b \<longleftrightarrow> (\<forall>ids. block_operations ir b = Some ids \<longrightarrow> (\<forall>i \<in> set ids. call_fits ir i))"

definition edges_fit :: "eth_ir_program \<Rightarrow> nat \<Rightarrow> bool" where
  "edges_fit ir b \<longleftrightarrow>
     (\<forall>t. edge ir b t \<longrightarrow> t < length (ir_basic_blocks ir)
        \<and> span_len (bb_outputs (ir_basic_blocks ir ! b)) = span_len (bb_inputs (ir_basic_blocks ir ! t))
        \<and> span_len (bb_outputs (ir_basic_blocks ir ! b)) \<noteq> None)"

definition return_fits :: "eth_ir_program \<Rightarrow> nat \<Rightarrow> nat \<Rightarrow> bool" where
  "return_fits ir f b \<longleftrightarrow>
     (bb_control (ir_basic_blocks ir ! b) = InternalReturn
        \<longrightarrow> span_len (bb_outputs (ir_basic_blocks ir ! b)) = Some (fn_outputs (ir_functions ir ! f)))"

definition block_fits :: "eth_ir_program \<Rightarrow> nat \<Rightarrow> nat \<Rightarrow> legalizer \<Rightarrow> bool" where
  "block_fits ir f b lz \<longleftrightarrow>
     b < length (ir_basic_blocks ir) \<and> lz_block_owner lz ! b = Some f
     \<and> return_fits ir f b \<and> calls_fit ir b \<and> (\<forall>g. block_calls ir b g \<longrightarrow> (f, g) \<in> set (lz_call_edges lz))"

lemma call_recorded_mono:
  "call_recorded ir f i lz \<Longrightarrow> set (lz_call_edges lz) \<subseteq> set (lz_call_edges lz') \<Longrightarrow> call_recorded ir f i lz'"
  unfolding call_recorded_def by blast

lemma validate_call_sound:
  assumes "validate_call ir f i lz = Some (Inr u)"
  shows "lz_block_owner u = lz_block_owner lz" "set (lz_call_edges lz) \<subseteq> set (lz_call_edges u)"
    "call_fits ir i" "call_recorded ir f i u"
  using assms
  by (auto simp: validate_call_def bind_Some iv_index_def get_at_Some function_num_inputs_def call_fits_def
      call_recorded_def split: op_data.splits if_splits)

lemma validate_calls_sound:
  assumes "fold_try (validate_call ir f) ids lz = Some (Inr lz')"
  shows "lz_block_owner lz' = lz_block_owner lz \<and> set (lz_call_edges lz) \<subseteq> set (lz_call_edges lz')
    \<and> (\<forall>i \<in> set ids. call_fits ir i \<and> call_recorded ir f i lz')"
  using assms
proof (induction ids arbitrary: lz)
  case (Cons i ids)
  then obtain u where u: "validate_call ir f i lz = Some (Inr u)" "fold_try (validate_call ir f) ids u = Some (Inr lz')"
    by (auto simp: try_bind_Inr)
  show ?case
    using Cons.IH [OF u(2)] validate_call_sound [OF u(1)] call_recorded_mono [of ir f i u lz'] by auto
qed simp

lemma enter_block_sound:
  assumes "enter_block ir f b lz = Some (Inr lz')" and n: "length (lz_block_owner lz) = length (ir_basic_blocks ir)"
  shows "block_fits ir f b lz'" and "lz_block_owner lz ! b = None"
    and "lz_block_owner lz' = (lz_block_owner lz)[b := Some f]"
    and "set (lz_call_edges lz) \<subseteq> set (lz_call_edges lz')"
proof -
  let ?bb = "ir_basic_blocks ir ! b"
  obtain ids where b: "b < length (ir_basic_blocks ir)" "lz_block_owner lz ! b = None"
    and ids: "span_iter (bb_operations ?bb) = Some ids"
    and calls: "fold_try (validate_call ir f) ids (lz\<lparr>lz_block_owner := (lz_block_owner lz)[b := Some f]\<rparr>) = Some (Inr lz')"
    and wrong: "return_fits ir f b"
    using assms
    by (auto simp: enter_block_def bind_Some try_bind_Inr iv_index_def iv_set_def get_at_Some set_at_Some return_fits_def
        function_num_outputs_def split: option.splits if_splits)
  note V = validate_calls_sound [OF calls]
  have ops: "block_operations ir b = Some ids"
    using b(1) ids by (simp add: block_operations_def iv_index_def)
  show "lz_block_owner lz ! b = None" "lz_block_owner lz' = (lz_block_owner lz)[b := Some f]"
      "set (lz_call_edges lz) \<subseteq> set (lz_call_edges lz')"
    using b(2) V by simp_all
  have "calls_fit ir b" "\<forall>g. block_calls ir b g \<longrightarrow> (f, g) \<in> set (lz_call_edges lz')"
    using V ops by (auto simp: calls_fit_def block_calls_def call_recorded_def)
  then show "block_fits ir f b lz'"
    using b(1) wrong V n by (simp add: block_fits_def)
qed

text \<open>The blocks that a visit adds to the visited set \<open>V\<close>.\<close>

definition visited_ok :: "eth_ir_program \<Rightarrow> nat \<Rightarrow> nat set \<times> legalizer \<Rightarrow> nat set \<times> legalizer \<Rightarrow> bool" where
  "visited_ok ir f = (\<lambda>(V, lz) (V', lz').
     V \<subseteq> V' \<and> length (lz_block_owner lz') = length (lz_block_owner lz)
     \<and> set (lz_call_edges lz) \<subseteq> set (lz_call_edges lz')
     \<and> (\<forall>x \<in> V' - V. block_fits ir f x lz' \<and> lz_block_owner lz ! x = None \<and> edges_fit ir x \<and> (\<forall>t. edge ir x t \<longrightarrow> t \<in> V'))
     \<and> (\<forall>x. x \<notin> V' - V \<longrightarrow> lz_block_owner lz' ! x = lz_block_owner lz ! x))"

lemma visited_okI:
  assumes "V \<subseteq> V'" "length (lz_block_owner lz') = length (lz_block_owner lz)"
    and "set (lz_call_edges lz) \<subseteq> set (lz_call_edges lz')"
    and "\<And>x. x \<in> V' - V \<Longrightarrow> block_fits ir f x lz' \<and> lz_block_owner lz ! x = None \<and> edges_fit ir x \<and> (\<forall>t. edge ir x t \<longrightarrow> t \<in> V')"
    and "\<And>x. x \<notin> V' - V \<Longrightarrow> lz_block_owner lz' ! x = lz_block_owner lz ! x"
  shows "visited_ok ir f (V, lz) (V', lz')"
  using assms by (simp add: visited_ok_def)

lemma visited_okD:
  assumes "visited_ok ir f (V, lz) (V', lz')"
  shows "V \<subseteq> V'" "length (lz_block_owner lz') = length (lz_block_owner lz)"
    and "set (lz_call_edges lz) \<subseteq> set (lz_call_edges lz')"
    and "x \<in> V' - V \<Longrightarrow> block_fits ir f x lz' \<and> lz_block_owner lz ! x = None \<and> edges_fit ir x \<and> (\<forall>t. edge ir x t \<longrightarrow> t \<in> V')"
    and "x \<notin> V' - V \<Longrightarrow> lz_block_owner lz' ! x = lz_block_owner lz ! x"
  using assms by (simp_all add: visited_ok_def)

lemma visited_ok_refl: "visited_ok ir f s s"
  by (auto simp: visited_ok_def)

lemma visited_ok_trans:
  assumes "visited_ok ir f s t" and "visited_ok ir f t u"
  shows "visited_ok ir f s u"
proof -
  obtain V lz V1 lz1 V2 lz2 where s: "s = (V, lz)" "t = (V1, lz1)" "u = (V2, lz2)"
    by (metis surj_pair)
  note D1 = visited_okD [OF assms(1) [unfolded s]] and D2 = visited_okD [OF assms(2) [unfolded s]]
  show ?thesis
    unfolding s
  proof (rule visited_okI)
    show "V \<subseteq> V2" "length (lz_block_owner lz2) = length (lz_block_owner lz)"
        "set (lz_call_edges lz) \<subseteq> set (lz_call_edges lz2)"
      using D1(1-3) D2(1-3) by auto
  next
    fix x
    assume x: "x \<notin> V2 - V"
    then have "x \<notin> V1 - V" "x \<notin> V2 - V1"
      using D1(1) D2(1) by auto
    then show "lz_block_owner lz2 ! x = lz_block_owner lz ! x"
      using D1(5) [of x] D2(5) [of x] by simp
  next
    fix x
    assume x: "x \<in> V2 - V"
    show "block_fits ir f x lz2 \<and> lz_block_owner lz ! x = None \<and> edges_fit ir x \<and> (\<forall>t. edge ir x t \<longrightarrow> t \<in> V2)"
    proof (cases "x \<in> V1")
      case True
      then have "block_fits ir f x lz1 \<and> lz_block_owner lz ! x = None \<and> edges_fit ir x \<and> (\<forall>t. edge ir x t \<longrightarrow> t \<in> V1)"
        using D1(4) [of x] x by blast
      moreover have "lz_block_owner lz2 ! x = lz_block_owner lz1 ! x"
        using True by (intro D2(5)) simp
      ultimately show ?thesis
        using D2(1,3) by (auto simp: block_fits_def)
    next
      case False
      then show ?thesis
        using D2(4) [of x] D1(5) [of x] x by auto
    qed
  qed
qed

text \<open>A visited successor over a compatible edge.\<close>

definition edge_done :: "eth_ir_program \<Rightarrow> nat \<Rightarrow> nat set \<times> legalizer \<Rightarrow> nat \<Rightarrow> bool" where
  "edge_done ir b s t \<longleftrightarrow> t \<in> fst s \<and> validate_edge ir b t = Some (Inr ())"

lemma edge_done_mono: "edge_done ir b u t \<Longrightarrow> visited_ok ir f u v \<Longrightarrow> edge_done ir b v t"
  by (auto simp: edge_done_def visited_ok_def)

lemma visit_block_sound:
  assumes "visit_block fuel ir f b (V, lz) = Some (Inr s)" and "length (lz_block_owner lz) = length (ir_basic_blocks ir)"
  shows "visited_ok ir f (V, lz) s \<and> b \<in> fst s"
  using assms
proof (induction fuel arbitrary: b V lz s)
  case (Suc fuel)
  show ?case
  proof (cases "b \<in> V")
    case False
    let ?step = "\<lambda>succ s. try_bind (validate_edge ir b succ) (\<lambda>_. visit_block fuel ir f succ s)"
    obtain mid succs where mid: "enter_block ir f b lz = Some (Inr mid)" and succs: "block_successors ir b = Some succs"
      and run: "fold_try ?step succs (insert b V, mid) = Some (Inr s)"
      using Suc.prems(1) False by (auto simp: try_bind_Inr bind_Some)
    note E = enter_block_sound [OF mid Suc.prems(2)]
    have len: "length (lz_block_owner mid) = length (ir_basic_blocks ir)"
      using E(3) Suc.prems(2) by simp
    have bn: "b < length (ir_basic_blocks ir)"
      using E(1) by (simp add: block_fits_def)
    have "visited_ok ir f (insert b V, mid) s \<and> (\<forall>t \<in> set succs. edge_done ir b s t)"
    proof (rule fold_try_invariant [OF run])
      fix ys x zs u v
      assume u: "visited_ok ir f (insert b V, mid) u \<and> (\<forall>t \<in> set ys. edge_done ir b u t)"
        and v: "?step x u = Some (Inr v)"
      then have e: "validate_edge ir b x = Some (Inr ())" and visit: "visit_block fuel ir f x (fst u, snd u) = Some (Inr v)"
        by (auto simp: try_bind_Inr)
      have "length (lz_block_owner (snd u)) = length (ir_basic_blocks ir)"
        using u len by (cases u) (simp add: visited_ok_def)
      then have "visited_ok ir f u v \<and> x \<in> fst v"
        using Suc.IH [OF visit] by simp
      then show "visited_ok ir f (insert b V, mid) v \<and> (\<forall>t \<in> set (ys @ [x]). edge_done ir b v t)"
        using u e visited_ok_trans [of ir f "(insert b V, mid)" u v] edge_done_mono [of ir b u _ f v]
        by (auto simp: edge_done_def [of ir b v x])
    qed (simp add: visited_ok_refl)
    then have rest: "visited_ok ir f (insert b V, mid) s" and edges: "\<forall>t \<in> set succs. edge_done ir b s t"
      by simp_all
    have "edges_fit ir b"
      using edges succs unfolding edges_fit_def
      by (fastforce simp: edge_def edge_done_def validate_edge_def bind_Some iv_index_def get_at_Some)
    obtain V' lz' where s: "s = (V', lz')" by force
    have fits: "block_fits ir f b lz'"
      using rest E(1) by (auto simp: s visited_ok_def block_fits_def)
    have closed: "\<forall>t. edge ir b t \<longrightarrow> t \<in> V'"
      using edges succs s by (simp add: edge_def edge_done_def)
    note D = visited_okD [OF rest [unfolded s]]
    have "visited_ok ir f (V, lz) (V', lz')"
    proof (rule visited_okI)
      show "V \<subseteq> V'" "length (lz_block_owner lz') = length (lz_block_owner lz)"
          "set (lz_call_edges lz) \<subseteq> set (lz_call_edges lz')"
        using D(1-3) E(3,4) by auto
    next
      fix x
      assume x: "x \<notin> V' - V"
      then have "x \<noteq> b"
        using D(1) False by auto
      then show "lz_block_owner lz' ! x = lz_block_owner lz ! x"
        using D(5) [of x] x E(3) by simp
    next
      fix x
      assume x: "x \<in> V' - V"
      show "block_fits ir f x lz' \<and> lz_block_owner lz ! x = None \<and> edges_fit ir x \<and> (\<forall>t. edge ir x t \<longrightarrow> t \<in> V')"
      proof (cases "x = b")
        case True
        then show ?thesis
          using fits closed E(2) \<open>edges_fit ir b\<close> by blast
      next
        case False
        then show ?thesis
          using D(4) [of x] x E(3) by simp
      qed
    qed
    moreover have "b \<in> V'"
      using D(1) by blast
    ultimately show ?thesis
      by (simp add: s)
  qed (use Suc.prems in \<open>auto simp: visited_ok_refl\<close>)
qed simp


text \<open>What all visits establish: a block that a function reaches belongs to it.\<close>

definition region_fits :: "eth_ir_program \<Rightarrow> nat \<Rightarrow> nat \<Rightarrow> legalizer \<Rightarrow> bool" where
  "region_fits ir f e lz \<longleftrightarrow> (\<forall>b. reaches ir e b \<longrightarrow> block_fits ir f b lz \<and> edges_fit ir b)"

lemma visit_function_sound:
  assumes "visit_block fuel ir f e ({}, lz) = Some (Inr (V, lz'))" and "length (lz_block_owner lz) = length (ir_basic_blocks ir)"
  shows "region_fits ir f e lz'" and "length (lz_block_owner lz') = length (ir_basic_blocks ir)"
    and "region_fits ir g e' lz \<Longrightarrow> region_fits ir g e' lz'"
proof -
  have ok: "visited_ok ir f ({}, lz) (V, lz')" and e: "e \<in> V"
    using visit_block_sound [OF assms] by simp_all
  note D = visited_okD [OF ok]
  have "b \<in> V" if "reaches ir e b" for b
    using that unfolding reaches_def
  proof (induction rule: rtranclp_induct)
    case (step y z)
    then show ?case
      using D(4) [of y] by simp
  qed (rule e)
  then show "region_fits ir f e lz'"
    using D(4) by (auto simp: region_fits_def)
  show "length (lz_block_owner lz') = length (ir_basic_blocks ir)"
    using D(2) assms(2) by simp
  show "region_fits ir g e' lz'" if "region_fits ir g e' lz"
    unfolding region_fits_def
  proof (intro allI impI)
    fix b
    assume "reaches ir e' b"
    then have b: "block_fits ir g b lz" "edges_fit ir b"
      using that by (simp_all add: region_fits_def)
    then have "b \<notin> V"
      using D(4) [of b] by (auto simp: block_fits_def)
    then show "block_fits ir g b lz' \<and> edges_fit ir b"
      using b D(5) [of b] D(3) by (auto simp: block_fits_def)
  qed
qed

section \<open>The call graph\<close>

text \<open>
  The walk over the calls: functions that are done have all their callees done, and none of them can
  reach itself.
\<close>

definition call_rel :: "nat list list \<Rightarrow> nat \<Rightarrow> nat \<Rightarrow> bool" where
  "call_rel callees f g \<longleftrightarrow> f < length callees \<and> g \<in> set (callees ! f)"

definition is_done :: "visit_state list \<Rightarrow> nat \<Rightarrow> bool" where
  "is_done st f \<longleftrightarrow> f < length st \<and> st ! f = Done"

definition cyclic :: "(nat \<Rightarrow> nat \<Rightarrow> bool) \<Rightarrow> nat \<Rightarrow> bool" where
  "cyclic r f \<longleftrightarrow> r\<^sup>+\<^sup>+ f f"

lemma cyclic_mono:
  assumes "cyclic r f" and mono: "\<And>x y. r x y \<Longrightarrow> s x y"
  shows "cyclic s f"
proof -
  have "s\<^sup>+\<^sup>+ x y" if "r\<^sup>+\<^sup>+ x y" for x y
    using that by (induction rule: tranclp_induct) (blast intro: tranclp.intros mono)+
  then show ?thesis
    using assms(1) unfolding cyclic_def by blast
qed

definition done_ok :: "nat list list \<Rightarrow> visit_state list \<Rightarrow> bool" where
  "done_ok callees st \<longleftrightarrow> length st = length callees
     \<and> (\<forall>f g. is_done st f \<longrightarrow> call_rel callees f g \<longrightarrow> is_done st g)
     \<and> (\<forall>f. is_done st f \<longrightarrow> \<not> cyclic (call_rel callees) f)"

definition extends_done :: "visit_state list \<Rightarrow> visit_state list \<Rightarrow> bool" where
  "extends_done st st' \<longleftrightarrow> length st' = length st
     \<and> (\<forall>f. is_done st f \<longrightarrow> is_done st' f)
     \<and> (\<forall>f < length st. st ! f = InProgress \<longleftrightarrow> st' ! f = InProgress)"

lemma done_reach:
  assumes "done_ok callees st" and "(call_rel callees)\<^sup>*\<^sup>* f g" and "is_done st f"
  shows "is_done st g"
  using assms(2,3)
proof (induction rule: rtranclp_induct)
  case (step y z)
  then show ?case
    using assms(1) unfolding done_ok_def by blast
qed simp

lemma is_done_update: "is_done (st[f := s]) g \<longleftrightarrow> (if g = f \<and> f < length st then s = Done else is_done st g)"
  by (auto simp: is_done_def nth_list_update)

lemma extends_done_trans: "extends_done s t \<Longrightarrow> extends_done t u \<Longrightarrow> extends_done s u"
  by (simp add: extends_done_def)

lemma done_ok_start:
  assumes "done_ok callees st" and "\<not> is_done st f"
  shows "done_ok callees (st[f := InProgress])"
proof -
  have "is_done (st[f := InProgress]) = is_done st"
    using assms(2) by (auto simp: fun_eq_iff is_done_update)
  then show ?thesis
    using assms(1) by (simp add: done_ok_def)
qed

lemma done_ok_finish:
  assumes "done_ok callees st" and "f < length st" "st ! f = InProgress" and "\<forall>g \<in> set (callees ! f). is_done st g"
  shows "done_ok callees (st[f := Done])"
proof -
  have "\<not> cyclic (call_rel callees) f"
  proof
    assume "cyclic (call_rel callees) f"
    then obtain g where g: "call_rel callees f g" "(call_rel callees)\<^sup>*\<^sup>* g f"
      unfolding cyclic_def by (meson tranclpD)
    then have "is_done st f"
      using done_reach [OF assms(1) g(2)] assms(4) by (simp add: call_rel_def)
    then show False
      using assms(3) by (simp add: is_done_def)
  qed
  moreover have "is_done (st[f := Done]) h" if "call_rel callees g h" "is_done (st[f := Done]) g" for g h
    using that assms(1,4) unfolding is_done_update done_ok_def by (auto simp: call_rel_def split: if_splits)
  ultimately show ?thesis
    using assms(1) unfolding done_ok_def is_done_update by (simp split: if_splits)
qed

definition cycle_step :: "nat \<Rightarrow> nat list list \<Rightarrow> nat \<Rightarrow> nat \<Rightarrow> visit_state list \<Rightarrow> visit_state list legal_panics" where
  "cycle_step fuel callees f callee state = do { st \<leftarrow> iv_index state callee;
                   case st of
                     InProgress \<Rightarrow> Some (Inl (RecursiveCall f callee))
                   | Unvisited \<Rightarrow> detect_cycle fuel callees callee state
                   | Done \<Rightarrow> Some (Inr state) }"

lemma detect_cycle_sound:
  assumes "detect_cycle fuel callees f st = Some (Inr st')" and "done_ok callees st" and "st ! f = Unvisited"
  shows "done_ok callees st' \<and> extends_done st st' \<and> is_done st' f"
  using assms
proof (induction fuel arbitrary: f st st')
  case (Suc fuel)
  let ?start = "st[f := InProgress]"
  obtain mid where f: "f < length st" and run: "fold_try (cycle_step fuel callees f) (callees ! f) ?start = Some (Inr mid)"
    and st': "st' = mid[f := Done]" "f < length mid"
    using Suc.prems(1)
    by (auto simp: bind_Some try_bind_Inr iv_set_def iv_index_def get_at_Some set_at_Some cycle_step_def [abs_def])
  have new: "\<not> is_done st f"
    using Suc.prems(3) by (simp add: is_done_def)
  have "done_ok callees mid \<and> extends_done ?start mid \<and> (\<forall>g \<in> set (callees ! f). is_done mid g)"
  proof (rule fold_try_invariant [OF run])
    show "done_ok callees ?start \<and> extends_done ?start ?start \<and> (\<forall>g \<in> set []. is_done ?start g)"
      using done_ok_start [OF Suc.prems(2) new] by (simp add: extends_done_def)
  next
    fix ys x zs u v
    assume u: "done_ok callees u \<and> extends_done ?start u \<and> (\<forall>g \<in> set ys. is_done u g)"
      and v: "cycle_step fuel callees f x u = Some (Inr v)"
    from v consider "is_done u x" "v = u" | "u ! x = Unvisited" "detect_cycle fuel callees x u = Some (Inr v)"
      by (auto simp: cycle_step_def is_done_def bind_Some iv_index_def get_at_Some split: visit_state.splits)
    then show "done_ok callees v \<and> extends_done ?start v \<and> (\<forall>g \<in> set (ys @ [x]). is_done v g)"
    proof cases
      case 2
      then have "done_ok callees v \<and> extends_done u v \<and> is_done v x"
        using Suc.IH u by simp
      then show ?thesis
        using u extends_done_trans [of ?start u v] unfolding extends_done_def by auto
    qed (use u in auto)
  qed
  then have mid: "done_ok callees mid" "extends_done ?start mid" "\<forall>g \<in> set (callees ! f). is_done mid g"
    by simp_all
  have in_progress: "mid ! f = InProgress"
    using mid(2) f unfolding extends_done_def by auto
  have "done_ok callees st'"
    using done_ok_finish [OF mid(1) st'(2) in_progress mid(3)] st'(1) by simp
  moreover have "extends_done st st'"
    unfolding extends_done_def
  proof (intro conjI allI impI)
    show "length st' = length st"
      using mid(2) st' by (simp add: extends_done_def)
    fix g
    show "is_done st g \<Longrightarrow> is_done st' g"
      using mid(2) new unfolding st' extends_done_def is_done_update by (auto split: if_splits)
    show "st ! g = InProgress \<longleftrightarrow> st' ! g = InProgress" if "g < length st"
      using mid(2) that Suc.prems(3) unfolding st' extends_done_def by (cases "g = f") auto
  qed
  ultimately show ?case
    using st' by (simp add: is_done_update)
qed simp

lemma collect_callees_spec:
  assumes "collect_callees n es = Some callees"
  shows "length callees = n \<and> (\<forall>(f, g) \<in> set es. f < n \<and> g \<in> set (callees ! f))"
  using assms
proof (induction es arbitrary: callees rule: rev_induct)
  case (snoc e es)
  obtain f g where e: "e = (f, g)" by force
  obtain mid where mid: "collect_callees n es = Some mid" and f: "f < length mid" "callees = mid[f := mid ! f @ [g]]"
    using snoc.prems by (auto simp: collect_callees_def e bind_Some iv_index_def iv_set_def get_at_Some set_at_Some)
  then show ?case
    using snoc.IH [OF mid] by (auto simp: e nth_list_update)
qed (simp add: collect_callees_def)

lemma validate_call_graph_sound:
  assumes "validate_call_graph fuel ir es = Some (Inr u)"
  shows "\<not> cyclic (\<lambda>f g. (f, g) \<in> set es) f"
proof -
  let ?n = "length (ir_functions ir)"
  let ?step = "\<lambda>callees f state. do { st \<leftarrow> iv_index state f;
                   if st = Unvisited then detect_cycle fuel callees f state else Some (Inr state) }"
  obtain callees fs st where callees: "collect_callees ?n es = Some callees" and fs: "iv_iter_idx (ir_functions ir) = Some fs"
    and run: "fold_try (?step callees) fs (replicate ?n Unvisited) = Some (Inr st)"
    using assms by (auto simp: validate_call_graph_def bind_Some try_bind_Inr)
  note C = collect_callees_spec [OF callees]
  let ?none = "\<lambda>u. \<forall>f < length u. u ! f \<noteq> InProgress"
  have fresh: "\<not> is_done (replicate ?n Unvisited) f" for f
    by (auto simp: is_done_def)
  have "done_ok callees st \<and> ?none st \<and> (\<forall>f \<in> set fs. is_done st f)"
  proof (rule fold_try_invariant [OF run])
    show "done_ok callees (replicate ?n Unvisited) \<and> ?none (replicate ?n Unvisited) \<and> (\<forall>f \<in> set []. is_done (replicate ?n Unvisited) f)"
      using C fresh by (auto simp: done_ok_def)
  next
    fix ys x zs u v
    assume u: "done_ok callees u \<and> ?none u \<and> (\<forall>f \<in> set ys. is_done u f)"
      and v: "?step callees x u = Some (Inr v)"
    have x: "x < length u" "u ! x = Unvisited \<and> detect_cycle fuel callees x u = Some (Inr v) \<or> u ! x \<noteq> Unvisited \<and> v = u"
      using v by (auto simp: bind_Some iv_index_def get_at_Some split: if_splits)
    moreover have "u ! x \<noteq> InProgress"
      using u x(1) by blast
    ultimately consider "is_done u x" "v = u" | "u ! x = Unvisited" "detect_cycle fuel callees x u = Some (Inr v)"
      by (cases "u ! x") (auto simp: is_done_def)
    then show "done_ok callees v \<and> ?none v \<and> (\<forall>f \<in> set (ys @ [x]). is_done v f)"
    proof cases
      case 2
      then have "done_ok callees v \<and> extends_done u v \<and> is_done v x"
        using detect_cycle_sound u by blast
      then show ?thesis
        using u unfolding extends_done_def by auto
    qed (use u in auto)
  qed
  then have st: "done_ok callees st" "\<forall>f \<in> set fs. is_done st f"
    by simp_all
  have "set fs = {..<?n}"
    using fs by (auto simp: iv_iter_idx_def bind_Some iv_next_idx_Some span_new_def dest!: span_iter_SomeD)
  then have acyclic: "\<not> cyclic (call_rel callees) f" if "f < ?n" for f
    using st that unfolding done_ok_def by blast
  show ?thesis
  proof
    assume cycle: "cyclic (\<lambda>f g. (f, g) \<in> set es) f"
    then have "cyclic (call_rel callees) f"
      by (rule cyclic_mono) (use C in \<open>auto simp: call_rel_def\<close>)
    moreover have "f < ?n"
      using tranclpD [OF cycle [unfolded cyclic_def]] C by auto
    ultimately show False
      using acyclic by blast
  qed
qed


definition calls :: "eth_ir_program \<Rightarrow> nat \<Rightarrow> nat \<Rightarrow> bool" where
  "calls ir f g \<longleftrightarrow> f < length (ir_functions ir) \<and> (\<exists>b. reaches ir (entry_of ir f) b \<and> block_calls ir b g)"

definition legal_cfg :: "eth_ir_program \<Rightarrow> bool" where
  "legal_cfg ir \<longleftrightarrow>
     (\<forall>f < length (ir_functions ir). \<forall>b. reaches ir (entry_of ir f) b \<longrightarrow>
        b < length (ir_basic_blocks ir) \<and> edges_fit ir b \<and> calls_fit ir b \<and> return_fits ir f b
        \<and> (\<forall>g < length (ir_functions ir). reaches ir (entry_of ir g) b \<longrightarrow> g = f))
     \<and> (\<forall>f. \<not> cyclic (calls ir) f)"

lemma validate_cfg_sound:
  assumes "validate_cfg fuel ir lz = Some (Inr lz')" and "length (lz_block_owner lz) = length (ir_basic_blocks ir)"
  shows "legal_cfg ir" and "is_idx (length (ir_functions ir))"
proof -
  let ?n = "length (ir_functions ir)"
  let ?visit = "\<lambda>(f, fn :: ir_function) lz. try_bind (visit_block fuel ir f (fn_entry fn) ({}, lz)) (\<lambda>s. Some (Inr (snd s)))"
  obtain fns mid where fns: "iv_enumerate_idx (ir_functions ir) = Some fns"
    and run: "fold_try ?visit fns lz = Some (Inr mid)"
    and calls: "validate_call_graph fuel ir (lz_call_edges mid) = Some (Inr ())"
    using assms(1) by (auto simp: validate_cfg_def bind_Some try_bind_Inr)
  let ?ok = "\<lambda>ys u. length (lz_block_owner u) = length (ir_basic_blocks ir) \<and> (\<forall>(f, fn :: ir_function) \<in> set ys. region_fits ir f (fn_entry fn) u)"
  have "?ok fns mid"
  proof (rule fold_try_invariant [OF run])
    fix ys x zs u v
    assume u: "?ok ys u" and v: "?visit x u = Some (Inr v)"
    obtain f fn where x: "x = (f, fn)" by force
    then obtain V where "visit_block fuel ir f (fn_entry fn) ({}, u) = Some (Inr (V, v))"
      using v by (auto simp: try_bind_Inr)
    note S = visit_function_sound [OF this]
    show "?ok (ys @ [x]) v"
      using S u x by auto
  qed (use assms(2) in simp)
  then have fits: "region_fits ir f (entry_of ir f) mid" if "f < ?n" for f
    using set_enumerate_idx [OF fns, of f "ir_functions ir ! f"] that unfolding entry_of_def by fastforce
  have fit: "block_fits ir f b mid \<and> edges_fit ir b" if "f < ?n" "reaches ir (entry_of ir f) b" for f b
    using fits that by (simp add: region_fits_def)
  have edges: "(f, g) \<in> set (lz_call_edges mid)" if "calls ir f g" for f g
    using that fit unfolding calls_def block_fits_def by blast
  have "\<not> cyclic (calls ir) f" for f
  proof
    assume "cyclic (calls ir) f"
    then have "cyclic (\<lambda>f g. (f, g) \<in> set (lz_call_edges mid)) f"
      by (rule cyclic_mono) (rule edges)
    then show False
      using validate_call_graph_sound [OF calls] by blast
  qed
  moreover have "g = f" if "f < ?n" "g < ?n" "reaches ir (entry_of ir f) b" "reaches ir (entry_of ir g) b" for f g b
    using fit [OF that(1,3)] fit [OF that(2,4)] by (simp add: block_fits_def)
  ultimately show "legal_cfg ir"
    using fit unfolding legal_cfg_def block_fits_def by blast
  show "is_idx ?n"
    using enumerate_idx_SomeD [OF fns] by simp
qed

section \<open>Definitions\<close>

text \<open>The locals that a block defines, up to one of its operations and in all.\<close>

definition op_defs :: "eth_ir_program \<Rightarrow> nat \<Rightarrow> nat list" where
  "op_defs ir i = the (opview_outputs ir i)"

definition defs_before :: "eth_ir_program \<Rightarrow> nat \<Rightarrow> nat \<Rightarrow> nat list" where
  "defs_before ir b k = the (block_inputs ir b) @ concat (map (op_defs ir) (take k (the (block_operations ir b))))"

definition block_defs :: "eth_ir_program \<Rightarrow> nat \<Rightarrow> nat list" where
  "block_defs ir b = the (block_inputs ir b) @ concat (map (op_defs ir) (the (block_operations ir b)))"

definition legal_defs :: "eth_ir_program \<Rightarrow> bool" where
  "legal_defs ir \<longleftrightarrow>
     (\<forall>b < length (ir_basic_blocks ir). block_inputs ir b \<noteq> None \<and> block_operations ir b \<noteq> None
        \<and> (\<forall>i \<in> set (the (block_operations ir b)). opview_outputs ir i \<noteq> None))
     \<and> distinct (concat (map (block_defs ir) [0..<length (ir_basic_blocks ir)]))"

lemma add_defs_sound:
  assumes "fold_try add_def ls D = Some (Inr D')"
  shows "D' = D \<union> set ls \<and> distinct ls \<and> D \<inter> set ls = {}"
  using assms by (induction ls arbitrary: D) (fastforce simp: try_bind_Inr add_def_def split: if_splits)+

lemma define_ops_sound:
  assumes "fold_try (\<lambda>i defs. do { op \<leftarrow> iv_index (ir_operations ir) i; outs \<leftarrow> op_outputs ir op; fold_try add_def outs defs }) ids D
      = Some (Inr D')"
  shows "(\<forall>i \<in> set ids. opview_outputs ir i \<noteq> None)
    \<and> D' = D \<union> set (concat (map (op_defs ir) ids)) \<and> distinct (concat (map (op_defs ir) ids))
    \<and> D \<inter> set (concat (map (op_defs ir) ids)) = {}"
  using assms
proof (induction ids arbitrary: D)
  case (Cons i ids)
  then obtain outs E where outs: "opview_outputs ir i = Some outs" and E: "fold_try add_def outs D = Some (Inr E)"
    and rest: "fold_try (\<lambda>i defs. do { op \<leftarrow> iv_index (ir_operations ir) i; outs \<leftarrow> op_outputs ir op; fold_try add_def outs defs }) ids E
      = Some (Inr D')"
    by (auto simp: try_bind_Inr bind_Some opview_outputs_def opview_op_def)
  show ?case
    using Cons.IH [OF rest] add_defs_sound [OF E] outs by (auto simp: op_defs_def)
qed simp

lemma define_block_sound:
  assumes "define_block ir (ir_basic_blocks ir ! b) D = Some (Inr D')" and "b < length (ir_basic_blocks ir)"
  shows "block_inputs ir b \<noteq> None \<and> block_operations ir b \<noteq> None
    \<and> (\<forall>i \<in> set (the (block_operations ir b)). opview_outputs ir i \<noteq> None)
    \<and> D' = D \<union> set (block_defs ir b) \<and> distinct (block_defs ir b) \<and> D \<inter> set (block_defs ir b) = {}"
proof -
  obtain ins E ids where ins: "block_inputs ir b = Some ins" and ids: "block_operations ir b = Some ids"
    and E: "fold_try add_def ins D = Some (Inr E)"
    and rest: "fold_try (\<lambda>i defs. do { op \<leftarrow> iv_index (ir_operations ir) i; outs \<leftarrow> op_outputs ir op; fold_try add_def outs defs }) ids E
      = Some (Inr D')"
    using assms by (auto simp: define_block_def try_bind_Inr bind_Some block_inputs_def block_operations_def iv_index_def)
  show ?thesis
    using define_ops_sound [OF rest] add_defs_sound [OF E] ins ids unfolding block_defs_def by auto
qed

lemma validate_single_assignment_sound:
  assumes "validate_single_assignment ir = Some (Inr D)"
  shows "legal_defs ir"
proof -
  let ?bs = "ir_basic_blocks ir"
  let ?ok = "\<lambda>ys D. D = set (concat (map (block_defs ir) [0..<length ys])) \<and> distinct (concat (map (block_defs ir) [0..<length ys]))
      \<and> (\<forall>b < length ys. block_inputs ir b \<noteq> None \<and> block_operations ir b \<noteq> None
        \<and> (\<forall>i \<in> set (the (block_operations ir b)). opview_outputs ir i \<noteq> None))"
  have "?ok ?bs D"
  proof (rule fold_try_invariant [OF assms [unfolded validate_single_assignment_def]])
    fix ys x zs u v
    assume split: "?bs = ys @ x # zs" and u: "?ok ys u" and v: "define_block ir x u = Some (Inr v)"
    have b: "length ys < length ?bs" "?bs ! length ys = x"
      using split by simp_all
    show "?ok (ys @ [x]) v"
      using define_block_sound [OF v [folded b(2)] b(1)] u by (auto simp: less_Suc_eq)
  qed simp
  then show ?thesis
    by (simp add: legal_defs_def)
qed


section \<open>Scopes\<close>

text \<open>
  What a block reads is defined in the block before, or in the set \<open>A\<close> of locals.
\<close>

definition scope_fits :: "eth_ir_program \<Rightarrow> nat set \<Rightarrow> nat \<Rightarrow> bool" where
  "scope_fits ir A b \<longleftrightarrow>
     (\<exists>ids outs c. block_operations ir b = Some ids \<and> block_outputs ir b = Some outs \<and> block_control ir b = Some c
        \<and> (\<forall>k < length ids. \<exists>ins. opview_inputs ir (ids ! k) = Some ins \<and> set ins \<subseteq> A \<union> set (defs_before ir b k))
        \<and> set outs \<subseteq> A \<union> set (block_defs ir b) \<and> control_condition c \<subseteq> A \<union> set (block_defs ir b))"

lemma scope_fits_mono:
  assumes "scope_fits ir A b" and "A \<subseteq> B"
  shows "scope_fits ir B b"
proof -
  have up: "X \<subseteq> A \<union> Y \<Longrightarrow> X \<subseteq> B \<union> Y" for X Y
    using assms(2) by auto
  obtain ids outs c where b: "block_operations ir b = Some ids" "block_outputs ir b = Some outs" "block_control ir b = Some c"
    "\<forall>k < length ids. \<exists>ins. opview_inputs ir (ids ! k) = Some ins \<and> set ins \<subseteq> A \<union> set (defs_before ir b k)"
    "set outs \<subseteq> A \<union> set (block_defs ir b)" "control_condition c \<subseteq> A \<union> set (block_defs ir b)"
    using assms(1) unfolding scope_fits_def by blast
  have "\<forall>k < length ids. \<exists>ins. opview_inputs ir (ids ! k) = Some ins \<and> set ins \<subseteq> B \<union> set (defs_before ir b k)"
    using b(4) up by metis
  then show ?thesis
    using b(1-3) up [OF b(5)] up [OF b(6)] unfolding scope_fits_def by blast
qed

lemma require_scope_unit:
  "(\<forall>x \<in> X. require_scope b S (k x) (l x) = Some (Inr ())) \<longleftrightarrow> (\<forall>x \<in> X. l x \<in> S)"
  by (simp add: require_scope_def)

lemma scope_ops_sound:
  assumes "fold_try (scope_op ir b) ids (S, added) = Some (Inr (S', added'))"
  shows "S' = S \<union> set (concat (map (op_defs ir) ids)) \<and> added' = added @ concat (map (op_defs ir) ids)
    \<and> (\<forall>k < length ids. \<exists>ins. opview_inputs ir (ids ! k) = Some ins
         \<and> set ins \<subseteq> S \<union> set (concat (map (op_defs ir) (take k ids))))"
proof -
  let ?S = "\<lambda>ys. S \<union> set (concat (map (op_defs ir) ys))" and ?added = "\<lambda>ys. added @ concat (map (op_defs ir) ys)"
  let ?read = "\<lambda>ys k. \<exists>ins. opview_inputs ir (ys ! k) = Some ins \<and> set ins \<subseteq> ?S (take k ys)"
  have "(S', added') = (?S ids, ?added ids) \<and> (\<forall>k < length ids. ?read ids k)"
  proof (rule fold_try_invariant [OF assms])
    fix ys x zs u v
    assume u: "u = (?S ys, ?added ys) \<and> (\<forall>k < length ys. ?read ys k)" and v: "scope_op ir b x u = Some (Inr v)"
    then obtain ins outs where ins: "opview_inputs ir x = Some ins" "\<forall>l \<in> set ins. l \<in> ?S ys"
      and outs: "opview_outputs ir x = Some outs" "v = (?S ys \<union> set outs, ?added ys @ outs)"
      by (auto simp: scope_op_def bind_Some try_bind_Inr fold_try_unit require_scope_def opview_inputs_def
          opview_outputs_def opview_op_def)
    have "?read (ys @ [x]) k" if "k < length (ys @ [x])" for k
    proof (cases "k = length ys")
      case True
      then show ?thesis
        using ins by (auto simp: nth_append)
    next
      case False
      then have "k < length ys"
        using that by simp
      then show ?thesis
        using u by (simp add: nth_append)
    qed
    moreover have "v = (?S (ys @ [x]), ?added (ys @ [x]))"
      using outs by (simp add: op_defs_def Un_assoc)
    ultimately show "v = (?S (ys @ [x]), ?added (ys @ [x])) \<and> (\<forall>k < length (ys @ [x]). ?read (ys @ [x]) k)"
      by blast
  qed simp
  then show ?thesis
    by simp
qed

lemma scope_block_sound:
  assumes "scope_block ir b (S, added) = Some (Inr (S', added'))"
  shows "scope_fits ir S b \<and> S' = S \<union> set (block_defs ir b) \<and> added' = added @ block_defs ir b"
proof -
  obtain ins ids outs c where ins: "block_inputs ir b = Some ins" and ids: "block_operations ir b = Some ids"
    and ops: "fold_try (scope_op ir b) ids (S \<union> set ins, added @ ins) = Some (Inr (S', added'))"
    and outs: "block_outputs ir b = Some outs" "\<forall>(i, l) \<in> set (enumerate 0 outs). l \<in> S'"
    and c: "block_control ir b = Some c"
      "(case c of Branches br \<Rightarrow> require_scope b S' UseControl (br_condition br)
          | Switch sw \<Rightarrow> require_scope b S' UseControl (sw_condition sw) | _ \<Rightarrow> Some (Inr ())) = Some (Inr ())"
    using assms
    by (auto simp: scope_block_def bind_Some try_bind_Inr fold_try_unit block_inputs_def block_outputs_def
        block_operations_def block_control_def require_scope_def split: prod.splits)
  note O = scope_ops_sound [OF ops]
  have defs: "block_defs ir b = ins @ concat (map (op_defs ir) ids)"
      "defs_before ir b k = ins @ concat (map (op_defs ir) (take k ids))" for k
    using ins ids by (simp_all add: block_defs_def defs_before_def)
  have S': "S' = S \<union> set (block_defs ir b)"
    using O defs by auto
  have "set outs \<subseteq> S'"
  proof
    fix l
    assume "l \<in> set outs"
    then obtain i where "i < length outs" "outs ! i = l"
      by (auto simp: in_set_conv_nth)
    then have "(i, l) \<in> set (enumerate 0 outs)"
      by (simp add: in_set_enumerate_eq)
    then show "l \<in> S'"
      using outs(2) by blast
  qed
  moreover have "control_condition c \<subseteq> S'"
    using c(2) by (cases c) (auto simp: control_condition_def require_scope_def)
  moreover have "\<exists>i. opview_inputs ir (ids ! k) = Some i \<and> set i \<subseteq> S \<union> set (defs_before ir b k)" if "k < length ids" for k
    using O that unfolding defs by fastforce
  ultimately have "scope_fits ir S b"
    using ids outs(1) c(1) S' unfolding scope_fits_def by blast
  then show ?thesis
    using S' O defs by simp
qed

text \<open>The blocks on the way down from one block to another in a tree of children, the last one left out.\<close>

inductive descends :: "nat list list \<Rightarrow> nat \<Rightarrow> nat list \<Rightarrow> nat \<Rightarrow> bool" for ch where
  descends_here: "descends ch b [] b"
| descends_child: "b < length ch \<Longrightarrow> c \<in> set (ch ! b) \<Longrightarrow> descends ch c ds x \<Longrightarrow> descends ch b (b # ds) x"

lemma descends_append: "descends ch b ds x \<Longrightarrow> x < length ch \<Longrightarrow> c \<in> set (ch ! x) \<Longrightarrow> descends ch b (ds @ [x]) c"
  by (induction rule: descends.induct) (auto intro: descends.intros)

definition tree_fits :: "eth_ir_program \<Rightarrow> nat list list \<Rightarrow> nat set \<Rightarrow> nat \<Rightarrow> bool" where
  "tree_fits ir ch A b \<longleftrightarrow> (\<forall>ds x. descends ch b ds x \<longrightarrow> scope_fits ir (A \<union> (\<Union>d \<in> set ds. set (block_defs ir d))) x)"

lemma tree_fits_mono: "tree_fits ir ch A b \<Longrightarrow> A \<subseteq> B \<Longrightarrow> tree_fits ir ch B b"
  unfolding tree_fits_def by (meson Un_mono order_refl scope_fits_mono)

lemma tree_fits_step:
  assumes "scope_fits ir A b" and "\<And>c. c \<in> set (ch ! b) \<Longrightarrow> tree_fits ir ch (A \<union> set (block_defs ir b)) c"
  shows "tree_fits ir ch A b"
  unfolding tree_fits_def
proof (intro allI impI)
  fix ds x
  assume "descends ch b ds x"
  then show "scope_fits ir (A \<union> (\<Union>d \<in> set ds. set (block_defs ir d))) x"
  proof cases
    case (descends_child c es)
    then show ?thesis
      using assms(2) [of c] unfolding tree_fits_def by (simp add: Un_assoc)
  qed (use assms(1) in simp)
qed

lemma validate_block_scope_sound:
  assumes "validate_block_scope fuel ir ch b (S, added) = Some (Inr (S', added'))"
  shows "S' \<subseteq> S \<and> added' = added \<and> tree_fits ir ch S b"
  using assms
proof (induction fuel arbitrary: b S added S' added')
  case (Suc fuel)
  let ?D = "block_defs ir b"
  obtain T badd U badd' where scope: "scope_block ir b (S, added) = Some (Inr (T, badd))"
    and b: "b < length ch" and run: "fold_try (validate_block_scope fuel ir ch) (ch ! b) (T, badd) = Some (Inr (U, badd'))"
    and res: "length added \<le> length badd'" "S' = U - set (drop (length added) badd')" "added' = take (length added) badd'"
    using Suc.prems
    by (auto simp: try_bind_Inr bind_Some iv_index_def get_at_Some slice_from_Some Let_def split: prod.splits)
  note B = scope_block_sound [OF scope]
  have "fst (U, badd') \<subseteq> T \<and> snd (U, badd') = badd \<and> (\<forall>c \<in> set (ch ! b). tree_fits ir ch T c)"
  proof (rule fold_try_invariant [OF run])
    fix ys x zs u v
    assume u: "fst u \<subseteq> T \<and> snd u = badd \<and> (\<forall>c \<in> set ys. tree_fits ir ch T c)"
      and v: "validate_block_scope fuel ir ch x u = Some (Inr v)"
    have "fst v \<subseteq> fst u \<and> snd v = snd u \<and> tree_fits ir ch (fst u) x"
      using Suc.IH [of x "fst u" "snd u" "fst v" "snd v"] v by simp
    then show "fst v \<subseteq> T \<and> snd v = badd \<and> (\<forall>c \<in> set (ys @ [x]). tree_fits ir ch T c)"
      using u tree_fits_mono [of ir ch "fst u" x T] by auto
  qed simp
  then have U: "U \<subseteq> T" "badd' = badd" and children: "\<And>c. c \<in> set (ch ! b) \<Longrightarrow> tree_fits ir ch T c"
    by simp_all
  have "tree_fits ir ch S b"
    by (rule tree_fits_step) (use B children in auto)
  then show ?case
    using res U B by auto
qed simp

lemma collect_dom_children_spec:
  assumes "collect_dom_children ir D = Some ch"
  shows "length ch = length (ir_basic_blocks ir)
    \<and> (\<forall>b < length (ir_basic_blocks ir). \<forall>p. D b = Some p \<longrightarrow> p \<noteq> b \<longrightarrow> p < length ch \<and> b \<in> set (ch ! p))"
proof -
  let ?n = "length (ir_basic_blocks ir)"
  let ?step = "\<lambda>b children. case D b of None \<Rightarrow> Some children
         | Some parent \<Rightarrow> if parent \<noteq> b then do { cs \<leftarrow> iv_index children parent; iv_set children parent (cs @ [b]) } else Some children"
  have "length ch = ?n \<and> (\<forall>b < k. \<forall>p. D b = Some p \<longrightarrow> p \<noteq> b \<longrightarrow> p < length ch \<and> b \<in> set (ch ! p))"
    if "fold_panics ?step [0..<k] (replicate ?n []) = Some ch" for k ch
    using that
  proof (induction k arbitrary: ch)
    case (Suc k)
    then obtain mid where mid: "fold_panics ?step [0..<k] (replicate ?n []) = Some mid" and step: "?step k mid = Some ch"
      by (auto simp: bind_Some)
    show ?case
      using Suc.IH [OF mid] step
      by (auto simp: less_Suc_eq bind_Some iv_index_def iv_set_def get_at_Some set_at_Some nth_list_update split: option.splits if_splits)
  qed simp
  then show ?thesis
    using assms unfolding collect_dom_children_def by blast
qed

text \<open>The way down the tree of immediate dominators goes through dominators only.\<close>

definition strict_dominators :: "eth_ir_program \<Rightarrow> nat \<Rightarrow> nat \<Rightarrow> nat set" where
  "strict_dominators ir f b = {d. d \<noteq> b \<and> owned ir f d \<and> dominates ir (entry_of ir f) d b}"

definition legal_scope :: "eth_ir_program \<Rightarrow> bool" where
  "legal_scope ir \<longleftrightarrow>
     (\<forall>f < length (ir_functions ir). \<forall>b. owned ir f b \<longrightarrow>
        scope_fits ir (\<Union>d \<in> strict_dominators ir f b. set (block_defs ir d)) b)"

lemma descends_dominators:
  assumes C: "cfg_closed ir" and f: "f < length (ir_functions ir)" and ch: "collect_dom_children ir D = Some ch"
    and tree: "idom_tree ir D f rank"
  shows "owned ir f b \<Longrightarrow> \<exists>ds. descends ch (entry_of ir f) ds b \<and> set ds \<subseteq> strict_dominators ir f b \<and> (\<forall>d \<in> set ds. rank d < rank b)"
proof (induction "rank b" arbitrary: b rule: less_induct)
  case less
  let ?e = "entry_of ir f"
  have T: "idoms_right ir D f b" "\<And>d. D b = Some d \<Longrightarrow> owned ir f d \<and> (b \<noteq> ?e \<longrightarrow> rank d < rank b)"
    using tree less.prems unfolding idom_tree_def by auto
  show ?case
  proof (cases "b = ?e")
    case True
    then show ?thesis
      by (intro exI [of _ "[]"]) (auto intro: descends_here)
  next
    case False
    then obtain d where d: "D b = Some d" "d \<noteq> b" "dominates ir ?e d b"
      using T(1) by (auto simp: idoms_right_def)
    then have own: "owned ir f d" "rank d < rank b"
      using T(2) False by auto
    obtain ds where ds: "descends ch ?e ds d" "set ds \<subseteq> strict_dominators ir f d" "\<forall>x \<in> set ds. rank x < rank d"
      using less.hyps [OF own(2,1)] by blast
    have "b < length (ir_basic_blocks ir)"
      using less.prems reaches_closed [OF C] entry_closed [OF C f] by (auto simp: owned_def)
    then have child: "d < length ch" "b \<in> set (ch ! d)"
      using collect_dom_children_spec [OF ch] d by auto
    have "dominates ir ?e x b" if "x \<in> set ds" for x
      using dominates_trans [of ir ?e x d b] ds(2) that d(3) by (auto simp: strict_dominators_def)
    then have "set (ds @ [d]) \<subseteq> strict_dominators ir f b"
      using ds(2,3) own d by (fastforce simp: strict_dominators_def)
    then show ?thesis
      using descends_append [OF ds(1) child] ds(3) own(2) by (intro exI [of _ "ds @ [d]"]) fastforce
  qed
qed


section \<open>Accepted programs\<close>

definition legal_entry :: "eth_ir_program \<Rightarrow> nat \<Rightarrow> bool" where
  "legal_entry ir f \<longleftrightarrow> f < length (ir_functions ir) \<and> span_is_empty (bb_inputs (ir_basic_blocks ir ! entry_of ir f))"

definition legal :: "eth_ir_program \<Rightarrow> bool" where
  "legal ir \<longleftrightarrow>
     legal_entry ir (ir_init_entry ir) \<and> (\<forall>f. ir_main_entry ir = Some f \<longrightarrow> legal_entry ir f)
     \<and> (\<forall>b < length (ir_basic_blocks ir). legal_block ir b)
     \<and> disjoint_spans (locals_span ir) \<and> disjoint_spans (operations_span ir)
     \<and> legal_cfg ir \<and> legal_defs ir \<and> legal_scope ir"

lemma legal_cfg_closed:
  assumes "\<forall>b < length (ir_basic_blocks ir). legal_block ir b" and "legal_cfg ir"
    and "is_idx (length (ir_basic_blocks ir))" "is_idx (length (ir_functions ir))"
  shows "cfg_closed ir"
proof -
  have "case block_successors ir b of None \<Rightarrow> False | Some ss \<Rightarrow> \<forall>t \<in> set ss. t < length (ir_basic_blocks ir)"
    if "b < length (ir_basic_blocks ir)" for b
  proof -
    have "legal_block ir b"
      using assms(1) that by simp
    then show ?thesis
      unfolding legal_block_def by auto
  qed
  moreover have "fn_entry fn < length (ir_basic_blocks ir)" if fn: "fn \<in> set (ir_functions ir)" for fn
  proof -
    obtain f where "f < length (ir_functions ir)" "fn = ir_functions ir ! f"
      using fn by (auto simp: in_set_conv_nth)
    then show ?thesis
      using assms(2) reaches_refl [of ir "entry_of ir f"] unfolding legal_cfg_def entry_of_def by blast
  qed
  ultimately show ?thesis
    using assms(3,4) unfolding cfg_closed_def by blast
qed

lemma legal_cfg_owner:
  assumes "legal_cfg ir" and "f < length (ir_functions ir)"
  shows "owned ir f b \<longleftrightarrow> reaches ir (entry_of ir f) b"
    and "g < f \<Longrightarrow> \<not> reaches ir (entry_of ir g) (entry_of ir f)"
proof -
  have unique: "g = f" if "reaches ir (entry_of ir f) c" "reaches ir (entry_of ir g) c" "g < length (ir_functions ir)" for g c
    using assms that unfolding legal_cfg_def by blast
  show "owned ir f b \<longleftrightarrow> reaches ir (entry_of ir f) b"
    using unique assms(2) unfolding owned_def by (metis less_imp_neq order_less_trans)
  show "g < f \<Longrightarrow> \<not> reaches ir (entry_of ir g) (entry_of ir f)"
    using unique [of "entry_of ir f" g] assms(2) by auto
qed

lemma fresh_dominators_run:
  assumes C: "cfg_closed ir" and size: "4 * length (ir_basic_blocks ir) \<le> 100000000"
    and fuel: "length (ir_basic_blocks ir) < fuel"
    and entries: "\<And>f g. f < length (ir_functions ir) \<Longrightarrow> g < f \<Longrightarrow> \<not> reaches ir (entry_of ir g) (entry_of ir f)"
  shows "\<exists>D. fresh_dominators fuel ir = Some D \<and> (\<forall>f < length (ir_functions ir). \<exists>rank. idom_tree ir D f rank)"
proof -
  obtain Qs where Qs: "length Qs = length (ir_functions ir)" "rpo_slices ir Qs"
    and reach: "fold_panics (reach_function fuel ir) [0..<length (ir_functions ir)] {} = Some (set (concat Qs))"
    using walk_functions [OF C fuel order_refl] by blast
  have "compute_reachability fuel ir = Some (reachable_blocks ir)"
    using reach concat_slices [OF Qs(2,1)]
    by (simp add: compute_reachability_def reach_function_def [abs_def] del: set_concat)
  then show ?thesis
    using dominators_run [OF assms, of "[]"] unfolding fresh_dominators_def by fastforce
qed

lemma validate_entry_sound:
  "validate_entry ir e f = Some (Inr u) \<Longrightarrow> legal_entry ir f"
  by (auto simp: validate_entry_def bind_Some iv_index_def get_at_Some get_at_None legal_entry_def entry_of_def
      not_le split: if_splits)

lemma validate_scope_sound:
  assumes C: "cfg_closed ir" and D: "\<forall>f < length (ir_functions ir). \<exists>rank. idom_tree ir D f rank"
    and ok: "validate_scope fuel ir (Some D) = Some (Inr u)"
  shows "legal_scope ir"
proof -
  let ?visit = "\<lambda>ch (fn :: ir_function) added. try_bind (validate_block_scope fuel ir ch (fn_entry fn) ({}, added)) (\<lambda>s. Some (Inr (snd s)))"
  obtain ch res where ch: "collect_dom_children ir D = Some ch" and run: "fold_try (?visit ch) (ir_functions ir) [] = Some (Inr res)"
    using ok by (auto simp: validate_scope_def bind_Some try_bind_Inr)
  let ?ok = "\<lambda>(ys :: ir_function list) (u :: nat list). \<forall>fn \<in> set ys. tree_fits ir ch {} (fn_entry fn)"
  have fits: "?ok (ir_functions ir) res"
  proof (rule fold_try_invariant [OF run])
    fix ys x zs u v
    assume u: "?ok ys u" and "?visit ch x u = Some (Inr v)"
    then obtain S' a where "validate_block_scope fuel ir ch (fn_entry x) ({}, u) = Some (Inr (S', a))"
      by (auto simp: try_bind_Inr)
    from validate_block_scope_sound [OF this] u
    show "?ok (ys @ [x]) v"
      by simp
  qed simp
  have "scope_fits ir (\<Union>d \<in> strict_dominators ir f b. set (block_defs ir d)) b"
    if f: "f < length (ir_functions ir)" and b: "owned ir f b" for f b
  proof -
    obtain rank where rank: "idom_tree ir D f rank"
      using D f by blast
    obtain ds where ds: "descends ch (entry_of ir f) ds b" "set ds \<subseteq> strict_dominators ir f b"
      using descends_dominators [OF C f ch rank b] by blast
    have "tree_fits ir ch {} (entry_of ir f)"
      using fits f by (simp add: entry_of_def)
    then have "scope_fits ir (\<Union>d \<in> set ds. set (block_defs ir d)) b"
      using ds(1) unfolding tree_fits_def by force
    then show ?thesis
      by (rule scope_fits_mono) (use ds(2) in blast)
  qed
  then show ?thesis
    unfolding legal_scope_def by blast
qed

lemma legalizer_accepts:
  assumes ok: "legalizer_run fuel ir (fresh_dominators fuel ir) = Some (Inr ())"
    and size: "4 * length (ir_basic_blocks ir) \<le> 100000000" and fuel: "length (ir_basic_blocks ir) < fuel"
  shows "legal ir \<and> cfg_closed ir"
proof -
  let ?lz = "\<lparr>lz_locals_spans = [], lz_operations_spans = [],
          lz_block_owner = replicate (length (ir_basic_blocks ir)) None, lz_call_edges = []\<rparr>"
  obtain lz1 lz2 defs where entries: "validate_entry_points ir = Some (Inr ())"
    and blocks: "validate_blocks ir ?lz = Some (Inr lz1)" and cfg: "validate_cfg fuel ir lz1 = Some (Inr lz2)"
    and defs: "validate_single_assignment ir = Some (Inr defs)"
    and scope: "validate_scope fuel ir (fresh_dominators fuel ir) = Some (Inr ())"
    using ok by (auto simp: legalizer_run_def validate_local_ids_def Let_def try_bind_Inr)
  note B = validate_blocks_sound [OF blocks]
  note G = validate_cfg_sound [OF cfg]
  have cfg_ok: "legal_cfg ir" "is_idx (length (ir_functions ir))"
    using G B(5) by simp_all
  have closed: "cfg_closed ir"
    by (rule legal_cfg_closed [OF B(2) cfg_ok(1) B(1) cfg_ok(2)])
  obtain D where D: "fresh_dominators fuel ir = Some D" "\<forall>f < length (ir_functions ir). \<exists>rank. idom_tree ir D f rank"
    using fresh_dominators_run [OF closed size fuel] legal_cfg_owner(2) [OF cfg_ok(1)] by blast
  have "legal_scope ir"
    using validate_scope_sound [OF closed D(2)] scope D(1) by simp
  moreover have "legal_entry ir (ir_init_entry ir) \<and> (\<forall>f. ir_main_entry ir = Some f \<longrightarrow> legal_entry ir f)"
    using entries validate_entry_sound by (fastforce simp: validate_entry_points_def try_bind_Inr split: option.splits)
  ultimately show ?thesis
    using B(2-4) cfg_ok(1) validate_single_assignment_sound [OF defs] closed unfolding legal_def by blast
qed

text \<open>
  C5. The legalizer.  A program of at most 25 million blocks that the legalizer accepts is legal: its
  entries take no inputs, its terminators are where control expects them, every index refers to
  something, the spans of locals and operations are disjoint, no block belongs to two functions, edges,
  returns and calls pass the right number of values, no function calls itself through others, every
  local has one definition, and what a block reads is defined before in it or in a block that
  dominates it.
\<close>

theorem legalizer_sound:
  assumes "legalizer_run fuel ir (fresh_dominators fuel ir) = Some (Inr ())"
    and "4 * length (ir_basic_blocks ir) \<le> 100000000" and "length (ir_basic_blocks ir) < fuel"
  shows "legal ir"
  using legalizer_accepts [OF assms] by blast

text \<open>A walk through the blocks of a function, from its entry on.\<close>

fun is_walk :: "eth_ir_program \<Rightarrow> nat list \<Rightarrow> bool" where
  "is_walk ir [] = True"
| "is_walk ir [b] = True"
| "is_walk ir (b # c # bs) = (edge ir b c \<and> is_walk ir (c # bs))"

lemma walk_avoids:
  assumes "is_walk ir (e # bs)" and "d \<notin> set bs"
  shows "(\<lambda>a b. edge ir a b \<and> b \<noteq> d)\<^sup>*\<^sup>* e (last (e # bs))"
  using assms
proof (induction bs arbitrary: e)
  case (Cons c bs)
  then have "edge ir e c \<and> c \<noteq> d" "(\<lambda>a b. edge ir a b \<and> b \<noteq> d)\<^sup>*\<^sup>* c (last (c # bs))"
    by simp_all
  then show ?case
    by (auto intro: converse_rtranclp_into_rtranclp)
qed simp

text \<open>
  C6. Reads of defined locals.  In a program the legalizer accepts, whichever walk a run takes from the
  entry of a function to a block, what the block reads is defined before in the block or in one of
  the blocks the walk has passed.
\<close>

theorem accepted_reads_defined:
  assumes "legalizer_run fuel ir (fresh_dominators fuel ir) = Some (Inr ())"
    and "4 * length (ir_basic_blocks ir) \<le> 100000000" and "length (ir_basic_blocks ir) < fuel"
    and f: "f < length (ir_functions ir)" and walk: "is_walk ir (ds @ [b])" "hd (ds @ [b]) = entry_of ir f"
  shows "scope_fits ir (\<Union>d \<in> set ds. set (block_defs ir d)) b"
proof -
  have ir: "legal_cfg ir" "legal_scope ir"
    using legalizer_accepts [OF assms(1-3)] by (simp_all add: legal_def)
  obtain bs where bs: "ds @ [b] = entry_of ir f # bs" "last (entry_of ir f # bs) = b"
    using walk(2) by (metis append_is_Nil_conv last_snoc list.collapse list.discI)
  have walk_to: "(\<lambda>a c. edge ir a c \<and> c \<noteq> d)\<^sup>*\<^sup>* (entry_of ir f) b" if "d \<notin> set bs" for d
    using walk_avoids [of ir "entry_of ir f" bs d] walk(1) that bs by simp
  obtain d where "d \<notin> set bs"
    using ex_new_if_finite [OF infinite_UNIV_nat, of "set bs"] by auto
  then have "reaches ir (entry_of ir f) b"
    using walk_reaches walk_to by blast
  then have "owned ir f b"
    using legal_cfg_owner(1) [OF ir(1) f] by simp
  then have fits: "scope_fits ir (\<Union>d \<in> strict_dominators ir f b. set (block_defs ir d)) b"
    using ir(2) f by (simp add: legal_scope_def)
  have "d \<in> set ds" if "d \<in> strict_dominators ir f b" for d
  proof -
    have d: "d \<noteq> b" "d = entry_of ir f \<or> d \<in> set bs"
      using that walk_to by (auto simp: strict_dominators_def dominates_def)
    then have "d \<in> set (ds @ [b])"
      using bs(1) by auto
    then show ?thesis
      using d(1) by simp
  qed
  then show ?thesis
    by (intro scope_fits_mono [OF fits]) blast
qed

end
