(* ===== verification/Legal_Example.thy ===== *)
theory Legal_Example
  imports Legal
begin

text \<open>
  A program of two blocks, which the legalizer accepts: the hypotheses of the theorems on accepted programs
  hold for it.
\<close>

definition straight :: eth_ir_program where
  "straight = ir_default\<lparr>
     ir_functions := [\<lparr>fn_entry = 0, fn_outputs = 0, fn_source = None\<rparr>],
     ir_basic_blocks :=
       [\<lparr>bb_inputs = span_new 0 0, bb_outputs = span_new 0 1, bb_operations = span_new 0 2, bb_control = ContinuesTo 1\<rparr>,
        \<lparr>bb_inputs = span_new 1 2, bb_outputs = span_new 2 2, bb_operations = span_new 2 3, bb_control = LastOpTerminates\<rparr>],
     ir_operations :=
       [\<lparr>op_kind = KSetSmallConst, op_payload = SetSmallConstData 0 7\<rparr>,
        \<lparr>op_kind = KSetCopy, op_payload = InlineOperands [0] [2]\<rparr>, \<lparr>op_kind = KStop, op_payload = VoidData\<rparr>],
     ir_locals := [2, 1], ir_next_free_local_id := 3\<rparr>"

lemma straight_fields:
  "ir_functions straight = [\<lparr>fn_entry = 0, fn_outputs = 0, fn_source = None\<rparr>]"
  "ir_basic_blocks straight =
       [\<lparr>bb_inputs = span_new 0 0, bb_outputs = span_new 0 1, bb_operations = span_new 0 2, bb_control = ContinuesTo 1\<rparr>,
        \<lparr>bb_inputs = span_new 1 2, bb_outputs = span_new 2 2, bb_operations = span_new 2 3, bb_control = LastOpTerminates\<rparr>]"
  "ir_operations straight =
       [\<lparr>op_kind = KSetSmallConst, op_payload = SetSmallConstData 0 7\<rparr>,
        \<lparr>op_kind = KSetCopy, op_payload = InlineOperands [0] [2]\<rparr>, \<lparr>op_kind = KStop, op_payload = VoidData\<rparr>]"
  "ir_locals straight = [2, 1]" "ir_next_free_local_id straight = 3" "ir_init_entry straight = 0" "ir_main_entry straight = None"
  by (simp_all add: straight_def ir_default_def)

lemma straight_successors: "block_successors straight 0 = Some [1]" "block_successors straight (Suc 0) = Some []"
  by (simp_all add: block_successors_def block_control_def iv_index_def straight_fields iter_outgoing_def outgoing_list_def)

lemma straight_dominators: "fresh_dominators 3 straight = Some [0 \<mapsto> 0, 1 \<mapsto> 0]"
proof -
  have reach: "compute_reachability 3 straight = Some {0, Suc 0}"
    by (auto simp: compute_reachability_def straight_fields function_entry_def iv_index_def straight_successors numeral_3_eq_3)
  have preds: "compute_predecessors straight {0, Suc 0} [] = Some [[], [0]]"
    by (simp add: compute_predecessors_def straight_fields straight_successors resize_def iv_index_def iv_set_def
        upt_conv_Cons numeral_2_eq_2)
  have rpo: "\<exists>r. compute_rpo 3 straight = Some r \<and> rp_global r = [0, 1] \<and> rp_starts r = [0]"
    by (simp add: compute_rpo_def rpo_function_def straight_fields straight_successors function_entry_def iv_index_def
      iv_push_Some bind_Some numeral_3_eq_3 is_idx_def u32_max_def)
  then obtain r where r: "compute_rpo 3 straight = Some r" "rp_global r = [0, 1]" "rp_starts r = [0]"
    by blast
  have pos: "rpo_positions 2 [0, Suc 0] = Some [0, Suc 0]"
    by (simp add: rpo_positions_def iv_set_def numeral_2_eq_2)
  have tick: "loop_limit_tick \<lparr>ll_count = n, ll_max = 100000000\<rparr> = Some \<lparr>ll_count = Suc n, ll_max = 100000000\<rparr>" if "n < 100" for n
    using that by (simp add: loop_limit_tick_def bind_Some add_u32_Some u32_max_def)
  have "compute_dominators straight [[], [0]] r = Some [0 \<mapsto> 0, 1 \<mapsto> 0]"
    by (simp add: compute_dominators_def straight_fields function_rpo_def r idx_add_Some is_idx_def u32_max_def bind_Some
        iv_index_def sub_checked_def slice_of_def compute_function_dominators_def function_entry_def pos slice_from_def
        dom_loop.simps loop_limit_new_def tick dom_pass_def dom_block_def numeral_2_eq_2 [symmetric] fun_upd_twist)
      (rule exI, rule TrueI)
  then show ?thesis
    by (simp add: fresh_dominators_def reach preds r)
qed


lemma straight_iter:
  "span_iter \<lparr>sp_start = 0, sp_end = Suc 0\<rparr> = Some [0]" "span_iter \<lparr>sp_start = Suc 0, sp_end = 2\<rparr> = Some [Suc 0]"
  "span_iter \<lparr>sp_start = 0, sp_end = 0\<rparr> = Some []" "span_iter \<lparr>sp_start = 0, sp_end = 2\<rparr> = Some [0, Suc 0]"
  "span_iter \<lparr>sp_start = 2, sp_end = 3\<rparr> = Some [2]" "span_iter \<lparr>sp_start = 2, sp_end = 2\<rparr> = Some []"
  by (simp_all add: span_iter_eq is_idx_def u32_max_def upt_conv_Cons)

lemma straight_small: "is_terminating KStop" "\<not> is_terminating KSetSmallConst" "\<not> is_terminating KSetCopy" "idx_sub 3 (Suc 0) = Some 2" "idx_sub 2 (Suc 0) = Some (Suc 0)"
    "idx_sub_idx (Suc 0) 0 = Some (Suc 0)" "idx_sub_idx 2 (Suc 0) = Some (Suc 0)" "idx_sub_idx 0 0 = Some 0" "idx_sub_idx 2 2 = Some 0"
    "idx_add 0 (Suc 0) = Some (Suc 0)" "idx_add (Suc 0) (Suc 0) = Some 2"
  by (simp_all add: is_terminating_def idx_sub_def sub_checked_def idx_new_def u32_max_def idx_sub_idx_def idx_add_Some is_idx_def)

lemmas straight_eval = straight_fields [unfolded span_new_def, simplified] straight_iter straight_small iv_index_def iv_set_def bind_Some

definition straight_state :: "nat option list \<Rightarrow> legalizer" where
  "straight_state owner = \<lparr>lz_locals_spans = [tracked \<lparr>sp_start = 0, sp_end = Suc 0\<rparr> (SrcOutputs 0), tracked \<lparr>sp_start = Suc 0, sp_end = 2\<rparr> (SrcInputs (Suc 0))],
     lz_operations_spans = [tracked \<lparr>sp_start = 0, sp_end = 2\<rparr> (SrcOperations 0), tracked \<lparr>sp_start = 2, sp_end = 3\<rparr> (SrcOperations (Suc 0))],
     lz_block_owner = owner, lz_call_edges = []\<rparr>"

lemma straight_ops:
  "validate_op straight 0 0 ls = Some (Inr ls)" "validate_op straight 0 (Suc 0) ls = Some (Inr ls)"
  "validate_op straight (Suc 0) 2 ls = Some (Inr ls)"
  by (simp_all add: validate_op_def straight_eval validate_op_refs_def op_inputs_def inputs_getter_def op_outputs_def
      outputs_getter_def op_allocated_spans_def allocated_spans_getter_def allocated_spans_NONE_def)

lemma straight_blocks:
  "validate_blocks straight \<lparr>lz_locals_spans = [], lz_operations_spans = [], lz_block_owner = owner, lz_call_edges = []\<rparr>
    = Some (Inr (straight_state owner))"
proof -
  have e: "iv_enumerate_idx (ir_basic_blocks straight) = Some [(0, ir_basic_blocks straight ! 0), (Suc 0, ir_basic_blocks straight ! Suc 0)]"
    by (simp add: iv_enumerate_idx_def straight_eval)
  have t: "validate_block_terminators straight 0 (ir_basic_blocks straight ! 0) = Some (Inr ())"
      "validate_block_terminators straight (Suc 0) (ir_basic_blocks straight ! Suc 0) = Some (Inr ())"
    by (simp_all add: validate_block_terminators_def straight_eval validate_terminator_def iv_index_span_def slice_of_def)
  have b0: "validate_block_indices straight 0 (ir_basic_blocks straight ! 0) \<lparr>lz_locals_spans = [], lz_operations_spans = [], lz_block_owner = owner, lz_call_edges = []\<rparr>
      = Some (Inr \<lparr>lz_locals_spans = [tracked \<lparr>sp_start = 0, sp_end = Suc 0\<rparr> (SrcOutputs 0)],
          lz_operations_spans = [tracked \<lparr>sp_start = 0, sp_end = 2\<rparr> (SrcOperations 0)], lz_block_owner = owner, lz_call_edges = []\<rparr>)"
    by (simp add: validate_block_indices_def straight_eval validate_control_def validate_basic_block_id_def straight_ops
        track_def span_is_empty_def tracked_def)
  have b1: "validate_block_indices straight (Suc 0) (ir_basic_blocks straight ! Suc 0)
        \<lparr>lz_locals_spans = [tracked \<lparr>sp_start = 0, sp_end = Suc 0\<rparr> (SrcOutputs 0)],
          lz_operations_spans = [tracked \<lparr>sp_start = 0, sp_end = 2\<rparr> (SrcOperations 0)], lz_block_owner = owner, lz_call_edges = []\<rparr>
      = Some (Inr (straight_state owner))"
    by (simp add: validate_block_indices_def straight_eval validate_control_def straight_ops track_def span_is_empty_def
        tracked_def straight_state_def)
  have s: "validate_spans [tracked \<lparr>sp_start = 0, sp_end = Suc 0\<rparr> a, tracked \<lparr>sp_start = Suc 0, sp_end = 2\<rparr> b] 2
      = Some (Inr [tracked \<lparr>sp_start = 0, sp_end = Suc 0\<rparr> a, tracked \<lparr>sp_start = Suc 0, sp_end = 2\<rparr> b])" for a b
    by (simp add: validate_spans_def tracked_def less_eq_prod_simp)
  have s': "validate_spans [tracked \<lparr>sp_start = 0, sp_end = 2\<rparr> a, tracked \<lparr>sp_start = 2, sp_end = 3\<rparr> b] 3
      = Some (Inr [tracked \<lparr>sp_start = 0, sp_end = 2\<rparr> a, tracked \<lparr>sp_start = 2, sp_end = 3\<rparr> b])" for a b
    by (simp add: validate_spans_def tracked_def less_eq_prod_simp)
  have "length (ir_locals straight) = 2" "length (ir_operations straight) = 3"
    by (simp_all add: straight_fields)
  then show ?thesis
    unfolding validate_blocks_def e
    by (simp add: validate_block_def t b0 b1 straight_state_def s s')
qed

lemma straight_cfg: "validate_cfg 3 straight (straight_state [None, None]) = Some (Inr (straight_state [Some 0, Some 0]))"
proof -
  have calls: "validate_call straight 0 i lz = Some (Inr lz)" if "i < 3" for i lz
  proof -
    have "i = 0 \<or> i = Suc 0 \<or> i = 2"
      using that by arith
    then show ?thesis
      by (auto simp: validate_call_def straight_eval)
  qed
  have e0: "enter_block straight 0 0 (straight_state [None, None]) = Some (Inr (straight_state [Some 0, None]))"
    by (simp add: enter_block_def straight_eval calls straight_state_def)
  have e1: "enter_block straight 0 (Suc 0) (straight_state [Some 0, None]) = Some (Inr (straight_state [Some 0, Some 0]))"
    by (simp add: enter_block_def straight_eval calls straight_state_def)
  have "validate_edge straight 0 (Suc 0) = Some (Inr ())"
    by (simp add: validate_edge_def straight_eval span_len_def)
  then have visit: "visit_block 3 straight 0 0 ({}, straight_state [None, None]) = Some (Inr ({0, Suc 0}, straight_state [Some 0, Some 0]))"
    by (auto simp: numeral_3_eq_3 e0 e1 straight_successors insert_commute)
  have "validate_call_graph 3 straight [] = Some (Inr ())"
    by (simp add: validate_call_graph_def collect_callees_def straight_eval iv_iter_idx_def iv_next_idx_def
        idx_try_from_usize_def is_idx_def u32_max_def span_new_def numeral_3_eq_3)
  moreover have "lz_call_edges (straight_state os) = []" for os
    by (simp add: straight_state_def)
  ultimately show ?thesis
    by (simp add: validate_cfg_def iv_enumerate_idx_def straight_fields visit straight_small)
qed

lemma straight_scope: "validate_scope 3 straight (Some [0 \<mapsto> 0, Suc 0 \<mapsto> 0]) = Some (Inr ())"
proof -
  have ch: "collect_dom_children straight [0 \<mapsto> 0, Suc 0 \<mapsto> 0] = Some [[Suc 0], []]"
    by (simp add: collect_dom_children_def straight_eval upt_conv_Cons numeral_2_eq_2)
  have s0: "scope_block straight 0 ({}, []) = Some (Inr ({0, 2}, [0, 2]))"
    by (simp add: scope_block_def straight_eval iv_index_span_def slice_of_def scope_op_def op_inputs_def inputs_getter_def
        op_outputs_def outputs_getter_def require_scope_def insert_commute)
  have s1: "scope_block straight (Suc 0) ({0, 2}, [0, 2]) = Some (Inr ({0, Suc 0, 2}, [0, 2, Suc 0]))"
    by (simp add: scope_block_def straight_eval iv_index_span_def slice_of_def scope_op_def op_inputs_def inputs_getter_def
        op_outputs_def outputs_getter_def require_scope_def insert_commute)
  show ?thesis
    by (simp add: validate_scope_def ch straight_fields numeral_3_eq_3 s0 s1 iv_index_def slice_from_def slice_of_def Let_def)
qed

lemma straight_accepted: "legalizer_run 3 straight (fresh_dominators 3 straight) = Some (Inr ())"
proof -
  have entries: "validate_entry_points straight = Some (Inr ())"
    by (simp add: validate_entry_points_def validate_entry_def straight_fields iv_index_def span_is_empty_def span_new_def)
  have defs: "validate_single_assignment straight = Some (Inr {0, Suc 0, 2})"
    by (auto simp: validate_single_assignment_def straight_eval define_block_def iv_index_span_def slice_of_def
        add_def_def op_outputs_def outputs_getter_def)
  have "replicate (length (ir_basic_blocks straight)) None = [None, None :: nat option]"
    by (simp add: straight_fields)
  then show ?thesis
    using straight_scope
    by (simp add: legalizer_run_def entries straight_blocks straight_cfg validate_local_ids_def defs straight_dominators)
qed


lemma legalizer_sound_witness: "legal straight"
  by (rule legalizer_sound [OF straight_accepted]) (simp_all add: straight_fields)

lemma accepted_reads_defined_witness: "scope_fits straight (set (block_defs straight 0)) 1"
  using accepted_reads_defined [OF straight_accepted, of 0 "[0]" 1]
  by (simp add: straight_fields entry_of_def edge_def straight_successors)

end
