(* ===== verification/Sir_Effects.thy ===== *)
theory Sir_Effects
  imports Sir_Ir
begin

text \<open>
  The effects of operations (\<open>sir/crates/data/src/operation/effects.rs\<close>): a set of bits, seven of
  them pairs of a minor effect and the major effect above it that subsumes it.
\<close>

type_synonym effect = u16

definition eff_PURE :: effect where "eff_PURE = 0"

definition eff_MEMORY_READ :: effect where "eff_MEMORY_READ = push_bit 0 1"

definition eff_MEMORY_WRITE :: effect where "eff_MEMORY_WRITE = push_bit 1 1"

definition eff_RETURNDATA_READ :: effect where "eff_RETURNDATA_READ = push_bit 2 1"

definition eff_RETURNDATA_WRITE :: effect where "eff_RETURNDATA_WRITE = push_bit 3 1"

definition eff_ACCOUNTS_READ :: effect where "eff_ACCOUNTS_READ = push_bit 4 1"

definition eff_ACCOUNTS_WRITE :: effect where "eff_ACCOUNTS_WRITE = push_bit 5 1"

definition eff_PERSISTENT_READ :: effect where "eff_PERSISTENT_READ = push_bit 6 1"

definition eff_PERSISTENT_WRITE :: effect where "eff_PERSISTENT_WRITE = push_bit 7 1"

definition eff_TRANSIENT_READ :: effect where "eff_TRANSIENT_READ = push_bit 8 1"

definition eff_TRANSIENT_WRITE :: effect where "eff_TRANSIENT_WRITE = push_bit 9 1"

definition eff_REVERT :: effect where "eff_REVERT = push_bit 10 1"

definition eff_TERMINATE :: effect where "eff_TERMINATE = push_bit 11 1"

definition eff_ALLOC_ADVANCE :: effect where "eff_ALLOC_ADVANCE = push_bit 12 1"

definition eff_ALLOC_USE_FREE :: effect where "eff_ALLOC_USE_FREE = push_bit 13 1"

definition eff_LOGS :: effect where "eff_LOGS = push_bit 14 1"

lemmas eff_defs = eff_PURE_def
  eff_MEMORY_READ_def eff_MEMORY_WRITE_def eff_RETURNDATA_READ_def
  eff_RETURNDATA_WRITE_def eff_ACCOUNTS_READ_def eff_ACCOUNTS_WRITE_def
  eff_PERSISTENT_READ_def eff_PERSISTENT_WRITE_def eff_TRANSIENT_READ_def
  eff_TRANSIENT_WRITE_def eff_REVERT_def eff_TERMINATE_def eff_ALLOC_ADVANCE_def
  eff_ALLOC_USE_FREE_def eff_LOGS_def

definition eff_EXTCALL :: effect where
  "eff_EXTCALL =
     eff_ACCOUNTS_WRITE OR eff_PERSISTENT_WRITE OR eff_TRANSIENT_WRITE OR eff_LOGS OR eff_RETURNDATA_WRITE"

definition eff_MINOR :: effect where
  "eff_MINOR =
     eff_MEMORY_READ OR eff_RETURNDATA_READ OR eff_ACCOUNTS_READ OR eff_PERSISTENT_READ OR
     eff_TRANSIENT_READ OR eff_REVERT OR eff_ALLOC_ADVANCE"

definition eff_MAJOR :: effect where
  "eff_MAJOR =
     eff_MEMORY_WRITE OR eff_RETURNDATA_WRITE OR eff_ACCOUNTS_WRITE OR eff_PERSISTENT_WRITE OR
     eff_TRANSIENT_WRITE OR eff_TERMINATE OR eff_ALLOC_USE_FREE"

definition eff_contains :: "effect \<Rightarrow> effect \<Rightarrow> bool" where
  "eff_contains a b \<longleftrightarrow> a AND b = b"

definition eff_remove :: "effect \<Rightarrow> effect \<Rightarrow> effect" where
  "eff_remove a b = a AND NOT b"

definition eff_simplify :: "effect \<Rightarrow> effect" where
  "eff_simplify e =
     (let reads_and_writes = (e AND eff_MINOR) AND drop_bit 1 e in eff_remove e reads_and_writes)"

definition eff_is_simple :: "effect \<Rightarrow> bool" where
  "eff_is_simple e \<longleftrightarrow> eff_simplify e = e"

text \<open>The match of \<open>Effect::of\<close> as a table; an internal call has no entry.\<close>

definition kind_effects :: "(operation_kind \<times> effect) list" where
  "kind_effects =
     [(KAdd, eff_PURE), (KMul, eff_PURE), (KSub, eff_PURE), (KDiv, eff_PURE), (KSDiv, eff_PURE),
      (KMod, eff_PURE), (KSMod, eff_PURE), (KAddMod, eff_PURE), (KMulMod, eff_PURE),
      (KExp, eff_PURE), (KSignExtend, eff_PURE), (KLt, eff_PURE), (KGt, eff_PURE),
      (KSLt, eff_PURE), (KSGt, eff_PURE), (KEq, eff_PURE), (KIsZero, eff_PURE),
      (KAnd, eff_PURE), (KOr, eff_PURE), (KXor, eff_PURE), (KNot, eff_PURE), (KByte, eff_PURE),
      (KShl, eff_PURE), (KShr, eff_PURE), (KSar, eff_PURE), (KKeccak256, eff_MEMORY_READ),
      (KAddress, eff_PURE), (KBalance, eff_ACCOUNTS_READ), (KOrigin, eff_PURE),
      (KCaller, eff_PURE), (KCallValue, eff_PURE), (KCallDataLoad, eff_PURE),
      (KCallDataSize, eff_PURE), (KCallDataCopy, eff_MEMORY_WRITE), (KCodeSize, eff_PURE),
      (KCodeCopy, eff_MEMORY_WRITE), (KGasPrice, eff_PURE), (KExtCodeSize, eff_ACCOUNTS_READ),
      (KExtCodeCopy, eff_ACCOUNTS_READ OR eff_MEMORY_WRITE),
      (KReturnDataSize, eff_RETURNDATA_READ),
      (KReturnDataCopy, eff_RETURNDATA_READ OR eff_MEMORY_WRITE OR eff_REVERT),
      (KExtCodeHash, eff_ACCOUNTS_READ),
      (KGas, eff_ACCOUNTS_WRITE OR eff_PERSISTENT_WRITE OR eff_LOGS), (KBlockHash, eff_PURE),
      (KCoinbase, eff_PURE), (KTimestamp, eff_PURE), (KNumber, eff_PURE),
      (KDifficulty, eff_PURE), (KGasLimit, eff_PURE), (KChainId, eff_PURE),
      (KSelfBalance, eff_ACCOUNTS_READ), (KBaseFee, eff_PURE), (KBlobHash, eff_PURE),
      (KBlobBaseFee, eff_PURE), (KSLoad, eff_PERSISTENT_READ), (KSStore, eff_PERSISTENT_WRITE),
      (KTLoad, eff_TRANSIENT_READ), (KTStore, eff_TRANSIENT_WRITE),
      (KLog0, eff_MEMORY_READ OR eff_LOGS), (KLog1, eff_MEMORY_READ OR eff_LOGS),
      (KLog2, eff_MEMORY_READ OR eff_LOGS), (KLog3, eff_MEMORY_READ OR eff_LOGS),
      (KLog4, eff_MEMORY_READ OR eff_LOGS), (KCreate, eff_EXTCALL OR eff_MEMORY_READ),
      (KCreate2, eff_EXTCALL OR eff_MEMORY_READ), (KCall, eff_EXTCALL OR eff_MEMORY_WRITE),
      (KCallCode, eff_EXTCALL OR eff_MEMORY_WRITE),
      (KDelegateCall, eff_EXTCALL OR eff_MEMORY_WRITE),
      (KStaticCall, eff_ACCOUNTS_READ OR eff_PERSISTENT_READ OR eff_TRANSIENT_READ OR eff_MEMORY_WRITE OR eff_RETURNDATA_WRITE),
      (KReturn, eff_TERMINATE OR eff_MEMORY_READ), (KStop, eff_TERMINATE),
      (KSelfDestruct, eff_TERMINATE), (KRevert, eff_MEMORY_READ OR eff_REVERT),
      (KInvalid, eff_REVERT), (KAcquireFreePointer, eff_ALLOC_USE_FREE),
      (KDynamicAllocZeroed, eff_ALLOC_ADVANCE), (KDynamicAllocAnyBytes, eff_ALLOC_ADVANCE),
      (KStaticAllocZeroed, eff_PURE), (KStaticAllocAnyBytes, eff_PURE),
      (KMemoryCopy, eff_MEMORY_WRITE), (KMemoryLoad, eff_MEMORY_READ),
      (KMemoryStore, eff_MEMORY_WRITE), (KSetCopy, eff_PURE), (KSetSmallConst, eff_PURE),
      (KSetLargeConst, eff_PURE), (KSetDataOffset, eff_PURE), (KNoop, eff_PURE),
      (KRuntimeStartOffset, eff_PURE), (KInitEndOffset, eff_PURE), (KRuntimeLength, eff_PURE)]"

definition kind_effect :: "operation_kind \<Rightarrow> effect panics" where
  "kind_effect k = map_of kind_effects k"

text \<open>\<open>Inl f\<close> is the \<open>Err\<close> of the source: the effect is the one of the called function.\<close>

definition effect_of :: "operation \<Rightarrow> (nat + effect) panics" where
  "effect_of op =
     (case op_payload op of
        InternalCallData f ins_start outs_start \<Rightarrow> Some (Inl f)
      | _ \<Rightarrow> do { e \<leftarrow> kind_effect (op_kind op); Some (Inr e) })"

section \<open>Simplification\<close>

text \<open>The reference definition: each minor effect goes when its major effect is there.\<close>

definition effect_pairs :: "(effect \<times> effect) list" where
  "effect_pairs =
     [(eff_MEMORY_READ, eff_MEMORY_WRITE), (eff_RETURNDATA_READ, eff_RETURNDATA_WRITE),
      (eff_ACCOUNTS_READ, eff_ACCOUNTS_WRITE), (eff_PERSISTENT_READ, eff_PERSISTENT_WRITE),
      (eff_TRANSIENT_READ, eff_TRANSIENT_WRITE), (eff_REVERT, eff_TERMINATE),
      (eff_ALLOC_ADVANCE, eff_ALLOC_USE_FREE)]"

definition naive_simplify :: "effect \<Rightarrow> effect" where
  "naive_simplify e =
     fold (\<lambda>(minor, major) e. if eff_contains e (minor OR major) then eff_remove e minor else e) effect_pairs e"

definition minor_bits :: "nat list" where
  "minor_bits = [0, 2, 4, 6, 8, 10, 12]"

lemma effect_pairs_bits: "effect_pairs = map (\<lambda>i. (push_bit i 1, push_bit (Suc i) 1)) minor_bits"
  by (simp add: effect_pairs_def minor_bits_def eff_defs)

lemma bit_power: "bit (push_bit i 1 :: u16) n \<longleftrightarrow> n = i \<and> i < 16"
  unfolding bit_push_bit_iff bit_1_iff by (auto simp: possible_bit_word)

lemma eff_MINOR_bit: "bit eff_MINOR n \<longleftrightarrow> n \<in> set minor_bits"
proof -
  have "eff_MINOR = fold (OR) (map (\<lambda>i. push_bit i 1) minor_bits) 0"
    by (simp add: eff_MINOR_def eff_defs minor_bits_def)
  also have "bit \<dots> n \<longleftrightarrow> n \<in> set minor_bits"
    unfolding minor_bits_def
    by (simp only: list.map fold.simps o_apply id_apply bit_or_iff bit_power bit_0_eq) (auto simp: bit_0_eq)
  finally show ?thesis .
qed

text \<open>Clearing bit \<open>i\<close> when it and its neighbour are set.\<close>

lemma naive_step_bit:
  assumes "Suc i < 16"
  shows "bit (if eff_contains e (push_bit i 1 OR push_bit (Suc i) 1) then eff_remove e (push_bit i 1) else e) n
    \<longleftrightarrow> bit e n \<and> \<not> (n = i \<and> bit e (Suc i))"
proof -
  have "eff_contains e (push_bit i 1 OR push_bit (Suc i) 1) \<longleftrightarrow> bit e i \<and> bit e (Suc i)"
  proof
    assume "eff_contains e (push_bit i 1 OR push_bit (Suc i) 1)"
    then have eq: "e AND (push_bit i 1 OR push_bit (Suc i) 1) = push_bit i 1 OR push_bit (Suc i) 1"
      by (simp only: eff_contains_def)
    have "bit (e AND (push_bit i 1 OR push_bit (Suc i) 1)) m \<longleftrightarrow> bit (push_bit i 1 OR push_bit (Suc i) 1 :: u16) m" for m
      by (simp only: eq)
    from this [of i] this [of "Suc i"] show "bit e i \<and> bit e (Suc i)"
      using assms by (simp only: bit_and_iff bit_or_iff bit_power) auto
  next
    assume "bit e i \<and> bit e (Suc i)"
    then show "eff_contains e (push_bit i 1 OR push_bit (Suc i) 1)"
      unfolding eff_contains_def
      by (intro bit_eqI) (auto simp only: bit_and_iff bit_or_iff bit_power)
  qed
  moreover have "bit (eff_remove e (push_bit i 1)) n \<longleftrightarrow> bit e n \<and> n \<noteq> i"
    using assms bit_imp_le_length [of e n]
    by (auto simp only: eff_remove_def bit_and_iff bit_not_iff bit_power possible_bit_word)
  ultimately show ?thesis
    by auto
qed

lemma naive_fold_bit:
  "\<forall>i \<in> set is. Suc i < 16 \<and> Suc i \<notin> set is \<Longrightarrow>
   bit (fold (\<lambda>(minor, major) e. if eff_contains e (minor OR major) then eff_remove e minor else e)
          (map (\<lambda>i. (push_bit i 1, push_bit (Suc i) 1)) is) e) n
   \<longleftrightarrow> bit e n \<and> \<not> (n \<in> set is \<and> bit e (Suc n))"
proof (induction "is" arbitrary: e)
  case (Cons i "is")
  let ?e = "if eff_contains e (push_bit i 1 OR push_bit (Suc i) 1) then eff_remove e (push_bit i 1) else e"
  have step: "bit ?e m \<longleftrightarrow> bit e m \<and> \<not> (m = i \<and> bit e (Suc i))" for m
    using Cons.prems by (intro naive_step_bit) simp
  have "bit (fold (\<lambda>(minor, major) e. if eff_contains e (minor OR major) then eff_remove e minor else e)
          (map (\<lambda>i. (push_bit i 1, push_bit (Suc i) 1)) (i # is)) e) n
      \<longleftrightarrow> bit ?e n \<and> \<not> (n \<in> set is \<and> bit ?e (Suc n))"
    using Cons.prems by (simp only: list.map fold.simps o_apply prod.case) (rule Cons.IH, simp)
  also have "\<dots> \<longleftrightarrow> bit e n \<and> \<not> (n \<in> set (i # is) \<and> bit e (Suc n))"
    unfolding step using Cons.prems by auto
  finally show ?case .
qed simp

text \<open>
  Simplifying an effect set by masking and shifting agrees with the reference definition on all
  65536 sets, and is idempotent: exactly the minor effects whose major effect is present disappear.
\<close>

theorem simplify_matches_naive: "eff_simplify e = naive_simplify e \<and> eff_is_simple (eff_simplify e)"
proof
  have naive: "bit (naive_simplify e) n \<longleftrightarrow> bit e n \<and> \<not> (n \<in> set minor_bits \<and> bit e (Suc n))" for n
    unfolding naive_simplify_def effect_pairs_bits by (rule naive_fold_bit) (simp add: minor_bits_def)
  have simplify: "bit (eff_simplify e) n \<longleftrightarrow> bit e n \<and> \<not> (n \<in> set minor_bits \<and> bit e (Suc n))" for e n
    using bit_imp_le_length [of e n]
    unfolding eff_simplify_def eff_remove_def Let_def bit_and_iff bit_not_iff eff_MINOR_bit bit_drop_bit_eq
    by (auto simp: possible_bit_word)
  show "eff_simplify e = naive_simplify e"
    by (rule bit_eqI) (simp only: naive simplify)
  show "eff_is_simple (eff_simplify e)"
    unfolding eff_is_simple_def by (rule bit_eqI) (auto simp only: simplify)
qed

section \<open>Effects and removability\<close>

lemma kind_effects_complete: "k \<noteq> KInternalCall \<Longrightarrow> \<exists>e. kind_effect k = Some e"
  by (cases k) (simp_all add: kind_effect_def kind_effects_def)

definition eff_WRITES :: effect where
  "eff_WRITES =
     eff_MEMORY_WRITE OR eff_RETURNDATA_WRITE OR eff_ACCOUNTS_WRITE OR eff_PERSISTENT_WRITE OR
     eff_TRANSIENT_WRITE OR eff_REVERT OR eff_TERMINATE OR eff_LOGS"



end
