(* ===== verification/Sccp.thy ===== *)
theory Sccp
  imports Sir_Exec Evm_Arith Def_Use
begin

text \<open>
  Sparse conditional constant propagation (\<open>passes/src/optimizations/constant_propagation.rs\<close>) on
  the def-use chains.  The analysis keeps a lattice
  value per local, a worklist of blocks and a worklist of locals; both worklists are stacks and are
  lists with their top first.  The set of reachable blocks, a \<open>DenseIndexSet\<close> of the source, is its
  abstract set.  The two loops take fuel; the bound of theorem \<open>sccp_analysis_returns\<close> is enough.
\<close>

section \<open>The lattice\<close>

datatype evm_const_kind =
    CAddress | COrigin | CCaller | CCallValue | CCallDataSize | CCodeSize | CGasPrice | CCoinbase
  | CTimestamp | CNumber | CDifficulty | CGasLimit | CChainId | CBaseFee | CBlobBaseFee
  | CRuntimeStartOffset | CInitEndOffset | CRuntimeLength

datatype lattice_value =
    Unknown
  | Const u256
  | EvmConst evm_const_kind
  | Overdefined

datatype rust_ordering = OLess | OEqual | OGreater

definition lv_partial_cmp :: "lattice_value \<Rightarrow> lattice_value \<Rightarrow> rust_ordering option" where
  "lv_partial_cmp x y =
     (if x = y then Some OEqual
      else if x = Unknown then Some OGreater
      else if x = Overdefined then Some OLess
      else if y = Unknown then Some OLess
      else if y = Overdefined then Some OGreater
      else None)"

text \<open>The new value and whether it differs from the old one.\<close>

definition lv_meet :: "lattice_value \<Rightarrow> lattice_value \<Rightarrow> lattice_value \<times> bool" where
  "lv_meet self oth =
     (let met = (case lv_partial_cmp self oth of
          None \<Rightarrow> Overdefined
        | Some OLess \<Rightarrow> self
        | Some OEqual \<Rightarrow> self
        | Some OGreater \<Rightarrow> oth)
      in (met, met \<noteq> self))"

section \<open>Evaluation\<close>

definition evm_const_kinds :: "(operation_kind \<times> evm_const_kind) list" where
  "evm_const_kinds =
     [(KAddress, CAddress), (KOrigin, COrigin), (KCaller, CCaller), (KCallValue, CCallValue),
      (KCallDataSize, CCallDataSize), (KCodeSize, CCodeSize), (KGasPrice, CGasPrice),
      (KCoinbase, CCoinbase), (KTimestamp, CTimestamp), (KNumber, CNumber),
      (KDifficulty, CDifficulty), (KGasLimit, CGasLimit), (KChainId, CChainId),
      (KBaseFee, CBaseFee), (KBlobBaseFee, CBlobBaseFee),
      (KRuntimeStartOffset, CRuntimeStartOffset), (KInitEndOffset, CInitEndOffset),
      (KRuntimeLength, CRuntimeLength)]"

definition sccp_constant :: "operation \<Rightarrow> u256 list \<Rightarrow> (nat \<times> lattice_value) option panics" where
  "sccp_constant op large_consts =
     (case op_payload op of
        InlineOperands [] [out] \<Rightarrow>
          Some (map_option (\<lambda>c. (out, EvmConst c)) (map_of evm_const_kinds (op_kind op)))
      | SetSmallConstData sets val \<Rightarrow> Some (Some (sets, Const (ucast val)))
      | SetLargeConstData sets val \<Rightarrow>
          do { c \<leftarrow> iv_index large_consts val; Some (Some (sets, Const c)) }
      | _ \<Rightarrow> Some None)"

definition const_u256 :: "lattice_value list \<Rightarrow> nat \<Rightarrow> u256 option panics" where
  "const_u256 lattice l =
     do { v \<leftarrow> iv_index lattice l; Some (case v of Const c \<Rightarrow> Some c | _ \<Rightarrow> None) }"

definition bool_u256 :: "bool \<Rightarrow> u256" where
  "bool_u256 b = (if b then 1 else 0)"

definition binary_evals :: "(operation_kind \<times> (u256 \<Rightarrow> u256 \<Rightarrow> u256)) list" where
  "binary_evals =
     [(KAdd, evm_add), (KMul, evm_mul), (KSub, evm_sub), (KDiv, evm_div), (KSDiv, evm_sdiv),
      (KMod, evm_mod), (KSMod, evm_smod), (KExp, evm_exp), (KSignExtend, evm_signextend),
      (KLt, \<lambda>a b. bool_u256 (evm_lt a b)), (KGt, \<lambda>a b. bool_u256 (evm_gt a b)),
      (KSLt, \<lambda>a b. bool_u256 (evm_slt a b)), (KSGt, \<lambda>a b. bool_u256 (evm_sgt a b)),
      (KEq, \<lambda>a b. bool_u256 (evm_eq a b)), (KAnd, evm_and), (KOr, evm_or), (KXor, evm_xor),
      (KByte, evm_byte), (KShl, evm_shl), (KShr, evm_shr), (KSar, evm_sar)]"

definition unary_evals :: "(operation_kind \<times> (u256 \<Rightarrow> u256)) list" where
  "unary_evals = [(KNot, evm_not), (KIsZero, \<lambda>a. bool_u256 (evm_iszero a))]"

definition ternary_evals :: "(operation_kind \<times> (u256 \<Rightarrow> u256 \<Rightarrow> u256 \<Rightarrow> u256 panics)) list" where
  "ternary_evals = [(KAddMod, evm_addmod), (KMulMod, evm_mulmod)]"

text \<open>A value computed from constants only, reading the operands in order.\<close>

definition eval_unary ::
    "lattice_value list \<Rightarrow> nat \<Rightarrow> nat \<Rightarrow> (u256 \<Rightarrow> u256) \<Rightarrow> (nat \<times> u256) option panics" where
  "eval_unary lattice a out f =
     do { va \<leftarrow> const_u256 lattice a; Some (map_option (\<lambda>va. (out, f va)) va) }"

definition eval_binary ::
    "lattice_value list \<Rightarrow> nat \<Rightarrow> nat \<Rightarrow> nat \<Rightarrow> (u256 \<Rightarrow> u256 \<Rightarrow> u256) \<Rightarrow> (nat \<times> u256) option panics" where
  "eval_binary lattice a b out f =
     do { va \<leftarrow> const_u256 lattice a;
          case va of
            None \<Rightarrow> Some None
          | Some va \<Rightarrow> do { vb \<leftarrow> const_u256 lattice b; Some (map_option (\<lambda>vb. (out, f va vb)) vb) } }"

definition eval_ternary ::
    "lattice_value list \<Rightarrow> nat list \<Rightarrow> nat \<Rightarrow> nat \<Rightarrow> (u256 \<Rightarrow> u256 \<Rightarrow> u256 \<Rightarrow> u256 panics)
     \<Rightarrow> (nat \<times> u256) option panics" where
  "eval_ternary lattice locals ins_start out f =
     do { a \<leftarrow> iv_index locals ins_start;
          i1 \<leftarrow> idx_add ins_start 1;
          b \<leftarrow> iv_index locals i1;
          i2 \<leftarrow> idx_add ins_start 2;
          n \<leftarrow> iv_index locals i2;
          va \<leftarrow> const_u256 lattice a;
          case va of
            None \<Rightarrow> Some None
          | Some va \<Rightarrow>
              do { vb \<leftarrow> const_u256 lattice b;
                   case vb of
                     None \<Rightarrow> Some None
                   | Some vb \<Rightarrow>
                       do { vn \<leftarrow> const_u256 lattice n;
                            case vn of
                              None \<Rightarrow> Some None
                            | Some vn \<Rightarrow> do { r \<leftarrow> f va vb vn; Some (Some (out, r)) } } } }"

definition sccp_evaluate ::
    "lattice_value list \<Rightarrow> eth_ir_program \<Rightarrow> operation \<Rightarrow> (nat \<times> u256) option panics" where
  "sccp_evaluate lattice ir op =
     (case op_payload op of
        InlineOperands [a, b] [out] \<Rightarrow>
          (case map_of binary_evals (op_kind op) of
             Some f \<Rightarrow> eval_binary lattice a b out f | None \<Rightarrow> Some None)
      | InlineOperands [a] [out] \<Rightarrow>
          (case map_of unary_evals (op_kind op) of
             Some f \<Rightarrow> eval_unary lattice a out f | None \<Rightarrow> Some None)
      | AllocatedIns n ins_start [out] \<Rightarrow>
          (case map_of ternary_evals (op_kind op) of
             Some f \<Rightarrow> eval_ternary lattice (ir_locals ir) ins_start out f | None \<Rightarrow> Some None)
      | _ \<Rightarrow> Some None)"

section \<open>The analysis\<close>

record sccp =
  sc_lattice :: "lattice_value list"
  sc_cfg_worklist :: "nat list"
  sc_values_worklist :: "nat list"
  sc_reachable :: "nat set"

text \<open>\<open>self.lattice[l].meet(v)\<close>, pushing \<open>l\<close> on the worklist of values when it changed.\<close>

definition meet_push :: "nat \<Rightarrow> lattice_value \<Rightarrow> sccp \<Rightarrow> sccp panics" where
  "meet_push l v s =
     do { old \<leftarrow> iv_index (sc_lattice s) l;
          let (met, changed) = lv_meet old v;
          lattice \<leftarrow> iv_set (sc_lattice s) l met;
          Some (s\<lparr>sc_lattice := lattice,
                  sc_values_worklist := if changed then l # sc_values_worklist s else sc_values_worklist s\<rparr>) }"

definition sccp_init_function :: "eth_ir_program \<Rightarrow> nat \<Rightarrow> sccp \<Rightarrow> sccp panics" where
  "sccp_init_function ir f s =
     do { entry \<leftarrow> function_entry ir f;
          inputs \<leftarrow> block_inputs ir entry;
          lattice \<leftarrow> fold_panics (\<lambda>l lattice. iv_set lattice l Overdefined) inputs (sc_lattice s);
          Some (s\<lparr>sc_lattice := lattice, sc_cfg_worklist := entry # sc_cfg_worklist s,
                  sc_reachable := insert entry (sc_reachable s)\<rparr>) }"

definition sccp_reset :: "eth_ir_program \<Rightarrow> sccp panics" where
  "sccp_reset ir =
     fold_panics (sccp_init_function ir) [0..<length (ir_functions ir)]
       \<lparr>sc_lattice = replicate (ir_next_free_local_id ir) Unknown, sc_cfg_worklist = [],
        sc_values_worklist = [], sc_reachable = {}\<rparr>"

definition process_operation :: "eth_ir_program \<Rightarrow> nat \<Rightarrow> sccp \<Rightarrow> sccp panics" where
  "process_operation ir i s =
     do { op \<leftarrow> opview_op ir i;
          c \<leftarrow> sccp_constant op (ir_large_consts ir);
          case c of
            Some (l, v) \<Rightarrow> meet_push l v s
          | None \<Rightarrow>
              do { e \<leftarrow> sccp_evaluate (sc_lattice s) ir op;
                   case e of
                     Some (out, v) \<Rightarrow> meet_push out (Const v) s
                   | None \<Rightarrow>
                       do { outs \<leftarrow> op_outputs ir op;
                            fold_panics (\<lambda>out. meet_push out Overdefined) outs s } } }"

definition process_operations :: "eth_ir_program \<Rightarrow> nat \<Rightarrow> sccp \<Rightarrow> sccp panics" where
  "process_operations ir b s =
     do { ops \<leftarrow> block_operations ir b; fold_panics (process_operation ir) ops s }"

definition nonzero_kinds :: "evm_const_kind list" where
  "nonzero_kinds = [CAddress, COrigin, CCaller, CTimestamp, CGasLimit, CChainId]"

definition is_edge_reachable :: "eth_ir_program \<Rightarrow> lattice_value list \<Rightarrow> nat \<Rightarrow> nat \<Rightarrow> bool panics" where
  "is_edge_reachable ir lattice from_b to =
     do { c \<leftarrow> block_control ir from_b;
          case c of
            ContinuesTo target \<Rightarrow> Some (target = to)
          | Branches br \<Rightarrow>
              do { v \<leftarrow> iv_index lattice (br_condition br);
                   Some (case v of
                       Const cv \<Rightarrow>
                         if cv = 0 then to = br_zero_target br else to = br_non_zero_target br
                     | Unknown \<Rightarrow> False
                     | Overdefined \<Rightarrow> to = br_zero_target br \<or> to = br_non_zero_target br
                     | EvmConst k \<Rightarrow>
                         if k \<in> set nonzero_kinds then to = br_non_zero_target br
                         else to = br_zero_target br \<or> to = br_non_zero_target br) }
          | Switch sw \<Rightarrow>
              do { cv \<leftarrow> const_u256 lattice (sw_condition sw);
                   case cv of
                     None \<Rightarrow> Some True
                   | Some val \<Rightarrow> do { target \<leftarrow> switch_target ir sw val; Some (to = target) } }
          | LastOpTerminates \<Rightarrow> Some False
          | InternalReturn \<Rightarrow> Some False }"

text \<open>\<open>zip\<close> of the outputs of a block with the inputs of its successor.\<close>

definition flow_outputs_to :: "eth_ir_program \<Rightarrow> nat \<Rightarrow> nat \<Rightarrow> sccp \<Rightarrow> sccp panics" where
  "flow_outputs_to ir from_b to s =
     do { outs \<leftarrow> block_outputs ir from_b;
          ins \<leftarrow> block_inputs ir to;
          fold_panics (\<lambda>(out, inp) s. do { v \<leftarrow> iv_index (sc_lattice s) out; meet_push inp v s }) (zip outs ins) s }"

definition flow_single_output_to :: "eth_ir_program \<Rightarrow> nat \<Rightarrow> nat \<Rightarrow> nat \<Rightarrow> sccp \<Rightarrow> sccp panics" where
  "flow_single_output_to ir from_b to idx s =
     do { outs \<leftarrow> block_outputs ir from_b;
          out \<leftarrow> get_at outs idx;
          ins \<leftarrow> block_inputs ir to;
          inp \<leftarrow> get_at ins idx;
          v \<leftarrow> iv_index (sc_lattice s) out;
          meet_push inp v s }"

definition sccp_mark_reachable :: "eth_ir_program \<Rightarrow> nat \<Rightarrow> nat \<Rightarrow> sccp \<Rightarrow> sccp panics" where
  "sccp_mark_reachable ir from_b to s =
     (if to \<notin> sc_reachable s then
        flow_outputs_to ir from_b to
          (s\<lparr>sc_reachable := insert to (sc_reachable s), sc_cfg_worklist := to # sc_cfg_worklist s\<rparr>)
      else Some s)"

definition process_control :: "eth_ir_program \<Rightarrow> nat \<Rightarrow> sccp \<Rightarrow> sccp panics" where
  "process_control ir b s =
     do { succs \<leftarrow> block_successors ir b;
          fold_panics (\<lambda>succ s.
              do { r \<leftarrow> is_edge_reachable ir (sc_lattice s) b succ;
                   if r then sccp_mark_reachable ir b succ s else Some s }) succs s }"

fun all_overdefined :: "lattice_value list \<Rightarrow> nat list \<Rightarrow> bool panics" where
  "all_overdefined lattice [] = Some True"
| "all_overdefined lattice (out # outs) =
     do { v \<leftarrow> iv_index lattice out;
          if v = Overdefined then all_overdefined lattice outs else Some False }"

definition process_use :: "eth_ir_program \<Rightarrow> nat \<Rightarrow> use_kind \<Rightarrow> sccp \<Rightarrow> sccp panics" where
  "process_use ir b kind s =
     (case kind of
        UseOperation i \<Rightarrow>
          do { op \<leftarrow> iv_index (ir_operations ir) i;
               outs \<leftarrow> op_outputs ir op;
               all \<leftarrow> all_overdefined (sc_lattice s) outs;
               if all then Some s
               else
                 do { e \<leftarrow> sccp_evaluate (sc_lattice s) ir op;
                      case e of
                        Some (out, v) \<Rightarrow> meet_push out (Const v) s
                      | None \<Rightarrow> fold_panics (\<lambda>out. meet_push out Overdefined) outs s } }
      | UseControl \<Rightarrow> process_control ir b s
      | UseBlockOutput idx \<Rightarrow>
          do { succs \<leftarrow> block_successors ir b;
               fold_panics (\<lambda>succ s.
                   do { r \<leftarrow> is_edge_reachable ir (sc_lattice s) b succ;
                        if r then flow_single_output_to ir b succ idx s else Some s }) succs s })"

fun process_values :: "nat \<Rightarrow> eth_ir_program \<Rightarrow> def_use \<Rightarrow> sccp \<Rightarrow> sccp panics" where
  "process_values 0 ir defuse s = None"
| "process_values (Suc fuel) ir defuse s =
     (case sc_values_worklist s of
        [] \<Rightarrow> Some s
      | v # rest \<Rightarrow>
          do { uses \<leftarrow> iv_index defuse v;
               s \<leftarrow> fold_panics (\<lambda>u s.
                   if ul_block_id u \<in> sc_reachable s then process_use ir (ul_block_id u) (ul_kind u) s
                   else Some s) uses (s\<lparr>sc_values_worklist := rest\<rparr>);
               process_values fuel ir defuse s })"

definition process_block :: "nat \<Rightarrow> eth_ir_program \<Rightarrow> def_use \<Rightarrow> nat \<Rightarrow> sccp \<Rightarrow> sccp panics" where
  "process_block fuel ir defuse b s =
     do { s \<leftarrow> process_operations ir b s;
          s \<leftarrow> process_control ir b s;
          process_values fuel ir defuse s }"

fun sccp_loop :: "nat \<Rightarrow> nat \<Rightarrow> eth_ir_program \<Rightarrow> def_use \<Rightarrow> sccp \<Rightarrow> sccp panics" where
  "sccp_loop 0 vfuel ir defuse s = None"
| "sccp_loop (Suc fuel) vfuel ir defuse s =
     (case sc_cfg_worklist s of
        [] \<Rightarrow> Some s
      | b # rest \<Rightarrow>
          do { s \<leftarrow> process_block vfuel ir defuse b (s\<lparr>sc_cfg_worklist := rest\<rparr>);
               sccp_loop fuel vfuel ir defuse s })"

definition sccp_analysis :: "nat \<Rightarrow> nat \<Rightarrow> eth_ir_program \<Rightarrow> def_use \<Rightarrow> sccp panics" where
  "sccp_analysis fuel vfuel ir defuse =
     do { s \<leftarrow> sccp_reset ir; sccp_loop fuel vfuel ir defuse s }"

section \<open>The rewriting\<close>

text \<open>\<open>u32::try_from\<close> of a \<open>U256\<close>.\<close>

definition u32_try_from :: "u256 \<Rightarrow> u32 option" where
  "u32_try_from v = (if v < 2 ^ 32 then Some (ucast v) else None)"

definition rewrite_operation :: "lattice_value list \<Rightarrow> nat \<Rightarrow> eth_ir_program \<Rightarrow> eth_ir_program panics" where
  "rewrite_operation lattice i ir =
     do { op \<leftarrow> iv_index (ir_operations ir) i;
          outs \<leftarrow> op_outputs ir op;
          case outs of
            [out] \<Rightarrow>
              do { v \<leftarrow> iv_index lattice out;
                   case v of
                     Const cv \<Rightarrow>
                       (case u32_try_from cv of
                          Some val \<Rightarrow>
                            do { ops \<leftarrow> iv_set (ir_operations ir) i
                                   \<lparr>op_kind = KSetSmallConst, op_payload = SetSmallConstData out val\<rparr>;
                                 Some (ir\<lparr>ir_operations := ops\<rparr>) }
                        | None \<Rightarrow> Some ir)
                   | _ \<Rightarrow> Some ir }
          | _ \<Rightarrow> Some ir }"

definition rewrite_constants :: "lattice_value list \<Rightarrow> nat \<Rightarrow> eth_ir_program \<Rightarrow> eth_ir_program panics" where
  "rewrite_constants lattice b ir =
     do { ops \<leftarrow> block_operations ir b; fold_panics (rewrite_operation lattice) ops ir }"

definition simplify_control :: "lattice_value list \<Rightarrow> nat \<Rightarrow> eth_ir_program \<Rightarrow> eth_ir_program panics" where
  "simplify_control lattice b ir =
     do { c \<leftarrow> block_control ir b;
          case c of
            Branches br \<Rightarrow>
              do { cv \<leftarrow> const_u256 lattice (br_condition br);
                   case cv of
                     None \<Rightarrow> Some ir
                   | Some cv \<Rightarrow>
                       set_control b
                         (ContinuesTo (if cv = 0 then br_zero_target br else br_non_zero_target br)) ir }
          | Switch sw \<Rightarrow>
              do { cv \<leftarrow> const_u256 lattice (sw_condition sw);
                   case cv of
                     None \<Rightarrow> Some ir
                   | Some val \<Rightarrow>
                       do { target \<leftarrow> switch_target ir sw val; set_control b (ContinuesTo target) ir } }
          | _ \<Rightarrow> Some ir }"

definition sccp_apply :: "lattice_value list \<Rightarrow> nat set \<Rightarrow> eth_ir_program \<Rightarrow> eth_ir_program panics" where
  "sccp_apply lattice reachable ir =
     fold_panics (\<lambda>b ir.
         if b \<in> reachable then
           do { ir \<leftarrow> rewrite_constants lattice b ir; simplify_control lattice b ir }
         else Some ir) [0..<length (ir_basic_blocks ir)] ir"

definition sccp_run :: "nat \<Rightarrow> nat \<Rightarrow> eth_ir_program \<Rightarrow> (eth_ir_program \<times> nat set) panics" where
  "sccp_run fuel vfuel ir =
     do { uses \<leftarrow> compute_def_use ir;
          s \<leftarrow> sccp_analysis fuel vfuel ir uses;
          ir \<leftarrow> sccp_apply (sc_lattice s) (sc_reachable s) ir;
          Some (ir, sc_reachable s) }"


section \<open>A second edge into a block\<close>

text \<open>
  \<open>bb0: v0 = const 1; v1 = const 2; => bb1\<close>, \<open>bb1: v2 = calldatasize; v2 ? bb2 : bb3\<close>,
  \<open>bb2 -> v0: => bb4\<close>, \<open>bb3 -> v1: => bb4\<close>, \<open>bb4 v3: v4 = add v3 v3; stop\<close>.
\<close>

definition two_edges :: eth_ir_program where
  "two_edges = ir_default\<lparr>
     ir_functions := [\<lparr>fn_entry = 0, fn_outputs = 0, fn_source = None\<rparr>],
     ir_basic_blocks :=
       [\<lparr>bb_inputs = span_new 0 0, bb_outputs = span_new 0 0, bb_operations = span_new 0 2,
         bb_control = ContinuesTo 1\<rparr>,
        \<lparr>bb_inputs = span_new 0 0, bb_outputs = span_new 0 0, bb_operations = span_new 2 3,
         bb_control = Branches \<lparr>br_condition = 2, br_non_zero_target = 2, br_zero_target = 3\<rparr>\<rparr>,
        \<lparr>bb_inputs = span_new 0 0, bb_outputs = span_new 0 1, bb_operations = span_new 3 3,
         bb_control = ContinuesTo 4\<rparr>,
        \<lparr>bb_inputs = span_new 1 1, bb_outputs = span_new 1 2, bb_operations = span_new 3 3,
         bb_control = ContinuesTo 4\<rparr>,
        \<lparr>bb_inputs = span_new 2 3, bb_outputs = span_new 3 3, bb_operations = span_new 3 5,
         bb_control = LastOpTerminates\<rparr>],
     ir_operations :=
       [\<lparr>op_kind = KSetSmallConst, op_payload = SetSmallConstData 0 1\<rparr>,
        \<lparr>op_kind = KSetSmallConst, op_payload = SetSmallConstData 1 2\<rparr>,
        \<lparr>op_kind = KCallDataSize, op_payload = InlineOperands [] [2]\<rparr>,
        \<lparr>op_kind = KAdd, op_payload = InlineOperands [3, 3] [4]\<rparr>,
        \<lparr>op_kind = KStop, op_payload = VoidData\<rparr>],
     ir_locals := [0, 1, 3],
     ir_next_free_local_id := 5\<rparr>"

lemma two_edges_fields [simp]:
  "ir_functions two_edges = [\<lparr>fn_entry = 0, fn_outputs = 0, fn_source = None\<rparr>]"
  "ir_locals two_edges = [0, 1, 3]" "ir_next_free_local_id two_edges = 5"
  "length (ir_basic_blocks two_edges) = 5"
  "length (ir_operations two_edges) = 5"
  by (simp_all add: two_edges_def)

lemma list_update_numeral [simp]: "(x # xs)[numeral n := v] = x # xs[pred_numeral n := v]"
  by (simp add: numeral_eq_Suc)

lemma upt_lits: "[0..<2] = [0, 1]" "[2..<3] = [2]" "[0..<5] = [0, 1, 2, 3, 4]" "[3..<5] = [3, 4]"
  by (simp_all add: upt_rec)

lemma replicate_5: "replicate 5 x = [x, x, x, x, x]"
  by (simp add: numeral_eq_Suc)

lemma two_edges_operations [simp]:
  "block_operations two_edges 0 = Some [0, 1]" "block_operations two_edges (Suc 0) = Some [2]"
  "block_operations two_edges 2 = Some []" "block_operations two_edges 3 = Some []"
  "block_operations two_edges 4 = Some [3, 4]"
  by (simp_all add: block_operations_def two_edges_def iv_index_def span_iter_eq span_new_def is_idx_def
      u32_max_def upt_lits)

lemma two_edges_blocks [simp]:
  "block_inputs two_edges 0 = Some []" "block_inputs two_edges (Suc 0) = Some []"
  "block_inputs two_edges 2 = Some []" "block_inputs two_edges 3 = Some []"
  "block_inputs two_edges 4 = Some [3]"
  "block_outputs two_edges 0 = Some []" "block_outputs two_edges (Suc 0) = Some []"
  "block_outputs two_edges 2 = Some [0]" "block_outputs two_edges 3 = Some [1]"
  "block_outputs two_edges 4 = Some []"
  "block_control two_edges 0 = Some (ContinuesTo 1)"
  "block_control two_edges (Suc 0) =
     Some (Branches \<lparr>br_condition = 2, br_non_zero_target = 2, br_zero_target = 3\<rparr>)"
  "block_control two_edges 2 = Some (ContinuesTo 4)" "block_control two_edges 3 = Some (ContinuesTo 4)"
  "block_control two_edges 4 = Some LastOpTerminates"
  by (simp_all add: block_inputs_def block_outputs_def block_control_def two_edges_def iv_index_def
      iv_index_span_def slice_of_def span_new_def)

lemma two_edges_successors [simp]:
  "block_successors two_edges 0 = Some [1]" "block_successors two_edges (Suc 0) = Some [3, 2]"
  "block_successors two_edges 2 = Some [4]" "block_successors two_edges 3 = Some [4]"
  "block_successors two_edges 4 = Some []"
  by (simp_all add: block_successors_def iter_outgoing_def outgoing_list_def)

lemma two_edges_ops [simp]:
  "opview_op two_edges 0 = Some \<lparr>op_kind = KSetSmallConst, op_payload = SetSmallConstData 0 1\<rparr>"
  "opview_op two_edges (Suc 0) = Some \<lparr>op_kind = KSetSmallConst, op_payload = SetSmallConstData 1 2\<rparr>"
  "opview_op two_edges 2 = Some \<lparr>op_kind = KCallDataSize, op_payload = InlineOperands [] [2]\<rparr>"
  "opview_op two_edges 3 = Some \<lparr>op_kind = KAdd, op_payload = InlineOperands [3, 3] [4]\<rparr>"
  "opview_op two_edges 4 = Some \<lparr>op_kind = KStop, op_payload = VoidData\<rparr>"
  by (simp_all add: opview_op_def two_edges_def iv_index_def)

lemma two_edges_def_use:
  "compute_def_use two_edges = Some
     [[\<lparr>ul_block_id = 2, ul_kind = UseBlockOutput 0\<rparr>],
      [\<lparr>ul_block_id = 3, ul_kind = UseBlockOutput 0\<rparr>],
      [\<lparr>ul_block_id = 1, ul_kind = UseControl\<rparr>],
      [\<lparr>ul_block_id = 4, ul_kind = UseOperation 3\<rparr>, \<lparr>ul_block_id = 4, ul_kind = UseOperation 3\<rparr>],
      []]"
  by (simp add: compute_def_use_def block_uses_def opview_inputs_def op_inputs_def inputs_getter_def
      push_use_def iv_index_def iv_set_def upt_lits replicate_5)

lemma two_edges_get_op [simp]:
  "get_at (ir_operations two_edges) 3 = Some \<lparr>op_kind = KAdd, op_payload = InlineOperands [3, 3] [4]\<rparr>"
  by (simp add: two_edges_def)

text \<open>The analysis of \<open>two_edges\<close>.\<close>

lemmas sccp_run_simps =
  process_operations_def process_operation_def sccp_constant_def evm_const_kinds_def meet_push_def
  lv_meet_def lv_partial_cmp_def process_control_def is_edge_reachable_def sccp_mark_reachable_def
  flow_outputs_to_def flow_single_output_to_def process_use_def sccp_evaluate_def binary_evals_def
  eval_binary_def const_u256_def op_outputs_def outputs_getter_def iv_index_def iv_set_def Let_def
  nonzero_kinds_def

lemma two_edges_reset:
  "sccp_reset two_edges = Some
     \<lparr>sc_lattice = [Unknown, Unknown, Unknown, Unknown, Unknown], sc_cfg_worklist = [0],
      sc_values_worklist = [], sc_reachable = {0}\<rparr>"
  by (simp add: sccp_reset_def sccp_init_function_def function_entry_def iv_index_def replicate_5)


definition two_edges_uses :: def_use where
  "two_edges_uses =
     [[\<lparr>ul_block_id = 2, ul_kind = UseBlockOutput 0\<rparr>],
      [\<lparr>ul_block_id = 3, ul_kind = UseBlockOutput 0\<rparr>],
      [\<lparr>ul_block_id = 1, ul_kind = UseControl\<rparr>],
      [\<lparr>ul_block_id = 4, ul_kind = UseOperation 3\<rparr>, \<lparr>ul_block_id = 4, ul_kind = UseOperation 3\<rparr>],
      []]"

lemma process_values_numeral:
  "process_values (numeral k) ir defuse s =
   (case sc_values_worklist s of
      [] \<Rightarrow> Some s
    | v # rest \<Rightarrow>
        do { uses \<leftarrow> iv_index defuse v;
             s \<leftarrow> fold_panics (\<lambda>u s.
                 if ul_block_id u \<in> sc_reachable s then process_use ir (ul_block_id u) (ul_kind u) s
                 else Some s) uses (s\<lparr>sc_values_worklist := rest\<rparr>);
             process_values (pred_numeral k) ir defuse s })"
  by (simp add: numeral_eq_Suc)

lemma sccp_loop_numeral:
  "sccp_loop (numeral k) vfuel ir defuse s =
   (case sc_cfg_worklist s of
      [] \<Rightarrow> Some s
    | b # rest \<Rightarrow>
        do { s \<leftarrow> process_block vfuel ir defuse b (s\<lparr>sc_cfg_worklist := rest\<rparr>);
             sccp_loop (pred_numeral k) vfuel ir defuse s })"
  by (simp add: numeral_eq_Suc)

lemma two_edges_steps:
  "process_block 6 two_edges two_edges_uses 0
     \<lparr>sc_lattice = [Unknown, Unknown, Unknown, Unknown, Unknown], sc_cfg_worklist = [],
      sc_values_worklist = [], sc_reachable = {0}\<rparr>
   = Some \<lparr>sc_lattice = [Const 1, Const 2, Unknown, Unknown, Unknown],
           sc_cfg_worklist = [1], sc_values_worklist = [], sc_reachable = {1, 0}\<rparr>"
  "process_block 6 two_edges two_edges_uses 1
     \<lparr>sc_lattice = [Const 1, Const 2, Unknown, Unknown, Unknown],
      sc_cfg_worklist = [], sc_values_worklist = [], sc_reachable = {1, 0}\<rparr>
   = Some \<lparr>sc_lattice = [Const 1, Const 2, EvmConst CCallDataSize, Unknown, Unknown],
           sc_cfg_worklist = [2, 3], sc_values_worklist = [], sc_reachable = {2, 3, 1, 0}\<rparr>"
  "process_block 6 two_edges two_edges_uses 2
     \<lparr>sc_lattice = [Const 1, Const 2, EvmConst CCallDataSize, Unknown, Unknown],
      sc_cfg_worklist = [3], sc_values_worklist = [], sc_reachable = {2, 3, 1, 0}\<rparr>
   = Some \<lparr>sc_lattice = [Const 1, Const 2, EvmConst CCallDataSize, Const 1, Const 2],
           sc_cfg_worklist = [4, 3], sc_values_worklist = [], sc_reachable = {4, 2, 3, 1, 0}\<rparr>"
  "process_block 6 two_edges two_edges_uses 4
     \<lparr>sc_lattice = [Const 1, Const 2, EvmConst CCallDataSize, Const 1, Const 2],
      sc_cfg_worklist = [3], sc_values_worklist = [], sc_reachable = {4, 2, 3, 1, 0}\<rparr>
   = Some \<lparr>sc_lattice = [Const 1, Const 2, EvmConst CCallDataSize, Const 1, Const 2],
           sc_cfg_worklist = [3], sc_values_worklist = [], sc_reachable = {4, 2, 3, 1, 0}\<rparr>"
  "process_block 6 two_edges two_edges_uses 3
     \<lparr>sc_lattice = [Const 1, Const 2, EvmConst CCallDataSize, Const 1, Const 2],
      sc_cfg_worklist = [], sc_values_worklist = [], sc_reachable = {4, 2, 3, 1, 0}\<rparr>
   = Some \<lparr>sc_lattice = [Const 1, Const 2, EvmConst CCallDataSize, Const 1, Const 2],
           sc_cfg_worklist = [], sc_values_worklist = [], sc_reachable = {4, 2, 3, 1, 0}\<rparr>"
  by (simp_all add: process_block_def sccp_run_simps two_edges_uses_def process_values_numeral evm_add_def)

lemma two_edges_analysis:
  "sccp_analysis 7 6 two_edges two_edges_uses = Some
     \<lparr>sc_lattice = [Const 1, Const 2, EvmConst CCallDataSize, Const 1, Const 2],
      sc_cfg_worklist = [], sc_values_worklist = [], sc_reachable = {4, 2, 3, 1, 0}\<rparr>"
  by (simp add: sccp_analysis_def two_edges_reset sccp_loop_numeral two_edges_steps [simplified])



end
