(* ===== verification/Sccp_Correct.thy ===== *)
theory Sccp_Correct
  imports Sccp
begin

text \<open>
  Correctness of constant propagation: the lattice, termination of the analysis within explicit
  bounds and without panics on closed programs, and the rewriting under a sound lattice.
\<close>

section \<open>The lattice\<close>

definition lv_le :: "lattice_value \<Rightarrow> lattice_value \<Rightarrow> bool" where
  "lv_le x y \<longleftrightarrow> lv_partial_cmp x y = Some OLess \<or> lv_partial_cmp x y = Some OEqual"

fun lv_height :: "lattice_value \<Rightarrow> nat" where
  "lv_height Unknown = 2"
| "lv_height (Const c) = 1"
| "lv_height (EvmConst c) = 1"
| "lv_height Overdefined = 0"

lemma lv_le_iff: "lv_le x y \<longleftrightarrow> x = y \<or> x = Overdefined \<or> y = Unknown"
  by (auto simp: lv_le_def lv_partial_cmp_def)

lemma lv_meet_iff:
  "lv_meet x y = (let m = (if x = y then x else if x = Unknown then y else if y = Unknown then x else Overdefined)
                  in (m, m \<noteq> x))"
  by (auto simp: lv_meet_def lv_partial_cmp_def Let_def)

lemma lv_meet_height: "lv_meet x y = (m, c) \<Longrightarrow> lv_height m + (if c then 1 else 0) \<le> lv_height x"
  by (cases x; cases y) (auto simp: lv_meet_iff Let_def split: if_splits)

text \<open>
  C14. The lattice of constant propagation.  The comparison of the source is a partial order, \<open>meet\<close>
  computes greatest lower bounds in it, its flag says whether the value moved, and a value can move
  at most twice before it is overdefined.
\<close>

theorem lattice_meet:
  "lv_le x x \<and> (lv_le x y \<and> lv_le y x \<longrightarrow> x = y) \<and> (lv_le x y \<and> lv_le y z \<longrightarrow> lv_le x z)
   \<and> (case lv_meet x y of (m, changed) \<Rightarrow>
        lv_le m x \<and> lv_le m y \<and> (\<forall>w. lv_le w x \<and> lv_le w y \<longrightarrow> lv_le w m)
        \<and> changed = (m \<noteq> x)
        \<and> lv_height m + (if changed then 1 else 0) \<le> lv_height x)
   \<and> lv_height x \<le> 2"
proof -
  have "lv_height x \<le> 2"
    by (cases x) simp_all
  then show ?thesis
    using lv_meet_height [of x y] by (auto simp: lv_le_iff lv_meet_iff Let_def split: if_splits)
qed

lemma lattice_meet_witness:
  "lv_meet (Const 1) (Const 2) = (Overdefined, True) \<and> lv_le Overdefined (Const 1) \<and> lv_le Overdefined (Const 2)"
  using lattice_meet [of "Const 1" "Const 2" Overdefined] by (auto simp: lv_meet_iff Let_def)

section \<open>Closed programs\<close>

text \<open>
  A program is closed when everything its blocks and operations refer to exists: what the legalizer
  checks, as far as the analysis depends on it.  Each switch on a known value must have a target;
  the analysis panics otherwise.
\<close>

definition op_closed :: "eth_ir_program \<Rightarrow> operation \<Rightarrow> bool" where
  "op_closed ir op \<longleftrightarrow> well_typed op
     \<and> (case op_inputs ir op of Some ins \<Rightarrow> \<forall>l \<in> set ins. l < ir_next_free_local_id ir | None \<Rightarrow> False)
     \<and> (case op_outputs ir op of Some outs \<Rightarrow> \<forall>l \<in> set outs. l < ir_next_free_local_id ir | None \<Rightarrow> False)
     \<and> (case op_payload op of SetLargeConstData sets val \<Rightarrow> val < length (ir_large_consts ir) | _ \<Rightarrow> True)"

definition control_closed :: "eth_ir_program \<Rightarrow> control \<Rightarrow> bool" where
  "control_closed ir c \<longleftrightarrow>
     (case c of
        Branches br \<Rightarrow> br_condition br < ir_next_free_local_id ir
      | Switch sw \<Rightarrow> sw_condition sw < ir_next_free_local_id ir \<and> (\<forall>val. switch_target ir sw val \<noteq> None)
      | _ \<Rightarrow> True)"

definition block_closed :: "eth_ir_program \<Rightarrow> nat \<Rightarrow> bool" where
  "block_closed ir b \<longleftrightarrow>
     (case (block_inputs ir b, block_outputs ir b, block_operations ir b, block_control ir b, block_successors ir b) of
        (Some ins, Some outs, Some ops, Some c, Some succs) \<Rightarrow>
          (\<forall>l \<in> set ins. l < ir_next_free_local_id ir) \<and> (\<forall>l \<in> set outs. l < ir_next_free_local_id ir)
          \<and> (\<forall>i \<in> set ops. i < length (ir_operations ir)) \<and> control_closed ir c
          \<and> (\<forall>t \<in> set succs. t < length (ir_basic_blocks ir)
               \<and> map_option length (block_inputs ir t) = Some (length outs))
      | _ \<Rightarrow> False)"

definition ir_closed :: "eth_ir_program \<Rightarrow> bool" where
  "ir_closed ir \<longleftrightarrow>
     (\<forall>b < length (ir_basic_blocks ir). block_closed ir b)
     \<and> (\<forall>op \<in> set (ir_operations ir). op_closed ir op)
     \<and> (\<forall>f \<in> set (ir_functions ir). fn_entry f < length (ir_basic_blocks ir))
     \<and> is_idx (length (ir_locals ir))"

lemma block_closedE:
  assumes "ir_closed ir" and "b < length (ir_basic_blocks ir)"
  obtains ins outs ops c succs where
    "block_inputs ir b = Some ins" "block_outputs ir b = Some outs" "block_operations ir b = Some ops"
    "block_control ir b = Some c" "block_successors ir b = Some succs"
    "\<forall>l \<in> set ins. l < ir_next_free_local_id ir" "\<forall>l \<in> set outs. l < ir_next_free_local_id ir"
    "\<forall>i \<in> set ops. i < length (ir_operations ir)" "control_closed ir c"
    "\<forall>t \<in> set succs. t < length (ir_basic_blocks ir) \<and> map_option length (block_inputs ir t) = Some (length outs)"
proof -
  have "block_closed ir b"
    using assms by (simp add: ir_closed_def)
  moreover from this obtain ins outs ops c succs where
    "block_inputs ir b = Some ins" "block_outputs ir b = Some outs" "block_operations ir b = Some ops"
    "block_control ir b = Some c" "block_successors ir b = Some succs"
    by (auto simp: block_closed_def split: option.splits)
  ultimately show ?thesis
    by (intro that [of ins outs ops c succs]) (simp_all add: block_closed_def)
qed

lemma op_closedE:
  assumes "ir_closed ir" and "i < length (ir_operations ir)"
  obtains op ins outs where
    "opview_op ir i = Some op" "iv_index (ir_operations ir) i = Some op" "well_typed op"
    "op_inputs ir op = Some ins" "op_outputs ir op = Some outs"
    "\<forall>l \<in> set ins. l < ir_next_free_local_id ir" "\<forall>l \<in> set outs. l < ir_next_free_local_id ir"
    "op_closed ir op"
proof -
  have "op_closed ir (ir_operations ir ! i)"
    using assms by (simp add: ir_closed_def)
  moreover from this obtain ins outs where
    "op_inputs ir (ir_operations ir ! i) = Some ins" "op_outputs ir (ir_operations ir ! i) = Some outs"
    by (auto simp: op_closed_def split: option.splits)
  ultimately show ?thesis
    using assms(2)
    by (intro that [of "ir_operations ir ! i" ins outs])
      (simp_all add: op_closed_def opview_op_def iv_index_def)
qed

section \<open>The measures\<close>

definition sccp_inv :: "eth_ir_program \<Rightarrow> sccp \<Rightarrow> bool" where
  "sccp_inv ir s \<longleftrightarrow>
     length (sc_lattice s) = ir_next_free_local_id ir
     \<and> set (sc_values_worklist s) \<subseteq> {..<ir_next_free_local_id ir}
     \<and> set (sc_cfg_worklist s) \<subseteq> {..<length (ir_basic_blocks ir)}
     \<and> sc_reachable s \<subseteq> {..<length (ir_basic_blocks ir)}"

definition values_potential :: "sccp \<Rightarrow> nat" where
  "values_potential s = sum_list (map lv_height (sc_lattice s)) + length (sc_values_worklist s)"

definition cfg_potential :: "eth_ir_program \<Rightarrow> sccp \<Rightarrow> nat" where
  "cfg_potential ir s = length (sc_cfg_worklist s) + (length (ir_basic_blocks ir) - card (sc_reachable s))"

definition sccp_below :: "eth_ir_program \<Rightarrow> nat \<Rightarrow> nat \<Rightarrow> sccp \<Rightarrow> bool" where
  "sccp_below ir m c s \<longleftrightarrow> sccp_inv ir s \<and> values_potential s \<le> m \<and> cfg_potential ir s \<le> c"

text \<open>An operation on the state that neither panics nor raises the measures.\<close>

definition sccp_total :: "eth_ir_program \<Rightarrow> (sccp \<Rightarrow> sccp panics) \<Rightarrow> bool" where
  "sccp_total ir f \<longleftrightarrow> (\<forall>m c s. sccp_below ir m c s \<longrightarrow> (\<exists>s'. f s = Some s' \<and> sccp_below ir m c s'))"

lemma sccp_totalI:
  "(\<And>m c s. sccp_below ir m c s \<Longrightarrow> \<exists>s'. f s = Some s' \<and> sccp_below ir m c s') \<Longrightarrow> sccp_total ir f"
  by (simp add: sccp_total_def)

lemma sccp_totalD:
  "sccp_total ir f \<Longrightarrow> sccp_below ir m c s \<Longrightarrow> \<exists>s'. f s = Some s' \<and> sccp_below ir m c s'"
  by (simp add: sccp_total_def)

lemma sccp_total_skip [intro]: "sccp_total ir Some"
  by (simp add: sccp_total_def)

lemma sccp_total_seq: "sccp_total ir f \<Longrightarrow> sccp_total ir g \<Longrightarrow> sccp_total ir (\<lambda>s. do { s \<leftarrow> f s; g s })"
  by (fastforce simp: sccp_total_def)

lemma sccp_total_fold:
  "(\<And>x. x \<in> set xs \<Longrightarrow> sccp_total ir (f x)) \<Longrightarrow> sccp_total ir (fold_panics f xs)"
  unfolding sccp_total_def by (intro allI impI fold_panics_total) blast+

lemma sum_heights_update:
  "l < length xs \<Longrightarrow> h' + k \<le> lv_height (xs ! l) \<Longrightarrow> lv_height v = h' \<Longrightarrow>
   sum_list (map lv_height (xs[l := v])) + k \<le> sum_list (map lv_height xs)"
proof (induction xs arbitrary: l)
  case (Cons x xs)
  then show ?case
    by (cases l) auto
qed simp

lemma sccp_total_meet_push:
  assumes "l < ir_next_free_local_id ir"
  shows "sccp_total ir (meet_push l v)"
proof (rule sccp_totalI)
  fix m c s
  assume below: "sccp_below ir m c s"
  then have l: "l < length (sc_lattice s)"
    using assms by (simp add: sccp_below_def sccp_inv_def)
  obtain met changed where met: "lv_meet (sc_lattice s ! l) v = (met, changed)"
    by fastforce
  have "sum_list (map lv_height ((sc_lattice s)[l := met])) + (if changed then 1 else 0)
      \<le> sum_list (map lv_height (sc_lattice s))"
    using sum_heights_update [OF l lv_meet_height [OF met]] by simp
  then show "\<exists>s'. meet_push l v s = Some s' \<and> sccp_below ir m c s'"
    using below assms l met
    by (auto simp: meet_push_def iv_index_def iv_set_def sccp_below_def sccp_inv_def values_potential_def
        cfg_potential_def split: if_splits)
qed


section \<open>The steps of the analysis\<close>

lemma const_u256_total: "l < length lattice \<Longrightarrow> \<exists>v. const_u256 lattice l = Some v"
  by (simp add: const_u256_def iv_index_def)

lemma ternary_total: "map_of ternary_evals k = Some f \<Longrightarrow> \<exists>g. \<forall>a b n. f a b n = Some (g a b n)"
  by (intro exI [of _ "\<lambda>a b n. the (f a b n)"])
    (auto simp: ternary_evals_def evm_addmod_eq evm_mulmod_eq split: if_splits)

lemma ternary_shape: "map_of ternary_evals k = Some f \<Longrightarrow> operation_shape k = AllocatedShape 3 1"
  by (auto simp: ternary_evals_def operation_shape_def operation_table_def split: if_splits)

lemma eval_ternary_total:
  assumes "slice_of locals start (start + 3) = Some [a, b, n]" and "is_idx (length locals)"
    and "a < length lattice" "b < length lattice" "n < length lattice"
    and "\<And>x y z. f x y z = Some (g x y z)"
  shows "\<exists>r. eval_ternary lattice locals start out f = Some r"
    and "eval_ternary lattice locals start out f = Some (Some (out', v)) \<Longrightarrow> out' = out"
proof -
  have len: "start + 3 \<le> length locals" and ins: "take 3 (drop start locals) = [a, b, n]"
    using assms(1) by (simp_all add: slice_of_Some)
  have "locals ! (start + i) = [a, b, n] ! i" if "i < 3" for i
    using that len unfolding ins [symmetric] by simp
  from this [of 0] this [of 1] this [of 2]
  have "locals ! start = a" "locals ! (start + 1) = b" "locals ! (start + 2) = n"
    by simp_all
  moreover have "idx_add start 1 = Some (start + 1)" "idx_add start 2 = Some (start + 2)"
    using len assms(2) by (simp_all add: idx_add_Some is_idx_def)
  moreover obtain va vb vn where "const_u256 lattice a = Some va" "const_u256 lattice b = Some vb"
    "const_u256 lattice n = Some vn"
    using const_u256_total [OF assms(3)] const_u256_total [OF assms(4)] const_u256_total [OF assms(5)] by blast
  ultimately have eq: "eval_ternary lattice locals start out f =
      Some (case (va, vb, vn) of (Some x, Some y, Some z) \<Rightarrow> Some (out, g x y z) | _ \<Rightarrow> None)"
    using len assms(6) by (simp add: eval_ternary_def iv_index_def split: option.split)
  show "\<exists>r. eval_ternary lattice locals start out f = Some r"
    by (simp add: eq)
  show "eval_ternary lattice locals start out f = Some (Some (out', v)) \<Longrightarrow> out' = out"
    by (auto simp: eq split: option.splits)
qed

lemma eval_binary_total:
  "a < length lattice \<Longrightarrow> b < length lattice \<Longrightarrow>
   \<exists>r. eval_binary lattice a b out f = Some r \<and> (\<forall>out' v. r = Some (out', v) \<longrightarrow> out' = out)"
  using const_u256_total [of a lattice] const_u256_total [of b lattice]
  by (auto simp: eval_binary_def split: option.split)

lemma eval_unary_total:
  "a < length lattice \<Longrightarrow>
   \<exists>r. eval_unary lattice a out f = Some r \<and> (\<forall>out' v. r = Some (out', v) \<longrightarrow> out' = out)"
  using const_u256_total [of a lattice] by (auto simp: eval_unary_def)

lemma evaluate_inline_total:
  assumes "op_payload op = InlineOperands ins outs" and "\<forall>l \<in> set ins. l < length lattice"
  shows "\<exists>r. sccp_evaluate lattice ir op = Some r \<and> (\<forall>out v. r = Some (out, v) \<longrightarrow> out \<in> set outs)"
proof -
  consider a b out where "ins = [a, b]" "outs = [out]" | a out where "ins = [a]" "outs = [out]"
    | "\<not> (length outs = 1 \<and> (length ins = 1 \<or> length ins = 2))"
    using that length_Suc_conv [of ins 1] length_Suc_conv [of outs 0] length_Suc_conv [of ins 0]
    by (fastforce simp: length_Suc_conv numeral_2_eq_2)
  then show ?thesis
  proof cases
    case (1 a b out)
    then show ?thesis
      using assms eval_binary_total [of a lattice b out]
      by (auto simp: sccp_evaluate_def split: option.split)
  next
    case (2 a out)
    then show ?thesis
      using assms eval_unary_total [of a lattice out]
      by (auto simp: sccp_evaluate_def split: option.split)
  next
    case 3
    then have "sccp_evaluate lattice ir op = Some None"
      using assms(1) by (auto simp: sccp_evaluate_def split: list.split)
    then show ?thesis
      by simp
  qed
qed

lemma sccp_evaluate_total:
  assumes "ir_closed ir" and "op_closed ir op" and "length lattice = ir_next_free_local_id ir"
  obtains r where "sccp_evaluate lattice ir op = Some r"
    and "\<And>out v. r = Some (out, v) \<Longrightarrow> out < ir_next_free_local_id ir"
proof -
  let ?n = "ir_next_free_local_id ir"
  obtain ins outs where ins: "op_inputs ir op = Some ins" "\<forall>l \<in> set ins. l < ?n"
    and outs: "op_outputs ir op = Some outs" "\<forall>l \<in> set outs. l < ?n"
    using assms(2) by (auto simp: op_closed_def split: option.splits)
  have "\<exists>r. sccp_evaluate lattice ir op = Some r \<and> (\<forall>out v. r = Some (out, v) \<longrightarrow> out < ?n)"
  proof (cases "op_payload op")
    case (InlineOperands ins1 os)
    then have "ins1 = ins" "os = outs"
      using ins outs by (simp_all add: op_inputs_def op_outputs_def inputs_getter_def outputs_getter_def)
    then show ?thesis
      using evaluate_inline_total [OF InlineOperands, of lattice ir] ins(2) outs(2) assms(3) by auto
  next
    case (AllocatedIns n start os)
    show ?thesis
    proof (cases "map_of ternary_evals (op_kind op)")
      case (Some f)
      obtain g where g: "\<And>x y z. f x y z = Some (g x y z)"
        using ternary_total [OF Some] by blast
      have "n = 3" and os: "length os = 1"
        using Some assms(2) AllocatedIns ternary_shape [OF Some]
        by (simp_all add: op_closed_def well_typed_def payload_has_shape_def)
      then have "slice_of (ir_locals ir) start (start + 3) = Some ins" and out: "os = outs"
        using ins outs AllocatedIns
        by (simp_all add: op_inputs_def op_outputs_def inputs_getter_def outputs_getter_def allocated_get_inputs_def)
      moreover from this have "length ins = 3"
        by (auto simp: slice_of_Some)
      then obtain a b c where "ins = [a, b, c]"
        by (auto simp: length_Suc_conv numeral_3_eq_3)
      moreover obtain out where "os = [out]"
        using os by (cases os) auto
      ultimately show ?thesis
        using eval_ternary_total [of "ir_locals ir" start a b c lattice f g out] assms(1,3) ins(2) outs(2)
          g Some AllocatedIns
        by (auto simp: sccp_evaluate_def ir_closed_def)
    qed (auto simp: AllocatedIns sccp_evaluate_def split: list.split)
  qed (simp_all add: sccp_evaluate_def)
  then show ?thesis
    using that by blast
qed


lemma sccp_constant_total:
  assumes "op_closed ir op"
  shows "\<exists>r. sccp_constant op (ir_large_consts ir) = Some r
    \<and> (\<forall>l v. r = Some (l, v) \<longrightarrow> l < ir_next_free_local_id ir)"
proof -
  obtain outs where outs: "op_outputs ir op = Some outs" "\<forall>l \<in> set outs. l < ir_next_free_local_id ir"
    using assms by (auto simp: op_closed_def split: option.splits)
  show ?thesis
    using assms outs
    by (cases "op_payload op")
      (auto simp: sccp_constant_def op_outputs_def outputs_getter_def op_closed_def iv_index_def
        split: list.split option.splits)
qed

lemma sccp_total_push_all:
  assumes "\<forall>l \<in> set outs. l < ir_next_free_local_id ir"
  shows "sccp_total ir (fold_panics (\<lambda>out. meet_push out v) outs)"
  using assms by (intro sccp_total_fold sccp_total_meet_push) simp

lemma sccp_below_length: "sccp_below ir m c s \<Longrightarrow> length (sc_lattice s) = ir_next_free_local_id ir"
  by (simp add: sccp_below_def sccp_inv_def)

lemma sccp_total_process_operation:
  assumes "ir_closed ir" and "i < length (ir_operations ir)"
  shows "sccp_total ir (process_operation ir i)"
proof (rule sccp_totalI)
  fix m c s
  assume below: "sccp_below ir m c s"
  obtain op ins outs where op: "opview_op ir i = Some op" "op_closed ir op" "op_outputs ir op = Some outs"
    "\<forall>l \<in> set outs. l < ir_next_free_local_id ir"
    by (rule op_closedE [OF assms]) simp
  obtain k where k: "sccp_constant op (ir_large_consts ir) = Some k"
    "\<forall>l v. k = Some (l, v) \<longrightarrow> l < ir_next_free_local_id ir"
    using sccp_constant_total [OF op(2)] by blast
  obtain e where e: "sccp_evaluate (sc_lattice s) ir op = Some e"
    "\<And>out v. e = Some (out, v) \<Longrightarrow> out < ir_next_free_local_id ir"
    using sccp_evaluate_total [OF assms(1) op(2) sccp_below_length [OF below]] by blast
  show "\<exists>s'. process_operation ir i s = Some s' \<and> sccp_below ir m c s'"
  proof (cases k)
    case (Some lv)
    then show ?thesis
      using sccp_totalD [OF sccp_total_meet_push below, of "fst lv" "snd lv"] op(1) k
      by (cases lv) (simp add: process_operation_def)
  next
    case None
    show ?thesis
    proof (cases e)
      case (Some ov)
      then show ?thesis
        using sccp_totalD [OF sccp_total_meet_push below, of "fst ov" "Const (snd ov)"] op(1) k(1) e None
        by (cases ov) (simp add: process_operation_def)
    next
      case e_None: None
      then show ?thesis
        using sccp_totalD [OF sccp_total_push_all [OF op(4)] below] op(1,3) k(1) e(1) None
        by (simp add: process_operation_def)
    qed
  qed
qed

lemma sccp_total_process_operations:
  assumes "ir_closed ir" and "b < length (ir_basic_blocks ir)"
  shows "sccp_total ir (process_operations ir b)"
proof -
  obtain ops where ops: "block_operations ir b = Some ops" "\<forall>i \<in> set ops. i < length (ir_operations ir)"
    by (rule block_closedE [OF assms]) simp
  have "sccp_total ir (fold_panics (process_operation ir) ops)"
  proof (rule sccp_total_fold)
    show "sccp_total ir (process_operation ir i)" if "i \<in> set ops" for i
      using that ops(2) by (intro sccp_total_process_operation assms(1)) simp
  qed
  then show ?thesis
    using ops(1) by (simp add: sccp_total_def process_operations_def)
qed

lemma is_edge_reachable_total:
  assumes "ir_closed ir" and "b < length (ir_basic_blocks ir)" and "length lattice = ir_next_free_local_id ir"
  shows "\<exists>r. is_edge_reachable ir lattice b to = Some r"
proof -
  obtain c where c: "block_control ir b = Some c" "control_closed ir c"
    by (rule block_closedE [OF assms(1,2)]) simp
  show ?thesis
  proof (cases c)
    case (Switch sw)
    then have "sw_condition sw < length lattice" "\<And>val. \<exists>t. switch_target ir sw val = Some t"
      using c(2) assms(3) by (auto simp: control_closed_def)
    moreover from this obtain cv where "const_u256 lattice (sw_condition sw) = Some cv"
      using const_u256_total by blast
    moreover obtain t where "switch_target ir sw (the cv) = Some t"
      using calculation(2) [of "the cv"] by blast
    ultimately show ?thesis
      using c(1) Switch by (cases cv) (simp_all add: is_edge_reachable_def ex_bool_eq)
  qed (use c assms(3) in \<open>auto simp: is_edge_reachable_def control_closed_def iv_index_def\<close>)
qed

lemma sccp_total_flow:
  assumes "out < ir_next_free_local_id ir" and "inp < ir_next_free_local_id ir"
  shows "sccp_total ir (\<lambda>s. do { v \<leftarrow> iv_index (sc_lattice s) out; meet_push inp v s })"
proof (rule sccp_totalI)
  fix m c s
  assume "sccp_below ir m c s"
  then show "\<exists>s'. do { v \<leftarrow> iv_index (sc_lattice s) out; meet_push inp v s } = Some s' \<and> sccp_below ir m c s'"
    using sccp_totalD [OF sccp_total_meet_push [OF assms(2)]] sccp_below_length assms(1)
    by (simp add: iv_index_def)
qed

lemma sccp_total_flow_outputs:
  assumes "ir_closed ir" and "b < length (ir_basic_blocks ir)" and "t < length (ir_basic_blocks ir)"
  shows "sccp_total ir (flow_outputs_to ir b t)"
proof -
  obtain outs where outs: "block_outputs ir b = Some outs" "\<forall>l \<in> set outs. l < ir_next_free_local_id ir"
    by (rule block_closedE [OF assms(1,2)]) simp
  obtain ins where ins: "block_inputs ir t = Some ins" "\<forall>l \<in> set ins. l < ir_next_free_local_id ir"
    by (rule block_closedE [OF assms(1,3)]) simp
  have "sccp_total ir (fold_panics
      (\<lambda>(out, inp) s. do { v \<leftarrow> iv_index (sc_lattice s) out; meet_push inp v s }) (zip outs ins))"
  proof (rule sccp_total_fold)
    fix x
    assume "x \<in> set (zip outs ins)"
    moreover obtain out inp where "x = (out, inp)"
      by fastforce
    ultimately have "x = (out, inp)" "out \<in> set outs" "inp \<in> set ins"
      by (auto dest: set_zip_leftD set_zip_rightD)
    then show "sccp_total ir ((\<lambda>(out, inp) s. do { v \<leftarrow> iv_index (sc_lattice s) out; meet_push inp v s }) x)"
      using sccp_total_flow [of out ir inp] outs ins by simp
  qed
  then show ?thesis
    using outs ins by (simp add: sccp_total_def flow_outputs_to_def)
qed

lemma sccp_total_flow_single:
  assumes "ir_closed ir" and "b < length (ir_basic_blocks ir)" and "t < length (ir_basic_blocks ir)"
    and "block_outputs ir b = Some outs" and "map_option length (block_inputs ir t) = Some (length outs)"
    and "idx < length outs"
  shows "sccp_total ir (flow_single_output_to ir b t idx)"
proof -
  have outs: "\<forall>l \<in> set outs. l < ir_next_free_local_id ir"
    by (rule block_closedE [OF assms(1,2)]) (simp add: assms(4))
  obtain ins where ins: "block_inputs ir t = Some ins" "\<forall>l \<in> set ins. l < ir_next_free_local_id ir"
    by (rule block_closedE [OF assms(1,3)]) simp
  have "sccp_total ir (\<lambda>s. do { v \<leftarrow> iv_index (sc_lattice s) (outs ! idx); meet_push (ins ! idx) v s })"
    using assms(5,6) ins outs by (intro sccp_total_flow) auto
  then show ?thesis
    using assms(4-6) ins(1) by (simp add: sccp_total_def flow_single_output_to_def)
qed

lemma sccp_total_mark_reachable:
  assumes "ir_closed ir" and "b < length (ir_basic_blocks ir)" and "t < length (ir_basic_blocks ir)"
  shows "sccp_total ir (sccp_mark_reachable ir b t)"
proof (rule sccp_totalI)
  fix m c s
  assume below: "sccp_below ir m c s"
  show "\<exists>s'. sccp_mark_reachable ir b t s = Some s' \<and> sccp_below ir m c s'"
  proof (cases "t \<in> sc_reachable s")
    case False
    let ?s = "s\<lparr>sc_reachable := insert t (sc_reachable s), sc_cfg_worklist := t # sc_cfg_worklist s\<rparr>"
    have sub: "insert t (sc_reachable s) \<subseteq> {..<length (ir_basic_blocks ir)}"
      using below assms(3) by (auto simp: sccp_below_def sccp_inv_def)
    then have "finite (sc_reachable s)"
      by (meson finite_lessThan finite_subset subset_insertI subset_trans)
    moreover from this have "Suc (card (sc_reachable s)) \<le> length (ir_basic_blocks ir)"
      using card_mono [OF _ sub] False by simp
    ultimately have "sccp_below ir m c ?s"
      using below sub False
      by (auto simp: sccp_below_def sccp_inv_def values_potential_def cfg_potential_def)
    then show ?thesis
      using sccp_totalD [OF sccp_total_flow_outputs [OF assms]] False by (simp add: sccp_mark_reachable_def)
  qed (use below in \<open>simp add: sccp_mark_reachable_def\<close>)
qed


text \<open>Visiting the executable successors of a block.\<close>

lemma sccp_total_successors:
  assumes "ir_closed ir" and "b < length (ir_basic_blocks ir)" and "block_successors ir b = Some succs"
    and f: "\<And>t. t \<in> set succs \<Longrightarrow> sccp_total ir (f t)"
  shows "sccp_total ir (fold_panics (\<lambda>t s.
      do { r \<leftarrow> is_edge_reachable ir (sc_lattice s) b t; if r then f t s else Some s }) succs)"
proof (rule sccp_total_fold, rule sccp_totalI)
  fix t m c s
  assume t: "t \<in> set succs" and below: "sccp_below ir m c s"
  obtain r where r: "is_edge_reachable ir (sc_lattice s) b t = Some r"
    using is_edge_reachable_total [OF assms(1,2) sccp_below_length [OF below]] by blast
  show "\<exists>s'. do { r \<leftarrow> is_edge_reachable ir (sc_lattice s) b t; if r then f t s else Some s } = Some s'
      \<and> sccp_below ir m c s'"
    using sccp_totalD [OF f [OF t] below] below r by simp
qed

lemma sccp_total_process_control:
  assumes "ir_closed ir" and "b < length (ir_basic_blocks ir)"
  shows "sccp_total ir (process_control ir b)"
proof -
  obtain succs where succs: "block_successors ir b = Some succs"
    "\<forall>t \<in> set succs. t < length (ir_basic_blocks ir)"
    by (rule block_closedE [OF assms]) simp
  have "sccp_total ir (fold_panics (\<lambda>t s.
      do { r \<leftarrow> is_edge_reachable ir (sc_lattice s) b t; if r then sccp_mark_reachable ir b t s else Some s }) succs)"
    using succs(2) by (intro sccp_total_successors assms succs(1) sccp_total_mark_reachable) simp
  then show ?thesis
    using succs(1) by (simp add: sccp_total_def process_control_def)
qed

lemma all_overdefined_total: "\<forall>l \<in> set outs. l < length lattice \<Longrightarrow> \<exists>r. all_overdefined lattice outs = Some r"
  by (induction outs) (auto simp: iv_index_def)

text \<open>The uses the def-use chains can hold.\<close>

definition use_ok :: "eth_ir_program \<Rightarrow> use_location \<Rightarrow> bool" where
  "use_ok ir u \<longleftrightarrow> ul_block_id u < length (ir_basic_blocks ir)
     \<and> (case ul_kind u of
          UseOperation i \<Rightarrow> i < length (ir_operations ir)
        | UseControl \<Rightarrow> True
        | UseBlockOutput idx \<Rightarrow> (\<exists>outs. block_outputs ir (ul_block_id u) = Some outs \<and> idx < length outs))"

lemma sccp_total_process_use:
  assumes "ir_closed ir" and "use_ok ir u"
  shows "sccp_total ir (process_use ir (ul_block_id u) (ul_kind u))"
proof (cases "ul_kind u")
  case (UseOperation i)
  then have i: "i < length (ir_operations ir)"
    using assms(2) by (simp add: use_ok_def)
  show ?thesis
  proof (rule sccp_totalI)
    fix m c s
    assume below: "sccp_below ir m c s"
    obtain op outs where op: "iv_index (ir_operations ir) i = Some op" "op_closed ir op"
      "op_outputs ir op = Some outs" "\<forall>l \<in> set outs. l < ir_next_free_local_id ir"
      by (rule op_closedE [OF assms(1) i]) simp
    obtain e where e: "sccp_evaluate (sc_lattice s) ir op = Some e"
      "\<And>out v. e = Some (out, v) \<Longrightarrow> out < ir_next_free_local_id ir"
      using sccp_evaluate_total [OF assms(1) op(2) sccp_below_length [OF below]] by blast
    obtain r where r: "all_overdefined (sc_lattice s) outs = Some r"
      using all_overdefined_total [of outs "sc_lattice s"] op(4) sccp_below_length [OF below] by auto
    show "\<exists>s'. process_use ir (ul_block_id u) (ul_kind u) s = Some s' \<and> sccp_below ir m c s'"
    proof (cases e)
      case None
      then show ?thesis
        using sccp_totalD [OF sccp_total_push_all [OF op(4)] below, of Overdefined] below op e(1) r UseOperation
        by (cases r) (simp_all add: process_use_def)
    next
      case (Some ov)
      then show ?thesis
        using sccp_totalD [OF sccp_total_meet_push below, of "fst ov" "Const (snd ov)"] below op e r UseOperation
        by (cases ov; cases r) (simp_all add: process_use_def)
    qed
  qed
next
  case UseControl
  then show ?thesis
    using sccp_total_process_control [OF assms(1), of "ul_block_id u"] assms(2)
    by (simp add: sccp_total_def process_use_def use_ok_def)
next
  case (UseBlockOutput idx)
  let ?b = "ul_block_id u"
  obtain outs where outs: "block_outputs ir ?b = Some outs" "idx < length outs" and b: "?b < length (ir_basic_blocks ir)"
    using assms(2) UseBlockOutput by (auto simp: use_ok_def)
  obtain succs where succs: "block_successors ir ?b = Some succs"
    "\<forall>t \<in> set succs. t < length (ir_basic_blocks ir) \<and> map_option length (block_inputs ir t) = Some (length outs)"
    by (rule block_closedE [OF assms(1) b]) (simp add: outs(1))
  have "sccp_total ir (fold_panics (\<lambda>t s.
      do { r \<leftarrow> is_edge_reachable ir (sc_lattice s) ?b t; if r then flow_single_output_to ir ?b t idx s else Some s }) succs)"
  proof (rule sccp_total_successors [OF assms(1) b succs(1)])
    show "sccp_total ir (flow_single_output_to ir ?b t idx)" if "t \<in> set succs" for t
      using that succs(2) outs by (intro sccp_total_flow_single assms(1) b) simp_all
  qed
  then show ?thesis
    using succs(1) UseBlockOutput by (simp add: sccp_total_def process_use_def)
qed

section \<open>The loops\<close>

definition def_use_ok :: "eth_ir_program \<Rightarrow> def_use \<Rightarrow> bool" where
  "def_use_ok ir uses \<longleftrightarrow>
     length uses = ir_next_free_local_id ir \<and> (\<forall>us \<in> set uses. \<forall>u \<in> set us. use_ok ir u)"

lemma process_values_total:
  assumes closed: "ir_closed ir" and uses: "def_use_ok ir uses"
  shows "sccp_below ir m c s \<Longrightarrow> m < fuel \<Longrightarrow>
    \<exists>s'. process_values fuel ir uses s = Some s' \<and> sccp_below ir m c s' \<and> sc_values_worklist s' = []"
proof (induction fuel arbitrary: m s)
  case (Suc fuel)
  show ?case
  proof (cases "sc_values_worklist s")
    case Nil
    then show ?thesis
      using Suc.prems(1) by simp
  next
    case (Cons v rest)
    let ?body = "\<lambda>u s. if ul_block_id u \<in> sc_reachable s then process_use ir (ul_block_id u) (ul_kind u) s else Some s"
    have v: "v < length uses"
      using Suc.prems(1) uses Cons by (simp add: sccp_below_def sccp_inv_def def_use_ok_def)
    have below: "sccp_below ir (m - 1) c (s\<lparr>sc_values_worklist := rest\<rparr>)" and "0 < m"
      using Suc.prems(1) Cons
      by (auto simp: sccp_below_def sccp_inv_def values_potential_def cfg_potential_def)
    have "sccp_total ir (fold_panics ?body (uses ! v))"
    proof (rule sccp_total_fold, rule sccp_totalI)
      fix u m c s
      assume "u \<in> set (uses ! v)" "sccp_below ir m c s"
      moreover from this have "use_ok ir u"
        using uses nth_mem [OF v] by (auto simp: def_use_ok_def)
      ultimately show "\<exists>s'. ?body u s = Some s' \<and> sccp_below ir m c s'"
        using sccp_totalD [OF sccp_total_process_use [OF closed]] by simp
    qed
    then obtain s1 where s1: "fold_panics ?body (uses ! v) (s\<lparr>sc_values_worklist := rest\<rparr>) = Some s1"
      "sccp_below ir (m - 1) c s1"
      using sccp_totalD [OF _ below] by blast
    have "m - 1 < fuel"
      using Suc.prems(2) \<open>0 < m\<close> by simp
    then obtain s2 where "process_values fuel ir uses s1 = Some s2" "sccp_below ir (m - 1) c s2"
      "sc_values_worklist s2 = []"
      using Suc.IH [OF s1(2)] by blast
    moreover from this have "sccp_below ir m c s2"
      by (auto simp: sccp_below_def)
    ultimately show ?thesis
      using Cons v s1(1) by (simp add: iv_index_def)
  qed
qed simp

lemma sccp_loop_total:
  assumes closed: "ir_closed ir" and uses: "def_use_ok ir uses" and vfuel: "m < vfuel"
  shows "sccp_below ir m c s \<Longrightarrow> sc_values_worklist s = [] \<Longrightarrow> c < fuel \<Longrightarrow>
    \<exists>s'. sccp_loop fuel vfuel ir uses s = Some s' \<and> sccp_below ir m c s'
      \<and> sc_values_worklist s' = [] \<and> sc_cfg_worklist s' = []"
proof (induction fuel arbitrary: c s)
  case (Suc fuel)
  show ?case
  proof (cases "sc_cfg_worklist s")
    case Nil
    then show ?thesis
      using Suc.prems by simp
  next
    case (Cons b rest)
    have b: "b < length (ir_basic_blocks ir)"
      using Suc.prems(1) Cons by (simp add: sccp_below_def sccp_inv_def)
    have below: "sccp_below ir m (c - 1) (s\<lparr>sc_cfg_worklist := rest\<rparr>)" and "0 < c"
      using Suc.prems(1) Cons
      by (auto simp: sccp_below_def sccp_inv_def values_potential_def cfg_potential_def)
    have fuel: "c - 1 < fuel"
      using Suc.prems(3) \<open>0 < c\<close> by simp
    obtain s1 where s1: "process_operations ir b (s\<lparr>sc_cfg_worklist := rest\<rparr>) = Some s1" "sccp_below ir m (c - 1) s1"
      using sccp_totalD [OF sccp_total_process_operations [OF closed b] below] by blast
    obtain s2 where s2: "process_control ir b s1 = Some s2" "sccp_below ir m (c - 1) s2"
      using sccp_totalD [OF sccp_total_process_control [OF closed b] s1(2)] by blast
    obtain s3 where s3: "process_values vfuel ir uses s2 = Some s3" "sccp_below ir m (c - 1) s3"
      "sc_values_worklist s3 = []"
      using process_values_total [OF closed uses s2(2) vfuel] by blast
    obtain s4 where "sccp_loop fuel vfuel ir uses s3 = Some s4" "sccp_below ir m (c - 1) s4"
      "sc_values_worklist s4 = []" "sc_cfg_worklist s4 = []"
      using Suc.IH [OF s3(2,3)] fuel by auto
    moreover from this have "sccp_below ir m c s4"
      by (auto simp: sccp_below_def)
    ultimately show ?thesis
      using Cons s1(1) s2(1) s3(1) by (simp add: process_block_def)
  qed
qed simp


section \<open>The start of the analysis\<close>

lemma push_use_total:
  assumes "def_use_ok ir uses" and "l < ir_next_free_local_id ir" and "use_ok ir \<lparr>ul_block_id = b, ul_kind = k\<rparr>"
  shows "\<exists>uses'. push_use b k l uses = Some uses' \<and> def_use_ok ir uses'"
proof -
  have "\<forall>u \<in> set (uses ! l). use_ok ir u"
    using assms(1,2) nth_mem [of l uses] by (auto simp: def_use_ok_def)
  then show ?thesis
    using assms
    by (auto simp: push_use_def def_use_ok_def iv_index_def iv_set_def
        dest!: set_update_subset_insert [THEN subsetD])
qed

lemma block_uses_total:
  assumes closed: "ir_closed ir" and b: "b < length (ir_basic_blocks ir)" and uses: "def_use_ok ir uses"
  shows "\<exists>uses'. block_uses ir b uses = Some uses' \<and> def_use_ok ir uses'"
proof -
  obtain outs ops c where b_ir: "block_outputs ir b = Some outs" "block_operations ir b = Some ops"
      "block_control ir b = Some c" "\<forall>l \<in> set outs. l < ir_next_free_local_id ir"
      "\<forall>i \<in> set ops. i < length (ir_operations ir)" "control_closed ir c"
    by (rule block_closedE [OF closed b]) simp
  let ?ops = "\<lambda>i uses. do { ins \<leftarrow> opview_inputs ir i; fold_panics (push_use b (UseOperation i)) ins uses }"
  have op: "\<exists>uses'. ?ops i uses = Some uses' \<and> def_use_ok ir uses'"
    if "i \<in> set ops" "def_use_ok ir uses" for i uses
  proof -
    have i: "i < length (ir_operations ir)"
      using that(1) b_ir(5) by simp
    obtain op ins where ins: "opview_op ir i = Some op" "op_inputs ir op = Some ins"
        "\<forall>l \<in> set ins. l < ir_next_free_local_id ir"
      by (rule op_closedE [OF closed i]) simp
    have "\<exists>uses'. fold_panics (push_use b (UseOperation i)) ins uses = Some uses' \<and> def_use_ok ir uses'"
      using ins(3) that(2) b i by (intro fold_panics_total) (auto intro!: push_use_total simp: use_ok_def)
    then show ?thesis
      using ins by (simp add: opview_inputs_def opview_op_def)
  qed
  obtain u1 where u1: "fold_panics ?ops ops uses = Some u1" "def_use_ok ir u1"
    using fold_panics_total [where xs = ops and P = "def_use_ok ir" and f = ?ops and s = uses] op uses by blast
  let ?control = "case c of
      Branches br \<Rightarrow> push_use b UseControl (br_condition br) u1
    | Switch sw \<Rightarrow> push_use b UseControl (sw_condition sw) u1
    | _ \<Rightarrow> Some u1"
  have "\<exists>u2. ?control = Some u2 \<and> def_use_ok ir u2"
    using b_ir(6) u1(2) b
    by (cases c) (auto simp: control_closed_def use_ok_def intro!: push_use_total)
  then obtain u2 where u2: "?control = Some u2" "def_use_ok ir u2"
    by blast
  let ?out = "\<lambda>(idx, l). push_use b (UseBlockOutput idx) l"
  have "\<exists>u3. fold_panics ?out (enumerate 0 outs) u2 = Some u3 \<and> def_use_ok ir u3"
  proof (rule fold_panics_total)
    fix x uses
    assume x: "x \<in> set (enumerate 0 outs)" and uses: "def_use_ok ir uses"
    obtain idx l where il: "x = (idx, l)"
      by fastforce
    then have "idx < length outs" "l \<in> set outs"
      using x by (auto simp: in_set_enumerate_eq)
    then show "\<exists>uses'. ?out x uses = Some uses' \<and> def_use_ok ir uses'"
      using il b_ir(1,4) b push_use_total [OF uses] by (simp add: use_ok_def)
  qed (rule u2(2))
  then show ?thesis
    using b_ir(1-3) u1(1) u2(1) by (simp add: block_uses_def)
qed

lemma compute_def_use_total:
  assumes "ir_closed ir"
  obtains uses where "compute_def_use ir = Some uses" and "def_use_ok ir uses"
proof -
  have "\<exists>uses. fold_panics (block_uses ir) [0..<length (ir_basic_blocks ir)] (replicate (ir_next_free_local_id ir) [])
      = Some uses \<and> def_use_ok ir uses"
    using assms by (intro fold_panics_total block_uses_total) (simp_all add: def_use_ok_def)
  then show ?thesis
    using that by (auto simp: compute_def_use_def)
qed

definition sccp_start :: "eth_ir_program \<Rightarrow> nat \<Rightarrow> sccp \<Rightarrow> bool" where
  "sccp_start ir k s \<longleftrightarrow> sccp_inv ir s \<and> sc_values_worklist s = [] \<and> length (sc_cfg_worklist s) \<le> k"

lemma reset_inputs_total:
  "\<forall>l \<in> set inputs. l < length lattice \<Longrightarrow>
   \<exists>lattice'. fold_panics (\<lambda>l lattice. iv_set lattice l Overdefined) inputs lattice = Some lattice'
     \<and> length lattice' = length lattice"
proof (induction inputs arbitrary: lattice)
  case (Cons l inputs)
  then show ?case
    using Cons.IH [of "lattice[l := Overdefined]"] by (simp add: iv_set_def)
qed simp

lemma init_function_total:
  assumes closed: "ir_closed ir" and f: "f < length (ir_functions ir)" and s: "sccp_start ir k s"
  shows "\<exists>s'. sccp_init_function ir f s = Some s' \<and> sccp_start ir (Suc k) s'"
proof -
  let ?e = "fn_entry (ir_functions ir ! f)"
  have e: "?e < length (ir_basic_blocks ir)"
    using closed f by (simp add: ir_closed_def)
  obtain ins where ins: "block_inputs ir ?e = Some ins" "\<forall>l \<in> set ins. l < ir_next_free_local_id ir"
    by (rule block_closedE [OF closed e]) simp
  obtain lattice where "fold_panics (\<lambda>l lattice. iv_set lattice l Overdefined) ins (sc_lattice s) = Some lattice"
    "length lattice = ir_next_free_local_id ir"
    using reset_inputs_total [of ins "sc_lattice s"] ins(2) s by (auto simp: sccp_start_def sccp_inv_def)
  then show ?thesis
    using ins(1) e f s
    by (simp add: sccp_init_function_def function_entry_def iv_index_def sccp_start_def sccp_inv_def)
qed

lemma sccp_reset_total:
  assumes "ir_closed ir"
  shows "\<exists>s. sccp_reset ir = Some s \<and> sccp_start ir (length (ir_functions ir)) s"
proof -
  let ?s = "\<lparr>sc_lattice = replicate (ir_next_free_local_id ir) Unknown, sc_cfg_worklist = [],
      sc_values_worklist = [], sc_reachable = {}\<rparr>"
  have "\<exists>s. fold_panics (sccp_init_function ir) [0..<n] ?s = Some s \<and> sccp_start ir n s"
    if "n \<le> length (ir_functions ir)" for n
    using that
  proof (induction n)
    case 0
    then show ?case
      by (simp add: sccp_start_def sccp_inv_def)
  next
    case (Suc n)
    then obtain s where "fold_panics (sccp_init_function ir) [0..<n] ?s = Some s" "sccp_start ir n s"
      by auto
    then show ?case
      using init_function_total [OF assms, of n n s] Suc.prems by auto
  qed
  then show ?thesis
    by (simp add: sccp_reset_def)
qed

lemma lv_height_le: "lv_height v \<le> 2"
  by (cases v) simp_all

lemma sccp_start_below:
  assumes "sccp_start ir k s"
  shows "sccp_below ir (2 * ir_next_free_local_id ir) (k + length (ir_basic_blocks ir)) s"
proof -
  have "sum_list (map lv_height (sc_lattice s)) \<le> 2 * length (sc_lattice s)"
    using sum_list_mono [of "sc_lattice s" lv_height "\<lambda>_. 2"] lv_height_le by (simp add: sum_list_triv)
  then show ?thesis
    using assms by (auto simp: sccp_start_def sccp_below_def sccp_inv_def values_potential_def cfg_potential_def)
qed

text \<open>
  C3. Constant propagation ends without a panic.  On a closed program the def-use chains are
  computed, and the analysis returns with both worklists empty; it visits at most as many blocks as
  there are functions and blocks, and after each block at most twice as many values as there are
  locals, however the edges and the uses are wired.
\<close>

theorem sccp_analysis_returns:
  assumes "ir_closed ir" and "length (ir_functions ir) + length (ir_basic_blocks ir) < fuel"
    and "2 * ir_next_free_local_id ir < vfuel"
  shows "\<exists>uses s. compute_def_use ir = Some uses \<and> sccp_analysis fuel vfuel ir uses = Some s
    \<and> sc_cfg_worklist s = [] \<and> sc_values_worklist s = []
    \<and> length (sc_lattice s) = ir_next_free_local_id ir"
proof -
  obtain uses where uses: "compute_def_use ir = Some uses" "def_use_ok ir uses"
    using compute_def_use_total [OF assms(1)] by blast
  obtain s where s: "sccp_reset ir = Some s" "sccp_start ir (length (ir_functions ir)) s"
    using sccp_reset_total [OF assms(1)] by blast
  then have "sc_values_worklist s = []"
    by (simp add: sccp_start_def)
  then obtain s' where "sccp_loop fuel vfuel ir uses s = Some s'" "sc_cfg_worklist s' = []"
    "sc_values_worklist s' = []" "length (sc_lattice s') = ir_next_free_local_id ir"
    using sccp_loop_total [OF assms(1) uses(2) assms(3) sccp_start_below [OF s(2)] _ assms(2)]
    by (auto simp: sccp_below_def sccp_inv_def)
  then show ?thesis
    using uses(1) s(1) by (simp add: sccp_analysis_def)
qed

lemma all_less_5: "(\<forall>b < (5::nat). P b) \<longleftrightarrow> P 0 \<and> P 1 \<and> P 2 \<and> P 3 \<and> P 4"
  by (auto simp: numeral_eq_Suc less_Suc_eq)

lemma two_edges_closed: "ir_closed two_edges"
proof -
  have "block_closed two_edges b" if "b < 5" for b
  proof -
    have "\<forall>b < 5. block_closed two_edges b"
      unfolding all_less_5 by (simp add: block_closed_def control_closed_def)
    then show ?thesis
      using that by blast
  qed
  moreover have "op_closed two_edges op" if "op \<in> set (ir_operations two_edges)" for op
    using that
    by (auto simp: two_edges_def op_closed_def well_typed_def payload_has_shape_def operation_shape_def
        operation_table_def op_inputs_def op_outputs_def inputs_getter_def outputs_getter_def)
  ultimately show ?thesis
    by (simp add: ir_closed_def is_idx_def u32_max_def)
qed

theorem sccp_analysis_returns_witness:
  "\<exists>uses s. compute_def_use two_edges = Some uses \<and> sccp_analysis 7 11 two_edges uses = Some s
    \<and> sc_cfg_worklist s = [] \<and> sc_values_worklist s = [] \<and> length (sc_lattice s) = 5"
  using sccp_analysis_returns [of two_edges 7 11] two_edges_closed by simp


section \<open>Evaluation against the meaning of the operations\<close>

text \<open>The value an operation without effects computes, over the integers.\<close>

definition pure_unary :: "operation_kind \<Rightarrow> u256 \<Rightarrow> u256 option" where
  "pure_unary k a =
     (case k of
        KNot \<Rightarrow> Some (word_of_int (2 ^ 256 - 1 - uint a))
      | KIsZero \<Rightarrow> Some (if uint a = 0 then 1 else 0)
      | _ \<Rightarrow> None)"

definition pure_binary :: "operation_kind \<Rightarrow> u256 \<Rightarrow> u256 \<Rightarrow> u256 option" where
  "pure_binary k a b =
     (case k of
        KAdd \<Rightarrow> Some (word_of_int (uint a + uint b))
      | KMul \<Rightarrow> Some (word_of_int (uint a * uint b))
      | KSub \<Rightarrow> Some (word_of_int (uint a - uint b))
      | KDiv \<Rightarrow> Some (word_of_int (if uint b = 0 then 0 else uint a div uint b))
      | KSDiv \<Rightarrow> Some (word_of_int (if sint b = 0 then 0 else sint a sdiv sint b))
      | KMod \<Rightarrow> Some (word_of_int (if uint b = 0 then 0 else uint a mod uint b))
      | KSMod \<Rightarrow> Some (word_of_int (if sint b = 0 then 0 else sint a smod sint b))
      | KExp \<Rightarrow> Some (word_of_int (uint a ^ unat b))
      | KSignExtend \<Rightarrow> Some (if uint a < 32 then signed_take_bit (8 * unat a + 7) b else b)
      | KLt \<Rightarrow> Some (if uint a < uint b then 1 else 0)
      | KGt \<Rightarrow> Some (if uint a > uint b then 1 else 0)
      | KSLt \<Rightarrow> Some (if sint a < sint b then 1 else 0)
      | KSGt \<Rightarrow> Some (if sint a > sint b then 1 else 0)
      | KEq \<Rightarrow> Some (if uint a = uint b then 1 else 0)
      | KAnd \<Rightarrow> Some (word_of_int (uint a AND uint b))
      | KOr \<Rightarrow> Some (word_of_int (uint a OR uint b))
      | KXor \<Rightarrow> Some (word_of_int (uint a XOR uint b))
      | KByte \<Rightarrow> Some (word_of_int (if uint a < 32 then uint b div 256 ^ (31 - unat a) mod 256 else 0))
      | KShl \<Rightarrow> Some (word_of_int (uint b * 2 ^ unat a))
      | KShr \<Rightarrow> Some (word_of_int (uint b div 2 ^ unat a))
      | KSar \<Rightarrow> Some (word_of_int (sint b div 2 ^ unat a))
      | _ \<Rightarrow> None)"

definition pure_ternary :: "operation_kind \<Rightarrow> u256 \<Rightarrow> u256 \<Rightarrow> u256 \<Rightarrow> u256 option" where
  "pure_ternary k a b n =
     (case k of
        KAddMod \<Rightarrow> Some (word_of_int (if uint n = 0 then 0 else (uint a + uint b) mod uint n))
      | KMulMod \<Rightarrow> Some (word_of_int (if uint n = 0 then 0 else (uint a * uint b) mod uint n))
      | _ \<Rightarrow> None)"

definition pure_result :: "operation_kind \<Rightarrow> u256 list \<Rightarrow> u256 option" where
  "pure_result k args =
     (case args of
        [a] \<Rightarrow> pure_unary k a
      | [a, b] \<Rightarrow> pure_binary k a b
      | [a, b, n] \<Rightarrow> pure_ternary k a b n
      | _ \<Rightarrow> None)"

lemma word_of_uint_eqI: "uint (x :: u256) = k mod 2 ^ 256 \<Longrightarrow> x = word_of_int k"
  by (simp add: word_uint_eq_iff uint_word_of_int)

lemma word_of_sint_eqI: "sint (x :: u256) = k \<Longrightarrow> x = word_of_int k"
  by auto

lemma word_of_uint_eqI': "uint (x :: u256) = k \<Longrightarrow> x = word_of_int k"
  by auto

lemma arith_words:
  "evm_add a b = word_of_int (uint a + uint b)"
  "evm_mul a b = word_of_int (uint a * uint b)"
  "evm_sub a b = word_of_int (uint a - uint b)"
  "evm_exp a b = word_of_int (uint a ^ unat b)"
  by (simp_all add: evm_add_def evm_mul_def evm_sub_def evm_exp_def)

lemma bit_words:
  "evm_and a b = word_of_int (uint a AND uint b)"
  "evm_or a b = word_of_int (uint a OR uint b)"
  "evm_xor a b = word_of_int (uint a XOR uint b)"
  by (simp_all add: evm_and_def evm_or_def evm_xor_def bit_eq_iff bit_simps)

lemma not_word: "evm_not a = word_of_int (2 ^ 256 - 1 - uint a)"
proof -
  have "(word_of_int (2 ^ 256 - 1 - uint a) :: u256) = word_of_int (2 ^ 256) - 1 - a"
    unfolding wi_hom_sub [symmetric] word_of_int_uint word_of_int_1 by (rule refl)
  also have "(word_of_int (2 ^ 256) :: u256) = 0"
    by (rule word_uint_eqI) (simp add: uint_word_of_int)
  finally show ?thesis
    by (simp add: evm_not_def not_eq_complement)
qed

lemma unat_less_iff_uint: "unat (x :: u256) < 32 \<longleftrightarrow> uint x < 32"
proof -
  have "uint x < 32 \<longleftrightarrow> int (unat x) < int 32"
    by (simp only: of_nat_numeral uint_nat)
  then show ?thesis
    by (simp only: of_nat_less_iff)
qed

lemma div_words:
  "evm_div a b = word_of_int (if uint b = 0 then 0 else uint a div uint b)"
  "evm_mod a b = word_of_int (if uint b = 0 then 0 else uint a mod uint b)"
  by (rule word_of_uint_eqI', simp add: evm_div_eq evm_mod_eq uint_0_iff)+

lemma sdiv_words:
  "evm_sdiv a b = word_of_int (if sint b = 0 then 0 else sint a sdiv sint b)"
  by (simp add: evm_sdiv_def i256_wrapping_div_def)

lemma smod_words:
  "evm_smod a b = word_of_int (if sint b = 0 then 0 else sint a smod sint b)"
  by (rule word_of_sint_eqI) (simp add: sint_evm_smod sint_u256_0_iff)

lemma shift_words:
  "evm_shl a b = word_of_int (uint b * 2 ^ unat a)"
  "evm_shr a b = word_of_int (uint b div 2 ^ unat a)"
  "evm_sar a b = word_of_int (sint b div 2 ^ unat a)"
    apply (rule word_of_uint_eqI, rule evm_shl_eq)
   apply (rule word_of_uint_eqI', rule evm_shr_eq)
  apply (rule word_of_sint_eqI, rule sint_evm_sar)
  done
lemma byte_words:
  "evm_byte a b = word_of_int (if uint a < 32 then uint b div 256 ^ (31 - unat a) mod 256 else 0)"
  by (rule word_of_uint_eqI') (simp add: evm_byte_eq unat_less_iff_uint)


lemma compare_words:
  "bool_u256 (evm_lt a b) = (if uint a < uint b then 1 else 0)"
  "bool_u256 (evm_gt a b) = (if uint a > uint b then 1 else 0)"
  "bool_u256 (evm_slt a b) = (if sint a < sint b then 1 else 0)"
  "bool_u256 (evm_sgt a b) = (if sint a > sint b then 1 else 0)"
  "bool_u256 (evm_eq a b) = (if uint a = uint b then 1 else 0)"
  "bool_u256 (evm_iszero a) = (if uint a = 0 then 1 else 0)"
  by (simp_all add: bool_u256_def evm_lt_def evm_gt_def evm_slt_def evm_sgt_def evm_eq_def evm_iszero_def
      word_less_def uint_0_iff word_uint_eq_iff [of a b])

lemmas evm_words = arith_words bit_words not_word div_words sdiv_words smod_words shift_words byte_words
  compare_words evm_signextend_eq unat_less_iff_uint

lemma pure_unary_correct: "map_of unary_evals k = Some f \<Longrightarrow> pure_unary k a = Some (f a)"
  by (drule map_of_SomeD) (auto simp: unary_evals_def pure_unary_def not_word compare_words)

lemma pure_binary_correct:
  assumes "map_of binary_evals k = Some f"
  shows "pure_binary k a b = Some (f a b)"
proof -
  have "\<forall>(k, f) \<in> set binary_evals. pure_binary k a b = Some (f a b)"
    unfolding binary_evals_def list.set ball_simps split_conv
    by (intro conjI) (simp_all only: pure_binary_def operation_kind.case evm_words simp_thms)
  then show ?thesis
    using map_of_SomeD [OF assms] by blast
qed

lemma pure_ternary_correct:
  assumes "map_of ternary_evals k = Some f"
  shows "f a b n = Some (the (pure_ternary k a b n)) \<and> pure_ternary k a b n \<noteq> None"
  using map_of_SomeD [OF assms]
  by (auto simp: ternary_evals_def pure_ternary_def evm_addmod_eq evm_mulmod_eq uint_0_iff)

section \<open>Under a sound lattice\<close>

text \<open>
  What a lattice value says of the value a local holds in a run: \<open>evm\<close> gives the values of the
  constants of the environment.  A local that a run has computed is not \<open>Unknown\<close>.
\<close>

definition lattice_models :: "lattice_value list \<Rightarrow> (evm_const_kind \<Rightarrow> u256) \<Rightarrow> (nat \<Rightarrow> u256) \<Rightarrow> nat \<Rightarrow> bool" where
  "lattice_models lattice evm env l \<longleftrightarrow>
     l < length lattice
     \<and> (case lattice ! l of
          Unknown \<Rightarrow> False
        | Const c \<Rightarrow> env l = c
        | EvmConst k \<Rightarrow> env l = evm k
        | Overdefined \<Rightarrow> True)"

lemma const_u256_models:
  "const_u256 lattice l = Some (Some c) \<Longrightarrow> lattice_models lattice evm env l \<Longrightarrow> env l = c"
  by (auto simp: const_u256_def iv_index_def lattice_models_def split: lattice_value.splits if_splits)

lemma eval_binary_Some:
  "eval_binary lattice a b out f = Some (Some (out', v)) \<Longrightarrow>
   out' = out \<and> (\<exists>va vb. const_u256 lattice a = Some (Some va) \<and> const_u256 lattice b = Some (Some vb) \<and> v = f va vb)"
  by (auto simp: eval_binary_def bind_Some split: option.splits)

lemma eval_unary_Some:
  "eval_unary lattice a out f = Some (Some (out', v)) \<Longrightarrow>
   out' = out \<and> (\<exists>va. const_u256 lattice a = Some (Some va) \<and> v = f va)"
  by (auto simp: eval_unary_def bind_Some)

lemma eval_ternary_Some:
  assumes "eval_ternary lattice locals start out f = Some (Some (out', v))"
    and "slice_of locals start (start + 3) = Some [a, b, n]"
  shows "out' = out \<and> (\<exists>va vb vn. const_u256 lattice a = Some (Some va) \<and> const_u256 lattice b = Some (Some vb)
    \<and> const_u256 lattice n = Some (Some vn) \<and> f va vb vn = Some v)"
proof -
  have len: "start + 3 \<le> length locals" and ins: "take 3 (drop start locals) = [a, b, n]"
    using assms(2) by (simp_all add: slice_of_Some)
  have "locals ! (start + i) = [a, b, n] ! i" if "i < 3" for i
    using that len unfolding ins [symmetric] by simp
  from this [of 0] this [of 1] this [of 2]
  have "locals ! start = a" "locals ! (start + 1) = b" "locals ! (start + 2) = n"
    by simp_all
  then show ?thesis
    using assms(1) len
    by (auto simp: eval_ternary_def bind_Some iv_index_def idx_add_Some split: option.splits if_splits)
qed

text \<open>
  C1. Constant folding computes what the EVM computes.  When \<open>evaluate\<close> folds a well-typed
  operation, over a lattice that is right about the operands, it names the one output of the
  operation, and the value it stores is the result the operation has over the integers: unsigned,
  signed, modular, bitwise and shift operations, on every operand, division by zero and
  oversized shifts included.
\<close>

theorem sccp_evaluate_sound:
  assumes "op_closed ir op" and "sccp_evaluate lattice ir op = Some (Some (out, v))"
    and "op_inputs ir op = Some ins" and "\<forall>l \<in> set ins. lattice_models lattice evm env l"
  shows "op_outputs ir op = Some [out] \<and> pure_result (op_kind op) (map env ins) = Some v"
proof (cases "op_payload op")
  case (InlineOperands ins1 os)
  then have "ins1 = ins"
    using assms(3) by (simp add: op_inputs_def inputs_getter_def)
  then consider a b out1 f where "ins = [a, b]" "os = [out1]" "map_of binary_evals (op_kind op) = Some f"
      "eval_binary lattice a b out1 f = Some (Some (out, v))"
    | a out1 f where "ins = [a]" "os = [out1]" "map_of unary_evals (op_kind op) = Some f"
      "eval_unary lattice a out1 f = Some (Some (out, v))"
    using assms(2) InlineOperands by (auto simp: sccp_evaluate_def split: list.splits option.splits)
  then show ?thesis
  proof cases
    case (1 a b out1 f)
    then show ?thesis
      using eval_binary_Some [OF 1(4)] assms(4) InlineOperands pure_binary_correct [OF 1(3)]
      by (auto simp: op_outputs_def outputs_getter_def pure_result_def dest: const_u256_models)
  next
    case (2 a out1 f)
    then show ?thesis
      using eval_unary_Some [OF 2(4)] assms(4) InlineOperands pure_unary_correct [OF 2(3)]
      by (auto simp: op_outputs_def outputs_getter_def pure_result_def dest: const_u256_models)
  qed
next
  case (AllocatedIns n start os)
  then obtain out1 f where f: "os = [out1]" "map_of ternary_evals (op_kind op) = Some f"
    "eval_ternary lattice (ir_locals ir) start out1 f = Some (Some (out, v))"
    using assms(2) by (auto simp: sccp_evaluate_def split: list.splits option.splits)
  have "operation_shape (op_kind op) = AllocatedShape 3 1"
    using f(2) by (auto simp: ternary_evals_def operation_shape_def operation_table_def split: if_splits)
  then have "n = 3"
    using assms(1) AllocatedIns by (simp add: op_closed_def well_typed_def payload_has_shape_def)
  then have slice: "slice_of (ir_locals ir) start (start + 3) = Some ins"
    using assms(3) AllocatedIns by (simp add: op_inputs_def inputs_getter_def allocated_get_inputs_def)
  then have "length ins = 3"
    by (auto simp: slice_of_Some)
  then obtain a b m where ins: "ins = [a, b, m]"
    by (auto simp: length_Suc_conv numeral_3_eq_3)
  then show ?thesis
    using eval_ternary_Some [OF f(3) slice [unfolded ins]] assms(4) AllocatedIns f(1)
      pure_ternary_correct [OF f(2)]
    by (fastforce simp: op_outputs_def outputs_getter_def pure_result_def dest: const_u256_models)
qed (use assms(2) in \<open>simp_all add: sccp_evaluate_def\<close>)

theorem sccp_evaluate_sound_witness:
  "op_outputs two_edges \<lparr>op_kind = KSub, op_payload = InlineOperands [0, 1] [4]\<rparr> = Some [4]
   \<and> pure_result KSub (map (\<lambda>l. of_nat l) [0, 1]) = Some (- 1)"
  using sccp_evaluate_sound [of two_edges "\<lparr>op_kind = KSub, op_payload = InlineOperands [0, 1] [4]\<rparr>"
      "[Const 0, Const 1]" 4 "- 1" "[0, 1]" "\<lambda>_. 0" "\<lambda>l. of_nat l"]
  by (simp add: op_closed_def well_typed_def payload_has_shape_def operation_shape_def operation_table_def
      op_inputs_def op_outputs_def inputs_getter_def outputs_getter_def sccp_evaluate_def binary_evals_def
      eval_binary_def const_u256_def iv_index_def lattice_models_def evm_sub_def)


section \<open>Control flow\<close>


lemma simplify_control_cases:
  assumes "simplify_control lattice b ir = Some ir'" and "block_control ir b = Some c"
    and "\<forall>l \<in> control_condition c. lattice_models lattice evm env l" and "ir' \<noteq> ir"
  obtains t where "set_control b (ContinuesTo t) ir = Some ir'" and "control_next ir env c = Some t"
proof (cases c)
  case (Branches br)
  then obtain cv where "const_u256 lattice (br_condition br) = Some (Some cv)"
    "set_control b (ContinuesTo (if cv = 0 then br_zero_target br else br_non_zero_target br)) ir = Some ir'"
    using assms(1,2,4) by (auto simp: simplify_control_def bind_Some split: option.splits)
  moreover from this have "env (br_condition br) = cv"
    using Branches assms(3) by (simp add: control_condition_def const_u256_models)
  ultimately show ?thesis
    using Branches
    by (intro that [of "if cv = 0 then br_zero_target br else br_non_zero_target br"])
      (simp_all add: control_next_def)
next
  case (Switch sw)
  then obtain cv t where "const_u256 lattice (sw_condition sw) = Some (Some cv)" "switch_target ir sw cv = Some t"
    "set_control b (ContinuesTo t) ir = Some ir'"
    using assms(1,2,4) by (auto simp: simplify_control_def bind_Some split: option.splits)
  moreover from this have "env (sw_condition sw) = cv"
    using Switch assms(3) by (simp add: control_condition_def const_u256_models)
  ultimately show ?thesis
    using Switch by (intro that [of t]) (simp_all add: control_next_def)
qed (use assms(1,2,4) in \<open>auto simp: simplify_control_def\<close>)

text \<open>
  C7. The rewriting of control keeps the path of every run.  \<open>simplify_control\<close> changes the control
  of one block at most; over a lattice that is right about the condition of that block, a run leaves
  it, and every other block, to the block it went to before, and the operations, the inputs and the
  outputs of all blocks stay as they were.
\<close>

theorem simplify_control_keeps_path:
  assumes "simplify_control lattice b ir = Some ir'" and "block_control ir b = Some c"
    and "\<forall>l \<in> control_condition c. lattice_models lattice evm env l"
  shows "\<forall>b1. map_option (control_next ir' env) (block_control ir' b1)
      = map_option (control_next ir env) (block_control ir b1)
    \<and> block_inputs ir' b1 = block_inputs ir b1 \<and> block_outputs ir' b1 = block_outputs ir b1
    \<and> block_operations ir' b1 = block_operations ir b1 \<and> ir_operations ir' = ir_operations ir"
proof (cases "ir' = ir")
  case False
  obtain t where t: "set_control b (ContinuesTo t) ir = Some ir'" "control_next ir env c = Some t"
    by (rule simplify_control_cases [OF assms False])
  have next_eq: "control_next ir' env d = control_next ir env d" for d
    by (simp add: control_next_def set_control_Some(2) [OF t(1)] switch_target_set_control split: control.split)
  have "map_option (control_next ir' env) (block_control ir' b1)
      = map_option (control_next ir env) (block_control ir b1)" for b1
    using assms(2) t(2)
    by (cases "b1 = b") (simp_all add: set_control_views(1) [OF t(1)] next_eq [abs_def], simp add: control_next_def)
  then show ?thesis
    by (simp add: set_control_views(2-5) [OF t(1)])
qed simp


theorem simplify_control_keeps_path_witness:
  "\<exists>ir'. simplify_control [Unknown, Unknown, Const 0] 1 two_edges = Some ir'
     \<and> map_option (control_next ir' (\<lambda>_. 0)) (block_control ir' 1) = Some (Some 3)"
proof -
  let ?l = "[Unknown, Unknown, Const 0]"
  obtain ir' where ir': "simplify_control ?l 1 two_edges = Some ir'"
    by (simp add: simplify_control_def const_u256_def iv_index_def set_control_def iv_set_def)
  moreover have "map_option (control_next ir' (\<lambda>_. 0)) (block_control ir' 1)
      = map_option (control_next two_edges (\<lambda>_. 0)) (block_control two_edges 1)"
    using simplify_control_keeps_path [OF ir', of _ "\<lambda>_. 0"]
    by (simp add: control_condition_def lattice_models_def)
  ultimately show ?thesis
    by (simp add: control_next_def)
qed

end
