(* ===== verification/Sir_Run.thy ===== *)
theory Sir_Run
  imports Sir_Exec Results
begin

text \<open>
  Runs of a block.  The source fixes no semantics of operations: \<open>sem\<close>, a parameter, gives for the kind
  of an operation, the part of its data that are not locals, the values of its inputs and the world, either how
  the run halts or the values of its outputs and the new world.  Calls are operations too.
\<close>

fun static_data :: "op_data \<Rightarrow> op_data" where
  "static_data (InlineOperands ins outs) = InlineOperands [] []"
| "static_data (AllocatedIns n start outs) = AllocatedIns n 0 []"
| "static_data (StaticAllocData sz ptr_out alloc_id) = StaticAllocData sz 0 alloc_id"
| "static_data (MemoryLoadData out ptr sz) = MemoryLoadData 0 0 sz"
| "static_data (MemoryStoreData ins sz) = MemoryStoreData [] sz"
| "static_data (SetSmallConstData sets val) = SetSmallConstData 0 val"
| "static_data (SetLargeConstData sets val) = SetLargeConstData 0 val"
| "static_data (SetDataOffsetData sets segment) = SetDataOffsetData 0 segment"
| "static_data (InternalCallData f ins_start outs_start) = InternalCallData f 0 0"
| "static_data VoidData = VoidData"

type_synonym ('w, 'h) op_semantics = "operation_kind \<Rightarrow> op_data \<Rightarrow> u256 list \<Rightarrow> 'w \<Rightarrow> 'h + (u256 list \<times> 'w)"

fun write_locals :: "nat list \<Rightarrow> u256 list \<Rightarrow> (nat \<Rightarrow> u256) \<Rightarrow> (nat \<Rightarrow> u256)" where
  "write_locals (l # ls) (v # vs) env = write_locals ls vs (env(l := v))"
| "write_locals _ _ env = env"

definition exec_op ::
    "('w, 'h) op_semantics \<Rightarrow> eth_ir_program \<Rightarrow> nat \<Rightarrow> (nat \<Rightarrow> u256) \<times> 'w \<Rightarrow> ('h + (nat \<Rightarrow> u256) \<times> 'w) panics" where
  "exec_op sem ir i = (\<lambda>(env, w).
     do { op \<leftarrow> opview_op ir i;
          ins \<leftarrow> op_inputs ir op;
          outs \<leftarrow> op_outputs ir op;
          case sem (op_kind op) (static_data (op_payload op)) (map env ins) w of
            Inl h \<Rightarrow> Some (Inl h)
          | Inr (vs, w) \<Rightarrow> do { ensure (length vs = length outs); Some (Inr (write_locals outs vs env, w)) } })"

text \<open>A run of a block halts, or ends with the values it passes on, the next block, the locals and the world.\<close>

definition exec_block ::
    "('w, 'h) op_semantics \<Rightarrow> eth_ir_program \<Rightarrow> nat \<Rightarrow> (nat \<Rightarrow> u256) \<times> 'w
     \<Rightarrow> ('h + u256 list \<times> nat option \<times> (nat \<Rightarrow> u256) \<times> 'w) panics" where
  "exec_block sem ir b s =
     do { ids \<leftarrow> block_operations ir b;
          try_bind (fold_try (exec_op sem ir) ids s) (\<lambda>(env, w).
            do { outs \<leftarrow> block_outputs ir b;
                 c \<leftarrow> block_control ir b;
                 Some (Inr (map env outs, control_next ir env c, env, w)) }) }"

lemma write_locals_other: "l \<notin> set ls \<Longrightarrow> write_locals ls vs env l = env l"
  by (induction ls vs env rule: write_locals.induct) auto

end
