(* ===== verification/Switch_Peephole.thy ===== *)
theory Switch_Peephole
  imports Sir_Exec
begin

text \<open>
  The peephole pass on switches (\<open>passes/src/optimizations/switch_peephole.rs\<close>): a switch with a
  fallback and one case, whose value is zero, becomes a branch on its condition.
\<close>

definition peephole_block :: "nat \<Rightarrow> eth_ir_program \<Rightarrow> eth_ir_program panics" where
  "peephole_block b ir =
     do { c \<leftarrow> block_control ir b;
          case c of
            Switch sw \<Rightarrow>
              (case sw_fallback sw of
                 None \<Rightarrow> Some ir
               | Some fallback \<Rightarrow>
                   do { cases_data \<leftarrow> iv_index (ir_cases ir) (sw_cases sw);
                        if cs_count cases_data \<noteq> 1 then Some ir
                        else
                          do { cases \<leftarrow> cases_iter ir cases_data;
                               case cases of
                                 [] \<Rightarrow> Some ir
                               | (case_value, target) # _ \<Rightarrow>
                                   if case_value \<noteq> 0 then Some ir
                                   else set_control b (Branches \<lparr>br_condition = sw_condition sw,
                                          br_non_zero_target = fallback, br_zero_target = target\<rparr>) ir } })
          | _ \<Rightarrow> Some ir }"

definition switch_peephole :: "eth_ir_program \<Rightarrow> eth_ir_program panics" where
  "switch_peephole ir = do { ids \<leftarrow> iv_iter_idx (ir_basic_blocks ir); fold_panics peephole_block ids ir }"

text \<open>The switches the pass lowers.\<close>

definition zero_switch :: "eth_ir_program \<Rightarrow> control \<Rightarrow> bool" where
  "zero_switch ir c \<longleftrightarrow>
     (case c of Switch sw \<Rightarrow> sw_fallback sw \<noteq> None \<and> (\<exists>t. switch_cases ir sw = Some [(0, t)]) | _ \<Rightarrow> False)"

definition switches_readable :: "eth_ir_program \<Rightarrow> bool" where
  "switches_readable ir \<longleftrightarrow>
     (\<forall>b sw. block_control ir b = Some (Switch sw) \<longrightarrow> switch_cases ir sw \<noteq> None)"

text \<open>Two controls that lead every run to the same block, over the same successors.\<close>

definition same_control :: "eth_ir_program \<Rightarrow> control \<Rightarrow> control \<Rightarrow> bool" where
  "same_control ir c c' \<longleftrightarrow>
     map_option outgoing_list (iter_outgoing ir c') = map_option outgoing_list (iter_outgoing ir c)
     \<and> control_condition c' = control_condition c \<and> (\<forall>env. control_next ir env c' = control_next ir env c)
     \<and> (c' = LastOpTerminates \<longleftrightarrow> c = LastOpTerminates) \<and> (c' = InternalReturn \<longleftrightarrow> c = InternalReturn)"

lemma lowered_same:
  assumes "sw_fallback sw = Some fb" and "switch_cases ir sw = Some [(0, t)]"
  shows "same_control ir (Switch sw)
    (Branches \<lparr>br_condition = sw_condition sw, br_non_zero_target = fb, br_zero_target = t\<rparr>)"
proof -
  obtain c where c: "iv_index (ir_cases ir) (sw_cases sw) = Some c" "cases_iter ir c = Some [(0, t)]"
    using assms(2) by (auto simp: switch_cases_Some)
  show ?thesis
    using assms c(1) cases_iter_Some [OF c(2)]
    by (auto simp: same_control_def iter_outgoing_def outgoing_list_def control_condition_def control_next_def
        switch_target_def)
qed

lemma same_control_refl: "same_control ir c c"
  by (simp add: same_control_def)

text \<open>One block.\<close>

lemma peephole_block_run:
  assumes b: "block_control ir b = Some c" and R: "\<And>sw. c = Switch sw \<Longrightarrow> switch_cases ir sw \<noteq> None"
  shows "(\<not> zero_switch ir c \<longrightarrow> peephole_block b ir = Some ir)
    \<and> (zero_switch ir c \<longrightarrow> (\<exists>c'. peephole_block b ir = set_control b c' ir \<and> set_control b c' ir \<noteq> None
         \<and> same_control ir c c' \<and> \<not> zero_switch ir c'))"
proof (cases "\<exists>sw fb. c = Switch sw \<and> sw_fallback sw = Some fb")
  case False
  then show ?thesis
    using b by (cases c) (auto simp: peephole_block_def zero_switch_def)
next
  case True
  then obtain sw fb where sw: "c = Switch sw" "sw_fallback sw = Some fb" by blast
  then obtain cs where cs: "switch_cases ir sw = Some cs"
    using R by blast
  then obtain cr where cr: "iv_index (ir_cases ir) (sw_cases sw) = Some cr" "cases_iter ir cr = Some cs"
    by (auto simp: switch_cases_Some)
  have writable: "set_control b c' ir \<noteq> None" for c'
    using b by (auto simp: set_control_def block_control_def bind_Some iv_index_def iv_set_def get_at_Some set_at_def)
  show ?thesis
  proof (cases "length cs = 1")
    case False
    then show ?thesis
      using b sw cs cr cases_iter_Some(1) [OF cr(2)] by (auto simp: peephole_block_def zero_switch_def)
  next
    case True
    then obtain v t where one: "cs = [(v, t)]"
      by (cases cs) auto
    show ?thesis
      using b sw cs cr cases_iter_Some(1) [OF cr(2)] one lowered_same [OF sw(2), of ir t] writable
      by (auto simp: peephole_block_def zero_switch_def)
  qed
qed

lemma switch_cases_blocks:
  "switch_cases (ir\<lparr>ir_basic_blocks := bs\<rparr>) sw = switch_cases ir sw"
  by (simp add: switch_cases_def cases_iter_def [abs_def] cases_get_values_def [abs_def]
      cases_target_indices_def [abs_def] cases_get_bb_ids_def [abs_def])

lemma control_blocks:
  "iter_outgoing (ir\<lparr>ir_basic_blocks := bs\<rparr>) c = iter_outgoing ir c"
  "control_next (ir\<lparr>ir_basic_blocks := bs\<rparr>) env c = control_next ir env c"
  "zero_switch (ir\<lparr>ir_basic_blocks := bs\<rparr>) c = zero_switch ir c"
  by (simp_all add: iter_outgoing_def cases_target_indices_def [abs_def] cases_get_bb_ids_def [abs_def]
      control_next_def switch_target_set_control zero_switch_def switch_cases_blocks cong: control.case_cong)

text \<open>What a program keeps when controls are replaced by equivalent ones.\<close>

definition same_runs :: "eth_ir_program \<Rightarrow> eth_ir_program \<Rightarrow> bool" where
  "same_runs ir ir' \<longleftrightarrow>
     (\<exists>bs. ir' = ir\<lparr>ir_basic_blocks := bs\<rparr> \<and> length bs = length (ir_basic_blocks ir))
     \<and> (\<forall>b. block_inputs ir' b = block_inputs ir b \<and> block_outputs ir' b = block_outputs ir b
          \<and> block_operations ir' b = block_operations ir b \<and> block_successors ir' b = block_successors ir b
          \<and> rel_option (same_control ir) (block_control ir b) (block_control ir' b))"

lemma same_runs_refl: "same_runs ir ir"
proof -
  have "\<exists>bs. ir = ir\<lparr>ir_basic_blocks := bs\<rparr> \<and> length bs = length (ir_basic_blocks ir)"
    by (rule exI [of _ "ir_basic_blocks ir"]) simp
  then show ?thesis
    by (auto simp: same_runs_def option.rel_refl same_control_refl)
qed

lemma same_runs_set_control:
  assumes S: "same_runs ir0 ir" and w: "set_control b c' ir = Some ir'"
    and c: "block_control ir b = Some c" "same_control ir c c'"
  shows "same_runs ir0 ir'"
proof -
  obtain bs where bs: "ir = ir0\<lparr>ir_basic_blocks := bs\<rparr>" "length bs = length (ir_basic_blocks ir0)"
    using S by (auto simp: same_runs_def)
  note ir' = set_control_Some [OF w]
  note V = set_control_views [OF w]
  have cc: "same_control ir0 c c'"
    using c(2) unfolding same_control_def bs(1) by (simp add: control_blocks)
  have out: "iter_outgoing ir' d = iter_outgoing ir d" for d
    unfolding ir'(2) by (simp add: control_blocks)
  have succ: "block_successors ir' x = block_successors ir x" for x
    using c(1) V(1) [of x] cc out
    by (auto simp: block_successors_def bs(1) control_blocks same_control_def bind_Some map_option_case
        split: option.splits bind_splits)
  have control: "rel_option (same_control ir0) (block_control ir0 x) (block_control ir' x)" for x
  proof (cases "x = b")
    case True
    have "rel_option (same_control ir0) (block_control ir0 b) (Some c)"
      using S c(1) unfolding same_runs_def by metis
    then obtain c0 where "block_control ir0 b = Some c0" "same_control ir0 c0 c"
      by (auto simp: option_rel_Some2)
    then show ?thesis
      using True V(1) [of b] cc by (auto simp: same_control_def)
  qed (use S V(1) in \<open>simp add: same_runs_def\<close>)
  have "\<exists>bs. ir' = ir0\<lparr>ir_basic_blocks := bs\<rparr> \<and> length bs = length (ir_basic_blocks ir0)"
    using bs ir' by auto
  moreover have "block_inputs ir' x = block_inputs ir0 x \<and> block_outputs ir' x = block_outputs ir0 x
          \<and> block_operations ir' x = block_operations ir0 x \<and> block_successors ir' x = block_successors ir0 x" for x
    using S V(2-4) [of x] succ by (simp add: same_runs_def)
  ultimately show ?thesis
    using control unfolding same_runs_def by blast
qed

text \<open>
  C25. Lowering switches.  On a program whose switches can be read, the pass returns, changes nothing
  but controls, and every new control leads a run to the same block as the old one, for all values of
  the locals, with the same successors in the same order.  No switch that it lowers is left.
\<close>

theorem switch_peephole_correct:
  assumes R: "switches_readable ir" and n: "is_idx (length (ir_basic_blocks ir))"
  shows "\<exists>ir'. switch_peephole ir = Some ir' \<and> same_runs ir ir'
    \<and> (\<forall>b c. block_control ir' b = Some c \<longrightarrow> \<not> zero_switch ir' c)"
proof -
  let ?n = "length (ir_basic_blocks ir)"
  let ?ok = "\<lambda>k u. same_runs ir u \<and> (\<forall>b c. b < k \<longrightarrow> block_control u b = Some c \<longrightarrow> \<not> zero_switch ir c)
     \<and> (\<forall>b. k \<le> b \<longrightarrow> block_control u b = block_control ir b)"
  have "\<exists>u. fold_panics peephole_block [0..<k] ir = Some u \<and> ?ok k u" if "k \<le> ?n" for k
    using that
  proof (induction k)
    case 0
    then show ?case
      by (simp add: same_runs_refl)
  next
    case (Suc k)
    then obtain u where u: "fold_panics peephole_block [0..<k] ir = Some u" "?ok k u"
      by auto
    obtain bs where bs: "u = ir\<lparr>ir_basic_blocks := bs\<rparr>"
      using u(2) by (auto simp: same_runs_def)
    have zs: "zero_switch u c = zero_switch ir c" for c
      unfolding bs by (simp add: control_blocks)
    obtain c where c: "block_control ir k = Some c" "block_control u k = Some c"
      using u(2) Suc.prems by (fastforce simp: block_control_def iv_index_def)
    have Ru: "switch_cases u sw \<noteq> None" if "c = Switch sw" for sw
      using R c(1) that unfolding switches_readable_def bs by (simp add: switch_cases_blocks)
    show ?case
    proof (cases "zero_switch ir c")
      case False
      then have "peephole_block k u = Some u"
        using peephole_block_run [OF c(2) Ru] zs by simp
      moreover have "?ok (Suc k) u"
        using u(2) c(2) False by (auto simp: less_Suc_eq)
      ultimately show ?thesis
        using u(1) by simp
    next
      case True
      then obtain c' v where c': "peephole_block k u = Some v" "set_control k c' u = Some v"
        "same_control u c c'" "\<not> zero_switch ir c'"
        using peephole_block_run [OF c(2) Ru] zs by auto
      have "same_runs ir v"
        using same_runs_set_control [OF _ c'(2) c(2) c'(3)] u(2) by blast
      then have "?ok (Suc k) v"
        using u(2) c'(4) set_control_views(1) [OF c'(2)] by (auto simp: less_Suc_eq)
      then show ?thesis
        using u(1) c'(1) by simp
    qed
  qed
  from this [of ?n] obtain u where u: "fold_panics peephole_block [0..<?n] ir = Some u" "?ok ?n u"
    by auto
  have "\<not> zero_switch u c" if "block_control u b = Some c" for b c
  proof -
    have "b < length (ir_basic_blocks u)"
      using that by (auto simp: block_control_def iv_index_def bind_Some get_at_Some)
    then show ?thesis
      using u(2) that by (auto simp: same_runs_def control_blocks)
  qed
  then show ?thesis
    using u n by (auto simp: switch_peephole_def iv_iter_idx_def iv_next_idx_def idx_try_from_usize_Some span_new_def
        span_iter_eq bind_Some)
qed

text \<open>A switch with the case 0 to block 1 and the fallback 2, which the pass lowers.\<close>

definition zero_case :: eth_ir_program where
  "zero_case = ir_default\<lparr>
     ir_basic_blocks := [
       \<lparr>bb_inputs = span_new 0 0, bb_outputs = span_new 0 0, bb_operations = span_new 0 0,
        bb_control = Switch \<lparr>sw_condition = 0, sw_fallback = Some 2, sw_cases = 0\<rparr>\<rparr>],
     ir_large_consts := [0],
     ir_cases := [\<lparr>cs_values_start_id = 0, cs_targets_start_id = 0, cs_count = 1\<rparr>], ir_cases_bb_ids := [1]\<rparr>"

lemma zero_case_readable:
  "switch_cases zero_case \<lparr>sw_condition = 0, sw_fallback = Some 2, sw_cases = 0\<rparr> = Some [(0, 1)]"
  by (simp add: switch_cases_def cases_iter_def cases_get_values_def cases_get_bb_ids_def cases_target_indices_def
      zero_case_def iv_index_def iv_rel_slice_def idx_add_def add_u32_def idx_new_def u32_max_def span_new_def slice_of_def)

lemma switch_peephole_correct_witness:
  "\<exists>ir'. switch_peephole zero_case = Some ir' \<and> same_runs zero_case ir'
    \<and> (\<forall>b c. block_control ir' b = Some c \<longrightarrow> \<not> zero_switch ir' c) \<and> ir' \<noteq> zero_case"
proof -
  have control: "block_control zero_case b = (if b = 0 then Some (Switch \<lparr>sw_condition = 0, sw_fallback = Some 2, sw_cases = 0\<rparr>) else None)" for b
    by (simp add: block_control_def iv_index_def get_at_def zero_case_def)
  have R: "switches_readable zero_case"
    using zero_case_readable by (simp add: switches_readable_def control)
  have n: "is_idx (length (ir_basic_blocks zero_case))"
    by (simp add: zero_case_def is_idx_def u32_max_def)
  obtain ir' where ir': "switch_peephole zero_case = Some ir'" "same_runs zero_case ir'"
    "\<forall>b c. block_control ir' b = Some c \<longrightarrow> \<not> zero_switch ir' c"
    using switch_peephole_correct [OF R n] by blast
  have "zero_switch zero_case (Switch \<lparr>sw_condition = 0, sw_fallback = Some 2, sw_cases = 0\<rparr>)"
    using zero_case_readable by (simp add: zero_switch_def)
  then have "ir' \<noteq> zero_case"
    using ir'(3) control [of 0] by auto
  then show ?thesis
    using ir' by blast
qed

end
