(* ===== verification/Edge_Splitting.thy ===== *)
theory Edge_Splitting
  imports Cfg_Bundling Sir_Exec
begin

text \<open>
  The splitting of critical edges (\<open>passes/src/transforms/critical_edge_splitting.rs\<close>): the edge from
  a branch or a switch to a block with several predecessors gets a block of its own, which forwards
  the values passed along the edge through fresh locals.
\<close>

section \<open>The pass\<close>

definition copy_local :: "nat \<Rightarrow> nat list \<Rightarrow> nat list panics" where
  "copy_local i locals = do { l \<leftarrow> iv_index locals i; (_, locals) \<leftarrow> iv_push locals l; Some locals }"

definition copy_span :: "span \<Rightarrow> eth_ir_program \<Rightarrow> (span \<times> eth_ir_program) panics" where
  "copy_span s ir =
     do { start \<leftarrow> iv_next_idx (ir_locals ir);
          ids \<leftarrow> span_iter s;
          locals \<leftarrow> fold_panics copy_local ids (ir_locals ir);
          e \<leftarrow> iv_next_idx locals;
          Some (span_new start e, ir\<lparr>ir_locals := locals\<rparr>) }"

definition push_fresh :: "nat \<Rightarrow> eth_ir_program \<Rightarrow> eth_ir_program panics" where
  "push_fresh _ ir =
     do { (l, next_free) \<leftarrow> get_and_inc (ir_next_free_local_id ir);
          (_, locals) \<leftarrow> iv_push (ir_locals ir) l;
          Some (ir\<lparr>ir_locals := locals, ir_next_free_local_id := next_free\<rparr>) }"

definition insert_forwarding_block :: "nat \<Rightarrow> nat \<Rightarrow> eth_ir_program \<Rightarrow> (nat \<times> eth_ir_program) panics" where
  "insert_forwarding_block source target ir =
     do { bb \<leftarrow> iv_index (ir_basic_blocks ir) source;
          op \<leftarrow> iv_next_idx (ir_operations ir);
          inputs_start \<leftarrow> iv_next_idx (ir_locals ir);
          ids \<leftarrow> span_iter (bb_outputs bb);
          ir \<leftarrow> fold_panics push_fresh ids ir;
          inputs_end \<leftarrow> iv_next_idx (ir_locals ir);
          let inputs = span_new inputs_start inputs_end;
          (outputs, ir) \<leftarrow> copy_span inputs ir;
          (b, blocks) \<leftarrow> iv_push (ir_basic_blocks ir)
            \<lparr>bb_inputs = inputs, bb_outputs = outputs, bb_operations = span_new op op, bb_control = ContinuesTo target\<rparr>;
          Some (b, ir\<lparr>ir_basic_blocks := blocks\<rparr>) }"

definition split_edge :: "nat list list \<Rightarrow> nat \<Rightarrow> nat \<Rightarrow> eth_ir_program \<Rightarrow> (nat \<times> eth_ir_program) panics" where
  "split_edge predecessors source target ir =
     do { ps \<leftarrow> iv_index predecessors target;
          if length ps > 1 then insert_forwarding_block source target ir else Some (target, ir) }"

definition split_case :: "nat list list \<Rightarrow> nat \<Rightarrow> nat \<Rightarrow> eth_ir_program \<Rightarrow> eth_ir_program panics" where
  "split_case predecessors b i ir =
     do { target \<leftarrow> iv_index (ir_cases_bb_ids ir) i;
          (target, ir) \<leftarrow> split_edge predecessors b target ir;
          ids \<leftarrow> iv_set (ir_cases_bb_ids ir) i target;
          Some (ir\<lparr>ir_cases_bb_ids := ids\<rparr>) }"

definition split_block :: "nat list list \<Rightarrow> nat \<Rightarrow> eth_ir_program \<Rightarrow> eth_ir_program panics" where
  "split_block predecessors b ir =
     do { c \<leftarrow> block_control ir b;
          case c of
            Branches br \<Rightarrow>
              do { (non_zero_target, ir) \<leftarrow> split_edge predecessors b (br_non_zero_target br) ir;
                   (zero_target, ir) \<leftarrow> split_edge predecessors b (br_zero_target br) ir;
                   set_control b (Branches \<lparr>br_condition = br_condition br, br_non_zero_target = non_zero_target,
                     br_zero_target = zero_target\<rparr>) ir }
          | Switch sw \<Rightarrow>
              do { cases_data \<leftarrow> iv_index (ir_cases ir) (sw_cases sw);
                   s \<leftarrow> cases_target_indices cases_data;
                   ids \<leftarrow> span_iter s;
                   ir \<leftarrow> fold_panics (split_case predecessors b) ids ir;
                   case sw_fallback sw of
                     None \<Rightarrow> Some ir
                   | Some fallback \<Rightarrow>
                       do { (new_fallback, ir) \<leftarrow> split_edge predecessors b fallback ir;
                            c \<leftarrow> block_control ir b;
                            case c of
                              Switch sw \<Rightarrow> set_control b (Switch (sw\<lparr>sw_fallback := Some new_fallback\<rparr>)) ir
                            | _ \<Rightarrow> None } }
          | _ \<Rightarrow> Some ir }"

definition critical_edge_splitting :: "nat \<Rightarrow> eth_ir_program \<Rightarrow> eth_ir_program panics" where
  "critical_edge_splitting fuel ir =
     do { reach \<leftarrow> compute_reachability fuel ir;
          predecessors \<leftarrow> compute_predecessors ir reach [];
          ids \<leftarrow> iv_iter_idx (ir_basic_blocks ir);
          fold_panics (split_block predecessors) ids ir }"

section \<open>Forwarding blocks\<close>

definition forward :: "nat \<Rightarrow> nat \<Rightarrow> eth_ir_program \<Rightarrow> eth_ir_program" where
  "forward k target ir =
     (let n = ir_next_free_local_id ir; l = length (ir_locals ir); op = length (ir_operations ir)
      in ir\<lparr>ir_locals := ir_locals ir @ [n..<n + k] @ [n..<n + k], ir_next_free_local_id := n + k,
            ir_basic_blocks := ir_basic_blocks ir @
              [\<lparr>bb_inputs = span_new l (l + k), bb_outputs = span_new (l + k) (l + 2 * k),
                bb_operations = span_new op op, bb_control = ContinuesTo target\<rparr>]\<rparr>)"

lemma idx_try_from_usize_in: "is_idx v \<Longrightarrow> idx_try_from_usize v = Some v"
  by (simp add: idx_try_from_usize_Some)

lemma copy_locals:
  assumes "s + k \<le> length locals" and "is_idx (length locals + k)"
  shows "fold_panics copy_local [s..<s + k] locals = Some (locals @ take k (drop s locals))"
  using assms
proof (induction k)
  case (Suc k)
  have "take (Suc k) (drop s locals) = take k (drop s locals) @ [locals ! (s + k)]"
    using Suc.prems by (simp add: take_Suc_conv_app_nth)
  then show ?case
    using Suc by (simp add: copy_local_def iv_index_def iv_push_in nth_append is_idx_def)
qed simp

lemma push_freshs:
  assumes "is_idx (ir_next_free_local_id ir + length ids)" and "is_idx (length (ir_locals ir) + length ids)"
  shows "fold_panics push_fresh ids ir = Some (ir\<lparr>
    ir_locals := ir_locals ir @ [ir_next_free_local_id ir..<ir_next_free_local_id ir + length ids],
    ir_next_free_local_id := ir_next_free_local_id ir + length ids\<rparr>)"
  using assms
proof (induction ids arbitrary: ir)
  case (Cons i ids)
  have "push_fresh i ir = Some (ir\<lparr>ir_locals := ir_locals ir @ [ir_next_free_local_id ir],
      ir_next_free_local_id := Suc (ir_next_free_local_id ir)\<rparr>)"
    using Cons.prems by (simp add: push_fresh_def get_and_inc_def idx_add_Some bind_Some iv_push_in is_idx_def)
  moreover have "[ir_next_free_local_id ir..<ir_next_free_local_id ir + length (i # ids)]
      = ir_next_free_local_id ir # [Suc (ir_next_free_local_id ir)..<Suc (ir_next_free_local_id ir) + length ids]"
    by (simp add: upt_conv_Cons del: upt_Suc)
  ultimately show ?case
    using Cons by (simp del: upt_Suc)
qed simp

lemma insert_forwarding_run:
  assumes "source < length (ir_basic_blocks ir)" and "span_iter (bb_outputs (ir_basic_blocks ir ! source)) = Some ids"
    and "is_idx (length (ir_operations ir))" and "is_idx (length (ir_locals ir) + 2 * length ids)"
    and "is_idx (ir_next_free_local_id ir + length ids)" and "is_idx (length (ir_basic_blocks ir))"
  shows "insert_forwarding_block source target ir = Some (length (ir_basic_blocks ir), forward (length ids) target ir)"
proof -
  let ?n = "ir_next_free_local_id ir" and ?l = "length (ir_locals ir)" and ?k = "length ids"
  let ?locals = "ir_locals ir @ [?n..<?n + ?k]"
  have "is_idx (?l + ?k)" "is_idx ?l"
    using assms(4) by (simp_all add: is_idx_def)
  moreover have "fold_panics copy_local [?l..<?l + ?k] ?locals = Some (?locals @ [?n..<?n + ?k])"
    using copy_locals [of ?l ?k ?locals] assms(4) by (simp add: mult_2 add.assoc)
  ultimately show ?thesis
    using assms push_freshs [of ir ids]
    by (simp add: insert_forwarding_block_def iv_index_def iv_next_idx_def idx_try_from_usize_in copy_span_def
        span_new_def span_iter_eq iv_push_in forward_def Let_def mult_2 add.assoc)
qed

end
