(* ===== verification/Edge_Slots.thy ===== *)
theory Edge_Slots
  imports Edge_Splitting
begin

text \<open>
  The places of a program that hold the target of an edge the pass may split.  In terms of them the
  pass is one loop, which reads a place, splits the edge and writes the place back.
\<close>

datatype edge_slot =
    NonZeroTarget nat
  | ZeroTarget nat
  | CaseTarget nat nat
  | FallbackTarget nat

fun slot_source :: "edge_slot \<Rightarrow> nat" where
  "slot_source (NonZeroTarget b) = b"
| "slot_source (ZeroTarget b) = b"
| "slot_source (CaseTarget b i) = b"
| "slot_source (FallbackTarget b) = b"

fun read_slot :: "eth_ir_program \<Rightarrow> edge_slot \<Rightarrow> nat option" where
  "read_slot ir (NonZeroTarget b) =
     (case block_control ir b of Some (Branches br) \<Rightarrow> Some (br_non_zero_target br) | _ \<Rightarrow> None)"
| "read_slot ir (ZeroTarget b) =
     (case block_control ir b of Some (Branches br) \<Rightarrow> Some (br_zero_target br) | _ \<Rightarrow> None)"
| "read_slot ir (CaseTarget b i) = get_at (ir_cases_bb_ids ir) i"
| "read_slot ir (FallbackTarget b) =
     (case block_control ir b of Some (Switch sw) \<Rightarrow> sw_fallback sw | _ \<Rightarrow> None)"

definition map_control :: "nat \<Rightarrow> (control \<Rightarrow> control) \<Rightarrow> eth_ir_program \<Rightarrow> eth_ir_program" where
  "map_control b f ir = ir\<lparr>ir_basic_blocks := (ir_basic_blocks ir)
     [b := (ir_basic_blocks ir ! b)\<lparr>bb_control := f (bb_control (ir_basic_blocks ir ! b))\<rparr>]\<rparr>"

fun write_target :: "edge_slot \<Rightarrow> nat \<Rightarrow> control \<Rightarrow> control" where
  "write_target (NonZeroTarget b) t (Branches br) = Branches (br\<lparr>br_non_zero_target := t\<rparr>)"
| "write_target (ZeroTarget b) t (Branches br) = Branches (br\<lparr>br_zero_target := t\<rparr>)"
| "write_target (FallbackTarget b) t (Switch sw) = Switch (sw\<lparr>sw_fallback := Some t\<rparr>)"
| "write_target s t c = c"

definition write_slot :: "edge_slot \<Rightarrow> nat \<Rightarrow> eth_ir_program \<Rightarrow> eth_ir_program" where
  "write_slot s t ir =
     (case s of
        CaseTarget b i \<Rightarrow> ir\<lparr>ir_cases_bb_ids := (ir_cases_bb_ids ir)[i := t]\<rparr>
      | _ \<Rightarrow> map_control (slot_source s) (write_target s t) ir)"

definition split_slot :: "nat list list \<Rightarrow> edge_slot \<Rightarrow> eth_ir_program \<Rightarrow> eth_ir_program panics" where
  "split_slot preds s ir =
     do { t \<leftarrow> read_slot ir s; (t', ir) \<leftarrow> split_edge preds (slot_source s) t ir; Some (write_slot s t' ir) }"

definition case_positions :: "eth_ir_program \<Rightarrow> switch \<Rightarrow> nat list" where
  "case_positions ir sw =
     (case get_at (ir_cases ir) (sw_cases sw) of
        None \<Rightarrow> []
      | Some c \<Rightarrow> [cs_targets_start_id c..<cs_targets_start_id c + cs_count c])"

fun control_slots :: "eth_ir_program \<Rightarrow> nat \<Rightarrow> control \<Rightarrow> edge_slot list" where
  "control_slots ir b (Branches br) = [NonZeroTarget b, ZeroTarget b]"
| "control_slots ir b (Switch sw) =
     map (CaseTarget b) (case_positions ir sw) @ (if sw_fallback sw = None then [] else [FallbackTarget b])"
| "control_slots ir b _ = []"

definition slots :: "eth_ir_program \<Rightarrow> nat \<Rightarrow> edge_slot list" where
  "slots ir b = (case block_control ir b of None \<Rightarrow> [] | Some c \<Rightarrow> control_slots ir b c)"

definition all_slots :: "eth_ir_program \<Rightarrow> edge_slot list" where
  "all_slots ir = concat (map (slots ir) [0..<length (ir_basic_blocks ir)])"

text \<open>No two switches store their targets in the same place.\<close>

definition own_cases :: "eth_ir_program \<Rightarrow> bool" where
  "own_cases ir \<longleftrightarrow>
     (\<forall>b b' i. CaseTarget b i \<in> set (all_slots ir) \<longrightarrow> CaseTarget b' i \<in> set (all_slots ir) \<longrightarrow> b = b')"

section \<open>Reading and writing\<close>

lemma control_at: "block_control ir b = (if b < length (ir_basic_blocks ir) then Some (bb_control (ir_basic_blocks ir ! b)) else None)"
  by (simp add: block_control_def iv_index_def get_at_def)

lemma map_control_at:
  "block_control (map_control b f ir) x = (if x = b then map_option f (block_control ir b) else block_control ir x)"
  by (auto simp: control_at map_control_def)

lemma map_control_ids [simp]: "ir_cases_bb_ids (map_control b f ir) = ir_cases_bb_ids ir"
  by (simp add: map_control_def)

lemma in_slots: "s \<in> set (slots ir b) \<longleftrightarrow> (\<exists>c. block_control ir b = Some c \<and> s \<in> set (control_slots ir b c))"
  by (cases "block_control ir b") (simp_all add: slots_def)

lemma slot_source_slots: "s \<in> set (slots ir b) \<Longrightarrow> slot_source s = b"
proof -
  have "s \<in> set (control_slots ir b c) \<Longrightarrow> slot_source s = b" for c
    by (cases c) (auto split: if_splits)
  then show "s \<in> set (slots ir b) \<Longrightarrow> slot_source s = b"
    by (auto simp: in_slots)
qed

lemma slots_block: "s \<in> set (slots ir b) \<Longrightarrow> b < length (ir_basic_blocks ir)"
  by (auto simp: in_slots control_at split: if_splits)

lemma all_slots_iff: "s \<in> set (all_slots ir) \<longleftrightarrow> s \<in> set (slots ir (slot_source s))"
  using slot_source_slots slots_block by (force simp: all_slots_def)

lemma distinct_slots: "distinct (slots ir b)"
proof -
  have "distinct (control_slots ir b c)" for c
    by (cases c) (auto simp: case_positions_def distinct_map inj_on_def split: option.splits)
  then show ?thesis
    by (simp add: slots_def split: option.splits)
qed

lemma distinct_all_slots: "distinct (all_slots ir)"
proof -
  have "distinct (concat (map (slots ir) [0..<k]))" for k
  proof (induction k)
    case (Suc k)
    have "slot_source s \<noteq> k" if "s \<in> set (concat (map (slots ir) [0..<k]))" for s
      using that slot_source_slots by fastforce
    with Suc show ?case
      using distinct_slots [of ir k] slot_source_slots by fastforce
  qed simp
  then show ?thesis
    by (simp add: all_slots_def)
qed

text \<open>The part of a control that the pass does not change.\<close>

definition control_shape :: "control \<Rightarrow> control" where
  "control_shape c =
     (case c of
        Branches br \<Rightarrow> Branches \<lparr>br_condition = br_condition br, br_non_zero_target = 0, br_zero_target = 0\<rparr>
      | Switch sw \<Rightarrow> Switch \<lparr>sw_condition = sw_condition sw, sw_fallback = map_option (\<lambda>_. 0) (sw_fallback sw),
            sw_cases = sw_cases sw\<rparr>
      | _ \<Rightarrow> c)"

definition same_shape :: "eth_ir_program \<Rightarrow> eth_ir_program \<Rightarrow> bool" where
  "same_shape ir u \<longleftrightarrow>
     length (ir_cases_bb_ids u) = length (ir_cases_bb_ids ir)
     \<and> (\<forall>b < length (ir_basic_blocks ir).
          map_option control_shape (block_control u b) = map_option control_shape (block_control ir b))"

lemma control_shape_branch:
  "control_shape c' = control_shape (Branches br) \<Longrightarrow> \<exists>br'. c' = Branches br' \<and> br_condition br' = br_condition br"
  by (cases c') (auto simp: control_shape_def)

lemma control_shape_switch:
  "control_shape c' = control_shape (Switch sw) \<Longrightarrow> \<exists>sw'. c' = Switch sw' \<and> sw_condition sw' = sw_condition sw
     \<and> sw_cases sw' = sw_cases sw \<and> (sw_fallback sw' = None \<longleftrightarrow> sw_fallback sw = None)"
  by (cases c') (auto simp: control_shape_def)

lemma control_shape_other:
  "control_shape c' = control_shape c \<Longrightarrow> control_slots ir b c = [] \<Longrightarrow> c' = c \<or> (\<exists>sw. c = Switch sw \<and> sw_fallback sw = None)"
  by (cases c'; cases c) (simp_all add: control_shape_def split: if_splits)

lemma write_target_shape:
  assumes "\<And>b sw. s = FallbackTarget b \<Longrightarrow> c = Switch sw \<Longrightarrow> sw_fallback sw \<noteq> None"
  shows "control_shape (write_target s t c) = control_shape c"
  using assms by (cases s; cases c) (fastforce simp: control_shape_def)+

text \<open>A slot of the program is read in every state of the same shape, and writes only itself.\<close>

lemma slot_shape:
  assumes "s \<in> set (all_slots ir)" and "same_shape ir u"
  shows "(\<exists>b br. (s = NonZeroTarget b \<or> s = ZeroTarget b) \<and> block_control u b = Some (Branches br))
    \<or> (\<exists>b i. s = CaseTarget b i)
    \<or> (\<exists>b sw. s = FallbackTarget b \<and> block_control u b = Some (Switch sw) \<and> sw_fallback sw \<noteq> None)"
proof -
  let ?b = "slot_source s"
  have s: "s \<in> set (slots ir ?b)"
    using assms(1) by (simp add: all_slots_iff)
  then have b: "?b < length (ir_basic_blocks ir)"
    by (rule slots_block)
  then obtain c where c: "block_control ir ?b = Some c"
    by (simp add: control_at)
  then obtain c' where c': "block_control u ?b = Some c'" "control_shape c' = control_shape c"
    using assms(2) b unfolding same_shape_def by fastforce
  have sc: "s \<in> set (control_slots ir ?b c)"
    using s c by (simp add: in_slots)
  show ?thesis
  proof (cases c)
    case (Branches br)
    then show ?thesis
      using sc c' control_shape_branch [of c' br] by auto
  next
    case (Switch sw)
    then obtain sw' where "c' = Switch sw'" "sw_fallback sw' = None \<longleftrightarrow> sw_fallback sw = None"
      using c' control_shape_switch [of c' sw] by auto
    then show ?thesis
      using sc Switch c' by (cases "sw_fallback sw") auto
  qed (use sc in simp_all)
qed

lemma read_write_slot:
  assumes s: "s \<in> set (all_slots ir)" "s' \<in> set (all_slots ir)" and own: "own_cases ir" and u: "same_shape ir u"
    and ids: "\<And>b i. s = CaseTarget b i \<Longrightarrow> i < length (ir_cases_bb_ids ir)"
  shows "read_slot (write_slot s t u) s' = (if s' = s then Some t else read_slot u s')"
proof -
  have len: "length (ir_cases_bb_ids u) = length (ir_cases_bb_ids ir)"
    using u by (simp add: same_shape_def)
  show ?thesis
  proof (cases s)
    case (CaseTarget b i)
    then have "i < length (ir_cases_bb_ids u)"
      using ids len by simp
    moreover have "b' = b" if "s' = CaseTarget b' i" for b'
      using own s CaseTarget that unfolding own_cases_def by blast
    ultimately show ?thesis
      using CaseTarget by (cases s') (auto simp: write_slot_def get_at_def control_at nth_list_update)
  qed (use slot_shape [OF s(1) u] in \<open>cases s'; auto simp: write_slot_def map_control_at split: control.splits option.splits\<close>)+
qed

lemma same_shape_write:
  assumes "s \<in> set (all_slots ir)" and u: "same_shape ir u"
  shows "same_shape ir (write_slot s t u)"
proof -
  have "sw_fallback sw \<noteq> None" if "s = FallbackTarget b" "block_control u b = Some (Switch sw)" for b sw
    using slot_shape [OF assms] that by auto
  then have "control_shape (write_target s t c) = control_shape c" if "block_control u (slot_source s) = Some c" for c
    using that by (intro write_target_shape) auto
  then have "map_option control_shape (block_control (map_control (slot_source s) (write_target s t) u) b)
      = map_option control_shape (block_control u b)" for b
    by (cases "block_control u (slot_source s)") (simp_all add: map_control_at)
  then show ?thesis
    using u by (cases s) (auto simp: same_shape_def write_slot_def control_at)
qed

section \<open>The pass as one loop over the slots\<close>

lemma split_edge_keeps:
  assumes "split_edge preds b t u = Some (t', w)"
  shows "ir_cases_bb_ids w = ir_cases_bb_ids u" and "ir_cases w = ir_cases u"
    and "x < length (ir_basic_blocks u) \<Longrightarrow> block_control w x = block_control u x"
    and "length (ir_basic_blocks u) \<le> length (ir_basic_blocks w)"
proof -
  have fresh: "ir_cases_bb_ids y = ir_cases_bb_ids x \<and> ir_cases y = ir_cases x \<and> ir_basic_blocks y = ir_basic_blocks x"
    if "fold_panics push_fresh ids x = Some y" for ids x y
    using that by (rule fold_panics_invariant) (auto simp: push_fresh_def bind_Some)
  have copy: "ir_cases_bb_ids y = ir_cases_bb_ids x \<and> ir_cases y = ir_cases x \<and> ir_basic_blocks y = ir_basic_blocks x"
    if "copy_span sp x = Some (sp', y)" for sp sp' x y
    using that by (auto simp: copy_span_def bind_Some)
  have "ir_cases_bb_ids w = ir_cases_bb_ids u \<and> ir_cases w = ir_cases u \<and> (\<exists>bs. ir_basic_blocks w = ir_basic_blocks u @ bs)"
    using assms by (auto simp: split_edge_def insert_forwarding_block_def bind_Some Let_def iv_push_Some dest!: fresh copy
        split: if_splits)
  then show "ir_cases_bb_ids w = ir_cases_bb_ids u" "ir_cases w = ir_cases u"
    "x < length (ir_basic_blocks u) \<Longrightarrow> block_control w x = block_control u x"
    "length (ir_basic_blocks u) \<le> length (ir_basic_blocks w)"
    by (auto simp: control_at nth_append)
qed

lemma set_control_map: "b < length (ir_basic_blocks u) \<Longrightarrow> set_control b c u = Some (map_control b (\<lambda>_. c) u)"
  by (simp add: set_control_def iv_index_def iv_set_def map_control_def)

lemma map_control_map: "b < length (ir_basic_blocks u) \<Longrightarrow> map_control b f (map_control b g u) = map_control b (\<lambda>c. f (g c)) u"
  by (simp add: map_control_def)

lemma map_control_cong: "block_control u b = Some c \<Longrightarrow> f c = g c \<Longrightarrow> map_control b f u = map_control b g u"
  by (auto simp: map_control_def control_at split: if_splits)

text \<open>The control of the source does not matter to the new block.\<close>

lemma split_edge_map_control:
  assumes "b < length (ir_basic_blocks u)"
  shows "split_edge preds b t (map_control b f u) = map_option (\<lambda>(t, w). (t, map_control b f w)) (split_edge preds b t u)"
proof -
  let ?h = "map_control b f"
  have fresh: "fold_panics push_fresh ids (?h x) = map_option ?h (fold_panics push_fresh ids x)" for ids x
    by (rule fold_panics_sim [of "\<lambda>_. True"]) (auto simp: push_fresh_def map_control_def bind_map_option comp_def split: bind_splits)
  have copy: "copy_span sp (?h x) = map_option (\<lambda>(s, w). (s, ?h w)) (copy_span sp x)" for sp x
    by (auto simp: copy_span_def map_control_def split: bind_splits)
  have ins: "insert_forwarding_block b t (?h u) = map_option (\<lambda>(t, w). (t, ?h w)) (insert_forwarding_block b t u)"
  proof -
    have old: "iv_index (ir_basic_blocks u) b = Some (ir_basic_blocks u ! b)"
      using assms by (simp add: iv_index_def)
    have bb: "iv_index (ir_basic_blocks (?h u)) b = Some ((ir_basic_blocks u ! b)\<lparr>bb_control := f (bb_control (ir_basic_blocks u ! b))\<rparr>)"
      using assms by (simp add: map_control_def iv_index_def)
    have keep: "ir_locals (?h x) = ir_locals x" "ir_operations (?h x) = ir_operations x" for x
      by (simp_all add: map_control_def)
    have push: "do { (i, blocks) \<leftarrow> iv_push (ir_basic_blocks (?h x)) bb; Some (i, (?h x)\<lparr>ir_basic_blocks := blocks\<rparr>) }
        = map_option (\<lambda>(i, w). (i, ?h w)) (do { (i, blocks) \<leftarrow> iv_push (ir_basic_blocks x) bb; Some (i, x\<lparr>ir_basic_blocks := blocks\<rparr>) })"
      if "ir_basic_blocks x = ir_basic_blocks u" for x bb
      using assms that by (auto simp: iv_push_def map_control_def nth_append list_update_append split: bind_splits)
    have same: "ir_basic_blocks y = ir_basic_blocks u" if "fold_panics push_fresh ids u = Some x" "copy_span sp x = Some (s, y)" for ids x y s sp
    proof -
      have "ir_basic_blocks x = ir_basic_blocks u"
        using that(1) by (rule fold_panics_invariant) (auto simp: push_fresh_def bind_Some)
      then show ?thesis
        using that(2) by (auto simp: copy_span_def bind_Some)
    qed
    have next_h: "iv_next_idx (ir_locals (?h x)) = iv_next_idx (ir_locals x)" for x
      by (simp add: keep)
    show ?thesis
    proof (cases "span_iter (bb_outputs (ir_basic_blocks u ! b))")
      case (Some ids)
      then show ?thesis
      proof (cases "fold_panics push_fresh ids u")
        case (Some x)
        then show ?thesis
          using \<open>span_iter _ = Some ids\<close>
          by (auto simp: insert_forwarding_block_def old bb keep fresh copy Let_def push same [OF Some] split: bind_splits)
      qed (simp add: insert_forwarding_block_def old bb keep fresh split: bind_splits)
    qed (simp add: insert_forwarding_block_def old bb keep split: bind_splits)
  qed
  show ?thesis
    by (simp add: split_edge_def ins split: bind_splits)
qed

lemma split_branch_slots:
  assumes c: "block_control u b = Some (Branches br)"
    and run: "fold_panics (split_slot preds) [NonZeroTarget b, ZeroTarget b] u = Some v"
  shows "split_block preds b u = Some v"
proof -
  have b: "b < length (ir_basic_blocks u)"
    using c by (simp add: control_at split: if_splits)
  let ?f = "\<lambda>t. write_target (NonZeroTarget b) t" and ?g = "\<lambda>t. write_target (ZeroTarget b) t"
  obtain t1 u1 where 1: "split_edge preds b (br_non_zero_target br) u = Some (t1, u1)"
    and rest: "split_slot preds (ZeroTarget b) (map_control b (?f t1) u1) = Some v"
    using run c by (auto simp: split_slot_def write_slot_def bind_Some)
  have c1: "block_control u1 b = Some (Branches br)" and b1: "b < length (ir_basic_blocks u1)"
    using split_edge_keeps(3,4) [OF 1] b c by auto
  then obtain t2 u2 where 2: "split_edge preds b (br_zero_target br) u1 = Some (t2, u2)"
    and v: "v = map_control b (?g t2) (map_control b (?f t1) u2)"
    using rest by (auto simp: split_slot_def write_slot_def bind_Some map_control_at split_edge_map_control)
  have c2: "block_control u2 b = Some (Branches br)" and b2: "b < length (ir_basic_blocks u2)"
    using split_edge_keeps(3,4) [OF 2] b1 c1 by auto
  let ?new = "Branches \<lparr>br_condition = br_condition br, br_non_zero_target = t1, br_zero_target = t2\<rparr>"
  have "v = map_control b (\<lambda>_. ?new) u2"
    unfolding v map_control_map [OF b2] by (rule map_control_cong [OF c2]) simp
  then show ?thesis
    using c 1 2 set_control_map [OF b2] by (simp add: split_block_def)
qed

lemma split_slot_case:
  "split_slot preds (CaseTarget b i) u =
     do { t \<leftarrow> get_at (ir_cases_bb_ids u) i; (t', w) \<leftarrow> split_edge preds b t u;
          Some (w\<lparr>ir_cases_bb_ids := (ir_cases_bb_ids w)[i := t']\<rparr>) }"
  by (simp add: split_slot_def write_slot_def)

lemma split_case_slots:
  assumes "fold_panics (split_slot preds) (map (CaseTarget b) ids) u = Some v"
  shows "fold_panics (split_case preds b) ids u = Some v \<and> ir_cases v = ir_cases u
    \<and> (\<forall>x < length (ir_basic_blocks u). block_control v x = block_control u x)
    \<and> length (ir_basic_blocks u) \<le> length (ir_basic_blocks v)"
  using assms
proof (induction ids arbitrary: u)
  case (Cons i ids)
  then obtain t t' w where t: "get_at (ir_cases_bb_ids u) i = Some t" "split_edge preds b t u = Some (t', w)"
    and rest: "fold_panics (split_slot preds) (map (CaseTarget b) ids) (w\<lparr>ir_cases_bb_ids := (ir_cases_bb_ids w)[i := t']\<rparr>) = Some v"
    by (auto simp: split_slot_case bind_Some)
  have "split_case preds b i u = Some (w\<lparr>ir_cases_bb_ids := (ir_cases_bb_ids w)[i := t']\<rparr>)"
    using t split_edge_keeps(1) [OF t(2)] by (auto simp: split_case_def iv_index_def iv_set_def get_at_Some)
  then show ?case
    using Cons.IH [OF rest] split_edge_keeps [OF t(2)] by (fastforce simp: control_at)
qed simp

lemma split_block_slots:
  assumes C: "cfg_closed ir" and b: "b < length (ir_basic_blocks ir)" and shape: "same_shape ir u" "ir_cases u = ir_cases ir"
    and run: "fold_panics (split_slot preds) (slots ir b) u = Some v"
  shows "split_block preds b u = Some v"
proof -
  obtain c where c: "block_control ir b = Some c"
    using b by (simp add: control_at)
  obtain ss where ss: "block_successors ir b = Some ss"
    using cfg_closedE [OF C b] .
  have "map_option control_shape (block_control u b) = Some (control_shape c)"
    using shape b c by (simp add: same_shape_def)
  then obtain c' where c': "block_control u b = Some c'" "control_shape c' = control_shape c"
    by auto
  have run: "fold_panics (split_slot preds) (control_slots ir b c) u = Some v"
    using run c by (simp add: slots_def)
  show ?thesis
  proof (cases c)
    case (Branches br)
    then show ?thesis
      using run c' control_shape_branch [of c' br] split_branch_slots [of u b _ preds v] by auto
  next
    case (Switch sw)
    then obtain sw' where sw': "c' = Switch sw'" "sw_cases sw' = sw_cases sw" "sw_fallback sw' = None \<longleftrightarrow> sw_fallback sw = None"
      using c' control_shape_switch [of c' sw] by auto
    obtain cr where cr: "iv_index (ir_cases ir) (sw_cases sw) = Some cr" "is_idx (cs_targets_start_id cr + cs_count cr)"
      using ss c Switch by (auto simp: block_successors_def iter_outgoing_def cases_get_bb_ids_def cases_target_indices_def
          bind_Some idx_add_Some)
    let ?ids = "[cs_targets_start_id cr..<cs_targets_start_id cr + cs_count cr]"
    have ids: "do { s \<leftarrow> cases_target_indices cr; span_iter s } = Some ?ids" "case_positions ir sw = ?ids"
      using cr by (simp_all add: cases_target_indices_def idx_add_Some bind_Some span_new_def span_iter_eq case_positions_def
          iv_index_def idx_add_def add_u32_def idx_new_def is_idx_def)
    obtain w where w: "fold_panics (split_slot preds) (map (CaseTarget b) ?ids) u = Some w"
      and rest: "fold_panics (split_slot preds) (if sw_fallback sw = None then [] else [FallbackTarget b]) w = Some v"
      using run Switch ids(2) by (auto simp: bind_Some)
    have bu: "b < length (ir_basic_blocks u)"
      using c'(1) by (simp add: control_at split: if_splits)
    note cases = split_case_slots [OF w]
    have cw: "block_control w b = Some (Switch sw')" "b < length (ir_basic_blocks w)"
      using cases bu c'(1) sw'(1) by auto
    have code: "split_block preds b u = (case sw_fallback sw' of None \<Rightarrow> Some w
       | Some fallback \<Rightarrow> do { (new_fallback, ir) \<leftarrow> split_edge preds b fallback w; c \<leftarrow> block_control ir b;
            case c of Switch sw \<Rightarrow> set_control b (Switch (sw\<lparr>sw_fallback := Some new_fallback\<rparr>)) ir | _ \<Rightarrow> None })"
      using c'(1) sw' cr(1) shape(2) ids(1) cases by (auto simp: split_block_def bind_Some simp del: upt.simps)
    show ?thesis
    proof (cases "sw_fallback sw'")
      case None
      then show ?thesis
        using code rest sw'(3) by simp
    next
      case (Some fb)
      then obtain t' x where x: "split_edge preds b fb w = Some (t', x)" "v = map_control b (write_target (FallbackTarget b) t') x"
        using rest sw'(3) cw(1) by (auto simp: split_slot_def write_slot_def bind_Some)
      have cx: "block_control x b = Some (Switch sw')" "b < length (ir_basic_blocks x)"
        using split_edge_keeps(3,4) [OF x(1)] cw by auto
      have "v = map_control b (\<lambda>_. Switch (sw'\<lparr>sw_fallback := Some t'\<rparr>)) x"
        unfolding x(2) by (rule map_control_cong [OF cx(1)]) simp
      then show ?thesis
        using code Some x(1) cx(1) set_control_map [OF cx(2)] by simp
    qed
  qed (use run c' control_shape_other [of c' c ir b] in \<open>auto simp: split_block_def\<close>)
qed

end
