(* ===== verification/Edge_Splitting_Run.thy ===== *)
theory Edge_Splitting_Run
  imports Edge_Slots "HOL-Library.Multiset"
begin

text \<open>
  The splitting of critical edges returns: the invariant of its loop over the slots, and its run from
  the start to the end.
\<close>

section \<open>Steps of the pass\<close>

text \<open>Block \<open>f\<close> of \<open>u\<close> does nothing but pass the outputs of block \<open>b\<close> on to \<open>t\<close>.\<close>

definition forwards :: "eth_ir_program \<Rightarrow> eth_ir_program \<Rightarrow> nat \<Rightarrow> nat \<Rightarrow> nat \<Rightarrow> bool" where
  "forwards ir u b t f \<longleftrightarrow>
     length (ir_basic_blocks ir) \<le> f \<and> block_control u f = Some (ContinuesTo t) \<and> block_operations u f = Some []
     \<and> (\<exists>ins outs. block_inputs u f = Some ins \<and> block_outputs u f = Some ins
          \<and> block_outputs ir b = Some outs \<and> length ins = length outs)"

definition out_count :: "eth_ir_program \<Rightarrow> nat \<Rightarrow> nat" where
  "out_count ir b = length (the (block_outputs ir b))"

definition outs_of :: "eth_ir_program \<Rightarrow> edge_slot list \<Rightarrow> nat" where
  "outs_of ir S = sum_list (map (out_count ir \<circ> slot_source) S)"

lemma outs_of_simps [simp]: "outs_of ir [] = 0" "outs_of ir (s # S) = out_count ir (slot_source s) + outs_of ir S"
  "outs_of ir (S @ S') = outs_of ir S + outs_of ir S'"
  by (simp_all add: outs_of_def)

text \<open>There is room for a block on every edge that the pass may split.\<close>

definition splitting_room :: "eth_ir_program \<Rightarrow> bool" where
  "splitting_room ir \<longleftrightarrow>
     is_idx (length (ir_operations ir)) \<and> is_idx (length (ir_basic_blocks ir) + length (all_slots ir))
     \<and> is_idx (length (ir_locals ir) + 2 * outs_of ir (all_slots ir))
     \<and> is_idx (ir_next_free_local_id ir + outs_of ir (all_slots ir))
     \<and> (\<forall>b < length (ir_basic_blocks ir). block_inputs ir b \<noteq> None \<and> block_outputs ir b \<noteq> None)"

text \<open>What the pass leaves as it was: everything but the blocks, the locals behind the old ones, the
  case targets and the counter of locals.\<close>

definition same_frame :: "eth_ir_program \<Rightarrow> eth_ir_program \<Rightarrow> bool" where
  "same_frame ir u \<longleftrightarrow>
     ir_init_entry u = ir_init_entry ir \<and> ir_main_entry u = ir_main_entry ir \<and> ir_functions u = ir_functions ir
     \<and> ir_operations u = ir_operations ir \<and> ir_data_segments u = ir_data_segments ir
     \<and> ir_large_consts u = ir_large_consts ir \<and> ir_cases u = ir_cases ir
     \<and> ir_next_static_alloc_id u = ir_next_static_alloc_id ir \<and> (\<exists>ls. ir_locals u = ir_locals ir @ ls)"

definition old_blocks :: "eth_ir_program \<Rightarrow> eth_ir_program \<Rightarrow> bool" where
  "old_blocks ir u \<longleftrightarrow>
     same_frame ir u
     \<and> length (ir_basic_blocks ir) \<le> length (ir_basic_blocks u)
     \<and> (\<forall>b < length (ir_basic_blocks ir). \<exists>c. ir_basic_blocks u ! b = (ir_basic_blocks ir ! b)\<lparr>bb_control := c\<rparr>)
     \<and> same_shape ir u"

definition new_blocks :: "eth_ir_program \<Rightarrow> edge_slot list \<Rightarrow> eth_ir_program \<Rightarrow> bool" where
  "new_blocks ir S u \<longleftrightarrow>
     filter (\<lambda>t. length (ir_basic_blocks ir) \<le> t) (map (the \<circ> read_slot u) S)
       = [length (ir_basic_blocks ir)..<length (ir_basic_blocks u)]
     \<and> concat (map (the \<circ> block_inputs u) [length (ir_basic_blocks ir)..<length (ir_basic_blocks u)])
       = [ir_next_free_local_id ir..<ir_next_free_local_id u]
     \<and> ir_next_free_local_id ir \<le> ir_next_free_local_id u"

definition within_room :: "eth_ir_program \<Rightarrow> edge_slot list \<Rightarrow> eth_ir_program \<Rightarrow> bool" where
  "within_room ir S u \<longleftrightarrow>
     length (ir_basic_blocks u) \<le> length (ir_basic_blocks ir) + length S
     \<and> length (ir_locals u) \<le> length (ir_locals ir) + 2 * outs_of ir S
     \<and> ir_next_free_local_id u \<le> ir_next_free_local_id ir + outs_of ir S"

definition slot_done :: "eth_ir_program \<Rightarrow> nat list list \<Rightarrow> eth_ir_program \<Rightarrow> edge_slot \<Rightarrow> bool" where
  "slot_done ir preds u s \<longleftrightarrow>
     (\<exists>t t'. read_slot ir s = Some t \<and> read_slot u s = Some t'
        \<and> (if 1 < length (preds ! t) then forwards ir u (slot_source s) t t' else t' = t))"

definition split_inv :: "eth_ir_program \<Rightarrow> nat list list \<Rightarrow> edge_slot list \<Rightarrow> eth_ir_program \<Rightarrow> bool" where
  "split_inv ir preds S u \<longleftrightarrow>
     old_blocks ir u \<and> new_blocks ir S u \<and> within_room ir S u
     \<and> (\<forall>s \<in> set (all_slots ir). s \<notin> set S \<longrightarrow> read_slot u s = read_slot ir s)
     \<and> (\<forall>s \<in> set S. slot_done ir preds u s)"

lemma old_blocksD:
  assumes "old_blocks ir u" and b: "b < length (ir_basic_blocks ir)"
  shows "b < length (ir_basic_blocks u)" and "bb_inputs (ir_basic_blocks u ! b) = bb_inputs (ir_basic_blocks ir ! b)"
    and "bb_outputs (ir_basic_blocks u ! b) = bb_outputs (ir_basic_blocks ir ! b)"
    and "bb_operations (ir_basic_blocks u ! b) = bb_operations (ir_basic_blocks ir ! b)"
proof -
  obtain c where "ir_basic_blocks u ! b = (ir_basic_blocks ir ! b)\<lparr>bb_control := c\<rparr>"
    using assms unfolding old_blocks_def by blast
  then show "bb_inputs (ir_basic_blocks u ! b) = bb_inputs (ir_basic_blocks ir ! b)"
    "bb_outputs (ir_basic_blocks u ! b) = bb_outputs (ir_basic_blocks ir ! b)"
    "bb_operations (ir_basic_blocks u ! b) = bb_operations (ir_basic_blocks ir ! b)"
    by simp_all
  show "b < length (ir_basic_blocks u)"
    using assms by (simp add: old_blocks_def)
qed

lemma slice_of_extend: "slice_of xs a b = Some ys \<Longrightarrow> slice_of (xs @ zs) a b = Some ys"
  by (auto simp: slice_of_Some)

text \<open>Writing a slot changes one control or one case target.\<close>

lemma write_slot_views:
  "length (ir_basic_blocks (write_slot s t u)) = length (ir_basic_blocks u)"
  "ir_locals (write_slot s t u) = ir_locals u" "ir_operations (write_slot s t u) = ir_operations u"
  "ir_next_free_local_id (write_slot s t u) = ir_next_free_local_id u"
  "x \<noteq> slot_source s \<Longrightarrow> block_control (write_slot s t u) x = block_control u x"
  "block_inputs (write_slot s t u) x = block_inputs u x" "block_outputs (write_slot s t u) x = block_outputs u x"
  "block_operations (write_slot s t u) x = block_operations u x"
proof -
  have frames: "length (ir_basic_blocks (map_control b f u)) = length (ir_basic_blocks u)"
    "ir_locals (map_control b f u) = ir_locals u" "ir_operations (map_control b f u) = ir_operations u"
    "ir_next_free_local_id (map_control b f u) = ir_next_free_local_id u" for b f
    by (simp_all add: map_control_def)
  have at: "iv_index (ir_basic_blocks (map_control b f u)) x = (if x = b then map_option
      (\<lambda>bb. bb\<lparr>bb_control := f (bb_control bb)\<rparr>) (iv_index (ir_basic_blocks u) b) else iv_index (ir_basic_blocks u) x)" for b f x
    by (auto simp: map_control_def iv_index_def get_at_def)
  have views: "block_inputs (map_control b f u) x = block_inputs u x" "block_outputs (map_control b f u) x = block_outputs u x"
    "block_operations (map_control b f u) x = block_operations u x" for b f x
    by (cases "iv_index (ir_basic_blocks u) b";
        simp add: block_inputs_def block_outputs_def block_operations_def at frames)+
  show "length (ir_basic_blocks (write_slot s t u)) = length (ir_basic_blocks u)"
    "ir_locals (write_slot s t u) = ir_locals u" "ir_operations (write_slot s t u) = ir_operations u"
    "ir_next_free_local_id (write_slot s t u) = ir_next_free_local_id u"
    by (cases s; simp add: write_slot_def frames)+
  show "x \<noteq> slot_source s \<Longrightarrow> block_control (write_slot s t u) x = block_control u x"
    by (cases s; simp add: write_slot_def map_control_at) (simp add: block_control_def)
  show "block_inputs (write_slot s t u) x = block_inputs u x" "block_outputs (write_slot s t u) x = block_outputs u x"
    "block_operations (write_slot s t u) x = block_operations u x"
    by (cases s; simp add: write_slot_def views; simp add: block_inputs_def block_outputs_def block_operations_def)+
qed

lemma same_frame_write: "same_frame ir u \<Longrightarrow> same_frame ir (write_slot s t u)"
  by (cases s) (auto simp: same_frame_def write_slot_def map_control_def)

lemma same_frame_forward: "same_frame ir u \<Longrightarrow> same_frame ir (forward k t u)"
  by (auto simp: same_frame_def forward_def Let_def)

lemma old_blocks_write:
  assumes "s \<in> set (all_slots ir)" and "old_blocks ir u"
  shows "old_blocks ir (write_slot s t u)"
proof -
  have shape: "same_shape ir (write_slot s t u)"
    using assms same_shape_write by (simp add: old_blocks_def)
  have control: "\<exists>c. ir_basic_blocks (map_control x f u) ! b = (ir_basic_blocks u ! b)\<lparr>bb_control := c\<rparr>"
    if "b < length (ir_basic_blocks u)" for b x f
    using that by (intro exI [of _ "if b = x then f (bb_control (ir_basic_blocks u ! b)) else bb_control (ir_basic_blocks u ! b)"])
      (simp add: map_control_def)
  have same: "\<exists>c. ir_basic_blocks (write_slot s t u) ! b = (ir_basic_blocks u ! b)\<lparr>bb_control := c\<rparr>"
    if "b < length (ir_basic_blocks u)" for b
  proof (cases s)
    case (CaseTarget a i)
    then show ?thesis
      by (intro exI [of _ "bb_control (ir_basic_blocks u ! b)"]) (simp add: write_slot_def)
  qed (use that control in \<open>simp_all add: write_slot_def\<close>)
  have "\<exists>c. ir_basic_blocks (write_slot s t u) ! b = (ir_basic_blocks ir ! b)\<lparr>bb_control := c\<rparr>"
    if b: "b < length (ir_basic_blocks ir)" for b
  proof -
    obtain c where "ir_basic_blocks u ! b = (ir_basic_blocks ir ! b)\<lparr>bb_control := c\<rparr>"
      using assms(2) b unfolding old_blocks_def by blast
    then show ?thesis
      using same [of b] old_blocksD(1) [OF assms(2) b] by auto
  qed
  moreover have "length (ir_basic_blocks ir) \<le> length (ir_basic_blocks (write_slot s t u))"
    using assms(2) by (simp add: write_slot_views old_blocks_def)
  ultimately show ?thesis
    using shape assms(2) same_frame_write unfolding old_blocks_def by blast
qed

text \<open>A forwarding block is added behind the others.\<close>

lemma forward_views:
  "ir_basic_blocks (forward k t u) = ir_basic_blocks u @ drop (length (ir_basic_blocks u)) (ir_basic_blocks (forward k t u))"
  "length (ir_basic_blocks (forward k t u)) = Suc (length (ir_basic_blocks u))"
  "x < length (ir_basic_blocks u) \<Longrightarrow> block_control (forward k t u) x = block_control u x"
  "x < length (ir_basic_blocks u) \<Longrightarrow> block_operations (forward k t u) x = block_operations u x"
  "block_inputs u x = Some ins \<Longrightarrow> block_inputs (forward k t u) x = Some ins"
  "block_outputs u x = Some outs \<Longrightarrow> block_outputs (forward k t u) x = Some outs"
  by (auto simp: forward_def Let_def control_at block_inputs_def block_outputs_def block_operations_def
      iv_index_def get_at_def bind_Some iv_index_span_def nth_append slice_of_extend split: if_splits)

lemma forward_block:
  assumes "is_idx (length (ir_operations u))"
  shows "block_control (forward k t u) (length (ir_basic_blocks u)) = Some (ContinuesTo t)"
    and "block_operations (forward k t u) (length (ir_basic_blocks u)) = Some []"
    and "block_inputs (forward k t u) (length (ir_basic_blocks u)) = Some [ir_next_free_local_id u..<ir_next_free_local_id u + k]"
    and "block_outputs (forward k t u) (length (ir_basic_blocks u)) = Some [ir_next_free_local_id u..<ir_next_free_local_id u + k]"
  using assms
  by (simp_all add: forward_def Let_def control_at block_inputs_def block_outputs_def block_operations_def
      iv_index_def iv_index_span_def slice_of_def span_new_def span_iter_eq)

lemma old_blocks_forward:
  assumes "old_blocks ir u"
  shows "old_blocks ir (forward k t u)"
proof -
  have nth: "ir_basic_blocks (forward k t u) ! b = ir_basic_blocks u ! b" if "b < length (ir_basic_blocks u)" for b
    using that by (simp add: forward_def Let_def nth_append)
  have "\<exists>c. ir_basic_blocks (forward k t u) ! b = (ir_basic_blocks ir ! b)\<lparr>bb_control := c\<rparr>"
    if b: "b < length (ir_basic_blocks ir)" for b
    using assms b old_blocksD(1) [OF assms b] nth unfolding old_blocks_def by metis
  moreover have "same_shape ir (forward k t u)"
    using assms old_blocksD(1) [OF assms] forward_views(3) [of _ u k t]
    by (simp add: old_blocks_def same_shape_def) (simp add: forward_def Let_def)
  ultimately show ?thesis
    using assms same_frame_forward unfolding old_blocks_def forward_views(2) by auto
qed

section \<open>Slots and successors\<close>

lemma slice_nth: "slice_of xs a (a + k) = Some ys \<Longrightarrow> map (get_at xs) [a..<a + k] = map Some ys"
  by (intro nth_equalityI) (auto simp: slice_of_Some)

lemma case_positions_read:
  assumes "iv_index (ir_cases u) (sw_cases sw) = Some c" and "cases_get_bb_ids u c = Some ts"
  shows "map (read_slot u) (map (CaseTarget b) (case_positions u sw)) = map Some ts"
proof -
  have "slice_of (ir_cases_bb_ids u) (cs_targets_start_id c) (cs_targets_start_id c + cs_count c) = Some ts"
    using assms(2) by (auto simp: cases_get_bb_ids_def cases_target_indices_def iv_rel_slice_def bind_Some idx_add_Some span_new_def)
  from slice_nth [OF this] show ?thesis
    using assms(1) by (simp add: case_positions_def iv_index_def comp_def)
qed

lemma slot_successors:
  assumes c: "block_control u b = Some c" and ss: "block_successors u b = Some ss"
    and branching: "(\<exists>br. c = Branches br) \<or> (\<exists>sw. c = Switch sw)"
  shows "mset (map (read_slot u) (control_slots u b c)) = mset (map Some ss)"
  using branching
proof
  assume "\<exists>br. c = Branches br"
  then show ?thesis
    using c ss by (auto simp: block_successors_def iter_outgoing_def outgoing_list_def add_mset_commute)
next
  assume "\<exists>sw. c = Switch sw"
  then obtain sw cr ts where sw: "c = Switch sw" and cr: "iv_index (ir_cases u) (sw_cases sw) = Some cr"
    and ts: "cases_get_bb_ids u cr = Some ts" and ss': "ss = ts @ (case sw_fallback sw of None \<Rightarrow> [] | Some t \<Rightarrow> [t])"
    using c ss by (auto simp: block_successors_def iter_outgoing_def outgoing_list_def bind_Some)
  have "map (read_slot u) (control_slots u b c) = map Some ss"
    using case_positions_read [OF cr ts, of b] c unfolding sw ss' by (auto split: option.splits)
  then show ?thesis
    by simp
qed

lemma branching_slots: "s \<in> set (control_slots u b c) \<Longrightarrow> (\<exists>br. c = Branches br) \<or> (\<exists>sw. c = Switch sw)"
  by (cases c) auto

lemma slot_target:
  assumes C: "cfg_closed ir" and s: "s \<in> set (all_slots ir)"
  shows "\<exists>t. read_slot ir s = Some t \<and> t < length (ir_basic_blocks ir) \<and> edge ir (slot_source s) t"
proof -
  let ?b = "slot_source s"
  have b: "?b < length (ir_basic_blocks ir)" and "s \<in> set (slots ir ?b)"
    using s slots_block by (simp_all add: all_slots_iff)
  then obtain c where c: "block_control ir ?b = Some c" "s \<in> set (control_slots ir ?b c)"
    by (auto simp: in_slots)
  obtain ss where ss: "block_successors ir ?b = Some ss" "set ss \<subseteq> {..<length (ir_basic_blocks ir)}"
    using cfg_closedE [OF C b] by metis
  have "set (map (read_slot ir) (control_slots ir ?b c)) = set (map Some ss)"
    using slot_successors [OF c(1) ss(1) branching_slots [OF c(2)]] by (rule mset_eq_setD)
  moreover have "read_slot ir s \<in> set (map (read_slot ir) (control_slots ir ?b c))"
    using c(2) by simp
  ultimately have "read_slot ir s \<in> set (map Some ss)"
    by (simp only:)
  then show ?thesis
    using ss by (auto simp: edge_def)
qed

lemma case_slot_bound: "cfg_closed ir \<Longrightarrow> CaseTarget b i \<in> set (all_slots ir) \<Longrightarrow> i < length (ir_cases_bb_ids ir)"
  using slot_target [of ir "CaseTarget b i"] by (auto simp: get_at_Some)

section \<open>One slot\<close>

lemma forwards_write:
  "forwards ir u b t f \<Longrightarrow> slot_source s < length (ir_basic_blocks ir) \<Longrightarrow> forwards ir (write_slot s t' u) b t f"
  by (auto simp: forwards_def write_slot_views)

lemma forwards_forward: "forwards ir u b t f \<Longrightarrow> forwards ir (forward k t' u) b t f"
proof -
  assume f: "forwards ir u b t f"
  then have "f < length (ir_basic_blocks u)"
    by (auto simp: forwards_def control_at split: if_splits)
  with f show ?thesis
    by (auto simp: forwards_def forward_views)
qed

lemma read_slot_forward:
  "s \<in> set (all_slots ir) \<Longrightarrow> length (ir_basic_blocks ir) \<le> length (ir_basic_blocks u) \<Longrightarrow>
   read_slot (forward k t u) s = read_slot u s"
proof -
  assume s: "s \<in> set (all_slots ir)" and n: "length (ir_basic_blocks ir) \<le> length (ir_basic_blocks u)"
  have ids: "ir_cases_bb_ids (forward k t u) = ir_cases_bb_ids u"
    by (simp add: forward_def Let_def)
  have "slot_source s < length (ir_basic_blocks u)"
    using s n slots_block [of s ir "slot_source s"] by (simp add: all_slots_iff)
  then show ?thesis
    by (cases s) (simp_all add: forward_views(3) ids)
qed

lemma new_block_done:
  assumes I: "split_inv ir preds S u" and f: "length (ir_basic_blocks ir) \<le> f" "f < length (ir_basic_blocks u)"
    and C: "cfg_closed ir" and S: "set S \<subseteq> set (all_slots ir)"
  shows "\<exists>s \<in> set S. \<exists>t. read_slot ir s = Some t \<and> read_slot u s = Some f \<and> 1 < length (preds ! t)
    \<and> forwards ir u (slot_source s) t f"
proof -
  have "f \<in> set (filter (\<lambda>t. length (ir_basic_blocks ir) \<le> t) (map (the \<circ> read_slot u) S))"
    using I f by (simp only: split_inv_def new_blocks_def set_upt) auto
  then obtain s where s: "s \<in> set S" "the (read_slot u s) = f"
    by auto
  then obtain t t' where t: "read_slot ir s = Some t" "read_slot u s = Some t'"
    "if 1 < length (preds ! t) then forwards ir u (slot_source s) t t' else t' = t"
    using I unfolding split_inv_def slot_done_def by blast
  moreover have "t < length (ir_basic_blocks ir)"
    using slot_target [OF C, of s] S s(1) t(1) by auto
  ultimately show ?thesis
    using s f by (intro bexI [OF _ s(1)]) (auto split: if_splits)
qed

lemma read_after_write:
  assumes "cfg_closed ir" and "own_cases ir" and "s \<in> set (all_slots ir)" "x \<in> set (all_slots ir)" and "same_shape ir w"
  shows "read_slot (write_slot s t w) x = (if x = s then Some t else read_slot w x)"
  using case_slot_bound [OF assms(1)] assms(3) by (intro read_write_slot [OF assms(3,4,2,5)]) simp

lemma split_inv_write:
  assumes I: "split_inv ir preds S u" and C: "cfg_closed ir" and own: "own_cases ir"
    and s: "s \<in> set (all_slots ir)" "s \<notin> set S" "set S \<subseteq> set (all_slots ir)"
    and w: "old_blocks ir w" "\<And>x. x \<in> set (all_slots ir) \<Longrightarrow> read_slot w x = read_slot u x"
      "\<And>b t f. forwards ir u b t f \<Longrightarrow> forwards ir w b t f"
    and t: "read_slot ir s = Some t" "if 1 < length (preds ! t) then forwards ir w (slot_source s) t t' else t' = t"
    and new: "new_blocks ir (S @ [s]) (write_slot s t' w)" and room: "within_room ir (S @ [s]) (write_slot s t' w)"
  shows "split_inv ir preds (S @ [s]) (write_slot s t' w)"
proof -
  let ?v = "write_slot s t' w"
  have read: "read_slot ?v x = (if x = s then Some t' else read_slot u x)" if "x \<in> set (all_slots ir)" for x
    using read_after_write [OF C own s(1) that] w(1,2) that by (simp add: old_blocks_def)
  have b: "slot_source s < length (ir_basic_blocks ir)"
    using s(1) slots_block by (simp add: all_slots_iff)
  have "slot_done ir preds ?v x" if "x \<in> set S" for x
  proof -
    have "x \<in> set (all_slots ir)" "x \<noteq> s"
      using that s by auto
    moreover have "slot_done ir preds u x"
      using I that by (simp add: split_inv_def)
    ultimately show ?thesis
      using read forwards_write [OF w(3) b] by (auto simp: slot_done_def split: if_splits)
  qed
  moreover have "slot_done ir preds ?v s"
    using t read [OF s(1)] forwards_write [OF _ b] by (auto simp: slot_done_def split: if_splits)
  ultimately show ?thesis
    using I new room read old_blocks_write [OF s(1) w(1)] by (auto simp: split_inv_def)
qed

lemma outputs_span:
  assumes "splitting_room ir" and "old_blocks ir u" and "b < length (ir_basic_blocks ir)"
  shows "\<exists>ids. span_iter (bb_outputs (ir_basic_blocks u ! b)) = Some ids \<and> length ids = out_count ir b"
    and "\<exists>outs. block_outputs ir b = Some outs \<and> length outs = out_count ir b"
proof -
  let ?sp = "bb_outputs (ir_basic_blocks ir ! b)"
  obtain outs where outs: "block_outputs ir b = Some outs"
    using assms(1,3) by (auto simp: splitting_room_def)
  then have sp: "sp_start ?sp \<le> sp_end ?sp" "sp_end ?sp \<le> length (ir_locals ir)" "length outs = sp_end ?sp - sp_start ?sp"
    using assms(3) by (auto simp: block_outputs_def iv_index_def iv_index_span_def slice_of_Some)
  have "is_idx (sp_end ?sp)"
    using assms(1) sp(2) by (simp add: splitting_room_def is_idx_def)
  then show "\<exists>ids. span_iter (bb_outputs (ir_basic_blocks u ! b)) = Some ids \<and> length ids = out_count ir b"
    using sp(3) outs old_blocksD(3) [OF assms(2,3)] by (simp add: span_iter_eq out_count_def)
  show "\<exists>outs. block_outputs ir b = Some outs \<and> length outs = out_count ir b"
    using outs by (simp add: out_count_def)
qed

lemma slot_source_bound: "s \<in> set (all_slots ir) \<Longrightarrow> slot_source s < length (ir_basic_blocks ir)"
  using slots_block by (simp add: all_slots_iff)

lemma reads_extended:
  assumes C: "cfg_closed ir" and own: "own_cases ir" and s: "s \<in> set (all_slots ir)" "s \<notin> set S" "set S \<subseteq> set (all_slots ir)"
    and shape: "same_shape ir w" and reads: "\<And>x. x \<in> set (all_slots ir) \<Longrightarrow> read_slot w x = read_slot u x"
  shows "map (the \<circ> read_slot (write_slot s t' w)) (S @ [s]) = map (the \<circ> read_slot u) S @ [t']"
proof -
  have "read_slot (write_slot s t' w) x = (if x = s then Some t' else read_slot u x)" if "x \<in> set (all_slots ir)" for x
    using read_after_write [OF C own s(1) that shape] reads that by simp
  then show ?thesis
    using s by (auto intro!: map_cong)
qed

lemma split_slot_kept:
  assumes I: "split_inv ir preds S u" and C: "cfg_closed ir" and own: "own_cases ir"
    and s: "s \<in> set (all_slots ir)" "s \<notin> set S" "set S \<subseteq> set (all_slots ir)"
    and t: "read_slot ir s = Some t" "t < length (ir_basic_blocks ir)" "\<not> 1 < length (preds ! t)"
  shows "split_inv ir preds (S @ [s]) (write_slot s t u)"
proof -
  have old: "old_blocks ir u" and shape: "same_shape ir u" and new: "new_blocks ir S u" and within: "within_room ir S u"
    using I by (simp_all add: split_inv_def old_blocks_def)
  have "new_blocks ir (S @ [s]) (write_slot s t u)"
    using new t(2) unfolding new_blocks_def write_slot_views reads_extended [OF C own s shape refl]
    by (simp add: write_slot_views comp_def)
  moreover have "within_room ir (S @ [s]) (write_slot s t u)"
    using within by (simp add: within_room_def write_slot_views)
  ultimately show ?thesis
    using split_inv_write [OF I C own s old _ _ t(1)] t(3) by simp
qed

lemma split_slot_forwarded:
  assumes I: "split_inv ir preds S u" and C: "cfg_closed ir" and own: "own_cases ir" and room: "splitting_room ir"
    and s: "s \<in> set (all_slots ir)" "s \<notin> set S" "set S \<subseteq> set (all_slots ir)"
    and t: "read_slot ir s = Some t" "1 < length (preds ! t)" and ops: "is_idx (length (ir_operations u))"
  shows "split_inv ir preds (S @ [s])
    (write_slot s (length (ir_basic_blocks u)) (forward (out_count ir (slot_source s)) t u))"
proof -
  let ?n = "length (ir_basic_blocks ir)" and ?f = "length (ir_basic_blocks u)" and ?b = "slot_source s"
  let ?k = "out_count ir ?b" and ?nf = "ir_next_free_local_id u"
  let ?w = "forward ?k t u"
  have old: "old_blocks ir u" and n: "?n \<le> ?f" and new: "new_blocks ir S u" and within: "within_room ir S u"
    using I by (simp_all add: split_inv_def old_blocks_def)
  have w: "old_blocks ir ?w" "\<And>x. x \<in> set (all_slots ir) \<Longrightarrow> read_slot ?w x = read_slot u x" and shape: "same_shape ir ?w"
    using old_blocks_forward [OF old] read_slot_forward n by (auto simp: old_blocks_def)
  have fwd: "forwards ir ?w ?b t ?f"
    using forward_block [OF ops, of ?k t] outputs_span(2) [OF room old slot_source_bound [OF s(1)]] n
    by (auto simp: forwards_def)
  have inputs: "map (the \<circ> block_inputs ?w) [?n..<?f] = map (the \<circ> block_inputs u) [?n..<?f]"
  proof (rule map_cong)
    fix x assume "x \<in> set [?n..<?f]"
    then obtain ins where "block_inputs u x = Some ins"
      using new_block_done [OF I _ _ C s(3), of x] by (auto simp: forwards_def)
    then show "(the \<circ> block_inputs ?w) x = (the \<circ> block_inputs u) x"
      by (simp add: forward_views(5))
  qed simp
  have R: "map (the \<circ> read_slot (write_slot s ?f ?w)) (S @ [s]) = map (the \<circ> read_slot u) S @ [?f]"
    by (rule reads_extended [OF C own s shape w(2)])
  have views: "block_inputs (write_slot s ?f ?w) = block_inputs ?w" "ir_next_free_local_id ?w = ?nf + ?k"
    by (auto simp: write_slot_views forward_def Let_def)
  have le: "?n \<le> ?f" "ir_next_free_local_id ir \<le> ?nf"
    using n new by (simp_all add: new_blocks_def)
  then have "[?n..<Suc ?f] = [?n..<?f] @ [?f]"
    "[ir_next_free_local_id ir..<?nf + ?k] = [ir_next_free_local_id ir..<?nf] @ [?nf..<?nf + ?k]"
    by (simp_all add: upt_add_eq_append [symmetric] del: upt_add_eq_append)
  then have "new_blocks ir (S @ [s]) (write_slot s ?f ?w)"
    using new inputs forward_block(3) [OF ops, of ?k t] le
    unfolding new_blocks_def R write_slot_views forward_views(2) views by (simp del: upt_Suc map_eq_conv)
  moreover have "within_room ir (S @ [s]) (write_slot s ?f ?w)"
    using within by (simp add: within_room_def write_slot_views forward_def Let_def)
  ultimately show ?thesis
    using split_inv_write [OF I C own s w(1,2) forwards_forward t(1)] t(2) fwd by simp
qed

lemma split_slot_step:
  assumes I: "split_inv ir preds S u" and C: "cfg_closed ir" and own: "own_cases ir" and room: "splitting_room ir"
    and preds: "length preds = length (ir_basic_blocks ir)" and all: "all_slots ir = S @ s # R"
  shows "\<exists>v. split_slot preds s u = Some v \<and> split_inv ir preds (S @ [s]) v"
proof -
  let ?b = "slot_source s" and ?k = "out_count ir (slot_source s)"
  have s: "s \<in> set (all_slots ir)" "s \<notin> set S" "set S \<subseteq> set (all_slots ir)"
    using all distinct_all_slots [of ir] by auto
  have old: "old_blocks ir u" and within: "within_room ir S u"
    using I by (simp_all add: split_inv_def)
  note b = slot_source_bound [OF s(1)]
  obtain t where t: "read_slot ir s = Some t" "t < length (ir_basic_blocks ir)"
    using slot_target [OF C s(1)] by blast
  have tu: "read_slot u s = Some t"
    using I s t(1) by (auto simp: split_inv_def)
  show ?thesis
  proof (cases "1 < length (preds ! t)")
    case False
    then have "split_slot preds s u = Some (write_slot s t u)"
      using tu t(2) preds by (simp add: split_slot_def split_edge_def iv_index_def)
    then show ?thesis
      using split_slot_kept [OF I C own s t False] by blast
  next
    case True
    obtain ids where ids: "span_iter (bb_outputs (ir_basic_blocks u ! ?b)) = Some ids" "length ids = ?k"
      using outputs_span(1) [OF room old b] by blast
    have bounds: "is_idx (length (ir_operations u))" "is_idx (length (ir_locals u) + 2 * ?k)"
        "is_idx (ir_next_free_local_id u + ?k)" "is_idx (length (ir_basic_blocks u))"
      using room within old unfolding splitting_room_def within_room_def all old_blocks_def same_frame_def
      by (auto simp: is_idx_def)
    have "insert_forwarding_block ?b t u = Some (length (ir_basic_blocks u), forward ?k t u)"
      using insert_forwarding_run [of ?b u ids t] ids bounds old_blocksD(1) [OF old b] by simp
    then have "split_slot preds s u = Some (write_slot s (length (ir_basic_blocks u)) (forward ?k t u))"
      using tu t(2) preds True by (simp add: split_slot_def split_edge_def iv_index_def)
    then show ?thesis
      using split_slot_forwarded [OF I C own room s t(1) True bounds(1)] by blast
  qed
qed

section \<open>The whole pass\<close>

lemma split_slots_run:
  assumes "cfg_closed ir" and "own_cases ir" and "splitting_room ir" and "length preds = length (ir_basic_blocks ir)"
    and "split_inv ir preds S u" and "all_slots ir = S @ T @ R"
  shows "\<exists>v. fold_panics (split_slot preds) T u = Some v \<and> split_inv ir preds (S @ T) v"
  using assms(5,6)
proof (induction T arbitrary: S u)
  case (Cons s T)
  obtain w where w: "split_slot preds s u = Some w" "split_inv ir preds (S @ [s]) w"
    using split_slot_step [OF Cons.prems(1) assms(1-4)] Cons.prems(2) by auto
  then obtain v where "fold_panics (split_slot preds) T w = Some v" "split_inv ir preds ((S @ [s]) @ T) v"
    using Cons.IH [OF w(2)] Cons.prems(2) by auto
  then show ?case
    using w(1) by auto
qed simp

lemma split_inv_start: "split_inv ir preds [] ir"
proof -
  have "\<exists>c. ir_basic_blocks ir ! b = (ir_basic_blocks ir ! b)\<lparr>bb_control := c\<rparr>" for b
    by (intro exI [of _ "bb_control (ir_basic_blocks ir ! b)"]) simp
  then show ?thesis
    by (simp add: split_inv_def old_blocks_def same_frame_def same_shape_def new_blocks_def within_room_def)
qed

lemma splitting_run:
  assumes C: "cfg_closed ir" and own: "own_cases ir" and room: "splitting_room ir"
    and preds: "length preds = length (ir_basic_blocks ir)"
  shows "\<exists>u. fold_panics (split_block preds) [0..<length (ir_basic_blocks ir)] ir = Some u
    \<and> split_inv ir preds (all_slots ir) u"
proof -
  let ?n = "length (ir_basic_blocks ir)"
  have "\<exists>u. fold_panics (split_block preds) [0..<k] ir = Some u \<and> split_inv ir preds (concat (map (slots ir) [0..<k])) u"
    if "k \<le> ?n" for k
    using that
  proof (induction k)
    case 0
    then show ?case
      by (simp add: split_inv_start)
  next
    case (Suc k)
    then obtain u where u: "fold_panics (split_block preds) [0..<k] ir = Some u" "split_inv ir preds (concat (map (slots ir) [0..<k])) u"
      by auto
    have "[0..<?n] = [0..<k] @ k # [Suc k..<?n]"
      using Suc.prems upt_add_eq_append [of 0 k "?n - k"] by (simp add: upt_conv_Cons)
    then have all: "all_slots ir = concat (map (slots ir) [0..<k]) @ slots ir k @ concat (map (slots ir) [Suc k..<?n])"
      by (simp add: all_slots_def)
    obtain v where v: "fold_panics (split_slot preds) (slots ir k) u = Some v"
      "split_inv ir preds (concat (map (slots ir) [0..<k]) @ slots ir k) v"
      using split_slots_run [OF C own room preds u(2) all] by blast
    have "same_shape ir u" "ir_cases u = ir_cases ir"
      using u(2) by (simp_all add: split_inv_def old_blocks_def same_frame_def)
    then have "split_block preds k u = Some v"
      using split_block_slots [OF C _ _ _ v(1)] Suc.prems by simp
    then show ?case
      using u(1) v(2) by simp
  qed
  from this [of ?n] show ?thesis
    by (simp add: all_slots_def)
qed

end
