(* ===== verification/Edge_Splitting_Correct.thy ===== *)
theory Edge_Splitting_Correct
  imports Edge_Splitting_Run
begin

text \<open>
  The splitting of critical edges is right: no critical edge is left, and runs only take detours
  through blocks that forward the values passed along the edge.
\<close>

section \<open>Detours\<close>

text \<open>What the result of the pass is, in terms of controls.\<close>

definition passes :: "eth_ir_program \<Rightarrow> eth_ir_program \<Rightarrow> nat \<Rightarrow> nat \<Rightarrow> nat \<Rightarrow> bool" where
  "passes ir u b t t' \<longleftrightarrow> t' = t \<or> forwards ir u b t t'"

definition detours :: "eth_ir_program \<Rightarrow> eth_ir_program \<Rightarrow> bool" where
  "detours ir u \<longleftrightarrow>
     (\<forall>b < length (ir_basic_blocks ir).
        block_inputs u b = block_inputs ir b \<and> block_outputs u b = block_outputs ir b
        \<and> block_operations u b = block_operations ir b
        \<and> (\<exists>c c'. block_control ir b = Some c \<and> block_control u b = Some c' \<and> control_condition c' = control_condition c
             \<and> (\<forall>env. rel_option (passes ir u b) (control_next ir env c) (control_next u env c'))))"

lemma find_targets:
  assumes "map fst cs' = map fst cs" and "list_all2 R (map snd cs) (map snd cs')"
  shows "rel_option R (map_option snd (find (\<lambda>(v, _). x = v) cs)) (map_option snd (find (\<lambda>(v, _). x = v) cs'))"
  using assms
proof (induction cs arbitrary: cs')
  case (Cons c cs)
  then show ?case
    by (cases c; cases cs') auto
qed simp

lemma read_list_all2:
  assumes "map r S = map Some ts" and "map r' S = map Some ts'" and "\<And>s. s \<in> set S \<Longrightarrow> \<exists>t t'. r s = Some t \<and> r' s = Some t' \<and> P t t'"
  shows "list_all2 P ts ts'"
  using assms by (induction S arbitrary: ts ts') (fastforce simp: Cons_eq_map_conv map_eq_Cons_conv)+

lemma slot_passes:
  assumes I: "split_inv ir preds (all_slots ir) u" and b: "block_control ir b = Some c" and s: "s \<in> set (control_slots ir b c)"
  shows "\<exists>t t'. read_slot ir s = Some t \<and> read_slot u s = Some t' \<and> passes ir u b t t'"
proof -
  have slots: "s \<in> set (slots ir b)"
    using b s by (simp add: in_slots)
  then have "s \<in> set (all_slots ir)" "slot_source s = b"
    using slot_source_slots [OF slots] by (simp_all add: all_slots_iff)
  then have "slot_done ir preds u s"
    using I by (simp add: split_inv_def)
  then show ?thesis
    using \<open>slot_source s = b\<close> unfolding slot_done_def passes_def by (auto split: if_splits)
qed

lemma switch_passes:
  assumes I: "split_inv ir preds (all_slots ir) u" and b: "block_control ir b = Some (Switch sw)" "block_control u b = Some (Switch sw')"
    and sw: "sw_cases sw' = sw_cases sw" "sw_fallback sw' = None \<longleftrightarrow> sw_fallback sw = None"
    and ss: "block_successors ir b \<noteq> None"
  shows "rel_option (passes ir u b) (switch_target ir sw v) (switch_target u sw' v)"
proof -
  obtain cr ts where cr: "iv_index (ir_cases ir) (sw_cases sw) = Some cr" and ts: "cases_get_bb_ids ir cr = Some ts"
    using ss b(1) by (auto simp: block_successors_def iter_outgoing_def bind_Some)
  have frame: "ir_cases u = ir_cases ir" "ir_large_consts u = ir_large_consts ir" "length (ir_cases_bb_ids u) = length (ir_cases_bb_ids ir)"
    using I by (simp_all add: split_inv_def old_blocks_def same_frame_def same_shape_def)
  obtain ts' where ts': "cases_get_bb_ids u cr = Some ts'"
    using ts frame(3) by (auto simp: cases_get_bb_ids_def iv_rel_slice_def slice_of_def bind_Some split: if_splits)
  let ?S = "map (CaseTarget b) (case_positions ir sw)"
  have "map (read_slot ir) ?S = map Some ts" "map (read_slot u) ?S = map Some ts'"
    using case_positions_read [OF cr ts, of b] case_positions_read [of u sw cr ts' b] cr ts' frame(1)
    by (simp_all add: case_positions_def)
  then have targets: "list_all2 (passes ir u b) ts ts'"
    using slot_passes [OF I b(1)] by (rule read_list_all2) simp
  have vals: "cases_get_values u cr = cases_get_values ir cr"
    using frame(2) by (simp add: cases_get_values_def)
  show ?thesis
  proof (cases "cases_get_values ir cr")
    case None
    then show ?thesis
      using cr frame(1) sw(1) vals by (simp add: switch_target_def switch_cases_def cases_iter_def)
  next
    case (Some vs)
    let ?cs = "cases_drain vs ts" and ?cs' = "cases_drain vs ts'"
    have read: "cases_iter ir cr = Some ?cs" "cases_iter u cr = Some ?cs'"
      using Some vals ts ts' by (simp_all add: cases_iter_def)
    have "map fst ?cs' = map fst ?cs" "list_all2 (passes ir u b) (map snd ?cs) (map snd ?cs')"
      using cases_iter_Some(2,3) [OF read(1)] cases_iter_Some(2,3) [OF read(2)] vals ts ts' targets by auto
    then have found: "rel_option (passes ir u b) (map_option snd (find (\<lambda>(w, _). v = w) ?cs)) (map_option snd (find (\<lambda>(w, _). v = w) ?cs'))"
      by (rule find_targets)
    have fallback: "rel_option (passes ir u b) (sw_fallback sw) (sw_fallback sw')"
      using slot_passes [OF I b(1), of "FallbackTarget b"] b sw(2) by (cases "sw_fallback sw") auto
    have "switch_target ir sw v = (case map_option snd (find (\<lambda>(w, _). v = w) ?cs) of Some t \<Rightarrow> Some t | None \<Rightarrow> sw_fallback sw)"
      "switch_target u sw' v = (case map_option snd (find (\<lambda>(w, _). v = w) ?cs') of Some t \<Rightarrow> Some t | None \<Rightarrow> sw_fallback sw')"
      using cr frame(1) sw(1) read by (simp_all add: switch_target_def switch_cases_def)
    then show ?thesis
      using found fallback by (auto elim!: option.rel_cases split: option.splits)
  qed
qed

lemma splitting_detours:
  assumes I: "split_inv ir preds (all_slots ir) u" and C: "cfg_closed ir" and room: "splitting_room ir"
  shows "detours ir u"
  unfolding detours_def
proof (intro allI impI)
  fix b assume b: "b < length (ir_basic_blocks ir)"
  have old: "old_blocks ir u"
    using I by (simp add: split_inv_def)
  note views = old_blocksD [OF old b]
  obtain c where c: "block_control ir b = Some c"
    using b by (simp add: control_at)
  obtain c' where c': "block_control u b = Some c'" "control_shape c' = control_shape c"
    using old b c unfolding old_blocks_def same_shape_def by fastforce
  have next_rel: "control_condition c' = control_condition c \<and> rel_option (passes ir u b) (control_next ir env c) (control_next u env c')" for env
  proof (cases c)
    case (Branches br)
    then obtain br' where br': "c' = Branches br'" "br_condition br' = br_condition br"
      using c'(2) control_shape_branch by blast
    show ?thesis
      using slot_passes [OF I c, of "NonZeroTarget b"] slot_passes [OF I c, of "ZeroTarget b"] c c' br' Branches
      by (auto simp: control_next_def control_condition_def)
  next
    case (Switch sw)
    then obtain sw' where sw': "c' = Switch sw'" "sw_condition sw' = sw_condition sw" "sw_cases sw' = sw_cases sw"
      "sw_fallback sw' = None \<longleftrightarrow> sw_fallback sw = None"
      using c'(2) control_shape_switch by blast
    have "block_successors ir b \<noteq> None"
      using cfg_closedE [OF C b] by (metis option.distinct(1))
    then show ?thesis
      using switch_passes [OF I _ _ sw'(3,4)] c c'(1) Switch sw' by (auto simp: control_next_def control_condition_def)
  qed (use control_shape_other [OF c'(2)] in \<open>auto simp: control_next_def control_condition_def passes_def\<close>)
  obtain ls where ls: "ir_locals u = ir_locals ir @ ls"
    using old by (auto simp: old_blocks_def same_frame_def)
  obtain ins outs where "block_inputs ir b = Some ins" "block_outputs ir b = Some outs"
    using room b by (auto simp: splitting_room_def)
  then have "block_inputs u b = block_inputs ir b" "block_outputs u b = block_outputs ir b"
      "block_operations u b = block_operations ir b"
    using b views ls by (auto simp: block_inputs_def block_outputs_def block_operations_def iv_index_def iv_index_span_def
        slice_of_extend)
  then show "block_inputs u b = block_inputs ir b \<and> block_outputs u b = block_outputs ir b
        \<and> block_operations u b = block_operations ir b
        \<and> (\<exists>c c'. block_control ir b = Some c \<and> block_control u b = Some c' \<and> control_condition c' = control_condition c
             \<and> (\<forall>env. rel_option (passes ir u b) (control_next ir env c) (control_next u env c')))"
    using c c'(1) next_rel by auto
qed

section \<open>The graph after the pass\<close>

definition branching :: "control \<Rightarrow> bool" where
  "branching c \<longleftrightarrow> (case c of Branches br \<Rightarrow> True | Switch sw \<Rightarrow> True | _ \<Rightarrow> False)"

lemma branching_iff: "branching c \<longleftrightarrow> (\<exists>br. c = Branches br) \<or> (\<exists>sw. c = Switch sw)"
  by (cases c) (simp_all add: branching_def)

lemma old_successors:
  assumes I: "split_inv ir preds (all_slots ir) u" and C: "cfg_closed ir" and b: "b < length (ir_basic_blocks ir)"
  obtains c ss ss' where "block_control ir b = Some c" "block_successors ir b = Some ss" "block_successors u b = Some ss'"
    "branching c \<Longrightarrow> mset (map (read_slot ir) (slots ir b)) = mset (map Some ss)
       \<and> mset (map (read_slot u) (slots ir b)) = mset (map Some ss')"
    "\<not> branching c \<Longrightarrow> slots ir b = [] \<and> ss' = ss \<and> length ss \<le> 1"
proof -
  have old: "old_blocks ir u"
    using I by (simp add: split_inv_def)
  obtain c where c: "block_control ir b = Some c"
    using b by (simp add: control_at)
  obtain c' where c': "block_control u b = Some c'" "control_shape c' = control_shape c"
    using old b c unfolding old_blocks_def same_shape_def by fastforce
  obtain ss where ss: "block_successors ir b = Some ss"
    using cfg_closedE [OF C b] by metis
  have slots: "slots ir b = control_slots ir b c"
    using c by (simp add: slots_def)
  show ?thesis
  proof (cases "branching c")
    case False
    then have "c' = c" "slots ir b = []"
      using control_shape_other [OF c'(2), of ir b] slots by (cases c; auto simp: branching_def)+
    moreover have "iter_outgoing u c = iter_outgoing ir c" "\<And>it. iter_outgoing ir c = Some it \<Longrightarrow> length (outgoing_list it) \<le> 1"
      using False by (cases c; auto simp: branching_def iter_outgoing_def outgoing_list_def)+
    ultimately show ?thesis
      using that [OF c ss, of ss] ss c c'(1) False by (auto simp: block_successors_def bind_Some)
  next
    case True
    have frame: "ir_cases u = ir_cases ir" "length (ir_cases_bb_ids u) = length (ir_cases_bb_ids ir)"
      using old by (simp_all add: old_blocks_def same_frame_def same_shape_def)
    have "\<exists>ss'. block_successors u b = Some ss' \<and> control_slots u b c' = control_slots ir b c"
    proof (cases c)
      case (Branches br)
      then show ?thesis
        using c' control_shape_branch by (fastforce simp: block_successors_def iter_outgoing_def)
    next
      case (Switch sw)
      then obtain sw' where sw': "c' = Switch sw'" "sw_cases sw' = sw_cases sw" "sw_fallback sw' = None \<longleftrightarrow> sw_fallback sw = None"
        using c'(2) control_shape_switch by blast
      have "cases_get_bb_ids u cr \<noteq> None" if "cases_get_bb_ids ir cr \<noteq> None" for cr
        using that frame(2) by (auto simp: cases_get_bb_ids_def iv_rel_slice_def slice_of_def bind_Some split: if_splits)
      then show ?thesis
        using ss c c'(1) sw' Switch frame by (fastforce simp: block_successors_def iter_outgoing_def bind_Some case_positions_def)
    qed (use True in \<open>simp_all add: branching_def\<close>)
    then obtain ss' where ss': "block_successors u b = Some ss'" "control_slots u b c' = control_slots ir b c"
      by blast
    have "branching c'"
      using True c'(2) control_shape_branch control_shape_switch by (auto simp: branching_iff) blast+
    then show ?thesis
      using slot_successors [OF c ss] slot_successors [OF c'(1) ss'(1)] True unfolding ss'(2) slots branching_iff
      by (intro that [OF c ss ss'(1)]) (simp_all only: slots branching_iff simp_thms)
  qed
qed

lemma in_map_Some: "mset (map r S) = mset (map Some ss) \<Longrightarrow> t \<in> set ss \<longleftrightarrow> (\<exists>s \<in> set S. r s = Some t)"
proof -
  assume "mset (map r S) = mset (map Some ss)"
  then have "r ` set S = Some ` set ss"
    by (metis mset_eq_setD set_map)
  moreover have "t \<in> set ss \<longleftrightarrow> Some t \<in> Some ` set ss"
    by auto
  ultimately have "t \<in> set ss \<longleftrightarrow> Some t \<in> r ` set S"
    by simp
  then show ?thesis
    by (force simp: image_iff)
qed

text \<open>An edge of the old graph is kept or goes through a new block; there are no other edges.\<close>

lemma split_edges:
  assumes I: "split_inv ir preds (all_slots ir) u" and C: "cfg_closed ir" and b: "b < length (ir_basic_blocks ir)"
  shows "edge u b t \<Longrightarrow> (t < length (ir_basic_blocks ir) \<and> edge ir b t)
      \<or> (\<exists>t0 s. s \<in> set (slots ir b) \<and> read_slot u s = Some t \<and> forwards ir u b t0 t \<and> edge ir b t0)"
    and "edge ir b t \<Longrightarrow> edge u b t \<or> (\<exists>f. edge u b f \<and> forwards ir u b t f)"
proof -
  obtain c ss ss' where c: "block_control ir b = Some c" and ss: "block_successors ir b = Some ss" "block_successors u b = Some ss'"
    and br: "branching c \<Longrightarrow> mset (map (read_slot ir) (slots ir b)) = mset (map Some ss)
       \<and> mset (map (read_slot u) (slots ir b)) = mset (map Some ss')"
    and seq: "\<not> branching c \<Longrightarrow> slots ir b = [] \<and> ss' = ss \<and> length ss \<le> 1"
    using old_successors [OF I C b] by metis
  have bound: "edge ir b x \<Longrightarrow> x < length (ir_basic_blocks ir)" for x
    using edge_closed [OF C b] .
  have pass: "\<exists>t t'. read_slot ir s = Some t \<and> read_slot u s = Some t' \<and> passes ir u b t t'" if "s \<in> set (slots ir b)" for s
    using slot_passes [OF I c] that c by (simp add: slots_def)
  show "edge u b t \<Longrightarrow> (t < length (ir_basic_blocks ir) \<and> edge ir b t)
      \<or> (\<exists>t0 s. s \<in> set (slots ir b) \<and> read_slot u s = Some t \<and> forwards ir u b t0 t \<and> edge ir b t0)"
  proof (cases "branching c")
    case True
    assume "edge u b t"
    then obtain s where s: "s \<in> set (slots ir b)" "read_slot u s = Some t"
      using ss(2) br [OF True] in_map_Some [of "read_slot u" "slots ir b" ss'] by (auto simp: edge_def)
    then obtain t0 where t0: "read_slot ir s = Some t0" "passes ir u b t0 t"
      using pass by fastforce
    then have "edge ir b t0"
      using ss(1) br [OF True] in_map_Some [of "read_slot ir" "slots ir b" ss] s(1) by (auto simp: edge_def)
    then show ?thesis
      using s t0(2) bound by (auto simp: passes_def)
  next
    case False
    assume "edge u b t"
    then show ?thesis
      using seq [OF False] ss bound by (auto simp: edge_def)
  qed
  show "edge ir b t \<Longrightarrow> edge u b t \<or> (\<exists>f. edge u b f \<and> forwards ir u b t f)"
  proof (cases "branching c")
    case True
    assume "edge ir b t"
    then obtain s where s: "s \<in> set (slots ir b)" "read_slot ir s = Some t"
      using ss(1) br [OF True] in_map_Some [of "read_slot ir" "slots ir b" ss] by (auto simp: edge_def)
    then obtain t' where t': "read_slot u s = Some t'" "passes ir u b t t'"
      using pass by fastforce
    then have "edge u b t'"
      using ss(2) br [OF True] in_map_Some [of "read_slot u" "slots ir b" ss'] s(1) by (auto simp: edge_def)
    then show ?thesis
      using t'(2) by (auto simp: passes_def)
  next
    case False
    assume "edge ir b t"
    then show ?thesis
      using seq [OF False] ss by (auto simp: edge_def)
  qed
qed

lemma split_reaches:
  assumes I: "split_inv ir preds (all_slots ir) u" and C: "cfg_closed ir" and e: "e < length (ir_basic_blocks ir)"
  shows "reaches u e x \<Longrightarrow>
      (if x < length (ir_basic_blocks ir) then reaches ir e x else \<exists>t. block_control u x = Some (ContinuesTo t) \<and> reaches ir e t)"
    and "reaches ir e b \<Longrightarrow> reaches u e b"
proof -
  show "reaches u e x \<Longrightarrow>
      (if x < length (ir_basic_blocks ir) then reaches ir e x else \<exists>t. block_control u x = Some (ContinuesTo t) \<and> reaches ir e t)"
    unfolding reaches_def
  proof (induction rule: rtranclp_induct)
    case base
    then show ?case
      using e by simp
  next
    case (step y z)
    show ?case
    proof (cases "y < length (ir_basic_blocks ir)")
      case True
      then show ?thesis
        using split_edges(1) [OF I C True step.hyps(2)] step.IH
        by (auto simp: forwards_def intro: rtranclp.rtrancl_into_rtrancl)
    next
      case False
      then obtain t where t: "block_control u y = Some (ContinuesTo t)" "reaches ir e t"
        using step.IH by (auto simp: reaches_def)
      then have "z = t"
        using step.hyps(2) by (simp add: edge_def block_successors_def iter_outgoing_def outgoing_list_def)
      then show ?thesis
        using t(2) reaches_closed [OF C t(2) e] by (simp add: reaches_def)
    qed
  qed
  show "reaches ir e b \<Longrightarrow> reaches u e b"
    unfolding reaches_def
  proof (induction rule: rtranclp_induct)
    case (step y z)
    have "y < length (ir_basic_blocks ir)"
      using edge_source [OF step.hyps(2)] .
    then consider "edge u y z" | f where "edge u y f" "forwards ir u y z f"
      using split_edges(2) [OF I C _ step.hyps(2)] by blast
    then show ?case
    proof cases
      case 2
      then have "edge u f z"
        by (simp add: forwards_def edge_def block_successors_def iter_outgoing_def outgoing_list_def)
      with 2 step.IH show ?thesis
        by (meson rtranclp.rtrancl_into_rtrancl)
    qed (use step.IH in \<open>meson rtranclp.rtrancl_into_rtrancl\<close>)
  qed simp
qed

lemma split_reachable:
  assumes I: "split_inv ir preds (all_slots ir) u" and C: "cfg_closed ir" and b: "b < length (ir_basic_blocks ir)"
  shows "b \<in> reachable_blocks u \<longleftrightarrow> b \<in> reachable_blocks ir"
proof -
  have fns: "ir_functions u = ir_functions ir"
    using I by (simp add: split_inv_def old_blocks_def same_frame_def)
  have "reaches u (entry_of ir f) b \<longleftrightarrow> reaches ir (entry_of ir f) b" if "f < length (ir_functions ir)" for f
    using split_reaches [OF I C, of "entry_of ir f" b] entry_closed [OF C that] b by auto
  then show ?thesis
    using fns by (auto simp: reachable_blocks_def entry_of_def)
qed

lemma split_cfg_closed:
  assumes I: "split_inv ir preds (all_slots ir) u" and C: "cfg_closed ir" and room: "splitting_room ir"
  shows "cfg_closed u"
proof -
  have old: "old_blocks ir u" and n: "length (ir_basic_blocks ir) \<le> length (ir_basic_blocks u)"
    and fns: "ir_functions u = ir_functions ir"
    using I by (simp_all add: split_inv_def old_blocks_def same_frame_def)
  have "case block_successors u b of None \<Rightarrow> False | Some ss \<Rightarrow> \<forall>t \<in> set ss. t < length (ir_basic_blocks u)"
    if b: "b < length (ir_basic_blocks u)" for b
  proof (cases "b < length (ir_basic_blocks ir)")
    case True
    obtain ss' where ss': "block_successors u b = Some ss'"
      using old_successors [OF I C True] by metis
    have "t < length (ir_basic_blocks u)" if "t \<in> set ss'" for t
    proof -
      have "edge u b t"
        using that ss' by (simp add: edge_def)
      from split_edges(1) [OF I C True this] show ?thesis
        using n by (auto simp: forwards_def control_at split: if_splits)
    qed
    then show ?thesis
      using ss' by simp
  next
    case False
    then obtain s t where "read_slot ir s = Some t" "forwards ir u (slot_source s) t b" "s \<in> set (all_slots ir)"
      using new_block_done [OF I _ b C] by auto
    moreover from this have "t < length (ir_basic_blocks u)"
      using slot_target [OF C] n by fastforce
    ultimately show ?thesis
      by (auto simp: forwards_def block_successors_def iter_outgoing_def outgoing_list_def)
  qed
  moreover have "is_idx (length (ir_basic_blocks u))"
    using I room by (auto simp: split_inv_def within_room_def splitting_room_def is_idx_def)
  ultimately show ?thesis
    using C n fns unfolding cfg_closed_def by fastforce
qed

section \<open>No critical edge is left\<close>

lemma pred_list_single:
  assumes b: "b < n" "b \<in> R" and ss: "block_successors ir b = Some ss" "count_list ss x = 1"
    and only: "\<And>y. y < n \<Longrightarrow> y \<in> R \<Longrightarrow> edge ir y x \<Longrightarrow> y = b"
  shows "pred_list ir R [0..<n] x = [b]"
proof -
  have none: "pred_list ir R ys x = []" if "set ys \<subseteq> {..<n} - {b}" for ys
  proof -
    have "y \<notin> set (pred_list ir R ys x)" for y
      using that only [of y] by (auto simp: set_pred_list)
    then show ?thesis
      by (metis list.set_intros(1) neq_Nil_conv)
  qed
  have "[0..<n] = [0..<b] @ b # [Suc b..<n]"
    using b(1) upt_add_eq_append [of 0 b "n - b"] by (simp add: upt_conv_Cons)
  then have "pred_list ir R [0..<n] x = pred_list ir R [0..<b] x @ edge_copies ir R x b @ pred_list ir R [Suc b..<n] x"
    by (simp add: pred_list_def)
  moreover have "pred_list ir R [0..<b] x = []" "pred_list ir R [Suc b..<n] x = []"
    using b(1) by (intro none; auto)+
  ultimately show ?thesis
    using b(2) ss by (simp add: edge_copies_simps)
qed

lemma pred_list_count:
  assumes "b < n" "b \<in> R" and "block_successors ir b = Some ss"
  shows "count_list ss x \<le> length (pred_list ir R [0..<n] x)"
proof -
  have "[0..<n] = [0..<b] @ b # [Suc b..<n]"
    using assms(1) upt_add_eq_append [of 0 b "n - b"] by (simp add: upt_conv_Cons)
  then have "pred_list ir R [0..<n] x = pred_list ir R [0..<b] x @ edge_copies ir R x b @ pred_list ir R [Suc b..<n] x"
    by (simp add: pred_list_def)
  then show ?thesis
    using assms(2,3) by (simp add: edge_copies_simps)
qed

lemma count_reads:
  assumes "mset (map r S) = mset (map Some ss)"
  shows "count_list ss x = length (filter (\<lambda>s. r s = Some x) S)"
proof -
  have "count (mset (map Some ss)) (Some x) = count_list ss x"
    by (induction ss) auto
  moreover have "count (mset (map r S)) (Some x) = length (filter (\<lambda>s. r s = Some x) S)"
    by (induction S) auto
  ultimately show ?thesis
    using assms by simp
qed

lemma distinct_filter_map_inj:
  "distinct (filter P (map g xs)) \<Longrightarrow> x \<in> set xs \<Longrightarrow> y \<in> set xs \<Longrightarrow> P (g x) \<Longrightarrow> g x = g y \<Longrightarrow> x = y"
proof (induction xs)
  case (Cons a xs)
  have "g z \<noteq> g a" if "z \<in> set xs" "P (g z)" for z
  proof
    assume "g z = g a"
    then have "g a \<in> g ` set xs" "P (g a)"
      using that by (metis imageI)+
    then show False
      using Cons.prems(1) by auto
  qed
  from this [of x] this [of y] show ?case
    using Cons by (auto split: if_splits)
qed simp

lemma filter_one: "distinct xs \<Longrightarrow> (\<And>x y. x \<in> set xs \<Longrightarrow> y \<in> set xs \<Longrightarrow> P x \<Longrightarrow> P y \<Longrightarrow> x = y) \<Longrightarrow> length (filter P xs) \<le> 1"
proof (induction xs)
  case (Cons x xs)
  show ?case
  proof (cases "P x")
    case True
    then have "filter P xs = []"
      using Cons.prems by (auto simp: filter_empty_conv)
    then show ?thesis
      using True by simp
  qed (use Cons in simp)
qed simp

lemma new_target_once:
  assumes I: "split_inv ir preds (all_slots ir) u" and x: "length (ir_basic_blocks ir) \<le> x"
    and s: "s \<in> set (all_slots ir)" "s' \<in> set (all_slots ir)" and r: "read_slot u s = Some x" "read_slot u s' = Some x"
  shows "s = s'"
proof -
  have "distinct (filter (\<lambda>t. length (ir_basic_blocks ir) \<le> t) (map (the \<circ> read_slot u) (all_slots ir)))"
    using I by (simp add: split_inv_def new_blocks_def del: filter_map)
  from distinct_filter_map_inj [OF this s] show ?thesis
    using x r by simp
qed

lemma kept_target:
  assumes I: "split_inv ir preds (all_slots ir) u" and x: "x < length (ir_basic_blocks ir)"
    and s: "s \<in> set (all_slots ir)" and r: "read_slot u s = Some x"
  shows "read_slot ir s = Some x" and "length (preds ! x) \<le> 1"
proof -
  have "slot_done ir preds u s"
    using I s by (simp add: split_inv_def)
  then show "read_slot ir s = Some x" "length (preds ! x) \<le> 1"
    using x r by (auto simp: slot_done_def forwards_def split: if_splits)
qed

lemma slots_all: "s \<in> set (slots ir b) \<Longrightarrow> s \<in> set (all_slots ir)"
  using slot_source_slots by (auto simp: all_slots_iff)

text \<open>The only reachable source of an edge out of a branching block.\<close>

lemma split_single_source:
  assumes I: "split_inv ir preds (all_slots ir) u" and C: "cfg_closed ir"
    and preds: "\<And>x. x < length (ir_basic_blocks ir) \<Longrightarrow> set (preds ! x) = {y. y \<in> reachable_blocks ir \<and> edge ir y x}"
    and b: "b < length (ir_basic_blocks ir)" "b \<in> reachable_blocks ir"
    and s: "s \<in> set (slots ir b)" "read_slot u s = Some x"
    and y: "y < length (ir_basic_blocks u)" "y \<in> reachable_blocks u" "edge u y x"
  shows "y = b"
proof (cases "x < length (ir_basic_blocks ir)")
  case True
  have keep: "read_slot ir s = Some x" "length (preds ! x) \<le> 1"
    using kept_target [OF I True slots_all [OF s(1)] s(2)] .
  have "edge ir b x"
    using slot_target [OF C slots_all [OF s(1)]] keep(1) slot_source_slots [OF s(1)] by auto
  then have b_pred: "b \<in> set (preds ! x)"
    using preds [OF True] b(2) by simp
  show ?thesis
  proof (cases "y < length (ir_basic_blocks ir)")
    case y_old: True
    then have "y \<in> set (preds ! x)"
      using split_edges(1) [OF I C y_old y(3)] True preds [OF True] split_reachable [OF I C y_old] y(2)
      by (auto simp: forwards_def)
    then show ?thesis
      using b_pred keep(2) by (cases "preds ! x") auto
  next
    case False
    then obtain s' t where "1 < length (preds ! t)" "forwards ir u (slot_source s') t y"
      using new_block_done [OF I _ y(1) C] by auto
    moreover from this have "t = x"
      using y(3) by (simp add: forwards_def edge_def block_successors_def iter_outgoing_def outgoing_list_def)
    ultimately show ?thesis
      using keep(2) by simp
  qed
next
  case False
  show ?thesis
  proof (cases "y < length (ir_basic_blocks ir)")
    case y_old: True
    then obtain s' where s': "s' \<in> set (slots ir y)" "read_slot u s' = Some x"
      using split_edges(1) [OF I C y_old y(3)] False by blast
    then have "s' = s"
      using new_target_once [OF I _ slots_all slots_all] s False by (metis not_le)
    then show ?thesis
      using s(1) s'(1) slot_source_slots by metis
  next
    case y_new: False
    then obtain s' t where st: "s' \<in> set (all_slots ir)" "read_slot ir s' = Some t" "forwards ir u (slot_source s') t y"
      using new_block_done [OF I _ y(1) C] by auto
    then have "t = x"
      using y(3) by (simp add: forwards_def edge_def block_successors_def iter_outgoing_def outgoing_list_def)
    then show ?thesis
      using slot_target [OF C st(1)] st(2) False by auto
  qed
qed

lemma split_no_critical:
  assumes I: "split_inv ir preds (all_slots ir) u" and C: "cfg_closed ir" and room: "splitting_room ir"
    and preds: "\<And>x. x < length (ir_basic_blocks ir) \<Longrightarrow> preds ! x = pred_list ir (reachable_blocks ir) [0..<length (ir_basic_blocks ir)] x"
    and preds': "\<And>x. x < length (ir_basic_blocks u) \<Longrightarrow> preds' ! x = pred_list u (reachable_blocks u) [0..<length (ir_basic_blocks u)] x"
  shows "no_critical_edges u preds'"
  unfolding no_critical_edges_def
proof (intro allI impI ballI)
  fix b ss' x assume b: "b \<in> reachable_blocks u" and ss': "block_successors u b = Some ss'" and two: "2 \<le> length ss'" and x: "x \<in> set ss'"
  have Cu: "cfg_closed u"
    by (rule split_cfg_closed [OF I C room])
  have edge: "edge u b x"
    using ss' x by (simp add: edge_def)
  have bu: "b < length (ir_basic_blocks u)" and xu: "x < length (ir_basic_blocks u)"
    using edge_source [OF edge] edge_closed [OF Cu _ edge] by auto
  have n: "length (ir_basic_blocks ir) \<le> length (ir_basic_blocks u)"
    using I by (simp add: split_inv_def old_blocks_def)
  have old: "b < length (ir_basic_blocks ir)"
  proof (rule ccontr)
    assume "\<not> b < length (ir_basic_blocks ir)"
    then obtain s t where "forwards ir u (slot_source s) t b"
      using new_block_done [OF I _ bu C] by auto
    then have "ss' = [t]"
      using ss' by (simp add: forwards_def block_successors_def iter_outgoing_def outgoing_list_def)
    then show False
      using two by simp
  qed
  then have reach: "b \<in> reachable_blocks ir"
    using b split_reachable [OF I C] by simp
  obtain c ss where ss: "block_successors ir b = Some ss"
    and br: "branching c \<Longrightarrow> mset (map (read_slot ir) (slots ir b)) = mset (map Some ss)
       \<and> mset (map (read_slot u) (slots ir b)) = mset (map Some ss')"
    and seq: "\<not> branching c \<Longrightarrow> ss' = ss \<and> length ss \<le> 1"
    using old_successors [OF I C old] ss' by (metis option.inject)
  have "branching c"
    using seq two by (cases "branching c") auto
  then have reads: "mset (map (read_slot ir) (slots ir b)) = mset (map Some ss)"
    "mset (map (read_slot u) (slots ir b)) = mset (map Some ss')"
    using br by auto
  obtain s where s: "s \<in> set (slots ir b)" "read_slot u s = Some x"
    using in_map_Some [OF reads(2), of x] x by auto
  have setp: "set (preds ! z) = {y. y \<in> reachable_blocks ir \<and> edge ir y z}" if "z < length (ir_basic_blocks ir)" for z
    using preds [OF that] set_predecessors by simp
  have "count_list ss' x \<le> 1"
  proof (cases "x < length (ir_basic_blocks ir)")
    case True
    have "count_list ss' x \<le> count_list ss x"
      unfolding count_reads [OF reads(1)] count_reads [OF reads(2)]
    proof -
      have "filter (\<lambda>s. read_slot u s = Some x) (slots ir b) = filter (\<lambda>s. read_slot u s = Some x) (filter (\<lambda>s. read_slot ir s = Some x) (slots ir b))"
        using kept_target(1) [OF I True slots_all] by (auto simp: filter_filter intro!: filter_cong)
      then show "length (filter (\<lambda>s. read_slot u s = Some x) (slots ir b)) \<le> length (filter (\<lambda>s. read_slot ir s = Some x) (slots ir b))"
        by (metis length_filter_le)
    qed
    also have "\<dots> \<le> length (preds ! x)"
      using pred_list_count [OF old reach ss] preds [OF True] by simp
    finally show ?thesis
      using kept_target(2) [OF I True slots_all [OF s(1)] s(2)] by simp
  next
    case False
    then show ?thesis
      unfolding count_reads [OF reads(2)]
      using new_target_once [OF I _ slots_all slots_all, of x] by (intro filter_one distinct_slots) (metis not_le)
  qed
  moreover have "count_list ss' x \<noteq> 0"
    using x by (simp add: count_list_0_iff)
  ultimately have one: "count_list ss' x = 1"
    by simp
  show "preds' ! x = [b]"
    unfolding preds' [OF xu] using split_single_source [OF I C setp old reach s]
    by (intro pred_list_single [OF bu b ss' one]) auto
qed

text \<open>
  C24. Splitting critical edges.  On a closed program whose switches own their cases, with room for a
  block on every edge of a branch or switch, the pass returns.  The blocks of the program keep
  everything but the targets in their control; from the same values of the locals a run goes to the
  same block as before, or to a new block that has no operations, passes the outputs on and
  continues there.  The inputs of the new blocks are fresh locals, a different one for each value.
  The same old blocks are reachable, and the result, with its predecessors, has no critical edge.
\<close>

theorem edge_splitting_correct:
  assumes C: "cfg_closed ir" and own: "own_cases ir" and room: "splitting_room ir" and fuel: "length (ir_basic_blocks ir) < fuel"
  shows "\<exists>u preds. critical_edge_splitting fuel ir = Some u \<and> detours ir u \<and> cfg_closed u
    \<and> concat (map (the \<circ> block_inputs u) [length (ir_basic_blocks ir)..<length (ir_basic_blocks u)])
       = [ir_next_free_local_id ir..<ir_next_free_local_id u]
    \<and> (\<forall>b < length (ir_basic_blocks ir). b \<in> reachable_blocks u \<longleftrightarrow> b \<in> reachable_blocks ir)
    \<and> compute_predecessors u (reachable_blocks u) inner = Some preds \<and> no_critical_edges u preds"
proof -
  let ?n = "length (ir_basic_blocks ir)"
  let ?preds = "map (pred_list ir (reachable_blocks ir) [0..<?n]) [0..<?n]"
  have reach: "compute_reachability fuel ir = Some (reachable_blocks ir)"
    using reachability_run [OF C fuel] .
  have preds: "compute_predecessors ir (reachable_blocks ir) [] = Some ?preds"
    by (rule predecessors_run [OF C])
  obtain u where u: "fold_panics (split_block ?preds) [0..<?n] ir = Some u" "split_inv ir ?preds (all_slots ir) u"
    using splitting_run [OF C own room, of ?preds] by auto
  have "is_idx ?n"
    using C by (simp add: cfg_closed_def)
  then have run: "critical_edge_splitting fuel ir = Some u"
    using reach preds u(1) by (simp add: critical_edge_splitting_def iv_iter_idx_def iv_next_idx_def
        idx_try_from_usize_in span_new_def span_iter_eq)
  have Cu: "cfg_closed u"
    by (rule split_cfg_closed [OF u(2) C room])
  have "no_critical_edges u (map (pred_list u (reachable_blocks u) [0..<length (ir_basic_blocks u)]) [0..<length (ir_basic_blocks u)])"
    by (rule split_no_critical [OF u(2) C room]) simp_all
  then show ?thesis
    using run Cu splitting_detours [OF u(2) C room] split_reachable [OF u(2) C] predecessors_run [OF Cu] u(2)
    by (auto simp: split_inv_def new_blocks_def)
qed

section \<open>Example\<close>

text \<open>\<open>bb0 ? bb1 : bb2\<close>, \<open>bb1\<close> continues to \<open>bb2\<close>: the edge from \<open>bb0\<close> to \<open>bb2\<close> is critical.\<close>

definition triangle :: eth_ir_program where
  "triangle = ir_default\<lparr>
     ir_functions := [\<lparr>fn_entry = 0, fn_outputs = 0, fn_source = None\<rparr>],
     ir_basic_blocks := map plain_block
       [Branches \<lparr>br_condition = 0, br_non_zero_target = 1, br_zero_target = 2\<rparr>, ContinuesTo 2, LastOpTerminates]\<rparr>"

lemma triangle_size: "length (ir_basic_blocks triangle) = 3" "ir_functions triangle = [\<lparr>fn_entry = 0, fn_outputs = 0, fn_source = None\<rparr>]"
  by (simp_all add: triangle_def)

lemma triangle_successors:
  "block_successors triangle 0 = Some [2, 1]" "block_successors triangle (Suc 0) = Some [2]" "block_successors triangle 2 = Some []"
  by (simp_all add: block_successors_def block_control_def iter_outgoing_def outgoing_list_def triangle_def plain_block_def iv_index_def)

lemma below_three: "(b :: nat) < 3 \<longleftrightarrow> b = 0 \<or> b = Suc 0 \<or> b = 2"
  by auto

lemma triangle_closed: "cfg_closed triangle"
  unfolding cfg_closed_def triangle_size below_three by (auto simp: triangle_successors is_idx_def u32_max_def)

lemma triangle_slots: "all_slots triangle = [NonZeroTarget 0, ZeroTarget 0]"
proof -
  have "slots triangle 0 = [NonZeroTarget 0, ZeroTarget 0]" "slots triangle (Suc 0) = []" "slots triangle 2 = []"
    by (simp_all add: slots_def block_control_def iv_index_def triangle_def plain_block_def)
  moreover have "[0..<3] = [0, Suc 0, 2]"
    by (simp add: upt_conv_Cons)
  ultimately show ?thesis
    by (simp add: all_slots_def triangle_size)
qed

lemma triangle_room: "splitting_room triangle"
proof -
  have "block_outputs triangle b = Some [] \<and> block_inputs triangle b = Some []" if "b < 3" for b
    using that unfolding below_three
    by (auto simp: block_outputs_def block_inputs_def iv_index_def triangle_def plain_block_def iv_index_span_def slice_of_def span_new_def)
  then show ?thesis
    by (simp add: splitting_room_def triangle_slots triangle_size outs_of_def out_count_def)
      (simp add: triangle_def ir_default_def is_idx_def u32_max_def)
qed

lemma edge_splitting_correct_witness:
  "\<exists>u preds. critical_edge_splitting 4 triangle = Some u \<and> detours triangle u
    \<and> compute_predecessors u (reachable_blocks u) [] = Some preds \<and> no_critical_edges u preds"
proof -
  have "own_cases triangle"
    by (simp add: own_cases_def triangle_slots)
  then show ?thesis
    using edge_splitting_correct [OF triangle_closed _ triangle_room, of 4 "[]"] by (auto simp: triangle_size)
qed

end
