(* ===== verification/Copy_Propagation.thy ===== *)
theory Copy_Propagation
  imports Sir_Run Legal Sir_Blocks
begin

text \<open>
  Copy propagation (\<open>passes/src/optimizations/copy_propagation.rs\<close>): within a block, a read of the
  target of a copy becomes a read of the root of the chain of copies.  The assertion that no target
  is copied twice is for debug builds only, and left out.
\<close>

section \<open>The pass\<close>

type_synonym copy_map = "nat \<rightharpoonup> nat"

definition replace_if_copied :: "copy_map \<Rightarrow> nat \<Rightarrow> nat" where
  "replace_if_copied m l = (case m l of Some r \<Rightarrow> r | None \<Rightarrow> l)"

definition collect_copy :: "operation \<Rightarrow> copy_map \<Rightarrow> copy_map" where
  "collect_copy op m =
     (case (op_kind op, op_payload op) of
        (KSetCopy, InlineOperands [src] [dst]) \<Rightarrow> m(dst \<mapsto> (case m src of Some r \<Rightarrow> r | None \<Rightarrow> src))
      | _ \<Rightarrow> m)"

definition rewrite_copied :: "copy_map \<Rightarrow> nat \<Rightarrow> eth_ir_program \<Rightarrow> eth_ir_program panics" where
  "rewrite_copied m i ir =
     do { op \<leftarrow> iv_index (ir_operations ir) i;
          ins \<leftarrow> op_inputs ir op;
          (d, locals) \<leftarrow> put_inputs (ir_locals ir) (op_payload op) (map (replace_if_copied m) ins);
          ops \<leftarrow> iv_set (ir_operations ir) i (op\<lparr>op_payload := d\<rparr>);
          Some (ir\<lparr>ir_locals := locals, ir_operations := ops\<rparr>) }"

definition copy_control :: "copy_map \<Rightarrow> control \<Rightarrow> control" where
  "copy_control m c =
     (case c of
        Branches br \<Rightarrow> Branches (br\<lparr>br_condition := replace_if_copied m (br_condition br)\<rparr>)
      | Switch sw \<Rightarrow> Switch (sw\<lparr>sw_condition := replace_if_copied m (sw_condition sw)\<rparr>)
      | _ \<Rightarrow> c)"

definition propagate_block :: "nat \<Rightarrow> eth_ir_program \<Rightarrow> eth_ir_program panics" where
  "propagate_block b ir =
     do { bb \<leftarrow> iv_index (ir_basic_blocks ir) b;
          ops \<leftarrow> iv_index_span (ir_operations ir) (bb_operations bb);
          let m = fold collect_copy ops Map.empty;
          ids \<leftarrow> span_iter (bb_operations bb);
          ir \<leftarrow> fold_panics (rewrite_copied m) ids ir;
          outs \<leftarrow> iv_index_span (ir_locals ir) (bb_outputs bb);
          locals \<leftarrow> put_slice (ir_locals ir) (sp_start (bb_outputs bb)) (sp_end (bb_outputs bb))
            (map (replace_if_copied m) outs);
          set_control b (copy_control m (bb_control bb)) (ir\<lparr>ir_locals := locals\<rparr>) }"

definition copy_propagation :: "eth_ir_program \<Rightarrow> eth_ir_program panics" where
  "copy_propagation ir = fold_panics propagate_block [0..<length (ir_basic_blocks ir)] ir"

section \<open>The effect on a legal program\<close>

text \<open>The copies of a block of the original program.\<close>

definition block_copies :: "eth_ir_program \<Rightarrow> nat \<Rightarrow> copy_map" where
  "block_copies ir b = (case iv_index_span (ir_operations ir) (bb_operations (ir_basic_blocks ir ! b)) of
     Some ops \<Rightarrow> fold collect_copy ops Map.empty | None \<Rightarrow> Map.empty)"

fun set_inline_inputs :: "op_data \<Rightarrow> nat list \<Rightarrow> op_data" where
  "set_inline_inputs (InlineOperands ins outs) new = InlineOperands new outs"
| "set_inline_inputs (MemoryLoadData out ptr sz) new = MemoryLoadData out (hd new) sz"
| "set_inline_inputs (MemoryStoreData ins sz) new = MemoryStoreData new sz"
| "set_inline_inputs d new = d"

fun input_range :: "op_data \<Rightarrow> (nat \<times> nat) option" where
  "input_range (AllocatedIns n start outs) = Some (start, start + n)"
| "input_range (InternalCallData f ins_start outs_start) = Some (ins_start, outs_start)"
| "input_range d = None"

lemma put_inputs_effect:
  assumes "visit_data (inputs_getter ir) d = Some old" and "length new = length old"
  shows "\<exists>locals. put_inputs (ir_locals ir) d new = Some (set_inline_inputs d new, locals)
    \<and> length locals = length (ir_locals ir)
    \<and> (case input_range d of None \<Rightarrow> locals = ir_locals ir
       | Some (s, e) \<Rightarrow> slice_of (ir_locals ir) s e = Some old \<and> put_slice (ir_locals ir) s e new = Some locals)"
proof (cases d)
  case (AllocatedIns n s outs)
  then show ?thesis
    using put_slice_total [of "ir_locals ir" s "s + n" old new] assms
    by (auto simp: inputs_getter_def allocated_get_inputs_def)
next
  case (InternalCallData f s e)
  then show ?thesis
    using put_slice_total [of "ir_locals ir" s e old new] assms
    by (auto simp: inputs_getter_def icall_get_inputs_def)
next
  case (MemoryLoadData out ptr sz)
  then show ?thesis
    using assms by (cases new) (auto simp: inputs_getter_def put_array_def)
qed (use assms in \<open>auto simp: inputs_getter_def put_array_def put_none_def\<close>)

text \<open>The arrays are within the index type, and the spans that the pass slices are in range.\<close>

definition slices_in_range :: "eth_ir_program \<Rightarrow> bool" where
  "slices_in_range ir \<longleftrightarrow> is_idx (length (ir_locals ir))
     \<and> (\<forall>b < length (ir_basic_blocks ir).
          iv_index_span (ir_operations ir) (bb_operations (ir_basic_blocks ir ! b)) \<noteq> None \<and> block_outputs ir b \<noteq> None)"

definition copied_op :: "eth_ir_program \<Rightarrow> nat \<Rightarrow> nat \<Rightarrow> operation" where
  "copied_op ir b i = (let op = ir_operations ir ! i in
     op\<lparr>op_payload := set_inline_inputs (op_payload op) (map (replace_if_copied (block_copies ir b)) (the (op_inputs ir op)))\<rparr>)"

definition in_span :: "nat \<Rightarrow> span \<Rightarrow> bool" where
  "in_span x sp \<longleftrightarrow> sp_start sp \<le> x \<and> x < sp_end sp"

fun source_block :: "span_source \<Rightarrow> nat" where
  "source_block (SrcInputs b) = b"
| "source_block (SrcOutputs b) = b"
| "source_block (SrcOpInputs b i) = b"
| "source_block (SrcOpOutputs b i) = b"
| "source_block (SrcOperations b) = b"

definition copied_locals :: "eth_ir_program \<Rightarrow> span_source set \<Rightarrow> nat list \<Rightarrow> bool" where
  "copied_locals ir D ls \<longleftrightarrow>
     length ls = length (ir_locals ir)
     \<and> (\<forall>s sp x. s \<in> D \<longrightarrow> locals_span ir s sp \<longrightarrow> in_span x sp \<longrightarrow> x < length ls \<longrightarrow>
          ls ! x = replace_if_copied (block_copies ir (source_block s)) (ir_locals ir ! x))
     \<and> (\<forall>x < length ls. (\<forall>s sp. s \<in> D \<longrightarrow> locals_span ir s sp \<longrightarrow> \<not> in_span x sp) \<longrightarrow> ls ! x = ir_locals ir ! x)"

definition copied_ops :: "eth_ir_program \<Rightarrow> span_source set \<Rightarrow> operation list \<Rightarrow> bool" where
  "copied_ops ir D ops \<longleftrightarrow>
     length ops = length (ir_operations ir)
     \<and> (\<forall>b < length (ir_basic_blocks ir). \<forall>i \<in> set (the (block_operations ir b)).
          ops ! i = (if SrcOpInputs b i \<in> D then copied_op ir b i else ir_operations ir ! i))"

definition copied_blocks :: "eth_ir_program \<Rightarrow> nat set \<Rightarrow> basic_block list \<Rightarrow> bool" where
  "copied_blocks ir K bs \<longleftrightarrow>
     length bs = length (ir_basic_blocks ir)
     \<and> (\<forall>b < length bs. bs ! b = (if b \<in> K
          then (ir_basic_blocks ir ! b)\<lparr>bb_control := copy_control (block_copies ir b) (bb_control (ir_basic_blocks ir ! b))\<rparr>
          else ir_basic_blocks ir ! b))"

definition copied :: "eth_ir_program \<Rightarrow> span_source set \<Rightarrow> nat set \<Rightarrow> eth_ir_program \<Rightarrow> bool" where
  "copied ir D K u \<longleftrightarrow>
     (\<exists>ls ops bs. u = ir\<lparr>ir_locals := ls, ir_operations := ops, ir_basic_blocks := bs\<rparr>
        \<and> copied_locals ir D ls \<and> copied_ops ir D ops \<and> copied_blocks ir K bs)"

lemma disjointD:
  "disjoint_spans P \<Longrightarrow> P a sp \<Longrightarrow> P b sq \<Longrightarrow> a \<noteq> b \<Longrightarrow> in_span x sp \<Longrightarrow> in_span x sq \<Longrightarrow> False"
  unfolding disjoint_spans_def in_span_def by (metis le_less_trans less_le_trans not_less order_less_irrefl)

text \<open>A slice of the locals at a place, done or not.\<close>

lemma copied_slice:
  assumes L: "copied_locals ir D ls" and dis: "disjoint_spans (locals_span ir)"
    and s: "locals_span ir s sp" and old: "slice_of (ir_locals ir) (sp_start sp) (sp_end sp) = Some ys"
  shows "slice_of ls (sp_start sp) (sp_end sp) =
    Some (if s \<in> D then map (replace_if_copied (block_copies ir (source_block s))) ys else ys)"
proof -
  have len: "length ls = length (ir_locals ir)" and sp: "sp_start sp \<le> sp_end sp" "sp_end sp \<le> length (ir_locals ir)"
    and ys: "ys = take (sp_end sp - sp_start sp) (drop (sp_start sp) (ir_locals ir))"
    using L old by (auto simp: copied_locals_def slice_of_Some)
  have at: "ls ! x = (if s \<in> D then replace_if_copied (block_copies ir (source_block s)) (ir_locals ir ! x) else ir_locals ir ! x)"
    if x: "in_span x sp" for x
  proof -
    have "x < length ls"
      using x sp(2) len by (simp add: in_span_def)
    moreover have "\<not> in_span x sq" if "s \<notin> D" "s' \<in> D" "locals_span ir s' sq" for s' sq
      using disjointD [OF dis s that(3) _ x] that by blast
    ultimately show ?thesis
      using L s x unfolding copied_locals_def by auto
  qed
  have "take (sp_end sp - sp_start sp) (drop (sp_start sp) ls) =
      (if s \<in> D then map (replace_if_copied (block_copies ir (source_block s))) ys else ys)"
    using sp len at by (intro nth_equalityI) (auto simp: ys in_span_def)
  then show ?thesis
    using sp len by (simp add: slice_of_def)
qed

text \<open>Writing the slice of a place that is not done yet.\<close>

lemma copied_put:
  assumes L: "copied_locals ir D ls" and dis: "disjoint_spans (locals_span ir)"
    and s: "locals_span ir s sp" "s \<notin> D" and old: "slice_of (ir_locals ir) (sp_start sp) (sp_end sp) = Some ys"
    and put: "put_slice ls (sp_start sp) (sp_end sp) (map (replace_if_copied (block_copies ir (source_block s))) ys) = Some ls'"
  shows "copied_locals ir (insert s D) ls'"
proof -
  have len: "length ls = length (ir_locals ir)" "length ls' = length ls"
    using L put_slice_length [OF put] by (simp_all add: copied_locals_def)
  have sp: "sp_start sp \<le> sp_end sp" "sp_end sp \<le> length (ir_locals ir)"
    and ys: "ys = take (sp_end sp - sp_start sp) (drop (sp_start sp) (ir_locals ir))"
    using old by (auto simp: slice_of_Some)
  have at: "ls' ! x = (if in_span x sp then replace_if_copied (block_copies ir (source_block s)) (ir_locals ir ! x) else ls ! x)"
    if "x < length ls" for x
    using put_slice_nth [OF put that] sp that len by (auto simp: in_span_def ys)
  have one: "sq = sp" if "locals_span ir s sq" for sq
    using that s(1) by (cases s) (auto simp: locals_span_def)
  have other: "\<not> in_span x sp" if "s' \<in> D" "locals_span ir s' sq" "in_span x sq" for s' sq x
    using disjointD [OF dis s(1) that(2) _ _ that(3)] that(1) s(2) by blast
  show ?thesis
    unfolding copied_locals_def
  proof (intro conjI allI impI)
    show "length ls' = length (ir_locals ir)"
      using len by simp
  next
    fix s' sq x assume "s' \<in> insert s D" "locals_span ir s' sq" "in_span x sq" "x < length ls'"
    then show "ls' ! x = replace_if_copied (block_copies ir (source_block s')) (ir_locals ir ! x)"
      using at one other L len unfolding copied_locals_def by auto
  next
    fix x assume x: "x < length ls'" and none: "\<forall>s' sq. s' \<in> insert s D \<longrightarrow> locals_span ir s' sq \<longrightarrow> \<not> in_span x sq"
    then have "\<not> in_span x sp"
      using s(1) by blast
    then show "ls' ! x = ir_locals ir ! x"
      using at x none L len unfolding copied_locals_def by auto
  qed
qed

lemma legal_block_op:
  assumes "legal ir" and "b < length (ir_basic_blocks ir)" and "i \<in> set (the (block_operations ir b))"
  shows "block_operations ir b = Some (the (block_operations ir b))" and "legal_op ir i"
proof -
  have "legal_block ir b"
    using assms(1,2) by (simp add: legal_def)
  then obtain ids where "block_operations ir b = Some ids" "\<forall>i \<in> set ids. legal_op ir i"
    unfolding legal_block_def by blast
  then show "block_operations ir b = Some (the (block_operations ir b))" "legal_op ir i"
    using assms(3) by auto
qed

lemma input_range_span:
  assumes "legal ir" and room: "is_idx (length (ir_locals ir))" and b: "b < length (ir_basic_blocks ir)"
    and i: "i \<in> set (the (block_operations ir b))" and r: "input_range (op_payload (ir_operations ir ! i)) = Some (s, e)"
  shows "locals_span ir (SrcOpInputs b i) (span_new s e)"
    and "\<exists>ins. op_inputs ir (ir_operations ir ! i) = Some ins \<and> slice_of (ir_locals ir) s e = Some ins"
proof -
  have "legal_op ir i"
    using legal_block_op [OF assms(1) b i] by simp
  then obtain ins outs where io: "op_inputs ir (ir_operations ir ! i) = Some ins" "op_outputs ir (ir_operations ir ! i) = Some outs"
    by (auto simp: legal_op_def opview_inputs_def opview_outputs_def opview_op_def iv_index_def bind_Some)
  have slice: "slice_of (ir_locals ir) s e = Some ins"
    using io(1) r by (cases "op_payload (ir_operations ir ! i)")
      (auto simp: op_inputs_def inputs_getter_def allocated_get_inputs_def icall_get_inputs_def)
  then show "\<exists>ins. op_inputs ir (ir_operations ir ! i) = Some ins \<and> slice_of (ir_locals ir) s e = Some ins"
    using io(1) by blast
  have "is_idx e"
    using slice room by (auto simp: slice_of_Some is_idx_def)
  then have "\<exists>sps. op_allocated_spans ir (ir_operations ir ! i) = Some sps \<and> as_input sps = Some (span_new s e)"
    using r io(2) by (cases "op_payload (ir_operations ir ! i)")
      (auto simp: op_allocated_spans_def allocated_spans_getter_def idx_add_Some op_outputs_def outputs_getter_def
        icall_get_outputs_def bind_Some)
  then show "locals_span ir (SrcOpInputs b i) (span_new s e)"
    using b i legal_block_op(1) [OF assms(1) b i] unfolding locals_span_def by auto
qed

lemma no_input_range:
  "input_range d = None \<Longrightarrow> visit_data (inputs_getter (ir\<lparr>ir_locals := ls, ir_operations := ops, ir_basic_blocks := bs\<rparr>)) d
     = visit_data (inputs_getter ir) d"
  by (cases d) (simp_all add: inputs_getter_def)

lemma range_inputs:
  "input_range d = Some (s, e) \<Longrightarrow> visit_data (inputs_getter ir) d = slice_of (ir_locals ir) s e"
  by (cases d) (auto simp: inputs_getter_def allocated_get_inputs_def icall_get_inputs_def)

lemma no_input_span:
  "input_range (op_payload (ir_operations ir ! i)) = None \<Longrightarrow> \<not> locals_span ir (SrcOpInputs b i) sp"
  by (cases "op_payload (ir_operations ir ! i)")
    (auto simp: locals_span_def op_allocated_spans_def allocated_spans_getter_def allocated_spans_NONE_def bind_Some)

lemma operations_once:
  assumes "legal ir" and "b < length (ir_basic_blocks ir)" "c < length (ir_basic_blocks ir)"
    and "i \<in> set (the (block_operations ir b))" "i \<in> set (the (block_operations ir c))"
  shows "b = c"
proof (rule ccontr)
  assume "b \<noteq> c"
  have span: "in_span i (bb_operations (ir_basic_blocks ir ! x))" if x: "x < length (ir_basic_blocks ir)" "i \<in> set (the (block_operations ir x))" for x
  proof -
    obtain ids where ids: "span_iter (bb_operations (ir_basic_blocks ir ! x)) = Some ids" "i \<in> set ids"
      using legal_block_op(1) [OF assms(1) x] x by (auto simp: block_operations_def iv_index_def bind_Some)
    then show ?thesis
      using span_iter_SomeD [OF ids(1)] by (simp add: in_span_def)
  qed
  have "operations_span ir (SrcOperations x) (bb_operations (ir_basic_blocks ir ! x))"
    if "x < length (ir_basic_blocks ir)" "i \<in> set (the (block_operations ir x))" for x
    using span [OF that] that by (auto simp: operations_span_def span_is_empty_def in_span_def)
  then show False
    using disjointD [of "operations_span ir"] assms span \<open>b \<noteq> c\<close> unfolding legal_def by blast
qed

lemma rewrite_step:
  assumes ir: "legal ir" and room: "slices_in_range ir" and u: "copied ir D K u"
    and b: "b < length (ir_basic_blocks ir)" and i: "i \<in> set (the (block_operations ir b))" and new: "SrcOpInputs b i \<notin> D"
  shows "\<exists>v. rewrite_copied (block_copies ir b) i u = Some v \<and> copied ir (insert (SrcOpInputs b i) D) K v"
proof -
  obtain ls ops bs where u_eq: "u = ir\<lparr>ir_locals := ls, ir_operations := ops, ir_basic_blocks := bs\<rparr>"
    and L: "copied_locals ir D ls" and O: "copied_ops ir D ops" and B: "copied_blocks ir K bs"
    using u by (auto simp: copied_def)
  have dis: "disjoint_spans (locals_span ir)"
    using ir by (simp add: legal_def)
  let ?op = "ir_operations ir ! i" and ?m = "block_copies ir b" and ?s = "SrcOpInputs b i"
  have len: "length ls = length (ir_locals ir)" "length ops = length (ir_operations ir)" "i < length ops" and op: "ops ! i = ?op"
    using L O b i new legal_block_op(2) [OF ir b i] by (auto simp: copied_locals_def copied_ops_def legal_op_def)
  obtain ins where ins: "op_inputs ir ?op = Some ins"
    using legal_block_op(2) [OF ir b i] by (auto simp: legal_op_def opview_inputs_def opview_op_def iv_index_def bind_Some)
  let ?new = "map (replace_if_copied ?m) ins"
  have "op_inputs u ?op = Some ins"
  proof (cases "input_range (op_payload ?op)")
    case None
    then show ?thesis
      using no_input_range ins by (simp add: op_inputs_def u_eq)
  next
    case (Some r)
    then obtain s e where r: "input_range (op_payload ?op) = Some (s, e)"
      by (cases r) auto
    note S = input_range_span [OF ir _ b i r]
    have "slice_of (ir_locals ir) s e = Some ins" "locals_span ir ?s (span_new s e)"
      using S ins room by (auto simp: slices_in_range_def)
    then have "slice_of ls s e = Some ins"
      using copied_slice [OF L dis, of ?s "span_new s e" ins] new by (simp add: span_new_def)
    then show ?thesis
      using range_inputs [OF r] by (simp add: op_inputs_def u_eq)
  qed
  have lu: "ir_locals u = ls"
    by (simp add: u_eq)
  from \<open>op_inputs u ?op = Some ins\<close> have read: "visit_data (inputs_getter u) (op_payload ?op) = Some ins"
    by (simp add: op_inputs_def)
  obtain ls' where put: "put_inputs ls (op_payload ?op) ?new = Some (set_inline_inputs (op_payload ?op) ?new, ls')"
    and ls': "length ls' = length ls" "case input_range (op_payload ?op) of None \<Rightarrow> ls' = ls
       | Some (s, e) \<Rightarrow> slice_of ls s e = Some ins \<and> put_slice ls s e ?new = Some ls'"
    using put_inputs_effect [OF read, of ?new] lu by auto
  have L': "copied_locals ir (insert ?s D) ls'"
  proof (cases "input_range (op_payload ?op)")
    case None
    then have "locals_span ir s sp \<Longrightarrow> s \<noteq> ?s" for s sp
      using no_input_span by blast
    then show ?thesis
      using L ls' None unfolding copied_locals_def by auto
  next
    case (Some r)
    then obtain s e where r: "input_range (op_payload ?op) = Some (s, e)"
      by (cases r) auto
    note S = input_range_span [OF ir _ b i r]
    have "slice_of (ir_locals ir) s e = Some ins" "locals_span ir ?s (span_new s e)"
      using S ins room by (auto simp: slices_in_range_def)
    then show ?thesis
      using copied_put [OF L dis _ new, of "span_new s e" ins ls'] ls' r by (simp add: span_new_def)
  qed
  have O': "copied_ops ir (insert ?s D) (ops[i := ?op\<lparr>op_payload := set_inline_inputs (op_payload ?op) ?new\<rparr>])"
    using O operations_once [OF ir b _ i] len ins
    by (auto simp: copied_ops_def copied_op_def Let_def nth_list_update)
  have "rewrite_copied ?m i u = Some (ir\<lparr>ir_locals := ls', ir_operations := ops[i := ?op\<lparr>op_payload := set_inline_inputs (op_payload ?op) ?new\<rparr>],
      ir_basic_blocks := bs\<rparr>)"
    using len op put read by (simp add: rewrite_copied_def u_eq iv_index_def iv_set_def op_inputs_def)
  then show ?thesis
    using L' O' B unfolding copied_def by blast
qed

lemma rewrite_steps:
  assumes ir: "legal ir" and room: "slices_in_range ir" and b: "b < length (ir_basic_blocks ir)"
    and "copied ir D K u" "distinct is" "set is \<subseteq> set (the (block_operations ir b))" "\<forall>i \<in> set is. SrcOpInputs b i \<notin> D"
  shows "\<exists>v. fold_panics (rewrite_copied (block_copies ir b)) is u = Some v \<and> copied ir (D \<union> SrcOpInputs b ` set is) K v"
  using assms(4-)
proof (induction "is" arbitrary: D u)
  case (Cons i "is")
  obtain v where v: "rewrite_copied (block_copies ir b) i u = Some v" "copied ir (insert (SrcOpInputs b i) D) K v"
    using rewrite_step [OF ir room Cons.prems(1) b, of i] Cons.prems by auto
  obtain w where "fold_panics (rewrite_copied (block_copies ir b)) is v = Some w"
    "copied ir (insert (SrcOpInputs b i) D \<union> SrcOpInputs b ` set is) K w"
    using Cons.IH [OF v(2)] Cons.prems by auto
  then show ?case
    using v(1) by (simp add: Un_commute)
qed simp

definition done_places :: "eth_ir_program \<Rightarrow> nat \<Rightarrow> span_source set" where
  "done_places ir k = (\<Union>b < k. SrcOpInputs b ` set (the (block_operations ir b))) \<union> SrcOutputs ` {..<k}"

lemma done_places_Suc:
  "done_places ir (Suc k) = insert (SrcOutputs k) (done_places ir k \<union> SrcOpInputs k ` set (the (block_operations ir k)))"
  unfolding done_places_def lessThan_Suc by auto

lemma outputs_step:
  assumes ir: "legal ir" and room: "slices_in_range ir" and b: "b < length (ir_basic_blocks ir)"
    and u: "copied ir D K u" and new: "SrcOutputs b \<notin> D"
  shows "\<exists>outs ls. iv_index_span (ir_locals u) (bb_outputs (ir_basic_blocks ir ! b)) = Some outs
    \<and> put_slice (ir_locals u) (sp_start (bb_outputs (ir_basic_blocks ir ! b))) (sp_end (bb_outputs (ir_basic_blocks ir ! b)))
        (map (replace_if_copied (block_copies ir b)) outs) = Some ls
    \<and> copied ir (insert (SrcOutputs b) D) K (u\<lparr>ir_locals := ls\<rparr>)"
proof -
  let ?sp = "bb_outputs (ir_basic_blocks ir ! b)" and ?s = "SrcOutputs b"
  obtain ls ops bs where u_eq: "u = ir\<lparr>ir_locals := ls, ir_operations := ops, ir_basic_blocks := bs\<rparr>"
    and L: "copied_locals ir D ls" and O: "copied_ops ir D ops" and B: "copied_blocks ir K bs"
    using u by (auto simp: copied_def)
  have dis: "disjoint_spans (locals_span ir)"
    using ir by (simp add: legal_def)
  obtain outs where outs: "slice_of (ir_locals ir) (sp_start ?sp) (sp_end ?sp) = Some outs"
    using room b by (auto simp: slices_in_range_def block_outputs_def iv_index_def iv_index_span_def)
  have len: "length ls = length (ir_locals ir)"
    using L by (simp add: copied_locals_def)
  have O': "copied_ops ir (insert ?s D) ops"
    using O by (simp add: copied_ops_def)
  have "\<exists>ls'. slice_of ls (sp_start ?sp) (sp_end ?sp) = Some outs
      \<and> put_slice ls (sp_start ?sp) (sp_end ?sp) (map (replace_if_copied (block_copies ir b)) outs) = Some ls'
      \<and> copied_locals ir (insert ?s D) ls'"
  proof (cases "span_is_empty ?sp")
    case True
    then have "outs = []" "sp_start ?sp \<le> length ls"
      using outs len by (auto simp: span_is_empty_def slice_of_Some)
    then have "slice_of ls (sp_start ?sp) (sp_end ?sp) = Some outs"
      "put_slice ls (sp_start ?sp) (sp_end ?sp) (map (replace_if_copied (block_copies ir b)) outs) = Some ls"
      using True by (simp_all add: span_is_empty_def slice_of_def put_slice_def)
    moreover have "\<not> locals_span ir ?s sp" for sp
      using True by (simp add: locals_span_def)
    then have "copied_locals ir (insert ?s D) ls"
      using L unfolding copied_locals_def by auto
    ultimately show ?thesis
      by blast
  next
    case False
    then have span: "locals_span ir ?s ?sp"
      using b by (simp add: locals_span_def)
    have read: "slice_of ls (sp_start ?sp) (sp_end ?sp) = Some outs"
      using copied_slice [OF L dis span outs] new by simp
    then obtain ls' where put: "put_slice ls (sp_start ?sp) (sp_end ?sp) (map (replace_if_copied (block_copies ir b)) outs) = Some ls'"
      using put_slice_total [of ls "sp_start ?sp" "sp_end ?sp" outs "map (replace_if_copied (block_copies ir b)) outs"] by auto
    then show ?thesis
      using read copied_put [OF L dis span new outs, of ls'] by auto
  qed
  then obtain ls' where ls': "slice_of ls (sp_start ?sp) (sp_end ?sp) = Some outs"
      "put_slice ls (sp_start ?sp) (sp_end ?sp) (map (replace_if_copied (block_copies ir b)) outs) = Some ls'"
      "copied_locals ir (insert ?s D) ls'"
    by blast
  have "u\<lparr>ir_locals := ls'\<rparr> = ir\<lparr>ir_locals := ls', ir_operations := ops, ir_basic_blocks := bs\<rparr>"
    by (simp add: u_eq)
  then have "copied ir (insert ?s D) K (u\<lparr>ir_locals := ls'\<rparr>)"
    using ls'(3) O' B unfolding copied_def by blast
  then show ?thesis
    using ls'(1,2) by (auto simp: iv_index_span_def u_eq)
qed

lemma block_step:
  assumes ir: "legal ir" and room: "slices_in_range ir" and b: "b < length (ir_basic_blocks ir)"
    and u: "copied ir (done_places ir b) {..<b} u"
  shows "\<exists>v. propagate_block b u = Some v \<and> copied ir (done_places ir (Suc b)) {..<Suc b} v"
proof -
  let ?bb = "ir_basic_blocks ir ! b" and ?m = "block_copies ir b"
  obtain ls ops bs where u_eq: "u = ir\<lparr>ir_locals := ls, ir_operations := ops, ir_basic_blocks := bs\<rparr>"
    and O: "copied_ops ir (done_places ir b) ops" and B: "copied_blocks ir {..<b} bs"
    using u by (auto simp: copied_def)
  have bb: "iv_index (ir_basic_blocks u) b = Some ?bb"
    using B b by (simp add: u_eq copied_blocks_def iv_index_def)
  obtain ids where ids: "block_operations ir b = Some ids" "span_iter (bb_operations ?bb) = Some ids"
    using ir b unfolding legal_def legal_block_def block_operations_def by (fastforce simp: iv_index_def)
  have upt: "ids = [sp_start (bb_operations ?bb)..<sp_end (bb_operations ?bb)]"
    by (rule span_iter_SomeD [OF ids(2)])
  obtain block_ops where block_ops: "iv_index_span (ir_operations ir) (bb_operations ?bb) = Some block_ops"
    using room b unfolding slices_in_range_def by blast
  have fresh: "SrcOpInputs b i \<notin> done_places ir b" "SrcOutputs b \<notin> done_places ir b" for i
    by (auto simp: done_places_def)
  have "ops ! i = ir_operations ir ! i" if "i \<in> set ids" for i
    using O b that ids(1) fresh(1) by (simp add: copied_ops_def)
  then have "iv_index_span ops (bb_operations ?bb) = Some block_ops"
    using block_ops O unfolding iv_index_span_def copied_ops_def upt
    by (auto simp: slice_of_Some intro!: nth_equalityI)
  then have m: "iv_index_span (ir_operations u) (bb_operations ?bb) = Some block_ops" "fold collect_copy block_ops Map.empty = ?m"
    using block_ops by (simp_all add: u_eq block_copies_def)
  obtain v where v: "fold_panics (rewrite_copied ?m) ids u = Some v"
    "copied ir (done_places ir b \<union> SrcOpInputs b ` set ids) {..<b} v"
    using rewrite_steps [OF ir room b u, of ids] ids(1) upt fresh(1) by auto
  obtain outs ls' where outs: "iv_index_span (ir_locals v) (bb_outputs ?bb) = Some outs"
    "put_slice (ir_locals v) (sp_start (bb_outputs ?bb)) (sp_end (bb_outputs ?bb)) (map (replace_if_copied ?m) outs) = Some ls'"
    "copied ir (done_places ir (Suc b)) {..<b} (v\<lparr>ir_locals := ls'\<rparr>)"
    using outputs_step [OF ir room b v(2)] fresh(2) ids(1) by (auto simp: done_places_Suc)
  let ?w = "v\<lparr>ir_locals := ls'\<rparr>" and ?c = "copy_control ?m (bb_control ?bb)"
  obtain ls2 ops2 bs2 where w_eq: "?w = ir\<lparr>ir_locals := ls2, ir_operations := ops2, ir_basic_blocks := bs2\<rparr>"
    and w: "copied_locals ir (done_places ir (Suc b)) ls2" "copied_ops ir (done_places ir (Suc b)) ops2" "copied_blocks ir {..<b} bs2"
    using outs(3) by (auto simp: copied_def)
  have "set_control b ?c ?w = Some (ir\<lparr>ir_locals := ls2, ir_operations := ops2, ir_basic_blocks := bs2[b := ?bb\<lparr>bb_control := ?c\<rparr>]\<rparr>)"
    using w(3) b by (simp add: w_eq set_control_def copied_blocks_def iv_index_def iv_set_def)
  moreover have "copied_blocks ir {..<Suc b} (bs2[b := ?bb\<lparr>bb_control := ?c\<rparr>])"
    using w(3) by (auto simp: copied_blocks_def nth_list_update less_Suc_eq)
  ultimately show ?thesis
    using bb m ids(2) v(1) outs(1,2) w(1,2) unfolding propagate_block_def copied_def by auto
qed

lemma copied_start: "copied ir {} {} ir"
proof -
  have "copied_locals ir {} (ir_locals ir)" "copied_ops ir {} (ir_operations ir)" "copied_blocks ir {} (ir_basic_blocks ir)"
    by (simp_all add: copied_locals_def copied_ops_def copied_blocks_def)
  then show ?thesis
    unfolding copied_def by (metis eth_ir_program.surjective eth_ir_program.update_convs(4,5,7))
qed

lemma copy_propagation_run:
  assumes ir: "legal ir" and room: "slices_in_range ir"
  shows "\<exists>u. copy_propagation ir = Some u
    \<and> copied ir (done_places ir (length (ir_basic_blocks ir))) {..<length (ir_basic_blocks ir)} u"
proof -
  have "\<exists>u. fold_panics propagate_block [0..<k] ir = Some u \<and> copied ir (done_places ir k) {..<k} u"
    if "k \<le> length (ir_basic_blocks ir)" for k
    using that
  proof (induction k)
    case 0
    then show ?case
      using copied_start [of ir] by (simp add: done_places_def lessThan_0)
  next
    case (Suc k)
    then obtain u where u: "fold_panics propagate_block [0..<k] ir = Some u" "copied ir (done_places ir k) {..<k} u"
      by auto
    obtain v where "propagate_block k u = Some v" "copied ir (done_places ir (Suc k)) {..<Suc k} v"
      using block_step [OF ir room _ u(2)] Suc.prems by auto
    then show ?case
      using u(1) by auto
  qed
  then show ?thesis
    unfolding copy_propagation_def by blast
qed

end
