(* ===== verification/Copy_Propagation_Correct.thy ===== *)
theory Copy_Propagation_Correct
  imports Copy_Propagation Legal_Example
begin

text \<open>Copy propagation keeps the runs of the blocks of a legal program.\<close>

section \<open>What the result reads\<close>

lemma static_set_inline [simp]: "static_data (set_inline_inputs d new) = static_data d"
  by (cases d) simp_all

lemma copied_views:
  assumes ir: "legal ir" and room: "slices_in_range ir"
    and u: "copied ir (done_places ir (length (ir_basic_blocks ir))) {..<length (ir_basic_blocks ir)} u"
    and b: "b < length (ir_basic_blocks ir)"
  shows "block_inputs u b = block_inputs ir b" and "block_operations u b = block_operations ir b"
    and "block_outputs u b = map_option (map (replace_if_copied (block_copies ir b))) (block_outputs ir b)"
    and "block_control u b = map_option (copy_control (block_copies ir b)) (block_control ir b)"
proof -
  let ?n = "length (ir_basic_blocks ir)" and ?bb = "ir_basic_blocks ir ! b" and ?r = "replace_if_copied (block_copies ir b)"
  obtain ls ops bs where u_eq: "u = ir\<lparr>ir_locals := ls, ir_operations := ops, ir_basic_blocks := bs\<rparr>"
    and L: "copied_locals ir (done_places ir ?n) ls" and B: "copied_blocks ir {..<?n} bs"
    using u by (auto simp: copied_def)
  have dis: "disjoint_spans (locals_span ir)"
    using ir by (simp add: legal_def)
  have bb: "iv_index bs b = Some (?bb\<lparr>bb_control := copy_control (block_copies ir b) (bb_control ?bb)\<rparr>)"
    "iv_index (ir_basic_blocks ir) b = Some ?bb"
    using B b by (simp_all add: copied_blocks_def iv_index_def)
  have len: "length ls = length (ir_locals ir)"
    using L by (simp add: copied_locals_def)
  obtain ins outs where ins: "iv_index_span (ir_locals ir) (bb_inputs ?bb) = Some ins"
    and outs: "iv_index_span (ir_locals ir) (bb_outputs ?bb) = Some outs"
    using ir room b bb(2) by (fastforce simp: legal_def legal_defs_def slices_in_range_def block_inputs_def block_outputs_def)
  have empty: "iv_index_span ls sp = Some xs \<and> xs = []" if "span_is_empty sp" "iv_index_span (ir_locals ir) sp = Some xs" for sp xs
    using that len by (auto simp: span_is_empty_def iv_index_span_def slice_of_def split: if_splits)
  have "iv_index_span ls (bb_inputs ?bb) = Some ins"
  proof (cases "span_is_empty (bb_inputs ?bb)")
    case False
    then have "locals_span ir (SrcInputs b) (bb_inputs ?bb)"
      using b by (simp add: locals_span_def)
    then show ?thesis
      using copied_slice [OF L dis, of "SrcInputs b"] ins by (auto simp: iv_index_span_def done_places_def)
  qed (use empty ins in blast)
  moreover have "iv_index_span ls (bb_outputs ?bb) = Some (map ?r outs)"
  proof (cases "span_is_empty (bb_outputs ?bb)")
    case True
    then show ?thesis
      using empty [OF True outs] by simp
  next
    case False
    then have "locals_span ir (SrcOutputs b) (bb_outputs ?bb)"
      using b by (simp add: locals_span_def)
    then show ?thesis
      using copied_slice [OF L dis, of "SrcOutputs b"] outs b by (auto simp: iv_index_span_def done_places_def)
  qed
  ultimately show "block_inputs u b = block_inputs ir b" "block_operations u b = block_operations ir b"
      "block_outputs u b = map_option (map ?r) (block_outputs ir b)"
      "block_control u b = map_option (copy_control (block_copies ir b)) (block_control ir b)"
    using bb ins outs by (simp_all add: block_inputs_def block_outputs_def block_operations_def block_control_def u_eq)
qed

lemma outputs_getter_copied:
  assumes "\<And>f s e outs. d = InternalCallData f s e \<Longrightarrow> icall_get_outputs ir f e = Some outs \<Longrightarrow> icall_get_outputs u f e = Some outs"
    and "visit_data (outputs_getter ir) d = Some outs"
  shows "visit_data (outputs_getter u) (set_inline_inputs d new) = Some outs"
  using assms by (cases d) (auto simp: outputs_getter_def)

lemma copied_op_views:
  assumes ir: "legal ir" and room: "slices_in_range ir"
    and u: "copied ir (done_places ir (length (ir_basic_blocks ir))) {..<length (ir_basic_blocks ir)} u"
    and b: "b < length (ir_basic_blocks ir)" and i: "i \<in> set (the (block_operations ir b))"
  obtains ins outs where "opview_op ir i = Some (ir_operations ir ! i)"
    "op_inputs ir (ir_operations ir ! i) = Some ins" "op_outputs ir (ir_operations ir ! i) = Some outs"
    "opview_op u i = Some (copied_op ir b i)" "op_kind (copied_op ir b i) = op_kind (ir_operations ir ! i)"
    "static_data (op_payload (copied_op ir b i)) = static_data (op_payload (ir_operations ir ! i))"
    "op_inputs u (copied_op ir b i) = Some (map (replace_if_copied (block_copies ir b)) ins)"
    "op_outputs u (copied_op ir b i) = Some outs"
proof -
  let ?n = "length (ir_basic_blocks ir)" and ?op = "ir_operations ir ! i" and ?r = "replace_if_copied (block_copies ir b)"
  let ?d = "op_payload (ir_operations ir ! i)"
  obtain ls ops bs where u_eq: "u = ir\<lparr>ir_locals := ls, ir_operations := ops, ir_basic_blocks := bs\<rparr>"
    and L: "copied_locals ir (done_places ir ?n) ls" and O: "copied_ops ir (done_places ir ?n) ops"
    using u by (auto simp: copied_def)
  have dis: "disjoint_spans (locals_span ir)" and op: "legal_op ir i" and ids: "block_operations ir b = Some (the (block_operations ir b))"
    using ir legal_block_op [OF ir b i] by (simp_all add: legal_def)
  then obtain ins outs where io: "op_inputs ir ?op = Some ins" "op_outputs ir ?op = Some outs" and lt: "i < length (ir_operations ir)"
    by (auto simp: legal_op_def opview_inputs_def opview_outputs_def opview_op_def iv_index_def bind_Some)
  have isdone: "SrcOpInputs b i \<in> done_places ir ?n"
    using b i by (auto simp: done_places_def)
  have op_u: "opview_op u i = Some (copied_op ir b i)"
    using O b i isdone lt by (simp add: u_eq opview_op_def iv_index_def copied_ops_def)
  have new: "op_payload (copied_op ir b i) = set_inline_inputs ?d (map ?r ins)"
    using io(1) by (simp add: copied_op_def Let_def)
  have "op_inputs u (copied_op ir b i) = Some (map ?r ins)"
  proof (cases "input_range ?d")
    case None
    then show ?thesis
      using io(1) unfolding op_inputs_def new by (cases ?d) (auto simp: inputs_getter_def)
  next
    case (Some q)
    then obtain s e where q: "input_range ?d = Some (s, e)"
      by (cases q) auto
    have span: "locals_span ir (SrcOpInputs b i) (span_new s e)" and "slice_of (ir_locals ir) s e = Some ins"
      using input_range_span [OF ir _ b i q] room io(1) by (auto simp: slices_in_range_def)
    then have "slice_of ls s e = Some (map ?r ins)"
      using copied_slice [OF L dis span, of ins] isdone by (simp add: span_new_def)
    moreover have "set_inline_inputs ?d (map ?r ins) = ?d"
      using q by (cases ?d) simp_all
    ultimately show ?thesis
      using range_inputs [OF q, of u] unfolding op_inputs_def new by (simp add: u_eq)
  qed
  moreover have "op_outputs u (copied_op ir b i) = Some outs"
  proof -
    have "icall_get_outputs u f e = Some outs" if call: "?d = InternalCallData f s e" "icall_get_outputs ir f e = Some outs" for f s e outs
    proof -
      obtain fn where fn: "iv_index (ir_functions ir) f = Some fn" "is_idx (e + fn_outputs fn)"
        "slice_of (ir_locals ir) e (e + fn_outputs fn) = Some outs"
        using call(2) by (auto simp: icall_get_outputs_def bind_Some idx_add_Some)
      have "op_allocated_spans ir ?op = Some \<lparr>as_input = Some (span_new s e), as_output = Some (span_new e (e + fn_outputs fn))\<rparr>"
        using call(1) fn by (simp add: op_allocated_spans_def allocated_spans_getter_def idx_add_Some bind_Some)
      then have "locals_span ir (SrcOpOutputs b i) (span_new e (e + fn_outputs fn))"
        using b i ids unfolding locals_span_def by auto
      from copied_slice [OF L dis this, of outs] have "slice_of ls e (e + fn_outputs fn) = Some outs"
        using fn(3) by (auto simp: span_new_def done_places_def)
      then show ?thesis
        using fn by (simp add: icall_get_outputs_def u_eq idx_add_Some bind_Some)
    qed
    then show ?thesis
      using outputs_getter_copied [of ?d ir u outs "map ?r ins"] io(2) unfolding op_outputs_def new by blast
  qed
  ultimately show ?thesis
    using that [OF _ io op_u] lt new by (simp add: opview_op_def iv_index_def copied_op_def Let_def)
qed

section \<open>Runs\<close>

text \<open>No operation reads a local that it or a later one defines, and no local is defined twice.\<close>

definition block_ordered :: "eth_ir_program \<Rightarrow> nat list \<Rightarrow> bool" where
  "block_ordered ir ids \<longleftrightarrow>
     distinct (concat (map (op_defs ir) ids))
     \<and> (\<forall>k < length ids. set (the (opview_inputs ir (ids ! k))) \<inter> set (concat (map (op_defs ir) (drop k ids))) = {})"

lemma distinct_concat_disjoint:
  "distinct (concat (map f [0..<n])) \<Longrightarrow> a < n \<Longrightarrow> b < n \<Longrightarrow> a \<noteq> b \<Longrightarrow> set (f a) \<inter> set (f b) = {}"
proof (induction n)
  case (Suc n)
  then show ?case
    by (cases "a = n"; cases "b = n") (fastforce simp: less_Suc_eq)+
qed simp

lemma distinct_concat_inter: "distinct (concat (map f xs)) \<Longrightarrow> x \<in> set xs \<Longrightarrow> distinct (f x)"
  by (induction xs) auto

lemma legal_block_ordered:
  assumes ir: "legal ir" and b: "b \<in> reachable_blocks ir"
  shows "b < length (ir_basic_blocks ir)" and "\<exists>ids. block_operations ir b = Some ids \<and> block_ordered ir ids"
proof -
  let ?n = "length (ir_basic_blocks ir)"
  have cfg: "legal_cfg ir" and defs: "legal_defs ir" and scope: "legal_scope ir"
    using ir by (simp_all add: legal_def)
  obtain f where f: "f < length (ir_functions ir)" "reaches ir (entry_of ir f) b"
    using b by (auto simp: reachable_blocks_def)
  show bn: "b < ?n"
    using cfg f unfolding legal_cfg_def by blast
  have "owned ir f b"
    using legal_cfg_owner(1) [OF cfg f(1)] f(2) by simp
  then obtain ids where ids: "block_operations ir b = Some ids"
    and reads: "\<forall>k < length ids. \<exists>ins. opview_inputs ir (ids ! k) = Some ins
       \<and> set ins \<subseteq> (\<Union>d \<in> strict_dominators ir f b. set (block_defs ir d)) \<union> set (defs_before ir b k)"
    using scope f(1) unfolding legal_scope_def scope_fits_def by blast
  have all: "distinct (concat (map (block_defs ir) [0..<?n]))"
    using defs by (simp add: legal_defs_def)
  have "distinct (block_defs ir b)"
    using all bn by (intro distinct_concat_inter [OF all]) simp
  then have own: "distinct (the (block_inputs ir b) @ concat (map (op_defs ir) ids))"
    by (simp add: block_defs_def ids)
  have other: "set (block_defs ir d) \<inter> set (block_defs ir b) = {}" if "d \<in> strict_dominators ir f b" for d
  proof -
    have "d \<noteq> b" "reaches ir (entry_of ir f) d"
      using that legal_cfg_owner(1) [OF cfg f(1)] by (auto simp: strict_dominators_def)
    moreover from this have "d < ?n"
      using cfg f(1) unfolding legal_cfg_def by blast
    ultimately show ?thesis
      using distinct_concat_disjoint [OF all, of d b] bn by simp
  qed
  have "set (the (opview_inputs ir (ids ! k))) \<inter> set (concat (map (op_defs ir) (drop k ids))) = {}" if k: "k < length ids" for k
  proof -
    obtain ins where ins: "opview_inputs ir (ids ! k) = Some ins"
      "set ins \<subseteq> (\<Union>d \<in> strict_dominators ir f b. set (block_defs ir d)) \<union> set (defs_before ir b k)"
      using reads k by blast
    have split: "concat (map (op_defs ir) ids) = concat (map (op_defs ir) (take k ids)) @ concat (map (op_defs ir) (drop k ids))"
      by (metis append_take_drop_id concat_append map_append)
    then have "set (defs_before ir b k) \<inter> set (concat (map (op_defs ir) (drop k ids))) = {}"
      using own ids by (auto simp: defs_before_def simp del: set_concat)
    moreover have "set (block_defs ir d) \<inter> set (concat (map (op_defs ir) (drop k ids))) = {}" if "d \<in> strict_dominators ir f b" for d
      using other [OF that] split ids by (auto simp: block_defs_def simp del: set_concat)
    ultimately have "set ins \<inter> set (concat (map (op_defs ir) (drop k ids))) = {}"
      using ins(2) by (blast dest: subsetD)
    then show ?thesis
      using ins(1) by simp
  qed
  then show "\<exists>ids. block_operations ir b = Some ids \<and> block_ordered ir ids"
    using ids own unfolding block_ordered_def by auto
qed

text \<open>The copies collected from a prefix of the operations hold in the locals.\<close>

definition copies_hold :: "copy_map \<Rightarrow> (nat \<Rightarrow> u256) \<Rightarrow> bool" where
  "copies_hold m env \<longleftrightarrow> (\<forall>d r. m d = Some r \<longrightarrow> env d = env r)"

definition keeps_copies :: "('w, 'h) op_semantics \<Rightarrow> bool" where
  "keeps_copies sem \<longleftrightarrow> (\<forall>v w. sem KSetCopy (InlineOperands [] []) [v] w = Inr ([v], w))"

definition copies_before :: "eth_ir_program \<Rightarrow> nat list \<Rightarrow> copy_map" where
  "copies_before ir is = fold collect_copy (map ((!) (ir_operations ir)) is) Map.empty"

lemma copies_before_snoc: "copies_before ir (is @ [i]) = collect_copy (ir_operations ir ! i) (copies_before ir is)"
  by (simp add: copies_before_def)

lemma replace_holds: "copies_hold m env \<Longrightarrow> env (replace_if_copied m x) = env x"
  by (auto simp: copies_hold_def replace_if_copied_def split: option.splits)

definition is_copy :: "operation \<Rightarrow> nat \<Rightarrow> nat \<Rightarrow> bool" where
  "is_copy op src dst \<longleftrightarrow> op_kind op = KSetCopy \<and> op_payload op = InlineOperands [src] [dst]"

lemma collect_copy_cases:
  "(\<exists>src dst. is_copy op src dst \<and> collect_copy op m = m(dst \<mapsto> (case m src of Some r \<Rightarrow> r | None \<Rightarrow> src))) \<or> collect_copy op m = m"
  unfolding collect_copy_def is_copy_def
  by (cases "op_kind op"; cases "op_payload op") (auto split: list.splits)

lemma is_copy_views:
  assumes "is_copy op src dst" and "op_inputs ir op = Some ins" and "op_outputs ir op = Some outs"
  shows "ins = [src]" and "outs = [dst]" and "static_data (op_payload op) = InlineOperands [] []" and "op_kind op = KSetCopy"
  using assms by (auto simp: is_copy_def op_inputs_def op_outputs_def inputs_getter_def outputs_getter_def)

text \<open>What a map of copies says only concerns locals that are not defined later.\<close>

definition copies_before_ok :: "copy_map \<Rightarrow> nat set \<Rightarrow> bool" where
  "copies_before_ok m later \<longleftrightarrow> (\<forall>d r. m d = Some r \<longrightarrow> d \<notin> later \<and> r \<notin> later)"

lemma write_holds:
  "copies_hold m env \<Longrightarrow> copies_before_ok m (set outs) \<Longrightarrow> copies_hold m (write_locals outs vs env)"
  unfolding copies_hold_def copies_before_ok_def by (simp add: write_locals_other)

lemma step_copies:
  assumes hold: "copies_hold m env" and ok: "copies_before_ok m (set outs \<union> later)" and sem: "keeps_copies sem"
    and io: "op_inputs ir op = Some ins" "op_outputs ir op = Some outs"
    and order: "set ins \<inter> (set outs \<union> later) = {}" "set outs \<inter> later = {}"
    and run: "sem (op_kind op) (static_data (op_payload op)) (map env ins) w = Inr (vs, w')"
  shows "copies_hold (collect_copy op m) (write_locals outs vs env)" and "copies_before_ok (collect_copy op m) later"
proof -
  have keep: "copies_hold m (write_locals outs vs env)" "copies_before_ok m later" "copies_before_ok m (set outs)"
    using write_holds [OF hold, of outs vs] ok by (auto simp: copies_before_ok_def)
  have both: "copies_hold (collect_copy op m) (write_locals outs vs env) \<and> copies_before_ok (collect_copy op m) later"
    using collect_copy_cases [of op m]
  proof
    assume "\<exists>src dst. is_copy op src dst \<and> collect_copy op m = m(dst \<mapsto> (case m src of Some r \<Rightarrow> r | None \<Rightarrow> src))"
    then obtain src dst where c: "is_copy op src dst" and m': "collect_copy op m = m(dst \<mapsto> (case m src of Some r \<Rightarrow> r | None \<Rightarrow> src))"
      by blast
    note V = is_copy_views [OF c io]
    let ?r = "case m src of Some r \<Rightarrow> r | None \<Rightarrow> src"
    have vs: "vs = [env src]"
      using run sem V unfolding keeps_copies_def by simp
    have r: "?r \<noteq> dst" "?r \<notin> later" "env ?r = env src" "src \<noteq> dst" "dst \<notin> later"
      using ok hold order V by (auto simp: copies_before_ok_def copies_hold_def split: option.splits)
    have "env d = env r'" "d \<noteq> dst" "r' \<noteq> dst" "d \<notin> later" "r' \<notin> later" if "m d = Some r'" for d r'
      using that hold ok V unfolding copies_hold_def copies_before_ok_def by auto
    then show ?thesis
      using r unfolding m' copies_hold_def copies_before_ok_def V(2) vs by (auto split: if_splits)
  qed (use keep in simp)
  then show "copies_hold (collect_copy op m) (write_locals outs vs env)" "copies_before_ok (collect_copy op m) later"
    by blast+
qed

lemma copies_later:
  assumes "\<forall>i \<in> set is. i < length (ir_operations ir)" and "x \<notin> set (concat (map (op_defs ir) is))"
  shows "copies_before ir (pre @ is) x = copies_before ir pre x"
  using assms
proof (induction "is" rule: rev_induct)
  case (snoc i "is")
  have "collect_copy (ir_operations ir ! i) m x = m x" for m
    using collect_copy_cases [of "ir_operations ir ! i" m] snoc.prems
    by (auto simp: is_copy_def op_defs_def opview_outputs_def opview_op_def iv_index_def op_outputs_def outputs_getter_def)
  then show ?case
    using snoc copies_before_snoc [of ir "pre @ is" i] by simp
qed simp

lemma exec_ops_copied:
  assumes ir: "legal ir" and room: "slices_in_range ir" and sem: "keeps_copies sem"
    and u: "copied ir (done_places ir (length (ir_basic_blocks ir))) {..<length (ir_basic_blocks ir)} u"
    and b: "b < length (ir_basic_blocks ir)" "block_operations ir b = Some (pre @ is)"
    and ordered: "block_ordered ir (pre @ is)" and full: "copies_before ir (pre @ is) = block_copies ir b"
    and hold: "copies_hold (copies_before ir pre) env"
    and ok: "copies_before_ok (copies_before ir pre) (set (concat (map (op_defs ir) is)))"
  shows "fold_try (exec_op sem u) is (env, w) = fold_try (exec_op sem ir) is (env, w)
    \<and> (\<forall>env' w'. fold_try (exec_op sem ir) is (env, w) = Some (Inr (env', w')) \<longrightarrow> copies_hold (block_copies ir b) env')"
  using b(2) ordered full hold ok
proof (induction "is" arbitrary: pre env w)
  case Nil
  then show ?case
    by simp
next
  case (Cons i "is")
  have "i \<in> set (the (block_operations ir b))"
    using Cons.prems(1) by simp
  then obtain ins outs where V: "opview_op ir i = Some (ir_operations ir ! i)"
    "op_inputs ir (ir_operations ir ! i) = Some ins" "op_outputs ir (ir_operations ir ! i) = Some outs"
    "opview_op u i = Some (copied_op ir b i)" "op_kind (copied_op ir b i) = op_kind (ir_operations ir ! i)"
    "static_data (op_payload (copied_op ir b i)) = static_data (op_payload (ir_operations ir ! i))"
    "op_inputs u (copied_op ir b i) = Some (map (replace_if_copied (block_copies ir b)) ins)"
    "op_outputs u (copied_op ir b i) = Some outs"
    using copied_op_views [OF ir room u b(1), of i] by metis
  let ?m = "copies_before ir pre" and ?later = "set (concat (map (op_defs ir) is))"
  have defs: "op_defs ir i = outs" "the (opview_inputs ir i) = ins"
    using V(1-3) by (simp_all add: op_defs_def opview_outputs_def opview_inputs_def)
  have order: "set ins \<inter> (set outs \<union> ?later) = {}" "set outs \<inter> ?later = {}"
  proof -
    have "set (the (opview_inputs ir ((pre @ i # is) ! length pre))) \<inter> set (concat (map (op_defs ir) (drop (length pre) (pre @ i # is)))) = {}"
      using Cons.prems(2) unfolding block_ordered_def by (metis length_append length_Cons less_add_Suc1 add_Suc_right)
    then show "set ins \<inter> (set outs \<union> ?later) = {}"
      using defs by simp
    show "set outs \<inter> ?later = {}"
      using Cons.prems(2) defs by (auto simp: block_ordered_def)
  qed
  have in_ops: "j < length (ir_operations ir)" if "j \<in> set (pre @ i # is)" for j
    using legal_block_op(2) [OF ir b(1), of j] that Cons.prems(1) by (simp add: legal_op_def)
  have "env (replace_if_copied (block_copies ir b) x) = env x" if x: "x \<in> set ins" for x
  proof -
    have "block_copies ir b x = ?m x"
      using copies_later [of "i # is" ir x pre] Cons.prems(1,3) x order(1) defs(1) in_ops by auto
    then show ?thesis
      using replace_holds [OF Cons.prems(4), of x] by (simp add: replace_if_copied_def)
  qed
  then have values_eq: "map env (map (replace_if_copied (block_copies ir b)) ins) = map env ins"
    by simp
  then have step: "exec_op sem u i (env, w) = exec_op sem ir i (env, w)"
    using V by (simp add: exec_op_def del: map_map)
  show ?case
  proof (cases "exec_op sem ir i (env, w)")
    case (Some r)
    show ?thesis
    proof (cases r)
      case (Inr s)
      then obtain vs w1 where res: "sem (op_kind (ir_operations ir ! i)) (static_data (op_payload (ir_operations ir ! i))) (map env ins) w = Inr (vs, w1)"
        and s: "s = (write_locals outs vs env, w1)"
        using Some V(1-3) by (auto simp: exec_op_def bind_Some split: sum.splits)
      note C = step_copies [OF Cons.prems(4) _ sem V(2,3) order res]
      have "copies_before_ok ?m (set outs \<union> ?later)"
        using Cons.prems(5) defs by (simp add: Un_commute)
      then have hold: "copies_hold (copies_before ir (pre @ [i])) (write_locals outs vs env)"
        and ok: "copies_before_ok (copies_before ir (pre @ [i])) ?later"
        using C by (simp_all add: copies_before_snoc)
      show ?thesis
        using Cons.IH [of "pre @ [i]", OF _ _ _ hold ok, of w1] Cons.prems(1-3) Some Inr s step by simp
    qed (use Some step in simp)
  qed (use step in simp)
qed

lemma block_copies_before:
  assumes "slices_in_range ir" and "b < length (ir_basic_blocks ir)" and "block_operations ir b = Some ids"
  shows "copies_before ir ids = block_copies ir b"
proof -
  let ?sp = "bb_operations (ir_basic_blocks ir ! b)"
  obtain ops where ops: "slice_of (ir_operations ir) (sp_start ?sp) (sp_end ?sp) = Some ops"
    using assms(1,2) by (auto simp: slices_in_range_def iv_index_span_def)
  have "span_iter ?sp = Some ids"
    using assms(2,3) by (simp add: block_operations_def iv_index_def)
  then have "ids = [sp_start ?sp..<sp_end ?sp]"
    by (rule span_iter_SomeD)
  then have "map ((!) (ir_operations ir)) ids = ops"
    using ops by (auto simp: slice_of_Some intro!: nth_equalityI)
  then show ?thesis
    using ops by (simp add: copies_before_def block_copies_def iv_index_span_def)
qed

lemma copies_hold_empty: "copies_hold Map.empty env" "copies_before_ok Map.empty A"
  by (simp_all add: copies_hold_def copies_before_ok_def)

lemma control_next_copied:
  assumes "copies_hold m env"
  shows "control_next (ir\<lparr>ir_locals := ls, ir_operations := ops, ir_basic_blocks := bs\<rparr>) env (copy_control m c) = control_next ir env c"
proof -
  have switch: "switch_target (ir\<lparr>ir_locals := ls, ir_operations := ops, ir_basic_blocks := bs\<rparr>) (sw\<lparr>sw_condition := l\<rparr>) v = switch_target ir sw v" for sw l v
    by (simp add: switch_target_def switch_cases_def cases_iter_def [abs_def] cases_get_values_def [abs_def]
      cases_target_indices_def [abs_def] cases_get_bb_ids_def [abs_def] cong: option.case_cong)
  show ?thesis
    using switch replace_holds [OF assms] by (cases c) (simp_all add: copy_control_def control_next_def)
qed

text \<open>
  C15. Copy propagation.  On a legal program the pass returns; the result names the same operations,
  inputs and successors, and from any values of the locals and any world, a run of a reachable block
  does the same as before, to the values passed on, the next block, the locals and the world.  The meaning of
  operations is a parameter, of which only that a copy copies is assumed.
\<close>

theorem copy_propagation_keeps_runs:
  assumes ir: "legal ir" and room: "slices_in_range ir" and sem: "keeps_copies sem"
  shows "\<exists>u. copy_propagation ir = Some u
    \<and> (\<forall>b < length (ir_basic_blocks ir). block_inputs u b = block_inputs ir b
         \<and> block_operations u b = block_operations ir b \<and> block_successors u b = block_successors ir b)
    \<and> (\<forall>b \<in> reachable_blocks ir. \<forall>s. exec_block sem u b s = exec_block sem ir b s)"
proof -
  obtain u where run: "copy_propagation ir = Some u"
    and u: "copied ir (done_places ir (length (ir_basic_blocks ir))) {..<length (ir_basic_blocks ir)} u"
    using copy_propagation_run [OF ir room] by blast
  obtain ls ops bs where u_eq: "u = ir\<lparr>ir_locals := ls, ir_operations := ops, ir_basic_blocks := bs\<rparr>"
    using u by (auto simp: copied_def)
  have succs: "block_successors u b = block_successors ir b" if b: "b < length (ir_basic_blocks ir)" for b
  proof -
    have "iter_outgoing u (copy_control m c) = iter_outgoing ir c" for m c
      by (cases c) (simp_all add: copy_control_def iter_outgoing_def u_eq cases_get_bb_ids_def [abs_def])
    then show ?thesis
      using copied_views(4) [OF ir room u b] by (cases "block_control ir b") (simp_all add: block_successors_def)
  qed
  have "exec_block sem u b (env, w) = exec_block sem ir b (env, w)" if b: "b \<in> reachable_blocks ir" for b env w
  proof -
    obtain ids where bn: "b < length (ir_basic_blocks ir)" and ids: "block_operations ir b = Some ids" "block_ordered ir ids"
      using legal_block_ordered [OF ir b] by blast
    note V = copied_views [OF ir room u bn]
    have full: "copies_before ir ([] @ ids) = block_copies ir b"
      using block_copies_before [OF room bn ids(1)] by simp
    have ops: "fold_try (exec_op sem u) ids (env, w) = fold_try (exec_op sem ir) ids (env, w)"
      and hold: "\<And>env' w'. fold_try (exec_op sem ir) ids (env, w) = Some (Inr (env', w')) \<Longrightarrow> copies_hold (block_copies ir b) env'"
      using exec_ops_copied [OF ir room sem u bn, of "[]" ids env w] ids full copies_hold_empty by (auto simp: copies_before_def)
    obtain outs c where oc: "block_outputs ir b = Some outs" "block_control ir b = Some c"
      using room bn by (auto simp: slices_in_range_def block_control_def iv_index_def)
    have "map env' (map (replace_if_copied (block_copies ir b)) outs) = map env' outs"
      "control_next u env' (copy_control (block_copies ir b) c) = control_next ir env' c"
      if "fold_try (exec_op sem ir) ids (env, w) = Some (Inr (env', w'))" for env' w'
      using replace_holds [OF hold [OF that]] control_next_copied [OF hold [OF that]]
      by (simp_all add: u_eq)
    then show ?thesis
      using ids(1) V ops oc by (auto simp: exec_block_def try_bind_def split: bind_splits sum.splits)
  qed
  then show ?thesis
    using run succs copied_views [OF ir room u] by auto
qed

section \<open>Example\<close>

text \<open>Constants and copies have their meaning, every other operation halts.\<close>

definition copy_semantics :: "(unit, unit) op_semantics" where
  "copy_semantics kind d vals w =
     (case d of SetSmallConstData _ v \<Rightarrow> Inr ([ucast v], w) | InlineOperands _ _ \<Rightarrow> Inr (vals, w) | _ \<Rightarrow> Inl ())"

lemma copy_propagation_keeps_runs_witness:
  "\<exists>u. copy_propagation straight = Some u
    \<and> (\<forall>s. exec_block copy_semantics u 0 s = exec_block copy_semantics straight 0 s)"
proof -
  have legal: "legal straight"
    using legalizer_accepts [OF straight_accepted] by (simp add: straight_fields)
  have ops: "iv_index_span (ir_operations straight) (bb_operations (ir_basic_blocks straight ! b)) \<noteq> None \<and> block_outputs straight b \<noteq> None"
    if "b < 2" for b
    using that unfolding less_2_cases_iff
    by (auto simp: straight_fields iv_index_span_def slice_of_def span_new_def block_outputs_def iv_index_def)
  have room: "slices_in_range straight"
    using ops by (simp add: slices_in_range_def straight_fields is_idx_def u32_max_def)
  have sem: "keeps_copies copy_semantics"
    by (simp add: keeps_copies_def copy_semantics_def)
  have "0 \<in> reachable_blocks straight"
    using reaches_refl [of straight 0] by (auto simp: reachable_blocks_def straight_fields entry_of_def)
  then show ?thesis
    using copy_propagation_keeps_runs [OF legal room sem] by blast
qed

end
