(* ===== verification/Local_Liveness.thy ===== *)
theory Local_Liveness
  imports Cfg_Walk Sir_Exec
begin

text \<open>
  The liveness of locals (\<open>passes/src/analyses/local_liveness.rs\<close>): the locals live at the ends of each
  block, and from them the intervals of operations in which a local is live.  A \<open>HashSet\<close> is a
  finite set and a \<open>HashMap\<close> a partial map; the order in which they are iterated is the parameter \<open>ord\<close>.
  The loop until nothing changes takes fuel, one unit per pass.
\<close>

section \<open>Intervals\<close>

datatype interval_start =
    BlockStart
  | StartAt nat

datatype interval_end =
    EndAt nat
  | BlockEnd

record interval =
  iv_start :: interval_start
  iv_end :: interval_end

fun interval_start_le :: "interval_start \<Rightarrow> interval_start \<Rightarrow> bool" where
  "interval_start_le BlockStart b \<longleftrightarrow> True"
| "interval_start_le (StartAt i) BlockStart \<longleftrightarrow> False"
| "interval_start_le (StartAt i) (StartAt j) \<longleftrightarrow> i \<le> j"

fun interval_end_le :: "interval_end \<Rightarrow> interval_end \<Rightarrow> bool" where
  "interval_end_le a BlockEnd \<longleftrightarrow> True"
| "interval_end_le BlockEnd (EndAt i) \<longleftrightarrow> False"
| "interval_end_le (EndAt i) (EndAt j) \<longleftrightarrow> i \<le> j"

text \<open>They are the orders of the two types.\<close>

instantiation interval_start :: linorder
begin

definition less_eq_interval_start :: "interval_start \<Rightarrow> interval_start \<Rightarrow> bool" where
  "less_eq_interval_start a b = interval_start_le a b"

definition less_interval_start :: "interval_start \<Rightarrow> interval_start \<Rightarrow> bool" where
  "a < b \<longleftrightarrow> a \<le> b \<and> a \<noteq> (b :: interval_start)"

instance
proof
  fix x y z :: interval_start
  show "x \<le> x" "x < y \<longleftrightarrow> x \<le> y \<and> \<not> y \<le> x" "x \<le> y \<or> y \<le> x"
    by (cases x; cases y; auto simp: less_eq_interval_start_def less_interval_start_def)+
  show "x \<le> y \<Longrightarrow> y \<le> z \<Longrightarrow> x \<le> z" "x \<le> y \<Longrightarrow> y \<le> x \<Longrightarrow> x = y"
    by (cases x; cases y; cases z; simp add: less_eq_interval_start_def)+
qed

end

instantiation interval_end :: linorder
begin

definition less_eq_interval_end :: "interval_end \<Rightarrow> interval_end \<Rightarrow> bool" where
  "less_eq_interval_end a b = interval_end_le a b"

definition less_interval_end :: "interval_end \<Rightarrow> interval_end \<Rightarrow> bool" where
  "a < b \<longleftrightarrow> a \<le> b \<and> a \<noteq> (b :: interval_end)"

instance
proof
  fix x y z :: interval_end
  show "x \<le> x" "x < y \<longleftrightarrow> x \<le> y \<and> \<not> y \<le> x" "x \<le> y \<or> y \<le> x"
    by (cases x; cases y; auto simp: less_eq_interval_end_def less_interval_end_def)+
  show "x \<le> y \<Longrightarrow> y \<le> z \<Longrightarrow> x \<le> z" "x \<le> y \<Longrightarrow> y \<le> x \<Longrightarrow> x = y"
    by (cases x; cases y; cases z; simp add: less_eq_interval_end_def)+
qed

end

lemma interval_bounds_le [simp]:
  "BlockStart \<le> s" "\<not> StartAt i \<le> BlockStart" "StartAt i \<le> StartAt j \<longleftrightarrow> i \<le> j"
  "e \<le> BlockEnd" "\<not> BlockEnd \<le> EndAt i" "EndAt i \<le> EndAt j \<longleftrightarrow> i \<le> j"
  by (simp_all add: less_eq_interval_start_def less_eq_interval_end_def)

text \<open>\<open>Interval::cmp\<close> compares the starts first; it is the order on pairs.\<close>

definition interval_le :: "interval \<Rightarrow> interval \<Rightarrow> bool" where
  "interval_le a b \<longleftrightarrow> iv_start a < iv_start b \<or> (iv_start a = iv_start b \<and> iv_end a \<le> iv_end b)"

section \<open>The analysis\<close>

type_synonym set_order = "nat set \<Rightarrow> nat list"

definition lists_sets :: "set_order \<Rightarrow> bool" where
  "lists_sets ord \<longleftrightarrow> (\<forall>A. finite A \<longrightarrow> set (ord A) = A \<and> distinct (ord A))"

record local_liveness =
  ll_intervals :: "(nat \<times> interval) list list"
  ll_entry :: "nat set list"
  ll_exit :: "nat set list"

text \<open>The locals that the end of a block reads.\<close>

definition end_reads :: "eth_ir_program \<Rightarrow> nat \<Rightarrow> nat set panics" where
  "end_reads ir b =
     do { c \<leftarrow> block_control ir b;
          case c of
            Branches br \<Rightarrow> Some {br_condition br}
          | Switch sw \<Rightarrow> Some {sw_condition sw}
          | InternalReturn \<Rightarrow> do { outs \<leftarrow> block_outputs ir b; Some (set outs) }
          | _ \<Rightarrow> Some {} }"

definition block_operations_rev :: "eth_ir_program \<Rightarrow> nat \<Rightarrow> nat list panics" where
  "block_operations_rev ir b = do { bb \<leftarrow> iv_index (ir_basic_blocks ir) b; span_iter_rev (bb_operations bb) }"

definition live_before_op :: "eth_ir_program \<Rightarrow> nat \<Rightarrow> nat set \<Rightarrow> nat set panics" where
  "live_before_op ir i live =
     do { outs \<leftarrow> opview_outputs ir i;
          ins \<leftarrow> opview_inputs ir i;
          Some ((live - set outs) \<union> set ins) }"

definition liveness_at_block_entry :: "eth_ir_program \<Rightarrow> nat \<Rightarrow> nat set \<Rightarrow> nat set panics" where
  "liveness_at_block_entry ir b exit =
     do { reads \<leftarrow> end_reads ir b;
          ids \<leftarrow> block_operations_rev ir b;
          fold_panics (live_before_op ir) ids (exit \<union> reads) }"

text \<open>The local of the predecessor that becomes the local \<open>l\<close> of the block.\<close>

definition sent_local :: "nat list \<Rightarrow> nat list \<Rightarrow> nat \<Rightarrow> nat panics" where
  "sent_local inputs pred_outputs l =
     (case position (\<lambda>i. i = l) inputs of Some pos \<Rightarrow> get_at pred_outputs pos | None \<Rightarrow> Some l)"

definition send_local ::
    "nat list \<Rightarrow> nat list \<Rightarrow> nat \<Rightarrow> nat \<Rightarrow> bool \<times> nat set list \<Rightarrow> (bool \<times> nat set list) panics" where
  "send_local inputs pred_outputs pred l = (\<lambda>(changed, exits).
     do { x \<leftarrow> sent_local inputs pred_outputs l;
          exit \<leftarrow> iv_index exits pred;
          exits \<leftarrow> iv_set exits pred (insert x exit);
          Some (changed \<or> x \<notin> exit, exits) })"

definition propagate_to_predecessor ::
    "set_order \<Rightarrow> eth_ir_program \<Rightarrow> nat list \<Rightarrow> nat set \<Rightarrow> nat \<Rightarrow> bool \<times> nat set list \<Rightarrow> (bool \<times> nat set list) panics" where
  "propagate_to_predecessor ord ir inputs entry pred s =
     do { outs \<leftarrow> block_outputs ir pred; fold_panics (send_local inputs outs pred) (ord entry) s }"

definition liveness_block ::
    "set_order \<Rightarrow> eth_ir_program \<Rightarrow> nat list list \<Rightarrow> nat \<Rightarrow> bool \<times> nat set list \<times> nat set list
     \<Rightarrow> (bool \<times> nat set list \<times> nat set list) panics" where
  "liveness_block ord ir preds b = (\<lambda>(changed, entries, exits).
     do { exit \<leftarrow> iv_index exits b;
          entry \<leftarrow> liveness_at_block_entry ir b exit;
          entries \<leftarrow> iv_set entries b entry;
          ps \<leftarrow> iv_index preds b;
          inputs \<leftarrow> block_inputs ir b;
          (changed, exits) \<leftarrow> fold_panics (propagate_to_predecessor ord ir inputs entry) ps (changed, exits);
          Some (changed, entries, exits) })"

fun liveness_loop ::
    "nat \<Rightarrow> set_order \<Rightarrow> eth_ir_program \<Rightarrow> nat list list \<Rightarrow> nat list \<Rightarrow> nat set list \<times> nat set list
     \<Rightarrow> (nat set list \<times> nat set list) panics" where
  "liveness_loop 0 ord ir preds post s = None"
| "liveness_loop (Suc fuel) ord ir preds post s =
     do { (changed, s) \<leftarrow> fold_panics (liveness_block ord ir preds) post (False, s);
          if changed then liveness_loop fuel ord ir preds post s else Some s }"

definition push_interval :: "nat \<Rightarrow> nat \<Rightarrow> interval \<Rightarrow> (nat \<times> interval) list list \<Rightarrow> (nat \<times> interval) list list panics" where
  "push_interval b l iv ivs = do { xs \<leftarrow> iv_index ivs l; iv_set ivs l (xs @ [(b, iv)]) }"

definition close_interval ::
    "nat \<Rightarrow> nat \<Rightarrow> nat \<Rightarrow> (nat \<rightharpoonup> interval_end) \<times> (nat \<times> interval) list list
     \<Rightarrow> ((nat \<rightharpoonup> interval_end) \<times> (nat \<times> interval) list list) panics" where
  "close_interval b i out = (\<lambda>(ends, ivs).
     (case ends out of
        None \<Rightarrow> Some (ends, ivs)
      | Some e \<Rightarrow>
          do { ivs \<leftarrow> push_interval b out \<lparr>iv_start = StartAt i, iv_end = e\<rparr> ivs; Some (ends(out := None), ivs) }))"

definition open_interval :: "nat \<Rightarrow> nat \<Rightarrow> (nat \<rightharpoonup> interval_end) \<Rightarrow> (nat \<rightharpoonup> interval_end)" where
  "open_interval i l ends = (case ends l of None \<Rightarrow> ends(l \<mapsto> EndAt i) | Some _ \<Rightarrow> ends)"

definition intervals_op ::
    "eth_ir_program \<Rightarrow> nat \<Rightarrow> nat \<Rightarrow> (nat \<rightharpoonup> interval_end) \<times> (nat \<times> interval) list list
     \<Rightarrow> ((nat \<rightharpoonup> interval_end) \<times> (nat \<times> interval) list list) panics" where
  "intervals_op ir b i s =
     do { outs \<leftarrow> opview_outputs ir i;
          (ends, ivs) \<leftarrow> fold_panics (close_interval b i) outs s;
          ins \<leftarrow> opview_inputs ir i;
          Some (fold (open_interval i) ins ends, ivs) }"

definition start_interval ::
    "nat \<Rightarrow> (nat \<rightharpoonup> interval_end) \<Rightarrow> nat \<Rightarrow> (nat \<times> interval) list list \<Rightarrow> (nat \<times> interval) list list panics" where
  "start_interval b ends l ivs =
     (case ends l of
        None \<Rightarrow> Some ivs
      | Some e \<Rightarrow> push_interval b l \<lparr>iv_start = BlockStart, iv_end = e\<rparr> ivs)"

definition intervals_block ::
    "set_order \<Rightarrow> eth_ir_program \<Rightarrow> nat set list \<Rightarrow> nat \<Rightarrow> (nat \<times> interval) list list
     \<Rightarrow> (nat \<times> interval) list list panics" where
  "intervals_block ord ir exits b ivs =
     do { exit \<leftarrow> iv_index exits b;
          reads \<leftarrow> end_reads ir b;
          ids \<leftarrow> block_operations_rev ir b;
          (ends, ivs) \<leftarrow> fold_panics (intervals_op ir b) ids
             (\<lambda>l. if l \<in> exit \<union> reads then Some BlockEnd else None, ivs);
          fold_panics (start_interval b ends) (ord (dom ends)) ivs }"

definition compute_local_liveness ::
    "nat \<Rightarrow> set_order \<Rightarrow> eth_ir_program \<Rightarrow> nat list list \<Rightarrow> reverse_post_order \<Rightarrow> local_liveness panics" where
  "compute_local_liveness fuel ord ir preds rpo =
     do { let n = length (ir_basic_blocks ir);
          (entries, exits) \<leftarrow> liveness_loop fuel ord ir preds (global_post_order rpo) (replicate n {}, replicate n {});
          ivs \<leftarrow> fold_panics (intervals_block ord ir exits) [0..<n] (replicate (ir_next_free_local_id ir) []);
          Some \<lparr>ll_intervals = ivs, ll_entry = entries, ll_exit = exits\<rparr> }"

end
