(* ===== verification/Legal_Views.thy ===== *)
theory Legal_Views
  imports Legal Local_Liveness
begin

text \<open>
  What the views of a program return on an accepted one: its operations in both orders, their operands, and
  what the end of a block reads.
\<close>

definition ops_of :: "eth_ir_program \<Rightarrow> nat \<Rightarrow> nat list" where
  "ops_of ir b = the (block_operations ir b)"

definition op_reads :: "eth_ir_program \<Rightarrow> nat \<Rightarrow> nat list" where
  "op_reads ir i = the (opview_inputs ir i)"

text \<open>The outputs of all blocks can be read, and every local is one of the program.\<close>

definition outputs_in_range :: "eth_ir_program \<Rightarrow> bool" where
  "outputs_in_range ir \<longleftrightarrow>
     (\<forall>b < length (ir_basic_blocks ir). \<exists>outs. block_outputs ir b = Some outs \<and> (\<forall>l \<in> set outs. l < ir_next_free_local_id ir))"

lemma span_iter_idx: "span_iter s = Some ids \<Longrightarrow> sp_start s < sp_end s \<Longrightarrow> is_idx (sp_end s)"
proof -
  have "span_collect fuel span_next s = Some ids \<Longrightarrow> sp_start s < sp_end s \<Longrightarrow> is_idx (sp_end s)" for fuel
  proof (induction fuel arbitrary: s ids)
    case (Suc fuel)
    then obtain j where j: "span_next s = Some (Some (sp_start s, s\<lparr>sp_start := j\<rparr>))" "j = Suc (sp_start s)" "is_idx j"
      by (auto simp: span_next_def get_and_inc_def bind_Some idx_add_Some)
    then obtain xs where "span_collect fuel span_next (s\<lparr>sp_start := Suc (sp_start s)\<rparr>) = Some xs"
      using Suc.prems(1) by (auto simp: bind_Some)
    then show ?case
      using Suc.IH [of "s\<lparr>sp_start := Suc (sp_start s)\<rparr>" xs] j Suc.prems(2) by (cases "sp_end s = Suc (sp_start s)") auto
  qed simp
  then show "span_iter s = Some ids \<Longrightarrow> sp_start s < sp_end s \<Longrightarrow> is_idx (sp_end s)"
    unfolding span_iter_def by blast
qed

lemma span_iter_rev_Some:
  assumes "span_iter s = Some ids"
  shows "span_iter_rev s = Some (rev ids)"
proof -
  have ids: "ids = [sp_start s..<sp_end s]"
    by (rule span_iter_SomeD [OF assms])
  show ?thesis
  proof (cases "sp_start s < sp_end s")
    case True
    then have "is_idx (sp_end s)"
      by (rule span_iter_idx [OF assms])
    then show ?thesis
      unfolding ids by (rule span_iter_eq(2))
  qed (simp add: ids span_iter_rev_def span_next_back_def)
qed

lemma legal_views:
  assumes ir: "legal ir" and outs: "outputs_in_range ir" and b: "b < length (ir_basic_blocks ir)"
  shows "block_operations ir b = Some (ops_of ir b)" and "block_operations_rev ir b = Some (rev (ops_of ir b))"
    and "i \<in> set (ops_of ir b) \<Longrightarrow> opview_inputs ir i = Some (op_reads ir i) \<and> opview_outputs ir i = Some (op_defs ir i)
       \<and> (\<forall>l \<in> set (op_reads ir i) \<union> set (op_defs ir i). l < ir_next_free_local_id ir)"
    and "\<exists>R. end_reads ir b = Some R \<and> R \<subseteq> {..<ir_next_free_local_id ir}"
    and "\<exists>ins. block_inputs ir b = Some ins" and "\<exists>os. block_outputs ir b = Some os \<and> (\<forall>l \<in> set os. l < ir_next_free_local_id ir)"
proof -
  have "legal_block ir b"
    using ir b by (simp add: legal_def)
  then obtain c ids where c: "block_control ir b = Some c" "block_operations ir b = Some ids"
      "\<forall>l \<in> control_condition c. l < ir_next_free_local_id ir" "\<forall>i \<in> set ids. legal_op ir i"
    unfolding legal_block_def by blast
  then show ops: "block_operations ir b = Some (ops_of ir b)"
    by (simp add: ops_of_def)
  have "span_iter (bb_operations (ir_basic_blocks ir ! b)) = Some (ops_of ir b)"
    using ops b by (simp add: block_operations_def iv_index_def)
  then show "block_operations_rev ir b = Some (rev (ops_of ir b))"
    using b span_iter_rev_Some by (simp add: block_operations_rev_def iv_index_def)
  show "i \<in> set (ops_of ir b) \<Longrightarrow> opview_inputs ir i = Some (op_reads ir i) \<and> opview_outputs ir i = Some (op_defs ir i)
       \<and> (\<forall>l \<in> set (op_reads ir i) \<union> set (op_defs ir i). l < ir_next_free_local_id ir)"
    using c(2,4) ops by (auto simp: legal_op_def op_reads_def op_defs_def)
  show "\<exists>os. block_outputs ir b = Some os \<and> (\<forall>l \<in> set os. l < ir_next_free_local_id ir)"
    using outs b by (auto simp: outputs_in_range_def)
  then show "\<exists>R. end_reads ir b = Some R \<and> R \<subseteq> {..<ir_next_free_local_id ir}"
    using c(1,3) by (cases c) (auto simp: end_reads_def control_condition_def)
  show "\<exists>ins. block_inputs ir b = Some ins"
    using ir b by (auto simp: legal_def legal_defs_def)
qed

end
