(* ===== verification/Local_Liveness_Correct.thy ===== *)
theory Local_Liveness_Correct
  imports Legal_Views Legal_Example
begin

text \<open>
  The liveness of locals is right: the loop ends, and its sets are the locals that some run reads before
  they are defined again.
\<close>

section \<open>Live locals\<close>

text \<open>The local of \<open>b\<close> that becomes \<open>l\<close> of its successor \<open>t\<close>.\<close>

definition sent :: "eth_ir_program \<Rightarrow> nat \<Rightarrow> nat \<Rightarrow> nat \<Rightarrow> nat option" where
  "sent ir b t l = sent_local (the (block_inputs ir t)) (the (block_outputs ir b)) l"

text \<open>
  A local is live before the \<open>k\<close>th operation of a block when that operation reads it, or does not define it
  and it is live after it; after the last operation, when the end of the block reads it, or it is live,
  under the name it has there, at the start of a successor.
\<close>

inductive live_at :: "eth_ir_program \<Rightarrow> nat \<Rightarrow> nat \<Rightarrow> nat \<Rightarrow> bool" for ir where
  live_read: "k < length (ops_of ir b) \<Longrightarrow> l \<in> set (op_reads ir (ops_of ir b ! k)) \<Longrightarrow> live_at ir b k l"
| live_kept: "k < length (ops_of ir b) \<Longrightarrow> l \<notin> set (op_defs ir (ops_of ir b ! k)) \<Longrightarrow> live_at ir b (Suc k) l \<Longrightarrow> live_at ir b k l"
| live_end: "l \<in> the (end_reads ir b) \<Longrightarrow> live_at ir b (length (ops_of ir b)) l"
| live_edge: "edge ir b t \<Longrightarrow> live_at ir t 0 l' \<Longrightarrow> sent ir b t l' = Some l \<Longrightarrow> live_at ir b (length (ops_of ir b)) l"

definition live_out :: "eth_ir_program \<Rightarrow> nat \<Rightarrow> nat \<Rightarrow> bool" where
  "live_out ir b l \<longleftrightarrow> (\<exists>t l'. edge ir b t \<and> live_at ir t 0 l' \<and> sent ir b t l' = Some l)"

section \<open>One block\<close>

fun live_from :: "eth_ir_program \<Rightarrow> nat list \<Rightarrow> nat set \<Rightarrow> nat set" where
  "live_from ir [] X = X"
| "live_from ir (i # is) X = (live_from ir is X - set (op_defs ir i)) \<union> set (op_reads ir i)"

definition entry_set :: "eth_ir_program \<Rightarrow> nat \<Rightarrow> nat set \<Rightarrow> nat set" where
  "entry_set ir b X = live_from ir (ops_of ir b) (X \<union> the (end_reads ir b))"

lemma live_from_sound:
  assumes "\<forall>l \<in> X. live_out ir b l" and "k \<le> length (ops_of ir b)"
  shows "l \<in> live_from ir (drop k (ops_of ir b)) (X \<union> the (end_reads ir b)) \<Longrightarrow> live_at ir b k l"
  using assms(2)
proof (induction "length (ops_of ir b) - k" arbitrary: k l)
  case 0
  then have "l \<in> X \<union> the (end_reads ir b)" "k = length (ops_of ir b)"
    by auto
  then show ?case
    using assms(1) by (auto simp: live_out_def intro: live_end live_edge)
next
  case (Suc n)
  then have k: "k < length (ops_of ir b)" "drop k (ops_of ir b) = ops_of ir b ! k # drop (Suc k) (ops_of ir b)"
    by (auto simp: Cons_nth_drop_Suc)
  then have "l \<in> set (op_reads ir (ops_of ir b ! k)) \<or>
      (l \<in> live_from ir (drop (Suc k) (ops_of ir b)) (X \<union> the (end_reads ir b)) \<and> l \<notin> set (op_defs ir (ops_of ir b ! k)))"
    using Suc.prems(1) by auto
  then show ?case
    using Suc.hyps k(1) by (auto intro: live_read live_kept)
qed

text \<open>Exit sets that are closed under the edges contain what is live.\<close>

lemma live_from_complete:
  assumes "live_at ir b k l" and "b \<in> R" and "\<And>b t. b \<in> R \<Longrightarrow> edge ir b t \<Longrightarrow> t \<in> R"
    and closed: "\<And>b t l l'. b \<in> R \<Longrightarrow> edge ir b t \<Longrightarrow> l' \<in> entry_set ir t (E t) \<Longrightarrow> sent ir b t l' = Some l \<Longrightarrow> l \<in> E b"
  shows "k \<le> length (ops_of ir b) \<and> l \<in> live_from ir (drop k (ops_of ir b)) (E b \<union> the (end_reads ir b))"
  using assms(1,2)
proof (induction rule: live_at.induct)
  case (live_edge b t l' l)
  then have "t \<in> R"
    using assms(3) by blast
  then have "l' \<in> entry_set ir t (E t)"
    using live_edge by (simp add: entry_set_def)
  then show ?case
    using closed live_edge by auto
qed (auto simp: Cons_nth_drop_Suc [symmetric])

lemma entry_run:
  assumes ir: "legal ir" "outputs_in_range ir" and b: "b < length (ir_basic_blocks ir)"
    and X: "X \<subseteq> {..<ir_next_free_local_id ir}"
  shows "liveness_at_block_entry ir b X = Some (entry_set ir b X)" and "entry_set ir b X \<subseteq> {..<ir_next_free_local_id ir}"
proof -
  note V = legal_views [OF ir b]
  have run: "fold_panics (live_before_op ir) (rev is) Y = Some (live_from ir is Y)" if "set is \<subseteq> set (ops_of ir b)" for "is" Y
    using that
  proof (induction "is")
    case (Cons i "is")
    then show ?case
      using V(3) [of i] by (simp add: live_before_op_def)
  qed simp
  show "liveness_at_block_entry ir b X = Some (entry_set ir b X)"
    using V(2,4) run [of "ops_of ir b"] by (auto simp: liveness_at_block_entry_def entry_set_def)
  have "live_from ir is Y \<subseteq> {..<ir_next_free_local_id ir}"
    if "set is \<subseteq> set (ops_of ir b)" "Y \<subseteq> {..<ir_next_free_local_id ir}" for "is" Y
    using that(1)
  proof (induction "is")
    case (Cons i "is")
    then show ?case
      using V(3) [of i] by auto
  qed (use that(2) in simp)
  moreover obtain Z where "end_reads ir b = Some Z" "Z \<subseteq> {..<ir_next_free_local_id ir}"
    using V(4) by blast
  ultimately show "entry_set ir b X \<subseteq> {..<ir_next_free_local_id ir}"
    using X unfolding entry_set_def by simp
qed

section \<open>Propagation to the predecessors\<close>

definition sent_set :: "eth_ir_program \<Rightarrow> nat \<Rightarrow> nat set \<Rightarrow> nat \<Rightarrow> nat set" where
  "sent_set ir t L b = {x. \<exists>l \<in> L. sent ir b t l = Some x}"

lemma send_locals:
  assumes "p < length exits" and "\<forall>l \<in> set ls. sent_local ins outs l \<noteq> None"
  shows "fold_panics (send_local ins outs p) ls (c, exits) =
    Some (c \<or> \<not> {x. \<exists>l \<in> set ls. sent_local ins outs l = Some x} \<subseteq> exits ! p,
      exits[p := exits ! p \<union> {x. \<exists>l \<in> set ls. sent_local ins outs l = Some x}])"
  using assms
proof (induction ls arbitrary: c exits)
  case (Cons l ls)
  then obtain x where x: "sent_local ins outs l = Some x"
    by auto
  have "{y. \<exists>l \<in> set (l # ls). sent_local ins outs l = Some y} = insert x {y. \<exists>l \<in> set ls. sent_local ins outs l = Some y}"
    using x by auto
  then show ?case
    using Cons x by (auto simp: send_local_def iv_index_def iv_set_def)
qed simp

text \<open>How the exit sets grow while one block is handled; \<open>T b\<close> is what the block \<open>b\<close> receives.\<close>

definition exits_grow :: "nat set list \<Rightarrow> nat set list \<Rightarrow> bool" where
  "exits_grow ex ex' \<longleftrightarrow> length ex' = length ex \<and> (\<forall>b < length ex. ex ! b \<subseteq> ex' ! b)"

lemma exits_grow_refl: "exits_grow ex ex"
  by (simp add: exits_grow_def)

lemma exits_grow_trans: "exits_grow ex ex' \<Longrightarrow> exits_grow ex' ex'' \<Longrightarrow> exits_grow ex ex''"
  by (fastforce simp: exits_grow_def)

definition received :: "nat list \<Rightarrow> (nat \<Rightarrow> nat set) \<Rightarrow> bool \<Rightarrow> nat set list \<Rightarrow> bool \<Rightarrow> nat set list \<Rightarrow> bool" where
  "received ps T c ex c' ex' \<longleftrightarrow>
     exits_grow ex ex' \<and> (c' \<longleftrightarrow> c \<or> ex' \<noteq> ex)
     \<and> (\<forall>p \<in> set ps. T p \<subseteq> ex' ! p) \<and> (\<forall>b < length ex. ex' ! b \<subseteq> ex ! b \<union> (if b \<in> set ps then T b else {}))"

lemma received_step:
  assumes "received ps T c ex c' ex'" and "p < length ex"
  shows "received (ps @ [p]) T c ex (c' \<or> \<not> T p \<subseteq> ex' ! p) (ex'[p := ex' ! p \<union> T p])"
proof -
  have R: "length ex' = length ex" "\<And>b. b < length ex \<Longrightarrow> ex ! b \<subseteq> ex' ! b" "c' \<longleftrightarrow> c \<or> ex' \<noteq> ex"
    "\<And>q. q \<in> set ps \<Longrightarrow> T q \<subseteq> ex' ! q" "\<And>b. b < length ex \<Longrightarrow> ex' ! b \<subseteq> ex ! b \<union> (if b \<in> set ps then T b else {})"
    using assms(1) by (auto simp: received_def exits_grow_def)
  let ?ex = "ex'[p := ex' ! p \<union> T p]"
  have at: "?ex ! b = (if b = p then ex' ! p \<union> T p else ex' ! b)" for b
    using assms(2) R(1) by simp
  have "(c' \<or> \<not> T p \<subseteq> ex' ! p) \<longleftrightarrow> c \<or> ?ex \<noteq> ex"
  proof (cases "T p \<subseteq> ex' ! p")
    case True
    then have "?ex = ex'"
      by (simp add: Un_absorb2)
    then show ?thesis
      using True R(3) by simp
  next
    case False
    then have "?ex ! p \<noteq> ex' ! p"
      by (auto simp: at)
    moreover have "ex ! p \<subseteq> ex' ! p"
      using R(2) assms(2) .
    ultimately have "?ex ! p \<noteq> ex ! p"
      by (auto simp: at)
    then show ?thesis
      using False by auto
  qed
  moreover have "exits_grow ex ?ex"
    using R(1,2) by (auto simp: exits_grow_def at)
  moreover have "T q \<subseteq> ?ex ! q" if "q \<in> set (ps @ [p])" for q
    using that R(4) by (auto simp: at)
  moreover have "?ex ! b \<subseteq> ex ! b \<union> (if b \<in> set (ps @ [p]) then T b else {})" if "b < length ex" for b
    using R(5) [OF that] by (auto simp: at split: if_splits)
  ultimately show ?thesis
    unfolding received_def by blast
qed

lemma propagate_run:
  assumes ord: "lists_sets ord" "finite L" and ins: "block_inputs ir t = Some ins"
    and ps: "\<forall>p \<in> set ps. p < length ex \<and> (\<exists>outs. block_outputs ir p = Some outs) \<and> (\<forall>l \<in> L. sent ir p t l \<noteq> None)"
  shows "\<exists>c' ex'. fold_panics (propagate_to_predecessor ord ir ins L) ps (c, ex) = Some (c', ex')
    \<and> received ps (sent_set ir t L) c ex c' ex'"
  using ps
proof (induction ps rule: rev_induct)
  case Nil
  then show ?case
    by (simp add: received_def exits_grow_refl)
next
  case (snoc p ps)
  then obtain c' ex' where run: "fold_panics (propagate_to_predecessor ord ir ins L) ps (c, ex) = Some (c', ex')"
    and R: "received ps (sent_set ir t L) c ex c' ex'"
    by auto
  obtain outs where outs: "block_outputs ir p = Some outs"
    using snoc.prems by auto
  have "set (ord L) = L"
    using ord by (simp add: lists_sets_def)
  moreover have "p < length ex'" "\<forall>l \<in> L. sent_local ins outs l \<noteq> None"
    using snoc.prems R ins outs by (auto simp: received_def exits_grow_def sent_def)
  moreover have "sent_set ir t L p = {x. \<exists>l \<in> L. sent_local ins outs l = Some x}"
    using ins outs by (simp add: sent_set_def sent_def)
  ultimately have "propagate_to_predecessor ord ir ins L p (c', ex') =
      Some (c' \<or> \<not> sent_set ir t L p \<subseteq> ex' ! p, ex'[p := ex' ! p \<union> sent_set ir t L p])"
    using send_locals [of p ex' "ord L" ins outs c'] outs by (simp add: propagate_to_predecessor_def)
  then show ?case
    using run received_step [OF R, of p] snoc.prems by auto
qed

section \<open>One pass\<close>

text \<open>What holds of the sets at all times.\<close>

definition live_inv :: "eth_ir_program \<Rightarrow> nat set list \<times> nat set list \<Rightarrow> bool" where
  "live_inv ir s \<longleftrightarrow> (case s of (en, ex) \<Rightarrow>
     length en = length (ir_basic_blocks ir) \<and> length ex = length (ir_basic_blocks ir)
     \<and> (\<forall>b < length ex. ex ! b \<subseteq> {..<ir_next_free_local_id ir} \<and> (\<forall>l \<in> ex ! b. live_out ir b l))
     \<and> (\<forall>b < length en. \<forall>l \<in> en ! b. live_at ir b 0 l))"

text \<open>What a pass has settled for the blocks it has handled, given that it has changed nothing.\<close>

definition live_settled :: "eth_ir_program \<Rightarrow> nat set list \<Rightarrow> nat set list \<Rightarrow> nat \<Rightarrow> bool" where
  "live_settled ir en ex t \<longleftrightarrow>
     en ! t = entry_set ir t (ex ! t)
     \<and> (\<forall>b \<in> reachable_blocks ir. edge ir b t \<longrightarrow> sent_set ir t (en ! t) b \<subseteq> ex ! b)"

definition pass_done :: "eth_ir_program \<Rightarrow> nat list \<Rightarrow> nat set list \<Rightarrow> bool \<Rightarrow> nat set list \<Rightarrow> nat set list \<Rightarrow> bool" where
  "pass_done ir ts ex0 c en ex \<longleftrightarrow>
     live_inv ir (en, ex) \<and> exits_grow ex0 ex \<and> (c \<longleftrightarrow> ex \<noteq> ex0) \<and> (\<not> c \<longrightarrow> (\<forall>t \<in> set ts. live_settled ir en ex t))"

lemma edge_sends:
  assumes ir: "legal ir" "outputs_in_range ir" and b: "b \<in> reachable_blocks ir" "edge ir b t"
  shows "sent ir b t l \<noteq> None" and "l < ir_next_free_local_id ir \<Longrightarrow> sent ir b t l = Some x \<Longrightarrow> x < ir_next_free_local_id ir"
proof -
  obtain f where f: "f < length (ir_functions ir)" "reaches ir (entry_of ir f) b"
    using b(1) by (auto simp: reachable_blocks_def)
  then have bn: "b < length (ir_basic_blocks ir)" and fit: "edges_fit ir b"
    using ir(1) unfolding legal_def legal_cfg_def by blast+
  then have tn: "t < length (ir_basic_blocks ir)"
    and len: "span_len (bb_outputs (ir_basic_blocks ir ! b)) = span_len (bb_inputs (ir_basic_blocks ir ! t))"
    using b(2) unfolding edges_fit_def by auto
  obtain ins outs where io: "block_inputs ir t = Some ins" "block_outputs ir b = Some outs" "\<forall>l \<in> set outs. l < ir_next_free_local_id ir"
    using legal_views(5) [OF ir tn] legal_views(6) [OF ir bn] by blast
  have "length ins = length outs"
    using io(1,2) len bn tn
    by (auto simp: block_inputs_def block_outputs_def iv_index_def iv_index_span_def slice_of_Some span_len_def
        idx_sub_idx_def sub_checked_def)
  then show "sent ir b t l \<noteq> None"
    using io(1,2) by (auto simp: sent_def sent_local_def position_Some split: option.splits)
  show "l < ir_next_free_local_id ir \<Longrightarrow> sent ir b t l = Some x \<Longrightarrow> x < ir_next_free_local_id ir"
    using io by (auto simp: sent_def sent_local_def get_at_Some split: option.splits)
qed


lemma reachable_in_range:
  assumes "cfg_closed ir" and "b \<in> reachable_blocks ir"
  shows "b < length (ir_basic_blocks ir)"
proof -
  obtain f where f: "f < length (ir_functions ir)" "reaches ir (entry_of ir f) b"
    using assms(2) by (auto simp: reachable_blocks_def)
  then show ?thesis
    using reaches_closed [OF assms(1) f(2)] entry_closed [OF assms(1) f(1)] by blast
qed

lemma liveness_block_run:
  assumes ir: "legal ir" "outputs_in_range ir" and C: "cfg_closed ir" and ord: "lists_sets ord"
    and t: "t \<in> reachable_blocks ir" "set (preds ! t) = {p. p \<in> reachable_blocks ir \<and> edge ir p t}"
    and len: "length preds = length (ir_basic_blocks ir)" and inv: "live_inv ir (en, ex)"
  shows "\<exists>c' ex'. liveness_block ord ir preds t (c, en, ex) = Some (c', en[t := entry_set ir t (ex ! t)], ex')
    \<and> received (preds ! t) (sent_set ir t (entry_set ir t (ex ! t))) c ex c' ex'
    \<and> live_inv ir (en[t := entry_set ir t (ex ! t)], ex')"
proof -
  let ?L = "entry_set ir t (ex ! t)"
  have I: "length en = length (ir_basic_blocks ir)" "length ex = length (ir_basic_blocks ir)"
    "\<And>b. b < length ex \<Longrightarrow> ex ! b \<subseteq> {..<ir_next_free_local_id ir}" "\<And>b l. b < length ex \<Longrightarrow> l \<in> ex ! b \<Longrightarrow> live_out ir b l"
    "\<And>b l. b < length en \<Longrightarrow> l \<in> en ! b \<Longrightarrow> live_at ir b 0 l"
    using inv by (auto simp: live_inv_def)
  have R: "b < length (ir_basic_blocks ir)" if "b \<in> reachable_blocks ir" for b
    using reachable_in_range [OF C that] .
  have tn: "t < length (ir_basic_blocks ir)"
    by (rule R [OF t(1)])
  have L: "liveness_at_block_entry ir t (ex ! t) = Some ?L" "?L \<subseteq> {..<ir_next_free_local_id ir}"
    using entry_run [OF ir tn] I(2,3) tn by simp_all
  have live: "live_at ir t 0 l" if "l \<in> ?L" for l
    using live_from_sound [of "ex ! t" ir t 0 l] I(2,4) tn that by (simp add: entry_set_def)
  obtain ins where ins: "block_inputs ir t = Some ins"
    using legal_views(5) [OF ir tn] by blast
  have "\<forall>p \<in> set (preds ! t). p < length ex \<and> (\<exists>outs. block_outputs ir p = Some outs) \<and> (\<forall>l \<in> ?L. sent ir p t l \<noteq> None)"
    using t(2) R I(2) legal_views(6) [OF ir] edge_sends(1) [OF ir] by simp blast
  then obtain c' ex' where run: "fold_panics (propagate_to_predecessor ord ir ins ?L) (preds ! t) (c, ex) = Some (c', ex')"
    and rec: "received (preds ! t) (sent_set ir t ?L) c ex c' ex'"
    using propagate_run [OF ord finite_subset [OF L(2)] ins] by blast
  have "liveness_block ord ir preds t (c, en, ex) = Some (c', en[t := ?L], ex')"
    using L(1) ins run tn I(1,2) len by (simp add: liveness_block_def iv_index_def iv_set_def)
  moreover have "live_inv ir (en[t := ?L], ex')"
  proof -
    have "x < ir_next_free_local_id ir \<and> live_out ir b x" if b: "b < length ex" and x: "x \<in> ex' ! b" for b x
    proof (cases "x \<in> ex ! b")
      case False
      then have "b \<in> set (preds ! t)" "x \<in> sent_set ir t ?L b"
        using rec b x by (auto simp: received_def split: if_splits)
      then show ?thesis
        using t(2) L(2) live edge_sends(2) [OF ir, of b t] by (fastforce simp: sent_set_def live_out_def)
    qed (use b I(3,4) in auto)
    moreover have "length ex' = length ex"
      using rec by (simp add: received_def exits_grow_def)
    moreover have "live_at ir b 0 l" if "b < length en" "l \<in> en[t := ?L] ! b" for b l
      using that I(5) live by (cases "b = t") auto
    ultimately show ?thesis
      using I(1,2) by (auto simp: live_inv_def)
  qed
  ultimately show ?thesis
    using rec by blast
qed

lemma exits_grow_antisym: "exits_grow a b \<Longrightarrow> exits_grow b a \<Longrightarrow> a = b"
  by (auto simp: exits_grow_def intro!: nth_equalityI)

lemma pass_done_step:
  assumes d: "pass_done ir ts ex0 c en ex" and t: "t < length en"
    "set ps = {p. p \<in> reachable_blocks ir \<and> edge ir p t}"
    and r: "received ps (sent_set ir t (entry_set ir t (ex ! t))) c ex c' ex'"
    and inv: "live_inv ir (en[t := entry_set ir t (ex ! t)], ex')"
  shows "pass_done ir (ts @ [t]) ex0 c' (en[t := entry_set ir t (ex ! t)]) ex'"
proof -
  have g: "exits_grow ex0 ex" "exits_grow ex ex'" "c \<longleftrightarrow> ex \<noteq> ex0" "c' \<longleftrightarrow> c \<or> ex' \<noteq> ex"
    using d r by (auto simp: pass_done_def received_def)
  moreover have "c' \<longleftrightarrow> ex' \<noteq> ex0"
    using g exits_grow_antisym by metis
  moreover have "live_settled ir (en[t := entry_set ir t (ex ! t)]) ex' u" if "\<not> c'" "u \<in> set (ts @ [t])" for u
  proof -
    have same: "ex' = ex" "\<not> c"
      using that(1) g(4) by auto
    show ?thesis
    proof (cases "u = t")
      case True
      then show ?thesis
        using r t same(1) by (simp add: live_settled_def received_def)
    next
      case False
      then have old: "live_settled ir en ex u"
        using d that(2) same(2) unfolding pass_done_def by auto
      have eq: "en[t := entry_set ir t (ex ! t)] ! u = en ! u"
        using False by simp
      show ?thesis
        using old unfolding same(1) live_settled_def eq .
    qed
  qed
  ultimately show ?thesis
    using inv exits_grow_trans unfolding pass_done_def by blast
qed

lemma liveness_pass:
  assumes ir: "legal ir" "outputs_in_range ir" "cfg_closed ir" and ord: "lists_sets ord"
    and ts: "set ts \<subseteq> reachable_blocks ir"
    and preds: "\<And>t. t \<in> set ts \<Longrightarrow> set (preds ! t) = {p. p \<in> reachable_blocks ir \<and> edge ir p t}"
    and len: "length preds = length (ir_basic_blocks ir)" and inv: "live_inv ir (en0, ex0)"
  shows "\<exists>c en ex. fold_panics (liveness_block ord ir preds) ts (False, en0, ex0) = Some (c, en, ex) \<and> pass_done ir ts ex0 c en ex"
  using ts preds
proof (induction ts rule: rev_induct)
  case Nil
  show ?case
    using inv by (intro exI [of _ False] exI [of _ en0] exI [of _ ex0]) (simp add: pass_done_def exits_grow_refl)
next
  case (snoc t ts)
  then obtain c en ex where run: "fold_panics (liveness_block ord ir preds) ts (False, en0, ex0) = Some (c, en, ex)"
    and d: "pass_done ir ts ex0 c en ex"
    by auto
  have t: "t \<in> reachable_blocks ir" "set (preds ! t) = {p. p \<in> reachable_blocks ir \<and> edge ir p t}"
    using snoc.prems by auto
  have i: "live_inv ir (en, ex)"
    using d by (simp add: pass_done_def)
  then have "t < length en"
    using reachable_in_range [OF ir(3) t(1)] by (simp add: live_inv_def)
  then show ?case
    using liveness_block_run [OF ir ord t len i, of c] pass_done_step [OF d _ t(2)] run by fastforce
qed

section \<open>The loop\<close>

definition exits_size :: "nat set list \<Rightarrow> nat" where
  "exits_size ex = (\<Sum>b<length ex. card (ex ! b))"

lemma exits_size_bound:
  assumes "\<forall>b < length ex. ex ! b \<subseteq> {..<m}"
  shows "exits_size ex \<le> length ex * m"
proof -
  have "card (ex ! b) \<le> m" if "b \<in> {..<length ex}" for b
    using card_mono [of "{..<m}" "ex ! b"] assms that by simp
  then show ?thesis
    unfolding exits_size_def using sum_bounded_above [of "{..<length ex}" "\<lambda>b. card (ex ! b)" m] by simp
qed

lemma exits_size_grows:
  assumes "exits_grow ex ex'" "ex' \<noteq> ex" and fin: "\<forall>b < length ex'. finite (ex' ! b)"
  shows "exits_size ex < exits_size ex'"
proof -
  have le: "card (ex ! b) \<le> card (ex' ! b)" if "b < length ex" for b
    using assms that by (auto simp: exits_grow_def intro: card_mono)
  obtain b where b: "b < length ex" "ex ! b \<noteq> ex' ! b"
    using assms(1,2) by (auto simp: exits_grow_def list_eq_iff_nth_eq)
  then have "ex ! b \<subset> ex' ! b" "finite (ex' ! b)"
    using assms by (auto simp: exits_grow_def)
  then have "card (ex ! b) < card (ex' ! b)"
    by (simp add: psubset_card_mono)
  then show ?thesis
    using le b(1) assms(1) by (auto simp: exits_size_def exits_grow_def intro!: sum_strict_mono_ex1)
qed

lemma liveness_loop_run:
  assumes ir: "legal ir" "outputs_in_range ir" "cfg_closed ir" and ord: "lists_sets ord"
    and ts: "set ts = reachable_blocks ir"
    and preds: "\<And>t. t \<in> set ts \<Longrightarrow> set (preds ! t) = {p. p \<in> reachable_blocks ir \<and> edge ir p t}"
    and len: "length preds = length (ir_basic_blocks ir)"
  shows "live_inv ir (en, ex) \<Longrightarrow> length (ir_basic_blocks ir) * ir_next_free_local_id ir < fuel + exits_size ex \<Longrightarrow>
    \<exists>en' ex'. liveness_loop fuel ord ir preds ts (en, ex) = Some (en', ex') \<and> live_inv ir (en', ex')
      \<and> (\<forall>t \<in> reachable_blocks ir. live_settled ir en' ex' t)"
proof (induction fuel arbitrary: en ex)
  case 0
  then show ?case
    using exits_size_bound [of ex "ir_next_free_local_id ir"] by (auto simp: live_inv_def)
next
  case (Suc fuel)
  obtain c en' ex' where run: "fold_panics (liveness_block ord ir preds) ts (False, en, ex) = Some (c, en', ex')"
    and d: "pass_done ir ts ex c en' ex'"
    using liveness_pass [OF ir ord _ preds len Suc.prems(1)] ts by blast
  have i: "live_inv ir (en', ex')"
    using d by (simp add: pass_done_def)
  show ?case
  proof (cases c)
    case True
    have "\<forall>b < length ex'. finite (ex' ! b)"
      using i finite_subset [OF _ finite_lessThan] by (auto simp: live_inv_def)
    then have "exits_size ex < exits_size ex'"
      using d True exits_size_grows by (auto simp: pass_done_def)
    then show ?thesis
      using Suc.IH [OF i] Suc.prems(2) run True by simp
  qed (use d run i ts in \<open>auto simp: pass_done_def\<close>)
qed

lemma reachable_step: "b \<in> reachable_blocks ir \<Longrightarrow> edge ir b t \<Longrightarrow> t \<in> reachable_blocks ir"
  by (auto simp: reachable_blocks_def intro: reaches_edge)

lemma settled_sends:
  assumes s: "\<forall>t \<in> reachable_blocks ir. live_settled ir en ex t"
    and b: "b \<in> reachable_blocks ir" "edge ir b t" "l' \<in> entry_set ir t (ex ! t)" "sent ir b t l' = Some l"
  shows "l \<in> ex ! b"
proof -
  have "en ! t = entry_set ir t (ex ! t)" "sent_set ir t (en ! t) b \<subseteq> ex ! b"
    using s reachable_step [OF b(1,2)] b(1,2) unfolding live_settled_def by blast+
  then show ?thesis
    using b(3,4) by (auto simp: sent_set_def)
qed

lemma settled_live:
  assumes inv: "live_inv ir (en, ex)" and s: "\<forall>t \<in> reachable_blocks ir. live_settled ir en ex t"
    and C: "cfg_closed ir" and b: "b \<in> reachable_blocks ir" and k: "k \<le> length (ops_of ir b)"
  shows "live_at ir b k l \<longleftrightarrow> l \<in> live_from ir (drop k (ops_of ir b)) (ex ! b \<union> the (end_reads ir b))"
proof
  show "l \<in> live_from ir (drop k (ops_of ir b)) (ex ! b \<union> the (end_reads ir b))" if "live_at ir b k l"
    by (rule conjunct2 [OF live_from_complete [where E = "(!) ex", OF that b]]) (blast intro: reachable_step settled_sends [OF s])+
  have "\<forall>l \<in> ex ! b. live_out ir b l"
    using inv reachable_in_range [OF C b] by (simp add: live_inv_def)
  then show "l \<in> live_from ir (drop k (ops_of ir b)) (ex ! b \<union> the (end_reads ir b)) \<Longrightarrow> live_at ir b k l"
    using live_from_sound k by blast
qed

lemma settled_is_liveness:
  assumes inv: "live_inv ir (en, ex)" and s: "\<forall>t \<in> reachable_blocks ir. live_settled ir en ex t"
    and C: "cfg_closed ir" and b: "b \<in> reachable_blocks ir"
  shows "l \<in> en ! b \<longleftrightarrow> live_at ir b 0 l" and "l \<in> ex ! b \<longleftrightarrow> live_out ir b l"
proof -
  have entry: "l \<in> en ! t \<longleftrightarrow> live_at ir t 0 l" "en ! t = entry_set ir t (ex ! t)" if t: "t \<in> reachable_blocks ir" for t l
  proof -
    show "en ! t = entry_set ir t (ex ! t)"
      using s t unfolding live_settled_def by blast
    then show "l \<in> en ! t \<longleftrightarrow> live_at ir t 0 l"
      using settled_live [OF inv s C t, of 0 l] by (simp add: entry_set_def)
  qed
  show "l \<in> en ! b \<longleftrightarrow> live_at ir b 0 l"
    by (rule entry(1) [OF b])
  have "l \<in> ex ! b" if out: "live_out ir b l"
  proof -
    obtain t l' where t: "edge ir b t" "live_at ir t 0 l'" "sent ir b t l' = Some l"
      using out by (auto simp: live_out_def)
    then show ?thesis
      using settled_sends [OF s b t(1) _ t(3)] entry [OF reachable_step [OF b t(1)]] by metis
  qed
  then show "l \<in> ex ! b \<longleftrightarrow> live_out ir b l"
    using inv reachable_in_range [OF C b] unfolding live_inv_def by auto
qed

section \<open>Intervals\<close>

text \<open>The intervals of a local in a block, and the operations after which they say it is live.\<close>

definition intervals_in :: "nat \<Rightarrow> (nat \<times> interval) list list \<Rightarrow> nat \<Rightarrow> interval set" where
  "intervals_in b ivs l = {iv. (b, iv) \<in> set (ivs ! l)}"

fun ends_after :: "interval_end \<Rightarrow> nat \<Rightarrow> bool" where
  "ends_after BlockEnd i \<longleftrightarrow> True"
| "ends_after (EndAt m) i \<longleftrightarrow> i < m"

fun starts_by :: "interval_start \<Rightarrow> nat \<Rightarrow> bool" where
  "starts_by BlockStart i \<longleftrightarrow> True"
| "starts_by (StartAt m) i \<longleftrightarrow> m \<le> i"

definition covers :: "interval \<Rightarrow> nat \<Rightarrow> bool" where
  "covers iv i \<longleftrightarrow> starts_by (iv_start iv) i \<and> ends_after (iv_end iv) i"

text \<open>\<open>ivs'\<close> is \<open>ivs\<close> with the intervals \<open>N l\<close> of the block \<open>b\<close> added.\<close>

definition adds :: "nat \<Rightarrow> (nat \<Rightarrow> interval set) \<Rightarrow> (nat \<times> interval) list list \<Rightarrow> (nat \<times> interval) list list \<Rightarrow> bool" where
  "adds b N ivs ivs' \<longleftrightarrow> length ivs' = length ivs
     \<and> (\<forall>l < length ivs. \<forall>c. intervals_in c ivs' l = intervals_in c ivs l \<union> (if c = b then N l else {}))"

lemma adds_none: "adds b (\<lambda>_. {}) ivs ivs"
  by (simp add: adds_def)

lemma adds_trans: "adds b M ivs ivs' \<Longrightarrow> adds b N ivs' ivs'' \<Longrightarrow> adds b (\<lambda>l. M l \<union> N l) ivs ivs''"
  by (auto simp: adds_def)

lemma adds_cong: "adds b M ivs ivs' \<Longrightarrow> (\<And>l. l < length ivs \<Longrightarrow> M l = N l) \<Longrightarrow> adds b N ivs ivs'"
  by (simp add: adds_def)

lemma push_interval_adds:
  "l < length ivs \<Longrightarrow> \<exists>ivs'. push_interval b l iv ivs = Some ivs' \<and> adds b (\<lambda>x. if x = l then {iv} else {}) ivs ivs'"
  by (auto simp: push_interval_def iv_index_def iv_set_def adds_def intervals_in_def nth_list_update)

text \<open>The intervals from \<open>s\<close> that the locals of \<open>L\<close> get from their ends.\<close>

definition ended :: "interval_start \<Rightarrow> nat set \<Rightarrow> (nat \<rightharpoonup> interval_end) \<Rightarrow> nat \<Rightarrow> interval set" where
  "ended s L ends l = {\<lparr>iv_start = s, iv_end = e\<rparr> |e. l \<in> L \<and> ends l = Some e}"

lemma ended_empty: "ended s {} ends = (\<lambda>_. {})"
  by (simp add: ended_def fun_eq_iff)

lemma ended_old: "x \<in> L \<or> ends x = None \<Longrightarrow> ended s (insert x L) ends = ended s L ends"
  by (auto simp: ended_def fun_eq_iff)

lemma ended_new:
  "ends x = Some e \<Longrightarrow> (\<lambda>l. ended s L ends l \<union> (if l = x then {\<lparr>iv_start = s, iv_end = e\<rparr>} else {})) = ended s (insert x L) ends"
  by (auto simp: ended_def fun_eq_iff)

lemma push_ended:
  assumes "adds b (ended s L ends) ivs ivs'" and "x < length ivs" and "ends x = Some e"
  shows "\<exists>ivs''. push_interval b x \<lparr>iv_start = s, iv_end = e\<rparr> ivs' = Some ivs'' \<and> adds b (ended s (insert x L) ends) ivs ivs''"
proof -
  have "x < length ivs'"
    using assms(1,2) by (simp add: adds_def)
  then obtain ivs'' where p: "push_interval b x \<lparr>iv_start = s, iv_end = e\<rparr> ivs' = Some ivs''"
      "adds b (\<lambda>l. if l = x then {\<lparr>iv_start = s, iv_end = e\<rparr>} else {}) ivs' ivs''"
    using push_interval_adds by blast
  then show ?thesis
    using adds_trans [OF assms(1) p(2)] by (simp only: ended_new [where ends = ends, OF assms(3)]) blast
qed

lemma close_intervals:
  assumes "\<forall>l \<in> set ls. l < length ivs"
  shows "\<exists>ivs'. fold_panics (close_interval b i) ls (ends, ivs) = Some (\<lambda>l. if l \<in> set ls then None else ends l, ivs')
    \<and> adds b (ended (StartAt i) (set ls) ends) ivs ivs'"
  using assms
proof (induction ls rule: rev_induct)
  case (snoc x xs)
  then obtain ivs' where run: "fold_panics (close_interval b i) xs (ends, ivs) = Some (\<lambda>l. if l \<in> set xs then None else ends l, ivs')"
    and a: "adds b (ended (StartAt i) (set xs) ends) ivs ivs'"
    by auto
  show ?case
  proof (cases "x \<in> set xs \<or> ends x = None")
    case True
    have "(\<lambda>l. if l \<in> set (xs @ [x]) then None else ends l) = (\<lambda>l. if l \<in> set xs then None else ends l)"
      using True by auto
    moreover have "close_interval b i x (\<lambda>l. if l \<in> set xs then None else ends l, ivs') = Some (\<lambda>l. if l \<in> set xs then None else ends l, ivs')"
      using True by (auto simp: close_interval_def)
    ultimately show ?thesis
      using run a ended_old [where ends = ends, OF True] by simp
  next
    case False
    then obtain e where e: "ends x = Some e" "x \<notin> set xs"
      by auto
    then obtain ivs'' where p: "push_interval b x \<lparr>iv_start = StartAt i, iv_end = e\<rparr> ivs' = Some ivs''"
        "adds b (ended (StartAt i) (insert x (set xs)) ends) ivs ivs''"
      using push_ended [OF a _ e(1)] snoc.prems by auto
    moreover have "(\<lambda>l. if l \<in> set xs then None else ends l)(x := None) = (\<lambda>l. if l \<in> set (xs @ [x]) then None else ends l)"
      by auto
    ultimately have "close_interval b i x (\<lambda>l. if l \<in> set xs then None else ends l, ivs') = Some (\<lambda>l. if l \<in> set (xs @ [x]) then None else ends l, ivs'')"
      using e by (simp add: close_interval_def)
    then show ?thesis
      using run p(2) by simp
  qed
qed (auto simp: adds_none ended_empty)

lemma open_intervals: "fold (open_interval i) ins ends l = (if ends l = None \<and> l \<in> set ins then Some (EndAt i) else ends l)"
  by (induction ins arbitrary: ends) (auto simp: open_interval_def split: option.splits)

lemma start_intervals:
  assumes "\<forall>l \<in> set ls. l < length ivs"
  shows "\<exists>ivs'. fold_panics (start_interval b ends) ls ivs = Some ivs' \<and> adds b (ended BlockStart (set ls) ends) ivs ivs'"
  using assms
proof (induction ls rule: rev_induct)
  case (snoc x xs)
  then obtain ivs' where run: "fold_panics (start_interval b ends) xs ivs = Some ivs'"
    and a: "adds b (ended BlockStart (set xs) ends) ivs ivs'"
    by auto
  show ?case
  proof (cases "ends x")
    case None
    then have "start_interval b ends x ivs' = Some ivs'"
      by (simp add: start_interval_def)
    then show ?thesis
      using run a None ended_old [of x "set xs" ends] by simp
  next
    case (Some e)
    then obtain ivs'' where p: "start_interval b ends x ivs' = Some ivs''" "adds b (ended BlockStart (insert x (set xs)) ends) ivs ivs''"
      using push_ended [OF a _ Some] snoc.prems by (auto simp: start_interval_def)
    then show ?thesis
      using run by simp
  qed
qed (simp add: adds_none ended_empty)

text \<open>The state of the sweep before the operations \<open>is\<close> of block \<open>b\<close>, which reads the locals \<open>X\<close> at its end.\<close>

definition swept :: "eth_ir_program \<Rightarrow> nat \<Rightarrow> nat set \<Rightarrow> (nat \<times> interval) list list \<Rightarrow> nat list \<Rightarrow>
    (nat \<rightharpoonup> interval_end) \<times> (nat \<times> interval) list list \<Rightarrow> bool" where
  "swept ir b X ivs0 is s \<longleftrightarrow> (case s of (ends, ivs) \<Rightarrow>
     (\<exists>N. adds b N ivs0 ivs \<and> (\<forall>l < length ivs0. \<forall>iv \<in> N l. \<exists>j \<in> set is. iv_start iv = StartAt j)
       \<and> (\<forall>l < length ivs0. \<forall>k < length is. l \<in> live_from ir (drop (Suc k) is) X \<longleftrightarrow>
            (\<exists>iv \<in> N l. covers iv (is ! k)) \<or> (\<exists>e. ends l = Some e \<and> ends_after e (is ! k))))
     \<and> dom ends = live_from ir is X \<and> (\<forall>l m. ends l = Some (EndAt m) \<longrightarrow> m \<in> set is))"


lemma swept_step:
  assumes sw: "swept ir b X ivs0 is (ends, ivs)" and i: "\<forall>j \<in> set is. i < j"
    and bound: "length ivs0 = m" "\<forall>l \<in> set (op_defs ir i). l < m"
    and views: "opview_inputs ir i = Some (op_reads ir i)" "opview_outputs ir i = Some (op_defs ir i)"
  shows "\<exists>s'. intervals_op ir b i (ends, ivs) = Some s' \<and> swept ir b X ivs0 (i # is) s'"
proof -
  obtain N where N: "adds b N ivs0 ivs" "\<And>l iv. l < length ivs0 \<Longrightarrow> iv \<in> N l \<Longrightarrow> \<exists>j \<in> set is. iv_start iv = StartAt j"
    "\<And>l k. l < length ivs0 \<Longrightarrow> k < length is \<Longrightarrow> l \<in> live_from ir (drop (Suc k) is) X \<longleftrightarrow>
            (\<exists>iv \<in> N l. covers iv (is ! k)) \<or> (\<exists>e. ends l = Some e \<and> ends_after e (is ! k))"
    and E: "dom ends = live_from ir is X" "\<And>l m. ends l = Some (EndAt m) \<Longrightarrow> m \<in> set is"
    using sw by (auto simp: swept_def)
  let ?D = "set (op_defs ir i)" let ?mid = "\<lambda>l. if l \<in> ?D then None else ends l"
  let ?ends = "fold (open_interval i) (op_reads ir i) ?mid" let ?N = "\<lambda>l. N l \<union> ended (StartAt i) ?D ends l"
  obtain ivs' where c: "fold_panics (close_interval b i) (op_defs ir i) (ends, ivs) = Some (?mid, ivs')"
      "adds b (ended (StartAt i) ?D ends) ivs ivs'"
    using close_intervals [of "op_defs ir i" ivs b i ends] bound N(1) by (auto simp: adds_def)
  have "intervals_op ir b i (ends, ivs) = Some (?ends, ivs')"
    using views c(1) by (simp add: intervals_op_def)
  moreover have "adds b ?N ivs0 ivs'"
    by (rule adds_trans [OF N(1) c(2)])
  moreover have "\<exists>j \<in> set (i # is). iv_start iv = StartAt j" if "l < length ivs0" "iv \<in> ?N l" for l iv
    using that N(2) by (auto simp: ended_def)
  moreover have "l \<in> live_from ir (drop (Suc k) (i # is)) X \<longleftrightarrow>
      (\<exists>iv \<in> ?N l. covers iv ((i # is) ! k)) \<or> (\<exists>e. ?ends l = Some e \<and> ends_after e ((i # is) ! k))"
    if l: "l < length ivs0" and k: "k < length (i # is)" for l k
  proof (cases k)
    case 0
    have "ends_after e i" if "ends l = Some e" for e
      using E(2) [of l] i that by (cases e) auto
    moreover have "\<not> covers iv i" if "iv \<in> N l" for iv
      using N(2) [OF l that] i by (auto simp: covers_def)
    moreover have "(\<exists>iv \<in> ended (StartAt i) ?D ends l. covers iv i) \<longleftrightarrow> l \<in> ?D \<and> (\<exists>e. ends l = Some e \<and> ends_after e i)"
      by (auto simp: ended_def covers_def)
    moreover have "l \<in> live_from ir is X \<longleftrightarrow> (\<exists>e. ends l = Some e)"
      using E(1) by blast
    ultimately show ?thesis
      using 0 by (auto simp: open_intervals split: if_splits)
  next
    case (Suc k')
    then have k': "k' < length is" "i < is ! k'"
      using k i by auto
    then have "(\<exists>iv \<in> ended (StartAt i) ?D ends l. covers iv (is ! k')) \<longleftrightarrow> l \<in> ?D \<and> (\<exists>e. ends l = Some e \<and> ends_after e (is ! k'))"
      by (auto simp: ended_def covers_def)
    moreover have "(\<exists>e. ?ends l = Some e \<and> ends_after e (is ! k')) \<longleftrightarrow> l \<notin> ?D \<and> (\<exists>e. ends l = Some e \<and> ends_after e (is ! k'))"
      using k'(2) by (auto simp: open_intervals)
    ultimately show ?thesis
      using Suc N(3) [OF l k'(1)] by (simp add: bex_Un) blast
  qed
  moreover have "dom ?ends = live_from ir (i # is) X"
    using E(1) by (auto simp: open_intervals dom_def set_eq_iff)
  moreover have "m \<in> set (i # is)" if "?ends l = Some (EndAt m)" for l m
    using that E(2) [of l m] by (auto simp: open_intervals split: if_splits)
  ultimately show ?thesis
    unfolding swept_def by (intro exI [of _ "(?ends, ivs')"]) (simp only: prod.case, blast)
qed

lemma sweep_ops:
  assumes "\<And>i. i \<in> set is \<Longrightarrow> opview_inputs ir i = Some (op_reads ir i) \<and> opview_outputs ir i = Some (op_defs ir i) \<and> (\<forall>l \<in> set (op_defs ir i). l < length ivs)"
    and "sorted_wrt (<) is"
  shows "\<exists>s'. fold_panics (intervals_op ir b) (rev is) (\<lambda>l. if l \<in> X then Some BlockEnd else None, ivs) = Some s' \<and> swept ir b X ivs is s'"
  using assms
proof (induction "is")
  case Nil
  show ?case
    by (auto simp: swept_def dom_def adds_none split: if_splits intro!: exI [of _ "\<lambda>_. {}"])
next
  case (Cons i "is")
  then obtain ends ivs' where run: "fold_panics (intervals_op ir b) (rev is) (\<lambda>l. if l \<in> X then Some BlockEnd else None, ivs) = Some (ends, ivs')"
      "swept ir b X ivs is (ends, ivs')"
    by auto
  then show ?case
    using swept_step [OF run(2) _ refl] Cons.prems(1) [of i] Cons.prems(2) by fastforce
qed


text \<open>The intervals of block \<open>b\<close> cover the operations after which a local is live.\<close>

definition covered :: "eth_ir_program \<Rightarrow> nat set list \<Rightarrow> nat \<Rightarrow> (nat \<Rightarrow> interval set) \<Rightarrow> bool" where
  "covered ir exits b N \<longleftrightarrow>
     (\<forall>l < ir_next_free_local_id ir. \<forall>k < length (ops_of ir b).
        l \<in> live_from ir (drop (Suc k) (ops_of ir b)) (exits ! b \<union> the (end_reads ir b))
        \<longleftrightarrow> (\<exists>iv \<in> N l. covers iv (ops_of ir b ! k)))"

lemma intervals_block_run:
  assumes ir: "legal ir" "outputs_in_range ir" and b: "b < length (ir_basic_blocks ir)" and ord: "lists_sets ord"
    and ex: "length exits = length (ir_basic_blocks ir)" "exits ! b \<subseteq> {..<ir_next_free_local_id ir}"
    and ivs: "length ivs = ir_next_free_local_id ir"
  shows "\<exists>ivs' N. intervals_block ord ir exits b ivs = Some ivs' \<and> adds b N ivs ivs' \<and> covered ir exits b N"
proof -
  note V = legal_views [OF ir b]
  let ?X = "exits ! b \<union> the (end_reads ir b)"
  have "span_iter (bb_operations (ir_basic_blocks ir ! b)) = Some (ops_of ir b)"
    using V(1) b by (simp add: block_operations_def iv_index_def)
  then have sorted: "sorted_wrt (<) (ops_of ir b)"
    using span_iter_SomeD by fastforce
  obtain ends ivs1 where run: "fold_panics (intervals_op ir b) (rev (ops_of ir b)) (\<lambda>l. if l \<in> ?X then Some BlockEnd else None, ivs) = Some (ends, ivs1)"
    and sw: "swept ir b ?X ivs (ops_of ir b) (ends, ivs1)"
    using sweep_ops [OF _ sorted, of ir ivs b ?X] V(3) ivs by auto
  obtain N where N: "adds b N ivs ivs1"
    and cov: "\<And>l k. l < length ivs \<Longrightarrow> k < length (ops_of ir b) \<Longrightarrow> l \<in> live_from ir (drop (Suc k) (ops_of ir b)) ?X \<longleftrightarrow>
            (\<exists>iv \<in> N l. covers iv (ops_of ir b ! k)) \<or> (\<exists>e. ends l = Some e \<and> ends_after e (ops_of ir b ! k))"
    and E: "dom ends = live_from ir (ops_of ir b) ?X"
    using sw by (auto simp: swept_def)
  have dom: "dom ends \<subseteq> {..<ir_next_free_local_id ir}"
    using entry_run(2) [OF ir b ex(2)] E by (simp add: entry_set_def)
  then have "set (ord (dom ends)) = dom ends"
    using ord finite_subset [OF dom] by (simp add: lists_sets_def)
  moreover have "length ivs1 = ir_next_free_local_id ir"
    using N ivs by (simp add: adds_def)
  ultimately obtain ivs' where s: "fold_panics (start_interval b ends) (ord (dom ends)) ivs1 = Some ivs'"
      "adds b (ended BlockStart (dom ends) ends) ivs1 ivs'"
    using start_intervals [of "ord (dom ends)" ivs1 b ends] dom by auto
  have "intervals_block ord ir exits b ivs = Some ivs'"
    using V(2,4) run s(1) b ex(1) by (auto simp: intervals_block_def iv_index_def)
  moreover have "(\<exists>iv \<in> ended BlockStart (dom ends) ends l. covers iv i) \<longleftrightarrow> (\<exists>e. ends l = Some e \<and> ends_after e i)" for l i
    by (auto simp: ended_def covers_def)
  then have "covered ir exits b (\<lambda>l. N l \<union> ended BlockStart (dom ends) ends l)"
    using cov ivs by (simp add: covered_def bex_Un)
  ultimately show ?thesis
    using adds_trans [OF N s(2)] by blast
qed

lemma covered_cong: "(\<And>l. l < ir_next_free_local_id ir \<Longrightarrow> M l = N l) \<Longrightarrow> covered ir exits b M \<longleftrightarrow> covered ir exits b N"
  by (simp add: covered_def)

lemma intervals_run:
  assumes ir: "legal ir" "outputs_in_range ir" and ord: "lists_sets ord"
    and ex: "length exits = length (ir_basic_blocks ir)" "\<And>b. b < length (ir_basic_blocks ir) \<Longrightarrow> exits ! b \<subseteq> {..<ir_next_free_local_id ir}"
  shows "n \<le> length (ir_basic_blocks ir) \<Longrightarrow>
    \<exists>ivs. fold_panics (intervals_block ord ir exits) [0..<n] (replicate (ir_next_free_local_id ir) []) = Some ivs
      \<and> length ivs = ir_next_free_local_id ir \<and> (\<forall>b < n. covered ir exits b (intervals_in b ivs))
      \<and> (\<forall>b \<ge> n. \<forall>l < ir_next_free_local_id ir. intervals_in b ivs l = {})"
proof (induction n)
  case 0
  then show ?case
    by (simp add: intervals_in_def)
next
  case (Suc n)
  then obtain ivs where run: "fold_panics (intervals_block ord ir exits) [0..<n] (replicate (ir_next_free_local_id ir) []) = Some ivs"
    and ivs: "length ivs = ir_next_free_local_id ir" "\<forall>b < n. covered ir exits b (intervals_in b ivs)"
      "\<forall>b \<ge> n. \<forall>l < ir_next_free_local_id ir. intervals_in b ivs l = {}"
    by auto
  obtain ivs' N where s: "intervals_block ord ir exits n ivs = Some ivs'" "adds n N ivs ivs'" "covered ir exits n N"
    using intervals_block_run [OF ir _ ord ex(1) ex(2) ivs(1), of n] Suc.prems by auto
  have new: "length ivs' = length ivs" "intervals_in c ivs' l = intervals_in c ivs l \<union> (if c = n then N l else {})"
    if "l < ir_next_free_local_id ir" for c l
    using s(2) that ivs(1) by (auto simp: adds_def)
  have "covered ir exits b (intervals_in b ivs')" if "b < Suc n" for b
  proof (cases "b = n")
    case True
    then show ?thesis
      using s(3) covered_cong [of ir "intervals_in b ivs'" N exits b] new(2) ivs(3) by simp
  next
    case False
    then show ?thesis
      using that ivs(2) covered_cong [of ir "intervals_in b ivs'" "intervals_in b ivs" exits b] new(2) by simp
  qed
  moreover have "length ivs' = ir_next_free_local_id ir"
    using s(2) ivs(1) by (simp add: adds_def)
  ultimately show ?case
    using run s(1) ivs(3) new(2) by simp
qed

lemma local_liveness_run:
  assumes ir: "legal ir" "outputs_in_range ir" "cfg_closed ir" and ord: "lists_sets ord"
    and rpo: "compute_rpo rfuel ir = Some rpo" "length (ir_basic_blocks ir) < rfuel"
    and preds: "compute_predecessors ir (reachable_blocks ir) inner = Some preds"
    and fuel: "length (ir_basic_blocks ir) * ir_next_free_local_id ir < fuel"
  shows "\<exists>L. compute_local_liveness fuel ord ir preds rpo = Some L
    \<and> (\<forall>b \<in> reachable_blocks ir. \<forall>l.
         (l \<in> ll_entry L ! b \<longleftrightarrow> live_at ir b 0 l) \<and> (l \<in> ll_exit L ! b \<longleftrightarrow> live_out ir b l)
         \<and> (\<forall>k < length (ops_of ir b). l < ir_next_free_local_id ir \<longrightarrow>
              (live_at ir b (Suc k) l \<longleftrightarrow> (\<exists>iv. (b, iv) \<in> set (ll_intervals L ! l) \<and> covers iv (ops_of ir b ! k)))))"
proof -
  let ?n = "length (ir_basic_blocks ir)" and ?R = "reachable_blocks ir"
  obtain Qs where Qs: "length Qs = length (ir_functions ir)" "rpo_slices ir Qs" "rp_global rpo = rev (concat Qs)"
    using rpo_run [OF ir(3) rpo(2)] rpo(1) by (metis option.inject reverse_post_order.select_convs(2))
  have post: "set (global_post_order rpo) = ?R"
    using concat_slices(2) [OF Qs(2,1)] Qs(3) by (simp add: global_post_order_def)
  have P: "length preds = ?n" "\<And>t. t \<in> ?R \<Longrightarrow> set (preds ! t) = {p. p \<in> ?R \<and> edge ir p t}"
    using preds predecessors_run [OF ir(3), of ?R inner] set_predecessors reachable_in_range [OF ir(3)] by auto
  have "live_inv ir (replicate ?n {}, replicate ?n {})"
    by (simp add: live_inv_def)
  then obtain en ex where loop: "liveness_loop fuel ord ir preds (global_post_order rpo) (replicate ?n {}, replicate ?n {}) = Some (en, ex)"
    and inv: "live_inv ir (en, ex)" and s: "\<forall>t \<in> ?R. live_settled ir en ex t"
    using liveness_loop_run [OF ir ord post P(2) P(1), of "replicate ?n {}" "replicate ?n {}" fuel] post fuel by auto
  have ex: "length ex = ?n" "\<And>b. b < ?n \<Longrightarrow> ex ! b \<subseteq> {..<ir_next_free_local_id ir}"
    using inv by (auto simp: live_inv_def)
  obtain ivs where ivs: "fold_panics (intervals_block ord ir ex) [0..<?n] (replicate (ir_next_free_local_id ir) []) = Some ivs"
      "\<forall>b < ?n. covered ir ex b (intervals_in b ivs)"
    using intervals_run [OF ir(1,2) ord ex order_refl] by blast
  have L: "compute_local_liveness fuel ord ir preds rpo = Some \<lparr>ll_intervals = ivs, ll_entry = en, ll_exit = ex\<rparr>"
    using loop ivs(1) by (simp add: compute_local_liveness_def)
  have at: "live_at ir b (Suc k) l \<longleftrightarrow> (\<exists>iv. (b, iv) \<in> set (ivs ! l) \<and> covers iv (ops_of ir b ! k))"
    if "b \<in> ?R" "k < length (ops_of ir b)" "l < ir_next_free_local_id ir" for b k l
    using settled_live [OF inv s ir(3) that(1), of "Suc k" l] ivs(2) reachable_in_range [OF ir(3) that(1)] that(2,3)
    by (simp add: covered_def intervals_in_def)
  show ?thesis
    using L settled_is_liveness [OF inv s ir(3)] at by simp
qed


section \<open>The property\<close>


lemma straight_outputs: "outputs_in_range straight"
  by (auto simp: outputs_in_range_def straight_fields less_Suc_eq numeral_2_eq_2 block_outputs_def iv_index_def iv_index_span_def
      slice_of_def span_new_def)


end
