(* ===== verification/Def_Use_Correct.thy ===== *)
theory Def_Use_Correct
  imports Legal_Views Def_Use
begin

text \<open>
  The def-use chains of an accepted program hold, for every local, exactly the places that read it.
\<close>

fun reads_at :: "eth_ir_program \<Rightarrow> nat \<Rightarrow> use_kind \<Rightarrow> nat \<Rightarrow> bool" where
  "reads_at ir b (UseOperation i) l \<longleftrightarrow> i \<in> set (ops_of ir b) \<and> l \<in> set (op_reads ir i)"
| "reads_at ir b UseControl l \<longleftrightarrow> l \<in> control_condition (the (block_control ir b))"
| "reads_at ir b (UseBlockOutput j) l \<longleftrightarrow> j < length (the (block_outputs ir b)) \<and> the (block_outputs ir b) ! j = l"

text \<open>\<open>uses'\<close> is \<open>uses\<close> with the places \<open>N l\<close> added for every local.\<close>

definition records :: "(nat \<Rightarrow> use_location set) \<Rightarrow> def_use \<Rightarrow> def_use \<Rightarrow> bool" where
  "records N uses uses' \<longleftrightarrow>
     length uses' = length uses \<and> (\<forall>l < length uses. set (uses' ! l) = set (uses ! l) \<union> N l)"

lemma records_none: "records (\<lambda>_. {}) uses uses"
  by (simp add: records_def)

lemma records_trans: "records M uses uses' \<Longrightarrow> records N uses' uses'' \<Longrightarrow> records (\<lambda>l. M l \<union> N l) uses uses''"
  by (auto simp: records_def)

lemma records_cong: "records M uses uses' \<Longrightarrow> (\<And>l. l < length uses \<Longrightarrow> M l = N l) \<Longrightarrow> records N uses uses'"
  by (simp add: records_def)

lemma push_use_records:
  "l < length uses \<Longrightarrow> \<exists>uses'. push_use b k l uses = Some uses'
     \<and> records (\<lambda>x. {u. x = l \<and> u = \<lparr>ul_block_id = b, ul_kind = k\<rparr>}) uses uses'"
  by (auto simp: push_use_def iv_index_def iv_set_def records_def nth_list_update)

text \<open>A loop each step of which records some places.\<close>

lemma fold_records:
  assumes "\<And>x uses. x \<in> set xs \<Longrightarrow> length uses = n \<Longrightarrow> \<exists>uses'. f x uses = Some uses' \<and> records (N x) uses uses'"
    and "length uses = n"
  shows "\<exists>uses'. fold_panics f xs uses = Some uses' \<and> records (\<lambda>l. \<Union>x \<in> set xs. N x l) uses uses'"
  using assms
proof (induction xs rule: rev_induct)
  case (snoc x xs)
  then obtain u where u: "fold_panics f xs uses = Some u" "records (\<lambda>l. \<Union>x \<in> set xs. N x l) uses u"
    by auto
  then have "length u = n"
    using snoc.prems(2) by (simp add: records_def)
  then obtain v where v: "f x u = Some v" "records (N x) u v"
    using snoc.prems(1) by auto
  have "records (\<lambda>l. \<Union>x \<in> set (xs @ [x]). N x l) uses v"
    by (rule records_cong [OF records_trans [OF u(2) v(2)]]) auto
  then show ?case
    using u(1) v(1) by simp
qed (simp add: records_none)

lemma push_uses_records:
  assumes "\<forall>l \<in> set ls. l < length uses"
  shows "\<exists>uses'. fold_panics (push_use b k) ls uses = Some uses'
    \<and> records (\<lambda>x. {u. x \<in> set ls \<and> u = \<lparr>ul_block_id = b, ul_kind = k\<rparr>}) uses uses'"
proof -
  obtain u where u: "fold_panics (push_use b k) ls uses = Some u"
      "records (\<lambda>x. \<Union>l \<in> set ls. {u. x = l \<and> u = \<lparr>ul_block_id = b, ul_kind = k\<rparr>}) uses u"
    using fold_records [where f = "push_use b k" and n = "length uses" and xs = ls and uses = uses
        and N = "\<lambda>l x. {u. x = l \<and> u = \<lparr>ul_block_id = b, ul_kind = k\<rparr>}"] push_use_records assms
    by auto
  have "records (\<lambda>x. {u. x \<in> set ls \<and> u = \<lparr>ul_block_id = b, ul_kind = k\<rparr>}) uses u"
    by (rule records_cong [OF u(2)]) auto
  then show ?thesis
    using u(1) by blast
qed

lemma block_uses_records:
  assumes ir: "legal ir" "outputs_in_range ir" and b: "b < length (ir_basic_blocks ir)" and len: "length uses = ir_next_free_local_id ir"
  shows "\<exists>uses'. block_uses ir b uses = Some uses' \<and> records (\<lambda>l. {u. ul_block_id u = b \<and> reads_at ir b (ul_kind u) l}) uses uses'"
proof -
  note V = legal_views [OF ir b]
  have "legal_block ir b"
    using ir(1) b by (simp add: legal_def)
  then obtain c where c: "block_control ir b = Some c" "\<forall>l \<in> control_condition c. l < ir_next_free_local_id ir"
    unfolding legal_block_def by blast
  obtain os where os: "block_outputs ir b = Some os" "\<forall>l \<in> set os. l < ir_next_free_local_id ir"
    using V(6) by blast
  let ?loc = "\<lambda>k. \<lparr>ul_block_id = b, ul_kind = k\<rparr>"
  obtain u1 where u1: "fold_panics (\<lambda>i uses. do { ins \<leftarrow> opview_inputs ir i; fold_panics (push_use b (UseOperation i)) ins uses }) (ops_of ir b) uses = Some u1"
      "records (\<lambda>l. \<Union>i \<in> set (ops_of ir b). {u. l \<in> set (op_reads ir i) \<and> u = ?loc (UseOperation i)}) uses u1"
    using fold_records [where n = "ir_next_free_local_id ir" and xs = "ops_of ir b" and uses = uses
        and f = "\<lambda>i uses. do { ins \<leftarrow> opview_inputs ir i; fold_panics (push_use b (UseOperation i)) ins uses }"
        and N = "\<lambda>i l. {u. l \<in> set (op_reads ir i) \<and> u = ?loc (UseOperation i)}"] push_uses_records V(3) len
    by fastforce
  have l1: "length u1 = ir_next_free_local_id ir"
    using u1(2) len by (simp add: records_def)
  obtain u2 where u2: "(case c of Branches br \<Rightarrow> push_use b UseControl (br_condition br) u1
            | Switch sw \<Rightarrow> push_use b UseControl (sw_condition sw) u1 | _ \<Rightarrow> Some u1) = Some u2"
      "records (\<lambda>l. {u. l \<in> control_condition c \<and> u = ?loc UseControl}) u1 u2"
    using push_use_records [of _ u1 b UseControl] c(2) l1 records_none
    by (cases c) (auto simp: control_condition_def)
  have l2: "length u2 = ir_next_free_local_id ir"
    using u2(2) l1 by (simp add: records_def)
  obtain u3 where u3: "fold_panics (\<lambda>(idx, l). push_use b (UseBlockOutput idx) l) (enumerate 0 os) u2 = Some u3"
      "records (\<lambda>l. \<Union>x \<in> set (enumerate 0 os). {u. l = snd x \<and> u = ?loc (UseBlockOutput (fst x))}) u2 u3"
    using fold_records [where n = "ir_next_free_local_id ir" and xs = "enumerate 0 os" and uses = u2
        and f = "\<lambda>(idx, l). push_use b (UseBlockOutput idx) l" and N = "\<lambda>x l. {u. l = snd x \<and> u = ?loc (UseBlockOutput (fst x))}"]
      push_use_records os(2) l2
    by (fastforce simp: in_set_enumerate_eq)
  have "block_uses ir b uses = Some u3"
    using V(1) u1(1) c(1) u2(1) os(1) u3(1) by (simp add: block_uses_def)
  moreover have "records (\<lambda>l. {u. ul_block_id u = b \<and> reads_at ir b (ul_kind u) l}) uses u3"
  proof (rule records_cong [OF records_trans [OF records_trans [OF u1(2) u2(2)] u3(2)]])
    show "(\<Union>i \<in> set (ops_of ir b). {u. l \<in> set (op_reads ir i) \<and> u = ?loc (UseOperation i)})
        \<union> {u. l \<in> control_condition c \<and> u = ?loc UseControl}
        \<union> (\<Union>x \<in> set (enumerate 0 os). {u. l = snd x \<and> u = ?loc (UseBlockOutput (fst x))})
      = {u. ul_block_id u = b \<and> reads_at ir b (ul_kind u) l}" for l
    proof (rule set_eqI)
      fix u :: use_location
      obtain b' k where "u = \<lparr>ul_block_id = b', ul_kind = k\<rparr>"
        by (cases u)
      then show "u \<in> (\<Union>i \<in> set (ops_of ir b). {u. l \<in> set (op_reads ir i) \<and> u = ?loc (UseOperation i)})
        \<union> {u. l \<in> control_condition c \<and> u = ?loc UseControl}
        \<union> (\<Union>x \<in> set (enumerate 0 os). {u. l = snd x \<and> u = ?loc (UseBlockOutput (fst x))})
        \<longleftrightarrow> u \<in> {u. ul_block_id u = b \<and> reads_at ir b (ul_kind u) l}"
        using c(1) os(1) by (cases k) (auto simp: in_set_enumerate_eq intro!: bexI [of _ "(j, os ! j)" for j])
    qed
  qed
  ultimately show ?thesis
    by blast
qed

lemma def_use_run:
  assumes ir: "legal ir" "outputs_in_range ir"
  obtains uses where "compute_def_use ir = Some uses" "length uses = ir_next_free_local_id ir"
    "\<And>l u. l < ir_next_free_local_id ir \<Longrightarrow>
       u \<in> set (uses ! l) \<longleftrightarrow> ul_block_id u < length (ir_basic_blocks ir) \<and> reads_at ir (ul_block_id u) (ul_kind u) l"
proof -
  let ?start = "replicate (ir_next_free_local_id ir) []"
  obtain uses where run: "fold_panics (block_uses ir) [0..<length (ir_basic_blocks ir)] ?start = Some uses"
    and r: "records (\<lambda>l. \<Union>b \<in> set [0..<length (ir_basic_blocks ir)]. {u. ul_block_id u = b \<and> reads_at ir b (ul_kind u) l}) ?start uses"
    using fold_records [where f = "block_uses ir" and n = "ir_next_free_local_id ir" and uses = ?start
        and xs = "[0..<length (ir_basic_blocks ir)]"
        and N = "\<lambda>b l. {u. ul_block_id u = b \<and> reads_at ir b (ul_kind u) l}"] block_uses_records [OF ir] by auto
  show ?thesis
    by (rule that [of uses]) (use run r in \<open>auto simp: compute_def_use_def records_def\<close>)
qed

end
