(* ===== verification/Unused_Elim.thy ===== *)
theory Unused_Elim
  imports Def_Use Sir_Run
begin

text \<open>
  The elimination of unused operations (\<open>passes/src/optimizations/unused_operation_elimination.rs\<close>).  A
  removed operation becomes a \<open>noop\<close>; removals that its inputs allow follow over a stack, of which the head is
  the top.  The loop takes fuel, one unit per popped operation.
\<close>

record unused_state =
  us_program :: eth_ir_program
  us_uses :: def_use
  us_def_sites :: "nat option list"
  us_pending :: "nat list"

definition noop :: operation where
  "noop = \<lparr>op_kind = KNoop, op_payload = VoidData\<rparr>"

fun all_unused :: "def_use \<Rightarrow> nat list \<Rightarrow> bool panics" where
  "all_unused uses [] = Some True"
| "all_unused uses (out # outs) =
     do { us \<leftarrow> iv_index uses out; if us = [] then all_unused uses outs else Some False }"

definition is_removable :: "operation \<Rightarrow> eth_ir_program \<Rightarrow> def_use \<Rightarrow> bool panics" where
  "is_removable op ir uses =
     (if is_removable_when_unused (op_kind op)
      then do { outs \<leftarrow> op_outputs ir op; all_unused uses outs }
      else Some False)"

definition scan_op :: "nat \<Rightarrow> unused_state \<Rightarrow> unused_state panics" where
  "scan_op i s =
     do { op \<leftarrow> opview_op (us_program s) i;
          outs \<leftarrow> op_outputs (us_program s) op;
          sites \<leftarrow> fold_panics (\<lambda>out sites. iv_set sites out (Some i)) outs (us_def_sites s);
          removable \<leftarrow> is_removable op (us_program s) (us_uses s);
          Some (s\<lparr>us_def_sites := sites, us_pending := if removable then i # us_pending s else us_pending s\<rparr>) }"

definition drop_input :: "nat \<Rightarrow> nat \<Rightarrow> unused_state \<Rightarrow> unused_state panics" where
  "drop_input i input s =
     do { uses \<leftarrow> retain_uses input (\<lambda>u. ul_kind u \<noteq> UseOperation i) (us_uses s);
          s \<leftarrow> Some (s\<lparr>us_uses := uses\<rparr>);
          site \<leftarrow> iv_index (us_def_sites s) input;
          case site of
            None \<Rightarrow> Some s
          | Some d \<Rightarrow>
              do { op \<leftarrow> iv_index (ir_operations (us_program s)) d;
                   if op_kind op = KNoop then Some s
                   else do { removable \<leftarrow> is_removable op (us_program s) (us_uses s);
                             Some (if removable then s\<lparr>us_pending := d # us_pending s\<rparr> else s) } } }"

definition remove_op :: "nat \<Rightarrow> unused_state \<Rightarrow> unused_state panics" where
  "remove_op i s =
     do { op \<leftarrow> iv_index (ir_operations (us_program s)) i;
          if op_kind op = KNoop then Some s
          else do { ins \<leftarrow> op_inputs (us_program s) op;
                    s \<leftarrow> fold_panics (drop_input i) ins s;
                    outs \<leftarrow> op_outputs (us_program s) op;
                    sites \<leftarrow> fold_panics (\<lambda>out sites. iv_set sites out None) outs (us_def_sites s);
                    ops \<leftarrow> iv_set (ir_operations (us_program s)) i noop;
                    Some (s\<lparr>us_def_sites := sites, us_program := (us_program s)\<lparr>ir_operations := ops\<rparr>\<rparr>) } }"

fun remove_loop :: "nat \<Rightarrow> unused_state \<Rightarrow> unused_state panics" where
  "remove_loop 0 s = (if us_pending s = [] then Some s else None)"
| "remove_loop (Suc fuel) s =
     (case us_pending s of
        [] \<Rightarrow> Some s
      | i # pending \<Rightarrow> do { s \<leftarrow> remove_op i (s\<lparr>us_pending := pending\<rparr>); remove_loop fuel s })"

definition unused_elimination :: "nat \<Rightarrow> eth_ir_program \<Rightarrow> eth_ir_program panics" where
  "unused_elimination fuel ir =
     do { uses \<leftarrow> compute_def_use ir;
          s \<leftarrow> fold_panics scan_op [0..<length (ir_operations ir)]
             \<lparr>us_program = ir, us_uses = uses, us_def_sites = replicate (ir_next_free_local_id ir) None, us_pending = []\<rparr>;
          s \<leftarrow> remove_loop fuel s;
          Some (us_program s) }"

end
