(* ===== verification/Unused_Elim_Inv.thy ===== *)
theory Unused_Elim_Inv
  imports Unused_Elim Def_Use_Correct
begin

text \<open>
  The elimination of unused operations returns: the invariant of its stack, and its run.
\<close>

section \<open>The invariant of the pass\<close>

definition ops_readable :: "eth_ir_program \<Rightarrow> bool" where
  "ops_readable ir \<longleftrightarrow>
     (\<forall>i < length (ir_operations ir). opview_inputs ir i = Some (op_reads ir i) \<and> opview_outputs ir i = Some (op_defs ir i)
        \<and> (\<forall>l \<in> set (op_reads ir i) \<union> set (op_defs ir i). l < ir_next_free_local_id ir))"

definition defs_once :: "eth_ir_program \<Rightarrow> bool" where
  "defs_once ir \<longleftrightarrow>
     (\<forall>i < length (ir_operations ir). \<forall>j < length (ir_operations ir). \<forall>l. l \<in> set (op_defs ir i) \<longrightarrow> l \<in> set (op_defs ir j) \<longrightarrow> i = j)"

abbreviation kind_at :: "eth_ir_program \<Rightarrow> nat \<Rightarrow> operation_kind" where
  "kind_at ir i \<equiv> op_kind (ir_operations ir ! i)"

text \<open>The operation may go, and nothing in \<open>uses\<close> reads its outputs.\<close>

definition unused_in :: "eth_ir_program \<Rightarrow> def_use \<Rightarrow> nat \<Rightarrow> bool" where
  "unused_in ir uses i \<longleftrightarrow> is_removable_when_unused (kind_at ir i) \<and> (\<forall>l \<in> set (op_defs ir i). uses ! l = [])"

definition without :: "eth_ir_program \<Rightarrow> nat set \<Rightarrow> eth_ir_program" where
  "without ir D = ir\<lparr>ir_operations := map (\<lambda>i. if i \<in> D then noop else ir_operations ir ! i) [0..<length (ir_operations ir)]\<rparr>"

text \<open>\<open>F l\<close> are the operations whose uses of \<open>l\<close> have been dropped.\<close>

definition uses_left :: "eth_ir_program \<Rightarrow> def_use \<Rightarrow> (nat \<Rightarrow> nat set) \<Rightarrow> def_use \<Rightarrow> bool" where
  "uses_left ir uses0 F uses \<longleftrightarrow> length uses = ir_next_free_local_id ir
     \<and> (\<forall>l < ir_next_free_local_id ir. set (uses ! l) = {u \<in> set (uses0 ! l). \<forall>i \<in> F l. ul_kind u \<noteq> UseOperation i})"

definition sites_ok :: "eth_ir_program \<Rightarrow> nat set \<Rightarrow> nat option list \<Rightarrow> bool" where
  "sites_ok ir D sites \<longleftrightarrow> length sites = ir_next_free_local_id ir
     \<and> (\<forall>l < ir_next_free_local_id ir. \<forall>i. sites ! l = Some i \<longrightarrow> i < length (ir_operations ir))
     \<and> (\<forall>i < length (ir_operations ir). i \<notin> D \<longrightarrow> (\<forall>l \<in> set (op_defs ir i). sites ! l = Some i))"

definition removed_ok :: "eth_ir_program \<Rightarrow> nat set \<Rightarrow> def_use \<Rightarrow> bool" where
  "removed_ok ir D uses \<longleftrightarrow> (\<forall>i \<in> D. i < length (ir_operations ir) \<and> kind_at ir i \<noteq> KNoop \<and> unused_in ir uses i)"

text \<open>What is pending may go, and what may go is pending, but for the operations \<open>X\<close>.\<close>

definition pending_ok :: "eth_ir_program \<Rightarrow> nat set \<Rightarrow> nat set \<Rightarrow> def_use \<Rightarrow> nat list \<Rightarrow> bool" where
  "pending_ok ir D X uses pending \<longleftrightarrow>
     (\<forall>i \<in> set pending. i < length (ir_operations ir) \<and> unused_in ir uses i)
     \<and> (\<forall>i < length (ir_operations ir). i \<notin> D \<longrightarrow> kind_at ir i \<noteq> KNoop \<longrightarrow> unused_in ir uses i \<longrightarrow> i \<in> set pending \<union> X)"

definition elim_inv :: "eth_ir_program \<Rightarrow> def_use \<Rightarrow> nat set \<Rightarrow> (nat \<Rightarrow> nat set) \<Rightarrow> nat set \<Rightarrow> unused_state \<Rightarrow> bool" where
  "elim_inv ir uses0 D F X s \<longleftrightarrow>
     us_program s = without ir D \<and> uses_left ir uses0 F (us_uses s) \<and> sites_ok ir D (us_def_sites s)
     \<and> removed_ok ir D (us_uses s) \<and> pending_ok ir D X (us_uses s) (us_pending s)"

section \<open>Steps\<close>

lemma without_fields:
  "ir_locals (without ir D) = ir_locals ir" "ir_basic_blocks (without ir D) = ir_basic_blocks ir"
  "length (ir_operations (without ir D)) = length (ir_operations ir)" "ir_next_free_local_id (without ir D) = ir_next_free_local_id ir"
  "i < length (ir_operations ir) \<Longrightarrow> ir_operations (without ir D) ! i = (if i \<in> D then noop else ir_operations ir ! i)"
  by (simp_all add: without_def)

lemma operands_without: "op_inputs (without ir D) op = op_inputs ir op" "op_outputs (without ir D) op = op_outputs ir op"
  by (cases "op_payload op"; simp add: op_inputs_def op_outputs_def inputs_getter_def outputs_getter_def
      allocated_get_inputs_def icall_get_inputs_def icall_get_outputs_def fn_get_inputs_def without_def)+

lemma readable_operands:
  assumes "ops_readable ir" and "i < length (ir_operations ir)"
  shows "op_inputs ir (ir_operations ir ! i) = Some (op_reads ir i)" and "op_outputs ir (ir_operations ir ! i) = Some (op_defs ir i)"
    and "\<forall>l \<in> set (op_reads ir i). l < ir_next_free_local_id ir" and "\<forall>l \<in> set (op_defs ir i). l < ir_next_free_local_id ir"
  using assms by (auto simp: ops_readable_def opview_inputs_def opview_outputs_def opview_op_def iv_index_def)

lemma all_unused_eval: "\<forall>l \<in> set outs. l < length uses \<Longrightarrow> all_unused uses outs = Some (\<forall>l \<in> set outs. uses ! l = [])"
  by (induction outs) (auto simp: iv_index_def)

lemma is_removable_eval:
  assumes "ops_readable ir" and "i < length (ir_operations ir)" and "length uses = ir_next_free_local_id ir"
  shows "is_removable (ir_operations ir ! i) (without ir D) uses = Some (unused_in ir uses i)"
  using readable_operands [OF assms(1,2)] all_unused_eval [of "op_defs ir i" uses] assms(3)
  by (simp add: is_removable_def operands_without unused_in_def)

lemma retain_use:
  assumes "uses_left ir uses0 F uses" and "x < ir_next_free_local_id ir"
  shows "\<exists>uses'. retain_uses x (\<lambda>u. ul_kind u \<noteq> UseOperation i) uses = Some uses'
    \<and> uses_left ir uses0 (F(x := insert i (F x))) uses' \<and> (\<forall>l. l \<noteq> x \<longrightarrow> uses' ! l = uses ! l)
    \<and> (\<forall>l. uses ! l = [] \<longrightarrow> uses' ! l = [])"
  using assms by (auto simp: uses_left_def retain_uses_def iv_index_def iv_set_def nth_list_update)

lemma unused_mono: "(\<And>l. uses ! l = [] \<Longrightarrow> uses' ! l = []) \<Longrightarrow> unused_in ir uses i \<Longrightarrow> unused_in ir uses' i"
  by (auto simp: unused_in_def)

lemma drop_input_run:
  assumes ok: "ops_readable ir" and inv: "elim_inv ir uses0 D F X s" and x: "x < ir_next_free_local_id ir"
  shows "\<exists>s'. drop_input i x s = Some s' \<and> elim_inv ir uses0 D (F(x := insert i (F x))) X s'
    \<and> length (us_pending s') \<le> Suc (length (us_pending s)) \<and> (\<forall>l. us_uses s ! l = [] \<longrightarrow> us_uses s' ! l = [])"
proof -
  have I: "us_program s = without ir D" "uses_left ir uses0 F (us_uses s)" "sites_ok ir D (us_def_sites s)"
    "removed_ok ir D (us_uses s)" "pending_ok ir D X (us_uses s) (us_pending s)"
    using inv by (auto simp: elim_inv_def)
  obtain uses' where u: "retain_uses x (\<lambda>u. ul_kind u \<noteq> UseOperation i) (us_uses s) = Some uses'"
      "uses_left ir uses0 (F(x := insert i (F x))) uses'"
      "\<And>l. l \<noteq> x \<Longrightarrow> uses' ! l = us_uses s ! l" "\<And>l. us_uses s ! l = [] \<Longrightarrow> uses' ! l = []"
    using retain_use [OF I(2) x] by blast
  have up: "unused_in ir (us_uses s) j \<Longrightarrow> unused_in ir uses' j" for j
    using unused_mono u(4) by blast
  have down: "unused_in ir (us_uses s) j" if "unused_in ir uses' j" "x \<notin> set (op_defs ir j)" for j
    using that u(3) unfolding unused_in_def by metis
  have keep: "elim_inv ir uses0 D (F(x := insert i (F x))) X (s\<lparr>us_uses := uses', us_pending := P\<rparr>)"
    if P: "P = us_pending s \<or> (\<exists>d. P = d # us_pending s \<and> d < length (ir_operations ir) \<and> unused_in ir uses' d)"
      and new: "\<And>j. j < length (ir_operations ir) \<Longrightarrow> j \<notin> D \<Longrightarrow> kind_at ir j \<noteq> KNoop \<Longrightarrow> unused_in ir uses' j
        \<Longrightarrow> x \<in> set (op_defs ir j) \<Longrightarrow> j \<in> set P" for P
  proof -
    have "pending_ok ir D X uses' P"
      using I(5) P new up down unfolding pending_ok_def by (metis UnCI UnE list.set_intros(2) set_ConsD)
    moreover have "removed_ok ir D uses'"
      using I(4) up by (auto simp: removed_ok_def)
    ultimately show ?thesis
      using I(1,3) u(2) by (simp add: elim_inv_def)
  qed
  have len: "x < length (us_def_sites s)" "length uses' = ir_next_free_local_id ir"
    using I(3) x u(2) by (simp_all add: sites_ok_def uses_left_def)
  have site: "us_def_sites s ! x = Some j" if "j < length (ir_operations ir)" "j \<notin> D" "x \<in> set (op_defs ir j)" for j
    using I(3) that unfolding sites_ok_def by blast
  show ?thesis
  proof (cases "us_def_sites s ! x")
    case None
    then have "drop_input i x s = Some (s\<lparr>us_uses := uses', us_pending := us_pending s\<rparr>)"
      using u(1) len by (simp add: drop_input_def iv_index_def)
    then show ?thesis
      using keep [of "us_pending s"] site None u(4) by fastforce
  next
    case (Some d)
    then have d: "d < length (ir_operations ir)"
      using I(3) x unfolding sites_ok_def by blast
    let ?op = "ir_operations (without ir D) ! d"
    show ?thesis
    proof (cases "op_kind ?op = KNoop")
      case True
      then have "drop_input i x s = Some (s\<lparr>us_uses := uses', us_pending := us_pending s\<rparr>)"
        using u(1) len Some d I(1) by (simp add: drop_input_def iv_index_def without_fields(3))
      moreover have "d \<in> D \<or> kind_at ir d = KNoop"
        using True d by (auto simp: without_fields split: if_splits)
      then have "elim_inv ir uses0 D (F(x := insert i (F x))) X (s\<lparr>us_uses := uses', us_pending := us_pending s\<rparr>)"
        using keep [of "us_pending s"] site Some by fastforce
      ultimately show ?thesis
        using u(4) by (intro exI [of _ "s\<lparr>us_uses := uses', us_pending := us_pending s\<rparr>"]) simp
    next
      case False
      then have nd: "d \<notin> D" "?op = ir_operations ir ! d"
        using d by (auto simp: without_fields noop_def split: if_splits)
      let ?P = "if unused_in ir uses' d then d # us_pending s else us_pending s"
      have "drop_input i x s = Some (s\<lparr>us_uses := uses', us_pending := ?P\<rparr>)"
        using u(1) len Some d I(1) False nd is_removable_eval [OF ok d len(2)]
        by (simp add: drop_input_def iv_index_def without_fields(3))
      moreover have "elim_inv ir uses0 D (F(x := insert i (F x))) X (s\<lparr>us_uses := uses', us_pending := ?P\<rparr>)"
        by (rule keep) (use d site Some in auto)
      ultimately show ?thesis
        using u(4) by (intro exI [of _ "s\<lparr>us_uses := uses', us_pending := ?P\<rparr>"]) simp
    qed
  qed
qed


definition dropped :: "nat set \<Rightarrow> nat \<Rightarrow> nat set \<Rightarrow> nat \<Rightarrow> nat set" where
  "dropped D i L l = (if l \<in> L then insert i D else D)"

lemma dropped_simps: "dropped D i {} = (\<lambda>_. D)" "(dropped D i L)(x := insert i (dropped D i L x)) = dropped D i (insert x L)"
  by (auto simp: dropped_def fun_eq_iff)

lemma drop_inputs_run:
  assumes ok: "ops_readable ir"
  shows "elim_inv ir uses0 D (dropped D i L) X s \<Longrightarrow> \<forall>x \<in> set xs. x < ir_next_free_local_id ir \<Longrightarrow>
    \<exists>s'. fold_panics (drop_input i) xs s = Some s' \<and> elim_inv ir uses0 D (dropped D i (L \<union> set xs)) X s'
      \<and> length (us_pending s') \<le> length (us_pending s) + length xs \<and> (\<forall>l. us_uses s ! l = [] \<longrightarrow> us_uses s' ! l = [])"
proof (induction xs arbitrary: s L)
  case (Cons x xs)
  obtain s1 where s1: "drop_input i x s = Some s1" "elim_inv ir uses0 D (dropped D i (insert x L)) X s1"
      "length (us_pending s1) \<le> Suc (length (us_pending s))" "\<forall>l. us_uses s ! l = [] \<longrightarrow> us_uses s1 ! l = []"
    using drop_input_run [OF ok Cons.prems(1), of x i] Cons.prems(2) by (auto simp: dropped_simps)
  obtain s2 where "fold_panics (drop_input i) xs s1 = Some s2" "elim_inv ir uses0 D (dropped D i (insert x L \<union> set xs)) X s2"
      "length (us_pending s2) \<le> length (us_pending s1) + length xs" "\<forall>l. us_uses s1 ! l = [] \<longrightarrow> us_uses s2 ! l = []"
    using Cons.IH [OF s1(2)] Cons.prems(2) by auto
  then show ?case
    using s1 by auto
qed simp

text \<open>The uses that the def-use chains report.\<close>

definition uses_exact :: "eth_ir_program \<Rightarrow> def_use \<Rightarrow> bool" where
  "uses_exact ir uses0 \<longleftrightarrow> (\<forall>l u. l < ir_next_free_local_id ir \<longrightarrow>
     u \<in> set (uses0 ! l) \<longleftrightarrow> ul_block_id u < length (ir_basic_blocks ir) \<and> reads_at ir (ul_block_id u) (ul_kind u) l)"

lemma clear_sites:
  assumes "\<forall>l \<in> set ls. l < length sites"
  shows "fold_panics (\<lambda>out sites. iv_set sites out v) ls sites = Some (map (\<lambda>l. if l \<in> set ls then v else sites ! l) [0..<length sites])"
  using assms
proof (induction ls arbitrary: sites)
  case Nil
  then show ?case
    by (simp add: map_nth)
next
  case (Cons l ls)
  then show ?case
    by (auto simp: iv_set_def nth_list_update intro!: nth_equalityI)
qed

lemma uses_left_all:
  assumes "uses_exact ir uses0" and "uses_left ir uses0 (dropped D i (set (op_reads ir i))) uses"
  shows "uses_left ir uses0 (\<lambda>_. insert i D) uses"
proof -
  have "ul_kind u \<noteq> UseOperation i" if "l < ir_next_free_local_id ir" "u \<in> set (uses0 ! l)" "l \<notin> set (op_reads ir i)" for l u
    using assms(1) that by (cases "ul_kind u") (auto simp: uses_exact_def)
  then show ?thesis
    using assms(2) unfolding uses_left_def dropped_def by (auto split: if_splits)
qed

lemma remove_op_run:
  assumes ok: "ops_readable ir" "defs_once ir" "uses_exact ir uses0" and inv: "elim_inv ir uses0 D (\<lambda>_. D) {i} s"
    and i: "i < length (ir_operations ir)" "unused_in ir (us_uses s) i" and live: "i \<notin> D" "kind_at ir i \<noteq> KNoop"
  shows "\<exists>s'. remove_op i s = Some s' \<and> elim_inv ir uses0 (insert i D) (\<lambda>_. insert i D) {} s'
    \<and> length (us_pending s') \<le> length (us_pending s) + length (op_reads ir i)"
proof -
  note R = readable_operands [OF ok(1) i(1)]
  have prog: "us_program s = without ir D"
    using inv by (simp add: elim_inv_def)
  obtain s1 where s1: "fold_panics (drop_input i) (op_reads ir i) s = Some s1"
      "elim_inv ir uses0 D (dropped D i (set (op_reads ir i))) {i} s1"
      "length (us_pending s1) \<le> length (us_pending s) + length (op_reads ir i)" "\<forall>l. us_uses s ! l = [] \<longrightarrow> us_uses s1 ! l = []"
    using drop_inputs_run [OF ok(1), of uses0 D i "{}" "{i}" s "op_reads ir i"] inv R(3) by (auto simp: dropped_simps)
  have I: "us_program s1 = without ir D" "uses_left ir uses0 (\<lambda>_. insert i D) (us_uses s1)" "sites_ok ir D (us_def_sites s1)"
    "removed_ok ir D (us_uses s1)" "pending_ok ir D {i} (us_uses s1) (us_pending s1)"
    using s1(2) uses_left_all [OF ok(3)] by (auto simp: elim_inv_def)
  let ?sites = "map (\<lambda>l. if l \<in> set (op_defs ir i) then None else us_def_sites s1 ! l) [0..<length (us_def_sites s1)]"
  have len: "length (us_def_sites s1) = ir_next_free_local_id ir"
    using I(3) by (simp add: sites_ok_def)
  have ops: "ir_operations (without ir D) ! i = ir_operations ir ! i"
    using i(1) live(1) by (simp add: without_fields)
  have shape: "(without ir D)\<lparr>ir_operations := (ir_operations (without ir D))[i := noop]\<rparr> = without ir (insert i D)"
  proof -
    have "(map (\<lambda>j. if j \<in> D then noop else ir_operations ir ! j) [0..<length (ir_operations ir)])[i := noop]
        = map (\<lambda>j. if j \<in> insert i D then noop else ir_operations ir ! j) [0..<length (ir_operations ir)]"
      using i(1) by (intro nth_equalityI) (auto simp: nth_list_update)
    then show ?thesis
      by (simp add: without_def)
  qed
  let ?s = "s1\<lparr>us_def_sites := ?sites, us_program := without ir (insert i D)\<rparr>"
  have "remove_op i s = Some ?s"
    using prog I(1) ops i(1) live(2) R(1,2,4) s1(1) clear_sites [of "op_defs ir i" "us_def_sites s1" None] len shape
    by (simp add: remove_op_def iv_index_def iv_set_def operands_without without_fields(3))
  moreover have "sites_ok ir (insert i D) ?sites"
  proof -
    have S: "\<And>l j. l < ir_next_free_local_id ir \<Longrightarrow> us_def_sites s1 ! l = Some j \<Longrightarrow> j < length (ir_operations ir)"
      "\<And>l j. j < length (ir_operations ir) \<Longrightarrow> j \<notin> D \<Longrightarrow> l \<in> set (op_defs ir j) \<Longrightarrow> us_def_sites s1 ! l = Some j"
      using I(3) unfolding sites_ok_def by blast+
    have at: "?sites ! l = (if l \<in> set (op_defs ir i) then None else us_def_sites s1 ! l)" if "l < ir_next_free_local_id ir" for l
      using that len by simp
    have "j < length (ir_operations ir)" if "l < ir_next_free_local_id ir" "?sites ! l = Some j" for l j
      using that S(1) [OF that(1), of j] by (auto simp: at split: if_splits)
    moreover have "?sites ! l = Some j" if "j < length (ir_operations ir)" "j \<notin> insert i D" "l \<in> set (op_defs ir j)" for j l
    proof -
      have "l \<notin> set (op_defs ir i)"
        using ok(2) i(1) that unfolding defs_once_def by blast
      moreover have "l < ir_next_free_local_id ir"
        using readable_operands(4) [OF ok(1) that(1)] that(3) by blast
      ultimately show ?thesis
        using S(2) [OF that(1) _ that(3)] that(2) at by simp
    qed
    moreover have "length ?sites = ir_next_free_local_id ir"
      using len by simp
    ultimately show ?thesis
      unfolding sites_ok_def by blast
  qed
  moreover have "removed_ok ir (insert i D) (us_uses s1)"
    using I(4) i(1) live(2) unused_mono [OF _ i(2), of "us_uses s1"] s1(4) by (auto simp: removed_ok_def)
  moreover have "pending_ok ir (insert i D) {} (us_uses s1) (us_pending s1)"
    using I(5) by (auto simp: pending_ok_def)
  ultimately show ?thesis
    using I(2) s1(3) by (intro exI [of _ ?s]) (simp add: elim_inv_def)
qed

section \<open>The loop\<close>

definition elim_work :: "eth_ir_program \<Rightarrow> nat set \<Rightarrow> nat" where
  "elim_work ir D = (\<Sum>i \<in> {i. i < length (ir_operations ir) \<and> i \<notin> D \<and> kind_at ir i \<noteq> KNoop}. length (op_reads ir i))"

lemma elim_work_insert:
  assumes "i < length (ir_operations ir)" and "i \<notin> D" and "kind_at ir i \<noteq> KNoop"
  shows "elim_work ir D = length (op_reads ir i) + elim_work ir (insert i D)"
proof -
  let ?A = "{j. j < length (ir_operations ir) \<and> j \<notin> D \<and> kind_at ir j \<noteq> KNoop}"
  have "finite ?A" "i \<in> ?A"
    using assms by auto
  moreover have "?A - {i} = {j. j < length (ir_operations ir) \<and> j \<notin> insert i D \<and> kind_at ir j \<noteq> KNoop}"
    by auto
  ultimately show ?thesis
    unfolding elim_work_def by (metis (no_types, lifting) sum.remove)
qed

lemma remove_loop_run:
  assumes ok: "ops_readable ir" "defs_once ir" "uses_exact ir uses0"
  shows "elim_inv ir uses0 D (\<lambda>_. D) {} s \<Longrightarrow> length (us_pending s) + elim_work ir D \<le> fuel \<Longrightarrow>
    \<exists>s' D'. remove_loop fuel s = Some s' \<and> elim_inv ir uses0 D' (\<lambda>_. D') {} s' \<and> us_pending s' = []"
proof (induction fuel arbitrary: D s)
  case 0
  then show ?case
    by auto
next
  case (Suc fuel)
  show ?case
  proof (cases "us_pending s")
    case Nil
    then show ?thesis
      using Suc.prems(1) by auto
  next
    case (Cons i pending)
    let ?s = "s\<lparr>us_pending := pending\<rparr>"
    have I: "us_program s = without ir D" "pending_ok ir D {} (us_uses s) (us_pending s)"
      using Suc.prems(1) by (auto simp: elim_inv_def)
    then have i: "i < length (ir_operations ir)" "unused_in ir (us_uses s) i"
      using Cons by (auto simp: pending_ok_def)
    have popped: "elim_inv ir uses0 D (\<lambda>_. D) {i} ?s"
      using Suc.prems(1) Cons by (auto simp: elim_inv_def pending_ok_def)
    show ?thesis
    proof (cases "i \<in> D \<or> kind_at ir i = KNoop")
      case True
      then have "op_kind (ir_operations (without ir D) ! i) = KNoop"
        using i(1) by (auto simp: without_fields noop_def)
      then have "remove_op i ?s = Some ?s"
        using i(1) I(1) by (simp add: remove_op_def iv_index_def without_fields(3))
      moreover have "elim_inv ir uses0 D (\<lambda>_. D) {} ?s"
        using popped True by (auto simp: elim_inv_def pending_ok_def)
      ultimately show ?thesis
        using Suc.IH [of D ?s] Suc.prems(2) Cons by simp
    next
      case False
      then obtain s1 where s1: "remove_op i ?s = Some s1" "elim_inv ir uses0 (insert i D) (\<lambda>_. insert i D) {} s1"
          "length (us_pending s1) \<le> length pending + length (op_reads ir i)"
        using remove_op_run [OF ok popped i(1)] i(2) by auto
      moreover have "length (us_pending s1) + elim_work ir (insert i D) \<le> fuel"
        using s1(3) Suc.prems(2) Cons elim_work_insert [OF i(1)] False by simp
      ultimately show ?thesis
        using Suc.IH Cons by simp
    qed
  qed
qed

section \<open>The scan\<close>

definition scanned :: "eth_ir_program \<Rightarrow> def_use \<Rightarrow> nat \<Rightarrow> unused_state \<Rightarrow> bool" where
  "scanned ir uses0 k s \<longleftrightarrow> us_program s = ir \<and> us_uses s = uses0
     \<and> length (us_def_sites s) = ir_next_free_local_id ir
     \<and> (\<forall>l < ir_next_free_local_id ir. \<forall>i. us_def_sites s ! l = Some i \<longrightarrow> i < k)
     \<and> (\<forall>i < k. \<forall>l \<in> set (op_defs ir i). us_def_sites s ! l = Some i)
     \<and> set (us_pending s) = {i. i < k \<and> unused_in ir uses0 i} \<and> length (us_pending s) \<le> k"

lemma scan_run:
  assumes ok: "ops_readable ir" "defs_once ir" and len: "length uses0 = ir_next_free_local_id ir"
  shows "k \<le> length (ir_operations ir) \<Longrightarrow> \<exists>s. fold_panics scan_op [0..<k]
      \<lparr>us_program = ir, us_uses = uses0, us_def_sites = replicate (ir_next_free_local_id ir) None, us_pending = []\<rparr> = Some s
    \<and> scanned ir uses0 k s"
proof (induction k)
  case (Suc k)
  then obtain s where run: "fold_panics scan_op [0..<k]
      \<lparr>us_program = ir, us_uses = uses0, us_def_sites = replicate (ir_next_free_local_id ir) None, us_pending = []\<rparr> = Some s"
    and s: "scanned ir uses0 k s"
    by auto
  have k: "k < length (ir_operations ir)"
    using Suc.prems by simp
  note R = readable_operands [OF ok(1) k]
  let ?sites = "map (\<lambda>l. if l \<in> set (op_defs ir k) then Some k else us_def_sites s ! l) [0..<length (us_def_sites s)]"
  let ?s = "s\<lparr>us_def_sites := ?sites, us_pending := if unused_in ir uses0 k then k # us_pending s else us_pending s\<rparr>"
  have "without ir {} = ir"
    by (simp add: without_def map_nth)
  then have "is_removable (ir_operations ir ! k) ir uses0 = Some (unused_in ir uses0 k)"
    using is_removable_eval [OF ok(1) k len, of "{}"] by simp
  then have "scan_op k s = Some ?s"
    using s k R(2,4) clear_sites [of "op_defs ir k" "us_def_sites s" "Some k"]
    by (simp add: scan_op_def scanned_def opview_op_def iv_index_def)
  moreover have "scanned ir uses0 (Suc k) ?s"
  proof -
    have other: "l \<notin> set (op_defs ir k)" if "i < k" "l \<in> set (op_defs ir i)" for i l
      using ok(2) that k unfolding defs_once_def by (metis less_irrefl order.strict_trans)
    have range: "l < ir_next_free_local_id ir" if "i < Suc k" "l \<in> set (op_defs ir i)" for i l
      using readable_operands(4) [OF ok(1), of i] that k by auto
    have F: "us_program s = ir" "us_uses s = uses0" "length (us_def_sites s) = ir_next_free_local_id ir"
      "\<And>l i. l < ir_next_free_local_id ir \<Longrightarrow> us_def_sites s ! l = Some i \<Longrightarrow> i < k"
      "\<And>i l. i < k \<Longrightarrow> l \<in> set (op_defs ir i) \<Longrightarrow> us_def_sites s ! l = Some i"
      "set (us_pending s) = {i. i < k \<and> unused_in ir uses0 i}" "length (us_pending s) \<le> k"
      using s unfolding scanned_def by blast+
    have at: "?sites ! l = (if l \<in> set (op_defs ir k) then Some k else us_def_sites s ! l)" if "l < ir_next_free_local_id ir" for l
      using that F(3) by simp
    have "i < Suc k" if "l < ir_next_free_local_id ir" "?sites ! l = Some i" for l i
      using that F(4) [OF that(1), of i] by (auto simp: at split: if_splits)
    moreover have "?sites ! l = Some i" if "i < Suc k" "l \<in> set (op_defs ir i)" for i l
      using that at [OF range [OF that]] F(5) other by (auto simp: less_Suc_eq)
    moreover have "set (us_pending ?s) = {i. i < Suc k \<and> unused_in ir uses0 i}" "length (us_pending ?s) \<le> Suc k"
      using F(6,7) by (auto simp: less_Suc_eq)
    ultimately show ?thesis
      using F(1-3) unfolding scanned_def by simp
  qed
  ultimately show ?case
    using run by simp
qed (simp add: scanned_def)

lemma scanned_inv:
  assumes "scanned ir uses0 (length (ir_operations ir)) s" and "length uses0 = ir_next_free_local_id ir"
  shows "elim_inv ir uses0 {} (\<lambda>_. {}) {} s"
proof -
  have "sites_ok ir {} (us_def_sites s)"
    using assms(1) unfolding scanned_def sites_ok_def by blast
  moreover have "pending_ok ir {} {} (us_uses s) (us_pending s)"
    using assms(1) unfolding scanned_def pending_ok_def by auto
  moreover have "without ir {} = ir"
    by (simp add: without_def map_nth)
  ultimately show ?thesis
    using assms by (simp add: elim_inv_def scanned_def uses_left_def removed_ok_def)
qed


lemma elim_work_bound: "elim_work ir {} \<le> (\<Sum>i<length (ir_operations ir). length (op_reads ir i))"
  unfolding elim_work_def by (rule sum_mono2) auto

lemma unused_elimination_run:
  assumes ir: "legal ir" "outputs_in_range ir" and ok: "ops_readable ir" "defs_once ir"
    and fuel: "length (ir_operations ir) + (\<Sum>i<length (ir_operations ir). length (op_reads ir i)) \<le> fuel"
  obtains D uses0 uses where "unused_elimination fuel ir = Some (without ir D)" "uses_exact ir uses0"
    "uses_left ir uses0 (\<lambda>_. D) uses" "removed_ok ir D uses" "pending_ok ir D {} uses []"
proof -
  obtain uses0 where U: "compute_def_use ir = Some uses0" "length uses0 = ir_next_free_local_id ir" "uses_exact ir uses0"
    using def_use_run [OF ir] by (metis uses_exact_def)
  obtain s where s: "fold_panics scan_op [0..<length (ir_operations ir)]
      \<lparr>us_program = ir, us_uses = uses0, us_def_sites = replicate (ir_next_free_local_id ir) None, us_pending = []\<rparr> = Some s"
      "scanned ir uses0 (length (ir_operations ir)) s"
    using scan_run [OF ok U(2) order_refl] by blast
  have "length (us_pending s) + elim_work ir {} \<le> fuel"
    using s(2) fuel elim_work_bound [of ir] by (simp add: scanned_def)
  then obtain s' D where s': "remove_loop fuel s = Some s'" "elim_inv ir uses0 D (\<lambda>_. D) {} s'" "us_pending s' = []"
    using remove_loop_run [OF ok U(3) scanned_inv [OF s(2) U(2)]] by blast
  show ?thesis
    by (rule that [of D uses0 "us_uses s'"]) (use U s(1) s' in \<open>auto simp: unused_elimination_def elim_inv_def\<close>)
qed

end
