(* ===== verification/Unused_Elim_Correct.thy ===== *)
theory Unused_Elim_Correct
  imports Unused_Elim_Inv Copy_Propagation_Correct
begin

text \<open>
  The elimination of unused operations keeps every run up to the locals it no longer writes, and leaves
  nothing that it could remove.
\<close>

section \<open>What is no longer written is no longer read\<close>

definition dead :: "eth_ir_program \<Rightarrow> nat set \<Rightarrow> nat set" where
  "dead ir D = (\<Union>i \<in> D. set (op_defs ir i))"

definition agree :: "nat set \<Rightarrow> (nat \<Rightarrow> u256) \<Rightarrow> (nat \<Rightarrow> u256) \<Rightarrow> bool" where
  "agree L env env' \<longleftrightarrow> (\<forall>l. l \<notin> L \<longrightarrow> env l = env' l)"

text \<open>The outcomes of two runs of a block agree but for the locals \<open>L\<close>.\<close>

definition same_outcome ::
    "nat set \<Rightarrow> 'h + u256 list \<times> nat option \<times> (nat \<Rightarrow> u256) \<times> 'w \<Rightarrow> 'h + u256 list \<times> nat option \<times> (nat \<Rightarrow> u256) \<times> 'w \<Rightarrow> bool" where
  "same_outcome L = rel_sum (=) (\<lambda>(vs, next, env, w) (vs', next', env', w'). vs = vs' \<and> next = next' \<and> agree L env env' \<and> w = w')"

text \<open>
  The operations of the program that may be removed do nothing but write their outputs, and a \<open>noop\<close> does nothing.
\<close>

definition quiet :: "('w, 'h) op_semantics \<Rightarrow> eth_ir_program \<Rightarrow> bool" where
  "quiet sem ir \<longleftrightarrow>
     (\<forall>i < length (ir_operations ir). is_removable_when_unused (kind_at ir i) \<longrightarrow>
        (\<forall>xs w. length xs = length (op_reads ir i) \<longrightarrow> (\<exists>vs. sem (kind_at ir i) (static_data (op_payload (ir_operations ir ! i))) xs w = Inr (vs, w) \<and> length vs = length (op_defs ir i))))
     \<and> (\<forall>w. sem KNoop VoidData [] w = Inr ([], w))"

lemma write_agree:
  "agree L env env' \<Longrightarrow> agree L (write_locals ls vs env) (write_locals ls vs env')"
  by (induction ls vs env arbitrary: env' rule: write_locals.induct) (auto simp: agree_def)

lemma write_dead: "agree L env env' \<Longrightarrow> set ls \<subseteq> L \<Longrightarrow> agree L (write_locals ls vs env) env'"
  unfolding agree_def by (metis subsetD write_locals_other)

text \<open>A place that is left reads no dead local.\<close>

lemma left_not_dead:
  assumes "uses_exact ir uses0" and "uses_left ir uses0 (\<lambda>_. D) uses" and "removed_ok ir D uses"
    and "b < length (ir_basic_blocks ir)" "reads_at ir b k l" "l < ir_next_free_local_id ir" and "\<forall>i \<in> D. k \<noteq> UseOperation i"
  shows "l \<notin> dead ir D"
proof
  assume "l \<in> dead ir D"
  then have "uses ! l = []"
    using assms(3) by (auto simp: dead_def removed_ok_def unused_in_def)
  moreover have "\<lparr>ul_block_id = b, ul_kind = k\<rparr> \<in> set (uses0 ! l)"
    using assms(1,4-6) by (simp add: uses_exact_def)
  then have "\<lparr>ul_block_id = b, ul_kind = k\<rparr> \<in> set (uses ! l)"
    using assms(2,6,7) by (simp add: uses_left_def)
  ultimately show False
    by simp
qed

section \<open>Runs\<close>

definition same_state :: "nat set \<Rightarrow> 'h + (nat \<Rightarrow> u256) \<times> 'w \<Rightarrow> 'h + (nat \<Rightarrow> u256) \<times> 'w \<Rightarrow> bool" where
  "same_state L = rel_sum (=) (\<lambda>(env, w) (env', w'). agree L env env' \<and> w = w')"

lemma exec_op_same:
  assumes ok: "ops_readable ir" and sem: "quiet sem ir" and i: "i < length (ir_operations ir)"
    and D: "i \<in> D \<Longrightarrow> is_removable_when_unused (kind_at ir i)" and reads: "i \<notin> D \<Longrightarrow> set (op_reads ir i) \<inter> dead ir D = {}"
    and agree: "agree (dead ir D) env env'"
  shows "rel_option (same_state (dead ir D)) (exec_op sem ir i (env, w)) (exec_op sem (without ir D) i (env', w))"
proof -
  note R = readable_operands(1,2) [OF ok i]
  have old: "exec_op sem ir i (env, w) =
      (case sem (kind_at ir i) (static_data (op_payload (ir_operations ir ! i))) (map env (op_reads ir i)) w of
        Inl h \<Rightarrow> Some (Inl h) | Inr (vs, w) \<Rightarrow> do { ensure (length vs = length (op_defs ir i)); Some (Inr (write_locals (op_defs ir i) vs env, w)) })"
    using R i by (simp add: exec_op_def opview_op_def iv_index_def)
  show ?thesis
  proof (cases "i \<in> D")
    case True
    then obtain vs where "sem (kind_at ir i) (static_data (op_payload (ir_operations ir ! i))) (map env (op_reads ir i)) w = Inr (vs, w)"
        "length vs = length (op_defs ir i)"
      using sem D [OF True] i unfolding quiet_def by (metis length_map)
    moreover have "exec_op sem (without ir D) i (env', w) = Some (Inr (env', w))"
      using True i sem by (simp add: exec_op_def opview_op_def iv_index_def without_fields operands_without noop_def
          op_inputs_def op_outputs_def inputs_getter_def outputs_getter_def quiet_def)
    moreover have "agree (dead ir D) (write_locals (op_defs ir i) vs env) env'"
      using True agree by (intro write_dead) (auto simp: dead_def)
    ultimately show ?thesis
      using old by (simp add: same_state_def)
  next
    case False
    then have "map env' (op_reads ir i) = map env (op_reads ir i)"
      using agree reads by (auto simp: agree_def)
    then have "exec_op sem (without ir D) i (env', w) =
      (case sem (kind_at ir i) (static_data (op_payload (ir_operations ir ! i))) (map env (op_reads ir i)) w of
        Inl h \<Rightarrow> Some (Inl h) | Inr (vs, w) \<Rightarrow> do { ensure (length vs = length (op_defs ir i)); Some (Inr (write_locals (op_defs ir i) vs env', w)) })"
      using False R i by (simp add: exec_op_def opview_op_def iv_index_def without_fields operands_without del: map_eq_conv)
    then show ?thesis
      using old write_agree [OF agree] by (auto simp: same_state_def ensure_def split: sum.splits)
  qed
qed

lemma exec_ops_same:
  assumes "\<And>i env env' w. i \<in> set is \<Longrightarrow> agree L env env' \<Longrightarrow> rel_option (same_state L) (f i (env, w)) (g i (env', w))"
  shows "agree L env env' \<Longrightarrow> rel_option (same_state L) (fold_try f is (env, w)) (fold_try g is (env', w))"
  using assms
proof (induction "is" arbitrary: env env' w)
  case (Cons i "is")
  then have "rel_option (same_state L) (f i (env, w)) (g i (env', w))"
    by simp
  then show ?case
    using Cons.IH Cons.prems(2) unfolding option.rel_sel [of _ "f i (env, w)"]
    by (cases "f i (env, w)"; cases "g i (env', w)") (auto simp: same_state_def rel_sum.simps try_bind_def)
qed (simp add: same_state_def)

lemma exec_block_same:
  assumes ir: "legal ir" "outputs_in_range ir" and ok: "ops_readable ir" and sem: "quiet sem ir"
    and U: "uses_exact ir uses0" "uses_left ir uses0 (\<lambda>_. D) uses" "removed_ok ir D uses"
    and b: "b < length (ir_basic_blocks ir)" and agree: "agree (dead ir D) env env'"
  shows "rel_option (same_outcome (dead ir D)) (exec_block sem ir b (env, w)) (exec_block sem (without ir D) b (env', w))"
proof -
  note V = legal_views [OF ir b]
  have "legal_block ir b"
    using ir(1) b by (simp add: legal_def)
  then obtain c where c: "block_control ir b = Some c" "\<forall>l \<in> control_condition c. l < ir_next_free_local_id ir"
      and ops: "\<forall>i \<in> set (ops_of ir b). i < length (ir_operations ir)"
    using V(1) unfolding legal_block_def legal_op_def by auto
  obtain os where os: "block_outputs ir b = Some os" "\<forall>l \<in> set os. l < ir_next_free_local_id ir"
    using V(6) by blast
  have views: "block_operations (without ir D) b = Some (ops_of ir b)" "block_outputs (without ir D) b = Some os"
      "block_control (without ir D) b = Some c"
    using V(1) os(1) c(1) by (simp_all add: block_operations_def block_outputs_def block_control_def without_def)
  note left = left_not_dead [OF U b]
  have "l \<notin> dead ir D" if "i \<in> set (ops_of ir b)" "i \<notin> D" "l \<in> set (op_reads ir i)" for i l
    using left [of "UseOperation i" l] that readable_operands(3) [OF ok, of i] ops by auto
  moreover have "is_removable_when_unused (kind_at ir i)" if "i \<in> D" for i
    using U(3) that by (simp add: removed_ok_def unused_in_def)
  ultimately have "rel_option (same_state (dead ir D)) (fold_try (exec_op sem ir) (ops_of ir b) (env, w))
      (fold_try (exec_op sem (without ir D)) (ops_of ir b) (env', w))"
    using ops by (intro exec_ops_same exec_op_same [OF ok sem] agree) auto
  moreover have "map env1 os = map env2 os \<and> control_next ir env1 c = control_next (without ir D) env2 c" if e: "agree (dead ir D) env1 env2" for env1 env2
  proof -
    have "l \<notin> dead ir D" if "l \<in> set os" for l
      using that left [of "UseBlockOutput j" l for j] os by (fastforce simp: in_set_conv_nth)
    moreover have "l \<notin> dead ir D" if "l \<in> control_condition c" for l
      using that left [of UseControl l] c by auto
    moreover have "switch_target (without ir D) sw v = switch_target ir sw v" for sw v
      by (simp add: switch_target_def switch_cases_def without_def cases_iter_def cases_get_values_def cases_get_bb_ids_def)
    ultimately show ?thesis
      using e by (cases c) (auto simp: agree_def control_next_def control_condition_def)
  qed
  ultimately show ?thesis
    using V(1) os(1) c(1) views unfolding exec_block_def
    by (cases "fold_try (exec_op sem ir) (ops_of ir b) (env, w)"; cases "fold_try (exec_op sem (without ir D)) (ops_of ir b) (env', w)")
      (auto simp: same_state_def same_outcome_def rel_sum.simps try_bind_def)
qed


section \<open>The property\<close>

text \<open>A removable operation that is left has an output that the result still reads.\<close>

lemma left_is_read:
  assumes U: "uses_exact ir uses0" "uses_left ir uses0 (\<lambda>_. D) uses" "pending_ok ir D {} uses []" and ok: "ops_readable ir"
    and i: "i < length (ir_operations ir)" "i \<notin> D" "kind_at ir i \<noteq> KNoop" "is_removable_when_unused (kind_at ir i)"
  shows "\<exists>l \<in> set (op_defs ir i). \<exists>b < length (ir_basic_blocks ir). \<exists>k. reads_at ir b k l \<and> k \<notin> UseOperation ` D"
proof -
  have "\<not> unused_in ir uses i"
    using U(3) i by (simp add: pending_ok_def)
  then obtain l where l: "l \<in> set (op_defs ir i)" "uses ! l \<noteq> []"
    using i(4) by (auto simp: unused_in_def)
  then obtain u where "u \<in> set (uses ! l)"
    by (cases "uses ! l") auto
  moreover have "l < ir_next_free_local_id ir"
    using readable_operands(4) [OF ok i(1)] l(1) by blast
  ultimately have "ul_block_id u < length (ir_basic_blocks ir)" "reads_at ir (ul_block_id u) (ul_kind u) l" "ul_kind u \<notin> UseOperation ` D"
    using U(1,2) by (auto simp: uses_left_def uses_exact_def)
  then show ?thesis
    using l(1) by blast
qed


text \<open>On the program of two blocks, with constants and copies, and nothing else, as the meaning of operations.\<close>

definition quiet_semantics :: "(unit, unit) op_semantics" where
  "quiet_semantics kind d vals w = (if kind = KNoop then Inr ([], w) else copy_semantics kind d vals w)"

lemma straight_views:
  "opview_inputs straight 0 = Some []" "opview_outputs straight 0 = Some [0]"
  "opview_inputs straight (Suc 0) = Some [0]" "opview_outputs straight (Suc 0) = Some [2]"
  "opview_inputs straight 2 = Some []" "opview_outputs straight 2 = Some []"
  by (simp_all add: opview_inputs_def opview_outputs_def opview_op_def op_inputs_def op_outputs_def
      inputs_getter_def outputs_getter_def iv_index_def straight_fields)

lemma straight_operands:
  "op_reads straight 0 = []" "op_defs straight 0 = [0]" "op_reads straight (Suc 0) = [0]" "op_defs straight (Suc 0) = [2]"
  "op_reads straight 2 = []" "op_defs straight 2 = []"
  by (simp_all add: op_reads_def op_defs_def straight_views)

lemma three: "i < 3 \<longleftrightarrow> i = 0 \<or> i = Suc 0 \<or> i = (2 :: nat)"
  by auto

lemma straight_length: "length (ir_operations straight) = 3"
  by (simp add: straight_fields)

lemma straight_quiet:
  "ops_readable straight" "defs_once straight" "quiet quiet_semantics straight"
proof -
  show "ops_readable straight"
    unfolding ops_readable_def straight_length three by (auto simp: straight_views straight_operands straight_fields)
  show "defs_once straight"
    unfolding defs_once_def straight_length three by (auto simp: straight_operands)
  show "quiet quiet_semantics straight"
    unfolding quiet_def straight_length three
    by (auto simp: straight_fields straight_operands quiet_semantics_def copy_semantics_def is_removable_when_unused_def)
qed


end
