(* ===== verification/Evm_Stack.thy ===== *)
theory Evm_Stack
  imports Index_Vec
begin

text \<open>
  The symbolic stack of the scheduler (\<open>stack-scheduling/src/stack.rs\<close>): an array of 1024 values that is filled from
  its end, refined to the list of its values from the top.
\<close>

definition MAX_STACK_LENGTH :: nat where
  "MAX_STACK_LENGTH = 1024"

record evm_stack =
  es_raw :: "nat list"
  es_len :: nat

definition es_new :: evm_stack where
  "es_new = \<lparr>es_raw = replicate MAX_STACK_LENGTH 0, es_len = 0\<rparr>"

definition es_is_empty :: "evm_stack \<Rightarrow> bool" where
  "es_is_empty s \<longleftrightarrow> es_len s = 0"

definition es_pop :: "evm_stack \<Rightarrow> (nat option \<times> evm_stack) panics" where
  "es_pop s =
     (if es_len s = 0 then Some (None, s)
      else do { i \<leftarrow> sub_checked MAX_STACK_LENGTH (es_len s);
                v \<leftarrow> get_at (es_raw s) i;
                Some (Some v, s\<lparr>es_len := es_len s - 1\<rparr>) })"

definition es_fifo :: "evm_stack \<Rightarrow> nat list panics" where
  "es_fifo s = do { i \<leftarrow> sub_checked MAX_STACK_LENGTH (es_len s); slice_from (es_raw s) i }"

definition es_push :: "nat \<Rightarrow> evm_stack \<Rightarrow> evm_stack panics" where
  "es_push v s =
     do { ensure (es_len s < MAX_STACK_LENGTH);
          i \<leftarrow> sub_checked MAX_STACK_LENGTH (es_len s);
          i \<leftarrow> sub_checked i 1;
          raw \<leftarrow> set_at (es_raw s) i v;
          Some \<lparr>es_raw = raw, es_len = Suc (es_len s)\<rparr> }"

definition es_duplicate :: "nat \<Rightarrow> evm_stack \<Rightarrow> evm_stack panics" where
  "es_duplicate d s = do { fifo \<leftarrow> es_fifo s; v \<leftarrow> get_at fifo d; es_push v s }"

text \<open>\<open>slice::swap\<close> on the part of the array that holds the stack.\<close>

definition swap_at :: "'a list \<Rightarrow> nat \<Rightarrow> nat \<Rightarrow> 'a list panics" where
  "swap_at xs n m = do { x \<leftarrow> get_at xs n; y \<leftarrow> get_at xs m; Some (xs[n := y, m := x]) }"

definition es_exchange :: "nat \<Rightarrow> nat \<Rightarrow> evm_stack \<Rightarrow> evm_stack panics" where
  "es_exchange n m s =
     do { i \<leftarrow> sub_checked MAX_STACK_LENGTH (es_len s);
          fifo \<leftarrow> slice_from (es_raw s) i;
          fifo \<leftarrow> swap_at fifo n m;
          Some (s\<lparr>es_raw := take i (es_raw s) @ fifo\<rparr>) }"

definition es_swap_with_top :: "nat \<Rightarrow> evm_stack \<Rightarrow> evm_stack panics" where
  "es_swap_with_top d s = es_exchange 0 d s"

definition es_get_by_depth :: "nat \<Rightarrow> evm_stack \<Rightarrow> nat option panics" where
  "es_get_by_depth d s = do { fifo \<leftarrow> es_fifo s; Some (get_at fifo d) }"

definition es_count :: "nat \<Rightarrow> evm_stack \<Rightarrow> nat panics" where
  "es_count v s = do { fifo \<leftarrow> es_fifo s; Some (length (filter (\<lambda>x. x = v) fifo)) }"

definition es_find_first :: "nat \<Rightarrow> evm_stack \<Rightarrow> nat option panics" where
  "es_find_first v s = do { fifo \<leftarrow> es_fifo s; Some (position (\<lambda>x. x = v) fifo) }"

definition es_top :: "evm_stack \<Rightarrow> nat option panics" where
  "es_top s = do { fifo \<leftarrow> es_fifo s; Some (get_at fifo 0) }"

section \<open>Refinement of lists\<close>

definition es_rep :: "evm_stack \<Rightarrow> nat list \<Rightarrow> bool" where
  "es_rep s xs \<longleftrightarrow> length (es_raw s) = MAX_STACK_LENGTH \<and> es_len s = length xs \<and> length xs \<le> MAX_STACK_LENGTH
     \<and> drop (MAX_STACK_LENGTH - length xs) (es_raw s) = xs"

lemma es_rep_new: "es_rep es_new []"
  by (simp add: es_rep_def es_new_def)

lemma es_rep_length: "es_rep s xs \<Longrightarrow> es_len s = length xs \<and> length xs \<le> MAX_STACK_LENGTH"
  by (simp add: es_rep_def)

lemma es_fifo_rep [abs_simps]: "es_rep s xs \<Longrightarrow> es_fifo s = Some xs"
  by (auto simp: es_rep_def es_fifo_def sub_checked_def slice_from_def slice_of_def)

lemma es_pop_rep [abs_simps]:
  assumes "es_rep s (x # xs)"
  shows "\<exists>s'. es_pop s = Some (Some x, s') \<and> es_rep s' xs"
proof -
  let ?i = "MAX_STACK_LENGTH - Suc (length xs)"
  have d: "drop ?i (es_raw s) = x # xs" "?i < length (es_raw s)" "Suc ?i = MAX_STACK_LENGTH - length xs"
    using assms by (auto simp: es_rep_def)
  then have "es_raw s ! ?i = x" "drop (Suc ?i) (es_raw s) = xs"
    by (auto simp: Cons_nth_drop_Suc [symmetric])
  then show ?thesis
    using assms d by (auto simp: es_rep_def es_pop_def sub_checked_def)
qed

lemma es_pop_empty [abs_simps]: "es_rep s [] \<Longrightarrow> es_pop s = Some (None, s)"
  by (simp add: es_rep_def es_pop_def)

lemma es_push_rep [abs_simps]:
  assumes "es_rep s xs" and "length xs < MAX_STACK_LENGTH"
  shows "\<exists>s'. es_push v s = Some s' \<and> es_rep s' (v # xs)"
proof -
  let ?i = "MAX_STACK_LENGTH - Suc (length xs)"
  have i: "Suc ?i = MAX_STACK_LENGTH - length xs"
    using assms(2) by arith
  have d: "?i < length (es_raw s)" "MAX_STACK_LENGTH - length xs = Suc ?i" "drop (Suc ?i) (es_raw s) = xs"
    using assms unfolding i by (auto simp: es_rep_def)
  then have new: "drop ?i ((es_raw s)[?i := v]) = v # xs"
    by (simp add: Cons_nth_drop_Suc [symmetric])
  have "es_push v s = Some \<lparr>es_raw = (es_raw s)[?i := v], es_len = Suc (length xs)\<rparr>"
    using assms d(1,2) by (simp add: es_rep_def es_push_def sub_checked_def)
  then show ?thesis
    using assms new by (simp add: es_rep_def)
qed

lemma es_push_full: "es_rep s xs \<Longrightarrow> length xs = MAX_STACK_LENGTH \<Longrightarrow> es_push v s = None"
  by (simp add: es_rep_def es_push_def)

lemma es_duplicate_rep [abs_simps]:
  assumes "es_rep s xs" and "d < length xs" and "length xs < MAX_STACK_LENGTH"
  shows "\<exists>s'. es_duplicate d s = Some s' \<and> es_rep s' (xs ! d # xs)"
  using es_push_rep [OF assms(1,3)] assms(2) by (simp add: es_duplicate_def es_fifo_rep [OF assms(1)])

lemma swap_at_length: "swap_at xs n m = Some ys \<Longrightarrow> length ys = length xs"
  by (auto simp: swap_at_def bind_Some)

lemma swap_at_Some: "n < length xs \<Longrightarrow> m < length xs \<Longrightarrow> swap_at xs n m = Some (xs[n := xs ! m, m := xs ! n])"
  by (simp add: swap_at_def)

lemma es_exchange_rep [abs_simps]:
  assumes "es_rep s xs" and "swap_at xs n m = Some ys"
  shows "\<exists>s'. es_exchange n m s = Some s' \<and> es_rep s' ys"
proof -
  have "length ys = length xs"
    using swap_at_length [OF assms(2)] .
  then show ?thesis
    using assms by (auto simp: es_rep_def es_exchange_def sub_checked_def slice_from_def slice_of_def)
qed

lemma es_views_rep [abs_simps]:
  assumes "es_rep s xs"
  shows "es_get_by_depth d s = Some (get_at xs d)" and "es_count v s = Some (length (filter (\<lambda>x. x = v) xs))"
    and "es_find_first v s = Some (position (\<lambda>x. x = v) xs)" and "es_top s = Some (get_at xs 0)"
    and "es_is_empty s \<longleftrightarrow> xs = []"
  using es_fifo_rep [OF assms] es_rep_length [OF assms]
  by (simp_all add: es_get_by_depth_def es_count_def es_find_first_def es_top_def es_is_empty_def)

end
