(* ===== verification/Op_Graph.thy ===== *)
theory Op_Graph
  imports Index_Vec Bitset
begin

text \<open>
  The graph of the operations of a block (\<open>stack-scheduling/src/op_graph/mod.rs\<close>, \<open>builder.rs\<close>): every operation with
  the values it takes and gives, from the top of the stack, and bit sets of the operations before it and of the
  consumers of each value.
\<close>

datatype op_node_kind =
    Flippable nat
  | RetDestPush nat
  | Normal nat

record stored_op_view =
  so_inputs_outputs_start :: nat
  so_input_count :: nat
  so_kind :: op_node_kind

record op_graph =
  og_total_ops :: nat
  og_total_values :: nat
  og_inputs_end :: nat
  og_end_stack_fifo_start :: nat
  og_values_arena :: "nat list"
  og_operations :: "stored_op_view list"
  og_bit_sets_arena :: "u8 list"

record op_set =
  os_words :: "u8 list"
  os_total_ops :: nat

record op_view =
  ov_inputs_fifo :: "nat list"
  ov_outputs_fifo :: "nat list"
  ov_predecessors :: op_set
  ov_kind :: op_node_kind

section \<open>Sets of operations\<close>

definition div_ceil :: "nat \<Rightarrow> nat \<Rightarrow> nat" where
  "div_ceil n d = (if n mod d = 0 then n div d else Suc (n div d))"

definition op_set_new :: "u8 list \<Rightarrow> nat \<Rightarrow> op_set panics" where
  "op_set_new words n = do { ensure (length words = div_ceil n 8); Some \<lparr>os_words = words, os_total_ops = n\<rparr> }"

definition os_count_members :: "op_set \<Rightarrow> nat" where
  "os_count_members s = sum_list (map count_ones (os_words s))"

definition os_intersect_count :: "op_set \<Rightarrow> op_set \<Rightarrow> nat" where
  "os_intersect_count s t = sum_list (map count_ones (map2 (AND) (os_words s) (os_words t)))"

definition os_is_super :: "op_set \<Rightarrow> op_set \<Rightarrow> bool" where
  "os_is_super s t \<longleftrightarrow> list_all (\<lambda>(x, y). x AND y = y) (zip (os_words s) (os_words t))"

definition os_contains :: "op_set \<Rightarrow> nat \<Rightarrow> bool panics" where
  "os_contains s i = do { w \<leftarrow> get_at (os_words s) (i div 8); Some (w AND push_bit (i mod 8) 1 \<noteq> 0) }"

fun filter_panics :: "('a \<Rightarrow> bool panics) \<Rightarrow> 'a list \<Rightarrow> 'a list panics" where
  "filter_panics p [] = Some []"
| "filter_panics p (x # xs) = do { b \<leftarrow> p x; ys \<leftarrow> filter_panics p xs; Some (if b then x # ys else ys) }"

definition os_iter :: "op_set \<Rightarrow> nat list panics" where
  "os_iter s = do { ids \<leftarrow> map_panics idx_new [0..<os_total_ops s]; filter_panics (os_contains s) ids }"

definition os_clear :: "op_set \<Rightarrow> op_set" where
  "os_clear s = s\<lparr>os_words := map (\<lambda>_. 0) (os_words s)\<rparr>"

definition os_add :: "nat \<Rightarrow> op_set \<Rightarrow> op_set panics" where
  "os_add i s =
     do { ensure (i < os_total_ops s);
          w \<leftarrow> get_at (os_words s) (i div 8);
          words \<leftarrow> set_at (os_words s) (i div 8) (w OR push_bit (i mod 8) 1);
          Some (s\<lparr>os_words := words\<rparr>) }"

section \<open>Views of the graph\<close>

definition og_op_ids :: "op_graph \<Rightarrow> nat list panics" where
  "og_op_ids g = iv_iter_idx (og_operations g)"

definition og_input_values_fifo :: "op_graph \<Rightarrow> span" where
  "og_input_values_fifo g = span_new 0 (og_inputs_end g)"

definition og_is_input :: "op_graph \<Rightarrow> nat \<Rightarrow> bool" where
  "og_is_input g v \<longleftrightarrow> v < og_inputs_end g"

definition og_output_values_fifo :: "op_graph \<Rightarrow> nat list panics" where
  "og_output_values_fifo g = iv_index_from (og_values_arena g) (og_end_stack_fifo_start g)"

definition og_words_per_set :: "op_graph \<Rightarrow> nat" where
  "og_words_per_set g = div_ceil (og_total_ops g) 8"

definition og_get_bit_set :: "op_graph \<Rightarrow> nat \<Rightarrow> op_set panics" where
  "og_get_bit_set g k =
     do { tail \<leftarrow> slice_from (og_bit_sets_arena g) (og_words_per_set g * k);
          words \<leftarrow> slice_of tail 0 (og_words_per_set g);
          Some \<lparr>os_words = words, os_total_ops = og_total_ops g\<rparr> }"

definition og_get_predecessors :: "op_graph \<Rightarrow> nat \<Rightarrow> op_set panics" where
  "og_get_predecessors g i = og_get_bit_set g i"

definition og_get_consumers :: "op_graph \<Rightarrow> nat \<Rightarrow> op_set panics" where
  "og_get_consumers g v = og_get_bit_set g (og_total_ops g + v)"

definition og_uses_remaining :: "op_graph \<Rightarrow> op_set \<Rightarrow> nat \<Rightarrow> nat panics" where
  "og_uses_remaining g completed v =
     do { consumers \<leftarrow> og_get_consumers g v;
          sub_checked (os_count_members consumers) (os_intersect_count consumers completed) }"

definition og_get_op :: "op_graph \<Rightarrow> nat \<Rightarrow> op_view panics" where
  "og_get_op g i =
     do { op \<leftarrow> iv_index (og_operations g) i;
          j \<leftarrow> idx_add i 1;
          let e = (case get_at (og_operations g) j of
                     Some next \<Rightarrow> so_inputs_outputs_start next
                   | None \<Rightarrow> og_end_stack_fifo_start g);
          vals \<leftarrow> iv_index_span (og_values_arena g) (span_new (so_inputs_outputs_start op) e);
          ins \<leftarrow> slice_of vals 0 (so_input_count op);
          outs \<leftarrow> slice_from vals (so_input_count op);
          preds \<leftarrow> og_get_predecessors g i;
          Some \<lparr>ov_inputs_fifo = ins, ov_outputs_fifo = outs, ov_predecessors = preds, ov_kind = so_kind op\<rparr> }"

section \<open>The builder\<close>

record graph_storage =
  gs_op_predecessors :: "u8 list list"
  gs_operations :: "stored_op_view list"
  gs_values :: "(nat option \<times> u8 list) list"
  gs_values_arena :: "nat list"

definition graph_empty :: graph_storage where
  "graph_empty = \<lparr>gs_op_predecessors = [], gs_operations = [], gs_values = [], gs_values_arena = []\<rparr>"

definition add_to_set :: "u8 list \<Rightarrow> nat \<Rightarrow> u8 list panics" where
  "add_to_set ws i =
     do { let ws = (if length ws \<le> i div 8 then resize (Suc (i div 8)) 0 ws else ws);
          w \<leftarrow> get_at ws (i div 8);
          set_at ws (i div 8) (w OR push_bit (i mod 8) 1) }"

definition copy_bitset :: "u8 list \<Rightarrow> u8 list \<Rightarrow> u8 list panics" where
  "copy_bitset dst src = do { ensure (length src \<le> length dst); Some (src @ drop (length src) dst) }"

definition push_input_value :: "graph_storage \<Rightarrow> (nat \<times> graph_storage) panics" where
  "push_input_value st = do { (v, vals) \<leftarrow> iv_push (gs_values st) (None, []); Some (v, st\<lparr>gs_values := vals\<rparr>) }"

definition end_inputs_begin_ops :: "graph_storage \<Rightarrow> nat panics" where
  "end_inputs_begin_ops st = iv_next_idx (gs_values st)"

definition begin_op :: "op_node_kind \<Rightarrow> graph_storage \<Rightarrow> (nat \<times> graph_storage) panics" where
  "begin_op kind st =
     do { start \<leftarrow> iv_next_idx (gs_values_arena st);
          (op, ops) \<leftarrow> iv_push (gs_operations st) \<lparr>so_inputs_outputs_start = start, so_input_count = 0, so_kind = kind\<rparr>;
          (p, preds) \<leftarrow> iv_push (gs_op_predecessors st) [];
          ensure (p = op);
          Some (op, st\<lparr>gs_operations := ops, gs_op_predecessors := preds\<rparr>) }"

definition add_predecessor :: "nat \<Rightarrow> nat \<Rightarrow> graph_storage \<Rightarrow> graph_storage panics" where
  "add_predecessor op pred st =
     do { ws \<leftarrow> iv_index (gs_op_predecessors st) op;
          ws \<leftarrow> add_to_set ws pred;
          preds \<leftarrow> iv_set (gs_op_predecessors st) op ws;
          Some (st\<lparr>gs_op_predecessors := preds\<rparr>) }"

definition add_input :: "nat \<Rightarrow> nat \<Rightarrow> graph_storage \<Rightarrow> graph_storage panics" where
  "add_input op v st =
     do { (_, arena) \<leftarrow> iv_push (gs_values_arena st) v;
          o_view \<leftarrow> iv_index (gs_operations st) op;
          n \<leftarrow> add_u32 (so_input_count o_view) 1;
          ops \<leftarrow> iv_set (gs_operations st) op (o_view\<lparr>so_input_count := n\<rparr>);
          (source, consumers) \<leftarrow> iv_index (gs_values st) v;
          consumers \<leftarrow> add_to_set consumers op;
          vals \<leftarrow> iv_set (gs_values st) v (source, consumers);
          let st = st\<lparr>gs_values_arena := arena, gs_operations := ops, gs_values := vals\<rparr>;
          case source of None \<Rightarrow> Some st | Some src \<Rightarrow> add_predecessor op src st }"

definition add_output :: "nat \<Rightarrow> graph_storage \<Rightarrow> (nat \<times> graph_storage) panics" where
  "add_output op st =
     do { (v, vals) \<leftarrow> iv_push (gs_values st) (Some op, []);
          (_, arena) \<leftarrow> iv_push (gs_values_arena st) v;
          Some (v, st\<lparr>gs_values := vals, gs_values_arena := arena\<rparr>) }"

definition end_ops_begin_end_stack :: "graph_storage \<Rightarrow> nat panics" where
  "end_ops_begin_end_stack st = iv_next_idx (gs_values_arena st)"

definition push_end_stack_value :: "nat \<Rightarrow> graph_storage \<Rightarrow> graph_storage panics" where
  "push_end_stack_value v st =
     do { (_, arena) \<leftarrow> iv_push (gs_values_arena st) v; Some (st\<lparr>gs_values_arena := arena\<rparr>) }"

definition copy_set_at :: "nat \<Rightarrow> u8 list \<Rightarrow> nat \<times> u8 list \<Rightarrow> (nat \<times> u8 list) panics" where
  "copy_set_at w src = (\<lambda>(offset, arena).
     do { tail \<leftarrow> slice_from arena offset;
          dst \<leftarrow> slice_of tail 0 w;
          new \<leftarrow> copy_bitset dst src;
          Some (offset + w, take offset arena @ new @ drop w tail) })"

definition finish_graph :: "graph_storage \<Rightarrow> nat \<Rightarrow> nat \<Rightarrow> op_graph panics" where
  "finish_graph st inputs_end end_start =
     do { a \<leftarrow> iv_next_idx (gs_operations st);
          b \<leftarrow> iv_next_idx (gs_op_predecessors st);
          ensure (a = b);
          let w = div_ceil (length (gs_operations st)) 8;
          let zeros = replicate (w * (length (gs_operations st) + length (gs_values st))) 0;
          s \<leftarrow> fold_panics (copy_set_at w) (gs_op_predecessors st) (0, zeros);
          (_, sets) \<leftarrow> fold_panics (copy_set_at w) (map snd (gs_values st)) s;
          ensure (length (gs_operations st) \<le> u32_max \<and> length (gs_values st) \<le> u32_max);
          Some \<lparr>og_total_ops = length (gs_operations st), og_total_values = length (gs_values st),
            og_inputs_end = inputs_end, og_end_stack_fifo_start = end_start, og_values_arena = gs_values_arena st,
            og_operations = gs_operations st, og_bit_sets_arena = sets\<rparr> }"

end
