(* ===== verification/Tracked_Stack.thy ===== *)
theory Tracked_Stack
  imports Evm_Stack Op_Graph
begin

text \<open>
  The stack that records what it does (\<open>TrackedStack\<close> of \<open>stack-scheduling/src/stack.rs\<close>): every change of the
  symbolic stack is emitted as a stack operation, and spilled values are remembered with the allocation that
  holds them.  \<open>tk_ops\<close> is what the sink has received, in order.
\<close>

datatype stack_op =
    SSwap nat
  | SDup nat
  | SPop
  | SOp nat
  | SCallRetPush nat
  | SExchange nat nat
  | SStore nat
  | SLoad nat

record schedule_config =
  sc_max_swap_depth :: nat
  sc_max_dup_depth :: nat
  sc_max_exchange_range :: nat
  sc_exchange_cost :: nat

definition stack_op_is_valid :: "schedule_config \<Rightarrow> stack_op \<Rightarrow> bool" where
  "stack_op_is_valid config s =
     (case s of
        SSwap d \<Rightarrow> d \<le> sc_max_swap_depth config
      | SDup d \<Rightarrow> d \<le> sc_max_dup_depth config
      | SExchange n m \<Rightarrow> n + m < 256 \<and> n + m \<le> sc_max_exchange_range config
      | _ \<Rightarrow> True)"

definition max_swap_no_exchange :: "nat \<Rightarrow> schedule_config panics" where
  "max_swap_no_exchange d =
     do { dup \<leftarrow> sub_checked d 1;
          Some \<lparr>sc_max_swap_depth = d, sc_max_dup_depth = dup, sc_max_exchange_range = d, sc_exchange_cost = 9\<rparr> }"

definition PRE_AMSTERDAM :: "schedule_config panics" where
  "PRE_AMSTERDAM = max_swap_no_exchange 16"

record tracked_stack =
  tk_next_alloc_id :: nat
  tk_ops :: "stack_op list"
  tk_spilled :: "(nat \<times> nat) list"
  tk_inner :: evm_stack

definition tk_new_from_evm :: "nat \<Rightarrow> stack_op list \<Rightarrow> evm_stack \<Rightarrow> tracked_stack" where
  "tk_new_from_evm next_alloc ops inner = \<lparr>tk_next_alloc_id = next_alloc, tk_ops = ops, tk_spilled = [], tk_inner = inner\<rparr>"

definition tk_emit :: "stack_op \<Rightarrow> tracked_stack \<Rightarrow> tracked_stack" where
  "tk_emit s t = t\<lparr>tk_ops := tk_ops t @ [s]\<rparr>"

definition tk_pop_inner :: "tracked_stack \<Rightarrow> (nat \<times> tracked_stack) panics" where
  "tk_pop_inner t =
     do { (v, inner) \<leftarrow> es_pop (tk_inner t); v \<leftarrow> v; Some (v, t\<lparr>tk_inner := inner\<rparr>) }"

definition tk_push_inner :: "nat \<Rightarrow> tracked_stack \<Rightarrow> tracked_stack panics" where
  "tk_push_inner v t = do { inner \<leftarrow> es_push v (tk_inner t); Some (t\<lparr>tk_inner := inner\<rparr>) }"

definition tk_pop :: "tracked_stack \<Rightarrow> tracked_stack panics" where
  "tk_pop t = do { (_, t) \<leftarrow> tk_pop_inner t; Some (tk_emit SPop t) }"

definition op_stack_op :: "op_node_kind \<Rightarrow> stack_op \<times> bool" where
  "op_stack_op k =
     (case k of
        Flippable i \<Rightarrow> (SOp i, True)
      | Normal i \<Rightarrow> (SOp i, False)
      | RetDestPush i \<Rightarrow> (SCallRetPush i, False))"

text \<open>The operands are popped in turn; \<open>flipping\<close> is set when the first is the second operand of a flippable operation.\<close>

fun tk_take_inputs :: "bool \<Rightarrow> nat list \<Rightarrow> nat \<Rightarrow> nat list \<Rightarrow> bool \<times> tracked_stack \<Rightarrow> (bool \<times> tracked_stack) panics" where
  "tk_take_inputs flippable ins i [] s = Some s"
| "tk_take_inputs flippable ins i (target # rest) (flipping, t) =
     do { (actual, t) \<leftarrow> tk_pop_inner t;
          (correct, flipping) \<leftarrow>
            (if flippable \<and> i = 0
             then do { second \<leftarrow> get_at ins 1;
                       Some (if actual = second then (True, True) else (target = actual, flipping)) }
             else if flippable \<and> flipping \<and> i = 1
             then do { first \<leftarrow> get_at ins 0; Some (actual = first, flipping) }
             else Some (target = actual, flipping));
          ensure correct;
          tk_take_inputs flippable ins (Suc i) rest (flipping, t) }"

definition tk_op :: "op_graph \<Rightarrow> nat \<Rightarrow> tracked_stack \<Rightarrow> tracked_stack panics" where
  "tk_op g op_id t =
     do { op \<leftarrow> og_get_op g op_id;
          let (stack_op, flippable) = op_stack_op (ov_kind op);
          (_, t) \<leftarrow> tk_take_inputs flippable (ov_inputs_fifo op) 0 (ov_inputs_fifo op) (False, t);
          fold_panics tk_push_inner (rev (ov_outputs_fifo op)) (tk_emit stack_op t) }"

definition tk_swap :: "nat \<Rightarrow> tracked_stack \<Rightarrow> tracked_stack panics" where
  "tk_swap d t =
     do { ensure (0 < d); inner \<leftarrow> es_swap_with_top d (tk_inner t); Some (tk_emit (SSwap d) (t\<lparr>tk_inner := inner\<rparr>)) }"

definition tk_dup :: "nat \<Rightarrow> tracked_stack \<Rightarrow> tracked_stack panics" where
  "tk_dup d t = do { inner \<leftarrow> es_duplicate d (tk_inner t); Some (tk_emit (SDup d) (t\<lparr>tk_inner := inner\<rparr>)) }"

definition tk_get_spilled :: "nat \<Rightarrow> tracked_stack \<Rightarrow> nat option" where
  "tk_get_spilled target t = find_map (\<lambda>(v, alloc). if v = target then Some alloc else None) (rev (tk_spilled t))"

definition tk_spill_top :: "tracked_stack \<Rightarrow> (nat \<times> tracked_stack) panics" where
  "tk_spill_top t =
     do { (target, t) \<leftarrow> tk_pop_inner t;
          let new_alloc_id = tk_next_alloc_id t;
          next \<leftarrow> idx_add new_alloc_id 1;
          t \<leftarrow> Some (tk_emit (SStore new_alloc_id) (t\<lparr>tk_next_alloc_id := next\<rparr>));
          Some (new_alloc_id, t\<lparr>tk_spilled := tk_spilled t @ [(target, new_alloc_id)]\<rparr>) }"

definition tk_unspill :: "nat \<Rightarrow> tracked_stack \<Rightarrow> tracked_stack panics" where
  "tk_unspill target t =
     do { alloc \<leftarrow> tk_get_spilled target t;
          t \<leftarrow> tk_push_inner target t;
          Some (tk_emit (SLoad alloc) t) }"

definition tk_load :: "nat \<Rightarrow> tracked_stack \<Rightarrow> tracked_stack panics" where
  "tk_load target t =
     do { value \<leftarrow> find_map (\<lambda>(v, alloc). if alloc = target then Some v else None) (tk_spilled t);
          t \<leftarrow> tk_push_inner value t;
          Some (tk_emit (SLoad target) t) }"

end
