(* ===== verification/Scheduler.thy ===== *)
theory Scheduler
  imports Tracked_Stack
begin

text \<open>
  The scheduler of a block (\<open>stack-scheduling/src/scheduler.rs\<close>, and \<open>collect_next_completable_into\<close> of \<open>state.rs\<close>):
  it runs an operation all of whose predecessors are complete, copying its inputs to the top of the stack, until
  none is left.  The loop takes fuel, one unit per round.
\<close>

text \<open>A value that is in the way is dropped when a copy of it is spilled already, and spilled otherwise.\<close>

definition clear_top :: "tracked_stack \<Rightarrow> tracked_stack panics" where
  "clear_top t =
     do { top \<leftarrow> es_top (tk_inner t);
          top \<leftarrow> top;
          case tk_get_spilled top t of
            Some _ \<Rightarrow> tk_pop t
          | None \<Rightarrow> do { (_, t) \<leftarrow> tk_spill_top t; Some t } }"

definition schedule_input :: "schedule_config \<Rightarrow> nat \<Rightarrow> tracked_stack \<Rightarrow> tracked_stack panics" where
  "schedule_input config input t =
     do { depth \<leftarrow> es_find_first input (tk_inner t);
          depth \<leftarrow> depth;
          if depth \<le> sc_max_dup_depth config then tk_dup (depth mod 256) t
          else (case tk_get_spilled input t of
            Some spilled \<Rightarrow> tk_load spilled t
          | None \<Rightarrow>
              do { let delta_to_max = depth - sc_max_dup_depth config;
                   fifo \<leftarrow> es_fifo (tk_inner t);
                   in_the_way \<leftarrow> slice_of fifo 0 delta_to_max;
                   t \<leftarrow> fold_panics (\<lambda>_. clear_top) [0..<delta_to_max] t;
                   t \<leftarrow> tk_dup (sc_max_dup_depth config) t;
                   (_, t) \<leftarrow> tk_spill_top t;
                   t \<leftarrow> fold_panics tk_unspill (rev in_the_way) t;
                   tk_unspill input t }) }"

definition dumb_schedule_op :: "schedule_config \<Rightarrow> op_graph \<Rightarrow> nat \<Rightarrow> tracked_stack \<Rightarrow> tracked_stack panics" where
  "dumb_schedule_op config g op t =
     do { op_view \<leftarrow> og_get_op g op;
          t \<leftarrow> fold_panics (schedule_input config) (rev (ov_inputs_fifo op_view)) t;
          tk_op g op t }"

definition collect_op :: "op_graph \<Rightarrow> op_set \<Rightarrow> nat \<Rightarrow> op_set \<Rightarrow> op_set panics" where
  "collect_op g complete op out =
     do { finished \<leftarrow> os_contains complete op;
          if finished then Some out
          else do { preds \<leftarrow> og_get_predecessors g op;
                    if os_is_super complete preds then os_add op out else Some out } }"

definition collect_next_completable_into :: "op_graph \<Rightarrow> op_set \<Rightarrow> op_set \<Rightarrow> op_set panics" where
  "collect_next_completable_into g complete out =
     do { ops \<leftarrow> og_op_ids g; fold_panics (collect_op g complete) ops out }"

fun schedule_loop :: "nat \<Rightarrow> schedule_config \<Rightarrow> op_graph \<Rightarrow> op_set \<Rightarrow> op_set \<Rightarrow> tracked_stack \<Rightarrow> tracked_stack panics" where
  "schedule_loop 0 config g completable complete t = None"
| "schedule_loop (Suc fuel) config g completable complete t =
     do { completable \<leftarrow> collect_next_completable_into g complete (os_clear completable);
          ids \<leftarrow> os_iter completable;
          case ids of
            [] \<Rightarrow> Some t
          | op # _ \<Rightarrow>
              do { t \<leftarrow> dumb_schedule_op config g op t;
                   complete \<leftarrow> os_add op complete;
                   schedule_loop fuel config g completable complete t } }"

text \<open>The inputs of the block are on the stack when it starts.\<close>

definition schedule_start :: "nat \<Rightarrow> op_graph \<Rightarrow> tracked_stack panics" where
  "schedule_start next_alloc g =
     do { ids \<leftarrow> span_iter_rev (og_input_values_fifo g);
          inner \<leftarrow> fold_panics es_push ids es_new;
          Some (tk_new_from_evm next_alloc [] inner) }"

definition schedule_ops :: "nat \<Rightarrow> nat \<Rightarrow> schedule_config \<Rightarrow> op_graph \<Rightarrow> tracked_stack panics" where
  "schedule_ops fuel next_alloc config g =
     do { completable \<leftarrow> op_set_new (replicate (og_words_per_set g) 0) (og_total_ops g);
          complete \<leftarrow> op_set_new (replicate (og_words_per_set g) 0) (og_total_ops g);
          t \<leftarrow> schedule_start next_alloc g;
          schedule_loop fuel config g completable complete t }"

end
