(* ===== verification/Stack_Machine.thy ===== *)
theory Stack_Machine
  imports Scheduler
begin

text \<open>
  What the emitted stack operations do: a stack of values and the values stored in allocations.  \<open>node\<close> gives the
  inputs and outputs of an operation of the block, and whether its first two inputs may be flipped.  The
  operations of the tracked stack are simulated by their emission.
\<close>

type_synonym machine = "nat list \<times> (nat \<rightharpoonup> nat)"
type_synonym nodes = "stack_op \<Rightarrow> (nat list \<times> nat list \<times> bool) option"

definition accepts :: "bool \<Rightarrow> nat list \<Rightarrow> nat list \<Rightarrow> bool" where
  "accepts flip ins xs \<longleftrightarrow> xs = ins \<or> (flip \<and> (\<exists>a b rest. ins = a # b # rest \<and> xs = b # a # rest))"

definition apply_node :: "nodes \<Rightarrow> stack_op \<Rightarrow> machine \<Rightarrow> machine option" where
  "apply_node node s = (\<lambda>(xs, M).
     (case node s of
        None \<Rightarrow> None
      | Some (ins, outs, flip) \<Rightarrow>
          if accepts flip ins (take (length ins) xs) then Some (outs @ drop (length ins) xs, M) else None))"

fun exec_stack_op :: "nodes \<Rightarrow> stack_op \<Rightarrow> machine \<Rightarrow> machine option" where
  "exec_stack_op node (SSwap d) (xs, M) = map_option (\<lambda>ys. (ys, M)) (swap_at xs 0 d)"
| "exec_stack_op node (SDup d) (xs, M) = map_option (\<lambda>v. (v # xs, M)) (get_at xs d)"
| "exec_stack_op node SPop (xs, M) = (case xs of [] \<Rightarrow> None | x # xs \<Rightarrow> Some (xs, M))"
| "exec_stack_op node (SExchange n m) (xs, M) = map_option (\<lambda>ys. (ys, M)) (swap_at xs n m)"
| "exec_stack_op node (SStore a) (xs, M) = (case xs of [] \<Rightarrow> None | x # xs \<Rightarrow> Some (xs, M(a \<mapsto> x)))"
| "exec_stack_op node (SLoad a) (xs, M) = map_option (\<lambda>v. (v # xs, M)) (M a)"
| "exec_stack_op node (SOp i) s = apply_node node (SOp i) s"
| "exec_stack_op node (SCallRetPush i) s = apply_node node (SCallRetPush i) s"

text \<open>No step leaves more values than the machine holds.\<close>

definition within_limit :: "machine \<Rightarrow> bool" where
  "within_limit m \<longleftrightarrow> length (fst m) \<le> MAX_STACK_LENGTH"

fun exec_stack_ops :: "nodes \<Rightarrow> stack_op list \<Rightarrow> machine \<Rightarrow> machine option" where
  "exec_stack_ops node [] m = Some m"
| "exec_stack_ops node (s # ss) m =
     do { m \<leftarrow> exec_stack_op node s m; if within_limit m then exec_stack_ops node ss m else None }"

lemma exec_stack_ops_append [simp]:
  "exec_stack_ops node (ss @ ss') m = do { m \<leftarrow> exec_stack_ops node ss m; exec_stack_ops node ss' m }"
  by (induction ss arbitrary: m) (auto split: bind_splits)

section \<open>The tracked stack\<close>

text \<open>
  The emission so far takes the machine from \<open>m0\<close> to the symbolic stack \<open>xs\<close>, and every spilled value is in its
  allocation.
\<close>

definition tracks :: "nodes \<Rightarrow> machine \<Rightarrow> tracked_stack \<Rightarrow> nat list \<Rightarrow> bool" where
  "tracks node m0 t xs \<longleftrightarrow> es_rep (tk_inner t) xs
     \<and> (\<exists>M. exec_stack_ops node (tk_ops t) m0 = Some (xs, M)
          \<and> (\<forall>(v, a) \<in> set (tk_spilled t). M a = Some v \<and> a < tk_next_alloc_id t))"

definition is_move :: "stack_op \<Rightarrow> bool" where
  "is_move s \<longleftrightarrow> (case s of SOp _ \<Rightarrow> False | SCallRetPush _ \<Rightarrow> False | _ \<Rightarrow> True)"

text \<open>From \<open>t\<close> to \<open>t'\<close> only valid moves are emitted, and at most \<open>k\<close> allocations are taken.\<close>

definition moved :: "schedule_config \<Rightarrow> nat \<Rightarrow> tracked_stack \<Rightarrow> tracked_stack \<Rightarrow> bool" where
  "moved config k t t' \<longleftrightarrow>
     (\<exists>ss. tk_ops t' = tk_ops t @ ss \<and> (\<forall>s \<in> set ss. is_move s \<and> stack_op_is_valid config s))
     \<and> tk_next_alloc_id t' \<le> tk_next_alloc_id t + k \<and> set (tk_spilled t) \<subseteq> set (tk_spilled t')"

lemma moved_refl: "moved config 0 t t"
  by (simp add: moved_def)

lemma moved_trans: "moved config j t t' \<Longrightarrow> moved config k t' t'' \<Longrightarrow> moved config (j + k) t t''"
  unfolding moved_def by (fastforce simp: ball_Un)

lemma moved_mono: "moved config j t t' \<Longrightarrow> j \<le> k \<Longrightarrow> moved config k t t'"
  unfolding moved_def by auto

text \<open>One emitted step.\<close>

lemma tracks_emit:
  assumes "tracks node m0 t xs" and "es_rep inner ys"
    and "\<And>M. \<lbrakk>\<forall>(v, a) \<in> set (tk_spilled t). M a = Some v \<and> a < tk_next_alloc_id t\<rbrakk> \<Longrightarrow>
      \<exists>M'. exec_stack_op node s (xs, M) = Some (ys, M') \<and> (\<forall>(v, a) \<in> set spilled. M' a = Some v \<and> a < next)"
  shows "tracks node m0 \<lparr>tk_next_alloc_id = next, tk_ops = tk_ops t @ [s], tk_spilled = spilled, tk_inner = inner\<rparr> ys"
proof -
  obtain M where M: "exec_stack_ops node (tk_ops t) m0 = Some (xs, M)" "\<forall>(v, a) \<in> set (tk_spilled t). M a = Some v \<and> a < tk_next_alloc_id t"
    using assms(1) by (auto simp: tracks_def)
  obtain M' where "exec_stack_op node s (xs, M) = Some (ys, M')" "\<forall>(v, a) \<in> set spilled. M' a = Some v \<and> a < next"
    using assms(3) [OF M(2)] by blast
  moreover have "within_limit (ys, M')"
    using es_rep_length [OF assms(2)] by (simp add: within_limit_def)
  ultimately show ?thesis
    using M(1) assms(2) by (simp add: tracks_def)
qed

lemma tracks_rep: "tracks node m0 t xs \<Longrightarrow> es_rep (tk_inner t) xs"
  by (simp add: tracks_def)

lemma tk_pop_tracks:
  assumes t: "tracks node m0 t (x # xs)"
  shows "\<exists>t'. tk_pop t = Some t' \<and> tracks node m0 t' xs \<and> moved config 0 t t'"
proof -
  obtain inner where i: "es_pop (tk_inner t) = Some (Some x, inner)" "es_rep inner xs"
    using es_pop_rep [OF tracks_rep [OF t]] by blast
  let ?t = "\<lparr>tk_next_alloc_id = tk_next_alloc_id t, tk_ops = tk_ops t @ [SPop], tk_spilled = tk_spilled t, tk_inner = inner\<rparr>"
  have "tk_pop t = Some ?t"
    using i(1) by (cases t) (simp add: tk_pop_def tk_pop_inner_def tk_emit_def)
  moreover have "tracks node m0 ?t xs"
    by (rule tracks_emit [OF t i(2)]) auto
  ultimately show ?thesis
    by (auto simp: moved_def is_move_def stack_op_is_valid_def)
qed

lemma tk_dup_tracks:
  assumes t: "tracks node m0 t xs" and d: "d < length xs" "length xs < MAX_STACK_LENGTH" "d \<le> sc_max_dup_depth config"
  shows "\<exists>t'. tk_dup d t = Some t' \<and> tracks node m0 t' (xs ! d # xs) \<and> moved config 0 t t'"
proof -
  obtain inner where i: "es_duplicate d (tk_inner t) = Some inner" "es_rep inner (xs ! d # xs)"
    using es_duplicate_rep [OF tracks_rep [OF t] d(1,2)] by blast
  let ?t = "\<lparr>tk_next_alloc_id = tk_next_alloc_id t, tk_ops = tk_ops t @ [SDup d], tk_spilled = tk_spilled t, tk_inner = inner\<rparr>"
  have "tk_dup d t = Some ?t"
    using i(1) by (cases t) (simp add: tk_dup_def tk_emit_def)
  moreover have "tracks node m0 ?t (xs ! d # xs)"
    by (rule tracks_emit [OF t i(2)]) (use d in auto)
  ultimately show ?thesis
    using d(3) by (auto simp: moved_def is_move_def stack_op_is_valid_def)
qed

lemma tk_swap_tracks:
  assumes t: "tracks node m0 t xs" and d: "0 < d" "d < length xs" "d \<le> sc_max_swap_depth config"
  shows "\<exists>t'. tk_swap d t = Some t' \<and> tracks node m0 t' (xs[0 := xs ! d, d := xs ! 0]) \<and> moved config 0 t t'"
proof -
  have s: "swap_at xs 0 d = Some (xs[0 := xs ! d, d := xs ! 0])"
    using d by (intro swap_at_Some) auto
  obtain inner where i: "es_exchange 0 d (tk_inner t) = Some inner" "es_rep inner (xs[0 := xs ! d, d := xs ! 0])"
    using es_exchange_rep [OF tracks_rep [OF t] s] by blast
  let ?t = "\<lparr>tk_next_alloc_id = tk_next_alloc_id t, tk_ops = tk_ops t @ [SSwap d], tk_spilled = tk_spilled t, tk_inner = inner\<rparr>"
  have "tk_swap d t = Some ?t"
    using i(1) d(1) by (cases t) (simp add: tk_swap_def es_swap_with_top_def tk_emit_def)
  moreover have "tracks node m0 ?t (xs[0 := xs ! d, d := xs ! 0])"
    by (rule tracks_emit [OF t i(2)]) (use s in auto)
  ultimately show ?thesis
    using d(3) by (auto simp: moved_def is_move_def stack_op_is_valid_def)
qed

lemma tk_spill_tracks:
  assumes t: "tracks node m0 t (x # xs)" and room: "is_idx (Suc (tk_next_alloc_id t))"
  shows "\<exists>a t'. tk_spill_top t = Some (a, t') \<and> tracks node m0 t' xs \<and> moved config 1 t t' \<and> (x, a) \<in> set (tk_spilled t')"
proof -
  obtain inner where i: "es_pop (tk_inner t) = Some (Some x, inner)" "es_rep inner xs"
    using es_pop_rep [OF tracks_rep [OF t]] by blast
  let ?a = "tk_next_alloc_id t"
  let ?t = "\<lparr>tk_next_alloc_id = Suc ?a, tk_ops = tk_ops t @ [SStore ?a], tk_spilled = tk_spilled t @ [(x, ?a)], tk_inner = inner\<rparr>"
  have "tk_spill_top t = Some (?a, ?t)"
    using i(1) room by (cases t) (simp add: tk_spill_top_def tk_pop_inner_def tk_emit_def idx_add_Some bind_Some)
  moreover have "tracks node m0 ?t xs"
    by (rule tracks_emit [OF t i(2)]) fastforce
  ultimately show ?thesis
    by (auto simp: moved_def is_move_def stack_op_is_valid_def)
qed

lemma tk_get_spilled_Some: "tk_get_spilled v t = Some a \<Longrightarrow> (v, a) \<in> set (tk_spilled t)"
  unfolding tk_get_spilled_def by (drule find_map_SomeD) (auto split: if_splits)

lemma tk_get_spilled_known: "(v, a) \<in> set (tk_spilled t) \<Longrightarrow> \<exists>b. tk_get_spilled v t = Some b"
  by (rule ccontr) (auto simp: tk_get_spilled_def find_map_None)

lemma tk_unspill_tracks:
  assumes t: "tracks node m0 t xs" and v: "(v, a) \<in> set (tk_spilled t)" and room: "length xs < MAX_STACK_LENGTH"
  shows "\<exists>t'. tk_unspill v t = Some t' \<and> tracks node m0 t' (v # xs) \<and> moved config 0 t t'"
proof -
  obtain b where b: "tk_get_spilled v t = Some b" "(v, b) \<in> set (tk_spilled t)"
    using tk_get_spilled_known [OF v] tk_get_spilled_Some by blast
  obtain inner where i: "es_push v (tk_inner t) = Some inner" "es_rep inner (v # xs)"
    using es_push_rep [OF tracks_rep [OF t] room] by blast
  let ?t = "\<lparr>tk_next_alloc_id = tk_next_alloc_id t, tk_ops = tk_ops t @ [SLoad b], tk_spilled = tk_spilled t, tk_inner = inner\<rparr>"
  have "tk_unspill v t = Some ?t"
    using i(1) b(1) by (cases t) (simp add: tk_unspill_def tk_push_inner_def tk_emit_def)
  moreover have "tracks node m0 ?t (v # xs)"
    by (rule tracks_emit [OF t i(2)]) (use b(2) in auto)
  ultimately show ?thesis
    by (auto simp: moved_def is_move_def stack_op_is_valid_def)
qed

lemma tk_load_tracks:
  assumes t: "tracks node m0 t xs" and v: "(v, a) \<in> set (tk_spilled t)" and room: "length xs < MAX_STACK_LENGTH"
  shows "\<exists>t'. tk_load a t = Some t' \<and> tracks node m0 t' (v # xs) \<and> moved config 0 t t'"
proof -
  have same: "w = v" if "(w, a) \<in> set (tk_spilled t)" for w
  proof -
    obtain M where "\<forall>(v, a) \<in> set (tk_spilled t). M a = Some v \<and> a < tk_next_alloc_id t"
      using t by (auto simp: tracks_def)
    then have "M a = Some v" "M a = Some w"
      using v that by auto
    then show ?thesis
      by simp
  qed
  have "find_map (\<lambda>(v, alloc). if alloc = a then Some v else None) (tk_spilled t) \<noteq> None"
    using v by (auto simp: find_map_None intro!: bexI [of _ "(v, a)"])
  then obtain w where w: "find_map (\<lambda>(v, alloc). if alloc = a then Some v else None) (tk_spilled t) = Some w"
    by blast
  then have "(w, a) \<in> set (tk_spilled t)"
    by (drule_tac find_map_SomeD) (auto split: if_splits)
  then have find: "find_map (\<lambda>(v, alloc). if alloc = a then Some v else None) (tk_spilled t) = Some v"
    using w same by simp
  obtain inner where i: "es_push v (tk_inner t) = Some inner" "es_rep inner (v # xs)"
    using es_push_rep [OF tracks_rep [OF t] room] by blast
  let ?t = "\<lparr>tk_next_alloc_id = tk_next_alloc_id t, tk_ops = tk_ops t @ [SLoad a], tk_spilled = tk_spilled t, tk_inner = inner\<rparr>"
  have "tk_load a t = Some ?t"
    using i(1) find by (cases t) (simp add: tk_load_def tk_push_inner_def tk_emit_def)
  moreover have "tracks node m0 ?t (v # xs)"
    by (rule tracks_emit [OF t i(2)]) (use v in auto)
  ultimately show ?thesis
    by (auto simp: moved_def is_move_def stack_op_is_valid_def)
qed


section \<open>One input\<close>

lemma clear_top_tracks:
  assumes t: "tracks node m0 t (x # xs)" and room: "is_idx (Suc (tk_next_alloc_id t))"
  shows "\<exists>t'. clear_top t = Some t' \<and> tracks node m0 t' xs \<and> moved config 1 t t' \<and> x \<in> fst ` set (tk_spilled t')"
proof -
  have top: "es_top (tk_inner t) = Some (Some x)"
    using es_views_rep(4) [OF tracks_rep [OF t]] by simp
  show ?thesis
  proof (cases "tk_get_spilled x t")
    case None
    then show ?thesis
      using top tk_spill_tracks [OF t room, of config] by (force simp: clear_top_def)
  next
    case (Some a)
    obtain t' where t': "tk_pop t = Some t'" "tracks node m0 t' xs" "moved config 0 t t'"
      using tk_pop_tracks [OF t] by blast
    moreover have "(x, a) \<in> set (tk_spilled t')"
      using tk_get_spilled_Some [OF Some] t'(3) by (auto simp: moved_def)
    ultimately show ?thesis
      using top Some moved_mono [of config 0 t t' 1] by (force simp: clear_top_def)
  qed
qed

lemma clear_tops_track:
  assumes "tracks node m0 t (ys @ xs)" and "is_idx (tk_next_alloc_id t + length ys)"
  shows "\<exists>t'. fold_panics (\<lambda>_. clear_top) [0..<length ys] t = Some t' \<and> tracks node m0 t' xs
    \<and> moved config (length ys) t t' \<and> set ys \<subseteq> fst ` set (tk_spilled t')"
proof -
  have "\<exists>t'. fold_panics (\<lambda>_. clear_top) is t = Some t' \<and> tracks node m0 t' xs
    \<and> moved config (length ys) t t' \<and> set ys \<subseteq> fst ` set (tk_spilled t')" if "length is = length ys" for "is" :: "nat list"
    using that assms
  proof (induction "is" ys arbitrary: t rule: list_induct2)
    case Nil
    then show ?case
      using moved_refl by simp
  next
    case (Cons i "is" y ys)
    then have "tracks node m0 t (y # ys @ xs)" "is_idx (Suc (tk_next_alloc_id t))"
      by (auto simp: is_idx_def)
    then obtain t1 where t1: "clear_top t = Some t1" "tracks node m0 t1 (ys @ xs)" "moved config 1 t t1" "y \<in> fst ` set (tk_spilled t1)"
      using clear_top_tracks by blast
    moreover have "is_idx (tk_next_alloc_id t1 + length ys)"
      using t1(3) Cons.prems(2) by (auto simp: moved_def is_idx_def)
    ultimately obtain t2 where t2: "fold_panics (\<lambda>_. clear_top) is t1 = Some t2" "tracks node m0 t2 xs"
        "moved config (length ys) t1 t2" "set ys \<subseteq> fst ` set (tk_spilled t2)"
      using Cons.IH by blast
    have "y \<in> fst ` set (tk_spilled t2)"
      using t1(4) t2(3) by (auto simp: moved_def)
    then show ?case
      using t1(1) t2 moved_trans [OF t1(3) t2(3)] by simp
  qed
  then show ?thesis
    by simp
qed

lemma unspills_track:
  assumes "tracks node m0 t xs" and "set ys \<subseteq> fst ` set (tk_spilled t)" and "length ys + length xs \<le> MAX_STACK_LENGTH"
  shows "\<exists>t'. fold_panics tk_unspill (rev ys) t = Some t' \<and> tracks node m0 t' (ys @ xs) \<and> moved config 0 t t'"
  using assms
proof (induction ys)
  case Nil
  then show ?case
    using moved_refl by simp
next
  case (Cons y ys)
  then obtain t1 where t1: "fold_panics tk_unspill (rev ys) t = Some t1" "tracks node m0 t1 (ys @ xs)" "moved config 0 t t1"
    by auto
  obtain a where "(y, a) \<in> set (tk_spilled t1)"
    using Cons.prems(2) t1(3) by (force simp: moved_def)
  then obtain t2 where "tk_unspill y t1 = Some t2" "tracks node m0 t2 (y # ys @ xs)" "moved config 0 t1 t2"
    using tk_unspill_tracks [OF t1(2)] Cons.prems(3) by fastforce
  then show ?case
    using t1(1) moved_trans [OF t1(3), of 0 t2] by simp
qed

lemma moved_spilled: "moved config k t t' \<Longrightarrow> set (tk_spilled t) \<subseteq> set (tk_spilled t')"
  by (simp add: moved_def)

text \<open>A value below the reach of a copy: what is above it is moved away and brought back.\<close>

lemma fetch_deep:
  assumes t: "tracks node m0 t xs" and at: "d < length xs" "xs ! d = v" and deep: "sc_max_dup_depth config < d"
    and room: "length xs < MAX_STACK_LENGTH" and idx: "is_idx (tk_next_alloc_id t + MAX_STACK_LENGTH)"
  shows "\<exists>t1 t2 a t3 t4 t5. fold_panics (\<lambda>_. clear_top) [0..<d - sc_max_dup_depth config] t = Some t1
    \<and> tk_dup (sc_max_dup_depth config) t1 = Some t2 \<and> tk_spill_top t2 = Some (a, t3)
    \<and> fold_panics tk_unspill (rev (take (d - sc_max_dup_depth config) xs)) t3 = Some t4 \<and> tk_unspill v t4 = Some t5
    \<and> tracks node m0 t5 (v # xs) \<and> moved config MAX_STACK_LENGTH t t5"
proof -
  let ?m = "sc_max_dup_depth config"
  let ?n = "d - ?m"
  let ?ys = "take ?n xs" and ?zs = "drop ?n xs"
  have len: "length ?ys = ?n" "?n < MAX_STACK_LENGTH"
    using at(1) room by auto
  obtain t1 where t1: "fold_panics (\<lambda>_. clear_top) [0..<?n] t = Some t1" "tracks node m0 t1 ?zs" "moved config ?n t t1"
      "set ?ys \<subseteq> fst ` set (tk_spilled t1)"
    using clear_tops_track [of node m0 t ?ys ?zs config] t idx len by (auto simp: is_idx_def)
  have "?zs ! ?m = v" "?m < length ?zs" "length ?zs < MAX_STACK_LENGTH"
    using at deep room by auto
  then obtain t2 where t2: "tk_dup ?m t1 = Some t2" "tracks node m0 t2 (v # ?zs)" "moved config 0 t1 t2"
    using tk_dup_tracks [OF t1(2), of ?m config] by auto
  have "is_idx (Suc (tk_next_alloc_id t2))"
    using t1(3) t2(3) idx len(2) by (auto simp: moved_def is_idx_def)
  then obtain a t3 where t3: "tk_spill_top t2 = Some (a, t3)" "tracks node m0 t3 ?zs" "moved config 1 t2 t3" "(v, a) \<in> set (tk_spilled t3)"
    using tk_spill_tracks [OF t2(2)] by blast
  have m3: "moved config (?n + (0 + 1)) t t3"
    by (rule moved_trans [OF t1(3) moved_trans [OF t2(3) t3(3)]])
  have "set ?ys \<subseteq> fst ` set (tk_spilled t3)"
    using t1(4) image_mono [OF order_trans [OF moved_spilled [OF t2(3)] moved_spilled [OF t3(3)]], of fst] by (rule order_trans)
  then obtain t4 where t4: "fold_panics tk_unspill (rev ?ys) t3 = Some t4" "tracks node m0 t4 xs" "moved config 0 t3 t4"
    using unspills_track [OF t3(2), of ?ys config] room at(1) by auto
  have "(v, a) \<in> set (tk_spilled t4)"
    using t3(4) moved_spilled [OF t4(3)] by blast
  then obtain t5 where t5: "tk_unspill v t4 = Some t5" "tracks node m0 t5 (v # xs)" "moved config 0 t4 t5"
    using tk_unspill_tracks [OF t4(2) _ room] by blast
  have "moved config (?n + (0 + 1) + (0 + 0)) t t5"
    by (rule moved_trans [OF m3 moved_trans [OF t4(3) t5(3)]])
  then have "moved config MAX_STACK_LENGTH t t5"
    by (rule moved_mono) (use len(2) in simp)
  then show ?thesis
    using t1(1) t2(1) t3(1) t4(1) t5(1,2) by blast
qed

text \<open>Copying an input to the top changes nothing else, whichever way it goes.\<close>

lemma schedule_input_tracks:
  assumes t: "tracks node m0 t xs" and v: "v \<in> set xs" and room: "length xs < MAX_STACK_LENGTH"
    and idx: "is_idx (tk_next_alloc_id t + MAX_STACK_LENGTH)" and u8: "sc_max_dup_depth config < 256"
  shows "\<exists>t'. schedule_input config v t = Some t' \<and> tracks node m0 t' (v # xs) \<and> moved config MAX_STACK_LENGTH t t'"
proof -
  obtain d where d: "position (\<lambda>x. x = v) xs = Some d"
    using v position_None [of "\<lambda>x. x = v" xs] by blast
  then have at: "d < length xs" "xs ! d = v"
    by (auto simp: position_Some)
  have find: "es_find_first v (tk_inner t) = Some (Some d)"
    using es_views_rep(3) [OF tracks_rep [OF t]] d by simp
  let ?m = "sc_max_dup_depth config"
  consider "d \<le> ?m" | a where "\<not> d \<le> ?m" "tk_get_spilled v t = Some a" | "\<not> d \<le> ?m" "tk_get_spilled v t = None"
    by fastforce
  then show ?thesis
  proof cases
    case 1
    then have "schedule_input config v t = tk_dup d t"
      using find u8 by (simp add: schedule_input_def)
    then show ?thesis
      using tk_dup_tracks [OF t at(1) room 1] at(2) moved_mono [of config 0] by fastforce
  next
    case 2
    then have "schedule_input config v t = tk_load a t"
      using find by (simp add: schedule_input_def)
    then show ?thesis
      using tk_load_tracks [OF t tk_get_spilled_Some [OF 2(2)] room, of config] moved_mono [of config 0] by fastforce
  next
    case 3
    then have "slice_of xs 0 (d - ?m) = Some (take (d - ?m) xs)"
      using at(1) by (simp add: slice_of_def)
    then show ?thesis
      using fetch_deep [OF t at _ room idx] find 3 es_fifo_rep [OF tracks_rep [OF t]]
      by (force simp: schedule_input_def)
  qed
qed

lemma schedule_inputs_track:
  assumes "tracks node m0 t xs" and "set vs \<subseteq> set xs" and "length vs + length xs \<le> MAX_STACK_LENGTH"
    and "is_idx (tk_next_alloc_id t + length vs * MAX_STACK_LENGTH)" and u8: "sc_max_dup_depth config < 256"
  shows "\<exists>t'. fold_panics (schedule_input config) (rev vs) t = Some t' \<and> tracks node m0 t' (vs @ xs)
    \<and> moved config (length vs * MAX_STACK_LENGTH) t t'"
  using assms(1-4)
proof (induction vs)
  case Nil
  then show ?case
    using moved_refl by simp
next
  case (Cons v vs)
  then have idx: "is_idx (tk_next_alloc_id t + length vs * MAX_STACK_LENGTH)"
    by (auto simp: is_idx_def)
  then obtain t1 where t1: "fold_panics (schedule_input config) (rev vs) t = Some t1" "tracks node m0 t1 (vs @ xs)"
      "moved config (length vs * MAX_STACK_LENGTH) t t1"
    using Cons.IH Cons.prems by auto
  have "is_idx (tk_next_alloc_id t1 + MAX_STACK_LENGTH)"
    using t1(3) Cons.prems(4) by (auto simp: moved_def is_idx_def)
  then obtain t2 where "schedule_input config v t1 = Some t2" "tracks node m0 t2 (v # vs @ xs)" "moved config MAX_STACK_LENGTH t1 t2"
    using schedule_input_tracks [OF t1(2), of v config] Cons.prems(2,3) u8 by auto
  then show ?case
    using t1(1) moved_trans [OF t1(3), of MAX_STACK_LENGTH t2] by (simp add: add.commute)
qed

end
