(* ===== verification/Op_Sets.thy ===== *)
theory Op_Sets
  imports Op_Graph
begin

text \<open>
  The bit sets of the graph as sets of operations, and the graph of a block as the list of its nodes.
\<close>

section \<open>Sets\<close>

definition os_rep :: "op_set \<Rightarrow> nat \<Rightarrow> nat set \<Rightarrow> bool" where
  "os_rep s n A \<longleftrightarrow> os_total_ops s = n \<and> length (os_words s) = div_ceil n 8 \<and> bits_of (os_words s) = A"

lemma div_ceil_covers: "i < n \<Longrightarrow> i div 8 < div_ceil n 8"
  unfolding div_ceil_def by (auto simp: div_less_iff_less_mult)

lemma os_rep_empty: "os_rep \<lparr>os_words = replicate (div_ceil n 8) 0, os_total_ops = n\<rparr> n {}"
  by (simp add: os_rep_def)

lemma os_clear_rep [abs_simps]: "os_rep s n A \<Longrightarrow> os_rep (os_clear s) n {}"
  by (simp add: os_rep_def os_clear_def map_replicate_const)

lemma os_contains_rep [abs_simps]:
  assumes "os_rep s n A" and "i < n"
  shows "os_contains s i = Some (i \<in> A)"
proof -
  have len: "i div 8 < length (os_words s)"
    using assms div_ceil_covers by (simp add: os_rep_def)
  have "(os_words s ! (i div 8)) AND push_bit (i mod 8) 1 \<noteq> 0 \<longleftrightarrow> bit (os_words s ! (i div 8)) (i mod 8)"
    using test_bit_iff [of "os_words s ! (i div 8)" "i mod 8"] unfolding test_bit_def .
  then show ?thesis
    using assms(1) len by (auto simp: os_contains_def os_rep_def mem_bits_of)
qed

lemma os_add_rep [abs_simps]:
  assumes "os_rep s n A" and "i < n"
  shows "\<exists>s'. os_add i s = Some s' \<and> os_rep s' n (insert i A)"
proof -
  have len: "i div 8 < length (os_words s)"
    using assms div_ceil_covers by (simp add: os_rep_def)
  then show ?thesis
    using assms bits_of_set [of i "os_words s"] by (auto simp: os_add_def os_rep_def)
qed

lemma os_is_super_rep [abs_simps]:
  assumes "os_rep s n A" and "os_rep t n B"
  shows "os_is_super s t \<longleftrightarrow> B \<subseteq> A"
proof -
  have "os_is_super s t \<longleftrightarrow> list_all2 (\<lambda>x y. x AND y = y) (os_words s) (os_words t)"
    using assms by (auto simp: os_is_super_def os_rep_def list_all2_iff list_all_iff)
  then show ?thesis
    using assms super_iff_subset [of "os_words s" "os_words t"] by (simp add: os_rep_def)
qed

lemma os_counts_rep [abs_simps]:
  assumes "os_rep s n A" and "os_rep t n B"
  shows "os_count_members s = card A" and "os_intersect_count s t = card (A \<inter> B)"
  using assms card_bits_of [of "os_words s"] card_bits_of [of "map2 (AND) (os_words s) (os_words t)"]
  by (simp_all add: os_rep_def os_count_members_def os_intersect_count_def bits_of_map2_and)

lemma filter_panics_eval: "(\<And>x. x \<in> set xs \<Longrightarrow> p x = Some (q x)) \<Longrightarrow> filter_panics p xs = Some (filter q xs)"
  by (induction xs) auto

lemma os_iter_rep [abs_simps]:
  assumes "os_rep s n A" and "n \<le> u32_max"
  shows "os_iter s = Some (filter (\<lambda>i. i \<in> A) [0..<n])"
proof -
  have "map_panics idx_new [0..<n] = Some [0..<n]"
    using assms(2) by (auto simp: map_panics_Some list_all2_same idx_new_Some is_idx_def)
  moreover have "os_total_ops s = n"
    using assms(1) by (simp add: os_rep_def)
  moreover have "filter_panics (os_contains s) [0..<n] = Some (filter (\<lambda>i. i \<in> A) [0..<n])"
    by (rule filter_panics_eval) (simp add: os_contains_rep [OF assms(1)])
  ultimately show ?thesis
    by (simp add: os_iter_def)
qed

section \<open>The graph of a block\<close>

record graph_node =
  gn_kind :: op_node_kind
  gn_inputs :: "nat list"
  gn_outputs :: "nat list"
  gn_preds :: "nat set"

record block_graph =
  bg_inputs :: nat
  bg_nodes :: "graph_node list"
  bg_end :: "nat list"

definition graph_rep :: "op_graph \<Rightarrow> block_graph \<Rightarrow> bool" where
  "graph_rep g G \<longleftrightarrow>
     og_total_ops g = length (bg_nodes G) \<and> length (og_operations g) = length (bg_nodes G) \<and> is_idx (length (bg_nodes G))
     \<and> og_inputs_end g = bg_inputs G \<and> is_idx (bg_inputs G) \<and> og_output_values_fifo g = Some (bg_end G)
     \<and> (\<forall>i < length (bg_nodes G). \<exists>v. og_get_op g i = Some v \<and> ov_kind v = gn_kind (bg_nodes G ! i)
          \<and> ov_inputs_fifo v = gn_inputs (bg_nodes G ! i) \<and> ov_outputs_fifo v = gn_outputs (bg_nodes G ! i)
          \<and> og_get_predecessors g i = Some (ov_predecessors v)
          \<and> os_rep (ov_predecessors v) (length (bg_nodes G)) (gn_preds (bg_nodes G ! i)))
     \<and> (\<forall>x < og_total_values g. \<exists>s. og_get_consumers g x = Some s
          \<and> os_rep s (length (bg_nodes G)) {i. i < length (bg_nodes G) \<and> x \<in> set (gn_inputs (bg_nodes G ! i))})"

end
