(* ===== verification/Op_Graph_Builder.thy ===== *)
theory Op_Graph_Builder
  imports Op_Sets
begin

text \<open>
  The builder of the graph (\<open>op_graph/builder.rs\<close>) against the list of nodes it is building: every call extends the
  last node, and \<open>finish\<close> lays the nodes and their sets out so that the views read them back.
\<close>

section \<open>The graph under construction\<close>

definition node_values :: "graph_node \<Rightarrow> nat list" where
  "node_values n = gn_inputs n @ gn_outputs n"

definition arena_size :: "graph_node list \<Rightarrow> nat" where
  "arena_size ns = length (concat (map node_values ns))"

definition set_within :: "u8 list \<Rightarrow> nat \<Rightarrow> nat set \<Rightarrow> bool" where
  "set_within ws n A \<longleftrightarrow> length ws \<le> div_ceil n 8 \<and> bits_of ws = A"

definition consumers_in :: "graph_node list \<Rightarrow> nat \<Rightarrow> nat set" where
  "consumers_in ns x = {i. i < length ns \<and> x \<in> set (gn_inputs (ns ! i))}"

text \<open>\<open>srcs\<close> gives the operation each value comes from, \<open>ends\<close> the values of the end stack.\<close>

definition gs_rep :: "graph_storage \<Rightarrow> nat option list \<Rightarrow> graph_node list \<Rightarrow> nat list \<Rightarrow> bool" where
  "gs_rep st srcs ns ends \<longleftrightarrow>
     length (gs_op_predecessors st) = length ns
     \<and> gs_values_arena st = concat (map node_values ns) @ ends
     \<and> gs_operations st = map (\<lambda>i. \<lparr>so_inputs_outputs_start = arena_size (take i ns),
          so_input_count = length (gn_inputs (ns ! i)), so_kind = gn_kind (ns ! i)\<rparr>) [0..<length ns]
     \<and> (\<forall>i < length ns. set_within (gs_op_predecessors st ! i) (length ns) (gn_preds (ns ! i)))
     \<and> map fst (gs_values st) = srcs
     \<and> (\<forall>x < length srcs. set_within (snd (gs_values st ! x)) (length ns) (consumers_in ns x))
     \<and> (\<forall>n \<in> set ns. set (gn_inputs n) \<subseteq> {..<length srcs})"

lemma div_ceil_mono: "m \<le> n \<Longrightarrow> div_ceil m 8 \<le> div_ceil n 8"
proof -
  assume "m \<le> n"
  have "div_ceil k 8 = (k + 7) div 8" for k
    unfolding div_ceil_def by presburger
  then show ?thesis
    using \<open>m \<le> n\<close> by (simp add: div_le_mono)
qed

lemma set_within_mono: "set_within ws m A \<Longrightarrow> m \<le> n \<Longrightarrow> set_within ws n A"
  using div_ceil_mono le_trans unfolding set_within_def by blast

lemma set_within_Nil [simp]: "set_within [] n A \<longleftrightarrow> A = {}"
  by (auto simp: set_within_def)

lemma add_to_set_within:
  assumes "set_within ws n A" and "i < n"
  shows "\<exists>ws'. add_to_set ws i = Some ws' \<and> set_within ws' n (insert i A)"
proof -
  define vs where "vs = (if length ws \<le> i div 8 then resize (Suc (i div 8)) 0 ws else ws)"
  have bits: "bits_of vs = A"
    using assms(1) bits_of_resize [of ws "Suc (i div 8)"] by (auto simp: vs_def set_within_def)
  have len: "i div 8 < length vs" "length vs \<le> div_ceil n 8"
    using assms div_ceil_covers [OF assms(2)] by (auto simp: vs_def set_within_def)
  have "add_to_set ws i = Some (vs[i div 8 := (vs ! (i div 8)) OR push_bit (i mod 8) 1])"
    using len(1) by (simp add: add_to_set_def flip: vs_def)
  then show ?thesis
    using bits_of_set [of i vs] len bits by (auto simp: set_within_def)
qed

lemma graph_empty_rep: "gs_rep graph_empty [] [] []"
  by (simp add: gs_rep_def graph_empty_def)

lemma push_input_rep:
  assumes "gs_rep st srcs [] []" and "is_idx (length srcs)"
  shows "\<exists>st'. push_input_value st = Some (length srcs, st') \<and> gs_rep st' (srcs @ [None]) [] []"
proof -
  have "length (gs_values st) = length srcs"
    using assms(1) by (auto simp: gs_rep_def)
  then show ?thesis
    using assms by (auto simp: gs_rep_def push_input_value_def iv_push_def idx_try_from_usize_def is_idx_def
        consumers_in_def nth_append less_Suc_eq)
qed

lemma begin_op_rep:
  assumes st: "gs_rep st srcs ns []" and "is_idx (arena_size ns)" "is_idx (length ns)"
  shows "\<exists>st'. begin_op kind st = Some (length ns, st')
    \<and> gs_rep st' srcs (ns @ [\<lparr>gn_kind = kind, gn_inputs = [], gn_outputs = [], gn_preds = {}\<rparr>]) []"
proof -
  let ?n = "\<lparr>gn_kind = kind, gn_inputs = [], gn_outputs = [], gn_preds = {}\<rparr>"
  let ?st = "st\<lparr>gs_operations := gs_operations st @ [\<lparr>so_inputs_outputs_start = arena_size ns, so_input_count = 0, so_kind = kind\<rparr>],
      gs_op_predecessors := gs_op_predecessors st @ [[]]\<rparr>"
  have "begin_op kind st = Some (length ns, ?st)"
    using assms by (simp add: gs_rep_def begin_op_def iv_push_in iv_next_idx_in arena_size_def)
  moreover have "consumers_in (ns @ [?n]) x = consumers_in ns x" for x
    by (auto simp: consumers_in_def nth_append less_Suc_eq)
  then have "gs_rep ?st srcs (ns @ [?n]) []"
    using st by (auto simp: gs_rep_def nth_append less_Suc_eq node_values_def intro: set_within_mono)
  ultimately show ?thesis
    by blast
qed

lemma gs_rep_last_preds:
  assumes st: "gs_rep st srcs (ms @ [n]) ends" and ws: "set_within ws (Suc (length ms)) A"
  shows "gs_rep (st\<lparr>gs_op_predecessors := (gs_op_predecessors st)[length ms := ws]\<rparr>) srcs (ms @ [n\<lparr>gn_preds := A\<rparr>]) ends"
proof -
  have "consumers_in (ms @ [n\<lparr>gn_preds := A\<rparr>]) x = consumers_in (ms @ [n]) x" for x
    by (auto simp: consumers_in_def nth_append less_Suc_eq)
  then show ?thesis
    using assms by (auto simp: gs_rep_def nth_append nth_list_update node_values_def)
qed

lemma add_predecessor_rep:
  assumes st: "gs_rep st srcs (ms @ [n]) ends" and p: "p \<le> length ms"
  shows "\<exists>st'. add_predecessor (length ms) p st = Some st' \<and> gs_rep st' srcs (ms @ [n\<lparr>gn_preds := insert p (gn_preds n)\<rparr>]) ends"
proof -
  have len: "length ms < length (gs_op_predecessors st)"
    using st by (simp add: gs_rep_def)
  have "set_within (gs_op_predecessors st ! length ms) (Suc (length ms)) (gn_preds n)"
    using st unfolding gs_rep_def by (auto dest: spec [of _ "length ms"])
  then obtain ws where ws: "add_to_set (gs_op_predecessors st ! length ms) p = Some ws"
      "set_within ws (Suc (length ms)) (insert p (gn_preds n))"
    using add_to_set_within p by (metis le_imp_less_Suc)
  then show ?thesis
    using gs_rep_last_preds [OF st ws(2)] len by (auto simp: add_predecessor_def iv_index_def iv_set_def)
qed

lemma add_input_rep:
  assumes st: "gs_rep st srcs (ms @ [n]) []" and v: "v < length srcs" "\<forall>p. srcs ! v = Some p \<longrightarrow> p \<le> length ms"
    and out: "gn_outputs n = []" and room: "is_idx (arena_size (ms @ [n]))"
  shows "\<exists>st'. add_input (length ms) v st = Some st'
    \<and> gs_rep st' srcs (ms @ [n\<lparr>gn_inputs := gn_inputs n @ [v], gn_preds := gn_preds n \<union> set_option (srcs ! v)\<rparr>]) []"
proof -
  let ?n = "n\<lparr>gn_inputs := gn_inputs n @ [v]\<rparr>" and ?k = "length ms"
  have F: "gs_values_arena st = concat (map node_values (ms @ [n]))" "length (gs_operations st) = Suc ?k"
      "gs_operations st ! ?k = \<lparr>so_inputs_outputs_start = arena_size ms, so_input_count = length (gn_inputs n), so_kind = gn_kind n\<rparr>"
      "map fst (gs_values st) = srcs" "set_within (snd (gs_values st ! v)) (Suc ?k) (consumers_in (ms @ [n]) v)"
    using st v(1) by (auto simp: gs_rep_def simp del: upt_Suc)
  have vlen: "v < length (gs_values st)" and src: "fst (gs_values st ! v) = srcs ! v"
    using F(4) v(1) by auto
  have count: "length (gn_inputs n) + 1 \<le> u32_max"
    using room by (auto simp: arena_size_def node_values_def is_idx_def)
  obtain ws where ws: "add_to_set (snd (gs_values st ! v)) ?k = Some ws" "set_within ws (Suc ?k) (insert ?k (consumers_in (ms @ [n]) v))"
    using add_to_set_within [OF F(5), of ?k] by auto
  define st1 where "st1 = st\<lparr>gs_values_arena := gs_values_arena st @ [v],
    gs_operations := (gs_operations st)[?k := (gs_operations st ! ?k)\<lparr>so_input_count := length (gn_inputs n) + 1\<rparr>],
    gs_values := (gs_values st)[v := (srcs ! v, ws)]\<rparr>"
  have cons: "consumers_in (ms @ [?n]) x = (if x = v then insert ?k (consumers_in (ms @ [n]) x) else consumers_in (ms @ [n]) x)" for x
    by (auto simp: consumers_in_def nth_append less_Suc_eq)
  have ops: "gs_operations st1 = map (\<lambda>i. \<lparr>so_inputs_outputs_start = arena_size (take i (ms @ [?n])),
          so_input_count = length (gn_inputs ((ms @ [?n]) ! i)), so_kind = gn_kind ((ms @ [?n]) ! i)\<rparr>) [0..<length (ms @ [?n])]"
    using st by (auto simp: st1_def gs_rep_def nth_append list_update_append intro: nth_equalityI)
  have rep1: "gs_rep st1 srcs (ms @ [?n]) []"
    using st ws(2) v(1) out ops unfolding gs_rep_def cons
    by (auto simp: st1_def node_values_def nth_list_update nth_append less_Suc_eq map_update list_update_same_conv simp del: upt_Suc)
  have step: "add_input ?k v st = (case srcs ! v of None \<Rightarrow> Some st1 | Some p \<Rightarrow> add_predecessor ?k p st1)"
    using F vlen src count ws(1) room
    by (simp add: add_input_def iv_push_in iv_next_idx_in arena_size_def iv_index_def iv_set_def add_u32_def st1_def case_prod_unfold split: option.splits)
  show ?thesis
  proof (cases "srcs ! v")
    case None
    then show ?thesis
      using step rep1 by auto
  next
    case (Some p)
    then show ?thesis
      using step add_predecessor_rep [OF rep1, of p] v(2) by auto
  qed
qed

lemma add_output_rep:
  assumes st: "gs_rep st srcs (ms @ [n]) []" and room: "is_idx (length srcs)" "is_idx (arena_size (ms @ [n]))"
  shows "\<exists>st'. add_output (length ms) st = Some (length srcs, st')
    \<and> gs_rep st' (srcs @ [Some (length ms)]) (ms @ [n\<lparr>gn_outputs := gn_outputs n @ [length srcs]\<rparr>]) []"
proof -
  let ?n = "n\<lparr>gn_outputs := gn_outputs n @ [length srcs]\<rparr>"
  let ?st = "st\<lparr>gs_values := gs_values st @ [(Some (length ms), [])], gs_values_arena := gs_values_arena st @ [length srcs]\<rparr>"
  have F: "gs_values_arena st = concat (map node_values (ms @ [n]))" "length (gs_values st) = length srcs"
    using st by (auto simp: gs_rep_def)
  have step: "add_output (length ms) st = Some (length srcs, ?st)"
    using F room by (simp add: add_output_def iv_push_in iv_next_idx_in arena_size_def)
  have cons: "consumers_in (ms @ [?n]) x = consumers_in (ms @ [n]) x" for x
    by (auto simp: consumers_in_def nth_append less_Suc_eq)
  have "consumers_in (ms @ [n]) (length srcs) = {}"
  proof -
    have "length srcs \<notin> set (gn_inputs m)" if "m \<in> set (ms @ [n])" for m
      using st that unfolding gs_rep_def by blast
    then show ?thesis
      unfolding consumers_in_def by (metis (mono_tags, lifting) empty_Collect_eq nth_mem)
  qed
  moreover have "gs_operations ?st = map (\<lambda>i. \<lparr>so_inputs_outputs_start = arena_size (take i (ms @ [?n])),
          so_input_count = length (gn_inputs ((ms @ [?n]) ! i)), so_kind = gn_kind ((ms @ [?n]) ! i)\<rparr>) [0..<length (ms @ [?n])]"
    using st by (simp add: gs_rep_def nth_append)
  moreover have "set_within (gs_op_predecessors st ! i) (Suc (length ms)) (gn_preds ((ms @ [?n]) ! i))" if "i < Suc (length ms)" for i
    using st that unfolding gs_rep_def by (cases "i = length ms") (auto simp: nth_append)
  moreover have "set_within (snd (gs_values ?st ! x)) (Suc (length ms)) (consumers_in (ms @ [n]) x)" if "x < Suc (length srcs)" for x
    using st that F(2) \<open>consumers_in (ms @ [n]) (length srcs) = {}\<close> unfolding gs_rep_def
    by (cases "x = length srcs") (auto simp: nth_append)
  moreover have "set (gn_inputs m) \<subseteq> {..<Suc (length srcs)}" if "m \<in> set (ms @ [?n])" for m
    using st that unfolding gs_rep_def by (auto dest!: bspec simp: subset_iff less_Suc_eq)
  moreover have "length (gs_op_predecessors st) = Suc (length ms)" "map fst (gs_values st) = srcs"
    using st by (simp_all add: gs_rep_def)
  ultimately have "gs_rep ?st (srcs @ [Some (length ms)]) (ms @ [?n]) []"
    using F(1) unfolding gs_rep_def cons by (simp add: node_values_def del: upt_Suc)
  then show ?thesis
    using step by blast
qed

lemma push_end_rep:
  assumes st: "gs_rep st srcs ns ends" and room: "is_idx (arena_size ns + length ends)"
  shows "\<exists>st'. push_end_stack_value v st = Some st' \<and> gs_rep st' srcs ns (ends @ [v])"
proof -
  have "gs_values_arena st = concat (map node_values ns) @ ends"
    using st by (simp add: gs_rep_def)
  then show ?thesis
    using st room by (auto simp: push_end_stack_value_def iv_push_in iv_next_idx_in arena_size_def gs_rep_def)
qed

section \<open>Finishing\<close>

definition padded :: "nat \<Rightarrow> u8 list \<Rightarrow> u8 list" where
  "padded w ws = ws @ replicate (w - length ws) 0"

lemma padded_within: "set_within ws n A \<Longrightarrow> length (padded (div_ceil n 8) ws) = div_ceil n 8 \<and> bits_of (padded (div_ceil n 8) ws) = A"
  by (simp add: padded_def set_within_def)

lemma copy_sets_run:
  "\<forall>s \<in> set sets. length s \<le> w \<Longrightarrow>
   fold_panics (copy_set_at w) sets (length pre, pre @ replicate (w * (length sets + k)) 0) =
     Some (length pre + w * length sets, pre @ concat (map (padded w) sets) @ replicate (w * k) 0)"
proof (induction sets arbitrary: pre)
  case (Cons s sets)
  have "copy_set_at w s (length pre, pre @ replicate (w * (length (s # sets) + k)) 0) =
      Some (length (pre @ padded w s), (pre @ padded w s) @ replicate (w * (length sets + k)) 0)"
    using Cons.prems by (simp add: copy_set_at_def copy_bitset_def slice_from_def slice_of_def padded_def)
  then show ?case
    using Cons.IH [of "pre @ padded w s"] Cons.prems by (simp add: padded_def)
qed simp

lemma equal_blocks:
  "\<forall>s \<in> set xss. length s = w \<Longrightarrow> i < length xss \<Longrightarrow>
   w * i + w \<le> length (concat xss) \<and> take w (drop (w * i) (concat xss)) = xss ! i"
proof (induction xss arbitrary: i)
  case (Cons x xss)
  then show ?case
    by (cases i) auto
qed simp

lemma arena_nth:
  "i < length ns \<Longrightarrow>
   take (arena_size (take (Suc i) ns) - arena_size (take i ns)) (drop (arena_size (take i ns)) (concat (map node_values ns) @ ends)) = node_values (ns ! i)
   \<and> arena_size (take i ns) \<le> arena_size (take (Suc i) ns) \<and> arena_size (take (Suc i) ns) \<le> length (concat (map node_values ns) @ ends)"
proof -
  assume i: "i < length ns"
  have split: "concat (map node_values ns) = concat (map node_values (take i ns)) @ node_values (ns ! i) @ concat (map node_values (drop (Suc i) ns))"
    by (subst id_take_nth_drop [OF i]) simp
  have "arena_size (take (Suc i) ns) = arena_size (take i ns) + length (node_values (ns ! i))"
    using i by (simp add: arena_size_def take_Suc_conv_app_nth)
  then show ?thesis
    unfolding split by (simp add: arena_size_def)
qed

lemma get_op_read:
  assumes ops: "og_operations g = map (\<lambda>i. \<lparr>so_inputs_outputs_start = arena_size (take i ns),
        so_input_count = length (gn_inputs (ns ! i)), so_kind = gn_kind (ns ! i)\<rparr>) [0..<length ns]"
    and arena: "og_values_arena g = concat (map node_values ns) @ ends" "og_end_stack_fifo_start g = arena_size ns"
    and i: "i < length ns" "is_idx (length ns)" and preds: "og_get_bit_set g i = Some p"
  shows "og_get_op g i = Some \<lparr>ov_inputs_fifo = gn_inputs (ns ! i), ov_outputs_fifo = gn_outputs (ns ! i),
    ov_predecessors = p, ov_kind = gn_kind (ns ! i)\<rparr>"
proof -
  have e: "(case get_at (og_operations g) (Suc i) of Some next \<Rightarrow> so_inputs_outputs_start next | None \<Rightarrow> og_end_stack_fifo_start g)
      = arena_size (take (Suc i) ns)"
    using i arena(2) by (cases "Suc i < length ns") (auto simp: ops get_at_def)
  have "iv_index_span (og_values_arena g) (span_new (arena_size (take i ns)) (arena_size (take (Suc i) ns))) = Some (node_values (ns ! i))"
    using arena_nth [OF i(1), of ends] by (simp add: iv_index_span_def span_new_def slice_of_def arena(1) del: drop_append)
  moreover have "slice_of (node_values (ns ! i)) 0 (length (gn_inputs (ns ! i))) = Some (gn_inputs (ns ! i))"
      "slice_from (node_values (ns ! i)) (length (gn_inputs (ns ! i))) = Some (gn_outputs (ns ! i))"
    by (simp_all add: slice_of_def slice_from_def node_values_def)
  moreover have "iv_index (og_operations g) i = Some \<lparr>so_inputs_outputs_start = arena_size (take i ns),
        so_input_count = length (gn_inputs (ns ! i)), so_kind = gn_kind (ns ! i)\<rparr>"
    using i(1) by (simp add: iv_index_def ops)
  moreover have "idx_add i 1 = Some (Suc i)"
    using i by (simp add: idx_add_Some is_idx_def)
  ultimately show ?thesis
    using e preds by (simp add: og_get_op_def og_get_predecessors_def)
qed

lemma sum_list_all: "\<forall>x \<in> set xs. f x = c \<Longrightarrow> sum_list (map f xs) = c * length xs"
  for f :: "'a \<Rightarrow> nat"
  by (induction xs) auto

lemma finish_graph_rep:
  assumes st: "gs_rep st srcs ns ends" and room: "is_idx (length ns)" "is_idx (length srcs)" "is_idx m"
  shows "\<exists>g. finish_graph st m (arena_size ns) = Some g \<and> og_total_values g = length srcs
    \<and> graph_rep g \<lparr>bg_inputs = m, bg_nodes = ns, bg_end = ends\<rparr>"
proof -
  let ?n = "length ns" and ?w = "div_ceil (length ns) 8" and ?sets = "gs_op_predecessors st @ map snd (gs_values st)"
  let ?g = "\<lparr>og_total_ops = ?n, og_total_values = length srcs, og_inputs_end = m, og_end_stack_fifo_start = arena_size ns,
    og_values_arena = gs_values_arena st, og_operations = gs_operations st, og_bit_sets_arena = concat (map (padded ?w) ?sets)\<rparr>"
  have F: "length (gs_op_predecessors st) = ?n" "length (gs_operations st) = ?n" "length (gs_values st) = length srcs"
      "gs_values_arena st = concat (map node_values ns) @ ends"
    using st by (auto simp: gs_rep_def)
  have W: "set_within (?sets ! k) ?n (if k < ?n then gn_preds (ns ! k) else consumers_in ns (k - ?n))" if "k < ?n + length srcs" for k
    using st that F(1,3) by (auto simp: gs_rep_def nth_append)
  have small: "\<forall>s \<in> set ?sets. length s \<le> ?w"
  proof
    fix s
    assume "s \<in> set ?sets"
    then obtain k where "k < length ?sets" "?sets ! k = s"
      unfolding in_set_conv_nth by blast
    then show "length s \<le> ?w"
      using W [of k] F(1,3) by (simp add: set_within_def del: map_append)
  qed
  have sets: "os_rep \<lparr>os_words = padded ?w (?sets ! k), os_total_ops = ?n\<rparr> ?n (if k < ?n then gn_preds (ns ! k) else consumers_in ns (k - ?n))"
      "og_get_bit_set ?g k = Some \<lparr>os_words = padded ?w (?sets ! k), os_total_ops = ?n\<rparr>" if "k < ?n + length srcs" for k
  proof -
    show "os_rep \<lparr>os_words = padded ?w (?sets ! k), os_total_ops = ?n\<rparr> ?n (if k < ?n then gn_preds (ns ! k) else consumers_in ns (k - ?n))"
      using padded_within [OF W [OF that]] by (simp add: os_rep_def)
    have "length (padded ?w s) = ?w" if "s \<in> set ?sets" for s
      using small that unfolding padded_def by (metis le_add_diff_inverse length_append length_replicate)
    then have "\<forall>s \<in> set (map (padded ?w) ?sets). length s = ?w"
      unfolding list.set_map by blast
    from equal_blocks [OF this, of k] that F(1,3)
    have "?w * k + ?w \<le> length (concat (map (padded ?w) ?sets))" "take ?w (drop (?w * k) (concat (map (padded ?w) ?sets))) = padded ?w (?sets ! k)"
      by (simp_all del: map_append concat_append)
    then show "og_get_bit_set ?g k = Some \<lparr>os_words = padded ?w (?sets ! k), os_total_ops = ?n\<rparr>"
      by (simp add: og_get_bit_set_def og_words_per_set_def slice_from_def slice_of_def add_le_imp_le_diff del: map_append concat_append)
  qed
  have first: "fold_panics (copy_set_at ?w) (gs_op_predecessors st) (0, replicate (?w * (?n + length srcs)) 0) =
      Some (?w * ?n, concat (map (padded ?w) (gs_op_predecessors st)) @ replicate (?w * length srcs) 0)"
    using copy_sets_run [of "gs_op_predecessors st" ?w "[]" "length srcs"] small F(1) by simp
  have "length (concat (map (padded ?w) (gs_op_predecessors st))) = ?w * ?n"
    using sum_list_all [of "gs_op_predecessors st" "\<lambda>s. length (padded ?w s)" ?w] small F(1) by (simp add: length_concat o_def padded_def)
  then have second: "fold_panics (copy_set_at ?w) (map snd (gs_values st))
      (?w * ?n, concat (map (padded ?w) (gs_op_predecessors st)) @ replicate (?w * length srcs) 0) =
      Some (?w * ?n + ?w * length srcs, concat (map (padded ?w) ?sets))"
    using copy_sets_run [of "map snd (gs_values st)" ?w "concat (map (padded ?w) (gs_op_predecessors st))" 0] small F(3) by simp
  have "finish_graph st m (arena_size ns) = Some ?g"
    using F first second room by (simp add: finish_graph_def iv_push_in iv_next_idx_in Let_def is_idx_def)
  moreover have "\<exists>v. og_get_op ?g i = Some v \<and> ov_kind v = gn_kind (ns ! i) \<and> ov_inputs_fifo v = gn_inputs (ns ! i)
      \<and> ov_outputs_fifo v = gn_outputs (ns ! i) \<and> og_get_predecessors ?g i = Some (ov_predecessors v)
      \<and> os_rep (ov_predecessors v) ?n (gn_preds (ns ! i))" if i: "i < ?n" for i
  proof -
    have "gs_operations st = map (\<lambda>i. \<lparr>so_inputs_outputs_start = arena_size (take i ns),
          so_input_count = length (gn_inputs (ns ! i)), so_kind = gn_kind (ns ! i)\<rparr>) [0..<?n]"
      using st by (simp add: gs_rep_def)
    then have "og_get_op ?g i = Some \<lparr>ov_inputs_fifo = gn_inputs (ns ! i), ov_outputs_fifo = gn_outputs (ns ! i),
        ov_predecessors = \<lparr>os_words = padded ?w (?sets ! i), os_total_ops = ?n\<rparr>, ov_kind = gn_kind (ns ! i)\<rparr>"
      using i F(4) sets(2) [of i] room(1) by (intro get_op_read [where ends = ends]) simp_all
    then show ?thesis
      using sets [of i] i by (simp add: og_get_predecessors_def)
  qed
  moreover have "\<exists>s. og_get_consumers ?g x = Some s \<and> os_rep s ?n (consumers_in ns x)" if "x < length srcs" for x
    using sets [of "?n + x"] that by (auto simp: og_get_consumers_def)
  ultimately show ?thesis
    using room F by (auto simp: graph_rep_def og_output_values_fifo_def iv_index_from_def slice_from_def slice_of_def arena_size_def consumers_in_def)
qed

end
