(* ===== verification/Scheduler_Correct.thy ===== *)
theory Scheduler_Correct
  imports Stack_Machine Op_Graph_Builder
begin

text \<open>
  The scheduler runs every operation of the block once, in order, on its own inputs: executing what it emits takes
  the inputs of the block to the values of all its operations.
\<close>

section \<open>One operation\<close>

lemma tk_pop_inner_rep:
  assumes "es_rep (tk_inner t) (x # xs)"
  shows "\<exists>inner. tk_pop_inner t = Some (x, t\<lparr>tk_inner := inner\<rparr>) \<and> es_rep inner xs"
  using es_pop_rep [OF assms] by (auto simp: tk_pop_inner_def)

lemma take_inputs_exact:
  assumes "ins = pre @ rest" and "es_rep (tk_inner t) (rest @ xs)" and "flippable \<longrightarrow> 2 \<le> length ins"
    and "flipping \<longrightarrow> pre \<noteq> [] \<and> ins ! 0 = ins ! 1"
  shows "\<exists>flip inner. tk_take_inputs flippable ins (length pre) rest (flipping, t) = Some (flip, t\<lparr>tk_inner := inner\<rparr>) \<and> es_rep inner xs"
  using assms
proof (induction rest arbitrary: pre flipping t)
  case Nil
  then show ?case
    by (intro exI [of _ flipping] exI [of _ "tk_inner t"]) simp
next
  case (Cons x rest)
  obtain inner where i: "tk_pop_inner t = Some (x, t\<lparr>tk_inner := inner\<rparr>)" "es_rep inner (rest @ xs)"
    using tk_pop_inner_rep [of t x "rest @ xs"] Cons.prems(2) by auto
  have x: "ins ! length pre = x"
    using Cons.prems(1) by simp
  have ne: "0 < length ins"
    using Cons.prems(1) by simp
  define flip where "flip \<longleftrightarrow> flipping \<or> (flippable \<and> pre = [] \<and> ins ! 1 = x)"
  have step: "tk_take_inputs flippable ins (length pre) (x # rest) (flipping, t) =
      tk_take_inputs flippable ins (length (pre @ [x])) rest (flip, t\<lparr>tk_inner := inner\<rparr>)"
    using i(1) x ne Cons.prems(3,4) by (auto simp: flip_def split: if_splits)
  have "\<exists>f inner'. tk_take_inputs flippable ins (length (pre @ [x])) rest (flip, t\<lparr>tk_inner := inner\<rparr>)
      = Some (f, (t\<lparr>tk_inner := inner\<rparr>)\<lparr>tk_inner := inner'\<rparr>) \<and> es_rep inner' xs"
    by (rule Cons.IH) (use Cons.prems i(2) x in \<open>auto simp: flip_def\<close>)
  then show ?case
    using step by simp
qed

lemma push_list_rep:
  "es_rep (tk_inner t) xs \<Longrightarrow> length vs + length xs \<le> MAX_STACK_LENGTH \<Longrightarrow>
   \<exists>inner. fold_panics tk_push_inner (rev vs) t = Some (t\<lparr>tk_inner := inner\<rparr>) \<and> es_rep inner (vs @ xs)"
proof (induction vs)
  case Nil
  then show ?case
    by (intro exI [of _ "tk_inner t"]) simp
next
  case (Cons v vs)
  then obtain inner where i: "fold_panics tk_push_inner (rev vs) t = Some (t\<lparr>tk_inner := inner\<rparr>)" "es_rep inner (vs @ xs)"
    by auto
  obtain inner' where i': "es_push v inner = Some inner'" "es_rep inner' (v # vs @ xs)"
    using es_push_rep [OF i(2)] Cons.prems(2) by auto
  then have "tk_push_inner v (t\<lparr>tk_inner := inner\<rparr>) = Some (t\<lparr>tk_inner := inner'\<rparr>)"
    by (simp add: tk_push_inner_def)
  then show ?case
    using i(1) i'(2) by (intro exI [of _ inner']) simp
qed

lemma tk_op_tracks:
  assumes t: "tracks node m0 t (ins @ xs)" and v: "og_get_op g i = Some v" "ov_inputs_fifo v = ins" "ov_outputs_fifo v = outs"
    and node: "op_stack_op (ov_kind v) = (s, flip)" "node s = Some (ins, outs, flip)" and two: "flip \<longrightarrow> 2 \<le> length ins"
    and room: "length outs + length xs \<le> MAX_STACK_LENGTH"
  shows "\<exists>t'. tk_op g i t = Some t' \<and> tracks node m0 t' (outs @ xs) \<and> tk_ops t' = tk_ops t @ [s]
    \<and> tk_next_alloc_id t' = tk_next_alloc_id t \<and> tk_spilled t' = tk_spilled t"
proof -
  obtain f inner where i: "tk_take_inputs flip ins 0 ins (False, t) = Some (f, t\<lparr>tk_inner := inner\<rparr>)" "es_rep inner xs"
    using take_inputs_exact [of ins "[]" ins t xs flip False] tracks_rep [OF t] two by auto
  obtain inner' where o: "fold_panics tk_push_inner (rev outs) (tk_emit s (t\<lparr>tk_inner := inner\<rparr>)) = Some ((tk_emit s (t\<lparr>tk_inner := inner\<rparr>))\<lparr>tk_inner := inner'\<rparr>)"
      "es_rep inner' (outs @ xs)"
    using push_list_rep [of "tk_emit s (t\<lparr>tk_inner := inner\<rparr>)" xs outs] i(2) room by (auto simp: tk_emit_def)
  let ?t = "\<lparr>tk_next_alloc_id = tk_next_alloc_id t, tk_ops = tk_ops t @ [s], tk_spilled = tk_spilled t, tk_inner = inner'\<rparr>"
  have "tk_op g i t = Some ?t"
    using v node(1) i(1) o(1) by (cases t) (simp add: tk_op_def tk_emit_def)
  moreover have "exec_stack_op node s (ins @ xs, M) = Some (outs @ xs, M)" for M
    using node by (cases "ov_kind v") (auto simp: op_stack_op_def apply_node_def accepts_def)
  then have "tracks node m0 ?t (outs @ xs)"
    using tracks_emit [OF t o(2), of s "tk_spilled t" "tk_next_alloc_id t"] by blast
  ultimately show ?thesis
    by auto
qed

section \<open>The block\<close>

definition node_stack_op :: "graph_node \<Rightarrow> stack_op" where
  "node_stack_op n = fst (op_stack_op (gn_kind n))"

definition node_flips :: "graph_node \<Rightarrow> bool" where
  "node_flips n = snd (op_stack_op (gn_kind n))"

text \<open>The stack after the first \<open>k\<close> operations.\<close>

definition stack_after :: "block_graph \<Rightarrow> nat \<Rightarrow> nat list" where
  "stack_after G k = concat (rev (map gn_outputs (take k (bg_nodes G)))) @ [0..<bg_inputs G]"

lemma stack_after_0: "stack_after G 0 = [0..<bg_inputs G]"
  by (simp add: stack_after_def)

lemma stack_after_Suc: "k < length (bg_nodes G) \<Longrightarrow> stack_after G (Suc k) = gn_outputs (bg_nodes G ! k) @ stack_after G k"
  by (simp add: stack_after_def take_Suc_conv_app_nth)

text \<open>Values are defined before they are used, operations follow their predecessors, and the stack is high enough.\<close>

definition block_schedulable :: "block_graph \<Rightarrow> bool" where
  "block_schedulable G \<longleftrightarrow>
     bg_inputs G \<le> MAX_STACK_LENGTH
     \<and> (\<forall>k < length (bg_nodes G). let n = bg_nodes G ! k in
          gn_preds n \<subseteq> {..<k} \<and> set (gn_inputs n) \<subseteq> set (stack_after G k)
          \<and> length (gn_inputs n) + length (stack_after G k) \<le> MAX_STACK_LENGTH
          \<and> length (gn_outputs n) + length (stack_after G k) \<le> MAX_STACK_LENGTH
          \<and> (node_flips n \<longrightarrow> 2 \<le> length (gn_inputs n)))"

text \<open>The meaning of the operations that are emitted: each stands for one node.\<close>

definition nodes_of :: "block_graph \<Rightarrow> nodes" where
  "nodes_of G s = find_map (\<lambda>n. if node_stack_op n = s then Some (gn_inputs n, gn_outputs n, node_flips n) else None) (bg_nodes G)"

lemma nodes_of_nth:
  assumes "distinct (map node_stack_op (bg_nodes G))" and "k < length (bg_nodes G)"
  shows "nodes_of G (node_stack_op (bg_nodes G ! k)) =
    Some (gn_inputs (bg_nodes G ! k), gn_outputs (bg_nodes G ! k), node_flips (bg_nodes G ! k))"
proof -
  have "find_map (\<lambda>n. if node_stack_op n = node_stack_op (ns ! k) then Some (h n) else None) ns = Some (h (ns ! k))"
    if "distinct (map node_stack_op ns)" "k < length ns" for ns and h :: "graph_node \<Rightarrow> 'b"
    using that
  proof (induction ns arbitrary: k)
    case (Cons n ns)
    show ?case
    proof (cases k)
      case (Suc j)
      then have "node_stack_op n \<noteq> node_stack_op (ns ! j)"
        using Cons.prems by auto
      then show ?thesis
        using Cons Suc by simp
    qed simp
  qed simp
  then show ?thesis
    using assms by (simp add: nodes_of_def)
qed

definition allocs_upto :: "block_graph \<Rightarrow> nat \<Rightarrow> nat" where
  "allocs_upto G k = sum_list (map (\<lambda>n. length (gn_inputs n) * MAX_STACK_LENGTH) (take k (bg_nodes G)))"

lemma allocs_upto_Suc:
  "k < length (bg_nodes G) \<Longrightarrow> allocs_upto G (Suc k) = allocs_upto G k + length (gn_inputs (bg_nodes G ! k)) * MAX_STACK_LENGTH"
  by (simp add: allocs_upto_def take_Suc_conv_app_nth)

text \<open>After \<open>k\<close> rounds: the first \<open>k\<close> operations have run.\<close>

definition scheduled :: "schedule_config \<Rightarrow> block_graph \<Rightarrow> machine \<Rightarrow> nat \<Rightarrow> nat \<Rightarrow> tracked_stack \<Rightarrow> bool" where
  "scheduled config G m0 a0 k t \<longleftrightarrow>
     tracks (nodes_of G) m0 t (stack_after G k)
     \<and> filter (\<lambda>s. \<not> is_move s) (tk_ops t) = map node_stack_op (take k (bg_nodes G))
     \<and> (\<forall>s \<in> set (tk_ops t). is_move s \<longrightarrow> stack_op_is_valid config s)
     \<and> tk_next_alloc_id t \<le> a0 + allocs_upto G k"

lemma node_not_move: "\<not> is_move (node_stack_op n)"
  by (cases "gn_kind n") (simp_all add: node_stack_op_def op_stack_op_def is_move_def)

lemma schedule_op_step:
  assumes G: "graph_rep g G" "block_schedulable G" "distinct (map node_stack_op (bg_nodes G))"
    and k: "k < length (bg_nodes G)" and t: "scheduled config G m0 a0 k t"
    and idx: "is_idx (a0 + allocs_upto G (Suc k))" and u8: "sc_max_dup_depth config < 256"
  shows "\<exists>t'. dumb_schedule_op config g k t = Some t' \<and> scheduled config G m0 a0 (Suc k) t'"
proof -
  let ?n = "bg_nodes G ! k"
  obtain v where v: "og_get_op g k = Some v" "ov_kind v = gn_kind ?n" "ov_inputs_fifo v = gn_inputs ?n" "ov_outputs_fifo v = gn_outputs ?n"
    using G(1) k by (auto simp: graph_rep_def)
  have W: "set (gn_inputs ?n) \<subseteq> set (stack_after G k)" "length (gn_inputs ?n) + length (stack_after G k) \<le> MAX_STACK_LENGTH"
      "length (gn_outputs ?n) + length (stack_after G k) \<le> MAX_STACK_LENGTH" "node_flips ?n \<longrightarrow> 2 \<le> length (gn_inputs ?n)"
    using G(2) k by (auto simp: block_schedulable_def Let_def)
  have T: "tracks (nodes_of G) m0 t (stack_after G k)" "filter (\<lambda>s. \<not> is_move s) (tk_ops t) = map node_stack_op (take k (bg_nodes G))"
      "\<forall>s \<in> set (tk_ops t). is_move s \<longrightarrow> stack_op_is_valid config s" "tk_next_alloc_id t \<le> a0 + allocs_upto G k"
    using t by (auto simp: scheduled_def)
  have "is_idx (tk_next_alloc_id t + length (gn_inputs ?n) * MAX_STACK_LENGTH)"
    using idx T(4) allocs_upto_Suc [OF k] by (simp add: is_idx_def)
  then obtain t1 where t1: "fold_panics (schedule_input config) (rev (gn_inputs ?n)) t = Some t1"
      "tracks (nodes_of G) m0 t1 (gn_inputs ?n @ stack_after G k)" "moved config (length (gn_inputs ?n) * MAX_STACK_LENGTH) t t1"
    using schedule_inputs_track [OF T(1) W(1,2) _ u8] by blast
  have s: "op_stack_op (ov_kind v) = (node_stack_op ?n, node_flips ?n)"
    by (simp add: v(2) node_stack_op_def node_flips_def)
  obtain t2 where t2: "tk_op g k t1 = Some t2" "tracks (nodes_of G) m0 t2 (gn_outputs ?n @ stack_after G k)"
      "tk_ops t2 = tk_ops t1 @ [node_stack_op ?n]" "tk_next_alloc_id t2 = tk_next_alloc_id t1"
    using tk_op_tracks [OF t1(2) v(1,3,4) s nodes_of_nth [OF G(3) k] W(4,3)] by blast
  obtain ss where ss: "tk_ops t1 = tk_ops t @ ss" "\<forall>s \<in> set ss. is_move s \<and> stack_op_is_valid config s"
    using t1(3) by (auto simp: moved_def)
  have "dumb_schedule_op config g k t = Some t2"
    using v(1,3) t1(1) t2(1) by (simp add: dumb_schedule_op_def)
  moreover have "filter (\<lambda>s. \<not> is_move s) (tk_ops t2) = map node_stack_op (take (Suc k) (bg_nodes G))"
    using T(2) ss t2(3) node_not_move k by (simp add: take_Suc_conv_app_nth)
  moreover have "\<forall>s \<in> set (tk_ops t2). is_move s \<longrightarrow> stack_op_is_valid config s"
    using T(3) ss t2(3) node_not_move by auto
  moreover have "tk_next_alloc_id t2 \<le> a0 + allocs_upto G (Suc k)"
    using T(4) t1(3) t2(4) allocs_upto_Suc [OF k] by (auto simp: moved_def)
  ultimately show ?thesis
    using t2(2) by (simp add: scheduled_def stack_after_Suc [OF k])
qed

section \<open>The loop\<close>

lemma collect_run:
  assumes g: "graph_rep g G" and c: "os_rep complete (length (bg_nodes G)) A" and out: "os_rep out (length (bg_nodes G)) {}"
  shows "\<exists>s. collect_next_completable_into g complete out = Some s
    \<and> os_rep s (length (bg_nodes G)) {i. i < length (bg_nodes G) \<and> i \<notin> A \<and> gn_preds (bg_nodes G ! i) \<subseteq> A}"
proof -
  let ?n = "length (bg_nodes G)"
  have "\<exists>s. fold_panics (collect_op g complete) [0..<m] out = Some s \<and> os_rep s ?n {i. i < m \<and> i \<notin> A \<and> gn_preds (bg_nodes G ! i) \<subseteq> A}"
    if "m \<le> ?n" for m
    using that
  proof (induction m)
    case (Suc m)
    then obtain s where s: "fold_panics (collect_op g complete) [0..<m] out = Some s"
        "os_rep s ?n {i. i < m \<and> i \<notin> A \<and> gn_preds (bg_nodes G ! i) \<subseteq> A}"
      by auto
    have m: "m < ?n"
      using Suc.prems by simp
    then obtain p where p: "og_get_predecessors g m = Some p" "os_rep p ?n (gn_preds (bg_nodes G ! m))"
      using g unfolding graph_rep_def by blast
    obtain s' where s': "os_add m s = Some s'" "os_rep s' ?n (insert m {i. i < m \<and> i \<notin> A \<and> gn_preds (bg_nodes G ! i) \<subseteq> A})"
      using os_add_rep [OF s(2) m] by blast
    have eq: "{i. i < Suc m \<and> i \<notin> A \<and> gn_preds (bg_nodes G ! i) \<subseteq> A} =
        (if m \<notin> A \<and> gn_preds (bg_nodes G ! m) \<subseteq> A then insert m else id) {i. i < m \<and> i \<notin> A \<and> gn_preds (bg_nodes G ! i) \<subseteq> A}"
      by (auto simp: less_Suc_eq)
    have step: "collect_op g complete m s = Some (if m \<notin> A \<and> gn_preds (bg_nodes G ! m) \<subseteq> A then s' else s)"
      using s'(1) p(1) os_contains_rep [OF c m] os_is_super_rep [OF c p(2)] by (simp add: collect_op_def)
    show ?case
      unfolding eq using s s'(2) step by simp
  qed (use out in simp)
  moreover have "og_op_ids g = Some [0..<?n]"
    using g iv_iter_idx_Some [of "og_operations g"] by (simp add: graph_rep_def og_op_ids_def)
  ultimately show ?thesis
    by (simp add: collect_next_completable_into_def)
qed

lemma first_unfinished:
  assumes "block_schedulable G"
  shows "filter (\<lambda>i. i \<in> {i. i < length (bg_nodes G) \<and> i \<notin> {..<k} \<and> gn_preds (bg_nodes G ! i) \<subseteq> {..<k}}) [0..<length (bg_nodes G)] = ids \<Longrightarrow>
    k \<le> length (bg_nodes G) \<Longrightarrow> (if k = length (bg_nodes G) then ids = [] else \<exists>rest. ids = k # rest)"
proof -
  let ?n = "length (bg_nodes G)" and ?P = "\<lambda>i. i \<in> {i. i < length (bg_nodes G) \<and> i \<notin> {..<k} \<and> gn_preds (bg_nodes G ! i) \<subseteq> {..<k}}"
  assume ids: "filter ?P [0..<?n] = ids" and k: "k \<le> ?n"
  have "[0..<?n] = [0..<k] @ [k..<?n]"
    using k upt_add_eq_append [of 0 k "?n - k"] by simp
  moreover have "filter ?P [0..<k] = []"
    by (simp add: filter_empty_conv)
  ultimately have "ids = filter ?P [k..<?n]"
    using ids by simp
  then show "if k = ?n then ids = [] else \<exists>rest. ids = k # rest"
    using assms k by (auto simp: upt_conv_Cons block_schedulable_def Let_def)
qed

lemma schedule_loop_run:
  assumes G: "graph_rep g G" "block_schedulable G" "distinct (map node_stack_op (bg_nodes G))"
    and idx: "is_idx (a0 + allocs_upto G (length (bg_nodes G)))" and u8: "sc_max_dup_depth config < 256"
  shows "length (bg_nodes G) < fuel + k \<Longrightarrow> k \<le> length (bg_nodes G) \<Longrightarrow> os_rep completable (length (bg_nodes G)) B \<Longrightarrow>
    os_rep complete (length (bg_nodes G)) {..<k} \<Longrightarrow> scheduled config G m0 a0 k t \<Longrightarrow>
    \<exists>t'. schedule_loop fuel config g completable complete t = Some t' \<and> scheduled config G m0 a0 (length (bg_nodes G)) t'"
proof (induction fuel arbitrary: k completable complete t B)
  case (Suc fuel)
  let ?n = "length (bg_nodes G)"
  obtain c where c: "collect_next_completable_into g complete (os_clear completable) = Some c"
      "os_rep c ?n {i. i < ?n \<and> i \<notin> {..<k} \<and> gn_preds (bg_nodes G ! i) \<subseteq> {..<k}}"
    using collect_run [OF G(1) Suc.prems(4) os_clear_rep [OF Suc.prems(3)]] by blast
  have "?n \<le> u32_max"
    using G(1) by (simp add: graph_rep_def is_idx_def)
  then have ids: "os_iter c = Some (filter (\<lambda>i. i \<in> {i. i < ?n \<and> i \<notin> {..<k} \<and> gn_preds (bg_nodes G ! i) \<subseteq> {..<k}}) [0..<?n])"
    by (rule os_iter_rep [OF c(2)])
  note first = first_unfinished [OF G(2) refl Suc.prems(2)]
  show ?case
  proof (cases "k = ?n")
    case True
    then show ?thesis
      using first c(1) ids Suc.prems(5) by simp
  next
    case False
    then have k: "k < ?n"
      using Suc.prems(2) by simp
    have "allocs_upto G (Suc k) \<le> allocs_upto G ?n"
      using sum_list_take_mono [of "Suc k" ?n "map (\<lambda>n. length (gn_inputs n) * MAX_STACK_LENGTH) (bg_nodes G)"] k
      by (simp add: allocs_upto_def take_map)
    then have "is_idx (a0 + allocs_upto G (Suc k))"
      using idx by (simp add: is_idx_def)
    then obtain t1 where t1: "dumb_schedule_op config g k t = Some t1" "scheduled config G m0 a0 (Suc k) t1"
      using schedule_op_step [OF G k Suc.prems(5) _ u8] by blast
    obtain complete' where c': "os_add k complete = Some complete'" "os_rep complete' ?n {..<Suc k}"
      using os_add_rep [OF Suc.prems(4) k] by (auto simp: lessThan_Suc)
    obtain rest where "filter (\<lambda>i. i \<in> {i. i < ?n \<and> i \<notin> {..<k} \<and> gn_preds (bg_nodes G ! i) \<subseteq> {..<k}}) [0..<?n] = k # rest"
      using first False by auto
    then show ?thesis
      using Suc.IH [OF _ _ c(2) c'(2) t1(2)] Suc.prems(1) k c(1) ids t1(1) c'(1) by simp
  qed
qed simp


section \<open>From the start\<close>

lemma push_inputs:
  "k \<le> m \<Longrightarrow> m \<le> MAX_STACK_LENGTH \<Longrightarrow> \<exists>s. fold_panics es_push (rev [k..<m]) es_new = Some s \<and> es_rep s [k..<m]"
proof (induction "m - k" arbitrary: k)
  case 0
  then show ?case
    using es_rep_new by simp
next
  case (Suc j)
  have lt: "k < m" "Suc k \<le> m" "j = m - Suc k"
    using Suc.hyps(2) by arith+
  then have k: "[k..<m] = k # [Suc k..<m]"
    by (simp add: upt_conv_Cons)
  obtain s where s: "fold_panics es_push (rev [Suc k..<m]) es_new = Some s" "es_rep s [Suc k..<m]"
    using Suc.hyps(1) [OF lt(3,2)] Suc.prems(2) by blast
  have "length [Suc k..<m] < MAX_STACK_LENGTH"
    using lt Suc.prems(2) by simp
  then obtain s' where "es_push k s = Some s'" "es_rep s' (k # [Suc k..<m])"
    using es_push_rep [OF s(2)] by blast
  then show ?case
    using s(1) by (simp add: k)
qed

lemma schedule_ops_run:
  assumes G: "graph_rep g G" "block_schedulable G" "distinct (map node_stack_op (bg_nodes G))"
    and idx: "is_idx (a0 + allocs_upto G (length (bg_nodes G)))" and u8: "sc_max_dup_depth config < 256"
    and fuel: "length (bg_nodes G) < fuel"
  shows "\<exists>t. schedule_ops fuel a0 config g = Some t \<and> scheduled config G ([0..<bg_inputs G], Map.empty) a0 (length (bg_nodes G)) t"
proof -
  let ?n = "length (bg_nodes G)" and ?m = "bg_inputs G"
  have g: "og_total_ops g = ?n" "og_inputs_end g = ?m" "is_idx ?m"
    using G(1) by (auto simp: graph_rep_def)
  obtain inner where i: "fold_panics es_push (rev [0..<?m]) es_new = Some inner" "es_rep inner [0..<?m]"
    using push_inputs [of 0 ?m] G(2) by (auto simp: block_schedulable_def)
  have "span_iter_rev (span_new 0 ?m) = Some (rev [0..<?m])"
    using span_iter_eq(2) [of "span_new 0 ?m"] g(3) by (simp add: span_new_def)
  then have start: "schedule_start a0 g = Some (tk_new_from_evm a0 [] inner)"
    using i(1) g(2) by (simp add: schedule_start_def og_input_values_fifo_def)
  have sets: "op_set_new (replicate (og_words_per_set g) 0) (og_total_ops g) = Some \<lparr>os_words = replicate (div_ceil ?n 8) 0, os_total_ops = ?n\<rparr>"
    by (simp add: op_set_new_def og_words_per_set_def g(1))
  have zero: "scheduled config G ([0..<?m], Map.empty) a0 0 (tk_new_from_evm a0 [] inner)"
    using i(2) by (simp add: scheduled_def tracks_def tk_new_from_evm_def stack_after_0 allocs_upto_def)
  have "os_rep \<lparr>os_words = replicate (div_ceil ?n 8) 0, os_total_ops = ?n\<rparr> ?n {..<0}"
    using os_rep_empty [of ?n] by simp
  from schedule_loop_run [OF G idx u8, of fuel 0, OF _ _ os_rep_empty this zero] show ?thesis
    using fuel start sets by (simp add: schedule_ops_def)
qed

section \<open>The property\<close>


definition example_graph :: block_graph where
  "example_graph = \<lparr>bg_inputs = 2, bg_nodes = [\<lparr>gn_kind = Flippable 0, gn_inputs = [1, 0], gn_outputs = [2], gn_preds = {}\<rparr>],
     bg_end = [2]\<rparr>"

lemma example_graph_built: "\<exists>g. graph_rep g example_graph"
proof -
  have small: "is_idx n" if "n < 10" for n
    using that by (simp add: is_idx_def u32_max_def)
  obtain s1 where s1: "gs_rep s1 [None] [] []"
    using push_input_rep [OF graph_empty_rep] small by auto
  obtain s2 where s2: "gs_rep s2 [None, None] [] []"
    using push_input_rep [OF s1] small by auto
  obtain s3 where s3: "gs_rep s3 [None, None] ([] @ [\<lparr>gn_kind = Flippable 0, gn_inputs = [], gn_outputs = [], gn_preds = {}\<rparr>]) []"
    using begin_op_rep [OF s2, of "Flippable 0"] small by (auto simp: arena_size_def)
  obtain s4 where s4: "gs_rep s4 [None, None] ([] @ [\<lparr>gn_kind = Flippable 0, gn_inputs = [1], gn_outputs = [], gn_preds = {}\<rparr>]) []"
    using add_input_rep [OF s3, of 1] small by (auto simp: arena_size_def node_values_def)
  obtain s5 where s5: "gs_rep s5 [None, None] ([] @ [\<lparr>gn_kind = Flippable 0, gn_inputs = [1, 0], gn_outputs = [], gn_preds = {}\<rparr>]) []"
    using add_input_rep [OF s4, of 0] small by (auto simp: arena_size_def node_values_def)
  obtain s6 where s6: "gs_rep s6 [None, None, Some 0] ([] @ [\<lparr>gn_kind = Flippable 0, gn_inputs = [1, 0], gn_outputs = [2], gn_preds = {}\<rparr>]) []"
    using add_output_rep [OF s5] small by (auto simp: arena_size_def node_values_def numeral_2_eq_2)
  obtain s7 where s7: "gs_rep s7 [None, None, Some 0] [\<lparr>gn_kind = Flippable 0, gn_inputs = [1, 0], gn_outputs = [2], gn_preds = {}\<rparr>] [2]"
    using push_end_rep [OF s6, of 2] small by (auto simp: arena_size_def node_values_def)
  show ?thesis
    using finish_graph_rep [OF s7, of 2] small by (auto simp: example_graph_def)
qed


end
