(* ===== verification/Effect_Order.thy ===== *)
theory Effect_Order
  imports Op_Graph_Builder Sir_Effects
begin

text \<open>
  The order of effects in the graph of a block (\<open>EffectOrderTracker\<close> of \<open>op_graph/build_effectful.rs\<close>): operations
  whose effects conflict are ordered, through the predecessors the tracker adds, and no others.
\<close>

definition eff_intersects :: "effect \<Rightarrow> effect \<Rightarrow> bool" where
  "eff_intersects a b \<longleftrightarrow> a AND b \<noteq> 0"

definition EFFECT_CHANNELS :: "(effect \<times> effect) list" where
  "EFFECT_CHANNELS =
     [(eff_MEMORY_READ, eff_MEMORY_WRITE), (eff_RETURNDATA_READ, eff_RETURNDATA_WRITE),
      (eff_ACCOUNTS_READ, eff_ACCOUNTS_WRITE), (eff_PERSISTENT_READ, eff_PERSISTENT_WRITE),
      (eff_TRANSIENT_READ, eff_TRANSIENT_WRITE), (eff_REVERT, eff_TERMINATE),
      (eff_ALLOC_ADVANCE, eff_ALLOC_USE_FREE)]"

record channel_state =
  ch_last_major :: "nat option"
  ch_minors :: "nat list"

record effect_tracker =
  et_channels :: "channel_state list"
  et_last_logs :: "nat option"

definition tracker_default :: effect_tracker where
  "tracker_default = \<lparr>et_channels = replicate (length EFFECT_CHANNELS) \<lparr>ch_last_major = None, ch_minors = []\<rparr>, et_last_logs = None\<rparr>"

definition add_last :: "nat \<Rightarrow> nat option \<Rightarrow> graph_storage \<Rightarrow> graph_storage panics" where
  "add_last op prev st = (case prev of None \<Rightarrow> Some st | Some p \<Rightarrow> add_predecessor op p st)"

definition channel_effect ::
    "nat \<Rightarrow> effect \<Rightarrow> effect \<Rightarrow> effect \<Rightarrow> channel_state \<Rightarrow> graph_storage \<Rightarrow> (channel_state \<times> graph_storage) panics" where
  "channel_effect op e minor major ch st =
     (if eff_intersects e major
      then do { st \<leftarrow> add_last op (ch_last_major ch) st;
                st \<leftarrow> fold_panics (add_predecessor op) (ch_minors ch) st;
                Some (\<lparr>ch_last_major = Some op, ch_minors = []\<rparr>, st) }
      else if eff_intersects e minor
      then do { st \<leftarrow> add_last op (ch_last_major ch) st; Some (ch\<lparr>ch_minors := ch_minors ch @ [op]\<rparr>, st) }
      else Some (ch, st))"

fun channel_effects ::
    "nat \<Rightarrow> effect \<Rightarrow> (channel_state \<times> effect \<times> effect) list \<Rightarrow> graph_storage \<Rightarrow> (channel_state list \<times> graph_storage) panics" where
  "channel_effects op e [] st = Some ([], st)"
| "channel_effects op e ((ch, minor, major) # rest) st =
     do { (ch, st) \<leftarrow> channel_effect op e minor major ch st;
          (chs, st) \<leftarrow> channel_effects op e rest st;
          Some (ch # chs, st) }"

definition widened :: "effect \<Rightarrow> effect" where
  "widened e = (if eff_contains e eff_TERMINATE then e OR eff_MAJOR OR eff_LOGS else e)"

definition add_effect_predecessors ::
    "nat \<Rightarrow> effect \<Rightarrow> effect_tracker \<Rightarrow> graph_storage \<Rightarrow> (effect_tracker \<times> graph_storage) panics" where
  "add_effect_predecessors op effect et st =
     do { let e = widened effect;
          (chs, st) \<leftarrow> channel_effects op e (zip (et_channels et) EFFECT_CHANNELS) st;
          if eff_contains e eff_LOGS
          then do { st \<leftarrow> add_last op (et_last_logs et) st;
                    Some (\<lparr>et_channels = chs, et_last_logs = Some op\<rparr>, st) }
          else Some (et\<lparr>et_channels := chs\<rparr>, st) }"

section \<open>What the tracker adds\<close>

definition channel_preds :: "effect \<Rightarrow> effect \<Rightarrow> effect \<Rightarrow> channel_state \<Rightarrow> nat set" where
  "channel_preds e minor major ch =
     (if eff_intersects e major then set_option (ch_last_major ch) \<union> set (ch_minors ch)
      else if eff_intersects e minor then set_option (ch_last_major ch) else {})"

definition channel_next :: "nat \<Rightarrow> effect \<Rightarrow> effect \<Rightarrow> effect \<Rightarrow> channel_state \<Rightarrow> channel_state" where
  "channel_next op e minor major ch =
     (if eff_intersects e major then \<lparr>ch_last_major = Some op, ch_minors = []\<rparr>
      else if eff_intersects e minor then ch\<lparr>ch_minors := ch_minors ch @ [op]\<rparr> else ch)"

definition tracker_preds :: "effect \<Rightarrow> effect_tracker \<Rightarrow> nat set" where
  "tracker_preds e et = (\<Union>(ch, minor, major) \<in> set (zip (et_channels et) EFFECT_CHANNELS). channel_preds e minor major ch)
     \<union> (if eff_contains e eff_LOGS then set_option (et_last_logs et) else {})"

definition tracker_next :: "nat \<Rightarrow> effect \<Rightarrow> effect_tracker \<Rightarrow> effect_tracker" where
  "tracker_next op e et =
     \<lparr>et_channels = map (\<lambda>(ch, minor, major). channel_next op e minor major ch) (zip (et_channels et) EFFECT_CHANNELS),
      et_last_logs = (if eff_contains e eff_LOGS then Some op else et_last_logs et)\<rparr>"

text \<open>The operations the tracker remembers.\<close>

definition tracker_ops :: "effect_tracker \<Rightarrow> nat set" where
  "tracker_ops et = (\<Union>ch \<in> set (et_channels et). set_option (ch_last_major ch) \<union> set (ch_minors ch)) \<union> set_option (et_last_logs et)"

text \<open>\<open>with_preds\<close>: the operation under construction gains predecessors.\<close>

definition gains_preds :: "graph_node list \<Rightarrow> graph_node \<Rightarrow> nat option list \<Rightarrow> graph_storage \<Rightarrow> nat set \<Rightarrow> bool" where
  "gains_preds ms n srcs st A \<longleftrightarrow> gs_rep st srcs (ms @ [n\<lparr>gn_preds := gn_preds n \<union> A\<rparr>]) []"

lemma gains_preds_step:
  assumes "gains_preds ms n srcs st A" and "p \<le> length ms"
  shows "\<exists>st'. add_predecessor (length ms) p st = Some st' \<and> gains_preds ms n srcs st' (insert p A)"
  using add_predecessor_rep [OF assms(1) [unfolded gains_preds_def] assms(2)] by (simp add: gains_preds_def Un_insert_right)

lemma add_last_run:
  assumes "gains_preds ms n srcs st A" and "set_option prev \<subseteq> {..length ms}"
  shows "\<exists>st'. add_last (length ms) prev st = Some st' \<and> gains_preds ms n srcs st' (A \<union> set_option prev)"
  using gains_preds_step [OF assms(1)] assms by (cases prev) (auto simp: add_last_def)

lemma add_minors_run:
  "gains_preds ms n srcs st A \<Longrightarrow> set ps \<subseteq> {..length ms} \<Longrightarrow>
   \<exists>st'. fold_panics (add_predecessor (length ms)) ps st = Some st' \<and> gains_preds ms n srcs st' (A \<union> set ps)"
proof (induction ps arbitrary: st A)
  case (Cons p ps)
  obtain st1 where "add_predecessor (length ms) p st = Some st1" "gains_preds ms n srcs st1 (insert p A)"
    using gains_preds_step [OF Cons.prems(1)] Cons.prems(2) by auto
  then show ?case
    using Cons.IH [of st1 "insert p A"] Cons.prems(2) by auto
qed auto

lemma channel_effect_run:
  assumes "gains_preds ms n srcs st A" and "set_option (ch_last_major ch) \<union> set (ch_minors ch) \<subseteq> {..length ms}"
  shows "\<exists>st'. channel_effect (length ms) e minor major ch st = Some (channel_next (length ms) e minor major ch, st')
    \<and> gains_preds ms n srcs st' (A \<union> channel_preds e minor major ch)"
proof -
  obtain st1 where st1: "add_last (length ms) (ch_last_major ch) st = Some st1" "gains_preds ms n srcs st1 (A \<union> set_option (ch_last_major ch))"
    using add_last_run [OF assms(1), of "ch_last_major ch"] assms(2) by blast
  obtain st2 where "fold_panics (add_predecessor (length ms)) (ch_minors ch) st1 = Some st2"
      "gains_preds ms n srcs st2 (A \<union> set_option (ch_last_major ch) \<union> set (ch_minors ch))"
    using add_minors_run [OF st1(2), of "ch_minors ch"] assms(2) by blast
  then show ?thesis
    using st1 assms(1) by (auto simp: channel_effect_def channel_next_def channel_preds_def Un_assoc)
qed

lemma channel_effects_run:
  "gains_preds ms n srcs st A \<Longrightarrow> \<forall>(ch, c) \<in> set chs. set_option (ch_last_major ch) \<union> set (ch_minors ch) \<subseteq> {..length ms} \<Longrightarrow>
   \<exists>st'. channel_effects (length ms) e chs st = Some (map (\<lambda>(ch, minor, major). channel_next (length ms) e minor major ch) chs, st')
     \<and> gains_preds ms n srcs st' (A \<union> (\<Union>(ch, minor, major) \<in> set chs. channel_preds e minor major ch))"
proof (induction chs arbitrary: st A)
  case (Cons c chs)
  obtain ch minor major where c: "c = (ch, minor, major)"
    by (cases c)
  have "set_option (ch_last_major ch) \<union> set (ch_minors ch) \<subseteq> {..length ms}"
    using Cons.prems(2) c by simp
  then obtain st1 where st1: "channel_effect (length ms) e minor major ch st = Some (channel_next (length ms) e minor major ch, st1)"
      "gains_preds ms n srcs st1 (A \<union> channel_preds e minor major ch)"
    using channel_effect_run [OF Cons.prems(1)] by blast
  have "\<forall>(ch, c) \<in> set chs. set_option (ch_last_major ch) \<union> set (ch_minors ch) \<subseteq> {..length ms}"
    using Cons.prems(2) by simp
  then obtain st2 where "channel_effects (length ms) e chs st1 = Some (map (\<lambda>(ch, minor, major). channel_next (length ms) e minor major ch) chs, st2)"
      "gains_preds ms n srcs st2 (A \<union> channel_preds e minor major ch \<union> (\<Union>(ch, minor, major) \<in> set chs. channel_preds e minor major ch))"
    using Cons.IH [OF st1(2)] by blast
  then show ?case
    using st1(1) by (simp add: c Un_assoc)
qed auto

lemma add_effect_predecessors_run:
  assumes "gs_rep st srcs (ms @ [n]) []" and ops: "tracker_ops et \<subseteq> {..length ms}"
  shows "\<exists>st'. add_effect_predecessors (length ms) effect et st = Some (tracker_next (length ms) (widened effect) et, st')
    \<and> gs_rep st' srcs (ms @ [n\<lparr>gn_preds := gn_preds n \<union> tracker_preds (widened effect) et\<rparr>]) []"
proof -
  let ?e = "widened effect" and ?chs = "zip (et_channels et) EFFECT_CHANNELS"
  have start: "gains_preds ms n srcs st {}"
    using assms(1) by (simp add: gains_preds_def)
  have "\<forall>(ch, c) \<in> set ?chs. set_option (ch_last_major ch) \<union> set (ch_minors ch) \<subseteq> {..length ms}"
    using ops unfolding tracker_ops_def by (auto dest!: set_zip_leftD)
  then obtain st1 where st1: "channel_effects (length ms) ?e ?chs st
      = Some (map (\<lambda>(ch, minor, major). channel_next (length ms) ?e minor major ch) ?chs, st1)"
      "gains_preds ms n srcs st1 (\<Union>(ch, minor, major) \<in> set ?chs. channel_preds ?e minor major ch)"
    using channel_effects_run [OF start, of ?chs ?e] by auto
  have "set_option (et_last_logs et) \<subseteq> {..length ms}"
    using ops by (auto simp: tracker_ops_def)
  then obtain st2 where st2: "add_last (length ms) (et_last_logs et) st1 = Some st2"
      "gains_preds ms n srcs st2 ((\<Union>(ch, minor, major) \<in> set ?chs. channel_preds ?e minor major ch) \<union> set_option (et_last_logs et))"
    using add_last_run [OF st1(2)] by blast
  show ?thesis
    using st1 st2 by (auto simp: add_effect_predecessors_def tracker_next_def tracker_preds_def gains_preds_def)
qed

section \<open>Conflicts are ordered\<close>

text \<open>Two effects conflict when one is major on a channel the other takes part in, or when both log.\<close>

definition channel_conflict :: "effect \<Rightarrow> effect \<Rightarrow> effect \<Rightarrow> effect \<Rightarrow> bool" where
  "channel_conflict minor major e f \<longleftrightarrow>
     eff_intersects e major \<and> (eff_intersects f major \<or> eff_intersects f minor)
     \<or> eff_intersects f major \<and> eff_intersects e minor"

definition effects_conflict :: "effect \<Rightarrow> effect \<Rightarrow> bool" where
  "effects_conflict e f \<longleftrightarrow>
     (\<exists>(minor, major) \<in> set EFFECT_CHANNELS. channel_conflict minor major e f)
     \<or> eff_contains e eff_LOGS \<and> eff_contains f eff_LOGS"

type_synonym effect_history = "(nat \<times> effect) list"

definition tracker_after :: "effect_history \<Rightarrow> effect_tracker" where
  "tracker_after hist = fold (\<lambda>(i, e). tracker_next i e) hist tracker_default"

definition channel_after :: "effect \<Rightarrow> effect \<Rightarrow> effect_history \<Rightarrow> channel_state" where
  "channel_after minor major hist = fold (\<lambda>(i, e). channel_next i e minor major) hist \<lparr>ch_last_major = None, ch_minors = []\<rparr>"

definition order_preds :: "effect_history \<Rightarrow> nat \<Rightarrow> nat set" where
  "order_preds hist k = tracker_preds (snd (hist ! k)) (tracker_after (take k hist))"

definition order_rel :: "effect_history \<Rightarrow> (nat \<times> nat) set" where
  "order_rel hist = {(p, fst (hist ! k)) | p k. k < length hist \<and> p \<in> order_preds hist k}"

lemma tracker_after_simps [simp]:
  "tracker_after [] = tracker_default" "tracker_after (hist @ [(i, e)]) = tracker_next i e (tracker_after hist)"
  by (simp_all add: tracker_after_def)

lemma channel_after_simps [simp]:
  "channel_after minor major [] = \<lparr>ch_last_major = None, ch_minors = []\<rparr>"
  "channel_after minor major (hist @ [(i, e)]) = channel_next i e minor major (channel_after minor major hist)"
  by (simp_all add: channel_after_def)

lemma zip_map_self: "zip (map f xs) xs = map (\<lambda>x. (f x, x)) xs"
  by (induction xs) auto

lemma tracker_channels: "et_channels (tracker_after hist) = map (\<lambda>(minor, major). channel_after minor major hist) EFFECT_CHANNELS"
proof (induction hist rule: rev_induct)
  case Nil
  then show ?case
    by (simp add: tracker_default_def case_prod_beta' map_replicate_const)
next
  case (snoc x hist)
  then show ?case
    by (cases x) (simp add: tracker_next_def zip_map_self case_prod_unfold)
qed

lemma tracker_preds_after:
  "tracker_preds e (tracker_after hist) = (\<Union>(minor, major) \<in> set EFFECT_CHANNELS. channel_preds e minor major (channel_after minor major hist))
     \<union> (if eff_contains e eff_LOGS then set_option (et_last_logs (tracker_after hist)) else {})"
  by (simp add: tracker_preds_def tracker_channels zip_map_self case_prod_unfold)

lemma order_preds_append:
  "k < length hist \<Longrightarrow> order_preds (hist @ xs) k = order_preds hist k"
  "order_preds (hist @ [(i, e)]) (length hist) = tracker_preds e (tracker_after hist)"
  by (simp_all add: order_preds_def nth_append)

lemma order_rel_snoc: "order_rel (hist @ [(i, e)]) = order_rel hist \<union> {(p, i) | p. p \<in> tracker_preds e (tracker_after hist)}"
proof -
  have "{(p, fst ((hist @ [(i, e)]) ! k)) | p k. k < Suc (length hist) \<and> p \<in> order_preds (hist @ [(i, e)]) k}
      = {(p, fst ((hist @ [(i, e)]) ! k)) | p k. k < length hist \<and> p \<in> order_preds (hist @ [(i, e)]) k}
        \<union> {(p, i) | p. p \<in> order_preds (hist @ [(i, e)]) (length hist)}"
    unfolding less_Suc_eq by force
  also have "{(p, fst ((hist @ [(i, e)]) ! k)) | p k. k < length hist \<and> p \<in> order_preds (hist @ [(i, e)]) k} = order_rel hist"
    unfolding order_rel_def by (metis (no_types, lifting) nth_append order_preds_append(1))
  finally show ?thesis
    by (simp add: order_rel_def order_preds_append)
qed

text \<open>What a channel knows of the operations so far.\<close>

definition channel_knows :: "effect \<Rightarrow> effect \<Rightarrow> effect_history \<Rightarrow> (nat \<times> nat) set \<Rightarrow> bool" where
  "channel_knows minor major hist R \<longleftrightarrow> (let ch = channel_after minor major hist in
     (\<forall>(i, e) \<in> set hist. eff_intersects e major \<longrightarrow> (\<exists>l. ch_last_major ch = Some l \<and> (i, l) \<in> R\<^sup>*))
     \<and> (\<forall>(i, e) \<in> set hist. eff_intersects e minor \<longrightarrow> i \<in> set (ch_minors ch) \<or> (\<exists>l. ch_last_major ch = Some l \<and> (i, l) \<in> R\<^sup>*))
     \<and> (\<forall>l. ch_last_major ch = Some l \<longrightarrow> (\<exists>e. (l, e) \<in> set hist \<and> eff_intersects e major))
     \<and> (\<forall>m \<in> set (ch_minors ch). \<exists>e. (m, e) \<in> set hist \<and> eff_intersects e minor))"

lemma channel_knows_step:
  assumes "channel_knows minor major hist R" and "R \<subseteq> R'"
    and "\<And>p. p \<in> channel_preds e minor major (channel_after minor major hist) \<Longrightarrow> (p, j) \<in> R'"
  shows "channel_knows minor major (hist @ [(j, e)]) R'"
    and "(i, f) \<in> set hist \<Longrightarrow> channel_conflict minor major f e \<Longrightarrow> (i, j) \<in> R'\<^sup>+"
    and "p \<in> channel_preds e minor major (channel_after minor major hist) \<Longrightarrow> \<exists>f. (p, f) \<in> set hist \<and> channel_conflict minor major f e"
proof -
  let ?ch = "channel_after minor major hist"
  have star: "R\<^sup>* \<subseteq> R'\<^sup>*"
    by (rule rtrancl_mono [OF assms(2)])
  have to: "(i, j) \<in> R'\<^sup>+" if "(i, l) \<in> R\<^sup>*" "l \<in> channel_preds e minor major ?ch" for i l
    using that star assms(3) by (meson rtrancl_into_trancl1 subsetD)
  have K: "\<And>i f. (i, f) \<in> set hist \<Longrightarrow> eff_intersects f major \<Longrightarrow> \<exists>l. ch_last_major ?ch = Some l \<and> (i, l) \<in> R\<^sup>*"
      "\<And>i f. (i, f) \<in> set hist \<Longrightarrow> eff_intersects f minor \<Longrightarrow> i \<in> set (ch_minors ?ch) \<or> (\<exists>l. ch_last_major ?ch = Some l \<and> (i, l) \<in> R\<^sup>*)"
      "\<And>l. ch_last_major ?ch = Some l \<Longrightarrow> \<exists>e. (l, e) \<in> set hist \<and> eff_intersects e major"
      "\<And>m. m \<in> set (ch_minors ?ch) \<Longrightarrow> \<exists>e. (m, e) \<in> set hist \<and> eff_intersects e minor"
    using assms(1) unfolding channel_knows_def Let_def by fast+
  show ordered: "(i, j) \<in> R'\<^sup>+" if "(i, f) \<in> set hist" "channel_conflict minor major f e" for i f
    using that(2) K(1,2) [OF that(1)] to [of i] assms(3) [of i, THEN r_into_trancl] unfolding channel_conflict_def channel_preds_def
    by (auto split: if_splits)
  show "p \<in> channel_preds e minor major ?ch \<Longrightarrow> \<exists>f. (p, f) \<in> set hist \<and> channel_conflict minor major f e"
    using K(3,4) by (auto simp: channel_preds_def channel_conflict_def split: if_splits)
  have new: "channel_after minor major (hist @ [(j, e)]) = channel_next j e minor major ?ch"
    by simp
  show "channel_knows minor major (hist @ [(j, e)]) R'"
  proof (cases "eff_intersects e major")
    case True
    then show ?thesis
      unfolding channel_knows_def new Let_def
      using ordered by (auto simp: channel_next_def channel_conflict_def trancl_into_rtrancl)
  next
    case False
    then have ch: "ch_last_major (channel_next j e minor major ?ch) = ch_last_major ?ch"
        "set (ch_minors (channel_next j e minor major ?ch)) = (if eff_intersects e minor then insert j else id) (set (ch_minors ?ch))"
      by (auto simp: channel_next_def)
    have "\<exists>l. ch_last_major ?ch = Some l \<and> (i, l) \<in> R'\<^sup>*" if "(i, f) \<in> set hist" "eff_intersects f major" for i f
      using K(1) [OF that] star by blast
    moreover have "i \<in> set (ch_minors ?ch) \<or> (\<exists>l. ch_last_major ?ch = Some l \<and> (i, l) \<in> R'\<^sup>*)"
      if "(i, f) \<in> set hist" "eff_intersects f minor" for i f
      using K(2) [OF that] star by blast
    moreover have "\<exists>g. (m, g) \<in> set (hist @ [(j, e)]) \<and> eff_intersects g minor" if "m \<in> set (ch_minors (channel_next j e minor major ?ch))" for m
      using that K(4) [of m] unfolding ch by (auto split: if_splits)
    moreover have "\<exists>g. (l, g) \<in> set (hist @ [(j, e)]) \<and> eff_intersects g major" if "ch_last_major ?ch = Some l" for l
      using K(3) [OF that] by auto
    ultimately show ?thesis
      unfolding channel_knows_def new Let_def ch(1) using False unfolding ch(2) by auto
  qed
qed

definition history_ordered :: "effect_history \<Rightarrow> (nat \<times> nat) set \<Rightarrow> bool" where
  "history_ordered hist R \<longleftrightarrow>
     (\<forall>k < length hist. \<forall>i < k. effects_conflict (snd (hist ! i)) (snd (hist ! k)) \<longrightarrow> (fst (hist ! i), fst (hist ! k)) \<in> R\<^sup>+)"

lemma conflict_sym_cases:
  "effects_conflict f e \<longleftrightarrow> (\<exists>(minor, major) \<in> set EFFECT_CHANNELS. channel_conflict minor major f e) \<or> eff_contains f eff_LOGS \<and> eff_contains e eff_LOGS"
  by (simp add: effects_conflict_def)

text \<open>The logs form a chain.\<close>

definition logs_known :: "effect_history \<Rightarrow> (nat \<times> nat) set \<Rightarrow> bool" where
  "logs_known hist R \<longleftrightarrow>
     (\<forall>(i, e) \<in> set hist. eff_contains e eff_LOGS \<longrightarrow> (\<exists>l. et_last_logs (tracker_after hist) = Some l \<and> (i, l) \<in> R\<^sup>*))
     \<and> (\<forall>l. et_last_logs (tracker_after hist) = Some l \<longrightarrow> (\<exists>e. (l, e) \<in> set hist \<and> eff_contains e eff_LOGS))"

lemma logs_known_step:
  assumes "logs_known hist R" and "R \<subseteq> R'"
    and "\<And>p. eff_contains e eff_LOGS \<Longrightarrow> et_last_logs (tracker_after hist) = Some p \<Longrightarrow> (p, j) \<in> R'"
  shows "logs_known (hist @ [(j, e)]) R'"
    and "(i, f) \<in> set hist \<Longrightarrow> eff_contains f eff_LOGS \<Longrightarrow> eff_contains e eff_LOGS \<Longrightarrow> (i, j) \<in> R'\<^sup>+"
proof -
  have K: "\<exists>l. et_last_logs (tracker_after hist) = Some l \<and> (i, l) \<in> R'\<^sup>*" if "(i, f) \<in> set hist" "eff_contains f eff_LOGS" for i f
    using assms(1) that rtrancl_mono [OF assms(2)] unfolding logs_known_def by fast
  show ordered: "(i, j) \<in> R'\<^sup>+" if "(i, f) \<in> set hist" "eff_contains f eff_LOGS" "eff_contains e eff_LOGS" for i f
    using K [OF that(1,2)] assms(3) [OF that(3)] by (auto intro: rtrancl_into_trancl1)
  have "et_last_logs (tracker_after (hist @ [(j, e)])) = (if eff_contains e eff_LOGS then Some j else et_last_logs (tracker_after hist))"
    by (simp add: tracker_next_def)
  then show "logs_known (hist @ [(j, e)]) R'"
    using ordered K assms(1) unfolding logs_known_def by (auto simp: trancl_into_rtrancl)
qed

lemma tracker_orders:
  "(\<forall>(minor, major) \<in> set EFFECT_CHANNELS. channel_knows minor major hist (order_rel hist))
   \<and> logs_known hist (order_rel hist) \<and> history_ordered hist (order_rel hist)
   \<and> (\<forall>k < length hist. \<forall>p \<in> order_preds hist k. \<exists>i < k. fst (hist ! i) = p \<and> effects_conflict (snd (hist ! i)) (snd (hist ! k)))"
proof (induction hist rule: rev_induct)
  case Nil
  then show ?case
    by (simp add: channel_knows_def logs_known_def history_ordered_def tracker_default_def case_prod_beta')
next
  case (snoc x hist)
  obtain j e where x: "x = (j, e)"
    by (cases x)
  let ?R = "order_rel hist" and ?R' = "order_rel (hist @ [(j, e)])"
  have sub: "?R \<subseteq> ?R'" and new: "\<And>p. p \<in> tracker_preds e (tracker_after hist) \<Longrightarrow> (p, j) \<in> ?R'"
    by (auto simp: order_rel_snoc)
  have C: "channel_knows minor major (hist @ [(j, e)]) ?R'"
      "\<And>i f. (i, f) \<in> set hist \<Longrightarrow> channel_conflict minor major f e \<Longrightarrow> (i, j) \<in> ?R'\<^sup>+"
      "\<And>p. p \<in> channel_preds e minor major (channel_after minor major hist) \<Longrightarrow> \<exists>f. (p, f) \<in> set hist \<and> channel_conflict minor major f e"
    if "(minor, major) \<in> set EFFECT_CHANNELS" for minor major
  proof -
    have knows: "channel_knows minor major hist ?R"
      using snoc that by fast
    have step: "\<And>p. p \<in> channel_preds e minor major (channel_after minor major hist) \<Longrightarrow> (p, j) \<in> ?R'"
      using that by (intro new) (auto simp: tracker_preds_after)
    note channel_knows_step [OF knows sub step]
    then show "channel_knows minor major (hist @ [(j, e)]) ?R'"
      "\<And>i f. (i, f) \<in> set hist \<Longrightarrow> channel_conflict minor major f e \<Longrightarrow> (i, j) \<in> ?R'\<^sup>+"
      "\<And>p. p \<in> channel_preds e minor major (channel_after minor major hist) \<Longrightarrow> \<exists>f. (p, f) \<in> set hist \<and> channel_conflict minor major f e"
      by blast+
  qed
  have L: "logs_known (hist @ [(j, e)]) ?R'"
      "\<And>i f. (i, f) \<in> set hist \<Longrightarrow> eff_contains f eff_LOGS \<Longrightarrow> eff_contains e eff_LOGS \<Longrightarrow> (i, j) \<in> ?R'\<^sup>+"
    using logs_known_step [of hist ?R ?R' e j] snoc sub new by (auto simp: tracker_preds_after)
  have ordered: "(fst (hist ! i), j) \<in> ?R'\<^sup>+" if "i < length hist" "effects_conflict (snd (hist ! i)) e" for i
    using C(2) L(2) nth_mem [OF that(1)] that(2) unfolding effects_conflict_def by (metis (mono_tags, lifting) case_prodE prod.collapse)
  have "history_ordered (hist @ [(j, e)]) ?R'"
    using snoc ordered trancl_mono [OF _ sub] unfolding history_ordered_def by (auto simp: less_Suc_eq nth_append)
  moreover
  have "\<exists>i < length hist. fst (hist ! i) = p \<and> effects_conflict (snd (hist ! i)) e" if "p \<in> tracker_preds e (tracker_after hist)" for p
  proof -
    have "\<exists>f. (p, f) \<in> set hist \<and> effects_conflict f e"
      using that C(3) snoc unfolding tracker_preds_after effects_conflict_def logs_known_def
      by (auto split: if_splits) blast+
    then show ?thesis
      by (metis fst_conv in_set_conv_nth snd_conv)
  qed
  then have "\<exists>i < k. fst ((hist @ [(j, e)]) ! i) = p \<and> effects_conflict (snd ((hist @ [(j, e)]) ! i)) (snd ((hist @ [(j, e)]) ! k))"
    if "k < Suc (length hist)" "p \<in> order_preds (hist @ [(j, e)]) k" for k p
  proof (cases "k = length hist")
    case False
    then have "k < length hist" "p \<in> order_preds hist k"
      using that by (simp_all add: order_preds_append)
    then obtain i where "i < k" "fst (hist ! i) = p" "effects_conflict (snd (hist ! i)) (snd (hist ! k))"
      using snoc by blast
    then show ?thesis
      using that False by (intro exI [of _ i]) (simp add: nth_append)
  qed (use that in \<open>auto simp: order_preds_append nth_append\<close>)
  ultimately show ?case
    using C(1) L(1) by (auto simp: x)
qed

end
