(* ===== verification/Layouts.thy ===== *)
theory Layouts
  imports Cfg_Bundling Legal_Views
begin

text \<open>
  The stack layouts at the ends of blocks (\<open>stack-scheduling/src/layouts.rs\<close>): one layout for each group of the
  bundling.  \<open>HashSet\<close>s are sets whose order of iteration is a parameter; \<open>DenseIndexMap\<close>s are partial maps.
\<close>

datatype layout_member =
    ReturnDest
  | InputOutput nat
  | LocalMember nat

text \<open>The order that is derived for the members: by constructor, then by argument.\<close>

fun layout_member_le :: "layout_member \<Rightarrow> layout_member \<Rightarrow> bool" where
  "layout_member_le ReturnDest _ \<longleftrightarrow> True"
| "layout_member_le (InputOutput i) ReturnDest \<longleftrightarrow> False"
| "layout_member_le (InputOutput i) (InputOutput j) \<longleftrightarrow> i \<le> j"
| "layout_member_le (InputOutput i) (LocalMember l) \<longleftrightarrow> True"
| "layout_member_le (LocalMember l) (LocalMember m) \<longleftrightarrow> l \<le> m"
| "layout_member_le (LocalMember l) _ \<longleftrightarrow> False"

instantiation layout_member :: linorder
begin

definition less_eq_layout_member :: "layout_member \<Rightarrow> layout_member \<Rightarrow> bool" where
  "less_eq_layout_member a b = layout_member_le a b"

definition less_layout_member :: "layout_member \<Rightarrow> layout_member \<Rightarrow> bool" where
  "less_layout_member a b \<longleftrightarrow> a \<le> b \<and> \<not> b \<le> a"

instance
proof
  fix x y z :: layout_member
  show "x \<le> x" "x < y \<longleftrightarrow> x \<le> y \<and> \<not> y \<le> x" "x \<le> y \<or> y \<le> x"
    by (cases x; cases y; auto simp: less_eq_layout_member_def less_layout_member_def)+
  show "x \<le> y \<Longrightarrow> y \<le> z \<Longrightarrow> x \<le> z" "x \<le> y \<Longrightarrow> y \<le> x \<Longrightarrow> x = y"
    by (cases x; cases y; cases z; simp add: less_eq_layout_member_def)+
qed

end

type_synonym layout = "layout_member list"
type_synonym layout_sets = "nat \<rightharpoonup> layout"

definition layout_add :: "layout_member \<Rightarrow> layout \<Rightarrow> layout" where
  "layout_add m L = (if m \<in> set L then L else L @ [m])"

section \<open>The layouts of the groups\<close>

definition entry_or_default :: "layout_sets \<Rightarrow> nat \<Rightarrow> layout" where
  "entry_or_default sets g = (case sets g of None \<Rightarrow> [] | Some L \<Rightarrow> L)"

text \<open>The outputs of a block that returns are in its layout at the end.\<close>

definition return_layout :: "eth_ir_program \<Rightarrow> bundling \<Rightarrow> nat \<Rightarrow> layout_sets \<Rightarrow> layout_sets panics" where
  "return_layout ir bd b sets =
     do { c \<leftarrow> block_control ir b;
          case (c, bd_out bd b) of
            (InternalReturn, Some g) \<Rightarrow>
              do { outs \<leftarrow> block_outputs ir b;
                   Some (sets(g \<mapsto> fold (\<lambda>i. layout_add (InputOutput i)) [0..<length outs] (entry_or_default sets g))) }
          | _ \<Rightarrow> Some sets }"

definition live_member :: "nat list \<Rightarrow> nat \<Rightarrow> layout_member" where
  "live_member ins l = (case position (\<lambda>i. i = l) ins of Some i \<Rightarrow> InputOutput i | None \<Rightarrow> LocalMember l)"

definition add_return_dest :: "eth_ir_program \<Rightarrow> nat \<Rightarrow> layout \<Rightarrow> layout" where
  "add_return_dest ir owner L =
     (if owner \<noteq> ir_init_entry ir \<and> Some owner \<noteq> ir_main_entry ir then layout_add ReturnDest L else L)"

definition entry_layout ::
    "set_order \<Rightarrow> eth_ir_program \<Rightarrow> local_liveness \<Rightarrow> bundling \<Rightarrow> nat \<Rightarrow> nat \<Rightarrow> layout_sets \<Rightarrow> layout_sets panics" where
  "entry_layout ord ir live bd owner b sets =
     (case bd_in bd b of
        None \<Rightarrow> Some sets
      | Some g \<Rightarrow>
          do { let L = add_return_dest ir owner (entry_or_default sets g);
               entry \<leftarrow> iv_index (ll_entry live) b;
               L \<leftarrow> fold_panics (\<lambda>l L. do { ins \<leftarrow> block_inputs ir b; Some (layout_add (live_member ins l) L) }) (ord entry) L;
               Some (sets(g \<mapsto> L)) })"

definition layout_block ::
    "set_order \<Rightarrow> eth_ir_program \<Rightarrow> local_liveness \<Rightarrow> nat option list \<Rightarrow> bundling \<Rightarrow> nat \<Rightarrow> layout_sets \<Rightarrow> layout_sets panics" where
  "layout_block ord ir live ownership bd b sets =
     do { ow \<leftarrow> get_owner ownership b;
          case ow of
            Inl _ \<Rightarrow> Some sets
          | Inr owner \<Rightarrow> do { sets \<leftarrow> return_layout ir bd b sets; entry_layout ord ir live bd owner b sets } }"

definition build_layout_sets ::
    "set_order \<Rightarrow> eth_ir_program \<Rightarrow> local_liveness \<Rightarrow> nat option list \<Rightarrow> bundling \<Rightarrow> layout_sets panics" where
  "build_layout_sets ord ir live ownership bd =
     do { sets \<leftarrow> fold_panics (layout_block ord ir live ownership bd) [0..<length (ir_basic_blocks ir)] Map.empty;
          Some (\<lambda>g. map_option sort (sets g)) }"

section \<open>The tracker\<close>

record layouts_tracker =
  lt_cfg_layouts :: layout_sets
  lt_function_dest :: "nat \<rightharpoonup> nat"
  lt_bundling :: bundling

text \<open>Indexing the map with a missing key panics.\<close>

definition get_input_layout :: "layouts_tracker \<Rightarrow> nat \<Rightarrow> layout panics" where
  "get_input_layout lt b = do { g \<leftarrow> bd_in (lt_bundling lt) b; lt_cfg_layouts lt g }"

definition get_input_output :: "layouts_tracker \<Rightarrow> nat \<Rightarrow> (layout \<times> layout) option" where
  "get_input_output lt b =
     do { i \<leftarrow> bd_in (lt_bundling lt) b;
          out \<leftarrow> bd_out (lt_bundling lt) b;
          input \<leftarrow> lt_cfg_layouts lt i;
          Some (input, case lt_cfg_layouts lt out of None \<Rightarrow> [] | Some L \<Rightarrow> L) }"

definition refresh_function_dest :: "eth_ir_program \<Rightarrow> nat \<Rightarrow> layouts_tracker \<Rightarrow> layouts_tracker panics" where
  "refresh_function_dest ir f lt =
     do { entry \<leftarrow> function_entry ir f;
          case bd_in (lt_bundling lt) entry of
            None \<Rightarrow> Some lt
          | Some g \<Rightarrow>
              do { L \<leftarrow> lt_cfg_layouts lt g;
                   case position (\<lambda>m. m = ReturnDest) L of
                     None \<Rightarrow> Some (lt\<lparr>lt_function_dest := (lt_function_dest lt)(f := None)\<rparr>)
                   | Some p \<Rightarrow> do { ensure (p < 2 ^ 16); Some (lt\<lparr>lt_function_dest := (lt_function_dest lt)(f \<mapsto> p)\<rparr>) } } }"

definition layouts_new :: "eth_ir_program \<Rightarrow> layout_sets \<Rightarrow> bundling \<Rightarrow> layouts_tracker panics" where
  "layouts_new ir sets bd =
     fold_panics (refresh_function_dest ir) [0..<length (ir_functions ir)]
       \<lparr>lt_cfg_layouts = sets, lt_function_dest = Map.empty, lt_bundling = bd\<rparr>"

section \<open>The members do not depend on the order of the sets\<close>

text \<open>The members a block asks for in group \<open>g\<close>.\<close>

definition return_members :: "eth_ir_program \<Rightarrow> nat \<Rightarrow> layout_member set" where
  "return_members ir owner = (if owner \<noteq> ir_init_entry ir \<and> Some owner \<noteq> ir_main_entry ir then {ReturnDest} else {})"

definition asked_members :: "eth_ir_program \<Rightarrow> local_liveness \<Rightarrow> nat option list \<Rightarrow> bundling \<Rightarrow> nat \<Rightarrow> nat \<Rightarrow> layout_member set" where
  "asked_members ir live ownership bd b g =
     (case ownership ! b of
        None \<Rightarrow> {}
      | Some owner \<Rightarrow>
          (if block_control ir b = Some InternalReturn \<and> bd_out bd b = Some g
           then InputOutput ` {..<length (the (block_outputs ir b))} else {})
          \<union> (if bd_in bd b = Some g
             then return_members ir owner
               \<union> live_member (the (block_inputs ir b)) ` (ll_entry live ! b)
             else {}))"

definition asks :: "eth_ir_program \<Rightarrow> nat option list \<Rightarrow> bundling \<Rightarrow> nat \<Rightarrow> nat \<Rightarrow> bool" where
  "asks ir ownership bd b g \<longleftrightarrow> ownership ! b \<noteq> None
     \<and> (block_control ir b = Some InternalReturn \<and> bd_out bd b = Some g \<or> bd_in bd b = Some g)"

lemma layout_add_set [simp]: "set (layout_add m L) = insert m (set L)"
  by (auto simp: layout_add_def)

lemma layout_add_distinct [simp]: "distinct L \<Longrightarrow> distinct (layout_add m L)"
  by (simp add: layout_add_def)

lemma fold_add_set: "set (fold (\<lambda>x. layout_add (f x)) xs L) = set L \<union> f ` set xs"
  by (induction xs arbitrary: L) auto

lemma fold_add_distinct: "distinct L \<Longrightarrow> distinct (fold (\<lambda>x. layout_add (f x)) xs L)"
  by (induction xs arbitrary: L) auto

lemma add_return_dest_set: "set (add_return_dest ir owner L) = set L \<union> return_members ir owner"
    "distinct L \<Longrightarrow> distinct (add_return_dest ir owner L)"
  by (auto simp: add_return_dest_def return_members_def)

text \<open>The sets hold, in some order and once, what the blocks so far have asked for.\<close>

definition sets_hold :: "layout_sets \<Rightarrow> (nat \<Rightarrow> bool) \<Rightarrow> (nat \<Rightarrow> layout_member set) \<Rightarrow> bool" where
  "sets_hold sets D A \<longleftrightarrow>
     (\<forall>g. (case sets g of None \<Rightarrow> \<not> D g \<and> A g = {} | Some L \<Rightarrow> D g \<and> set L = A g \<and> distinct L))"

lemma sets_hold_None: "sets_hold sets D A \<Longrightarrow> sets g = None \<Longrightarrow> \<not> D g \<and> A g = {}"
  unfolding sets_hold_def by (auto dest: spec [of _ g])

lemma sets_hold_Some: "sets_hold sets D A \<Longrightarrow> sets g = Some L \<Longrightarrow> D g \<and> set L = A g \<and> distinct L"
  unfolding sets_hold_def by (auto dest: spec [of _ g])

lemma sets_hold_default: "sets_hold sets D A \<Longrightarrow> set (entry_or_default sets g) = A g \<and> distinct (entry_or_default sets g)"
  using sets_hold_None [of sets D A g] sets_hold_Some [of sets D A g] by (auto simp: entry_or_default_def split: option.splits)

lemma sets_hold_update:
  assumes "sets_hold sets D A" and "set L = A g \<union> M" and "distinct L"
  shows "sets_hold (sets(g \<mapsto> L)) (\<lambda>h. D h \<or> h = g) (\<lambda>h. A h \<union> (if h = g then M else {}))"
  unfolding sets_hold_def
proof
  fix h
  show "case (sets(g \<mapsto> L)) h of None \<Rightarrow> \<not> (D h \<or> h = g) \<and> A h \<union> (if h = g then M else {}) = {}
      | Some L \<Rightarrow> (D h \<or> h = g) \<and> set L = A h \<union> (if h = g then M else {}) \<and> distinct L"
    using assms(1) [unfolded sets_hold_def, rule_format, of h] assms(2,3) by (cases "h = g"; cases "sets h") auto
qed

lemma return_layout_run:
  assumes "sets_hold sets D A" and c: "block_control ir b = Some c" and outs: "block_outputs ir b = Some outs"
  shows "\<exists>sets'. return_layout ir bd b sets = Some sets'
    \<and> sets_hold sets' (\<lambda>g. D g \<or> c = InternalReturn \<and> bd_out bd b = Some g)
         (\<lambda>g. A g \<union> (if c = InternalReturn \<and> bd_out bd b = Some g then InputOutput ` {..<length outs} else {}))"
proof (cases "c = InternalReturn \<and> bd_out bd b \<noteq> None")
  case True
  then obtain g where g: "bd_out bd b = Some g"
    by blast
  let ?L = "fold (\<lambda>i. layout_add (InputOutput i)) [0..<length outs] (entry_or_default sets g)"
  have "set ?L = A g \<union> InputOutput ` {..<length outs}" "distinct ?L"
    using sets_hold_default [OF assms(1), of g] by (simp_all add: fold_add_set fold_add_distinct atLeast0LessThan)
  from sets_hold_update [OF assms(1) this] show ?thesis
    using True g c outs by (auto simp: return_layout_def eq_commute [of _ g])
next
  case False
  then have "return_layout ir bd b sets = Some sets"
    using c by (cases c; cases "bd_out bd b") (auto simp: return_layout_def)
  then show ?thesis
    using False assms(1) by auto
qed

lemma entry_layout_run:
  assumes "sets_hold sets D A" and ord: "lists_sets ord" "finite (ll_entry live ! b)" "b < length (ll_entry live)"
    and ins: "block_inputs ir b = Some ins"
  shows "\<exists>sets'. entry_layout ord ir live bd owner b sets = Some sets'
    \<and> sets_hold sets' (\<lambda>g. D g \<or> bd_in bd b = Some g)
         (\<lambda>g. A g \<union> (if bd_in bd b = Some g then return_members ir owner
            \<union> live_member ins ` (ll_entry live ! b) else {}))"
proof (cases "bd_in bd b")
  case None
  then show ?thesis
    using assms(1) by (simp add: entry_layout_def)
next
  case (Some g)
  let ?L = "add_return_dest ir owner (entry_or_default sets g)"
  let ?M = "return_members ir owner \<union> live_member ins ` (ll_entry live ! b)"
  have "set (fold (\<lambda>l. layout_add (live_member ins l)) (ord (ll_entry live ! b)) ?L) = A g \<union> ?M"
      "distinct (fold (\<lambda>l. layout_add (live_member ins l)) (ord (ll_entry live ! b)) ?L)"
    using sets_hold_default [OF assms(1), of g] ord by (auto simp: fold_add_set fold_add_distinct lists_sets_def add_return_dest_set)
  from sets_hold_update [OF assms(1) this] show ?thesis
    using Some ins ord(3) by (auto simp: entry_layout_def iv_index_def fold_panics_pure eq_commute [of _ g])
qed

lemma layout_block_run:
  assumes S: "sets_hold sets D A" and ord: "lists_sets ord" "finite (ll_entry live ! b)" "b < length (ll_entry live)"
    and b: "b < length ownership" "block_control ir b = Some c" "block_inputs ir b = Some ins" "block_outputs ir b = Some outs"
  shows "\<exists>sets'. layout_block ord ir live ownership bd b sets = Some sets'
    \<and> sets_hold sets' (\<lambda>g. D g \<or> asks ir ownership bd b g) (\<lambda>g. A g \<union> asked_members ir live ownership bd b g)"
proof (cases "ownership ! b")
  case None
  then show ?thesis
    using S b(1) by (simp add: layout_block_def get_owner_def iv_index_def asks_def asked_members_def)
next
  case (Some owner)
  obtain sets1 where s1: "return_layout ir bd b sets = Some sets1"
      "sets_hold sets1 (\<lambda>g. D g \<or> c = InternalReturn \<and> bd_out bd b = Some g)
         (\<lambda>g. A g \<union> (if c = InternalReturn \<and> bd_out bd b = Some g then InputOutput ` {..<length outs} else {}))"
    using return_layout_run [OF S b(2,4)] by blast
  obtain sets2 where s2: "entry_layout ord ir live bd owner b sets1 = Some sets2"
      "sets_hold sets2 (\<lambda>g. (D g \<or> c = InternalReturn \<and> bd_out bd b = Some g) \<or> bd_in bd b = Some g)
         (\<lambda>g. (A g \<union> (if c = InternalReturn \<and> bd_out bd b = Some g then InputOutput ` {..<length outs} else {}))
            \<union> (if bd_in bd b = Some g then return_members ir owner
            \<union> live_member ins ` (ll_entry live ! b) else {}))"
    using entry_layout_run [OF s1(2) ord b(3), of bd owner] by blast
  have eq: "(\<lambda>g. (D g \<or> c = InternalReturn \<and> bd_out bd b = Some g) \<or> bd_in bd b = Some g) = (\<lambda>g. D g \<or> asks ir ownership bd b g)"
      "(\<lambda>g. (A g \<union> (if c = InternalReturn \<and> bd_out bd b = Some g then InputOutput ` {..<length outs} else {}))
            \<union> (if bd_in bd b = Some g then return_members ir owner
            \<union> live_member ins ` (ll_entry live ! b) else {})) = (\<lambda>g. A g \<union> asked_members ir live ownership bd b g)"
    using Some b(2-4) by (auto simp: asks_def asked_members_def fun_eq_iff)
  show ?thesis
    using s1(1) s2 Some b(1) unfolding eq by (simp add: layout_block_def get_owner_def iv_index_def)
qed

text \<open>What the layouts are, for every order of the sets.\<close>

definition group_layout :: "eth_ir_program \<Rightarrow> local_liveness \<Rightarrow> nat option list \<Rightarrow> bundling \<Rightarrow> layout_sets" where
  "group_layout ir live ownership bd g =
     (if \<exists>b < length (ir_basic_blocks ir). asks ir ownership bd b g
      then Some (sorted_list_of_set (\<Union>b < length (ir_basic_blocks ir). asked_members ir live ownership bd b g)) else None)"

lemma layout_sets_run:
  assumes ord: "lists_sets ord"
    and blocks: "\<And>b. b < length (ir_basic_blocks ir) \<Longrightarrow> b < length ownership \<and> b < length (ll_entry live) \<and> finite (ll_entry live ! b)
       \<and> (\<exists>c. block_control ir b = Some c) \<and> (\<exists>ins. block_inputs ir b = Some ins) \<and> (\<exists>outs. block_outputs ir b = Some outs)"
  shows "build_layout_sets ord ir live ownership bd = Some (group_layout ir live ownership bd)"
proof -
  let ?n = "length (ir_basic_blocks ir)"
  have "\<exists>sets. fold_panics (layout_block ord ir live ownership bd) [0..<m] Map.empty = Some sets
      \<and> sets_hold sets (\<lambda>g. \<exists>b < m. asks ir ownership bd b g) (\<lambda>g. \<Union>b < m. asked_members ir live ownership bd b g)" if "m \<le> ?n" for m
    using that
  proof (induction m)
    case 0
    then show ?case
      by (simp add: sets_hold_def)
  next
    case (Suc m)
    then obtain sets where s: "fold_panics (layout_block ord ir live ownership bd) [0..<m] Map.empty = Some sets"
        "sets_hold sets (\<lambda>g. \<exists>b < m. asks ir ownership bd b g) (\<lambda>g. \<Union>b < m. asked_members ir live ownership bd b g)"
      by auto
    obtain c ins outs where b: "m < length ownership" "m < length (ll_entry live)" "finite (ll_entry live ! m)"
        "block_control ir m = Some c" "block_inputs ir m = Some ins" "block_outputs ir m = Some outs"
      using blocks [of m] Suc.prems by auto
    obtain sets' where s': "layout_block ord ir live ownership bd m sets = Some sets'"
        "sets_hold sets' (\<lambda>g. (\<exists>b < m. asks ir ownership bd b g) \<or> asks ir ownership bd m g)
           (\<lambda>g. (\<Union>b < m. asked_members ir live ownership bd b g) \<union> asked_members ir live ownership bd m g)"
      using layout_block_run [OF s(2) ord b(3,2,1,4-6), of bd] by blast
    have "(\<lambda>g. (\<exists>b < m. asks ir ownership bd b g) \<or> asks ir ownership bd m g) = (\<lambda>g. \<exists>b < Suc m. asks ir ownership bd b g)"
        "(\<lambda>g. (\<Union>b < m. asked_members ir live ownership bd b g) \<union> asked_members ir live ownership bd m g)
           = (\<lambda>g. \<Union>b < Suc m. asked_members ir live ownership bd b g)"
      by (auto simp: less_Suc_eq lessThan_Suc fun_eq_iff)
    then show ?case
      using s(1) s' by simp
  qed
  then obtain sets where s: "fold_panics (layout_block ord ir live ownership bd) [0..<?n] Map.empty = Some sets"
      "sets_hold sets (\<lambda>g. \<exists>b < ?n. asks ir ownership bd b g) (\<lambda>g. \<Union>b < ?n. asked_members ir live ownership bd b g)"
    by blast
  have "map_option sort (sets g) = group_layout ir live ownership bd g" for g
  proof (cases "sets g")
    case None
    then show ?thesis
      using sets_hold_None [OF s(2)] by (auto simp: group_layout_def)
  next
    case (Some L)
    then show ?thesis
      using sets_hold_Some [OF s(2) Some] sorted_list_of_set_sort_remdups [of L] by (auto simp: group_layout_def distinct_remdups_id)
  qed
  then show ?thesis
    using s(1) by (simp add: build_layout_sets_def)
qed

end
