(* ===== verification/Block_Graph.thy ===== *)
theory Block_Graph
  imports Layouts Effect_Order
begin

text \<open>
  The graph of a block (\<open>op_graph/build_simple.rs\<close> and \<open>build_effectful.rs\<close>).  The two builders share their code but
  for the predecessors of an operation, \<open>order\<close> below: the chain of the operations, or the conflicts of their effects.
\<close>

record graph_env =
  ge_locals :: "nat \<rightharpoonup> nat"
  ge_ret_dest :: "nat option"

definition push_member :: "nat list \<Rightarrow> layout_member \<Rightarrow> graph_env \<times> graph_storage \<Rightarrow> (graph_env \<times> graph_storage) panics" where
  "push_member ins m = (\<lambda>(env, st).
     do { (v, st) \<leftarrow> push_input_value st;
          case m of
            ReturnDest \<Rightarrow> Some (env\<lparr>ge_ret_dest := Some v\<rparr>, st)
          | InputOutput p \<Rightarrow> do { l \<leftarrow> get_at ins p; Some (env\<lparr>ge_locals := (ge_locals env)(l \<mapsto> v)\<rparr>, st) }
          | LocalMember l \<Rightarrow> Some (env\<lparr>ge_locals := (ge_locals env)(l \<mapsto> v)\<rparr>, st) })"

definition callee_layout :: "eth_ir_program \<Rightarrow> layouts_tracker \<Rightarrow> nat \<Rightarrow> layout panics" where
  "callee_layout ir lt f = do { entry \<leftarrow> function_entry ir f; get_input_layout lt entry }"

text \<open>The value of the return destination, pushed before a call to a function that takes one.\<close>

definition push_return_dest ::
    "eth_ir_program \<Rightarrow> layouts_tracker \<Rightarrow> nat \<Rightarrow> operation \<Rightarrow> graph_storage \<Rightarrow> (nat option \<times> graph_storage) panics" where
  "push_return_dest ir lt i op st =
     (case op_payload op of
        InternalCallData f ins_start outs_start \<Rightarrow>
          do { L \<leftarrow> callee_layout ir lt f;
               if ReturnDest \<notin> set L then Some (None, st)
               else do { (n, st) \<leftarrow> begin_op (RetDestPush i) st;
                         (v, st) \<leftarrow> add_output n st;
                         Some (Some v, st) } }
      | _ \<Rightarrow> Some (None, st))"

definition node_kind :: "nat \<Rightarrow> operation \<Rightarrow> op_node_kind" where
  "node_kind i op = (if is_flippable (op_kind op) then Flippable i else Normal i)"

definition call_argument :: "(nat \<rightharpoonup> nat) \<Rightarrow> nat list \<Rightarrow> nat option \<Rightarrow> layout_member \<Rightarrow> nat panics" where
  "call_argument val call_inputs ret m =
     (case m of
        InputOutput i \<Rightarrow> do { l \<leftarrow> get_at call_inputs i; val l }
      | ReturnDest \<Rightarrow> ret
      | LocalMember _ \<Rightarrow> None)"

definition node_arguments ::
    "eth_ir_program \<Rightarrow> layouts_tracker \<Rightarrow> (nat \<rightharpoonup> nat) \<Rightarrow> nat option \<Rightarrow> operation \<Rightarrow> (nat panics) list panics" where
  "node_arguments ir lt val ret op =
     (case op_payload op of
        InternalCallData f ins_start outs_start \<Rightarrow>
          do { call_inputs \<leftarrow> icall_get_inputs ir ins_start outs_start;
               L \<leftarrow> callee_layout ir lt f;
               Some (map (call_argument val call_inputs ret) L) }
      | _ \<Rightarrow> do { ins \<leftarrow> op_inputs ir op; Some (map val ins) })"

definition add_argument :: "nat \<Rightarrow> nat panics \<Rightarrow> graph_storage \<Rightarrow> graph_storage panics" where
  "add_argument n v st = do { v \<leftarrow> v; add_input n v st }"

definition add_result :: "nat \<Rightarrow> nat \<Rightarrow> graph_env \<times> graph_storage \<Rightarrow> (graph_env \<times> graph_storage) panics" where
  "add_result n l = (\<lambda>(env, st).
     do { (v, st) \<leftarrow> add_output n st;
          ensure (ge_locals env l = None);
          Some (env\<lparr>ge_locals := (ge_locals env)(l \<mapsto> v)\<rparr>, st) })"

type_synonym 's op_order = "operation \<Rightarrow> nat \<Rightarrow> 's \<Rightarrow> graph_storage \<Rightarrow> ('s \<times> graph_storage) panics"

definition graph_op ::
    "'s op_order \<Rightarrow> eth_ir_program \<Rightarrow> layouts_tracker \<Rightarrow> nat \<Rightarrow> 's \<times> graph_env \<times> graph_storage
     \<Rightarrow> ('s \<times> graph_env \<times> graph_storage) panics" where
  "graph_op order ir lt i = (\<lambda>(s, env, st).
     do { op \<leftarrow> opview_op ir i;
          (ret, st) \<leftarrow> push_return_dest ir lt i op st;
          (n, st) \<leftarrow> begin_op (node_kind i op) st;
          (s, st) \<leftarrow> order op n s st;
          args \<leftarrow> node_arguments ir lt (ge_locals env) ret op;
          st \<leftarrow> fold_panics (add_argument n) args st;
          outs \<leftarrow> op_outputs ir op;
          (env, st) \<leftarrow> fold_panics (add_result n) outs (env, st);
          Some (s, env, st) })"

text \<open>The value the control of the block takes from the stack, if it takes one.\<close>

definition control_value :: "graph_env \<Rightarrow> control \<Rightarrow> nat option panics" where
  "control_value env c =
     (case c of
        LastOpTerminates \<Rightarrow> Some None
      | ContinuesTo _ \<Rightarrow> Some None
      | InternalReturn \<Rightarrow> do { v \<leftarrow> ge_ret_dest env; Some (Some v) }
      | Switch sw \<Rightarrow> do { v \<leftarrow> ge_locals env (sw_condition sw); Some (Some v) }
      | Branches br \<Rightarrow> do { v \<leftarrow> ge_locals env (br_condition br); Some (Some v) })"

definition end_value :: "graph_env \<Rightarrow> nat list \<Rightarrow> layout_member \<Rightarrow> nat panics" where
  "end_value env outs m =
     (case m of
        ReturnDest \<Rightarrow> ge_ret_dest env
      | InputOutput p \<Rightarrow> do { l \<leftarrow> get_at outs p; ge_locals env l }
      | LocalMember l \<Rightarrow> ge_locals env l)"

definition push_end_member :: "graph_env \<Rightarrow> nat list \<Rightarrow> layout_member \<Rightarrow> graph_storage \<Rightarrow> graph_storage panics" where
  "push_end_member env outs m st = do { v \<leftarrow> end_value env outs m; push_end_stack_value v st }"

definition build_graph ::
    "'s op_order \<Rightarrow> 's \<Rightarrow> eth_ir_program \<Rightarrow> layouts_tracker \<Rightarrow> nat \<Rightarrow> layout \<Rightarrow> layout \<Rightarrow> op_graph panics" where
  "build_graph order s ir lt b input_layout output_layout =
     do { ids \<leftarrow> block_operations ir b;
          ins \<leftarrow> block_inputs ir b;
          (env, st) \<leftarrow> fold_panics (push_member ins) input_layout (\<lparr>ge_locals = Map.empty, ge_ret_dest = None\<rparr>, graph_empty);
          inputs_end \<leftarrow> end_inputs_begin_ops st;
          (s, env, st) \<leftarrow> fold_panics (graph_op order ir lt) ids (s, env, st);
          end_start \<leftarrow> end_ops_begin_end_stack st;
          c \<leftarrow> block_control ir b;
          v \<leftarrow> control_value env c;
          st \<leftarrow> (case v of None \<Rightarrow> Some st | Some v \<Rightarrow> push_end_stack_value v st);
          outs \<leftarrow> block_outputs ir b;
          st \<leftarrow> fold_panics (push_end_member env outs) output_layout st;
          finish_graph st inputs_end end_start }"

definition effect_order :: "effect list \<Rightarrow> effect_tracker op_order" where
  "effect_order effects op n et st =
     do { r \<leftarrow> effect_of op;
          e \<leftarrow> (case r of Inr e \<Rightarrow> Some e | Inl f \<Rightarrow> iv_index effects f);
          add_effect_predecessors n e et st }"

definition chain_order :: "nat option op_order" where
  "chain_order op n prev st = do { st \<leftarrow> add_last n prev st; Some (Some n, st) }"

definition build_graph_effectful ::
    "effect list \<Rightarrow> eth_ir_program \<Rightarrow> layouts_tracker \<Rightarrow> nat \<Rightarrow> layout \<Rightarrow> layout \<Rightarrow> op_graph panics" where
  "build_graph_effectful effects = build_graph (effect_order effects) tracker_default"

definition build_graph_simple :: "eth_ir_program \<Rightarrow> layouts_tracker \<Rightarrow> nat \<Rightarrow> layout \<Rightarrow> layout \<Rightarrow> op_graph panics" where
  "build_graph_simple = build_graph chain_order None"

end
