(* ===== verification/Block_Graph_Inv.thy ===== *)
theory Block_Graph_Inv
  imports Block_Graph
begin

text \<open>
  The graph of a block as its nodes: each operation takes the values of the locals it reads and gives those of the
  locals it defines, and comes after the operations its effect conflicts with.
\<close>

section \<open>Arguments and results\<close>

definition sources :: "nat option list \<Rightarrow> nat list \<Rightarrow> nat set" where
  "sources srcs vs = (\<Union>v \<in> set vs. set_option (srcs ! v))"

lemma sources_simps [simp]: "sources srcs [] = {}" "sources srcs (v # vs) = set_option (srcs ! v) \<union> sources srcs vs"
    "sources srcs (vs @ ws) = sources srcs vs \<union> sources srcs ws"
  by (auto simp: sources_def)

lemma arena_size_snoc [simp]: "arena_size (ms @ [n]) = arena_size ms + length (gn_inputs n) + length (gn_outputs n)"
  by (simp add: arena_size_def node_values_def)

lemma arena_size_Nil [simp]: "arena_size [] = 0"
  by (simp add: arena_size_def)

lemma add_arguments_run:
  "gs_rep st srcs (ms @ [n]) [] \<Longrightarrow> gn_outputs n = [] \<Longrightarrow> \<forall>v \<in> set vs. v < length srcs \<and> (\<forall>p. srcs ! v = Some p \<longrightarrow> p < length ms) \<Longrightarrow>
   is_idx (arena_size (ms @ [n]) + length vs) \<Longrightarrow>
   \<exists>st'. fold_panics (add_argument (length ms)) (map Some vs) st = Some st'
     \<and> gs_rep st' srcs (ms @ [n\<lparr>gn_inputs := gn_inputs n @ vs, gn_preds := gn_preds n \<union> sources srcs vs\<rparr>]) []"
proof (induction vs arbitrary: st n)
  case (Cons v vs)
  have "is_idx (arena_size (ms @ [n]))"
    using Cons.prems(4) by (simp add: is_idx_def)
  then obtain st1 where st1: "add_input (length ms) v st = Some st1"
      "gs_rep st1 srcs (ms @ [n\<lparr>gn_inputs := gn_inputs n @ [v], gn_preds := gn_preds n \<union> set_option (srcs ! v)\<rparr>]) []"
    using add_input_rep [OF Cons.prems(1), of v] Cons.prems(2,3) by fastforce
  have "\<exists>st'. fold_panics (add_argument (length ms)) (map Some vs) st1 = Some st'
      \<and> gs_rep st' srcs (ms @ [(n\<lparr>gn_inputs := gn_inputs n @ [v], gn_preds := gn_preds n \<union> set_option (srcs ! v)\<rparr>)
          \<lparr>gn_inputs := (gn_inputs n @ [v]) @ vs, gn_preds := (gn_preds n \<union> set_option (srcs ! v)) \<union> sources srcs vs\<rparr>]) []"
    using Cons.IH [OF st1(2)] Cons.prems(2-4) by (simp add: is_idx_def)
  moreover have "add_argument (length ms) (Some v) st = Some st1"
    using st1(1) by (simp add: add_argument_def)
  ultimately show ?case
    by (simp add: Un_assoc)
qed auto

lemma add_results_run:
  "gs_rep st srcs (ms @ [n]) [] \<Longrightarrow> distinct ls \<Longrightarrow> \<forall>l \<in> set ls. ge_locals env l = None \<Longrightarrow>
   is_idx (length srcs + length ls) \<Longrightarrow> is_idx (arena_size (ms @ [n]) + length ls) \<Longrightarrow>
   \<exists>st' val. fold_panics (add_result (length ms)) ls (env, st) = Some (env\<lparr>ge_locals := val\<rparr>, st')
     \<and> gs_rep st' (srcs @ replicate (length ls) (Some (length ms))) (ms @ [n\<lparr>gn_outputs := gn_outputs n @ [length srcs..<length srcs + length ls]\<rparr>]) []
     \<and> map val ls = map Some [length srcs..<length srcs + length ls] \<and> ge_locals env \<subseteq>\<^sub>m val \<and> dom val = dom (ge_locals env) \<union> set ls"
proof (induction ls arbitrary: st n srcs env)
  case Nil
  then show ?case
    by (intro exI [of _ st] exI [of _ "ge_locals env"]) (simp add: map_le_def)
next
  case (Cons l ls)
  let ?v = "length srcs"
  have "is_idx ?v" "is_idx (arena_size (ms @ [n]))"
    using Cons.prems(4,5) by (simp_all add: is_idx_def)
  then obtain st1 where st1: "add_output (length ms) st = Some (?v, st1)"
      "gs_rep st1 (srcs @ [Some (length ms)]) (ms @ [n\<lparr>gn_outputs := gn_outputs n @ [?v]\<rparr>]) []"
    using add_output_rep [OF Cons.prems(1)] by blast
  let ?env = "env\<lparr>ge_locals := (ge_locals env)(l \<mapsto> ?v)\<rparr>"
  define srcs1 where "srcs1 = srcs @ [Some (length ms)]"
  have len: "length srcs1 = Suc ?v"
    by (simp add: srcs1_def)
  have prems: "distinct ls" "\<forall>l' \<in> set ls. ge_locals ?env l' = None" "is_idx (length srcs1 + length ls)"
      "is_idx (arena_size (ms @ [n\<lparr>gn_outputs := gn_outputs n @ [?v]\<rparr>]) + length ls)"
    using Cons.prems(2-5) by (auto simp: is_idx_def srcs1_def)
  obtain st2 val where st2: "fold_panics (add_result (length ms)) ls (?env, st1) = Some (?env\<lparr>ge_locals := val\<rparr>, st2)"
      "gs_rep st2 (srcs1 @ replicate (length ls) (Some (length ms)))
         (ms @ [(n\<lparr>gn_outputs := gn_outputs n @ [?v]\<rparr>)\<lparr>gn_outputs := (gn_outputs (n\<lparr>gn_outputs := gn_outputs n @ [?v]\<rparr>)) @ [Suc ?v..<Suc ?v + length ls]\<rparr>]) []"
      "map val ls = map Some [Suc ?v..<Suc ?v + length ls]" "ge_locals ?env \<subseteq>\<^sub>m val" "dom val = dom (ge_locals ?env) \<union> set ls"
    using Cons.IH [OF st1(2) [folded srcs1_def] prems] unfolding len by blast
  have upt: "[?v..<?v + length (l # ls)] = ?v # [Suc ?v..<Suc ?v + length ls]"
    by (simp add: upt_conv_Cons del: upt_Suc)
  have "val l = Some ?v"
    using st2(4) by (auto simp: map_le_def dest: bspec [of _ _ l])
  moreover have "ge_locals env \<subseteq>\<^sub>m val"
    using st2(4) Cons.prems(3) unfolding map_le_def by (metis (no_types, lifting) domIff fun_upd_other graph_env.select_convs(1) graph_env.surjective graph_env.update_convs(1) list.set_intros(1) option.distinct(1))
  moreover have "add_result (length ms) l (env, st) = Some (?env, st1)"
    using st1(1) Cons.prems(3) by (simp add: add_result_def)
  ultimately show ?case
    using st2 unfolding upt by (auto simp: srcs1_def simp del: upt_Suc intro!: exI [of _ val])
qed

section \<open>The nodes of the operations\<close>

definition the_op :: "eth_ir_program \<Rightarrow> nat \<Rightarrow> operation" where
  "the_op ir i = ir_operations ir ! i"

definition is_call :: "operation \<Rightarrow> bool" where
  "is_call op \<longleftrightarrow> (case op_payload op of InternalCallData f s o' \<Rightarrow> True | _ \<Rightarrow> False)"

text \<open>The layout a call has to lay its arguments out in.\<close>

definition call_layout :: "eth_ir_program \<Rightarrow> layouts_tracker \<Rightarrow> operation \<Rightarrow> layout" where
  "call_layout ir lt op = (case op_payload op of InternalCallData f s o' \<Rightarrow> the (callee_layout ir lt f) | _ \<Rightarrow> [])"

definition pushes_return :: "eth_ir_program \<Rightarrow> layouts_tracker \<Rightarrow> nat \<Rightarrow> bool" where
  "pushes_return ir lt i \<longleftrightarrow> ReturnDest \<in> set (call_layout ir lt (the_op ir i))"

text \<open>The values an operation takes: those of the locals it reads, or for a call those its callee expects.\<close>

definition takes_values :: "eth_ir_program \<Rightarrow> layouts_tracker \<Rightarrow> (nat \<rightharpoonup> nat) \<Rightarrow> nat option \<Rightarrow> nat \<Rightarrow> nat list \<Rightarrow> bool" where
  "takes_values ir lt val ret i vs \<longleftrightarrow>
     (if is_call (the_op ir i) then map (call_argument val (op_reads ir i) ret) (call_layout ir lt (the_op ir i)) = map Some vs
      else map val (op_reads ir i) = map Some vs)"

definition op_node :: "eth_ir_program \<Rightarrow> layouts_tracker \<Rightarrow> (nat \<rightharpoonup> nat) \<Rightarrow> nat option \<Rightarrow> nat \<Rightarrow> graph_node \<Rightarrow> bool" where
  "op_node ir lt val ret i n \<longleftrightarrow>
     gn_kind n = node_kind i (the_op ir i) \<and> takes_values ir lt val ret i (gn_inputs n)
     \<and> map val (op_defs ir i) = map Some (gn_outputs n)"

definition op_group :: "eth_ir_program \<Rightarrow> layouts_tracker \<Rightarrow> (nat \<rightharpoonup> nat) \<Rightarrow> nat \<Rightarrow> graph_node list \<Rightarrow> bool" where
  "op_group ir lt val i grp \<longleftrightarrow>
     (if pushes_return ir lt i
      then \<exists>v n. grp = [\<lparr>gn_kind = RetDestPush i, gn_inputs = [], gn_outputs = [v], gn_preds = {}\<rparr>, n] \<and> op_node ir lt val (Some v) i n
      else \<exists>n. grp = [n] \<and> op_node ir lt val None i n)"

definition op_effect :: "eth_ir_program \<Rightarrow> effect list \<Rightarrow> nat \<Rightarrow> effect" where
  "op_effect ir effects i = (case the (effect_of (the_op ir i)) of Inr e \<Rightarrow> e | Inl f \<Rightarrow> effects ! f)"

text \<open>What an operation needs to have before it.\<close>

definition op_ready :: "eth_ir_program \<Rightarrow> layouts_tracker \<Rightarrow> effect list \<Rightarrow> nat set \<Rightarrow> nat \<Rightarrow> bool" where
  "op_ready ir lt effects D i \<longleftrightarrow>
     i < length (ir_operations ir) \<and> well_typed (the_op ir i)
     \<and> opview_inputs ir i = Some (op_reads ir i) \<and> opview_outputs ir i = Some (op_defs ir i)
     \<and> distinct (op_defs ir i) \<and> set (op_defs ir i) \<inter> D = {}
     \<and> (case op_payload (the_op ir i) of
          InternalCallData f s o' \<Rightarrow> f < length effects
            \<and> (\<exists>L. callee_layout ir lt f = Some L \<and> (\<forall>m \<in> set L. case m of
                 ReturnDest \<Rightarrow> True | InputOutput p \<Rightarrow> p < length (op_reads ir i) \<and> op_reads ir i ! p \<in> D | LocalMember _ \<Rightarrow> False))
        | _ \<Rightarrow> set (op_reads ir i) \<subseteq> D)"

definition op_room :: "eth_ir_program \<Rightarrow> layouts_tracker \<Rightarrow> nat \<Rightarrow> nat" where
  "op_room ir lt i = 3 + length (op_reads ir i) + length (call_layout ir lt (the_op ir i)) + length (op_defs ir i)"

lemma call_argument_mono:
  assumes "val \<subseteq>\<^sub>m val'" and "call_argument val cins ret m = Some v"
  shows "call_argument val' cins ret m = Some v"
  using assms by (auto simp: call_argument_def bind_Some map_le_def dom_def split: layout_member.splits)

lemma map_val_mono: "val \<subseteq>\<^sub>m val' \<Longrightarrow> map val ls = map Some vs \<Longrightarrow> map val' ls = map Some vs"
proof (induction ls arbitrary: vs)
  case (Cons l ls)
  then show ?case
    by (cases vs) (auto simp: map_le_def dom_def dest: spec [of _ l])
qed simp

lemma map_call_mono:
  "val \<subseteq>\<^sub>m val' \<Longrightarrow> map (call_argument val cins ret) L = map Some vs \<Longrightarrow> map (call_argument val' cins ret) L = map Some vs"
proof (induction L arbitrary: vs)
  case (Cons m L)
  then show ?case
    by (cases vs) (auto intro: call_argument_mono)
qed simp

lemma op_node_mono: "val \<subseteq>\<^sub>m val' \<Longrightarrow> op_node ir lt val ret i n \<Longrightarrow> op_node ir lt val' ret i n"
  unfolding op_node_def takes_values_def by (auto simp: map_val_mono map_call_mono split: if_splits)

lemma op_group_mono: "val \<subseteq>\<^sub>m val' \<Longrightarrow> op_group ir lt val i grp \<Longrightarrow> op_group ir lt val' i grp"
  unfolding op_group_def by (auto split: if_splits intro: op_node_mono)

lemma all_SomeD: "\<forall>x \<in> set xs. f x \<noteq> None \<Longrightarrow> map f xs = map Some (map (the \<circ> f) xs)"
  by auto

text \<open>The arguments of a ready operation are there.\<close>

lemma node_arguments_run:
  assumes ready: "op_ready ir lt effects (dom val) i" and ret: "pushes_return ir lt i \<Longrightarrow> ret \<noteq> None"
  shows "\<exists>vs. node_arguments ir lt val ret (the_op ir i) = Some (map Some vs) \<and> takes_values ir lt val ret i vs
    \<and> set vs \<subseteq> ran val \<union> set_option ret \<and> length vs \<le> length (op_reads ir i) + length (call_layout ir lt (the_op ir i))"
proof -
  have reads: "op_inputs ir (the_op ir i) = Some (op_reads ir i)"
    using ready by (auto simp: op_ready_def opview_inputs_def opview_op_def iv_index_def the_op_def bind_Some get_at_Some)
  have plain: "map val (op_reads ir i) = map Some (map (the \<circ> val) (op_reads ir i)) \<and> set (map (the \<circ> val) (op_reads ir i)) \<subseteq> ran val"
    if "set (op_reads ir i) \<subseteq> dom val"
    using that by (auto simp: ran_def dom_def subset_iff)
  show ?thesis
  proof (cases "op_payload (the_op ir i)")
    case (InternalCallData f s o')
    obtain L where L: "callee_layout ir lt f = Some L" "\<forall>m \<in> set L. case m of
         ReturnDest \<Rightarrow> True | InputOutput p \<Rightarrow> p < length (op_reads ir i) \<and> op_reads ir i ! p \<in> dom val | LocalMember _ \<Rightarrow> False"
      using ready InternalCallData by (auto simp: op_ready_def)
    have layout: "call_layout ir lt (the_op ir i) = L"
      using InternalCallData L(1) by (simp add: call_layout_def)
    have "icall_get_inputs ir s o' = Some (op_reads ir i)"
      using reads InternalCallData by (simp add: op_inputs_def inputs_getter_def)
    let ?f = "call_argument val (op_reads ir i) ret"
    have some: "\<forall>m \<in> set L. ?f m \<noteq> None"
      using L(2) ret layout by (fastforce simp: call_argument_def pushes_return_def split: layout_member.splits)
    have "set (map (the \<circ> ?f) L) \<subseteq> ran val \<union> set_option ret"
      using L(2) some by (auto simp: call_argument_def ran_def split: layout_member.splits)
    then show ?thesis
      using InternalCallData L(1) layout reads all_SomeD [OF some] \<open>icall_get_inputs ir s o' = Some (op_reads ir i)\<close>
      by (intro exI [of _ "map (the \<circ> ?f) L"]) (simp add: node_arguments_def takes_values_def is_call_def)
  qed (use ready reads plain in \<open>auto simp: op_ready_def node_arguments_def takes_values_def is_call_def
      intro!: exI [of _ "map (the \<circ> val) (op_reads ir i)"] simp del: map_map\<close>)
qed

section \<open>The graph after some operations\<close>

definition ends_at :: "graph_node list list \<Rightarrow> nat \<Rightarrow> nat" where
  "ends_at grps k = length (concat (take (Suc k) grps)) - 1"

definition graph_inv ::
    "eth_ir_program \<Rightarrow> layouts_tracker \<Rightarrow> effect list \<Rightarrow> nat \<Rightarrow> (nat \<rightharpoonup> nat) \<Rightarrow> nat option list \<Rightarrow> nat list \<Rightarrow> graph_node list list
     \<Rightarrow> effect_history \<Rightarrow> graph_storage \<Rightarrow> bool" where
  "graph_inv ir lt effects nin val srcs ids grps hist st \<longleftrightarrow> (let ns = concat grps in
     gs_rep st srcs ns [] \<and> list_all2 (op_group ir lt val) ids grps
     \<and> map snd hist = map (\<lambda>i. widened (op_effect ir effects i)) ids \<and> map fst hist = map (ends_at grps) [0..<length grps]
     \<and> (\<forall>k < length hist. gn_preds (ns ! fst (hist ! k)) = sources srcs (gn_inputs (ns ! fst (hist ! k))) \<union> order_preds hist k)
     \<and> (\<forall>k < length ns. gn_preds (ns ! k) \<subseteq> {..<k}
          \<and> (\<forall>v \<in> set (gn_inputs (ns ! k)). v < length srcs \<and> (\<forall>p. srcs ! v = Some p \<longrightarrow> p < k)))
     \<and> (\<forall>v < length srcs. case srcs ! v of None \<Rightarrow> v < nin | Some p \<Rightarrow> p < length ns \<and> v \<in> set (gn_outputs (ns ! p)))
     \<and> ran val \<subseteq> {..<length srcs})"

lemma op_group_nonempty: "op_group ir lt val i grp \<Longrightarrow> grp \<noteq> []"
  by (auto simp: op_group_def split: if_splits)

lemma ends_at_snoc: "k < length grps \<Longrightarrow> ends_at (grps @ [grp]) k = ends_at grps k"
  by (simp add: ends_at_def)

lemma ends_at_less:
  assumes "list_all2 (op_group ir lt val) ids grps" and "k < length grps"
  shows "ends_at grps k < length (concat grps)" and "concat grps ! ends_at grps k = last (grps ! k)"
proof -
  have ne: "grps ! k \<noteq> []"
    using assms op_group_nonempty by (auto simp: list_all2_conv_all_nth)
  have split: "concat grps = concat (take k grps) @ grps ! k @ concat (drop (Suc k) grps)"
    by (subst id_take_nth_drop [OF assms(2)]) simp
  have pos: "0 < length (grps ! k)"
    using ne by simp
  have e: "ends_at grps k = length (concat (take k grps)) + (length (grps ! k) - 1)"
    using assms(2) Nat.add_diff_assoc [of 1 "length (grps ! k)" "length (concat (take k grps))"] pos
    by (simp only: ends_at_def take_Suc_conv_app_nth [OF assms(2)] concat_append length_append concat.simps append_Nil2 Suc_le_eq One_nat_def)
  show "ends_at grps k < length (concat grps)" "concat grps ! ends_at grps k = last (grps ! k)"
    unfolding e split using ne pos by (simp_all add: nth_append last_conv_nth trans_less_add1)
qed

lemma sources_append: "\<forall>v \<in> set vs. v < length srcs \<Longrightarrow> sources (srcs @ extra) vs = sources srcs vs"
  unfolding sources_def by (auto simp: nth_append)

lemma graph_inv_step:
  assumes inv: "graph_inv ir lt effects nin val srcs ids grps hist st" and val: "val \<subseteq>\<^sub>m val'" "ran val' \<subseteq> {..<length (srcs @ extra)}"
    and rep: "gs_rep st' (srcs @ extra) (concat grps @ grp) []" and grp: "op_group ir lt val' i grp"
    and nodes: "\<And>j. j < length grp \<Longrightarrow> gn_preds (grp ! j) \<subseteq> {..<length (concat grps) + j}
       \<and> (\<forall>v \<in> set (gn_inputs (grp ! j)). v < length (srcs @ extra) \<and> (\<forall>p. (srcs @ extra) ! v = Some p \<longrightarrow> p < length (concat grps) + j))"
    and preds: "gn_preds (last grp) = sources (srcs @ extra) (gn_inputs (last grp)) \<union> tracker_preds (widened (op_effect ir effects i)) (tracker_after hist)"
    and extra: "\<And>k. k < length extra \<Longrightarrow> \<exists>j < length grp. extra ! k = Some (length (concat grps) + j) \<and> length srcs + k \<in> set (gn_outputs (grp ! j))"
  shows "graph_inv ir lt effects nin val' (srcs @ extra) (ids @ [i]) (grps @ [grp])
    (hist @ [(length (concat grps) + length grp - 1, widened (op_effect ir effects i))]) st'"
proof -
  let ?ns = "concat grps" and ?h = "(length (concat grps) + length grp - 1, widened (op_effect ir effects i))"
  note I = inv [unfolded graph_inv_def Let_def]
  have groups: "list_all2 (op_group ir lt val') (ids @ [i]) (grps @ [grp])"
    using I grp op_group_mono [OF val(1)] by (auto intro!: list_all2_appendI elim: list_all2_mono)
  have lens: "length hist = length grps" "length ids = length grps"
    using I by (auto dest: arg_cong [of "map fst hist" _ length] list_all2_lengthD)
  have ne: "grp \<noteq> []"
    by (rule op_group_nonempty [OF grp])
  have fsts: "fst (hist ! k) = ends_at grps k" if "k < length hist" for k
    using I that lens by (metis (no_types, lifting) add.left_neutral length_upt map_upt_Suc nth_map nth_map_upt minus_nat.diff_0)
  have less: "ends_at grps k < length ?ns" if "k < length grps" for k
    using ends_at_less(1) [of ir lt val ids grps k] I that by blast
  have A: "gn_preds ((?ns @ grp) ! fst ((hist @ [?h]) ! k)) = sources (srcs @ extra) (gn_inputs ((?ns @ grp) ! fst ((hist @ [?h]) ! k))) \<union> order_preds (hist @ [?h]) k"
    if "k < length (hist @ [?h])" for k
  proof (cases "k = length hist")
    case True
    have "length ?ns + length grp - 1 = length ?ns + (length grp - 1)"
      using ne by (cases grp) auto
    then have "(?ns @ grp) ! (length ?ns + length grp - 1) = last grp"
      using ne by (simp add: nth_append last_conv_nth)
    then show ?thesis
      using True preds by (simp add: order_preds_append nth_append)
  next
    case False
    then have k: "k < length hist"
      using that by simp
    then have p: "fst (hist ! k) < length ?ns"
      using fsts less lens by simp
    have "gn_preds (?ns ! fst (hist ! k)) = sources srcs (gn_inputs (?ns ! fst (hist ! k))) \<union> order_preds hist k"
      using I k by blast
    moreover have "\<forall>v \<in> set (gn_inputs (?ns ! fst (hist ! k))). v < length srcs"
      using I p by blast
    ultimately show ?thesis
      using k p by (simp add: nth_append order_preds_append sources_append)
  qed
  have B: "gn_preds ((?ns @ grp) ! k) \<subseteq> {..<k} \<and> (\<forall>v \<in> set (gn_inputs ((?ns @ grp) ! k)). v < length (srcs @ extra)
       \<and> (\<forall>p. (srcs @ extra) ! v = Some p \<longrightarrow> p < k))" if "k < length (?ns @ grp)" for k
  proof (cases "k < length ?ns")
    case True
    then show ?thesis
      using I by (fastforce simp: nth_append)
  next
    case False
    then show ?thesis
      using nodes [of "k - length ?ns"] that by (simp add: nth_append)
  qed
  have C: "case (srcs @ extra) ! v of None \<Rightarrow> v < nin | Some p \<Rightarrow> p < length (?ns @ grp) \<and> v \<in> set (gn_outputs ((?ns @ grp) ! p))"
    if "v < length (srcs @ extra)" for v
  proof (cases "v < length srcs")
    case True
    then have "case srcs ! v of None \<Rightarrow> v < nin | Some p \<Rightarrow> p < length ?ns \<and> v \<in> set (gn_outputs (?ns ! p))"
      using I by blast
    then show ?thesis
      using True by (cases "srcs ! v") (simp_all add: nth_append)
  next
    case False
    then have "v - length srcs < length extra" "length srcs + (v - length srcs) = v"
      using that unfolding length_append by linarith+
    then obtain j where "j < length grp" "extra ! (v - length srcs) = Some (length ?ns + j)" "v \<in> set (gn_outputs (grp ! j))"
      using extra [of "v - length srcs"] that by auto
    then show ?thesis
      using False by (simp add: nth_append)
  qed
  have D: "map fst (hist @ [?h]) = map (ends_at (grps @ [grp])) [0..<length (grps @ [grp])]"
    using I ends_at_snoc by (simp add: ends_at_def)
  have E: "map snd (hist @ [?h]) = map (\<lambda>i. widened (op_effect ir effects i)) (ids @ [i])"
    using I by simp
  have cc: "concat (grps @ [grp]) = ?ns @ grp"
    by simp
  show ?thesis
    unfolding graph_inv_def Let_def cc using rep groups A B C D E val(2) by blast
qed

end
