(* ===== verification/Block_Graph_Run.thy ===== *)
theory Block_Graph_Run
  imports Block_Graph_Inv
begin

text \<open>
  The builder adds the operations of a block one after the other: each extends the graph by its node, and by one that
  pushes the return destination when it is a call to a function that takes one.
\<close>

definition return_node :: "nat \<Rightarrow> nat \<Rightarrow> graph_node" where
  "return_node i v = \<lparr>gn_kind = RetDestPush i, gn_inputs = [], gn_outputs = [v], gn_preds = {}\<rparr>"

lemma push_return_run:
  assumes st: "gs_rep st srcs ns []" and ready: "op_ready ir lt effects D i"
    and room: "is_idx (Suc (arena_size ns))" "is_idx (length ns)" "is_idx (length srcs)"
  shows "\<exists>st'. push_return_dest ir lt i (the_op ir i) st = Some (if pushes_return ir lt i then Some (length srcs) else None, st')
    \<and> gs_rep st' (srcs @ (if pushes_return ir lt i then [Some (length ns)] else []))
        (ns @ (if pushes_return ir lt i then [return_node i (length srcs)] else [])) []"
proof (cases "op_payload (the_op ir i)")
  case (InternalCallData f s o')
  then obtain L where L: "callee_layout ir lt f = Some L" "call_layout ir lt (the_op ir i) = L"
    using ready by (auto simp: op_ready_def call_layout_def)
  have small: "is_idx (arena_size ns)"
    using room(1) by (simp add: is_idx_def)
  obtain st1 where st1: "begin_op (RetDestPush i) st = Some (length ns, st1)"
      "gs_rep st1 srcs (ns @ [\<lparr>gn_kind = RetDestPush i, gn_inputs = [], gn_outputs = [], gn_preds = {}\<rparr>]) []"
    using begin_op_rep [OF st small room(2)] by blast
  obtain st2 where st2: "add_output (length ns) st1 = Some (length srcs, st2)"
      "gs_rep st2 (srcs @ [Some (length ns)]) (ns @ [return_node i (length srcs)]) []"
    using add_output_rep [OF st1(2) room(3)] small by (auto simp: return_node_def)
  show ?thesis
    using InternalCallData L st st1(1) st2 by (auto simp: push_return_dest_def pushes_return_def)
qed (use st in \<open>auto simp: push_return_dest_def pushes_return_def call_layout_def\<close>)

lemma effect_of_ready:
  assumes "op_ready ir lt effects D i"
  shows "\<exists>r. effect_of (the_op ir i) = Some r \<and> (case r of Inr e \<Rightarrow> Some e | Inl f \<Rightarrow> iv_index effects f) = Some (op_effect ir effects i)"
proof (cases "is_call (the_op ir i)")
  case True
  then obtain f s o' where "op_payload (the_op ir i) = InternalCallData f s o'" "f < length effects"
    using assms by (auto simp: is_call_def op_ready_def split: op_data.splits)
  then show ?thesis
    by (simp add: effect_of_def op_effect_def iv_index_def)
next
  case False
  have "op_kind (the_op ir i) \<noteq> KInternalCall"
  proof
    assume k: "op_kind (the_op ir i) = KInternalCall"
    have "operation_shape KInternalCall = InternalCallShape"
      by (simp add: operation_shape_def operation_table_def)
    then show False
      using assms False k unfolding op_ready_def well_typed_def payload_has_shape_def is_call_def
      by (auto split: op_data.splits)
  qed
  then obtain e where "kind_effect (op_kind (the_op ir i)) = Some e"
    using kind_effects_complete by blast
  then have "effect_of (the_op ir i) = Some (Inr e)"
    using False by (auto simp: effect_of_def is_call_def split: op_data.splits)
  then show ?thesis
    by (simp add: op_effect_def)
qed

lemma tracker_ops_next: "tracker_ops (tracker_next i e et) \<subseteq> insert i (tracker_ops et)"
proof
  fix x
  assume "x \<in> tracker_ops (tracker_next i e et)"
  then consider ch minor major where "(ch, minor, major) \<in> set (zip (et_channels et) EFFECT_CHANNELS)"
      "x \<in> set_option (ch_last_major (channel_next i e minor major ch)) \<union> set (ch_minors (channel_next i e minor major ch))"
    | "x \<in> set_option (et_last_logs (tracker_next i e et))"
    by (auto simp: tracker_ops_def tracker_next_def)
  then show "x \<in> insert i (tracker_ops et)"
  proof cases
    case 1
    then have "ch \<in> set (et_channels et)"
      by (simp add: set_zip_leftD)
    then show ?thesis
      using 1(2) by (auto simp: channel_next_def tracker_ops_def split: if_splits)
  qed (auto simp: tracker_next_def tracker_ops_def split: if_splits)
qed

lemma tracker_ops_after: "tracker_ops (tracker_after hist) \<subseteq> fst ` set hist"
proof (induction hist rule: rev_induct)
  case Nil
  show ?case
    by (auto simp: tracker_ops_def tracker_default_def)
next
  case (snoc x hist)
  then show ?case
    using tracker_ops_next [of "fst x" "snd x" "tracker_after hist"] by (cases x) auto
qed

lemma history_tracked:
  assumes "graph_inv ir lt effects nin val srcs ids grps hist st"
  shows "tracker_ops (tracker_after hist) \<subseteq> {..<length (concat grps)}"
proof -
  note I = assms [unfolded graph_inv_def Let_def]
  have "set (map fst hist) = ends_at grps ` {..<length grps}"
    using I by (simp only: set_map set_upt atLeast0LessThan)
  moreover have "ends_at grps k < length (concat grps)" if "k < length grps" for k
    using ends_at_less(1) [of ir lt val ids grps k] I that by blast
  ultimately have "fst ` set hist \<subseteq> {..<length (concat grps)}"
    by auto
  then show ?thesis
    using tracker_ops_after [of hist] by blast
qed

lemma tracker_preds_ops: "tracker_preds e et \<subseteq> tracker_ops et"
proof
  fix x
  assume "x \<in> tracker_preds e et"
  then consider ch minor major where "(ch, minor, major) \<in> set (zip (et_channels et) EFFECT_CHANNELS)" "x \<in> channel_preds e minor major ch"
    | "x \<in> set_option (et_last_logs et)"
    by (auto simp: tracker_preds_def split: if_splits)
  then show "x \<in> tracker_ops et"
  proof cases
    case 1
    then have "ch \<in> set (et_channels et)"
      by (simp add: set_zip_leftD)
    then show ?thesis
      using 1(2) by (auto simp: channel_preds_def tracker_ops_def split: if_splits)
  qed (auto simp: tracker_ops_def)
qed

definition room_for :: "nat \<Rightarrow> nat \<Rightarrow> nat option list \<Rightarrow> graph_node list \<Rightarrow> bool" where
  "room_for k B srcs ns \<longleftrightarrow> length srcs + k \<le> B \<and> length ns + k \<le> B \<and> arena_size ns + k \<le> B \<and> is_idx B"

lemma ran_results:
  assumes "map val' ls = map Some vs" and "val \<subseteq>\<^sub>m val'" and "dom val' = dom val \<union> set ls"
  shows "ran val' \<subseteq> ran val \<union> set vs"
proof
  fix v
  assume "v \<in> ran val'"
  then obtain l where l: "val' l = Some v"
    by (auto simp: ran_def)
  show "v \<in> ran val \<union> set vs"
  proof (cases "l \<in> set ls")
    case True
    then have "Some v \<in> set (map Some vs)"
      using l assms(1) by (metis image_eqI list.set_map)
    then show ?thesis
      by auto
  next
    case False
    then have "l \<in> dom val"
      using l assms(3) by blast
    then have "val l = Some v"
      using l assms(2) by (metis map_le_def)
    then show ?thesis
      by (auto simp: ran_def)
  qed
qed

lemma op_node_of_parts:
  assumes "takes_values ir lt val ret i vs" and "val \<subseteq>\<^sub>m val'" and "map val' (op_defs ir i) = map Some outs"
  shows "op_node ir lt val' ret i \<lparr>gn_kind = node_kind i (the_op ir i), gn_inputs = vs, gn_outputs = outs, gn_preds = P\<rparr>"
  using assms map_val_mono [OF assms(2)] map_call_mono [OF assms(2)] by (auto simp: op_node_def takes_values_def split: if_splits)

lemma graph_op_run:
  assumes inv: "graph_inv ir lt effects nin (ge_locals env) srcs ids grps hist st"
    and ready: "op_ready ir lt effects (dom (ge_locals env)) i" and room: "room_for (op_room ir lt i) B srcs (concat grps)"
  shows "\<exists>val srcs' grp st'.
    graph_op (effect_order effects) ir lt i (tracker_after hist, env, st)
      = Some (tracker_after (hist @ [(length (concat grps) + length grp - 1, widened (op_effect ir effects i))]), env\<lparr>ge_locals := val\<rparr>, st')
    \<and> graph_inv ir lt effects nin val srcs' (ids @ [i]) (grps @ [grp])
        (hist @ [(length (concat grps) + length grp - 1, widened (op_effect ir effects i))]) st'
    \<and> ge_locals env \<subseteq>\<^sub>m val \<and> dom val = dom (ge_locals env) \<union> set (op_defs ir i) \<and> room_for 0 B srcs' (concat (grps @ [grp]))
    \<and> length srcs' \<le> length srcs + op_room ir lt i \<and> length (concat grps @ grp) \<le> length (concat grps) + op_room ir lt i
    \<and> arena_size (concat grps @ grp) \<le> arena_size (concat grps) + op_room ir lt i"
proof -
  let ?op = "the_op ir i" and ?ns = "concat grps" and ?val = "ge_locals env" and ?e = "widened (op_effect ir effects i)"
  let ?P = "pushes_return ir lt i"
  define pre where "pre = (if ?P then [return_node i (length srcs)] else [])"
  define srcs1 where "srcs1 = srcs @ (if ?P then [Some (length ?ns)] else [])"
  define ret where "ret = (if ?P then Some (length srcs) else None)"
  define ms where "ms = ?ns @ pre"
  note I = inv [unfolded graph_inv_def Let_def]
  have st: "gs_rep st srcs ?ns []"
    using I by blast
  have op: "opview_op ir i = Some ?op"
    using ready by (simp add: op_ready_def opview_op_def iv_index_def the_op_def)
  have outs: "op_outputs ir ?op = Some (op_defs ir i)"
    using ready op by (simp add: op_ready_def opview_outputs_def)
  have sizes: "length srcs1 \<le> length srcs + 1" "length ms \<le> length ?ns + 1" "arena_size ms \<le> arena_size ?ns + 1" "length pre \<le> 1"
    by (auto simp: srcs1_def ms_def pre_def return_node_def)
  obtain st1 where st1: "push_return_dest ir lt i ?op st = Some (ret, st1)" "gs_rep st1 srcs1 ms []"
    using push_return_run [OF st ready] room by (auto simp: room_for_def is_idx_def op_room_def pre_def srcs1_def ret_def ms_def)
  let ?n0 = "\<lparr>gn_kind = node_kind i ?op, gn_inputs = [], gn_outputs = [], gn_preds = {}\<rparr>"
  have "is_idx (arena_size ms)" "is_idx (length ms)"
    using room sizes by (auto simp: room_for_def is_idx_def op_room_def)
  then obtain st2 where st2: "begin_op (node_kind i ?op) st1 = Some (length ms, st2)" "gs_rep st2 srcs1 (ms @ [?n0]) []"
    using begin_op_rep [OF st1(2)] by blast
  have tracked: "tracker_ops (tracker_after hist) \<subseteq> {..<length ?ns}"
    by (rule history_tracked [OF inv])
  then have "tracker_ops (tracker_after hist) \<subseteq> {..length ms}"
    by (auto simp: ms_def)
  then obtain st3 where st3: "add_effect_predecessors (length ms) (op_effect ir effects i) (tracker_after hist) st2
      = Some (tracker_next (length ms) ?e (tracker_after hist), st3)"
      "gs_rep st3 srcs1 (ms @ [?n0\<lparr>gn_preds := tracker_preds ?e (tracker_after hist)\<rparr>]) []"
    using add_effect_predecessors_run [OF st2(2), of "tracker_after hist" "op_effect ir effects i"] by auto
  have order: "effect_order effects ?op (length ms) (tracker_after hist) st2 = Some (tracker_next (length ms) ?e (tracker_after hist), st3)"
    using effect_of_ready [OF ready] st3(1) by (auto simp: effect_order_def)
  have "?P \<Longrightarrow> ret \<noteq> None"
    by (simp add: ret_def)
  from node_arguments_run [OF ready this] obtain vs where vs: "node_arguments ir lt ?val ret ?op = Some (map Some vs)" "takes_values ir lt ?val ret i vs"
      "set vs \<subseteq> ran ?val \<union> set_option ret" "length vs \<le> length (op_reads ir i) + length (call_layout ir lt ?op)"
    by blast
  have known: "v < length srcs1 \<and> (\<forall>p. srcs1 ! v = Some p \<longrightarrow> p < length ms)" if "v \<in> set vs" for v
  proof (cases "v < length srcs")
    case True
    then have "case srcs ! v of None \<Rightarrow> v < nin | Some p \<Rightarrow> p < length ?ns \<and> v \<in> set (gn_outputs (?ns ! p))"
      using I by blast
    then show ?thesis
      using True by (auto simp: srcs1_def nth_append ms_def split: option.splits)
  next
    case False
    then have "v \<in> set_option ret"
      using vs(3) that I by blast
    then show ?thesis
      by (auto simp: srcs1_def ret_def ms_def pre_def split: if_splits)
  qed
  let ?n1 = "?n0\<lparr>gn_preds := tracker_preds ?e (tracker_after hist)\<rparr>"
  have "is_idx (arena_size (ms @ [?n1]) + length vs)"
    using room sizes vs(4) by (simp add: room_for_def is_idx_def op_room_def)
  then obtain st4 where st4: "fold_panics (add_argument (length ms)) (map Some vs) st3 = Some st4"
      "gs_rep st4 srcs1 (ms @ [?n0\<lparr>gn_inputs := vs, gn_preds := tracker_preds ?e (tracker_after hist) \<union> sources srcs1 vs\<rparr>]) []"
    using add_arguments_run [OF st3(2), of vs] known by auto
  let ?n2 = "?n0\<lparr>gn_inputs := vs, gn_preds := tracker_preds ?e (tracker_after hist) \<union> sources srcs1 vs\<rparr>"
  have fresh: "\<forall>l \<in> set (op_defs ir i). ?val l = None"
    using ready by (auto simp: op_ready_def)
  have "is_idx (length srcs1 + length (op_defs ir i))" "is_idx (arena_size (ms @ [?n2]) + length (op_defs ir i))"
    using room sizes vs(4) by (simp_all add: room_for_def is_idx_def op_room_def)
  then obtain st5 val where st5: "fold_panics (add_result (length ms)) (op_defs ir i) (env, st4) = Some (env\<lparr>ge_locals := val\<rparr>, st5)"
      "gs_rep st5 (srcs1 @ replicate (length (op_defs ir i)) (Some (length ms)))
         (ms @ [?n2\<lparr>gn_outputs := [length srcs1..<length srcs1 + length (op_defs ir i)]\<rparr>]) []"
      "map val (op_defs ir i) = map Some [length srcs1..<length srcs1 + length (op_defs ir i)]" "?val \<subseteq>\<^sub>m val" "dom val = dom ?val \<union> set (op_defs ir i)"
    using add_results_run [OF st4(2) _ fresh] ready by (auto simp: op_ready_def)
  let ?n = "?n2\<lparr>gn_outputs := [length srcs1..<length srcs1 + length (op_defs ir i)]\<rparr>"
  define grp where "grp = pre @ [?n]"
  define extra where "extra = (if ?P then [Some (length ?ns)] else []) @ replicate (length (op_defs ir i)) (Some (length ms))"
  have srcs': "srcs1 @ replicate (length (op_defs ir i)) (Some (length ms)) = srcs @ extra"
    by (simp add: srcs1_def extra_def)
  have last: "length ?ns + length grp - 1 = length ms"
    by (simp add: grp_def ms_def)
  have run: "graph_op (effect_order effects) ir lt i (tracker_after hist, env, st)
      = Some (tracker_after (hist @ [(length ms, ?e)]), env\<lparr>ge_locals := val\<rparr>, st5)"
    using op outs st1(1) st2(1) order vs(1) st4(1) st5(1) by (simp add: graph_op_def)
  have "graph_inv ir lt effects nin val (srcs @ extra) (ids @ [i]) (grps @ [grp]) (hist @ [(length ?ns + length grp - 1, ?e)]) st5"
  proof (rule graph_inv_step [OF inv st5(4)])
    have "ran val \<subseteq> ran ?val \<union> set [length srcs1..<length srcs1 + length (op_defs ir i)]"
      using st5(3-5) by (rule ran_results)
    then show "ran val \<subseteq> {..<length (srcs @ extra)}"
      using I by (fastforce simp: srcs1_def extra_def)
    show "gs_rep st5 (srcs @ extra) (concat grps @ grp) []"
      using st5(2) unfolding srcs' by (simp add: ms_def grp_def)
    show "op_group ir lt val i grp"
      using op_node_of_parts [OF vs(2) st5(4,3)] by (cases ?P) (simp_all add: op_group_def grp_def pre_def return_node_def ret_def)
    show "gn_preds (last grp) = sources (srcs @ extra) (gn_inputs (last grp)) \<union> tracker_preds ?e (tracker_after hist)"
      using known sources_append [of vs srcs1] unfolding srcs' [symmetric] by (auto simp: grp_def)
    show "gn_preds (grp ! j) \<subseteq> {..<length ?ns + j} \<and> (\<forall>v \<in> set (gn_inputs (grp ! j)). v < length (srcs @ extra)
        \<and> (\<forall>p. (srcs @ extra) ! v = Some p \<longrightarrow> p < length ?ns + j))" if "j < length grp" for j
    proof (cases "j < length pre")
      case True
      then show ?thesis
        by (auto simp: grp_def pre_def return_node_def nth_append split: if_splits)
    next
      case False
      then have j: "grp ! j = ?n" "length ?ns + j = length ms"
        using that by (auto simp: grp_def nth_append ms_def less_Suc_eq)
      have "tracker_preds ?e (tracker_after hist) \<subseteq> {..<length ms}"
        using tracker_preds_ops [of ?e "tracker_after hist"] tracked by (auto simp: ms_def)
      moreover have "sources srcs1 vs \<subseteq> {..<length ms}"
        using known by (auto simp: sources_def)
      ultimately show ?thesis
        using known unfolding j srcs' [symmetric] by (auto simp: nth_append intro: trans_less_add1)
    qed
    show "\<exists>j < length grp. extra ! k = Some (length ?ns + j) \<and> length srcs + k \<in> set (gn_outputs (grp ! j))" if "k < length extra" for k
      using that by (cases "?P \<and> k = 0")
        (auto simp: extra_def grp_def pre_def ms_def srcs1_def return_node_def nth_append split: if_splits intro: exI [of _ 0] exI [of _ 1])
  qed
  moreover have grown: "length (srcs @ extra) \<le> length srcs + op_room ir lt i" "length (?ns @ grp) \<le> length ?ns + op_room ir lt i"
      "arena_size (?ns @ grp) \<le> arena_size ?ns + op_room ir lt i"
  proof -
    show "length (srcs @ extra) \<le> length srcs + op_room ir lt i" "length (?ns @ grp) \<le> length ?ns + op_room ir lt i"
      using sizes by (auto simp: extra_def op_room_def grp_def)
    have "?ns @ grp = ms @ [?n]"
      by (simp add: ms_def grp_def)
    then show "arena_size (?ns @ grp) \<le> arena_size ?ns + op_room ir lt i"
      using sizes(3) vs(4) by (simp add: op_room_def)
  qed
  moreover have "room_for 0 B (srcs @ extra) (concat (grps @ [grp]))"
    using room grown by (simp add: room_for_def)
  ultimately show ?thesis
    using run st5(4,5) unfolding last [symmetric]
    by (intro exI [of _ val] exI [of _ "srcs @ extra"] exI [of _ grp] exI [of _ st5]) simp
qed

end
