(* ===== verification/Block_Graph_Correct.thy ===== *)
theory Block_Graph_Correct
  imports Block_Graph_Run Unused_Elim_Correct
begin

text \<open>
  The graph of a whole block: its inputs, its operations in order, and the stack at its end.
\<close>

section \<open>Inputs\<close>

text \<open>The local a member of the input layout stands for; the return destination stands for none.\<close>

definition member_local :: "nat list \<Rightarrow> layout_member \<Rightarrow> nat option" where
  "member_local ins m = (case m of ReturnDest \<Rightarrow> None | InputOutput p \<Rightarrow> get_at ins p | LocalMember l \<Rightarrow> Some l)"

definition members_fit :: "nat list \<Rightarrow> layout \<Rightarrow> bool" where
  "members_fit ins L \<longleftrightarrow> distinct (map (member_local ins) L) \<and> (\<forall>p. InputOutput p \<in> set L \<longrightarrow> p < length ins)"

definition input_locals :: "nat list \<Rightarrow> layout \<Rightarrow> nat set" where
  "input_locals ins L = {l. Some l \<in> set (map (member_local ins) L)}"

text \<open>The environment after the members \<open>L\<close>: the value of a member is its position.\<close>

definition inputs_env :: "nat list \<Rightarrow> layout \<Rightarrow> graph_env \<Rightarrow> bool" where
  "inputs_env ins L env \<longleftrightarrow>
     (\<forall>l v. ge_locals env l = Some v \<longleftrightarrow> v < length L \<and> member_local ins (L ! v) = Some l)
     \<and> (\<forall>v. ge_ret_dest env = Some v \<longleftrightarrow> v < length L \<and> L ! v = ReturnDest)"

lemma member_local_None: "members_fit ins L \<Longrightarrow> m \<in> set L \<Longrightarrow> member_local ins m = None \<longleftrightarrow> m = ReturnDest"
  by (auto simp: members_fit_def member_local_def get_at_def split: layout_member.splits if_splits)

lemma push_members_run:
  assumes "members_fit ins L" and "length L < u32_max"
  shows "\<exists>env st. fold_panics (push_member ins) L (\<lparr>ge_locals = Map.empty, ge_ret_dest = None\<rparr>, graph_empty) = Some (env, st)
    \<and> gs_rep st (replicate (length L) None) [] [] \<and> inputs_env ins L env"
  using assms
proof (induction L rule: rev_induct)
  case Nil
  then show ?case
    using graph_empty_rep by (simp add: inputs_env_def)
next
  case (snoc m L)
  have fit: "members_fit ins L" "members_fit ins (L @ [m])"
    using snoc.prems by (auto simp: members_fit_def)
  then obtain env st where run: "fold_panics (push_member ins) L (\<lparr>ge_locals = Map.empty, ge_ret_dest = None\<rparr>, graph_empty) = Some (env, st)"
      "gs_rep st (replicate (length L) None) [] []" "inputs_env ins L env"
    using snoc by auto
  obtain st' where st': "push_input_value st = Some (length L, st')" "gs_rep st' (replicate (length L) None @ [None]) [] []"
    using push_input_rep [OF run(2)] snoc.prems(2) by (auto simp: is_idx_def)
  have rep: "gs_rep st' (replicate (length (L @ [m])) None) [] []"
    using st'(2) by (simp add: replicate_append_same)
  have other: "member_local ins (L ! v) \<noteq> member_local ins m" if "v < length L" for v
  proof -
    have "member_local ins m \<notin> member_local ins ` set L"
      using fit(2) by (simp add: members_fit_def)
    then show ?thesis
      using imageI [OF nth_mem [OF that], of "member_local ins"] by metis
  qed
  show ?case
  proof (cases "member_local ins m")
    case None
    then have m: "m = ReturnDest"
      using member_local_None [OF fit(2), of m] by simp
    have "L ! v \<noteq> ReturnDest" if "v < length L" for v
      using other [OF that] m by auto
    then have "inputs_env ins (L @ [m]) (env\<lparr>ge_ret_dest := Some (length L)\<rparr>)"
      using run(3) None m by (auto simp: inputs_env_def nth_append less_Suc_eq)
    moreover have "push_member ins m (env, st) = Some (env\<lparr>ge_ret_dest := Some (length L)\<rparr>, st')"
      using st'(1) m by (simp add: push_member_def)
    ultimately show ?thesis
      using run(1) rep by auto
  next
    case (Some l)
    have "ge_locals env l = None"
    proof (rule ccontr)
      assume "ge_locals env l \<noteq> None"
      then obtain v where "ge_locals env l = Some v"
        by blast
      then show False
        using run(3) other [of v] Some unfolding inputs_env_def by metis
    qed
    then have "inputs_env ins (L @ [m]) (env\<lparr>ge_locals := (ge_locals env)(l \<mapsto> length L)\<rparr>)"
      using run(3) Some other by (auto simp: inputs_env_def nth_append less_Suc_eq member_local_def split: if_splits)
    moreover have "push_member ins m (env, st) = Some (env\<lparr>ge_locals := (ge_locals env)(l \<mapsto> length L)\<rparr>, st')"
      using st'(1) Some by (cases m) (auto simp: push_member_def member_local_def)
    ultimately show ?thesis
      using run(1) rep by auto
  qed
qed

section \<open>Operations\<close>

definition defined_upto :: "eth_ir_program \<Rightarrow> nat list \<Rightarrow> nat \<Rightarrow> nat set" where
  "defined_upto ir ids k = set (concat (map (op_defs ir) (take k ids)))"

definition block_ready :: "eth_ir_program \<Rightarrow> layouts_tracker \<Rightarrow> effect list \<Rightarrow> nat set \<Rightarrow> nat list \<Rightarrow> bool" where
  "block_ready ir lt effects D ids \<longleftrightarrow> (\<forall>k < length ids. op_ready ir lt effects (D \<union> defined_upto ir ids k) (ids ! k))"

definition ops_room :: "eth_ir_program \<Rightarrow> layouts_tracker \<Rightarrow> nat list \<Rightarrow> nat" where
  "ops_room ir lt ids = sum_list (map (op_room ir lt) ids)"

lemma graph_ops_run:
  assumes start: "gs_rep st0 srcs0 [] []" "ge_locals env0 = val0" "ran val0 \<subseteq> {..<length srcs0}" "\<forall>v < length srcs0. srcs0 ! v = None"
    and ready: "block_ready ir lt effects (dom val0) ids" and room: "length srcs0 + ops_room ir lt ids < u32_max"
  shows "m \<le> length ids \<Longrightarrow> \<exists>val srcs grps hist st.
    fold_panics (graph_op (effect_order effects) ir lt) (take m ids) (tracker_default, env0, st0) = Some (tracker_after hist, env0\<lparr>ge_locals := val\<rparr>, st)
    \<and> graph_inv ir lt effects (length srcs0) val srcs (take m ids) grps hist st
    \<and> val0 \<subseteq>\<^sub>m val \<and> dom val = dom val0 \<union> defined_upto ir ids m
    \<and> length srcs \<le> length srcs0 + ops_room ir lt (take m ids) \<and> length (concat grps) \<le> ops_room ir lt (take m ids)
    \<and> arena_size (concat grps) \<le> ops_room ir lt (take m ids)"
proof (induction m)
  case 0
  have "graph_inv ir lt effects (length srcs0) val0 srcs0 [] [] [] st0"
    using start by (auto simp: graph_inv_def)
  then show ?case
    using start(2) by (intro exI [of _ val0] exI [of _ srcs0] exI [of _ "[]"] exI [of _ "[]"] exI [of _ st0])
      (auto simp: defined_upto_def ops_room_def map_le_def)
next
  case (Suc m)
  then obtain val srcs grps hist st where I:
      "fold_panics (graph_op (effect_order effects) ir lt) (take m ids) (tracker_default, env0, st0) = Some (tracker_after hist, env0\<lparr>ge_locals := val\<rparr>, st)"
      "graph_inv ir lt effects (length srcs0) val srcs (take m ids) grps hist st"
      "val0 \<subseteq>\<^sub>m val" "dom val = dom val0 \<union> defined_upto ir ids m"
      "length srcs \<le> length srcs0 + ops_room ir lt (take m ids)" "length (concat grps) \<le> ops_room ir lt (take m ids)"
      "arena_size (concat grps) \<le> ops_room ir lt (take m ids)"
    by auto
  let ?i = "ids ! m" and ?B = "length srcs0 + ops_room ir lt ids"
  have tk: "take (Suc m) ids = take m ids @ [?i]"
    using Suc.prems by (simp add: take_Suc_conv_app_nth)
  have sum: "ops_room ir lt (take (Suc m) ids) = ops_room ir lt (take m ids) + op_room ir lt ?i"
    by (simp add: tk ops_room_def)
  have le: "ops_room ir lt (take (Suc m) ids) \<le> ops_room ir lt ids"
    using sum_list_take_mono [of "Suc m" "length ids" "map (op_room ir lt) ids"] Suc.prems by (simp add: ops_room_def take_map)
  have "op_ready ir lt effects (dom val) ?i"
    using ready Suc.prems I(4) by (simp add: block_ready_def)
  moreover have "room_for (op_room ir lt ?i) ?B srcs (concat grps)"
    using I(5-7) sum le room by (simp add: room_for_def is_idx_def)
  ultimately obtain val' srcs' grp st' where S:
      "graph_op (effect_order effects) ir lt ?i (tracker_after hist, env0\<lparr>ge_locals := val\<rparr>, st)
        = Some (tracker_after (hist @ [(length (concat grps) + length grp - 1, widened (op_effect ir effects ?i))]), env0\<lparr>ge_locals := val'\<rparr>, st')"
      "graph_inv ir lt effects (length srcs0) val' srcs' (take m ids @ [?i]) (grps @ [grp])
        (hist @ [(length (concat grps) + length grp - 1, widened (op_effect ir effects ?i))]) st'"
      "val \<subseteq>\<^sub>m val'" "dom val' = dom val \<union> set (op_defs ir ?i)"
      "length srcs' \<le> length srcs + op_room ir lt ?i" "length (concat grps @ grp) \<le> length (concat grps) + op_room ir lt ?i"
      "arena_size (concat grps @ grp) \<le> arena_size (concat grps) + op_room ir lt ?i"
    using graph_op_run [of ir lt effects "length srcs0" "env0\<lparr>ge_locals := val\<rparr>" srcs "take m ids" grps hist st ?i ?B] I(2) by auto
  have "val0 \<subseteq>\<^sub>m val'"
    using I(3) S(3) map_le_trans by blast
  moreover have "dom val' = dom val0 \<union> defined_upto ir ids (Suc m)"
    using I(4) S(4) by (auto simp: defined_upto_def tk)
  moreover have "length srcs' \<le> length srcs0 + ops_room ir lt (take (Suc m) ids)" "length (concat (grps @ [grp])) \<le> ops_room ir lt (take (Suc m) ids)"
      "arena_size (concat (grps @ [grp])) \<le> ops_room ir lt (take (Suc m) ids)"
    using I(5-7) S(5-7) sum by simp_all
  ultimately show ?case
    using I(1) S(1,2) unfolding tk
    by (intro exI [of _ val'] exI [of _ srcs'] exI [of _ "grps @ [grp]"]
        exI [of _ "hist @ [(length (concat grps) + length grp - 1, widened (op_effect ir effects ?i))]"] exI [of _ st']) simp
qed

section \<open>The end of the block\<close>

lemma push_end_members_run:
  "gs_rep st srcs ns ends \<Longrightarrow> map (end_value env outs) L = map Some vs \<Longrightarrow> is_idx (arena_size ns + length ends + length L) \<Longrightarrow>
   \<exists>st'. fold_panics (push_end_member env outs) L st = Some st' \<and> gs_rep st' srcs ns (ends @ vs)"
proof (induction L arbitrary: st ends vs)
  case (Cons m L)
  then obtain v ws where vs: "vs = v # ws" "end_value env outs m = Some v" "map (end_value env outs) L = map Some ws"
    by (cases vs) auto
  have "is_idx (arena_size ns + length ends)"
    using Cons.prems(3) by (simp add: is_idx_def)
  then obtain st1 where st1: "push_end_stack_value v st = Some st1" "gs_rep st1 srcs ns (ends @ [v])"
    using push_end_rep [OF Cons.prems(1)] by blast
  obtain st2 where "fold_panics (push_end_member env outs) L st1 = Some st2" "gs_rep st2 srcs ns ((ends @ [v]) @ ws)"
    using Cons.IH [OF st1(2) vs(3)] Cons.prems(3) by (auto simp: is_idx_def)
  moreover have "push_end_member env outs m st = Some st1"
    using st1(1) vs(2) by (simp add: push_end_member_def)
  ultimately show ?case
    using vs(1) by simp
qed auto

text \<open>What the graph of a block is: its nodes, and the values of the locals and of the return destination.\<close>

definition pred_rel :: "graph_node list \<Rightarrow> (nat \<times> nat) set" where
  "pred_rel ns = {(p, k). k < length ns \<and> p \<in> gn_preds (ns ! k)}"

text \<open>An operation comes after every earlier one whose effect conflicts with its own, and its predecessors are such
  operations and the ones whose values it takes.\<close>

definition effects_ordered :: "eth_ir_program \<Rightarrow> effect list \<Rightarrow> nat list \<Rightarrow> graph_node list list \<Rightarrow> bool" where
  "effects_ordered ir effects ids grps \<longleftrightarrow>
     (\<forall>j < length ids. \<forall>i < j. effects_conflict (widened (op_effect ir effects (ids ! i))) (widened (op_effect ir effects (ids ! j))) \<longrightarrow>
        (ends_at grps i, ends_at grps j) \<in> (pred_rel (concat grps))\<^sup>+)
     \<and> (\<forall>j < length ids. \<forall>p \<in> gn_preds (concat grps ! ends_at grps j).
        (\<exists>v \<in> set (gn_inputs (concat grps ! ends_at grps j)). v \<in> set (gn_outputs (concat grps ! p)))
        \<or> (\<exists>i < j. p = ends_at grps i \<and> effects_conflict (widened (op_effect ir effects (ids ! i))) (widened (op_effect ir effects (ids ! j)))))"

definition nodes_sound :: "nat \<Rightarrow> graph_node list \<Rightarrow> bool" where
  "nodes_sound nin ns \<longleftrightarrow> (\<forall>k < length ns. gn_preds (ns ! k) \<subseteq> {..<k}
     \<and> (\<forall>v \<in> set (gn_inputs (ns ! k)). v < nin \<or> (\<exists>p < k. v \<in> set (gn_outputs (ns ! p)))))"

lemma graph_inv_sound:
  assumes "graph_inv ir lt effects nin val srcs ids grps hist st"
  shows "nodes_sound nin (concat grps)" and "effects_ordered ir effects ids grps"
proof -
  let ?ns = "concat grps"
  note I = assms [unfolded graph_inv_def Let_def]
  have src: "v < nin \<or> (\<exists>p < k. v \<in> set (gn_outputs (?ns ! p)))" if "k < length ?ns" "v \<in> set (gn_inputs (?ns ! k))" for k v
  proof -
    have "v < length srcs" "\<forall>p. srcs ! v = Some p \<longrightarrow> p < k"
      using I that by blast+
    moreover from this have "case srcs ! v of None \<Rightarrow> v < nin | Some p \<Rightarrow> p < length ?ns \<and> v \<in> set (gn_outputs (?ns ! p))"
      using I by blast
    ultimately show ?thesis
      by (auto split: option.splits)
  qed
  then show "nodes_sound nin ?ns"
    using I unfolding nodes_sound_def by blast
  have lens: "length hist = length grps" "length ids = length grps"
    using I by (auto dest: arg_cong [of "map fst hist" _ length] list_all2_lengthD)
  have h: "fst (hist ! k) = ends_at grps k" "snd (hist ! k) = widened (op_effect ir effects (ids ! k))" if "k < length ids" for k
    using I that lens by (metis (no_types, lifting) add.left_neutral length_upt nth_map nth_map_upt minus_nat.diff_0)+
  have less: "ends_at grps k < length ?ns" if "k < length ids" for k
    using ends_at_less(1) [of ir lt val ids grps k] I that unfolding lens(2) by blast
  have preds: "gn_preds (?ns ! ends_at grps k) = sources srcs (gn_inputs (?ns ! ends_at grps k)) \<union> order_preds hist k" if "k < length ids" for k
    using I h(1) [OF that] that lens by metis
  note T = tracker_orders [of hist]
  have "order_rel hist \<subseteq> pred_rel ?ns"
    using preds less h lens by (auto simp: order_rel_def pred_rel_def)
  then have "(ends_at grps i, ends_at grps j) \<in> (pred_rel ?ns)\<^sup>+"
    if "j < length ids" "i < j" "effects_conflict (widened (op_effect ir effects (ids ! i))) (widened (op_effect ir effects (ids ! j)))" for i j
    using T that h lens trancl_mono [of "(ends_at grps i, ends_at grps j)" "order_rel hist"] unfolding history_ordered_def by simp
  moreover have "(\<exists>v \<in> set (gn_inputs (?ns ! ends_at grps j)). v \<in> set (gn_outputs (?ns ! p)))
        \<or> (\<exists>i < j. p = ends_at grps i \<and> effects_conflict (widened (op_effect ir effects (ids ! i))) (widened (op_effect ir effects (ids ! j))))"
    if j: "j < length ids" "p \<in> gn_preds (?ns ! ends_at grps j)" for j p
  proof (cases "p \<in> order_preds hist j")
    case True
    have "j < length hist"
      using j(1) lens by simp
    then obtain i where "i < j" "fst (hist ! i) = p" "effects_conflict (snd (hist ! i)) (snd (hist ! j))"
      using T True by blast
    then show ?thesis
      using h j(1) by auto
  next
    case False
    then obtain v where v: "v \<in> set (gn_inputs (?ns ! ends_at grps j))" "srcs ! v = Some p"
      using preds j by (auto simp: sources_def)
    moreover from this have "v < length srcs"
      using I less [OF j(1)] by blast
    then have "case srcs ! v of None \<Rightarrow> v < nin | Some p \<Rightarrow> p < length ?ns \<and> v \<in> set (gn_outputs (?ns ! p))"
      using I by blast
    ultimately have "v \<in> set (gn_outputs (?ns ! p))"
      by simp
    then show ?thesis
      using v(1) by blast
  qed
  ultimately show "effects_ordered ir effects ids grps"
    unfolding effects_ordered_def by blast
qed

section \<open>The whole graph\<close>

text \<open>What the end of the block takes is there.\<close>

definition end_ready :: "nat list \<Rightarrow> layout \<Rightarrow> nat set \<Rightarrow> control \<Rightarrow> nat list \<Rightarrow> layout \<Rightarrow> bool" where
  "end_ready ins input_layout D c outs output_layout \<longleftrightarrow>
     control_condition c \<subseteq> D \<and> (c = InternalReturn \<longrightarrow> ReturnDest \<in> set input_layout)
     \<and> (\<forall>m \<in> set output_layout. case m of
          ReturnDest \<Rightarrow> ReturnDest \<in> set input_layout
        | InputOutput p \<Rightarrow> p < length outs \<and> outs ! p \<in> D
        | LocalMember l \<Rightarrow> l \<in> D)"

text \<open>The values of the inputs of the block, in the final environment.\<close>

definition inputs_named :: "nat list \<Rightarrow> layout \<Rightarrow> graph_env \<Rightarrow> bool" where
  "inputs_named ins L env \<longleftrightarrow>
     (\<forall>v < length L. case member_local ins (L ! v) of None \<Rightarrow> ge_ret_dest env = Some v | Some l \<Rightarrow> ge_locals env l = Some v)"

text \<open>The stack at the end: what the control takes, above the members of the output layout.\<close>

definition ends_named :: "graph_env \<Rightarrow> control \<Rightarrow> nat list \<Rightarrow> layout \<Rightarrow> nat list \<Rightarrow> bool" where
  "ends_named env c outs L ends \<longleftrightarrow>
     (\<exists>cv vs. control_value env c = Some cv \<and> map (end_value env outs) L = map Some vs
        \<and> ends = (case cv of None \<Rightarrow> [] | Some v \<Rightarrow> [v]) @ vs)"

lemma control_value_ready:
  assumes "control_condition c \<subseteq> dom (ge_locals env)" and "c = InternalReturn \<Longrightarrow> ge_ret_dest env \<noteq> None"
  shows "\<exists>cv. control_value env c = Some cv"
  using assms by (cases c) (auto simp: control_value_def control_condition_def)

lemma build_graph_effectful_run:
  assumes views: "block_operations ir b = Some ids" "block_inputs ir b = Some ins" "block_outputs ir b = Some outs" "block_control ir b = Some c"
    and fit: "members_fit ins input_layout" and ready: "block_ready ir lt effects (input_locals ins input_layout) ids"
    and ends: "end_ready ins input_layout (input_locals ins input_layout \<union> defined_upto ir ids (length ids)) c outs output_layout"
    and room: "length input_layout + ops_room ir lt ids + length output_layout + 1 < u32_max"
  shows "\<exists>g env grps es. build_graph_effectful effects ir lt b input_layout output_layout = Some g
    \<and> graph_rep g \<lparr>bg_inputs = length input_layout, bg_nodes = concat grps, bg_end = es\<rparr>
    \<and> list_all2 (op_group ir lt (ge_locals env)) ids grps \<and> inputs_named ins input_layout env \<and> ends_named env c outs output_layout es
    \<and> nodes_sound (length input_layout) (concat grps) \<and> effects_ordered ir effects ids grps"
proof -
  let ?n = "length input_layout"
  obtain env0 st0 where s0: "fold_panics (push_member ins) input_layout (\<lparr>ge_locals = Map.empty, ge_ret_dest = None\<rparr>, graph_empty) = Some (env0, st0)"
      "gs_rep st0 (replicate ?n None) [] []" "inputs_env ins input_layout env0"
    using push_members_run [OF fit] room by auto
  have E: "\<And>l v. ge_locals env0 l = Some v \<longleftrightarrow> v < ?n \<and> member_local ins (input_layout ! v) = Some l"
      "\<And>v. ge_ret_dest env0 = Some v \<longleftrightarrow> v < ?n \<and> input_layout ! v = ReturnDest"
    using s0(3) by (auto simp: inputs_env_def)
  have dom0: "dom (ge_locals env0) = input_locals ins input_layout"
    using E(1) unfolding input_locals_def dom_def in_set_conv_nth by auto
  have ran0: "ran (ge_locals env0) \<subseteq> {..<length (replicate ?n (None :: nat option))}"
    using E(1) by (auto simp: ran_def)
  have "gs_values st0 \<noteq> [] \<or> True" "length (gs_values st0) = ?n"
    using s0(2) by (auto simp: gs_rep_def dest: arg_cong [of "map fst (gs_values st0)" _ length])
  then have inputs_end: "end_inputs_begin_ops st0 = Some ?n"
    using room by (simp add: end_inputs_begin_ops_def iv_next_idx_Some is_idx_def)
  have "\<exists>val srcs grps hist st.
    fold_panics (graph_op (effect_order effects) ir lt) (take (length ids) ids) (tracker_default, env0, st0) = Some (tracker_after hist, env0\<lparr>ge_locals := val\<rparr>, st)
    \<and> graph_inv ir lt effects (length (replicate ?n (None :: nat option))) val srcs (take (length ids) ids) grps hist st
    \<and> ge_locals env0 \<subseteq>\<^sub>m val \<and> dom val = dom (ge_locals env0) \<union> defined_upto ir ids (length ids)
    \<and> length srcs \<le> length (replicate ?n (None :: nat option)) + ops_room ir lt (take (length ids) ids) \<and> length (concat grps) \<le> ops_room ir lt (take (length ids) ids)
    \<and> arena_size (concat grps) \<le> ops_room ir lt (take (length ids) ids)"
    by (rule graph_ops_run [OF s0(2) refl ran0]) (use ready dom0 room in \<open>auto simp del: dom_eq_empty_conv\<close>)
  then obtain val srcs grps hist st where G:
      "fold_panics (graph_op (effect_order effects) ir lt) ids (tracker_default, env0, st0) = Some (tracker_after hist, env0\<lparr>ge_locals := val\<rparr>, st)"
      "graph_inv ir lt effects ?n val srcs ids grps hist st" "ge_locals env0 \<subseteq>\<^sub>m val"
      "dom val = input_locals ins input_layout \<union> defined_upto ir ids (length ids)"
      "length srcs \<le> ?n + ops_room ir lt ids" "length (concat grps) \<le> ops_room ir lt ids" "arena_size (concat grps) \<le> ops_room ir lt ids"
    using dom0 by auto
  let ?env = "env0\<lparr>ge_locals := val\<rparr>" and ?ns = "concat grps"
  note I = G(2) [unfolded graph_inv_def Let_def]
  have rep: "gs_rep st srcs ?ns []"
    using I by blast
  have end_start: "end_ops_begin_end_stack st = Some (arena_size ?ns)"
    using rep G(7) room by (simp add: gs_rep_def end_ops_begin_end_stack_def iv_next_idx_Some is_idx_def arena_size_def)
  have ret: "ge_ret_dest env0 \<noteq> None" if "ReturnDest \<in> set input_layout"
    using that E(2) by (metis in_set_conv_nth option.distinct(1))
  obtain cv where cv: "control_value ?env c = Some cv"
    using control_value_ready [of c ?env] ends G(4) ret by (auto simp: end_ready_def)
  let ?cs = "case cv of None \<Rightarrow> [] | Some v \<Rightarrow> [v]"
  have cs: "length ?cs \<le> 1"
    by (cases cv) auto
  have small: "is_idx (arena_size ?ns + length ([] :: nat list))"
    using G(7) room by (simp add: is_idx_def)
  obtain st1 where st1: "(case cv of None \<Rightarrow> Some st | Some v \<Rightarrow> push_end_stack_value v st) = Some st1" "gs_rep st1 srcs ?ns ?cs"
    using push_end_rep [OF rep small] rep by (cases cv) auto
  have "\<forall>m \<in> set output_layout. end_value ?env outs m \<noteq> None"
  proof
    fix m
    assume "m \<in> set output_layout"
    then have "case m of ReturnDest \<Rightarrow> ReturnDest \<in> set input_layout
        | InputOutput p \<Rightarrow> p < length outs \<and> outs ! p \<in> dom val | LocalMember l \<Rightarrow> l \<in> dom val"
      using ends unfolding end_ready_def G(4) by blast
    then show "end_value ?env outs m \<noteq> None"
      using ret by (cases m) (auto simp: end_value_def)
  qed
  from all_SomeD [OF this] obtain vs where vs: "map (end_value ?env outs) output_layout = map Some vs"
    by blast
  have "length vs = length output_layout"
    using arg_cong [OF vs, of length] by simp
  then have "is_idx (arena_size ?ns + length ?cs + length output_layout)"
    using G(7) cs room by (simp add: is_idx_def)
  then obtain st2 where st2: "fold_panics (push_end_member ?env outs) output_layout st1 = Some st2" "gs_rep st2 srcs ?ns (?cs @ vs)"
    using push_end_members_run [OF st1(2) vs] by blast
  have "is_idx (length ?ns)" "is_idx (length srcs)" "is_idx ?n"
    using G(5,6) room by (simp_all add: is_idx_def)
  then obtain g where g: "finish_graph st2 ?n (arena_size ?ns) = Some g" "graph_rep g \<lparr>bg_inputs = ?n, bg_nodes = ?ns, bg_end = ?cs @ vs\<rparr>"
    using finish_graph_rep [OF st2(2)] by blast
  have "build_graph_effectful effects ir lt b input_layout output_layout = Some g"
    using views s0(1) inputs_end G(1) end_start cv st1(1) st2(1) g(1) by (simp add: build_graph_effectful_def build_graph_def)
  moreover have "inputs_named ins input_layout ?env"
    unfolding inputs_named_def
  proof (intro allI impI)
    fix v
    assume v: "v < ?n"
    show "case member_local ins (input_layout ! v) of None \<Rightarrow> ge_ret_dest ?env = Some v | Some l \<Rightarrow> ge_locals ?env l = Some v"
    proof (cases "member_local ins (input_layout ! v)")
      case None
      then have "input_layout ! v = ReturnDest"
        using member_local_None [OF fit nth_mem [OF v]] by simp
      then show ?thesis
        using None E(2) [of v] v by simp
    next
      case (Some l)
      then have "ge_locals env0 l = Some v"
        using E(1) v by simp
      then show ?thesis
        using Some G(3) by (force simp: map_le_def)
    qed
  qed
  moreover have "ends_named ?env c outs output_layout (?cs @ vs)"
    using cv vs unfolding ends_named_def by blast
  ultimately show ?thesis
    using g(2) I graph_inv_sound [OF G(2)] by (intro exI [of _ g] exI [of _ ?env] exI [of _ grps] exI [of _ "?cs @ vs"]) simp
qed

section \<open>The property\<close>


text \<open>The first block of \<open>straight\<close>: a constant, a copy of it, and the copy on the stack at the end.\<close>

lemma straight_block:
  "block_operations straight 0 = Some [0, Suc 0]" "block_inputs straight 0 = Some []" "block_outputs straight 0 = Some [2]"
  "block_control straight 0 = Some (ContinuesTo 1)"
  by (simp_all add: block_operations_def block_inputs_def block_outputs_def block_control_def straight_eval iv_index_span_def slice_of_def)

definition no_layouts :: layouts_tracker where
  "no_layouts = \<lparr>lt_cfg_layouts = Map.empty, lt_function_dest = Map.empty, lt_bundling = \<lparr>bd_out = Map.empty, bd_in = Map.empty, bd_next = 0\<rparr>\<rparr>"


end
