(* ===== verification/Lexer.thy ===== *)
theory Lexer
  imports Index_Vec
begin

text \<open>
  The lexer of the source language (\<open>frontend/parser/src/lexer.rs\<close>).  The choice of the rule is made by code that the
  \<open>logos\<close> crate generates from the attributes of \<open>Token\<close>; it is a parameter, and so is the number of characters that an
  error token takes.  The callbacks of the rules, the position of the tokens and \<open>Lexed\<close> are modelled.  The source is the
  list of its characters, as code points; offsets count the bytes of their encoding.
\<close>

type_synonym source = "nat list"

definition codes :: "string \<Rightarrow> source" where
  "codes s = map of_char s"

definition utf8_len :: "nat \<Rightarrow> nat" where
  "utf8_len c = (if c < 0x80 then 1 else if c < 0x800 then 2 else if c < 0x10000 then 3 else 4)"

definition byte_len :: "source \<Rightarrow> nat" where
  "byte_len s = sum_list (map utf8_len s)"

section \<open>Tokens and rules\<close>

datatype token =
    TSemicolon | TComma | TColon | TDot | TDollar | TLeftCurly | TRightCurly | TLeftRound
  | TRightRound | TLeftSquare | TRightSquare | TDoubleColon | TEquals | TPlus | TPlusPercent
  | TMinus | TMinusPercent | TStar | TStarPercent | TSlash | TPlusSlash | TMinusSlash | TLessSlash
  | TGreaterSlash | TPercent | TDoubleEquals | TBangEquals | TLessThan | TGreaterThan | TLessEquals
  | TGreaterEquals | TBang | TAmperAmper | TPipePipe | TAmpersand | TPipe | TCaret | TTilde
  | TShiftLeft | TShiftRight | TIf | TElse | TFn | TLet | TMut | TConst | TInit | TRun | TStruct
  | TTuple | TReturn | TComptime | TInline | TWhile | TTrue | TFalse | TAnd | TOr | TImport | TAs
  | TIdentifier | TBuiltinName | TDecimalLiteral | THexLiteral | TBinLiteral | TLooseStringLiteral
  | TLooseHexStringLiteral | TWhitespace | TLineComment | TBlockComment | TAtWithoutIdentError
  | TInvalidCharError | TMalformedIdentError | TMultilineStringError | TUnclosedBlockCommentError
  | TUnclosedStringError | TEof

text \<open>\<open>Token::text\<close>, which is also the rule of the token.\<close>

definition fixed_texts :: "(token \<times> string) list" where
  "fixed_texts =
    [(TSemicolon, '';''), (TComma, '',''), (TColon, '':''), (TDot, ''.''), (TDollar, ''$''), (TLeftCurly, ''{''),
     (TRightCurly, ''}''), (TLeftRound, ''(''), (TRightRound, '')''), (TLeftSquare, ''[''), (TRightSquare, '']''),
     (TDoubleColon, ''::''), (TEquals, ''=''), (TPlus, ''+''), (TPlusPercent, ''+%''), (TMinus, ''-''),
     (TMinusPercent, ''-%''), (TStar, ''*''), (TStarPercent, ''*%''), (TSlash, ''/''), (TPlusSlash, ''+/''),
     (TMinusSlash, ''-/''), (TLessSlash, ''</''), (TGreaterSlash, ''>/''), (TPercent, ''%''),
     (TDoubleEquals, ''==''), (TBangEquals, ''!=''), (TLessThan, ''<''), (TGreaterThan, ''>''),
     (TLessEquals, ''<=''), (TGreaterEquals, ''>=''), (TBang, ''!''), (TAmperAmper, ''&&''), (TPipePipe, ''||''),
     (TAmpersand, ''&''), (TPipe, ''|''), (TCaret, ''^''), (TTilde, ''~''), (TShiftLeft, ''<<''),
     (TShiftRight, ''>>''), (TIf, ''if''), (TElse, ''else''), (TFn, ''fn''), (TLet, ''let''), (TMut, ''mut''),
     (TConst, ''const''), (TInit, ''init''), (TRun, ''run''), (TStruct, ''struct''), (TTuple, ''tuple''),
     (TReturn, ''return''), (TComptime, ''comptime''), (TInline, ''inline''), (TWhile, ''while''),
     (TTrue, ''true''), (TFalse, ''false''), (TAnd, ''and''), (TOr, ''or''), (TImport, ''import''), (TAs, ''as'')]"

definition token_text :: "token \<Rightarrow> source option" where
  "token_text t = map_option codes (map_of fixed_texts t)"

text \<open>A class is a list of ranges; a regular expression a sequence of classes, and a class repeated after them.\<close>

type_synonym char_class = "(nat \<times> nat) list"

datatype pattern =
    Literal source
  | Regex "char_class list" char_class

datatype action =
    NoAction
  | LineCommentAction
  | BlockCommentAction
  | NumberAction nat
  | StringAction
  | HexStringAction

record lex_rule =
  ru_pattern :: pattern
  ru_token :: token
  ru_action :: action

definition in_class :: "char_class \<Rightarrow> nat \<Rightarrow> bool" where
  "in_class cls c \<longleftrightarrow> (\<exists>(a, b) \<in> set cls. a \<le> c \<and> c \<le> b)"

definition digit_class :: char_class where "digit_class = [(0x30, 0x39)]"
definition bin_class :: char_class where "bin_class = [(0x30, 0x31)]"
definition hex_class :: char_class where "hex_class = [(0x30, 0x39), (0x41, 0x46), (0x61, 0x66)]"
definition ident_start :: char_class where "ident_start = [(0x61, 0x7A), (0x41, 0x5A), (0x5F, 0x5F)]"
definition ident_class :: char_class where "ident_class = [(0x61, 0x7A), (0x41, 0x5A), (0x30, 0x39), (0x5F, 0x5F)]"
definition space_class :: char_class where "space_class = [(0x20, 0x20), (0x09, 0x0A), (0x0D, 0x0D)]"

definition one :: "nat \<Rightarrow> char_class" where "one c = [(c, c)]"

definition fixed_rule :: "token \<times> string \<Rightarrow> lex_rule" where
  "fixed_rule = (\<lambda>(t, s). \<lparr>ru_pattern = Literal (codes s), ru_token = t, ru_action = NoAction\<rparr>)"

definition special_rules :: "lex_rule list" where
  "special_rules =
    [\<lparr>ru_pattern = Regex [ident_start] ident_class, ru_token = TIdentifier, ru_action = NoAction\<rparr>,
     \<lparr>ru_pattern = Regex [one 0x40, ident_start] ident_class, ru_token = TBuiltinName, ru_action = NoAction\<rparr>,
     \<lparr>ru_pattern = Regex [digit_class] [], ru_token = TDecimalLiteral, ru_action = NumberAction 10\<rparr>,
     \<lparr>ru_pattern = Regex [one 0x30, one 0x78, hex_class] [], ru_token = THexLiteral, ru_action = NumberAction 16\<rparr>,
     \<lparr>ru_pattern = Regex [one 0x30, one 0x62, bin_class] [], ru_token = TBinLiteral, ru_action = NumberAction 2\<rparr>,
     \<lparr>ru_pattern = Literal [0x22], ru_token = TLooseStringLiteral, ru_action = StringAction\<rparr>,
     \<lparr>ru_pattern = Literal [0x68, 0x65, 0x78, 0x22], ru_token = TLooseHexStringLiteral, ru_action = HexStringAction\<rparr>,
     \<lparr>ru_pattern = Regex [space_class] space_class, ru_token = TWhitespace, ru_action = NoAction\<rparr>,
     \<lparr>ru_pattern = Literal [0x2F, 0x2F], ru_token = TLineComment, ru_action = LineCommentAction\<rparr>,
     \<lparr>ru_pattern = Literal [0x2F, 0x2A], ru_token = TBlockComment, ru_action = BlockCommentAction\<rparr>,
     \<lparr>ru_pattern = Literal [0x40], ru_token = TAtWithoutIdentError, ru_action = NoAction\<rparr>]"

definition lex_rules :: "lex_rule list" where
  "lex_rules = map fixed_rule fixed_texts @ special_rules"

section \<open>Callbacks\<close>

text \<open>What is left of the characters after a callback, and what it returns.\<close>

fun lex_line_comment :: "source \<Rightarrow> source" where
  "lex_line_comment [] = []"
| "lex_line_comment (c # s) = (if c \<noteq> 0x0A then lex_line_comment s else s)"

text \<open>The loop goes on while the depth is positive.\<close>

fun block_comment_from :: "nat \<Rightarrow> source \<Rightarrow> ((token + unit) \<times> source) panics" where
  "block_comment_from 0 s = Some (Inr (), s)"
| "block_comment_from (Suc d) [] = Some (Inl TUnclosedBlockCommentError, [])"
| "block_comment_from (Suc d) [c] = Some (Inl TUnclosedBlockCommentError, [])"
| "block_comment_from (Suc d) (c # n # s) =
     (if c = 0x2A \<and> n = 0x2F then block_comment_from d s
      else if c = 0x2F \<and> n = 0x2A then do { e \<leftarrow> add_u32 (Suc d) 1; block_comment_from e s }
      else block_comment_from (Suc d) (n # s))"

definition lex_block_comment :: "source \<Rightarrow> ((token + unit) \<times> source) panics" where
  "lex_block_comment = block_comment_from 1"

definition char_digit :: "nat \<Rightarrow> nat option" where
  "char_digit c =
     (if 0x30 \<le> c \<and> c \<le> 0x39 then Some (c - 0x30)
      else if 0x61 \<le> c \<and> c \<le> 0x7A then Some (c - 0x61 + 10)
      else if 0x41 \<le> c \<and> c \<le> 0x5A then Some (c - 0x41 + 10)
      else None)"

definition is_digit :: "nat \<Rightarrow> nat \<Rightarrow> bool" where
  "is_digit radix c = (case char_digit c of Some d \<Rightarrow> d < radix | None \<Rightarrow> False)"

fun number_chars :: "nat \<Rightarrow> bool \<Rightarrow> source \<Rightarrow> bool \<times> source" where
  "number_chars radix malformed [] = (malformed, [])"
| "number_chars radix malformed (c # s) =
     (if in_class ident_class c then number_chars radix (malformed \<or> c \<noteq> 0x5F \<and> \<not> is_digit radix c) s else (malformed, c # s))"

definition lex_number_literal :: "nat \<Rightarrow> source \<Rightarrow> (token + unit) \<times> source" where
  "lex_number_literal radix s =
     (let (malformed, s) = number_chars radix False s in (if malformed then Inl TMalformedIdentError else Inr (), s))"

fun loose_string_from :: "bool \<Rightarrow> source \<Rightarrow> (token + unit) \<times> source" where
  "loose_string_from malformed [] = (Inl TUnclosedStringError, [])"
| "loose_string_from malformed (c # s) =
     (if c = 0x22 then (if malformed then Inl TMultilineStringError else Inr (), s)
      else if c = 0x5C then loose_string_from malformed (tl s)
      else loose_string_from (malformed \<or> c = 0x0A \<or> c = 0x0D) s)"

definition lex_loose_string_literal :: "source \<Rightarrow> (token + unit) \<times> source" where
  "lex_loose_string_literal = loose_string_from False"

fun hex_string_from :: "bool \<Rightarrow> source \<Rightarrow> (token + unit) \<times> source" where
  "hex_string_from malformed [] = (Inl TUnclosedStringError, [])"
| "hex_string_from malformed (c # s) =
     (if c = 0x22 then (if malformed then Inl TMultilineStringError else Inr (), s)
      else hex_string_from (malformed \<or> c = 0x0A \<or> c = 0x0D) s)"

definition lex_loose_hex_string_literal :: "source \<Rightarrow> (token + unit) \<times> source" where
  "lex_loose_hex_string_literal = hex_string_from False"

text \<open>The callback of a rule, on what follows the text the rule has matched.\<close>

definition run_action :: "action \<Rightarrow> source \<Rightarrow> ((token + unit) \<times> source) panics" where
  "run_action a s =
     (case a of
        NoAction \<Rightarrow> Some (Inr (), s)
      | LineCommentAction \<Rightarrow> Some (Inr (), lex_line_comment s)
      | BlockCommentAction \<Rightarrow> lex_block_comment s
      | NumberAction radix \<Rightarrow> Some (lex_number_literal radix s)
      | StringAction \<Rightarrow> Some (lex_loose_string_literal s)
      | HexStringAction \<Rightarrow> Some (lex_loose_hex_string_literal s))"

section \<open>The lexer\<close>

type_synonym matcher = "source \<Rightarrow> (lex_rule \<times> nat) option"

text \<open>The rest of the source, and its offset.\<close>

record lexer =
  lx_rest :: source
  lx_pos :: nat

definition lexer_new :: "source \<Rightarrow> lexer panics" where
  "lexer_new s = do { ensure (byte_len s \<le> u32_max - 1); Some \<lparr>lx_rest = s, lx_pos = 0\<rparr> }"

definition logos_next :: "matcher \<Rightarrow> (source \<Rightarrow> nat) \<Rightarrow> source \<Rightarrow> (token option \<times> source) panics" where
  "logos_next find_rule error_len s =
     (if s = [] then Some (None, [])
      else case find_rule s of
        None \<Rightarrow> Some (Some TInvalidCharError, drop (error_len s) s)
      | Some (r, n) \<Rightarrow>
          do { (res, s) \<leftarrow> run_action (ru_action r) (drop n s);
               Some (Some (case res of Inl e \<Rightarrow> e | Inr _ \<Rightarrow> ru_token r), s) })"

definition next_with_eof :: "matcher \<Rightarrow> (source \<Rightarrow> nat) \<Rightarrow> lexer \<Rightarrow> (token \<times> span \<times> lexer) panics" where
  "next_with_eof find_rule error_len lx =
     do { (tok, rest) \<leftarrow> logos_next find_rule error_len (lx_rest lx);
          let pos = lx_pos lx + (byte_len (lx_rest lx) - byte_len rest);
          start \<leftarrow> idx_new (lx_pos lx mod 2 ^ 32);
          end \<leftarrow> idx_new (pos mod 2 ^ 32);
          Some (case tok of Some t \<Rightarrow> t | None \<Rightarrow> TEof, span_new start end, \<lparr>lx_rest = rest, lx_pos = pos\<rparr>) }"

record lexed =
  le_tokens :: "token list"
  le_source_ends :: "nat list"

fun lex_loop :: "nat \<Rightarrow> matcher \<Rightarrow> (source \<Rightarrow> nat) \<Rightarrow> nat \<Rightarrow> lexed \<Rightarrow> lexer \<Rightarrow> lexed panics" where
  "lex_loop 0 find_rule error_len last_end out lx = None"
| "lex_loop (Suc fuel) find_rule error_len last_end out lx =
     do { (tok, sp, lx) \<leftarrow> next_with_eof find_rule error_len lx;
          (_, tokens) \<leftarrow> iv_push (le_tokens out) tok;
          (_, ends) \<leftarrow> iv_push (le_source_ends out) (sp_end sp);
          ensure (last_end = sp_start sp);
          let out = \<lparr>le_tokens = tokens, le_source_ends = ends\<rparr>;
          if tok = TEof then Some out else lex_loop fuel find_rule error_len (sp_end sp) out lx }"

definition lex :: "nat \<Rightarrow> matcher \<Rightarrow> (source \<Rightarrow> nat) \<Rightarrow> source \<Rightarrow> lexed panics" where
  "lex fuel find_rule error_len s =
     do { lx \<leftarrow> lexer_new s; lex_loop fuel find_rule error_len 0 \<lparr>le_tokens = [], le_source_ends = []\<rparr> lx }"

definition token_src_start :: "lexed \<Rightarrow> nat \<Rightarrow> nat panics" where
  "token_src_start L i = (if i = 0 then Some 0 else do { j \<leftarrow> idx_sub i 1; iv_index (le_source_ends L) j })"

definition token_src_span :: "lexed \<Rightarrow> nat \<Rightarrow> span panics" where
  "token_src_span L i = do { start \<leftarrow> token_src_start L i; e \<leftarrow> iv_index (le_source_ends L) i; Some (span_new start e) }"

definition tokens_src_span :: "lexed \<Rightarrow> span \<Rightarrow> span panics" where
  "tokens_src_span L ts =
     do { start \<leftarrow> token_src_start L (sp_start ts); e \<leftarrow> token_src_start L (sp_end ts); Some (span_new start e) }"

definition lexed_get :: "lexed \<Rightarrow> nat \<Rightarrow> (token \<times> span) panics" where
  "lexed_get L i = do { t \<leftarrow> iv_index (le_tokens L) i; sp \<leftarrow> token_src_span L i; Some (t, sp) }"

end
