(* ===== verification/Lexer_Correct.thy ===== *)
theory Lexer_Correct
  imports Lexer
begin

text \<open>
  The lexer splits its source: its tokens are the texts of the source, one after the other, each of the shape of its
  kind.
\<close>

section \<open>What the generated code promises\<close>

text \<open>The number of characters that a pattern matches.\<close>

definition pattern_length :: "pattern \<Rightarrow> source \<Rightarrow> nat option" where
  "pattern_length p s =
     (case p of
        Literal l \<Rightarrow> if take (length l) s = l then Some (length l) else None
      | Regex cs loop \<Rightarrow>
          if list_all2 in_class cs (take (length cs) s)
          then Some (length cs + length (takeWhile (in_class loop) (drop (length cs) s))) else None)"

definition is_literal :: "pattern \<Rightarrow> bool" where
  "is_literal p = (case p of Literal _ \<Rightarrow> True | Regex _ _ \<Rightarrow> False)"

text \<open>A rule of the longest match, and a literal rather than a regular expression of the same length.\<close>

definition picks_longest :: "source \<Rightarrow> (lex_rule \<times> nat) option \<Rightarrow> bool" where
  "picks_longest s choice =
     (case choice of
        None \<Rightarrow> \<forall>r \<in> set lex_rules. pattern_length (ru_pattern r) s = None
      | Some (r, n) \<Rightarrow> r \<in> set lex_rules \<and> pattern_length (ru_pattern r) s = Some n
          \<and> (\<forall>r' \<in> set lex_rules. case pattern_length (ru_pattern r') s of None \<Rightarrow> True
               | Some m \<Rightarrow> m < n \<or> m = n \<and> (is_literal (ru_pattern r') \<longrightarrow> is_literal (ru_pattern r))))"

locale logos =
  fixes find_rule :: matcher and error_len :: "source \<Rightarrow> nat"
  assumes picks: "picks_longest s (find_rule s)"
    and error_len: "s \<noteq> [] \<Longrightarrow> find_rule s = None \<Longrightarrow> 0 < error_len s"

section \<open>The texts of the tokens\<close>

definition ident_word :: "source \<Rightarrow> bool" where
  "ident_word w \<longleftrightarrow> w \<noteq> [] \<and> in_class ident_start (hd w) \<and> list_all (in_class ident_class) (tl w)"

definition number_body :: "nat \<Rightarrow> source \<Rightarrow> bool" where
  "number_body radix s \<longleftrightarrow> (\<forall>c \<in> set s. c = 0x5F \<or> in_class ident_class c \<and> is_digit radix c)"

definition newline :: "nat \<Rightarrow> bool" where
  "newline c \<longleftrightarrow> c = 0x0A \<or> c = 0x0D"

text \<open>The characters between the quotes, where a backslash takes the next one with it; whether there is a new line that
  is not escaped.\<close>

inductive string_body :: "bool \<Rightarrow> source \<Rightarrow> bool" where
  body_end: "string_body False []"
| body_char: "c \<noteq> 0x22 \<Longrightarrow> c \<noteq> 0x5C \<Longrightarrow> string_body m s \<Longrightarrow> string_body (newline c \<or> m) (c # s)"
| body_escape: "string_body m s \<Longrightarrow> string_body m (0x5C # c # s)"

text \<open>What closes \<open>d\<close> open comments.\<close>

inductive closes :: "nat \<Rightarrow> source \<Rightarrow> bool" where
  closes_none: "closes 0 []"
| closes_one: "closes d s \<Longrightarrow> closes (Suc d) (0x2A # 0x2F # s)"
| closes_open: "closes (Suc (Suc d)) s \<Longrightarrow> closes (Suc d) (0x2F # 0x2A # s)"
| closes_other: "closes (Suc d) s \<Longrightarrow> c \<noteq> 0x2A \<or> hd s \<noteq> 0x2F \<Longrightarrow> c \<noteq> 0x2F \<or> hd s \<noteq> 0x2A \<Longrightarrow> closes (Suc d) (c # s)"

definition special_shape :: "token \<Rightarrow> source \<Rightarrow> bool" where
  "special_shape t w =
     (case t of
        TIdentifier \<Rightarrow> ident_word w \<and> (\<forall>(t, txt) \<in> set fixed_texts. w \<noteq> codes txt)
      | TBuiltinName \<Rightarrow> (\<exists>u. w = 0x40 # u \<and> ident_word u)
      | TDecimalLiteral \<Rightarrow> (\<exists>c s. w = c # s \<and> in_class digit_class c \<and> number_body 10 s)
      | THexLiteral \<Rightarrow> (\<exists>c s. w = 0x30 # 0x78 # c # s \<and> in_class hex_class c \<and> number_body 16 s)
      | TBinLiteral \<Rightarrow> (\<exists>c s. w = 0x30 # 0x62 # c # s \<and> in_class bin_class c \<and> number_body 2 s)
      | TLooseStringLiteral \<Rightarrow> (\<exists>s. w = 0x22 # s @ [0x22] \<and> string_body False s)
      | TLooseHexStringLiteral \<Rightarrow> (\<exists>s. w = [0x68, 0x65, 0x78, 0x22] @ s @ [0x22] \<and> 0x22 \<notin> set s \<and> (\<forall>c \<in> set s. \<not> newline c))
      | TWhitespace \<Rightarrow> list_all (in_class space_class) w
      | TLineComment \<Rightarrow> (\<exists>s e. w = 0x2F # 0x2F # s @ e \<and> 0x0A \<notin> set s \<and> (e = [] \<or> e = [0x0A]))
      | TBlockComment \<Rightarrow> (\<exists>s. w = 0x2F # 0x2A # s \<and> closes 1 s)
      | TAtWithoutIdentError \<Rightarrow> w = [0x40]
      | TMalformedIdentError \<Rightarrow> (\<exists>p s. w = p @ s \<and> list_all (in_class ident_class) s
          \<and> (list_all2 in_class [digit_class] p \<and> \<not> number_body 10 s
             \<or> list_all2 in_class [one 0x30, one 0x78, hex_class] p \<and> \<not> number_body 16 s
             \<or> list_all2 in_class [one 0x30, one 0x62, bin_class] p \<and> \<not> number_body 2 s))
      | TMultilineStringError \<Rightarrow> (\<exists>s. (w = 0x22 # s @ [0x22] \<and> string_body True s
          \<or> w = [0x68, 0x65, 0x78, 0x22] @ s @ [0x22] \<and> 0x22 \<notin> set s) \<and> (\<exists>c \<in> set s. newline c))
      | TInvalidCharError \<Rightarrow> True
      | TUnclosedBlockCommentError \<Rightarrow> take 2 w = [0x2F, 0x2A]
      | TUnclosedStringError \<Rightarrow> hd w = 0x22 \<or> take 4 w = [0x68, 0x65, 0x78, 0x22]
      | _ \<Rightarrow> False)"

definition token_shape :: "token \<Rightarrow> source \<Rightarrow> bool" where
  "token_shape t w = (case token_text t of Some txt \<Rightarrow> w = txt | None \<Rightarrow> special_shape t w)"

definition runs_to_end :: "token \<Rightarrow> bool" where
  "runs_to_end t \<longleftrightarrow> t = TUnclosedBlockCommentError \<or> t = TUnclosedStringError"

section \<open>The callbacks\<close>

text \<open>A callback takes a prefix of what it is given.\<close>

lemma line_comment_split:
  "\<exists>u e. s = (u @ e) @ lex_line_comment s \<and> 0x0A \<notin> set u \<and> (e = [] \<or> e = [0x0A])"
proof (induction s)
  case (Cons c s)
  then obtain u e where "s = (u @ e) @ lex_line_comment s" "0x0A \<notin> set u" "e = [] \<or> e = [0x0A]"
    by blast
  then show ?case
    by (cases "c = 0x0A") (force intro: exI [of _ "[]"] exI [of _ "[0x0A]"], intro exI [of _ "c # u"] exI [of _ e], auto)
qed simp

lemma block_comment_split:
  "d + length s \<le> u32_max \<Longrightarrow> \<exists>res rest u. block_comment_from d s = Some (res, rest) \<and> s = u @ rest
    \<and> (case res of Inr _ \<Rightarrow> closes d u | Inl e \<Rightarrow> e = TUnclosedBlockCommentError \<and> rest = [])"
proof (induction d s rule: block_comment_from.induct)
  case (1 s)
  then show ?case
    by (auto intro: closes_none)
next
  case (4 d c n s)
  consider (close) "c = 0x2A \<and> n = 0x2F" | (nested) "c = 0x2F \<and> n = 0x2A" | (other) "c \<noteq> 0x2A \<or> n \<noteq> 0x2F" "c \<noteq> 0x2F \<or> n \<noteq> 0x2A"
    by blast
  then show ?case
  proof cases
    case close
    then obtain res rest u where IH: "block_comment_from d s = Some (res, rest)" "s = u @ rest"
        "case res of Inr _ \<Rightarrow> closes d u | Inl e \<Rightarrow> e = TUnclosedBlockCommentError \<and> rest = []"
      using "4.IH"(1) "4.prems" by auto
    then show ?thesis
      using close by (auto intro!: exI [of _ "0x2A # 0x2F # u"] closes_one split: sum.splits)
  next
    case nested
    have e: "add_u32 (Suc d) 1 = Some (Suc (Suc d))"
      using "4.prems" by (simp add: add_u32_def)
    then obtain res rest u where IH: "block_comment_from (Suc (Suc d)) s = Some (res, rest)" "s = u @ rest"
        "case res of Inr _ \<Rightarrow> closes (Suc (Suc d)) u | Inl e \<Rightarrow> e = TUnclosedBlockCommentError \<and> rest = []"
      using "4.IH"(2) nested "4.prems" by auto
    then show ?thesis
      using nested e by (auto intro!: exI [of _ "0x2F # 0x2A # u"] closes_open split: sum.splits)
  next
    case other
    then obtain res rest u where IH: "block_comment_from (Suc d) (n # s) = Some (res, rest)" "n # s = u @ rest"
        "case res of Inr _ \<Rightarrow> closes (Suc d) u | Inl e \<Rightarrow> e = TUnclosedBlockCommentError \<and> rest = []"
      using "4.IH"(3) "4.prems" by auto
    have "closes (Suc d) (c # u)" if "closes (Suc d) u"
    proof -
      have "hd u = n"
        using IH(2) that by (cases u) (auto elim: closes.cases)
      then show ?thesis
        using that other by (auto intro: closes_other)
    qed
    moreover have "block_comment_from (Suc d) (c # n # s) = Some (res, rest)"
      using IH(1) other by auto
    ultimately show ?thesis
      using IH(2,3) by (intro exI [of _ res] exI [of _ rest] exI [of _ "c # u"]) (auto split: sum.splits)
  qed
qed auto

lemma number_split:
  "\<exists>u. s = u @ snd (number_chars radix m s) \<and> list_all (in_class ident_class) u
    \<and> fst (number_chars radix m s) = (m \<or> (\<exists>c \<in> set u. c \<noteq> 0x5F \<and> \<not> is_digit radix c))"
proof (induction radix m s rule: number_chars.induct)
  case (2 radix m c s)
  show ?case
  proof (cases "in_class ident_class c")
    case True
    then obtain u where "s = u @ snd (number_chars radix (m \<or> c \<noteq> 0x5F \<and> \<not> is_digit radix c) s)" "list_all (in_class ident_class) u"
        "fst (number_chars radix (m \<or> c \<noteq> 0x5F \<and> \<not> is_digit radix c) s) = ((m \<or> c \<noteq> 0x5F \<and> \<not> is_digit radix c) \<or> (\<exists>c \<in> set u. c \<noteq> 0x5F \<and> \<not> is_digit radix c))"
      using 2 by blast
    then show ?thesis
      using True by (auto intro!: exI [of _ "c # u"])
  qed simp
qed simp

lemma loose_string_split:
  "\<exists>u res rest. loose_string_from m s = (res, rest) \<and> s = u @ rest
    \<and> (case res of Inl e \<Rightarrow> e = TUnclosedStringError \<and> rest = [] \<or> e = TMultilineStringError \<and> (\<exists>v n. u = v @ [0x22] \<and> string_body n v \<and> (m \<or> n))
       | Inr _ \<Rightarrow> \<exists>v. u = v @ [0x22] \<and> string_body False v \<and> \<not> m)"
proof (induction m s rule: loose_string_from.induct)
  case (2 m c s)
  consider (quote) "c = 0x22" | (escape) "c = 0x5C" | (other) "c \<noteq> 0x22" "c \<noteq> 0x5C"
    by blast
  then show ?case
  proof cases
    case quote
    then show ?thesis
      by (auto intro!: body_end exI [of _ False])
  next
    case escape
    show ?thesis
    proof (cases s)
      case (Cons d s')
      then obtain u res rest where IH: "loose_string_from m s' = (res, rest)" "s' = u @ rest"
          "case res of Inl e \<Rightarrow> e = TUnclosedStringError \<and> rest = [] \<or> e = TMultilineStringError \<and> (\<exists>v n. u = v @ [0x22] \<and> string_body n v \<and> (m \<or> n))
             | Inr _ \<Rightarrow> \<exists>v. u = v @ [0x22] \<and> string_body False v \<and> \<not> m"
        using 2(1) escape by auto
      then show ?thesis
        using escape Cons body_escape [of _ _ d]
        by (intro exI [of _ "0x5C # d # u"] exI [of _ res] exI [of _ rest]) (fastforce split: sum.splits)
    qed (use escape in simp)
  next
    case other
    let ?m = "m \<or> c = 0x0A \<or> c = 0x0D"
    obtain u res rest where IH: "loose_string_from ?m s = (res, rest)" "s = u @ rest"
        "case res of Inl e \<Rightarrow> e = TUnclosedStringError \<and> rest = [] \<or> e = TMultilineStringError \<and> (\<exists>v n. u = v @ [0x22] \<and> string_body n v \<and> (?m \<or> n))
           | Inr _ \<Rightarrow> \<exists>v. u = v @ [0x22] \<and> string_body False v \<and> \<not> ?m"
      using 2(2) other by auto
    have "case res of Inl e \<Rightarrow> e = TUnclosedStringError \<and> rest = [] \<or> e = TMultilineStringError \<and> (\<exists>v n. c # u = v @ [0x22] \<and> string_body n v \<and> (m \<or> n))
           | Inr _ \<Rightarrow> \<exists>v. c # u = v @ [0x22] \<and> string_body False v \<and> \<not> m"
      using IH(3) body_char [OF other] by (fastforce simp: newline_def split: sum.splits)
    then show ?thesis
      using IH(1,2) other by (intro exI [of _ "c # u"] exI [of _ res] exI [of _ rest]) simp
  qed
qed simp

lemma hex_string_split:
  "\<exists>u res rest. hex_string_from m s = (res, rest) \<and> s = u @ rest
    \<and> (case res of Inl e \<Rightarrow> e = TUnclosedStringError \<and> rest = [] \<or> e = TMultilineStringError \<and> (\<exists>v. u = v @ [0x22] \<and> 0x22 \<notin> set v \<and> (m \<or> (\<exists>c \<in> set v. newline c)))
       | Inr _ \<Rightarrow> \<exists>v. u = v @ [0x22] \<and> 0x22 \<notin> set v \<and> (\<forall>c \<in> set v. \<not> newline c) \<and> \<not> m)"
proof (induction m s rule: hex_string_from.induct)
  case (2 m c s)
  show ?case
  proof (cases "c = 0x22")
    case False
    let ?m = "m \<or> c = 0x0A \<or> c = 0x0D"
    obtain u res rest where IH: "hex_string_from ?m s = (res, rest)" "s = u @ rest"
        "case res of Inl e \<Rightarrow> e = TUnclosedStringError \<and> rest = [] \<or> e = TMultilineStringError \<and> (\<exists>v. u = v @ [0x22] \<and> 0x22 \<notin> set v \<and> (?m \<or> (\<exists>c \<in> set v. newline c)))
       | Inr _ \<Rightarrow> \<exists>v. u = v @ [0x22] \<and> 0x22 \<notin> set v \<and> (\<forall>c \<in> set v. \<not> newline c) \<and> \<not> ?m"
      using 2 False by blast
    have "case res of Inl e \<Rightarrow> e = TUnclosedStringError \<and> rest = [] \<or> e = TMultilineStringError \<and> (\<exists>v. c # u = v @ [0x22] \<and> 0x22 \<notin> set v \<and> (m \<or> (\<exists>c \<in> set v. newline c)))
       | Inr _ \<Rightarrow> \<exists>v. c # u = v @ [0x22] \<and> 0x22 \<notin> set v \<and> (\<forall>c \<in> set v. \<not> newline c) \<and> \<not> m"
      using IH(3) False by (fastforce simp: newline_def Cons_eq_append_conv split: sum.splits)
    then show ?thesis
      using IH(1,2) False by (intro exI [of _ "c # u"] exI [of _ res] exI [of _ rest]) simp
  qed (auto simp: intro!: exI [of _ "[0x22]"])
qed simp


section \<open>One token\<close>

lemma body_newline: "string_body m s \<Longrightarrow> m \<Longrightarrow> \<exists>c \<in> set s. newline c"
  by (induction rule: string_body.induct) auto

lemma pattern_split:
  assumes "pattern_length p s = Some n"
  shows "\<exists>w. s = w @ drop n s \<and> length w = n \<and> (case p of Literal l \<Rightarrow> w = l
    | Regex cs loop \<Rightarrow> \<exists>a b. w = a @ b \<and> list_all2 in_class cs a \<and> list_all (in_class loop) b)"
proof (cases p)
  case (Literal l)
  then show ?thesis
    using assms by (intro exI [of _ "take n s"]) (auto simp: pattern_length_def split: if_splits dest: arg_cong [of _ _ length])
next
  case (Regex cs loop)
  let ?a = "take (length cs) s" and ?b = "takeWhile (in_class loop) (drop (length cs) s)"
  have m: "list_all2 in_class cs ?a" "n = length cs + length ?b"
    using assms Regex by (auto simp: pattern_length_def split: if_splits)
  have "length ?a = length cs"
    using list_all2_lengthD [OF m(1)] by simp
  have "take n s = ?a @ ?b"
    unfolding m(2) take_add by (metis takeWhile_eq_take)
  then have "s = (?a @ ?b) @ drop n s"
    by (metis append_take_drop_id)
  moreover have "list_all (in_class loop) ?b"
    by (auto simp: list_all_iff dest: set_takeWhileD)
  ultimately show ?thesis
    using m \<open>length ?a = length cs\<close> unfolding Regex by (intro exI [of _ "?a @ ?b"]) auto
qed

definition result_token :: "token \<Rightarrow> token + unit \<Rightarrow> token" where
  "result_token t res = (case res of Inl e \<Rightarrow> e | Inr _ \<Rightarrow> t)"

text \<open>The action of a rule extends the text \<open>w\<close> it has matched to one of the shape of its token.\<close>

definition extends :: "action \<Rightarrow> token \<Rightarrow> source \<Rightarrow> source \<Rightarrow> bool" where
  "extends a t w s \<longleftrightarrow> (\<exists>res u rest. run_action a s = Some (res, rest) \<and> s = u @ rest \<and> token_shape (result_token t res) (w @ u)
     \<and> (runs_to_end (result_token t res) \<longrightarrow> rest = []) \<and> result_token t res \<noteq> TEof)"

lemma extendsI:
  "run_action a s = Some (res, rest) \<Longrightarrow> s = u @ rest \<Longrightarrow> token_shape (result_token t res) (w @ u) \<Longrightarrow>
   (runs_to_end (result_token t res) \<Longrightarrow> rest = []) \<Longrightarrow> result_token t res \<noteq> TEof \<Longrightarrow> extends a t w s"
  unfolding extends_def by blast

lemma special_texts [simp]:
  "token_text TIdentifier = None" "token_text TBuiltinName = None" "token_text TDecimalLiteral = None"
  "token_text THexLiteral = None" "token_text TBinLiteral = None" "token_text TLooseStringLiteral = None"
  "token_text TLooseHexStringLiteral = None" "token_text TWhitespace = None" "token_text TLineComment = None"
  "token_text TBlockComment = None" "token_text TAtWithoutIdentError = None" "token_text TInvalidCharError = None"
  "token_text TMalformedIdentError = None" "token_text TMultilineStringError = None"
  "token_text TUnclosedBlockCommentError = None" "token_text TUnclosedStringError = None" "token_text TEof = None"
  by (simp_all add: token_text_def fixed_texts_def)

lemma fixed_distinct: "distinct (map fst fixed_texts)"
  by code_simp

lemma fixed_nonempty: "list_all (\<lambda>(t, s). s \<noteq> [] \<and> t \<noteq> TEof \<and> \<not> runs_to_end t) fixed_texts"
  by (simp add: fixed_texts_def runs_to_end_def)

lemma token_text_fixed: "(t, s) \<in> set fixed_texts \<Longrightarrow> token_text t = Some (codes s)"
  using fixed_distinct by (simp add: token_text_def)

lemma extends_none: "token_shape t w \<Longrightarrow> \<not> runs_to_end t \<Longrightarrow> t \<noteq> TEof \<Longrightarrow> extends NoAction t w s"
  by (auto simp: extends_def run_action_def result_token_def)

lemma extends_number:
  assumes "list_all2 in_class cs w"
    and ok: "\<And>u. list_all (in_class ident_class) u \<Longrightarrow> number_body radix u \<Longrightarrow> token_shape t (w @ u)"
    and bad: "\<And>u. list_all (in_class ident_class) u \<Longrightarrow> \<not> number_body radix u \<Longrightarrow> token_shape TMalformedIdentError (w @ u)"
    and t: "\<not> runs_to_end t" "t \<noteq> TEof"
  shows "extends (NumberAction radix) t w s"
proof -
  obtain u where u: "s = u @ snd (number_chars radix False s)" "list_all (in_class ident_class) u"
      "fst (number_chars radix False s) = (\<exists>c \<in> set u. c \<noteq> 0x5F \<and> \<not> is_digit radix c)"
    using number_split [of s radix False] by auto
  then have "fst (number_chars radix False s) \<longleftrightarrow> \<not> number_body radix u"
    by (auto simp: number_body_def list_all_iff)
  then show ?thesis
    using u(1,2) ok bad t
    by (cases "number_body radix u") (auto simp: extends_def run_action_def lex_number_literal_def result_token_def runs_to_end_def split: prod.splits)
qed

lemma extends_string: "extends StringAction TLooseStringLiteral [0x22] s"
proof -
  obtain u res rest where S: "loose_string_from False s = (res, rest)" "s = u @ rest"
      "case res of Inl e \<Rightarrow> e = TUnclosedStringError \<and> rest = [] \<or> e = TMultilineStringError \<and> (\<exists>v n. u = v @ [0x22] \<and> string_body n v \<and> n)
       | Inr _ \<Rightarrow> \<exists>v. u = v @ [0x22] \<and> string_body False v"
    using loose_string_split [of False s] unfolding simp_thms by blast
  then show ?thesis
    by (intro extendsI [of _ _ res rest u])
      (auto simp: run_action_def lex_loose_string_literal_def result_token_def token_shape_def special_shape_def runs_to_end_def
        dest: body_newline split: sum.splits)
qed

lemma extends_hex_string: "extends HexStringAction TLooseHexStringLiteral [0x68, 0x65, 0x78, 0x22] s"
proof -
  obtain u res rest where S: "hex_string_from False s = (res, rest)" "s = u @ rest"
      "case res of Inl e \<Rightarrow> e = TUnclosedStringError \<and> rest = [] \<or> e = TMultilineStringError \<and> (\<exists>v. u = v @ [0x22] \<and> 0x22 \<notin> set v \<and> (\<exists>c \<in> set v. newline c))
       | Inr _ \<Rightarrow> \<exists>v. u = v @ [0x22] \<and> 0x22 \<notin> set v \<and> (\<forall>c \<in> set v. \<not> newline c)"
    using hex_string_split [of False s] unfolding simp_thms not_False_eq_True by blast
  then show ?thesis
    by (intro extendsI [of _ _ res rest u])
      (auto simp: run_action_def lex_loose_hex_string_literal_def result_token_def token_shape_def special_shape_def runs_to_end_def
        split: sum.splits)
qed

lemma extends_line_comment: "extends LineCommentAction TLineComment [0x2F, 0x2F] s"
proof -
  obtain u e where u: "s = (u @ e) @ lex_line_comment s" "0x0A \<notin> set u" "e = [] \<or> e = [0x0A]"
    using line_comment_split by blast
  then have "token_shape TLineComment ([0x2F, 0x2F] @ u @ e)"
    by (auto simp: token_shape_def special_shape_def)
  then show ?thesis
    using u(1) by (intro extendsI [of _ _ "Inr ()" "lex_line_comment s" "u @ e"]) (simp_all add: run_action_def result_token_def runs_to_end_def)
qed

lemma extends_block_comment:
  assumes "Suc (length s) \<le> u32_max"
  shows "extends BlockCommentAction TBlockComment [0x2F, 0x2A] s"
proof -
  obtain res rest u where "block_comment_from 1 s = Some (res, rest)" "s = u @ rest"
      "case res of Inr _ \<Rightarrow> closes 1 u | Inl e \<Rightarrow> e = TUnclosedBlockCommentError \<and> rest = []"
    using block_comment_split [of 1 s] assms by auto
  then show ?thesis
    by (intro extendsI [of _ _ res rest u])
      (auto simp: run_action_def lex_block_comment_def result_token_def token_shape_def special_shape_def runs_to_end_def split: sum.splits)
qed

lemma in_one [simp]: "in_class (one a) c \<longleftrightarrow> c = a"
  by (auto simp: in_class_def one_def)

lemma list_all_none [simp]: "list_all (in_class []) b \<longleftrightarrow> b = []"
  by (cases b) (simp_all add: in_class_def)

section \<open>The rules\<close>

definition matched :: "pattern \<Rightarrow> source \<Rightarrow> bool" where
  "matched p w = (case p of Literal l \<Rightarrow> w = l | Regex cs loop \<Rightarrow> \<exists>a b. w = a @ b \<and> list_all2 in_class cs a \<and> list_all (in_class loop) b)"

definition rule_ok :: "lex_rule \<Rightarrow> bool" where
  "rule_ok r \<longleftrightarrow> (\<forall>w s. matched (ru_pattern r) w \<longrightarrow> is_literal (ru_pattern r) \<or> (\<forall>(t, txt) \<in> set fixed_texts. w \<noteq> codes txt) \<longrightarrow>
     Suc (length s) \<le> u32_max \<longrightarrow> w \<noteq> [] \<and> extends (ru_action r) (ru_token r) w s)"

lemma fixed_ok: "x \<in> set fixed_texts \<Longrightarrow> rule_ok (fixed_rule x)"
  using fixed_nonempty
  by (cases x) (auto simp: rule_ok_def fixed_rule_def matched_def is_literal_def list_all_iff codes_def token_shape_def
      token_text_fixed intro!: extends_none)

lemma number_ok:
  assumes "(cs, radix) \<in> {([digit_class], 10), ([one 0x30, one 0x78, hex_class], 16), ([one 0x30, one 0x62, bin_class], 2)}"
    and "\<And>p s. list_all2 in_class cs p \<Longrightarrow> number_body radix s \<Longrightarrow> special_shape t (p @ s)"
    and "token_text t = None" and "\<not> runs_to_end t" and "t \<noteq> TEof"
  shows "rule_ok \<lparr>ru_pattern = Regex cs [], ru_token = t, ru_action = NumberAction radix\<rparr>"
proof -
  have "special_shape TMalformedIdentError (p @ s)"
    if "list_all2 in_class cs p" "list_all (in_class ident_class) s" "\<not> number_body radix s" for p s
    using assms(1) that by (auto simp: special_shape_def simp del: list_all2_Cons1)
  moreover have "cs \<noteq> []"
    using assms(1) by auto
  ultimately show ?thesis
    using assms(2-5) unfolding rule_ok_def matched_def
    by (auto simp: token_shape_def intro!: extends_number [where cs = cs])
qed

lemma number_rules_ok:
  "rule_ok \<lparr>ru_pattern = Regex [digit_class] [], ru_token = TDecimalLiteral, ru_action = NumberAction 10\<rparr>"
  "rule_ok \<lparr>ru_pattern = Regex [one 0x30, one 0x78, hex_class] [], ru_token = THexLiteral, ru_action = NumberAction 16\<rparr>"
  "rule_ok \<lparr>ru_pattern = Regex [one 0x30, one 0x62, bin_class] [], ru_token = TBinLiteral, ru_action = NumberAction 2\<rparr>"
  by (rule number_ok; auto simp: special_shape_def runs_to_end_def list_all2_Cons1)+

lemma word_rules_ok:
  "rule_ok \<lparr>ru_pattern = Regex [ident_start] ident_class, ru_token = TIdentifier, ru_action = NoAction\<rparr>"
  "rule_ok \<lparr>ru_pattern = Regex [one 0x40, ident_start] ident_class, ru_token = TBuiltinName, ru_action = NoAction\<rparr>"
  "rule_ok \<lparr>ru_pattern = Regex [space_class] space_class, ru_token = TWhitespace, ru_action = NoAction\<rparr>"
  by (auto simp: rule_ok_def matched_def is_literal_def list_all2_Cons1 token_shape_def special_shape_def ident_word_def runs_to_end_def
      intro!: extends_none)

lemma literal_rules_ok:
  "rule_ok \<lparr>ru_pattern = Literal [0x22], ru_token = TLooseStringLiteral, ru_action = StringAction\<rparr>"
  "rule_ok \<lparr>ru_pattern = Literal [0x68, 0x65, 0x78, 0x22], ru_token = TLooseHexStringLiteral, ru_action = HexStringAction\<rparr>"
  "rule_ok \<lparr>ru_pattern = Literal [0x2F, 0x2F], ru_token = TLineComment, ru_action = LineCommentAction\<rparr>"
  "rule_ok \<lparr>ru_pattern = Literal [0x2F, 0x2A], ru_token = TBlockComment, ru_action = BlockCommentAction\<rparr>"
  "rule_ok \<lparr>ru_pattern = Literal [0x40], ru_token = TAtWithoutIdentError, ru_action = NoAction\<rparr>"
  by (simp_all add: rule_ok_def matched_def extends_string extends_hex_string extends_line_comment extends_block_comment)
    (simp add: extends_none token_shape_def special_shape_def runs_to_end_def)

lemma rules_ok: "r \<in> set lex_rules \<Longrightarrow> rule_ok r"
  using fixed_ok number_rules_ok word_rules_ok literal_rules_ok by (auto simp: lex_rules_def special_rules_def)

lemma next_token:
  assumes gen: "logos find_rule error_len" and s: "s \<noteq> []" "Suc (length s) \<le> u32_max"
  shows "\<exists>t w rest. logos_next find_rule error_len s = Some (Some t, rest) \<and> s = w @ rest \<and> w \<noteq> [] \<and> token_shape t w
    \<and> (runs_to_end t \<longrightarrow> rest = []) \<and> t \<noteq> TEof"
proof (cases "find_rule s")
  case None
  let ?w = "take (error_len s) s"
  have "?w \<noteq> []"
    using logos.error_len [OF gen s(1) None] s(1) by simp
  moreover have "token_shape TInvalidCharError ?w"
    by (simp add: token_shape_def special_shape_def)
  ultimately show ?thesis
    using None s(1) by (intro exI [of _ TInvalidCharError] exI [of _ ?w] exI [of _ "drop (error_len s) s"])
      (simp add: logos_next_def runs_to_end_def)
next
  case (Some p)
  obtain r n where p: "p = (r, n)"
    by fastforce
  then have P: "r \<in> set lex_rules" "pattern_length (ru_pattern r) s = Some n"
      "\<And>r' m. r' \<in> set lex_rules \<Longrightarrow> pattern_length (ru_pattern r') s = Some m \<Longrightarrow> m < n \<or> m = n \<and> (is_literal (ru_pattern r') \<longrightarrow> is_literal (ru_pattern r))"
    using logos.picks [OF gen, of s] Some by (auto simp: picks_longest_def)
  obtain w where w: "s = w @ drop n s" "length w = n" "matched (ru_pattern r) w"
    using pattern_split [OF P(2)] unfolding matched_def by blast
  have lit: "is_literal (ru_pattern r) \<or> (\<forall>(t, txt) \<in> set fixed_texts. w \<noteq> codes txt)"
  proof (rule ccontr)
    assume N: "\<not> (is_literal (ru_pattern r) \<or> (\<forall>(t, txt) \<in> set fixed_texts. w \<noteq> codes txt))"
    then obtain t x where x: "(t, x) \<in> set fixed_texts" "w = codes x"
      by blast
    let ?r = "fixed_rule (t, x)"
    have "?r \<in> set lex_rules"
      using x(1) by (simp add: lex_rules_def)
    moreover have "pattern_length (ru_pattern ?r) s = Some (length w)" "is_literal (ru_pattern ?r)"
      using w(1) x(2) by (auto simp: fixed_rule_def pattern_length_def is_literal_def) (metis append_eq_conv_conj)
    ultimately have "length w < n"
      using P(3) N by blast
    then show False
      using w(2) by simp
  qed
  have "w \<noteq> [] \<and> extends (ru_action r) (ru_token r) w (drop n s)"
    using rules_ok [OF P(1), unfolded rule_ok_def, THEN spec, THEN spec, THEN mp, THEN mp, THEN mp, OF w(3) lit, of "drop n s"] s(2) by simp
  then have E: "w \<noteq> []" "extends (ru_action r) (ru_token r) w (drop n s)"
    by simp_all
  then obtain res u rest where "run_action (ru_action r) (drop n s) = Some (res, rest)" "drop n s = u @ rest"
      "token_shape (result_token (ru_token r) res) (w @ u)" "runs_to_end (result_token (ru_token r) res) \<longrightarrow> rest = []"
      "result_token (ru_token r) res \<noteq> TEof"
    unfolding extends_def by blast
  then show ?thesis
    using Some s(1) w(1) E(1)
    by (intro exI [of _ "result_token (ru_token r) res"] exI [of _ "w @ u"] exI [of _ rest])
      (simp add: p logos_next_def result_token_def)
qed

section \<open>All tokens\<close>

text \<open>The ends of texts that follow each other from offset \<open>pos\<close> on.\<close>

fun ends_from :: "nat \<Rightarrow> source list \<Rightarrow> nat list" where
  "ends_from pos [] = []"
| "ends_from pos (w # ws) = (pos + byte_len w) # ends_from (pos + byte_len w) ws"

lemma byte_len_simps [simp]: "byte_len [] = 0" "byte_len (c # s) = utf8_len c + byte_len s" "byte_len (s @ u) = byte_len s + byte_len u"
  by (simp_all add: byte_len_def)

lemma utf8_len_pos: "0 < utf8_len c"
  by (simp add: utf8_len_def)

lemma byte_len_ge: "length s \<le> byte_len s"
proof (induction s)
  case (Cons c s)
  then show ?case
    using utf8_len_pos [of c] by simp
qed simp

lemma ends_from_nth: "i < length ws \<Longrightarrow> ends_from pos ws ! i = pos + byte_len (concat (take (Suc i) ws))"
proof (induction ws arbitrary: pos i)
  case (Cons w ws)
  then show ?case
    by (cases i) auto
qed simp

lemma ends_from_length [simp]: "length (ends_from pos ws) = length ws"
  by (induction ws arbitrary: pos) auto

definition parts_ok :: "(token \<times> source) list \<Rightarrow> bool" where
  "parts_ok parts \<longleftrightarrow> (\<forall>(t, w) \<in> set parts. w \<noteq> [] \<and> token_shape t w \<and> t \<noteq> TEof) \<and> (\<forall>(t, w) \<in> set (butlast parts). \<not> runs_to_end t)"

lemma next_with_eof_run:
  assumes "logos_next find_rule error_len s = Some (t, rest)" and "s = w @ rest" and "is_idx (pos + byte_len s)"
  shows "next_with_eof find_rule error_len \<lparr>lx_rest = s, lx_pos = pos\<rparr>
    = Some (case t of Some t \<Rightarrow> t | None \<Rightarrow> TEof, span_new pos (pos + byte_len w), \<lparr>lx_rest = rest, lx_pos = pos + byte_len w\<rparr>)"
proof -
  have "pos < 2 ^ 32" "pos + byte_len w < 2 ^ 32" "is_idx pos" "is_idx (pos + byte_len w)"
    using assms(2,3) by (simp_all add: is_idx_def u32_max_def)
  then show ?thesis
    using assms(1,2) by (simp add: next_with_eof_def idx_new_Some bind_Some is_idx_def u32_max_def Let_def)
qed

lemma lex_loop_run:
  assumes gen: "logos find_rule error_len"
  shows "length s < fuel \<Longrightarrow> is_idx (pos + byte_len s) \<Longrightarrow> length toks + length s < u32_max \<Longrightarrow> length ends = length toks \<Longrightarrow>
    \<exists>parts. lex_loop fuel find_rule error_len pos \<lparr>le_tokens = toks, le_source_ends = ends\<rparr> \<lparr>lx_rest = s, lx_pos = pos\<rparr>
        = Some \<lparr>le_tokens = toks @ map fst parts @ [TEof], le_source_ends = ends @ ends_from pos (map snd parts) @ [pos + byte_len s]\<rparr>
      \<and> concat (map snd parts) = s \<and> parts_ok parts"
proof (induction fuel arbitrary: s pos toks ends)
  case (Suc fuel)
  have push: "iv_push toks x = Some (length toks, toks @ [x])" "iv_push ends y = Some (length ends, ends @ [y])" for x y
    using Suc.prems(3,4) by (simp_all add: iv_push_Some is_idx_def)
  show ?case
  proof (cases "s = []")
    case True
    then have "logos_next find_rule error_len s = Some (None, [])" "s = [] @ []"
      by (simp_all add: logos_next_def)
    from next_with_eof_run [OF this Suc.prems(2)] show ?thesis
      using True push by (intro exI [of _ "[]"]) (simp add: parts_ok_def span_new_def)
  next
    case False
    obtain t w rest where N: "logos_next find_rule error_len s = Some (Some t, rest)" "s = w @ rest" "w \<noteq> []" "token_shape t w"
        "runs_to_end t \<longrightarrow> rest = []" "t \<noteq> TEof"
      using next_token [OF gen False] Suc.prems(3) by auto
    have "length rest < fuel" "is_idx (pos + byte_len w + byte_len rest)" "length (toks @ [t]) + length rest < u32_max"
        "length (ends @ [pos + byte_len w]) = length (toks @ [t])"
      using Suc.prems N(2,3) by (cases w; simp add: is_idx_def add.assoc)+
    from Suc.IH [OF this] obtain parts where P:
        "lex_loop fuel find_rule error_len (pos + byte_len w) \<lparr>le_tokens = toks @ [t], le_source_ends = ends @ [pos + byte_len w]\<rparr>
           \<lparr>lx_rest = rest, lx_pos = pos + byte_len w\<rparr>
         = Some \<lparr>le_tokens = (toks @ [t]) @ map fst parts @ [TEof],
             le_source_ends = (ends @ [pos + byte_len w]) @ ends_from (pos + byte_len w) (map snd parts) @ [pos + byte_len w + byte_len rest]\<rparr>"
        "concat (map snd parts) = rest" "parts_ok parts"
      by blast
    have "parts_ok ((t, w) # parts)"
      using P(2,3) N(3-6) by (cases parts) (auto simp: parts_ok_def)
    then show ?thesis
      using P(1,2) N(2,6) push next_with_eof_run [OF N(1,2) Suc.prems(2)]
      by (intro exI [of _ "(t, w) # parts"]) (simp add: span_new_def add.assoc)
  qed
qed simp

lemma lex_run:
  assumes "logos find_rule error_len" and "byte_len s < u32_max" and "length s < fuel"
  shows "\<exists>parts. lex fuel find_rule error_len s
      = Some \<lparr>le_tokens = map fst parts @ [TEof], le_source_ends = ends_from 0 (map snd parts) @ [byte_len s]\<rparr>
    \<and> concat (map snd parts) = s \<and> parts_ok parts"
proof -
  have "is_idx (0 + byte_len s)" "length ([] :: token list) + length s < u32_max"
    using assms(2) byte_len_ge [of s] by (simp_all add: is_idx_def)
  moreover have "byte_len s \<le> u32_max - 1"
    using assms(2) by simp
  ultimately show ?thesis
    using lex_loop_run [OF assms(1,3), of 0 "[]" "[]"] by (simp add: lex_def lexer_new_def)
qed

lemma token_span:
  assumes L: "L = \<lparr>le_tokens = map fst parts @ [TEof], le_source_ends = ends_from 0 (map snd parts) @ [byte_len s]\<rparr>"
    and i: "i < length parts" and room: "length parts < u32_max"
  shows "lexed_get L i = Some (fst (parts ! i),
    span_new (byte_len (concat (map snd (take i parts)))) (byte_len (concat (map snd (take (Suc i) parts)))))"
proof -
  have "token_src_start L i = Some (byte_len (concat (map snd (take i parts))))"
  proof (cases i)
    case (Suc j)
    then show ?thesis
      using i room by (simp add: token_src_start_def L idx_sub_Some is_idx_def bind_Some iv_index_def nth_append ends_from_nth take_map)
  qed (simp add: token_src_start_def)
  then show ?thesis
    using i by (simp add: lexed_get_def token_src_span_def L iv_index_def nth_append ends_from_nth take_map)
qed

section \<open>An instance\<close>

text \<open>Code that tries all rules keeps the promise.\<close>

definition better :: "lex_rule \<times> nat \<Rightarrow> lex_rule \<times> nat \<Rightarrow> bool" where
  "better a b \<longleftrightarrow> snd b < snd a \<or> snd b = snd a \<and> is_literal (ru_pattern (fst a)) \<and> \<not> is_literal (ru_pattern (fst b))"

fun pick_from :: "source \<Rightarrow> lex_rule list \<Rightarrow> (lex_rule \<times> nat) option" where
  "pick_from s [] = None"
| "pick_from s (r # rs) =
     (case (pattern_length (ru_pattern r) s, pick_from s rs) of
        (None, best) \<Rightarrow> best
      | (Some n, None) \<Rightarrow> Some (r, n)
      | (Some n, Some best) \<Rightarrow> Some (if better best (r, n) then best else (r, n)))"

definition try_all_rules :: matcher where
  "try_all_rules s = pick_from s lex_rules"

lemma pick_from_longest:
  "case pick_from s rs of
     None \<Rightarrow> \<forall>r \<in> set rs. pattern_length (ru_pattern r) s = None
   | Some (r, n) \<Rightarrow> r \<in> set rs \<and> pattern_length (ru_pattern r) s = Some n
       \<and> (\<forall>r' \<in> set rs. case pattern_length (ru_pattern r') s of None \<Rightarrow> True
            | Some m \<Rightarrow> m < n \<or> m = n \<and> (is_literal (ru_pattern r') \<longrightarrow> is_literal (ru_pattern r)))"
proof (induction rs)
  case (Cons r rs)
  then show ?case
    by (cases "pattern_length (ru_pattern r) s"; cases "pick_from s rs")
      (fastforce simp: better_def split: option.splits prod.splits if_splits)+
qed simp

interpretation all_rules: logos try_all_rules "\<lambda>_. 1"
  using pick_from_longest [where rs = lex_rules] by unfold_locales (auto simp: try_all_rules_def picks_longest_def)

end
