(* ===== verification/String_Literals.thy ===== *)
theory String_Literals
  imports Lexer_Correct
begin

text \<open>
  The decoders of string literals (\<open>frontend/parser/src/parser/strings.rs\<close>): the bytes of the buffer and the errors they
  report, and what they make of the tokens of the lexer.
\<close>

definition parse_nibble :: "nat \<Rightarrow> u8 option" where
  "parse_nibble c =
     (if 0x30 \<le> c \<and> c \<le> 0x39 then Some (of_nat c - 0x30)
      else if 0x41 \<le> c \<and> c \<le> 0x46 then Some (of_nat c - 0x41 + 10)
      else if 0x61 \<le> c \<and> c \<le> 0x66 then Some (of_nat c - 0x61 + 10)
      else None)"

datatype string_error =
    UnicodeDisallowed span
  | InvalidHexEscape span
  | UnrecognizedEscape span nat
  | NonHexDigit nat nat
  | OddHexDigitCount nat

definition is_ascii :: "nat \<Rightarrow> bool" where
  "is_ascii c \<longleftrightarrow> c < 0x80"

definition simple_escape :: "nat \<Rightarrow> u8 option" where
  "simple_escape c =
     (if c = 0x6E then Some 0x0A else if c = 0x72 then Some 0x0D else if c = 0x74 then Some 0x09
      else if c = 0x30 then Some 0x00 else if c = 0x5C then Some 0x5C else if c = 0x22 then Some 0x22 else None)"

text \<open>The next character, if there is one, as a digit; the characters after it.\<close>

definition next_nibble :: "source \<Rightarrow> u8 option \<times> source" where
  "next_nibble s = (case s of [] \<Rightarrow> (None, []) | c # s \<Rightarrow> (parse_nibble c, s))"

definition span_at :: "nat \<Rightarrow> nat \<Rightarrow> nat \<Rightarrow> span panics" where
  "span_at base a b = do { start \<leftarrow> idx_add base a; e \<leftarrow> idx_add base b; Some (span_new start e) }"

lemma next_nibble_shorter [termination_simp]: "length (snd (next_nibble s)) \<le> length s"
  by (simp add: next_nibble_def split: list.splits)

text \<open>
  The loop over the characters: \<open>base\<close> is the offset of the text between the quotes, \<open>n\<close> its length, and the offset of
  a character is what is before it.
\<close>

function decode_string_from ::
    "nat \<Rightarrow> nat \<Rightarrow> source \<Rightarrow> u8 list \<Rightarrow> string_error list \<Rightarrow> (u8 list \<times> string_error list) panics" where
  "decode_string_from base n [] buf errs = Some (buf, errs)"
| "decode_string_from base n (c # s) buf errs =
     (let start = n - byte_len (c # s) in
      if \<not> is_ascii c then
        (let rest = dropWhile (\<lambda>c. \<not> is_ascii c) s in
         do { sp \<leftarrow> span_at base start (n - byte_len rest);
              decode_string_from base n rest buf (errs @ [UnicodeDisallowed sp]) })
      else if c \<noteq> 0x5C then decode_string_from base n s (buf @ [of_nat c]) errs
      else case s of
        [] \<Rightarrow> None
      | d # s \<Rightarrow>
          (case simple_escape d of
             Some b \<Rightarrow> decode_string_from base n s (buf @ [b]) errs
           | None \<Rightarrow>
               if d = 0x78 then
                 (let d1 = next_nibble s; d2 = next_nibble (snd d1) in
                  case (fst d1, fst d2) of
                    (Some msb, Some lsb) \<Rightarrow> decode_string_from base n (snd d2) (buf @ [push_bit 4 msb OR lsb]) errs
                  | _ \<Rightarrow> do { sp \<leftarrow> span_at base start (n - byte_len (snd d2));
                              decode_string_from base n (snd d2) buf (errs @ [InvalidHexEscape sp]) })
               else do { sp \<leftarrow> span_at base start (n - byte_len s);
                         decode_string_from base n s buf (errs @ [UnrecognizedEscape sp d]) }))"
  by pat_completeness auto

termination
proof (relation "measure (\<lambda>(base, n, s, buf, errs). length s)")
qed (auto simp: less_Suc_eq_le intro: le_trans [OF length_dropWhile_le] le_trans [OF next_nibble_shorter] le_trans [OF next_nibble_shorter le_SucI])

definition decode_string_token :: "nat \<Rightarrow> source \<Rightarrow> u8 list \<Rightarrow> string_error list \<Rightarrow> (u8 list \<times> string_error list) panics" where
  "decode_string_token start src buf errs =
     do { ensure (src \<noteq> [] \<and> hd src = 0x22);
          let src = tl src;
          ensure (src \<noteq> [] \<and> last src = 0x22);
          let src = butlast src;
          base \<leftarrow> idx_add start 1;
          decode_string_from base (byte_len src) src buf errs }"

fun decode_hex_from ::
    "nat \<Rightarrow> nat \<Rightarrow> nat \<Rightarrow> bool \<Rightarrow> source \<Rightarrow> u8 list \<Rightarrow> string_error list \<Rightarrow> (u8 list \<times> string_error list) panics" where
  "decode_hex_from ti base n emitted [] buf errs = Some (buf, errs)"
| "decode_hex_from ti base n emitted (c1 # s) buf errs =
     (let msb = parse_nibble c1 in
      do { errs \<leftarrow> (if msb = None \<and> \<not> emitted
                   then do { p \<leftarrow> idx_add base (n - byte_len (c1 # s)); Some (errs @ [NonHexDigit p c1]) } else Some errs);
           let emitted = (emitted \<or> msb = None);
           (case s of
              [] \<Rightarrow> Some (buf, errs @ [OddHexDigitCount ti])
            | c2 # s' \<Rightarrow>
                (let lsb = parse_nibble c2 in
                 do { errs \<leftarrow> (if lsb = None \<and> \<not> emitted
                              then do { p \<leftarrow> idx_add base (n - byte_len s); Some (errs @ [NonHexDigit p c2]) } else Some errs);
                      decode_hex_from ti base n (emitted \<or> lsb = None) s'
                        (buf @ [push_bit 4 (case msb of Some m \<Rightarrow> m | None \<Rightarrow> 0) OR (case lsb of Some l \<Rightarrow> l | None \<Rightarrow> 0)]) errs })) })"

definition decode_hex_token :: "nat \<Rightarrow> nat \<Rightarrow> source \<Rightarrow> u8 list \<Rightarrow> string_error list \<Rightarrow> (u8 list \<times> string_error list) panics" where
  "decode_hex_token ti start src buf errs =
     do { ensure (take 4 src = [0x68, 0x65, 0x78, 0x22]);
          let src = drop 4 src;
          ensure (src \<noteq> [] \<and> last src = 0x22);
          let src = butlast src;
          base \<leftarrow> idx_add start 4;
          decode_hex_from ti base (byte_len src) False src buf errs }"

end
