(* ===== verification/String_Literals_Correct.thy ===== *)
theory String_Literals_Correct
  imports String_Literals
begin

text \<open>
  What string literals mean, and that the decoders compute it.
\<close>

section \<open>Strings\<close>

text \<open>The bytes that the text between the quotes of a string denotes.\<close>

inductive string_means :: "source \<Rightarrow> u8 list \<Rightarrow> bool" where
  means_end: "string_means [] []"
| means_char: "is_ascii c \<Longrightarrow> c \<noteq> 0x5C \<Longrightarrow> string_means s bs \<Longrightarrow> string_means (c # s) (of_nat c # bs)"
| means_escape: "simple_escape d = Some b \<Longrightarrow> string_means s bs \<Longrightarrow> string_means (0x5C # d # s) (b # bs)"
| means_hex: "parse_nibble h = Some msb \<Longrightarrow> parse_nibble l = Some lsb \<Longrightarrow> string_means s bs \<Longrightarrow>
    string_means (0x5C # 0x78 # h # l # s) ((push_bit 4 msb OR lsb) # bs)"

lemma simple_escape_x [simp]: "simple_escape 0x78 = None"
  by (simp add: simple_escape_def)

lemma backslash_ascii [simp]: "is_ascii 0x5C"
  by (simp add: is_ascii_def)

lemma decode_complete: "string_means s bs \<Longrightarrow> decode_string_from base n s buf errs = Some (buf @ bs, errs)"
  by (induction arbitrary: buf rule: string_means.induct) (simp_all add: Let_def next_nibble_def)

text \<open>The steps of the loop.\<close>

definition after_hex :: "source \<Rightarrow> source" where
  "after_hex s = snd (next_nibble (snd (next_nibble s)))"

definition bad_hex :: "source \<Rightarrow> bool" where
  "bad_hex s \<longleftrightarrow> fst (next_nibble s) = None \<or> fst (next_nibble (snd (next_nibble s))) = None"

lemma decode_steps:
  "\<not> is_ascii c \<Longrightarrow> decode_string_from base n (c # s) buf errs =
     do { sp \<leftarrow> span_at base (n - byte_len (c # s)) (n - byte_len (dropWhile (\<lambda>c. \<not> is_ascii c) s));
          decode_string_from base n (dropWhile (\<lambda>c. \<not> is_ascii c) s) buf (errs @ [UnicodeDisallowed sp]) }"
  "is_ascii c \<Longrightarrow> c \<noteq> 0x5C \<Longrightarrow> decode_string_from base n (c # s) buf errs = decode_string_from base n s (buf @ [of_nat c]) errs"
  "decode_string_from base n [0x5C] buf errs = None"
  "simple_escape d = Some b \<Longrightarrow> decode_string_from base n (0x5C # d # s) buf errs = decode_string_from base n s (buf @ [b]) errs"
  "parse_nibble h = Some msb \<Longrightarrow> parse_nibble l = Some lsb \<Longrightarrow>
     decode_string_from base n (0x5C # 0x78 # h # l # s) buf errs = decode_string_from base n s (buf @ [push_bit 4 msb OR lsb]) errs"
  "bad_hex s \<Longrightarrow> decode_string_from base n (0x5C # 0x78 # s) buf errs =
     do { sp \<leftarrow> span_at base (n - byte_len (0x5C # 0x78 # s)) (n - byte_len (after_hex s));
          decode_string_from base n (after_hex s) buf (errs @ [InvalidHexEscape sp]) }"
  "simple_escape d = None \<Longrightarrow> d \<noteq> 0x78 \<Longrightarrow> decode_string_from base n (0x5C # d # s) buf errs =
     do { sp \<leftarrow> span_at base (n - byte_len (0x5C # d # s)) (n - byte_len s);
          decode_string_from base n s buf (errs @ [UnrecognizedEscape sp d]) }"
  by (auto simp: Let_def next_nibble_def bad_hex_def after_hex_def simp del: byte_len_simps split: option.split list.splits)

lemma string_cases:
  obtains (empty) "s = []" | (unicode) c u where "s = c # u" "\<not> is_ascii c" | (plain) c u where "s = c # u" "is_ascii c" "c \<noteq> 0x5C"
    | (lone) "s = [0x5C]" | (escape) d b u where "s = 0x5C # d # u" "simple_escape d = Some b"
    | (hex) h l msb lsb u where "s = 0x5C # 0x78 # h # l # u" "parse_nibble h = Some msb" "parse_nibble l = Some lsb"
    | (bad) u where "s = 0x5C # 0x78 # u" "bad_hex u"
    | (other) d u where "s = 0x5C # d # u" "simple_escape d = None" "d \<noteq> 0x78"
proof (cases s)
  case (Cons c u)
  show ?thesis
  proof (cases "c = 0x5C")
    case True
    note c = this
    show ?thesis
    proof (cases u)
      case (Cons d v)
      show ?thesis
      proof (cases "d = 0x78")
        case True
        then show ?thesis
          using bad [of v] hex \<open>s = c # u\<close> c Cons
          by (cases v; cases "tl v"; cases "parse_nibble (hd v)"; cases "parse_nibble (hd (tl v))") (auto simp: bad_hex_def next_nibble_def)
      next
        case False
        then show ?thesis
          using escape other \<open>s = c # u\<close> c Cons by (cases "simple_escape d") auto
      qed
    qed (use lone \<open>s = c # u\<close> c in simp)
  next
    case False
    then show ?thesis
      using unicode plain Cons by blast
  qed
qed (use empty in simp)

lemma after_hex_length [simp]: "length (after_hex s) \<le> length s"
  using next_nibble_shorter [of s] next_nibble_shorter [of "snd (next_nibble s)"] by (simp add: after_hex_def)

lemma decode_sound:
  "decode_string_from base n s buf errs = Some (buf', errs') \<Longrightarrow>
   length errs \<le> length errs' \<and> (length errs' = length errs \<longrightarrow> errs' = errs \<and> (\<exists>bs. buf' = buf @ bs \<and> string_means s bs))"
proof (induction "length s" arbitrary: s buf errs rule: less_induct)
  case less
  show ?case
  proof (cases s rule: string_cases)
    case empty
    then show ?thesis
      using less.prems by (auto intro: means_end)
  next
    case (unicode c u)
    then obtain sp where "decode_string_from base n (dropWhile (\<lambda>c. \<not> is_ascii c) u) buf (errs @ [UnicodeDisallowed sp]) = Some (buf', errs')"
      using less.prems by (auto simp: decode_steps bind_Some simp del: decode_string_from.simps)
    from less.hyps [OF _ this] show ?thesis
      using unicode(1) length_dropWhile_le [of "\<lambda>c. \<not> is_ascii c" u] by auto
  next
    case (plain c u)
    then have "decode_string_from base n u (buf @ [of_nat c]) errs = Some (buf', errs')"
      using less.prems by (simp add: decode_steps del: decode_string_from.simps)
    from less.hyps [OF _ this] show ?thesis
      using plain means_char [OF plain(2,3)] by auto
  next
    case (escape d b u)
    then have "decode_string_from base n u (buf @ [b]) errs = Some (buf', errs')"
      using less.prems by (simp add: decode_steps del: decode_string_from.simps)
    from less.hyps [OF _ this] show ?thesis
      using escape(1) means_escape [OF escape(2)] by auto
  next
    case (hex h l msb lsb u)
    then have "decode_string_from base n u (buf @ [push_bit 4 msb OR lsb]) errs = Some (buf', errs')"
      using less.prems by (simp add: decode_steps del: decode_string_from.simps)
    from less.hyps [OF _ this] show ?thesis
      using hex(1) means_hex [OF hex(2,3)] by auto
  next
    case (bad u)
    then obtain sp where "decode_string_from base n (after_hex u) buf (errs @ [InvalidHexEscape sp]) = Some (buf', errs')"
      using less.prems by (auto simp: decode_steps bind_Some simp del: decode_string_from.simps)
    from less.hyps [OF _ this] show ?thesis
      using bad(1) after_hex_length [of u] by (auto simp: less_Suc_eq_le le_SucI)
  next
    case (other d u)
    then obtain sp where "decode_string_from base n u buf (errs @ [UnrecognizedEscape sp d]) = Some (buf', errs')"
      using less.prems by (auto simp: decode_steps bind_Some simp del: decode_string_from.simps)
    from less.hyps [OF _ this] show ?thesis
      using other(1) by auto
  qed (use less.prems in simp)
qed

section \<open>When the decoder returns\<close>

text \<open>No backslash among the two characters that follow \<open>\x\<close>.\<close>

definition hex_clean :: "source \<Rightarrow> bool" where
  "hex_clean s \<longleftrightarrow> (\<forall>u v. s = u @ 0x5C # 0x78 # v \<longrightarrow> 0x5C \<notin> set (take 2 v))"

lemma hex_clean_suffix: "hex_clean (u @ s) \<Longrightarrow> hex_clean s"
  unfolding hex_clean_def by (metis append_assoc)

lemma hex_clean_Cons: "hex_clean (c # s) \<Longrightarrow> hex_clean s"
  using hex_clean_suffix [of "[c]" s] by simp

inductive_cases body_Cons: "string_body m (c # s)"

lemma body_tail: "string_body m (c # s) \<Longrightarrow> c \<noteq> 0x5C \<Longrightarrow> \<exists>n. string_body n s"
  by (auto elim: body_Cons)

lemma body_after: "string_body m (0x5C # s) \<Longrightarrow> \<exists>d u. s = d # u \<and> string_body m u"
  by (auto elim: body_Cons)

lemma body_drop: "string_body m s \<Longrightarrow> \<exists>n. string_body n (dropWhile (\<lambda>c. \<not> is_ascii c) s)"
proof (induction s arbitrary: m)
  case (Cons c s)
  then show ?case
    using body_tail [of m c s] by (cases "is_ascii c") (auto simp: is_ascii_def)
qed auto

lemma body_after_hex:
  assumes "string_body m v" and "0x5C \<notin> set (take 2 v)"
  shows "\<exists>n. string_body n (after_hex v)"
proof (cases v)
  case (Cons a u)
  show ?thesis
  proof (cases u)
    case (Cons b w)
    have "a \<noteq> 0x5C" "b \<noteq> 0x5C"
      using assms(2) \<open>v = a # u\<close> Cons by auto
    moreover from this obtain k where "string_body k u"
      using assms(1) \<open>v = a # u\<close> body_tail by blast
    ultimately show ?thesis
      using \<open>v = a # u\<close> Cons body_tail [of k b w] by (simp add: after_hex_def next_nibble_def)
  qed (use \<open>v = a # u\<close> in \<open>auto simp: after_hex_def next_nibble_def intro: body_end\<close>)
qed (auto simp: after_hex_def next_nibble_def intro: body_end)

lemma span_at_Some: "is_idx (base + n) \<Longrightarrow> a \<le> n \<Longrightarrow> b \<le> n \<Longrightarrow> span_at base a b = Some (span_new (base + a) (base + b))"
  by (simp add: span_at_def bind_Some idx_add_Some is_idx_def)

lemma clean_after_hex: "hex_clean (0x5C # 0x78 # v) \<Longrightarrow> 0x5C \<notin> set (take 2 v) \<and> hex_clean (after_hex v)"
proof
  assume clean: "hex_clean (0x5C # 0x78 # v)"
  then show "0x5C \<notin> set (take 2 v)"
    unfolding hex_clean_def by (metis append_Nil)
  have "hex_clean v"
    using clean by (auto dest: hex_clean_Cons)
  moreover have "\<exists>u. v = u @ after_hex v"
    by (auto simp: after_hex_def next_nibble_def split: list.splits)
  ultimately show "hex_clean (after_hex v)"
    using hex_clean_suffix by metis
qed

lemma decode_returns:
  "string_body m s \<Longrightarrow> hex_clean s \<Longrightarrow> is_idx (base + n) \<Longrightarrow> \<exists>r. decode_string_from base n s buf errs = Some r"
proof (induction "length s" arbitrary: m s buf errs rule: less_induct)
  case less
  note IH = less.hyps and room = span_at_Some [OF less.prems(3)]
  show ?case
  proof (cases s rule: string_cases)
    case (unicode c u)
    let ?r = "dropWhile (\<lambda>c. \<not> is_ascii c) u"
    obtain k where "string_body k ?r"
      using body_drop [OF less.prems(1)] unicode by auto
    moreover have "hex_clean ?r"
      using less.prems(2) unicode(1) hex_clean_suffix [of "c # takeWhile (\<lambda>c. \<not> is_ascii c) u" ?r] by simp
    moreover have "length ?r < length s"
      using unicode(1) length_dropWhile_le [of "\<lambda>c. \<not> is_ascii c" u] by (simp add: less_Suc_eq_le)
    ultimately show ?thesis
      using IH [of ?r k] less.prems(3) unicode by (simp add: decode_steps room del: decode_string_from.simps)
  next
    case (plain c u)
    then obtain k where "string_body k u"
      using body_tail less.prems(1) by blast
    then show ?thesis
      using IH [of u k] plain less.prems(2,3) hex_clean_Cons [of c u] by (auto simp: decode_steps simp del: decode_string_from.simps)
  next
    case lone
    then show ?thesis
      using body_after [of m "[]"] less.prems(1) by simp
  next
    case (escape d b u)
    then show ?thesis
      using IH [of u m] body_after [of m "d # u"] less.prems hex_clean_suffix [of "[0x5C, d]" u]
      by (auto simp: decode_steps simp del: decode_string_from.simps)
  next
    case (hex h l msb lsb u)
    have "h \<noteq> 0x5C" "l \<noteq> 0x5C"
      using hex(2,3) by (auto simp: parse_nibble_def)
    moreover have "string_body m (h # l # u)"
      using less.prems(1) hex(1) body_after [of m "0x78 # h # l # u"] by simp
    ultimately obtain k where "string_body k u"
      using body_tail by blast
    then show ?thesis
      using IH [of u k] hex less.prems(2,3) hex_clean_suffix [of "[0x5C, 0x78, h, l]" u]
      by (auto simp: decode_steps simp del: decode_string_from.simps)
  next
    case (bad u)
    obtain k where "string_body k (after_hex u)"
      using body_after_hex [of m u] less.prems(1) bad(1) body_after [of m "0x78 # u"] clean_after_hex less.prems(2) by auto
    then show ?thesis
      using IH [of "after_hex u" k] bad less.prems clean_after_hex [of u] after_hex_length [of u]
      by (simp add: decode_steps room less_Suc_eq_le le_SucI del: decode_string_from.simps)
  next
    case (other d u)
    then show ?thesis
      using IH [of u m] body_after [of m "d # u"] less.prems hex_clean_suffix [of "[0x5C, d]" u]
      by (auto simp: decode_steps room simp del: decode_string_from.simps)
  qed simp
qed

lemma decode_token:
  assumes "is_idx (start + byte_len w)" and "w = 0x22 # s @ [0x22]"
  shows "decode_string_token start w buf errs = decode_string_from (start + 1) (byte_len s) s buf errs"
proof -
  have "idx_add start 1 = Some (start + 1)"
    using assms by (simp add: idx_add_Some is_idx_def utf8_len_def)
  then show ?thesis
    by (simp add: assms(2) decode_string_token_def Let_def)
qed

section \<open>Hexadecimal strings\<close>

fun hex_means :: "source \<Rightarrow> u8 list \<Rightarrow> bool" where
  "hex_means [] bs \<longleftrightarrow> bs = []"
| "hex_means [c] bs \<longleftrightarrow> False"
| "hex_means (c # d # s) bs \<longleftrightarrow>
     (\<exists>m l bs'. parse_nibble c = Some m \<and> parse_nibble d = Some l \<and> bs = (push_bit 4 m OR l) # bs' \<and> hex_means s bs')"

lemma decode_hex_run:
  assumes room: "is_idx (base + n)"
  shows "\<exists>bs e. decode_hex_from ti base n emitted s buf errs = Some (buf @ bs, errs @ e) \<and> length bs = length s div 2
    \<and> (e = [] \<longrightarrow> \<not> emitted \<longrightarrow> hex_means s bs) \<and> (\<forall>bs'. hex_means s bs' \<longrightarrow> e = [])"
proof (induction s arbitrary: emitted buf errs rule: induct_list012)
  case (2 c)
  then show ?case
    using room by (auto simp: Let_def idx_add_Some is_idx_def bind_Some)
next
  case (3 c d s)
  have idx: "idx_add base (n - k) = Some (base + (n - k))" for k
    using room by (simp add: idx_add_Some is_idx_def)
  let ?msb = "parse_nibble c" and ?lsb = "parse_nibble d"
  let ?e = "emitted \<or> ?msb = None" and ?e' = "(emitted \<or> ?msb = None) \<or> ?lsb = None"
  let ?b = "push_bit 4 (case ?msb of Some m \<Rightarrow> m | None \<Rightarrow> 0) OR (case ?lsb of Some l \<Rightarrow> l | None \<Rightarrow> 0)"
  let ?er = "(if ?msb = None \<and> \<not> emitted then [NonHexDigit (base + (n - byte_len (c # d # s))) c] else [])
    @ (if ?lsb = None \<and> \<not> ?e then [NonHexDigit (base + (n - byte_len (d # s))) d] else [])"
  obtain bs e where IH: "decode_hex_from ti base n ?e' s (buf @ [?b]) (errs @ ?er) = Some ((buf @ [?b]) @ bs, (errs @ ?er) @ e)"
      "length bs = length s div 2" "e = [] \<longrightarrow> \<not> ?e' \<longrightarrow> hex_means s bs" "\<forall>bs'. hex_means s bs' \<longrightarrow> e = []"
    using "3.IH"(1) by blast
  have "decode_hex_from ti base n emitted (c # d # s) buf errs = decode_hex_from ti base n ?e' s (buf @ [?b]) (errs @ ?er)"
    by (simp add: Let_def idx del: byte_len_simps)
  then show ?case
    using IH by (intro exI [of _ "?b # bs"] exI [of _ "?er @ e"]) auto
qed simp

lemma decode_hex_token_run:
  assumes "is_idx (start + byte_len w)" and "w = [0x68, 0x65, 0x78, 0x22] @ s @ [0x22]"
  shows "decode_hex_token ti start w buf errs = decode_hex_from ti (start + 4) (byte_len s) False s buf errs"
proof -
  have "idx_add start 4 = Some (start + 4)"
    using assms by (simp add: idx_add_Some is_idx_def utf8_len_def)
  then show ?thesis
    by (simp add: assms(2) decode_hex_token_def Let_def)
qed

end
