(* ===== verification/Literal_Tokens.thy ===== *)
theory Literal_Tokens
  imports String_Literals_Correct Bigint
begin

text \<open>
  The literals of the source language, from the source to their values: what the lexer makes of them, decoded by the
  parser of literals.
\<close>

section \<open>A source that is one string\<close>

lemma fixed_no_quote: "list_all (\<lambda>(t, s). s \<noteq> [] \<and> of_char (hd s) \<noteq> (0x22 :: nat)) fixed_texts"
  by (simp add: fixed_texts_def)

lemma quote_rule:
  assumes "r \<in> set lex_rules" and "pattern_length (ru_pattern r) (0x22 # s) = Some n"
  shows "r = \<lparr>ru_pattern = Literal [0x22], ru_token = TLooseStringLiteral, ru_action = StringAction\<rparr>"
proof -
  have "r \<notin> set (map fixed_rule fixed_texts)"
  proof
    assume "r \<in> set (map fixed_rule fixed_texts)"
    then obtain t str where x: "(t, str) \<in> set fixed_texts" "r = fixed_rule (t, str)"
      by auto
    then have "str \<noteq> []" "of_char (hd str) \<noteq> (0x22 :: nat)"
      using fixed_no_quote by (auto simp: list_all_iff)
    then show False
      using assms(2) x(2) by (cases str) (auto simp: fixed_rule_def pattern_length_def codes_def split: if_splits)
  qed
  then have "r \<in> set special_rules"
    using assms(1) by (simp add: lex_rules_def)
  then show ?thesis
    using assms(2)
    by (auto simp: special_rules_def pattern_length_def in_class_def ident_start_def digit_class_def space_class_def one_def split: if_splits)
qed

lemma lex_quoted:
  assumes gen: "logos find_rule error_len"
  shows "logos_next find_rule error_len (0x22 # s) = Some (let (res, rest) = lex_loose_string_literal s in (Some (result_token TLooseStringLiteral res), rest))"
proof -
  let ?q = "\<lparr>ru_pattern = Literal [0x22], ru_token = TLooseStringLiteral, ru_action = StringAction\<rparr>"
  have q: "?q \<in> set lex_rules" "pattern_length (ru_pattern ?q) (0x22 # s) = Some 1"
    by (simp_all add: lex_rules_def special_rules_def pattern_length_def)
  have "picks_longest (0x22 # s) (find_rule (0x22 # s))"
    by (rule logos.picks [OF gen])
  then obtain r n where r: "find_rule (0x22 # s) = Some (r, n)" "r \<in> set lex_rules" "pattern_length (ru_pattern r) (0x22 # s) = Some n"
    using q by (cases "find_rule (0x22 # s)") (auto simp: picks_longest_def)
  then have "r = ?q" "n = 1"
    using quote_rule [OF r(2,3)] q(2) by auto
  then show ?thesis
    using r(1) by (auto simp: logos_next_def run_action_def result_token_def split: prod.splits sum.splits)
qed

lemma loose_string_body: "string_body m s \<Longrightarrow> loose_string_from k (s @ 0x22 # u) = (if k \<or> m then Inl TMultilineStringError else Inr (), u)"
  by (induction arbitrary: k rule: string_body.induct) (auto simp: newline_def)

lemma lex_string_literal:
  assumes gen: "logos find_rule error_len" and s: "string_body False s" and w: "w = 0x22 # s @ [0x22]"
    and room: "byte_len w < u32_max" and fuel: "2 \<le> fuel"
  shows "lex fuel find_rule error_len w = Some \<lparr>le_tokens = [TLooseStringLiteral, TEof], le_source_ends = [byte_len w, byte_len w]\<rparr>"
proof -
  obtain k where k: "fuel = Suc (Suc k)"
    using fuel by (cases fuel; cases "fuel - 1") auto
  have one: "logos_next find_rule error_len w = Some (Some TLooseStringLiteral, [])"
    using lex_quoted [OF gen, of "s @ [0x22]"] loose_string_body [OF s, of False "[]"]
    by (simp add: w lex_loose_string_literal_def result_token_def)
  have two: "logos_next find_rule error_len [] = Some (None, [])"
    by (simp add: logos_next_def)
  have idx: "is_idx (0 + byte_len w)" "is_idx (byte_len w + byte_len [])"
    using room by (simp_all add: is_idx_def)
  have new: "lexer_new w = Some \<lparr>lx_rest = w, lx_pos = 0\<rparr>"
    using room by (simp add: lexer_new_def ensure_def)
  show ?thesis
    using next_with_eof_run [OF one _ idx(1)] next_with_eof_run [OF two _ idx(2), of "[]"]
    by (simp add: lex_def new k iv_push_Some bind_Some is_idx_def u32_max_def span_new_def)
qed

section \<open>Every sequence of bytes has a literal\<close>

definition hex_char :: "u8 \<Rightarrow> nat" where
  "hex_char d = (if d < 10 then 0x30 + unat d else 0x61 + (unat d - 10))"

definition quote_byte :: "u8 \<Rightarrow> source" where
  "quote_byte b = [0x5C, 0x78, hex_char (drop_bit 4 b), hex_char (take_bit 4 b)]"

definition quote_bytes :: "u8 list \<Rightarrow> source" where
  "quote_bytes bs = concat (map quote_byte bs)"

lemma parse_hex_char:
  assumes "unat d < 16"
  shows "parse_nibble (hex_char d) = Some d"
proof (cases "d < 10")
  case True
  then have "unat d < 10"
    by (simp add: word_less_nat_alt)
  then show ?thesis
    using True by (simp add: parse_nibble_def hex_char_def)
next
  case False
  then have "10 \<le> unat d"
    by (simp add: word_less_nat_alt)
  moreover from this have "of_nat (0x61 + (unat d - 10)) - 0x61 + 10 = d"
    by (simp add: of_nat_diff)
  ultimately show ?thesis
    using False assms by (simp add: parse_nibble_def hex_char_def)
qed

lemma nibbles: "unat (drop_bit 4 (b :: u8)) < 16" "unat (take_bit 4 (b :: u8)) < 16" "push_bit 4 (drop_bit 4 b) OR take_bit 4 b = (b :: u8)"
proof -
  have "unat b < 2 ^ 8"
    using unsigned_less [of b] by simp
  then show "unat (drop_bit 4 b) < 16"
    using less_mult_imp_div_less [of "unat b" 16 16] by (simp add: unat_drop_bit_eq drop_bit_nat_def)
  show "unat (take_bit 4 b) < 16"
    by (simp add: unsigned_take_bit_eq take_bit_nat_def)
  show "push_bit 4 (drop_bit 4 b) OR take_bit 4 b = b"
    by (rule bit_word_eqI) (auto simp: bit_simps)
qed

lemma hex_char_plain:
  assumes "unat d < 16"
  shows "hex_char d \<noteq> 0x22" "hex_char d \<noteq> 0x5C" "\<not> newline (hex_char d)"
proof -
  have "unat d < 10" if "d < 10"
    using that by (simp add: word_less_nat_alt)
  then show "hex_char d \<noteq> 0x22" "hex_char d \<noteq> 0x5C" "\<not> newline (hex_char d)"
    using assms by (auto simp: hex_char_def newline_def)
qed

lemma quote_means: "string_means (quote_bytes bs) bs"
proof (induction bs)
  case (Cons b bs)
  then show ?case
    using means_hex [OF parse_hex_char parse_hex_char Cons.IH, OF nibbles(1,2), of b b]
    by (simp add: quote_bytes_def quote_byte_def nibbles(3))
qed (simp add: quote_bytes_def means_end)

lemma quote_body: "string_body False (quote_bytes bs)"
proof (induction bs)
  case (Cons b bs)
  have "string_body False (hex_char (drop_bit 4 b) # hex_char (take_bit 4 b) # quote_bytes bs)"
    using body_char [OF hex_char_plain(1,2) [OF nibbles(1)] body_char [OF hex_char_plain(1,2) [OF nibbles(2)] Cons.IH]]
      hex_char_plain(3) [OF nibbles(1)] hex_char_plain(3) [OF nibbles(2)] by simp
  then show ?case
    by (simp add: quote_bytes_def quote_byte_def body_escape)
qed (simp add: quote_bytes_def body_end)

section \<open>Numbers\<close>

text \<open>The number that the digits of a literal denote.\<close>

definition number_value :: "nat \<Rightarrow> source \<Rightarrow> nat" where
  "number_value radix s = foldl (\<lambda>n c. if c = 0x5F then n else n * radix + the (char_digit c)) 0 s"

text \<open>\<open>try_parse_num_literal\<close> skips the prefix of the token and calls the parser of its kind on the bytes.\<close>

definition num_literal_kind :: "token \<Rightarrow> (nat \<times> (u8 list \<Rightarrow> u32 list_of_lists \<Rightarrow> (nat \<times> u32 list_of_lists) panics)) option" where
  "num_literal_kind t =
     (case t of
        TDecimalLiteral \<Rightarrow> Some (0, from_radix10_in)
      | THexLiteral \<Rightarrow> Some (2, from_radix16_in)
      | TBinLiteral \<Rightarrow> Some (2, from_radix2_in)
      | _ \<Rightarrow> None)"

definition parse_num_literal :: "token \<Rightarrow> source \<Rightarrow> u32 list_of_lists \<Rightarrow> ((nat \<times> u32 list_of_lists) option) panics" where
  "parse_num_literal t src limbs =
     (case num_literal_kind t of
        None \<Rightarrow> Some None
      | Some (prefix_len, parse) \<Rightarrow>
          do { digits \<leftarrow> slice_from (map of_nat src) prefix_len; r \<leftarrow> parse digits limbs; Some (Some r) })"

definition byte_digit :: "nat \<Rightarrow> (u8 \<Rightarrow> u32 option panics) \<Rightarrow> bool" where
  "byte_digit base digit \<longleftrightarrow> (\<forall>c. digit 0x5F = Some None \<and> (c \<noteq> 0x5F \<longrightarrow> in_class ident_class c \<longrightarrow> is_digit base c \<longrightarrow>
     (\<exists>d. digit (of_nat c) = Some (Some d) \<and> unat d = the (char_digit c))))"

lemma digit_chars:
  "in_class ident_class c \<Longrightarrow> c < 0x80"
  "is_digit 10 c \<longleftrightarrow> 0x30 \<le> c \<and> c \<le> 0x39"
  "is_digit 16 c \<longleftrightarrow> 0x30 \<le> c \<and> c \<le> 0x39 \<or> 0x41 \<le> c \<and> c \<le> 0x46 \<or> 0x61 \<le> c \<and> c \<le> 0x66"
  "is_digit 2 c \<longleftrightarrow> c = 0x30 \<or> c = 0x31"
  by (auto simp: in_class_def ident_class_def is_digit_def char_digit_def)

lemma byte_digits: "byte_digit 10 dec_digit" "byte_digit 16 hex_nibble" "byte_digit 2 bin_digit"
proof -
  have byte: "unat (of_nat c :: u8) = c" if "in_class ident_class c" for c
    using digit_chars(1) [OF that] by (simp add: unat_of_nat)
  have sub: "unat ((of_nat c :: u8) - of_nat k) = c - k" if "in_class ident_class c" "k \<le> c" for k c
    using byte [OF that(1)] digit_chars(1) [OF that(1)] that(2) by (simp add: unat_sub word_le_nat_alt unat_of_nat)
  show "byte_digit 10 dec_digit"
    using sub [where k = "0x30"] byte by (auto simp: byte_digit_def dec_digit_def digit_chars char_digit_def word_le_nat_alt)
  show "byte_digit 2 bin_digit"
    by (auto simp: byte_digit_def bin_digit_def digit_chars char_digit_def)
  show "byte_digit 16 hex_nibble"
    using sub [where k = "0x30"] sub [where k = 55] sub [where k = 87] byte
    by (auto simp: byte_digit_def hex_nibble_def digit_chars char_digit_def word_le_nat_alt)
qed

lemma digits_value_chars:
  assumes "byte_digit base digit" and "number_body base s"
  shows "digits_value base digit (map of_nat s) n = Some (foldl (\<lambda>n c. if c = 0x5F then n else n * base + the (char_digit c)) n s)"
  using assms(2)
proof (induction s arbitrary: n)
  case (Cons c s)
  show ?case
  proof (cases "c = 0x5F")
    case True
    have "digit 0x5F = Some None"
      using assms(1) by (simp add: byte_digit_def)
    then show ?thesis
      using True Cons by (simp add: number_body_def)
  next
    case False
    then obtain d where "digit (of_nat c) = Some (Some d)" "unat d = the (char_digit c)"
      using assms(1) Cons.prems by (auto simp: byte_digit_def number_body_def)
    then show ?thesis
      using False Cons by (simp add: number_body_def)
  qed
qed simp

text \<open>The radix and the digits of a number token.\<close>

definition number_token :: "token \<Rightarrow> nat \<Rightarrow> source \<Rightarrow> source \<Rightarrow> bool" where
  "number_token t radix p s \<longleftrightarrow> (t, radix, p) \<in> {(TDecimalLiteral, 10, []), (THexLiteral, 16, [0x30, 0x78]), (TBinLiteral, 2, [0x30, 0x62])}
     \<and> number_body radix s"

lemma number_classes:
  "in_class digit_class c \<Longrightarrow> in_class ident_class c \<and> is_digit 10 c" "in_class hex_class c \<Longrightarrow> in_class ident_class c \<and> is_digit 16 c"
  "in_class bin_class c \<Longrightarrow> in_class ident_class c \<and> is_digit 2 c"
  by (auto simp: in_class_def digit_class_def hex_class_def bin_class_def ident_class_def digit_chars)

lemma number_body_Cons: "number_body radix (c # s) \<longleftrightarrow> (c = 0x5F \<or> in_class ident_class c \<and> is_digit radix c) \<and> number_body radix s"
  by (simp add: number_body_def)

lemma number_shape:
  assumes "token_shape t w" and "num_literal_kind t \<noteq> None"
  shows "\<exists>radix p s. w = p @ s \<and> number_token t radix p s"
  using assms
  by (cases t) (auto simp: num_literal_kind_def token_shape_def special_shape_def number_token_def number_body_Cons dest: number_classes)

lemma num_kind_parser:
  assumes "number_token t radix p s"
  obtains digit limbs_of parser where "num_literal_kind t = Some (length p, parser)" "(radix, digit, limbs_of, parser) \<in> literal_parsers"
    "byte_digit radix digit"
  using assms byte_digits by (auto simp: number_token_def num_literal_kind_def literal_parsers_def)

lemma parse_num_literal_run:
  assumes "number_token t radix p s" and "lol_rep storage xss" and "length xss < u32_max"
    and "length (concat xss) + length s \<le> u32_max"
  shows "\<exists>limbs storage'. parse_num_literal t (p @ s) storage = Some (Some (length xss, storage')) \<and> lol_rep storage' (xss @ [limbs])
    \<and> limbs_value limbs = number_value radix s \<and> canonical limbs"
proof -
  obtain digit limbs_of parser where K: "num_literal_kind t = Some (length p, parser)" "(radix, digit, limbs_of, parser) \<in> literal_parsers"
      "byte_digit radix digit"
    using num_kind_parser [OF assms(1)] by blast
  have "digits_value radix digit (map of_nat s) 0 = Some (number_value radix s)"
    using digits_value_chars [OF K(3)] assms(1) by (simp add: number_token_def number_value_def)
  moreover have "length (concat xss) + length (map of_nat s :: u8 list) \<le> u32_max"
    using assms(4) by simp
  ultimately obtain limbs storage' where "parser (map of_nat s) storage = Some (length xss, storage')" "lol_rep storage' (xss @ [limbs])"
      "limbs_value limbs = number_value radix s" "canonical limbs"
    using literal_parsing_run [OF K(2) assms(2,3), of "map of_nat s"] by auto
  then show ?thesis
    by (auto simp: parse_num_literal_def K(1) slice_from_def slice_of_def bind_Some)
qed

section \<open>The properties\<close>

lemma nonempty_concat: "list_all (\<lambda>w. w \<noteq> []) ws \<Longrightarrow> length ws \<le> length (concat ws)"
proof (induction ws)
  case (Cons w ws)
  then show ?case
    by (cases w) auto
qed simp

text \<open>
  C20.  The lexer.  For every choice of rules that takes the longest match, and the literal rule on a tie, a source within the
  limit is lexed with fuel for one round per character.  Its tokens, before the one for the end, have texts that are not
  empty and make up the source; every text has the shape of its kind (a keyword is no identifier, a string ends at the
  first quote that is not escaped, the comments in a block comment are balanced); only the last can be an
  unclosed string or comment; and each token gets the span of its text.
\<close>

theorem lexer_correct:
  assumes "logos find_rule error_len" and "byte_len s < u32_max" and "length s < fuel"
  shows "\<exists>parts L. lex fuel find_rule error_len s = Some L \<and> le_tokens L = map fst parts @ [TEof]
    \<and> concat (map snd parts) = s \<and> (\<forall>(t, w) \<in> set parts. w \<noteq> [] \<and> token_shape t w \<and> t \<noteq> TEof)
    \<and> (\<forall>(t, w) \<in> set (butlast parts). \<not> runs_to_end t)
    \<and> (\<forall>i < length parts. lexed_get L i = Some (fst (parts ! i),
         span_new (byte_len (concat (map snd (take i parts)))) (byte_len (concat (map snd (take (Suc i) parts))))))"
proof -
  obtain parts where P: "lex fuel find_rule error_len s
      = Some \<lparr>le_tokens = map fst parts @ [TEof], le_source_ends = ends_from 0 (map snd parts) @ [byte_len s]\<rparr>"
      "concat (map snd parts) = s" "parts_ok parts"
    using lex_run [OF assms] by blast
  have "length (map snd parts) \<le> length s"
    using P(2,3) nonempty_concat [of "map snd parts"] by (auto simp: parts_ok_def list_all_iff case_prod_beta)
  then have "length parts < u32_max"
    using assms(2) byte_len_ge [of s] by simp
  then show ?thesis
    using P token_span [OF refl, of _ parts s] unfolding parts_ok_def
    by (intro exI [of _ parts] exI) auto
qed

lemma lexer_correct_witness:
  "\<exists>parts L. lex 9 try_all_rules (\<lambda>_. 1) (codes ''fn f(x)'') = Some L \<and> le_tokens L = map fst parts @ [TEof]
    \<and> concat (map snd parts) = codes ''fn f(x)'' \<and> (\<forall>(t, w) \<in> set parts. w \<noteq> [] \<and> token_shape t w \<and> t \<noteq> TEof)"
proof -
  have "byte_len (codes ''fn f(x)'') < u32_max" "length (codes ''fn f(x)'') < 9"
    by (simp_all add: codes_def utf8_len_def u32_max_def)
  from lexer_correct [OF all_rules.logos_axioms this] show ?thesis
    by blast
qed

text \<open>
  C22.  Round trip of strings.  Every sequence of bytes has a string literal: the source that writes each as \<open>\xHH\<close> is lexed
  as one string token, whose text decodes to the bytes, without errors.
\<close>

theorem string_literal_roundtrip:
  assumes "logos find_rule error_len" and "byte_len (0x22 # quote_bytes bs @ [0x22]) < u32_max" and "2 \<le> fuel"
  shows "\<exists>L. lex fuel find_rule error_len (0x22 # quote_bytes bs @ [0x22]) = Some L \<and> le_tokens L = [TLooseStringLiteral, TEof]
    \<and> lexed_get L 0 = Some (TLooseStringLiteral, span_new 0 (byte_len (0x22 # quote_bytes bs @ [0x22])))
    \<and> decode_string_token 0 (0x22 # quote_bytes bs @ [0x22]) [] [] = Some (bs, [])"
proof -
  have "decode_string_token 0 (0x22 # quote_bytes bs @ [0x22]) [] [] = Some (bs, [])"
    using assms(2) decode_token [OF _ refl, of 0 "quote_bytes bs" "[]" "[]"] decode_complete [OF quote_means] by (simp add: is_idx_def)
  then show ?thesis
    using lex_string_literal [OF assms(1) quote_body refl assms(2,3)]
    by (simp add: lexed_get_def token_src_span_def token_src_start_def iv_index_def)
qed

lemma string_literal_roundtrip_witness:
  "\<exists>L. lex 2 try_all_rules (\<lambda>_. 1) (0x22 # quote_bytes [0x00, 0xFF] @ [0x22]) = Some L \<and> le_tokens L = [TLooseStringLiteral, TEof]
    \<and> decode_string_token 0 (0x22 # quote_bytes [0x00, 0xFF] @ [0x22]) [] [] = Some ([0x00, 0xFF], [])"
proof -
  have "byte_len (0x22 # quote_bytes [0x00, 0xFF] @ [0x22]) < u32_max"
    by (simp add: quote_bytes_def quote_byte_def hex_char_def utf8_len_def u32_max_def)
  from string_literal_roundtrip [OF all_rules.logos_axioms this, of 2] show ?thesis
    by auto
qed



text \<open>
  C23.  The decoder relies on the lexer for a backslash not to be the last character, but after a \<open>\x\<close> without two digits it goes on
  behind the two characters it has tried, and the second can be the first of an escape.  The source \<open>"\x1\\"\<close>
  is lexed as one string token, and its decoding panics.
\<close>

theorem string_decoder_panics:
  assumes "logos find_rule error_len" and "2 \<le> fuel"
  shows "\<exists>L. lex fuel find_rule error_len [0x22, 0x5C, 0x78, 0x31, 0x5C, 0x5C, 0x22] = Some L \<and> le_tokens L = [TLooseStringLiteral, TEof]
    \<and> decode_string_token 0 [0x22, 0x5C, 0x78, 0x31, 0x5C, 0x5C, 0x22] buf errs = None"
proof -
  let ?s = "[0x5C, 0x78, 0x31, 0x5C, 0x5C] :: source"
  have "string_body False ?s"
    by (intro body_escape) (use body_char [OF _ _ body_escape [OF body_end], of "0x31" "0x5C"] in \<open>simp add: newline_def\<close>)
  moreover have "byte_len (0x22 # ?s @ [0x22]) < u32_max"
    by (simp add: utf8_len_def u32_max_def)
  moreover from this have "decode_string_token 0 (0x22 # ?s @ [0x22]) buf errs = None"
    by (subst decode_token [OF _ refl]) (simp_all add: is_idx_def decode_steps bad_hex_def after_hex_def next_nibble_def parse_nibble_def bind_eq_None_conv del: decode_string_from.simps)
  ultimately show ?thesis
    using lex_string_literal [OF assms(1) _ refl _ assms(2), of ?s] by simp
qed

lemma string_decoder_panics_witness:
  "\<exists>L. lex 2 try_all_rules (\<lambda>_. 1) [0x22, 0x5C, 0x78, 0x31, 0x5C, 0x5C, 0x22] = Some L \<and> le_tokens L = [TLooseStringLiteral, TEof]
    \<and> decode_string_token 0 [0x22, 0x5C, 0x78, 0x31, 0x5C, 0x5C, 0x22] [] [] = None"
  using string_decoder_panics [OF all_rules.logos_axioms, of 2] by simp

end
