(* ===== verification/Spec2Isabelle.thy ===== *)
theory Spec2Isabelle
  imports
    Prelude Bitset Evm_Arith Idx_Span Dense_Index_Set Index_Vec List_Of_Lists Dense_Index_Map
    Interner Bigint Chunked_Arena Evm_Op Assembler Assembler_Converge Sir_Operation Sir_Ir
    Sir_Exec Sir_Builder Sir_Blocks Cfg_Walk Dominators Cfg_Bundling Results Def_Use
    Legalizer Legal Legal_Example Sir_Effects Sccp Sccp_Correct Sir_Run Switch_Peephole
    Edge_Splitting Edge_Slots Edge_Splitting_Run Edge_Splitting_Correct Copy_Propagation Copy_Propagation_Correct
    Local_Liveness Legal_Views Local_Liveness_Correct Def_Use_Correct Unused_Elim Unused_Elim_Inv Unused_Elim_Correct
    Evm_Stack Op_Graph Tracked_Stack Scheduler Stack_Machine Op_Sets Op_Graph_Builder Scheduler_Correct
    Effect_Order Layouts Block_Graph Block_Graph_Inv Block_Graph_Run Block_Graph_Correct
    Lexer Lexer_Correct String_Literals String_Literals_Correct Literal_Tokens
begin

text \<open>
  A verification library for the Plank compiler (Rust, \<open>src/plankc\<close>).

  The compiler turns Plank source into EVM bytecode.  A front end (\<open>frontend/\<close>) parses, evaluates
  and lowers the language to the Sensei intermediate representation (SIR, \<open>sir/crates/data\<close>): a program
  of functions, basic blocks with inputs and outputs, and operations on locals, all stored in flat
  arrays that are addressed by typed indices.  Analyses and passes (\<open>sir/crates/passes\<close>) check and
  optimise the program, a back end orders the operations onto the EVM stack
  (\<open>sir/crates/stack-scheduling\<close>, \<open>release-backend\<close>), and an assembler (\<open>sir/crates/assembler\<close>) resolves
  the references between pieces of code and emits the bytes.  Everything rests on the containers of
  \<open>crates/plank-core\<close> and the arithmetic of \<open>crates/plank-evm\<close>.

  \<^bold>\<open>Conventions.\<close>  A Rust panic (failed assertion, index out of range, arithmetic overflow, \<open>unwrap\<close> of
  \<open>None\<close>) is \<open>None\<close> of the type \<open>'a panics\<close>, an abbreviation of \<open>'a option\<close>, and the code is written in
  \<open>do\<close> notation over it.  Rust's own \<open>Option\<close> is \<open>option\<close> inside it, \<open>Result\<close> is a sum with the
  error on the left.  A mutable receiver is a state that is returned updated.  Indices and \<open>usize\<close>
  values are natural numbers with the range checks of the source written out; \<open>u8\<close> to \<open>U512\<close> values that
  are computed with are words.  Structures are records, enumerations are datatypes with the
  variants of the source.

  \<^bold>\<open>Core containers.\<close>  \<open>Idx_Span\<close>: typed indices, spans and their double-ended iterator, the loop limit
  (\<open>index.rs\<close>, \<open>span.rs\<close>, \<open>lib.rs\<close>).  \<open>Bitset\<close> and \<open>Dense_Index_Set\<close>: the bit set and its iterator
  (\<open>dense_index_set.rs\<close>), refined to sets.  \<open>Index_Vec\<close>: indexed vectors and relative slices
  (\<open>index_vec/mod.rs\<close>).  \<open>List_Of_Lists\<close>: flat storage of lists (\<open>list_of_lists.rs\<close>), with the interface
  \<open>list_store\<close> as a locale.  \<open>Dense_Index_Map\<close> (\<open>dense_index_map.rs\<close>), refined to partial maps.
  \<open>Interner\<close> (\<open>intern.rs\<close>) over \<open>list_store\<close>; the hash table and the hasher are parameters under the
  named contract \<open>hash_table_contract\<close>.  \<open>Bigint\<close>: the literal parsers (\<open>bigint.rs\<close>).  \<open>Chunked_Arena\<close>:
  stable offsets into growing chunks (\<open>chunked_arena.rs\<close>); the allocator is a parameter.

  \<^bold>\<open>Arithmetic.\<close>  \<open>Evm_Arith\<close>: every operation of \<open>plank-evm/src/lib.rs\<close> on 256-bit words, with its
  meaning over the integers.

  \<^bold>\<open>Assembler.\<close>  \<open>Evm_Op\<close>: opcodes, names, push sizes (\<open>op.rs\<close>).  \<open>Assembler\<close>: the byte store and its
  sections, all push operations, the passes that let the mark offsets converge and the emission
  (\<open>assembler/src/lib.rs\<close>); its abstract specification is the stream \<open>asm_items\<close> and the relation
  \<open>laid_out\<close> between a stream, mark offsets and code.  \<open>Assembler_Converge\<close>: with the source's limit
  of 1024 passes, convergence for code with at most 255 references without a set size, by the
  potential that each pass that is not the last lets some reference grow, and each can grow four
  times.

  \<^bold>\<open>Intermediate representation.\<close>  \<open>Sir_Operation\<close>: the operation table (\<open>operation/mod.rs\<close>) and which
  operations the scheduler may flip.  \<open>Sir_Ir\<close>: programs, operation data, operand visitors as records of
  functions, views and successors (\<open>data/src/lib.rs\<close>, \<open>view.rs\<close>, \<open>op_data.rs\<close>, \<open>op_visitor.rs\<close>).
  \<open>Sir_Builder\<close> and \<open>Sir_Blocks\<close>: the checked construction of operations (\<open>try_build_op\<close>), and of
  functions, blocks and switches (\<open>builder.rs\<close>); what is built reads back through the views.
  \<open>Sir_Effects\<close>: the effect sets (\<open>effects.rs\<close>).

  \<open>Sir_Exec\<close> says which successor a run of a block takes (\<open>control_next\<close>).

  \<^bold>\<open>Graph analyses.\<close>  \<open>Cfg_Walk\<close>: the recursive walks over the blocks (\<open>reachability.rs\<close>,
  \<open>reverse_post_order.rs\<close>, \<open>basic_block_ownership.rs\<close>) and the predecessors (\<open>predecessors.rs\<close>), against the
  relation \<open>edge\<close> and its closure; fuel bounds the depth of a walk, which never exceeds the number of
  blocks.  \<open>Dominators\<close>: the iteration over the reverse post order and the frontiers (\<open>dominators.rs\<close>);
  its loops run under the source's \<open>LoopLimit\<close>, so they take no fuel, and end within it for programs of up
  to 25 million blocks.  \<open>Cfg_Bundling\<close>: the groups of block ends (\<open>cfg_in_out_bundling.rs\<close>), which two
  steps per block compute when no edge is critical, and a program with critical edges for which
  the loop does not end.

  \<^bold>\<open>Legalizer.\<close>  \<open>Legalizer\<close>: the checks of \<open>legalizer.rs\<close> in their order, with the errors as values
  (\<open>Results\<close> has the \<open>?\<close> operator and loops over it); the walks over blocks, calls and the dominator
  tree take fuel for their depth.  \<open>Legal\<close>: the well-formedness \<open>legal\<close> stated without the
  traversals, which acceptance implies; that accepted programs meet the hypotheses of the graph analyses
  (\<open>cfg_closed\<close>); and that along any walk from a function entry reads follow definitions.
  \<open>Legal_Example\<close> runs the legalizer on a program.

  \<^bold>\<open>Constant propagation.\<close>  \<open>Def_Use\<close>: def-use chains (\<open>def_use.rs\<close>).  \<open>Sccp\<close>: the pass
  (\<open>constant_propagation.rs\<close>): lattice, evaluation, the two worklists, edge feasibility, rewriting; and a
  concrete program on which the analysis as written loses a value.  Its loops take fuel, one unit
  per popped element.  \<open>Sccp_Correct\<close>: the measures that bound them (blocks are pushed once, values at
  most twice as many times as there are locals between two blocks), evaluation against the meaning of
  the operations, and the rewriting of control under a lattice that is right about a run.

  \<^bold>\<open>Liveness.\<close>  \<open>Local_Liveness\<close> (\<open>local_liveness.rs\<close>): the sets of live locals at block ends, computed until
  nothing changes, and the intervals.  The order of hash sets is a parameter; the loop takes
  fuel, one unit per pass, and each pass but the last adds a local to an exit set, so one more than the
  number of pairs of a block and a local is enough.  \<open>Local_Liveness_Correct\<close> compares both with liveness
  stated as an inductive relation over the runs.

  \<^bold>\<open>Other passes.\<close>  \<open>Sir_Run\<close>: runs of a block over a parameter that gives the meaning of operations.
  \<open>Switch_Peephole\<close> (\<open>switch_peephole.rs\<close>).  \<open>Edge_Splitting\<close> (\<open>critical_edge_splitting.rs\<close>), whose loop over
  blocks is shown equal to one over the places that hold targets (\<open>Edge_Slots\<close>); \<open>Edge_Splitting_Run\<close>
  has its invariant and that it returns, \<open>Edge_Splitting_Correct\<close> the runs and the graph of the result.
  \<open>Copy_Propagation\<close> (\<open>copy_propagation.rs\<close>) with its effect on the flat arrays of a legal program, and
  \<open>Copy_Propagation_Correct\<close>, that runs stay the same.

  \<open>Unused_Elim\<close> (\<open>unused_operation_elimination.rs\<close>) removes operations through the worklist of their inputs; \<open>Unused_Elim_Inv\<close>
  has the invariant that its use counts are exact (\<open>Def_Use_Correct\<close> says what the chains hold), and \<open>Unused_Elim_Correct\<close> that
  runs agree on the locals that are left and that nothing removable stays unread.

  \<^bold>\<open>Stack scheduling.\<close>  \<open>Evm_Stack\<close> and \<open>Tracked_Stack\<close> (\<open>stack.rs\<close>): the symbolic stack, and the one that emits what is
  done to it.  \<open>Op_Graph\<close> and \<open>Op_Sets\<close>: the stored graph of a block and its bit sets; \<open>Op_Graph_Builder\<close> refines the
  operations of its builder to lists of nodes (\<open>gs_rep\<close>, \<open>graph_rep\<close>).  \<open>Scheduler\<close>: the scheduling of the operations
  (\<open>scheduler.rs\<close>); \<open>Stack_Machine\<close> runs what is emitted, and \<open>Scheduler_Correct\<close> shows that it computes every operation from its
  inputs.  Its loop takes fuel, one unit per operation.  \<open>Layouts\<close> (\<open>layouts.rs\<close>): the layouts at block ends, which do not
  depend on the order of hash sets.  \<open>Effect_Order\<close> and \<open>Block_Graph\<close>: both builders of the graph of a block
  (\<open>build_effectful.rs\<close>, \<open>build_simple.rs\<close>); \<open>Block_Graph_Inv\<close>, \<open>Block_Graph_Run\<close> and \<open>Block_Graph_Correct\<close> follow the first one
  over the operations of a block to the graph it stores.

  \<^bold>\<open>Front end.\<close>  \<open>Lexer\<close> (\<open>parser/src/lexer.rs\<close>): the rules of the tokens, their callbacks and the loop over the source, which
  takes fuel for one round per character.  The generated choice of a rule is a parameter, under the contract of the
  locale \<open>logos\<close> (longest match); \<open>Lexer_Correct\<close> proves the split of the source and interprets the locale on code
  that tries all rules.  \<open>String_Literals\<close> (\<open>parser/strings.rs\<close>): the decoders of string tokens, compared in
  \<open>String_Literals_Correct\<close> with the bytes a text denotes.  \<open>Literal_Tokens\<close> takes literals from the source to their values,
  numbers through \<open>Bigint\<close>, and has the source whose decoding panics.

  \<^bold>\<open>Not modelled.\<close>  Formatting and display code, diagnostics, file access and command lines; the code
  that is generated for the lexers; freeing of arena memory; capacities and reserved space, which Rust's \<open>Vec\<close> hides; the shuffling of the
  stack at the end of a block.  The remaining passes, the back ends and the rest of the front end are listed in the
  manifest.
\<close>

end
